(* ===== verification/Prelude.thy ===== *)
theory Prelude
  imports Main "HOL-Library.Multiset"
begin

text \<open>
  Shared vocabulary of the development: the failures a run of the program can end in, the
  error monad over them, and the standard-library containers the sources use.

  \<^item> \<open>failure\<close> lists how a C++ run leaves the normal path: a failed \<open>assert\<close> (the
    debug build aborts), a null dereference, a thrown \<open>std::out_of_range\<close> or
    \<open>std::bad_optional_access\<close>, use of an empty container, a loop that never ends, or an
    \<open>llvm_unreachable\<close>.
  \<^item> \<open>std::map\<close> is an association list in ascending key order, \<open>std::set\<close> a
    strictly ascending list, \<open>std::multiset\<close> an ascending list: iteration order is the
    order of the list, as it is in C++.
  \<^item> \<open>lower_bound\<close> and \<open>upper_bound\<close> return the suffix that starts at the
    iterator the C++ algorithm returns; the empty suffix is \<open>end()\<close>.
\<close>

section \<open>Failures and the error monad\<close>

datatype failure =
    AssertFailed
  | NullDeref
  | OutOfRange
  | BadOptional
  | EmptyAccess
  | Diverges
  | Unreachable

type_synonym 'a result = "failure + 'a"

definition rbind :: "'a result \<Rightarrow> ('a \<Rightarrow> 'b result) \<Rightarrow> 'b result" where
  "rbind m f = (case m of Inl e \<Rightarrow> Inl e | Inr x \<Rightarrow> f x)"

definition rassert :: "bool \<Rightarrow> failure \<Rightarrow> 'a result \<Rightarrow> 'a result" where
  "rassert b e m = (if b then m else Inl e)"

fun rfold :: "('a \<Rightarrow> 's \<Rightarrow> 's result) \<Rightarrow> 'a list \<Rightarrow> 's \<Rightarrow> 's result" where
  "rfold f [] s = Inr s"
| "rfold f (x # xs) s = rbind (f x s) (rfold f xs)"

named_theorems monad_simps "evaluation of the error monad"

lemma rbind_Inl [simp, monad_simps]: "rbind (Inl e) f = Inl e"
  by (simp add: rbind_def)

lemma rbind_Inr [simp, monad_simps]: "rbind (Inr x) f = f x"
  by (simp add: rbind_def)

lemma rbind_eq_Inr [simp]: "rbind m f = Inr y \<longleftrightarrow> (\<exists>x. m = Inr x \<and> f x = Inr y)"
  by (cases m) auto

lemma rbind_eq_Inl: "rbind m f = Inl e \<longleftrightarrow> m = Inl e \<or> (\<exists>x. m = Inr x \<and> f x = Inl e)"
  by (cases m) auto

lemma rassert_eq_Inr [simp]: "rassert b e m = Inr y \<longleftrightarrow> b \<and> m = Inr y"
  by (simp add: rassert_def)

lemma rassert_True [simp, monad_simps]: "rassert True e m = m"
  by (simp add: rassert_def)

lemma rassert_False [simp, monad_simps]: "rassert False e m = Inl e"
  by (simp add: rassert_def)

lemma rbind_cong [fundef_cong]:
  "m = m' \<Longrightarrow> (\<And>x. m' = Inr x \<Longrightarrow> f x = g x) \<Longrightarrow> rbind m f = rbind m' g"
  by (cases m') auto

lemma rbind_assoc: "rbind (rbind m f) g = rbind m (\<lambda>x. rbind (f x) g)"
  by (cases m) auto

lemma rfold_append: "rfold f (xs @ ys) s = rbind (rfold f xs s) (rfold f ys)"
proof (induction xs arbitrary: s)
  case (Cons x xs)
  have "rfold f (xs @ ys) = (\<lambda>s. rbind (rfold f xs s) (rfold f ys))"
    using Cons.IH by (rule ext)
  then show ?case by (simp add: rbind_assoc)
qed simp

lemma rfold_concat: "rfold (\<lambda>x. rfold f (h x)) xs s = rfold f (concat (map h xs)) s"
proof (induction xs arbitrary: s)
  case (Cons x xs)
  have "rfold f (h x @ concat (map h xs)) s = rbind (rfold f (h x) s) (rfold f (concat (map h xs)))"
    by (rule rfold_append)
  moreover have "rfold (\<lambda>x. rfold f (h x)) xs = rfold f (concat (map h xs))"
    using Cons.IH by (rule ext)
  ultimately show ?case by simp
qed simp

lemma rfold_invariant:
  assumes "rfold f xs s = Inr t" and "I s"
    and "\<And>x s t. x \<in> set xs \<Longrightarrow> I s \<Longrightarrow> f x s = Inr t \<Longrightarrow> I t"
  shows "I t"
  using assms
proof (induction xs arbitrary: s)
  case (Cons x xs)
  then obtain u where "f x s = Inr u" "rfold f xs u = Inr t" by auto
  with Cons.prems(2,3) Cons.IH [of u] show ?case by auto
qed simp

text \<open>A result that does not end in one of the failures \<open>B\<close>.\<close>

definition avoids :: "failure set \<Rightarrow> 'a result \<Rightarrow> bool" where
  "avoids B m \<longleftrightarrow> (\<forall>x \<in> B. m \<noteq> Inl x)"

lemma avoids_rules:
  "avoids B (Inr x)"
  "e \<notin> B \<Longrightarrow> avoids B (Inl e)"
  "avoids B m \<Longrightarrow> (\<And>x. m = Inr x \<Longrightarrow> avoids B (f x)) \<Longrightarrow> avoids B (rbind m f)"
  "e \<notin> B \<Longrightarrow> (b \<Longrightarrow> avoids B m) \<Longrightarrow> avoids B (rassert b e m)"
  by (auto simp: avoids_def rassert_def rbind_def split: sum.splits)

section \<open>Search and bounds on sorted ranges\<close>

text \<open>\<open>std::find_if\<close> is \<open>find\<close>.\<close>

lemma find_mem: "find Q xs = Some x \<Longrightarrow> x \<in> set xs \<and> Q x"
  by (induction xs) (auto split: if_splits)

definition lower_bound :: "'a::linorder \<Rightarrow> 'a list \<Rightarrow> 'a list" where
  "lower_bound x xs = dropWhile (\<lambda>y. y < x) xs"

definition upper_bound :: "'a::linorder \<Rightarrow> 'a list \<Rightarrow> 'a list" where
  "upper_bound x xs = dropWhile (\<lambda>y. y \<le> x) xs"

text \<open>What \<open>vector::insert(lower_bound(v), v)\<close> does when \<open>v\<close> is not yet there.\<close>

definition sorted_insert :: "'a::linorder \<Rightarrow> 'a list \<Rightarrow> 'a list" where
  "sorted_insert x xs =
     (case lower_bound x xs of
        [] \<Rightarrow> xs @ [x]
      | y # ys \<Rightarrow> if y = x then xs else takeWhile (\<lambda>y. y < x) xs @ x # y # ys)"

lemma strict_sorted_Cons:
  "sorted_wrt (<) (x # xs) \<longleftrightarrow> sorted_wrt (<) xs \<and> (\<forall>y \<in> set xs. x < (y::'a::linorder))"
  by auto

lemma sorted_insert_Nil [simp]: "sorted_insert x [] = [x]"
  by (simp add: sorted_insert_def lower_bound_def)

lemma sorted_insert_Cons [simp]:
  "sorted_insert x (y # ys) =
     (if y < x then y # sorted_insert x ys else if y = x then y # ys else x # y # ys)"
proof (cases "y < x")
  case True
  then show ?thesis
    by (cases "dropWhile (\<lambda>y. y < x) ys")
      (simp_all add: sorted_insert_def lower_bound_def del: dropWhile_eq_Nil_conv)
qed (simp add: sorted_insert_def lower_bound_def)

lemma set_sorted_insert [simp]: "set (sorted_insert x xs) = insert x (set xs)"
  by (induction xs) auto

lemma sorted_sorted_insert [intro]:
  "sorted_wrt (<) xs \<Longrightarrow> sorted_wrt (<) (sorted_insert (x::'a::linorder) xs)"
  by (induction xs) auto

lemma lower_bound_Nil_iff:
  "lower_bound x xs = [] \<longleftrightarrow> (\<forall>y \<in> set xs. y < x)"
  by (auto simp: lower_bound_def dropWhile_eq_Nil_conv)

lemma upper_bound_Nil_iff:
  "upper_bound x xs = [] \<longleftrightarrow> (\<forall>y \<in> set xs. y \<le> x)"
  by (auto simp: upper_bound_def dropWhile_eq_Nil_conv)

lemma lower_bound_hd:
  "sorted_wrt (<) xs \<Longrightarrow> lower_bound x xs = y # ys \<Longrightarrow>
     y \<in> set xs \<and> x \<le> y \<and> (\<forall>z \<in> set xs. x \<le> z \<longrightarrow> y \<le> (z::'a::linorder))"
  by (induction xs) (auto simp: lower_bound_def split: if_splits)

lemma upper_bound_hd:
  "sorted_wrt (<) xs \<Longrightarrow> upper_bound x xs = y # ys \<Longrightarrow>
     y \<in> set xs \<and> x < y \<and> (\<forall>z \<in> set xs. x < z \<longrightarrow> y \<le> (z::'a::linorder))"
  by (induction xs) (auto simp: upper_bound_def split: if_splits)

section \<open>Ordered maps\<close>

text \<open>\<open>m[k] = v\<close> and \<open>m.insert({k, v})\<close> of \<open>std::map\<close>; lookup is \<open>map_of\<close>.\<close>

fun om_put :: "'k::linorder \<Rightarrow> 'v \<Rightarrow> ('k \<times> 'v) list \<Rightarrow> ('k \<times> 'v) list" where
  "om_put k v [] = [(k, v)]"
| "om_put k v ((k', v') # m) =
     (if k < k' then (k, v) # (k', v') # m
      else if k = k' then (k, v) # m
      else (k', v') # om_put k v m)"

definition om_insert :: "'k::linorder \<Rightarrow> 'v \<Rightarrow> ('k \<times> 'v) list \<Rightarrow> ('k \<times> 'v) list" where
  "om_insert k v m = (case map_of m k of Some _ \<Rightarrow> m | None \<Rightarrow> om_put k v m)"

text \<open>The value \<open>m[k]\<close> refers to: default-constructed when the key is new.\<close>

definition om_at :: "'v \<Rightarrow> 'k \<Rightarrow> ('k \<times> 'v) list \<Rightarrow> 'v" where
  "om_at d k m = (case map_of m k of Some v \<Rightarrow> v | None \<Rightarrow> d)"

definition om_sorted :: "('k::linorder \<times> 'v) list \<Rightarrow> bool" where
  "om_sorted m \<longleftrightarrow> sorted_wrt (<) (map fst m)"

lemma om_sorted_Nil [simp]: "om_sorted []"
  by (simp add: om_sorted_def)

lemma om_put_keys: "set (map fst (om_put k v m)) = insert k (set (map fst m))"
  by (induction m rule: om_put.induct [of _ _ v]) (auto simp del: set_map simp: insert_commute)

lemma om_sorted_put [intro]: "om_sorted m \<Longrightarrow> om_sorted (om_put k v m)"
proof (induction m)
  case (Cons a m)
  obtain k' v' where "a = (k', v')" by (cases a)
  with Cons show ?case using om_put_keys [of k v m] by (auto simp: om_sorted_def)
qed (simp add: om_sorted_def)

lemma map_of_om_put [simp]:
  "om_sorted m \<Longrightarrow> map_of (om_put k v m) = (map_of m)(k \<mapsto> v)"
proof (induction m)
  case (Cons a m)
  obtain k' v' where a: "a = (k', v')" by (cases a)
  have notin: "map_of m k = None" if "k < k'"
    using Cons.prems that a by (force simp: om_sorted_def map_of_eq_None_iff)
  from Cons a notin show ?case by (auto simp: om_sorted_def fun_eq_iff)
qed simp

lemma om_sorted_insert [intro]: "om_sorted m \<Longrightarrow> om_sorted (om_insert k v m)"
  by (auto simp: om_insert_def split: option.splits)

lemma map_of_om_insert [simp]:
  "om_sorted m \<Longrightarrow>
     map_of (om_insert k v m) = (if k \<in> dom (map_of m) then map_of m else (map_of m)(k \<mapsto> v))"
  by (auto simp: om_insert_def split: option.splits)

lemma om_at_put [simp]:
  "om_sorted m \<Longrightarrow> om_at d k' (om_put k v m) = (if k' = k then v else om_at d k' m)"
  by (simp add: om_at_def)

lemma om_sorted_distinct: "om_sorted m \<Longrightarrow> distinct (map fst m)"
  by (simp add: om_sorted_def strict_sorted_iff)

lemma om_mem_iff: "om_sorted m \<Longrightarrow> (k, v) \<in> set m \<longleftrightarrow> map_of m k = Some v"
  using om_sorted_distinct map_of_eq_Some_iff by fastforce

end
