(* ===== verification/LLVMView.thy ===== *)
theory LLVMView
  imports Prelude
begin

text \<open>
  What the sources ask of LLVM. The LLVM library is not part of the repository, so a module is
  a parameter: a record of the queries of the LLVM API that the modelled code makes, each field
  named after the C++ method. \<open>llvm::Value *\<close> and its subclasses (instructions,
  functions, basic blocks) are addresses, compared and ordered as pointers.
\<close>

type_synonym llvm_value = nat

datatype value_class =
    LoadInst | StoreInst | CallInst | InvokeInst | PHINode | CmpInst | BranchInst | SwitchInst
  | BitCastOperator | GlobalAlias | GlobalVariable | FunctionV | ConstantInt | UndefValue
  | OtherValue

record llvm_module =
  classOf :: "llvm_value \<Rightarrow> value_class"
  hasName :: "llvm_value \<Rightarrow> bool"
  getName :: "llvm_value \<Rightarrow> string"
  users :: "llvm_value \<Rightarrow> llvm_value list"
  stripPointerCasts :: "llvm_value \<Rightarrow> llvm_value"
  getOperand :: "llvm_value \<Rightarrow> nat \<Rightarrow> llvm_value"
  getArgOperand :: "llvm_value \<Rightarrow> nat \<Rightarrow> llvm_value"
  numArgOperands :: "llvm_value \<Rightarrow> nat"
  getArg :: "llvm_value \<Rightarrow> nat \<Rightarrow> llvm_value"
  argSize :: "llvm_value \<Rightarrow> nat"
  isPointerTy :: "llvm_value \<Rightarrow> bool"
  isInt8PtrTy :: "llvm_value \<Rightarrow> bool"
  isInt32PtrTy :: "llvm_value \<Rightarrow> bool"
  returnsVoid :: "llvm_value \<Rightarrow> bool"
  getPointerOperand :: "llvm_value \<Rightarrow> llvm_value"
  getCalledFunction :: "llvm_value \<Rightarrow> llvm_value option"
  getCalledOperand :: "llvm_value \<Rightarrow> llvm_value"
  getIndirectSymbol :: "llvm_value \<Rightarrow> llvm_value"
  isIndirectCall :: "llvm_value \<Rightarrow> bool"
  getNextNode :: "llvm_value \<Rightarrow> llvm_value option"
  getParent :: "llvm_value \<Rightarrow> llvm_value"
  getFunction :: "llvm_value \<Rightarrow> llvm_value"
  getZExtValue :: "llvm_value \<Rightarrow> nat"
  isICmpEq :: "llvm_value \<Rightarrow> bool"
  isAtomic :: "llvm_value \<Rightarrow> bool"
  isVolatile :: "llvm_value \<Rightarrow> bool"
  isThreadLocal :: "llvm_value \<Rightarrow> bool"
  isIntrinsic :: "llvm_value \<Rightarrow> bool"
  isDeclaration :: "llvm_value \<Rightarrow> bool"
  isDebugInfoForProfiling :: "llvm_value \<Rightarrow> bool"
  getBasicBlockList :: "llvm_value \<Rightarrow> llvm_value list"
  getInstList :: "llvm_value \<Rightarrow> llvm_value list"
  successors :: "llvm_value \<Rightarrow> llvm_value list"
  predecessors :: "llvm_value \<Rightarrow> llvm_value list"
  getDefaultDest :: "llvm_value \<Rightarrow> llvm_value"
  getFunctionList :: "llvm_value list"

text \<open>\<open>isa<llvm::CallBase>\<close>: a call or an invoke.\<close>

definition isCallBase :: "'x llvm_module_scheme \<Rightarrow> llvm_value \<Rightarrow> bool" where
  "isCallBase M v \<longleftrightarrow> classOf M v = CallInst \<or> classOf M v = InvokeInst"

text \<open>
  An empty module, from which concrete instances are built by field update: every query
  answers with the value's own address, nothing, or no.
\<close>

definition empty_module :: llvm_module where
  "empty_module =
     \<lparr> classOf = (\<lambda>_. OtherValue), hasName = (\<lambda>_. False), getName = (\<lambda>_. ''''),
       users = (\<lambda>_. []), stripPointerCasts = (\<lambda>v. v), getOperand = (\<lambda>v _. v),
       getArgOperand = (\<lambda>v _. v), numArgOperands = (\<lambda>_. 0),
       getArg = (\<lambda>v _. v), argSize = (\<lambda>_. 0), isPointerTy = (\<lambda>_. False),
       isInt8PtrTy = (\<lambda>_. False), isInt32PtrTy = (\<lambda>_. False),
       returnsVoid = (\<lambda>_. False), getPointerOperand = (\<lambda>v. v),
       getCalledFunction = (\<lambda>_. None), getCalledOperand = (\<lambda>v. v),
       getIndirectSymbol = (\<lambda>v. v), isIndirectCall = (\<lambda>_. False),
       getNextNode = (\<lambda>_. None), getParent = (\<lambda>v. v), getFunction = (\<lambda>v. v),
       getZExtValue = (\<lambda>_. 0), isICmpEq = (\<lambda>_. False), isAtomic = (\<lambda>_. False),
       isVolatile = (\<lambda>_. False), isThreadLocal = (\<lambda>_. False), isIntrinsic = (\<lambda>_. False),
       isDeclaration = (\<lambda>_. False), isDebugInfoForProfiling = (\<lambda>_. False),
       getBasicBlockList = (\<lambda>_. []), getInstList = (\<lambda>_. []), successors = (\<lambda>_. []),
       predecessors = (\<lambda>_. []), getDefaultDest = (\<lambda>v. v), getFunctionList = [] \<rparr>"

end
