(* ===== verification/LangModel.thy ===== *)
theory LangModel
  imports LLVMView "HOL-Library.Sublist"
begin

text \<open>
  The language model (src/LanguageModel): the recognizers of runtime functions by name
  (OpenMP.h, pthread.h, LLVMInstrinsics.h), the resolution of a call's target
  (\<open>CallIR::resolveTargetFunction\<close> of src/IR/IR.cpp), and the parts of \<open>RaceModel\<close>
  that decide what is an origin, a heap allocation, or a thread entry, and which arguments a
  fork passes to the outlined function. A \<open>StringRef\<close> is a character list.
\<close>

section \<open>Recognizers\<close>

named_theorems recognizers "definitions of the name recognizers"

definition matchesAny :: "string \<Rightarrow> string list \<Rightarrow> bool" where
  "matchesAny funcName names = list_ex (\<lambda>name. funcName = name) names"

definition isForStaticInit :: "string \<Rightarrow> bool" where
  "isForStaticInit funcName =
     matchesAny funcName [''__kmpc_for_static_init_4'', ''__kmpc_for_static_init_4u'',
       ''__kmpc_for_static_init_8'', ''__kmpc_for_static_init_8u'']"

definition isFork :: "string \<Rightarrow> bool" where
  "isFork funcName \<longleftrightarrow> funcName = ''__kmpc_fork_call''"

definition isForkTeams :: "string \<Rightarrow> bool" where
  "isForkTeams funcName \<longleftrightarrow> funcName = ''__kmpc_fork_teams''"

definition isForStaticFini :: "string \<Rightarrow> bool" where
  "isForStaticFini funcName \<longleftrightarrow> funcName = ''__kmpc_for_static_fini''"

definition isSingleStart :: "string \<Rightarrow> bool" where
  "isSingleStart funcName \<longleftrightarrow> funcName = ''__kmpc_single''"

definition isSingleEnd :: "string \<Rightarrow> bool" where
  "isSingleEnd funcName \<longleftrightarrow> funcName = ''__kmpc_end_single''"

definition isBarrier :: "string \<Rightarrow> bool" where
  "isBarrier funcName \<longleftrightarrow> funcName = ''__kmpc_barrier''"

definition isReduceStart :: "string \<Rightarrow> bool" where
  "isReduceStart funcName \<longleftrightarrow> funcName = ''__kmpc_reduce''"

definition isReduceEnd :: "string \<Rightarrow> bool" where
  "isReduceEnd funcName \<longleftrightarrow> funcName = ''__kmpc_end_reduce''"

definition isReduceNowaitStart :: "string \<Rightarrow> bool" where
  "isReduceNowaitStart funcName \<longleftrightarrow> funcName = ''__kmpc_reduce_nowait''"

definition isReduceNowaitEnd :: "string \<Rightarrow> bool" where
  "isReduceNowaitEnd funcName \<longleftrightarrow> funcName = ''__kmpc_end_reduce_nowait''"

definition isCriticalStart :: "string \<Rightarrow> bool" where
  "isCriticalStart funcName \<longleftrightarrow> funcName = ''__kmpc_critical''"

definition isCriticalEnd :: "string \<Rightarrow> bool" where
  "isCriticalEnd funcName \<longleftrightarrow> funcName = ''__kmpc_end_critical''"

definition isMasterStart :: "string \<Rightarrow> bool" where
  "isMasterStart funcName \<longleftrightarrow> funcName = ''__kmpc_master''"

definition isMasterEnd :: "string \<Rightarrow> bool" where
  "isMasterEnd funcName \<longleftrightarrow> funcName = ''__kmpc_end_master''"

definition isSetLock :: "string \<Rightarrow> bool" where
  "isSetLock funcName \<longleftrightarrow> funcName = ''omp_set_lock''"

definition isUnsetLock :: "string \<Rightarrow> bool" where
  "isUnsetLock funcName \<longleftrightarrow> funcName = ''omp_unset_lock''"

definition isTaskAlloc :: "string \<Rightarrow> bool" where
  "isTaskAlloc funcName \<longleftrightarrow> funcName = ''__kmpc_omp_task_alloc''"

definition isTask :: "string \<Rightarrow> bool" where
  "isTask funcName \<longleftrightarrow> funcName = ''__kmpc_omp_task''"

definition isTaskWait :: "string \<Rightarrow> bool" where
  "isTaskWait funcName \<longleftrightarrow> funcName = ''__kmpc_omp_taskwait''"

definition isSetNestLock :: "string \<Rightarrow> bool" where
  "isSetNestLock funcName \<longleftrightarrow> funcName = ''omp_set_nest_lock''"

definition isUnsetNestLock :: "string \<Rightarrow> bool" where
  "isUnsetNestLock funcName \<longleftrightarrow> funcName = ''omp_unset_nest_lock''"

definition isOrderedStart :: "string \<Rightarrow> bool" where
  "isOrderedStart funcName \<longleftrightarrow> funcName = ''__kmpc_ordered''"

definition isOrderedEnd :: "string \<Rightarrow> bool" where
  "isOrderedEnd funcName \<longleftrightarrow> funcName = ''__kmpc_end_ordered''"

definition isGetThreadNum :: "string \<Rightarrow> bool" where
  "isGetThreadNum funcName \<longleftrightarrow> funcName = ''omp_get_thread_num''"

definition isGetThreadNumGuardStart :: "string \<Rightarrow> bool" where
  "isGetThreadNumGuardStart funcName \<longleftrightarrow> funcName = ''omp_get_thread_num_guard_start''"

definition isGetThreadNumGuardEnd :: "string \<Rightarrow> bool" where
  "isGetThreadNumGuardEnd funcName \<longleftrightarrow> funcName = ''omp_get_thread_num_guard_end''"

definition isForDispatchInit :: "string \<Rightarrow> bool" where
  "isForDispatchInit funcName \<longleftrightarrow> prefix ''__kmpc_dispatch_init'' funcName"

definition isForDispatchNext :: "string \<Rightarrow> bool" where
  "isForDispatchNext funcName \<longleftrightarrow> prefix ''__kmpc_dispatch_next'' funcName"

definition isForDispatchFini :: "string \<Rightarrow> bool" where
  "isForDispatchFini funcName \<longleftrightarrow> prefix ''__kmpc_dispatch_fini'' funcName"

definition isOpenMP :: "string \<Rightarrow> bool" where
  "isOpenMP funcName \<longleftrightarrow> prefix ''__kmpc'' funcName"

definition isOutlined :: "string \<Rightarrow> bool" where
  "isOutlined funcName \<longleftrightarrow> prefix ''.omp_outlined.'' funcName"

definition isDebugOutlined :: "string \<Rightarrow> bool" where
  "isDebugOutlined funcName \<longleftrightarrow> prefix ''.omp_outlined._debug'' funcName"

definition omp_isNoEffect :: "string \<Rightarrow> bool" where
  "omp_isNoEffect funcName \<longleftrightarrow>
     matchesAny funcName [''__kmpc_push_num_threads'', ''__kmpc_global_thread_num'',
       ''__kmpc_copyprivate'', ''__kmpc_push_num_teams'']
     \<or> isReduceEnd funcName \<or> isReduceNowaitEnd funcName \<or> isTaskAlloc funcName"

definition isPthreadCreate :: "string \<Rightarrow> bool" where
  "isPthreadCreate funcName \<longleftrightarrow> funcName = ''pthread_create''"

definition isPthreadJoin :: "string \<Rightarrow> bool" where
  "isPthreadJoin funcName \<longleftrightarrow> funcName = ''pthread_join''"

definition isPthreadMutexLock :: "string \<Rightarrow> bool" where
  "isPthreadMutexLock funcName \<longleftrightarrow> funcName = ''pthread_mutex_lock''"

definition isPthreadMutexUnlock :: "string \<Rightarrow> bool" where
  "isPthreadMutexUnlock funcName \<longleftrightarrow> funcName = ''pthread_mutex_unlock''"

definition isPthreadSpinLock :: "string \<Rightarrow> bool" where
  "isPthreadSpinLock funcName \<longleftrightarrow> funcName = ''pthread_spin_lock''"

definition isPthreadSpinUnlock :: "string \<Rightarrow> bool" where
  "isPthreadSpinUnlock funcName \<longleftrightarrow> funcName = ''pthread_spin_unlock''"

definition isPthreadOnce :: "string \<Rightarrow> bool" where
  "isPthreadOnce funcName \<longleftrightarrow> funcName = ''pthread_once''"

definition isDebug :: "string \<Rightarrow> bool" where
  "isDebug funcName \<longleftrightarrow> funcName = ''llvm.dbg.declare'' \<or> funcName = ''llvm.dbg.value''"

definition isLifetime :: "string \<Rightarrow> bool" where
  "isLifetime funcName \<longleftrightarrow> prefix ''llvm.lifetime'' funcName"

definition isStackSave :: "string \<Rightarrow> bool" where
  "isStackSave funcName \<longleftrightarrow> funcName = ''llvm.stacksave''"

definition isStackRestore :: "string \<Rightarrow> bool" where
  "isStackRestore funcName \<longleftrightarrow> funcName = ''llvm.stackrestore''"

definition isMemcpy :: "string \<Rightarrow> bool" where
  "isMemcpy funcName \<longleftrightarrow> prefix ''llvm.memcpy'' funcName"

definition llvm_isNoEffect :: "string \<Rightarrow> bool" where
  "llvm_isNoEffect funcName \<longleftrightarrow>
     isDebug funcName \<or> isLifetime funcName \<or> isStackSave funcName \<or> isStackRestore funcName
     \<or> isMemcpy funcName"

definition isPrintf :: "string \<Rightarrow> bool" where
  "isPrintf funcName \<longleftrightarrow> funcName = ''printf''"

text \<open>
  The overloads on a call instruction: a null call is not recognised, but the called function
  is dereferenced without a null check.
\<close>

definition isOnCall :: "(string \<Rightarrow> bool) \<Rightarrow> llvm_module \<Rightarrow> llvm_value option \<Rightarrow> bool result" where
  "isOnCall recog M callInst =
     (case callInst of
        None \<Rightarrow> Inr False
      | Some c \<Rightarrow>
          (case getCalledFunction M c of
             None \<Rightarrow> Inl NullDeref
           | Some f \<Rightarrow> if \<not> hasName M f then Inr False else Inr (recog (getName M f))))"

definition isForkCall :: "llvm_module \<Rightarrow> llvm_value option \<Rightarrow> bool result" where
  "isForkCall = isOnCall isFork"

definition isForkTeamsCall :: "llvm_module \<Rightarrow> llvm_value option \<Rightarrow> bool result" where
  "isForkTeamsCall = isOnCall isForkTeams"

definition isTaskCall :: "llvm_module \<Rightarrow> llvm_value option \<Rightarrow> bool result" where
  "isTaskCall = isOnCall isTask"

lemmas recognizer_defs [recognizers] =
  matchesAny_def
  isForStaticInit_def
  isFork_def
  isForkTeams_def
  isForStaticFini_def
  isSingleStart_def
  isSingleEnd_def
  isBarrier_def
  isReduceStart_def
  isReduceEnd_def
  isReduceNowaitStart_def
  isReduceNowaitEnd_def
  isCriticalStart_def
  isCriticalEnd_def
  isMasterStart_def
  isMasterEnd_def
  isSetLock_def
  isUnsetLock_def
  isTaskAlloc_def
  isTask_def
  isTaskWait_def
  isSetNestLock_def
  isUnsetNestLock_def
  isOrderedStart_def
  isOrderedEnd_def
  isGetThreadNum_def
  isGetThreadNumGuardStart_def
  isGetThreadNumGuardEnd_def
  isForDispatchInit_def
  isForDispatchNext_def
  isForDispatchFini_def
  isOpenMP_def
  isOutlined_def
  isDebugOutlined_def
  omp_isNoEffect_def
  isPthreadCreate_def
  isPthreadJoin_def
  isPthreadMutexLock_def
  isPthreadMutexUnlock_def
  isPthreadSpinLock_def
  isPthreadSpinUnlock_def
  isPthreadOnce_def
  isDebug_def
  isLifetime_def
  isStackSave_def
  isStackRestore_def
  isMemcpy_def
  llvm_isNoEffect_def
  isPrintf_def

section \<open>Call targets\<close>

definition resolveTargetFunction :: "llvm_module \<Rightarrow> llvm_value \<Rightarrow> llvm_value option" where
  "resolveTargetFunction M callInst =
     (case getCalledFunction M callInst of
        Some f \<Rightarrow> if \<not> hasName M f then None else Some f
      | None \<Rightarrow>
          (let calledValue = getCalledOperand M callInst;
               op0 = getOperand M calledValue 0;
               sym = stripPointerCasts M (getIndirectSymbol M calledValue)
           in if classOf M calledValue = BitCastOperator \<and> classOf M op0 = FunctionV then Some op0
              else if classOf M calledValue = GlobalAlias \<and> classOf M sym = FunctionV then Some sym
              else None))"

section \<open>RaceModel\<close>

definition isHeapAllocAPI :: "llvm_module \<Rightarrow> llvm_value \<Rightarrow> bool" where
  "isHeapAllocAPI M F =
     (if \<not> hasName M F then False
      else getName M F \<in> {''malloc'', ''calloc'', ''_Zname'', ''_Znwm'', ''__kmpc_omp_task_alloc''})"

definition origins :: "string set" where
  "origins = {''pthread_create'', ''__kmpc_fork_call'', ''__kmpc_omp_task'',
              ''__kmpc_omp_task_alloc'', ''__kmpc_fork_teams''}"

definition isInvokingAnOrigin :: "llvm_module \<Rightarrow> llvm_value \<Rightarrow> bool" where
  "isInvokingAnOrigin M I =
     (if \<not> isCallBase M I then False
      else (case getCalledFunction M I of
              None \<Rightarrow> False
            | Some f \<Rightarrow> if \<not> hasName M f then False else getName M f \<in> origins))"

text \<open>
  \<open>isCompatible\<close>: an indirect thread entry fits a \<open>pthread_create\<close> when it takes one
  \<open>i8*\<close>, and an OpenMP fork when it takes four arguments, the second an \<open>i32*\<close>, and
  returns void.
\<close>

definition isCompatible :: "llvm_module \<Rightarrow> llvm_value \<Rightarrow> llvm_value \<Rightarrow> bool result" where
  "isCompatible M callsite target =
     (case getCalledFunction M callsite of
        None \<Rightarrow> Inl AssertFailed
      | Some threadCreate \<Rightarrow>
          (let name = getName M threadCreate
           in if isPthreadCreate name then
                (if argSize M target \<noteq> 1 then Inr False
                 else Inr (isInt8PtrTy M (getArg M target 0)))
              else if isFork name then
                (if argSize M target \<noteq> 4 then Inr False
                 else Inr (isInt32PtrTy M (getArg M target 1) \<and> returnsVoid M target))
              else Inl Unreachable))"

datatype intercept_option = EXPAND_BODY | ONLY_CALLSITE | IGNORE_FUN

text \<open>
  The entry of a task is an argument of the \<open>__kmpc_omp_task_alloc\<close> call that made it
  (\<open>OpenMPTaskFork::getThreadEntry\<close>).
\<close>

definition taskThreadEntry :: "llvm_module \<Rightarrow> llvm_value \<Rightarrow> llvm_value result" where
  "taskThreadEntry M inst =
     (let taskAlloc = stripPointerCasts M (getArgOperand M inst 2)
      in rassert (isCallBase M taskAlloc) AssertFailed
           (case getCalledFunction M taskAlloc of
              None \<Rightarrow> Inl NullDeref
            | Some f \<Rightarrow>
                rassert (isTaskAlloc (getName M f)) AssertFailed
                  (Inr (stripPointerCasts M (getArgOperand M taskAlloc 5)))))"

definition interceptFunction ::
  "llvm_module \<Rightarrow> llvm_value \<Rightarrow> llvm_value \<Rightarrow> (llvm_value option \<times> intercept_option) result" where
  "interceptFunction M F callsite =
     (let funcName = getName M F
      in if isIntrinsic M F then Inr (None, IGNORE_FUN)
         else if isPthreadCreate funcName then
           Inr (Some (stripPointerCasts M (stripPointerCasts M (getArgOperand M callsite 2))), EXPAND_BODY)
         else if isFork funcName \<or> isForkTeams funcName then
           Inr (Some (stripPointerCasts M (getArgOperand M callsite 2)), EXPAND_BODY)
         else if isTask funcName then
           rbind (taskThreadEntry M callsite) (\<lambda>e. Inr (Some e, EXPAND_BODY))
         else Inr (Some F, EXPAND_BODY))"

text \<open>
  The argument links of an OpenMP fork: from the third parameter of the outlined function and
  the fourth argument of the call onwards, a copy edge for each parameter of pointer type. The
  loop runs to the end of the parameters and reads the caller's argument only for a pointer.
\<close>

function linkForkArgs ::
  "llvm_module \<Rightarrow> llvm_value \<Rightarrow> llvm_value \<Rightarrow> nat \<Rightarrow> nat \<Rightarrow> (llvm_value \<times> llvm_value) list result" where
  "linkForkArgs M callee call calleeArg callerArg =
     (if calleeArg < argSize M callee then
        let formal = getArg M callee calleeArg
        in if isPointerTy M formal then
             rassert (callerArg < numArgOperands M call) OutOfRange
               (rbind (linkForkArgs M callee call (Suc calleeArg) (Suc callerArg))
                 (\<lambda>cs. Inr ((getArgOperand M call callerArg, formal) # cs)))
           else linkForkArgs M callee call (Suc calleeArg) (Suc callerArg)
      else Inr [])"
  by pat_completeness auto
termination
  by (relation "measure (\<lambda>(M, callee, call, i, j). argSize M callee - i)") auto

declare linkForkArgs.simps [simp del]

text \<open>
  \<open>interceptCallSite\<close>: whether the call is modelled, and the copy constraints
  (actual, formal) it adds.
\<close>

definition interceptCallSite ::
  "llvm_module \<Rightarrow> llvm_value \<Rightarrow> llvm_value \<Rightarrow> (bool \<times> (llvm_value \<times> llvm_value) list) result" where
  "interceptCallSite M calleeFun callsite =
     (if \<not> isCallBase M callsite then Inr (False, [])
      else (case getCalledFunction M callsite of
          None \<Rightarrow> Inr (False, [])
        | Some f \<Rightarrow>
            if \<not> hasName M f then Inr (False, [])
            else if isPthreadCreate (getName M f) then
              Inr (True, [(getArgOperand M callsite 3, getArg M calleeFun 0)])
            else if isFork (getName M f) \<or> isForkTeams (getName M f) then
              rassert (2 \<le> argSize M calleeFun) OutOfRange
                (rbind (linkForkArgs M calleeFun callsite 2 3) (\<lambda>cs. Inr (True, cs)))
            else if isTask (getName M f) then
              Inr (True, [(getArgOperand M callsite 2, getArg M calleeFun 1)])
            else Inr (False, [])))"

section \<open>Lemmas\<close>

text \<open>
  The recognizers of the summary builder are tried in a fixed order, so it matters that no two
  of the exact ones accept the same name.
\<close>

lemma isTask_not_alloc: "isTask n \<Longrightarrow> \<not> isTaskAlloc n"
  by (simp add: recognizers)

lemma isFork_not_teams: "isFork n \<Longrightarrow> \<not> isForkTeams n"
  by (simp add: recognizers)

lemma llvm_names_not_runtime:
  assumes "llvm_isNoEffect n"
  shows "\<not> isOpenMP n" and "\<not> isFork n" and "\<not> isForkTeams n" and "\<not> isTask n"
  using assms by (auto simp: recognizers prefix_def)

text \<open>The pairs a fork links, by position: parameter \<open>i\<close> receives argument \<open>i + 1\<close>.\<close>

lemma linkForkArgs_pairs:
  assumes "linkForkArgs M callee call i (Suc i) = Inr cs"
  shows "set cs = {(getArgOperand M call (Suc k), getArg M callee k) | k.
           i \<le> k \<and> k < argSize M callee \<and> isPointerTy M (getArg M callee k)}"
  using assms
proof (induction "argSize M callee - i" arbitrary: i cs)
  case 0
  then have "\<not> i < argSize M callee" by simp
  with 0 show ?case by (auto simp: linkForkArgs.simps [of M callee call i])
next
  case (Suc n)
  then have i: "i < argSize M callee" and n: "n = argSize M callee - Suc i" by auto
  have step: "{k. i \<le> k \<and> k < argSize M callee} = insert i {k. Suc i \<le> k \<and> k < argSize M callee}"
    using i by auto
  obtain cs' where rec: "linkForkArgs M callee call (Suc i) (Suc (Suc i)) = Inr cs'"
    and cs: "cs = (if isPointerTy M (getArg M callee i)
                   then (getArgOperand M call (Suc i), getArg M callee i) # cs' else cs')"
    using Suc.prems i by (auto simp: linkForkArgs.simps [of M callee call i] Let_def split: if_splits)
  have IH: "set cs' = {(getArgOperand M call (Suc k), getArg M callee k) | k.
           Suc i \<le> k \<and> k < argSize M callee \<and> isPointerTy M (getArg M callee k)}"
    using Suc.hyps(1) [OF n rec] .
  show ?case
    unfolding cs using IH i by (auto simp: le_eq_less_or_eq Suc_le_eq)
qed

end
