(* ===== verification/IRModel.thy ===== *)
theory IRModel
  imports LangModel
begin

text \<open>
  The race IR (src/IR/IR.h, IRImpls.h, IR.cpp): the enumeration \<open>IR::Type\<close> with its range
  markers, the \<open>classof\<close> tests that compare against them, the concrete IR classes, and the
  operands each class reads from its LLVM instruction. Enumerators carry the prefix \<open>Ty\<close>;
  the classes keep their names.
\<close>

section \<open>IR::Type\<close>

datatype ir_type =
    TyRead | TyLoad | TyAPIRead | TyEND_Read | TyWrite | TyStore | TyAPIWrite | TyEND_Write |
  TyFork | TyPthreadCreate | TyOpenMPFork | TyOpenMPTaskFork | TyOpenMPForkTeams |
  TyEND_Fork | TyJoin | TyPthreadJoin | TyOpenMPJoin | TyOpenMPTaskJoin | TyOpenMPJoinTeams
  | TyEND_Join | TyLock | TyPthreadMutexLock | TyPthreadSpinLock | TyOpenMPCriticalStart |
  TyOpenMPSetLock | TyOpenMPOrderedStart | TyEND_Lock | TyUnlock | TyPthreadMutexUnlock |
  TyPthreadSpinUnlock | TyOpenMPCriticalEnd | TyOpenMPUnsetLock | TyOpenMPOrderedEnd |
  TyEND_Unlock | TyBarrier | TyOpenMPBarrier | TyEND_Barrier | TyCall | TyOpenMPForInit |
  TyOpenMPForFini | TyOpenMPDispatchInit | TyOpenMPDispatchNext | TyOpenMPDispatchFini |
  TyOpenMPSingleStart | TyOpenMPSingleEnd | TyOpenMPReduce | TyOpenMPMasterStart |
  TyOpenMPMasterEnd | TyOpenMPGetThreadNum | TyOpenMPTaskWait |
  TyOpenMPGetThreadNumGuardStart | TyOpenMPGetThreadNumGuardEnd | TyEND_Call

text \<open>The numeric value of an enumerator: its position.\<close>

fun ir_rank :: "ir_type \<Rightarrow> nat" where
  "ir_rank TyRead = 0"
| "ir_rank TyLoad = 1"
| "ir_rank TyAPIRead = 2"
| "ir_rank TyEND_Read = 3"
| "ir_rank TyWrite = 4"
| "ir_rank TyStore = 5"
| "ir_rank TyAPIWrite = 6"
| "ir_rank TyEND_Write = 7"
| "ir_rank TyFork = 8"
| "ir_rank TyPthreadCreate = 9"
| "ir_rank TyOpenMPFork = 10"
| "ir_rank TyOpenMPTaskFork = 11"
| "ir_rank TyOpenMPForkTeams = 12"
| "ir_rank TyEND_Fork = 13"
| "ir_rank TyJoin = 14"
| "ir_rank TyPthreadJoin = 15"
| "ir_rank TyOpenMPJoin = 16"
| "ir_rank TyOpenMPTaskJoin = 17"
| "ir_rank TyOpenMPJoinTeams = 18"
| "ir_rank TyEND_Join = 19"
| "ir_rank TyLock = 20"
| "ir_rank TyPthreadMutexLock = 21"
| "ir_rank TyPthreadSpinLock = 22"
| "ir_rank TyOpenMPCriticalStart = 23"
| "ir_rank TyOpenMPSetLock = 24"
| "ir_rank TyOpenMPOrderedStart = 25"
| "ir_rank TyEND_Lock = 26"
| "ir_rank TyUnlock = 27"
| "ir_rank TyPthreadMutexUnlock = 28"
| "ir_rank TyPthreadSpinUnlock = 29"
| "ir_rank TyOpenMPCriticalEnd = 30"
| "ir_rank TyOpenMPUnsetLock = 31"
| "ir_rank TyOpenMPOrderedEnd = 32"
| "ir_rank TyEND_Unlock = 33"
| "ir_rank TyBarrier = 34"
| "ir_rank TyOpenMPBarrier = 35"
| "ir_rank TyEND_Barrier = 36"
| "ir_rank TyCall = 37"
| "ir_rank TyOpenMPForInit = 38"
| "ir_rank TyOpenMPForFini = 39"
| "ir_rank TyOpenMPDispatchInit = 40"
| "ir_rank TyOpenMPDispatchNext = 41"
| "ir_rank TyOpenMPDispatchFini = 42"
| "ir_rank TyOpenMPSingleStart = 43"
| "ir_rank TyOpenMPSingleEnd = 44"
| "ir_rank TyOpenMPReduce = 45"
| "ir_rank TyOpenMPMasterStart = 46"
| "ir_rank TyOpenMPMasterEnd = 47"
| "ir_rank TyOpenMPGetThreadNum = 48"
| "ir_rank TyOpenMPTaskWait = 49"
| "ir_rank TyOpenMPGetThreadNumGuardStart = 50"
| "ir_rank TyOpenMPGetThreadNumGuardEnd = 51"
| "ir_rank TyEND_Call = 52"

definition ir_types :: "ir_type list" where
  "ir_types =
     [TyRead, TyLoad, TyAPIRead, TyEND_Read, TyWrite, TyStore, TyAPIWrite, TyEND_Write, TyFork,
      TyPthreadCreate, TyOpenMPFork, TyOpenMPTaskFork, TyOpenMPForkTeams, TyEND_Fork,
      TyJoin, TyPthreadJoin, TyOpenMPJoin, TyOpenMPTaskJoin, TyOpenMPJoinTeams,
      TyEND_Join, TyLock, TyPthreadMutexLock, TyPthreadSpinLock, TyOpenMPCriticalStart,
      TyOpenMPSetLock, TyOpenMPOrderedStart, TyEND_Lock, TyUnlock, TyPthreadMutexUnlock,
      TyPthreadSpinUnlock, TyOpenMPCriticalEnd, TyOpenMPUnsetLock, TyOpenMPOrderedEnd,
      TyEND_Unlock, TyBarrier, TyOpenMPBarrier, TyEND_Barrier, TyCall, TyOpenMPForInit,
      TyOpenMPForFini, TyOpenMPDispatchInit, TyOpenMPDispatchNext, TyOpenMPDispatchFini,
      TyOpenMPSingleStart, TyOpenMPSingleEnd, TyOpenMPReduce, TyOpenMPMasterStart,
      TyOpenMPMasterEnd, TyOpenMPGetThreadNum, TyOpenMPTaskWait,
      TyOpenMPGetThreadNumGuardStart, TyOpenMPGetThreadNumGuardEnd, TyEND_Call]"

lemma ir_types_rank: "ir_types ! ir_rank t = t"
  by (cases t) (simp_all add: ir_types_def)

lemma ir_rank_inject: "ir_rank s = ir_rank t \<longleftrightarrow> s = t"
  by (metis ir_types_rank)

instantiation ir_type :: linorder
begin

definition less_eq_ir_type :: "ir_type \<Rightarrow> ir_type \<Rightarrow> bool" where
  "s \<le> t \<longleftrightarrow> ir_rank s \<le> ir_rank t"

definition less_ir_type :: "ir_type \<Rightarrow> ir_type \<Rightarrow> bool" where
  "s < t \<longleftrightarrow> ir_rank s < ir_rank t"

instance
  by standard (auto simp: less_eq_ir_type_def less_ir_type_def ir_rank_inject)

end

lemmas ir_order = less_eq_ir_type_def less_ir_type_def

section \<open>The interface classes: classof\<close>

definition isMemAccessIR :: "ir_type \<Rightarrow> bool" where
  "isMemAccessIR t \<longleftrightarrow> TyRead \<le> t \<and> t \<le> TyEND_Write"

definition isReadIR :: "ir_type \<Rightarrow> bool" where
  "isReadIR t \<longleftrightarrow> TyRead \<le> t \<and> t < TyEND_Read"

definition isWriteIR :: "ir_type \<Rightarrow> bool" where
  "isWriteIR t \<longleftrightarrow> TyWrite \<le> t \<and> t < TyEND_Write"

definition isForkIR :: "ir_type \<Rightarrow> bool" where
  "isForkIR t \<longleftrightarrow> TyFork \<le> t \<and> t < TyEND_Fork"

definition isJoinIR :: "ir_type \<Rightarrow> bool" where
  "isJoinIR t \<longleftrightarrow> TyJoin \<le> t \<and> t < TyEND_Join"

definition isLockIR :: "ir_type \<Rightarrow> bool" where
  "isLockIR t \<longleftrightarrow> TyLock \<le> t \<and> t < TyEND_Lock"

definition isUnlockIR :: "ir_type \<Rightarrow> bool" where
  "isUnlockIR t \<longleftrightarrow> TyUnlock \<le> t \<and> t < TyEND_Unlock"

definition isBarrierIR :: "ir_type \<Rightarrow> bool" where
  "isBarrierIR t \<longleftrightarrow> TyBarrier \<le> t \<and> t < TyEND_Barrier"

definition isCallIR :: "ir_type \<Rightarrow> bool" where
  "isCallIR t \<longleftrightarrow> TyCall \<le> t \<and> t < TyEND_Call"

lemmas ir_classof =
  isMemAccessIR_def isReadIR_def isWriteIR_def isForkIR_def isJoinIR_def isLockIR_def
  isUnlockIR_def isBarrierIR_def isCallIR_def

section \<open>The implementation classes\<close>

datatype omp_thread_type = Master | Other

text \<open>
  \<open>OpenMPFork\<close> has the call instruction and the kind of the forked thread; \<open>OpenMPJoin\<close>
  holds the fork it belongs to, as \<open>OpenMPJoinTeams\<close> and \<open>OpenMPTaskJoin\<close> hold theirs
  (of which only the instruction matters). \<open>LockIRImpl\<close>, \<open>UnlockIRImpl\<close> and
  \<open>CallIRImpl\<close> are the templates over \<open>IR::Type\<close>.
\<close>

datatype omp_fork = OmpFork (fork_inst: llvm_value) (forkedThreadType: omp_thread_type)

datatype ir =
    Load llvm_value | APIRead llvm_value nat
  | Store llvm_value | APIWrite llvm_value nat
  | PthreadCreate llvm_value | OpenMPFork omp_fork | OpenMPTaskFork llvm_value
  | OpenMPForkTeams llvm_value
  | PthreadJoin llvm_value | OpenMPJoin omp_fork | OpenMPTaskJoin llvm_value
  | OpenMPJoinTeams llvm_value
  | LockIRImpl ir_type llvm_value | OpenMPCriticalStart llvm_value
  | UnlockIRImpl ir_type llvm_value | OpenMPCriticalEnd llvm_value
  | OpenMPBarrier llvm_value
  | CallIR llvm_value | CallIRImpl ir_type llvm_value

fun irType :: "ir \<Rightarrow> ir_type" where
  "irType (Load _) = TyLoad"
| "irType (APIRead _ _) = TyAPIRead"
| "irType (Store _) = TyStore"
| "irType (APIWrite _ _) = TyAPIWrite"
| "irType (PthreadCreate _) = TyPthreadCreate"
| "irType (OpenMPFork _) = TyOpenMPFork"
| "irType (OpenMPTaskFork _) = TyOpenMPTaskFork"
| "irType (OpenMPForkTeams _) = TyOpenMPForkTeams"
| "irType (PthreadJoin _) = TyPthreadJoin"
| "irType (OpenMPJoin _) = TyOpenMPJoin"
| "irType (OpenMPTaskJoin _) = TyOpenMPTaskJoin"
| "irType (OpenMPJoinTeams _) = TyOpenMPJoinTeams"
| "irType (LockIRImpl t _) = t"
| "irType (OpenMPCriticalStart _) = TyOpenMPCriticalStart"
| "irType (UnlockIRImpl t _) = t"
| "irType (OpenMPCriticalEnd _) = TyOpenMPCriticalEnd"
| "irType (OpenMPBarrier _) = TyOpenMPBarrier"
| "irType (CallIR _) = TyCall"
| "irType (CallIRImpl t _) = t"

fun getInst :: "ir \<Rightarrow> llvm_value" where
  "getInst (Load i) = i"
| "getInst (APIRead i _) = i"
| "getInst (Store i) = i"
| "getInst (APIWrite i _) = i"
| "getInst (PthreadCreate i) = i"
| "getInst (OpenMPFork f) = fork_inst f"
| "getInst (OpenMPTaskFork i) = i"
| "getInst (OpenMPForkTeams i) = i"
| "getInst (PthreadJoin i) = i"
| "getInst (OpenMPJoin f) = fork_inst f"
| "getInst (OpenMPTaskJoin i) = i"
| "getInst (OpenMPJoinTeams i) = i"
| "getInst (LockIRImpl _ i) = i"
| "getInst (OpenMPCriticalStart i) = i"
| "getInst (UnlockIRImpl _ i) = i"
| "getInst (OpenMPCriticalEnd i) = i"
| "getInst (OpenMPBarrier i) = i"
| "getInst (CallIR i) = i"
| "getInst (CallIRImpl _ i) = i"

definition isForkingMaster :: "omp_fork \<Rightarrow> bool" where
  "isForkingMaster f \<longleftrightarrow> forkedThreadType f = Master"

text \<open>The operands. C++ typing confines each getter to its own classes.\<close>

fun getAccessedValue :: "llvm_module \<Rightarrow> ir \<Rightarrow> llvm_value" where
  "getAccessedValue M (APIRead i off) = getOperand M i off"
| "getAccessedValue M (APIWrite i off) = getOperand M i off"
| "getAccessedValue M ir = getPointerOperand M (getInst ir)"

fun getThreadEntry :: "llvm_module \<Rightarrow> ir \<Rightarrow> llvm_value result" where
  "getThreadEntry M (OpenMPTaskFork i) = taskThreadEntry M i"
| "getThreadEntry M ir = Inr (stripPointerCasts M (getArgOperand M (getInst ir) 2))"

fun getThreadHandle :: "llvm_module \<Rightarrow> ir \<Rightarrow> llvm_value result" where
  "getThreadHandle M (OpenMPTaskFork i) = taskThreadEntry M i"
| "getThreadHandle M (OpenMPTaskJoin i) = taskThreadEntry M i"
| "getThreadHandle M ir = Inr (stripPointerCasts M (getArgOperand M (getInst ir) 0))"

fun lockOperandOffset :: "ir \<Rightarrow> nat" where
  "lockOperandOffset (OpenMPCriticalStart _) = 2"
| "lockOperandOffset (OpenMPCriticalEnd _) = 2"
| "lockOperandOffset _ = 0"

definition getLockValue :: "llvm_module \<Rightarrow> ir \<Rightarrow> llvm_value" where
  "getLockValue M ir = stripPointerCasts M (getArgOperand M (getInst ir) (lockOperandOffset ir))"

definition isIndirect :: "llvm_module \<Rightarrow> ir \<Rightarrow> bool" where
  "isIndirect M ir = isIndirectCall M (getInst ir)"

text \<open>\<open>CallIR::getCalledFunction\<close>.\<close>

definition irCalledFunction :: "llvm_module \<Rightarrow> ir \<Rightarrow> llvm_value option" where
  "irCalledFunction M ir = resolveTargetFunction M (getInst ir)"

section \<open>Well-formed IR\<close>

text \<open>
  The template parameters the aliases of IRImpls.h instantiate: nothing else is ever
  constructed.
\<close>

fun ir_ok :: "ir \<Rightarrow> bool" where
  "ir_ok (LockIRImpl t _) \<longleftrightarrow>
     t \<in> {TyPthreadMutexLock, TyPthreadSpinLock, TyOpenMPSetLock, TyOpenMPOrderedStart}"
| "ir_ok (UnlockIRImpl t _) \<longleftrightarrow>
     t \<in> {TyPthreadMutexUnlock, TyPthreadSpinUnlock, TyOpenMPUnsetLock, TyOpenMPOrderedEnd}"
| "ir_ok (CallIRImpl t _) \<longleftrightarrow>
     t \<in> {TyOpenMPForInit, TyOpenMPForFini, TyOpenMPDispatchInit, TyOpenMPDispatchNext,
          TyOpenMPDispatchFini, TyOpenMPSingleStart, TyOpenMPSingleEnd, TyOpenMPReduce,
          TyOpenMPMasterStart, TyOpenMPMasterEnd, TyOpenMPGetThreadNum, TyOpenMPTaskWait,
          TyOpenMPGetThreadNumGuardStart, TyOpenMPGetThreadNumGuardEnd}"
| "ir_ok _ \<longleftrightarrow> True"

text \<open>The class tests in the order the trace builder tries them.\<close>

definition ir_class_tests :: "(ir_type \<Rightarrow> bool) list" where
  "ir_class_tests =
     [isReadIR, isWriteIR, isForkIR, isJoinIR, isLockIR, isUnlockIR, isBarrierIR, isCallIR]"

section \<open>Printing\<close>

definition getValNameHelper :: "llvm_module \<Rightarrow> llvm_value option \<Rightarrow> string \<Rightarrow> string" where
  "getValNameHelper M val defaultLabel =
     (case val of Some v \<Rightarrow> if hasName M v then getName M v else defaultLabel
                | None \<Rightarrow> defaultLabel)"

definition irTypeString :: "ir_type \<Rightarrow> string" where
  "irTypeString t =
     (if t = TyRead then ''READ'' else if t = TyWrite then ''WRIT''
      else if t = TyFork then ''FORK'' else if t = TyJoin then ''JOIN''
      else if t = TyLock then ''LOCK'' else if t = TyUnlock then ''UNLK''
      else if t = TyBarrier then ''BARR'' else if t = TyCall then ''CALL'' else [])"

section \<open>Lemmas\<close>

text \<open>
  The class tests partition well-formed IR: the if-chain of the trace builder always finds
  exactly one class.
\<close>

lemma type_one_class:
  "t \<notin> {TyEND_Read, TyEND_Write, TyEND_Fork, TyEND_Join, TyEND_Lock, TyEND_Unlock, TyEND_Barrier,
     TyEND_Call} \<Longrightarrow> length (filter (\<lambda>p. p t) ir_class_tests) = 1"
  by (cases t) (simp_all add: ir_class_tests_def ir_classof ir_order)

lemma ir_ok_not_marker:
  "ir_ok i \<Longrightarrow> irType i \<notin> {TyEND_Read, TyEND_Write, TyEND_Fork, TyEND_Join, TyEND_Lock,
     TyEND_Unlock, TyEND_Barrier, TyEND_Call}"
  by (cases i) (simp_all, (elim disjE; simp)+)

lemma ir_ok_one_class: "ir_ok i \<Longrightarrow> length (filter (\<lambda>p. p (irType i)) ir_class_tests) = 1"
  by (rule type_one_class, rule ir_ok_not_marker)

lemma leaf_type_prints_nothing:
  "ir_ok i \<Longrightarrow> irType i \<noteq> TyCall \<Longrightarrow> irTypeString (irType i) = []"
  by (cases i) (simp_all add: irTypeString_def, (elim disjE; simp)+)

end
