(* ===== verification/IRBuilder.thy ===== *)
theory IRBuilder
  imports IRModel
begin

text \<open>
  The function summaries (src/IR/Builder.cpp): \<open>generateFunctionSummary\<close> turns a
  function's instructions into race IR, and \<open>FunctionSummaryBuilder\<close> caches the result
  per function. The chain of recognizers is \<open>summarizeCall\<close>; its boolean says that the
  next instruction (the twin of a duplicated OpenMP fork) is consumed as well.
\<close>

section \<open>Definitions\<close>

type_synonym function_summary = "ir list"

definition hasThreadLocalOperand :: "llvm_module \<Rightarrow> llvm_value \<Rightarrow> bool" where
  "hasThreadLocalOperand M inst =
     (let ptr = getPointerOperand M inst
      in if classOf M ptr = GlobalVariable then isThreadLocal M ptr else False)"

definition getNextCall :: "llvm_module \<Rightarrow> llvm_value \<Rightarrow> llvm_value option" where
  "getNextCall M call =
     (case getNextNode M call of
        None \<Rightarrow> None
      | Some next \<Rightarrow> if isCallBase M next then Some next else None)"

text \<open>
  The twin of a fork, if the next instruction is a call to the same runtime function; the
  recognizer dereferences the called function, which is null for an indirect call.
\<close>

definition getTwin ::
  "(llvm_module \<Rightarrow> llvm_value option \<Rightarrow> bool result) \<Rightarrow> llvm_module \<Rightarrow> llvm_value
     \<Rightarrow> llvm_value option result" where
  "getTwin recog M call =
     (case getNextCall M call of
        None \<Rightarrow> Inr None
      | Some twin \<Rightarrow> rbind (recog M (Some twin)) (\<lambda>b. Inr (if b then Some twin else None)))"

definition getTwinOmpFork :: "llvm_module \<Rightarrow> llvm_value \<Rightarrow> llvm_value option result" where
  "getTwinOmpFork = getTwin isForkCall"

definition getTwinOmpForkTeams :: "llvm_module \<Rightarrow> llvm_value \<Rightarrow> llvm_value option result" where
  "getTwinOmpForkTeams = getTwin isForkTeamsCall"

text \<open>The message about a fork without a twin prints the next instruction.\<close>

definition skipRegion :: "llvm_module \<Rightarrow> llvm_value \<Rightarrow> (ir list \<times> bool) result" where
  "skipRegion M callInst =
     (case getNextNode M callInst of None \<Rightarrow> Inl NullDeref | Some _ \<Rightarrow> Inr ([], False))"

definition summarizeFork :: "llvm_module \<Rightarrow> llvm_value \<Rightarrow> (ir list \<times> bool) result" where
  "summarizeFork M callInst =
     rbind (getTwinOmpFork M callInst) (\<lambda>twin.
       (case twin of
          None \<Rightarrow> skipRegion M callInst
        | Some t \<Rightarrow>
            (let ompFork = OmpFork callInst Master; twinOmpFork = OmpFork t Other
             in Inr ([OpenMPFork ompFork, OpenMPFork twinOmpFork,
                      OpenMPJoin ompFork, OpenMPJoin twinOmpFork], True))))"

definition summarizeForkTeams :: "llvm_module \<Rightarrow> llvm_value \<Rightarrow> (ir list \<times> bool) result" where
  "summarizeForkTeams M callInst =
     rbind (getTwinOmpForkTeams M callInst) (\<lambda>twin.
       (case twin of
          None \<Rightarrow> skipRegion M callInst
        | Some t \<Rightarrow>
            Inr ([OpenMPForkTeams callInst, OpenMPForkTeams t,
                  OpenMPJoinTeams callInst, OpenMPJoinTeams t], True)))"

text \<open>
  The recognizers that map a name to one IR element, in the order of the source (the branches
  of pthread and OpenMP functions other than forks).
\<close>

definition simpleCall :: "string \<Rightarrow> llvm_value \<Rightarrow> ir option" where
  "simpleCall n c =
     (if isPthreadCreate n then Some (PthreadCreate c)
      else if isPthreadJoin n then Some (PthreadJoin c)
      else if isPthreadMutexLock n then Some (LockIRImpl TyPthreadMutexLock c)
      else if isPthreadMutexUnlock n then Some (UnlockIRImpl TyPthreadMutexUnlock c)
      else if isPthreadSpinLock n then Some (LockIRImpl TyPthreadSpinLock c)
      else if isPthreadSpinUnlock n then Some (UnlockIRImpl TyPthreadSpinUnlock c)
      else if isForStaticInit n then Some (CallIRImpl TyOpenMPForInit c)
      else if isForStaticFini n then Some (CallIRImpl TyOpenMPForFini c)
      else if isForDispatchInit n then Some (CallIRImpl TyOpenMPDispatchInit c)
      else if isForDispatchNext n then Some (CallIRImpl TyOpenMPDispatchNext c)
      else if isForDispatchFini n then Some (CallIRImpl TyOpenMPDispatchFini c)
      else if isSingleStart n then Some (CallIRImpl TyOpenMPSingleStart c)
      else if isSingleEnd n then Some (CallIRImpl TyOpenMPSingleEnd c)
      else if isMasterStart n then Some (CallIRImpl TyOpenMPMasterStart c)
      else if isMasterEnd n then Some (CallIRImpl TyOpenMPMasterEnd c)
      else if isBarrier n then Some (OpenMPBarrier c)
      else if isReduceStart n \<or> isReduceNowaitStart n then Some (CallIRImpl TyOpenMPReduce c)
      else if isCriticalStart n then Some (OpenMPCriticalStart c)
      else if isCriticalEnd n then Some (OpenMPCriticalEnd c)
      else if isSetLock n then Some (LockIRImpl TyOpenMPSetLock c)
      else if isUnsetLock n then Some (UnlockIRImpl TyOpenMPUnsetLock c)
      else if isTask n then Some (OpenMPTaskFork c)
      else if isTaskWait n then Some (CallIRImpl TyOpenMPTaskWait c)
      else if isSetNestLock n then Some (LockIRImpl TyOpenMPSetLock c)
      else if isUnsetNestLock n then Some (UnlockIRImpl TyOpenMPUnsetLock c)
      else if isGetThreadNum n then Some (CallIRImpl TyOpenMPGetThreadNum c)
      else if isGetThreadNumGuardStart n then Some (CallIRImpl TyOpenMPGetThreadNumGuardStart c)
      else if isGetThreadNumGuardEnd n then Some (CallIRImpl TyOpenMPGetThreadNumGuardEnd c)
      else if isOrderedStart n then Some (LockIRImpl TyOpenMPOrderedStart c)
      else if isOrderedEnd n then Some (UnlockIRImpl TyOpenMPOrderedEnd c)
      else None)"

definition summarizeCall :: "llvm_module \<Rightarrow> string \<Rightarrow> llvm_value \<Rightarrow> (ir list \<times> bool) result" where
  "summarizeCall M funcName callInst =
     (if llvm_isNoEffect funcName then Inr ([], False)
      else (case simpleCall funcName callInst of
          Some ir \<Rightarrow> Inr ([ir], False)
        | None \<Rightarrow>
            if isFork funcName then summarizeFork M callInst
            else if isForkTeams funcName then summarizeForkTeams M callInst
            else if isPrintf funcName then Inr ([], False)
            else if isOpenMP funcName \<and> \<not> omp_isNoEffect funcName then Inl AssertFailed
            else Inr ([CallIR callInst], False)))"

definition summarizeInst :: "llvm_module \<Rightarrow> llvm_value \<Rightarrow> (ir list \<times> bool) result" where
  "summarizeInst M inst =
     (if classOf M inst = LoadInst then
        (if isAtomic M inst \<or> isVolatile M inst \<or> hasThreadLocalOperand M inst then Inr ([], False)
         else Inr ([Load inst], False))
      else if classOf M inst = StoreInst then
        (if isAtomic M inst \<or> isVolatile M inst \<or> hasThreadLocalOperand M inst then Inr ([], False)
         else Inr ([Store inst], False))
      else if isCallBase M inst then
        (if isIndirectCall M inst then Inr ([CallIR inst], False)
         else (case resolveTargetFunction M inst of
                 None \<Rightarrow> Inr ([], False)
               | Some calledFunc \<Rightarrow>
                   if isIntrinsic M calledFunc \<or> isDebugInfoForProfiling M calledFunc
                   then Inr ([], False)
                   else summarizeCall M (getName M calledFunc) inst))
      else Inr ([], False))"

function summarizeBlock :: "llvm_module \<Rightarrow> llvm_value list \<Rightarrow> function_summary result" where
  "summarizeBlock M [] = Inr []"
| "summarizeBlock M (inst # rest) =
     rbind (summarizeInst M inst) (\<lambda>(irs, skipNext).
       rbind (summarizeBlock M (if skipNext then tl rest else rest)) (\<lambda>more. Inr (irs @ more)))"
  by pat_completeness auto
termination
  by (relation "measure (\<lambda>(M, insts). length insts)") auto

fun summarizeBlocks :: "llvm_module \<Rightarrow> llvm_value list \<Rightarrow> function_summary result" where
  "summarizeBlocks M [] = Inr []"
| "summarizeBlocks M (b # bs) =
     rbind (summarizeBlock M (getInstList M b)) (\<lambda>s.
       rbind (summarizeBlocks M bs) (\<lambda>more. Inr (s @ more)))"

definition generateFunctionSummary :: "llvm_module \<Rightarrow> llvm_value \<Rightarrow> function_summary result" where
  "generateFunctionSummary M func = summarizeBlocks M (getBasicBlockList M func)"

text \<open>The cache is a \<open>std::map\<close> from the function to its summary.\<close>

type_synonym summary_cache = "(llvm_value \<times> function_summary) list"

definition getFunctionSummary ::
  "llvm_module \<Rightarrow> llvm_value \<Rightarrow> summary_cache \<Rightarrow> (function_summary \<times> summary_cache) result" where
  "getFunctionSummary M func cache =
     (case map_of cache func of
        Some s \<Rightarrow> Inr (s, cache)
      | None \<Rightarrow>
          rbind (generateFunctionSummary M func) (\<lambda>summary.
            Inr (summary, om_insert func summary cache)))"

section \<open>Well-formedness of what is built\<close>

lemma simpleCall_ok: "simpleCall n c = Some i \<Longrightarrow> ir_ok i \<and> getInst i = c"
  by (auto simp: simpleCall_def split: if_splits)

lemma simpleCall_not_fork:
  "simpleCall n c = Some i \<Longrightarrow> irType i \<notin> {TyOpenMPFork, TyOpenMPJoin, TyOpenMPForkTeams, TyOpenMPJoinTeams}"
  by (auto simp: simpleCall_def split: if_splits)

text \<open>What one instruction can contribute.\<close>

datatype contribution_kind = Plain "ir list" | ForkBlock omp_fork omp_fork | TeamsBlock llvm_value llvm_value

fun contribution :: "contribution_kind \<Rightarrow> ir list \<times> bool" where
  "contribution (Plain irs) = (irs, False)"
| "contribution (ForkBlock f g) = ([OpenMPFork f, OpenMPFork g, OpenMPJoin f, OpenMPJoin g], True)"
| "contribution (TeamsBlock f g) =
     ([OpenMPForkTeams f, OpenMPForkTeams g, OpenMPJoinTeams f, OpenMPJoinTeams g], True)"

fun contribution_ok :: "contribution_kind \<Rightarrow> bool" where
  "contribution_ok (Plain irs) \<longleftrightarrow> length irs \<le> 1 \<and>
     (\<forall>i \<in> set irs. ir_ok i \<and>
        irType i \<notin> {TyOpenMPFork, TyOpenMPJoin, TyOpenMPForkTeams, TyOpenMPJoinTeams})"
| "contribution_ok (ForkBlock f g) \<longleftrightarrow> forkedThreadType f = Master \<and> forkedThreadType g = Other"
| "contribution_ok (TeamsBlock f g) \<longleftrightarrow> True"

lemma skipRegion_plain: "skipRegion M c = Inr r \<Longrightarrow> r = ([], False)"
  by (auto simp: skipRegion_def split: option.splits)

lemma summarizeFork_cases:
  "summarizeFork M c = Inr r \<Longrightarrow>
     r = ([], False) \<or> (\<exists>t. r = contribution (ForkBlock (OmpFork c Master) (OmpFork t Other)))"
  by (auto simp: summarizeFork_def Let_def dest: skipRegion_plain split: option.splits)

lemma summarizeForkTeams_cases:
  "summarizeForkTeams M c = Inr r \<Longrightarrow> r = ([], False) \<or> (\<exists>t. r = contribution (TeamsBlock c t))"
  by (auto simp: summarizeForkTeams_def dest: skipRegion_plain split: option.splits)

lemma summarizeCall_contribution:
  "summarizeCall M n c = Inr r \<Longrightarrow> \<exists>k. contribution_ok k \<and> r = contribution k"
proof -
  have plain: "\<exists>k. contribution_ok k \<and> ([], False) = contribution k"
    by (rule exI [of _ "Plain []"]) simp
  have call: "\<exists>k. contribution_ok k \<and> ([CallIR c], False) = contribution k"
    by (rule exI [of _ "Plain [CallIR c]"]) simp
  have one: "\<exists>k. contribution_ok k \<and> ([i], False) = contribution k" if "simpleCall n c = Some i" for i
    using simpleCall_ok [OF that] simpleCall_not_fork [OF that]
    by (intro exI [of _ "Plain [i]"]) simp
  have fork: "\<exists>k. contribution_ok k \<and> r = contribution k" if "summarizeFork M c = Inr r"
    using summarizeFork_cases [OF that] plain
    by (metis contribution_ok.simps(2) omp_fork.sel(2))
  have teams: "\<exists>k. contribution_ok k \<and> r = contribution k" if "summarizeForkTeams M c = Inr r"
    using summarizeForkTeams_cases [OF that] plain by (metis contribution_ok.simps(3))
  assume "summarizeCall M n c = Inr r"
  then show ?thesis
    using plain call one fork teams by (auto simp: summarizeCall_def split: if_splits option.splits)
qed

lemma summarizeInst_contribution:
  assumes "summarizeInst M i = Inr r"
  shows "\<exists>k. contribution_ok k \<and> r = contribution k"
proof -
  have plain: "\<exists>k. contribution_ok k \<and> (irs, False) = contribution k"
    if "irs \<in> {[], [Load i], [Store i], [CallIR i]}" for irs
    using that by (intro exI [of _ "Plain irs"]) auto
  from assms show ?thesis
    by (auto simp: summarizeInst_def intro: plain summarizeCall_contribution
      split: if_splits option.splits)
qed

text \<open>
  The shape of a summary: OpenMP forks come in blocks of master fork, other fork and the two
  joins; nothing else is an OpenMP fork or join.
\<close>

inductive fork_blocks :: "ir list \<Rightarrow> bool" where
  fb_nil: "fork_blocks []"
| fb_fork: "fork_blocks s \<Longrightarrow> forkedThreadType f = Master \<Longrightarrow> forkedThreadType g = Other \<Longrightarrow>
     fork_blocks (OpenMPFork f # OpenMPFork g # OpenMPJoin f # OpenMPJoin g # s)"
| fb_teams: "fork_blocks s \<Longrightarrow>
     fork_blocks (OpenMPForkTeams f # OpenMPForkTeams g # OpenMPJoinTeams f # OpenMPJoinTeams g # s)"
| fb_plain: "fork_blocks s \<Longrightarrow> ir_ok i \<Longrightarrow>
     irType i \<notin> {TyOpenMPFork, TyOpenMPJoin, TyOpenMPForkTeams, TyOpenMPJoinTeams} \<Longrightarrow>
     fork_blocks (i # s)"

inductive_cases fork_blocks_forkE: "fork_blocks (OpenMPFork f # s)"

lemma fork_blocks_append: "fork_blocks s \<Longrightarrow> fork_blocks t \<Longrightarrow> fork_blocks (s @ t)"
  by (induction rule: fork_blocks.induct) (auto intro: fork_blocks.intros)

lemma fork_blocks_contribution: "contribution_ok k \<Longrightarrow> fork_blocks (fst (contribution k))"
proof (cases k)
  case (Plain irs)
  assume "contribution_ok k"
  with Plain show ?thesis
    by (cases irs) (auto intro: fork_blocks.intros simp: le_Suc_eq)
qed (auto intro: fork_blocks.intros)

lemma summarizeBlock_fork_blocks: "summarizeBlock M insts = Inr s \<Longrightarrow> fork_blocks s"
proof (induction M insts arbitrary: s rule: summarizeBlock.induct)
  case (2 M inst rest)
  then obtain irs skip more where r: "summarizeInst M inst = Inr (irs, skip)"
    and more: "summarizeBlock M (if skip then tl rest else rest) = Inr more" and s: "s = irs @ more"
    by auto
  from summarizeInst_contribution [OF r] have "fork_blocks irs"
    using fork_blocks_contribution by (metis fst_conv)
  moreover have "fork_blocks more" by (rule 2(1) [OF r refl more])
  ultimately show ?case unfolding s by (rule fork_blocks_append)
qed (auto intro: fork_blocks.intros)

lemma summarizeBlocks_fork_blocks: "summarizeBlocks M bs = Inr s \<Longrightarrow> fork_blocks s"
  by (induction bs arbitrary: s)
    (auto intro: fork_blocks.intros fork_blocks_append dest: summarizeBlock_fork_blocks)

lemma fork_blocks_ok: "fork_blocks s \<Longrightarrow> i \<in> set s \<Longrightarrow> ir_ok i"
  by (induction rule: fork_blocks.induct) auto

section \<open>Memory accesses\<close>

lemma simpleCall_not_access: "simpleCall n c = Some i \<Longrightarrow> \<not> isMemAccessIR (irType i)"
  by (auto simp: simpleCall_def ir_classof ir_order split: if_splits)

lemma summarizeCall_no_access:
  assumes "summarizeCall M n c = Inr (irs, b)" and "i \<in> set irs"
  shows "\<not> isMemAccessIR (irType i)"
proof -
  have fork: "\<not> isMemAccessIR (irType i)" if "summarizeFork M c = Inr (irs, b)"
    using summarizeFork_cases [OF that] assms(2) by (auto simp: ir_classof ir_order)
  have teams: "\<not> isMemAccessIR (irType i)" if "summarizeForkTeams M c = Inr (irs, b)"
    using summarizeForkTeams_cases [OF that] assms(2) by (auto simp: ir_classof ir_order)
  have call: "\<not> isMemAccessIR TyCall" by (simp add: ir_classof ir_order)
  show ?thesis
    using assms fork teams call
    by (auto simp: summarizeCall_def dest: simpleCall_not_access split: if_splits option.splits)
qed

text \<open>What a single instruction gives as an access.\<close>

definition plainAccess :: "llvm_module \<Rightarrow> llvm_value \<Rightarrow> bool" where
  "plainAccess M i \<longleftrightarrow>
     \<not> isAtomic M i \<and> \<not> isVolatile M i \<and> \<not> hasThreadLocalOperand M i"

lemma summarizeInst_access:
  assumes "summarizeInst M inst = Inr (irs, b)" and "a \<in> set irs" and "isMemAccessIR (irType a)"
  shows "(a = Load inst \<and> classOf M inst = LoadInst \<or> a = Store inst \<and> classOf M inst = StoreInst)
    \<and> plainAccess M inst"
proof -
  have no: "\<not> isMemAccessIR TyCall" by (simp add: ir_classof ir_order)
  show ?thesis
    using assms no
    by (auto simp: summarizeInst_def plainAccess_def dest: summarizeCall_no_access
      split: if_splits option.splits)
qed

definition accessIR :: "llvm_module \<Rightarrow> llvm_value \<Rightarrow> ir list" where
  "accessIR M i =
     (if plainAccess M i
      then (if classOf M i = LoadInst then [Load i]
            else if classOf M i = StoreInst then [Store i] else [])
      else [])"

definition accesses :: "ir list \<Rightarrow> ir list" where
  "accesses s = filter (\<lambda>i. isMemAccessIR (irType i)) s"

lemma accesses_append: "accesses (s @ t) = accesses s @ accesses t"
  by (simp add: accesses_def)

lemma summarizeInst_accesses:
  assumes "summarizeInst M inst = Inr (irs, b)"
  shows "accesses irs = accessIR M inst"
proof (cases "classOf M inst = LoadInst \<or> classOf M inst = StoreInst")
  case True
  then show ?thesis
    using assms
    by (auto simp: summarizeInst_def accessIR_def plainAccess_def accesses_def ir_classof ir_order
      split: if_splits)
next
  case False
  have "a \<notin> set irs" if "isMemAccessIR (irType a)" for a
    using summarizeInst_access [OF assms _ that] False by blast
  then have "accesses irs = []" by (auto simp: accesses_def filter_empty_conv)
  with False show ?thesis by (simp add: accessIR_def)
qed

text \<open>The instruction list of a block is what \<open>getNextNode\<close> walks.\<close>

fun linked :: "llvm_module \<Rightarrow> llvm_value list \<Rightarrow> bool" where
  "linked M [] \<longleftrightarrow> True"
| "linked M [i] \<longleftrightarrow> getNextNode M i = None"
| "linked M (i # j # rest) \<longleftrightarrow> getNextNode M i = Some j \<and> linked M (j # rest)"

lemma summarizeFork_skip:
  assumes "summarizeFork M c = Inr (irs, True) \<or> summarizeForkTeams M c = Inr (irs, True)"
  shows "\<exists>t. getNextNode M c = Some t \<and> isCallBase M t"
  using assms
  by (auto simp: summarizeFork_def summarizeForkTeams_def getTwinOmpFork_def getTwinOmpForkTeams_def
    getTwin_def getNextCall_def dest!: skipRegion_plain split: option.splits if_splits)

lemma summarizeInst_skip:
  assumes "summarizeInst M inst = Inr (irs, True)"
  shows "\<exists>t. getNextNode M inst = Some t \<and> isCallBase M t"
proof (rule summarizeFork_skip)
  show "summarizeFork M inst = Inr (irs, True) \<or> summarizeForkTeams M inst = Inr (irs, True)"
    using assms by (auto simp: summarizeInst_def summarizeCall_def split: if_splits option.splits)
qed

lemma summarizeBlock_accesses:
  "summarizeBlock M insts = Inr s \<Longrightarrow> linked M insts \<Longrightarrow>
     accesses s = concat (map (accessIR M) insts)"
proof (induction M insts arbitrary: s rule: summarizeBlock.induct)
  case (2 M inst rest)
  from "2.prems"(1) obtain irs skip more where r: "summarizeInst M inst = Inr (irs, skip)"
    and more: "summarizeBlock M (if skip then tl rest else rest) = Inr more" and s: "s = irs @ more"
    by auto
  have lk: "linked M rest" and lk': "linked M (tl rest)"
    using "2.prems"(2) by (cases rest; cases "tl rest"; auto)+
  have IH: "accesses more = concat (map (accessIR M) (if skip then tl rest else rest))"
    using 2(1) [OF r refl more] lk lk' by simp
  have "concat (map (accessIR M) (tl rest)) = concat (map (accessIR M) rest)" if skip
  proof (cases rest)
    case (Cons j js)
    from that r have "summarizeInst M inst = Inr (irs, True)" by simp
    from summarizeInst_skip [OF this] "2.prems"(2) Cons have "isCallBase M j" by auto
    then have "accessIR M j = []" by (auto simp: accessIR_def isCallBase_def)
    with Cons show ?thesis by simp
  qed simp
  with IH summarizeInst_accesses [OF r] s show ?case by (simp add: accesses_append)
qed (simp add: accesses_def)

lemma summarizeBlocks_accesses:
  "summarizeBlocks M bs = Inr s \<Longrightarrow> \<forall>b \<in> set bs. linked M (getInstList M b) \<Longrightarrow>
     accesses s = concat (map (accessIR M) (concat (map (getInstList M) bs)))"
  by (induction bs arbitrary: s)
    (auto simp: accesses_append summarizeBlock_accesses accesses_def [of "[]"])

section \<open>The cache\<close>

definition cache_sound :: "llvm_module \<Rightarrow> summary_cache \<Rightarrow> bool" where
  "cache_sound M cache \<longleftrightarrow>
     om_sorted cache \<and> (\<forall>(f, s) \<in> set cache. generateFunctionSummary M f = Inr s)"

lemma cache_sound_lookup:
  "cache_sound M cache \<Longrightarrow> map_of cache f = Some s \<Longrightarrow> generateFunctionSummary M f = Inr s"
  by (auto simp: cache_sound_def dest!: map_of_SomeD)

lemma cache_sound_insert:
  assumes "cache_sound M cache" and "generateFunctionSummary M f = Inr s"
  shows "cache_sound M (om_insert f s cache)"
proof -
  have "om_sorted cache" using assms by (simp add: cache_sound_def)
  then have "om_sorted (om_insert f s cache)" by (rule om_sorted_insert)
  moreover have "generateFunctionSummary M k = Inr v" if "(k, v) \<in> set (om_insert f s cache)" for k v
    using that assms \<open>om_sorted cache\<close> cache_sound_lookup [OF assms(1), of k v]
    by (auto simp: om_mem_iff om_sorted_insert split: if_splits)
  ultimately show ?thesis by (auto simp: cache_sound_def)
qed

section \<open>Properties\<close>

text \<open>
  C32. A function summary lists exactly the loads and stores of the function that are neither
  atomic nor volatile nor on a thread-local global, in program order, one IR element each.
\<close>

theorem summary_accesses:
  assumes "generateFunctionSummary M f = Inr s"
    and "\<forall>b \<in> set (getBasicBlockList M f). linked M (getInstList M b)"
  shows "accesses s = concat (map (accessIR M) (concat (map (getInstList M) (getBasicBlockList M f))))"
  using assms by (simp add: generateFunctionSummary_def summarizeBlocks_accesses)

text \<open>
  A summary is a sequence of whole fork blocks and single elements: an OpenMP fork is
  always followed by its twin and the two joins, the first of master type and the second not,
  and every element was built from an IR type that its class accepts.
\<close>

lemma summary_fork_blocks:
  assumes "generateFunctionSummary M f = Inr s"
  shows "fork_blocks s \<and> (\<forall>i \<in> set s. ir_ok i)"
proof -
  have "fork_blocks s"
    using assms summarizeBlocks_fork_blocks by (simp add: generateFunctionSummary_def)
  with fork_blocks_ok show ?thesis by blast
qed

text \<open>
  C33. The cache of the summary builder is transparent: with a sound cache the answer is the
  generated summary (or the same failure), and the cache stays sound.
\<close>

theorem summary_cache_transparent:
  assumes "cache_sound M cache"
  shows "(case getFunctionSummary M f cache of
            Inl e \<Rightarrow> generateFunctionSummary M f = Inl e
          | Inr (s, cache') \<Rightarrow> generateFunctionSummary M f = Inr s \<and> cache_sound M cache')"
proof (cases "map_of cache f")
  case None
  then show ?thesis
    using cache_sound_insert [OF assms]
    by (cases "generateFunctionSummary M f") (auto simp: getFunctionSummary_def)
next
  case (Some s)
  with assms cache_sound_lookup [OF assms Some] show ?thesis by (simp add: getFunctionSummary_def)
qed

section \<open>A concrete function\<close>

text \<open>
  A function 3 with one block 2: a load, a volatile store, a duplicated
  \<open>__kmpc_fork_call\<close> and a store.
\<close>

definition demo_module :: llvm_module where
  "demo_module = empty_module
     \<lparr> classOf := (\<lambda>v. if v = 10 then LoadInst else if v = 11 \<or> v = 14 then StoreInst
                    else if v = 12 \<or> v = 13 then CallInst
                    else if v = 20 then FunctionV else OtherValue),
       isVolatile := (\<lambda>v. v = 11),
       getBasicBlockList := (\<lambda>f. if f = 3 then [2] else []),
       getInstList := (\<lambda>b. if b = 2 then [10, 11, 12, 13, 14] else []),
       getNextNode := (\<lambda>v. if 10 \<le> v \<and> v < 14 then Some (v + 1) else None),
       getCalledFunction := (\<lambda>v. if v = 12 \<or> v = 13 then Some 20 else None),
       getCalledOperand := (\<lambda>v. 20), hasName := (\<lambda>v. v = 20),
       getName := (\<lambda>v. if v = 20 then ''__kmpc_fork_call'' else []) \<rparr>"

lemma demo_summary:
  "generateFunctionSummary demo_module 3 =
     Inr [Load 10, OpenMPFork (OmpFork 12 Master), OpenMPFork (OmpFork 13 Other),
          OpenMPJoin (OmpFork 12 Master), OpenMPJoin (OmpFork 13 Other), Store 14]"
  by code_simp

lemma summary_accesses_witness:
  "accesses [Load 10, OpenMPFork (OmpFork 12 Master), OpenMPFork (OmpFork 13 Other),
     OpenMPJoin (OmpFork 12 Master), OpenMPJoin (OmpFork 13 Other), Store 14] = [Load 10, Store 14]"
proof -
  have "\<forall>b \<in> set (getBasicBlockList demo_module 3). linked demo_module (getInstList demo_module b)"
    by code_simp
  from summary_accesses [OF demo_summary this]
  have "accesses [Load 10, OpenMPFork (OmpFork 12 Master), OpenMPFork (OmpFork 13 Other),
     OpenMPJoin (OmpFork 12 Master), OpenMPJoin (OmpFork 13 Other), Store 14] =
    concat (map (accessIR demo_module)
      (concat (map (getInstList demo_module) (getBasicBlockList demo_module 3))))" .
  moreover have "concat (map (accessIR demo_module)
      (concat (map (getInstList demo_module) (getBasicBlockList demo_module 3)))) = [Load 10, Store 14]"
    by code_simp
  ultimately show ?thesis by (rule trans)
qed

lemma summary_fork_blocks_witness:
  "fork_blocks [Load 10, OpenMPFork (OmpFork 12 Master), OpenMPFork (OmpFork 13 Other),
     OpenMPJoin (OmpFork 12 Master), OpenMPJoin (OmpFork 13 Other), Store 14]"
  using summary_fork_blocks [OF demo_summary] by simp

lemma summary_cache_transparent_witness:
  "cache_sound demo_module [(3, [Load 10, OpenMPFork (OmpFork 12 Master), OpenMPFork (OmpFork 13 Other),
     OpenMPJoin (OmpFork 12 Master), OpenMPJoin (OmpFork 13 Other), Store 14])]"
proof -
  have "cache_sound demo_module []" by (simp add: cache_sound_def)
  from summary_cache_transparent [OF this, of 3] show ?thesis
    by (simp add: getFunctionSummary_def demo_summary om_insert_def split: prod.splits)
qed

end
