(* ===== verification/TraceModel.thy ===== *)
theory TraceModel
  imports IRBuilder
begin

text \<open>
  The data of a program trace (src/Trace/Event.h, EventImpl.h, EventImpl.cpp, Event.cpp,
  ThreadTrace.h, ThreadTrace.cpp, ProgramTrace.h, ProgramTrace.cpp).

  An event pointer is the event's value: two events of one trace are equal exactly when they
  have the same thread and the same number (\<open>wf_trace\<close>). \<open>EventInfo\<close> (the thread and
  the context shared by events) is inlined. The pointer analysis is asked through the record
  \<open>pta\<close>.
\<close>

section \<open>The pointer analysis as seen by the trace\<close>

type_synonym pta_ctx = nat
type_synonym pta_obj = nat
type_synonym cg_node = nat

record pta =
  contextEvolve :: "pta_ctx \<Rightarrow> llvm_value \<Rightarrow> pta_ctx"
  getPointsTo :: "pta_ctx \<Rightarrow> llvm_value \<Rightarrow> pta_obj list"
  getDirectNodeOrNull :: "pta_ctx \<Rightarrow> llvm_value \<Rightarrow> cg_node option"
  getResolvedNode :: "pta_ctx \<Rightarrow> llvm_value \<Rightarrow> cg_node list"
  nodeFunction :: "cg_node \<Rightarrow> llvm_value"
  nodeContext :: "cg_node \<Rightarrow> pta_ctx"
  isExtFunction :: "cg_node \<Rightarrow> bool"
  objValue :: "pta_obj \<Rightarrow> llvm_value option"

section \<open>Events\<close>

type_synonym thread_id = nat

datatype event_type =
  Read | Write | Fork | Join | Lock | Unlock | Barrier | Call | CallEnd | ExternCall

datatype event =
  Event (evType: event_type) (evID: nat) (evTid: thread_id) (evContext: pta_ctx) (evIR: ir)
    (evMemory: "pta_obj list") (evForkEvent: "event option")

definition evInst :: "event \<Rightarrow> llvm_value" where
  "evInst e = getInst (evIR e)"

definition evIRType :: "event \<Rightarrow> ir_type" where
  "evIRType e = irType (evIR e)"

definition evFunction :: "llvm_module \<Rightarrow> event \<Rightarrow> llvm_value" where
  "evFunction M e = getFunction M (evInst e)"

definition isMemAccess :: "event \<Rightarrow> bool" where
  "isMemAccess e \<longleftrightarrow> evType e = Read \<or> evType e = Write"

definition isFork :: "event \<Rightarrow> bool" where
  "isFork e \<longleftrightarrow> evType e = Fork"

fun eventTypeString :: "event_type \<Rightarrow> string" where
  "eventTypeString Read = ''Read''"
| "eventTypeString Write = ''Write''"
| "eventTypeString Fork = ''Fork''"
| "eventTypeString Join = ''Join''"
| "eventTypeString Lock = ''Lock''"
| "eventTypeString Unlock = ''Unlock''"
| "eventTypeString Barrier = ''Barrier''"
| "eventTypeString Call = ''Call''"
| "eventTypeString CallEnd = ''EndCall''"
| "eventTypeString ExternCall = ''ExternCall''"

subsection \<open>Constructors of the implementations\<close>

text \<open>Reads and writes ask the pointer analysis once, when they are built.\<close>

definition mkReadEvent ::
  "llvm_module \<Rightarrow> pta \<Rightarrow> ir \<Rightarrow> thread_id \<Rightarrow> pta_ctx \<Rightarrow> nat \<Rightarrow> event" where
  "mkReadEvent M A ir tid c eid =
     Event Read eid tid c ir (sort (getPointsTo A c (getAccessedValue M ir))) None"

definition mkWriteEvent ::
  "llvm_module \<Rightarrow> pta \<Rightarrow> ir \<Rightarrow> thread_id \<Rightarrow> pta_ctx \<Rightarrow> nat \<Rightarrow> event" where
  "mkWriteEvent M A ir tid c eid =
     Event Write eid tid c ir (sort (getPointsTo A c (getAccessedValue M ir))) None"

definition mkEvent :: "event_type \<Rightarrow> ir \<Rightarrow> thread_id \<Rightarrow> pta_ctx \<Rightarrow> nat \<Rightarrow> event" where
  "mkEvent t ir tid c eid = Event t eid tid c ir [] None"

definition mkTaskJoinEvent :: "ir \<Rightarrow> thread_id \<Rightarrow> pta_ctx \<Rightarrow> nat \<Rightarrow> event \<Rightarrow> event" where
  "mkTaskJoinEvent ir tid c eid fork = Event Join eid tid c ir [] (Some fork)"

text \<open>The call events' target, and the name of an external target if it has one.\<close>

definition evCalledFunction :: "llvm_module \<Rightarrow> event \<Rightarrow> llvm_value option" where
  "evCalledFunction M e =
     (if evType e = ExternCall then getCalledFunction M (evInst e)
      else irCalledFunction M (evIR e))"

definition getCalledName :: "llvm_module \<Rightarrow> event \<Rightarrow> string option" where
  "getCalledName M e =
     (case evCalledFunction M e of
        Some f \<Rightarrow> if hasName M f then Some (getName M f) else None
      | None \<Rightarrow> None)"

text \<open>
  The entry of a forked thread: the call-graph node of the entry function in the evolved
  context (none if the analysis has no node), or, for an indirect entry, the first node the
  analysis resolved (dereferencing \<open>begin()\<close> of an empty set is not defined).
\<close>

definition evThreadEntry :: "llvm_module \<Rightarrow> pta \<Rightarrow> event \<Rightarrow> cg_node option result" where
  "evThreadEntry M A e =
     rbind (getThreadEntry M (evIR e)) (\<lambda>entryVal.
       if classOf M entryVal = FunctionV
       then Inr (getDirectNodeOrNull A (contextEvolve A (evContext e) (evInst e)) entryVal)
       else (case getResolvedNode A (evContext e) (evInst e) of
               [] \<Rightarrow> Inl EmptyAccess
             | n # _ \<Rightarrow> Inr (Some n)))"

section \<open>Threads and programs\<close>

record thread_trace =
  ttID :: thread_id
  spawnSite :: "event option"
  getEvents :: "event list"

definition getForkEvents :: "thread_trace \<Rightarrow> event list" where
  "getForkEvents t = filter isFork (getEvents t)"

definition ttGetEvent :: "thread_trace \<Rightarrow> nat \<Rightarrow> event result" where
  "ttGetEvent t i = (if i < length (getEvents t) then Inr (getEvents t ! i) else Inl OutOfRange)"

record program_trace =
  ptModule :: llvm_module
  ptPta :: pta
  getThreads :: "thread_trace list"

definition ptGetEvent :: "program_trace \<Rightarrow> thread_id \<Rightarrow> nat \<Rightarrow> event result" where
  "ptGetEvent P tid eid =
     (if tid < length (getThreads P) then ttGetEvent (getThreads P ! tid) eid else Inl OutOfRange)"

text \<open>\<open>event->getThread()\<close>.\<close>

definition evThread :: "program_trace \<Rightarrow> event \<Rightarrow> thread_trace" where
  "evThread P e =
     (case find (\<lambda>t. ttID t = evTid e) (getThreads P) of
        Some t \<Rightarrow> t
      | None \<Rightarrow> \<lparr> ttID = evTid e, spawnSite = None, getEvents = [] \<rparr>)"

definition allEvents :: "program_trace \<Rightarrow> event list" where
  "allEvents P = concat (map getEvents (getThreads P))"

subsection \<open>From the tree of threads to the flat list\<close>

datatype thread_tree = ThreadNode (threadOf: thread_trace) (getChildThreads: "thread_tree list")

text \<open>
  The loop of the constructor of \<open>ProgramTrace\<close>: the worklist is a deque used at its back,
  here a list whose head is the back.
\<close>

lemma size_children_less:
  "size_list size (getChildThreads n) < size n"
  by (cases n) simp

lemma size_list_append: "size_list f (xs @ ys) = size_list f xs + size_list f (ys :: 'a list)"
  by (induction xs) auto

lemma fold_push: "fold (\<lambda>child wl. child # wl) (rev cs) wl = cs @ wl"
  by (induction cs) auto

function flattenThreads :: "thread_tree list \<Rightarrow> thread_trace list \<Rightarrow> thread_trace list" where
  "flattenThreads [] threads = threads"
| "flattenThreads (currentThread # worklist) threads =
     flattenThreads
       (fold (\<lambda>child wl. child # wl) (rev (getChildThreads currentThread)) worklist)
       (threads @ [threadOf currentThread])"
  by pat_completeness auto
termination
proof (relation "measure (\<lambda>(wl, _). size_list size wl)", goal_cases)
  case (2 c wl t)
  show ?case using size_children_less [of c] by (simp add: size_list_append fold_push)
qed simp

fun preorder :: "thread_tree \<Rightarrow> thread_trace list" where
  "preorder (ThreadNode t cs) = t # concat (map preorder cs)"

lemma flattenThreads_preorder:
  "flattenThreads wl threads = threads @ concat (map preorder wl)"
proof (induction wl threads rule: flattenThreads.induct)
  case (2 c wl t)
  then show ?case by (cases c) (simp add: fold_push)
qed simp

section \<open>Well-formed traces\<close>

text \<open>
  What the trace builder guarantees: threads and events are numbered by their positions, every
  fork has spawned exactly one thread and every thread but the first was spawned by a fork of
  the trace.
\<close>

definition wf_events :: "program_trace \<Rightarrow> bool" where
  "wf_events P \<longleftrightarrow>
     (\<forall>i < length (getThreads P). ttID (getThreads P ! i) = i \<and>
        (\<forall>k < length (getEvents (getThreads P ! i)).
           evTid (getEvents (getThreads P ! i) ! k) = i \<and>
           evID (getEvents (getThreads P ! i) ! k) = k))"

definition wf_spawns :: "program_trace \<Rightarrow> bool" where
  "wf_spawns P \<longleftrightarrow>
     distinct (map spawnSite (getThreads P)) \<and>
     (\<forall>e \<in> set (allEvents P). isFork e \<longrightarrow> (\<exists>t \<in> set (getThreads P). spawnSite t = Some e))"

definition wf_trace :: "program_trace \<Rightarrow> bool" where
  "wf_trace P \<longleftrightarrow> wf_events P \<and> wf_spawns P"

lemma wf_eventsD:
  assumes "wf_events P" and "t \<in> set (getThreads P)" and "e \<in> set (getEvents t)"
  shows "evTid e = ttID t" "ttID t < length (getThreads P)" "getThreads P ! ttID t = t"
    "evID e < length (getEvents t)" "getEvents t ! evID e = e"
proof -
  from assms(2) obtain i where i: "i < length (getThreads P)" "getThreads P ! i = t"
    by (auto simp: in_set_conv_nth)
  from assms(3) obtain k where k: "k < length (getEvents t)" "getEvents t ! k = e"
    by (auto simp: in_set_conv_nth)
  from assms(1) i have "ttID t = i" by (auto simp: wf_events_def)
  moreover from assms(1) i k have "evTid e = i" "evID e = k" by (auto simp: wf_events_def)
  ultimately show "evTid e = ttID t" "ttID t < length (getThreads P)" "getThreads P ! ttID t = t"
    "evID e < length (getEvents t)" "getEvents t ! evID e = e"
    using i k by auto
qed

lemma wf_threadD:
  assumes "wf_events P" and "t \<in> set (getThreads P)"
  shows "ttID t < length (getThreads P)" "getThreads P ! ttID t = t"
proof -
  from assms(2) obtain i where "i < length (getThreads P)" "getThreads P ! i = t"
    by (auto simp: in_set_conv_nth)
  with assms(1) show "ttID t < length (getThreads P)" "getThreads P ! ttID t = t"
    by (auto simp: wf_events_def)
qed

lemma evThread_eq:
  assumes "wf_events P" and "t \<in> set (getThreads P)" and "evTid e = ttID t"
  shows "evThread P e = t"
proof -
  have "find (\<lambda>s. ttID s = evTid e) (getThreads P) = Some t"
  proof (cases "find (\<lambda>s. ttID s = evTid e) (getThreads P)")
    case None
    with assms(2,3) show ?thesis by (auto simp: find_None_iff)
  next
    case (Some s)
    then have "s \<in> set (getThreads P)" "ttID s = ttID t"
      using assms(3) by (auto simp: find_Some_iff)
    with wf_threadD [OF assms(1)] assms(2) Some show ?thesis by metis
  qed
  then show ?thesis by (simp add: evThread_def)
qed

lemma wf_event_inj:
  assumes "wf_events P" and "e \<in> set (allEvents P)" and "e' \<in> set (allEvents P)"
    and "evTid e = evTid e'" and "evID e = evID e'"
  shows "e = e'"
proof -
  from assms(2,3) obtain t t' where "t \<in> set (getThreads P)" "e \<in> set (getEvents t)"
    and "t' \<in> set (getThreads P)" "e' \<in> set (getEvents t')"
    by (auto simp: allEvents_def)
  with wf_eventsD [OF assms(1)] assms(4,5) show ?thesis by metis
qed

text \<open>Threads are spawned by older threads of the trace.\<close>

definition wf_spawn_tree :: "program_trace \<Rightarrow> bool" where
  "wf_spawn_tree P \<longleftrightarrow> (\<forall>t \<in> set (getThreads P). \<forall>f. spawnSite t = Some f \<longrightarrow>
     evTid f < ttID t \<and> (\<exists>t' \<in> set (getThreads P). ttID t' = evTid f))"

lemma spawn_decreases:
  assumes "wf_events P" and "wf_spawn_tree P" and "t \<in> set (getThreads P)" and "evTid e = ttID t"
    and "spawnSite (evThread P e) = Some f"
  shows "evTid f < evTid e \<and> (\<exists>t' \<in> set (getThreads P). evTid f = ttID t')"
proof -
  have "evThread P e = t" using evThread_eq [OF assms(1,3,4)] .
  with assms(5) have "spawnSite t = Some f" by simp
  with assms(2,3) have "evTid f < ttID t" "\<exists>t' \<in> set (getThreads P). ttID t' = evTid f"
    unfolding wf_spawn_tree_def by blast+
  then show ?thesis using assms(4) by metis
qed

text \<open>Calls and returns that match, with anything else in between.\<close>

inductive balanced :: "event list \<Rightarrow> bool" where
  "balanced []"
| "balanced es \<Longrightarrow> evType e \<noteq> Call \<Longrightarrow> evType e \<noteq> CallEnd \<Longrightarrow> balanced (e # es)"
| "balanced es \<Longrightarrow> balanced fs \<Longrightarrow> evType c = Call \<Longrightarrow> evType d = CallEnd \<Longrightarrow>
     balanced (c # es @ d # fs)"

end
