(* ===== verification/SyncGraph.thy ===== *)
theory SyncGraph
  imports TraceModel
begin

text \<open>
  The synchronisation graph of src/Analysis/HappensBeforeGraph.h and .cpp: the sorted sync
  events of each thread, the edges between them, the search that precomputes reachability and
  the query \<open>canReach\<close>. How a trace is turned into such a graph is in HappensBefore.

  The main result is \<open>canReach_iff\<close>: the query answers exactly whether the source, some sync
  events and the destination are connected by program order and sync edges.
\<close>

section \<open>Event identifiers\<close>

datatype event_pid = EventPID (pidTid: nat) (pidEid: nat)

definition pidOf :: "event \<Rightarrow> event_pid" where
  "pidOf e = EventPID (evTid e) (evID e)"

lemma pidOf_sel [simp]: "pidTid (pidOf e) = evTid e" "pidEid (pidOf e) = evID e"
  by (simp_all add: pidOf_def)

instantiation event_pid :: linorder
begin

definition less_event_pid :: "event_pid \<Rightarrow> event_pid \<Rightarrow> bool" where
  "less_event_pid p q =
     (if pidTid p \<noteq> pidTid q then pidTid p < pidTid q else pidEid p < pidEid q)"

definition less_eq_event_pid :: "event_pid \<Rightarrow> event_pid \<Rightarrow> bool" where
  "less_eq_event_pid p q \<longleftrightarrow> p < q \<or> p = (q :: event_pid)"

instance
proof
  fix x y z :: event_pid
  show "(x < y) = (x \<le> y \<and> \<not> y \<le> x)"
    by (cases x; cases y) (auto simp: less_event_pid_def less_eq_event_pid_def)
  show "x \<le> x" by (simp add: less_eq_event_pid_def)
  show "x \<le> y \<Longrightarrow> y \<le> z \<Longrightarrow> x \<le> z"
    by (cases x; cases y; cases z) (auto simp: less_event_pid_def less_eq_event_pid_def split: if_splits)
  show "x \<le> y \<Longrightarrow> y \<le> x \<Longrightarrow> x = y"
    by (cases x; cases y) (auto simp: less_event_pid_def less_eq_event_pid_def split: if_splits)
  show "x \<le> y \<or> y \<le> x"
    by (cases x; cases y) (auto simp: less_event_pid_def less_eq_event_pid_def)
qed

end

lemma pid_le_same: "pidTid p = pidTid q \<Longrightarrow> p \<le> q \<longleftrightarrow> pidEid p \<le> pidEid q"
  by (cases p; cases q) (auto simp: less_event_pid_def less_eq_event_pid_def)

lemma pid_less_same: "pidTid p = pidTid q \<Longrightarrow> p < q \<longleftrightarrow> pidEid p < pidEid q"
  by (cases p; cases q) (auto simp: less_event_pid_def)

section \<open>The graph\<close>

record sync_graph =
  syncEdges :: "(event_pid \<times> event_pid list) list"
  syncReachable :: "(event_pid \<times> event_pid list) list"
  threadSyncs :: "(nat \<times> event_pid list) list"

definition empty_graph :: sync_graph where
  "empty_graph = \<lparr> syncEdges = [], syncReachable = [], threadSyncs = [] \<rparr>"

definition addSync :: "event_pid \<Rightarrow> sync_graph \<Rightarrow> sync_graph" where
  "addSync syncPID g =
     (let syncs = om_at [] (pidTid syncPID) (threadSyncs g)
      in g\<lparr> threadSyncs := om_put (pidTid syncPID) (sorted_insert syncPID syncs) (threadSyncs g) \<rparr>)"

definition addSyncEdge :: "event_pid \<Rightarrow> event_pid \<Rightarrow> sync_graph \<Rightarrow> sync_graph" where
  "addSyncEdge srcID dstID g =
     (let edges = om_at [] srcID (syncEdges g)
      in addSync dstID (addSync srcID
           (g\<lparr> syncEdges := om_put srcID (sorted_insert dstID edges) (syncEdges g) \<rparr>)))"

definition hasEdge :: "sync_graph \<Rightarrow> event_pid \<Rightarrow> event_pid \<Rightarrow> bool" where
  "hasEdge g src dst =
     (if src = dst then True
      else (case map_of (syncEdges g) src of
              None \<Rightarrow> False
            | Some destinations \<Rightarrow> dst \<in> set destinations))"

definition findNextSyncAfter :: "sync_graph \<Rightarrow> event_pid \<Rightarrow> event_pid option" where
  "findNextSyncAfter g node =
     (case map_of (threadSyncs g) (pidTid node) of
        None \<Rightarrow> None
      | Some syncs \<Rightarrow> (case upper_bound node syncs of [] \<Rightarrow> None | s # _ \<Rightarrow> Some s))"

definition findNextSync :: "sync_graph \<Rightarrow> event_pid \<Rightarrow> event_pid option" where
  "findNextSync g node =
     (case map_of (threadSyncs g) (pidTid node) of
        None \<Rightarrow> None
      | Some syncs \<Rightarrow> (case lower_bound node syncs of [] \<Rightarrow> None | s # _ \<Rightarrow> Some s))"

definition findPrevSync :: "sync_graph \<Rightarrow> event_pid \<Rightarrow> event_pid option" where
  "findPrevSync g node =
     (case map_of (threadSyncs g) (pidTid node) of
        None \<Rightarrow> None
      | Some syncs \<Rightarrow> find (\<lambda>sync. sync \<le> node) (rev syncs))"

definition isReachable :: "sync_graph \<Rightarrow> event_pid \<Rightarrow> event_pid \<Rightarrow> bool" where
  "isReachable g src dst =
     (case map_of (syncReachable g) src of
        Some reachable \<Rightarrow> dst \<in> set reachable
      | None \<Rightarrow> False)"

definition pidCanReach :: "sync_graph \<Rightarrow> event_pid \<Rightarrow> event_pid \<Rightarrow> bool" where
  "pidCanReach g src dst =
     (case findNextSync g src of
        None \<Rightarrow> False
      | Some srcSync \<Rightarrow>
          (case findPrevSync g dst of
             None \<Rightarrow> False
           | Some dstSync \<Rightarrow>
               if hasEdge g srcSync dstSync then True else isReachable g srcSync dstSync))"

definition canReach :: "sync_graph \<Rightarrow> event \<Rightarrow> event \<Rightarrow> bool" where
  "canReach g src dst = pidCanReach g (pidOf src) (pidOf dst)"

definition areParallel :: "sync_graph \<Rightarrow> event \<Rightarrow> event \<Rightarrow> bool" where
  "areParallel g lhs rhs \<longleftrightarrow> \<not> canReach g lhs rhs \<and> \<not> canReach g rhs lhs"

subsection \<open>The search for all reachable syncs\<close>

text \<open>
  One iteration takes the front node, marks it visited, and appends the unvisited targets of
  its edges and the next sync of its thread. A node can be in the worklist several times.
\<close>

definition searchNext :: "sync_graph \<Rightarrow> event_pid \<Rightarrow> event_pid list" where
  "searchNext g node =
     (case map_of (syncEdges g) node of Some next \<Rightarrow> next | None \<Rightarrow> []) @
     (case findNextSyncAfter g node of Some n \<Rightarrow> [n] | None \<Rightarrow> [])"

definition addToWorklist ::
  "event_pid list \<Rightarrow> event_pid \<Rightarrow> event_pid list \<Rightarrow> event_pid list" where
  "addToWorklist visited node worklist = (if node \<in> set visited then worklist else worklist @ [node])"

definition graphNodes :: "sync_graph \<Rightarrow> event_pid set" where
  "graphNodes g =
     (\<Union>p \<in> set (syncEdges g). set (snd p)) \<union> (\<Union>p \<in> set (threadSyncs g). set (snd p))"

lemma finite_graphNodes [simp]: "finite (graphNodes g)"
  by (auto simp: graphNodes_def)

lemma findNextSyncAfter_mem:
  assumes "findNextSyncAfter g a = Some b"
  shows "b \<in> graphNodes g"
proof -
  from assms obtain syncs rest where syncs: "map_of (threadSyncs g) (pidTid a) = Some syncs"
    and "upper_bound a syncs = b # rest"
    by (auto simp: findNextSyncAfter_def split: option.splits list.splits)
  then have "b \<in> set syncs"
    using set_dropWhileD [of b _ syncs] by (metis list.set_intros(1) upper_bound_def)
  with map_of_SomeD [OF syncs] show ?thesis by (force simp: graphNodes_def)
qed

lemma edge_target_mem: "map_of (syncEdges g) a = Some bs \<Longrightarrow> b \<in> set bs \<Longrightarrow> b \<in> graphNodes g"
  by (force simp: graphNodes_def dest: map_of_SomeD)

lemma searchNext_subset: "set (searchNext g a) \<subseteq> graphNodes g"
  by (cases "map_of (syncEdges g) a"; cases "findNextSyncAfter g a")
    (auto simp: searchNext_def dest: edge_target_mem findNextSyncAfter_mem)

lemma fold_addToWorklist:
  "fold (addToWorklist v) ns wl = wl @ filter (\<lambda>n. n \<notin> set v) ns"
  by (induction ns arbitrary: wl) (auto simp: addToWorklist_def)

function search :: "sync_graph \<Rightarrow> event_pid list \<Rightarrow> event_pid list \<Rightarrow> event_pid list" where
  "search g [] visited = visited"
| "search g (node # worklist) visited =
     (let visited' = sorted_insert node visited
      in search g (fold (addToWorklist visited') (searchNext g node) worklist) visited')"
  by pat_completeness auto
termination
proof (relation "inv_image (less_than <*lex*> less_than)
    (\<lambda>(g, wl, v). (card ((graphNodes g \<union> set wl) - set v), length (takeWhile (\<lambda>n. n \<in> set v) wl)))",
    goal_cases)
  case (2 g node wl v v')
  let ?wl = "fold (addToWorklist v') (searchNext g node) wl"
  let ?U = "(graphNodes g \<union> set (node # wl)) - set v"
  let ?U' = "(graphNodes g \<union> set ?wl) - set v'"
  have wl: "?wl = wl @ filter (\<lambda>n. n \<notin> set v') (searchNext g node)" by (rule fold_addToWorklist)
  have v': "set v' = insert node (set v)" using 2 by simp
  have sub: "?U' \<subseteq> ?U" using searchNext_subset [of g node] by (auto simp: wl v')
  show ?case
  proof (cases "node \<in> set v")
    case False
    then have "node \<in> ?U" "node \<notin> ?U'" by (auto simp: v')
    with sub have "?U' \<subset> ?U" by blast
    then have "card ?U' < card ?U" by (intro psubset_card_mono) auto
    then show ?thesis by simp
  next
    case True
    then have same: "set v' = set v" by (auto simp: v')
    have "card ?U' \<le> card ?U" using sub by (intro card_mono) auto
    moreover have "takeWhile (\<lambda>n. n \<in> set v) ?wl = takeWhile (\<lambda>n. n \<in> set v) wl"
    proof (cases "set wl \<subseteq> set v")
      case True
      then have "takeWhile (\<lambda>n. n \<in> set v) ?wl =
          wl @ takeWhile (\<lambda>n. n \<in> set v) (filter (\<lambda>n. n \<notin> set v) (searchNext g node))"
        unfolding wl same by (intro takeWhile_append2) auto
      moreover have "takeWhile (\<lambda>n. n \<in> set v) (filter (\<lambda>n. n \<notin> set v) xs) = []" for xs
        by (induction xs) auto
      moreover have "takeWhile (\<lambda>n. n \<in> set v) wl = wl" using True unfolding takeWhile_eq_all_conv by blast
      ultimately show ?thesis by (simp only: append_Nil2)
    next
      case False
      then obtain x where "x \<in> set wl" "x \<notin> set v" by blast
      then show ?thesis unfolding wl by (intro takeWhile_append1) auto
    qed
    ultimately show ?thesis using True same by (auto simp: le_less)
  qed
qed (auto intro!: wf_inv_image wf_lex_prod)

declare search.simps [simp del]

definition precompute :: "sync_graph \<Rightarrow> sync_graph" where
  "precompute g =
     (let allSrcs = fold (\<lambda>(_, syncs) acc. fold sorted_insert syncs acc) (threadSyncs g) []
      in fold (\<lambda>src g. g\<lparr> syncReachable := om_insert src (search g [src] []) (syncReachable g) \<rparr>)
           allSrcs g)"

section \<open>The search computes reachability\<close>

definition searchRel :: "sync_graph \<Rightarrow> event_pid rel" where
  "searchRel g = {(a, b). b \<in> set (searchNext g a)}"

lemma search_sound:
  "set (search g wl v) \<subseteq> set v \<union> (searchRel g)\<^sup>* `` set wl"
proof (induction g wl v rule: search.induct)
  case (2 g node wl v)
  let ?v = "sorted_insert node v"
  have "set (search g (node # wl) v) \<subseteq>
      set ?v \<union> (searchRel g)\<^sup>* `` set (fold (addToWorklist ?v) (searchNext g node) wl)"
    using 2 [OF refl] by (simp add: search.simps Let_def)
  moreover have "(searchRel g)\<^sup>* `` set (searchNext g node) \<subseteq> (searchRel g)\<^sup>* `` {node}"
    by (auto simp: searchRel_def intro: converse_rtrancl_into_rtrancl)
  ultimately show ?case by (auto simp: fold_addToWorklist)
qed (simp add: search.simps)

lemma search_mono: "set v \<union> set wl \<subseteq> set (search g wl v)"
proof (induction g wl v rule: search.induct)
  case (2 g node wl v)
  from 2 [OF refl] show ?case by (auto simp: search.simps Let_def fold_addToWorklist)
qed (simp add: search.simps)

lemma search_closed:
  "searchRel g `` set v \<subseteq> set v \<union> set wl \<Longrightarrow>
     searchRel g `` set (search g wl v) \<subseteq> set (search g wl v)"
proof (induction g wl v rule: search.induct)
  case (2 g node wl v)
  have "searchRel g `` set (sorted_insert node v) \<subseteq> set (sorted_insert node v) \<union>
      set (fold (addToWorklist (sorted_insert node v)) (searchNext g node) wl)"
    using "2.prems" by (auto simp: fold_addToWorklist searchRel_def)
  from 2(1) [OF refl this] show ?case by (simp add: search.simps Let_def)
qed (simp add: search.simps)

lemma search_eq: "set (search g [src] []) = (searchRel g)\<^sup>* `` {src}"
proof
  show "set (search g [src] []) \<subseteq> (searchRel g)\<^sup>* `` {src}"
    using search_sound [of g "[src]" "[]"] by simp
  have "src \<in> set (search g [src] [])" using search_mono [of "[]" "[src]" g] by simp
  moreover have "searchRel g `` set (search g [src] []) \<subseteq> set (search g [src] [])"
    by (rule search_closed) simp
  ultimately show "(searchRel g)\<^sup>* `` {src} \<subseteq> set (search g [src] [])"
    using Image_closed_trancl [of "searchRel g"] by blast
qed

section \<open>The invariant of the graph\<close>

definition isSync :: "sync_graph \<Rightarrow> event_pid \<Rightarrow> bool" where
  "isSync g p \<longleftrightarrow> p \<in> set (om_at [] (pidTid p) (threadSyncs g))"

definition edgeRel :: "sync_graph \<Rightarrow> event_pid rel" where
  "edgeRel g = {(a, b). b \<in> set (om_at [] a (syncEdges g))}"

definition sync_inv :: "sync_graph \<Rightarrow> bool" where
  "sync_inv g \<longleftrightarrow> om_sorted (syncEdges g) \<and> om_sorted (threadSyncs g) \<and>
     (\<forall>t. sorted_wrt (<) (om_at [] t (threadSyncs g)) \<and>
          (\<forall>p \<in> set (om_at [] t (threadSyncs g)). pidTid p = t)) \<and>
     (\<forall>a b. (a, b) \<in> edgeRel g \<longrightarrow> isSync g a \<and> isSync g b)"

lemma sync_inv_empty: "sync_inv empty_graph"
  by (simp add: sync_inv_def empty_graph_def om_at_def edgeRel_def)

lemma edgeRel_addSyncEdge:
  "sync_inv g \<Longrightarrow> edgeRel (addSyncEdge a b g) = insert (a, b) (edgeRel g)"
  by (auto simp: sync_inv_def edgeRel_def addSyncEdge_def addSync_def Let_def split: if_splits)

lemma isSync_addSyncEdge:
  assumes "sync_inv g"
  shows "isSync (addSyncEdge a b g) p \<longleftrightarrow> p = a \<or> p = b \<or> isSync g p"
proof -
  have "om_sorted (threadSyncs g)" using assms by (simp add: sync_inv_def)
  then show ?thesis
    by (auto simp: isSync_def addSyncEdge_def addSync_def Let_def om_sorted_put)
qed

lemma sync_inv_addSyncEdge:
  assumes inv: "sync_inv g"
  shows "sync_inv (addSyncEdge a b g)"
proof -
  have sorted: "om_sorted (syncEdges g)" "om_sorted (threadSyncs g)"
    and threads: "\<And>t. sorted_wrt (<) (om_at [] t (threadSyncs g))"
      "\<And>t p. p \<in> set (om_at [] t (threadSyncs g)) \<Longrightarrow> pidTid p = t"
    and edges: "\<And>a b. (a, b) \<in> edgeRel g \<Longrightarrow> isSync g a \<and> isSync g b"
    using inv by (auto simp: sync_inv_def)
  have "om_sorted (syncEdges (addSyncEdge a b g))" "om_sorted (threadSyncs (addSyncEdge a b g))"
    using sorted by (auto simp: addSyncEdge_def addSync_def Let_def)
  moreover have "sorted_wrt (<) (om_at [] t (threadSyncs (addSyncEdge a b g)))" for t
    using sorted threads by (auto simp: addSyncEdge_def addSync_def Let_def om_sorted_put)
  moreover have "pidTid p = t" if "p \<in> set (om_at [] t (threadSyncs (addSyncEdge a b g)))" for p t
    using that sorted threads(2)
    by (auto simp: addSyncEdge_def addSync_def Let_def om_sorted_put split: if_splits)
  moreover have "isSync (addSyncEdge a b g) c \<and> isSync (addSyncEdge a b g) d"
    if "(c, d) \<in> edgeRel (addSyncEdge a b g)" for c d
    using that edges by (auto simp: edgeRel_addSyncEdge [OF inv] isSync_addSyncEdge [OF inv])
  ultimately show ?thesis by (simp add: sync_inv_def)
qed


section \<open>The neighbours of an event among the syncs\<close>

lemma sync_invD:
  assumes "sync_inv g"
  shows "sorted_wrt (<) (om_at [] t (threadSyncs g))"
    and "p \<in> set (om_at [] t (threadSyncs g)) \<Longrightarrow> pidTid p = t"
    and "(a, b) \<in> edgeRel g \<Longrightarrow> isSync g a"
    and "(a, b) \<in> edgeRel g \<Longrightarrow> isSync g b"
  using assms by (auto simp: sync_inv_def)

text \<open>Lookup in the map of syncs, with the empty list for a thread without syncs.\<close>

lemma find_sync_alt:
  "findNextSyncAfter g p =
     (case upper_bound p (om_at [] (pidTid p) (threadSyncs g)) of [] \<Rightarrow> None | s # _ \<Rightarrow> Some s)"
  "findNextSync g p =
     (case lower_bound p (om_at [] (pidTid p) (threadSyncs g)) of [] \<Rightarrow> None | s # _ \<Rightarrow> Some s)"
  "findPrevSync g p = find (\<lambda>s. s \<le> p) (rev (om_at [] (pidTid p) (threadSyncs g)))"
  by (auto simp: findNextSyncAfter_def findNextSync_def findPrevSync_def om_at_def
    upper_bound_def lower_bound_def split: option.splits)

lemma findNextSyncAfter_Some:
  assumes "sync_inv g" and "findNextSyncAfter g p = Some s"
  shows "isSync g s \<and> pidTid s = pidTid p \<and> p < s \<and>
    (\<forall>z. isSync g z \<and> pidTid z = pidTid p \<and> p < z \<longrightarrow> s \<le> z)"
proof -
  let ?xs = "om_at [] (pidTid p) (threadSyncs g)"
  from assms(2) obtain ys where ub: "upper_bound p ?xs = s # ys"
    by (auto simp: find_sync_alt split: list.splits)
  from upper_bound_hd [OF sync_invD(1) [OF assms(1)] ub] sync_invD(2) [OF assms(1)]
  show ?thesis by (auto simp: isSync_def)
qed

lemma findNextSyncAfter_None:
  "findNextSyncAfter g p = None \<Longrightarrow> isSync g z \<Longrightarrow> pidTid z = pidTid p \<Longrightarrow> z \<le> p"
  by (auto simp: find_sync_alt isSync_def upper_bound_Nil_iff split: list.splits)

lemma findNextSync_Some:
  assumes "sync_inv g" and "findNextSync g p = Some s"
  shows "isSync g s \<and> pidTid s = pidTid p \<and> p \<le> s \<and>
    (\<forall>z. isSync g z \<and> pidTid z = pidTid p \<and> p \<le> z \<longrightarrow> s \<le> z)"
proof -
  let ?xs = "om_at [] (pidTid p) (threadSyncs g)"
  from assms(2) obtain ys where lb: "lower_bound p ?xs = s # ys"
    by (auto simp: find_sync_alt split: list.splits)
  from lower_bound_hd [OF sync_invD(1) [OF assms(1)] lb] sync_invD(2) [OF assms(1)]
  show ?thesis by (auto simp: isSync_def)
qed

lemma findNextSync_None:
  "findNextSync g p = None \<Longrightarrow> isSync g z \<Longrightarrow> pidTid z = pidTid p \<Longrightarrow> z < p"
  by (auto simp: find_sync_alt isSync_def lower_bound_Nil_iff split: list.splits)

lemma find_rev_sorted:
  "sorted_wrt (<) xs \<Longrightarrow> find (\<lambda>s. s \<le> p) (rev xs) = Some s \<Longrightarrow>
     s \<in> set xs \<and> s \<le> p \<and> (\<forall>z \<in> set xs. z \<le> (p::'a::linorder) \<longrightarrow> z \<le> s)"
proof (induction xs rule: rev_induct)
  case (snoc x xs)
  then show ?case
    by (cases "x \<le> p") (auto simp: sorted_wrt_append less_imp_le)
qed simp

lemma findPrevSync_Some:
  assumes "sync_inv g" and "findPrevSync g p = Some s"
  shows "isSync g s \<and> pidTid s = pidTid p \<and> s \<le> p \<and>
    (\<forall>z. isSync g z \<and> pidTid z = pidTid p \<and> z \<le> p \<longrightarrow> z \<le> s)"
proof -
  let ?xs = "om_at [] (pidTid p) (threadSyncs g)"
  from assms(2) have "find (\<lambda>s. s \<le> p) (rev ?xs) = Some s" by (simp add: find_sync_alt)
  from find_rev_sorted [OF sync_invD(1) [OF assms(1)] this] sync_invD(2) [OF assms(1)]
  show ?thesis by (auto simp: isSync_def)
qed

lemma findPrevSync_None:
  "findPrevSync g p = None \<Longrightarrow> isSync g z \<Longrightarrow> pidTid z = pidTid p \<Longrightarrow> p < z"
  by (auto simp: find_sync_alt isSync_def find_None_iff not_le)

section \<open>Reachability over syncs\<close>

definition progRel :: "event_pid rel" where
  "progRel = {(p, q). pidTid p = pidTid q \<and> pidEid p \<le> pidEid q}"

definition orderRel :: "sync_graph \<Rightarrow> event_pid rel" where
  "orderRel g = {(p, q). (p, q) \<in> progRel \<and> isSync g p \<and> isSync g q}"

lemma progRel_le: "(p, q) \<in> progRel \<longleftrightarrow> pidTid p = pidTid q \<and> p \<le> q"
  by (auto simp: progRel_def pid_le_same)

lemma progRel_trans: "(p, q) \<in> progRel \<Longrightarrow> (q, r) \<in> progRel \<Longrightarrow> (p, r) \<in> progRel"
  by (auto simp: progRel_def)

lemma searchRel_cases:
  assumes "sync_inv g"
  shows "(a, b) \<in> searchRel g \<longleftrightarrow> (a, b) \<in> edgeRel g \<or> findNextSyncAfter g a = Some b"
  by (auto simp: searchRel_def searchNext_def edgeRel_def om_at_def split: option.splits)

lemma searchRel_sub:
  assumes "sync_inv g" and "isSync g a" and "(a, b) \<in> searchRel g"
  shows "(a, b) \<in> edgeRel g \<union> orderRel g" and "isSync g b"
  using assms findNextSyncAfter_Some [OF assms(1), of a b] sync_invD(4) [OF assms(1), of a b]
  by (auto simp: searchRel_cases [OF assms(1)] orderRel_def progRel_le)

text \<open>Walking from sync to sync reaches every later sync of the thread.\<close>

lemma orderRel_search:
  assumes inv: "sync_inv g"
  shows "(a, b) \<in> orderRel g \<Longrightarrow> (a, b) \<in> (searchRel g)\<^sup>*"
proof (induction "pidEid b - pidEid a" arbitrary: a rule: less_induct)
  case less
  then have ab: "pidTid a = pidTid b" "a \<le> b" "isSync g a" "isSync g b"
    by (auto simp: orderRel_def progRel_le)
  show ?case
  proof (cases "a = b")
    case False
    with ab have "a < b" by simp
    obtain c where c: "findNextSyncAfter g a = Some c"
      using findNextSyncAfter_None [of g a b] ab \<open>a < b\<close>
      by (cases "findNextSyncAfter g a") auto
    from findNextSyncAfter_Some [OF inv c] ab \<open>a < b\<close>
    have cs: "isSync g c" "pidTid c = pidTid a" "a < c" "c \<le> b" by auto
    then have "pidEid a < pidEid c" "pidEid c \<le> pidEid b"
      using ab by (auto simp: pid_le_same pid_less_same)
    moreover have "(c, b) \<in> orderRel g" using cs ab by (auto simp: orderRel_def progRel_le)
    ultimately have "(c, b) \<in> (searchRel g)\<^sup>*" using less.hyps [of c] by simp
    moreover have "(a, c) \<in> searchRel g" using c by (simp add: searchRel_cases [OF inv])
    ultimately show ?thesis by (rule converse_rtrancl_into_rtrancl [rotated])
  qed simp
qed

lemma search_reach:
  assumes inv: "sync_inv g" and a: "isSync g a"
  shows "(a, b) \<in> (searchRel g)\<^sup>* \<longleftrightarrow> (a, b) \<in> (edgeRel g \<union> orderRel g)\<^sup>*"
proof
  assume "(a, b) \<in> (searchRel g)\<^sup>*"
  then have "(a, b) \<in> (edgeRel g \<union> orderRel g)\<^sup>* \<and> isSync g b"
    by (induction rule: rtrancl_induct)
      (use a searchRel_sub [OF inv] in \<open>auto intro: rtrancl_into_rtrancl\<close>)
  then show "(a, b) \<in> (edgeRel g \<union> orderRel g)\<^sup>*" ..
next
  have "edgeRel g \<union> orderRel g \<subseteq> (searchRel g)\<^sup>*"
    using orderRel_search [OF inv] by (auto simp: searchRel_cases [OF inv])
  then show "(a, b) \<in> (edgeRel g \<union> orderRel g)\<^sup>* \<Longrightarrow> (a, b) \<in> (searchRel g)\<^sup>*"
    by (metis rtrancl_subset_rtrancl subsetD)
qed


section \<open>The precomputed table\<close>

lemma searchNext_table [simp]: "searchNext (g\<lparr> syncReachable := r \<rparr>) = searchNext g"
  by (rule ext) (simp add: searchNext_def findNextSyncAfter_def cong: option.case_cong)

lemma search_table [simp]: "search (g\<lparr> syncReachable := r \<rparr>) wl v = search g wl v"
  by (induction g wl v rule: search.induct) (simp_all add: search.simps Let_def)

lemma precompute_fold:
  "fold (\<lambda>src g. g\<lparr> syncReachable := om_insert src (search g [src] []) (syncReachable g) \<rparr>) xs g =
     g\<lparr> syncReachable := fold (\<lambda>src. om_insert src (search g [src] [])) xs (syncReachable g) \<rparr>"
  by (induction xs arbitrary: g) simp_all

lemma fold_om_insert:
  "om_sorted m \<Longrightarrow> om_sorted (fold (\<lambda>k. om_insert k (f k)) xs m) \<and>
     map_of (fold (\<lambda>k. om_insert k (f k)) xs m) k =
       (case map_of m k of Some v \<Rightarrow> Some v | None \<Rightarrow> if k \<in> set xs then Some (f k) else None)"
proof (induction xs arbitrary: m)
  case (Cons x xs)
  from Cons.IH [OF om_sorted_insert [OF Cons.prems]] Cons.prems show ?case
    by (auto split: option.splits)
qed (simp split: option.splits)

lemma set_fold_sorted_insert: "set (fold sorted_insert xs acc) = set xs \<union> set acc"
  by (induction xs arbitrary: acc) auto

lemma set_allSrcs:
  "set (fold (\<lambda>(t, syncs) acc. fold sorted_insert syncs acc) ts acc) =
     (\<Union>p \<in> set ts. set (snd p)) \<union> set acc"
  by (induction ts arbitrary: acc) (auto simp: set_fold_sorted_insert)

lemma isSync_iff:
  assumes "sync_inv g"
  shows "isSync g p \<longleftrightarrow> p \<in> (\<Union>q \<in> set (threadSyncs g). set (snd q))"
proof
  assume "p \<in> (\<Union>q \<in> set (threadSyncs g). set (snd q))"
  then obtain t syncs where mem: "(t, syncs) \<in> set (threadSyncs g)" "p \<in> set syncs" by auto
  moreover have "om_sorted (threadSyncs g)" using assms by (simp add: sync_inv_def)
  ultimately have at: "om_at [] t (threadSyncs g) = syncs"
    using om_mem_iff [of "threadSyncs g" t syncs] by (simp add: om_at_def)
  with sync_invD(2) [OF assms, of p t] mem show "isSync g p" by (simp add: isSync_def)
next
  assume "isSync g p"
  then obtain syncs where "map_of (threadSyncs g) (pidTid p) = Some syncs" "p \<in> set syncs"
    by (cases "map_of (threadSyncs g) (pidTid p)") (auto simp: isSync_def om_at_def)
  from this(1) [THEN map_of_SomeD] this(2) show "p \<in> (\<Union>q \<in> set (threadSyncs g). set (snd q))"
    by force
qed

lemma precompute_table:
  assumes "sync_inv g" and "syncReachable g = []"
  shows "map_of (syncReachable (precompute g)) p =
    (if isSync g p then Some (search g [p] []) else None)"
proof -
  let ?srcs = "fold (\<lambda>(t, syncs) acc. fold sorted_insert syncs acc) (threadSyncs g) []"
  have "set ?srcs = {p. isSync g p}" using isSync_iff [OF assms(1)] by (auto simp: set_allSrcs)
  then show ?thesis
    using fold_om_insert [of "[]" "\<lambda>src. search g [src] []" ?srcs p] assms(2)
    by (simp add: precompute_def Let_def precompute_fold)
qed

lemma precompute_other:
  "syncEdges (precompute g) = syncEdges g" "threadSyncs (precompute g) = threadSyncs g"
  by (simp_all add: precompute_def Let_def precompute_fold)

lemma precompute_queries [simp]:
  "findNextSync (precompute g) = findNextSync g" "findPrevSync (precompute g) = findPrevSync g"
  "hasEdge (precompute g) = hasEdge g" "isSync (precompute g) = isSync g"
  "edgeRel (precompute g) = edgeRel g" "orderRel (precompute g) = orderRel g"
  by (auto simp: fun_eq_iff findNextSync_def findPrevSync_def hasEdge_def isSync_def edgeRel_def
    orderRel_def precompute_other)

section \<open>What a query answers\<close>

text \<open>A path: to a sync of the source's thread, over syncs and edges, from a sync before the
  destination.\<close>

definition syncPath :: "sync_graph \<Rightarrow> event_pid \<Rightarrow> event_pid \<Rightarrow> bool" where
  "syncPath g p q \<longleftrightarrow> (\<exists>s d. isSync g s \<and> isSync g d \<and> (p, s) \<in> progRel \<and> (d, q) \<in> progRel \<and>
     (s, d) \<in> (edgeRel g \<union> orderRel g)\<^sup>*)"

lemma pidCanReach_iff:
  assumes inv: "sync_inv g" and new: "syncReachable g = []"
  shows "pidCanReach (precompute g) p q \<longleftrightarrow> syncPath g p q"
proof
  assume "pidCanReach (precompute g) p q"
  then obtain s d where s: "findNextSync g p = Some s" and d: "findPrevSync g q = Some d"
    and sd: "hasEdge g s d \<or> isReachable (precompute g) s d"
    by (auto simp: pidCanReach_def split: option.splits if_splits)
  note s' = findNextSync_Some [OF inv s] and d' = findPrevSync_Some [OF inv d]
  have "(s, d) \<in> (edgeRel g \<union> orderRel g)\<^sup>*"
  proof (cases "hasEdge g s d")
    case True
    then have "s = d \<or> (s, d) \<in> edgeRel g"
      by (auto simp: hasEdge_def edgeRel_def om_at_def split: option.splits if_splits)
    then show ?thesis by auto
  next
    case False
    with sd have "d \<in> set (search g [s] [])"
      by (auto simp: isReachable_def precompute_table [OF inv new] split: if_splits)
    then show ?thesis using search_reach [OF inv] s' by (simp add: search_eq)
  qed
  with s' d' show "syncPath g p q" unfolding syncPath_def progRel_le by metis
next
  assume "syncPath g p q"
  then obtain s d where sd: "isSync g s" "isSync g d" "(p, s) \<in> progRel" "(d, q) \<in> progRel"
    and path: "(s, d) \<in> (edgeRel g \<union> orderRel g)\<^sup>*"
    by (auto simp: syncPath_def)
  obtain s' where s': "findNextSync g p = Some s'"
    using findNextSync_None [of g p s] sd by (cases "findNextSync g p") (auto simp: progRel_le)
  obtain d' where d': "findPrevSync g q = Some d'"
    using findPrevSync_None [of g q d] sd by (cases "findPrevSync g q") (auto simp: progRel_le)
  note ns = findNextSync_Some [OF inv s'] and pd = findPrevSync_Some [OF inv d']
  have "(s', s) \<in> orderRel g" "(d, d') \<in> orderRel g"
    using ns pd sd by (auto simp: orderRel_def progRel_le)
  with path have "(s', d') \<in> (edgeRel g \<union> orderRel g)\<^sup>*"
    by (meson UnI2 converse_rtrancl_into_rtrancl rtrancl_into_rtrancl)
  then have "d' \<in> set (search g [s'] [])"
    using search_reach [OF inv] ns by (simp add: search_eq)
  then have "isReachable (precompute g) s' d'"
    using ns by (simp add: isReachable_def precompute_table [OF inv new])
  then show "pidCanReach (precompute g) p q" by (simp add: pidCanReach_def s' d')
qed

text \<open>Across threads the syncs do not matter: only program order and the edges.\<close>

lemma syncPath_cross:
  assumes inv: "sync_inv g" and cross: "pidTid p \<noteq> pidTid q"
  shows "syncPath g p q \<longleftrightarrow> (p, q) \<in> (edgeRel g \<union> progRel)\<^sup>*"
proof
  assume "syncPath g p q"
  then obtain s d where "(p, s) \<in> progRel" "(d, q) \<in> progRel"
    and "(s, d) \<in> (edgeRel g \<union> orderRel g)\<^sup>*" by (auto simp: syncPath_def)
  moreover have "edgeRel g \<union> orderRel g \<subseteq> edgeRel g \<union> progRel" by (auto simp: orderRel_def)
  ultimately show "(p, q) \<in> (edgeRel g \<union> progRel)\<^sup>*"
    by (meson UnI2 converse_rtrancl_into_rtrancl rtrancl_into_rtrancl rtrancl_mono subsetD)
next
  assume "(p, q) \<in> (edgeRel g \<union> progRel)\<^sup>*"
  then have "(p, q) \<in> progRel \<or> syncPath g p q"
  proof (induction rule: rtrancl_induct)
    case (step y z)
    from step.hyps(2) show ?case
    proof
      assume "(y, z) \<in> progRel"
      with step.IH show ?thesis by (auto simp: syncPath_def intro: progRel_trans)
    next
      assume e: "(y, z) \<in> edgeRel g"
      then have yz: "isSync g y" "isSync g z" using sync_invD(3,4) [OF inv] by auto
      have refl: "(z, z) \<in> progRel" by (simp add: progRel_def)
      from step.IH show ?thesis
      proof
        assume "(p, y) \<in> progRel"
        with yz refl e show ?thesis unfolding syncPath_def by blast
      next
        assume "syncPath g p y"
        then obtain s d where sd: "isSync g s" "(p, s) \<in> progRel"
          "(s, d) \<in> (edgeRel g \<union> orderRel g)\<^sup>*" "(d, y) \<in> orderRel g"
          using yz by (auto simp: syncPath_def orderRel_def)
        then have "(s, z) \<in> (edgeRel g \<union> orderRel g)\<^sup>*"
          using e by (meson UnI1 UnI2 rtrancl_into_rtrancl)
        with sd yz refl show ?thesis unfolding syncPath_def by blast
      qed
    qed
  qed (simp add: progRel_def)
  with cross show "syncPath g p q" by (auto simp: progRel_def)
qed

section \<open>The store of edges as an interface\<close>

text \<open>
  What the construction of the graph relies on: adding edges one at a time to an initially
  empty store yields the set of the edges added, with their endpoints as nodes.
\<close>

locale edge_store =
  fixes inv :: "'s \<Rightarrow> bool" and empty :: 's and add :: "'n \<Rightarrow> 'n \<Rightarrow> 's \<Rightarrow> 's"
    and edges :: "'s \<Rightarrow> ('n \<times> 'n) set" and node :: "'s \<Rightarrow> 'n \<Rightarrow> bool"
  assumes inv_empty: "inv empty"
    and edges_empty: "edges empty = {}"
    and node_empty: "\<not> node empty n"
    and inv_add: "inv s \<Longrightarrow> inv (add a b s)"
    and edges_add: "inv s \<Longrightarrow> edges (add a b s) = insert (a, b) (edges s)"
    and node_add: "inv s \<Longrightarrow> node (add a b s) n \<longleftrightarrow> n = a \<or> n = b \<or> node s n"
begin

definition addAll :: "('n \<times> 'n) list \<Rightarrow> 's \<Rightarrow> 's" where
  "addAll es s = fold (\<lambda>(a, b). add a b) es s"

lemma addAll_simps [simp]:
  "addAll [] s = s" "addAll ((a, b) # es) s = addAll es (add a b s)"
  by (simp_all add: addAll_def)

lemma addAll_append: "addAll (es @ es') s = addAll es' (addAll es s)"
  by (simp add: addAll_def)

lemma addAll_inv: "inv s \<Longrightarrow> inv (addAll es s)"
  by (induction es arbitrary: s) (auto simp: inv_add)

lemma addAll_edges: "inv s \<Longrightarrow> edges (addAll es s) = set es \<union> edges s"
  by (induction es arbitrary: s) (auto simp: inv_add edges_add)

lemma addAll_node: "inv s \<Longrightarrow> node (addAll es s) n \<longleftrightarrow> n \<in> Field (set es) \<or> node s n"
  by (induction es arbitrary: s) (auto simp: inv_add node_add Field_insert)

lemma built_edges: "inv (addAll es empty) \<and> edges (addAll es empty) = set es"
  by (simp add: addAll_inv inv_empty addAll_edges edges_empty)

end

interpretation hbg: edge_store sync_inv empty_graph addSyncEdge edgeRel isSync
  by unfold_locales
    (simp_all add: sync_inv_empty sync_inv_addSyncEdge edgeRel_addSyncEdge isSync_addSyncEdge,
     simp_all add: edgeRel_def isSync_def empty_graph_def om_at_def)

lemma addSyncEdge_reachable [simp]: "syncReachable (addSyncEdge a b g) = syncReachable g"
  by (simp add: addSyncEdge_def addSync_def Let_def)

end
