(* ===== verification/HappensBefore.thy ===== *)
theory HappensBefore
  imports SyncGraph
begin

text \<open>
  The happens-before graph of a trace (src/Analysis/HappensBeforeGraph.cpp): which fork a join
  belongs to, and the constructor that turns forks, joins and barriers into sync edges and
  precomputes reachability.

  \<open>happensBefore\<close> is the specification: the reflexive transitive closure of program order,
  fork before the forked thread, joined thread before the join, and barriers of one
  instruction mutually ordered. \<open>canReach_happensBefore\<close> shows that the graph answers exactly
  this relation across threads.
\<close>

section \<open>Matching joins with forks\<close>

definition getForkedThread :: "program_trace \<Rightarrow> event \<Rightarrow> thread_trace result" where
  "getForkedThread P fork =
     (case find (\<lambda>thread. spawnSite thread = Some fork) (getThreads P) of
        None \<Rightarrow> Inl AssertFailed
      | Some thread \<Rightarrow> Inr thread)"

fun findForkWithHandle :: "llvm_module \<Rightarrow> llvm_value \<Rightarrow> event list \<Rightarrow> event option result" where
  "findForkWithHandle M handle [] = Inr None"
| "findForkWithHandle M handle (forkEvent # events) =
     rbind (getThreadHandle M (evIR forkEvent)) (\<lambda>h.
       if h = handle then Inr (Some forkEvent) else findForkWithHandle M handle events)"

definition getForkWithHandleOn :: "llvm_module \<Rightarrow> llvm_value \<Rightarrow> thread_trace \<Rightarrow> event option result" where
  "getForkWithHandleOn M handle thread = findForkWithHandle M handle (getForkEvents thread)"

definition orElse :: "'a option result \<Rightarrow> 'a option result \<Rightarrow> 'a option result" where
  "orElse m n = rbind m (\<lambda>r. case r of Some x \<Rightarrow> Inr (Some x) | None \<Rightarrow> n)"

fun getForkWithHandleIn ::
  "llvm_module \<Rightarrow> llvm_value \<Rightarrow> thread_trace list \<Rightarrow> event option result" where
  "getForkWithHandleIn M handle [] = Inr None"
| "getForkWithHandleIn M handle (thread # threads) =
     orElse (getForkWithHandleOn M handle thread) (getForkWithHandleIn M handle threads)"

definition getForkWithHandle :: "program_trace \<Rightarrow> llvm_value \<Rightarrow> event option result" where
  "getForkWithHandle P handle = getForkWithHandleIn (ptModule P) handle (getThreads P)"

text \<open>The stores to the slot a joined handle was loaded from.\<close>

fun findStoredHandle ::
  "program_trace \<Rightarrow> llvm_value \<Rightarrow> llvm_value list \<Rightarrow> event option result" where
  "findStoredHandle P joinHandle [] = Inr None"
| "findStoredHandle P joinHandle (user # rest) =
     (if user = joinHandle then findStoredHandle P joinHandle rest
      else if classOf (ptModule P) user = StoreInst
      then orElse (getForkWithHandle P (getPointerOperand (ptModule P) user))
             (findStoredHandle P joinHandle rest)
      else findStoredHandle P joinHandle rest)"

text \<open>
  \<open>while (auto phi = dyn_cast<PHINode>(joinHandle))\<close>: the body never assigns
  \<open>joinHandle\<close>, so the loop either returns in its first iteration or never.
\<close>

partial_function (option) phiLoop :: "program_trace \<Rightarrow> llvm_value \<Rightarrow> event option result option" where
  "phiLoop P joinHandle =
     (if classOf (ptModule P) joinHandle = PHINode
      then (let incoming = getOperand (ptModule P) joinHandle 0
            in if classOf (ptModule P) incoming = CallInst
               then (case getForkWithHandle P incoming of
                       Inl e \<Rightarrow> Some (Inl e)
                     | Inr (Some fork) \<Rightarrow> Some (Inr (Some fork))
                     | Inr None \<Rightarrow> phiLoop P joinHandle)
               else phiLoop P joinHandle)
      else Some (Inr None))"

declare phiLoop.simps [code]

definition getPhiFork :: "program_trace \<Rightarrow> llvm_value \<Rightarrow> event option result" where
  "getPhiFork P joinHandle =
     (case phiLoop P joinHandle of None \<Rightarrow> Inl Diverges | Some r \<Rightarrow> r)"

definition nearestFork :: "program_trace \<Rightarrow> event \<Rightarrow> event option" where
  "nearestFork P join = find (\<lambda>fork. evID fork < evID join) (rev (getForkEvents (evThread P join)))"

definition getCorrespondingFork :: "program_trace \<Rightarrow> event \<Rightarrow> event option result" where
  "getCorrespondingFork P join =
     (let M = ptModule P in
      case evForkEvent join of
        Some fork \<Rightarrow> Inr (Some fork)
      | None \<Rightarrow>
          rbind (getThreadHandle M (evIR join)) (\<lambda>joinHandle.
            orElse (getForkWithHandleOn M joinHandle (evThread P join))
           (orElse (getForkWithHandle P joinHandle)
           (orElse
              (if classOf M joinHandle = LoadInst
               then (let loadedHandle = getPointerOperand M joinHandle
                     in orElse (getForkWithHandle P loadedHandle)
                          (findStoredHandle P joinHandle (users M loadedHandle)))
               else getPhiFork P joinHandle)
              (Inr (nearestFork P join))))))"

definition getJoinedThread :: "program_trace \<Rightarrow> event \<Rightarrow> thread_trace option result" where
  "getJoinedThread P join =
     rbind (getCorrespondingFork P join) (\<lambda>fork.
       case fork of
         Some f \<Rightarrow> rbind (getForkedThread P f) (\<lambda>t. Inr (Some t))
       | None \<Rightarrow> Inr None)"

section \<open>The constructor\<close>

type_synonym hb_state = "(llvm_value \<times> event) list \<times> sync_graph"

definition addBarrierEdge :: "event \<Rightarrow> hb_state \<Rightarrow> hb_state result" where
  "addBarrierEdge event = (\<lambda>(lastBarrier, g).
     let barrierInst = evInst event;
         g' = (case map_of lastBarrier barrierInst of
                 Some prevEvent \<Rightarrow>
                   addSyncEdge (pidOf prevEvent) (pidOf event)
                     (addSyncEdge (pidOf event) (pidOf prevEvent) g)
               | None \<Rightarrow> g)
     in rassert (evIRType event = TyOpenMPBarrier) AssertFailed
          (Inr (om_put barrierInst event lastBarrier, g')))"

definition addForkEdge :: "program_trace \<Rightarrow> event \<Rightarrow> hb_state \<Rightarrow> hb_state result" where
  "addForkEdge P forkEvent = (\<lambda>(lastBarrier, g).
     rbind (getForkedThread P forkEvent) (\<lambda>forkedThread.
       case getEvents forkedThread of
         [] \<Rightarrow> Inr (lastBarrier, g)
       | front # _ \<Rightarrow> Inr (lastBarrier, addSyncEdge (pidOf forkEvent) (pidOf front) g)))"

definition addJoinEdge :: "program_trace \<Rightarrow> event \<Rightarrow> hb_state \<Rightarrow> hb_state result" where
  "addJoinEdge P joinEvent = (\<lambda>(lastBarrier, g).
     rbind (getJoinedThread P joinEvent) (\<lambda>joinedThread.
       case joinedThread of
         None \<Rightarrow> Inr (lastBarrier, g)
       | Some t \<Rightarrow>
           if getEvents t \<noteq> []
           then Inr (lastBarrier, addSyncEdge (pidOf (last (getEvents t))) (pidOf joinEvent) g)
           else Inr (lastBarrier, g)))"

definition processEvent :: "program_trace \<Rightarrow> event \<Rightarrow> hb_state \<Rightarrow> hb_state result" where
  "processEvent P event st =
     (case evType event of
        Fork \<Rightarrow> addForkEdge P event st
      | Join \<Rightarrow> addJoinEdge P event st
      | Barrier \<Rightarrow> addBarrierEdge event st
      | _ \<Rightarrow> Inr st)"

definition happensBeforeGraph :: "program_trace \<Rightarrow> sync_graph result" where
  "happensBeforeGraph P =
     rbind (rfold (\<lambda>thread. rfold (processEvent P) (getEvents thread)) (getThreads P) ([], empty_graph))
       (\<lambda>(_, g). Inr (precompute g))"

section \<open>The specification\<close>

definition progOrder :: "program_trace \<Rightarrow> event rel" where
  "progOrder P =
     {(a, b). a \<in> set (allEvents P) \<and> b \<in> set (allEvents P) \<and> evTid a = evTid b \<and> evID a \<le> evID b}"

definition forkOrder :: "program_trace \<Rightarrow> event rel" where
  "forkOrder P =
     {(f, e). f \<in> set (allEvents P) \<and> evType f = Fork \<and>
        (\<exists>t \<in> set (getThreads P). spawnSite t = Some f \<and> e \<in> set (getEvents t))}"

definition joinOrder :: "program_trace \<Rightarrow> event rel" where
  "joinOrder P =
     {(e, j). j \<in> set (allEvents P) \<and> evType j = Join \<and>
        (\<exists>t. getJoinedThread P j = Inr (Some t) \<and> e \<in> set (getEvents t))}"

definition barrierOrder :: "program_trace \<Rightarrow> event rel" where
  "barrierOrder P =
     {(a, b). a \<in> set (allEvents P) \<and> b \<in> set (allEvents P) \<and> evType a = Barrier \<and>
        evType b = Barrier \<and> evInst a = evInst b}"

definition happensBefore :: "program_trace \<Rightarrow> event rel" where
  "happensBefore P = (progOrder P \<union> forkOrder P \<union> joinOrder P \<union> barrierOrder P)\<^sup>*"

section \<open>Matching joins with forks\<close>

lemma getForkedThread_Inr:
  assumes "getForkedThread P f = Inr t"
  shows "t \<in> set (getThreads P)" and "spawnSite t = Some f"
  using assms by (auto simp: getForkedThread_def find_Some_iff split: option.splits)

lemma getJoinedThread_mem:
  assumes "getJoinedThread P j = Inr (Some t)"
  shows "t \<in> set (getThreads P)"
  using assms getForkedThread_Inr by (auto simp: getJoinedThread_def split: option.splits)

lemma getForkedThread_unique:
  assumes "wf_spawns P" and "t \<in> set (getThreads P)" and "spawnSite t = Some f"
  shows "getForkedThread P f = Inr t"
proof (cases "find (\<lambda>s. spawnSite s = Some f) (getThreads P)")
  case None
  with assms(2,3) show ?thesis by (auto simp: find_None_iff)
next
  case (Some s)
  then have "s \<in> set (getThreads P)" "spawnSite s = Some f" by (auto simp: find_Some_iff)
  then have "s = t"
    using assms unfolding wf_spawns_def distinct_map inj_on_def by metis
  with Some show ?thesis by (simp add: getForkedThread_def)
qed

text \<open>The loop over \<open>PHINode\<close>s never returns unless its first iteration does.\<close>

definition phiStuck :: "program_trace \<Rightarrow> llvm_value \<Rightarrow> bool" where
  "phiStuck P h \<longleftrightarrow> classOf (ptModule P) h = PHINode \<and>
     (classOf (ptModule P) (getOperand (ptModule P) h 0) = CallInst \<longrightarrow>
        getForkWithHandle P (getOperand (ptModule P) h 0) = Inr None)"

lemma phiLoop_not_stuck:
  assumes "phiLoop P h = Some r"
  shows "\<not> phiStuck P h"
proof -
  have "(\<lambda>(P, h) r. \<not> phiStuck P h) (P, h) r"
    by (rule phiLoop.raw_induct [where Pa = "\<lambda>(P, h) r. \<not> phiStuck P h", OF _ assms])
      (auto simp: phiStuck_def Let_def split: if_splits sum.splits option.splits)
  then show ?thesis by simp
qed

lemma phiLoop_stuck: "phiStuck P h \<Longrightarrow> phiLoop P h = None"
  using phiLoop_not_stuck by (cases "phiLoop P h") auto

lemma phiLoop_returns: "\<not> phiStuck P h \<Longrightarrow> \<exists>r. phiLoop P h = Some r"
  by (subst phiLoop.simps) (auto simp: phiStuck_def Let_def split: sum.splits option.splits)


section \<open>The edges of the graph\<close>

text \<open>What the events processed so far (the list \<open>D\<close>) have put into the graph.\<close>

definition pidRel :: "event rel \<Rightarrow> event_pid rel" where
  "pidRel R = map_prod pidOf pidOf ` R"

lemma pidRel_iff: "(p, q) \<in> pidRel R \<longleftrightarrow> (\<exists>a b. (a, b) \<in> R \<and> p = pidOf a \<and> q = pidOf b)"
  by (auto simp: pidRel_def)

definition hb_graph_inv :: "program_trace \<Rightarrow> sync_graph \<Rightarrow> bool" where
  "hb_graph_inv P g \<longleftrightarrow> sync_inv g \<and> syncReachable g = [] \<and>
     edgeRel g \<subseteq> pidRel (forkOrder P \<union> joinOrder P \<union> barrierOrder P) \<and>
     (\<forall>p. isSync g p \<longrightarrow> p \<in> pidOf ` set (allEvents P))"

definition hb_last_inv :: "event list \<Rightarrow> hb_state \<Rightarrow> bool" where
  "hb_last_inv D = (\<lambda>(last, g). om_sorted last \<and>
     (\<forall>i b. map_of last i = Some b \<longrightarrow> b \<in> set D \<and> evType b = Barrier \<and> evInst b = i) \<and>
     (\<forall>b \<in> set D. evType b = Barrier \<longrightarrow>
        (\<exists>b'. map_of last (evInst b) = Some b' \<and>
           (pidOf b, pidOf b') \<in> (edgeRel g)\<^sup>* \<and> (pidOf b', pidOf b) \<in> (edgeRel g)\<^sup>*)))"

definition hb_done :: "program_trace \<Rightarrow> event list \<Rightarrow> sync_graph \<Rightarrow> bool" where
  "hb_done P D g \<longleftrightarrow>
     (\<forall>f \<in> set D. \<forall>t. evType f = Fork \<and> getForkedThread P f = Inr t \<and> getEvents t \<noteq> [] \<longrightarrow>
        (pidOf f, pidOf (hd (getEvents t))) \<in> edgeRel g) \<and>
     (\<forall>j \<in> set D. \<forall>t. evType j = Join \<and> getJoinedThread P j = Inr (Some t) \<and> getEvents t \<noteq> [] \<longrightarrow>
        (pidOf (last (getEvents t)), pidOf j) \<in> edgeRel g)"

definition hb_inv :: "program_trace \<Rightarrow> event list \<Rightarrow> hb_state \<Rightarrow> bool" where
  "hb_inv P D st \<longleftrightarrow> hb_graph_inv P (snd st) \<and> hb_last_inv D st \<and> hb_done P D (snd st)"

lemma orders_in_trace:
  "progOrder P \<union> forkOrder P \<union> joinOrder P \<union> barrierOrder P \<subseteq> set (allEvents P) \<times> set (allEvents P)"
  using getJoinedThread_mem
  by (auto simp: progOrder_def forkOrder_def joinOrder_def barrierOrder_def allEvents_def)

lemma hb_graph_inv_add:
  assumes "hb_graph_inv P g" and "(a, b) \<in> forkOrder P \<union> joinOrder P \<union> barrierOrder P"
  shows "hb_graph_inv P (addSyncEdge (pidOf a) (pidOf b) g)"
  using assms orders_in_trace [of P]
  by (auto simp: hb_graph_inv_def hbg.inv_add hbg.edges_add hbg.node_add pidRel_iff)

lemma edgeRel_grow: "sync_inv g \<Longrightarrow> edgeRel g \<subseteq> edgeRel (addSyncEdge a b g)"
  by (auto simp: hbg.edges_add)

lemma hb_last_inv_mono:
  assumes "hb_last_inv D (l, g)" and "edgeRel g \<subseteq> edgeRel g'" and "evType e \<noteq> Barrier"
  shows "hb_last_inv (D @ [e]) (l, g')"
  using assms(1,3) rtrancl_mono [OF assms(2)] unfolding hb_last_inv_def by fastforce

lemma hb_done_mono:
  assumes "hb_done P D g" and "edgeRel g \<subseteq> edgeRel g'"
  shows "hb_done P D g'"
  using assms unfolding hb_done_def by blast

lemma hb_done_snoc:
  "hb_done P (D @ [e]) g \<longleftrightarrow> hb_done P D g \<and> hb_done P [e] g"
  by (auto simp: hb_done_def)

lemma forkOrder_first:
  assumes "f \<in> set (allEvents P)" and "evType f = Fork" and "getForkedThread P f = Inr t"
    and "e \<in> set (getEvents t)"
  shows "(f, e) \<in> forkOrder P"
  using assms getForkedThread_Inr [OF assms(3)] by (auto simp: forkOrder_def)

lemma processEvent_fork:
  assumes inv: "hb_inv P D st" and e: "e \<in> set (allEvents P)" and ty: "evType e = Fork"
    and step: "addForkEdge P e st = Inr st'"
  shows "hb_inv P (D @ [e]) st'"
proof -
  obtain l g where st: "st = (l, g)" by (cases st)
  from step obtain t where t: "getForkedThread P e = Inr t"
    and st': "(case getEvents t of [] \<Rightarrow> Inr (l, g)
       | front # _ \<Rightarrow> Inr (l, addSyncEdge (pidOf e) (pidOf front) g)) = (Inr st' :: hb_state result)"
    by (auto simp: addForkEdge_def st)
  have g: "hb_graph_inv P g" "hb_last_inv D (l, g)" "hb_done P D g" "sync_inv g"
    using inv by (auto simp: hb_inv_def st hb_graph_inv_def)
  show ?thesis
  proof (cases "getEvents t")
    case Nil
    then have "hb_done P [e] g" "st' = (l, g)" using t ty st' by (simp_all add: hb_done_def)
    with g ty hb_last_inv_mono [OF g(2) subset_refl] show ?thesis
      by (simp add: hb_inv_def hb_done_snoc)
  next
    case (Cons x xs)
    let ?g = "addSyncEdge (pidOf e) (pidOf x) g"
    have grow: "edgeRel g \<subseteq> edgeRel ?g" using g(4) by (rule edgeRel_grow)
    have "(e, x) \<in> forkOrder P" using forkOrder_first [OF e ty t] Cons by simp
    then have "hb_graph_inv P ?g" by (intro hb_graph_inv_add [OF g(1)]) simp
    moreover have "hb_done P [e] ?g" using t ty Cons g(4) by (simp add: hb_done_def hbg.edges_add)
    moreover have "st' = (l, ?g)" using st' Cons by simp
    ultimately show ?thesis
      using ty hb_last_inv_mono [OF g(2) grow] hb_done_mono [OF g(3) grow]
      by (simp add: hb_inv_def hb_done_snoc)
  qed
qed

lemma processEvent_join:
  assumes inv: "hb_inv P D st" and e: "e \<in> set (allEvents P)" and ty: "evType e = Join"
    and step: "addJoinEdge P e st = Inr st'"
  shows "hb_inv P (D @ [e]) st'"
proof -
  obtain l g where st: "st = (l, g)" by (cases st)
  from step obtain jt where jt: "getJoinedThread P e = Inr jt"
    and st': "(case jt of None \<Rightarrow> Inr (l, g) | Some t \<Rightarrow> if getEvents t \<noteq> []
       then Inr (l, addSyncEdge (pidOf (last (getEvents t))) (pidOf e) g) else Inr (l, g)) =
       (Inr st' :: hb_state result)"
    by (auto simp: addJoinEdge_def st)
  have g: "hb_graph_inv P g" "hb_last_inv D (l, g)" "hb_done P D g" "sync_inv g"
    using inv by (auto simp: hb_inv_def st hb_graph_inv_def)
  show ?thesis
  proof (cases "\<exists>t. jt = Some t \<and> getEvents t \<noteq> []")
    case False
    then have "hb_done P [e] g" using jt ty by (auto simp: hb_done_def)
    moreover have "st' = (l, g)" using st' False by (cases jt) auto
    ultimately show ?thesis using g ty hb_last_inv_mono [OF g(2) subset_refl]
      by (simp add: hb_inv_def hb_done_snoc)
  next
    case True
    then obtain t where t: "jt = Some t" "getEvents t \<noteq> []" by blast
    let ?x = "last (getEvents t)" let ?g = "addSyncEdge (pidOf ?x) (pidOf e) g"
    have grow: "edgeRel g \<subseteq> edgeRel ?g" using g(4) by (rule edgeRel_grow)
    have "(?x, e) \<in> joinOrder P" using jt t e ty by (auto simp: joinOrder_def)
    then have "hb_graph_inv P ?g" by (intro hb_graph_inv_add [OF g(1)]) simp
    moreover have "hb_done P [e] ?g" using t jt ty g(4) by (simp add: hb_done_def hbg.edges_add)
    moreover have "st' = (l, ?g)" using st' t by simp
    ultimately show ?thesis
      using ty hb_last_inv_mono [OF g(2) grow] hb_done_mono [OF g(3) grow]
      by (simp add: hb_inv_def hb_done_snoc)
  qed
qed

lemma processEvent_barrier:
  assumes inv: "hb_inv P D st" and D: "set D \<subseteq> set (allEvents P)" and e: "e \<in> set (allEvents P)"
    and ty: "evType e = Barrier" and step: "addBarrierEdge e st = Inr st'"
  shows "hb_inv P (D @ [e]) st'"
proof -
  obtain l g where st: "st = (l, g)" by (cases st)
  have g: "hb_graph_inv P g" "hb_last_inv D (l, g)" "hb_done P D g" "sync_inv g"
    using inv by (auto simp: hb_inv_def st hb_graph_inv_def)
  have l: "om_sorted l" and lm: "\<And>i b. map_of l i = Some b \<Longrightarrow> b \<in> set D \<and> evType b = Barrier \<and> evInst b = i"
    and ld: "\<And>b. b \<in> set D \<Longrightarrow> evType b = Barrier \<Longrightarrow> \<exists>b'. map_of l (evInst b) = Some b' \<and>
           (pidOf b, pidOf b') \<in> (edgeRel g)\<^sup>* \<and> (pidOf b', pidOf b) \<in> (edgeRel g)\<^sup>*"
    using g(2) by (auto simp: hb_last_inv_def)
  have noF: "hb_done P [e] g'" for g' using ty by (simp add: hb_done_def)
  show ?thesis
  proof (cases "map_of l (evInst e)")
    case None
    with step have st': "st' = (om_put (evInst e) e l, g)"
      by (auto simp: addBarrierEdge_def st Let_def)
    have ne: "evInst b \<noteq> evInst e" if "b \<in> set D" "evType b = Barrier" for b
      using ld [OF that] None by auto
    have "hb_last_inv (D @ [e]) st'"
      using l lm ld ne ty unfolding st' hb_last_inv_def
      by (auto simp: om_sorted_put split: if_splits)
    with g noF show ?thesis by (simp add: hb_inv_def st' hb_done_snoc)
  next
    case (Some b)
    let ?g1 = "addSyncEdge (pidOf e) (pidOf b) g" let ?g = "addSyncEdge (pidOf b) (pidOf e) ?g1"
    from Some step have st': "st' = (om_put (evInst e) e l, ?g)"
      by (auto simp: addBarrierEdge_def st Let_def)
    from lm [OF Some] D have b: "b \<in> set (allEvents P)" "evType b = Barrier" "evInst b = evInst e" by auto
    have ordb: "(e, b) \<in> barrierOrder P" "(b, e) \<in> barrierOrder P"
      using b e ty by (auto simp: barrierOrder_def)
    have g1: "hb_graph_inv P ?g1" by (intro hb_graph_inv_add [OF g(1)]) (simp add: ordb)
    have g2: "hb_graph_inv P ?g" by (intro hb_graph_inv_add [OF g1]) (simp add: ordb)
    have s1: "sync_inv ?g1" using g1 by (simp add: hb_graph_inv_def)
    have E: "edgeRel ?g = insert (pidOf b, pidOf e) (insert (pidOf e, pidOf b) (edgeRel g))"
      by (simp add: hbg.edges_add [OF s1] hbg.edges_add [OF g(4)])
    then have grow: "edgeRel g \<subseteq> edgeRel ?g" by auto
    have B: "\<exists>b'. map_of (om_put (evInst e) e l) (evInst c) = Some b' \<and>
        (pidOf c, pidOf b') \<in> (edgeRel ?g)\<^sup>* \<and> (pidOf b', pidOf c) \<in> (edgeRel ?g)\<^sup>*"
      if c: "c \<in> set (D @ [e])" "evType c = Barrier" for c
    proof (cases "evInst c = evInst e")
      case same: True
      show ?thesis
      proof (cases "c \<in> set D")
        case True
        from ld [OF this c(2)] same Some
        have "(pidOf c, pidOf b) \<in> (edgeRel g)\<^sup>*" "(pidOf b, pidOf c) \<in> (edgeRel g)\<^sup>*" by auto
        then have "(pidOf c, pidOf b) \<in> (edgeRel ?g)\<^sup>*" "(pidOf b, pidOf c) \<in> (edgeRel ?g)\<^sup>*"
          using rtrancl_mono [OF grow] by auto
        moreover have "(pidOf b, pidOf e) \<in> edgeRel ?g" "(pidOf e, pidOf b) \<in> edgeRel ?g" by (auto simp: E)
        ultimately have "(pidOf c, pidOf e) \<in> (edgeRel ?g)\<^sup>*" "(pidOf e, pidOf c) \<in> (edgeRel ?g)\<^sup>*"
          by (auto intro: rtrancl_into_rtrancl converse_rtrancl_into_rtrancl)
        then show ?thesis using same l by auto
      qed (use c l in auto)
    next
      case False
      with c have "c \<in> set D" by auto
      from ld [OF this c(2)] False l rtrancl_mono [OF grow] show ?thesis by auto
    qed
    have A: "c \<in> set (D @ [e]) \<and> evType c = Barrier \<and> evInst c = i"
      if "map_of (om_put (evInst e) e l) i = Some c" for i c
      using that l lm [of i c] ty by (auto split: if_splits)
    have "hb_last_inv (D @ [e]) st'"
      unfolding st' hb_last_inv_def prod.case using om_sorted_put [OF l] A B by blast
    with g2 noF hb_done_mono [OF g(3) grow] show ?thesis by (simp add: hb_inv_def st' hb_done_snoc)
  qed
qed

lemma processEvent_inv:
  assumes inv: "hb_inv P D st" and D: "set D \<subseteq> set (allEvents P)" and e: "e \<in> set (allEvents P)"
    and step: "processEvent P e st = Inr st'"
  shows "hb_inv P (D @ [e]) st'"
proof (cases "evType e \<in> {Fork, Join, Barrier}")
  case True
  then show ?thesis
    using step processEvent_fork [OF inv e, of st'] processEvent_join [OF inv e, of st']
      processEvent_barrier [OF inv D e, of st']
    by (auto simp: processEvent_def)
next
  case False
  then have st': "st' = st" using step by (cases "evType e") (auto simp: processEvent_def)
  obtain l g where st: "st = (l, g)" by (cases st)
  have "hb_last_inv (D @ [e]) (l, g)" "hb_done P [e] g"
    using inv False hb_last_inv_mono [of D l g g e] by (auto simp: hb_inv_def st hb_done_def)
  with inv show ?thesis by (simp add: hb_inv_def st st' hb_done_snoc)
qed

lemma rfold_processEvent:
  "rfold (processEvent P) es st = Inr st' \<Longrightarrow> hb_inv P D st \<Longrightarrow>
     set D \<subseteq> set (allEvents P) \<Longrightarrow> set es \<subseteq> set (allEvents P) \<Longrightarrow> hb_inv P (D @ es) st'"
proof (induction es arbitrary: st D)
  case (Cons e es)
  from Cons.prems(1) obtain st1 where "processEvent P e st = Inr st1"
    and "rfold (processEvent P) es st1 = Inr st'" by auto
  with Cons.IH [of st1 "D @ [e]"] processEvent_inv [of P D st e st1] Cons.prems show ?case by auto
qed simp

lemma hb_inv_init: "hb_inv P [] ([], empty_graph)"
  by (simp add: hb_inv_def hb_graph_inv_def hb_last_inv_def hb_done_def hbg.inv_empty
    hbg.edges_empty hbg.node_empty, simp add: empty_graph_def)

lemma happensBeforeGraph_inv:
  assumes "happensBeforeGraph P = Inr g"
  shows "\<exists>l g0. g = precompute g0 \<and> hb_inv P (allEvents P) (l, g0)"
proof -
  from assms obtain l g0 where "rfold (processEvent P) (allEvents P) ([], empty_graph) = Inr (l, g0)"
    and "g = precompute g0"
    by (auto simp: happensBeforeGraph_def rfold_concat allEvents_def)
  with rfold_processEvent [OF this(1) hb_inv_init] show ?thesis by auto
qed

section \<open>The graph and the specification\<close>

lemma progRel_pidOf: "(pidOf a, pidOf b) \<in> progRel \<longleftrightarrow> evTid a = evTid b \<and> evID a \<le> evID b"
  by (simp add: progRel_def)

lemma rtrancl_pidRel:
  assumes R: "R \<subseteq> A \<times> A" and inj: "inj_on pidOf A" and a: "a \<in> A"
  shows "(pidOf a, q) \<in> (pidRel R)\<^sup>* \<Longrightarrow> \<exists>b \<in> A. q = pidOf b \<and> (a, b) \<in> R\<^sup>*"
proof (induction rule: rtrancl_induct)
  case (step y z)
  obtain b where b: "y = pidOf b" "b \<in> A" "(a, b) \<in> R\<^sup>*" using step.IH by blast
  obtain c d where cd: "(c, d) \<in> R" "y = pidOf c" "z = pidOf d"
    using step.hyps(2) by (auto simp: pidRel_iff)
  have "b = c" using R inj b cd by (auto dest: inj_onD)
  with b cd R show ?case by (auto intro: rtrancl_into_rtrancl)
qed (use a in auto)

lemma pidOf_inj: "wf_events P \<Longrightarrow> inj_on pidOf (set (allEvents P))"
  by (auto simp: inj_on_def pidOf_def intro: wf_event_inj)

text \<open>From the graph to the specification.\<close>

lemma graph_sound:
  assumes wf: "wf_events P" and inv: "hb_graph_inv P g"
    and a: "a \<in> set (allEvents P)" and b: "b \<in> set (allEvents P)"
    and path: "syncPath g (pidOf a) (pidOf b)"
  shows "(a, b) \<in> happensBefore P"
proof -
  let ?A = "set (allEvents P)"
  let ?R = "progOrder P \<union> forkOrder P \<union> joinOrder P \<union> barrierOrder P"
  have sync: "\<exists>c \<in> ?A. p = pidOf c" if "isSync g p" for p
    using inv that by (auto simp: hb_graph_inv_def)
  have prog: "(pidOf c, pidOf d) \<in> pidRel ?R" if "c \<in> ?A" "d \<in> ?A" "(pidOf c, pidOf d) \<in> progRel" for c d
    using that by (auto simp: pidRel_iff progOrder_def progRel_pidOf)
  have "edgeRel g \<subseteq> pidRel ?R" using inv by (force simp: hb_graph_inv_def pidRel_iff)
  moreover have "orderRel g \<subseteq> pidRel ?R" 
  proof (rule subrelI)
    fix p q
    assume "(p, q) \<in> orderRel g"
    then have pq: "(p, q) \<in> progRel" "isSync g p" "isSync g q" by (auto simp: orderRel_def)
    from sync [OF pq(2)] sync [OF pq(3)] prog pq(1) show "(p, q) \<in> pidRel ?R" by blast
  qed
  ultimately have sub: "edgeRel g \<union> orderRel g \<subseteq> pidRel ?R" by blast
  from path obtain s d where "isSync g s" "isSync g d" "(pidOf a, s) \<in> progRel" "(d, pidOf b) \<in> progRel"
    and "(s, d) \<in> (edgeRel g \<union> orderRel g)\<^sup>*" by (auto simp: syncPath_def)
  with sync prog a b rtrancl_mono [OF sub]
  have "(pidOf a, s) \<in> pidRel ?R" "(s, d) \<in> (pidRel ?R)\<^sup>*" "(d, pidOf b) \<in> pidRel ?R" by auto
  then have "(pidOf a, pidOf b) \<in> (pidRel ?R)\<^sup>*"
    by (meson converse_rtrancl_into_rtrancl rtrancl_into_rtrancl)
  from rtrancl_pidRel [OF orders_in_trace pidOf_inj [OF wf] a this] pidOf_inj [OF wf] b
  show ?thesis unfolding happensBefore_def by (metis inj_onD)
qed

text \<open>From the specification to the graph.\<close>

lemma wf_thread_first:
  assumes wf: "wf_events P" and t: "t \<in> set (getThreads P)" and e: "e \<in> set (getEvents t)"
  shows "(pidOf (hd (getEvents t)), pidOf e) \<in> progRel" "(pidOf e, pidOf (last (getEvents t))) \<in> progRel"
proof -
  have ne: "getEvents t \<noteq> []" using e by auto
  note E = wf_eventsD [OF wf t e]
  note H = wf_eventsD [OF wf t hd_in_set [OF ne]] and L = wf_eventsD [OF wf t last_in_set [OF ne]]
  obtain i where i: "i < length (getThreads P)" "getThreads P ! i = t"
    using t by (auto simp: in_set_conv_nth)
  have pos: "evID (getEvents t ! k) = k" if "k < length (getEvents t)" for k
    using wf i that by (auto simp: wf_events_def)
  have "evID (hd (getEvents t)) = 0" using ne pos [of 0] by (simp add: hd_conv_nth)
  then show "(pidOf (hd (getEvents t)), pidOf e) \<in> progRel" using E H by (simp add: progRel_pidOf)
  have "evID (last (getEvents t)) = length (getEvents t) - 1"
    using ne pos [of "length (getEvents t) - 1"] by (simp add: last_conv_nth)
  then show "(pidOf e, pidOf (last (getEvents t))) \<in> progRel" using E L by (simp add: progRel_pidOf)
qed

lemma order_step:
  assumes wf: "wf_trace P" and inv: "hb_inv P (allEvents P) (l, g)"
    and step: "(a, b) \<in> progOrder P \<union> forkOrder P \<union> joinOrder P \<union> barrierOrder P"
  shows "(pidOf a, pidOf b) \<in> (edgeRel g \<union> progRel)\<^sup>*" (is "_ \<in> ?S\<^sup>*")
  using step
proof (elim UnE)
  assume "(a, b) \<in> progOrder P"
  then show ?thesis by (auto simp: progOrder_def progRel_pidOf)
next
  have wfe: "wf_events P" and wfs: "wf_spawns P" using wf by (auto simp: wf_trace_def)
  assume "(a, b) \<in> forkOrder P"
  then obtain t where a: "a \<in> set (allEvents P)" "evType a = Fork"
    and t: "t \<in> set (getThreads P)" "spawnSite t = Some a" "b \<in> set (getEvents t)"
    by (auto simp: forkOrder_def)
  have "getEvents t \<noteq> []" using t(3) by auto
  then have "(pidOf a, pidOf (hd (getEvents t))) \<in> edgeRel g"
    using inv a t getForkedThread_unique [OF wfs t(1,2)] by (simp add: hb_inv_def hb_done_def)
  with wf_thread_first(1) [OF wfe t(1,3)] show ?thesis
    by (meson UnI1 UnI2 r_into_rtrancl rtrancl_into_rtrancl)
next
  have wfe: "wf_events P" using wf by (auto simp: wf_trace_def)
  assume "(a, b) \<in> joinOrder P"
  then obtain t where b: "b \<in> set (allEvents P)" "evType b = Join"
    and t: "getJoinedThread P b = Inr (Some t)" "a \<in> set (getEvents t)"
    by (auto simp: joinOrder_def)
  have "getEvents t \<noteq> []" using t(2) by auto
  then have "(pidOf (last (getEvents t)), pidOf b) \<in> edgeRel g"
    using inv b t by (simp add: hb_inv_def hb_done_def)
  with wf_thread_first(2) [OF wfe getJoinedThread_mem [OF t(1)] t(2)] show ?thesis
    by (meson UnI1 UnI2 r_into_rtrancl rtrancl_into_rtrancl)
next
  assume "(a, b) \<in> barrierOrder P"
  then have ab: "a \<in> set (allEvents P)" "b \<in> set (allEvents P)" "evType a = Barrier"
    "evType b = Barrier" "evInst a = evInst b" by (auto simp: barrierOrder_def)
  have last: "\<exists>c'. map_of l (evInst c) = Some c' \<and> (pidOf c, pidOf c') \<in> (edgeRel g)\<^sup>* \<and>
      (pidOf c', pidOf c) \<in> (edgeRel g)\<^sup>*" if "c \<in> set (allEvents P)" "evType c = Barrier" for c
    using inv that by (auto simp: hb_inv_def hb_last_inv_def)
  from last [OF ab(1,3)] last [OF ab(2,4)] ab(5) have "(pidOf a, pidOf b) \<in> (edgeRel g)\<^sup>*"
    by (auto intro: rtrancl_trans)
  then show ?thesis using rtrancl_mono [of "edgeRel g" ?S] by blast
qed

lemma graph_complete:
  assumes wf: "wf_trace P" and inv: "hb_inv P (allEvents P) (l, g)"
    and hb: "(a, b) \<in> happensBefore P"
  shows "(pidOf a, pidOf b) \<in> (edgeRel g \<union> progRel)\<^sup>*"
  using hb unfolding happensBefore_def
  by (induction rule: rtrancl_induct) (auto intro: rtrancl_trans order_step [OF wf inv])

section \<open>Which fork a join gets\<close>

lemma findForkWithHandle_Some:
  "findForkWithHandle M h es = Inr (Some f) \<Longrightarrow> f \<in> set es \<and> getThreadHandle M (evIR f) = Inr h"
  by (induction es) (auto split: if_splits)

lemma orElse_eq:
  "orElse m n = Inr r \<longleftrightarrow> (\<exists>x. m = Inr (Some x) \<and> r = Some x) \<or> (m = Inr None \<and> n = Inr r)"
  by (auto simp: orElse_def split: option.splits)

text \<open>A fork event of the trace.\<close>

definition traceFork :: "program_trace \<Rightarrow> event \<Rightarrow> bool" where
  "traceFork P f \<longleftrightarrow> f \<in> set (allEvents P) \<and> isFork f"

lemma getForkEvents_mem: "f \<in> set (getForkEvents t) \<longleftrightarrow> f \<in> set (getEvents t) \<and> isFork f"
  by (auto simp: getForkEvents_def)

lemma getForkWithHandle_Some:
  assumes "getForkWithHandle P h = Inr (Some f)"
  shows "traceFork P f \<and> getThreadHandle (ptModule P) (evIR f) = Inr h"
proof -
  have "getForkWithHandleIn M h ts = Inr (Some f) \<Longrightarrow>
      (\<exists>t \<in> set ts. f \<in> set (getForkEvents t)) \<and> getThreadHandle M (evIR f) = Inr h" for M ts
    by (induction ts) (auto simp: orElse_eq getForkWithHandleOn_def dest: findForkWithHandle_Some)
  from this [of "ptModule P" "getThreads P"] assms show ?thesis
    by (auto simp: getForkWithHandle_def getForkEvents_mem traceFork_def allEvents_def)
qed

lemma evThread_events: "set (getEvents (evThread P e)) \<subseteq> set (allEvents P)"
  by (auto simp: evThread_def allEvents_def dest!: find_mem split: option.splits)

lemma getForkWithHandleOn_Some:
  "getForkWithHandleOn (ptModule P) h (evThread P j) = Inr (Some f) \<Longrightarrow> traceFork P f"
  using evThread_events [of P j]
  by (auto simp: getForkWithHandleOn_def traceFork_def getForkEvents_mem dest!: findForkWithHandle_Some)

lemma findStoredHandle_Some:
  "findStoredHandle P h us = Inr (Some f) \<Longrightarrow> traceFork P f"
  by (induction us) (auto simp: orElse_eq split: if_splits dest: getForkWithHandle_Some)

lemma phiLoop_Some: "phiLoop P h = Some (Inr (Some f)) \<Longrightarrow> traceFork P f"
  by (subst (asm) phiLoop.simps)
    (auto simp: Let_def phiLoop_stuck phiStuck_def dest!: getForkWithHandle_Some
      split: if_splits sum.splits option.splits)

lemma nearestFork_Some:
  "nearestFork P j = Some f \<Longrightarrow> traceFork P f \<and> evID f < evID j"
  using evThread_events [of P j]
  by (auto simp: nearestFork_def traceFork_def getForkEvents_mem dest!: find_mem)

lemma getCorrespondingFork_trace:
  assumes "getCorrespondingFork P j = Inr (Some f)" and "evForkEvent j = None"
  shows "traceFork P f"
  using assms
  by (auto simp: getCorrespondingFork_def Let_def orElse_eq getPhiFork_def
    split: if_splits option.splits dest: getForkWithHandleOn_Some getForkWithHandle_Some
      findStoredHandle_Some phiLoop_Some nearestFork_Some)

section \<open>When the construction succeeds\<close>

text \<open>
  Every fork and every join to be matched has a thread handle (the entry of a task is found), and the fork that a task join
  carries is a fork of the trace.
\<close>

definition handles_ok :: "program_trace \<Rightarrow> bool" where
  "handles_ok P \<longleftrightarrow> (\<forall>e \<in> set (allEvents P).
     (isFork e \<or> evType e = Join \<and> evForkEvent e = None \<longrightarrow> (\<exists>h. getThreadHandle (ptModule P) (evIR e) = Inr h)) \<and>
     (\<forall>f. evType e = Join \<longrightarrow> evForkEvent e = Some f \<longrightarrow> traceFork P f))"

definition forkedWith :: "program_trace \<Rightarrow> llvm_value \<Rightarrow> bool" where
  "forkedWith P h \<longleftrightarrow> (\<exists>f. traceFork P f \<and> getThreadHandle (ptModule P) (evIR f) = Inr h)"

text \<open>
  A join through a \<open>PHINode\<close> that is no fork's handle and whose first incoming value is not a call that is
  some fork's handle.
\<close>

definition joinStuck :: "program_trace \<Rightarrow> event \<Rightarrow> bool" where
  "joinStuck P j \<longleftrightarrow> evForkEvent j = None \<and> (\<exists>h. getThreadHandle (ptModule P) (evIR j) = Inr h \<and>
     classOf (ptModule P) h = PHINode \<and> \<not> forkedWith P h \<and>
     \<not> (classOf (ptModule P) (getOperand (ptModule P) h 0) = CallInst \<and> forkedWith P (getOperand (ptModule P) h 0)))"

lemma findForkWithHandle_total:
  assumes "\<forall>f \<in> set es. \<exists>h. getThreadHandle M (evIR f) = Inr h"
  shows "\<exists>r. findForkWithHandle M h es = Inr r \<and> (r = None \<longleftrightarrow> \<not> (\<exists>f \<in> set es. getThreadHandle M (evIR f) = Inr h))"
  using assms
proof (induction es)
  case (Cons e es)
  then obtain r k where "findForkWithHandle M h es = Inr r" "r = None \<longleftrightarrow> \<not> (\<exists>f \<in> set es. getThreadHandle M (evIR f) = Inr h)"
    "getThreadHandle M (evIR e) = Inr k" by auto
  then show ?case by (cases "k = h") auto
qed simp

lemma getForkWithHandleOn_total:
  assumes "handles_ok P" and "set (getEvents t) \<subseteq> set (allEvents P)"
  shows "\<exists>r. getForkWithHandleOn (ptModule P) h t = Inr r \<and>
    (r = None \<longleftrightarrow> \<not> (\<exists>f \<in> set (getForkEvents t). getThreadHandle (ptModule P) (evIR f) = Inr h))"
  unfolding getForkWithHandleOn_def
proof (rule findForkWithHandle_total)
  show "\<forall>f \<in> set (getForkEvents t). \<exists>h. getThreadHandle (ptModule P) (evIR f) = Inr h"
  proof
    fix f assume "f \<in> set (getForkEvents t)"
    then have "f \<in> set (allEvents P)" "isFork f" using assms(2) by (auto simp: getForkEvents_mem)
    then show "\<exists>h. getThreadHandle (ptModule P) (evIR f) = Inr h" using assms(1) by (simp add: handles_ok_def)
  qed
qed

lemma getForkWithHandle_total:
  assumes "handles_ok P"
  shows "\<exists>r. getForkWithHandle P h = Inr r \<and> (r = None \<longleftrightarrow> \<not> forkedWith P h)"
proof -
  have "\<exists>r. getForkWithHandleIn (ptModule P) h ts = Inr r \<and>
      (r = None \<longleftrightarrow> \<not> (\<exists>t \<in> set ts. \<exists>f \<in> set (getForkEvents t). getThreadHandle (ptModule P) (evIR f) = Inr h))"
    if "\<forall>t \<in> set ts. set (getEvents t) \<subseteq> set (allEvents P)" for ts
    using that
  proof (induction ts)
    case (Cons t ts)
    then obtain r where "getForkWithHandleOn (ptModule P) h t = Inr r"
      "r = None \<longleftrightarrow> \<not> (\<exists>f \<in> set (getForkEvents t). getThreadHandle (ptModule P) (evIR f) = Inr h)"
      using getForkWithHandleOn_total [OF assms, of t h] by auto
    with Cons show ?case by (cases r) (auto simp: orElse_def)
  qed simp
  moreover have "\<forall>t \<in> set (getThreads P). set (getEvents t) \<subseteq> set (allEvents P)" by (auto simp: allEvents_def)
  moreover have "(\<exists>t \<in> set (getThreads P). \<exists>f \<in> set (getForkEvents t). getThreadHandle (ptModule P) (evIR f) = Inr h) \<longleftrightarrow> forkedWith P h"
    unfolding Bex_def getForkEvents_mem forkedWith_def traceFork_def allEvents_def by auto
  ultimately show ?thesis unfolding getForkWithHandle_def by metis
qed

lemma phiStuck_iff:
  assumes "handles_ok P"
  shows "phiStuck P h \<longleftrightarrow> classOf (ptModule P) h = PHINode \<and>
    \<not> (classOf (ptModule P) (getOperand (ptModule P) h 0) = CallInst \<and> forkedWith P (getOperand (ptModule P) h 0))"
  using getForkWithHandle_total [OF assms, of "getOperand (ptModule P) h 0"] by (auto simp: phiStuck_def)

lemma getPhiFork_total:
  assumes "handles_ok P" and "\<not> phiStuck P h"
  shows "\<exists>r. getPhiFork P h = Inr r"
proof -
  obtain r where "getForkWithHandle P (getOperand (ptModule P) h 0) = Inr r" using getForkWithHandle_total [OF assms(1)] by blast
  moreover from phiLoop_returns [OF assms(2)] obtain q where q: "phiLoop P h = Some q" by blast
  ultimately have "\<exists>r. q = Inr r"
    using q assms(2) by (subst (asm) phiLoop.simps) (auto simp: Let_def phiStuck_def split: if_splits option.splits, metis)
  with q show ?thesis by (auto simp: getPhiFork_def)
qed

lemma findStoredHandle_total: "handles_ok P \<Longrightarrow> \<exists>r. findStoredHandle P h us = Inr r"
proof (induction us)
  case (Cons u us)
  obtain r where "getForkWithHandle P (getPointerOperand (ptModule P) u) = Inr r" using getForkWithHandle_total [OF Cons.prems] by blast
  with Cons show ?case by (cases r) (auto simp: orElse_def)
qed simp

text \<open>A join is matched, or found to have no fork, exactly if it is not stuck.\<close>

lemma getCorrespondingFork_total:
  assumes ok: "handles_ok P" and j: "j \<in> set (allEvents P)" "evType j = Join"
  shows "if joinStuck P j then getCorrespondingFork P j = Inl Diverges else \<exists>r. getCorrespondingFork P j = Inr r"
proof (cases "evForkEvent j")
  case (Some f)
  then show ?thesis by (simp add: getCorrespondingFork_def joinStuck_def Let_def)
next
  case None
  then obtain h where h: "getThreadHandle (ptModule P) (evIR j) = Inr h" using ok j by (auto simp: handles_ok_def)
  obtain r1 where r1: "getForkWithHandleOn (ptModule P) h (evThread P j) = Inr r1"
    using getForkWithHandleOn_total [OF ok evThread_events] by blast
  obtain r2 where r2: "getForkWithHandle P h = Inr r2" "r2 = None \<longleftrightarrow> \<not> forkedWith P h" using getForkWithHandle_total [OF ok] by blast
  have on: "r1 = None" if "r2 = None"
  proof (cases r1)
    case (Some f)
    then have "f \<in> set (getForkEvents (evThread P j))" "getThreadHandle (ptModule P) (evIR f) = Inr h"
      using r1 findForkWithHandle_Some unfolding getForkWithHandleOn_def by blast+
    then have "forkedWith P h" using evThread_events [of P j] by (auto simp: forkedWith_def traceFork_def getForkEvents_mem)
    then show ?thesis using r2(2) that by simp
  qed
  show ?thesis
  proof (cases "r1 = None \<and> r2 = None")
    case False
    then have "r2 \<noteq> None" using on by auto
    then have "\<not> joinStuck P j" using r2(2) h by (auto simp: joinStuck_def)
    moreover have "\<exists>r. getCorrespondingFork P j = Inr r"
      using \<open>r2 \<noteq> None\<close> None h r1 r2(1) by (auto simp: getCorrespondingFork_def Let_def orElse_def split: option.split)
    ultimately show ?thesis by simp
  next
    case True
    then have stuck: "joinStuck P j \<longleftrightarrow> phiStuck P h" using None h r2(2) phiStuck_iff [OF ok] by (auto simp: joinStuck_def)
    show ?thesis
    proof (cases "classOf (ptModule P) h = LoadInst")
      case load: True
      let ?l = "getPointerOperand (ptModule P) h"
      obtain a where a: "getForkWithHandle P ?l = Inr a" using getForkWithHandle_total [OF ok] by blast
      obtain b where b: "findStoredHandle P h (users (ptModule P) ?l) = Inr b" using findStoredHandle_total [OF ok] by blast
      have "\<not> phiStuck P h" using load by (simp add: phiStuck_def)
      moreover have "\<exists>r. getCorrespondingFork P j = Inr r"
        using None h r1 r2(1) True load a b by (cases a; cases b) (auto simp: getCorrespondingFork_def Let_def orElse_def)
      ultimately show ?thesis using stuck by simp
    next
      case other: False
      have "getCorrespondingFork P j = orElse (getPhiFork P h) (Inr (nearestFork P j))"
        using None h r1 r2(1) True other by (simp add: getCorrespondingFork_def Let_def orElse_def)
      moreover have "getPhiFork P h = Inl Diverges" if "phiStuck P h" using phiLoop_stuck [OF that] by (simp add: getPhiFork_def)
      moreover have "\<exists>r. orElse (getPhiFork P h) (Inr (nearestFork P j)) = Inr r" if noloop: "\<not> phiStuck P h"
      proof -
        obtain r where "getPhiFork P h = Inr r" using getPhiFork_total [OF ok noloop] by blast
        then show ?thesis by (cases r) (simp_all add: orElse_def)
      qed
      ultimately show ?thesis unfolding stuck by (simp add: orElse_def)
    qed
  qed
qed

lemma getForkedThread_total:
  assumes "wf_trace P" and "traceFork P f"
  shows "\<exists>t. getForkedThread P f = Inr t"
proof -
  from assms obtain t where "t \<in> set (getThreads P)" "spawnSite t = Some f"
    by (auto simp: wf_trace_def wf_spawns_def traceFork_def)
  with assms(1) getForkedThread_unique show ?thesis unfolding wf_trace_def by blast
qed

lemma getJoinedThread_total:
  assumes wf: "wf_trace P" and ok: "handles_ok P" and j: "j \<in> set (allEvents P)" "evType j = Join"
  shows "if joinStuck P j then getJoinedThread P j = Inl Diverges else \<exists>r. getJoinedThread P j = Inr r"
proof (cases "joinStuck P j")
  case True
  then show ?thesis using getCorrespondingFork_total [OF ok j] by (simp add: getJoinedThread_def)
next
  case False
  then obtain r where r: "getCorrespondingFork P j = Inr r" using getCorrespondingFork_total [OF ok j] by auto
  have "traceFork P f" if "r = Some f" for f
  proof (cases "evForkEvent j")
    case None
    then show ?thesis using getCorrespondingFork_trace r that by simp
  next
    case (Some f')
    then have "f' = f" using r that by (simp add: getCorrespondingFork_def Let_def)
    then show ?thesis using ok j Some by (auto simp: handles_ok_def)
  qed
  then have "\<exists>t. getForkedThread P f = Inr t" if "r = Some f" for f using getForkedThread_total [OF wf] that by blast
  then show ?thesis using r False by (cases r) (auto simp: getJoinedThread_def)
qed

text \<open>The events the constructor cannot process.\<close>

definition unprocessable :: "program_trace \<Rightarrow> event \<Rightarrow> bool" where
  "unprocessable P e \<longleftrightarrow> evType e = Barrier \<and> evIRType e \<noteq> TyOpenMPBarrier \<or> evType e = Join \<and> joinStuck P e"

lemma processEvent_total:
  assumes wf: "wf_trace P" and ok: "handles_ok P" and e: "e \<in> set (allEvents P)"
  shows "if unprocessable P e then \<exists>f. processEvent P e st = Inl f else \<exists>st'. processEvent P e st = Inr st'"
proof -
  obtain l g where st: "st = (l, g)" by (cases st)
  consider "evType e = Fork" | "evType e = Join" | "evType e = Barrier" | "evType e \<notin> {Fork, Join, Barrier}" by blast
  then show ?thesis
  proof cases
    case 1
    with getForkedThread_total [OF wf, of e] e obtain t where "getForkedThread P e = Inr t" by (auto simp: traceFork_def isFork_def)
    with 1 show ?thesis by (cases "getEvents t") (simp_all add: st processEvent_def addForkEdge_def unprocessable_def)
  next
    case 2
    show ?thesis
    proof (cases "joinStuck P e")
      case True
      with 2 getJoinedThread_total [OF wf ok e 2] show ?thesis by (simp add: st processEvent_def addJoinEdge_def unprocessable_def)
    next
      case False
      then obtain r where "getJoinedThread P e = Inr r" using getJoinedThread_total [OF wf ok e 2] by auto
      with 2 False show ?thesis by (cases r) (simp_all add: st processEvent_def addJoinEdge_def unprocessable_def)
    qed
  next
    case 3
    then show ?thesis by (simp add: st processEvent_def addBarrierEdge_def unprocessable_def rassert_def Let_def)
  next
    case 4
    then show ?thesis by (cases "evType e") (auto simp: processEvent_def unprocessable_def)
  qed
qed

lemma rfold_total:
  "(\<And>x s. x \<in> set xs \<Longrightarrow> \<exists>t. f x s = Inr t) \<Longrightarrow> \<exists>t. rfold f xs s = Inr t"
proof (induction xs arbitrary: s)
  case (Cons x xs)
  from Cons.prems [of x s] obtain u where "f x s = Inr u" by auto
  moreover obtain t where "rfold f xs u = Inr t" using Cons.IH [of u] Cons.prems by auto
  ultimately show ?case by simp
qed simp

lemma rfold_fails: "x \<in> set xs \<Longrightarrow> (\<And>s. \<exists>e. f x s = Inl e) \<Longrightarrow> rfold f xs s \<noteq> Inr t"
proof (induction xs arbitrary: s)
  case (Cons y xs)
  show ?case
  proof (cases "f y s")
    case (Inr u)
    then have "x \<in> set xs" using Cons.prems by (metis Inl_Inr_False set_ConsD)
    then show ?thesis using Cons.IH [of u] Cons.prems(2) Inr by simp
  qed simp
qed simp

lemma happensBeforeGraph_total:
  assumes "wf_trace P" and "handles_ok P"
  shows "(\<exists>g. happensBeforeGraph P = Inr g) \<longleftrightarrow> (\<forall>e \<in> set (allEvents P). \<not> unprocessable P e)"
proof -
  have "(\<exists>st. rfold (processEvent P) (allEvents P) ([], empty_graph) = Inr st) \<longleftrightarrow> (\<forall>e \<in> set (allEvents P). \<not> unprocessable P e)"
  proof
    assume all: "\<forall>e \<in> set (allEvents P). \<not> unprocessable P e"
    show "\<exists>st. rfold (processEvent P) (allEvents P) ([], empty_graph) = Inr st"
    proof (rule rfold_total)
      show "\<exists>t. processEvent P e s = Inr t" if "e \<in> set (allEvents P)" for e s
        using processEvent_total [OF assms that, of s] all that by simp
    qed
  next
    assume "\<exists>st. rfold (processEvent P) (allEvents P) ([], empty_graph) = Inr st"
    moreover have "\<exists>f. processEvent P e s = Inl f" if "e \<in> set (allEvents P)" "unprocessable P e" for e s
      using processEvent_total [OF assms that(1), of s] that(2) by simp
    ultimately show "\<forall>e \<in> set (allEvents P). \<not> unprocessable P e" using rfold_fails [of _ "allEvents P" "processEvent P"] by metis
  qed
  then show ?thesis by (auto simp: happensBeforeGraph_def rfold_concat allEvents_def)
qed

section \<open>A concrete trace\<close>

text \<open>
  The main thread forks thread 1 (handle 100), writes, joins it and writes again; thread 1
  writes once. Instruction 5 joins through a \<open>PHINode\<close> of constants.
\<close>

definition hb_module :: llvm_module where
  "hb_module = empty_module
     \<lparr> getArgOperand := (\<lambda>i n. if i = 20 then 200 else if n = 0 then 100 else i + n),
       classOf := (\<lambda>v. if v = 200 then PHINode else OtherValue),
       getOperand := (\<lambda>v n. 201) \<rparr>"

definition hb_pta :: pta where
  "hb_pta = \<lparr> contextEvolve = (\<lambda>c i. c), getPointsTo = (\<lambda>c v. [v]),
     getDirectNodeOrNull = (\<lambda>c f. Some f), getResolvedNode = (\<lambda>c i. []), nodeFunction = (\<lambda>n. n),
     nodeContext = (\<lambda>n. 0), isExtFunction = (\<lambda>n. False), objValue = (\<lambda>b. Some b) \<rparr>"

definition hb_fork :: event where
  "hb_fork = Event Fork 0 0 0 (PthreadCreate 10) [] None"

definition hb_main :: "llvm_value \<Rightarrow> event list" where
  "hb_main j = [hb_fork, Event Write 1 0 0 (Store 11) [7] None,
     Event Join 2 0 0 (PthreadJoin j) [] None, Event Write 3 0 0 (Store 13) [7] None]"

definition hb_child :: "event list" where
  "hb_child = [Event Write 0 1 0 (Store 14) [7] None]"

definition hb_trace :: "llvm_value \<Rightarrow> program_trace" where
  "hb_trace j = \<lparr> ptModule = hb_module, ptPta = hb_pta, getThreads =
     [\<lparr> ttID = 0, spawnSite = None, getEvents = hb_main j \<rparr>,
      \<lparr> ttID = 1, spawnSite = Some hb_fork, getEvents = hb_child \<rparr>] \<rparr>"

definition hb_demo_graph :: sync_graph where
  "hb_demo_graph = \<lparr> syncEdges = [(EventPID 0 0, [EventPID 1 0]), (EventPID 1 0, [EventPID 0 2])],
     syncReachable = [(EventPID 0 0, [EventPID 0 0, EventPID 0 2, EventPID 1 0]),
       (EventPID 0 2, [EventPID 0 2]), (EventPID 1 0, [EventPID 0 2, EventPID 1 0])],
     threadSyncs = [(0, [EventPID 0 0, EventPID 0 2]), (1, [EventPID 1 0])] \<rparr>"

lemma hb_demo: "happensBeforeGraph (hb_trace 12) = Inr hb_demo_graph"
  by code_simp

lemma hb_demo_wf: "wf_trace (hb_trace j)"
  by (auto simp: wf_trace_def wf_events_def wf_spawns_def hb_trace_def hb_main_def hb_child_def
    hb_fork_def allEvents_def isFork_def less_Suc_eq numeral_eq_Suc)

lemma canReach_cross:
  assumes "wf_trace P" and "happensBeforeGraph P = Inr g"
    and "a \<in> set (allEvents P)" and "b \<in> set (allEvents P)" and "evTid a \<noteq> evTid b"
  shows "canReach g a b \<longleftrightarrow> (a, b) \<in> happensBefore P"
proof -
  from happensBeforeGraph_inv [OF assms(2)] obtain l g0 where g: "g = precompute g0"
    and inv: "hb_inv P (allEvents P) (l, g0)" by blast
  have inv': "hb_graph_inv P g0" "sync_inv g0" "syncReachable g0 = []"
    using inv by (auto simp: hb_inv_def hb_graph_inv_def)
  have "canReach g a b \<longleftrightarrow> syncPath g0 (pidOf a) (pidOf b)"
    using pidCanReach_iff [OF inv'(2,3)] by (simp add: canReach_def g)
  moreover have "syncPath g0 (pidOf a) (pidOf b) \<Longrightarrow> (a, b) \<in> happensBefore P"
    using graph_sound [OF _ inv'(1) assms(3,4)] assms(1) by (simp add: wf_trace_def)
  moreover have "(a, b) \<in> happensBefore P \<Longrightarrow> syncPath g0 (pidOf a) (pidOf b)"
    using graph_complete [OF assms(1) inv] syncPath_cross [OF inv'(2), of "pidOf a" "pidOf b"] assms(5)
    by simp
  ultimately show ?thesis by blast
qed

section \<open>Properties\<close>

text \<open>
  C25. The happens-before graph is sound and complete: for two events of different threads of a
  well-formed trace, \<open>canReach\<close> answers true exactly when the first is ordered before the
  second by the transitive closure of program order, forks, joins and barriers.
\<close>

theorem canReach_happensBefore:
  assumes "wf_trace P" and "happensBeforeGraph P = Inr g"
    and "a \<in> set (allEvents P)" and "b \<in> set (allEvents P)" and "evTid a \<noteq> evTid b"
  shows "canReach g a b \<longleftrightarrow> (a, b) \<in> happensBefore P"
  using assms by (rule canReach_cross)

text \<open>
  In a well-formed trace everything a thread did up to a fork is ordered before every event
  of the forked thread, and every event of a joined thread is ordered before everything from
  the join on: the graph never calls such events parallel.
\<close>

theorem fork_join_ordered:
  assumes "wf_trace P" and "happensBeforeGraph P = Inr g" and "t \<in> set (getThreads P)"
    and "spawnSite t = Some f" and "f \<in> set (allEvents P)" and "evType f = Fork"
    and "c \<in> set (getEvents t)" and "e \<in> set (allEvents P)" and "evTid e \<noteq> evTid c"
  shows "(evTid e = evTid f \<and> evID e \<le> evID f \<longrightarrow> canReach g e c \<and> \<not> areParallel g e c) \<and>
    (\<forall>j \<in> set (allEvents P). evType j = Join \<and> getJoinedThread P j = Inr (Some t) \<and>
       evTid e = evTid j \<and> evID j \<le> evID e \<longrightarrow> canReach g c e \<and> \<not> areParallel g c e)"
proof -
  have c: "c \<in> set (allEvents P)" using assms(3,7) by (auto simp: allEvents_def)
  have "(e, c) \<in> happensBefore P" if "evTid e = evTid f" "evID e \<le> evID f"
  proof -
    have "(e, f) \<in> progOrder P" "(f, c) \<in> forkOrder P"
      using that assms by (auto simp: progOrder_def forkOrder_def)
    then show ?thesis unfolding happensBefore_def
      by (meson UnI1 UnI2 r_into_rtrancl rtrancl_into_rtrancl)
  qed
  moreover have "(c, e) \<in> happensBefore P"
    if "j \<in> set (allEvents P)" "evType j = Join" "getJoinedThread P j = Inr (Some t)"
      "evTid e = evTid j" "evID j \<le> evID e" for j
  proof -
    have "(c, j) \<in> joinOrder P" "(j, e) \<in> progOrder P"
      using that assms by (auto simp: progOrder_def joinOrder_def)
    then show ?thesis unfolding happensBefore_def
      by (meson UnI1 UnI2 r_into_rtrancl rtrancl_into_rtrancl)
  qed
  moreover have "canReach g e c \<longleftrightarrow> (e, c) \<in> happensBefore P" "canReach g c e \<longleftrightarrow> (c, e) \<in> happensBefore P"
    using canReach_cross [OF assms(1,2)] assms(8,9) c by auto
  ultimately show ?thesis unfolding areParallel_def by blast
qed

text \<open>
  Barriers separate phases: what precedes a barrier event in one thread is ordered before
  what follows a barrier event of the same instruction in another thread.
\<close>

theorem barrier_ordered:
  assumes "wf_trace P" and "happensBeforeGraph P = Inr g"
    and "a \<in> set (allEvents P)" and "b \<in> set (allEvents P)" and "evTid a \<noteq> evTid b"
    and "(a, x) \<in> progOrder P" and "(y, b) \<in> progOrder P"
    and "evType x = Barrier" and "evType y = Barrier" and "evInst x = evInst y"
  shows "canReach g a b \<and> \<not> areParallel g a b"
proof -
  have "(x, y) \<in> barrierOrder P" using assms(6-10) by (auto simp: progOrder_def barrierOrder_def)
  with assms(6,7) have "(a, b) \<in> happensBefore P" unfolding happensBefore_def
    by (meson UnI1 UnI2 r_into_rtrancl rtrancl_into_rtrancl)
  then show ?thesis
    using canReach_cross [OF assms(1-5)] by (simp add: areParallel_def)
qed


text \<open>
  The fork that a join is matched with is a fork event of the trace; the fallback takes the
  nearest fork before the join on its own thread.
\<close>

lemma corresponding_fork_in_trace:
  assumes "getCorrespondingFork P j = Inr (Some f)" and "evForkEvent j = None"
  shows "f \<in> set (allEvents P) \<and> isFork f \<and>
    (nearestFork P j = Some f \<longrightarrow> f \<in> set (getEvents (evThread P j)) \<and> evID f < evID j)"
proof -
  have "nearestFork P j = Some f \<Longrightarrow> f \<in> set (getForkEvents (evThread P j)) \<and> evID f < evID j"
    unfolding nearestFork_def using find_mem by fastforce
  with getCorrespondingFork_trace [OF assms] show ?thesis by (auto simp: traceFork_def getForkEvents_mem)
qed

text \<open>
  C27. A join whose handle is a \<open>PHINode\<close> for which the first incoming value is not the handle
  of a fork never returns: the loop of \<open>getCorrespondingFork\<close> does not advance, so the
  nearest-fork fallback is never reached.
\<close>

theorem phi_join_diverges:
  assumes "evForkEvent j = None" and "getThreadHandle (ptModule P) (evIR j) = Inr h"
    and "getForkWithHandleOn (ptModule P) h (evThread P j) = Inr None"
    and "getForkWithHandle P h = Inr None" and "phiStuck P h"
  shows "getCorrespondingFork P j = Inl Diverges"
proof -
  have "classOf (ptModule P) h \<noteq> LoadInst" using assms(5) by (simp add: phiStuck_def)
  then show ?thesis
    using assms(1-4) phiLoop_stuck [OF assms(5)]
    by (simp add: getCorrespondingFork_def getPhiFork_def orElse_def)
qed

subsection \<open>Witnesses\<close>

lemma canReach_happensBefore_witness:
  "(Event Write 1 0 0 (Store 11) [7] None, Event Write 0 1 0 (Store 14) [7] None)
     \<notin> happensBefore (hb_trace 12)"
proof -
  have "\<not> canReach hb_demo_graph (Event Write 1 0 0 (Store 11) [7] None)
      (Event Write 0 1 0 (Store 14) [7] None)" by code_simp
  moreover have "canReach hb_demo_graph (Event Write 1 0 0 (Store 11) [7] None)
      (Event Write 0 1 0 (Store 14) [7] None) \<longleftrightarrow>
    (Event Write 1 0 0 (Store 11) [7] None, Event Write 0 1 0 (Store 14) [7] None)
      \<in> happensBefore (hb_trace 12)"
    by (rule canReach_happensBefore [OF hb_demo_wf hb_demo])
      (simp_all add: allEvents_def hb_trace_def hb_main_def hb_child_def)
  ultimately show ?thesis by blast
qed

lemma hb_demo_joined:
  "getJoinedThread (hb_trace 12) (Event Join 2 0 0 (PthreadJoin 12) [] None) =
     Inr (Some \<lparr> ttID = 1, spawnSite = Some hb_fork, getEvents = hb_child \<rparr>)"
  by code_simp

lemma fork_join_ordered_witness:
  "canReach hb_demo_graph (Event Write 0 1 0 (Store 14) [7] None) (Event Write 3 0 0 (Store 13) [7] None)
   \<and> canReach hb_demo_graph hb_fork (Event Write 0 1 0 (Store 14) [7] None)"
proof
  let ?t = "\<lparr> ttID = 1, spawnSite = Some hb_fork, getEvents = hb_child \<rparr>"
  have mem: "?t \<in> set (getThreads (hb_trace 12))" "spawnSite ?t = Some hb_fork"
    "hb_fork \<in> set (allEvents (hb_trace 12))" "evType hb_fork = Fork"
    "Event Write 0 1 0 (Store 14) [7] None \<in> set (getEvents ?t)"
    by (simp_all add: hb_trace_def allEvents_def hb_main_def hb_child_def hb_fork_def)
  note use = fork_join_ordered [OF hb_demo_wf hb_demo mem]
  show "canReach hb_demo_graph (Event Write 0 1 0 (Store 14) [7] None)
      (Event Write 3 0 0 (Store 13) [7] None)"
    using use [of "Event Write 3 0 0 (Store 13) [7] None"] hb_demo_joined
    by (auto simp: hb_trace_def allEvents_def hb_main_def)
  show "canReach hb_demo_graph hb_fork (Event Write 0 1 0 (Store 14) [7] None)"
    using use [of hb_fork] mem(3) by (simp add: hb_fork_def)
qed


lemma corresponding_fork_in_trace_witness:
  "hb_fork \<in> set (allEvents (hb_trace 12)) \<and> isFork hb_fork"
proof -
  have "getCorrespondingFork (hb_trace 12) (Event Join 2 0 0 (PthreadJoin 12) [] None) =
      Inr (Some hb_fork)" by code_simp
  from corresponding_fork_in_trace [OF this] show ?thesis by simp
qed

lemma phi_join_diverges_witness:
  "getCorrespondingFork (hb_trace 20) (Event Join 2 0 0 (PthreadJoin 20) [] None) = Inl Diverges"
proof (rule phi_join_diverges)
  show "phiStuck (hb_trace 20) 200" unfolding phiStuck_def by code_simp
  show "getForkWithHandleOn (ptModule (hb_trace 20)) 200
      (evThread (hb_trace 20) (Event Join 2 0 0 (PthreadJoin 20) [] None)) = Inr None" by code_simp
  show "getForkWithHandle (hb_trace 20) 200 = Inr None" by code_simp
  show "getThreadHandle (ptModule (hb_trace 20))
      (evIR (Event Join 2 0 0 (PthreadJoin 20) [] None)) = Inr 200" by code_simp
qed simp

text \<open>Both threads run into the barrier of instruction 30.\<close>

definition barrier_trace :: program_trace where
  "barrier_trace = \<lparr> ptModule = hb_module, ptPta = hb_pta, getThreads =
     [\<lparr> ttID = 0, spawnSite = None, getEvents = [hb_fork, Event Write 1 0 0 (Store 11) [7] None,
        Event Barrier 2 0 0 (OpenMPBarrier 30) [] None] \<rparr>,
      \<lparr> ttID = 1, spawnSite = Some hb_fork, getEvents = [Event Barrier 0 1 0 (OpenMPBarrier 30) [] None,
        Event Read 1 1 0 (Load 14) [7] None] \<rparr>] \<rparr>"

definition barrier_graph :: sync_graph where
  "barrier_graph = \<lparr> syncEdges = [(EventPID 0 0, [EventPID 1 0]), (EventPID 0 2, [EventPID 1 0]),
       (EventPID 1 0, [EventPID 0 2])],
     syncReachable = [(EventPID 0 0, [EventPID 0 0, EventPID 0 2, EventPID 1 0]),
       (EventPID 0 2, [EventPID 0 2, EventPID 1 0]), (EventPID 1 0, [EventPID 0 2, EventPID 1 0])],
     threadSyncs = [(0, [EventPID 0 0, EventPID 0 2]), (1, [EventPID 1 0])] \<rparr>"

lemma barrier_demo: "happensBeforeGraph barrier_trace = Inr barrier_graph"
  by code_simp

lemma barrier_demo_wf: "wf_trace barrier_trace"
  by (auto simp: wf_trace_def wf_events_def wf_spawns_def barrier_trace_def hb_fork_def
    allEvents_def isFork_def less_Suc_eq numeral_eq_Suc)

lemma barrier_ordered_witness:
  "canReach barrier_graph (Event Write 1 0 0 (Store 11) [7] None) (Event Read 1 1 0 (Load 14) [7] None)"
proof -
  have "canReach barrier_graph (Event Write 1 0 0 (Store 11) [7] None) (Event Read 1 1 0 (Load 14) [7] None)
    \<and> \<not> areParallel barrier_graph (Event Write 1 0 0 (Store 11) [7] None)
          (Event Read 1 1 0 (Load 14) [7] None)"
    by (rule barrier_ordered [OF barrier_demo_wf barrier_demo,
        where x = "Event Barrier 2 0 0 (OpenMPBarrier 30) [] None"
          and y = "Event Barrier 0 1 0 (OpenMPBarrier 30) [] None"])
      (simp_all add: progOrder_def barrier_trace_def allEvents_def evInst_def)
  then show ?thesis ..
qed

end
