(* ===== verification/LockSet.thy ===== *)
theory LockSet
  imports TraceModel
begin

text \<open>
  Lock sets (src/Analysis/LockSet.h and .cpp): the multiset of lock values held at an event,
  found by replaying the lock and unlock events of the thread before it, cached per event, and
  the test whether two accesses hold a common lock.
\<close>

section \<open>Definitions\<close>

type_synonym lock_multiset = "llvm_value list"
type_synonym lock_cache = "(event \<times> lock_multiset) list"

definition eraseFirst :: "llvm_value \<Rightarrow> lock_multiset \<Rightarrow> lock_multiset" where
  "eraseFirst ele locks = (if ele \<in> set locks then remove1 ele locks else locks)"

fun replayLocks :: "llvm_module \<Rightarrow> event \<Rightarrow> event list \<Rightarrow> lock_multiset \<Rightarrow> lock_multiset" where
  "replayLocks M targetEvent [] locks = locks"
| "replayLocks M targetEvent (event # events) locks =
     (if evID event = evID targetEvent then locks
      else replayLocks M targetEvent events
        (case evType event of
           Lock \<Rightarrow> insort (getLockValue M (evIR event)) locks
         | Unlock \<Rightarrow> eraseFirst (getLockValue M (evIR event)) locks
         | _ \<Rightarrow> locks))"

definition heldLocks :: "program_trace \<Rightarrow> event \<Rightarrow> lock_cache \<Rightarrow> lock_multiset \<times> lock_cache" where
  "heldLocks P targetEvent cache =
     (case map_of cache targetEvent of
        Some locks \<Rightarrow> (locks, cache)
      | None \<Rightarrow>
          (let locks = replayLocks (ptModule P) targetEvent (getEvents (evThread P targetEvent)) []
           in (locks, (targetEvent, locks) # cache)))"

fun commonLock :: "lock_multiset \<Rightarrow> lock_multiset \<Rightarrow> bool" where
  "commonLock (l # lhsLocks) (r # rhsLocks) =
     (if l < r then commonLock lhsLocks (r # rhsLocks)
      else if l > r then commonLock (l # lhsLocks) rhsLocks
      else True)"
| "commonLock _ _ = False"

definition sharesLock ::
  "program_trace \<Rightarrow> event \<Rightarrow> event \<Rightarrow> lock_cache \<Rightarrow> bool \<times> lock_cache" where
  "sharesLock P lhs rhs cache =
     (let (lhsLocks, cache1) = heldLocks P lhs cache;
          (rhsLocks, cache2) = heldLocks P rhs cache1
      in (commonLock lhsLocks rhsLocks, cache2))"

section \<open>The specification\<close>

text \<open>
  How often a thread holds a lock after a list of events: each lock adds one, each unlock takes
  one away if there is one (an unlock of a lock that is not held is ignored).
\<close>

definition holdStep :: "llvm_module \<Rightarrow> llvm_value \<Rightarrow> event \<Rightarrow> nat \<Rightarrow> nat" where
  "holdStep M v e n =
     (if evType e = Lock \<and> getLockValue M (evIR e) = v then n + 1
      else if evType e = Unlock \<and> getLockValue M (evIR e) = v then n - 1
      else n)"

definition holdCount :: "llvm_module \<Rightarrow> llvm_value \<Rightarrow> event list \<Rightarrow> nat" where
  "holdCount M v es = fold (holdStep M v) es 0"

definition eventsBefore :: "program_trace \<Rightarrow> event \<Rightarrow> event list" where
  "eventsBefore P e = takeWhile (\<lambda>x. evID x \<noteq> evID e) (getEvents (evThread P e))"

definition holdsLock :: "program_trace \<Rightarrow> event \<Rightarrow> llvm_value \<Rightarrow> bool" where
  "holdsLock P e v \<longleftrightarrow> holdCount (ptModule P) v (eventsBefore P e) > 0"

definition lock_cache_sound :: "program_trace \<Rightarrow> lock_cache \<Rightarrow> bool" where
  "lock_cache_sound P cache \<longleftrightarrow> (\<forall>(e, locks) \<in> set cache.
     locks = replayLocks (ptModule P) e (getEvents (evThread P e)) [])"

section \<open>Lemmas\<close>

lemma mset_eraseFirst: "mset (eraseFirst v locks) = mset locks - {#v#}"
  by (auto simp: eraseFirst_def)

lemma sorted_eraseFirst: "sorted locks \<Longrightarrow> sorted (eraseFirst v locks)"
  by (simp add: eraseFirst_def sorted_remove1)

lemma replayLocks_sorted:
  "sorted locks \<Longrightarrow> sorted (replayLocks M t es locks)"
  by (induction es arbitrary: locks)
    (auto simp: sorted_insort sorted_eraseFirst split: event_type.split)

lemma holdStep_count:
  "count (mset (case evType e of
       Lock \<Rightarrow> insort (getLockValue M (evIR e)) locks
     | Unlock \<Rightarrow> eraseFirst (getLockValue M (evIR e)) locks
     | _ \<Rightarrow> locks)) v = holdStep M v e (count (mset locks) v)"
  by (auto simp: holdStep_def mset_eraseFirst simp del: mset_remove1 split: event_type.split)

lemma replayLocks_count:
  "count (mset (replayLocks M t es locks)) v =
     fold (holdStep M v) (takeWhile (\<lambda>x. evID x \<noteq> evID t) es) (count (mset locks) v)"
proof (induction es arbitrary: locks)
  case (Cons e es)
  show ?case
  proof (cases "evID e = evID t")
    case False
    then show ?thesis using Cons.IH by (simp add: holdStep_count)
  qed simp
qed simp

lemma heldLocks_value:
  assumes "lock_cache_sound P cache"
  shows "fst (heldLocks P e cache) = replayLocks (ptModule P) e (getEvents (evThread P e)) []"
    and "lock_cache_sound P (snd (heldLocks P e cache))"
  using assms
  by (auto simp: heldLocks_def lock_cache_sound_def Let_def dest: map_of_SomeD split: option.splits)

lemma heldLocks_count:
  assumes "lock_cache_sound P cache"
  shows "count (mset (fst (heldLocks P e cache))) v = holdCount (ptModule P) v (eventsBefore P e)"
  by (simp add: heldLocks_value(1) [OF assms] replayLocks_count holdCount_def eventsBefore_def)

lemma commonLock_iff:
  "sorted xs \<Longrightarrow> sorted ys \<Longrightarrow> commonLock xs ys \<longleftrightarrow> set xs \<inter> set ys \<noteq> {}"
  by (induction xs ys rule: commonLock.induct) (auto simp: not_less)

lemma heldLocks_mem:
  assumes "lock_cache_sound P cache"
  shows "v \<in> set (fst (heldLocks P e cache)) \<longleftrightarrow> holdsLock P e v"
  using heldLocks_count [OF assms, of e v]
  by (metis count_greater_zero_iff holdsLock_def set_mset_mset)

definition lockEvents :: "llvm_module \<Rightarrow> llvm_value \<Rightarrow> event_type \<Rightarrow> event list \<Rightarrow> nat" where
  "lockEvents M v ty es = length (filter (\<lambda>e. evType e = ty \<and> getLockValue M (evIR e) = v) es)"

lemma holdCount_snoc: "holdCount M v (es @ [e]) = holdStep M v e (holdCount M v es)"
  by (simp add: holdCount_def)

lemma holdCount_balanced:
  "\<forall>n \<le> length es. lockEvents M v Unlock (take n es) \<le> lockEvents M v Lock (take n es) \<Longrightarrow>
     holdCount M v es = lockEvents M v Lock es - lockEvents M v Unlock es"
proof (induction es rule: rev_induct)
  case (snoc e es)
  have pre: "lockEvents M v Unlock (take n es) \<le> lockEvents M v Lock (take n es)"
    if "n \<le> length es" for n
    using snoc.prems [rule_format, of n] that by simp
  with snoc.IH have IH: "holdCount M v es = lockEvents M v Lock es - lockEvents M v Unlock es" by blast
  from pre [of "length es"] have le: "lockEvents M v Unlock es \<le> lockEvents M v Lock es" by simp
  show ?case
    using IH le by (auto simp: holdCount_snoc holdStep_def lockEvents_def)
qed (simp add: holdCount_def lockEvents_def)

section \<open>Properties\<close>

text \<open>
  C31. The lock set of an event is exact: every lock value is in it as often as the thread holds
  it before the event (locks minus matched unlocks, recursion counted), it is in ascending
  order, and the answer does not depend on what the cache already holds.
\<close>

theorem heldLocks_exact:
  assumes "lock_cache_sound P cache"
  shows "count (mset (fst (heldLocks P e cache))) v = holdCount (ptModule P) v (eventsBefore P e) \<and>
    sorted (fst (heldLocks P e cache)) \<and> lock_cache_sound P (snd (heldLocks P e cache))"
  using heldLocks_count [OF assms] heldLocks_value [OF assms] replayLocks_sorted by simp

lemma sharesLock_value:
  assumes "lock_cache_sound P cache"
  shows "(fst (sharesLock P lhs rhs cache) \<longleftrightarrow> (\<exists>v. holdsLock P lhs v \<and> holdsLock P rhs v)) \<and>
    lock_cache_sound P (snd (sharesLock P lhs rhs cache))"
proof
  let ?l = "heldLocks P lhs cache" let ?r = "heldLocks P rhs (snd ?l)"
  have eq: "sharesLock P lhs rhs cache = (commonLock (fst ?l) (fst ?r), snd ?r)"
    by (simp add: sharesLock_def split: prod.split)
  note l = heldLocks_value [OF assms, of lhs]
  note r = heldLocks_value [OF l(2), of rhs]
  have "sorted (fst ?l)" "sorted (fst ?r)" using replayLocks_sorted by (simp_all add: l r)
  then show "fst (sharesLock P lhs rhs cache) \<longleftrightarrow> (\<exists>v. holdsLock P lhs v \<and> holdsLock P rhs v)"
    using heldLocks_mem [OF assms] heldLocks_mem [OF l(2)] by (auto simp: eq commonLock_iff)
  show "lock_cache_sound P (snd (sharesLock P lhs rhs cache))" by (simp add: eq r)
qed

text \<open>
  Two accesses share a lock exactly when some lock is held at both, and the query keeps
  the cache sound.
\<close>

theorem sharesLock_iff:
  assumes "lock_cache_sound P cache"
  shows "(fst (sharesLock P lhs rhs cache) \<longleftrightarrow> (\<exists>v. holdsLock P lhs v \<and> holdsLock P rhs v)) \<and>
    lock_cache_sound P (snd (sharesLock P lhs rhs cache))"
  using sharesLock_value [OF assms] .

text \<open>
  Without stray unlocks before an event, its lock set holds each lock exactly as often as
  the thread has locked it more than unlocked it.
\<close>

lemma heldLocks_balanced:
  assumes "lock_cache_sound P cache"
    and "\<forall>n \<le> length (eventsBefore P e).
      lockEvents (ptModule P) v Unlock (take n (eventsBefore P e)) \<le>
      lockEvents (ptModule P) v Lock (take n (eventsBefore P e))"
  shows "count (mset (fst (heldLocks P e cache))) v =
    lockEvents (ptModule P) v Lock (eventsBefore P e) - lockEvents (ptModule P) v Unlock (eventsBefore P e)"
  using heldLocks_count [OF assms(1)] holdCount_balanced [OF assms(2)] by simp

subsection \<open>Witnesses\<close>

text \<open>Thread 0 takes lock 9 twice, releases it once and writes.\<close>

definition lock_trace :: program_trace where
  "lock_trace = \<lparr> ptModule = empty_module\<lparr> getArgOperand := (\<lambda>i n. 9) \<rparr>,
     ptPta = \<lparr> contextEvolve = (\<lambda>c i. c), getPointsTo = (\<lambda>c v. []), getDirectNodeOrNull = (\<lambda>c f. None),
       getResolvedNode = (\<lambda>c i. []), nodeFunction = (\<lambda>n. n), nodeContext = (\<lambda>n. 0),
       isExtFunction = (\<lambda>n. False), objValue = (\<lambda>b. None) \<rparr>,
     getThreads = [\<lparr> ttID = 0, spawnSite = None, getEvents =
       [Event Lock 0 0 0 (LockIRImpl TyPthreadMutexLock 20) [] None,
        Event Lock 1 0 0 (LockIRImpl TyPthreadMutexLock 21) [] None,
        Event Unlock 2 0 0 (UnlockIRImpl TyPthreadMutexUnlock 22) [] None,
        Event Write 3 0 0 (Store 23) [7] None] \<rparr>] \<rparr>"

lemma lock_cache_sound_empty: "lock_cache_sound P []"
  by (simp add: lock_cache_sound_def)

lemma lock_demo: "fst (heldLocks lock_trace (Event Write 3 0 0 (Store 23) [7] None) []) = [9]"
  by code_simp

lemma heldLocks_exact_witness:
  "holdCount (ptModule lock_trace) 9
     (eventsBefore lock_trace (Event Write 3 0 0 (Store 23) [7] None)) = 1"
  using heldLocks_exact [OF lock_cache_sound_empty,
      of lock_trace "Event Write 3 0 0 (Store 23) [7] None" 9]
  by (simp add: lock_demo)

lemma sharesLock_iff_witness:
  "\<exists>v. holdsLock lock_trace (Event Write 3 0 0 (Store 23) [7] None) v"
proof -
  have "fst (sharesLock lock_trace (Event Write 3 0 0 (Store 23) [7] None)
      (Event Write 3 0 0 (Store 23) [7] None) [])" by code_simp
  with sharesLock_iff [OF lock_cache_sound_empty, of lock_trace
      "Event Write 3 0 0 (Store 23) [7] None" "Event Write 3 0 0 (Store 23) [7] None"]
  show ?thesis by blast
qed

lemma heldLocks_balanced_witness:
  "count (mset (fst (heldLocks lock_trace (Event Write 3 0 0 (Store 23) [7] None) []))) 9 = 2 - 1"
proof -
  let ?w = "Event Write 3 0 0 (Store 23) [7] None"
  have "\<forall>n \<le> length (eventsBefore lock_trace ?w).
      lockEvents (ptModule lock_trace) 9 Unlock (take n (eventsBefore lock_trace ?w)) \<le>
      lockEvents (ptModule lock_trace) 9 Lock (take n (eventsBefore lock_trace ?w))"
    by (auto simp: eventsBefore_def evThread_def lock_trace_def lockEvents_def getLockValue_def
      le_Suc_eq numeral_eq_Suc empty_module_def)
  from heldLocks_balanced [OF lock_cache_sound_empty this] show ?thesis
    by (simp add: eventsBefore_def evThread_def lock_trace_def lockEvents_def getLockValue_def
      empty_module_def)
qed

end
