(* ===== verification/SharedMemory.thy ===== *)
theory SharedMemory
  imports TraceModel
begin

text \<open>
  Shared memory (src/Analysis/SharedMemory.h and .cpp): abstract objects are numbered in the
  order they are met, and the reads and writes of every object are grouped by thread. An object
  is shared when one thread writes it and another thread accesses it.
\<close>

section \<open>Definitions\<close>

type_synonym threaded = "(thread_id \<times> event list) list"

record shared_memory =
  objIDs :: "(pta_obj \<times> nat) list"
  objReads :: "(nat \<times> threaded) list"
  objWrites :: "(nat \<times> threaded) list"

definition getObjId :: "pta_obj \<Rightarrow> shared_memory \<Rightarrow> nat \<times> shared_memory" where
  "getObjId obj s =
     (case map_of (objIDs s) obj of
        Some objID \<Rightarrow> (objID, s)
      | None \<Rightarrow>
          (let objID = length (objIDs s)
           in (objID, s\<lparr> objIDs := om_put obj objID (objIDs s) \<rparr>)))"

text \<open>\<open>m[id][tid].push_back(event)\<close>.\<close>

definition pushAccess ::
  "nat \<Rightarrow> thread_id \<Rightarrow> event \<Rightarrow> (nat \<times> threaded) list \<Rightarrow> (nat \<times> threaded) list" where
  "pushAccess objID tid event m =
     (let inner = om_at [] objID m
      in om_put objID (om_put tid (om_at [] tid inner @ [event]) inner) m)"

definition addRead :: "thread_id \<Rightarrow> event \<Rightarrow> pta_obj \<Rightarrow> shared_memory \<Rightarrow> shared_memory" where
  "addRead tid event obj s =
     (let (objID, s') = getObjId obj s
      in s'\<lparr> objReads := pushAccess objID tid event (objReads s') \<rparr>)"

definition addWrite :: "thread_id \<Rightarrow> event \<Rightarrow> pta_obj \<Rightarrow> shared_memory \<Rightarrow> shared_memory" where
  "addWrite tid event obj s =
     (let (objID, s') = getObjId obj s
      in s'\<lparr> objWrites := pushAccess objID tid event (objWrites s') \<rparr>)"

definition addEvent :: "thread_id \<Rightarrow> event \<Rightarrow> shared_memory \<Rightarrow> shared_memory" where
  "addEvent tid event s =
     (case evType event of
        Read \<Rightarrow> fold (addRead tid event) (evMemory event) s
      | Write \<Rightarrow> fold (addWrite tid event) (evMemory event) s
      | _ \<Rightarrow> s)"

definition sharedMemory :: "program_trace \<Rightarrow> shared_memory" where
  "sharedMemory P =
     fold (\<lambda>thread. fold (addEvent (ttID thread)) (getEvents thread)) (getThreads P)
       \<lparr> objIDs = [], objReads = [], objWrites = [] \<rparr>"

definition numThreadsWrite :: "shared_memory \<Rightarrow> nat \<Rightarrow> nat" where
  "numThreadsWrite s objID =
     (case map_of (objWrites s) objID of None \<Rightarrow> 0 | Some m \<Rightarrow> length m)"

definition numThreadsRead :: "shared_memory \<Rightarrow> nat \<Rightarrow> nat" where
  "numThreadsRead s objID =
     (case map_of (objReads s) objID of None \<Rightarrow> 0 | Some m \<Rightarrow> length m)"

text \<open>\<open>m.at(id).begin()->first\<close>.\<close>

definition firstThread :: "(nat \<times> threaded) list \<Rightarrow> nat \<Rightarrow> thread_id result" where
  "firstThread m objID =
     (case map_of m objID of
        None \<Rightarrow> Inl OutOfRange
      | Some [] \<Rightarrow> Inl EmptyAccess
      | Some ((tid, _) # _) \<Rightarrow> Inr tid)"

definition isSharedObject :: "shared_memory \<Rightarrow> nat \<Rightarrow> bool result" where
  "isSharedObject s objID =
     (let nWriters = numThreadsWrite s objID; nReaders = numThreadsRead s objID in
      if nWriters > 1 \<or> nWriters = 1 \<and> nReaders > 1 then Inr True
      else if nWriters = 1 \<and> nReaders = 1
      then rbind (firstThread (objWrites s) objID) (\<lambda>w.
             rbind (firstThread (objReads s) objID) (\<lambda>r. Inr (w \<noteq> r)))
      else Inr False)"

fun sharedObjectsOf :: "shared_memory \<Rightarrow> (pta_obj \<times> nat) list \<Rightarrow> pta_obj list result" where
  "sharedObjectsOf s [] = Inr []"
| "sharedObjectsOf s ((obj, objID) # rest) =
     rbind (isSharedObject s objID) (\<lambda>b.
       rbind (sharedObjectsOf s rest) (\<lambda>objs. Inr (if b then obj # objs else objs)))"

definition getSharedObjects :: "shared_memory \<Rightarrow> pta_obj list result" where
  "getSharedObjects s = sharedObjectsOf s (objIDs s)"

definition getThreadedReads :: "shared_memory \<Rightarrow> pta_obj \<Rightarrow> threaded" where
  "getThreadedReads s obj =
     (case map_of (objIDs s) obj of
        None \<Rightarrow> []
      | Some objID \<Rightarrow> (case map_of (objReads s) objID of Some m \<Rightarrow> m | None \<Rightarrow> []))"

definition getThreadedWrites :: "shared_memory \<Rightarrow> pta_obj \<Rightarrow> threaded" where
  "getThreadedWrites s obj =
     (case map_of (objIDs s) obj of
        None \<Rightarrow> []
      | Some objID \<Rightarrow> (case map_of (objWrites s) objID of Some m \<Rightarrow> m | None \<Rightarrow> []))"

section \<open>The specification\<close>

text \<open>
  The accesses of a trace, in order: one entry for each object an event may touch. The reads
  (or writes) of an object by a thread are the events of its entries.
\<close>

type_synonym access = "thread_id \<times> event \<times> pta_obj"

definition accessesOf :: "thread_id \<Rightarrow> event \<Rightarrow> access list" where
  "accessesOf tid e = (if isMemAccess e then map (\<lambda>obj. (tid, e, obj)) (evMemory e) else [])"

definition traceAccesses :: "program_trace \<Rightarrow> access list" where
  "traceAccesses P = concat (map (\<lambda>t. concat (map (accessesOf (ttID t)) (getEvents t))) (getThreads P))"

definition accessesBy :: "access list \<Rightarrow> event_type \<Rightarrow> pta_obj \<Rightarrow> thread_id \<Rightarrow> event list" where
  "accessesBy as ty obj tid =
     map (\<lambda>(t, e, b). e) (filter (\<lambda>(t, e, b). evType e = ty \<and> b = obj \<and> t = tid) as)"

definition accessedBy :: "program_trace \<Rightarrow> event_type \<Rightarrow> pta_obj \<Rightarrow> thread_id \<Rightarrow> bool" where
  "accessedBy P ty obj tid \<longleftrightarrow>
     (\<exists>t \<in> set (getThreads P). ttID t = tid \<and>
        (\<exists>e \<in> set (getEvents t). evType e = ty \<and> obj \<in> set (evMemory e)))"

definition sharedObject :: "program_trace \<Rightarrow> pta_obj \<Rightarrow> bool" where
  "sharedObject P obj \<longleftrightarrow>
     (\<exists>w a. w \<noteq> a \<and> accessedBy P Write obj w \<and> (accessedBy P Write obj a \<or> accessedBy P Read obj a))"

section \<open>Grouping\<close>

definition addAccess :: "access \<Rightarrow> shared_memory \<Rightarrow> shared_memory" where
  "addAccess = (\<lambda>(tid, e, obj) s. if evType e = Read then addRead tid e obj s else addWrite tid e obj s)"

lemma addEvent_accesses: "addEvent tid = (\<lambda>e. fold addAccess (accessesOf tid e))"
proof (intro ext)
  fix e s
  have "fold addAccess (map (\<lambda>obj. (tid, e, obj)) objs) s =
      fold (if evType e = Read then addRead tid e else addWrite tid e) objs s" for objs
    by (induction objs arbitrary: s) (simp_all add: addAccess_def)
  then show "addEvent tid e s = fold addAccess (accessesOf tid e) s"
    by (cases "evType e") (simp_all add: addEvent_def accessesOf_def isMemAccess_def)
qed

lemma fold_concat_map: "fold f (concat (map h xs)) = fold (\<lambda>x. fold f (h x)) xs"
  by (induction xs) simp_all

lemma sharedMemory_accesses:
  "sharedMemory P = fold addAccess (traceAccesses P) \<lparr> objIDs = [], objReads = [], objWrites = [] \<rparr>"
  by (simp add: sharedMemory_def traceAccesses_def fold_concat_map addEvent_accesses)

definition groups :: "(nat \<times> threaded) list \<Rightarrow> nat \<Rightarrow> threaded" where
  "groups m objID = om_at [] objID m"

definition groups_ok :: "(nat \<times> threaded) list \<Rightarrow> bool" where
  "groups_ok m \<longleftrightarrow> om_sorted m \<and>
     (\<forall>i. om_sorted (groups m i) \<and> (\<forall>(t, es) \<in> set (groups m i). es \<noteq> []))"

lemma om_put_mem: "(k', v') \<in> set (om_put k v m) \<Longrightarrow> (k', v') = (k, v) \<or> (k', v') \<in> set m"
  by (induction m) (auto split: if_splits)

lemma groups_push:
  assumes "groups_ok m"
  shows "groups_ok (pushAccess i t e m)"
    and "om_at [] u (groups (pushAccess i t e m) j) =
      (if i = j \<and> t = u then om_at [] u (groups m j) @ [e] else om_at [] u (groups m j))"
proof -
  have m: "om_sorted m" "\<And>i. om_sorted (groups m i)"
    and ne: "\<And>i t es. (t, es) \<in> set (groups m i) \<Longrightarrow> es \<noteq> []"
    using assms by (auto simp: groups_ok_def)
  let ?inner = "om_put t (om_at [] t (groups m i) @ [e]) (groups m i)"
  have push: "groups (pushAccess i t e m) j = (if i = j then ?inner else groups m j)" for j
    using m(1) by (simp add: groups_def pushAccess_def Let_def)
  have "om_sorted (pushAccess i t e m)"
    using m(1) by (auto simp: pushAccess_def Let_def)
  moreover have "om_sorted (groups (pushAccess i t e m) j)" for j
    using m(2) om_sorted_put by (auto simp: push)
  moreover have "es \<noteq> []" if "(u, es) \<in> set (groups (pushAccess i t e m) j)" for u es j
    using that ne by (auto simp: push split: if_splits dest: om_put_mem)
  ultimately show "groups_ok (pushAccess i t e m)" by (auto simp: groups_ok_def)
  show "om_at [] u (groups (pushAccess i t e m) j) =
      (if i = j \<and> t = u then om_at [] u (groups m j) @ [e] else om_at [] u (groups m j))"
    using m(2) by (auto simp: push)
qed

text \<open>The invariant after the accesses \<open>as\<close>.\<close>

definition ids_ok :: "(pta_obj \<times> nat) list \<Rightarrow> bool" where
  "ids_ok ids \<longleftrightarrow> om_sorted ids \<and> (\<forall>b i. map_of ids b = Some i \<longrightarrow> i < length ids) \<and>
     (\<forall>a b i. map_of ids a = Some i \<and> map_of ids b = Some i \<longrightarrow> a = b)"

definition sm_inv :: "access list \<Rightarrow> shared_memory \<Rightarrow> bool" where
  "sm_inv as s \<longleftrightarrow> ids_ok (objIDs s) \<and> groups_ok (objReads s) \<and> groups_ok (objWrites s) \<and>
     (\<forall>t e b. (t, e, b) \<in> set as \<longrightarrow> b \<in> dom (map_of (objIDs s))) \<and>
     (\<forall>i \<ge> length (objIDs s). groups (objReads s) i = [] \<and> groups (objWrites s) i = []) \<and>
     (\<forall>b i t. map_of (objIDs s) b = Some i \<longrightarrow>
        om_at [] t (groups (objReads s) i) = accessesBy as Read b t \<and>
        om_at [] t (groups (objWrites s) i) = accessesBy as Write b t)"

lemma length_om_put:
  "om_sorted m \<Longrightarrow> map_of m k = None \<Longrightarrow> length (om_put k v m) = Suc (length m)"
  by (induction m) (auto simp: om_sorted_def split: if_splits)

lemma ids_ok_new:
  assumes ids: "ids_ok ids" and new: "map_of ids b = None"
  shows "ids_ok (om_put b (length ids) ids)"
proof -
  have srt: "om_sorted ids" and lt: "\<And>c i. map_of ids c = Some i \<Longrightarrow> i < length ids"
    and inj: "\<And>c d i. map_of ids c = Some i \<Longrightarrow> map_of ids d = Some i \<Longrightarrow> c = d"
    using ids by (auto simp: ids_ok_def)
  have "i < Suc (length ids)" if "map_of (om_put b (length ids) ids) c = Some i" for c i
    using that srt lt [of c i] by (auto split: if_splits)
  moreover have "c = d"
    if "map_of (om_put b (length ids) ids) c = Some i" "map_of (om_put b (length ids) ids) d = Some i" for c d i
    using that srt lt [of c i] lt [of d i] inj [of c i d] by (auto split: if_splits)
  ultimately show ?thesis
    using om_sorted_put [OF srt] length_om_put [OF srt new] unfolding ids_ok_def by metis
qed

lemma getObjId_cases:
  assumes "ids_ok (objIDs s)" and "getObjId b s = (i, s')"
  shows "objReads s' = objReads s" "objWrites s' = objWrites s" "ids_ok (objIDs s')"
    "map_of (objIDs s') = (map_of (objIDs s))(b \<mapsto> i)"
    "length (objIDs s) \<le> length (objIDs s')" "i < length (objIDs s')"
    "map_of (objIDs s) b = None \<and> i = length (objIDs s) \<or> map_of (objIDs s) b = Some i"
proof -
  have srt: "om_sorted (objIDs s)" using assms(1) by (simp add: ids_ok_def)
  show "objReads s' = objReads s" "objWrites s' = objWrites s"
    using assms(2) by (auto simp: getObjId_def Let_def split: option.splits)
  show "map_of (objIDs s) b = None \<and> i = length (objIDs s) \<or> map_of (objIDs s) b = Some i"
    using assms(2) by (auto simp: getObjId_def Let_def split: option.splits)
  have "ids_ok (objIDs s') \<and> map_of (objIDs s') = (map_of (objIDs s))(b \<mapsto> i) \<and>
    length (objIDs s) \<le> length (objIDs s') \<and> i < length (objIDs s')"
  proof (cases "map_of (objIDs s) b")
    case None
    then have "objIDs s' = om_put b i (objIDs s)" "i = length (objIDs s)"
      using assms(2) by (auto simp: getObjId_def Let_def)
    then show ?thesis
      using ids_ok_new [OF assms(1) None] length_om_put [OF srt None] srt by simp
  next
    case (Some j)
    then have "s' = s" "i = j" using assms(2) by (auto simp: getObjId_def)
    then show ?thesis using Some assms(1) by (auto simp: ids_ok_def fun_upd_idem)
  qed
  then show "ids_ok (objIDs s')" "map_of (objIDs s') = (map_of (objIDs s))(b \<mapsto> i)"
    "length (objIDs s) \<le> length (objIDs s')" "i < length (objIDs s')" by auto
qed

lemma accessesBy_snoc:
  "accessesBy (as @ [(t, e, b)]) ty c u =
     (if evType e = ty \<and> b = c \<and> t = u then accessesBy as ty c u @ [e] else accessesBy as ty c u)"
  by (simp add: accessesBy_def)

lemma accessesBy_fresh:
  "(\<And>t e. (t, e, b) \<notin> set as) \<Longrightarrow> accessesBy as ty b t = []"
  by (auto simp: accessesBy_def filter_empty_conv)

lemma om_at_Nil [simp]: "om_at d k [] = d"
  by (simp add: om_at_def)

lemma sm_inv_step:
  assumes inv: "sm_inv as s" and mem: "isMemAccess e"
  shows "sm_inv (as @ [(t, e, b)]) (addAccess (t, e, b) s)"
proof -
  obtain i s' where id: "getObjId b s = (i, s')" by fastforce
  have ids: "ids_ok (objIDs s)" using inv by (simp add: sm_inv_def)
  note g = getObjId_cases [OF ids id]
  let ?R = "if evType e = Read then pushAccess i t e (objReads s) else objReads s"
  let ?W = "if evType e = Write then pushAccess i t e (objWrites s) else objWrites s"
  have upd: "objIDs (addAccess (t, e, b) s) = objIDs s'" "objReads (addAccess (t, e, b) s) = ?R"
    "objWrites (addAccess (t, e, b) s) = ?W"
    using mem g(1,2) by (auto simp: addAccess_def addRead_def addWrite_def id isMemAccess_def)
  have ok: "groups_ok (objReads s)" "groups_ok (objWrites s)"
    and dom: "\<And>t e c. (t, e, c) \<in> set as \<Longrightarrow> c \<in> dom (map_of (objIDs s))"
    and hi: "\<And>j. length (objIDs s) \<le> j \<Longrightarrow> groups (objReads s) j = [] \<and> groups (objWrites s) j = []"
    and at: "\<And>c j u. map_of (objIDs s) c = Some j \<Longrightarrow>
        om_at [] u (groups (objReads s) j) = accessesBy as Read c u \<and>
        om_at [] u (groups (objWrites s) j) = accessesBy as Write c u"
    using inv by (auto simp: sm_inv_def)
  have old: "om_at [] u (groups (objReads s) j) = accessesBy as Read c u \<and>
      om_at [] u (groups (objWrites s) j) = accessesBy as Write c u"
    if "map_of (objIDs s') c = Some j" for c j u
  proof (cases "map_of (objIDs s) c")
    case None
    with that g(4,7) have "c = b" "j = length (objIDs s)" by (auto split: if_splits)
    moreover have "accessesBy as ty c u = []" for ty
      using dom None by (intro accessesBy_fresh) fastforce
    ultimately show ?thesis using hi by simp
  next
    case (Some k)
    with that g(4,7) have "k = j" by (auto split: if_splits)
    with at Some show ?thesis by simp
  qed
  have uniq: "i = j \<longleftrightarrow> b = c" if "map_of (objIDs s') c = Some j" for c j
    using that g(3,4) unfolding ids_ok_def by (metis fun_upd_same option.inject)
  have new: "om_at [] u (groups ?R j) = accessesBy (as @ [(t, e, b)]) Read c u \<and>
      om_at [] u (groups ?W j) = accessesBy (as @ [(t, e, b)]) Write c u"
    if "map_of (objIDs s') c = Some j" for c j u
    using old [OF that, of u] uniq [OF that] ok by (simp add: groups_push accessesBy_snoc)
  have empty: "groups ?R j = [] \<and> groups ?W j = []" if "length (objIDs s') \<le> j" for j
    using that g(5,6) hi [of j] ok by (auto simp: groups_def pushAccess_def groups_ok_def Let_def)
  have "groups_ok ?R \<and> groups_ok ?W" using ok groups_push(1) by simp
  moreover have "\<forall>t' e' c. (t', e', c) \<in> set (as @ [(t, e, b)]) \<longrightarrow> c \<in> dom (map_of (objIDs s'))"
    using dom g(4) by auto
  ultimately show ?thesis
    using g(3) new empty unfolding sm_inv_def upd by blast
qed

lemma sm_inv_fold:
  "sm_inv as s \<Longrightarrow> (\<forall>(t, e, b) \<in> set as'. isMemAccess e) \<Longrightarrow> sm_inv (as @ as') (fold addAccess as' s)"
proof (induction as' arbitrary: as s)
  case (Cons a as')
  obtain t e b where "a = (t, e, b)" by (cases a)
  with Cons.IH [of "as @ [a]" "addAccess a s"] Cons.prems sm_inv_step [of as s e t b] show ?case by simp
qed simp

lemma sharedMemory_inv: "sm_inv (traceAccesses P) (sharedMemory P)"
proof -
  have "sm_inv [] \<lparr> objIDs = [], objReads = [], objWrites = [] \<rparr>"
    by (simp add: sm_inv_def ids_ok_def groups_ok_def groups_def)
  moreover have "\<forall>(t, e, b) \<in> set (traceAccesses P). isMemAccess e"
    by (auto simp: traceAccesses_def accessesOf_def split: if_splits)
  ultimately show ?thesis using sm_inv_fold by (fastforce simp: sharedMemory_accesses)
qed

section \<open>Shared objects\<close>

lemma groups_keys:
  assumes "groups_ok m"
  shows "t \<in> fst ` set (groups m i) \<longleftrightarrow> om_at [] t (groups m i) \<noteq> []"
proof -
  have srt: "om_sorted (groups m i)" and ne: "\<And>u es. (u, es) \<in> set (groups m i) \<Longrightarrow> es \<noteq> []"
    using assms by (auto simp: groups_ok_def)
  show ?thesis
  proof (cases "map_of (groups m i) t")
    case None
    then have "t \<notin> fst ` set (groups m i)" by (simp add: map_of_eq_None_iff)
    moreover have "om_at [] t (groups m i) = []" using None unfolding om_at_def by (simp only: option.case)
    ultimately show ?thesis by simp
  next
    case (Some es)
    with ne [of t es] map_of_SomeD [OF Some] show ?thesis by (force simp: om_at_def)
  qed
qed

lemma traceAccesses_mem:
  "(tid, e, obj) \<in> set (traceAccesses P) \<longleftrightarrow> isMemAccess e \<and> obj \<in> set (evMemory e) \<and>
     (\<exists>t \<in> set (getThreads P). ttID t = tid \<and> e \<in> set (getEvents t))"
  by (auto simp: traceAccesses_def accessesOf_def split: if_splits)

lemma accessesBy_mem:
  "e \<in> set (accessesBy as ty obj tid) \<longleftrightarrow> (tid, e, obj) \<in> set as \<and> evType e = ty"
  by (force simp: accessesBy_def)

lemma accessedBy_iff:
  assumes "ty = Read \<or> ty = Write"
  shows "accessedBy P ty obj tid \<longleftrightarrow> accessesBy (traceAccesses P) ty obj tid \<noteq> []"
proof -
  have "accessesBy (traceAccesses P) ty obj tid \<noteq> [] \<longleftrightarrow>
      (\<exists>e. e \<in> set (accessesBy (traceAccesses P) ty obj tid))" by (metis all_not_in_conv set_empty)
  then show ?thesis
    using assms by (auto simp: accessesBy_mem traceAccesses_mem accessedBy_def isMemAccess_def)
qed

lemma numThreads_groups:
  "numThreadsWrite s i = length (groups (objWrites s) i)"
  "numThreadsRead s i = length (groups (objReads s) i)"
  by (simp_all add: numThreadsWrite_def numThreadsRead_def groups_def om_at_def split: option.splits)

lemma firstThread_groups:
  "groups m i = (t, es) # rest \<Longrightarrow> firstThread m i = Inr t"
  by (auto simp: groups_def om_at_def firstThread_def split: option.splits)

lemma om_sorted_keys: "om_sorted ((t, es) # (u, fs) # rest) \<Longrightarrow> t \<noteq> u"
  by (auto simp: om_sorted_def)

lemma isSharedObject_iff:
  assumes "groups_ok (objReads s)" and "groups_ok (objWrites s)"
  shows "isSharedObject s i = Inr (\<exists>w a. w \<noteq> a \<and> w \<in> fst ` set (groups (objWrites s) i) \<and>
     (a \<in> fst ` set (groups (objWrites s) i) \<or> a \<in> fst ` set (groups (objReads s) i)))"
proof -
  have srt: "om_sorted (groups (objReads s) i)" "om_sorted (groups (objWrites s) i)"
    using assms by (auto simp: groups_ok_def)
  show ?thesis
  proof (cases "groups (objWrites s) i")
    case Nil
    then show ?thesis by (simp add: isSharedObject_def numThreads_groups)
  next
    case W: (Cons w ws)
    obtain t es where w: "w = (t, es)" by (cases w)
    show ?thesis
    proof (cases ws)
      case (Cons w' ws')
      then show ?thesis
        using W w srt om_sorted_keys
        by (cases w') (force simp: isSharedObject_def numThreads_groups)
    next
      case ws: Nil
      show ?thesis
      proof (cases "groups (objReads s) i")
        case Nil
        then show ?thesis using W ws by (simp add: isSharedObject_def numThreads_groups)
      next
        case R: (Cons r rs)
        obtain u fs where r: "r = (u, fs)" by (cases r)
        show ?thesis
        proof (cases rs)
          case Nil
          then show ?thesis
            using W ws R w r by (auto simp: isSharedObject_def numThreads_groups firstThread_groups)
        next
          case (Cons r' rs')
          obtain v gs where r': "r' = (v, gs)" by (cases r')
          have "u \<noteq> v" using srt R r r' Cons om_sorted_keys by metis
          then have "\<exists>a. t \<noteq> a \<and> (a = u \<or> a = v)" by metis
          then show ?thesis
            using W ws R w r r' Cons by (auto simp: isSharedObject_def numThreads_groups)
        qed
      qed
    qed
  qed
qed

lemma sharedObjectsOf_filter:
  assumes "\<And>obj i. (obj, i) \<in> set ids \<Longrightarrow> isSharedObject s i = Inr (Q obj)"
  shows "sharedObjectsOf s ids = Inr (filter Q (map fst ids))"
  using assms
proof (induction ids)
  case (Cons p ids)
  obtain b i where p: "p = (b, i)" by (cases p)
  have "isSharedObject s i = Inr (Q b)" using Cons.prems p by simp
  moreover have "sharedObjectsOf s ids = Inr (filter Q (map fst ids))" using Cons by simp
  ultimately show ?case by (simp add: p)
qed simp

section \<open>Properties\<close>

lemma getSharedObjects_set:
  "\<exists>objs. getSharedObjects (sharedMemory P) = Inr objs \<and> sorted_wrt (<) objs \<and>
     set objs = {obj. sharedObject P obj}"
proof -
  let ?s = "sharedMemory P" and ?as = "traceAccesses P"
  have ids: "ids_ok (objIDs ?s)" and ok: "groups_ok (objReads ?s)" "groups_ok (objWrites ?s)"
    and dom: "\<And>t e b. (t, e, b) \<in> set ?as \<Longrightarrow> b \<in> dom (map_of (objIDs ?s))"
    and at: "\<And>b i t. map_of (objIDs ?s) b = Some i \<Longrightarrow>
        om_at [] t (groups (objReads ?s) i) = accessesBy ?as Read b t \<and>
        om_at [] t (groups (objWrites ?s) i) = accessesBy ?as Write b t"
    using sharedMemory_inv [of P] by (auto simp: sm_inv_def)
  have srt: "om_sorted (objIDs ?s)" using ids by (simp add: ids_ok_def)
  have "isSharedObject ?s i = Inr (sharedObject P b)" if "(b, i) \<in> set (objIDs ?s)" for b i
  proof -
    have "map_of (objIDs ?s) b = Some i" using that om_mem_iff [OF srt] by blast
    from at [OF this] show ?thesis
      by (simp add: isSharedObject_iff [OF ok] groups_keys [OF ok(1)] groups_keys [OF ok(2)]
        sharedObject_def accessedBy_iff)
  qed
  then have eq: "getSharedObjects ?s = Inr (filter (sharedObject P) (map fst (objIDs ?s)))"
    unfolding getSharedObjects_def by (rule sharedObjectsOf_filter)
  moreover have "sorted_wrt (<) (filter (sharedObject P) (map fst (objIDs ?s)))"
    using srt by (simp add: om_sorted_def sorted_wrt_filter)
  moreover have "b \<in> fst ` set (objIDs ?s)" if "sharedObject P b" for b
  proof -
    from that obtain w where "accessesBy ?as Write b w \<noteq> []"
      by (auto simp: sharedObject_def accessedBy_iff)
    then obtain t e where "(t, e, b) \<in> set ?as"
      by (auto simp: accessesBy_def filter_empty_conv)
    with dom show ?thesis by (auto simp: dom_map_of_conv_image_fst)
  qed
  ultimately show ?thesis by fastforce
qed

text \<open>
  C30. The shared objects are exactly those one thread writes and another thread reads or
  writes; each is listed once, in ascending order, and no lookup of the check fails.
\<close>

theorem getSharedObjects_exact:
  "\<exists>objs. getSharedObjects (sharedMemory P) = Inr objs \<and> sorted_wrt (<) objs \<and>
     set objs = {obj. sharedObject P obj}"
  by (rule getSharedObjects_set)

lemma threaded_accesses:
  "om_at [] tid (getThreadedReads (sharedMemory P) obj) = accessesBy (traceAccesses P) Read obj tid \<and>
   om_at [] tid (getThreadedWrites (sharedMemory P) obj) = accessesBy (traceAccesses P) Write obj tid"
proof (cases "map_of (objIDs (sharedMemory P)) obj")
  case None
  have "\<And>t e. (t, e, obj) \<notin> set (traceAccesses P)"
    using sharedMemory_inv [of P] None unfolding sm_inv_def by fastforce
  then have "accessesBy (traceAccesses P) ty obj tid = []" for ty by (rule accessesBy_fresh)
  with None show ?thesis by (simp add: getThreadedReads_def getThreadedWrites_def)
next
  case (Some i)
  with sharedMemory_inv [of P]
  have "om_at [] tid (groups (objReads (sharedMemory P)) i) = accessesBy (traceAccesses P) Read obj tid \<and>
      om_at [] tid (groups (objWrites (sharedMemory P)) i) = accessesBy (traceAccesses P) Write obj tid"
    by (auto simp: sm_inv_def)
  with Some show ?thesis
    by (auto simp: getThreadedReads_def getThreadedWrites_def groups_def om_at_def [of "[]" i]
      split: option.splits)
qed

text \<open>
  The accesses the race detector enumerates are grouped without loss: for every object and
  thread the recorded reads (writes) are the thread's read (write) events on the object, in
  trace order, once for each time the object is in the event's points-to set.
\<close>

theorem threaded_accesses_exact:
  "om_at [] tid (getThreadedReads (sharedMemory P) obj) = accessesBy (traceAccesses P) Read obj tid \<and>
   om_at [] tid (getThreadedWrites (sharedMemory P) obj) = accessesBy (traceAccesses P) Write obj tid"
  by (rule threaded_accesses)

lemma getThreaded_sorted:
  "om_sorted (getThreadedReads (sharedMemory P) obj)" "om_sorted (getThreadedWrites (sharedMemory P) obj)"
proof -
  have "om_sorted (groups (objReads (sharedMemory P)) i)" "om_sorted (groups (objWrites (sharedMemory P)) i)" for i
    using sharedMemory_inv [of P] by (auto simp: sm_inv_def groups_ok_def)
  then show "om_sorted (getThreadedReads (sharedMemory P) obj)"
    "om_sorted (getThreadedWrites (sharedMemory P) obj)"
    by (auto simp: getThreadedReads_def getThreadedWrites_def groups_def om_at_def split: option.splits)
qed

end
