(* ===== verification/AliasAnalyses.thy ===== *)
theory AliasAnalyses
  imports TraceModel
begin

text \<open>
  The two alias filters of the race detector: \<open>ThreadLocalAnalysis\<close>
  (src/Analysis/ThreadLocalAnalysis.h and .cpp), which discards pairs whose common objects are
  all thread-local globals, and \<open>SimpleAlias\<close> (src/Analysis/SimpleAlias.h and .cpp), a
  wrapper of LLVM's scoped no-alias analysis, which is a parameter.
\<close>

section \<open>Thread-local objects\<close>

definition isThreadLocalObj :: "llvm_module \<Rightarrow> pta \<Rightarrow> pta_obj \<Rightarrow> bool" where
  "isThreadLocalObj M A obj =
     (case objValue A obj of
        None \<Rightarrow> False
      | Some val \<Rightarrow> classOf M val = GlobalVariable \<and> isThreadLocal M val)"

fun allCommonThreadLocal :: "llvm_module \<Rightarrow> pta \<Rightarrow> pta_obj list \<Rightarrow> pta_obj list \<Rightarrow> bool" where
  "allCommonThreadLocal M A (w # writePtsTo) (r # otherPtsTo) =
     (if w < r then allCommonThreadLocal M A writePtsTo (r # otherPtsTo)
      else if w > r then allCommonThreadLocal M A (w # writePtsTo) otherPtsTo
      else if \<not> isThreadLocalObj M A w then False
      else allCommonThreadLocal M A writePtsTo otherPtsTo)"
| "allCommonThreadLocal M A _ _ = True"

definition isThreadLocalAccess :: "program_trace \<Rightarrow> event \<Rightarrow> event \<Rightarrow> bool" where
  "isThreadLocalAccess P write other =
     allCommonThreadLocal (ptModule P) (ptPta P) (evMemory write) (evMemory other)"

section \<open>Scoped no-alias\<close>

text \<open>LLVM's answers: whether an instruction has a memory location, and its alias result.\<close>

record alias_oracle =
  hasMemoryLocation :: "llvm_value \<Rightarrow> bool"
  scopedNoAlias :: "llvm_value \<Rightarrow> llvm_value \<Rightarrow> llvm_value \<Rightarrow> bool"

definition mustNotAlias :: "llvm_module \<Rightarrow> alias_oracle \<Rightarrow> event \<Rightarrow> event \<Rightarrow> bool" where
  "mustNotAlias M aa write other =
     (if evFunction M write = evFunction M other then False
      else if \<not> hasMemoryLocation aa (evInst write) \<or> \<not> hasMemoryLocation aa (evInst other) then False
      else scopedNoAlias aa (evFunction M write) (evInst write) (evInst other))"

section \<open>Lemmas\<close>

lemma allCommonThreadLocal_iff:
  "sorted xs \<Longrightarrow> sorted ys \<Longrightarrow>
     allCommonThreadLocal M A xs ys \<longleftrightarrow> (\<forall>b \<in> set xs \<inter> set ys. isThreadLocalObj M A b)"
proof (induction M A xs ys rule: allCommonThreadLocal.induct)
  case (1 M A w ws r rs)
  consider "w < r" | "r < w" | "w = r" by (rule linorder_cases)
  then show ?case
  proof cases
    case 3
    have "(\<forall>b \<in> set (w # ws) \<inter> set (r # rs). isThreadLocalObj M A b) \<longleftrightarrow>
        isThreadLocalObj M A w \<and> (\<forall>b \<in> set ws \<inter> set rs. isThreadLocalObj M A b)"
      using 3 by auto
    with 1 3 show ?thesis by simp
  qed (use 1 in force)+
qed auto

section \<open>Properties\<close>

text \<open>
  A pair of accesses counts as thread-local exactly when every abstract object both may
  touch is a thread-local global variable; points-to sets that are disjoint count as well.
\<close>

theorem isThreadLocalAccess_iff:
  assumes "sorted (evMemory write)" and "sorted (evMemory other)"
  shows "isThreadLocalAccess P write other \<longleftrightarrow>
    (\<forall>b \<in> set (evMemory write) \<inter> set (evMemory other). isThreadLocalObj (ptModule P) (ptPta P) b)"
  using assms by (simp add: isThreadLocalAccess_def allCommonThreadLocal_iff)

text \<open>
  The scoped no-alias filter never discards a pair of accesses of one function, although
  LLVM's analysis only has an answer for instructions of one function.
\<close>

theorem mustNotAlias_same_function:
  "mustNotAlias M aa write other \<Longrightarrow> evFunction M write \<noteq> evFunction M other"
  by (auto simp: mustNotAlias_def split: if_splits)

subsection \<open>Witnesses\<close>

definition tl_trace :: program_trace where
  "tl_trace = \<lparr> ptModule = empty_module\<lparr> classOf := (\<lambda>v. GlobalVariable), isThreadLocal := (\<lambda>v. v = 5),
       getFunction := (\<lambda>i. i) \<rparr>,
     ptPta = \<lparr> contextEvolve = (\<lambda>c i. c), getPointsTo = (\<lambda>c v. []), getDirectNodeOrNull = (\<lambda>c f. None),
       getResolvedNode = (\<lambda>c i. []), nodeFunction = (\<lambda>n. n), nodeContext = (\<lambda>n. 0),
       isExtFunction = (\<lambda>n. False), objValue = (\<lambda>b. Some b) \<rparr>,
     getThreads = [] \<rparr>"

lemma isThreadLocalAccess_iff_witness:
  "isThreadLocalObj (ptModule tl_trace) (ptPta tl_trace) 5"
proof -
  have "isThreadLocalAccess tl_trace (Event Write 0 0 0 (Store 1) [1, 5] None)
      (Event Read 0 1 0 (Load 2) [3, 5, 8] None)" by code_simp
  with isThreadLocalAccess_iff [of "Event Write 0 0 0 (Store 1) [1, 5] None"
      "Event Read 0 1 0 (Load 2) [3, 5, 8] None" tl_trace]
  show ?thesis by simp
qed

lemma mustNotAlias_same_function_witness:
  "evFunction (ptModule tl_trace) (Event Write 0 0 0 (Store 1) [] None) \<noteq>
   evFunction (ptModule tl_trace) (Event Read 0 1 0 (Load 2) [] None)"
proof -
  have "mustNotAlias (ptModule tl_trace) \<lparr> hasMemoryLocation = (\<lambda>i. True), scopedNoAlias = (\<lambda>f i j. True) \<rparr>
      (Event Write 0 0 0 (Store 1) [] None) (Event Read 0 1 0 (Load 2) [] None)" by code_simp
  from mustNotAlias_same_function [OF this] show ?thesis .
qed

end
