(* ===== verification/OpenMPBlocks.thy ===== *)
theory OpenMPBlocks
  imports LangModel
begin

text \<open>
  The searches over basic blocks that the OpenMP analysis uses:
  \<^item> \<open>getConstCmpEqInsts\<close> and \<open>getGuardedBlocks\<close> (src/Analysis/OpenMP/OpenMP.cpp);
  \<^item> \<open>ReduceAnalysis\<close> and \<open>LastprivateAnalysis\<close> (src/Analysis/OpenMPAnalysis.cpp).

  Worklists are vectors used at the back; here the head of a list is the back. The loops are
  \<open>partial_function\<close>s (no value when they do not return); \<open>wl_rel\<close> is the measure that
  shows that they return on a finite control-flow graph.
\<close>

section \<open>Comparisons with a constant\<close>

definition constCmpOf :: "llvm_module \<Rightarrow> llvm_value \<Rightarrow> (llvm_value \<times> nat) list" where
  "constCmpOf M user =
     (if classOf M user = CmpInst then
        (if \<not> isICmpEq M user then []
         else if classOf M (getOperand M user 1) = ConstantInt
         then [(user, getZExtValue M (getOperand M user 1))]
         else if classOf M (getOperand M user 0) = ConstantInt
         then [(user, getZExtValue M (getOperand M user 0))]
         else [])
      else [])"

partial_function (option) constCmpLoop ::
  "llvm_module \<Rightarrow> llvm_value list \<Rightarrow> (llvm_value \<times> nat) list \<Rightarrow> (llvm_value \<times> nat) list option" where
  "constCmpLoop M worklist acc =
     (case worklist of
        [] \<Rightarrow> Some acc
      | user # rest \<Rightarrow>
          if classOf M user = LoadInst
          then constCmpLoop M (rev (users M user) @ rest) acc
          else constCmpLoop M rest (acc @ constCmpOf M user))"

declare constCmpLoop.simps [code]

definition getConstCmpEqInsts :: "llvm_module \<Rightarrow> llvm_value \<Rightarrow> (llvm_value \<times> nat) list result" where
  "getConstCmpEqInsts M value =
     (case constCmpLoop M (rev (users M value)) [] of None \<Rightarrow> Inl Diverges | Some r \<Rightarrow> Inr r)"

section \<open>Blocks guarded by a branch\<close>

definition hasUnguardedPred :: "llvm_module \<Rightarrow> llvm_value list \<Rightarrow> llvm_value \<Rightarrow> bool" where
  "hasUnguardedPred M guardedBlocks block =
     list_ex (\<lambda>pred. pred \<notin> set guardedBlocks) (predecessors M block)"

partial_function (option) guardLoop ::
  "llvm_module \<Rightarrow> llvm_value list \<Rightarrow> llvm_value list \<Rightarrow> llvm_value list \<Rightarrow> llvm_value list option" where
  "guardLoop M worklist visited guardedBlocks =
     (case worklist of
        [] \<Rightarrow> Some guardedBlocks
      | currentBlock # rest \<Rightarrow>
          if hasUnguardedPred M guardedBlocks currentBlock
          then guardLoop M rest visited guardedBlocks
          else (let visited' = sorted_insert currentBlock visited
                in guardLoop M
                     (rev (filter (\<lambda>next. next \<notin> set visited') (successors M currentBlock)) @ rest)
                     visited' (sorted_insert currentBlock guardedBlocks)))"

declare guardLoop.simps [code]

text \<open>
  Operand 0 of a conditional branch is its condition, operand 1 the false and operand 2 the true
  successor. The \<open>do\<close> loop takes the back of the worklist before testing it for emptiness.
\<close>

definition targetBlock :: "llvm_module \<Rightarrow> llvm_value \<Rightarrow> bool \<Rightarrow> llvm_value" where
  "targetBlock M branchInst branch =
     (if branch then getOperand M branchInst 2 else getOperand M branchInst 1)"

definition getGuardedBlocks :: "llvm_module \<Rightarrow> llvm_value \<Rightarrow> bool \<Rightarrow> llvm_value list result" where
  "getGuardedBlocks M branchInst branch =
     rassert (classOf M (getOperand M branchInst 0) = CmpInst) AssertFailed
    (rassert (isICmpEq M (getOperand M branchInst 0)) AssertFailed
      (let target = targetBlock M branchInst branch
       in if successors M target = [] then Inl EmptyAccess
          else (case guardLoop M (rev (successors M target)) [target] [target] of
                  None \<Rightarrow> Inl Diverges
                | Some guardedBlocks \<Rightarrow> Inr guardedBlocks)))"

section \<open>Reduce blocks\<close>

type_synonym reduce_cache = "(llvm_value \<times> llvm_value list) list"

partial_function (option) reduceLoop ::
  "llvm_module \<Rightarrow> llvm_value \<Rightarrow> llvm_value list \<Rightarrow> llvm_value list \<Rightarrow> llvm_value list
     \<Rightarrow> llvm_value list result option" where
  "reduceLoop M exitBlock worklist visited blocks =
     (case worklist of
        [] \<Rightarrow> Some (Inr blocks)
      | block # rest \<Rightarrow>
          (let visited' = sorted_insert block visited
           in if block = exitBlock then reduceLoop M exitBlock rest visited' blocks
              else if successors M block = [] then Some (Inl AssertFailed)
              else reduceLoop M exitBlock
                     (rev (filter (\<lambda>succBlock. succBlock \<notin> set visited') (successors M block)) @ rest)
                     visited' (blocks @ [block])))"

declare reduceLoop.simps [code]

definition computeGuardedBlocks ::
  "llvm_module \<Rightarrow> llvm_value \<Rightarrow> reduce_cache \<Rightarrow> (llvm_value list \<times> reduce_cache) result" where
  "computeGuardedBlocks M reduce cache =
     rassert (map_of cache reduce = None) AssertFailed
       (case getNextNode M reduce of
          None \<Rightarrow> Inl NullDeref
        | Some switchInst \<Rightarrow>
            rassert (classOf M switchInst = SwitchInst) AssertFailed
              (case reduceLoop M (getDefaultDest M switchInst) (rev (successors M switchInst)) [] [] of
                 None \<Rightarrow> Inl Diverges
               | Some r \<Rightarrow> rbind r (\<lambda>blocks. Inr (blocks, om_put reduce blocks cache))))"

definition getReduceBlocks ::
  "llvm_module \<Rightarrow> llvm_value \<Rightarrow> reduce_cache \<Rightarrow> (llvm_value list \<times> reduce_cache) result" where
  "getReduceBlocks M reduce cache =
     (case map_of cache reduce of
        Some blocks \<Rightarrow> Inr (blocks, cache)
      | None \<Rightarrow> computeGuardedBlocks M reduce cache)"

definition reduceContains ::
  "llvm_module \<Rightarrow> llvm_value \<Rightarrow> llvm_value \<Rightarrow> reduce_cache \<Rightarrow> (bool \<times> reduce_cache) result" where
  "reduceContains M reduce inst cache =
     rbind (getReduceBlocks M reduce cache) (\<lambda>(blocks, cache').
       Inr (getParent M inst \<in> set blocks, cache'))"

section \<open>Lastprivate blocks\<close>

text \<open>
  The blocks guarded by the "is last" flag of a loop: every branch on a comparison of the flag
  with zero, on the false side. A user of the comparison that is not a branch gives a null
  \<open>branch\<close>, which is dereferenced.
\<close>

definition addGuarded :: "llvm_module \<Rightarrow> llvm_value \<Rightarrow> llvm_value list \<Rightarrow> llvm_value list result" where
  "addGuarded M user blocks =
     (if classOf M user \<noteq> BranchInst then Inl NullDeref
      else rbind (getGuardedBlocks M user False) (\<lambda>guarded. Inr (fold sorted_insert guarded blocks)))"

definition addCmpBlocks ::
  "llvm_module \<Rightarrow> llvm_value \<times> nat \<Rightarrow> llvm_value list \<Rightarrow> llvm_value list result" where
  "addCmpBlocks M cmp blocks =
     (if snd cmp \<noteq> 0 then Inr blocks else rfold (addGuarded M) (users M (fst cmp)) blocks)"

definition addInstBlocks :: "llvm_module \<Rightarrow> llvm_value \<Rightarrow> llvm_value list \<Rightarrow> llvm_value list result" where
  "addInstBlocks M inst blocks =
     (if \<not> isCallBase M inst then Inr blocks
      else (case getCalledFunction M inst of
              None \<Rightarrow> Inr blocks
            | Some f \<Rightarrow>
                if \<not> hasName M f then Inr blocks
                else if \<not> isForStaticInit (getName M f) then Inr blocks
                else rbind (getConstCmpEqInsts M (getArgOperand M inst 3)) (\<lambda>cmps.
                       rfold (addCmpBlocks M) cmps blocks)))"

definition computeLastprivateBlocks :: "llvm_module \<Rightarrow> llvm_value \<Rightarrow> llvm_value list result" where
  "computeLastprivateBlocks M func =
     rfold (\<lambda>block. rfold (addInstBlocks M) (getInstList M block)) (getBasicBlockList M func) []"

definition lastprivateBlocks :: "llvm_module \<Rightarrow> llvm_value list result" where
  "lastprivateBlocks M =
     rfold (\<lambda>func acc. rbind (computeLastprivateBlocks M func) (\<lambda>blocks.
              Inr (fold sorted_insert blocks acc)))
       (getFunctionList M) []"

definition isGuarded :: "llvm_value list \<Rightarrow> llvm_value \<Rightarrow> bool" where
  "isGuarded lastprivate block \<longleftrightarrow> block \<in> set lastprivate"

section \<open>The measure of the worklist loops\<close>

definition wl_rel :: "'a set \<Rightarrow> (('a list \<times> 'a set) \<times> ('a list \<times> 'a set)) set" where
  "wl_rel U = inv_image (less_than <*lex*> less_than <*lex*> less_than)
     (\<lambda>(wl, v). (card (U - v), length (filter (\<lambda>x. x \<in> v) wl), length wl))"

lemma wf_wl_rel: "wf (wl_rel U)"
  by (auto simp: wl_rel_def intro!: wf_inv_image wf_lex_prod)

text \<open>Dropping a node, and visiting a node and pushing only unvisited ones, both decrease it.\<close>

lemma wl_drop: "((wl, v), (x # wl, v)) \<in> wl_rel U"
  by (simp add: wl_rel_def)

lemma wl_visit:
  assumes "finite U" and "x \<in> U"
    and "set new \<inter> insert x v = {}"
  shows "((new @ wl, insert x v), (x # wl, v)) \<in> wl_rel U"
proof (cases "x \<in> v")
  case True
  then have "filter (\<lambda>y. y \<in> v) new = []" using assms(3) by (auto simp: filter_empty_conv)
  with True show ?thesis by (simp add: wl_rel_def insert_absorb)
next
  case False
  have "U - insert x v \<subset> U - v" using assms(2) False by auto
  then have "card (U - insert x v) < card (U - v)" using assms(1) by (intro psubset_card_mono) auto
  then show ?thesis by (simp add: wl_rel_def)
qed

text \<open>A finite set of blocks that successors do not leave.\<close>

definition closedBlocks :: "llvm_module \<Rightarrow> llvm_value set \<Rightarrow> bool" where
  "closedBlocks M U \<longleftrightarrow> finite U \<and> (\<forall>b \<in> U. set (successors M b) \<subseteq> U)"

section \<open>The guarded blocks\<close>

lemma guardLoop_returns:
  assumes U: "closedBlocks M U"
  shows "set wl \<subseteq> U \<Longrightarrow> \<exists>g'. guardLoop M wl v g = Some g'"
proof (induction "(wl, set v)" arbitrary: wl v g rule: wf_induct_rule [OF wf_wl_rel [of U]])
  case (1 wl v g)
  show ?case
  proof (cases wl)
    case Nil
    then show ?thesis by (subst guardLoop.simps) simp
  next
    case (Cons x rest)
    let ?v = "sorted_insert x v"
    let ?new = "rev (filter (\<lambda>n. n \<notin> set ?v) (successors M x))"
    have U': "finite U" "x \<in> U" "set rest \<subseteq> U" "set (successors M x) \<subseteq> U"
      using U "1.prems" Cons by (auto simp: closedBlocks_def)
    have "((rest, set v), (wl, set v)) \<in> wl_rel U" unfolding Cons by (rule wl_drop)
    then have drop: "\<exists>g'. guardLoop M rest v g = Some g'" using 1 U' by blast
    have "((?new @ rest, set ?v), (wl, set v)) \<in> wl_rel U"
      unfolding Cons set_sorted_insert by (rule wl_visit [OF U'(1,2)]) auto
    moreover have "set (?new @ rest) \<subseteq> U" using U' by auto
    ultimately have visit: "\<exists>g'. guardLoop M (?new @ rest) ?v (sorted_insert x g) = Some g'"
      using 1 by blast
    from drop visit show ?thesis by (subst guardLoop.simps) (simp add: Cons Let_def)
  qed
qed

text \<open>Every guarded block but the target has only guarded predecessors.\<close>

definition guardInv :: "llvm_module \<Rightarrow> llvm_value \<Rightarrow> llvm_value list \<Rightarrow> bool" where
  "guardInv M target g \<longleftrightarrow> target \<in> set g \<and>
     (\<forall>b \<in> set g. b \<noteq> target \<longrightarrow> set (predecessors M b) \<subseteq> set g)"

lemma guardInv_insert:
  "guardInv M t g \<Longrightarrow> \<not> hasUnguardedPred M g x \<Longrightarrow> guardInv M t (sorted_insert x g)"
  by (auto simp: guardInv_def hasUnguardedPred_def list_ex_iff)

lemma guardLoop_inv:
  "guardLoop M wl v g = Some g' \<Longrightarrow> guardInv M t g \<longrightarrow> guardInv M t g'"
proof (erule guardLoop.raw_induct [rotated], goal_cases)
  case (1 loop M wl v g r)
  then show ?case by (fastforce simp: Let_def guardInv_insert split: list.splits if_splits)
qed

lemma getGuardedBlocks_inv:
  "getGuardedBlocks M br flag = Inr g \<Longrightarrow> guardInv M (targetBlock M br flag) g"
  by (auto simp: getGuardedBlocks_def Let_def guardInv_def [of _ _ "[_]"]
    dest!: guardLoop_inv [where t = "targetBlock M br flag"] split: if_splits option.splits)

text \<open>A path of the control-flow graph into the guarded blocks passes the target.\<close>

definition cfgRel :: "llvm_module \<Rightarrow> llvm_value rel" where
  "cfgRel M = {(p, b). p \<in> set (predecessors M b)}"

lemma guarded_dominated:
  assumes inv: "guardInv M t g" and path: "(x, b) \<in> {(p, q) \<in> cfgRel M. q \<noteq> t}\<^sup>*" and b: "b \<in> set g"
  shows "x \<in> set g"
  using path b
proof (induction rule: rtrancl_induct)
  case (step y z)
  then have "y \<in> set (predecessors M z)" "z \<noteq> t" by (auto simp: cfgRel_def)
  with step inv show ?case by (auto simp: guardInv_def)
qed

section \<open>The reduce blocks\<close>

lemma reduceLoop_returns:
  assumes U: "closedBlocks M U" and suc: "\<forall>b \<in> U - {e}. successors M b \<noteq> []"
  shows "set wl \<subseteq> U \<Longrightarrow> \<exists>blocks. reduceLoop M e wl v bs = Some (Inr blocks)"
proof (induction "(wl, set v)" arbitrary: wl v bs rule: wf_induct_rule [OF wf_wl_rel [of U]])
  case (1 wl v bs)
  show ?case
  proof (cases wl)
    case Nil
    then show ?thesis by (subst reduceLoop.simps) simp
  next
    case (Cons x rest)
    let ?v = "sorted_insert x v"
    let ?new = "rev (filter (\<lambda>n. n \<notin> set ?v) (successors M x))"
    have U': "finite U" "x \<in> U" "set rest \<subseteq> U" "set (successors M x) \<subseteq> U"
      using U "1.prems" Cons by (auto simp: closedBlocks_def)
    have "(([] @ rest, set ?v), (wl, set v)) \<in> wl_rel U"
      unfolding Cons set_sorted_insert by (rule wl_visit [OF U'(1,2)]) auto
    then have exit: "\<exists>r. reduceLoop M e rest ?v bs = Some (Inr r)" using 1 U' by simp
    have "((?new @ rest, set ?v), (wl, set v)) \<in> wl_rel U"
      unfolding Cons set_sorted_insert by (rule wl_visit [OF U'(1,2)]) auto
    moreover have "set (?new @ rest) \<subseteq> U" using U' by auto
    ultimately have "\<exists>r. reduceLoop M e (?new @ rest) ?v (bs @ [x]) = Some (Inr r)" using 1 by blast
    with exit suc U'(2) show ?thesis by (subst reduceLoop.simps) (auto simp: Cons Let_def)
  qed
qed

text \<open>Blocks reachable from others without leaving through the exit block.\<close>

definition stepRel :: "llvm_module \<Rightarrow> llvm_value \<Rightarrow> llvm_value rel" where
  "stepRel M e = {(p, b). p \<noteq> e \<and> b \<in> set (successors M p)}"

definition regionBlocks :: "llvm_module \<Rightarrow> llvm_value \<Rightarrow> llvm_value set \<Rightarrow> llvm_value set" where
  "regionBlocks M e S = (stepRel M e)\<^sup>* `` S - {e}"

lemma reduceStep_cases:
  assumes "(case wl of [] \<Rightarrow> Some (Inr bs) | block # rest \<Rightarrow>
          (let visited' = sorted_insert block v
           in if block = e then loop M e rest visited' bs
              else if successors M block = [] then Some (Inl AssertFailed)
              else loop M e (rev (filter (\<lambda>succBlock. succBlock \<notin> set visited') (successors M block)) @ rest)
                     visited' (bs @ [block]))) = Some r"
  obtains (none) "wl = []" "r = Inr bs"
    | (exit) x rest where "wl = x # rest" "x = e" "loop M e rest (sorted_insert x v) bs = Some r"
    | (fail) x rest where "wl = x # rest" "r = Inl AssertFailed"
    | (visit) x rest new where "wl = x # rest" "x \<noteq> e"
        "new = rev (filter (\<lambda>n. n \<notin> set (sorted_insert x v)) (successors M x))"
        "loop M e (new @ rest) (sorted_insert x v) (bs @ [x]) = Some r"
proof (cases wl)
  case Nil
  then show ?thesis using assms none by simp
next
  case (Cons x rest)
  note split = assms [unfolded Cons list.case Let_def]
  show ?thesis
  proof (cases "x = e")
    case True
    then show ?thesis using split exit [OF Cons] by simp
  next
    case False
    show ?thesis
    proof (cases "successors M x = []")
      case True
      with False split have "r = Inl AssertFailed" by simp
      with fail [OF Cons] show ?thesis by blast
    next
      case suc: False
      with False split have "loop M e
          (rev (filter (\<lambda>n. n \<notin> set (sorted_insert x v)) (successors M x)) @ rest)
          (sorted_insert x v) (bs @ [x]) = Some r" by (simp only: if_False)
      with visit [OF Cons False refl] show ?thesis by blast
    qed
  qed
qed

lemma reduceLoop_sound:
  "reduceLoop M e wl v bs = Some r \<Longrightarrow> (\<forall>blocks. r = Inr blocks \<longrightarrow>
     set blocks \<subseteq> set bs \<union> regionBlocks M e (set wl))"
proof (erule reduceLoop.raw_induct [rotated], goal_cases)
  case (1 loop M e wl v bs r)
  from 1(2) show ?case
  proof (cases rule: reduceStep_cases)
    case (exit x rest)
    from 1(1) [OF exit(3)] exit(1,2) show ?thesis by (auto simp: regionBlocks_def)
  next
    case (visit x rest new)
    have "(stepRel M e)\<^sup>* `` set new \<subseteq> (stepRel M e)\<^sup>* `` {x}"
      using visit(2,3) by (auto simp: stepRel_def intro: converse_rtrancl_into_rtrancl)
    then have "set (bs @ [x]) \<union> regionBlocks M e (set (new @ rest)) \<subseteq>
        set bs \<union> regionBlocks M e (set wl)"
      using visit(1,2) by (auto simp: regionBlocks_def)
    with 1(1) [OF visit(4)] show ?thesis by blast
  qed simp_all
qed

text \<open>The visited blocks at the end are closed under the steps.\<close>

definition reduceClosed :: "llvm_module \<Rightarrow> llvm_value \<Rightarrow> llvm_value set \<Rightarrow> llvm_value list \<Rightarrow> bool" where
  "reduceClosed M e S blocks \<longleftrightarrow> (\<exists>v'. S \<subseteq> v' \<and> stepRel M e `` v' \<subseteq> v' \<and> v' - {e} \<subseteq> set blocks)"

lemma reduceClosed_mono: "reduceClosed M e T blocks \<Longrightarrow> S \<subseteq> T \<Longrightarrow> reduceClosed M e S blocks"
  unfolding reduceClosed_def by (meson subset_trans)

definition reducePre :: "llvm_module \<Rightarrow> llvm_value \<Rightarrow> llvm_value set \<Rightarrow> llvm_value set \<Rightarrow> llvm_value set \<Rightarrow> bool" where
  "reducePre M e wl v bs \<longleftrightarrow> v - {e} \<subseteq> bs \<and> stepRel M e `` v \<subseteq> v \<union> wl"

lemma reducePre_exit:
  assumes "reducePre M e (insert e rest) v bs"
  shows "reducePre M e rest (insert e v) bs"
proof -
  have "b \<in> insert e v \<union> rest" if pb: "(p, b) \<in> stepRel M e" "p \<in> insert e v" for p b
  proof -
    have "p \<noteq> e" using pb(1) by (simp add: stepRel_def)
    then have "b \<in> stepRel M e `` v" using pb by blast
    then show ?thesis using assms unfolding reducePre_def by blast
  qed
  then have "stepRel M e `` insert e v \<subseteq> insert e v \<union> rest" by (intro subsetI) (erule ImageE)
  moreover have "insert e v - {e} \<subseteq> bs" using assms unfolding reducePre_def by blast
  ultimately show ?thesis unfolding reducePre_def by blast
qed

lemma reducePre_visit:
  assumes "reducePre M e (insert x rest) v bs"
  shows "reducePre M e ({n \<in> set (successors M x). n \<notin> insert x v} \<union> rest) (insert x v) (insert x bs)"
    (is "reducePre M e (?new \<union> rest) _ _")
proof -
  have "b \<in> insert x v \<union> (?new \<union> rest)" if pb: "(p, b) \<in> stepRel M e" "p \<in> insert x v" for p b
  proof (cases "p = x")
    case True
    then have "b \<in> set (successors M x)" using pb(1) by (simp add: stepRel_def)
    then show ?thesis by blast
  next
    case False
    then have "b \<in> stepRel M e `` v" using pb by blast
    then show ?thesis using assms unfolding reducePre_def by blast
  qed
  then have "stepRel M e `` insert x v \<subseteq> insert x v \<union> (?new \<union> rest)" by (intro subsetI) (erule ImageE)
  moreover have "insert x v - {e} \<subseteq> insert x bs" using assms unfolding reducePre_def by blast
  ultimately show ?thesis unfolding reducePre_def by blast
qed

lemma reduceLoop_complete:
  "reduceLoop M e wl v bs = Some r \<Longrightarrow> (\<forall>blocks. r = Inr blocks \<longrightarrow>
     reducePre M e (set wl) (set v) (set bs) \<longrightarrow> reduceClosed M e (set v \<union> set wl) blocks)"
proof (erule reduceLoop.raw_induct [rotated], goal_cases)
  case (1 loop M e wl v bs r)
  from 1(2) show ?case
  proof (cases rule: reduceStep_cases)
    case none
    then show ?thesis by (auto simp: reduceClosed_def reducePre_def)
  next
    case (exit x rest)
    show ?thesis
    proof (intro allI impI)
      fix blocks assume "r = Inr blocks" and pre: "reducePre M e (set wl) (set v) (set bs)"
      with 1(1) [OF exit(3)] reducePre_exit [of M e "set rest" "set v" "set bs"] exit(1,2)
      have "reduceClosed M e (insert x (set v) \<union> set rest) blocks" by simp
      then show "reduceClosed M e (set v \<union> set wl) blocks"
        by (rule reduceClosed_mono) (auto simp: exit(1))
    qed
  next
    case (visit x rest new)
    have new: "set new = {n \<in> set (successors M x). n \<notin> insert x (set v)}" by (auto simp: visit(3))
    show ?thesis
    proof (intro allI impI)
      fix blocks assume "r = Inr blocks" and pre: "reducePre M e (set wl) (set v) (set bs)"
      with 1(1) [OF visit(4)] reducePre_visit [of M e x "set rest" "set v" "set bs"] visit(1) new
      have "reduceClosed M e (insert x (set v) \<union> (set new \<union> set rest)) blocks" by simp
      then show "reduceClosed M e (set v \<union> set wl) blocks"
        by (rule reduceClosed_mono) (auto simp: visit(1))
    qed
  qed simp
qed

lemma reduceLoop_blocks:
  assumes "reduceLoop M e wl [] [] = Some (Inr blocks)"
  shows "set blocks = regionBlocks M e (set wl)"
proof
  show "set blocks \<subseteq> regionBlocks M e (set wl)" using reduceLoop_sound [OF assms] by simp
  have "reducePre M e (set wl) {} {}" by (auto simp: reducePre_def)
  with reduceLoop_complete [OF assms] have "reduceClosed M e (set wl) blocks" by simp
  then obtain v' where v': "set wl \<subseteq> v'" "stepRel M e `` v' \<subseteq> v'" "v' - {e} \<subseteq> set blocks"
    by (auto simp: reduceClosed_def)
  have "(stepRel M e)\<^sup>* `` set wl \<subseteq> (stepRel M e)\<^sup>* `` v'" using v'(1) by auto
  also have "\<dots> = v'" using v'(2) by (rule Image_closed_trancl)
  finally show "regionBlocks M e (set wl) \<subseteq> set blocks" using v'(3) by (auto simp: regionBlocks_def)
qed

text \<open>The cache of reduce blocks.\<close>

definition reduceRegion :: "llvm_module \<Rightarrow> llvm_value \<Rightarrow> llvm_value set" where
  "reduceRegion M reduce =
     (case getNextNode M reduce of
        None \<Rightarrow> {}
      | Some switchInst \<Rightarrow>
          regionBlocks M (getDefaultDest M switchInst) (set (successors M switchInst)))"

definition reduce_cache_sound :: "llvm_module \<Rightarrow> reduce_cache \<Rightarrow> bool" where
  "reduce_cache_sound M cache \<longleftrightarrow> om_sorted cache \<and>
     (\<forall>r blocks. map_of cache r = Some blocks \<longrightarrow> set blocks = reduceRegion M r)"

lemma computeGuardedBlocks_exact:
  assumes "computeGuardedBlocks M r cache = Inr (blocks, cache')"
  shows "set blocks = reduceRegion M r \<and> cache' = om_put r blocks cache"
proof -
  from assms obtain sw where sw: "getNextNode M r = Some sw"
    by (auto simp: computeGuardedBlocks_def split: option.splits)
  from assms have "reduceLoop M (getDefaultDest M sw) (rev (successors M sw)) [] [] = Some (Inr blocks)"
    and cache: "cache' = om_put r blocks cache"
    by (auto simp: computeGuardedBlocks_def sw split: option.splits)
  from reduceLoop_blocks [OF this(1)] cache show ?thesis by (simp add: reduceRegion_def sw)
qed

lemma getReduceBlocks_exact:
  assumes sound: "reduce_cache_sound M cache" and r: "getReduceBlocks M r cache = Inr (blocks, cache')"
  shows "set blocks = reduceRegion M r \<and> reduce_cache_sound M cache'"
proof (cases "map_of cache r")
  case None
  then have "computeGuardedBlocks M r cache = Inr (blocks, cache')" using r by (simp add: getReduceBlocks_def)
  from computeGuardedBlocks_exact [OF this] sound show ?thesis
    by (auto simp: reduce_cache_sound_def om_sorted_put)
next
  case (Some b)
  then show ?thesis using sound r by (auto simp: getReduceBlocks_def reduce_cache_sound_def)
qed

section \<open>Following loads to comparisons\<close>

definition loadRel :: "llvm_module \<Rightarrow> llvm_value rel" where
  "loadRel M = {(a, b). classOf M a = LoadInst \<and> b \<in> set (users M a)}"

lemma constCmpLoop_returns:
  assumes wf: "wf ((loadRel M)\<inverse>)"
  shows "\<exists>r. constCmpLoop M wl acc = Some r"
proof (induction "mset wl" arbitrary: wl acc rule: wf_induct_rule [OF wf_mult [OF wf]])
  case (1 wl acc)
  show ?case
  proof (cases wl)
    case Nil
    then show ?thesis by (subst constCmpLoop.simps) simp
  next
    case (Cons x rest)
    have drop: "(mset rest, mset wl) \<in> mult ((loadRel M)\<inverse>)"
      using one_step_implies_mult [of "{#x#}" "{#}" _ "mset rest"] by (simp add: Cons)
    have "(mset (rev (users M x) @ rest), mset wl) \<in> mult ((loadRel M)\<inverse>)" if "classOf M x = LoadInst"
    proof -
      have "(mset rest + mset (users M x), mset rest + {#x#}) \<in> mult ((loadRel M)\<inverse>)"
        by (rule one_step_implies_mult) (auto simp: loadRel_def that)
      then show ?thesis by (simp add: Cons union_commute)
    qed
    then have "classOf M x = LoadInst \<Longrightarrow> \<exists>r. constCmpLoop M (rev (users M x) @ rest) acc = Some r"
      using 1 by blast
    moreover have "\<exists>r. constCmpLoop M rest (acc @ constCmpOf M x) = Some r" using 1 drop by blast
    ultimately show ?thesis by (subst constCmpLoop.simps) (simp add: Cons)
  qed
qed

definition flagCmps :: "llvm_module \<Rightarrow> llvm_value set \<Rightarrow> (llvm_value \<times> nat) set" where
  "flagCmps M S = {p. \<exists>u \<in> (loadRel M)\<^sup>* `` S. p \<in> set (constCmpOf M u)}"

lemma constCmpOf_load: "classOf M u = LoadInst \<Longrightarrow> constCmpOf M u = []"
  by (simp add: constCmpOf_def)

lemma flagCmps_load:
  assumes "classOf M x = LoadInst"
  shows "flagCmps M (insert x S) = flagCmps M (set (users M x) \<union> S)"
proof -
  have "(loadRel M)\<^sup>* `` {x} = insert x ((loadRel M)\<^sup>* `` set (users M x))"
    using assms by (auto simp: loadRel_def elim: converse_rtranclE intro: converse_rtrancl_into_rtrancl)
  then show ?thesis
    using constCmpOf_load [OF assms] by (fastforce simp: flagCmps_def)
qed

lemma flagCmps_other:
  assumes "classOf M x \<noteq> LoadInst"
  shows "flagCmps M (insert x S) = set (constCmpOf M x) \<union> flagCmps M S"
proof -
  have "(loadRel M)\<^sup>* `` {x} = {x}"
    using assms by (auto simp: loadRel_def elim: converse_rtranclE)
  then show ?thesis by (fastforce simp: flagCmps_def)
qed

lemma constCmpLoop_exact:
  "constCmpLoop M wl acc = Some r \<Longrightarrow> set r = set acc \<union> flagCmps M (set wl)"
proof (erule constCmpLoop.raw_induct [rotated], goal_cases)
  case (1 loop M wl acc r)
  show ?case
  proof (cases wl)
    case Nil
    with 1 show ?thesis by (auto simp: flagCmps_def)
  next
    case (Cons x rest)
    show ?thesis
    proof (cases "classOf M x = LoadInst")
      case True
      with 1(2) Cons have "loop M (rev (users M x) @ rest) acc = Some r" by simp
      from 1(1) [OF this] Cons flagCmps_load [OF True, of "set rest"] show ?thesis by simp
    next
      case False
      with 1(2) Cons have "loop M rest (acc @ constCmpOf M x) = Some r" by simp
      from 1(1) [OF this] Cons flagCmps_other [OF False, of "set rest"] show ?thesis by auto
    qed
  qed
qed

section \<open>Properties\<close>

text \<open>
  C38. The blocks called guarded by a branch are dominated by its target: the target is one of
  them, and no path of the control-flow graph enters any of them from outside without passing
  the target.
\<close>

theorem guarded_blocks_dominated:
  assumes "getGuardedBlocks M br flag = Inr g"
  shows "targetBlock M br flag \<in> set g \<and>
    (\<forall>b \<in> set g. \<forall>x. x \<notin> set g \<longrightarrow>
       (x, b) \<notin> {(p, q) \<in> cfgRel M. q \<noteq> targetBlock M br flag}\<^sup>*)"
proof
  note inv = getGuardedBlocks_inv [OF assms]
  show "targetBlock M br flag \<in> set g" using inv by (simp add: guardInv_def)
  show "\<forall>b \<in> set g. \<forall>x. x \<notin> set g \<longrightarrow>
       (x, b) \<notin> {(p, q) \<in> cfgRel M. q \<noteq> targetBlock M br flag}\<^sup>*"
    using guarded_dominated [OF inv] by blast
qed

text \<open>
  C39. With a sound cache, an instruction is in the code of a reduction exactly when its block
  can be reached from the switch after the reduce call without leaving through the default
  block, and the cache stays sound.
\<close>

theorem reduceContains_exact:
  assumes "reduce_cache_sound M cache" and "reduceContains M reduce inst cache = Inr (b, cache')"
  shows "(b \<longleftrightarrow> getParent M inst \<in> reduceRegion M reduce) \<and> reduce_cache_sound M cache'"
  using assms by (auto simp: reduceContains_def dest: getReduceBlocks_exact)

text \<open>
  On a finite control-flow graph the searches return: the guarded blocks of a comparison
  branch are found when its target has a successor, and the blocks of a reduction when every
  block but the default one has a successor.
\<close>

theorem block_searches_return:
  assumes "closedBlocks M U"
  shows "(classOf M (getOperand M br 0) = CmpInst \<and> isICmpEq M (getOperand M br 0) \<and>
      targetBlock M br flag \<in> U \<and> successors M (targetBlock M br flag) \<noteq> [] \<longrightarrow>
      (\<exists>g. getGuardedBlocks M br flag = Inr g)) \<and>
    (getNextNode M reduce = Some sw \<and> classOf M sw = SwitchInst \<and> set (successors M sw) \<subseteq> U \<and>
      map_of cache reduce = None \<and> (\<forall>b \<in> U - {getDefaultDest M sw}. successors M b \<noteq> []) \<longrightarrow>
      (\<exists>r. computeGuardedBlocks M reduce cache = Inr r))"
proof (intro conjI impI; elim conjE)
  assume "classOf M (getOperand M br 0) = CmpInst" "isICmpEq M (getOperand M br 0)"
    and t: "targetBlock M br flag \<in> U" "successors M (targetBlock M br flag) \<noteq> []"
  moreover have "\<exists>g. guardLoop M (rev (successors M (targetBlock M br flag)))
      [targetBlock M br flag] [targetBlock M br flag] = Some g"
    by (rule guardLoop_returns [OF assms]) (use assms t in \<open>auto simp: closedBlocks_def\<close>)
  ultimately show "\<exists>g. getGuardedBlocks M br flag = Inr g"
    by (auto simp: getGuardedBlocks_def Let_def)
next
  assume "getNextNode M reduce = Some sw" "classOf M sw = SwitchInst" "map_of cache reduce = None"
    and sub: "set (successors M sw) \<subseteq> U" and "\<forall>b \<in> U - {getDefaultDest M sw}. successors M b \<noteq> []"
  moreover from reduceLoop_returns [OF assms this(5), of "rev (successors M sw)"] sub
  have "\<exists>r. reduceLoop M (getDefaultDest M sw) (rev (successors M sw)) [] [] = Some (Inr r)" by simp
  ultimately show "\<exists>r. computeGuardedBlocks M reduce cache = Inr r"
    by (auto simp: computeGuardedBlocks_def)
qed

text \<open>
  When loads do not feed each other in a cycle, the comparisons of a flag are found: the
  search returns exactly the equality comparisons with a constant that use the flag or a value
  loaded from it.
\<close>

lemma const_cmps_exact:
  assumes "wf ((loadRel M)\<inverse>)"
  shows "\<exists>r. getConstCmpEqInsts M value = Inr r \<and> set r = flagCmps M (set (users M value))"
proof -
  from constCmpLoop_returns [OF assms] obtain r where r: "constCmpLoop M (rev (users M value)) [] = Some r"
    by blast
  from constCmpLoop_exact [OF r] r show ?thesis by (simp add: getConstCmpEqInsts_def)
qed

subsection \<open>Witnesses\<close>

text \<open>
  A diamond: block 1 branches (instruction 30 on comparison 31) to 2 and 3, 2 continues with 4,
  and 4 and 3 meet in 5. Reduce call 40 is followed by switch 41 to blocks 2, 3 and default 5.
  The flag 50 is loaded by 51, whose user 31 compares it with the constant 52.
\<close>

definition cfg_module :: llvm_module where
  "cfg_module = empty_module
     \<lparr> classOf := (\<lambda>v. if v = 31 then CmpInst else if v = 30 then BranchInst
          else if v = 41 then SwitchInst else if v = 51 then LoadInst
          else if v = 52 then ConstantInt else OtherValue),
       isICmpEq := (\<lambda>v. v = 31),
       getOperand := (\<lambda>v n. if v = 30 then [31, 2, 3] ! n else if v = 31 then [51, 52] ! n else v),
       getZExtValue := (\<lambda>v. 0),
       users := (\<lambda>v. if v = 50 then [51] else if v = 51 then [31] else []),
       successors := (\<lambda>v. if v = 1 then [2, 3] else if v = 2 then [4] else if v = 3 \<or> v = 4 then [5]
          else if v = 41 then [5, 2, 3] else []),
       predecessors := (\<lambda>v. if v = 2 \<or> v = 3 then [1] else if v = 4 then [2]
          else if v = 5 then [3, 4] else []),
       getNextNode := (\<lambda>v. if v = 40 then Some 41 else None),
       getDefaultDest := (\<lambda>v. 5), getParent := (\<lambda>v. 4) \<rparr>"

lemma guarded_blocks_dominated_witness:
  "(1, 4) \<notin> {(p, q) \<in> cfgRel cfg_module. q \<noteq> 2}\<^sup>*"
proof -
  have "getGuardedBlocks cfg_module 30 False = Inr [2, 4]" by code_simp
  from guarded_blocks_dominated [OF this] show ?thesis
    by (simp add: targetBlock_def cfg_module_def)
qed

lemma reduceContains_exact_witness: "getParent cfg_module 7 \<in> reduceRegion cfg_module 40"
proof -
  have "reduce_cache_sound cfg_module []" by (simp add: reduce_cache_sound_def)
  moreover have "reduceContains cfg_module 40 7 [] = Inr (True, [(40, [3, 2, 4])])" by code_simp
  ultimately show ?thesis using reduceContains_exact by blast
qed

lemma block_searches_return_witness:
  "(\<exists>g. getGuardedBlocks cfg_module 30 False = Inr g) \<and>
   (\<exists>r. computeGuardedBlocks cfg_module 40 [] = Inr r)"
proof -
  have U: "closedBlocks cfg_module {2, 3, 4, 5}" by (simp add: closedBlocks_def cfg_module_def)
  have 1: "classOf cfg_module (getOperand cfg_module 30 0) = CmpInst"
    "isICmpEq cfg_module (getOperand cfg_module 30 0)" "targetBlock cfg_module 30 False \<in> {2, 3, 4, 5}"
    "successors cfg_module (targetBlock cfg_module 30 False) \<noteq> []"
    by (simp_all add: cfg_module_def targetBlock_def)
  have 2: "getNextNode cfg_module 40 = Some 41" "classOf cfg_module 41 = SwitchInst"
    "set (successors cfg_module 41) \<subseteq> {2, 3, 4, 5}" "map_of ([] :: reduce_cache) 40 = None"
    "\<forall>b \<in> {2, 3, 4, 5} - {getDefaultDest cfg_module 41}. successors cfg_module b \<noteq> []"
    by (auto simp: cfg_module_def)
  from block_searches_return [OF U, of 30 False 40 41 "[]"] 1 2 show ?thesis by blast
qed

lemma const_cmps_exact_witness:
  "\<exists>r. getConstCmpEqInsts cfg_module 50 = Inr r \<and> set r = flagCmps cfg_module {51}"
proof -
  have "(loadRel cfg_module)\<inverse> = {(31, 51)}" by (auto simp: loadRel_def cfg_module_def split: if_splits)
  then have "wf ((loadRel cfg_module)\<inverse>)" by (simp add: wf_insert)
  from const_cmps_exact [OF this, of 50] show ?thesis by (simp add: cfg_module_def)
qed

end
