(* ===== verification/OpenMPRegions.thy ===== *)
theory OpenMPRegions
  imports TraceModel OpenMPBlocks
begin

text \<open>
  \<open>OpenMPAnalysis\<close> (src/Analysis/OpenMPAnalysis.h and .cpp): the regions of a thread's trace
  that pairs of start and end events delimit, and the tests that discard pairs of accesses of
  one parallel region. The block searches they use are in OpenMPBlocks; the array index
  analysis (src/Analysis/SimpleArrayAnalysis.cpp) is a parameter.
\<close>

section \<open>Regions\<close>

record region =
  regionStart :: nat
  regionEnd :: nat
  regionThread :: thread_trace

definition contains :: "region \<Rightarrow> nat \<Rightarrow> bool" where
  "contains r e \<longleftrightarrow> regionEnd r \<ge> e \<and> e \<ge> regionStart r"

definition sameAs :: "region \<Rightarrow> region \<Rightarrow> bool result" where
  "sameAs r other =
     rbind (ttGetEvent (regionThread r) (regionStart r)) (\<lambda>s.
     rbind (ttGetEvent (regionThread other) (regionStart other)) (\<lambda>s'.
       if evInst s \<noteq> evInst s' then Inr False
       else rbind (ttGetEvent (regionThread r) (regionEnd r)) (\<lambda>e.
            rbind (ttGetEvent (regionThread other) (regionEnd other)) (\<lambda>e'.
              Inr (evInst e = evInst e')))))"

definition regionEndLessThan :: "region \<Rightarrow> region \<Rightarrow> bool" where
  "regionEndLessThan region1 region2 \<longleftrightarrow> regionEnd region1 < regionEnd region2"

fun regionsLoop ::
  "ir_type \<Rightarrow> ir_type \<Rightarrow> thread_trace \<Rightarrow> event list \<Rightarrow> nat option \<Rightarrow> region list \<Rightarrow> region list result"
where
  "regionsLoop S E thread [] start regions = Inr regions"
| "regionsLoop S E thread (event # events) start regions =
     (if evIRType event = S then
        rassert (start = None) AssertFailed
          (regionsLoop S E thread events (Some (evID event)) regions)
      else if evIRType event = E then
        (case start of
           None \<Rightarrow> Inl AssertFailed
         | Some s \<Rightarrow>
             regionsLoop S E thread events None
               (regions @ [\<lparr> regionStart = s, regionEnd = evID event, regionThread = thread \<rparr>]))
      else regionsLoop S E thread events start regions)"

definition getRegions :: "ir_type \<Rightarrow> ir_type \<Rightarrow> thread_trace \<Rightarrow> region list result" where
  "getRegions S E thread = regionsLoop S E thread (getEvents thread) None []"

definition getLoopRegions :: "thread_trace \<Rightarrow> region list result" where
  "getLoopRegions = getRegions TyOpenMPForInit TyOpenMPForFini"

section \<open>The same parallel region\<close>

text \<open>
  The spawn site of an event's thread; for a task the enclosing OpenMP fork, found by going up
  the spawning threads. The loop ends because spawning threads are older (\<open>wf_spawn_tree\<close>).
\<close>

partial_function (option) rootLoop :: "program_trace \<Rightarrow> event \<Rightarrow> event option option" where
  "rootLoop P eSpawn =
     (if evIRType eSpawn \<noteq> TyOpenMPFork
      then (case spawnSite (evThread P eSpawn) of
              None \<Rightarrow> Some None
            | Some parentSpawn \<Rightarrow> rootLoop P parentSpawn)
      else Some (Some eSpawn))"

declare rootLoop.simps [code]

definition getRootSpawnSite :: "program_trace \<Rightarrow> event \<Rightarrow> event option result" where
  "getRootSpawnSite P event =
     (case spawnSite (evThread P event) of
        None \<Rightarrow> Inr None
      | Some eSpawn \<Rightarrow>
          if evIRType eSpawn = TyOpenMPTaskFork
          then (case rootLoop P eSpawn of None \<Rightarrow> Inl Diverges | Some r \<Rightarrow> Inr r)
          else Inr (Some eSpawn))"

definition fromSameParallelRegion :: "program_trace \<Rightarrow> event \<Rightarrow> event \<Rightarrow> bool result" where
  "fromSameParallelRegion P event1 event2 =
     rbind (getRootSpawnSite P event1) (\<lambda>e1Spawn.
       case e1Spawn of
         None \<Rightarrow> Inr False
       | Some s1 \<Rightarrow>
           rbind (getRootSpawnSite P event2) (\<lambda>e2Spawn.
             case e2Spawn of
               None \<Rightarrow> Inr False
             | Some s2 \<Rightarrow>
                 if evTid s1 \<noteq> evTid s2 then Inr False
                 else (let eid1 = evID s1; eid2 = evID s2;
                           diff = (if eid1 > eid2 then eid1 - eid2 else eid2 - eid1)
                       in Inr (diff = 1))))"

section \<open>Tests on regions\<close>

partial_function (option) containingLoop ::
  "program_trace \<Rightarrow> ir_type \<Rightarrow> ir_type \<Rightarrow> event \<Rightarrow> region option result option" where
  "containingLoop P S E event =
     (case getRegions S E (evThread P event) of
        Inl e \<Rightarrow> Some (Inl e)
      | Inr regions \<Rightarrow>
          if regions = [] then
            (case spawnSite (evThread P event) of
               None \<Rightarrow> Some (Inl BadOptional)
             | Some parent \<Rightarrow>
                 if evIRType parent = TyOpenMPTaskFork then containingLoop P S E parent
                 else Some (Inr None))
          else Some (Inr (find (\<lambda>region. contains region (evID event)) regions)))"

declare containingLoop.simps [code]

definition getContainingRegion ::
  "program_trace \<Rightarrow> ir_type \<Rightarrow> ir_type \<Rightarrow> event \<Rightarrow> region option result" where
  "getContainingRegion P S E event =
     (case containingLoop P S E event of None \<Rightarrow> Inl Diverges | Some r \<Rightarrow> r)"

fun findIndex :: "('a \<Rightarrow> bool) \<Rightarrow> 'a list \<Rightarrow> nat option" where
  "findIndex Q [] = None"
| "findIndex Q (x # xs) = (if Q x then Some 0 else map_option Suc (findIndex Q xs))"

definition getRegionID :: "program_trace \<Rightarrow> ir_type \<Rightarrow> ir_type \<Rightarrow> event \<Rightarrow> nat option result" where
  "getRegionID P S E event =
     rbind (getRegions S E (evThread P event)) (\<lambda>regions.
       Inr (findIndex (\<lambda>region. contains region (evID event)) regions))"

definition assertSameRegion :: "program_trace \<Rightarrow> event \<Rightarrow> event \<Rightarrow> 'a result \<Rightarrow> 'a result" where
  "assertSameRegion P event1 event2 m =
     rbind (fromSameParallelRegion P event1 event2) (\<lambda>b. rassert b AssertFailed m)"

definition inSame :: "program_trace \<Rightarrow> ir_type \<Rightarrow> ir_type \<Rightarrow> event \<Rightarrow> event \<Rightarrow> bool result" where
  "inSame P S E event1 event2 =
     assertSameRegion P event1 event2
       (rbind (getRegionID P S E event1) (\<lambda>region1.
          rbind (getRegionID P S E event2) (\<lambda>region2.
            case (region1, region2) of
              (Some i, Some j) \<Rightarrow> Inr (i = j)
            | _ \<Rightarrow> Inr False)))"

definition getGuardedTID :: "llvm_module \<Rightarrow> region \<Rightarrow> nat \<Rightarrow> nat result" where
  "getGuardedTID M r eid =
     rbind (ttGetEvent (regionThread r) eid) (\<lambda>e.
       rassert (classOf M (evInst e) = CallInst) AssertFailed
         (let guardedTID = getArgOperand M (evInst e) 0
          in rassert (classOf M guardedTID = ConstantInt) AssertFailed
               (Inr (getZExtValue M guardedTID))))"

definition assertSameGuardedTID :: "llvm_module \<Rightarrow> region \<Rightarrow> 'a result \<Rightarrow> 'a result" where
  "assertSameGuardedTID M r m =
     rbind (getGuardedTID M r (regionStart r)) (\<lambda>s.
       rbind (getGuardedTID M r (regionEnd r)) (\<lambda>e. rassert (s = e) AssertFailed m))"

definition haveSameTID :: "program_trace \<Rightarrow> ir_type \<Rightarrow> ir_type \<Rightarrow> event \<Rightarrow> event \<Rightarrow> bool result" where
  "haveSameTID P S E event1 event2 =
     assertSameRegion P event1 event2
       (rbind (getContainingRegion P S E event1) (\<lambda>region1.
          rbind (getContainingRegion P S E event2) (\<lambda>region2.
            case (region1, region2) of
              (Some r1, Some r2) \<Rightarrow>
                assertSameGuardedTID (ptModule P) r1
                  (assertSameGuardedTID (ptModule P) r2
                    (rbind (getGuardedTID (ptModule P) r1 (regionStart r1)) (\<lambda>t1.
                       rbind (getGuardedTID (ptModule P) r2 (regionStart r2)) (\<lambda>t2.
                         Inr (t1 = t2)))))
            | _ \<Rightarrow> Inr False)))"

definition inSameSingleBlock :: "program_trace \<Rightarrow> event \<Rightarrow> event \<Rightarrow> bool result" where
  "inSameSingleBlock P = inSame P TyOpenMPSingleStart TyOpenMPSingleEnd"

definition guardedBySameTID :: "program_trace \<Rightarrow> event \<Rightarrow> event \<Rightarrow> bool result" where
  "guardedBySameTID P =
     haveSameTID P TyOpenMPGetThreadNumGuardStart TyOpenMPGetThreadNumGuardEnd"

section \<open>Loops\<close>

type_synonym loop_cache = "(thread_id \<times> region list) list"

definition getOmpForLoops :: "thread_trace \<Rightarrow> loop_cache \<Rightarrow> (region list \<times> loop_cache) result" where
  "getOmpForLoops thread cache =
     (case map_of cache (ttID thread) of
        Some regions \<Rightarrow> Inr (regions, cache)
      | None \<Rightarrow>
          rbind (getLoopRegions thread) (\<lambda>regions.
            Inr (regions, om_put (ttID thread) regions cache)))"

definition inParallelFor :: "program_trace \<Rightarrow> event \<Rightarrow> loop_cache \<Rightarrow> (bool \<times> loop_cache) result" where
  "inParallelFor P event cache =
     rbind (getOmpForLoops (evThread P event) cache) (\<lambda>(loopRegions, cache').
       let eid = evID event;
           key = \<lparr> regionStart = eid, regionEnd = eid, regionThread = evThread P event \<rparr>
       in (case dropWhile (\<lambda>r. regionEndLessThan r key) loopRegions of
             [] \<Rightarrow> Inr (False, cache')
           | r # _ \<Rightarrow> Inr (contains r eid, cache')))"

text \<open>The answers of \<open>SimpleArrayAnalysis\<close>.\<close>

record array_analysis =
  isLoopArrayAccess :: "event \<Rightarrow> event \<Rightarrow> bool"
  canIndexOverlap :: "event \<Rightarrow> event \<Rightarrow> bool"

definition isNonOverlappingLoopAccess :: "array_analysis \<Rightarrow> event \<Rightarrow> event \<Rightarrow> bool" where
  "isNonOverlappingLoopAccess aa event1 event2 \<longleftrightarrow>
     isLoopArrayAccess aa event1 event2 \<and> \<not> canIndexOverlap aa event1 event2"

section \<open>Reductions\<close>

fun sameReduceLoop ::
  "llvm_module \<Rightarrow> event \<Rightarrow> event \<Rightarrow> event list \<Rightarrow> reduce_cache \<Rightarrow> (bool \<times> reduce_cache) result" where
  "sameReduceLoop M event1 event2 [] cache = Inr (False, cache)"
| "sameReduceLoop M event1 event2 (event # events) cache =
     (if evID event = evID event1 then Inr (False, cache)
      else if evIRType event = TyOpenMPReduce then
        rbind (reduceContains M (evInst event) (evInst event1) cache) (\<lambda>(contains1, cache1).
          rbind (reduceContains M (evInst event) (evInst event2) cache1) (\<lambda>(contains2, cache2).
            if contains1 \<and> contains2 then Inr (True, cache2)
            else if contains1 \<or> contains2 then Inr (False, cache2)
            else sameReduceLoop M event1 event2 events cache2))
      else sameReduceLoop M event1 event2 events cache)"

definition inSameReduce ::
  "program_trace \<Rightarrow> event \<Rightarrow> event \<Rightarrow> reduce_cache \<Rightarrow> (bool \<times> reduce_cache) result" where
  "inSameReduce P event1 event2 cache =
     sameReduceLoop (ptModule P) event1 event2 (getEvents (evThread P event1)) cache"

definition isInLastprivate :: "llvm_module \<Rightarrow> llvm_value list \<Rightarrow> event \<Rightarrow> bool" where
  "isInLastprivate M lastprivate event \<longleftrightarrow> isGuarded lastprivate (getParent M (evInst event))"

section \<open>Sections\<close>

definition isSectionBlock :: "llvm_module \<Rightarrow> llvm_value \<Rightarrow> bool" where
  "isSectionBlock M block \<longleftrightarrow> hasName M block \<and> prefix ''.omp.sections.case'' (getName M block)"

text \<open>The first events of the section bodies, up to the first event after \<open>lastID\<close>.\<close>

fun collectSections :: "llvm_module \<Rightarrow> nat \<Rightarrow> event list \<Rightarrow> event list \<Rightarrow> event list" where
  "collectSections M lastID [] sections = sections"
| "collectSections M lastID (event # events) sections =
     (let block = getParent M (evInst event);
          sections' =
            (if (sections = [] \<or> block \<noteq> getParent M (evInst (last sections))) \<and> isSectionBlock M block
             then sections @ [event] else sections)
      in if evID event > lastID then sections'
         else collectSections M lastID events sections')"

definition secAt :: "event list \<Rightarrow> bool \<Rightarrow> event option \<Rightarrow> event option result" where
  "secAt secs hit old =
     (if hit then (case secs of [] \<Rightarrow> Inl OutOfRange | sec # _ \<Rightarrow> Inr (Some sec)) else Inr old)"

text \<open>
  The two nested loops, at the event \<open>*currEvent\<close> (the head of the list) with \<open>*currSecEv\<close>
  the head of \<open>secs\<close>; the end of either list cannot be dereferenced.
\<close>

fun sectionWalk ::
  "nat \<Rightarrow> nat \<Rightarrow> nat \<Rightarrow> event list \<Rightarrow> event list \<Rightarrow> event option \<Rightarrow> event option \<Rightarrow> event list
     \<Rightarrow> bool result" where
  "sectionWalk lastID id1 id2 sections secs ev1sec ev2sec [] = Inl OutOfRange"
| "sectionWalk lastID id1 id2 sections secs ev1sec ev2sec (currEvent # events) =
     rbind (secAt secs (id1 = evID currEvent) ev1sec) (\<lambda>ev1sec.
       rbind (secAt secs (id2 = evID currEvent) ev2sec) (\<lambda>ev2sec.
         if ev1sec \<noteq> None \<and> ev2sec \<noteq> None then Inr (ev1sec = ev2sec)
         else (case events of
                 [] \<Rightarrow> Inl OutOfRange
               | next # _ \<Rightarrow>
                   if next \<notin> set sections
                   then sectionWalk lastID id1 id2 sections secs ev1sec ev2sec events
                   else if evID next \<le> lastID
                   then sectionWalk lastID id1 id2 sections (tl secs) ev1sec ev2sec events
                   else Inr False)))"

definition insideCompatibleSections :: "program_trace \<Rightarrow> event \<Rightarrow> event \<Rightarrow> bool result" where
  "insideCompatibleSections P event1 event2 =
     (let M = ptModule P; lastID = max (evID event1) (evID event2);
          events = getEvents (evThread P event1);
          sections = collectSections M lastID events []
      in (case sections of
            [] \<Rightarrow> Inr False
          | sec # _ \<Rightarrow>
              (case dropWhile (\<lambda>e. e \<noteq> sec) events of
                 [] \<Rightarrow> Inl OutOfRange
               | currEvent # rest \<Rightarrow>
                   if evID currEvent \<le> lastID
                   then sectionWalk lastID (evID event1) (evID event2) sections sections None None
                          (currEvent # rest)
                   else Inr False)))"

section \<open>Regions are the matched pairs\<close>

text \<open>
  A matched pair: a start event and an end event with no start or end between them. The events
  of a thread are numbered by their positions.
\<close>

definition delimits :: "ir_type \<Rightarrow> ir_type \<Rightarrow> event list \<Rightarrow> nat \<Rightarrow> bool" where
  "delimits S E es k \<longleftrightarrow> evIRType (es ! k) = S \<or> evIRType (es ! k) = E"

definition openAt :: "ir_type \<Rightarrow> ir_type \<Rightarrow> event list \<Rightarrow> nat \<Rightarrow> nat \<Rightarrow> bool" where
  "openAt S E es n i \<longleftrightarrow> i < n \<and> evIRType (es ! i) = S \<and> (\<forall>k. i < k \<and> k < n \<longrightarrow> \<not> delimits S E es k)"

definition matchedPair :: "ir_type \<Rightarrow> ir_type \<Rightarrow> event list \<Rightarrow> nat \<Rightarrow> nat \<Rightarrow> bool" where
  "matchedPair S E es i j \<longleftrightarrow> openAt S E es j i \<and> evIRType (es ! j) = E"

definition numbered :: "event list \<Rightarrow> bool" where
  "numbered es \<longleftrightarrow> (\<forall>k < length es. evID (es ! k) = k)"

definition regions_inv ::
  "ir_type \<Rightarrow> ir_type \<Rightarrow> thread_trace \<Rightarrow> event list \<Rightarrow> nat \<Rightarrow> nat option \<Rightarrow> region list \<Rightarrow> bool" where
  "regions_inv S E thread es n start regions \<longleftrightarrow>
     (\<forall>i. start = Some i \<longleftrightarrow> openAt S E es n i) \<and>
     (\<lambda>r. (regionStart r, regionEnd r)) ` set regions = {(i, j). j < n \<and> matchedPair S E es i j} \<and>
     (\<forall>j < n. evIRType (es ! j) = E \<longrightarrow> (\<exists>i. matchedPair S E es i j)) \<and>
     (\<forall>r \<in> set regions. regionThread r = thread) \<and>
     sorted_wrt (\<lambda>r r'. regionEnd r < regionStart r') regions"

lemma openAt_Suc:
  "openAt S E es (Suc n) i \<longleftrightarrow>
     (i = n \<and> evIRType (es ! n) = S) \<or> (openAt S E es n i \<and> \<not> delimits S E es n)"
  by (auto simp: openAt_def less_Suc_eq)

lemma regions_inv_other:
  assumes "regions_inv S E t es n start regions" and "\<not> delimits S E es n"
  shows "regions_inv S E t es (Suc n) start regions"
  using assms by (auto simp: regions_inv_def openAt_Suc less_Suc_eq delimits_def matchedPair_def)

lemma regions_inv_start:
  assumes "regions_inv S E t es n None regions" and "evIRType (es ! n) = S" and "S \<noteq> E"
  shows "regions_inv S E t es (Suc n) (Some n) regions"
  using assms by (auto simp: regions_inv_def openAt_Suc less_Suc_eq delimits_def matchedPair_def)

lemma regions_inv_end:
  assumes inv: "regions_inv S E t es n (Some s) regions" and ty: "evIRType (es ! n) = E" and "S \<noteq> E"
  shows "regions_inv S E t es (Suc n) None
    (regions @ [\<lparr> regionStart = s, regionEnd = n, regionThread = t \<rparr>])"
proof -
  have opn: "\<And>i. openAt S E es n i \<longleftrightarrow> i = s" using inv by (auto simp: regions_inv_def)
  have pairs: "(\<lambda>r. (regionStart r, regionEnd r)) ` set regions = {(i, j). j < n \<and> matchedPair S E es i j}"
    and ends: "\<forall>j < n. evIRType (es ! j) = E \<longrightarrow> (\<exists>i. matchedPair S E es i j)"
    and th: "\<forall>r \<in> set regions. regionThread r = t"
    and srt: "sorted_wrt (\<lambda>r r'. regionEnd r < regionStart r') regions"
    using inv by (auto simp: regions_inv_def)
  have before: "regionEnd r < s" if "r \<in> set regions" for r
  proof -
    have "(regionStart r, regionEnd r) \<in> {(i, j). j < n \<and> matchedPair S E es i j}"
      using that pairs by blast
    then have r: "regionEnd r < n" "evIRType (es ! regionEnd r) = E" by (auto simp: matchedPair_def)
    have "openAt S E es n s" using opn by blast
    with r \<open>S \<noteq> E\<close> show ?thesis
      unfolding openAt_def delimits_def by (metis linorder_neqE_nat)
  qed
  have m: "\<And>i. matchedPair S E es i n \<longleftrightarrow> i = s"
    using opn ty by (auto simp: matchedPair_def)
  have "\<not> openAt S E es (Suc n) i" for i
    using ty \<open>S \<noteq> E\<close> by (auto simp: openAt_Suc delimits_def)
  then show ?thesis
    using before pairs th srt ends m
    by (auto simp: regions_inv_def sorted_wrt_append less_Suc_eq)
qed

lemma regionsLoop_inv:
  assumes num: "numbered es" and SE: "S \<noteq> E"
  shows "regionsLoop S E t sfx start regions = Inr rs \<Longrightarrow> sfx = drop n es \<Longrightarrow> n \<le> length es \<Longrightarrow>
    regions_inv S E t es n start regions \<Longrightarrow> \<exists>start'. regions_inv S E t es (length es) start' rs"
proof (induction sfx arbitrary: n start regions)
  case Nil
  then have "n = length es" by simp
  with Nil show ?case by auto
next
  case (Cons e sfx)
  from Cons.prems(2,3) have n: "n < length es" "es ! n = e" "sfx = drop (Suc n) es"
    by (metis drop_eq_Nil2 le_less_linear list.distinct(1), metis nth_via_drop, metis drop_Suc tl_drop list.sel(3))
  have id: "evID e = n" using num n by (auto simp: numbered_def)
  show ?case
  proof (cases "evIRType e = S")
    case True
    with Cons.prems(1) have "start = None" and "regionsLoop S E t sfx (Some n) regions = Inr rs"
      by (simp_all add: id)
    moreover have "regions_inv S E t es (Suc n) (Some n) regions"
      using regions_inv_start Cons.prems(4) True n SE \<open>start = None\<close> by blast
    ultimately show ?thesis using Cons.IH n by (metis Suc_leI)
  next
    case notS: False
    show ?thesis
    proof (cases "evIRType e = E")
      case True
      with notS Cons.prems(1) obtain s where s: "start = Some s" and rec: "regionsLoop S E t sfx None
          (regions @ [\<lparr> regionStart = s, regionEnd = n, regionThread = t \<rparr>]) = Inr rs"
        using SE by (auto simp: id split: option.splits)
      from regions_inv_end [OF Cons.prems(4) [unfolded s]] True n SE
      show ?thesis using Cons.IH [OF rec] n by (metis Suc_leI)
    next
      case False
      with notS Cons.prems(1) have "regionsLoop S E t sfx start regions = Inr rs" by simp
      moreover have "regions_inv S E t es (Suc n) start regions"
        using regions_inv_other [OF Cons.prems(4)] False notS n by (simp add: delimits_def)
      ultimately show ?thesis using Cons.IH n by (metis Suc_leI)
    qed
  qed
qed

lemma getRegions_inv:
  assumes "getRegions S E t = Inr rs" and "numbered (getEvents t)" and "S \<noteq> E"
  shows "(\<lambda>r. (regionStart r, regionEnd r)) ` set rs =
      {(i, j). j < length (getEvents t) \<and> matchedPair S E (getEvents t) i j}"
    and "\<forall>j < length (getEvents t). evIRType (getEvents t ! j) = E \<longrightarrow>
      (\<exists>i. matchedPair S E (getEvents t) i j)"
    and "\<forall>r \<in> set rs. regionThread r = t"
    and "sorted_wrt (\<lambda>r r'. regionEnd r < regionStart r') rs"
proof -
  have "regions_inv S E t (getEvents t) 0 None []" by (auto simp: regions_inv_def openAt_def)
  from regionsLoop_inv [OF assms(2,3) assms(1) [unfolded getRegions_def] _ _ this]
  obtain start where "regions_inv S E t (getEvents t) (length (getEvents t)) start rs" by auto
  then show "(\<lambda>r. (regionStart r, regionEnd r)) ` set rs =
      {(i, j). j < length (getEvents t) \<and> matchedPair S E (getEvents t) i j}"
    "\<forall>j < length (getEvents t). evIRType (getEvents t ! j) = E \<longrightarrow>
      (\<exists>i. matchedPair S E (getEvents t) i j)"
    "\<forall>r \<in> set rs. regionThread r = t" "sorted_wrt (\<lambda>r r'. regionEnd r < regionStart r') rs"
    by (auto simp: regions_inv_def)
qed

lemma region_start_le:
  assumes "getRegions S E t = Inr rs" and "numbered (getEvents t)" and "S \<noteq> E"
  shows "\<forall>r \<in> set rs. regionStart r \<le> regionEnd r"
proof
  fix r assume "r \<in> set rs"
  then have "(regionStart r, regionEnd r) \<in> (\<lambda>r. (regionStart r, regionEnd r)) ` set rs" by blast
  then show "regionStart r \<le> regionEnd r"
    unfolding getRegions_inv(1) [OF assms] by (auto simp: matchedPair_def openAt_def)
qed

text \<open>An event between the two events of a matched pair.\<close>

definition insidePair :: "ir_type \<Rightarrow> ir_type \<Rightarrow> event list \<Rightarrow> nat \<Rightarrow> nat \<Rightarrow> nat \<Rightarrow> bool" where
  "insidePair S E es k i j \<longleftrightarrow> j < length es \<and> matchedPair S E es i j \<and> i \<le> k \<and> k \<le> j"

lemma region_of_pair:
  assumes "getRegions S E t = Inr rs" and "numbered (getEvents t)" and "S \<noteq> E"
  shows "(\<exists>r \<in> set rs. contains r k) \<longleftrightarrow> (\<exists>i j. insidePair S E (getEvents t) k i j)"
proof -
  have "(\<exists>r \<in> set rs. contains r k) \<longleftrightarrow>
      (\<exists>(i, j) \<in> (\<lambda>r. (regionStart r, regionEnd r)) ` set rs. i \<le> k \<and> k \<le> j)"
    by (auto simp: contains_def)
  then show ?thesis unfolding getRegions_inv(1) [OF assms] by (auto simp: insidePair_def)
qed

lemma dropWhile_contains:
  "sorted_wrt (\<lambda>r r'. regionEnd r < regionStart r') rs \<Longrightarrow> \<forall>r \<in> set rs. regionStart r \<le> regionEnd r \<Longrightarrow>
     (case dropWhile (\<lambda>r. regionEnd r < k) rs of [] \<Rightarrow> False | r # _ \<Rightarrow> contains r k) \<longleftrightarrow>
     (\<exists>r \<in> set rs. contains r k)"
proof (induction rs)
  case (Cons r rs)
  show ?case
  proof (cases "regionEnd r < k")
    case True
    with Cons show ?thesis by (auto simp: contains_def)
  next
    case False
    have "\<not> contains r' k" if "\<not> contains r k" "r' \<in> set rs" for r'
      using that Cons.prems False by (auto simp: contains_def)
    with False show ?thesis by auto
  qed
qed simp

definition loop_cache_sound :: "program_trace \<Rightarrow> loop_cache \<Rightarrow> bool" where
  "loop_cache_sound P cache \<longleftrightarrow> om_sorted cache \<and>
     (\<forall>t \<in> set (getThreads P). \<forall>rs. map_of cache (ttID t) = Some rs \<longrightarrow> getLoopRegions t = Inr rs)"

lemma getOmpForLoops_exact:
  assumes "loop_cache_sound P cache" and "t \<in> set (getThreads P)" and "wf_events P"
    and "getOmpForLoops t cache = Inr (rs, cache')"
  shows "getLoopRegions t = Inr rs \<and> loop_cache_sound P cache'"
proof (cases "map_of cache (ttID t)")
  case None
  with assms(4) have rs: "getLoopRegions t = Inr rs" "cache' = om_put (ttID t) rs cache"
    by (auto simp: getOmpForLoops_def)
  have "u = t" if "u \<in> set (getThreads P)" "ttID u = ttID t" for u
    using wf_threadD [OF assms(3)] that assms(2) by metis
  with rs assms(1) show ?thesis by (auto simp: loop_cache_sound_def om_sorted_put)
next
  case (Some r)
  with assms show ?thesis by (auto simp: getOmpForLoops_def loop_cache_sound_def)
qed

lemma wf_numbered: "wf_events P \<Longrightarrow> t \<in> set (getThreads P) \<Longrightarrow> numbered (getEvents t)"
  by (auto simp: wf_events_def numbered_def in_set_conv_nth)

subsection \<open>Ordinals of regions\<close>

lemma findIndex_mem: "findIndex Q xs = Some n \<Longrightarrow> \<exists>x \<in> set xs. Q x"
  by (induction xs arbitrary: n) (auto split: if_splits)

lemma findIndex_None: "findIndex Q xs = None \<longleftrightarrow> (\<forall>x \<in> set xs. \<not> Q x)"
  by (induction xs) auto

lemma findIndex_contains:
  "findIndex (\<lambda>r. contains r k) rs = Some n \<Longrightarrow> sorted_wrt (\<lambda>r r'. regionEnd r < regionStart r') rs \<Longrightarrow>
     \<forall>r \<in> set rs. regionStart r \<le> regionEnd r \<Longrightarrow> n = length (filter (\<lambda>r. regionEnd r < k) rs)"
proof (induction rs arbitrary: n)
  case (Cons r rs)
  show ?case
  proof (cases "contains r k")
    case True
    then have "filter (\<lambda>r. regionEnd r < k) (r # rs) = []"
      using Cons.prems by (fastforce simp: contains_def filter_empty_conv)
    with True Cons.prems(1) show ?thesis by simp
  next
    case False
    with Cons.prems(1) obtain m where m: "findIndex (\<lambda>r. contains r k) rs = Some m" "n = Suc m" by auto
    from findIndex_mem [OF m(1)] Cons.prems(2) have "regionEnd r < k" by (fastforce simp: contains_def)
    with Cons.IH [OF m(1)] Cons.prems m(2) show ?thesis by simp
  qed
qed simp

text \<open>The number of end events before a position.\<close>

definition endsBefore :: "ir_type \<Rightarrow> event list \<Rightarrow> nat \<Rightarrow> nat" where
  "endsBefore E es k = length (filter (\<lambda>j. evIRType (es ! j) = E) [0..<min k (length es)])"

lemma regions_before:
  assumes "getRegions S E t = Inr rs" and "numbered (getEvents t)" and "S \<noteq> E"
  shows "length (filter (\<lambda>r. regionEnd r < k) rs) = endsBefore E (getEvents t) k"
proof -
  let ?F = "filter (\<lambda>r. regionEnd r < k) rs" and ?es = "getEvents t"
  note inv = getRegions_inv [OF assms]
  note le = region_start_le [OF assms]
  have "sorted_wrt (\<lambda>r r'. regionEnd r < regionEnd r') rs"
    by (rule sorted_wrt_mono_rel [OF _ inv(4)]) (use le in fastforce)
  then have "distinct (map regionEnd ?F)"
    by (intro distinct_map_filter) (auto simp: strict_sorted_iff sorted_wrt_map
        simp flip: sorted_wrt_map [where f = regionEnd and R = "(<)", unfolded strict_sorted_iff])
  then have "length ?F = card (set (map regionEnd ?F))" by (metis distinct_card length_map)
  also have "set (map regionEnd ?F) = snd ` ((\<lambda>r. (regionStart r, regionEnd r)) ` set rs) \<inter> {..<k}"
    by (auto simp: image_iff)
  also have "\<dots> = {j. j < min k (length ?es) \<and> evIRType (?es ! j) = E}"
    unfolding inv(1) using inv(2) by (force simp: matchedPair_def)
  also have "card \<dots> = endsBefore E ?es k"
    unfolding endsBefore_def by (subst distinct_card [symmetric]) (auto intro!: arg_cong [where f = card])
  finally show ?thesis .
qed

lemma getRegionID_exact:
  assumes wf: "wf_events P" and e: "e \<in> set (allEvents P)" and "S \<noteq> E"
    and run: "getRegionID P S E e = Inr region"
  shows "region = (if \<exists>i j. insidePair S E (getEvents (evThread P e)) (evID e) i j
     then Some (endsBefore E (getEvents (evThread P e)) (evID e)) else None)"
proof -
  from e obtain t where t: "t \<in> set (getThreads P)" "e \<in> set (getEvents t)" by (auto simp: allEvents_def)
  have th: "evThread P e = t" using wf t evThread_eq wf_eventsD(1) by blast
  note num = wf_numbered [OF wf t(1)]
  from run obtain rs where rs: "getRegions S E t = Inr rs"
    "region = findIndex (\<lambda>r. contains r (evID e)) rs" by (auto simp: getRegionID_def th rbind_def split: sum.splits)
  note inv = getRegions_inv [OF rs(1) num \<open>S \<noteq> E\<close>]
  note le = region_start_le [OF rs(1) num \<open>S \<noteq> E\<close>]
  show ?thesis
  proof (cases region)
    case None
    then have "\<not> (\<exists>r \<in> set rs. contains r (evID e))" using rs(2) by (simp add: findIndex_None)
    then have "\<not> (\<exists>i j. insidePair S E (getEvents t) (evID e) i j)"
      using region_of_pair [OF rs(1) num \<open>S \<noteq> E\<close>] by metis
    then show ?thesis using None by (simp add: th)
  next
    case (Some n)
    then have "\<exists>r \<in> set rs. contains r (evID e)" using rs(2) findIndex_mem by metis
    moreover have "n = endsBefore E (getEvents t) (evID e)"
      using findIndex_contains [OF _ inv(4) le] rs(2) Some regions_before [OF rs(1) num \<open>S \<noteq> E\<close>] by metis
    ultimately show ?thesis using region_of_pair [OF rs(1) num \<open>S \<noteq> E\<close>] Some by (simp add: th)
  qed
qed

section \<open>The walk over the sections\<close>

text \<open>The section of a position: the last section event at or before it.\<close>

definition sectionOf :: "event list \<Rightarrow> nat \<Rightarrow> event" where
  "sectionOf sections k = last (filter (\<lambda>s. evID s \<le> k) sections)"

lemma sorted_filter_le:
  "sorted_wrt (\<lambda>a b. evID a < evID b) (xs @ y # ys) \<Longrightarrow>
     filter (\<lambda>s. evID s \<le> k) (xs @ y # ys) =
       (if evID y \<le> k then xs @ y # filter (\<lambda>s. evID s \<le> k) ys else filter (\<lambda>s. evID s \<le> k) xs)"
  by (fastforce simp: sorted_wrt_append filter_empty_conv filter_id_conv)

lemma sectionOf_split:
  assumes "sorted_wrt (\<lambda>a b. evID a < evID b) (xs @ y # ys)" and "evID y \<le> k"
    and "ys = [] \<or> k < evID (hd ys)"
  shows "sectionOf (xs @ y # ys) k = y"
proof -
  have "filter (\<lambda>s. evID s \<le> k) ys = []"
    using assms by (cases ys) (auto simp: sorted_wrt_append filter_empty_conv)
  then show ?thesis using sorted_filter_le [OF assms(1), of k] assms(2) by (simp add: sectionOf_def)
qed

lemma sectionWalk_step:
  "secAt secs (id1 = evID c) e1 = Inr f1 \<Longrightarrow> secAt secs (id2 = evID c) e2 = Inr f2 \<Longrightarrow>
     events = next' # rest \<Longrightarrow> \<not> (f1 \<noteq> None \<and> f2 \<noteq> None) \<Longrightarrow>
     sectionWalk L id1 id2 S secs e1 e2 (c # events) =
       (if next' \<notin> set S then sectionWalk L id1 id2 S secs f1 f2 events
        else if evID next' \<le> L then sectionWalk L id1 id2 S (tl secs) f1 f2 events else Inr False)"
  by (subst sectionWalk.simps(2)) (auto simp del: sectionWalk.simps)

lemma sectionWalk_exact:
  assumes num: "numbered es" and sub: "set (xs @ y # ys) \<subseteq> set es"
    and srt: "sorted_wrt (\<lambda>a b. evID a < evID b) (xs @ y # ys)" and ids: "id1 < length es" "id2 < length es"
  shows "events = drop n es \<Longrightarrow> evID y \<le> n \<Longrightarrow> ys = [] \<or> n < evID (hd ys) \<Longrightarrow> n \<le> max id1 id2 \<Longrightarrow>
     e1 = (if id1 < n then Some (sectionOf (xs @ y # ys) id1) else None) \<Longrightarrow>
     e2 = (if id2 < n then Some (sectionOf (xs @ y # ys) id2) else None) \<Longrightarrow>
     sectionWalk (max id1 id2) id1 id2 (xs @ y # ys) (y # ys) e1 e2 events =
       Inr (sectionOf (xs @ y # ys) id1 = sectionOf (xs @ y # ys) id2)"
  using sub srt
proof (induction events arbitrary: n xs y ys e1 e2)
  case Nil
  with ids show ?case by simp
next
  case (Cons c events)
  let ?S = "xs @ y # ys"
  have n: "n < length es" "es ! n = c" "events = drop (Suc n) es"
    using Cons.prems(1) by (metis drop_eq_Nil2 le_less_linear list.distinct(1), metis nth_via_drop,
      metis drop_Suc tl_drop list.sel(3))
  have id: "evID c = n" using num n by (auto simp: numbered_def)
  have here: "sectionOf ?S n = y" by (rule sectionOf_split [OF Cons.prems(8,2,3)])
  have e1: "secAt (y # ys) (id1 = evID c) e1 =
      Inr (if id1 < Suc n then Some (sectionOf ?S id1) else None)"
    using Cons.prems(5) here by (auto simp: secAt_def id)
  have e2: "secAt (y # ys) (id2 = evID c) e2 =
      Inr (if id2 < Suc n then Some (sectionOf ?S id2) else None)"
    using Cons.prems(6) here by (auto simp: secAt_def id)
  show ?case
  proof (cases "id1 < Suc n \<and> id2 < Suc n")
    case True
    then show ?thesis by (simp add: e1 e2)
  next
    case False
    then have more: "Suc n \<le> max id1 id2" by auto
    with ids have "Suc n < length es" by auto
    then obtain next' rest where ev: "events = next' # rest" "es ! Suc n = next'"
      using n(3) by (metis Cons_nth_drop_Suc)
    then have idn: "evID next' = Suc n" using num \<open>Suc n < length es\<close> by (auto simp: numbered_def)
    have uniq: "s = next'" if "s \<in> set ?S" "evID s = Suc n" for s
    proof -
      from that(1) Cons.prems(7) obtain k where k: "k < length es" "s = es ! k"
        by (metis in_set_conv_nth subset_iff)
      with num that(2) have "k = Suc n" by (simp add: numbered_def)
      with k(2) ev(2) show ?thesis by simp
    qed
    have "\<not> ((if id1 < Suc n then Some (sectionOf ?S id1) else None) \<noteq> None \<and>
      (if id2 < Suc n then Some (sectionOf ?S id2) else None) \<noteq> None)" using False by auto
    note step = sectionWalk_step [OF e1 e2 ev(1) this]
    show ?thesis
    proof (cases "next' \<in> set ?S")
      case False
      have "evID z \<noteq> Suc n" if "z \<in> set ?S" for z using uniq False that by blast
      then have "ys = [] \<or> evID (hd ys) \<noteq> Suc n" by (cases ys) auto
      with Cons.prems(3) have "ys = [] \<or> Suc n < evID (hd ys)" by auto
      with Cons.IH [of "Suc n" y ys] Cons.prems n(3) more
      have "sectionWalk (max id1 id2) id1 id2 ?S (y # ys)
          (if id1 < Suc n then Some (sectionOf ?S id1) else None)
          (if id2 < Suc n then Some (sectionOf ?S id2) else None) events =
        Inr (sectionOf ?S id1 = sectionOf ?S id2)" by auto
      with False show ?thesis by (simp only: step if_True not_False_eq_True)
    next
      case True
      have "\<forall>s \<in> set (xs @ [y]). evID s \<le> n"
        using Cons.prems(2,8) by (force simp: sorted_wrt_append)
      with True idn have "next' \<in> set ys" by auto
      then obtain z zs where ys: "ys = z # zs" by (cases ys) auto
      have "evID z \<le> evID next'" using \<open>next' \<in> set ys\<close> Cons.prems(8) by (force simp: ys sorted_wrt_append)
      with Cons.prems(3) ys idn have "evID z = Suc n" by auto
      then have z: "z = next'" using uniq ys by auto
      have later: "zs = [] \<or> Suc n < evID (hd zs)"
        using Cons.prems(8) \<open>evID z = Suc n\<close> by (cases zs) (auto simp: ys sorted_wrt_append)
      have "sectionWalk (max id1 id2) id1 id2 ((xs @ [y]) @ z # zs) (z # zs)
          (if id1 < Suc n then Some (sectionOf ?S id1) else None)
          (if id2 < Suc n then Some (sectionOf ?S id2) else None) events =
        Inr (sectionOf ((xs @ [y]) @ z # zs) id1 = sectionOf ((xs @ [y]) @ z # zs) id2)"
        by (rule Cons.IH [of "Suc n"])
          (use Cons.prems(7,8) n(3) more \<open>evID z = Suc n\<close> later in \<open>simp_all add: ys\<close>)
      then have "sectionWalk (max id1 id2) id1 id2 ?S ys
          (if id1 < Suc n then Some (sectionOf ?S id1) else None)
          (if id2 < Suc n then Some (sectionOf ?S id2) else None) events =
        Inr (sectionOf ?S id1 = sectionOf ?S id2)" by (simp add: ys)
      with True idn more show ?thesis by (simp only: step) (simp add: ys del: sectionWalk.simps)
    qed
  qed
qed

lemma collectSections_mem:
  assumes "numbered es"
  shows "sfx = drop n es \<Longrightarrow> set acc \<subseteq> set (take n es) \<Longrightarrow> sorted_wrt (\<lambda>a b. evID a < evID b) acc \<Longrightarrow>
    set (collectSections M lastID sfx acc) \<subseteq> set es \<and>
    sorted_wrt (\<lambda>a b. evID a < evID b) (collectSections M lastID sfx acc)"
proof (induction sfx arbitrary: n acc)
  case Nil
  then show ?case by (auto dest: in_set_takeD)
next
  case (Cons c sfx)
  have n: "n < length es" "es ! n = c" "sfx = drop (Suc n) es"
    using Cons.prems(1) by (metis drop_eq_Nil2 le_less_linear list.distinct(1), metis nth_via_drop,
      metis drop_Suc tl_drop list.sel(3))
  have id: "evID c = n" using assms n by (auto simp: numbered_def)
  have tk: "set (take (Suc n) es) = insert c (set (take n es))" using n by (simp add: take_Suc_conv_app_nth)
  have lt: "evID s < n" if "s \<in> set acc" for s
  proof -
    from that Cons.prems(2) have "s \<in> set (take n es)" by blast
    then obtain k where "k < n" "k < length es" "s = es ! k" by (auto simp: in_set_conv_nth)
    with assms show ?thesis by (simp add: numbered_def)
  qed
  define acc' where "acc' = (if (acc = [] \<or> getParent M (evInst c) \<noteq> getParent M (evInst (last acc))) \<and>
    isSectionBlock M (getParent M (evInst c)) then acc @ [c] else acc)"
  have sub: "set acc' \<subseteq> set (take (Suc n) es)" "sorted_wrt (\<lambda>a b. evID a < evID b) acc'"
    using Cons.prems(2,3) lt id by (auto simp: acc'_def tk sorted_wrt_append)
  then have "set acc' \<subseteq> set es" by (meson in_set_takeD subset_eq)
  with sub Cons.IH [OF n(3) sub] show ?case by (simp add: Let_def flip: acc'_def)
qed

section \<open>Going up the spawning threads\<close>

text \<open>
  The declarative reading: the OpenMP fork that encloses an event is the spawn site of its
  thread, or, below a task, the first OpenMP fork reached by going from spawn site to spawn site.
\<close>

definition spawnStep :: "program_trace \<Rightarrow> (event \<times> event) set" where
  "spawnStep P = {(e, f). evIRType e \<noteq> TyOpenMPFork \<and> spawnSite (evThread P e) = Some f}"

definition enclosingFork :: "program_trace \<Rightarrow> event \<Rightarrow> event \<Rightarrow> bool" where
  "enclosingFork P e f \<longleftrightarrow> (\<exists>s. spawnSite (evThread P e) = Some s \<and>
     (if evIRType s = TyOpenMPTaskFork then (s, f) \<in> (spawnStep P)\<^sup>* \<and> evIRType f = TyOpenMPFork
      else f = s))"

lemma spawnStep_cases:
  "(e, f) \<in> (spawnStep P)\<^sup>* \<longleftrightarrow> e = f \<or>
     (evIRType e \<noteq> TyOpenMPFork \<and> (\<exists>s. spawnSite (evThread P e) = Some s \<and> (s, f) \<in> (spawnStep P)\<^sup>*))"
proof
  assume "(e, f) \<in> (spawnStep P)\<^sup>*"
  then show "e = f \<or> (evIRType e \<noteq> TyOpenMPFork \<and>
      (\<exists>s. spawnSite (evThread P e) = Some s \<and> (s, f) \<in> (spawnStep P)\<^sup>*))"
    by (cases rule: converse_rtranclE) (auto simp: spawnStep_def)
next
  assume "e = f \<or> (evIRType e \<noteq> TyOpenMPFork \<and>
      (\<exists>s. spawnSite (evThread P e) = Some s \<and> (s, f) \<in> (spawnStep P)\<^sup>*))"
  moreover have "(e, s) \<in> spawnStep P"
    if "evIRType e \<noteq> TyOpenMPFork" "spawnSite (evThread P e) = Some s" for s
    using that by (simp add: spawnStep_def)
  ultimately show "(e, f) \<in> (spawnStep P)\<^sup>*" by (metis converse_rtrancl_into_rtrancl rtrancl.rtrancl_refl)
qed

lemma rootLoop_exact:
  assumes wf: "wf_events P" "wf_spawn_tree P"
  shows "t \<in> set (getThreads P) \<Longrightarrow> evTid e = ttID t \<Longrightarrow>
    \<exists>r. rootLoop P e = Some r \<and>
      (\<forall>f. r = Some f \<longleftrightarrow> (e, f) \<in> (spawnStep P)\<^sup>* \<and> evIRType f = TyOpenMPFork)"
proof (induction "evTid e" arbitrary: e t rule: less_induct)
  case less
  show ?case
  proof (cases "evIRType e = TyOpenMPFork")
    case True
    then have "(\<forall>f. Some e = Some f \<longleftrightarrow> (e, f) \<in> (spawnStep P)\<^sup>* \<and> evIRType f = TyOpenMPFork)"
      by (subst spawnStep_cases) auto
    then show ?thesis using True by (subst rootLoop.simps) simp
  next
    case False
    show ?thesis
    proof (cases "spawnSite (evThread P e)")
      case None
      then have "\<not> ((e, f) \<in> (spawnStep P)\<^sup>* \<and> evIRType f = TyOpenMPFork)" for f
        using False by (subst spawnStep_cases) auto
      then show ?thesis using False None by (subst rootLoop.simps) simp
    next
      case (Some s)
      then have "(e, f) \<in> (spawnStep P)\<^sup>* \<and> evIRType f = TyOpenMPFork \<longleftrightarrow>
          (s, f) \<in> (spawnStep P)\<^sup>* \<and> evIRType f = TyOpenMPFork" for f
        using False by (subst spawnStep_cases) auto
      moreover from spawn_decreases [OF wf less.prems Some] less.hyps [of s]
      obtain r where "rootLoop P s = Some r"
        "\<forall>f. r = Some f \<longleftrightarrow> (s, f) \<in> (spawnStep P)\<^sup>* \<and> evIRType f = TyOpenMPFork" by blast
      ultimately show ?thesis using False Some by (subst rootLoop.simps) simp
    qed
  qed
qed

lemma getRootSpawnSite_exact:
  assumes wf: "wf_events P" "wf_spawn_tree P" and e: "e \<in> set (allEvents P)"
  shows "\<exists>r. getRootSpawnSite P e = Inr r \<and> (\<forall>f. r = Some f \<longleftrightarrow> enclosingFork P e f)"
proof -
  from e obtain t where t: "t \<in> set (getThreads P)" "evTid e = ttID t"
    using wf_eventsD(1) [OF wf(1)] by (auto simp: allEvents_def)
  show ?thesis
  proof (cases "spawnSite (evThread P e)")
    case None
    then show ?thesis by (simp add: getRootSpawnSite_def enclosingFork_def)
  next
    case (Some s)
    with spawn_decreases [OF wf t] rootLoop_exact [OF wf, of _ s] obtain r where
      "rootLoop P s = Some r"
      "\<forall>f. r = Some f \<longleftrightarrow> (s, f) \<in> (spawnStep P)\<^sup>* \<and> evIRType f = TyOpenMPFork" by metis
    with Some show ?thesis by (auto simp: getRootSpawnSite_def enclosingFork_def)
  qed
qed

text \<open>
  A chain of task spawns that ends below an OpenMP fork: then the search for a containing
  region never asks a thread without a spawn site.
\<close>

lemma containingLoop_safe:
  assumes wf: "wf_events P" "wf_spawn_tree P"
  shows "t \<in> set (getThreads P) \<Longrightarrow> evTid e = ttID t \<Longrightarrow> spawnSite (evThread P e) = Some s \<Longrightarrow>
    evIRType s \<noteq> TyOpenMPTaskFork \<or> (\<exists>f. rootLoop P s = Some (Some f)) \<Longrightarrow>
    \<exists>r. containingLoop P S E e = Some r \<and> r \<notin> {Inl BadOptional, Inl Diverges}"
proof (induction "evTid e" arbitrary: e t s rule: less_induct)
  case less
  have noBad: "regionsLoop S E t' es st rs \<notin> {Inl BadOptional, Inl Diverges}" for t' es st rs
    by (induction S E t' es st rs rule: regionsLoop.induct) (auto simp: rassert_def split: option.splits)
  show ?case
  proof (cases "getRegions S E (evThread P e)")
    case (Inl f)
    with noBad show ?thesis by (subst containingLoop.simps) (auto simp: getRegions_def)
  next
    case (Inr rs)
    show ?thesis
    proof (cases "rs = [] \<and> evIRType s = TyOpenMPTaskFork")
      case False
      with Inr less.prems(3) show ?thesis by (subst containingLoop.simps) auto
    next
      case True
      note dec = spawn_decreases [OF wf less.prems(1-3)]
      from True less.prems(4) obtain f where "rootLoop P s = Some (Some f)" by auto
      then obtain s' where s': "spawnSite (evThread P s) = Some s'" "rootLoop P s' = Some (Some f)"
        using True by (subst (asm) rootLoop.simps) (auto split: option.splits)
      with less.hyps [of s] dec have "\<exists>r. containingLoop P S E s = Some r \<and> r \<notin> {Inl BadOptional, Inl Diverges}" by blast
      with True Inr less.prems(3) show ?thesis by (subst containingLoop.simps) simp
    qed
  qed
qed

section \<open>Properties\<close>

text \<open>
  C35. The regions of a thread are exactly its matched pairs of start and end events, in order
  and disjoint; every end event closes a region.
\<close>

theorem regions_exact:
  assumes "getRegions S E t = Inr rs" and "numbered (getEvents t)" and "S \<noteq> E"
  shows "(\<lambda>r. (regionStart r, regionEnd r)) ` set rs =
      {(i, j). j < length (getEvents t) \<and> matchedPair S E (getEvents t) i j} \<and>
    sorted_wrt (\<lambda>r r'. regionEnd r < regionStart r') rs \<and>
    (\<forall>j < length (getEvents t). evIRType (getEvents t ! j) = E \<longrightarrow>
      (\<exists>i. matchedPair S E (getEvents t) i j))"
  using getRegions_inv [OF assms] by simp

text \<open>
  An access is in a parallel loop exactly when it lies between the two events of a matched
  pair of loop init and loop fini calls of its thread, whatever loops the cache holds; the
  cache stays sound.
\<close>

theorem inParallelFor_exact:
  assumes wf: "wf_events P" and e: "e \<in> set (allEvents P)" and cache: "loop_cache_sound P cache"
    and run: "inParallelFor P e cache = Inr (b, cache')"
  shows "(b \<longleftrightarrow> (\<exists>i j. insidePair TyOpenMPForInit TyOpenMPForFini
      (getEvents (evThread P e)) (evID e) i j)) \<and> loop_cache_sound P cache'"
proof -
  from e obtain t where t: "t \<in> set (getThreads P)" "e \<in> set (getEvents t)" by (auto simp: allEvents_def)
  have th: "evThread P e = t" using wf t evThread_eq wf_eventsD(1) by blast
  from run obtain rs where rs: "getOmpForLoops t cache = Inr (rs, cache')"
    and b: "b \<longleftrightarrow> (case dropWhile (\<lambda>r. regionEnd r < evID e) rs of [] \<Rightarrow> False | r # _ \<Rightarrow> contains r (evID e))"
    by (auto simp: inParallelFor_def th rbind_def regionEndLessThan_def Let_def
      split: sum.splits list.splits prod.splits)
  from getOmpForLoops_exact [OF cache t(1) wf rs]
  have g: "getRegions TyOpenMPForInit TyOpenMPForFini t = Inr rs" "loop_cache_sound P cache'"
    by (simp_all add: getLoopRegions_def)
  note ok = g(1) wf_numbered [OF wf t(1)]
  from dropWhile_contains [OF getRegions_inv(4) [OF ok] region_start_le [OF ok]] region_of_pair [OF ok]
  show ?thesis using b g(2) by (simp add: th)
qed

text \<open>
  C34. Two events are taken to be of one parallel region exactly when the forks that enclose
  them are neighbouring events of one thread; the search for those forks always returns.
\<close>

theorem fromSameParallelRegion_exact:
  assumes "wf_events P" and "wf_spawn_tree P"
    and "e1 \<in> set (allEvents P)" and "e2 \<in> set (allEvents P)"
  shows "fromSameParallelRegion P e1 e2 =
    Inr (\<exists>f1 f2. enclosingFork P e1 f1 \<and> enclosingFork P e2 f2 \<and> evTid f1 = evTid f2 \<and>
      (evID f1 = Suc (evID f2) \<or> evID f2 = Suc (evID f1)))"
proof -
  from getRootSpawnSite_exact [OF assms(1,2)] assms(3,4) obtain r1 r2 where
    r: "getRootSpawnSite P e1 = Inr r1" "getRootSpawnSite P e2 = Inr r2"
    "\<And>f. enclosingFork P e1 f \<longleftrightarrow> r1 = Some f" "\<And>f. enclosingFork P e2 f \<longleftrightarrow> r2 = Some f" by metis
  show ?thesis
    by (cases r1; cases r2)
      (auto simp: fromSameParallelRegion_def r(1,2) r(3,4) Let_def)
qed

text \<open>
  The single blocks of two events of one team count as the same exactly when both events
  are inside a single block and the same number of single blocks ended before each.
\<close>

theorem inSameSingleBlock_exact:
  assumes "wf_events P" and "e1 \<in> set (allEvents P)" and "e2 \<in> set (allEvents P)"
    and "inSameSingleBlock P e1 e2 = Inr b"
  shows "b \<longleftrightarrow>
    (\<exists>i j. insidePair TyOpenMPSingleStart TyOpenMPSingleEnd (getEvents (evThread P e1)) (evID e1) i j) \<and>
    (\<exists>i j. insidePair TyOpenMPSingleStart TyOpenMPSingleEnd (getEvents (evThread P e2)) (evID e2) i j) \<and>
    endsBefore TyOpenMPSingleEnd (getEvents (evThread P e1)) (evID e1) =
      endsBefore TyOpenMPSingleEnd (getEvents (evThread P e2)) (evID e2)"
proof -
  from assms(4) obtain r1 r2 where
    r: "getRegionID P TyOpenMPSingleStart TyOpenMPSingleEnd e1 = Inr r1"
      "getRegionID P TyOpenMPSingleStart TyOpenMPSingleEnd e2 = Inr r2"
    and b: "b \<longleftrightarrow> (\<exists>i. r1 = Some i \<and> r2 = Some i)"
    by (auto simp: inSameSingleBlock_def inSame_def assertSameRegion_def rbind_def rassert_def
      split: sum.splits if_splits option.splits)
  show ?thesis
    using getRegionID_exact [OF assms(1,2) _ r(1)] getRegionID_exact [OF assms(1,3) _ r(2)]
    by (simp add: b)
qed

text \<open>
  C36. For two events of one team the guarded thread-number test never asks the initial thread
  for its spawn site and always returns.
\<close>

theorem guardedBySameTID_safe:
  assumes wf: "wf_events P" "wf_spawn_tree P"
    and e: "e1 \<in> set (allEvents P)" "e2 \<in> set (allEvents P)"
    and team: "fromSameParallelRegion P e1 e2 = Inr True"
  shows "guardedBySameTID P e1 e2 \<notin> {Inl BadOptional, Inl Diverges}"
proof -
  have site: "\<exists>s. spawnSite (evThread P e) = Some s \<and>
      (evIRType s \<noteq> TyOpenMPTaskFork \<or> (\<exists>f. rootLoop P s = Some (Some f)))"
    if "getRootSpawnSite P e = Inr (Some f)" for e f
    using that by (auto simp: getRootSpawnSite_def split: option.splits if_splits)
  from team obtain f1 f2 where "getRootSpawnSite P e1 = Inr (Some f1)" "getRootSpawnSite P e2 = Inr (Some f2)"
    by (auto simp: fromSameParallelRegion_def rbind_def split: sum.splits option.splits)
  then have sites: "\<exists>s. spawnSite (evThread P e) = Some s \<and>
      (evIRType s \<noteq> TyOpenMPTaskFork \<or> (\<exists>f. rootLoop P s = Some (Some f)))" if "e = e1 \<or> e = e2" for e
    using that site by blast
  have safe: "avoids {BadOptional, Diverges} (getContainingRegion P S E e)"
    if "e = e1 \<or> e = e2" for S E e
  proof -
    from that \<open>e1 \<in> _\<close> \<open>e2 \<in> _\<close> have "e \<in> set (allEvents P)" by auto
    then obtain t where t: "t \<in> set (getThreads P)" "evTid e = ttID t"
      using wf_eventsD(1) [OF wf(1)] by (auto simp: allEvents_def)
    from sites [OF that] obtain s where "spawnSite (evThread P e) = Some s"
      "evIRType s \<noteq> TyOpenMPTaskFork \<or> (\<exists>f. rootLoop P s = Some (Some f))" by blast
    from containingLoop_safe [OF wf t this, of S E] show ?thesis by (auto simp: avoids_def getContainingRegion_def)
  qed
  have tid: "avoids {BadOptional, Diverges} (getGuardedTID M r k)" for M r k
    by (auto simp: avoids_def getGuardedTID_def ttGetEvent_def rbind_def rassert_def Let_def split: sum.splits if_splits)
  have "avoids {BadOptional, Diverges} (guardedBySameTID P e1 e2)"
    unfolding guardedBySameTID_def haveSameTID_def assertSameRegion_def assertSameGuardedTID_def
    by (auto simp: team intro!: avoids_rules safe tid split: option.split)
  then show ?thesis by (simp add: avoids_def)
qed

lemma sectionOf_last:
  assumes "sorted_wrt (\<lambda>a b. evID a < evID b) (y # ys)" and "evID (last (y # ys)) \<le> k"
  shows "sectionOf (y # ys) k = last (y # ys)"
proof -
  define z zs where "z = last (y # ys)" and "zs = butlast (y # ys)"
  have eq: "y # ys = zs @ [z]" unfolding z_def zs_def by (rule append_butlast_last_id [symmetric]) simp
  have "sorted_wrt (\<lambda>a b. evID a < evID b) (zs @ [z])" "evID z \<le> k" using assms by (simp_all only: eq last_snoc)
  then have "filter (\<lambda>s. evID s \<le> k) (zs @ [z]) = zs @ [z]" by (force simp: filter_id_conv sorted_wrt_append)
  then show ?thesis unfolding sectionOf_def eq by simp
qed

text \<open>
  C37. Two events at or after the first section of a thread are taken to be in compatible sections exactly when the
  last section that was begun at or before each is the same. The code looks for the beginnings of sections only and
  never for the end of the construct: all events from the last section on are compatible with each other, those behind
  the construct included, which are in no section (the lemma \<open>sections_never_end\<close> below is such a case). The
  header says that both events are in compatible sections.
\<close>

theorem insideCompatibleSections_exact:
  assumes "numbered (getEvents (evThread P e1))"
    and "evID e1 < length (getEvents (evThread P e1))" and "evID e2 < length (getEvents (evThread P e1))"
    and "collectSections (ptModule P) (max (evID e1) (evID e2)) (getEvents (evThread P e1)) [] = y # ys"
    and "evID y \<le> evID e1" and "evID y \<le> evID e2"
  shows "insideCompatibleSections P e1 e2 =
    Inr (sectionOf (y # ys) (evID e1) = sectionOf (y # ys) (evID e2)) \<and>
    (evID (last (y # ys)) \<le> min (evID e1) (evID e2) \<longrightarrow> insideCompatibleSections P e1 e2 = Inr True)"
proof -
  let ?es = "getEvents (evThread P e1)" and ?L = "max (evID e1) (evID e2)"
  from collectSections_mem [OF assms(1), of ?es 0 "[]"]
  have sec: "set (y # ys) \<subseteq> set ?es" "sorted_wrt (\<lambda>a b. evID a < evID b) (y # ys)"
    unfolding assms(4) [symmetric] by simp_all
  then obtain k where k: "k < length ?es" "?es ! k = y" by (auto simp: in_set_conv_nth)
  have id: "evID y = k" using assms(1) k by (auto simp: numbered_def)
  have ne: "?es ! i \<noteq> y" if "i < k" for i
  proof -
    have "evID (?es ! i) = i" using assms(1) that k by (simp add: numbered_def)
    then show ?thesis using that id by auto
  qed
  then have "takeWhile (\<lambda>e. e \<noteq> y) ?es = take k ?es"
    by (intro takeWhile_eq_take_P_nth) (use k in auto)
  then have dw: "dropWhile (\<lambda>e. e \<noteq> y) ?es = drop k ?es" using k by (simp add: dropWhile_eq_drop)
  have d: "drop k ?es = y # drop (Suc k) ?es" using k by (metis Cons_nth_drop_Suc)
  have "sectionWalk ?L (evID e1) (evID e2) ([] @ y # ys) (y # ys) None None (drop k ?es) =
      Inr (sectionOf ([] @ y # ys) (evID e1) = sectionOf ([] @ y # ys) (evID e2))"
    by (rule sectionWalk_exact [OF assms(1) _ _ assms(2,3), of _ _ _ _ k])
      (use sec id assms(5,6) in \<open>cases ys; simp\<close>)+
  then have exact: "insideCompatibleSections P e1 e2 = Inr (sectionOf (y # ys) (evID e1) = sectionOf (y # ys) (evID e2))"
    using assms(5) id by (auto simp: insideCompatibleSections_def Let_def assms(4) dw d simp del: sectionWalk.simps)
  then show ?thesis using sectionOf_last [OF sec(2)] by (auto simp del: last.simps)
qed

subsection \<open>A concrete team\<close>

text \<open>
  Two threads forked by neighbouring events of the main thread run the same events: a loop, a
  single block, a block guarded by a thread number, and two sections (blocks 40 and 41).
\<close>

definition omp_module :: llvm_module where
  "omp_module = empty_module
     \<lparr> classOf := (\<lambda>v. if v = 5 then ConstantInt else CallInst), getArgOperand := (\<lambda>i n. 5),
       getParent := (\<lambda>i. if i = 31 \<or> i = 32 then 40 else if i = 33 then 41 else i),
       hasName := (\<lambda>v. v = 40 \<or> v = 41), getName := (\<lambda>v. ''.omp.sections.case'') \<rparr>"

definition omp_irs :: "ir list" where
  "omp_irs = [CallIRImpl TyOpenMPForInit 20, Store 21, CallIRImpl TyOpenMPForFini 22,
     CallIRImpl TyOpenMPSingleStart 23, Store 24, CallIRImpl TyOpenMPSingleEnd 25,
     CallIRImpl TyOpenMPGetThreadNumGuardStart 26, Store 27, CallIRImpl TyOpenMPGetThreadNumGuardEnd 28,
     Store 30, Store 31, Store 32, Store 33]"

definition omp_event :: "thread_id \<Rightarrow> nat \<Rightarrow> event" where
  "omp_event tid k =
     (let ir = omp_irs ! k in Event (if irType ir = TyStore then Write else Call) k tid 0 ir [] None)"

definition spawn_trace :: "ir \<Rightarrow> ir \<Rightarrow> program_trace" where
  "spawn_trace f g =
     (let fork1 = Event Fork 0 0 0 f [] None; fork2 = Event Fork 1 0 0 g [] None
      in \<lparr> ptModule = omp_module,
           ptPta = \<lparr> contextEvolve = (\<lambda>c i. c), getPointsTo = (\<lambda>c v. []), getDirectNodeOrNull = (\<lambda>c f. None),
             getResolvedNode = (\<lambda>c i. []), nodeFunction = (\<lambda>n. n), nodeContext = (\<lambda>n. 0),
             isExtFunction = (\<lambda>n. False), objValue = (\<lambda>b. Some b) \<rparr>,
           getThreads =
             [\<lparr> ttID = 0, spawnSite = None, getEvents = [fork1, fork2] \<rparr>,
              \<lparr> ttID = 1, spawnSite = Some fork1, getEvents = map (omp_event 1) [0..<13] \<rparr>,
              \<lparr> ttID = 2, spawnSite = Some fork2, getEvents = map (omp_event 2) [0..<13] \<rparr>] \<rparr>)"

text \<open>
  Two threads created by neighbouring \<open>pthread_create\<close> calls are taken to be of one
  parallel region: the test compares the forks' positions and not their kinds. And an event
  before the first section of its thread makes the search for sections run past the last event.
\<close>

theorem region_tests_misled:
  "fromSameParallelRegion (spawn_trace (PthreadCreate 10) (PthreadCreate 11)) (omp_event 1 1) (omp_event 2 1)
     = Inr True \<and>
   insideCompatibleSections (spawn_trace (OpenMPFork (OmpFork 10 Master)) (OpenMPFork (OmpFork 10 Other)))
     (omp_event 1 1) (omp_event 1 10) = Inl OutOfRange"
  by code_simp

text \<open>Only block 40 is a section here; the last two events lie behind it, in no section, and are taken to be in one.\<close>

lemma sections_never_end:
  "insideCompatibleSections
     ((spawn_trace (OpenMPFork (OmpFork 10 Master)) (OpenMPFork (OmpFork 10 Other)))
        \<lparr> ptModule := omp_module\<lparr> getParent := (\<lambda>i. if i = 31 then 40 else i) \<rparr> \<rparr>)
     (omp_event 1 11) (omp_event 1 12) = Inr True"
  by code_simp

subsection \<open>Witnesses\<close>

lemma omp_event_id [simp]: "evID (omp_event tid k) = k" "evTid (omp_event tid k) = tid"
  by (simp_all add: omp_event_def Let_def)

lemma spawn_threads: "getThreads (spawn_trace f g) =
    [\<lparr> ttID = 0, spawnSite = None, getEvents = [Event Fork 0 0 0 f [] None, Event Fork 1 0 0 g [] None] \<rparr>,
     \<lparr> ttID = 1, spawnSite = Some (Event Fork 0 0 0 f [] None), getEvents = map (omp_event 1) [0..<13] \<rparr>,
     \<lparr> ttID = 2, spawnSite = Some (Event Fork 1 0 0 g [] None), getEvents = map (omp_event 2) [0..<13] \<rparr>]"
  by (simp add: spawn_trace_def Let_def)

lemma team_wf: "wf_events (spawn_trace f g)" "wf_spawn_tree (spawn_trace f g)"
  by (simp_all add: wf_events_def wf_spawn_tree_def spawn_threads All_less_Suc del: upt_Suc upt_rec_numeral)

lemma team_mem: "tid \<in> {1, 2} \<Longrightarrow> k < 13 \<Longrightarrow> omp_event tid k \<in> set (allEvents (spawn_trace f g))"
  by (auto simp: allEvents_def spawn_threads simp del: upt_Suc upt_rec_numeral)

lemma regions_exact_witness:
  "matchedPair TyOpenMPForInit TyOpenMPForFini (map (omp_event 1) [0..<13]) 0 2"
proof -
  let ?t = "\<lparr> ttID = 1, spawnSite = None, getEvents = map (omp_event 1) [0..<13] \<rparr>"
  have "getRegions TyOpenMPForInit TyOpenMPForFini ?t =
      Inr [\<lparr> regionStart = 0, regionEnd = 2, regionThread = ?t \<rparr>]" by code_simp
  moreover have "numbered (getEvents ?t)" by (simp add: numbered_def del: upt_Suc upt_rec_numeral)
  ultimately show ?thesis using regions_exact [of TyOpenMPForInit TyOpenMPForFini ?t] by auto
qed

lemma inParallelFor_exact_witness:
  "\<exists>i j. insidePair TyOpenMPForInit TyOpenMPForFini
     (getEvents (evThread (spawn_trace (PthreadCreate 10) (PthreadCreate 11)) (omp_event 1 1))) 1 i j"
proof -
  have "map_sum (\<lambda>_. ()) fst (inParallelFor (spawn_trace (PthreadCreate 10) (PthreadCreate 11))
      (omp_event 1 1) []) = Inr True" by code_simp
  then obtain c where "inParallelFor (spawn_trace (PthreadCreate 10) (PthreadCreate 11))
      (omp_event 1 1) [] = Inr (True, c)" by (auto simp: map_sum_def split: sum.splits)
  then show ?thesis
    using inParallelFor_exact [OF team_wf(1) team_mem, of 1 1 _ _ "[]" True c]
    by (simp add: loop_cache_sound_def om_sorted_def)
qed

lemma fromSameParallelRegion_exact_witness:
  "fromSameParallelRegion (spawn_trace (OpenMPFork (OmpFork 10 Master)) (OpenMPFork (OmpFork 10 Other)))
     (omp_event 1 1) (omp_event 2 1) =
   Inr (\<exists>f1 f2.
     enclosingFork (spawn_trace (OpenMPFork (OmpFork 10 Master)) (OpenMPFork (OmpFork 10 Other)))
       (omp_event 1 1) f1 \<and>
     enclosingFork (spawn_trace (OpenMPFork (OmpFork 10 Master)) (OpenMPFork (OmpFork 10 Other)))
       (omp_event 2 1) f2 \<and> evTid f1 = evTid f2 \<and> (evID f1 = Suc (evID f2) \<or> evID f2 = Suc (evID f1)))"
  by (rule fromSameParallelRegion_exact [OF team_wf team_mem team_mem]) simp_all

abbreviation team :: program_trace where
  "team \<equiv> spawn_trace (OpenMPFork (OmpFork 10 Master)) (OpenMPFork (OmpFork 10 Other))"

lemma inSameSingleBlock_exact_witness:
  "endsBefore TyOpenMPSingleEnd (getEvents (evThread team (omp_event 1 4))) 4 =
   endsBefore TyOpenMPSingleEnd (getEvents (evThread team (omp_event 2 4))) 4"
proof -
  have run: "inSameSingleBlock team (omp_event 1 4) (omp_event 2 4) = Inr True" by code_simp
  from inSameSingleBlock_exact [OF team_wf(1) team_mem team_mem run] show ?thesis by simp
qed

lemma guardedBySameTID_safe_witness:
  "guardedBySameTID team (omp_event 1 7) (omp_event 2 7) \<notin> {Inl BadOptional, Inl Diverges}"
proof -
  have "fromSameParallelRegion team (omp_event 1 7) (omp_event 2 7) = Inr True" by code_simp
  from guardedBySameTID_safe [OF team_wf team_mem team_mem this] show ?thesis by simp
qed

lemma insideCompatibleSections_exact_witness:
  "insideCompatibleSections team (omp_event 1 11) (omp_event 1 12) = Inr False"
proof -
  have sec: "collectSections (ptModule team) (max (evID (omp_event 1 11)) (evID (omp_event 1 12)))
      (getEvents (evThread team (omp_event 1 11))) [] = [omp_event 1 10, omp_event 1 12]" by code_simp
  have th: "getEvents (evThread team (omp_event 1 11)) = map (omp_event 1) [0..<13]" by code_simp
  have "insideCompatibleSections team (omp_event 1 11) (omp_event 1 12) =
      Inr (sectionOf [omp_event 1 10, omp_event 1 12] (evID (omp_event 1 11)) =
        sectionOf [omp_event 1 10, omp_event 1 12] (evID (omp_event 1 12)))"
    by (rule conjunct1 [OF insideCompatibleSections_exact [OF _ _ _ sec]])
      (simp_all only: th, simp_all add: numbered_def del: upt_Suc upt_rec_numeral)
  moreover have "evID (omp_event 1 10) \<noteq> evID (omp_event 1 12)" by simp
  then have "omp_event 1 10 \<noteq> omp_event 1 12" by metis
  ultimately show ?thesis by (simp add: sectionOf_def)
qed

end
