(* ===== verification/Reporter.thy ===== *)
theory Reporter
  imports TraceModel "HOL-Library.List_Lexorder" "HOL-Library.Char_ord" "HOL-Library.Option_ord"
    "HOL-Library.Product_Lexorder"
begin

text \<open>
  The report (src/Reporter/Reporter.h and .cpp): source locations, call stacks of accesses, and
  the ordered set of races made of the collected pairs. LLVM's debug information is a
  parameter (\<open>debug_info\<close>). Printing, JSON and reading source files are not modelled.
\<close>

section \<open>Source locations\<close>

text \<open>
  A \<open>llvm::DILocation\<close>; its scope is given by line and column when it is a
  \<open>DILexicalBlock\<close>.
\<close>

record di_location =
  diFilename :: string
  diDirectory :: string
  diLine :: nat
  diColumn :: nat
  diLexicalBlock :: "(nat \<times> nat) option"

text \<open>
  The debug location of an instruction, and what reading the line of an access without one gives: C++ leaves it
  undefined, the compiled code reads whatever is there.
\<close>

record debug_info =
  getDebugLoc :: "llvm_value \<Rightarrow> di_location option"
  strayLine :: "llvm_value \<Rightarrow> nat"

datatype source_loc = SourceLoc (filename: string) (directory: string) (line: nat) (col: nat)

definition sourceLocOf :: "di_location \<Rightarrow> source_loc" where
  "sourceLocOf loc = SourceLoc (diFilename loc) (diDirectory loc) (diLine loc) (diColumn loc)"

definition sourceLocAt :: "string \<Rightarrow> nat \<Rightarrow> nat \<Rightarrow> source_loc" where
  "sourceLocAt f l c = SourceLoc f '''' l c"

definition locEq :: "source_loc \<Rightarrow> source_loc \<Rightarrow> bool" where
  "locEq a b \<longleftrightarrow> filename a = filename b \<and> line a = line b \<and> col a = col b"

definition locLess :: "source_loc \<Rightarrow> source_loc \<Rightarrow> bool" where
  "locLess a b =
     (if filename a \<noteq> filename b then filename a < filename b
      else if line a \<noteq> line b then line a < line b
      else col a < col b)"

text \<open>The comparisons of \<open>std::optional\<close>: no value comes first.\<close>

fun optLocEq :: "source_loc option \<Rightarrow> source_loc option \<Rightarrow> bool" where
  "optLocEq None None = True"
| "optLocEq (Some a) (Some b) = locEq a b"
| "optLocEq _ _ = False"

fun optLocLess :: "source_loc option \<Rightarrow> source_loc option \<Rightarrow> bool" where
  "optLocLess _ None = False"
| "optLocLess None (Some b) = True"
| "optLocLess (Some a) (Some b) = locLess a b"

definition getSourceLoc :: "debug_info \<Rightarrow> llvm_value \<Rightarrow> source_loc option" where
  "getSourceLoc D inst = (case getDebugLoc D inst of Some diloc \<Rightarrow> Some (sourceLocOf diloc) | None \<Rightarrow> None)"

section \<open>Call stacks\<close>

datatype call_signature = CallSignature (callName: "string option") (callLoc: "source_loc option")

text \<open>The called function is dereferenced; an indirect call has none.\<close>

definition callSignature :: "llvm_module \<Rightarrow> debug_info \<Rightarrow> llvm_value \<Rightarrow> call_signature result" where
  "callSignature M D callBase =
     (case getCalledFunction M callBase of
        None \<Rightarrow> Inl NullDeref
      | Some f \<Rightarrow>
          Inr (CallSignature (if hasName M f then Some (getName M f) else None) (getSourceLoc D callBase)))"

definition pushCall ::
  "llvm_module \<Rightarrow> debug_info \<Rightarrow> event \<Rightarrow> call_signature list \<Rightarrow> call_signature list result" where
  "pushCall M D event callstack =
     rassert (isCallBase M (evInst event)) AssertFailed
       (rbind (callSignature M D (evInst event)) (\<lambda>sig. Inr (callstack @ [sig])))"

fun stackWalk ::
  "llvm_module \<Rightarrow> debug_info \<Rightarrow> event \<Rightarrow> event list \<Rightarrow> call_signature list \<Rightarrow> call_signature list result"
where
  "stackWalk M D targetEvent [] callstack = Inr callstack"
| "stackWalk M D targetEvent (event # events) callstack =
     (if evID event > evID targetEvent then Inr callstack
      else if evType event = Call
      then rbind (pushCall M D event callstack) (stackWalk M D targetEvent events)
      else if evType event = CallEnd
      then (if callstack = [] then Inl EmptyAccess else stackWalk M D targetEvent events (butlast callstack))
      else stackWalk M D targetEvent events callstack)"

definition stackFrom ::
  "program_trace \<Rightarrow> debug_info \<Rightarrow> event \<Rightarrow> call_signature list \<Rightarrow> call_signature list result" where
  "stackFrom P D targetEvent callstack =
     rbind (stackWalk (ptModule P) D targetEvent (getEvents (evThread P targetEvent)) callstack) (\<lambda>callstack.
       if isFork targetEvent then pushCall (ptModule P) D targetEvent callstack else Inr callstack)"

partial_function (option) callstackLoop ::
  "program_trace \<Rightarrow> debug_info \<Rightarrow> event \<Rightarrow> call_signature list result option" where
  "callstackLoop P D targetEvent =
     (case spawnSite (evThread P targetEvent) of
        None \<Rightarrow> Some (stackFrom P D targetEvent [])
      | Some spawn \<Rightarrow>
          Option.bind (callstackLoop P D spawn) (\<lambda>r. Some (rbind r (stackFrom P D targetEvent))))"

declare callstackLoop.simps [code]

definition computeCallstack :: "program_trace \<Rightarrow> debug_info \<Rightarrow> event \<Rightarrow> call_signature list result" where
  "computeCallstack P D targetEvent =
     (case callstackLoop P D targetEvent of None \<Rightarrow> Inl Diverges | Some r \<Rightarrow> r)"

section \<open>Accesses and races\<close>

datatype race_access =
  RaceAccess (location: "source_loc option") (accessType: event_type) (accessInst: llvm_value)
    (callstack: "call_signature list")

text \<open>
  \<open>location->line\<close> is read whether or not there is a location. A line other than 0 ends the function, so that
  an access without a location may keep none; otherwise the debug location is dereferenced. A scope that is not a lexical
  block leaves the location as it is.
\<close>

definition updateMisleadingDebugLoc :: "debug_info \<Rightarrow> race_access \<Rightarrow> race_access result" where
  "updateMisleadingDebugLoc D acc =
     (if (case location acc of Some l \<Rightarrow> line l | None \<Rightarrow> strayLine D (accessInst acc)) \<noteq> 0 then Inr acc
      else (case getDebugLoc D (accessInst acc) of
              None \<Rightarrow> Inl NullDeref
            | Some loc \<Rightarrow>
                (case diLexicalBlock loc of
                   None \<Rightarrow> Inr acc
                 | Some (fLine, fColumn) \<Rightarrow>
                     Inr (RaceAccess (Some (sourceLocAt (diFilename loc) fLine fColumn))
                       (accessType acc) (accessInst acc) (callstack acc)))))"

definition raceAccess :: "program_trace \<Rightarrow> debug_info \<Rightarrow> event \<Rightarrow> race_access result" where
  "raceAccess P D event =
     rbind (computeCallstack P D event) (\<lambda>stack.
       updateMisleadingDebugLoc D
         (RaceAccess (getSourceLoc D (evInst event)) (evType event) (evInst event) stack))"

definition accEq :: "race_access \<Rightarrow> race_access \<Rightarrow> bool" where
  "accEq a b \<longleftrightarrow> optLocEq (location a) (location b) \<and> accessInst a = accessInst b"

definition accLess :: "race_access \<Rightarrow> race_access \<Rightarrow> bool" where
  "accLess a b =
     (if \<not> optLocEq (location a) (location b) then optLocLess (location a) (location b)
      else accessInst a < accessInst b)"

text \<open>
  The constructor of \<open>Race\<close> swaps its parameters, which hide the members, so the members
  stay in the order they were given.
\<close>

datatype race = Race (raceFirst: race_access) (raceSecond: race_access)

definition mkRace :: "race_access \<Rightarrow> race_access \<Rightarrow> race" where
  "mkRace access1 access2 = Race access1 access2"

definition missingLocation :: "race \<Rightarrow> bool" where
  "missingLocation r \<longleftrightarrow> location (raceFirst r) = None \<or> location (raceSecond r) = None"

definition raceLess :: "race \<Rightarrow> race \<Rightarrow> bool" where
  "raceLess r s =
     (if \<not> accEq (raceFirst r) (raceFirst s) then accLess (raceFirst r) (raceFirst s)
      else accLess (raceSecond r) (raceSecond s))"

text \<open>\<open>std::set<Race>::insert\<close>: an equivalent race that is already there stays.\<close>

fun raceInsert :: "race \<Rightarrow> race list \<Rightarrow> race list" where
  "raceInsert r [] = [r]"
| "raceInsert r (s # races) =
     (if raceLess s r then s # raceInsert r races
      else if raceLess r s then r # s # races
      else s # races)"

definition addRace ::
  "program_trace \<Rightarrow> debug_info \<Rightarrow> event \<times> event \<Rightarrow> race list \<times> nat \<Rightarrow> (race list \<times> nat) result" where
  "addRace P D racepair s =
     rbind (raceAccess P D (fst racepair)) (\<lambda>a.
       rbind (raceAccess P D (snd racepair)) (\<lambda>b.
         let r = mkRace a b
         in Inr (if missingLocation r then (fst s, snd s + 1) else (raceInsert r (fst s), snd s))))"

text \<open>The constructor of \<open>Report\<close>; the second component counts the skipped pairs.\<close>

definition report :: "program_trace \<Rightarrow> debug_info \<Rightarrow> (event \<times> event) list \<Rightarrow> (race list \<times> nat) result" where
  "report P D racepairs = rfold (addRace P D) racepairs ([], 0)"

definition collect :: "event \<Rightarrow> event \<Rightarrow> (event \<times> event) list \<Rightarrow> (event \<times> event) list" where
  "collect e1 e2 racepairs = racepairs @ [(e1, e2)]"

definition getReport :: "program_trace \<Rightarrow> debug_info \<Rightarrow> (event \<times> event) list \<Rightarrow> race list result" where
  "getReport P D racepairs = rbind (report P D racepairs) (\<lambda>(races, skipped). Inr races)"

section \<open>The order of races\<close>

text \<open>What the comparisons look at, as a key in a linear order.\<close>

definition locKey :: "source_loc \<Rightarrow> string \<times> nat \<times> nat" where
  "locKey l = (filename l, line l, col l)"

definition accKey :: "race_access \<Rightarrow> (string \<times> nat \<times> nat) option \<times> llvm_value" where
  "accKey a = (map_option locKey (location a), accessInst a)"

definition raceKey ::
  "race \<Rightarrow> ((string \<times> nat \<times> nat) option \<times> llvm_value) \<times> ((string \<times> nat \<times> nat) option \<times> llvm_value)" where
  "raceKey r = (accKey (raceFirst r), accKey (raceSecond r))"

lemma locEq_key: "locEq a b \<longleftrightarrow> locKey a = locKey b"
  by (simp add: locEq_def locKey_def)

lemma locLess_key: "locLess a b \<longleftrightarrow> locKey a < locKey b"
  by (auto simp: locLess_def locKey_def less_prod_def')

lemma optLocEq_key: "optLocEq a b \<longleftrightarrow> map_option locKey a = map_option locKey b"
  by (cases a; cases b) (simp_all add: locEq_key)

lemma optLocLess_key: "optLocLess a b \<longleftrightarrow> map_option locKey a < map_option locKey b"
  by (cases a; cases b) (simp_all add: locLess_key)

lemma accEq_key: "accEq a b \<longleftrightarrow> accKey a = accKey b"
  by (simp add: accEq_def accKey_def optLocEq_key)

lemma accLess_key: "accLess a b \<longleftrightarrow> accKey a < accKey b"
  by (auto simp: accLess_def accKey_def optLocEq_key optLocLess_key less_prod_def')

lemma raceLess_key: "raceLess r s \<longleftrightarrow> raceKey r < raceKey s"
  by (auto simp: raceLess_def raceKey_def accEq_key accLess_key less_prod_def')

lemma raceInsert_set:
  assumes "sorted_wrt raceLess races"
  shows "sorted_wrt raceLess (raceInsert r races)"
    and "raceKey ` set (raceInsert r races) = insert (raceKey r) (raceKey ` set races)"
    and "set races \<subseteq> set (raceInsert r races)" "set (raceInsert r races) \<subseteq> insert r (set races)"
proof -
  have mem: "set races \<subseteq> set (raceInsert r races) \<and> set (raceInsert r races) \<subseteq> insert r (set races)"
    by (induction races) auto
  then show "set races \<subseteq> set (raceInsert r races)" "set (raceInsert r races) \<subseteq> insert r (set races)" by auto
  have "sorted_wrt raceLess (raceInsert r races) \<and>
      raceKey ` set (raceInsert r races) = insert (raceKey r) (raceKey ` set races)"
    using assms
  proof (induction races)
    case (Cons s races)
    have "set (raceInsert r races) \<subseteq> insert r (set races)" by (induction races) auto
    then have all: "\<forall>x \<in> set (raceInsert r races). raceLess s x" if "raceLess s r"
      using Cons.prems that by auto
    show ?case
    proof (cases "raceLess s r \<or> raceLess r s")
      case True
      with Cons all show ?thesis by (auto simp: raceLess_key)
    next
      case False
      then have "raceKey r = raceKey s" by (auto simp: raceLess_key not_less intro: antisym)
      with False Cons.prems show ?thesis by auto
    qed
  qed simp
  then show "sorted_wrt raceLess (raceInsert r races)"
    "raceKey ` set (raceInsert r races) = insert (raceKey r) (raceKey ` set races)" by auto
qed

section \<open>Reports\<close>

lemma raceAccess_location: "raceAccess P D e = Inr a \<Longrightarrow> location a = None \<longleftrightarrow> getDebugLoc D (evInst e) = None"
  by (auto simp: raceAccess_def updateMisleadingDebugLoc_def getSourceLoc_def split: option.splits if_splits)

text \<open>The race of a pair, when both accesses can be described and have a location.\<close>

definition raceOf :: "program_trace \<Rightarrow> debug_info \<Rightarrow> event \<times> event \<Rightarrow> race \<Rightarrow> bool" where
  "raceOf P D p r \<longleftrightarrow> raceAccess P D (fst p) = Inr (raceFirst r) \<and> raceAccess P D (snd p) = Inr (raceSecond r) \<and> \<not> missingLocation r"

definition unlocated :: "debug_info \<Rightarrow> event \<times> event \<Rightarrow> bool" where
  "unlocated D p \<longleftrightarrow> getDebugLoc D (evInst (fst p)) = None \<or> getDebugLoc D (evInst (snd p)) = None"

lemma addRace_insert:
  assumes "addRace P D p s = Inr s'"
  shows "if unlocated D p then s' = (fst s, snd s + 1) \<and> (\<nexists>r. raceOf P D p r)
    else \<exists>r. raceOf P D p r \<and> s' = (raceInsert r (fst s), snd s)"
proof -
  from assms obtain a b where ab: "raceAccess P D (fst p) = Inr a" "raceAccess P D (snd p) = Inr b"
    and s': "s' = (if missingLocation (mkRace a b) then (fst s, snd s + 1)
      else (raceInsert (mkRace a b) (fst s), snd s))"
    by (auto simp: addRace_def Let_def)
  have "missingLocation (mkRace a b) \<longleftrightarrow> unlocated D p"
    using raceAccess_location [OF ab(1)] raceAccess_location [OF ab(2)] by (simp add: missingLocation_def mkRace_def unlocated_def)
  moreover have "raceOf P D p r \<Longrightarrow> r = mkRace a b" for r using ab by (cases r) (auto simp: raceOf_def mkRace_def)
  moreover have "raceOf P D p (mkRace a b) \<longleftrightarrow> \<not> missingLocation (mkRace a b)" using ab by (simp add: raceOf_def mkRace_def)
  ultimately show ?thesis using s' by auto
qed

lemma raceOf_unique: "raceOf P D p r \<Longrightarrow> raceOf P D p r' \<Longrightarrow> r = r'"
  by (cases r; cases r') (simp add: raceOf_def)

lemma report_races:
  "rfold (addRace P D) pairs s = Inr s' \<Longrightarrow> sorted_wrt raceLess (fst s) \<Longrightarrow>
     sorted_wrt raceLess (fst s') \<and> snd s' = snd s + length (filter (unlocated D) pairs) \<and>
     raceKey ` set (fst s') = raceKey ` set (fst s) \<union> {raceKey r |p r. p \<in> set pairs \<and> raceOf P D p r} \<and>
     set (fst s') \<subseteq> set (fst s) \<union> {r. \<exists>p \<in> set pairs. raceOf P D p r} \<and>
     (\<forall>p \<in> set pairs. unlocated D p = (\<nexists>r. raceOf P D p r))"
proof (induction pairs arbitrary: s)
  case (Cons p pairs)
  then obtain u where u: "addRace P D p s = Inr u" "rfold (addRace P D) pairs u = Inr s'" by auto
  have split: "{raceKey r' |q r'. q \<in> set (p # pairs) \<and> raceOf P D q r'} =
      {raceKey r' |r'. raceOf P D p r'} \<union> {raceKey r' |q r'. q \<in> set pairs \<and> raceOf P D q r'}"
    unfolding list.set(2) by blast
  show ?case
  proof (cases "unlocated D p")
    case True
    with addRace_insert [OF u(1)] have p: "u = (fst s, snd s + 1)" "\<nexists>r. raceOf P D p r" by auto
    then have "sorted_wrt raceLess (fst u)" using Cons.prems(2) by simp
    from Cons.IH [OF u(2) this] p True show ?thesis unfolding split by auto
  next
    case False
    with addRace_insert [OF u(1)] obtain r where r: "raceOf P D p r" "fst u = raceInsert r (fst s)" "snd u = snd s" by auto
    note ins = raceInsert_set [OF Cons.prems(2), of r, folded r(2)]
    from Cons.IH [OF u(2) ins(1)] have IH: "sorted_wrt raceLess (fst s')" "snd s' = snd u + length (filter (unlocated D) pairs)"
      "raceKey ` set (fst s') = raceKey ` set (fst u) \<union> {raceKey r |p r. p \<in> set pairs \<and> raceOf P D p r}"
      "set (fst s') \<subseteq> set (fst u) \<union> {r. \<exists>p \<in> set pairs. raceOf P D p r}"
      "\<forall>p \<in> set pairs. unlocated D p = (\<nexists>r. raceOf P D p r)" by auto
    have "{raceKey r' |r'. raceOf P D p r'} = {raceKey r}" using r(1) raceOf_unique by blast
    then have "raceKey ` set (fst s') = raceKey ` set (fst s) \<union> {raceKey r |q r. q \<in> set (p # pairs) \<and> raceOf P D q r}"
      using IH(3) ins(2) unfolding split by auto
    moreover have "set (fst s') \<subseteq> set (fst s) \<union> {r. \<exists>q \<in> set (p # pairs). raceOf P D q r}"
      using IH(4) ins(4) r(1) by fastforce
    ultimately show ?thesis using IH r False by auto
  qed
qed simp

section \<open>Call stacks and nesting\<close>

definition directCall :: "llvm_module \<Rightarrow> event \<Rightarrow> bool" where
  "directCall M e \<longleftrightarrow> isCallBase M (evInst e) \<and> getCalledFunction M (evInst e) \<noteq> None"

definition signatureOf :: "llvm_module \<Rightarrow> debug_info \<Rightarrow> event \<Rightarrow> call_signature" where
  "signatureOf M D e =
     CallSignature (case getCalledFunction M (evInst e) of
         None \<Rightarrow> None | Some f \<Rightarrow> if hasName M f then Some (getName M f) else None)
       (getSourceLoc D (evInst e))"

lemma pushCall_direct: "directCall M e \<Longrightarrow> pushCall M D e st = Inr (st @ [signatureOf M D e])"
  by (auto simp: directCall_def pushCall_def callSignature_def signatureOf_def)

lemma stackWalk_balanced:
  "balanced es \<Longrightarrow> \<forall>e \<in> set es. evID e \<le> evID t \<and> (evType e = Call \<longrightarrow> directCall M e) \<Longrightarrow>
     stackWalk M D t (es @ rest) st = stackWalk M D t rest st"
proof (induction arbitrary: rest st rule: balanced.induct)
  case (3 es fs c d)
  then have "stackWalk M D t (c # es @ d # fs @ rest) st =
      stackWalk M D t (es @ d # fs @ rest) (st @ [signatureOf M D c])"
    by (simp add: pushCall_direct)
  also have "\<dots> = stackWalk M D t (d # fs @ rest) (st @ [signatureOf M D c])" using 3 by simp
  also have "\<dots> = stackWalk M D t (fs @ rest) st" using 3 by simp
  also have "\<dots> = stackWalk M D t rest st" using 3 by simp
  finally show ?case by simp
qed auto

lemma stackWalk_nested:
  "\<forall>(c, b) \<in> set cs. evType c = Call \<and> directCall M c \<and> evID c \<le> evID t \<and> balanced b \<and>
       (\<forall>e \<in> set b. evID e \<le> evID t \<and> (evType e = Call \<longrightarrow> directCall M e)) \<Longrightarrow>
     rest = [] \<or> evID t < evID (hd rest) \<Longrightarrow>
     stackWalk M D t (concat (map (\<lambda>(c, b). c # b) cs) @ rest) st = Inr (st @ map (signatureOf M D \<circ> fst) cs)"
proof (induction cs arbitrary: st)
  case Nil
  then show ?case by (cases rest) auto
next
  case (Cons cb cs)
  obtain c b where cb: "cb = (c, b)" by (cases cb)
  with Cons.prems have "stackWalk M D t (c # b @ concat (map (\<lambda>(c, b). c # b) cs) @ rest) st =
      stackWalk M D t (b @ concat (map (\<lambda>(c, b). c # b) cs) @ rest) (st @ [signatureOf M D c])"
    by (simp add: pushCall_direct)
  also have "\<dots> = stackWalk M D t (concat (map (\<lambda>(c, b). c # b) cs) @ rest) (st @ [signatureOf M D c])"
    by (rule stackWalk_balanced) (use Cons.prems cb in auto)
  finally show ?case using Cons cb by simp
qed

lemma callstackLoop_returns:
  assumes wf: "wf_events P" "wf_spawn_tree P"
  shows "t \<in> set (getThreads P) \<Longrightarrow> evTid e = ttID t \<Longrightarrow> callstackLoop P D e \<noteq> None"
proof (induction "evTid e" arbitrary: e t rule: less_induct)
  case less
  show ?case
  proof (cases "spawnSite (evThread P e)")
    case None
    then show ?thesis by (subst callstackLoop.simps) simp
  next
    case (Some f)
    from spawn_decreases [OF wf less.prems Some] less.hyps [of f] have "callstackLoop P D f \<noteq> None" by blast
    with Some show ?thesis by (subst callstackLoop.simps) auto
  qed
qed

lemma computeCallstack_unfold:
  "computeCallstack P D e =
     (case spawnSite (evThread P e) of
        None \<Rightarrow> stackFrom P D e []
      | Some s \<Rightarrow> rbind (computeCallstack P D s) (stackFrom P D e))"
  by (subst computeCallstack_def, subst callstackLoop.simps)
    (auto simp: computeCallstack_def rbind_def split: option.splits)

section \<open>Properties\<close>

text \<open>
  C40. A report lists, in ascending order and without duplicates, one race for every collected
  pair of accesses that both have a debug location, up to the locations and instructions of its accesses, and
  nothing else; the pairs with an access that has none are exactly those that are skipped, and they are counted.
\<close>

theorem report_exact:
  assumes "report P D pairs = Inr (races, skipped)"
  shows "sorted_wrt raceLess races \<and> skipped = length (filter (unlocated D) pairs) \<and>
    raceKey ` set races = {raceKey r |p r. p \<in> set pairs \<and> raceOf P D p r} \<and>
    set races \<subseteq> {r. \<exists>p \<in> set pairs. raceOf P D p r} \<and>
    (\<forall>p \<in> set pairs. unlocated D p = (\<nexists>r. raceOf P D p r))"
  using report_races [OF assms [unfolded report_def]] by simp

text \<open>
  The call stack of an event is the call stack of its thread's spawn site followed by the
  calls of its thread that are entered and not left at the event, in order, and the fork itself
  when the event is one.
\<close>

theorem callstack_exact:
  assumes "t = evThread P e"
    and "getEvents t = b0 @ concat (map (\<lambda>(c, b). c # b) cs) @ rest"
    and "rest = [] \<or> evID e < evID (hd rest)"
    and "balanced b0" and "\<forall>(c, b) \<in> set cs. evType c = Call \<and> balanced b"
    and "\<forall>x \<in> set (b0 @ concat (map (\<lambda>(c, b). c # b) cs)).
      evID x \<le> evID e \<and> (evType x = Call \<longrightarrow> directCall (ptModule P) x)"
    and "isFork e \<longrightarrow> directCall (ptModule P) e"
    and "case spawnSite t of None \<Rightarrow> base = [] | Some s \<Rightarrow> computeCallstack P D s = Inr base"
  shows "computeCallstack P D e = Inr (base @ map (signatureOf (ptModule P) D \<circ> fst) cs @
    (if isFork e then [signatureOf (ptModule P) D e] else []))"
proof -
  have "stackWalk (ptModule P) D e (getEvents t) base =
      stackWalk (ptModule P) D e (concat (map (\<lambda>(c, b). c # b) cs) @ rest) base"
    unfolding assms(2) by (rule stackWalk_balanced) (use assms(4,6) in auto)
  also have "\<dots> = Inr (base @ map (signatureOf (ptModule P) D \<circ> fst) cs)"
  proof (rule stackWalk_nested [OF _ assms(3)], clarify)
    fix c b assume cb: "(c, b) \<in> set cs"
    then have sub: "set (c # b) \<subseteq> set (b0 @ concat (map (\<lambda>(c, b). c # b) cs))" by fastforce
    from cb assms(5) have "evType c = Call \<and> balanced b" by auto
    with sub assms(6) show "evType c = Call \<and> directCall (ptModule P) c \<and> evID c \<le> evID e \<and> balanced b \<and>
        (\<forall>e' \<in> set b. evID e' \<le> evID e \<and> (evType e' = Call \<longrightarrow> directCall (ptModule P) e'))"
      by (simp add: subset_iff)
  qed
  finally have "stackFrom P D e base = Inr (base @ map (signatureOf (ptModule P) D \<circ> fst) cs @
    (if isFork e then [signatureOf (ptModule P) D e] else []))"
    using assms(1,7) by (simp add: stackFrom_def pushCall_direct)
  then show ?thesis
    using assms(1,8) by (subst computeCallstack_unfold) (auto split: option.splits)
qed

text \<open>
  The call stack of every event of a well-formed trace is found: the search returns.
\<close>

lemma callstack_returns:
  assumes "wf_events P" and "wf_spawn_tree P" and "e \<in> set (allEvents P)"
  shows "\<exists>r. callstackLoop P D e = Some r \<and> computeCallstack P D e = r"
proof -
  from assms(3) obtain t where "t \<in> set (getThreads P)" "e \<in> set (getEvents t)" by (auto simp: allEvents_def)
  with callstackLoop_returns [OF assms(1,2)] wf_eventsD(1) [OF assms(1)]
  obtain r where "callstackLoop P D e = Some r" by blast
  then show ?thesis by (simp add: computeCallstack_def)
qed

subsection \<open>Witnesses\<close>

text \<open>
  The main thread calls a function that forks thread 1, and writes after it returns; thread 1
  makes a call that returns and one that does not, and writes there.
\<close>

definition stack_trace :: program_trace where
  "stack_trace =
     (let fork = Event Fork 1 0 0 (PthreadCreate 11) [] None
      in \<lparr> ptModule = empty_module\<lparr> classOf := (\<lambda>v. CallInst), getCalledFunction := (\<lambda>i. Some i) \<rparr>,
       ptPta = \<lparr> contextEvolve = (\<lambda>c i. c), getPointsTo = (\<lambda>c v. []), getDirectNodeOrNull = (\<lambda>c f. None),
         getResolvedNode = (\<lambda>c i. []), nodeFunction = (\<lambda>n. n), nodeContext = (\<lambda>n. 0),
         isExtFunction = (\<lambda>n. False), objValue = (\<lambda>b. None) \<rparr>,
       getThreads =
         [\<lparr> ttID = 0, spawnSite = None, getEvents =
            [Event Call 0 0 0 (CallIR 10) [] None, fork, Event CallEnd 2 0 0 (CallIR 10) [] None,
             Event Write 3 0 0 (Store 13) [7] None] \<rparr>,
          \<lparr> ttID = 1, spawnSite = Some fork, getEvents =
            [Event Call 0 1 0 (CallIR 20) [] None, Event CallEnd 1 1 0 (CallIR 20) [] None,
             Event Call 2 1 0 (CallIR 22) [] None, Event Write 3 1 0 (Store 23) [7] None] \<rparr>] \<rparr>)"

definition stack_debug :: debug_info where
  "stack_debug = \<lparr> getDebugLoc = (\<lambda>i. if i = 14 then None
       else Some \<lparr> diFilename = ''a.c'', diDirectory = ''d'', diLine = i, diColumn = 1, diLexicalBlock = None \<rparr>),
     strayLine = (\<lambda>i. 77) \<rparr>"

lemma report_exact_witness:
  "\<exists>races. report stack_trace stack_debug
     [(Event Write 3 0 0 (Store 13) [7] None, Event Write 3 1 0 (Store 23) [7] None),
      (Event Write 3 0 0 (Store 14) [7] None, Event Write 3 1 0 (Store 23) [7] None),
      (Event Write 3 0 0 (Store 13) [7] None, Event Write 3 1 0 (Store 23) [7] None)] = Inr (races, 1) \<and>
   sorted_wrt raceLess races \<and> length races = 1"
proof -
  let ?p = "[(Event Write 3 0 0 (Store 13) [7] None, Event Write 3 1 0 (Store 23) [7] None),
      (Event Write 3 0 0 (Store 14) [7] None, Event Write 3 1 0 (Store 23) [7] None),
      (Event Write 3 0 0 (Store 13) [7] None, Event Write 3 1 0 (Store 23) [7] None)]"
  have "map_sum (\<lambda>_. ()) (\<lambda>(races, n). (length races, n)) (report stack_trace stack_debug ?p) = Inr (1, 1)"
    by code_simp
  then obtain races where r: "report stack_trace stack_debug ?p = Inr (races, 1)" "length races = 1"
    by (auto simp: map_sum_def split: sum.splits)
  from report_exact [OF r(1)] r show ?thesis by auto
qed

lemma callstack_exact_witness:
  "computeCallstack stack_trace stack_debug (Event Write 3 1 0 (Store 23) [7] None) =
   Inr (map (\<lambda>i. CallSignature None (Some (SourceLoc ''a.c'' ''d'' i 1))) [10, 11, 22])"
proof -
  let ?e = "Event Write 3 1 0 (Store 23) [7] None" and ?f = "Event Fork 1 0 0 (PthreadCreate 11) [] None"
  have base: "computeCallstack stack_trace stack_debug ?f =
      Inr (map (\<lambda>i. CallSignature None (Some (SourceLoc ''a.c'' ''d'' i 1))) [10, 11])" by code_simp
  have t: "evThread stack_trace ?e = \<lparr> ttID = 1, spawnSite = Some ?f, getEvents =
            [Event Call 0 1 0 (CallIR 20) [] None, Event CallEnd 1 1 0 (CallIR 20) [] None,
             Event Call 2 1 0 (CallIR 22) [] None, ?e] \<rparr>" by code_simp
  have bal: "balanced [Event Call 0 1 0 (CallIR 20) [] None, Event CallEnd 1 1 0 (CallIR 20) [] None]"
    using balanced.intros(3) [of "[]" "[]" "Event Call 0 1 0 (CallIR 20) [] None"
      "Event CallEnd 1 1 0 (CallIR 20) [] None"] by (simp add: balanced.intros)
  have "computeCallstack stack_trace stack_debug ?e =
      Inr (map (\<lambda>i. CallSignature None (Some (SourceLoc ''a.c'' ''d'' i 1))) [10, 11] @
        map (signatureOf (ptModule stack_trace) stack_debug \<circ> fst)
          [(Event Call 2 1 0 (CallIR 22) [] None, [?e])] @
        (if isFork ?e then [signatureOf (ptModule stack_trace) stack_debug ?e] else []))"
    by (rule callstack_exact [OF t [symmetric], of
        "[Event Call 0 1 0 (CallIR 20) [] None, Event CallEnd 1 1 0 (CallIR 20) [] None]" _ "[]"])
      (use base bal in \<open>simp_all add: balanced.intros directCall_def isCallBase_def stack_trace_def
        evInst_def isFork_def Let_def\<close>)
  then show ?thesis
    by (simp add: signatureOf_def stack_trace_def stack_debug_def Let_def isFork_def evInst_def
      getSourceLoc_def sourceLocOf_def empty_module_def)
qed

lemma callstack_returns_witness:
  "\<exists>r. callstackLoop stack_trace stack_debug (Event Write 3 1 0 (Store 23) [7] None) = Some r"
proof -
  have "wf_events stack_trace" "wf_spawn_tree stack_trace"
    by (simp_all add: stack_trace_def Let_def wf_events_def wf_spawn_tree_def All_less_Suc)
  moreover have "Event Write 3 1 0 (Store 23) [7] None \<in> set (allEvents stack_trace)"
    by (simp add: stack_trace_def Let_def allEvents_def)
  ultimately show ?thesis using callstack_returns by blast
qed

end
