(* ===== verification/Coverage.thy ===== *)
theory Coverage
  imports TraceModel "HOL-Library.List_Lexorder" "HOL-Library.Char_ord"
begin

text \<open>
  The coverage statistics (src/Statistics/Coverage.h and .cpp): the functions of the module,
  those the trace visits, and those it does not, by signature. How LLVM prints a function type
  and looks a function up by its name are parameters.
\<close>

section \<open>Definitions\<close>

record coverage_data =
  total :: "(string \<times> llvm_value) list"
  analyzed :: "(string \<times> llvm_value) list"
  unAnalyzed :: "string list"
  numOpenMPRegions :: nat

record printer =
  printFunctionType :: "llvm_value \<Rightarrow> string"
  functionNamed :: "string \<Rightarrow> llvm_value option"

definition isExternal :: "llvm_module \<Rightarrow> llvm_value \<Rightarrow> bool" where
  "isExternal M fn \<longleftrightarrow> isDeclaration M fn \<or> isIntrinsic M fn"

definition getSignature :: "llvm_module \<Rightarrow> printer \<Rightarrow> llvm_value \<Rightarrow> string" where
  "getSignature M F fn = printFunctionType F fn @ '' '' @ getName M fn"

definition recordFn ::
  "llvm_module \<Rightarrow> printer \<Rightarrow> llvm_value option \<Rightarrow> (string \<times> llvm_value) list \<Rightarrow> (string \<times> llvm_value) list"
where
  "recordFn M F fn m =
     (case fn of
        None \<Rightarrow> m
      | Some f \<Rightarrow> if isExternal M f then m else om_insert (getSignature M F f) f m)"

text \<open>The counter of regions is an \<open>unsigned int\<close>.\<close>

definition coverEvent :: "llvm_module \<Rightarrow> printer \<Rightarrow> event \<Rightarrow> coverage_data \<Rightarrow> coverage_data result" where
  "coverEvent M F event d =
     (case evType event of
        Call \<Rightarrow> Inr (d\<lparr> analyzed := recordFn M F (evCalledFunction M event) (analyzed d) \<rparr>)
      | Fork \<Rightarrow>
          rassert (isCallBase M (evInst event)) AssertFailed
            (rbind (isForkCall M (Some (evInst event))) (\<lambda>b.
               Inr (if b then d\<lparr> numOpenMPRegions := (numOpenMPRegions d + 1) mod 2 ^ 32 \<rparr> else d)))
      | _ \<Rightarrow> Inr d)"

definition coverThread ::
  "llvm_module \<Rightarrow> printer \<Rightarrow> thread_trace \<Rightarrow> coverage_data \<Rightarrow> coverage_data result" where
  "coverThread M F thread d =
     (case getEvents thread of
        [] \<Rightarrow>
          (case spawnSite thread of
             None \<Rightarrow> Inl BadOptional
           | Some spawn \<Rightarrow>
               rbind (getThreadEntry M (evIR spawn)) (\<lambda>entry.
                 Inr (if classOf M entry = FunctionV
                      then d\<lparr> analyzed := recordFn M F (Some entry) (analyzed d) \<rparr> else d)))
      | firstEvent # _ \<Rightarrow>
          rfold (coverEvent M F) (getEvents thread)
            (d\<lparr> analyzed := recordFn M F (Some (evFunction M firstEvent)) (analyzed d) \<rparr>))"

definition summarize :: "program_trace \<Rightarrow> printer \<Rightarrow> coverage_data \<Rightarrow> coverage_data result" where
  "summarize P F d =
     (let M = ptModule P in
      if analyzed d \<noteq> [] \<or> total d \<noteq> [] then Inr d
      else rfold (coverThread M F) (getThreads P)
             (d\<lparr> total := fold (\<lambda>func. recordFn M F (functionNamed F (getName M func)))
                  (getFunctionList M) (total d) \<rparr>))"

definition computeFnCoverage :: "coverage_data \<Rightarrow> coverage_data" where
  "computeFnCoverage d =
     d\<lparr> unAnalyzed := fold (\<lambda>(sig, fn) un. if map_of (analyzed d) sig = None then sorted_insert sig un else un)
          (total d) (unAnalyzed d) \<rparr>"

definition coverage :: "program_trace \<Rightarrow> printer \<Rightarrow> coverage_data result" where
  "coverage P F =
     rbind (summarize P F \<lparr> total = [], analyzed = [], unAnalyzed = [], numOpenMPRegions = 0 \<rparr>)
       (\<lambda>d. Inr (computeFnCoverage d))"

section \<open>The functions a trace visits\<close>

definition signatures :: "llvm_module \<Rightarrow> printer \<Rightarrow> llvm_value set \<Rightarrow> string set" where
  "signatures M F fns = getSignature M F ` {f \<in> fns. \<not> isExternal M f}"

definition visitedBy :: "llvm_module \<Rightarrow> thread_trace \<Rightarrow> llvm_value set" where
  "visitedBy M t =
     (case getEvents t of
        [] \<Rightarrow> {f. \<exists>s. spawnSite t = Some s \<and> getThreadEntry M (evIR s) = Inr f \<and> classOf M f = FunctionV}
      | e # _ \<Rightarrow> insert (evFunction M e)
          {f. \<exists>c \<in> set (getEvents t). evType c = Call \<and> evCalledFunction M c = Some f})"

definition keys :: "(string \<times> llvm_value) list \<Rightarrow> string set" where
  "keys m = fst ` set m"

lemma keys_recordFn:
  "keys (recordFn M F fn m) = keys m \<union> signatures M F {f. fn = Some f}"
proof (cases fn)
  case (Some f)
  have put: "fst ` set (om_put k v m) = insert k (fst ` set m)" for k v
    using om_put_keys [of k v m] by simp
  show ?thesis
  proof (cases "map_of m (getSignature M F f)")
    case None
    then show ?thesis using Some
      by (auto simp: recordFn_def keys_def signatures_def om_insert_def put)
  next
    case (Some g)
    then have "getSignature M F f \<in> fst ` set m" by (metis image_eqI map_of_SomeD fst_conv)
    with Some \<open>fn = Some f\<close> show ?thesis
      by (auto simp: recordFn_def keys_def signatures_def om_insert_def)
  qed
qed (simp add: recordFn_def signatures_def)

lemma signatures_Un: "signatures M F (A \<union> B) = signatures M F A \<union> signatures M F B"
  by (auto simp: signatures_def)

lemma coverEvent_exact:
  assumes "coverEvent M F e d = Inr d'"
  shows "keys (analyzed d') = keys (analyzed d) \<union>
      signatures M F {f. evType e = Call \<and> evCalledFunction M e = Some f} \<and>
    total d' = total d \<and> unAnalyzed d' = unAnalyzed d"
  using assms
  by (cases "evType e")
    (auto simp: coverEvent_def keys_recordFn signatures_def split: if_splits)

lemma coverEvents_exact:
  "rfold (coverEvent M F) es d = Inr d' \<Longrightarrow>
     keys (analyzed d') = keys (analyzed d) \<union>
       signatures M F {f. \<exists>e \<in> set es. evType e = Call \<and> evCalledFunction M e = Some f} \<and>
     total d' = total d \<and> unAnalyzed d' = unAnalyzed d"
proof (induction es arbitrary: d)
  case (Cons e es)
  then obtain d1 where d1: "coverEvent M F e d = Inr d1" "rfold (coverEvent M F) es d1 = Inr d'" by auto
  have "{f. \<exists>x \<in> set (e # es). evType x = Call \<and> evCalledFunction M x = Some f} =
      {f. evType e = Call \<and> evCalledFunction M e = Some f} \<union>
      {f. \<exists>x \<in> set es. evType x = Call \<and> evCalledFunction M x = Some f}" by auto
  with coverEvent_exact [OF d1(1)] Cons.IH [OF d1(2)] show ?case by (simp add: signatures_Un Un_assoc)
qed (simp add: signatures_def)

lemma coverThread_exact:
  assumes "coverThread M F t d = Inr d'"
  shows "keys (analyzed d') = keys (analyzed d) \<union> signatures M F (visitedBy M t) \<and>
    total d' = total d \<and> unAnalyzed d' = unAnalyzed d"
proof (cases "getEvents t")
  case Nil
  with assms obtain s f where s: "spawnSite t = Some s" "getThreadEntry M (evIR s) = Inr f"
    and d': "d' = (if classOf M f = FunctionV
      then d\<lparr> analyzed := recordFn M F (Some f) (analyzed d) \<rparr> else d)"
    by (auto simp: coverThread_def split: option.splits)
  have "visitedBy M t = {g. g = f \<and> classOf M f = FunctionV}"
    using Nil s by (auto simp: visitedBy_def)
  then show ?thesis by (simp add: d' keys_recordFn signatures_def)
next
  case (Cons e es)
  with assms have "rfold (coverEvent M F) (getEvents t)
      (d\<lparr> analyzed := recordFn M F (Some (evFunction M e)) (analyzed d) \<rparr>) = Inr d'"
    by (simp add: coverThread_def)
  from coverEvents_exact [OF this] Cons show ?thesis
    by (simp add: keys_recordFn visitedBy_def Un_assoc flip: signatures_Un)
qed

lemma coverThreads_exact:
  "rfold (coverThread M F) ts d = Inr d' \<Longrightarrow>
     keys (analyzed d') = keys (analyzed d) \<union> signatures M F (\<Union>t \<in> set ts. visitedBy M t) \<and>
     total d' = total d \<and> unAnalyzed d' = unAnalyzed d"
proof (induction ts arbitrary: d)
  case (Cons t ts)
  then obtain d1 where "coverThread M F t d = Inr d1" "rfold (coverThread M F) ts d1 = Inr d'" by auto
  with coverThread_exact Cons.IH show ?case by (simp add: signatures_Un Un_assoc)
qed (simp add: signatures_def)

lemma keys_total:
  "keys (fold (\<lambda>func. recordFn M F (g func)) fs m) =
     keys m \<union> signatures M F {f. \<exists>x \<in> set fs. g x = Some f}"
proof (induction fs arbitrary: m)
  case (Cons x fs)
  have "{f. \<exists>y \<in> set (x # fs). g y = Some f} = {f. g x = Some f} \<union> {f. \<exists>y \<in> set fs. g y = Some f}" by auto
  with Cons.IH show ?case by (simp add: keys_recordFn signatures_Un Un_assoc)
qed (simp add: signatures_def)

lemma unAnalyzed_exact:
  "sorted_wrt (<) un \<Longrightarrow>
     sorted_wrt (<) (fold (\<lambda>(sig, fn) un. if map_of a sig = None then sorted_insert sig un else un) m un) \<and>
     set (fold (\<lambda>(sig, fn) un. if map_of a sig = None then sorted_insert sig un else un) m un) =
       set un \<union> (keys m - keys a)"
proof (induction m arbitrary: un)
  case (Cons p m)
  obtain sig fn where p: "p = (sig, fn)" by (cases p)
  have "map_of a sig = None \<longleftrightarrow> sig \<notin> keys a" by (simp add: map_of_eq_None_iff keys_def)
  with Cons p show ?case by (auto simp: keys_def sorted_sorted_insert)
qed (simp add: keys_def)

section \<open>Properties\<close>

text \<open>
  The coverage lists are exact: the total are the signatures of the module's functions with
  a body, the analysed those of the functions the trace's threads start in or call, and the
  unvisited are the rest of the total, sorted and without duplicates.
\<close>

theorem coverage_exact:
  assumes "coverage P F = Inr d"
  shows "keys (total d) = signatures (ptModule P) F
      {f. \<exists>x \<in> set (getFunctionList (ptModule P)). functionNamed F (getName (ptModule P) x) = Some f} \<and>
    keys (analyzed d) = signatures (ptModule P) F (\<Union>t \<in> set (getThreads P). visitedBy (ptModule P) t) \<and>
    sorted_wrt (<) (unAnalyzed d) \<and> set (unAnalyzed d) = keys (total d) - keys (analyzed d)"
proof -
  from assms obtain d0 where d0: "summarize P F \<lparr> total = [], analyzed = [], unAnalyzed = [], numOpenMPRegions = 0 \<rparr> = Inr d0"
    and d: "d = computeFnCoverage d0" by (auto simp: coverage_def)
  from d0 have "rfold (coverThread (ptModule P) F) (getThreads P)
      \<lparr> total = fold (\<lambda>func. recordFn (ptModule P) F (functionNamed F (getName (ptModule P) func)))
         (getFunctionList (ptModule P)) [], analyzed = [], unAnalyzed = [], numOpenMPRegions = 0 \<rparr> = Inr d0"
    by (simp add: summarize_def Let_def)
  from coverThreads_exact [OF this]
  have *: "keys (analyzed d0) = signatures (ptModule P) F (\<Union>t \<in> set (getThreads P). visitedBy (ptModule P) t)"
    "keys (total d0) = signatures (ptModule P) F
      {f. \<exists>x \<in> set (getFunctionList (ptModule P)). functionNamed F (getName (ptModule P) x) = Some f}"
    "unAnalyzed d0 = []" by (simp_all add: keys_total) (simp_all add: keys_def)
  with unAnalyzed_exact [of "[]" "analyzed d0" "total d0"] show ?thesis
    by (simp add: d computeFnCoverage_def)
qed

subsection \<open>Witness\<close>

text \<open>Function 10 calls 11; 12 is not visited, 13 is a declaration.\<close>

definition cover_trace :: program_trace where
  "cover_trace = \<lparr> ptModule = empty_module
       \<lparr> getFunctionList := [10, 11, 12, 13], isDeclaration := (\<lambda>f. f = 13), getFunction := (\<lambda>i. 10),
         getName := (\<lambda>f. replicate (f - 9) CHR ''f''), getCalledFunction := (\<lambda>i. Some 11), hasName := (\<lambda>v. True) \<rparr>,
     ptPta = \<lparr> contextEvolve = (\<lambda>c i. c), getPointsTo = (\<lambda>c v. []), getDirectNodeOrNull = (\<lambda>c f. None),
       getResolvedNode = (\<lambda>c i. []), nodeFunction = (\<lambda>n. n), nodeContext = (\<lambda>n. 0),
       isExtFunction = (\<lambda>n. False), objValue = (\<lambda>b. None) \<rparr>,
     getThreads = [\<lparr> ttID = 0, spawnSite = None, getEvents = [Event Call 0 0 0 (CallIR 20) [] None] \<rparr>] \<rparr>"

definition cover_printer :: printer where
  "cover_printer = \<lparr> printFunctionType = (\<lambda>f. ''void ()''),
     functionNamed = (\<lambda>n. if n = [] then None else Some (length n + 9)) \<rparr>"

lemma coverage_exact_witness:
  "\<exists>d. coverage cover_trace cover_printer = Inr d \<and> unAnalyzed d = [''void () fff''] \<and>
     set (unAnalyzed d) = keys (total d) - keys (analyzed d)"
proof -
  have "map_sum (\<lambda>_. ()) unAnalyzed (coverage cover_trace cover_printer) = Inr [''void () fff'']"
    by code_simp
  then obtain d where d: "coverage cover_trace cover_printer = Inr d" "unAnalyzed d = [''void () fff'']"
    by (auto simp: map_sum_def split: sum.splits)
  from coverage_exact [OF d(1)] d show ?thesis by auto
qed

end
