(* ===== verification/RaceDetect.thy ===== *)
theory RaceDetect
  imports HappensBefore LockSet SharedMemory AliasAnalyses OpenMPRegions Reporter Coverage
begin

text \<open>
  The detector (src/RaceDetect.h and .cpp): it runs the analyses on a program trace, tries the
  pairs of accesses of every shared object, discards those that some analysis excludes, and
  reports the rest. Printing and the dump of the preprocessed IR are not modelled.
\<close>

section \<open>Definitions\<close>

record analyses =
  happensbefore :: sync_graph
  simpleAlias :: alias_oracle
  arrayAnalysis :: array_analysis
  lastprivate :: "llvm_value list"

record detect_state =
  lockset :: lock_cache
  reduceBlocks :: reduce_cache
  racepairs :: "(event \<times> event) list"

text \<open>The tests on two accesses of one team: whether the pair is discarded.\<close>

definition ompExcludes ::
  "program_trace \<Rightarrow> analyses \<Rightarrow> event \<Rightarrow> event \<Rightarrow> detect_state \<Rightarrow> (bool \<times> detect_state) result" where
  "ompExcludes P A write other s =
     (if isNonOverlappingLoopAccess (arrayAnalysis A) write other then Inr (True, s)
      else rbind (inSameSingleBlock P write other) (\<lambda>single.
        if single then Inr (True, s)
        else rbind (inSameReduce P write other (reduceBlocks s)) (\<lambda>(reduce, cache).
          let s = s\<lparr> reduceBlocks := cache \<rparr> in
          if reduce then Inr (True, s)
          else rbind (insideCompatibleSections P write other) (\<lambda>sections.
            if sections then Inr (True, s)
            else rbind (guardedBySameTID P write other) (\<lambda>guarded.
              if guarded then Inr (True, s)
              else Inr (isInLastprivate (ptModule P) (lastprivate A) write \<and>
                     isInLastprivate (ptModule P) (lastprivate A) other, s))))))"

definition checkRace ::
  "program_trace \<Rightarrow> analyses \<Rightarrow> event \<Rightarrow> event \<Rightarrow> detect_state \<Rightarrow> detect_state result" where
  "checkRace P A write other s =
     (if \<not> areParallel (happensbefore A) write other then Inr s
      else
        (let (shares, locks) = sharesLock P write other (lockset s);
             s = s\<lparr> lockset := locks \<rparr> in
         if shares then Inr s
         else if isThreadLocalAccess P write other then Inr s
         else if mustNotAlias (ptModule P) (simpleAlias A) write other then Inr s
         else rbind (fromSameParallelRegion P write other) (\<lambda>team.
           rbind (if team then ompExcludes P A write other s else Inr (False, s)) (\<lambda>(excluded, s).
             Inr (if excluded then s
                  else s\<lparr> racepairs := collect write other (racepairs s) \<rparr>)))))"

text \<open>The loops over the writes and reads of one shared object, grouped by thread.\<close>

type_synonym check = "event \<Rightarrow> event \<Rightarrow> detect_state \<Rightarrow> detect_state result"

definition checkAll :: "check \<Rightarrow> event list \<Rightarrow> event list \<Rightarrow> detect_state \<Rightarrow> detect_state result" where
  "checkAll f writes others = rfold (\<lambda>write. rfold (\<lambda>other. f write other) others) writes"

definition checkReads ::
  "check \<Rightarrow> thread_id \<Rightarrow> event list \<Rightarrow> threaded \<Rightarrow> detect_state \<Rightarrow> detect_state result" where
  "checkReads f wtid writes =
     rfold (\<lambda>(rtid, reads) s. if wtid = rtid then Inr s else checkAll f writes reads s)"

definition checkOtherWrites :: "check \<Rightarrow> event list \<Rightarrow> threaded \<Rightarrow> detect_state \<Rightarrow> detect_state result" where
  "checkOtherWrites f writes = rfold (\<lambda>(tid, otherWrites). checkAll f writes otherWrites)"

fun checkWrites :: "check \<Rightarrow> threaded \<Rightarrow> threaded \<Rightarrow> detect_state \<Rightarrow> detect_state result" where
  "checkWrites f threadedReads [] s = Inr s"
| "checkWrites f threadedReads ((wtid, writes) # rest) s =
     rbind (checkReads f wtid writes threadedReads s) (\<lambda>s.
       rbind (checkOtherWrites f writes rest s) (checkWrites f threadedReads rest))"

definition checkObject ::
  "check \<Rightarrow> shared_memory \<Rightarrow> pta_obj \<Rightarrow> detect_state \<Rightarrow> detect_state result" where
  "checkObject f sharedmem sharedObj =
     checkWrites f (getThreadedReads sharedmem sharedObj) (getThreadedWrites sharedmem sharedObj)"

definition collectRaces :: "program_trace \<Rightarrow> analyses \<Rightarrow> (event \<times> event) list result" where
  "collectRaces P A =
     rbind (getSharedObjects (sharedMemory P)) (\<lambda>objs.
       rbind (rfold (checkObject (checkRace P A) (sharedMemory P)) objs
           \<lparr> lockset = [], reduceBlocks = [], racepairs = [] \<rparr>) (\<lambda>s.
         Inr (racepairs s)))"

text \<open>
  What is outside the repository's sources, or not modelled: LLVM's alias answers and debug
  information, the array index analysis, and how function types print.
\<close>

record oracles =
  aliasOracle :: alias_oracle
  arrayOracle :: array_analysis
  debugOracle :: debug_info
  printerOracle :: printer

definition runAnalyses :: "program_trace \<Rightarrow> oracles \<Rightarrow> analyses result" where
  "runAnalyses P orc =
     rbind (happensBeforeGraph P) (\<lambda>hb.
       rbind (lastprivateBlocks (ptModule P)) (\<lambda>blocks.
         Inr \<lparr> happensbefore = hb, simpleAlias = aliasOracle orc, arrayAnalysis = arrayOracle orc,
               lastprivate = blocks \<rparr>))"

definition detectRaces :: "program_trace \<Rightarrow> oracles \<Rightarrow> bool \<Rightarrow> race list result" where
  "detectRaces P orc doCoverage =
     rbind (runAnalyses P orc) (\<lambda>A.
       rbind (collectRaces P A) (\<lambda>pairs.
         rbind (if doCoverage then rbind (coverage P (printerOracle orc)) (\<lambda>d. Inr (Some d)) else Inr None)
           (\<lambda>_. getReport P (debugOracle orc) pairs)))"

section \<open>The specification\<close>

text \<open>
  Two accesses conflict when they are of different threads, may touch a common object, the
  first is a write, and the second a read, or a write of a later thread.
\<close>

definition conflicting :: "program_trace \<Rightarrow> event \<Rightarrow> event \<Rightarrow> bool" where
  "conflicting P w a \<longleftrightarrow> w \<in> set (allEvents P) \<and> a \<in> set (allEvents P) \<and> evType w = Write \<and>
     set (evMemory w) \<inter> set (evMemory a) \<noteq> {} \<and>
     (evType a = Read \<and> evTid w \<noteq> evTid a \<or> evType a = Write \<and> evTid w < evTid a)"

text \<open>
  The reduction both accesses are in: the first reduction of the thread, before the first
  access, that has one of them has both.
\<close>

fun reduceSpec :: "llvm_module \<Rightarrow> event \<Rightarrow> event \<Rightarrow> event list \<Rightarrow> bool" where
  "reduceSpec M e1 e2 [] = False"
| "reduceSpec M e1 e2 (e # es) =
     (if evID e = evID e1 then False
      else if evIRType e = TyOpenMPReduce \<and>
          (getParent M (evInst e1) \<in> reduceRegion M (evInst e) \<or> getParent M (evInst e2) \<in> reduceRegion M (evInst e))
      then getParent M (evInst e1) \<in> reduceRegion M (evInst e) \<and> getParent M (evInst e2) \<in> reduceRegion M (evInst e)
      else reduceSpec M e1 e2 es)"

definition ompExcluded :: "program_trace \<Rightarrow> analyses \<Rightarrow> event \<Rightarrow> event \<Rightarrow> bool" where
  "ompExcluded P A w a \<longleftrightarrow> isNonOverlappingLoopAccess (arrayAnalysis A) w a \<or>
     inSameSingleBlock P w a = Inr True \<or>
     reduceSpec (ptModule P) w a (getEvents (evThread P w)) \<or>
     insideCompatibleSections P w a = Inr True \<or> guardedBySameTID P w a = Inr True \<or>
     (isInLastprivate (ptModule P) (lastprivate A) w \<and> isInLastprivate (ptModule P) (lastprivate A) a)"

definition racing :: "program_trace \<Rightarrow> analyses \<Rightarrow> event \<Rightarrow> event \<Rightarrow> bool" where
  "racing P A w a \<longleftrightarrow> areParallel (happensbefore A) w a \<and> \<not> (\<exists>v. holdsLock P w v \<and> holdsLock P a v) \<and>
     \<not> isThreadLocalAccess P w a \<and> \<not> mustNotAlias (ptModule P) (simpleAlias A) w a \<and>
     \<not> (fromSameParallelRegion P w a = Inr True \<and> ompExcluded P A w a)"

definition state_sound :: "program_trace \<Rightarrow> detect_state \<Rightarrow> bool" where
  "state_sound P s \<longleftrightarrow> lock_cache_sound P (lockset s) \<and> reduce_cache_sound (ptModule P) (reduceBlocks s)"

section \<open>One pair\<close>

lemma sameReduceLoop_exact:
  "sameReduceLoop M e1 e2 es cache = Inr (b, cache') \<Longrightarrow> reduce_cache_sound M cache \<Longrightarrow>
     (b \<longleftrightarrow> reduceSpec M e1 e2 es) \<and> reduce_cache_sound M cache'"
proof (induction es arbitrary: cache)
  case (Cons e es)
  show ?case
  proof (cases "evID e \<noteq> evID e1 \<and> evIRType e = TyOpenMPReduce")
    case True
    with Cons.prems(1) obtain b1 c1 b2 c2 where
      r1: "reduceContains M (evInst e) (evInst e1) cache = Inr (b1, c1)" and
      r2: "reduceContains M (evInst e) (evInst e2) c1 = Inr (b2, c2)" and
      rest: "(if b1 \<and> b2 then Inr (True, c2) else if b1 \<or> b2 then Inr (False, c2)
        else sameReduceLoop M e1 e2 es c2) = Inr (b, cache')" by auto
    from r1 Cons.prems(2) have s1: "b1 \<longleftrightarrow> getParent M (evInst e1) \<in> reduceRegion M (evInst e)"
      "reduce_cache_sound M c1" by (auto simp: reduceContains_def dest: getReduceBlocks_exact)
    from r2 s1(2) have s2: "b2 \<longleftrightarrow> getParent M (evInst e2) \<in> reduceRegion M (evInst e)"
      "reduce_cache_sound M c2" by (auto simp: reduceContains_def dest: getReduceBlocks_exact)
    from rest s1 s2 True Cons.IH [of c2] show ?thesis by (auto split: if_splits)
  next
    case False
    with Cons show ?thesis by (auto split: if_splits)
  qed
qed simp

lemma ompExcludes_exact:
  assumes "ompExcludes P A w a s = Inr (b, s')" and "state_sound P s"
  shows "(b \<longleftrightarrow> ompExcluded P A w a) \<and> state_sound P s' \<and> racepairs s' = racepairs s"
proof (cases "isNonOverlappingLoopAccess (arrayAnalysis A) w a")
  case True
  with assms show ?thesis by (auto simp: ompExcludes_def ompExcluded_def)
next
  case False
  with assms obtain single where single: "inSameSingleBlock P w a = Inr single" by (auto simp: ompExcludes_def)
  show ?thesis
  proof (cases single)
    case True
    with False single assms show ?thesis by (auto simp: ompExcludes_def ompExcluded_def)
  next
    case nosingle: False
    with False single assms obtain red c where red: "inSameReduce P w a (reduceBlocks s) = Inr (red, c)"
      by (auto simp: ompExcludes_def)
    from sameReduceLoop_exact [OF red [unfolded inSameReduce_def]] assms(2)
    have spec: "red \<longleftrightarrow> reduceSpec (ptModule P) w a (getEvents (evThread P w))"
      "reduce_cache_sound (ptModule P) c" by (auto simp: state_sound_def)
    with False single nosingle red assms show ?thesis
      by (auto simp: ompExcludes_def ompExcluded_def state_sound_def Let_def split: if_splits)
  qed
qed

lemma checkRace_exact:
  assumes "checkRace P A w a s = Inr s'" and "state_sound P s"
  shows "state_sound P s' \<and> racepairs s' = racepairs s @ (if racing P A w a then [(w, a)] else [])"
proof (cases "areParallel (happensbefore A) w a")
  case False
  with assms show ?thesis by (auto simp: checkRace_def racing_def)
next
  case par: True
  obtain shares locks where lk: "sharesLock P w a (lockset s) = (shares, locks)" by fastforce
  from assms(2) have "lock_cache_sound P (lockset s)" by (simp add: state_sound_def)
  from sharesLock_value [OF this, of w a]
  have sh: "shares \<longleftrightarrow> (\<exists>v. holdsLock P w v \<and> holdsLock P a v)" "lock_cache_sound P locks"
    by (simp_all add: lk)
  let ?s = "s\<lparr> lockset := locks \<rparr>"
  have snd: "state_sound P ?s" using sh(2) assms(2) by (simp add: state_sound_def)
  show ?thesis
  proof (cases "shares \<or> isThreadLocalAccess P w a \<or> mustNotAlias (ptModule P) (simpleAlias A) w a")
    case True
    with assms(1) par have "s' = ?s" by (auto simp: checkRace_def lk Let_def split: if_splits)
    with snd True sh show ?thesis by (auto simp: racing_def)
  next
    case False
    with assms(1) par obtain team where team: "fromSameParallelRegion P w a = Inr team"
      by (auto simp: checkRace_def lk Let_def)
    with False assms(1) par obtain ex u where
      ex: "(if team then ompExcludes P A w a ?s else Inr (False, ?s)) = Inr (ex, u)" and
      s': "s' = (if ex then u else u\<lparr> racepairs := collect w a (racepairs u) \<rparr>)"
      by (auto simp: checkRace_def lk Let_def)
    have "(ex \<longleftrightarrow> team \<and> ompExcluded P A w a) \<and> state_sound P u \<and> racepairs u = racepairs s"
      using ex snd ompExcludes_exact [of P A w a ?s ex u] by (cases team) auto
    with s' False sh(1) par team show ?thesis
      by (auto simp: racing_def collect_def state_sound_def)
  qed
qed

section \<open>The loops over the pairs\<close>

definition appends ::
  "program_trace \<Rightarrow> (detect_state \<Rightarrow> detect_state result) \<Rightarrow> (event \<times> event) list \<Rightarrow> bool" where
  "appends P m ps \<longleftrightarrow> (\<forall>s s'. m s = Inr s' \<longrightarrow> state_sound P s \<longrightarrow>
     state_sound P s' \<and> racepairs s' = racepairs s @ ps)"

lemma appends_skip [intro]: "appends P Inr []"
  by (simp add: appends_def)

lemma appends_bind:
  "appends P m ps \<Longrightarrow> appends P m' ps' \<Longrightarrow> appends P (\<lambda>s. rbind (m s) m') (ps @ ps')"
  by (fastforce simp: appends_def)

lemma appends_rfold:
  "(\<And>x. x \<in> set xs \<Longrightarrow> appends P (f x) (g x)) \<Longrightarrow> appends P (rfold f xs) (concat (map g xs))"
proof (induction xs)
  case Nil
  show ?case by (simp add: appends_def)
next
  case (Cons x xs)
  then have "appends P (\<lambda>s. rbind (f x s) (rfold f xs)) (g x @ concat (map g xs))"
    by (intro appends_bind) auto
  then show ?case by (simp add: appends_def)
qed

definition racingPairs :: "program_trace \<Rightarrow> analyses \<Rightarrow> (event \<times> event) list \<Rightarrow> (event \<times> event) list" where
  "racingPairs P A = filter (\<lambda>(w, a). racing P A w a)"

lemma racingPairs_append: "racingPairs P A (xs @ ys) = racingPairs P A xs @ racingPairs P A ys"
  by (simp add: racingPairs_def)

lemma racingPairs_concat: "racingPairs P A (concat xss) = concat (map (racingPairs P A) xss)"
  by (simp add: racingPairs_def filter_concat)

lemma checkAll_appends: "appends P (checkAll (checkRace P A) ws as) (racingPairs P A (List.product ws as))"
proof -
  have "appends P (rfold (checkRace P A w) as) (racingPairs P A (map (Pair w) as))" for w
  proof -
    have "appends P (rfold (checkRace P A w) as) (concat (map (\<lambda>a. if racing P A w a then [(w, a)] else []) as))"
      by (rule appends_rfold) (use checkRace_exact in \<open>auto simp: appends_def\<close>)
    moreover have "concat (map (\<lambda>a. if racing P A w a then [(w, a)] else []) as) =
        racingPairs P A (map (Pair w) as)" by (induction as) (auto simp: racingPairs_def)
    ultimately show ?thesis by simp
  qed
  then have "appends P (rfold (\<lambda>w. rfold (checkRace P A w) as) ws)
      (concat (map (\<lambda>w. racingPairs P A (map (Pair w) as)) ws))" by (intro appends_rfold) auto
  moreover have "concat (map (\<lambda>w. racingPairs P A (map (Pair w) as)) ws) = racingPairs P A (List.product ws as)"
    by (simp add: product_concat_map racingPairs_concat comp_def)
  ultimately show ?thesis unfolding checkAll_def by (simp only:)
qed

text \<open>The pairs that are tried for one object, from its reads and writes by thread.\<close>

fun objectPairs :: "threaded \<Rightarrow> threaded \<Rightarrow> (event \<times> event) list" where
  "objectPairs R [] = []"
| "objectPairs R ((wtid, writes) # rest) =
     concat (map (\<lambda>(rtid, reads). if wtid = rtid then [] else List.product writes reads) R) @
     concat (map (\<lambda>(tid, others). List.product writes others) rest) @ objectPairs R rest"

lemma checkWrites_appends:
  "appends P (checkWrites (checkRace P A) R W) (racingPairs P A (objectPairs R W))"
proof (induction W)
  case Nil
  show ?case by (simp add: racingPairs_def appends_def)
next
  case (Cons tw rest)
  obtain wtid writes where tw: "tw = (wtid, writes)" by (cases tw)
  have "appends P (checkReads (checkRace P A) wtid writes R)
      (concat (map (\<lambda>(rtid, reads). racingPairs P A (if wtid = rtid then [] else List.product writes reads)) R))"
    unfolding checkReads_def
  proof (rule appends_rfold, clarify)
    fix rtid reads
    show "appends P (\<lambda>s. if wtid = rtid then Inr s else checkAll (checkRace P A) writes reads s)
        (racingPairs P A (if wtid = rtid then [] else List.product writes reads))"
      using checkAll_appends [of P A writes reads] by (simp add: appends_def racingPairs_def)
  qed
  moreover have "appends P (checkOtherWrites (checkRace P A) writes rest)
      (concat (map (\<lambda>(tid, others). racingPairs P A (List.product writes others)) rest))"
    unfolding checkOtherWrites_def by (rule appends_rfold) (auto simp: checkAll_appends)
  ultimately have "appends P (\<lambda>s. rbind (checkReads (checkRace P A) wtid writes R s)
      (\<lambda>s. rbind (checkOtherWrites (checkRace P A) writes rest s) (checkWrites (checkRace P A) R rest)))
      (concat (map (\<lambda>(rtid, reads). racingPairs P A (if wtid = rtid then [] else List.product writes reads)) R) @
       concat (map (\<lambda>(tid, others). racingPairs P A (List.product writes others)) rest) @
       racingPairs P A (objectPairs R rest))"
    by (intro appends_bind Cons.IH)
  moreover have "racingPairs P A (objectPairs R (tw # rest)) =
      concat (map (\<lambda>(rtid, reads). racingPairs P A (if wtid = rtid then [] else List.product writes reads)) R) @
      concat (map (\<lambda>(tid, others). racingPairs P A (List.product writes others)) rest) @
      racingPairs P A (objectPairs R rest)"
    by (simp add: tw racingPairs_append racingPairs_concat comp_def split_def)
  ultimately show ?case by (simp add: tw appends_def)
qed

lemma objectPairs_mem:
  "om_sorted W \<Longrightarrow> (w, a) \<in> set (objectPairs R W) \<longleftrightarrow>
     (\<exists>t u. t \<noteq> u \<and> w \<in> set (om_at [] t W) \<and> (\<exists>rs. (u, rs) \<in> set R \<and> a \<in> set rs)) \<or>
     (\<exists>t u. t < u \<and> w \<in> set (om_at [] t W) \<and> a \<in> set (om_at [] u W))"
proof (induction W)
  case Nil
  then show ?case by (simp add: om_at_def)
next
  case (Cons tw W)
  obtain t ws where tw: "tw = (t, ws)" by (cases tw)
  have W: "om_sorted W" and lt: "\<And>u os. (u, os) \<in> set W \<Longrightarrow> t < u"
    using Cons.prems by (force simp: om_sorted_def tw)+
  have at: "x \<in> set (om_at [] u W) \<longleftrightarrow> (\<exists>os. (u, os) \<in> set W \<and> x \<in> set os)" for x u
    unfolding om_mem_iff [OF W] by (cases "map_of W u") (auto simp: om_at_def)
  have at': "x \<in> set (om_at [] u (tw # W)) \<longleftrightarrow>
      (u = t \<and> x \<in> set ws) \<or> (\<exists>os. (u, os) \<in> set W \<and> x \<in> set os)" for x u
  proof (cases "u = t")
    case True
    with lt show ?thesis by (auto simp: om_at_def tw)
  next
    case False
    then have "om_at [] u (tw # W) = om_at [] u W" by (simp add: om_at_def tw)
    with False at show ?thesis by simp
  qed
  show ?case
    using lt by (auto simp: tw at at' [unfolded tw] Cons.IH [OF W] split: if_splits) (metis less_asym less_irrefl)+
qed

lemma checkObjects_appends:
  "appends P (rfold (checkObject (checkRace P A) sm) objs)
     (concat (map (\<lambda>obj. racingPairs P A (objectPairs (getThreadedReads sm obj) (getThreadedWrites sm obj))) objs))"
proof (rule appends_rfold)
  fix obj
  have "checkObject (checkRace P A) sm obj =
      checkWrites (checkRace P A) (getThreadedReads sm obj) (getThreadedWrites sm obj)"
    by (rule ext) (simp add: checkObject_def)
  then show "appends P (checkObject (checkRace P A) sm obj)
      (racingPairs P A (objectPairs (getThreadedReads sm obj) (getThreadedWrites sm obj)))"
    using checkWrites_appends by simp
qed

lemma accesses_conflict:
  assumes wf: "wf_events P"
  shows "(\<exists>obj t u. t \<noteq> u \<and> w \<in> set (accessesBy (traceAccesses P) Write obj t) \<and>
        a \<in> set (accessesBy (traceAccesses P) Read obj u)) \<or>
      (\<exists>obj t u. t < u \<and> w \<in> set (accessesBy (traceAccesses P) Write obj t) \<and>
        a \<in> set (accessesBy (traceAccesses P) Write obj u)) \<longleftrightarrow> conflicting P w a"
proof -
  have acc: "e \<in> set (accessesBy (traceAccesses P) ty obj t) \<longleftrightarrow>
      e \<in> set (allEvents P) \<and> evTid e = t \<and> evType e = ty \<and> obj \<in> set (evMemory e)"
    if "ty = Read \<or> ty = Write" for e ty obj t
    using that wf_eventsD(1) [OF wf]
    by (auto simp: accessesBy_mem traceAccesses_mem isMemAccess_def allEvents_def)
  show ?thesis by (auto simp: acc conflicting_def)
qed

text \<open>Every object two accesses of different threads share, one of them writing, is a shared object.\<close>

lemma objectPairs_conflicting:
  assumes wf: "wf_events P" and objs: "set objs = {obj. sharedObject P obj}"
  shows "(\<exists>obj \<in> set objs. (w, a) \<in> set (objectPairs (getThreadedReads (sharedMemory P) obj)
      (getThreadedWrites (sharedMemory P) obj))) \<longleftrightarrow> conflicting P w a"
proof -
  let ?R = "getThreadedReads (sharedMemory P)" and ?W = "getThreadedWrites (sharedMemory P)"
  note srt = getThreaded_sorted [of P] and at = threaded_accesses [of _ P]
  have mem: "(\<exists>rs. (u, rs) \<in> set (?R obj) \<and> a \<in> set rs) \<longleftrightarrow> a \<in> set (om_at [] u (?R obj))" for u obj
    unfolding om_mem_iff [OF srt(1)] by (cases "map_of (?R obj) u") (auto simp: om_at_def)
  have pairs: "(w, a) \<in> set (objectPairs (?R obj) (?W obj)) \<longleftrightarrow>
      (\<exists>t u. t \<noteq> u \<and> w \<in> set (accessesBy (traceAccesses P) Write obj t) \<and>
        a \<in> set (accessesBy (traceAccesses P) Read obj u)) \<or>
      (\<exists>t u. t < u \<and> w \<in> set (accessesBy (traceAccesses P) Write obj t) \<and>
        a \<in> set (accessesBy (traceAccesses P) Write obj u))" for obj
    unfolding objectPairs_mem [OF srt(2)] mem by (simp add: at)
  have sh: "sharedObject P obj"
    if "t \<noteq> u" "w \<in> set (accessesBy (traceAccesses P) Write obj t)"
      "a \<in> set (accessesBy (traceAccesses P) Read obj u) \<or> a \<in> set (accessesBy (traceAccesses P) Write obj u)"
    for obj t u
  proof -
    from that have "accessesBy (traceAccesses P) Write obj t \<noteq> []"
      "accessesBy (traceAccesses P) Read obj u \<noteq> [] \<or> accessesBy (traceAccesses P) Write obj u \<noteq> []" by auto
    with that(1) show ?thesis unfolding sharedObject_def by (metis accessedBy_iff)
  qed
  have "sharedObject P obj" if "(w, a) \<in> set (objectPairs (?R obj) (?W obj))" for obj
    using that [unfolded pairs] by (elim disjE exE conjE) (rule sh; auto)+
  then have "(\<exists>obj \<in> set objs. (w, a) \<in> set (objectPairs (?R obj) (?W obj))) \<longleftrightarrow>
      (\<exists>obj. (w, a) \<in> set (objectPairs (?R obj) (?W obj)))"
    unfolding objs by blast
  then show ?thesis unfolding pairs using accesses_conflict [OF wf, of w a] by blast
qed

lemma collectRaces_set:
  assumes wf: "wf_events P" and run: "collectRaces P A = Inr pairs"
  shows "set pairs = {(w, a). conflicting P w a \<and> racing P A w a}"
proof -
  from run obtain objs s where objs: "getSharedObjects (sharedMemory P) = Inr objs"
    and s: "rfold (checkObject (checkRace P A) (sharedMemory P)) objs
      \<lparr> lockset = [], reduceBlocks = [], racepairs = [] \<rparr> = Inr s" "pairs = racepairs s"
    by (auto simp: collectRaces_def)
  have "state_sound P \<lparr> lockset = [], reduceBlocks = [], racepairs = [] \<rparr>"
    by (simp add: state_sound_def lock_cache_sound_def reduce_cache_sound_def)
  with checkObjects_appends [of P A "sharedMemory P" objs] s
  have pairs: "pairs = concat (map (\<lambda>obj. racingPairs P A (objectPairs
      (getThreadedReads (sharedMemory P) obj) (getThreadedWrites (sharedMemory P) obj))) objs)"
    by (fastforce simp: appends_def)
  have "set objs = {obj. sharedObject P obj}"
    using getSharedObjects_set [of P] objs by auto
  from objectPairs_conflicting [OF wf this] show ?thesis by (auto simp: pairs racingPairs_def)
qed

section \<open>Properties\<close>

text \<open>
  C9. The pairs the detector collects are exactly the conflicting accesses (of different
  threads, on a common object, at least one a write) that no analysis excludes: none is lost by
  the grouping into shared objects and threads, and the caches change no answer.
\<close>

theorem collectRaces_exact:
  assumes "wf_events P" and "collectRaces P A = Inr pairs"
  shows "set pairs = {(w, a). conflicting P w a \<and> racing P A w a}"
  by (rule collectRaces_set [OF assms])

text \<open>Two events neither of which happens before the other.\<close>

definition concurrent :: "program_trace \<Rightarrow> event \<Rightarrow> event \<Rightarrow> bool" where
  "concurrent P w a \<longleftrightarrow> (w, a) \<notin> happensBefore P \<and> (a, w) \<notin> happensBefore P"

definition discarded :: "program_trace \<Rightarrow> analyses \<Rightarrow> event \<Rightarrow> event \<Rightarrow> bool" where
  "discarded P A w a \<longleftrightarrow> (\<exists>v. holdsLock P w v \<and> holdsLock P a v) \<or> isThreadLocalAccess P w a \<or>
     mustNotAlias (ptModule P) (simpleAlias A) w a \<or>
     (fromSameParallelRegion P w a = Inr True \<and> ompExcluded P A w a)"

lemma detectRaces_value:
  assumes "wf_trace P" and "detectRaces P orc cov = Inr races"
  shows "sorted_wrt raceLess races \<and> (\<exists>A. runAnalyses P orc = Inr A \<and>
    raceKey ` set races = {raceKey r |w a r. conflicting P w a \<and> concurrent P w a \<and>
      \<not> discarded P A w a \<and> raceOf P (debugOracle orc) (w, a) r})"
proof -
  have wf: "wf_events P" using assms(1) by (simp add: wf_trace_def)
  from assms(2) obtain A pairs where A: "runAnalyses P orc = Inr A" and pairs: "collectRaces P A = Inr pairs"
    and "getReport P (debugOracle orc) pairs = Inr races" by (auto simp: detectRaces_def)
  then obtain skipped where "report P (debugOracle orc) pairs = Inr (races, skipped)"
    by (auto simp: getReport_def)
  from report_races [OF this [unfolded report_def]]
  have srt: "sorted_wrt raceLess races"
    and keys: "raceKey ` set races = {raceKey r |p r. p \<in> set pairs \<and> raceOf P (debugOracle orc) p r}" by auto
  from A have hb: "happensBeforeGraph P = Inr (happensbefore A)" by (auto simp: runAnalyses_def)
  have "racing P A w a \<longleftrightarrow> concurrent P w a \<and> \<not> discarded P A w a" if "conflicting P w a" for w a
  proof -
    from that have "w \<in> set (allEvents P)" "a \<in> set (allEvents P)" "evTid w \<noteq> evTid a"
      by (auto simp: conflicting_def)
    with canReach_cross [OF assms(1) hb] have "areParallel (happensbefore A) w a \<longleftrightarrow> concurrent P w a"
      by (auto simp: areParallel_def concurrent_def)
    then show ?thesis by (auto simp: racing_def discarded_def)
  qed
  then have "set pairs = {(w, a). conflicting P w a \<and> concurrent P w a \<and> \<not> discarded P A w a}"
    unfolding collectRaces_set [OF wf pairs] by auto
  then have "{raceKey r |p r. p \<in> set pairs \<and> raceOf P (debugOracle orc) p r} =
      {raceKey r |w a r. conflicting P w a \<and> concurrent P w a \<and> \<not> discarded P A w a \<and>
        raceOf P (debugOracle orc) (w, a) r}" by auto
  with keys have "raceKey ` set races = {raceKey r |w a r. conflicting P w a \<and> concurrent P w a \<and>
      \<not> discarded P A w a \<and> raceOf P (debugOracle orc) (w, a) r}" by (rule trans)
  with srt A show ?thesis by blast
qed


subsection \<open>Witnesses\<close>

definition demo_oracles :: oracles where
  "demo_oracles =
     \<lparr> aliasOracle = \<lparr> hasMemoryLocation = (\<lambda>i. False), scopedNoAlias = (\<lambda>f i j. False) \<rparr>,
       arrayOracle = \<lparr> isLoopArrayAccess = (\<lambda>e f. False), canIndexOverlap = (\<lambda>e f. True) \<rparr>,
       debugOracle = \<lparr> getDebugLoc = (\<lambda>i. Some \<lparr> diFilename = ''a.c'', diDirectory = [], diLine = i, diColumn = 1,
         diLexicalBlock = None \<rparr>), strayLine = (\<lambda>i. 0) \<rparr>,
       printerOracle = \<lparr> printFunctionType = (\<lambda>f. []), functionNamed = (\<lambda>n. None) \<rparr> \<rparr>"

lemma collectRaces_exact_witness:
  "\<exists>A. runAnalyses (hb_trace 12) demo_oracles = Inr A \<and>
     racing (hb_trace 12) A (Event Write 1 0 0 (Store 11) [7] None) (Event Write 0 1 0 (Store 14) [7] None)"
proof -
  have "rbind (runAnalyses (hb_trace 12) demo_oracles) (collectRaces (hb_trace 12)) =
      Inr [(Event Write 1 0 0 (Store 11) [7] None, Event Write 0 1 0 (Store 14) [7] None)]" by code_simp
  then obtain A where A: "runAnalyses (hb_trace 12) demo_oracles = Inr A" "collectRaces (hb_trace 12) A =
      Inr [(Event Write 1 0 0 (Store 11) [7] None, Event Write 0 1 0 (Store 14) [7] None)]" by auto
  have "wf_events (hb_trace 12)" using hb_demo_wf by (simp add: wf_trace_def)
  from collectRaces_exact [OF this A(2)] A(1) show ?thesis by auto
qed

text \<open>The same trace with instructions that are direct calls, for the call stacks.\<close>

definition det_trace :: program_trace where
  "det_trace = (hb_trace 12)\<lparr> ptModule := hb_module
     \<lparr> classOf := (\<lambda>v. CallInst), getCalledFunction := (\<lambda>i. Some i) \<rparr> \<rparr>"

lemma det_trace_wf: "wf_trace det_trace"
  using hb_demo_wf [of 12]
  by (simp add: det_trace_def wf_trace_def wf_events_def wf_spawns_def allEvents_def)


end
