(* ===== verification/OpenMPRuntime.thy ===== *)
theory OpenMPRuntime
  imports TraceModel
begin

text \<open>
  The state of a thread under construction (src/Trace/Build/TraceBuilder.h, CallStack.h) and
  the OpenMP runtime model that the trace builder consults before every IR element and around
  every fork (src/Trace/Build/OpenMPRuntime.h and .cpp).
\<close>

section \<open>The state of a thread under construction\<close>

text \<open>
  \<open>spawnSites\<close> are the spawn sites of the thread, of the thread that spawned it, and so on
  up to the main thread, which has none; the thread's own \<open>spawnSite\<close> is the first of
  them. \<open>einfo\<close> is the context of the shared \<open>EventInfo\<close> (its thread is the thread
  itself).
\<close>

record thread_state =
  tsThread :: thread_id
  spawnSites :: "event list"
  tsEvents :: "event list"
  tsChildThreads :: "thread_tree list"
  skipUntil :: "llvm_value option"
  einfo :: pta_ctx
  callstack :: "llvm_value list"

definition tsSpawnSite :: "thread_state \<Rightarrow> event option" where
  "tsSpawnSite ts = (case spawnSites ts of [] \<Rightarrow> None | s # _ \<Rightarrow> Some s)"

definition initThread :: "thread_id \<Rightarrow> event list \<Rightarrow> thread_state" where
  "initThread tid sites =
     \<lparr> tsThread = tid, spawnSites = sites, tsEvents = [], tsChildThreads = [], skipUntil = None,
       einfo = 0, callstack = [] \<rparr>"

text \<open>The numbering of every event: \<open>state.events.size()\<close>.\<close>

definition pushEvent :: "(nat \<Rightarrow> event) \<Rightarrow> thread_state \<Rightarrow> thread_state" where
  "pushEvent mk ts = ts\<lparr> tsEvents := tsEvents ts @ [mk (length (tsEvents ts))] \<rparr>"

definition csContains :: "llvm_value \<Rightarrow> llvm_value list \<Rightarrow> bool" where
  "csContains func stack \<longleftrightarrow> func \<in> set stack"

definition csPush :: "llvm_value \<Rightarrow> llvm_value list \<Rightarrow> llvm_value list" where
  "csPush func stack = stack @ [func]"

definition csPop :: "llvm_value list \<Rightarrow> llvm_value list result" where
  "csPop stack = (if stack = [] then Inl EmptyAccess else Inr (butlast stack))"

section \<open>The runtime model\<close>

record omp_runtime =
  inTeamsregion :: bool
  inSingleRegion :: bool
  masterRegions :: "(llvm_value \<times> llvm_value) list"
  currentMasterStart :: "llvm_value option"
  unjoinedTasks :: "(event \<times> llvm_value) list"

definition initRuntime :: omp_runtime where
  "initRuntime = \<lparr> inTeamsregion = False, inSingleRegion = False, masterRegions = [],
     currentMasterStart = None, unjoinedTasks = [] \<rparr>"

definition isOpenMPTeamSpecific :: "ir \<Rightarrow> bool" where
  "isOpenMPTeamSpecific ir \<longleftrightarrow>
     (let type = irType ir in
      type = TyOpenMPBarrier \<or> type = TyOpenMPCriticalStart \<or> type = TyOpenMPCriticalEnd \<or>
      type = TyOpenMPSetLock \<or> type = TyOpenMPUnsetLock)"

definition isOpenMPThread :: "thread_state \<Rightarrow> omp_fork option" where
  "isOpenMPThread ts =
     (case tsSpawnSite ts of
        None \<Rightarrow> None
      | Some site \<Rightarrow> (case evIR site of OpenMPFork f \<Rightarrow> Some f | _ \<Rightarrow> None))"

definition isOpenMPMasterThread :: "thread_state \<Rightarrow> bool" where
  "isOpenMPMasterThread ts =
     (case isOpenMPThread ts of None \<Rightarrow> False | Some f \<Rightarrow> isForkingMaster f)"

definition markMasterStart :: "llvm_value \<Rightarrow> omp_runtime \<Rightarrow> omp_runtime result" where
  "markMasterStart start rt =
     rassert (currentMasterStart rt = None) AssertFailed (Inr (rt\<lparr> currentMasterStart := Some start \<rparr>))"

definition markMasterEnd :: "llvm_value \<Rightarrow> omp_runtime \<Rightarrow> omp_runtime result" where
  "markMasterEnd end' rt =
     (case currentMasterStart rt of
        None \<Rightarrow> Inl AssertFailed
      | Some start \<Rightarrow>
          Inr (rt\<lparr> masterRegions := om_insert start end' (masterRegions rt), currentMasterStart := None \<rparr>))"

definition getMasterRegionEnd :: "llvm_value \<Rightarrow> omp_runtime \<Rightarrow> llvm_value result" where
  "getMasterRegionEnd start rt =
     (case map_of (masterRegions rt) start of None \<Rightarrow> Inl OutOfRange | Some e \<Rightarrow> Inr e)"

definition pushTaskJoin :: "event \<times> llvm_value \<Rightarrow> thread_state \<Rightarrow> thread_state" where
  "pushTaskJoin task ts =
     pushEvent (\<lambda>eid. mkTaskJoinEvent (OpenMPTaskJoin (snd task)) (tsThread ts) (einfo ts) eid (fst task)) ts"

text \<open>\<open>preVisit\<close>: whether to skip the element, and the new states.\<close>

definition preVisit ::
  "ir \<Rightarrow> omp_runtime \<Rightarrow> thread_state \<Rightarrow> (bool \<times> omp_runtime \<times> thread_state) result" where
  "preVisit ir rt ts =
     (if inTeamsregion rt \<and> isOpenMPTeamSpecific ir then Inr (True, rt, ts)
      else if irType ir = TyOpenMPTaskFork \<and> inSingleRegion rt \<and> \<not> isOpenMPMasterThread ts
      then Inr (True, rt, ts)
      else if irType ir = TyOpenMPForkTeams then Inr (False, rt\<lparr> inTeamsregion := True \<rparr>, ts)
      else if irType ir = TyOpenMPBarrier \<or> irType ir = TyOpenMPTaskWait \<or> irType ir = TyOpenMPJoin
      then Inr (False, rt\<lparr> unjoinedTasks := [] \<rparr>, fold pushTaskJoin (unjoinedTasks rt) ts)
      else if irType ir = TyOpenMPMasterStart then
        (if \<not> isOpenMPMasterThread ts
         then rbind (getMasterRegionEnd (getInst ir) rt) (\<lambda>end'.
                Inr (True, rt, ts\<lparr> skipUntil := Some end' \<rparr>))
         else rbind (markMasterStart (getInst ir) rt) (\<lambda>rt. Inr (False, rt, ts)))
      else if irType ir = TyOpenMPMasterEnd then
        (if isOpenMPMasterThread ts
         then rbind (markMasterEnd (getInst ir) rt) (\<lambda>rt. Inr (False, rt, ts))
         else Inr (False, rt, ts))
      else Inr (False,
        (if irType ir = TyOpenMPSingleStart then rt\<lparr> inSingleRegion := True \<rparr>
         else if irType ir = TyOpenMPSingleEnd then rt\<lparr> inSingleRegion := False \<rparr> else rt), ts))"

definition preFork :: "ir \<Rightarrow> event \<Rightarrow> omp_runtime \<Rightarrow> omp_runtime" where
  "preFork forkIR forkEvent rt =
     (if irType forkIR = TyOpenMPTaskFork
      then rt\<lparr> unjoinedTasks := unjoinedTasks rt @ [(forkEvent, getInst forkIR)] \<rparr> else rt)"

definition postFork :: "ir \<Rightarrow> omp_runtime \<Rightarrow> omp_runtime" where
  "postFork forkIR rt =
     (if irType forkIR = TyOpenMPForkTeams then rt\<lparr> inTeamsregion := False \<rparr> else rt)"

section \<open>What the model may do to a thread\<close>

text \<open>
  A thread has grown by the events \<open>new\<close>: everything but the events and the skip target is
  as before.
\<close>

definition grown :: "thread_state \<Rightarrow> event list \<Rightarrow> thread_state \<Rightarrow> bool" where
  "grown ts new ts' \<longleftrightarrow> tsEvents ts' = tsEvents ts @ new \<and> tsThread ts' = tsThread ts \<and>
     spawnSites ts' = spawnSites ts \<and> tsChildThreads ts' = tsChildThreads ts \<and>
     einfo ts' = einfo ts \<and> callstack ts' = callstack ts"

text \<open>Events that continue the numbering of a thread.\<close>

definition continues :: "thread_state \<Rightarrow> event list \<Rightarrow> bool" where
  "continues ts new \<longleftrightarrow>
     (\<forall>k < length new. evID (new ! k) = length (tsEvents ts) + k \<and> evTid (new ! k) = tsThread ts)"

lemma pushTaskJoins:
  "\<exists>new. grown ts new (fold pushTaskJoin tasks ts) \<and> continues ts new \<and>
     map evForkEvent new = map (Some \<circ> fst) tasks \<and> (\<forall>e \<in> set new. evType e = Join)"
proof (induction tasks arbitrary: ts)
  case Nil
  show ?case by (intro exI [of _ "[]"]) (simp add: grown_def continues_def)
next
  case (Cons t tasks)
  let ?e = "mkTaskJoinEvent (OpenMPTaskJoin (snd t)) (tsThread ts) (einfo ts) (length (tsEvents ts)) (fst t)"
  from Cons.IH [of "pushTaskJoin t ts"] obtain new where new:
    "grown (pushTaskJoin t ts) new (fold pushTaskJoin (t # tasks) ts)" "continues (pushTaskJoin t ts) new"
    "map evForkEvent new = map (Some \<circ> fst) tasks" "\<forall>e \<in> set new. evType e = Join" by auto
  have "grown ts (?e # new) (fold pushTaskJoin (t # tasks) ts)"
    using new(1) by (simp add: grown_def pushTaskJoin_def pushEvent_def)
  moreover have "continues ts (?e # new)"
    using new(2) by (auto simp: continues_def pushTaskJoin_def pushEvent_def mkTaskJoinEvent_def nth_Cons'
      less_Suc_eq_0_disj)
  ultimately show ?case using new(3,4) by (intro exI [of _ "?e # new"]) (simp add: mkTaskJoinEvent_def)
qed

lemma preVisit_grown:
  assumes "preVisit ir rt ts = Inr (b, rt', ts')"
  shows "\<exists>new. grown ts new ts' \<and> continues ts new \<and> (\<forall>e \<in> set new. evType e = Join)"
proof -
  have same: "\<exists>new. grown ts new u \<and> continues ts new \<and> (\<forall>e \<in> set new. evType e = Join)"
    if "u = ts \<or> (\<exists>x. u = ts\<lparr> skipUntil := x \<rparr>)" for u
    using that by (intro exI [of _ "[]"]) (auto simp: grown_def continues_def)
  from assms have "(ts' = ts \<or> (\<exists>x. ts' = ts\<lparr> skipUntil := x \<rparr>)) \<or> ts' = fold pushTaskJoin (unjoinedTasks rt) ts"
    by (auto simp: preVisit_def split: if_splits)
  then show ?thesis using same pushTaskJoins [of ts "unjoinedTasks rt"] by blast
qed

end
