(* ===== verification/TraceBuild.thy ===== *)
theory TraceBuild
  imports OpenMPRuntime
begin

text \<open>
  Building a program trace (src/Trace/Build/TraceBuilder.h and .cpp, src/Trace/ThreadTrace.cpp,
  src/Trace/ProgramTrace.cpp): from the entry function the summaries are walked, calls are
  entered, and at each fork the trace of the new thread is built at once.

  \<open>buildTrace\<close> calls itself through calls and forks; the model has fuel for the depth of
  this nesting, and running out of it is the failure \<open>Diverges\<close>. \<open>buildTrace_fuel\<close> gives
  the fuel that is enough: the call stack and the chain of thread entries never repeat a
  function.
\<close>

section \<open>Definitions\<close>

record program_state =
  builderCache :: summary_cache
  currentTID :: thread_id
  inParallel :: bool
  openMP :: omp_runtime

definition initProgram :: program_state where
  "initProgram = \<lparr> builderCache = [], currentTID = 0, inParallel = False, openMP = initRuntime \<rparr>"

definition shouldSkipIR :: "ir \<Rightarrow> thread_state \<Rightarrow> bool \<times> thread_state" where
  "shouldSkipIR ir ts =
     (case skipUntil ts of
        None \<Rightarrow> (False, ts)
      | Some target \<Rightarrow>
          if getInst ir \<noteq> target then (True, ts) else (False, ts\<lparr> skipUntil := None \<rparr>))"

text \<open>
  The loop goes up the spawn sites; each one's thread has an entry, which was checked when the
  thread was built.
\<close>

fun recursiveSpawnLoop ::
  "llvm_module \<Rightarrow> pta \<Rightarrow> llvm_value \<Rightarrow> nat \<Rightarrow> nat \<Rightarrow> event list \<Rightarrow> bool result" where
  "recursiveSpawnLoop M A entryFunc n cnt [] = Inr False"
| "recursiveSpawnLoop M A entryFunc n cnt (parentFork # sites) =
     rbind (evThreadEntry M A parentFork) (\<lambda>threadEntry.
       case threadEntry of
         None \<Rightarrow> Inl NullDeref
       | Some entry \<Rightarrow>
           if nodeFunction A entry = entryFunc
           then (if cnt + 1 \<ge> n then Inr True
                 else recursiveSpawnLoop M A entryFunc n (cnt + 1) sites)
           else recursiveSpawnLoop M A entryFunc n cnt sites)"

definition isRecursiveThreadSpawn ::
  "llvm_module \<Rightarrow> pta \<Rightarrow> thread_state \<Rightarrow> cg_node \<Rightarrow> nat \<Rightarrow> bool result" where
  "isRecursiveThreadSpawn M A ts childEntry n =
     recursiveSpawnLoop M A (nodeFunction A childEntry) n 1 (spawnSites ts)"

text \<open>\<open>make_unique<ThreadTrace>\<close>, once its events and children are built.\<close>

definition threadTree :: "thread_state \<Rightarrow> thread_tree" where
  "threadTree ts = ThreadNode
     \<lparr> ttID = tsThread ts, spawnSite = tsSpawnSite ts, getEvents = tsEvents ts \<rparr> (tsChildThreads ts)"

definition directCallee :: "llvm_module \<Rightarrow> pta \<Rightarrow> cg_node \<Rightarrow> ir \<Rightarrow> cg_node option" where
  "directCallee M A node ir =
     (case resolveTargetFunction M (getInst ir) of
        None \<Rightarrow> None
      | Some callee \<Rightarrow>
          if isIntrinsic M callee \<or> isDebugInfoForProfiling M callee then None
          else getDirectNodeOrNull A (contextEvolve A (nodeContext A node) (getInst ir)) callee)"

function (sequential)
  buildTrace :: "llvm_module \<Rightarrow> pta \<Rightarrow> nat \<Rightarrow> cg_node \<Rightarrow> program_state \<Rightarrow> thread_state
    \<Rightarrow> (program_state \<times> thread_state) result" and
  buildLoop :: "llvm_module \<Rightarrow> pta \<Rightarrow> nat \<Rightarrow> cg_node \<Rightarrow> ir list \<Rightarrow> program_state \<Rightarrow> thread_state
    \<Rightarrow> (program_state \<times> thread_state) result" and
  buildIR :: "llvm_module \<Rightarrow> pta \<Rightarrow> nat \<Rightarrow> cg_node \<Rightarrow> ir \<Rightarrow> program_state \<Rightarrow> thread_state
    \<Rightarrow> (program_state \<times> thread_state) result"
where
  "buildTrace M A 0 node ps ts = Inl Diverges"
| "buildTrace M A (Suc fuel) node ps ts =
     (let func = nodeFunction A node in
      if csContains func (callstack ts) then Inr (ps, ts)
      else rbind (getFunctionSummary M func (builderCache ps)) (\<lambda>(summary, cache).
        rbind (buildLoop M A fuel node summary (ps\<lparr> builderCache := cache \<rparr>)
            (ts\<lparr> callstack := csPush func (callstack ts), einfo := nodeContext A node \<rparr>)) (\<lambda>(ps, ts).
          rbind (csPop (callstack ts)) (\<lambda>stack. Inr (ps, ts\<lparr> callstack := stack \<rparr>)))))"
| "buildLoop M A fuel node [] ps ts = Inr (ps, ts)"
| "buildLoop M A fuel node (ir # summary) ps ts =
     (case shouldSkipIR ir ts of (skip, ts) \<Rightarrow>
        if skip then buildLoop M A fuel node summary ps ts
        else if \<not> inParallel ps \<and> \<not> isForkIR (irType ir) \<and> \<not> isCallIR (irType ir)
        then buildLoop M A fuel node summary ps ts
        else rbind (preVisit ir (openMP ps) ts) (\<lambda>(skipThisIR, rt, ts).
          rbind (if skipThisIR then Inr (ps\<lparr> openMP := rt \<rparr>, ts)
                 else buildIR M A fuel node ir (ps\<lparr> openMP := rt \<rparr>) ts) (\<lambda>(ps, ts).
            buildLoop M A fuel node summary ps ts)))"
| "buildIR M A fuel node ir ps ts =
     (if isReadIR (irType ir)
      then Inr (ps, pushEvent (mkReadEvent M A ir (tsThread ts) (einfo ts)) ts)
      else if isWriteIR (irType ir)
      then Inr (ps, pushEvent (mkWriteEvent M A ir (tsThread ts) (einfo ts)) ts)
      else if isForkIR (irType ir) then
        (let forkEvent = mkEvent Fork ir (tsThread ts) (einfo ts) (length (tsEvents ts)) in
         rbind (evThreadEntry M A forkEvent) (\<lambda>entry.
           case entry of
             None \<Rightarrow> Inl AssertFailed
           | Some childEntry \<Rightarrow>
               rbind (isRecursiveThreadSpawn M A ts childEntry 2) (\<lambda>recursive.
                 if recursive then Inr (ps, ts)
                 else
                   (let ts = pushEvent (mkEvent Fork ir (tsThread ts) (einfo ts)) ts;
                        tid = currentTID ps + 1;
                        ps = ps\<lparr> inParallel := True, openMP := preFork ir forkEvent (openMP ps),
                               currentTID := tid \<rparr>
                    in rbind (buildTrace M A fuel childEntry ps (initThread tid (forkEvent # spawnSites ts)))
                         (\<lambda>(ps, child).
                            Inr (ps\<lparr> openMP := postFork ir (openMP ps) \<rparr>,
                                 ts\<lparr> tsChildThreads := tsChildThreads ts @ [threadTree child] \<rparr>))))))
      else if isJoinIR (irType ir)
      then Inr (ps, pushEvent (mkEvent Join ir (tsThread ts) (einfo ts)) ts)
      else if isLockIR (irType ir)
      then Inr (ps, pushEvent (mkEvent Lock ir (tsThread ts) (einfo ts)) ts)
      else if isUnlockIR (irType ir)
      then Inr (ps, pushEvent (mkEvent Unlock ir (tsThread ts) (einfo ts)) ts)
      else if isBarrierIR (irType ir)
      then Inr (ps, pushEvent (mkEvent Barrier ir (tsThread ts) (einfo ts)) ts)
      else if isCallIR (irType ir) then
        (if isIndirect M ir then Inr (ps, ts)
         else (case directCallee M A node ir of
                 None \<Rightarrow> Inr (ps, ts)
               | Some directNode \<Rightarrow>
                   if isExtFunction A directNode
                   then Inr (ps, pushEvent (mkEvent ExternCall ir (tsThread ts) (einfo ts)) ts)
                   else rbind (buildTrace M A fuel directNode ps
                       (pushEvent (mkEvent Call ir (tsThread ts) (einfo ts)) ts)) (\<lambda>(ps, ts).
                     Inr (ps, pushEvent (mkEvent CallEnd ir (tsThread ts) (einfo ts)) ts))))
      else Inl Unreachable)"
  by pat_completeness auto
termination
  by (relation "measures
    [\<lambda>x. case x of Inl (M, A, f, _) \<Rightarrow> f | Inr (Inl (M, A, f, _)) \<Rightarrow> f | Inr (Inr (M, A, f, _)) \<Rightarrow> f,
     \<lambda>x. case x of Inl _ \<Rightarrow> 0 | Inr (Inl (M, A, f, node, irs, _)) \<Rightarrow> length irs + 2 | Inr (Inr _) \<Rightarrow> 1]")
    auto

text \<open>\<open>ThreadTrace(program, entry)\<close> and \<open>ProgramTrace\<close>, after the pointer analysis.\<close>

definition buildMainThread :: "llvm_module \<Rightarrow> pta \<Rightarrow> nat \<Rightarrow> cg_node \<Rightarrow> thread_tree result" where
  "buildMainThread M A fuel entry =
     rbind (buildTrace M A fuel entry initProgram (initThread 0 [])) (\<lambda>(ps, ts). Inr (threadTree ts))"

definition programTrace :: "llvm_module \<Rightarrow> pta \<Rightarrow> nat \<Rightarrow> cg_node \<Rightarrow> program_trace result" where
  "programTrace M A fuel entry =
     rbind (buildMainThread M A fuel entry) (\<lambda>mainThread.
       Inr \<lparr> ptModule = M, ptPta = A, getThreads = flattenThreads [mainThread] [] \<rparr>)"

section \<open>How a build step extends the state\<close>

text \<open>
  A thread of the tree is in order when its events are numbered by position, calls and returns
  match, and its children are the threads of its forks, in order.
\<close>

fun node_ok :: "thread_tree \<Rightarrow> bool" where
  "node_ok (ThreadNode t cs) \<longleftrightarrow>
     (\<forall>k < length (getEvents t). evID (getEvents t ! k) = k \<and> evTid (getEvents t ! k) = ttID t) \<and>
     balanced (getEvents t) \<and>
     map Some (filter isFork (getEvents t)) = map (spawnSite \<circ> threadOf) cs \<and>
     (\<forall>c \<in> set cs. node_ok c)"

definition ext ::
  "program_state \<Rightarrow> thread_state \<Rightarrow> event list \<Rightarrow> thread_tree list \<Rightarrow> program_state \<Rightarrow> thread_state \<Rightarrow> bool"
where
  "ext ps ts new cs ps' ts' \<longleftrightarrow>
     tsEvents ts' = tsEvents ts @ new \<and> continues ts new \<and> tsThread ts' = tsThread ts \<and>
     spawnSites ts' = spawnSites ts \<and> callstack ts' = callstack ts \<and>
     tsChildThreads ts' = tsChildThreads ts @ cs \<and>
     map Some (filter isFork new) = map (spawnSite \<circ> threadOf) cs \<and>
     (\<forall>c \<in> set cs. node_ok c) \<and> currentTID ps \<le> currentTID ps' \<and>
     map ttID (concat (map preorder cs)) = [Suc (currentTID ps)..<Suc (currentTID ps')]"

definition grows :: "program_state \<Rightarrow> thread_state \<Rightarrow> program_state \<Rightarrow> thread_state \<Rightarrow> bool" where
  "grows ps ts ps' ts' \<longleftrightarrow> (\<exists>new cs. ext ps ts new cs ps' ts' \<and> balanced new)"

lemma balanced_append: "balanced xs \<Longrightarrow> balanced ys \<Longrightarrow> balanced (xs @ ys)"
proof (induction rule: balanced.induct)
  case (3 es fs c d)
  then have "balanced (c # es @ d # (fs @ ys))" by (intro balanced.intros(3)) auto
  then show ?case by simp
qed (auto intro: balanced.intros)

lemma continues_append:
  "continues ts xs \<Longrightarrow> tsEvents ts' = tsEvents ts @ xs \<Longrightarrow> tsThread ts' = tsThread ts \<Longrightarrow> continues ts' ys \<Longrightarrow>
     continues ts (xs @ ys)"
  by (auto simp: continues_def nth_append)

lemma ext_refl:
  "tsEvents ts' = tsEvents ts \<Longrightarrow> tsThread ts' = tsThread ts \<Longrightarrow> spawnSites ts' = spawnSites ts \<Longrightarrow>
     callstack ts' = callstack ts \<Longrightarrow> tsChildThreads ts' = tsChildThreads ts \<Longrightarrow>
     currentTID ps' = currentTID ps \<Longrightarrow> ext ps ts [] [] ps' ts'"
  by (simp add: ext_def continues_def)

lemma ext_trans:
  assumes "ext ps ts xs cs ps1 ts1" and "ext ps1 ts1 ys ds ps2 ts2"
  shows "ext ps ts (xs @ ys) (cs @ ds) ps2 ts2"
proof -
  have le: "currentTID ps \<le> currentTID ps1" "currentTID ps1 \<le> currentTID ps2"
    using assms by (simp_all add: ext_def)
  then have "[Suc (currentTID ps)..<Suc (currentTID ps1)] @ [Suc (currentTID ps1)..<Suc (currentTID ps2)] =
      [Suc (currentTID ps)..<Suc (currentTID ps2)]"
    by (metis Suc_le_mono le_Suc_ex upt_add_eq_append)
  moreover have "continues ts (xs @ ys)"
    using continues_append [of ts xs ts1 ys] assms by (simp add: ext_def del: upt_Suc)
  ultimately show ?thesis using assms unfolding ext_def by (auto simp del: upt_Suc)
qed

lemma ext_push:
  assumes "\<not> isFork (mk (length (tsEvents ts)))" and "evID (mk (length (tsEvents ts))) = length (tsEvents ts)"
    and "evTid (mk (length (tsEvents ts))) = tsThread ts"
  shows "ext ps ts [mk (length (tsEvents ts))] [] ps (pushEvent mk ts)"
  using assms by (simp add: ext_def continues_def pushEvent_def)

lemma grows_refl:
  "tsEvents ts' = tsEvents ts \<Longrightarrow> tsThread ts' = tsThread ts \<Longrightarrow> spawnSites ts' = spawnSites ts \<Longrightarrow>
     callstack ts' = callstack ts \<Longrightarrow> tsChildThreads ts' = tsChildThreads ts \<Longrightarrow>
     currentTID ps' = currentTID ps \<Longrightarrow> grows ps ts ps' ts'"
  using ext_refl balanced.intros(1) unfolding grows_def by blast

lemma grows_trans: "grows ps ts ps1 ts1 \<Longrightarrow> grows ps1 ts1 ps2 ts2 \<Longrightarrow> grows ps ts ps2 ts2"
  using ext_trans balanced_append unfolding grows_def by blast

lemma grows_push:
  assumes "evType (mk (length (tsEvents ts))) \<notin> {Fork, Call, CallEnd}"
    and "evID (mk (length (tsEvents ts))) = length (tsEvents ts)"
    and "evTid (mk (length (tsEvents ts))) = tsThread ts"
  shows "grows ps ts ps (pushEvent mk ts)"
proof -
  have "balanced [mk (length (tsEvents ts))]" using assms(1) by (auto intro!: balanced.intros)
  moreover have "\<not> isFork (mk (length (tsEvents ts)))" using assms(1) by (simp add: isFork_def)
  ultimately show ?thesis using ext_push assms(2,3) unfolding grows_def by blast
qed

lemma preVisit_grows:
  assumes "preVisit ir rt ts = Inr (b, rt', ts')"
  shows "grows ps ts (ps\<lparr> openMP := rt' \<rparr>) ts'"
proof -
  from preVisit_grown [OF assms] obtain new where new: "grown ts new ts'" "continues ts new"
    "\<forall>e \<in> set new. evType e = Join" by blast
  from new(3) have "balanced new" by (induction new) (auto intro: balanced.intros)
  moreover have "filter isFork new = []" using new(3) by (auto simp: isFork_def filter_empty_conv)
  ultimately show ?thesis using new(1,2)
    by (auto simp: grows_def ext_def grown_def intro!: exI [of _ new] exI [of _ "[]"])
qed

text \<open>A fork: the child's tree becomes the next child.\<close>

lemma grows_fork:
  assumes child: "grows ps1 (initThread tid (forkEvent # sites)) ps2 child"
    and tid: "tid = Suc (currentTID ps)" "currentTID ps1 = tid"
    and fork: "forkEvent = mkEvent Fork ir (tsThread ts) (einfo ts) (length (tsEvents ts))"
    and ts': "ts' = pushEvent (mkEvent Fork ir (tsThread ts) (einfo ts)) ts"
    and ps': "currentTID ps' = currentTID ps2"
  shows "grows ps ts ps' (ts'\<lparr> tsChildThreads := tsChildThreads ts' @ [threadTree child] \<rparr>)"
proof -
  from child obtain new cs where ext: "ext ps1 (initThread tid (forkEvent # sites)) new cs ps2 child"
    and bal: "balanced new" by (auto simp: grows_def)
  have tree: "threadTree child = ThreadNode \<lparr> ttID = tid, spawnSite = Some forkEvent, getEvents = new \<rparr> cs"
    using ext by (simp add: threadTree_def ext_def initThread_def tsSpawnSite_def)
  have ok: "node_ok (threadTree child)"
    using ext bal by (simp add: tree ext_def continues_def initThread_def)
  have "map ttID (concat (map preorder cs)) = [Suc tid..<Suc (currentTID ps2)]" "tid \<le> currentTID ps2"
    using ext tid by (simp_all add: ext_def)
  then have "map ttID (preorder (threadTree child)) = [tid..<Suc (currentTID ps2)]"
    by (simp add: tree upt_conv_Cons)
  then have "ext ps ts [forkEvent] [threadTree child] ps'
      (ts'\<lparr> tsChildThreads := tsChildThreads ts' @ [threadTree child] \<rparr>)"
    using ok ps' tid \<open>tid \<le> currentTID ps2\<close>
    by (simp add: ext_def ts' pushEvent_def continues_def fork mkEvent_def isFork_def tree)
  moreover have "balanced [forkEvent]" by (simp add: fork mkEvent_def balanced.intros)
  ultimately show ?thesis unfolding grows_def by blast
qed

lemma grows_call:
  assumes "grows ps (pushEvent (mkEvent Call ir (tsThread ts) (einfo ts)) ts) ps' ts1"
    and "ts' = pushEvent (mkEvent CallEnd ir (tsThread ts1) (einfo ts1)) ts1"
  shows "grows ps ts ps' ts'"
proof -
  let ?c = "mkEvent Call ir (tsThread ts) (einfo ts) (length (tsEvents ts))"
  let ?d = "mkEvent CallEnd ir (tsThread ts1) (einfo ts1) (length (tsEvents ts1))"
  from assms(1) obtain new cs where ext: "ext ps (pushEvent (mkEvent Call ir (tsThread ts) (einfo ts)) ts) new cs ps' ts1"
    and bal: "balanced new" by (auto simp: grows_def)
  have "ext ps ts [?c] [] ps (pushEvent (mkEvent Call ir (tsThread ts) (einfo ts)) ts)"
    by (rule ext_push) (simp_all add: mkEvent_def isFork_def)
  moreover have "ext ps' ts1 [?d] [] ps' ts'"
    unfolding assms(2) by (rule ext_push) (simp_all add: mkEvent_def isFork_def)
  ultimately have "ext ps ts ([?c] @ new @ [?d]) ([] @ cs @ []) ps' ts'"
    using ext ext_trans by blast
  moreover have "balanced (?c # new @ ?d # [])"
    by (rule balanced.intros(3)) (simp_all add: bal balanced.intros mkEvent_def)
  ultimately show ?thesis unfolding grows_def by force
qed

lemma shouldSkipIR_same:
  "shouldSkipIR ir ts = (b, ts') \<Longrightarrow> ts' = ts \<or> ts' = ts\<lparr> skipUntil := None \<rparr>"
  by (auto simp: shouldSkipIR_def split: option.splits if_splits)

lemma build_grows:
  "buildTrace M A fuel node ps ts = Inr (ps', ts') \<Longrightarrow> grows ps ts ps' ts'"
  "buildLoop M A fuel node irs ps ts = Inr (ps', ts') \<Longrightarrow> grows ps ts ps' ts'"
  "buildIR M A fuel node ir ps ts = Inr (ps', ts') \<Longrightarrow> grows ps ts ps' ts'"
proof (induction M A fuel node ps ts and M A fuel node irs ps ts and M A fuel node ir ps ts
    arbitrary: ps' ts' and ps' ts' and ps' ts' rule: buildTrace_buildLoop_buildIR.induct)
  case (2 M A fuel node ps ts)
  let ?func = "nodeFunction A node"
  show ?case
  proof (cases "csContains ?func (callstack ts)")
    case True
    with 2 show ?thesis by (simp add: Let_def grows_refl)
  next
    case False
    let ?ts = "ts\<lparr> callstack := csPush ?func (callstack ts), einfo := nodeContext A node \<rparr>"
    from False 2(2) obtain summary cache ts1 where sum: "getFunctionSummary M ?func (builderCache ps) = Inr (summary, cache)"
      and loop: "buildLoop M A fuel node summary (ps\<lparr> builderCache := cache \<rparr>) ?ts = Inr (ps', ts1)"
      and ts': "ts' = ts1\<lparr> callstack := butlast (callstack ts1) \<rparr>"
      by (auto simp: Let_def csPop_def split: prod.splits if_splits)
    from 2(1) [OF refl False sum refl loop] have "grows (ps\<lparr> builderCache := cache \<rparr>) ?ts ps' ts1" .
    then show ?thesis
      unfolding ts' grows_def ext_def by (auto simp: csPush_def continues_def)
  qed
next
  case (3 M A fuel node ps ts)
  then show ?case by (simp add: grows_refl)
next
  case (4 M A fuel node ir summary ps ts)
  obtain skip ts0 where skip: "shouldSkipIR ir ts = (skip, ts0)" by fastforce
  have start: "grows ps ts ps ts0" using shouldSkipIR_same [OF skip] by (auto intro: grows_refl)
  consider "skip" | "\<not> skip" "\<not> inParallel ps \<and> \<not> isForkIR (irType ir) \<and> \<not> isCallIR (irType ir)"
    | "\<not> skip" "\<not> (\<not> inParallel ps \<and> \<not> isForkIR (irType ir) \<and> \<not> isCallIR (irType ir))" by blast
  then have "grows ps ts0 ps' ts'"
  proof cases
    case 1
    with 4 skip show ?thesis by auto
  next
    case 2
    with 4 skip show ?thesis by auto
  next
    case 3
    with 4(5) skip obtain sk rt ts1 ps2 ts2 where pre: "preVisit ir (openMP ps) ts0 = Inr (sk, rt, ts1)"
      and mid: "(if sk then Inr (ps\<lparr> openMP := rt \<rparr>, ts1)
        else buildIR M A fuel node ir (ps\<lparr> openMP := rt \<rparr>) ts1) = Inr (ps2, ts2)"
      and rest: "buildLoop M A fuel node summary ps2 ts2 = Inr (ps', ts')"
      by (auto split: prod.splits)
    note g1 = preVisit_grows [OF pre, of ps]
    have g2: "grows (ps\<lparr> openMP := rt \<rparr>) ts1 ps2 ts2"
    proof (cases sk)
      case True
      with mid show ?thesis by (auto intro: grows_refl)
    next
      case False
      with mid have "buildIR M A fuel node ir (ps\<lparr> openMP := rt \<rparr>) ts1 = Inr (ps2, ts2)" by simp
      from 4(3) [OF skip [symmetric] 3 pre refl refl False this] show ?thesis .
    qed
    have g3: "grows ps2 ts2 ps' ts'" using 4(4) [OF skip [symmetric] 3 pre refl refl mid refl rest] .
    from grows_trans [OF grows_trans [OF g1 g2] g3] show ?thesis .
  qed
  with start show ?case by (rule grows_trans)
next
  case (5 M A fuel node ir ps ts)
  let ?t = "irType ir"
  let ?push = "\<lambda>ty. pushEvent (mkEvent ty ir (tsThread ts) (einfo ts)) ts"
  have simple: "grows ps ts ps (?push ty)" if "ty \<notin> {Fork, Call, CallEnd}" for ty
    by (rule grows_push) (use that in \<open>simp_all add: mkEvent_def\<close>)
  show ?case
  proof (cases "isReadIR ?t \<or> isWriteIR ?t")
    case True
    have "grows ps ts ps (pushEvent (mkReadEvent M A ir (tsThread ts) (einfo ts)) ts)"
      "grows ps ts ps (pushEvent (mkWriteEvent M A ir (tsThread ts) (einfo ts)) ts)"
      by (rule grows_push; simp add: mkReadEvent_def mkWriteEvent_def)+
    with True 5(3) show ?thesis by (auto split: if_splits)
  next
    case notRW: False
    show ?thesis
    proof (cases "isForkIR ?t")
      case fork: True
      let ?f = "mkEvent Fork ir (tsThread ts) (einfo ts) (length (tsEvents ts))"
      from fork notRW 5(3) obtain entry recursive where entry: "evThreadEntry M A ?f = Inr (Some entry)"
        and recursive: "isRecursiveThreadSpawn M A ts entry 2 = Inr recursive"
        by (auto simp: Let_def split: option.splits)
      show ?thesis
      proof (cases recursive)
        case True
        with fork notRW 5(3) entry recursive show ?thesis by (auto simp: Let_def intro: grows_refl)
      next
        case False
        let ?ps = "ps\<lparr> inParallel := True, openMP := preFork ir ?f (openMP ps), currentTID := currentTID ps + 1 \<rparr>"
        from False fork notRW 5(3) entry recursive obtain ps2 child where
          run: "buildTrace M A fuel entry ?ps (initThread (currentTID ps + 1) (?f # spawnSites ts)) = Inr (ps2, child)"
          and res: "ps' = ps2\<lparr> openMP := postFork ir (openMP ps2) \<rparr>"
            "ts' = (?push Fork)\<lparr> tsChildThreads := tsChildThreads (?push Fork) @ [threadTree child] \<rparr>"
          by (auto simp: Let_def pushEvent_def)
        have "spawnSites (?push Fork) = spawnSites ts" by (simp add: pushEvent_def)
        note IH = 5(1) [of ?f "Some entry" entry recursive "?push Fork" "currentTID ps + 1" ?ps, unfolded this]
        have "grows ?ps (initThread (currentTID ps + 1) (?f # spawnSites ts)) ps2 child"
          by (rule IH) (use notRW fork entry recursive False run in simp_all)
        from grows_fork [OF this, of ps ir ts "?push Fork" ps'] res show ?thesis by simp
      qed
    next
      case notFork: False
      show ?thesis
      proof (cases "isJoinIR ?t \<or> isLockIR ?t \<or> isUnlockIR ?t \<or> isBarrierIR ?t")
        case True
        with notRW notFork 5(3) simple [of Join] simple [of Lock] simple [of Unlock] simple [of Barrier]
        show ?thesis by (auto split: if_splits)
      next
        case notSync: False
        with notRW notFork 5(3) have call: "isCallIR ?t" by (auto split: if_splits)
        show ?thesis
        proof (cases "isIndirect M ir \<or> directCallee M A node ir = None")
          case True
          with notRW notFork notSync call 5(3) show ?thesis by (auto split: if_splits intro: grows_refl)
        next
          case False
          then obtain callee where callee: "\<not> isIndirect M ir" "directCallee M A node ir = Some callee" by auto
          show ?thesis
          proof (cases "isExtFunction A callee")
            case True
            with callee notRW notFork notSync call 5(3) simple [of ExternCall] show ?thesis by auto
          next
            case internal: False
            with callee notRW notFork notSync call 5(3) obtain ts1 where
              run: "buildTrace M A fuel callee ps (?push Call) = Inr (ps', ts1)"
              and ts': "ts' = pushEvent (mkEvent CallEnd ir (tsThread ts1) (einfo ts1)) ts1" by auto
            have "grows ps (?push Call) ps' ts1"
              by (rule 5(2)) (use notRW notFork notSync call callee internal run in simp_all)
            from grows_call [OF this ts'] show ?thesis .
          qed
        qed
      qed
    qed
  qed
qed simp

section \<open>From the tree to the flat trace\<close>

definition thread_ok :: "thread_trace \<Rightarrow> bool" where
  "thread_ok t \<longleftrightarrow> balanced (getEvents t) \<and>
     (\<forall>k < length (getEvents t). evID (getEvents t ! k) = k \<and> evTid (getEvents t ! k) = ttID t)"

lemma preorder_split: "preorder c = threadOf c # tl (preorder c)"
  by (cases c) simp

lemma tl_preorder: "tl (preorder (ThreadNode t cs)) = concat (map preorder cs)"
  by simp

lemma node_threads: "node_ok n \<Longrightarrow> t \<in> set (preorder n) \<Longrightarrow> thread_ok t"
  by (induction n rule: node_ok.induct) (auto simp: thread_ok_def)

lemma node_forks:
  "node_ok n \<Longrightarrow> t \<in> set (preorder n) \<Longrightarrow> e \<in> set (getEvents t) \<Longrightarrow> isFork e \<Longrightarrow>
     \<exists>u \<in> set (preorder n). spawnSite u = Some e"
proof (induction n rule: node_ok.induct)
  case (1 t' cs)
  show ?case
  proof (cases "t = t'")
    case True
    have "Some e \<in> Some ` set (filter isFork (getEvents t'))" using 1(4,5) True by simp
    then have "Some e \<in> set (map Some (filter isFork (getEvents t')))" by (simp only: set_map)
    moreover have "map Some (filter isFork (getEvents t')) = map (spawnSite \<circ> threadOf) cs" using 1(2) by simp
    ultimately have "Some e \<in> set (map (spawnSite \<circ> threadOf) cs)" by metis
    then obtain c where "c \<in> set cs" "spawnSite (threadOf c) = Some e" by auto
    moreover have "threadOf c \<in> set (preorder c)" by (metis list.set_intros(1) preorder_split)
    ultimately show ?thesis by auto
  next
    case False
    with 1(3) obtain c where c: "c \<in> set cs" "t \<in> set (preorder c)" by auto
    with 1 obtain u where "u \<in> set (preorder c)" "spawnSite u = Some e" by (meson node_ok.simps)
    with c(1) show ?thesis by auto
  qed
qed

lemma node_spawned:
  "node_ok n \<Longrightarrow> sorted_wrt (<) (map ttID (preorder n)) \<Longrightarrow> u \<in> set (tl (preorder n)) \<Longrightarrow>
     \<exists>p \<in> set (preorder n). \<exists>f. spawnSite u = Some f \<and> f \<in> set (getEvents p) \<and> isFork f \<and> ttID p < ttID u"
proof (induction n rule: node_ok.induct)
  case (1 t cs)
  then obtain c where c: "c \<in> set cs" "u \<in> set (preorder c)" by auto
  have lt: "ttID t < ttID u" using 1(3) c by (auto simp: sorted_wrt_map)
  show ?case
  proof (cases "u = threadOf c")
    case True
    have "spawnSite u \<in> set (map (spawnSite \<circ> threadOf) cs)" using c True by auto
    then have "spawnSite u \<in> Some ` set (filter isFork (getEvents t))"
      using 1(2) by (metis list.set_map node_ok.simps)
    with lt show ?thesis by auto
  next
    case False
    then have u: "u \<in> set (tl (preorder c))" using c(2) preorder_split by (metis set_ConsD)
    have "sorted_wrt (<) (map ttID (preorder c))"
      using 1(3) c(1) by (auto simp: map_concat sorted_wrt_append dest!: split_list)
    with 1(1) [OF c(1) _ _ u] 1(2) c(1) obtain p f where "p \<in> set (preorder c)" "spawnSite u = Some f"
      "f \<in> set (getEvents p)" "isFork f" "ttID p < ttID u" by auto
    with c(1) show ?thesis by auto
  qed
qed

text \<open>The spawn sites below a node: distinct, and of threads of the node.\<close>

definition sites_ok :: "thread_tree \<Rightarrow> bool" where
  "sites_ok c \<longleftrightarrow> distinct (map spawnSite (tl (preorder c))) \<and>
     (\<forall>u \<in> set (tl (preorder c)). \<exists>f. spawnSite u = Some f \<and> evTid f \<in> ttID ` set (preorder c))"

lemma sites_concat:
  "\<forall>c \<in> set cs. sites_ok c \<and> (\<exists>f. spawnSite (threadOf c) = Some f \<and> evTid f = i) \<Longrightarrow>
     distinct (map (spawnSite \<circ> threadOf) cs) \<Longrightarrow> distinct (i # map ttID (concat (map preorder cs))) \<Longrightarrow>
     distinct (map spawnSite (concat (map preorder cs)))"
proof (induction cs)
  case (Cons c cs)
  have rest: "distinct (map spawnSite (concat (map preorder cs)))" using Cons by simp
  obtain f where f: "spawnSite (threadOf c) = Some f" "evTid f = i" using Cons.prems(1) by auto
  have ids: "i \<notin> ttID ` set (preorder c)" using Cons.prems(3) by auto
  have tail: "\<exists>g. spawnSite u = Some g \<and> evTid g \<in> ttID ` set (preorder c)" if "u \<in> set (tl (preorder c))" for u
    using Cons.prems(1) that by (simp add: sites_ok_def)
  have own: "distinct (map spawnSite (preorder c))"
  proof -
    have "spawnSite (threadOf c) \<notin> spawnSite ` set (tl (preorder c))" using tail f ids by force
    moreover have "distinct (map spawnSite (tl (preorder c)))" using Cons.prems(1) by (simp add: sites_ok_def)
    ultimately show ?thesis by (subst preorder_split) simp
  qed
  have "spawnSite u \<noteq> spawnSite v" if u: "u \<in> set (preorder c)" and v: "v \<in> set (concat (map preorder cs))" for u v
  proof -
    from v obtain d where d: "d \<in> set cs" "v \<in> set (preorder d)" by auto
    have "ttID ` set (preorder c) \<inter> ttID ` set (concat (map preorder cs)) = {}"
      "i \<notin> ttID ` set (concat (map preorder cs))" using Cons.prems(3) by auto
    moreover have "set (preorder d) \<subseteq> set (concat (map preorder cs))" using d(1) by auto
    ultimately have dis: "ttID ` set (preorder d) \<inter> insert i (ttID ` set (preorder c)) = {}" by blast
    have v': "v = threadOf d \<or> (\<exists>g. spawnSite v = Some g \<and> evTid g \<in> ttID ` set (preorder d))"
      using d Cons.prems(1) preorder_split [of d] by (metis list.set_intros(2) set_ConsD sites_ok_def)
    have u': "u = threadOf c \<or> (\<exists>g. spawnSite u = Some g \<and> evTid g \<in> ttID ` set (preorder c))"
      using u tail preorder_split [of c] by (metis set_ConsD)
    have heads: "spawnSite (threadOf c) \<noteq> spawnSite (threadOf d)" using Cons.prems(2) d(1) by auto
    obtain h where h: "spawnSite (threadOf d) = Some h" "evTid h = i" using Cons.prems(1) d(1) by auto
    show ?thesis using v' u' heads h f dis ids by fastforce
  qed
  then have "spawnSite ` set (preorder c) \<inter> spawnSite ` set (concat (map preorder cs)) = {}" by blast
  with own rest show ?case by (simp only: list.map concat.simps map_append distinct_append set_map)
qed simp

lemma node_sites: "node_ok n \<Longrightarrow> distinct (map ttID (preorder n)) \<Longrightarrow> sites_ok n"
proof (induction n rule: node_ok.induct)
  case (1 t cs)
  have num: "evID (getEvents t ! k) = k" "evTid (getEvents t ! k) = ttID t" if "k < length (getEvents t)" for k
    using 1(2) that by simp_all
  have "inj_on evID (set (getEvents t))" using num by (auto simp: inj_on_def in_set_conv_nth)
  moreover have "distinct (getEvents t)" using num(1) by (metis distinct_conv_nth)
  ultimately have forks: "distinct (map (spawnSite \<circ> threadOf) cs)"
    using 1(2) by (metis distinct_filter distinct_map inj_Some inj_on_subset node_ok.simps subset_UNIV)
  have cs: "sites_ok c \<and> (\<exists>f. spawnSite (threadOf c) = Some f \<and> evTid f = ttID t)" if c: "c \<in> set cs" for c
  proof
    have "distinct (map ttID (preorder c))"
      using 1(3) c by (auto simp: map_concat dest!: split_list)
    with 1 c show "sites_ok c" by simp
    have "spawnSite (threadOf c) \<in> Some ` set (filter isFork (getEvents t))"
      using 1(2) c by (metis comp_apply image_eqI list.set_map node_ok.simps)
    then show "\<exists>f. spawnSite (threadOf c) = Some f \<and> evTid f = ttID t"
      using num(2) by (auto simp: in_set_conv_nth)
  qed
  have "distinct (map spawnSite (concat (map preorder cs)))"
    using sites_concat [OF _ forks, of "ttID t"] cs 1(3) by auto
  moreover have "\<exists>f. spawnSite u = Some f \<and> evTid f \<in> ttID ` set (preorder (ThreadNode t cs))"
    if "u \<in> set (concat (map preorder cs))" for u
  proof -
    from that obtain c where c: "c \<in> set cs" "u \<in> set (preorder c)" by auto
    then have "u = threadOf c \<or> u \<in> set (tl (preorder c))" using preorder_split by (metis set_ConsD)
    with cs [OF c(1)] c(1) show ?thesis by (fastforce simp: sites_ok_def)
  qed
  ultimately show ?case by (simp add: sites_ok_def)
qed

lemma wf_of_tree:
  assumes ok: "node_ok root" and ids: "map ttID (preorder root) = [0..<n]"
    and main: "spawnSite (threadOf root) = None" and P: "getThreads P = preorder root"
  shows "wf_trace P" "wf_spawn_tree P" "\<forall>t \<in> set (getThreads P). balanced (getEvents t)"
proof -
  have id: "ttID (preorder root ! k) = k" if "k < length (preorder root)" for k
    using ids that by (metis add_0 length_map length_upt nth_map nth_upt diff_zero)
  have dist: "distinct (map ttID (preorder root))" and srt: "sorted_wrt (<) (map ttID (preorder root))"
    by (simp_all add: ids)
  have split: "preorder root = threadOf root # tl (preorder root)" by (rule preorder_split)
  have thr: "thread_ok t" if "t \<in> set (preorder root)" for t using node_threads [OF ok that] .
  then have ev: "wf_events P"
    using id by (auto simp: wf_events_def P thread_ok_def)
  have sites: "distinct (map spawnSite (tl (preorder root)))"
    "\<forall>u \<in> set (tl (preorder root)). spawnSite u \<noteq> None"
    using node_sites [OF ok dist] by (auto simp: sites_ok_def)
  then have "distinct (map spawnSite (preorder root))" using main by (subst split) auto
  moreover have "\<exists>t \<in> set (preorder root). spawnSite t = Some e"
    if "e \<in> set (allEvents P)" "isFork e" for e
    using that node_forks [OF ok] by (auto simp: allEvents_def P)
  ultimately have "wf_spawns P" by (simp add: wf_spawns_def P)
  with ev show "wf_trace P" by (simp add: wf_trace_def)
  show "\<forall>t \<in> set (getThreads P). balanced (getEvents t)" using thr by (simp add: P thread_ok_def)
  have "evTid f < ttID u \<and> (\<exists>p \<in> set (preorder root). ttID p = evTid f)"
    if u: "u \<in> set (preorder root)" "spawnSite u = Some f" for u f
  proof -
    from u main split have "u \<in> set (tl (preorder root))" by (metis option.distinct(1) set_ConsD)
    from node_spawned [OF ok srt this] u(2) obtain p where p: "p \<in> set (preorder root)"
      "f \<in> set (getEvents p)" "ttID p < ttID u" by auto
    from thr [OF p(1)] p(2) have "evTid f = ttID p" by (auto simp: thread_ok_def in_set_conv_nth)
    with p show ?thesis by auto
  qed
  then show "wf_spawn_tree P" by (simp add: wf_spawn_tree_def P)
qed

lemma programTrace_tree:
  assumes "programTrace M A fuel entry = Inr P"
  shows "\<exists>root n. node_ok root \<and> map ttID (preorder root) = [0..<n] \<and> spawnSite (threadOf root) = None \<and>
    getThreads P = preorder root"
proof -
  from assms obtain ps ts where run: "buildTrace M A fuel entry initProgram (initThread 0 []) = Inr (ps, ts)"
    and P: "getThreads P = flattenThreads [threadTree ts] []"
    by (auto simp: programTrace_def buildMainThread_def)
  from build_grows(1) [OF run] obtain new cs where ext: "ext initProgram (initThread 0 []) new cs ps ts"
    and bal: "balanced new" by (auto simp: grows_def)
  have tree: "threadTree ts = ThreadNode \<lparr> ttID = 0, spawnSite = None, getEvents = new \<rparr> cs"
    using ext by (simp add: threadTree_def ext_def initThread_def tsSpawnSite_def)
  have "node_ok (threadTree ts)"
    using ext bal by (simp add: tree ext_def continues_def initThread_def)
  moreover have "map ttID (concat (map preorder cs)) = [Suc 0..<Suc (currentTID ps)]"
    using ext by (simp add: ext_def initProgram_def)
  then have "map ttID (preorder (threadTree ts)) = [0..<Suc (currentTID ps)]"
    by (simp add: tree upt_conv_Cons del: upt_Suc)
  moreover have "getThreads P = preorder (threadTree ts)" using P by (simp add: flattenThreads_preorder)
  moreover have "spawnSite (threadOf (threadTree ts)) = None" by (simp add: tree)
  ultimately show ?thesis by blast
qed

section \<open>The fuel that is enough\<close>

text \<open>Nothing but the nesting of calls and forks can run for ever.\<close>

lemma avoids_recognizer: "avoids {Diverges} (isOnCall recog M c)"
  by (auto simp: isOnCall_def avoids_def split: option.splits)

lemma avoids_twin: "avoids {Diverges} (getTwinOmpFork M c)" "avoids {Diverges} (getTwinOmpForkTeams M c)"
  by (auto simp: getTwinOmpFork_def getTwinOmpForkTeams_def getTwin_def isForkCall_def isForkTeamsCall_def
    intro!: avoids_rules avoids_recognizer split: option.split)

lemma avoids_inst: "avoids {Diverges} (summarizeInst M i)"
  by (auto simp: summarizeInst_def summarizeCall_def summarizeFork_def summarizeForkTeams_def skipRegion_def Let_def
    intro!: avoids_rules avoids_twin split: option.split)

lemma avoids_block: "avoids {Diverges} (summarizeBlock M is')"
  by (induction M is' rule: summarizeBlock.induct)
    (auto intro!: avoids_rules avoids_inst split: prod.split)

lemma avoids_blocks: "avoids {Diverges} (summarizeBlocks M bs)"
  by (induction bs) (auto intro!: avoids_rules avoids_block)

lemma avoids_summary: "avoids {Diverges} (getFunctionSummary M f cache)"
  by (auto simp: getFunctionSummary_def generateFunctionSummary_def intro!: avoids_rules avoids_blocks
    split: option.split)

lemma avoids_entry: "avoids {Diverges} (evThreadEntry M A e)"
proof -
  have "avoids {Diverges} (taskThreadEntry M i)" for i
    by (auto simp: taskThreadEntry_def Let_def intro!: avoids_rules split: option.split)
  then have "avoids {Diverges} (getThreadEntry M ir)" for ir
    by (cases ir) (auto intro!: avoids_rules)
  then show ?thesis by (auto simp: evThreadEntry_def intro!: avoids_rules split: list.split)
qed

lemma avoids_preVisit: "avoids {Diverges} (preVisit ir rt ts)"
  by (auto simp: preVisit_def markMasterStart_def markMasterEnd_def getMasterRegionEnd_def
    intro!: avoids_rules split: option.split)

lemma avoids_recursive: "avoids {Diverges} (recursiveSpawnLoop M A f n k sites)"
  by (induction sites arbitrary: k) (auto intro!: avoids_rules avoids_entry split: option.split)

text \<open>
  The functions \<open>F\<close> of the call graph; the entry functions of the spawning threads and the
  call stack are without repetition.
\<close>

definition entryFun :: "llvm_module \<Rightarrow> pta \<Rightarrow> event \<Rightarrow> llvm_value option" where
  "entryFun M A e = (case evThreadEntry M A e of Inr (Some n) \<Rightarrow> Some (nodeFunction A n) | _ \<Rightarrow> None)"

definition stack_ok :: "llvm_module \<Rightarrow> pta \<Rightarrow> llvm_value set \<Rightarrow> event list \<Rightarrow> llvm_value list \<Rightarrow> bool" where
  "stack_ok M A F sites stack \<longleftrightarrow>
     distinct (map (entryFun M A) sites) \<and> entryFun M A ` set sites \<subseteq> Some ` F \<and>
     distinct stack \<and> set stack \<subseteq> F"

definition nesting :: "llvm_value set \<Rightarrow> event list \<Rightarrow> llvm_value list \<Rightarrow> nat" where
  "nesting F sites stack = (card F - length sites) * (card F + 2) + (card F - length stack) + 1"

lemma stack_ok_length:
  assumes "finite F" and "stack_ok M A F sites stack"
  shows "length sites \<le> card F" "length stack \<le> card F"
proof -
  have "length sites = card (entryFun M A ` set sites)"
    using assms(2) distinct_card [of "map (entryFun M A) sites"] by (simp add: stack_ok_def)
  also have "\<dots> \<le> card (Some ` F)" using assms by (intro card_mono) (auto simp: stack_ok_def)
  finally show "length sites \<le> card F" by (simp add: card_image)
  show "length stack \<le> card F"
    using assms card_mono [of F "set stack"] distinct_card [of stack] by (simp add: stack_ok_def)
qed

lemma nesting_call:
  assumes "finite F" and "stack_ok M A F sites stack" and "f \<in> F" and "f \<notin> set stack"
  shows "stack_ok M A F sites (stack @ [f])" "nesting F sites stack = Suc (nesting F sites (stack @ [f]))"
proof -
  show ok: "stack_ok M A F sites (stack @ [f])" using assms by (simp add: stack_ok_def)
  from stack_ok_length(2) [OF assms(1) ok]
  show "nesting F sites stack = Suc (nesting F sites (stack @ [f]))" by (simp add: nesting_def)
qed

lemma nesting_fork:
  assumes "finite F" and "stack_ok M A F sites stack" and "entryFun M A e = Some f" and "f \<in> F"
    and "Some f \<notin> entryFun M A ` set sites"
  shows "stack_ok M A F (e # sites) []" "nesting F (e # sites) [] \<le> nesting F sites stack"
proof -
  show ok: "stack_ok M A F (e # sites) []" using assms by (simp add: stack_ok_def)
  from stack_ok_length(1) [OF assms(1) ok] obtain k where "card F - length sites = Suc k" "card F - length (e # sites) = k"
    by (cases "card F - length sites") auto
  then show "nesting F (e # sites) [] \<le> nesting F sites stack" by (simp add: nesting_def)
qed

lemma recursiveSpawnLoop_False:
  "recursiveSpawnLoop M A f 2 1 sites = Inr False \<Longrightarrow> Some f \<notin> entryFun M A ` set sites"
proof (induction sites)
  case (Cons s sites)
  then obtain n where n: "evThreadEntry M A s = Inr (Some n)" by (auto split: option.splits)
  with Cons.prems have "nodeFunction A n \<noteq> f" "recursiveSpawnLoop M A f 2 1 sites = Inr False"
    by (auto split: if_splits)
  with Cons.IH n show ?case by (auto simp: entryFun_def)
qed simp

lemma grows_stack: "grows ps ts ps' ts' \<Longrightarrow> spawnSites ts' = spawnSites ts \<and> callstack ts' = callstack ts"
  by (auto simp: grows_def ext_def)

lemma pushEvent_stack [simp]:
  "spawnSites (pushEvent mk ts) = spawnSites ts" "callstack (pushEvent mk ts) = callstack ts"
  by (simp_all add: pushEvent_def)

lemma build_fuel:
  assumes F: "finite F" "\<And>n. nodeFunction A n \<in> F"
  shows "stack_ok M A F (spawnSites ts) (callstack ts) \<Longrightarrow> nesting F (spawnSites ts) (callstack ts) \<le> fuel \<Longrightarrow>
      avoids {Diverges} (buildTrace M A fuel node ps ts)"
    "stack_ok M A F (spawnSites ts) (callstack ts) \<Longrightarrow> nesting F (spawnSites ts) (callstack ts) \<le> fuel \<Longrightarrow>
      avoids {Diverges} (buildLoop M A fuel node irs ps ts)"
    "stack_ok M A F (spawnSites ts) (callstack ts) \<Longrightarrow> nesting F (spawnSites ts) (callstack ts) \<le> fuel \<Longrightarrow>
      avoids {Diverges} (buildIR M A fuel node ir ps ts)"
  using F(2)
proof (induction M A fuel node ps ts and M A fuel node irs ps ts and M A fuel node ir ps ts
    rule: buildTrace_buildLoop_buildIR.induct)
  case (1 M A node ps ts)
  then show ?case by (simp add: nesting_def)
next
  case (2 M A fuel node ps ts)
  let ?func = "nodeFunction A node"
  show ?case
  proof (cases "csContains ?func (callstack ts)")
    case True
    then show ?thesis by (simp add: avoids_rules)
  next
    case False
    then have f: "?func \<notin> set (callstack ts)" by (simp add: csContains_def)
    from nesting_call [OF F(1) 2(2) 2(4) f] 2(3)
    have ok: "stack_ok M A F (spawnSites ts) (csPush ?func (callstack ts))"
      "nesting F (spawnSites ts) (csPush ?func (callstack ts)) \<le> fuel" by (simp_all add: csPush_def)
    have "avoids {Diverges} (buildLoop M A fuel node summary (ps\<lparr> builderCache := cache \<rparr>)
        (ts\<lparr> callstack := csPush ?func (callstack ts), einfo := nodeContext A node \<rparr>))"
      if "getFunctionSummary M ?func (builderCache ps) = Inr (summary, cache)" for summary cache
      by (rule 2(1) [OF refl False that refl]) (use ok 2(4) in simp_all)
    with False show ?thesis
      by (auto simp: Let_def csPop_def intro!: avoids_rules avoids_summary)
  qed
next
  case (3 M A fuel node ps ts)
  then show ?case by (simp add: avoids_rules)
next
  case (4 M A fuel node ir summary ps ts)
  obtain skip ts0 where skip: "shouldSkipIR ir ts = (skip, ts0)" by fastforce
  have st0: "spawnSites ts0 = spawnSites ts" "callstack ts0 = callstack ts"
    using shouldSkipIR_same [OF skip] by auto
  consider "skip" | "\<not> skip" "\<not> inParallel ps \<and> \<not> isForkIR (irType ir) \<and> \<not> isCallIR (irType ir)"
    | "\<not> skip" "\<not> (\<not> inParallel ps \<and> \<not> isForkIR (irType ir) \<and> \<not> isCallIR (irType ir))" by blast
  then show ?case
  proof cases
    case 1
    with 4(1) [OF skip [symmetric]] 4(5-7) skip st0 show ?thesis by simp
  next
    case 2
    with 4(2) [OF skip [symmetric]] 4(5-7) skip st0 show ?thesis by simp
  next
    case 3
    have body: "avoids {Diverges} (rbind (if sk then Inr (ps\<lparr> openMP := rt \<rparr>, ts1)
        else buildIR M A fuel node ir (ps\<lparr> openMP := rt \<rparr>) ts1)
        (\<lambda>(ps, ts). buildLoop M A fuel node summary ps ts))"
      if pre: "preVisit ir (openMP ps) ts0 = Inr (sk, rt, ts1)" for sk rt ts1
    proof -
      from grows_stack [OF preVisit_grows [OF pre]] st0
      have st1: "spawnSites ts1 = spawnSites ts" "callstack ts1 = callstack ts" by simp_all
      have mid: "avoids {Diverges} (if sk then Inr (ps\<lparr> openMP := rt \<rparr>, ts1)
          else buildIR M A fuel node ir (ps\<lparr> openMP := rt \<rparr>) ts1)"
        using 4(3) [OF skip [symmetric] 3 pre refl refl] 4(5-7) st1 by (auto simp: avoids_rules)
      have "avoids {Diverges} (buildLoop M A fuel node summary ps2 ts2)"
        if run: "(if sk then Inr (ps\<lparr> openMP := rt \<rparr>, ts1)
          else buildIR M A fuel node ir (ps\<lparr> openMP := rt \<rparr>) ts1) = Inr (ps2, ts2)" for ps2 ts2
      proof -
        have "spawnSites ts2 = spawnSites ts1 \<and> callstack ts2 = callstack ts1"
        proof (cases sk)
          case True
          with run show ?thesis by simp
        next
          case False
          with run have "buildIR M A fuel node ir (ps\<lparr> openMP := rt \<rparr>) ts1 = Inr (ps2, ts2)" by simp
          from grows_stack [OF build_grows(3) [OF this]] show ?thesis .
        qed
        with 4(4) [OF skip [symmetric] 3 pre refl refl run refl] 4(5-7) st1 show ?thesis by simp
      qed
      with mid show ?thesis by (intro avoids_rules) auto
    qed
    have eq: "buildLoop M A fuel node (ir # summary) ps ts = rbind (preVisit ir (openMP ps) ts0) (\<lambda>(sk, rt, ts1).
        rbind (if sk then Inr (ps\<lparr> openMP := rt \<rparr>, ts1)
          else buildIR M A fuel node ir (ps\<lparr> openMP := rt \<rparr>) ts1)
        (\<lambda>(ps, ts). buildLoop M A fuel node summary ps ts))"
      using 3 by (simp only: buildLoop.simps skip prod.case if_False)
    show ?thesis
    proof (cases "preVisit ir (openMP ps) ts0")
      case (Inl e)
      with avoids_preVisit [of ir "openMP ps" ts0] show ?thesis
        by (simp only: eq Inl rbind_Inl) (simp add: avoids_def)
    next
      case (Inr r)
      obtain sk rt ts1 where r: "r = (sk, rt, ts1)" by (cases r)
      from body [OF Inr [unfolded r]] show ?thesis
        by (simp only: eq Inr r rbind_Inr prod.case)
    qed
  qed
next
  case (5 M A fuel node ir ps ts)
  let ?f = "mkEvent Fork ir (tsThread ts) (einfo ts) (length (tsEvents ts))"
  let ?ps = "ps\<lparr> inParallel := True, openMP := preFork ir ?f (openMP ps), currentTID := currentTID ps + 1 \<rparr>"
  have fork: "avoids {Diverges} (buildTrace M A fuel entry ?ps (initThread (currentTID ps + 1) (?f # spawnSites ts)))"
    if c: "\<not> isReadIR (irType ir)" "\<not> isWriteIR (irType ir)" "isForkIR (irType ir)"
      "evThreadEntry M A ?f = Inr (Some entry)" "isRecursiveThreadSpawn M A ts entry 2 = Inr False" for entry
  proof -
    have "entryFun M A ?f = Some (nodeFunction A entry)" using c(4) by (simp add: entryFun_def)
    from nesting_fork [OF F(1) 5(3) this 5(5) recursiveSpawnLoop_False [OF c(5) [unfolded isRecursiveThreadSpawn_def]]]
    have "stack_ok M A F (?f # spawnSites ts) []" "nesting F (?f # spawnSites ts) [] \<le> fuel"
      using 5(4) by simp_all
    then show ?thesis
      using 5(1) [OF c(1-3) refl c(4) refl c(5) simp_thms(8) [THEN iffD2] refl refl refl] 5(5)
      by (simp add: initThread_def)
  qed
  have call: "avoids {Diverges} (buildTrace M A fuel callee ps (pushEvent (mkEvent Call ir (tsThread ts) (einfo ts)) ts))"
    if "\<not> isReadIR (irType ir)" "\<not> isWriteIR (irType ir)" "\<not> isForkIR (irType ir)"
      "\<not> isJoinIR (irType ir)" "\<not> isLockIR (irType ir)" "\<not> isUnlockIR (irType ir)" "\<not> isBarrierIR (irType ir)"
      "isCallIR (irType ir)" "\<not> isIndirect M ir" "directCallee M A node ir = Some callee"
      "\<not> isExtFunction A callee" for callee
    using 5(2) [OF that] 5(3-5) by simp
  have rec: "avoids {Diverges} (isRecursiveThreadSpawn M A ts entry 2)" for entry
    unfolding isRecursiveThreadSpawn_def by (rule avoids_recursive)
  show ?case
  proof (cases "\<not> isReadIR (irType ir) \<and> \<not> isWriteIR (irType ir) \<and> isForkIR (irType ir)")
    case True
    with fork rec show ?thesis
      by (simp add: Let_def) (auto simp: Let_def intro!: avoids_rules avoids_entry split: option.split)
  next
    case False
    then show ?thesis using call
      by (simp only: buildIR.simps if_False de_Morgan_conj) (auto split: option.split intro!: avoids_rules)
  qed
qed

section \<open>Properties of a built trace\<close>

text \<open>
  A module whose \<open>main\<close> (3) creates a thread running function 50, calls function 60 and
  stores. The thread stores to the same object; in the analysis of the demo every pointer points
  to object 7.
\<close>

definition build_module :: llvm_module where
  "build_module = empty_module
     \<lparr> classOf := (\<lambda>v. if v = 14 \<or> v = 51 \<or> v = 61 then StoreInst else if v = 12 \<or> v = 13 then CallInst
         else if v \<in> {3, 20, 50, 60} then FunctionV else OtherValue),
       getBasicBlockList := (\<lambda>f. if f \<in> {3, 50, 60} then [f + 1] else []),
       getInstList := (\<lambda>b. if b = 4 then [12, 13, 14] else if b = 51 then [51] else if b = 61 then [61] else []),
       getNextNode := (\<lambda>v. if v = 12 \<or> v = 13 then Some (v + 1) else None),
       getCalledFunction := (\<lambda>v. if v = 12 then Some 20 else if v = 13 then Some 60 else None),
       getCalledOperand := (\<lambda>v. if v = 12 then 20 else 60), numArgOperands := (\<lambda>v. if v = 12 then 4 else 0),
       getArgOperand := (\<lambda>v k. if v = 12 then (if k = 2 then 50 else 11) else v),
       getFunction := (\<lambda>v. if v \<in> {12, 13, 14} then 3 else if v = 51 then 50 else 60),
       hasName := (\<lambda>v. v \<in> {3, 20, 50, 60}),
       getName := (\<lambda>v. if v = 20 then ''pthread_create'' else if v = 3 then ''main'' else if v = 50 then ''child''
         else if v = 60 then ''callee'' else []) \<rparr>"

definition build_pta :: pta where
  "build_pta = \<lparr> contextEvolve = (\<lambda>c i. i), getPointsTo = (\<lambda>c v. [7]),
     getDirectNodeOrNull = (\<lambda>c f. if f = 50 then Some 1 else if f = 60 then Some 2 else None),
     getResolvedNode = (\<lambda>c i. []), nodeFunction = (\<lambda>n. if n = 0 then 3 else if n = 1 then 50 else 60),
     nodeContext = (\<lambda>n. n * 100), isExtFunction = (\<lambda>n. False), objValue = (\<lambda>b. Some 8) \<rparr>"

lemma build_demo:
  "map_sum (\<lambda>_. ()) (map getEvents \<circ> getThreads) (programTrace build_module build_pta 9 0) =
     Inr [[Event Fork 0 0 0 (PthreadCreate 12) [] None, Event Call 1 0 0 (CallIR 13) [] None,
           Event Write 2 0 200 (Store 61) [7] None, Event CallEnd 3 0 200 (CallIR 13) [] None,
           Event Write 4 0 200 (Store 14) [7] None],
          [Event Write 0 1 100 (Store 51) [7] None]]"
  by code_simp

text \<open>
  C6. Every trace that is built is well formed: threads and events are numbered by position and
  carry their thread, every fork has exactly one thread, a thread is spawned by an earlier one,
  and in every thread calls and returns match.
\<close>

theorem programTrace_wf:
  assumes "programTrace M A fuel entry = Inr P"
  shows "wf_trace P \<and> wf_spawn_tree P \<and> (\<forall>t \<in> set (getThreads P). balanced (getEvents t))"
  using programTrace_tree [OF assms] wf_of_tree by blast

text \<open>
  C7. The construction returns: with finitely many functions in the call graph the nesting of
  calls and forks is bounded, since the call stack of a thread and the chain of thread entries
  that led to it have no repetition.
\<close>

theorem programTrace_fuel:
  assumes "finite F" and "\<forall>n. nodeFunction A n \<in> F" and "card F * (card F + 2) + card F + 1 \<le> fuel"
  shows "programTrace M A fuel entry \<noteq> Inl Diverges"
proof -
  have "stack_ok M A F (spawnSites (initThread 0 [])) (callstack (initThread 0 []))"
    "nesting F (spawnSites (initThread 0 [])) (callstack (initThread 0 [])) \<le> fuel"
    using assms(3) by (simp_all add: stack_ok_def nesting_def initThread_def)
  from build_fuel(1) [OF assms(1) _ this] assms(2)
  have "avoids {Diverges} (buildTrace M A fuel entry initProgram (initThread 0 []))" by blast
  then show ?thesis by (auto simp: programTrace_def buildMainThread_def avoids_def rbind_eq_Inl)
qed

lemma build_demo_returns:
  "\<exists>P. programTrace build_module build_pta 9 0 = Inr P \<and> map (length \<circ> getEvents) (getThreads P) = [5, 1]"
proof -
  from build_demo obtain P where "programTrace build_module build_pta 9 0 = Inr P"
    by (cases "programTrace build_module build_pta 9 0") (simp_all only: map_sum.simps sum.distinct)
  moreover from this build_demo have "map length (map getEvents (getThreads P)) = [5, 1]" by auto
  ultimately show ?thesis by auto
qed

lemma programTrace_wf_witness:
  "\<exists>P. programTrace build_module build_pta 9 0 = Inr P \<and> length (getThreads P) = 2 \<and> wf_trace P"
proof -
  from build_demo_returns obtain P where P: "programTrace build_module build_pta 9 0 = Inr P"
    "map (length \<circ> getEvents) (getThreads P) = [5, 1]" by (elim exE conjE)
  have "length (map (length \<circ> getEvents) (getThreads P)) = 2" by (simp only: P(2)) simp
  then have "length (getThreads P) = 2" by simp
  with P(1) programTrace_wf [OF P(1), THEN conjunct1] show ?thesis by (intro exI conjI)
qed

lemma programTrace_fuel_witness: "programTrace build_module build_pta 19 0 \<noteq> Inl Diverges"
  by (rule programTrace_fuel [of "{3, 50, 60}"]) (simp_all add: build_pta_def)

text \<open>
  After a call the events of the caller carry the context of the callee: the shared
  \<open>EventInfo\<close> is replaced when a function is entered and not put back when it returns.
\<close>

theorem context_after_call:
  "map_sum (\<lambda>_. ()) (\<lambda>P. map evContext (getEvents (getThreads P ! 0)))
     (programTrace build_module build_pta 9 0) = Inr [0, 0, 200, 200, 200]"
proof -
  from build_demo obtain P where "programTrace build_module build_pta 9 0 = Inr P"
    by (cases "programTrace build_module build_pta 9 0") (simp_all only: map_sum.simps sum.distinct)
  moreover from this build_demo have "map (map evContext) (map getEvents (getThreads P)) =
      [[0, 0, 200, 200, 200], [100]]" by simp
  then have "map evContext (getEvents (getThreads P ! 0)) = [0, 0, 200, 200, 200]"
    by (cases "getThreads P") auto
  ultimately show ?thesis by simp
qed

end
