(* ===== verification/MemLayout.thy ===== *)
theory MemLayout
  imports LLVMView
begin

text \<open>
  Memory layouts of the field-sensitive memory model
  (src/PointerAnalysis/Models/MemoryModel/FieldSensitive/Layout). A layout says which offsets of a
  type are elements, which of them hold pointers, and how a physical offset (bytes from the start of
  the object) becomes a logical one, in which every array has collapsed to one element.

  LLVM's types are a datatype: pointers carry only the name of the type they point to, because
  types are recursive through pointers alone, integers their width, a literal structure the empty
  name. \<open>DataLayout\<close> is a parameter: the allocation size of a type, the offset of an element of a
  structure, and the type a pointer points to, \<open>None\<close> for functions and void. A sparse bit vector of offsets is the set
  of its members, and \<open>size_t\<close> is \<open>nat\<close>, with the wrap-around written out where the size of an
  unbounded array, \<open>SIZE_MAX\<close>, takes part. The lazily filled tables of \<open>MemLayout\<close> depend on
  its elements only, which no longer change when they are filled, so the model computes them.
\<close>

section \<open>Types and data layout\<close>

datatype ll_type =
    StructTy string "ll_type list"
  | ArrayTy nat ll_type
  | PointerTy string
  | VectorTy nat
  | IntTy nat
  | FloatTy nat
  | OpaqueTy string

fun isAggregateType :: "ll_type \<Rightarrow> bool" where
  "isAggregateType (StructTy s ts) = True"
| "isAggregateType (ArrayTy n E) = True"
| "isAggregateType (OpaqueTy s) = True"
| "isAggregateType _ = False"

record data_layout =
  getTypeAllocSize :: "ll_type \<Rightarrow> nat"
  getElementOffset :: "ll_type \<Rightarrow> nat \<Rightarrow> nat"
  getPointerElementType :: "string \<Rightarrow> ll_type option"

definition SIZE_MAX :: nat where
  "SIZE_MAX = 2 ^ 64 - 1"

definition size_t :: "nat \<Rightarrow> nat" where
  "size_t n = n mod 2 ^ 64"

section \<open>Layouts of arrays\<close>

datatype array_layout =
  ArrayLayout (elementNum: nat) (elementSize: nat) (layoutSize: nat) (subArrayMap: "(nat \<times> array_layout) list")

definition getArraySize :: "array_layout \<Rightarrow> nat" where
  "getArraySize a = (if elementNum a = SIZE_MAX then SIZE_MAX else size_t (elementNum a * elementSize a))"

definition mergeSubArrays :: "(nat \<times> array_layout) list \<Rightarrow> nat \<Rightarrow> array_layout \<Rightarrow> array_layout" where
  "mergeSubArrays arrays offset a =
     ArrayLayout (elementNum a) (elementSize a) (layoutSize a)
       (fold (\<lambda>(k, s). om_insert (k + offset) s) arrays (subArrayMap a))"

definition setLayoutSize :: "nat \<Rightarrow> array_layout \<Rightarrow> array_layout result" where
  "setLayoutSize n a = rassert (layoutSize a = 0) AssertFailed
     (Inr (ArrayLayout (elementNum a) (elementSize a) n (subArrayMap a)))"

text \<open>
  From a physical to a logical offset. The physical offset is updated as well: inside an array it
  becomes the same place of the first element. The walk over the arrays asserts that they are
  ascending and apart; \<open>subs_ok\<close> below is that fact.
\<close>

fun indexBetweenArrays :: "(nat \<times> array_layout) list \<Rightarrow> nat \<Rightarrow> nat \<Rightarrow> nat \<Rightarrow> nat \<times> nat"
and indexArray :: "array_layout \<Rightarrow> nat \<Rightarrow> nat \<times> nat" where
  "indexBetweenArrays [] lOffset curOffset pOffset = (lOffset + (pOffset - curOffset), pOffset)"
| "indexBetweenArrays ((arrayOffset, a) # arrays) lOffset curOffset pOffset =
     (if pOffset \<le> arrayOffset then (lOffset + (pOffset - curOffset), pOffset)
      else let lOffset = lOffset + (arrayOffset - curOffset);
               arrayEnd = size_t (arrayOffset + getArraySize a) in
        if arrayEnd \<le> pOffset then indexBetweenArrays arrays (lOffset + layoutSize a) arrayEnd pOffset
        else let (result, relativeOffset) = indexArray a (pOffset - arrayOffset) in
          (result + lOffset, arrayOffset + relativeOffset))"
| "indexArray (ArrayLayout n es ls subs) pOffset =
     (if subs \<noteq> [] then indexBetweenArrays subs 0 0 (pOffset mod es) else (pOffset mod es, pOffset mod es))"

section \<open>Layouts\<close>

record mem_layout =
  pointerLayout :: "nat set"
  elementLayout :: "nat set"
  specialLayout :: "nat set"
  subArrays :: "(nat \<times> array_layout) list"
  memType :: ll_type
  maxLOffset :: nat
  maxPOffset :: nat
  mIsArray :: bool

definition newMemLayout :: "ll_type \<Rightarrow> bool \<Rightarrow> mem_layout" where
  "newMemLayout T isArray = \<lparr> pointerLayout = {}, elementLayout = {}, specialLayout = {}, subArrays = [],
     memType = T, maxLOffset = 0, maxPOffset = 0, mIsArray = isArray \<rparr>"

definition setMaxOffsets :: "nat \<Rightarrow> nat \<Rightarrow> mem_layout \<Rightarrow> mem_layout result" where
  "setMaxOffsets lOffset pOffset L = rassert (maxLOffset L = 0 \<and> maxPOffset L = 0) AssertFailed
     (Inr (L\<lparr> maxLOffset := lOffset, maxPOffset := pOffset \<rparr>))"

definition hasArray :: "mem_layout \<Rightarrow> bool" where
  "hasArray L \<longleftrightarrow> subArrays L \<noteq> []"

definition insertSubArray :: "nat \<Rightarrow> array_layout \<Rightarrow> mem_layout \<Rightarrow> mem_layout result" where
  "insertSubArray pOffset a L = rassert (map_of (subArrays L) pOffset = None) AssertFailed
     (Inr (L\<lparr> subArrays := om_insert pOffset a (subArrays L) \<rparr>))"

definition setElementOffset :: "nat \<Rightarrow> mem_layout \<Rightarrow> mem_layout" where
  "setElementOffset offset L = L\<lparr> elementLayout := insert offset (elementLayout L) \<rparr>"

definition setSpecialOffset :: "nat \<Rightarrow> mem_layout \<Rightarrow> mem_layout result" where
  "setSpecialOffset offset L = rassert (offset \<notin> specialLayout L) AssertFailed
     (Inr (L\<lparr> specialLayout := insert offset (specialLayout L) \<rparr>))"

definition setPointerOffset :: "nat \<Rightarrow> mem_layout \<Rightarrow> mem_layout result" where
  "setPointerOffset offset L = rassert (offset \<notin> pointerLayout L) AssertFailed
     (let L = L\<lparr> pointerLayout := insert offset (pointerLayout L) \<rparr> in
      rassert (pointerLayout L \<subseteq> elementLayout L) AssertFailed (Inr L))"

definition mergeMemoryLayout :: "mem_layout \<Rightarrow> nat \<Rightarrow> nat \<Rightarrow> mem_layout \<Rightarrow> mem_layout result" where
  "mergeMemoryLayout sub pOffset lOffset L =
     (let L = L\<lparr> elementLayout := elementLayout L \<union> (+) lOffset ` elementLayout sub,
                 pointerLayout := pointerLayout L \<union> (+) lOffset ` pointerLayout sub,
                 specialLayout := specialLayout L \<union> (+) pOffset ` specialLayout sub \<rparr> in
      rassert (pointerLayout L \<subseteq> elementLayout L) AssertFailed
      (if mIsArray L then
         (case subArrays L of
            [(k, a)] \<Rightarrow> rassert (k = 0) AssertFailed
              (Inr (L\<lparr> subArrays := [(k, mergeSubArrays (subArrays sub) 0 a)] \<rparr>))
          | _ \<Rightarrow> Inl AssertFailed)
       else Inr (L\<lparr> subArrays := fold (\<lambda>(k, a). om_insert (k + pOffset) a) (subArrays sub) (subArrays L) \<rparr>)))"

definition indexPhysicalOffset :: "mem_layout \<Rightarrow> nat \<Rightarrow> nat \<times> nat" where
  "indexPhysicalOffset L pOffset =
     (if \<not> hasArray L then (pOffset, pOffset)
      else if maxPOffset L \<le> pOffset then (SIZE_MAX, pOffset)
      else indexBetweenArrays (subArrays L) 0 0 pOffset)"

text \<open>The tables: which logical offsets are elements, and the number of each.\<close>

definition cacheIntoBitVector :: "mem_layout \<Rightarrow> bool list \<times> int list" where
  "cacheIntoBitVector L =
     (if elementLayout L = {} then ([], [])
      else let size = Max (elementLayout L) + 1; offsets = sorted_list_of_set (elementLayout L) in
        (fold (\<lambda>offset bits. bits[offset := True]) offsets (replicate size False),
         fold (\<lambda>(i, offset) index. index[offset := int i]) (enumerate 0 offsets) (replicate size (- 1))))"

definition getLogicalOffset :: "mem_layout \<Rightarrow> nat \<Rightarrow> int" where
  "getLogicalOffset L lOffset =
     (let logicalIndex = snd (cacheIntoBitVector L) in
      if length logicalIndex \<le> lOffset then - 1 else logicalIndex ! lOffset)"

definition offsetIndexable :: "mem_layout \<Rightarrow> nat \<Rightarrow> bool" where
  "offsetIndexable L lOffset =
     (let indexableLayout = fst (cacheIntoBitVector L) in
      lOffset < length indexableLayout \<and> indexableLayout ! lOffset)"

definition getNumIndexableElem :: "mem_layout \<Rightarrow> nat" where
  "getNumIndexableElem L = card (elementLayout L)"

definition offsetIsPtr :: "mem_layout \<Rightarrow> nat \<Rightarrow> bool" where
  "offsetIsPtr L lOffset \<longleftrightarrow> lOffset \<in> pointerLayout L"

section \<open>The manager\<close>

text \<open>
  Layouts are cached by type, apart for collapsed and uncollapsed arrays. The callback may take
  over an element: it then returns the layout and offsets it has updated.
\<close>

record layout_manager =
  collapsedLayoutMap :: "ll_type \<rightharpoonup> mem_layout"
  unCollapsedLayoutMap :: "ll_type \<rightharpoonup> mem_layout"

type_synonym layout_callback = "(ll_type \<Rightarrow> mem_layout \<Rightarrow> nat \<Rightarrow> nat \<Rightarrow> (mem_layout \<times> nat \<times> nat) option result) option"

definition findLayout :: "bool \<Rightarrow> ll_type \<Rightarrow> layout_manager \<Rightarrow> mem_layout option" where
  "findLayout collapseArray T m = (if collapseArray then collapsedLayoutMap m T else unCollapsedLayoutMap m T)"

definition insertLayout :: "bool \<Rightarrow> ll_type \<Rightarrow> mem_layout \<Rightarrow> layout_manager \<Rightarrow> layout_manager result" where
  "insertLayout collapseArray T L m = rassert (findLayout collapseArray T m = None) AssertFailed
     (Inr (if collapseArray then m\<lparr> collapsedLayoutMap := (collapsedLayoutMap m)(T \<mapsto> L) \<rparr>
           else m\<lparr> unCollapsedLayoutMap := (unCollapsedLayoutMap m)(T \<mapsto> L) \<rparr>))"

function (sequential)
  setElementLayout :: "data_layout \<Rightarrow> bool \<Rightarrow> layout_callback \<Rightarrow> ll_type \<Rightarrow>
    mem_layout \<Rightarrow> nat \<Rightarrow> nat \<Rightarrow> layout_manager \<Rightarrow> (mem_layout \<times> nat \<times> nat \<times> layout_manager) result"
and getCollapsedArrayLayout :: "data_layout \<Rightarrow> layout_callback \<Rightarrow> nat \<Rightarrow> ll_type \<Rightarrow>
    nat \<Rightarrow> nat \<Rightarrow> layout_manager \<Rightarrow> (mem_layout \<times> nat \<times> nat \<times> layout_manager) result"
and layoutElements :: "data_layout \<Rightarrow> layout_callback \<Rightarrow> nat \<Rightarrow> nat \<Rightarrow> ll_type \<Rightarrow>
    mem_layout \<Rightarrow> nat \<Rightarrow> nat \<Rightarrow> layout_manager \<Rightarrow> (mem_layout \<times> nat \<times> nat \<times> layout_manager) result"
and getNonCollapsedArrayLayout :: "data_layout \<Rightarrow> layout_callback \<Rightarrow> nat \<Rightarrow> ll_type \<Rightarrow>
    nat \<Rightarrow> nat \<Rightarrow> layout_manager \<Rightarrow> (mem_layout \<times> nat \<times> nat \<times> layout_manager) result"
and layoutFields :: "data_layout \<Rightarrow> bool \<Rightarrow> layout_callback \<Rightarrow> ll_type \<Rightarrow> nat \<Rightarrow> ll_type list \<Rightarrow>
    mem_layout \<Rightarrow> nat \<Rightarrow> nat \<Rightarrow> layout_manager \<Rightarrow> (mem_layout \<times> nat \<times> nat \<times> layout_manager) result"
and getStructLayout :: "data_layout \<Rightarrow> bool \<Rightarrow> layout_callback \<Rightarrow> string \<Rightarrow> ll_type list \<Rightarrow>
    nat \<Rightarrow> nat \<Rightarrow> layout_manager \<Rightarrow> (mem_layout \<times> nat \<times> nat \<times> layout_manager) result"
and DFSTypeTree :: "data_layout \<Rightarrow> bool \<Rightarrow> layout_callback \<Rightarrow> ll_type \<Rightarrow>
    nat \<Rightarrow> nat \<Rightarrow> layout_manager \<Rightarrow> (mem_layout \<times> nat \<times> nat \<times> layout_manager) result"
where
  "setElementLayout DL collapseArray callback T L lOffset pOffset m =
     rassert (if collapseArray then lOffset \<le> pOffset else pOffset = lOffset) AssertFailed
     (rbind (case callback of None \<Rightarrow> Inr None | Some f \<Rightarrow> f T L lOffset pOffset) (\<lambda>taken.
       case taken of
         Some (L, lOffset, pOffset) \<Rightarrow> Inr (L, lOffset, pOffset, m)
       | None \<Rightarrow>
           let typeAllocSize = getTypeAllocSize DL T in
           (case T of
              StructTy s ts \<Rightarrow>
                rbind (DFSTypeTree DL collapseArray callback (StructTy s ts) 0 0 m) (\<lambda>(sub, subLOffset, subPOffset, m).
                rbind (mergeMemoryLayout sub pOffset lOffset L) (\<lambda>L.
                  Inr (L, lOffset + subLOffset, pOffset + typeAllocSize, m)))
            | ArrayTy n E \<Rightarrow>
                rbind (DFSTypeTree DL collapseArray callback (ArrayTy n E) 0 0 m) (\<lambda>(sub, subLOffset, subPOffset, m).
                rbind (mergeMemoryLayout sub pOffset lOffset L) (\<lambda>L.
                  Inr (L, lOffset + subLOffset, pOffset + typeAllocSize, m)))
            | PointerTy s \<Rightarrow>
                rbind (setPointerOffset lOffset (setElementOffset lOffset L)) (\<lambda>L.
                  Inr (L, lOffset + typeAllocSize, pOffset + typeAllocSize, m))
            | _ \<Rightarrow> Inr (setElementOffset lOffset L, lOffset + typeAllocSize, pOffset + typeAllocSize, m))))"
| "getCollapsedArrayLayout DL callback numElement elementType lOffset pOffset m =
     rassert (lOffset = 0 \<and> pOffset = 0) AssertFailed
     (let T = ArrayTy numElement elementType; elementSize = getTypeAllocSize DL elementType in
      rbind (insertSubArray 0 (ArrayLayout numElement elementSize 0 []) (newMemLayout T True)) (\<lambda>L.
      rbind (setElementLayout DL True callback elementType L lOffset pOffset m) (\<lambda>(L, lOffset, pOffset, m).
      let pOffset = (if numElement \<noteq> SIZE_MAX then pOffset + size_t (elementSize * (numElement - 1)) else SIZE_MAX) in
      rbind (setMaxOffsets lOffset pOffset L) (\<lambda>L.
      (case map_of (subArrays L) 0 of
         None \<Rightarrow> Inl NullDeref
       | Some a \<Rightarrow>
           rbind (setLayoutSize lOffset a) (\<lambda>a.
           let L = L\<lparr> subArrays := om_put 0 a (subArrays L) \<rparr> in
           rbind (insertLayout True T L m) (\<lambda>m. Inr (L, lOffset, pOffset, m))))))))"
| "layoutElements DL callback i 0 elementType L lOffset pOffset m = Inr (L, lOffset, pOffset, m)"
| "layoutElements DL callback i (Suc k) elementType L lOffset pOffset m =
     rbind (setElementLayout DL False callback elementType L lOffset pOffset m) (\<lambda>(L, lOffset, pOffset, m).
     rassert (lOffset = pOffset \<and> pOffset = (i + 1) * getTypeAllocSize DL elementType) AssertFailed
     (layoutElements DL callback (i + 1) k elementType L lOffset pOffset m))"
| "getNonCollapsedArrayLayout DL callback numElement elementType lOffset pOffset m =
     rassert (lOffset = 0 \<and> pOffset = 0) AssertFailed
     (let T = ArrayTy numElement elementType; elementSize = getTypeAllocSize DL elementType in
      rassert (size_t (numElement * elementSize) = getTypeAllocSize DL T) AssertFailed
      (rassert (numElement \<noteq> SIZE_MAX) AssertFailed
      (rbind (layoutElements DL callback 0 numElement elementType (newMemLayout T False) lOffset pOffset m)
        (\<lambda>(L, lOffset, pOffset, m).
       rassert (pOffset = getTypeAllocSize DL T \<and> lOffset = getTypeAllocSize DL T) AssertFailed
       (rbind (setMaxOffsets lOffset pOffset L) (\<lambda>L.
        rbind (insertLayout False T L m) (\<lambda>m. Inr (L, lOffset, pOffset, m))))))))"
| "layoutFields DL collapseArray callback T i [] L lOffset pOffset m = Inr (L, lOffset, pOffset, m)"
| "layoutFields DL collapseArray callback T i (elementType # ts) L lOffset pOffset m =
     (let elemOffset = getElementOffset DL T i in
      rassert (pOffset \<le> elemOffset) AssertFailed
      (let padding = elemOffset - pOffset in
       rbind (setElementLayout DL collapseArray callback elementType L (lOffset + padding) (pOffset + padding) m)
         (\<lambda>(L, lOffset, pOffset, m). layoutFields DL collapseArray callback T (i + 1) ts L lOffset pOffset m)))"
| "getStructLayout DL collapseArray callback s ts lOffset pOffset m =
     rassert (lOffset = 0 \<and> pOffset = 0) AssertFailed
     (let T = StructTy s ts in
      rbind (layoutFields DL collapseArray callback T 0 ts (newMemLayout T False) lOffset pOffset m)
        (\<lambda>(L, lOffset, pOffset, m).
      rassert (pOffset \<le> getTypeAllocSize DL T) AssertFailed
      (let padding = getTypeAllocSize DL T - pOffset; pOffset = pOffset + padding; lOffset = lOffset + padding in
       rbind (setMaxOffsets lOffset pOffset L) (\<lambda>L.
       rbind (insertLayout collapseArray T L m) (\<lambda>m. Inr (L, lOffset, pOffset, m))))))"
| "DFSTypeTree DL collapseArray callback T lOffset pOffset m =
     rassert (isAggregateType T) AssertFailed
     (case findLayout collapseArray T m of
        Some L \<Rightarrow> Inr (L, lOffset + maxLOffset L, pOffset + maxPOffset L, m)
      | None \<Rightarrow>
          if getTypeAllocSize DL T = 0 then
            rbind (setMaxOffsets 0 0 (newMemLayout T True)) (\<lambda>L.
            let L = setElementOffset 0 L in
            rbind (insertLayout collapseArray T L m) (\<lambda>m. Inr (L, lOffset, pOffset, m)))
          else
            (case T of
               ArrayTy n E \<Rightarrow>
                 if collapseArray then getCollapsedArrayLayout DL callback n E lOffset pOffset m
                 else getNonCollapsedArrayLayout DL callback n E lOffset pOffset m
             | StructTy s ts \<Rightarrow> getStructLayout DL collapseArray callback s ts lOffset pOffset m
             | _ \<Rightarrow> Inl Unreachable))"
  by pat_completeness auto

termination
  by (relation "measures
    [\<lambda>x. case x of
        Inl (Inl (DL, c, cb, T, L, l, p, m)) \<Rightarrow> 3 * size T + 2
      | Inl (Inr (Inl (DL, cb, n, E, l, p, m))) \<Rightarrow> 3 * size E + 3
      | Inl (Inr (Inr (DL, cb, i, k, E, L, l, p, m))) \<Rightarrow> 3 * size E + 2
      | Inr (Inl (Inl (DL, cb, n, E, l, p, m))) \<Rightarrow> 3 * size E + 3
      | Inr (Inl (Inr (DL, c, cb, T, i, ts, L, l, p, m))) \<Rightarrow> 3 * size_list size ts + 2
      | Inr (Inr (Inl (DL, c, cb, s, ts, l, p, m))) \<Rightarrow> 3 * size_list size ts + 3
      | Inr (Inr (Inr (DL, c, cb, T, l, p, m))) \<Rightarrow> 3 * size T + 1,
     \<lambda>x. case x of
        Inl (Inr (Inr (DL, cb, i, k, E, L, l, p, m))) \<Rightarrow> k + 1 | _ \<Rightarrow> 0]") auto

definition getLayoutForType ::
  "data_layout \<Rightarrow> bool \<Rightarrow> layout_callback \<Rightarrow> ll_type \<Rightarrow> layout_manager \<Rightarrow> (mem_layout \<times> layout_manager) result" where
  "getLayoutForType DL collapseArray callback T m =
     rbind (DFSTypeTree DL collapseArray callback T 0 0 m) (\<lambda>(L, lOffset, pOffset, m). Inr (L, m))"

text \<open>The callback of \<open>CppMemModel\<close>: an element of a special type is one opaque element.\<close>

definition collectSpecialObj ::
  "data_layout \<Rightarrow> (ll_type \<Rightarrow> bool) \<Rightarrow> ll_type \<Rightarrow> mem_layout \<Rightarrow> nat \<Rightarrow> nat \<Rightarrow> (mem_layout \<times> nat \<times> nat) option result" where
  "collectSpecialObj DL isSpecialType T L lOffset pOffset =
     (if isSpecialType T then
        rbind (setSpecialOffset pOffset (setElementOffset lOffset L)) (\<lambda>L.
          Inr (Some (L, lOffset + getTypeAllocSize DL T, pOffset + getTypeAllocSize DL T)))
      else Inr None)"

text \<open>Whether a variable index of the given step at an offset moves inside an array.\<close>

fun arrayAround :: "nat \<Rightarrow> nat \<Rightarrow> (nat \<times> array_layout) list \<Rightarrow> (nat \<times> array_layout) option" where
  "arrayAround pOffset stepSize [] = None"
| "arrayAround pOffset stepSize ((arrOffset, a) # arrays) =
     (if arrOffset < pOffset \<and> stepSize \<le> size_t (arrOffset + getArraySize a) then Some (arrOffset, a)
      else arrayAround pOffset stepSize arrays)"

definition layoutsSize :: "(nat \<times> array_layout) list \<Rightarrow> nat" where
  "layoutsSize arrays = size_list (\<lambda>(k, a). size a) arrays"

lemma layoutsSize_mem: "(k, a) \<in> set arrays \<Longrightarrow> size a < layoutsSize arrays"
  by (induction arrays) (auto simp: layoutsSize_def)

lemma layoutsSize_subs: "layoutsSize (subArrayMap a) \<le> size a"
proof (cases a)
  case (ArrayLayout n es ls subs)
  have "layoutsSize subs \<le> size_list (size_prod (\<lambda>_. 0) size) subs"
    by (induction subs) (auto simp: layoutsSize_def)
  then show ?thesis by (simp add: ArrayLayout)
qed

lemma arrayAround_mem: "arrayAround p es arrays = Some (k, a) \<Longrightarrow> (k, a) \<in> set arrays"
  by (induction p es arrays rule: arrayAround.induct) (auto split: if_splits)

function isArrayExistAtOffset :: "(nat \<times> array_layout) list \<Rightarrow> nat \<Rightarrow> nat \<Rightarrow> bool" where
  "isArrayExistAtOffset arrayMap pOffset stepSize =
     (case map_of arrayMap pOffset of
        Some a \<Rightarrow>
          if elementSize a = stepSize then True
          else if elementSize a < stepSize then elementSize a = 1
          else isArrayExistAtOffset (subArrayMap a) 0 stepSize
      | None \<Rightarrow>
          (case arrayAround pOffset stepSize arrayMap of
             None \<Rightarrow> False
           | Some (arrOffset, a) \<Rightarrow> isArrayExistAtOffset (subArrayMap a) (pOffset - arrOffset) stepSize))"
  by pat_completeness auto

termination
proof (relation "measure (\<lambda>(arrays, p, es). layoutsSize arrays)")
  fix arrayMap and pOffset stepSize :: nat and a :: array_layout
  assume "map_of arrayMap pOffset = Some a"
  then have "layoutsSize (subArrayMap a) < layoutsSize arrayMap"
    using layoutsSize_mem [OF map_of_SomeD] layoutsSize_subs [of a] by (meson le_less_trans)
  then show "((subArrayMap a, 0, stepSize), arrayMap, pOffset, stepSize) \<in> measure (\<lambda>(arrays, p, es). layoutsSize arrays)"
    by simp
next
  fix arrayMap ka and pOffset stepSize arrOffset :: nat and a :: array_layout
  assume "arrayAround pOffset stepSize arrayMap = Some ka" and "(arrOffset, a) = ka"
  then have "(arrOffset, a) \<in> set arrayMap" using arrayAround_mem by blast
  then have "layoutsSize (subArrayMap a) < layoutsSize arrayMap"
    using layoutsSize_mem layoutsSize_subs [of a] by (meson le_less_trans)
  then show "((subArrayMap a, pOffset - arrOffset, stepSize), arrayMap, pOffset, stepSize) \<in>
      measure (\<lambda>(arrays, p, es). layoutsSize arrays)" by simp
qed simp

declare isArrayExistAtOffset.simps [simp del]

section \<open>The meaning of a layout\<close>

text \<open>
  What a data layout promises about a type and its parts: fields in ascending order, apart and
  inside the structure, arrays without padding between elements, scalars of at least a byte.
  \<open>sp\<close> says which types are special: those are opaque. Sizes stay below \<open>SIZE_MAX\<close>.
\<close>

fun wf_type :: "data_layout \<Rightarrow> (ll_type \<Rightarrow> bool) \<Rightarrow> ll_type \<Rightarrow> bool"
and wf_fields :: "data_layout \<Rightarrow> (ll_type \<Rightarrow> bool) \<Rightarrow> ll_type \<Rightarrow> nat \<Rightarrow> nat \<Rightarrow> ll_type list \<Rightarrow> bool" where
  "wf_type DL sp (StructTy s ts) \<longleftrightarrow> getTypeAllocSize DL (StructTy s ts) < SIZE_MAX \<and>
     (if sp (StructTy s ts) then 0 < getTypeAllocSize DL (StructTy s ts) else wf_fields DL sp (StructTy s ts) 0 0 ts)"
| "wf_type DL sp (ArrayTy n E) \<longleftrightarrow> getTypeAllocSize DL (ArrayTy n E) < SIZE_MAX \<and>
     (if sp (ArrayTy n E) then 0 < getTypeAllocSize DL (ArrayTy n E)
      else wf_type DL sp E \<and> getTypeAllocSize DL (ArrayTy n E) = n * getTypeAllocSize DL E)"
| "wf_type DL sp (OpaqueTy s) \<longleftrightarrow> False"
| "wf_type DL sp T \<longleftrightarrow> 0 < getTypeAllocSize DL T \<and> getTypeAllocSize DL T < SIZE_MAX"
| "wf_fields DL sp S i from [] \<longleftrightarrow> from \<le> getTypeAllocSize DL S"
| "wf_fields DL sp S i from (t # ts) \<longleftrightarrow> from \<le> getElementOffset DL S i \<and> wf_type DL sp t \<and>
     wf_fields DL sp S (i + 1) (getElementOffset DL S i + getTypeAllocSize DL t) ts"

text \<open>
  The same place of the first element of every array on the way (\<open>canon\<close>), its logical offset
  (\<open>logOffset\<close>), and the scalar or special type that starts there (\<open>scalarAt\<close>).
\<close>

fun canon :: "data_layout \<Rightarrow> (ll_type \<Rightarrow> bool) \<Rightarrow> ll_type \<Rightarrow> nat \<Rightarrow> nat"
and canonIn :: "data_layout \<Rightarrow> (ll_type \<Rightarrow> bool) \<Rightarrow> ll_type \<Rightarrow> nat \<Rightarrow> ll_type list \<Rightarrow> nat \<Rightarrow> nat" where
  "canon DL sp (StructTy s ts) p = (if sp (StructTy s ts) then p else canonIn DL sp (StructTy s ts) 0 ts p)"
| "canon DL sp (ArrayTy n E) p = (if sp (ArrayTy n E) then p else canon DL sp E (p mod getTypeAllocSize DL E))"
| "canon DL sp T p = p"
| "canonIn DL sp S i [] p = p"
| "canonIn DL sp S i (t # ts) p =
     (let k = getElementOffset DL S i in
      if p < k then p
      else if p < k + getTypeAllocSize DL t then k + canon DL sp t (p - k)
      else canonIn DL sp S (i + 1) ts p)"

fun logSize :: "data_layout \<Rightarrow> (ll_type \<Rightarrow> bool) \<Rightarrow> ll_type \<Rightarrow> nat"
and lostIn :: "data_layout \<Rightarrow> (ll_type \<Rightarrow> bool) \<Rightarrow> ll_type list \<Rightarrow> nat" where
  "logSize DL sp (StructTy s ts) = getTypeAllocSize DL (StructTy s ts) - (if sp (StructTy s ts) then 0 else lostIn DL sp ts)"
| "logSize DL sp (ArrayTy n E) =
     (if sp (ArrayTy n E) \<or> getTypeAllocSize DL (ArrayTy n E) = 0 then getTypeAllocSize DL (ArrayTy n E) else logSize DL sp E)"
| "logSize DL sp T = getTypeAllocSize DL T"
| "lostIn DL sp [] = 0"
| "lostIn DL sp (t # ts) = (getTypeAllocSize DL t - logSize DL sp t) + lostIn DL sp ts"

fun logOffset :: "data_layout \<Rightarrow> (ll_type \<Rightarrow> bool) \<Rightarrow> ll_type \<Rightarrow> nat \<Rightarrow> nat"
and logOffsetIn :: "data_layout \<Rightarrow> (ll_type \<Rightarrow> bool) \<Rightarrow> ll_type \<Rightarrow> nat \<Rightarrow> nat \<Rightarrow> ll_type list \<Rightarrow> nat \<Rightarrow> nat" where
  "logOffset DL sp (StructTy s ts) p = (if sp (StructTy s ts) then p else logOffsetIn DL sp (StructTy s ts) 0 0 ts p)"
| "logOffset DL sp (ArrayTy n E) p = (if sp (ArrayTy n E) then p else logOffset DL sp E (p mod getTypeAllocSize DL E))"
| "logOffset DL sp T p = p"
| "logOffsetIn DL sp S i lost [] p = p - lost"
| "logOffsetIn DL sp S i lost (t # ts) p =
     (let k = getElementOffset DL S i in
      if p < k then p - lost
      else if p < k + getTypeAllocSize DL t then k - lost + logOffset DL sp t (p - k)
      else logOffsetIn DL sp S (i + 1) (lost + (getTypeAllocSize DL t - logSize DL sp t)) ts p)"

fun scalarAt :: "data_layout \<Rightarrow> (ll_type \<Rightarrow> bool) \<Rightarrow> ll_type \<Rightarrow> nat \<Rightarrow> ll_type option"
and scalarIn :: "data_layout \<Rightarrow> (ll_type \<Rightarrow> bool) \<Rightarrow> ll_type \<Rightarrow> nat \<Rightarrow> ll_type list \<Rightarrow> nat \<Rightarrow> ll_type option" where
  "scalarAt DL sp (StructTy s ts) p =
     (if sp (StructTy s ts) then if p = 0 then Some (StructTy s ts) else None
      else scalarIn DL sp (StructTy s ts) 0 ts p)"
| "scalarAt DL sp (ArrayTy n E) p =
     (if sp (ArrayTy n E) then if p = 0 then Some (ArrayTy n E) else None
      else scalarAt DL sp E (p mod getTypeAllocSize DL E))"
| "scalarAt DL sp T p = (if p = 0 then Some T else None)"
| "scalarIn DL sp S i [] p = None"
| "scalarIn DL sp S i (t # ts) p =
     (let k = getElementOffset DL S i in
      if p < k then None
      else if p < k + getTypeAllocSize DL t then scalarAt DL sp t (p - k)
      else scalarIn DL sp S (i + 1) ts p)"

text \<open>No part of the type is empty.\<close>

fun no_empty :: "data_layout \<Rightarrow> (ll_type \<Rightarrow> bool) \<Rightarrow> ll_type \<Rightarrow> bool" where
  "no_empty DL sp (StructTy s ts) \<longleftrightarrow> 0 < getTypeAllocSize DL (StructTy s ts) \<and>
     (sp (StructTy s ts) \<or> (\<forall>t \<in> set ts. no_empty DL sp t))"
| "no_empty DL sp (ArrayTy n E) \<longleftrightarrow> 0 < getTypeAllocSize DL (ArrayTy n E) \<and> (sp (ArrayTy n E) \<or> no_empty DL sp E)"
| "no_empty DL sp T \<longleftrightarrow> 0 < getTypeAllocSize DL T"

end
