(* ===== verification/LayoutOk.thy ===== *)
theory LayoutOk
  imports MemLayout
begin

text \<open>
  The layouts are right. The arrays of a layout, its elements and its pointers are described by
  recursion on the type (\<open>subs\<close>, \<open>elems\<close>, \<open>ptrs\<close>, \<open>specials\<close>, together \<open>layoutOf\<close>). The walk over the arrays
  computes \<open>logOffset\<close> and \<open>canon\<close>; logical offsets tell places apart exactly up to array
  indices; and the manager delivers \<open>layoutOf\<close> whatever its caches hold.
\<close>

section \<open>Arrays of a layout\<close>

definition shiftKeys :: "nat \<Rightarrow> (nat \<times> array_layout) list \<Rightarrow> (nat \<times> array_layout) list" where
  "shiftKeys d xs = map (\<lambda>(k, a). (d + k, a)) xs"

fun subs :: "data_layout \<Rightarrow> (ll_type \<Rightarrow> bool) \<Rightarrow> ll_type \<Rightarrow> (nat \<times> array_layout) list"
and subsIn :: "data_layout \<Rightarrow> (ll_type \<Rightarrow> bool) \<Rightarrow> ll_type \<Rightarrow> nat \<Rightarrow> ll_type list \<Rightarrow> (nat \<times> array_layout) list" where
  "subs DL sp (StructTy s ts) =
     (if sp (StructTy s ts) \<or> getTypeAllocSize DL (StructTy s ts) = 0 then [] else subsIn DL sp (StructTy s ts) 0 ts)"
| "subs DL sp (ArrayTy n E) =
     (if sp (ArrayTy n E) \<or> getTypeAllocSize DL (ArrayTy n E) = 0 then []
      else [(0, ArrayLayout n (getTypeAllocSize DL E) (logSize DL sp E) (subs DL sp E))])"
| "subs DL sp T = []"
| "subsIn DL sp S i [] = []"
| "subsIn DL sp S i (t # ts) = shiftKeys (getElementOffset DL S i) (subs DL sp t) @ subsIn DL sp S (i + 1) ts"

lemma shiftKeys_simps [simp]:
  "shiftKeys d [] = []" "shiftKeys d (x # xs) = (d + fst x, snd x) # shiftKeys d xs"
  "shiftKeys d (xs @ ys) = shiftKeys d xs @ shiftKeys d ys" "shiftKeys 0 xs = xs"
  "shiftKeys c (shiftKeys d xs) = shiftKeys (c + d) xs" "shiftKeys d xs = [] \<longleftrightarrow> xs = []"
  "fst ` set (shiftKeys d xs) = (+) d ` fst ` set xs"
  by (auto simp: shiftKeys_def case_prod_unfold add.assoc image_image)

lemma size_t_less [simp]: "n < SIZE_MAX \<Longrightarrow> size_t n = n" "size_t SIZE_MAX = SIZE_MAX"
  by (simp_all add: size_t_def SIZE_MAX_def)

lemma wf_type_size: "wf_type DL sp T \<Longrightarrow> getTypeAllocSize DL T < SIZE_MAX"
  by (cases T) auto

lemma wf_fields_from: "wf_fields DL sp S i from ts \<Longrightarrow> from \<le> getTypeAllocSize DL S"
  by (induction ts arbitrary: i "from") (auto, fastforce)

lemma subs_keys:
  "wf_type DL sp T \<Longrightarrow> k \<in> fst ` set (subs DL sp T) \<Longrightarrow> k < getTypeAllocSize DL T"
  "wf_fields DL sp S i from ts \<Longrightarrow> k \<in> fst ` set (subsIn DL sp S i ts) \<Longrightarrow> from \<le> k \<and> k < getTypeAllocSize DL S"
proof (induction DL sp T and DL sp S i ts arbitrary: k and "from" k rule: subs_subsIn.induct)
  case (5 DL sp S i t ts)
  let ?k = "getElementOffset DL S i"
  from 5(3) have wf: "from \<le> ?k" "wf_type DL sp t" "wf_fields DL sp S (i + 1) (?k + getTypeAllocSize DL t) ts" by simp_all
  from 5(4) have "k \<in> (+) ?k ` fst ` set (subs DL sp t) \<union> fst ` set (subsIn DL sp S (i + 1) ts)"
    by (simp only: subsIn.simps set_append image_Un shiftKeys_simps(7))
  then consider j where "j \<in> fst ` set (subs DL sp t)" "k = ?k + j" | "k \<in> fst ` set (subsIn DL sp S (i + 1) ts)"
    by blast
  then show ?case
  proof cases
    case 1
    then show ?thesis using 5(1) [OF wf(2)] wf wf_fields_from [OF wf(3)] by fastforce
  next
    case 2
    then show ?thesis using 5(2) [OF wf(3)] wf by fastforce
  qed
qed (auto split: if_splits)

lemma logSize_le:
  "wf_type DL sp T \<Longrightarrow> logSize DL sp T \<le> getTypeAllocSize DL T"
  "wf_fields DL sp S i from ts \<Longrightarrow> from + lostIn DL sp ts \<le> getTypeAllocSize DL S"
proof (induction DL sp T and DL sp ts arbitrary: and S i "from" rule: logSize_lostIn.induct)
  case (2 DL sp n E)
  show ?case
  proof (cases "sp (ArrayTy n E) \<or> getTypeAllocSize DL (ArrayTy n E) = 0")
    case False
    then have "logSize DL sp E \<le> getTypeAllocSize DL E" "getTypeAllocSize DL (ArrayTy n E) = n * getTypeAllocSize DL E"
      "n * getTypeAllocSize DL E \<noteq> 0" using 2 by auto
    then show ?thesis using False by (cases n) auto
  qed auto
qed fastforce+

definition keysFrom :: "nat \<Rightarrow> (nat \<times> 'a) list \<Rightarrow> bool" where
  "keysFrom d xs \<longleftrightarrow> (\<forall>x \<in> set xs. d \<le> fst x)"

lemma keysFrom_simps [simp]:
  "keysFrom d []" "keysFrom d (x # xs) \<longleftrightarrow> d \<le> fst x \<and> keysFrom d xs"
  "keysFrom d (xs @ ys) \<longleftrightarrow> keysFrom d xs \<and> keysFrom d ys"
  by (auto simp: keysFrom_def)

lemma keysFrom_shift [simp]: "keysFrom (c + d) (shiftKeys c ys) \<longleftrightarrow> keysFrom d ys" "keysFrom c (shiftKeys c ys)"
  by (auto simp: keysFrom_def shiftKeys_def)

lemma keysFrom_mono: "keysFrom d xs \<Longrightarrow> c \<le> d \<Longrightarrow> keysFrom c xs"
  by (auto simp: keysFrom_def)

lemma subsIn_from: "wf_fields DL sp S i from ts \<Longrightarrow> keysFrom from (subsIn DL sp S i ts)"
  using subs_keys(2) by (fastforce simp: keysFrom_def)

text \<open>Starting the walk later makes no difference before the first array.\<close>

lemma between_shift:
  assumes "c \<le> c'" and "c' \<le> p" and "keysFrom c' R"
  shows "indexBetweenArrays R l c p = indexBetweenArrays R (l + (c' - c)) c' p"
  using assms by (cases R) (auto simp: Let_def)

lemma between_before:
  assumes "keysFrom p R"
  shows "indexBetweenArrays R l c p = (l + (p - c), p)"
  using assms by (cases R) auto

lemma between_after:
  "keysFrom (d + n) R \<Longrightarrow> d + n \<le> p \<Longrightarrow> indexBetweenArrays R l d p = indexBetweenArrays R (l + n) (d + n) p"
  "keysFrom (d + n) R \<Longrightarrow> q < n \<Longrightarrow> indexBetweenArrays R l d (d + q) = (l + q, d + q)"
proof -
  show "keysFrom (d + n) R \<Longrightarrow> d + n \<le> p \<Longrightarrow> indexBetweenArrays R l d p = indexBetweenArrays R (l + n) (d + n) p"
    using between_shift [of d "d + n" p R l] by simp
  show "keysFrom (d + n) R \<Longrightarrow> q < n \<Longrightarrow> indexBetweenArrays R l d (d + q) = (l + q, d + q)"
    using between_before [of "d + q" R l d] keysFrom_mono [of "d + n" R "d + q"] by simp
qed

lemma mod_size:
  assumes "p < n * (m :: nat)"
  shows "p mod m < m" and "0 < n" and "m \<le> n * m"
  using assms by (cases "m = 0"; cases n; auto)+

lemma getArraySize_array:
  assumes "wf_type DL sp (ArrayTy n E)" and "\<not> sp (ArrayTy n E)" and "getTypeAllocSize DL (ArrayTy n E) \<noteq> 0"
  shows "getArraySize (ArrayLayout n (getTypeAllocSize DL E) l xs) = getTypeAllocSize DL (ArrayTy n E)"
proof -
  from assms have n: "n * getTypeAllocSize DL E < SIZE_MAX" "getTypeAllocSize DL (ArrayTy n E) = n * getTypeAllocSize DL E"
    "getTypeAllocSize DL E \<noteq> 0" by auto
  then have "n \<le> n * getTypeAllocSize DL E" by simp
  then have "n \<noteq> SIZE_MAX" using n(1) by linarith
  then show ?thesis using n by (simp add: getArraySize_def)
qed

lemma lost_arith:
  "f \<le> k \<Longrightarrow> k + n + lost \<le> m \<Longrightarrow> ls \<le> n \<Longrightarrow> l + (k - f) + ls + (m - (k + n) - lost) = l + (m - f - (n - ls + lost))"
  for f k n lost m ls l :: nat
  by linarith

text \<open>The walk steps over the arrays of a part that ends at or before the offset.\<close>

lemma between_skip:
  "wf_type DL sp T \<Longrightarrow> d + getTypeAllocSize DL T \<le> p \<Longrightarrow> p < SIZE_MAX \<Longrightarrow> keysFrom (d + getTypeAllocSize DL T) R \<Longrightarrow>
     indexBetweenArrays (shiftKeys d (subs DL sp T) @ R) l d p = indexBetweenArrays R (l + logSize DL sp T) (d + getTypeAllocSize DL T) p"
  "wf_fields DL sp S i from ts \<Longrightarrow> d + getTypeAllocSize DL S \<le> p \<Longrightarrow> p < SIZE_MAX \<Longrightarrow> keysFrom (d + getTypeAllocSize DL S) R \<Longrightarrow>
     indexBetweenArrays (shiftKeys d (subsIn DL sp S i ts) @ R) l (d + from) p =
       indexBetweenArrays R (l + (getTypeAllocSize DL S - from - lostIn DL sp ts)) (d + getTypeAllocSize DL S) p"
proof (induction DL sp T and DL sp S i ts arbitrary: d R l and d "from" R l rule: subs_subsIn.induct)
  case (1 DL sp s ts)
  show ?case
  proof (cases "sp (StructTy s ts) \<or> getTypeAllocSize DL (StructTy s ts) = 0")
    case True
    then have "logSize DL sp (StructTy s ts) = getTypeAllocSize DL (StructTy s ts)" by auto
    then show ?thesis using True between_shift [OF _ 1(3,5), of d l] by simp
  next
    case False
    then show ?thesis using 1(1) [OF False, of 0 d R l] 1(2-5) by simp
  qed
next
  case (2 DL sp n E)
  show ?case
  proof (cases "sp (ArrayTy n E) \<or> getTypeAllocSize DL (ArrayTy n E) = 0")
    case True
    then show ?thesis using between_shift [OF _ 2(3,5), of d l] by simp
  next
    case False
    have sz: "getArraySize (ArrayLayout n (getTypeAllocSize DL E) x xs) = getTypeAllocSize DL (ArrayTy n E)" for x xs
      using getArraySize_array [OF 2(2)] False by simp
    have lt: "d + getTypeAllocSize DL (ArrayTy n E) < SIZE_MAX" using 2(3,4) by linarith
    from 2(3) have "\<not> p \<le> d" using False by linarith
    then show ?thesis using False lt 2(3) by (simp add: sz Let_def)
  qed
next
  case (5 DL sp S i t ts)
  let ?k = "getElementOffset DL S i" and ?n = "getTypeAllocSize DL t"
  let ?R = "shiftKeys d (subsIn DL sp S (i + 1) ts) @ R"
  from 5(3) have wf: "from \<le> ?k" "wf_type DL sp t" "wf_fields DL sp S (i + 1) (?k + ?n) ts" by simp_all
  note le = wf_fields_from [OF wf(3)]
  have kR: "keysFrom (d + ?k + ?n) ?R"
    using subsIn_from [OF wf(3)] keysFrom_mono [OF 5(6)] le by (simp add: add.assoc)
  then have kA: "keysFrom (d + ?k) (shiftKeys (d + ?k) (subs DL sp t) @ ?R)"
    using keysFrom_mono [OF kR, of "d + ?k"] by (simp only: keysFrom_simps keysFrom_shift)
  have p: "d + ?k \<le> p" "d + ?k + ?n \<le> p" using 5(4) le by linarith+
  have "indexBetweenArrays (shiftKeys (d + ?k) (subs DL sp t) @ ?R) l (d + from) p =
      indexBetweenArrays (shiftKeys (d + ?k) (subs DL sp t) @ ?R) (l + (?k - from)) (d + ?k) p"
    using between_shift [OF _ p(1) kA, of "d + from" l] wf(1) by simp
  also have "\<dots> = indexBetweenArrays ?R (l + (?k - from) + logSize DL sp t) (d + (?k + ?n)) p"
    using 5(1) [OF wf(2) p(2) 5(5) kR] by (simp add: add.assoc)
  also have "\<dots> = indexBetweenArrays R (l + (?k - from) + logSize DL sp t +
      (getTypeAllocSize DL S - (?k + ?n) - lostIn DL sp ts)) (d + getTypeAllocSize DL S) p"
    by (rule 5(2) [OF wf(3) 5(4-6)])
  also have "l + (?k - from) + logSize DL sp t + (getTypeAllocSize DL S - (?k + ?n) - lostIn DL sp ts) =
      l + (getTypeAllocSize DL S - from - lostIn DL sp (t # ts))"
    using lost_arith [OF wf(1) logSize_le(2) [OF wf(3)] logSize_le(1) [OF wf(2)]] by simp
  finally show ?case by simp
next
  case (4 DL sp S i)
  have "d + from \<le> d + getTypeAllocSize DL S" using 4(1) by simp
  from between_shift [OF this 4(2,4), of l] show ?case by simp
qed (simp_all add: between_after(1))

section \<open>The walk computes the reference offsets\<close>

lemma canon_zero: "canon DL sp T 0 = 0" "canonIn DL sp S i ts 0 = 0"
  by (induction DL sp T "0 :: nat" and DL sp S i ts "0 :: nat" rule: canon_canonIn.induct) (auto simp: Let_def)

lemma logOffset_zero: "logOffset DL sp T 0 = 0" "logOffsetIn DL sp S i lost ts 0 = 0"
  by (induction DL sp T "0 :: nat" and DL sp S i lost ts "0 :: nat" rule: logOffset_logOffsetIn.induct) (auto simp: Let_def)

lemma between_inside:
  "wf_type DL sp T \<Longrightarrow> p < getTypeAllocSize DL T \<Longrightarrow> d + getTypeAllocSize DL T \<le> SIZE_MAX \<Longrightarrow> keysFrom (d + getTypeAllocSize DL T) R \<Longrightarrow>
     indexBetweenArrays (shiftKeys d (subs DL sp T) @ R) l d (d + p) = (l + logOffset DL sp T p, d + canon DL sp T p)"
  "wf_fields DL sp S i from ts \<Longrightarrow> from \<le> p \<Longrightarrow> p < getTypeAllocSize DL S \<Longrightarrow> lost \<le> from \<Longrightarrow> d + getTypeAllocSize DL S \<le> SIZE_MAX \<Longrightarrow>
     keysFrom (d + getTypeAllocSize DL S) R \<Longrightarrow>
     indexBetweenArrays (shiftKeys d (subsIn DL sp S i ts) @ R) (l + (from - lost)) (d + from) (d + p) =
       (l + logOffsetIn DL sp S i lost ts p, d + canonIn DL sp S i ts p)"
proof (induction DL sp T p and DL sp S i lost ts p arbitrary: d R l and d "from" R l rule: logOffset_logOffsetIn.induct)
  case (1 DL sp s ts p)
  show ?case
  proof (cases "sp (StructTy s ts)")
    case True
    with 1(3,5) show ?thesis using between_before [OF keysFrom_mono [OF 1(5)]] by simp
  next
    case False
    then show ?thesis using 1(1) [OF False, of 0 d R l] 1(2-5) by simp
  qed
next
  case (2 DL sp n E p)
  show ?case
  proof (cases "sp (ArrayTy n E)")
    case True
    with 2(3,5) show ?thesis using between_before [OF keysFrom_mono [OF 2(5)]] by simp
  next
    case False
    let ?q = "p mod getTypeAllocSize DL E"
    have sz: "getArraySize (ArrayLayout n (getTypeAllocSize DL E) x xs) = getTypeAllocSize DL (ArrayTy n E)" for x xs
      using getArraySize_array [OF 2(2)] False 2(3) by simp
    from 2(2) False have wf: "wf_type DL sp E" "getTypeAllocSize DL (ArrayTy n E) = n * getTypeAllocSize DL E" by auto
    then have E: "?q < getTypeAllocSize DL E" using 2(3) mod_size(1) by metis
    have inner: "indexBetweenArrays (subs DL sp E) 0 0 ?q = (logOffset DL sp E ?q, canon DL sp E ?q)"
      using 2(1) [OF False wf(1) E, of 0 "[]" 0] wf_type_size [OF wf(1)] by simp
    have arr: "indexArray (ArrayLayout n (getTypeAllocSize DL E) x (subs DL sp E)) p = (logOffset DL sp E ?q, canon DL sp E ?q)" for x
      using inner by (cases "subs DL sp E = []") auto
    have "size_t (d + getTypeAllocSize DL (ArrayTy n E)) = d + getTypeAllocSize DL (ArrayTy n E)"
      using 2(4) by (cases "d + getTypeAllocSize DL (ArrayTy n E) = SIZE_MAX") simp_all
    then show ?thesis using False 2(3) arr sz by (simp add: Let_def canon_zero logOffset_zero del: indexArray.simps)
  qed
next
  case (5 DL sp S i lost t ts p)
  let ?k = "getElementOffset DL S i" and ?n = "getTypeAllocSize DL t"
  let ?R = "shiftKeys d (subsIn DL sp S (i + 1) ts) @ R"
  from 5(3) have wf: "from \<le> ?k" "wf_type DL sp t" "wf_fields DL sp S (i + 1) (?k + ?n) ts" by simp_all
  note le = wf_fields_from [OF wf(3)]
  have kR: "keysFrom (d + ?k + ?n) ?R"
    using subsIn_from [OF wf(3)] keysFrom_mono [OF 5(8)] le by (simp add: add.assoc)
  have kA: "keysFrom (d + ?k) (shiftKeys (d + ?k) (subs DL sp t) @ ?R)"
    using keysFrom_mono [OF kR, of "d + ?k"] by (simp only: keysFrom_simps keysFrom_shift)
  have lost: "lost \<le> ?k" "lost + (?n - logSize DL sp t) \<le> ?k + ?n" using 5(6) wf(1) by linarith+
  have start: "indexBetweenArrays (shiftKeys (d + ?k) (subs DL sp t) @ ?R) (l + (from - lost)) (d + from) (d + p) =
      indexBetweenArrays (shiftKeys (d + ?k) (subs DL sp t) @ ?R) (l + (?k - lost)) (d + ?k) (d + p)" if "?k \<le> p"
    using between_shift [OF _ _ kA, of "d + from" "d + p" "l + (from - lost)"] that wf(1) 5(6) by simp
  consider "p < ?k" | "?k \<le> p" "p < ?k + ?n" | "?k + ?n \<le> p" by linarith
  then show ?case
  proof cases
    case 1
    have "indexBetweenArrays (shiftKeys (d + ?k) (subs DL sp t) @ ?R) (l + (from - lost)) (d + from) (d + p) =
        (l + (from - lost) + (d + p - (d + from)), d + p)"
      using 1 by (intro between_before keysFrom_mono [OF kA]) simp
    then show ?thesis using 1 5(4,6) by (simp add: Let_def)
  next
    case 2
    then have "p - ?k < ?n" and p: "d + ?k + (p - ?k) = d + p" and neg: "\<not> p < ?k" by linarith+
    have "d + ?k + ?n \<le> SIZE_MAX" using 5(7) le by linarith
    from 5(1) [OF refl neg 2(2) wf(2) \<open>p - ?k < ?n\<close> this kR, of "l + (?k - lost)"]
    show ?thesis using start [OF 2(1)] 2 unfolding p by (simp add: Let_def add.assoc)
  next
    case 3
    then have neg: "\<not> p < ?k" "\<not> p < ?k + ?n" and p: "?k \<le> p" "d + ?k + ?n \<le> d + p" by linarith+
    have max: "d + p < SIZE_MAX" using 5(5,7) by linarith
    have "indexBetweenArrays (shiftKeys (d + ?k) (subs DL sp t) @ ?R) (l + (?k - lost)) (d + ?k) (d + p) =
        indexBetweenArrays ?R (l + (?k - lost) + logSize DL sp t) (d + (?k + ?n)) (d + p)"
      using between_skip(1) [OF wf(2) p(2) max kR] by (simp add: add.assoc)
    also have "l + (?k - lost) + logSize DL sp t = l + (?k + ?n - (lost + (?n - logSize DL sp t)))"
      using lost(1) logSize_le(1) [OF wf(2)] by linarith
    finally show ?thesis
      using start [OF p(1)] 5(2) [OF refl neg wf(3) 3 5(5) lost(2) 5(7,8), of l] neg by (simp add: Let_def)
  qed
next
  case (4 DL sp S i lost p)
  from 4(3,6) have "keysFrom (d + p) R" using keysFrom_mono by fastforce
  from between_before [OF this] show ?case using 4(1-4) by simp
qed (simp_all add: between_after(2))

section \<open>Logical offsets tell places apart\<close>

lemma logOffset_less:
  "wf_type DL sp T \<Longrightarrow> p < getTypeAllocSize DL T \<Longrightarrow> logOffset DL sp T p < logSize DL sp T \<and> canon DL sp T p < getTypeAllocSize DL T"
  "wf_fields DL sp S i from ts \<Longrightarrow> from \<le> p \<Longrightarrow> p < getTypeAllocSize DL S \<Longrightarrow> lost \<le> from \<Longrightarrow>
     from - lost \<le> logOffsetIn DL sp S i lost ts p \<and> logOffsetIn DL sp S i lost ts p < getTypeAllocSize DL S - lost - lostIn DL sp ts \<and>
     from \<le> canonIn DL sp S i ts p \<and> canonIn DL sp S i ts p < getTypeAllocSize DL S"
proof (induction DL sp T p and DL sp S i lost ts p arbitrary: and "from" rule: logOffset_logOffsetIn.induct)
  case (2 DL sp n E p)
  show ?case
  proof (cases "sp (ArrayTy n E)")
    case False
    let ?q = "p mod getTypeAllocSize DL E"
    from 2(2) False have wf: "wf_type DL sp E" "getTypeAllocSize DL (ArrayTy n E) = n * getTypeAllocSize DL E" by auto
    have "p < n * getTypeAllocSize DL E" using wf(2) 2(3) by simp
    note m = mod_size [OF this]
    have ih: "logOffset DL sp E ?q < logSize DL sp E" "canon DL sp E ?q < getTypeAllocSize DL E"
      using 2(1) [OF False wf(1) m(1)] by simp_all
    then have "canon DL sp E ?q < getTypeAllocSize DL (ArrayTy n E)" using m(3) unfolding wf(2) by linarith
    then show ?thesis using False 2(3) ih(1) by simp
  qed (use 2(3) in auto)
next
  case (5 DL sp S i lost t ts p)
  let ?k = "getElementOffset DL S i" and ?n = "getTypeAllocSize DL t"
  from 5(3) have wf: "from \<le> ?k" "wf_type DL sp t" "wf_fields DL sp S (i + 1) (?k + ?n) ts" by simp_all
  note le = logSize_le(1) [OF wf(2)] logSize_le(2) [OF wf(3)]
  consider "p < ?k" | "?k \<le> p" "p < ?k + ?n" | "?k + ?n \<le> p" by linarith
  then show ?case
  proof cases
    case 1
    then show ?thesis using 5(4-6) wf(1) le by (auto simp: Let_def)
  next
    case 2
    then have "\<not> p < ?k" "p - ?k < ?n" by linarith+
    from 5(1) [OF refl this(1) 2(2) wf(2) this(2)] show ?thesis using 2 5(4-6) wf(1) le by (auto simp: Let_def)
  next
    case 3
    then have "\<not> p < ?k" "\<not> p < ?k + ?n" "lost + (?n - logSize DL sp t) \<le> ?k + ?n" using 5(6) wf(1) by linarith+
    from 5(2) [OF refl this(1,2) wf(3) 3 5(5) this(3)] this(1,2) show ?thesis using 5(4-6) wf(1) le by (auto simp: Let_def)
  qed
qed auto

text \<open>Both orders agree, so equal logical offsets are equal places.\<close>

lemma logOffset_mono:
  "wf_type DL sp T \<Longrightarrow> p < getTypeAllocSize DL T \<Longrightarrow> q < getTypeAllocSize DL T \<Longrightarrow>
     logOffset DL sp T p < logOffset DL sp T q \<longleftrightarrow> canon DL sp T p < canon DL sp T q"
  "wf_fields DL sp S i from ts \<Longrightarrow> lost \<le> from \<Longrightarrow> from \<le> p \<Longrightarrow> p < getTypeAllocSize DL S \<Longrightarrow> from \<le> q \<Longrightarrow> q < getTypeAllocSize DL S \<Longrightarrow>
     logOffsetIn DL sp S i lost ts p < logOffsetIn DL sp S i lost ts q \<longleftrightarrow> canonIn DL sp S i ts p < canonIn DL sp S i ts q"
proof (induction DL sp T and DL sp S i "from" ts arbitrary: p q and lost p q rule: wf_type_wf_fields.induct)
  case (2 DL sp n E)
  show ?case
  proof (cases "sp (ArrayTy n E)")
    case False
    from 2(2) False have wf: "wf_type DL sp E" "getTypeAllocSize DL (ArrayTy n E) = n * getTypeAllocSize DL E" by auto
    have "p < n * getTypeAllocSize DL E" "q < n * getTypeAllocSize DL E" using wf(2) 2(3,4) by simp_all
    then show ?thesis using 2(1) [OF False wf(1) mod_size(1) mod_size(1)] False by simp
  qed (use 2(3,4) in auto)
next
  case (6 DL sp S i "from" t ts)
  let ?k = "getElementOffset DL S i" and ?n = "getTypeAllocSize DL t"
  let ?lost = "lost + (?n - logSize DL sp t)"
  from 6(3) have wf: "from \<le> ?k" "wf_type DL sp t" "wf_fields DL sp S (i + 1) (?k + ?n) ts" by simp_all
  note le = logSize_le(1) [OF wf(2)] logSize_le(2) [OF wf(3)]
  have lost: "lost \<le> ?k" "?lost \<le> ?k + ?n" using 6(4) wf(1) by linarith+
  have split: "x < ?k \<and> logOffsetIn DL sp S i lost (t # ts) x = x - lost \<and> canonIn DL sp S i (t # ts) x = x \<and> x - lost < ?k - lost \<or>
      ?k \<le> x \<and> x < ?k + ?n \<and> logOffsetIn DL sp S i lost (t # ts) x = ?k - lost + logOffset DL sp t (x - ?k) \<and>
        canonIn DL sp S i (t # ts) x = ?k + canon DL sp t (x - ?k) \<and>
        logOffset DL sp t (x - ?k) < logSize DL sp t \<and> canon DL sp t (x - ?k) < ?n \<or>
      ?k + ?n \<le> x \<and> logOffsetIn DL sp S i lost (t # ts) x = logOffsetIn DL sp S (i + 1) ?lost ts x \<and>
        canonIn DL sp S i (t # ts) x = canonIn DL sp S (i + 1) ts x \<and>
        ?k - lost + logSize DL sp t \<le> logOffsetIn DL sp S (i + 1) ?lost ts x \<and> ?k + ?n \<le> canonIn DL sp S (i + 1) ts x"
    if "from \<le> x" "x < getTypeAllocSize DL S" for x
  proof -
    consider "x < ?k" | "?k \<le> x" "x < ?k + ?n" | "?k + ?n \<le> x" by linarith
    then show ?thesis
    proof cases
      case 1
      then show ?thesis using that 6(4) by (simp add: Let_def)
    next
      case 2
      then have "x - ?k < ?n" by linarith
      from logOffset_less(1) [OF wf(2) this] show ?thesis using 2 by (simp add: Let_def)
    next
      case 3
      from logOffset_less(2) [OF wf(3) 3 that(2) lost(2)]
      have "?k + ?n - ?lost \<le> logOffsetIn DL sp S (i + 1) ?lost ts x" "?k + ?n \<le> canonIn DL sp S (i + 1) ts x" by simp_all
      moreover have "?k + ?n - ?lost = ?k - lost + logSize DL sp t" using lost le(1) by linarith
      ultimately show ?thesis using 3 by (simp add: Let_def)
    qed
  qed
  have inner: "logOffset DL sp t (p - ?k) < logOffset DL sp t (q - ?k) \<longleftrightarrow> canon DL sp t (p - ?k) < canon DL sp t (q - ?k)"
    if "?k \<le> p" "p < ?k + ?n" "?k \<le> q" "q < ?k + ?n"
    using 6(1) [OF wf(2), of "p - ?k" "q - ?k"] that by linarith
  have rest: "logOffsetIn DL sp S (i + 1) ?lost ts p < logOffsetIn DL sp S (i + 1) ?lost ts q \<longleftrightarrow>
      canonIn DL sp S (i + 1) ts p < canonIn DL sp S (i + 1) ts q" if "?k + ?n \<le> p" "?k + ?n \<le> q"
    using 6(2) [OF wf(3) lost(2) that(1) 6(6) that(2) 6(8)] .
  note sp = split [OF 6(5,6)] and sq = split [OF 6(7,8)]
  from sp show ?case
  proof (elim disjE conjE)
    assume p: "p < ?k" "logOffsetIn DL sp S i lost (t # ts) p = p - lost" "canonIn DL sp S i (t # ts) p = p" "p - lost < ?k - lost"
    then show ?thesis using sq 6(4,5) by (elim disjE conjE) (simp only:, linarith)+
  next
    assume p: "?k \<le> p" "p < ?k + ?n" "logOffsetIn DL sp S i lost (t # ts) p = ?k - lost + logOffset DL sp t (p - ?k)"
      "canonIn DL sp S i (t # ts) p = ?k + canon DL sp t (p - ?k)" "logOffset DL sp t (p - ?k) < logSize DL sp t" "canon DL sp t (p - ?k) < ?n"
    then show ?thesis using sq inner by (elim disjE conjE) ((simp del: logOffsetIn.simps canonIn.simps; fail) | (simp only:, linarith))+
  next
    assume p: "?k + ?n \<le> p" "logOffsetIn DL sp S i lost (t # ts) p = logOffsetIn DL sp S (i + 1) ?lost ts p"
      "canonIn DL sp S i (t # ts) p = canonIn DL sp S (i + 1) ts p"
      "?k - lost + logSize DL sp t \<le> logOffsetIn DL sp S (i + 1) ?lost ts p" "?k + ?n \<le> canonIn DL sp S (i + 1) ts p"
    then show ?thesis using sq rest by (elim disjE conjE) ((simp del: logOffsetIn.simps canonIn.simps; fail) | (simp only:, linarith))+
  qed
qed auto

lemma logOffset_eq_iff:
  assumes "wf_type DL sp T" and "p < getTypeAllocSize DL T" and "q < getTypeAllocSize DL T"
  shows "logOffset DL sp T p = logOffset DL sp T q \<longleftrightarrow> canon DL sp T p = canon DL sp T q"
  using logOffset_mono(1) [OF assms] logOffset_mono(1) [OF assms(1,3,2)] by (metis nat_neq_iff)

end
