(* ===== verification/LayoutBuild.thy ===== *)
theory LayoutBuild
  imports LayoutOk
begin

text \<open>
  The manager builds the layout the type describes. \<open>layoutOf\<close> is that layout, by recursion on the
  type; every request gives it, no assertion fails on the way, and what the caches hold makes no
  difference (\<open>mgr_ok\<close> is their invariant). \<open>c\<close> says whether arrays collapse.
\<close>

section \<open>The layout of a type\<close>

definition partSize :: "data_layout \<Rightarrow> (ll_type \<Rightarrow> bool) \<Rightarrow> bool \<Rightarrow> ll_type \<Rightarrow> nat" where
  "partSize DL sp c T = (if c then logSize DL sp T else getTypeAllocSize DL T)"

definition partSubs :: "data_layout \<Rightarrow> (ll_type \<Rightarrow> bool) \<Rightarrow> bool \<Rightarrow> ll_type \<Rightarrow> (nat \<times> array_layout) list" where
  "partSubs DL sp c T = (if c then subs DL sp T else [])"

definition isEmpty :: "data_layout \<Rightarrow> ll_type \<Rightarrow> bool" where
  "isEmpty DL T \<longleftrightarrow> getTypeAllocSize DL T = 0"

fun elems :: "data_layout \<Rightarrow> (ll_type \<Rightarrow> bool) \<Rightarrow> bool \<Rightarrow> ll_type \<Rightarrow> nat set"
and elemsIn :: "data_layout \<Rightarrow> (ll_type \<Rightarrow> bool) \<Rightarrow> bool \<Rightarrow> ll_type \<Rightarrow> nat \<Rightarrow> nat \<Rightarrow> ll_type list \<Rightarrow> nat set" where
  "elems DL sp c (StructTy s ts) =
     (if sp (StructTy s ts) \<or> isEmpty DL (StructTy s ts) then {0} else elemsIn DL sp c (StructTy s ts) 0 0 ts)"
| "elems DL sp c (ArrayTy n E) =
     (if sp (ArrayTy n E) \<or> isEmpty DL (ArrayTy n E) then {0}
      else if c then elems DL sp c E
      else \<Union> ((\<lambda>i. (+) (i * getTypeAllocSize DL E) ` elems DL sp c E) ` {..<n}))"
| "elems DL sp c T = {0}"
| "elemsIn DL sp c S i lost [] = {}"
| "elemsIn DL sp c S i lost (t # ts) = (+) (getElementOffset DL S i - lost) ` elems DL sp c t \<union>
     elemsIn DL sp c S (i + 1) (lost + (getTypeAllocSize DL t - partSize DL sp c t)) ts"

fun ptrs :: "data_layout \<Rightarrow> (ll_type \<Rightarrow> bool) \<Rightarrow> bool \<Rightarrow> ll_type \<Rightarrow> nat set"
and ptrsIn :: "data_layout \<Rightarrow> (ll_type \<Rightarrow> bool) \<Rightarrow> bool \<Rightarrow> ll_type \<Rightarrow> nat \<Rightarrow> nat \<Rightarrow> ll_type list \<Rightarrow> nat set" where
  "ptrs DL sp c (StructTy s ts) =
     (if sp (StructTy s ts) \<or> isEmpty DL (StructTy s ts) then {} else ptrsIn DL sp c (StructTy s ts) 0 0 ts)"
| "ptrs DL sp c (ArrayTy n E) =
     (if sp (ArrayTy n E) \<or> isEmpty DL (ArrayTy n E) then {}
      else if c then ptrs DL sp c E
      else \<Union> ((\<lambda>i. (+) (i * getTypeAllocSize DL E) ` ptrs DL sp c E) ` {..<n}))"
| "ptrs DL sp c (PointerTy s) = (if sp (PointerTy s) then {} else {0})"
| "ptrs DL sp c T = {}"
| "ptrsIn DL sp c S i lost [] = {}"
| "ptrsIn DL sp c S i lost (t # ts) = (+) (getElementOffset DL S i - lost) ` ptrs DL sp c t \<union>
     ptrsIn DL sp c S (i + 1) (lost + (getTypeAllocSize DL t - partSize DL sp c t)) ts"

fun specials :: "data_layout \<Rightarrow> (ll_type \<Rightarrow> bool) \<Rightarrow> bool \<Rightarrow> ll_type \<Rightarrow> nat set"
and specialsIn :: "data_layout \<Rightarrow> (ll_type \<Rightarrow> bool) \<Rightarrow> bool \<Rightarrow> ll_type \<Rightarrow> nat \<Rightarrow> ll_type list \<Rightarrow> nat set" where
  "specials DL sp c (StructTy s ts) =
     (if sp (StructTy s ts) then {0} else if isEmpty DL (StructTy s ts) then {}
      else specialsIn DL sp c (StructTy s ts) 0 ts)"
| "specials DL sp c (ArrayTy n E) =
     (if sp (ArrayTy n E) then {0} else if isEmpty DL (ArrayTy n E) then {}
      else if c then specials DL sp c E
      else \<Union> ((\<lambda>i. (+) (i * getTypeAllocSize DL E) ` specials DL sp c E) ` {..<n}))"
| "specials DL sp c T = (if sp T then {0} else {})"
| "specialsIn DL sp c S i [] = {}"
| "specialsIn DL sp c S i (t # ts) = (+) (getElementOffset DL S i) ` specials DL sp c t \<union> specialsIn DL sp c S (i + 1) ts"

text \<open>A type the manager is asked for may also be an unbounded array, as root.\<close>

definition unbounded :: "data_layout \<Rightarrow> (ll_type \<Rightarrow> bool) \<Rightarrow> ll_type \<Rightarrow> bool" where
  "unbounded DL sp T \<longleftrightarrow> (case T of ArrayTy n E \<Rightarrow> n = SIZE_MAX \<and> wf_type DL sp E \<and> 0 < getTypeAllocSize DL E \<and>
     0 < getTypeAllocSize DL T | _ \<Rightarrow> False)"

definition rootSize :: "data_layout \<Rightarrow> ll_type \<Rightarrow> nat" where
  "rootSize DL T = (case T of ArrayTy n E \<Rightarrow> if n = SIZE_MAX \<and> \<not> isEmpty DL T then SIZE_MAX else getTypeAllocSize DL T
     | _ \<Rightarrow> getTypeAllocSize DL T)"

definition layoutOf :: "data_layout \<Rightarrow> (ll_type \<Rightarrow> bool) \<Rightarrow> bool \<Rightarrow> ll_type \<Rightarrow> mem_layout" where
  "layoutOf DL sp c T = \<lparr> pointerLayout = ptrs DL sp c T, elementLayout = elems DL sp c T,
     specialLayout = specials DL sp c T, subArrays = partSubs DL sp c T, memType = T,
     maxLOffset = partSize DL sp c T, maxPOffset = rootSize DL T,
     mIsArray = (isEmpty DL T \<or> (case T of ArrayTy n E \<Rightarrow> c | _ \<Rightarrow> False)) \<rparr>"

subsection \<open>Bounds\<close>

lemma rootSize_wf:
  assumes "wf_type DL sp T" and "\<not> sp T"
  shows "rootSize DL T = getTypeAllocSize DL T"
proof (cases T)
  case (ArrayTy n E)
  with assms have n: "n * getTypeAllocSize DL E < SIZE_MAX" "getTypeAllocSize DL T = n * getTypeAllocSize DL E" by auto
  then have "n \<noteq> SIZE_MAX \<or> isEmpty DL T" by (cases "getTypeAllocSize DL E") (auto simp: isEmpty_def)
  then show ?thesis by (auto simp: rootSize_def ArrayTy)
qed (simp_all add: rootSize_def)

lemma partSize_le: "wf_type DL sp T \<Longrightarrow> partSize DL sp c T \<le> getTypeAllocSize DL T"
  using logSize_le(1) by (simp add: partSize_def)

lemma partSize_leaf:
  "sp T \<or> isEmpty DL T \<or> \<not> isAggregateType T \<Longrightarrow> partSize DL sp c T = getTypeAllocSize DL T"
  by (cases T) (auto simp: partSize_def isEmpty_def)

definition lostParts :: "data_layout \<Rightarrow> (ll_type \<Rightarrow> bool) \<Rightarrow> bool \<Rightarrow> ll_type list \<Rightarrow> nat" where
  "lostParts DL sp c ts = (if c then lostIn DL sp ts else 0)"

lemma lostParts_simps [simp]:
  "lostParts DL sp c [] = 0"
  "lostParts DL sp c (t # ts) = (getTypeAllocSize DL t - partSize DL sp c t) + lostParts DL sp c ts"
  by (simp_all add: lostParts_def partSize_def)

lemma lostParts_le: "wf_fields DL sp S i from ts \<Longrightarrow> from + lostParts DL sp c ts \<le> getTypeAllocSize DL S"
  using logSize_le(2) wf_fields_from by (simp add: lostParts_def)

lemma ptrs_elems: "ptrs DL sp c T \<subseteq> elems DL sp c T" "ptrsIn DL sp c S i lost ts \<subseteq> elemsIn DL sp c S i lost ts"
  by (induction DL sp c T and DL sp c S i lost ts rule: ptrs_ptrsIn.induct) (simp_all, blast+)

lemma ptrs_bound:
  "wf_type DL sp T \<Longrightarrow> x \<in> ptrs DL sp c T \<Longrightarrow> x < partSize DL sp c T"
  "wf_fields DL sp S i from ts \<Longrightarrow> lost \<le> from \<Longrightarrow> x \<in> ptrsIn DL sp c S i lost ts \<Longrightarrow>
     x < getTypeAllocSize DL S - lost - lostParts DL sp c ts"
proof (induction DL sp c T and DL sp c S i lost ts arbitrary: x and "from" x rule: ptrs_ptrsIn.induct)
  case (1 DL sp c s ts)
  then have "\<not> sp (StructTy s ts)" "\<not> isEmpty DL (StructTy s ts)" by (auto split: if_splits)
  with 1(1) [of 0 x] 1(2,3) show ?case by (auto simp: partSize_def lostParts_def)
next
  case (2 DL sp c n E)
  then have sp: "\<not> sp (ArrayTy n E)" "\<not> isEmpty DL (ArrayTy n E)" by (auto split: if_splits)
  from 2(3) sp have wf: "wf_type DL sp E" "getTypeAllocSize DL (ArrayTy n E) = n * getTypeAllocSize DL E" by auto
  show ?case
  proof (cases c)
    case True
    with 2(1) [OF _ True wf(1), of x] 2(4) sp show ?thesis by (auto simp: partSize_def isEmpty_def)
  next
    case False
    with 2(4) sp obtain i y where y: "i < n" "y \<in> ptrs DL sp c E" "x = i * getTypeAllocSize DL E + y" by auto
    have "\<not> (sp (ArrayTy n E) \<or> isEmpty DL (ArrayTy n E))" and "i \<in> {..<n}" using sp y(1) by simp_all
    from 2(2) [OF this(1) False this(2) wf(1) y(2)] False have "y < getTypeAllocSize DL E" by (simp add: partSize_def)
    moreover have "(i + 1) * getTypeAllocSize DL E \<le> n * getTypeAllocSize DL E" using y(1) by (intro mult_right_mono) auto
    ultimately show ?thesis using False wf(2) y(3) by (simp add: partSize_def)
  qed
next
  case (6 DL sp c S i lost t ts)
  let ?k = "getElementOffset DL S i" and ?n = "getTypeAllocSize DL t"
  let ?lost = "lost + (?n - partSize DL sp c t)"
  from 6(3) have wf: "from \<le> ?k" "wf_type DL sp t" "wf_fields DL sp S (i + 1) (?k + ?n) ts" by simp_all
  note le = partSize_le [OF wf(2), of c] lostParts_le [OF wf(3), of c]
  have lost: "lost \<le> ?k" "?lost \<le> ?k + ?n" using 6(4) wf(1) by linarith+
  from 6(5) consider y where "y \<in> ptrs DL sp c t" "x = (?k - lost) + y" | "x \<in> ptrsIn DL sp c S (i + 1) ?lost ts" by auto
  then show ?case
  proof cases
    case 1
    then show ?thesis using 6(1) [OF wf(2) 1(1)] le lost by simp
  next
    case 2
    then show ?thesis using 6(2) [OF wf(3) lost(2) 2] le lost by simp
  qed
qed (auto simp: partSize_def split: if_splits)

lemma specials_bound:
  "wf_type DL sp T \<Longrightarrow> x \<in> specials DL sp c T \<Longrightarrow> x < getTypeAllocSize DL T"
  "wf_fields DL sp S i from ts \<Longrightarrow> x \<in> specialsIn DL sp c S i ts \<Longrightarrow> x < getTypeAllocSize DL S"
proof (induction DL sp c T and DL sp c S i ts arbitrary: x and "from" x rule: specials_specialsIn.induct)
  case (1 DL sp c s ts)
  then show ?case by (auto split: if_splits)
next
  case (2 DL sp c n E)
  show ?case
  proof (cases "sp (ArrayTy n E)")
    case False
    with 2 have sp: "\<not> isEmpty DL (ArrayTy n E)" by (auto split: if_splits)
    from 2(3) False have wf: "wf_type DL sp E" "getTypeAllocSize DL (ArrayTy n E) = n * getTypeAllocSize DL E" by auto
    from 2(4) sp False obtain i y where y: "i < n" "y \<in> specials DL sp c E" "x = i * getTypeAllocSize DL E + y"
      by (cases c) (auto simp: isEmpty_def wf(2) intro: that [of 0])
    then have "y < getTypeAllocSize DL E"
      using 2(1) [OF False sp _ wf(1)] 2(2) [OF False sp _ _ wf(1)] by (cases c) auto
    moreover have "(i + 1) * getTypeAllocSize DL E \<le> n * getTypeAllocSize DL E" using y(1) by (intro mult_right_mono) auto
    ultimately show ?thesis using wf(2) y(3) by simp
  qed (use 2 in auto)
next
  case (5 DL sp c S i t ts)
  let ?k = "getElementOffset DL S i" and ?n = "getTypeAllocSize DL t"
  from 5(3) have wf: "from \<le> ?k" "wf_type DL sp t" "wf_fields DL sp S (i + 1) (?k + ?n) ts" by simp_all
  from 5(4) consider y where "y \<in> specials DL sp c t" "x = ?k + y" | "x \<in> specialsIn DL sp c S (i + 1) ts" by auto
  then show ?case
    using 5(1) [OF wf(2)] 5(2) [OF wf(3)] wf_fields_from [OF wf(3)] by cases fastforce+
qed (auto split: if_splits)

lemma subs_sorted:
  "wf_type DL sp T \<Longrightarrow> om_sorted (subs DL sp T)"
  "wf_fields DL sp S i from ts \<Longrightarrow> om_sorted (subsIn DL sp S i ts)"
proof (induction DL sp T and DL sp S i ts arbitrary: and "from" rule: subs_subsIn.induct)
  case (5 DL sp S i t ts)
  let ?k = "getElementOffset DL S i" and ?n = "getTypeAllocSize DL t"
  from 5(3) have wf: "from \<le> ?k" "wf_type DL sp t" "wf_fields DL sp S (i + 1) (?k + ?n) ts" by simp_all
  have "sorted_wrt (<) (map fst (shiftKeys ?k (subs DL sp t)))"
    using 5(1) [OF wf(2)] by (auto simp: om_sorted_def shiftKeys_def sorted_wrt_map case_prod_unfold)
  moreover have "x < y" if "x \<in> fst ` set (shiftKeys ?k (subs DL sp t))" "y \<in> fst ` set (subsIn DL sp S (i + 1) ts)" for x y
  proof -
    from that(1) obtain z where "z \<in> fst ` set (subs DL sp t)" "x = ?k + z" unfolding shiftKeys_simps(7) by blast
    then have "x < ?k + ?n" using subs_keys(1) [OF wf(2)] by simp
    moreover have "?k + ?n \<le> y" using subs_keys(2) [OF wf(3) that(2)] by simp
    ultimately show ?thesis by simp
  qed
  moreover have "sorted_wrt (<) (map fst (subsIn DL sp S (i + 1) ts))"
    using 5(2) [OF wf(3)] by (simp add: om_sorted_def)
  ultimately show ?case unfolding om_sorted_def subsIn.simps map_append sorted_wrt_append set_map by blast
qed (auto simp: om_sorted_def)

section \<open>Adding a part to a layout under construction\<close>

lemma partSubs_keys:
  "wf_type DL sp T \<Longrightarrow> k \<in> fst ` set (partSubs DL sp c T) \<Longrightarrow> k < getTypeAllocSize DL T"
  by (cases c) (simp_all add: partSubs_def subs_keys(1))

lemma partSubs_sorted: "wf_type DL sp T \<Longrightarrow> om_sorted (partSubs DL sp c T)"
  using subs_sorted(1) by (auto simp: partSubs_def)

lemma om_insert_append:
  assumes "\<forall>k' \<in> fst ` set m. k' < k"
  shows "om_insert k v m = m @ [(k, v)]"
proof -
  have "map_of m k = None" using assms by (auto simp: map_of_eq_None_iff)
  moreover have "om_put k v m = m @ [(k, v)]" using assms by (induction m) auto
  ultimately show ?thesis by (simp add: om_insert_def)
qed

lemma fold_insert_append:
  assumes "om_sorted xs" and "\<forall>x \<in> fst ` set m. \<forall>k \<in> fst ` set xs. x < k + d"
  shows "fold (\<lambda>(k, a). om_insert (k + d) a) xs m = m @ shiftKeys d xs"
  using assms
proof (induction xs arbitrary: m)
  case (Cons x xs)
  obtain k a where x: "x = (k, a)" by (cases x)
  have "om_insert (k + d) a m = m @ [(k + d, a)]" using Cons.prems(2) x by (intro om_insert_append) auto
  moreover have "om_sorted xs" "\<forall>y \<in> fst ` set xs. k < y" using Cons.prems(1) x by (auto simp: om_sorted_def)
  moreover from this(2) have "\<forall>y \<in> fst ` set (m @ [(k + d, a)]). \<forall>k \<in> fst ` set xs. y < k + d"
    using Cons.prems(2) x by auto
  ultimately show ?case using Cons.IH [of "m @ [(k + d, a)]"] x by (simp add: add.commute)
qed simp

lemma mergeSubArrays_new:
  assumes "om_sorted xs"
  shows "mergeSubArrays xs 0 (ArrayLayout n es ls []) = ArrayLayout n es ls xs"
  using fold_insert_append [OF assms, of "[]" 0] by (simp add: mergeSubArrays_def case_prod_unfold)

text \<open>What a layout under construction satisfies when its next part starts at \<open>l\<close> and \<open>p\<close>.\<close>

definition ready :: "bool \<Rightarrow> mem_layout \<Rightarrow> nat \<Rightarrow> nat \<Rightarrow> bool" where
  "ready c L l p \<longleftrightarrow> (if c then l \<le> p else p = l) \<and> (\<forall>x \<in> pointerLayout L. x < l) \<and> (\<forall>x \<in> specialLayout L. x < p) \<and>
     pointerLayout L \<subseteq> elementLayout L \<and> maxLOffset L = 0 \<and> maxPOffset L = 0 \<and>
     (if mIsArray L then p = 0 \<and> (\<exists>n es ls. subArrays L = [(0, ArrayLayout n es ls [])])
      else \<forall>k \<in> fst ` set (subArrays L). k < p)"

definition addPart :: "data_layout \<Rightarrow> (ll_type \<Rightarrow> bool) \<Rightarrow> bool \<Rightarrow> ll_type \<Rightarrow> nat \<Rightarrow> nat \<Rightarrow> mem_layout \<Rightarrow> mem_layout" where
  "addPart DL sp c T l p L = L\<lparr> elementLayout := elementLayout L \<union> (+) l ` elems DL sp c T,
     pointerLayout := pointerLayout L \<union> (+) l ` ptrs DL sp c T,
     specialLayout := specialLayout L \<union> (+) p ` specials DL sp c T,
     subArrays := (if mIsArray L then [(0, mergeSubArrays (partSubs DL sp c T) 0 (snd (hd (subArrays L))))]
       else subArrays L @ shiftKeys p (partSubs DL sp c T)) \<rparr>"

lemma ready_addPart:
  assumes "ready c L l p" and "wf_type DL sp T" and "\<not> mIsArray L"
  shows "ready c (addPart DL sp c T l p L) (l + partSize DL sp c T) (p + getTypeAllocSize DL T)"
proof -
  have "\<forall>x \<in> pointerLayout L \<union> (+) l ` ptrs DL sp c T. x < l + partSize DL sp c T"
    using assms(1) ptrs_bound(1) [OF assms(2)] by (fastforce simp: ready_def)
  moreover have "\<forall>x \<in> specialLayout L \<union> (+) p ` specials DL sp c T. x < p + getTypeAllocSize DL T"
    using assms(1) specials_bound(1) [OF assms(2)] by (fastforce simp: ready_def)
  moreover have "\<forall>k \<in> fst ` set (subArrays L @ shiftKeys p (partSubs DL sp c T)). k < p + getTypeAllocSize DL T"
    unfolding set_append image_Un shiftKeys_simps(7) using assms(1,3) partSubs_keys [OF assms(2), of _ c] by (fastforce simp: ready_def)
  moreover have "if c then l + partSize DL sp c T \<le> p + getTypeAllocSize DL T else p + getTypeAllocSize DL T = l + partSize DL sp c T"
    using assms(1) partSize_le [OF assms(2), of c] by (auto simp: ready_def partSize_def)
  moreover have "pointerLayout L \<union> (+) l ` ptrs DL sp c T \<subseteq> elementLayout L \<union> (+) l ` elems DL sp c T"
    using assms(1) ptrs_elems(1) [of DL sp c T] by (auto simp: ready_def)
  ultimately show ?thesis using assms(1,3) by (simp add: ready_def addPart_def)
qed

lemma ready_pad: "ready c L l p \<Longrightarrow> \<not> mIsArray L \<Longrightarrow> ready c L (l + d) (p + d)"
  by (fastforce simp: ready_def)

lemma merge_ok:
  assumes "ready c L l p" and "wf_type DL sp T"
  shows "mergeMemoryLayout (layoutOf DL sp c T) p l L = Inr (addPart DL sp c T l p L)"
proof -
  have sub: "pointerLayout L \<union> (+) l ` ptrs DL sp c T \<subseteq> elementLayout L \<union> (+) l ` elems DL sp c T"
    using assms(1) ptrs_elems(1) [of DL sp c T] by (auto simp: ready_def)
  show ?thesis
  proof (cases "mIsArray L")
    case True
    then obtain n es ls where "subArrays L = [(0, ArrayLayout n es ls [])]" using assms(1) by (auto simp: ready_def)
    then show ?thesis using True sub by (simp add: mergeMemoryLayout_def addPart_def layoutOf_def Let_def)
  next
    case False
    then have "fold (\<lambda>(k, a). om_insert (k + p) a) (partSubs DL sp c T) (subArrays L) =
        subArrays L @ shiftKeys p (partSubs DL sp c T)"
      using assms(1) by (intro fold_insert_append partSubs_sorted [OF assms(2)]) (auto simp: ready_def)
    then show ?thesis using False sub by (simp add: mergeMemoryLayout_def addPart_def layoutOf_def Let_def)
  qed
qed

section \<open>The manager\<close>

definition cb_ok :: "data_layout \<Rightarrow> (ll_type \<Rightarrow> bool) \<Rightarrow> layout_callback \<Rightarrow> bool" where
  "cb_ok DL sp cb \<longleftrightarrow> cb = None \<and> sp = (\<lambda>_. False) \<or> cb = Some (collectSpecialObj DL sp)"

text \<open>Collapsed and uncollapsed layouts may treat different types as special.\<close>

definition mgr_ok :: "data_layout \<Rightarrow> (bool \<Rightarrow> ll_type \<Rightarrow> bool) \<Rightarrow> layout_manager \<Rightarrow> bool" where
  "mgr_ok DL sp m \<longleftrightarrow> (\<forall>c T L. findLayout c T m = Some L \<longrightarrow> L = layoutOf DL (sp c) c T)"

definition grows :: "bool \<Rightarrow> nat \<Rightarrow> layout_manager \<Rightarrow> layout_manager \<Rightarrow> bool" where
  "grows c n m m' \<longleftrightarrow> (\<forall>c' T. findLayout c' T m' \<noteq> None \<longrightarrow> findLayout c' T m \<noteq> None \<or> c' = c \<and> size T \<le> n)"

lemma mgr_grows_refl: "grows c n m m"
  by (simp add: grows_def)

lemma mgr_grows_trans: "grows c n m m1 \<Longrightarrow> grows c k m1 m2 \<Longrightarrow> n \<le> i \<Longrightarrow> k \<le> i \<Longrightarrow> grows c i m m2"
proof (unfold grows_def, intro allI impI)
  fix c' T
  assume a: "\<forall>c' T. findLayout c' T m1 \<noteq> None \<longrightarrow> findLayout c' T m \<noteq> None \<or> c' = c \<and> size T \<le> n"
    "\<forall>c' T. findLayout c' T m2 \<noteq> None \<longrightarrow> findLayout c' T m1 \<noteq> None \<or> c' = c \<and> size T \<le> k"
    "n \<le> i" "k \<le> i" "findLayout c' T m2 \<noteq> None"
  from a(2,5) have "findLayout c' T m1 \<noteq> None \<or> c' = c \<and> size T \<le> k" by blast
  with a(1) have "findLayout c' T m \<noteq> None \<or> c' = c \<and> (size T \<le> n \<or> size T \<le> k)" by blast
  with a(3,4) show "findLayout c' T m \<noteq> None \<or> c' = c \<and> size T \<le> i" by auto
qed

lemma grows_None: "grows c n m m' \<Longrightarrow> findLayout c T m = None \<Longrightarrow> n < size T \<Longrightarrow> findLayout c T m' = None"
  unfolding grows_def by (metis not_le)

lemma insertLayout_ok:
  assumes "findLayout c T m = None" and "mgr_ok DL sp m" and "L = layoutOf DL (sp c) c T"
  shows "\<exists>m'. insertLayout c T L m = Inr m' \<and> mgr_ok DL sp m' \<and> grows c (size T) m m'"
  using assms by (cases c) (auto simp: insertLayout_def mgr_ok_def grows_def findLayout_def split: if_splits)

definition dfs_ok :: "data_layout \<Rightarrow> (bool \<Rightarrow> ll_type \<Rightarrow> bool) \<Rightarrow> bool \<Rightarrow> ll_type \<Rightarrow> bool" where
  "dfs_ok DL sp c T \<longleftrightarrow> (\<forall>cb m. cb_ok DL (sp c) cb \<longrightarrow> mgr_ok DL sp m \<longrightarrow>
     (\<exists>m'. DFSTypeTree DL c cb T 0 0 m = Inr (layoutOf DL (sp c) c T, partSize DL (sp c) c T, rootSize DL T, m') \<and>
       mgr_ok DL sp m' \<and> grows c (size T) m m'))"

definition part_ok :: "data_layout \<Rightarrow> (bool \<Rightarrow> ll_type \<Rightarrow> bool) \<Rightarrow> bool \<Rightarrow> ll_type \<Rightarrow> bool" where
  "part_ok DL sp c T \<longleftrightarrow> (\<forall>cb m L l p. cb_ok DL (sp c) cb \<longrightarrow> mgr_ok DL sp m \<longrightarrow> ready c L l p \<longrightarrow>
     (\<exists>m'. setElementLayout DL c cb T L l p m =
         Inr (addPart DL (sp c) c T l p L, l + partSize DL (sp c) c T, p + getTypeAllocSize DL T, m') \<and>
       mgr_ok DL sp m' \<and> grows c (size T) m m'))"

lemma callback_other:
  assumes "cb_ok DL sp cb" and "\<not> sp T"
  shows "(case cb of None \<Rightarrow> Inr None | Some f \<Rightarrow> f T L l p) = Inr None"
  using assms by (auto simp: cb_ok_def collectSpecialObj_def split: option.splits)

lemma addPart_leaf:
  assumes "sp T \<or> \<not> isAggregateType T" and "ready c L l p"
  shows "addPart DL sp c T l p L = L\<lparr> elementLayout := insert l (elementLayout L),
     pointerLayout := (case T of PointerTy s \<Rightarrow> if sp T then pointerLayout L else insert l (pointerLayout L) | _ \<Rightarrow> pointerLayout L),
     specialLayout := (if sp T then insert p (specialLayout L) else specialLayout L) \<rparr>"
proof -
  have sets: "elems DL sp c T = {0}" "partSubs DL sp c T = []" "specials DL sp c T = (if sp T then {0} else {})"
    "ptrs DL sp c T = (case T of PointerTy s \<Rightarrow> if sp T then {} else {0} | _ \<Rightarrow> {})"
    using assms(1) by (cases T; auto simp: partSubs_def)+
  have "(if mIsArray L then [(0, mergeSubArrays [] 0 (snd (hd (subArrays L))))] else subArrays L @ shiftKeys p []) = subArrays L"
    using assms(2) by (auto simp: ready_def mergeSubArrays_def)
  then show ?thesis unfolding addPart_def sets by (cases T) auto
qed

lemma part_ok_leaf:
  assumes "wf_type DL (sp c) T" and "sp c T \<or> \<not> isAggregateType T"
  shows "part_ok DL sp c T"
  unfolding part_ok_def
proof (intro allI impI)
  fix cb m L l p
  assume cb: "cb_ok DL (sp c) cb" and m: "mgr_ok DL sp m" and L: "ready c L l p"
  have size: "partSize DL (sp c) c T = getTypeAllocSize DL T" using assms(2) by (intro partSize_leaf) auto
  have pos: "if c then l \<le> p else p = l" using L by (simp add: ready_def)
  have new: "p \<notin> specialLayout L" "l \<notin> pointerLayout L" "pointerLayout L \<subseteq> elementLayout L" using L by (auto simp: ready_def)
  have "setElementLayout DL c cb T L l p m =
      Inr (addPart DL (sp c) c T l p L, l + getTypeAllocSize DL T, p + getTypeAllocSize DL T, m)"
  proof (cases "sp c T")
    case True
    with cb have "cb = Some (collectSpecialObj DL (sp c))" by (auto simp: cb_ok_def fun_eq_iff)
    then show ?thesis using True pos new unfolding addPart_leaf [where sp = "sp c", OF assms(2) L]
      by (cases T) (simp_all add: collectSpecialObj_def setSpecialOffset_def setElementOffset_def)
  next
    case False
    then show ?thesis using assms pos new
      unfolding addPart_leaf [where sp = "sp c", OF assms(2) L] setElementLayout.simps [of DL c cb T] callback_other [OF cb False]
      by (cases T) (auto simp: setPointerOffset_def setElementOffset_def Let_def)
  qed
  then show "\<exists>m'. setElementLayout DL c cb T L l p m =
         Inr (addPart DL (sp c) c T l p L, l + partSize DL (sp c) c T, p + getTypeAllocSize DL T, m') \<and>
       mgr_ok DL sp m' \<and> grows c (size T) m m'"
    using m mgr_grows_refl size by auto
qed

lemma part_ok_aggregate:
  assumes "wf_type DL (sp c) T" and "\<not> sp c T" and "isAggregateType T" and "dfs_ok DL sp c T"
  shows "part_ok DL sp c T"
  unfolding part_ok_def
proof (intro allI impI)
  fix cb m L l p
  assume cb: "cb_ok DL (sp c) cb" and m: "mgr_ok DL sp m" and L: "ready c L l p"
  have pos: "if c then l \<le> p else p = l" using L by (simp add: ready_def)
  from assms(4) cb m obtain m' where m': "mgr_ok DL sp m'" "grows c (size T) m m'"
    "DFSTypeTree DL c cb T 0 0 m = Inr (layoutOf DL (sp c) c T, partSize DL (sp c) c T, rootSize DL T, m')"
    unfolding dfs_ok_def by blast
  have "setElementLayout DL c cb T L l p m =
      Inr (addPart DL (sp c) c T l p L, l + partSize DL (sp c) c T, p + getTypeAllocSize DL T, m')"
    using assms(1,3) pos m'(3) merge_ok [OF L assms(1)]
    unfolding setElementLayout.simps [of DL c cb T] callback_other [OF cb assms(2)]
    by (cases T) (simp_all add: Let_def del: DFSTypeTree.simps)
  with m' show "\<exists>m'. setElementLayout DL c cb T L l p m =
         Inr (addPart DL (sp c) c T l p L, l + partSize DL (sp c) c T, p + getTypeAllocSize DL T, m') \<and>
       mgr_ok DL sp m' \<and> grows c (size T) m m'" by blast
qed

subsection \<open>Structures\<close>

definition partSubsIn :: "data_layout \<Rightarrow> (ll_type \<Rightarrow> bool) \<Rightarrow> bool \<Rightarrow> ll_type \<Rightarrow> nat \<Rightarrow> ll_type list \<Rightarrow> (nat \<times> array_layout) list" where
  "partSubsIn DL sp c S i ts = (if c then subsIn DL sp S i ts else [])"

definition addFields ::
  "data_layout \<Rightarrow> (ll_type \<Rightarrow> bool) \<Rightarrow> bool \<Rightarrow> ll_type \<Rightarrow> nat \<Rightarrow> nat \<Rightarrow> ll_type list \<Rightarrow> mem_layout \<Rightarrow> mem_layout" where
  "addFields DL sp c S i lost ts L = L\<lparr> elementLayout := elementLayout L \<union> elemsIn DL sp c S i lost ts,
     pointerLayout := pointerLayout L \<union> ptrsIn DL sp c S i lost ts,
     specialLayout := specialLayout L \<union> specialsIn DL sp c S i ts,
     subArrays := subArrays L @ partSubsIn DL sp c S i ts \<rparr>"

lemma addFields_Nil: "addFields DL sp c S i lost [] L = L"
  by (simp add: addFields_def partSubsIn_def)

lemma addFields_Cons:
  assumes "\<not> mIsArray L"
  shows "addFields DL sp c S (i + 1) (lost + (getTypeAllocSize DL t - partSize DL sp c t)) ts
      (addPart DL sp c t (getElementOffset DL S i - lost) (getElementOffset DL S i) L) =
    addFields DL sp c S i lost (t # ts) L"
  using assms by (simp add: addFields_def addPart_def partSubsIn_def partSubs_def Un_assoc)

lemma fields_ok:
  assumes "wf_fields DL (sp c) S i from ts" and "\<forall>t \<in> set ts. part_ok DL sp c t" and "cb_ok DL (sp c) cb" and "mgr_ok DL sp m"
    and "ready c L (from - lost) from" and "lost \<le> from" and "\<not> mIsArray L"
  shows "\<exists>m' e. layoutFields DL c cb S i ts L (from - lost) from m =
      Inr (addFields DL (sp c) c S i lost ts L, e - (lost + lostParts DL (sp c) c ts), e, m') \<and>
    lost + lostParts DL (sp c) c ts \<le> e \<and> e \<le> getTypeAllocSize DL S \<and> mgr_ok DL sp m' \<and> grows c (size_list size ts) m m'"
  using assms
proof (induction ts arbitrary: i "from" lost L m)
  case Nil
  then show ?case using mgr_grows_refl by (auto simp: addFields_Nil)
next
  case (Cons t ts)
  let ?k = "getElementOffset DL S i" and ?n = "getTypeAllocSize DL t"
  let ?lost = "lost + (?n - partSize DL (sp c) c t)" and ?L = "addPart DL (sp c) c t (?k - lost) ?k L"
  from Cons.prems(1) have wf: "from \<le> ?k" "wf_type DL (sp c) t" "wf_fields DL (sp c) S (i + 1) (?k + ?n) ts" by simp_all
  have le: "partSize DL (sp c) c t \<le> ?n" by (rule partSize_le [OF wf(2)])
  have pad: "from - lost + (?k - from) = ?k - lost" "from + (?k - from) = ?k" using wf(1) Cons.prems(6) by linarith+
  have ready: "ready c L (?k - lost) ?k" using ready_pad [OF Cons.prems(5,7), of "?k - from"] unfolding pad .
  from Cons.prems(2) have "part_ok DL sp c t" by simp
  with Cons.prems(3,4) ready obtain m1 where m1: "mgr_ok DL sp m1" "grows c (size t) m m1"
    "setElementLayout DL c cb t L (?k - lost) ?k m = Inr (?L, ?k - lost + partSize DL (sp c) c t, ?k + ?n, m1)"
    unfolding part_ok_def by blast
  have pos: "?k - lost + partSize DL (sp c) c t = ?k + ?n - ?lost" "?lost \<le> ?k + ?n" using le wf(1) Cons.prems(6) by linarith+
  have ready1: "ready c ?L (?k + ?n - ?lost) (?k + ?n)"
    using ready_addPart [OF ready wf(2) Cons.prems(7)] unfolding pos(1) .
  have nar: "\<not> mIsArray ?L" using Cons.prems(7) by (simp add: addPart_def)
  from Cons.prems(2) have "\<forall>t \<in> set ts. part_ok DL sp c t" by simp
  from Cons.IH [OF wf(3) this Cons.prems(3) m1(1) ready1 pos(2) nar] obtain m' e where e:
    "layoutFields DL c cb S (i + 1) ts ?L (?k + ?n - ?lost) (?k + ?n) m1 =
       Inr (addFields DL (sp c) c S (i + 1) ?lost ts ?L, e - (?lost + lostParts DL (sp c) c ts), e, m')"
    "?lost + lostParts DL (sp c) c ts \<le> e" "e \<le> getTypeAllocSize DL S" "mgr_ok DL sp m'" "grows c (size_list size ts) m1 m'" by blast
  have sum: "lost + lostParts DL (sp c) c (t # ts) = ?lost + lostParts DL (sp c) c ts" by simp
  have "layoutFields DL c cb S i (t # ts) L (from - lost) from m =
      Inr (addFields DL (sp c) c S i lost (t # ts) L, e - (lost + lostParts DL (sp c) c (t # ts)), e, m')"
    using wf(1) m1(3) e(1) addFields_Cons [OF Cons.prems(7), of DL "sp c" c S i lost t ts] sum pos(1)
    by (simp add: Let_def pad del: setElementLayout.simps lostParts_simps)
  moreover have "grows c (size_list size (t # ts)) m m'" by (rule mgr_grows_trans [OF m1(2) e(5)]) simp_all
  ultimately show ?case using e(2-4) sum by metis
qed

lemma new_ready: "ready c (newMemLayout T False) 0 0"
  by (simp add: ready_def newMemLayout_def)

lemma empty_ok:
  assumes "mgr_ok DL sp m" and "findLayout c T m = None" and "isEmpty DL T" and "wf_type DL (sp c) T" and "\<not> sp c T" and "isAggregateType T"
  shows "\<exists>m'. DFSTypeTree DL c cb T 0 0 m = Inr (layoutOf DL (sp c) c T, partSize DL (sp c) c T, rootSize DL T, m') \<and>
    mgr_ok DL sp m' \<and> grows c (size T) m m'"
proof -
  have size: "partSize DL (sp c) c T = 0" "rootSize DL T = 0"
    using assms(3) partSize_leaf [where sp = "sp c" and DL = DL and T = T] rootSize_wf [OF assms(4,5)] by (auto simp: isEmpty_def)
  have parts: "elems DL (sp c) c T = {0}" "ptrs DL (sp c) c T = {}" "specials DL (sp c) c T = {}" "partSubs DL (sp c) c T = []"
    using assms(3,5,6) by (cases T; auto simp: partSubs_def isEmpty_def)+
  have L: "setElementOffset 0 (newMemLayout T True) = layoutOf DL (sp c) c T"
    using assms(3) by (simp add: setElementOffset_def newMemLayout_def layoutOf_def size parts)
  from insertLayout_ok [OF assms(2,1) L] obtain m' where
    "insertLayout c T (setElementOffset 0 (newMemLayout T True)) m = Inr m'" "mgr_ok DL sp m'" "grows c (size T) m m'" by blast
  then show ?thesis using assms(2,3,6) L
    by (auto simp: size setMaxOffsets_def newMemLayout_def isEmpty_def)
qed

lemma cached_ok:
  assumes "mgr_ok DL sp m" and "findLayout c T m = Some L" and "isAggregateType T"
  shows "\<exists>m'. DFSTypeTree DL c cb T 0 0 m = Inr (layoutOf DL (sp c) c T, partSize DL (sp c) c T, rootSize DL T, m') \<and>
    mgr_ok DL sp m' \<and> grows c (size T) m m'"
proof -
  have "L = layoutOf DL (sp c) c T" using assms(1,2) by (simp add: mgr_ok_def)
  then show ?thesis using assms mgr_grows_refl by (auto simp: layoutOf_def)
qed

lemma struct_ok:
  assumes wf: "wf_type DL (sp c) (StructTy s ts)" and sp: "\<not> sp c (StructTy s ts)" and parts: "\<forall>t \<in> set ts. part_ok DL sp c t"
  shows "dfs_ok DL sp c (StructTy s ts)"
  unfolding dfs_ok_def
proof (intro allI impI)
  fix cb m
  assume cb: "cb_ok DL (sp c) cb" and m: "mgr_ok DL sp m"
  let ?T = "StructTy s ts"
  show "\<exists>m'. DFSTypeTree DL c cb ?T 0 0 m = Inr (layoutOf DL (sp c) c ?T, partSize DL (sp c) c ?T, rootSize DL ?T, m') \<and>
    mgr_ok DL sp m' \<and> grows c (size ?T) m m'"
  proof (cases "findLayout c ?T m")
    case (Some L)
    then show ?thesis by (intro cached_ok [OF m Some]) simp
  next
    case None
    show ?thesis
    proof (cases "isEmpty DL ?T")
      case True
      then show ?thesis by (intro empty_ok [OF m None True wf sp]) simp
    next
      case False
      let ?L = "addFields DL (sp c) c ?T 0 0 ts (newMemLayout ?T False)" and ?n = "getTypeAllocSize DL ?T"
      from wf sp have wfs: "wf_fields DL (sp c) ?T 0 0 ts" by simp
      have "ready c (newMemLayout ?T False) (0 - 0) 0" using new_ready by simp
      from fields_ok [OF wfs parts cb m this] obtain m1 e where e:
        "layoutFields DL c cb ?T 0 ts (newMemLayout ?T False) 0 0 m = Inr (?L, e - lostParts DL (sp c) c ts, e, m1)"
        "lostParts DL (sp c) c ts \<le> e" "e \<le> ?n" "mgr_ok DL sp m1" "grows c (size_list size ts) m m1"
        by (auto simp: newMemLayout_def)
      have size: "e - lostParts DL (sp c) c ts + (?n - e) = partSize DL (sp c) c ?T" "rootSize DL ?T = ?n" "e + (?n - e) = ?n"
        using e(2,3) sp by (auto simp: partSize_def lostParts_def rootSize_def)
      have L: "?L\<lparr> maxLOffset := partSize DL (sp c) c ?T, maxPOffset := ?n \<rparr> = layoutOf DL (sp c) c ?T"
        using sp False by (cases c) (simp_all add: addFields_def newMemLayout_def layoutOf_def size(2) partSubsIn_def partSubs_def isEmpty_def)
      have "findLayout c ?T m1 = None" using grows_None [OF e(5) None] by simp
      from insertLayout_ok [OF this e(4) L] obtain m' where m': "mgr_ok DL sp m'" "grows c (size ?T) m1 m'"
        "insertLayout c ?T (?L\<lparr> maxLOffset := partSize DL (sp c) c ?T, maxPOffset := ?n \<rparr>) m1 = Inr m'" by blast
      have zero: "maxLOffset ?L = 0" "maxPOffset ?L = 0" by (simp_all add: addFields_def newMemLayout_def)
      have "DFSTypeTree DL c cb ?T 0 0 m = getStructLayout DL c cb s ts 0 0 m"
        using None False by (simp add: isEmpty_def del: getStructLayout.simps)
      also have "\<dots> = Inr (layoutOf DL (sp c) c ?T, partSize DL (sp c) c ?T, rootSize DL ?T, m')"
        using e(1,3) m'(3) zero L by (simp add: Let_def setMaxOffsets_def size del: layoutFields.simps)
      finally show ?thesis using m'(1) mgr_grows_trans [OF e(5) m'(2), of "size ?T"] by auto
    qed
  qed
qed

subsection \<open>Arrays\<close>

lemma array_sizes:
  assumes "wf_type DL sp (ArrayTy n E) \<and> \<not> sp (ArrayTy n E) \<or> unbounded DL sp (ArrayTy n E)" and "\<not> isEmpty DL (ArrayTy n E)"
  shows "wf_type DL sp E" and "0 < getTypeAllocSize DL E"
    and "rootSize DL (ArrayTy n E) = (if n \<noteq> SIZE_MAX then getTypeAllocSize DL E + size_t (getTypeAllocSize DL E * (n - 1)) else SIZE_MAX)"
proof -
  show E: "wf_type DL sp E" "0 < getTypeAllocSize DL E" using assms by (auto simp: unbounded_def isEmpty_def)
  show "rootSize DL (ArrayTy n E) = (if n \<noteq> SIZE_MAX then getTypeAllocSize DL E + size_t (getTypeAllocSize DL E * (n - 1)) else SIZE_MAX)"
  proof (cases "n = SIZE_MAX")
    case False
    with assms(1) have n: "n * getTypeAllocSize DL E < SIZE_MAX" "getTypeAllocSize DL (ArrayTy n E) = n * getTypeAllocSize DL E"
      by (auto simp: unbounded_def)
    then have "0 < n" using assms(2) by (cases n) (auto simp: isEmpty_def)
    then have "getTypeAllocSize DL E + getTypeAllocSize DL E * (n - 1) = n * getTypeAllocSize DL E" by (cases n) auto
    moreover from this have "getTypeAllocSize DL E * (n - 1) < SIZE_MAX" using n(1) by linarith
    ultimately show ?thesis using False n(2) by (simp add: rootSize_def)
  qed (use assms(2) in \<open>simp add: rootSize_def\<close>)
qed

lemma collapsed_ok:
  assumes wf: "wf_type DL (sp True) (ArrayTy n E) \<and> \<not> sp True (ArrayTy n E) \<or> unbounded DL (sp True) (ArrayTy n E)"
    and sp: "\<not> sp True (ArrayTy n E)" and part: "part_ok DL sp True E"
  shows "dfs_ok DL sp True (ArrayTy n E)"
  unfolding dfs_ok_def
proof (intro allI impI)
  fix cb m
  assume cb: "cb_ok DL (sp True) cb" and m: "mgr_ok DL sp m"
  let ?T = "ArrayTy n E"
  show "\<exists>m'. DFSTypeTree DL True cb ?T 0 0 m = Inr (layoutOf DL (sp True) True ?T, partSize DL (sp True) True ?T, rootSize DL ?T, m') \<and>
    mgr_ok DL sp m' \<and> grows True (size ?T) m m'"
  proof (cases "findLayout True ?T m")
    case (Some L)
    then show ?thesis by (intro cached_ok [OF m Some]) simp
  next
    case None
    show ?thesis
    proof (cases "isEmpty DL ?T")
      case True
      then have "wf_type DL (sp True) ?T" using wf by (auto simp: unbounded_def isEmpty_def)
      then show ?thesis by (intro empty_ok [OF m None True _ sp]) simp_all
    next
      case False
      let ?es = "getTypeAllocSize DL E" and ?ls = "partSize DL (sp True) True E" and ?n = "rootSize DL ?T"
      let ?new = "(newMemLayout ?T True)\<lparr> subArrays := [(0, ArrayLayout n (getTypeAllocSize DL E) 0 [])] \<rparr>"
      let ?L = "addPart DL (sp True) True E 0 0 ?new"
      note sizes = array_sizes [OF wf False]
      have "ready True ?new 0 0" by (simp add: ready_def newMemLayout_def)
      with part cb m obtain m1 where m1: "mgr_ok DL sp m1" "grows True (size E) m m1"
        "setElementLayout DL True cb E ?new 0 0 m = Inr (?L, ?ls, ?es, m1)"
        unfolding part_ok_def by fastforce
      have arr: "subArrays ?L = [(0, ArrayLayout n ?es 0 (partSubs DL (sp True) True E))]" "maxLOffset ?L = 0" "maxPOffset ?L = 0"
        using mergeSubArrays_new [OF partSubs_sorted [OF sizes(1)]] by (simp_all add: addPart_def newMemLayout_def)
      let ?L' = "?L\<lparr> maxLOffset := ?ls, maxPOffset := ?n, subArrays := [(0, ArrayLayout n ?es ?ls (partSubs DL (sp True) True E))] \<rparr>"
      have part: "partSize DL (sp True) True ?T = ?ls" using False sp by (simp add: partSize_def isEmpty_def)
      have L: "?L' = layoutOf DL (sp True) True ?T"
        using sp False by (simp add: addPart_def newMemLayout_def layoutOf_def part partSubs_def partSize_def isEmpty_def image_Un)
      have "findLayout True ?T m1 = None" using grows_None [OF m1(2) None] by simp
      from insertLayout_ok [OF this m1(1) L] obtain m' where m': "mgr_ok DL sp m'" "grows True (size ?T) m1 m'"
        "insertLayout True ?T ?L' m1 = Inr m'" by blast
      have new: "insertSubArray 0 (ArrayLayout n ?es 0 []) (newMemLayout ?T True) = Inr ?new"
        by (simp add: insertSubArray_def newMemLayout_def om_insert_def)
      have "DFSTypeTree DL True cb ?T 0 0 m = getCollapsedArrayLayout DL cb n E 0 0 m"
        using None False by (simp add: isEmpty_def del: getCollapsedArrayLayout.simps)
      also have "\<dots> = Inr (layoutOf DL (sp True) True ?T, partSize DL (sp True) True ?T, ?n, m')"
        unfolding sizes(3)
        using m1(3) m'(3) [unfolded sizes(3)] arr L [unfolded sizes(3)] new part
        by (simp add: Let_def setMaxOffsets_def setLayoutSize_def del: setElementLayout.simps)
      finally show ?thesis using m'(1) mgr_grows_trans [OF m1(2) m'(2), of "size ?T"] by auto
    qed
  qed
qed

lemma elements_ok:
  assumes wf: "wf_type DL (sp False) E" and part: "part_ok DL sp False E" and cb: "cb_ok DL (sp False) cb"
    and m: "mgr_ok DL sp m" and ready: "ready False L (i * getTypeAllocSize DL E) (i * getTypeAllocSize DL E)" and nar: "\<not> mIsArray L"
  shows "\<exists>m' L'. layoutElements DL cb i k E L (i * getTypeAllocSize DL E) (i * getTypeAllocSize DL E) m =
      Inr (L', (i + k) * getTypeAllocSize DL E, (i + k) * getTypeAllocSize DL E, m') \<and>
    L' = L\<lparr> elementLayout := elementLayout L \<union> (\<Union>j \<in> {i..<i + k}. (+) (j * getTypeAllocSize DL E) ` elems DL (sp False) False E),
      pointerLayout := pointerLayout L \<union> (\<Union>j \<in> {i..<i + k}. (+) (j * getTypeAllocSize DL E) ` ptrs DL (sp False) False E),
      specialLayout := specialLayout L \<union> (\<Union>j \<in> {i..<i + k}. (+) (j * getTypeAllocSize DL E) ` specials DL (sp False) False E) \<rparr> \<and>
    mgr_ok DL sp m' \<and> grows False (size E) m m'"
  using m ready nar
proof (induction k arbitrary: i L m)
  case 0
  then show ?case using mgr_grows_refl by auto
next
  case (Suc k)
  let ?n = "getTypeAllocSize DL E" and ?L = "addPart DL (sp False) False E (i * getTypeAllocSize DL E) (i * getTypeAllocSize DL E) L"
  have size: "partSize DL (sp False) False E = ?n" by (simp add: partSize_def)
  from part cb Suc.prems(1,2) obtain m1 where m1: "mgr_ok DL sp m1" "grows False (size E) m m1"
    "setElementLayout DL False cb E L (i * ?n) (i * ?n) m = Inr (?L, i * ?n + ?n, i * ?n + ?n, m1)"
    unfolding part_ok_def size by blast
  have next_pos: "i * ?n + ?n = (i + 1) * ?n" by simp
  have ready1: "ready False ?L ((i + 1) * ?n) ((i + 1) * ?n)"
    using ready_addPart [OF Suc.prems(2) wf Suc.prems(3)] unfolding size next_pos .
  have nar: "\<not> mIsArray ?L" using Suc.prems(3) by (simp add: addPart_def)
  from Suc.IH [OF m1(1) ready1 nar] obtain m' L' where IH:
    "layoutElements DL cb (i + 1) k E ?L ((i + 1) * ?n) ((i + 1) * ?n) m1 = Inr (L', (i + 1 + k) * ?n, (i + 1 + k) * ?n, m')"
    "L' = ?L\<lparr> elementLayout := elementLayout ?L \<union> (\<Union>j \<in> {i + 1..<i + 1 + k}. (+) (j * ?n) ` elems DL (sp False) False E),
      pointerLayout := pointerLayout ?L \<union> (\<Union>j \<in> {i + 1..<i + 1 + k}. (+) (j * ?n) ` ptrs DL (sp False) False E),
      specialLayout := specialLayout ?L \<union> (\<Union>j \<in> {i + 1..<i + 1 + k}. (+) (j * ?n) ` specials DL (sp False) False E) \<rparr>"
    "mgr_ok DL sp m'" "grows False (size E) m1 m'" by blast
  have "layoutElements DL cb i (Suc k) E L (i * ?n) (i * ?n) m = Inr (L', (i + Suc k) * ?n, (i + Suc k) * ?n, m')"
    using m1(3) IH(1) by (simp add: next_pos del: setElementLayout.simps)
  moreover have range: "{i..<i + Suc k} = insert i {i + 1..<i + 1 + k}" by auto
  have "L' = L\<lparr> elementLayout := elementLayout L \<union> (\<Union>j \<in> {i..<i + Suc k}. (+) (j * ?n) ` elems DL (sp False) False E),
      pointerLayout := pointerLayout L \<union> (\<Union>j \<in> {i..<i + Suc k}. (+) (j * ?n) ` ptrs DL (sp False) False E),
      specialLayout := specialLayout L \<union> (\<Union>j \<in> {i..<i + Suc k}. (+) (j * ?n) ` specials DL (sp False) False E) \<rparr>"
    unfolding IH(2) range using Suc.prems(3) by (simp add: addPart_def partSubs_def Un_assoc)
  ultimately show ?case using IH(3) mgr_grows_trans [OF m1(2) IH(4)] by blast
qed

lemma uncollapsed_ok:
  assumes wf: "wf_type DL (sp False) (ArrayTy n E)" and sp: "\<not> sp False (ArrayTy n E)" and part: "part_ok DL sp False E"
  shows "dfs_ok DL sp False (ArrayTy n E)"
  unfolding dfs_ok_def
proof (intro allI impI)
  fix cb m
  assume cb: "cb_ok DL (sp False) cb" and m: "mgr_ok DL sp m"
  let ?T = "ArrayTy n E"
  show "\<exists>m'. DFSTypeTree DL False cb ?T 0 0 m = Inr (layoutOf DL (sp False) False ?T, partSize DL (sp False) False ?T, rootSize DL ?T, m') \<and>
    mgr_ok DL sp m' \<and> grows False (size ?T) m m'"
  proof (cases "findLayout False ?T m")
    case (Some L)
    then show ?thesis by (intro cached_ok [OF m Some]) simp
  next
    case None
    show ?thesis
    proof (cases "isEmpty DL ?T")
      case True
      then show ?thesis by (intro empty_ok [OF m None True wf sp]) simp
    next
      case False
      let ?n = "getTypeAllocSize DL ?T" and ?es = "getTypeAllocSize DL E"
      from wf sp have E: "wf_type DL (sp False) E" and n: "?n = n * ?es" "?n < SIZE_MAX" by simp_all
      have ne: "n \<noteq> SIZE_MAX" using n False by (cases ?es) (auto simp: isEmpty_def)
      from elements_ok [where i = 0 and L = "newMemLayout ?T False" and k = n, OF E part cb m] obtain m1 L where L:
        "layoutElements DL cb 0 n E (newMemLayout ?T False) 0 0 m = Inr (L, ?n, ?n, m1)" "mgr_ok DL sp m1" "grows False (size E) m m1"
        "L = (newMemLayout ?T False)\<lparr> elementLayout := (\<Union>j \<in> {0..<n}. (+) (j * ?es) ` elems DL (sp False) False E),
          pointerLayout := (\<Union>j \<in> {0..<n}. (+) (j * ?es) ` ptrs DL (sp False) False E),
          specialLayout := (\<Union>j \<in> {0..<n}. (+) (j * ?es) ` specials DL (sp False) False E) \<rparr>"
        using new_ready by (auto simp: newMemLayout_def n(1))
      have size: "partSize DL (sp False) False ?T = ?n" "rootSize DL ?T = ?n"
        using rootSize_wf [OF wf sp] by (simp_all add: partSize_def)
      have L': "L\<lparr> maxLOffset := ?n, maxPOffset := ?n \<rparr> = layoutOf DL (sp False) False ?T"
        using sp False unfolding L(4) by (simp add: newMemLayout_def layoutOf_def size partSubs_def isEmpty_def lessThan_atLeast0)
      have "findLayout False ?T m1 = None" using grows_None [OF L(3) None] by simp
      from insertLayout_ok [OF this L(2) L'] obtain m' where m': "mgr_ok DL sp m'" "grows False (size ?T) m1 m'"
        "insertLayout False ?T (L\<lparr> maxLOffset := ?n, maxPOffset := ?n \<rparr>) m1 = Inr m'" by blast
      have zero: "maxLOffset L = 0" "maxPOffset L = 0" by (simp_all add: L(4) newMemLayout_def)
      have fits: "size_t (n * ?es) = ?n" using n by simp
      have "DFSTypeTree DL False cb ?T 0 0 m = getNonCollapsedArrayLayout DL cb n E 0 0 m"
        using None False by (simp add: isEmpty_def del: getNonCollapsedArrayLayout.simps)
      also have "\<dots> = Inr (layoutOf DL (sp False) False ?T, partSize DL (sp False) False ?T, rootSize DL ?T, m')"
        using L(1) m'(3) zero L' ne fits by (simp add: Let_def setMaxOffsets_def size del: layoutElements.simps)
      finally show ?thesis using m'(1) mgr_grows_trans [OF L(3) m'(2), of "size ?T"] by auto
    qed
  qed
qed

section \<open>Every request gives the layout of its type\<close>

lemma dfs_part_ok:
  "wf_type DL (sp c) T \<Longrightarrow> part_ok DL sp c T \<and> (isAggregateType T \<longrightarrow> \<not> sp c T \<longrightarrow> dfs_ok DL sp c T)"
proof (induction T)
  case (StructTy s ts)
  show ?case
  proof (cases "sp c (StructTy s ts)")
    case True
    then show ?thesis using part_ok_leaf [where sp = sp and c = c, OF StructTy.prems] by simp
  next
    case False
    have "\<forall>t \<in> set ts. wf_type DL (sp c) t" if "wf_fields DL (sp c) S i from ts" for S i "from"
      using that by (induction ts arbitrary: i "from") auto
    then have "\<forall>t \<in> set ts. part_ok DL sp c t" using StructTy False by auto
    from struct_ok [where sp = sp and c = c, OF StructTy.prems False this] part_ok_aggregate [where sp = sp and c = c, OF StructTy.prems False] show ?thesis by simp
  qed
next
  case (ArrayTy n E)
  show ?case
  proof (cases "sp c (ArrayTy n E)")
    case True
    then show ?thesis using part_ok_leaf [where sp = sp and c = c, OF ArrayTy.prems] by simp
  next
    case False
    then have E: "part_ok DL sp c E" using ArrayTy by simp
    have "dfs_ok DL sp c (ArrayTy n E)"
    proof (cases c)
      case True
      then have "part_ok DL sp True E" using E by simp
      from collapsed_ok [OF _ _ this] show ?thesis using ArrayTy.prems False True by simp
    next
      case c: False
      then have "part_ok DL sp False E" using E by simp
      from uncollapsed_ok [OF _ _ this] show ?thesis using ArrayTy.prems False c by simp
    qed
    then show ?thesis using part_ok_aggregate [where sp = sp and c = c, OF ArrayTy.prems False] by simp
  qed
qed (simp_all add: part_ok_leaf [where sp = sp and c = c])

lemma getLayoutForType_ok:
  assumes "mgr_ok DL sp m" and "cb_ok DL (sp c) cb" and "isAggregateType T" and "\<not> sp c T"
    and "wf_type DL (sp c) T \<or> c \<and> unbounded DL (sp c) T"
  shows "\<exists>m'. getLayoutForType DL c cb T m = Inr (layoutOf DL (sp c) c T, m') \<and> mgr_ok DL sp m'"
proof -
  have "dfs_ok DL sp c T"
  proof (cases "wf_type DL (sp c) T")
    case True
    then show ?thesis using dfs_part_ok assms(3,4) by blast
  next
    case False
    then have u: "c" "unbounded DL (sp c) T" using assms(5) by auto
    then obtain n E where T: "T = ArrayTy n E" "wf_type DL (sp c) E" by (cases T) (auto simp: unbounded_def)
    then have "part_ok DL sp c E" using dfs_part_ok by blast
    then show ?thesis using collapsed_ok u assms(4) T by (metis (full_types))
  qed
  with assms(1,2) obtain m' where "mgr_ok DL sp m'"
    "DFSTypeTree DL c cb T 0 0 m = Inr (layoutOf DL (sp c) c T, partSize DL (sp c) c T, rootSize DL T, m')"
    unfolding dfs_ok_def by blast
  then show ?thesis by (simp add: getLayoutForType_def del: DFSTypeTree.simps)
qed

end
