(* ===== verification/LayoutFacts.thy ===== *)
theory LayoutFacts
  imports LayoutBuild
begin

text \<open>
  What a layout that the manager delivers means, for every manager that requests can lead to: the
  index of a physical offset, the offsets that are elements and pointers, and the numbers that
  the memory blocks use for them.
\<close>

section \<open>Managers that requests lead to\<close>

definition emptyManager :: layout_manager where
  "emptyManager = \<lparr> collapsedLayoutMap = Map.empty, unCollapsedLayoutMap = Map.empty \<rparr>"

definition request_ok :: "data_layout \<Rightarrow> (bool \<Rightarrow> ll_type \<Rightarrow> bool) \<Rightarrow> bool \<Rightarrow> ll_type \<Rightarrow> bool" where
  "request_ok DL sp c T \<longleftrightarrow> isAggregateType T \<and> \<not> sp c T \<and> (wf_type DL (sp c) T \<or> c \<and> unbounded DL (sp c) T)"

inductive mgr_reach :: "data_layout \<Rightarrow> (bool \<Rightarrow> ll_type \<Rightarrow> bool) \<Rightarrow> layout_manager \<Rightarrow> bool" for DL sp where
  start: "mgr_reach DL sp emptyManager"
| request: "mgr_reach DL sp m \<Longrightarrow> request_ok DL sp c T \<Longrightarrow> cb_ok DL (sp c) cb \<Longrightarrow>
    getLayoutForType DL c cb T m = Inr (L, m') \<Longrightarrow> mgr_reach DL sp m'"

lemma request_layout:
  assumes "mgr_ok DL sp m" and "request_ok DL sp c T" and "cb_ok DL (sp c) cb"
  shows "\<exists>m'. getLayoutForType DL c cb T m = Inr (layoutOf DL (sp c) c T, m') \<and> mgr_ok DL sp m'"
  using getLayoutForType_ok [OF assms(1,3)] assms(2) by (simp add: request_ok_def)

lemma mgr_reach_ok: "mgr_reach DL sp m \<Longrightarrow> mgr_ok DL sp m"
proof (induction rule: mgr_reach.induct)
  case start
  then show ?case by (simp add: mgr_ok_def findLayout_def emptyManager_def)
next
  case (request m c T cb L m')
  then show ?case using request_layout [OF request.IH request.hyps(2,3)] by auto
qed

section \<open>Physical offsets\<close>

lemma index_wf:
  assumes "wf_type DL sp T" and "\<not> sp T" and "p < getTypeAllocSize DL T"
  shows "indexPhysicalOffset (layoutOf DL sp True T) p = (logOffset DL sp T p, canon DL sp T p)"
proof -
  have "indexBetweenArrays (subs DL sp T) 0 0 p = (logOffset DL sp T p, canon DL sp T p)"
    using between_inside(1) [OF assms(1,3), of 0 "[]" 0] wf_type_size [OF assms(1)] by simp
  then show ?thesis using assms(3) rootSize_wf [OF assms(1,2)]
    by (cases "subs DL sp T") (auto simp: indexPhysicalOffset_def hasArray_def layoutOf_def partSubs_def)
qed

lemma unboundedD:
  assumes "unbounded DL sp T"
  obtains E where "T = ArrayTy SIZE_MAX E" and "wf_type DL sp E" and "0 < getTypeAllocSize DL E" and "\<not> isEmpty DL T"
  using assms by (cases T) (auto simp: unbounded_def isEmpty_def)

lemma index_unbounded:
  assumes "unbounded DL sp T" and "\<not> sp T" and "p < SIZE_MAX"
  shows "indexPhysicalOffset (layoutOf DL sp True T) p = (logOffset DL sp T p, canon DL sp T p)"
proof -
  from assms(1) obtain E where T: "T = ArrayTy SIZE_MAX E" "wf_type DL sp E" "0 < getTypeAllocSize DL E" "\<not> isEmpty DL T"
    by (rule unboundedD)
  let ?q = "p mod getTypeAllocSize DL E"
  have q: "?q < getTypeAllocSize DL E" using T(3) by simp
  have "indexBetweenArrays (subs DL sp E) 0 0 ?q = (logOffset DL sp E ?q, canon DL sp E ?q)"
    using between_inside(1) [OF T(2) q, of 0 "[]" 0] wf_type_size [OF T(2)] by simp
  then have "indexArray (ArrayLayout SIZE_MAX (getTypeAllocSize DL E) x (subs DL sp E)) p = (logOffset DL sp E ?q, canon DL sp E ?q)" for x
    by (cases "subs DL sp E = []") auto
  then show ?thesis using assms(2,3) T(4)
    by (simp add: T(1) indexPhysicalOffset_def hasArray_def layoutOf_def partSubs_def rootSize_def isEmpty_def getArraySize_def
        Let_def logOffset_zero canon_zero del: indexArray.simps)
qed

lemma index_request:
  assumes "request_ok DL sp True T" and "p < rootSize DL T"
  shows "indexPhysicalOffset (layoutOf DL (sp True) True T) p = (logOffset DL (sp True) T p, canon DL (sp True) T p)"
proof (cases "wf_type DL (sp True) T")
  case True
  then show ?thesis using index_wf [OF True] assms rootSize_wf [OF True] by (simp add: request_ok_def)
next
  case False
  then have u: "unbounded DL (sp True) T" using assms(1) by (simp add: request_ok_def)
  then show ?thesis using index_unbounded [OF u] assms by (auto simp: request_ok_def rootSize_def elim: unboundedD)
qed

lemma index_beyond:
  assumes "rootSize DL T \<le> p" and "subs DL sp T \<noteq> []"
  shows "indexPhysicalOffset (layoutOf DL sp True T) p = (SIZE_MAX, p)"
  using assms by (simp add: indexPhysicalOffset_def hasArray_def layoutOf_def partSubs_def)

lemma index_uncollapsed: "indexPhysicalOffset (layoutOf DL sp False T) p = (p, p)"
  by (simp add: indexPhysicalOffset_def hasArray_def layoutOf_def partSubs_def)

text \<open>A place in an unbounded array is one of its first element.\<close>

lemma logOffset_request_eq:
  assumes "request_ok DL sp True T" and "p < rootSize DL T" and "q < rootSize DL T"
  shows "logOffset DL (sp True) T p = logOffset DL (sp True) T q \<longleftrightarrow> canon DL (sp True) T p = canon DL (sp True) T q"
proof (cases "wf_type DL (sp True) T")
  case True
  then show ?thesis using logOffset_eq_iff [OF True] assms rootSize_wf [OF True] by (simp add: request_ok_def)
next
  case False
  then have u: "unbounded DL (sp True) T" "\<not> sp True T" using assms(1) by (simp_all add: request_ok_def)
  from u(1) obtain E where T: "T = ArrayTy SIZE_MAX E" "wf_type DL (sp True) E" "0 < getTypeAllocSize DL E" by (rule unboundedD)
  show ?thesis using logOffset_eq_iff [OF T(2) mod_less_divisor [OF T(3)] mod_less_divisor [OF T(3)]] u(2) by (simp add: T(1))
qed

section \<open>Elements and pointers\<close>

text \<open>The logical offsets of the scalars of type \<open>f\<close>.\<close>

fun marks :: "(ll_type \<Rightarrow> bool) \<Rightarrow> data_layout \<Rightarrow> (ll_type \<Rightarrow> bool) \<Rightarrow> ll_type \<Rightarrow> nat set"
and marksIn :: "(ll_type \<Rightarrow> bool) \<Rightarrow> data_layout \<Rightarrow> (ll_type \<Rightarrow> bool) \<Rightarrow> ll_type \<Rightarrow> nat \<Rightarrow> nat \<Rightarrow> ll_type list \<Rightarrow> nat set" where
  "marks f DL sp (StructTy s ts) =
     (if sp (StructTy s ts) then if f (StructTy s ts) then {0} else {} else marksIn f DL sp (StructTy s ts) 0 0 ts)"
| "marks f DL sp (ArrayTy n E) =
     (if sp (ArrayTy n E) then if f (ArrayTy n E) then {0} else {}
      else if isEmpty DL (ArrayTy n E) then {} else marks f DL sp E)"
| "marks f DL sp T = (if f T then {0} else {})"
| "marksIn f DL sp S i lost [] = {}"
| "marksIn f DL sp S i lost (t # ts) = (+) (getElementOffset DL S i - lost) ` marks f DL sp t \<union>
     marksIn f DL sp S (i + 1) (lost + (getTypeAllocSize DL t - logSize DL sp t)) ts"

lemma marks_bound:
  "wf_type DL sp T \<Longrightarrow> x \<in> marks f DL sp T \<Longrightarrow> x < logSize DL sp T"
  "wf_fields DL sp S i from ts \<Longrightarrow> lost \<le> from \<Longrightarrow> x \<in> marksIn f DL sp S i lost ts \<Longrightarrow>
     from - lost \<le> x \<and> x < getTypeAllocSize DL S - lost - lostIn DL sp ts"
proof (induction f DL sp T and f DL sp S i lost ts arbitrary: x and "from" x rule: marks_marksIn.induct)
  case (5 f DL sp S i lost t ts)
  let ?k = "getElementOffset DL S i" and ?n = "getTypeAllocSize DL t"
  let ?lost = "lost + (?n - logSize DL sp t)"
  from 5(3) have wf: "from \<le> ?k" "wf_type DL sp t" "wf_fields DL sp S (i + 1) (?k + ?n) ts" by simp_all
  note le = logSize_le(1) [OF wf(2)] logSize_le(2) [OF wf(3)]
  have lost: "lost \<le> ?k" "?lost \<le> ?k + ?n" using 5(4) wf(1) by linarith+
  from 5(5) consider y where "y \<in> marks f DL sp t" "x = (?k - lost) + y" | "x \<in> marksIn f DL sp S (i + 1) ?lost ts" by auto
  then show ?case
  proof cases
    case 1
    show ?thesis using 5(1) [OF wf(2) 1(1)] 1(2) le lost wf(1) unfolding lostIn.simps by (intro conjI) linarith+
  next
    case 2
    show ?thesis using 5(2) [OF wf(3) lost(2) 2] le lost wf(1) unfolding lostIn.simps by (intro conjI) linarith+
  qed
qed (auto simp: isEmpty_def split: if_splits)

lemma marks_scalar:
  "wf_type DL sp T \<Longrightarrow> p < getTypeAllocSize DL T \<Longrightarrow>
     logOffset DL sp T p \<in> marks f DL sp T \<longleftrightarrow> (\<exists>t. scalarAt DL sp T p = Some t \<and> f t)"
  "wf_fields DL sp S i from ts \<Longrightarrow> lost \<le> from \<Longrightarrow> from \<le> p \<Longrightarrow> p < getTypeAllocSize DL S \<Longrightarrow>
     logOffsetIn DL sp S i lost ts p \<in> marksIn f DL sp S i lost ts \<longleftrightarrow> (\<exists>t. scalarIn DL sp S i ts p = Some t \<and> f t)"
proof (induction DL sp T p and DL sp S i lost ts p arbitrary: and "from" rule: logOffset_logOffsetIn.induct)
  case (2 DL sp n E p)
  show ?case
  proof (cases "sp (ArrayTy n E)")
    case False
    from 2(2) False have wf: "wf_type DL sp E" "getTypeAllocSize DL (ArrayTy n E) = n * getTypeAllocSize DL E" by auto
    have "p < n * getTypeAllocSize DL E" using wf(2) 2(3) by simp
    from 2(1) [OF False wf(1) mod_size(1) [OF this]] False 2(3) show ?thesis by (simp add: isEmpty_def)
  qed (use 2(3) in simp)
next
  case (5 DL sp S i lost t ts p)
  let ?k = "getElementOffset DL S i" and ?n = "getTypeAllocSize DL t"
  let ?lost = "lost + (?n - logSize DL sp t)"
  from 5(3) have wf: "from \<le> ?k" "wf_type DL sp t" "wf_fields DL sp S (i + 1) (?k + ?n) ts" by simp_all
  have lost: "lost \<le> ?k" "?lost \<le> ?k + ?n" using 5(4) wf(1) by linarith+
  have mid: "?k + ?n - ?lost = ?k - lost + logSize DL sp t" using lost logSize_le(1) [OF wf(2)] by linarith
  have first: "y < logSize DL sp t" if "y \<in> marks f DL sp t" for y using marks_bound(1) [OF wf(2) that] .
  have later: "?k - lost + logSize DL sp t \<le> y" if "y \<in> marksIn f DL sp S (i + 1) ?lost ts" for y
    using marks_bound(2) [OF wf(3) lost(2) that] mid by linarith
  consider "p < ?k" | "?k \<le> p" "p < ?k + ?n" | "?k + ?n \<le> p" by linarith
  then show ?case
  proof cases
    case 1
    then have less: "p - lost < ?k - lost" using 5(4,5) by linarith
    have "p - lost \<notin> (+) (?k - lost) ` marks f DL sp t \<union> marksIn f DL sp S (i + 1) ?lost ts"
    proof
      assume "p - lost \<in> (+) (?k - lost) ` marks f DL sp t \<union> marksIn f DL sp S (i + 1) ?lost ts"
      then have "?k - lost \<le> p - lost" using later by fastforce
      then show False using less by simp
    qed
    then show ?thesis using 1 by (simp add: Let_def)
  next
    case 2
    then have "\<not> p < ?k" "p - ?k < ?n" by linarith+
    have "?k - lost + logOffset DL sp t (p - ?k) \<notin> marksIn f DL sp S (i + 1) ?lost ts"
      using later logOffset_less(1) [OF wf(2) \<open>p - ?k < ?n\<close>] by fastforce
    then show ?thesis using 2 5(1) [OF refl \<open>\<not> p < ?k\<close> 2(2) wf(2) \<open>p - ?k < ?n\<close>] by (auto simp: Let_def)
  next
    case 3
    then have neg: "\<not> p < ?k" "\<not> p < ?k + ?n" by linarith+
    have "?k - lost + logSize DL sp t \<le> logOffsetIn DL sp S (i + 1) ?lost ts p"
      using logOffset_less(2) [OF wf(3) 3 5(6) lost(2)] mid by linarith
    then have "logOffsetIn DL sp S (i + 1) ?lost ts p \<notin> (+) (?k - lost) ` marks f DL sp t" using first by fastforce
    then show ?thesis using neg 5(2) [OF refl neg wf(3) lost(2) 3 5(6)] by (simp add: Let_def)
  qed
qed auto

lemma elems_marks:
  "no_empty DL sp T \<Longrightarrow> elems DL sp True T = marks (\<lambda>_. True) DL sp T"
  "\<forall>t \<in> set ts. no_empty DL sp t \<Longrightarrow> elemsIn DL sp True S i lost ts = marksIn (\<lambda>_. True) DL sp S i lost ts"
  by (induction "\<lambda>_ :: ll_type. True" DL sp T and "\<lambda>_ :: ll_type. True" DL sp S i lost ts rule: marks_marksIn.induct)
    (auto simp: isEmpty_def partSize_def)

definition isPointerType :: "ll_type \<Rightarrow> bool" where
  "isPointerType T \<longleftrightarrow> (case T of PointerTy s \<Rightarrow> True | _ \<Rightarrow> False)"

lemma isPointerType_simps [simp]:
  "isPointerType (PointerTy s)" "\<not> isPointerType (StructTy s ts)" "\<not> isPointerType (ArrayTy n E)"
  "\<not> isPointerType (VectorTy k)" "\<not> isPointerType (IntTy k)" "\<not> isPointerType (FloatTy k)" "\<not> isPointerType (OpaqueTy s)"
  by (simp_all add: isPointerType_def)

lemma isPointerType_iff: "isPointerType T \<longleftrightarrow> (\<exists>s. T = PointerTy s)"
  by (cases T) simp_all

lemma ptrs_marks:
  "wf_type DL sp T \<Longrightarrow> ptrs DL sp True T = marks (\<lambda>t. isPointerType t \<and> \<not> sp t) DL sp T"
  "wf_fields DL sp S i from ts \<Longrightarrow> ptrsIn DL sp True S i lost ts = marksIn (\<lambda>t. isPointerType t \<and> \<not> sp t) DL sp S i lost ts"
proof (induction "\<lambda>t. isPointerType t \<and> \<not> sp t" DL sp T and "\<lambda>t. isPointerType t \<and> \<not> sp t" DL sp S i lost ts
    arbitrary: and "from" rule: marks_marksIn.induct)
  case (1 DL sp s ts)
  then show ?case
  proof (cases "isEmpty DL (StructTy s ts)")
    case True
    then have "logSize DL sp (StructTy s ts) = 0" by (simp add: isEmpty_def)
    then have "x \<notin> marks f DL sp (StructTy s ts)" for f x using marks_bound(1) [OF 1(2), of x f] by (metis less_nat_zero_code)
    then have none: "marks (\<lambda>t. isPointerType t \<and> \<not> sp t) DL sp (StructTy s ts) = {}" by blast
    show ?thesis unfolding none using True by simp
  next
    case False
    then show ?thesis using 1(1) [of 0] 1(2) by auto
  qed
qed (auto simp: partSize_def)

text \<open>At the root an unbounded array is as wide as its first element.\<close>

lemma root_part:
  assumes "request_ok DL sp True T" and "p < rootSize DL T"
  obtains E q where "wf_type DL (sp True) E" and "q < getTypeAllocSize DL E" and "logOffset DL (sp True) T p = logOffset DL (sp True) E q"
    and "scalarAt DL (sp True) T p = scalarAt DL (sp True) E q" and "elems DL (sp True) True T = elems DL (sp True) True E"
    and "ptrs DL (sp True) True T = ptrs DL (sp True) True E" and "no_empty DL (sp True) T \<longrightarrow> no_empty DL (sp True) E"
proof (cases "wf_type DL (sp True) T")
  case True
  with assms rootSize_wf [OF True] show ?thesis by (intro that [of T p]) (simp_all add: request_ok_def)
next
  case False
  with assms have u: "unbounded DL (sp True) T" "\<not> sp True T" by (simp_all add: request_ok_def)
  from u(1) obtain E where T: "T = ArrayTy SIZE_MAX E" "wf_type DL (sp True) E" "0 < getTypeAllocSize DL E" "\<not> isEmpty DL T"
    by (rule unboundedD)
  then show ?thesis using u(2) by (intro that [of E "p mod getTypeAllocSize DL E"]) auto
qed

lemma pointer_request:
  assumes "request_ok DL sp True T" and "p < rootSize DL T"
  shows "offsetIsPtr (layoutOf DL (sp True) True T) (logOffset DL (sp True) T p) \<longleftrightarrow>
    (\<exists>s. scalarAt DL (sp True) T p = Some (PointerTy s) \<and> \<not> sp True (PointerTy s))"
proof -
  obtain E q where E: "wf_type DL (sp True) E" "q < getTypeAllocSize DL E" "logOffset DL (sp True) T p = logOffset DL (sp True) E q"
    "scalarAt DL (sp True) T p = scalarAt DL (sp True) E q" "ptrs DL (sp True) True T = ptrs DL (sp True) True E"
    using assms by (rule root_part)
  show ?thesis
    unfolding offsetIsPtr_def layoutOf_def mem_layout.simps E(3-5) ptrs_marks(1) [OF E(1)] marks_scalar(1) [OF E(1,2)]
    by (auto simp: isPointerType_iff)
qed

lemma element_request:
  assumes "request_ok DL sp True T" and "p < rootSize DL T" and "no_empty DL (sp True) T"
  shows "logOffset DL (sp True) T p \<in> elementLayout (layoutOf DL (sp True) True T) \<longleftrightarrow> scalarAt DL (sp True) T p \<noteq> None"
proof -
  obtain E q where E: "wf_type DL (sp True) E" "q < getTypeAllocSize DL E" "logOffset DL (sp True) T p = logOffset DL (sp True) E q"
    "scalarAt DL (sp True) T p = scalarAt DL (sp True) E q" "elems DL (sp True) True T = elems DL (sp True) True E"
    "no_empty DL (sp True) T \<longrightarrow> no_empty DL (sp True) E"
    using assms(1,2) by (rule root_part)
  from E(6) assms(3) have ne: "no_empty DL (sp True) E" by blast
  show ?thesis unfolding layoutOf_def mem_layout.simps E(3-5) elems_marks(1) [OF ne] marks_scalar(1) [OF E(1,2)] by auto
qed

section \<open>The numbers of elements\<close>

lemma finite_elems: "finite (elems DL sp c T)" "finite (elemsIn DL sp c S i lost ts)"
  by (induction DL sp c T and DL sp c S i lost ts rule: elems_elemsIn.induct) auto

lemma fold_bits:
  "\<forall>x \<in> set xs. x < length bits \<Longrightarrow> length (fold (\<lambda>x bits. bits[x := True]) xs bits) = length bits \<and>
     (\<forall>i < length bits. fold (\<lambda>x bits. bits[x := True]) xs bits ! i \<longleftrightarrow> i \<in> set xs \<or> bits ! i)"
proof (induction xs arbitrary: bits)
  case (Cons x xs)
  from Cons.IH [of "bits[x := True]"] Cons.prems show ?case by (auto simp: nth_list_update)
qed simp

lemma fold_index:
  "distinct xs \<Longrightarrow> \<forall>x \<in> set xs. x < length ys \<Longrightarrow>
     length (fold (\<lambda>(i, x) ys. ys[x := int i]) (enumerate k xs) ys) = length ys \<and>
     (\<forall>j < length ys. j \<notin> set xs \<longrightarrow> fold (\<lambda>(i, x) ys. ys[x := int i]) (enumerate k xs) ys ! j = ys ! j) \<and>
     (\<forall>i < length xs. fold (\<lambda>(i, x) ys. ys[x := int i]) (enumerate k xs) ys ! (xs ! i) = int (k + i))"
proof (induction xs arbitrary: k ys)
  case (Cons x xs)
  from Cons.prems have "distinct xs" "\<forall>y \<in> set xs. y < length (ys[x := int k])" by simp_all
  note IH = Cons.IH [OF this, of "Suc k"]
  have "fold (\<lambda>(i, x) ys. ys[x := int i]) (enumerate k (x # xs)) ys ! ((x # xs) ! i) = int (k + i)"
    if "i < length (x # xs)" for i
    using IH that Cons.prems by (cases i) auto
  then show ?case using IH by (auto simp: nth_list_update)
qed simp

lemma card_below_sorted:
  assumes "sorted_wrt (<) (xs :: nat list)" and "i < length xs"
  shows "card {x \<in> set xs. x < xs ! i} = i"
proof -
  have "{x \<in> set xs. x < xs ! i} = (!) xs ` {..<i}"
  proof (intro equalityI subsetI)
    fix x assume "x \<in> {x \<in> set xs. x < xs ! i}"
    then obtain j where "j < length xs" "x = xs ! j" "xs ! j < xs ! i" by (auto simp: in_set_conv_nth)
    moreover from this have "j < i"
      using sorted_wrt_nth_less [OF assms(1), of i j] by (metis less_asym linorder_neqE_nat)
    ultimately show "x \<in> (!) xs ` {..<i}" by simp
  qed (use assms sorted_wrt_nth_less [OF assms(1)] in auto)
  moreover have "inj_on ((!) xs) {..<i}"
    using assms by (auto simp: inj_on_def strict_sorted_iff nth_eq_iff_index_eq)
  ultimately show ?thesis by (simp add: card_image)
qed

lemma logical_number:
  assumes "finite (elementLayout L)"
  shows "getLogicalOffset L l = (if l \<in> elementLayout L then int (card {e \<in> elementLayout L. e < l}) else - 1)"
    and "offsetIndexable L l \<longleftrightarrow> l \<in> elementLayout L"
proof -
  let ?E = "elementLayout L" and ?xs = "sorted_list_of_set (elementLayout L)"
  have xs: "sorted_wrt (<) ?xs" "set ?xs = ?E" "distinct ?xs" using assms by (simp_all add: strict_sorted_iff)
  have "(getLogicalOffset L l = (if l \<in> ?E then int (card {e \<in> ?E. e < l}) else - 1)) \<and> (offsetIndexable L l \<longleftrightarrow> l \<in> ?E)"
  proof (cases "?E = {}")
    case True
    then show ?thesis by (simp add: getLogicalOffset_def offsetIndexable_def cacheIntoBitVector_def)
  next
    case False
    obtain n where n: "n = Max ?E + 1" by blast
    have bound: "x < n" if "x \<in> ?E" for x using Max_ge [OF assms that] n by simp
    note bits = fold_bits [of ?xs "replicate n False"] and idx = fold_index [OF xs(3), of "replicate n (- 1)" 0]
    have inrange: "\<forall>x \<in> set ?xs. x < length (replicate n y)" for y :: 'b using bound xs(2) by simp
    have def: "cacheIntoBitVector L = (fold (\<lambda>x bits. bits[x := True]) ?xs (replicate n False),
        fold (\<lambda>(i, x) ys. ys[x := int i]) (enumerate 0 ?xs) (replicate n (- 1)))"
      using False by (simp add: cacheIntoBitVector_def Let_def n)
    have "offsetIndexable L l \<longleftrightarrow> l \<in> ?E"
      using bits [OF inrange] bound xs(2) unfolding offsetIndexable_def def by auto
    moreover have "getLogicalOffset L l = (if l \<in> ?E then int (card {e \<in> ?E. e < l}) else - 1)"
    proof (cases "l \<in> ?E")
      case True
      then obtain i where i: "i < length ?xs" "?xs ! i = l" using xs(2) by (metis in_set_conv_nth)
      have "card {e \<in> ?E. e < l} = i" using card_below_sorted [OF xs(1) i(1)] i(2) xs(2) by simp
      then show ?thesis using idx [OF inrange] i bound [OF True] True unfolding getLogicalOffset_def def by auto
    next
      case False
      then show ?thesis using idx [OF inrange] xs(2) unfolding getLogicalOffset_def def by (auto simp: Let_def)
    qed
    ultimately show ?thesis by blast
  qed
  then show "getLogicalOffset L l = (if l \<in> ?E then int (card {e \<in> ?E. e < l}) else - 1)" "offsetIndexable L l \<longleftrightarrow> l \<in> ?E" by blast+
qed

lemma number_less:
  assumes "finite (elementLayout L)" and "l \<in> elementLayout L"
  shows "nat (getLogicalOffset L l) < getNumIndexableElem L"
  using assms psubset_card_mono [of "elementLayout L" "{e \<in> elementLayout L. e < l}"]
  by (auto simp: logical_number(1) getNumIndexableElem_def)

lemma number_inj:
  assumes "finite (elementLayout L)" and "k \<in> elementLayout L" and "l \<in> elementLayout L"
    and "getLogicalOffset L k = getLogicalOffset L l"
  shows "k = l"
proof -
  have less: "card {e \<in> elementLayout L. e < a} < card {e \<in> elementLayout L. e < b}" if "a < b" "a \<in> elementLayout L" for a b
    using assms(1) that by (intro psubset_card_mono) auto
  have "card {e \<in> elementLayout L. e < k} = card {e \<in> elementLayout L. e < l}"
    using assms by (simp add: logical_number(1))
  then show ?thesis using less [OF _ assms(2), of l] less [OF _ assms(3), of k] by (metis less_irrefl linorder_neqE_nat)
qed

end
