(* ===== verification/TypeUtil.thy ===== *)
theory TypeUtil
  imports LayoutFacts
begin

text \<open>
  Questions about types that the memory model asks (src/PointerAnalysis/Util/Util.cpp and Util.h,
  and the recognisers of special types in
  src/PointerAnalysis/Models/MemoryModel/CppMemModel/SpecialObject): when two types count as equal, which
  type sits at an offset, structures with a flexible array at their end, \<open>std::vector\<close> and vtable
  pointers. \<open>C\<close> is the context's \<open>i8\<close>, a fixed constructor here.
\<close>

section \<open>Arrays\<close>

fun stripArray :: "ll_type \<Rightarrow> ll_type" where
  "stripArray (ArrayTy n E) = stripArray E"
| "stripArray T = T"

definition isStructWithFlexibleArray :: "ll_type \<Rightarrow> ll_type option" where
  "isStructWithFlexibleArray T =
     (case T of
        StructTy s ts \<Rightarrow>
          if ts = [] then None
          else (case last ts of ArrayTy n E \<Rightarrow> if n = 0 then Some E else None | _ \<Rightarrow> None)
      | _ \<Rightarrow> None)"

definition UINT32_MAX :: nat where
  "UINT32_MAX = 2 ^ 32 - 1"

text \<open>
  The unbounded array of an element type. A structure with a flexible array at its end becomes a
  literal structure, which has no name, with that array unbounded in turn; a packed literal
  structure is not told apart from others.
\<close>

lemma flexible_smaller:
  "isStructWithFlexibleArray (StructTy s ts) = Some E \<Longrightarrow> size E < size (StructTy s ts)"
proof -
  assume "isStructWithFlexibleArray (StructTy s ts) = Some E"
  then obtain n where "ts \<noteq> []" "last ts = ArrayTy n E"
    by (auto simp: isStructWithFlexibleArray_def split: if_splits ll_type.splits)
  then have "ArrayTy n E \<in> set ts" using last_in_set by metis
  then have "size (ArrayTy n E) < Suc (size_list size ts)" by (simp add: less_Suc_eq_le size_list_estimation')
  then show ?thesis by simp
qed

function getUnboundedArrayTy :: "ll_type \<Rightarrow> ll_type" where
  "getUnboundedArrayTy (StructTy s ts) =
     (case isStructWithFlexibleArray (StructTy s ts) of
        Some lastElemTy \<Rightarrow> StructTy [] (butlast ts @ [getUnboundedArrayTy lastElemTy])
      | None \<Rightarrow> ArrayTy UINT32_MAX (StructTy s ts))"
| "getUnboundedArrayTy (ArrayTy n E) = ArrayTy UINT32_MAX (ArrayTy n E)"
| "getUnboundedArrayTy (PointerTy s) = ArrayTy UINT32_MAX (PointerTy s)"
| "getUnboundedArrayTy (VectorTy n) = ArrayTy UINT32_MAX (VectorTy n)"
| "getUnboundedArrayTy (IntTy n) = ArrayTy UINT32_MAX (IntTy n)"
| "getUnboundedArrayTy (FloatTy n) = ArrayTy UINT32_MAX (FloatTy n)"
| "getUnboundedArrayTy (OpaqueTy s) = ArrayTy UINT32_MAX (OpaqueTy s)"
  by pat_completeness auto

termination
  by (relation "measure size") (auto dest: flexible_smaller)

definition getConvertedFlexibleArrayType :: "ll_type \<Rightarrow> ll_type \<Rightarrow> ll_type result" where
  "getConvertedFlexibleArrayType T flexibleArrayElem =
     rassert (isStructWithFlexibleArray T \<noteq> None) AssertFailed
     (case T of
        StructTy s ts \<Rightarrow> Inr (StructTy [] (butlast ts @ [getUnboundedArrayTy flexibleArrayElem]))
      | _ \<Rightarrow> Inl AssertFailed)"

section \<open>Names\<close>

text \<open>\<open>StringRef::rsplit('.')\<close>: the part before and after the last dot; the whole name without one.\<close>

definition rsplitDot :: "string \<Rightarrow> string \<times> string" where
  "rsplitDot s =
     (if CHR ''.'' \<in> set s
      then (rev (tl (dropWhile (\<lambda>c. c \<noteq> CHR ''.'') (rev s))), rev (takeWhile (\<lambda>c. c \<noteq> CHR ''.'') (rev s)))
      else (s, []))"

definition isDigit :: "char \<Rightarrow> bool" where
  "isDigit c \<longleftrightarrow> of_char CHR ''0'' \<le> (of_char c :: nat) \<and> (of_char c :: nat) \<le> of_char CHR ''9''"

definition digitsValue :: "string \<Rightarrow> nat" where
  "digitsValue s = foldl (\<lambda>n c. 10 * n + (of_char c - of_char CHR ''0'')) 0 s"

text \<open>\<open>getAsInteger(10, int)\<close> succeeds: decimal digits, perhaps after a minus sign, in range.\<close>

definition isDecimalInt :: "string \<Rightarrow> bool" where
  "isDecimalInt s =
     (case s of
        [] \<Rightarrow> False
      | c # cs \<Rightarrow>
          if c = CHR ''-'' then cs \<noteq> [] \<and> list_all isDigit cs \<and> digitsValue cs \<le> 2 ^ 31
          else list_all isDigit s \<and> digitsValue s < 2 ^ 31)"

definition stripNumberPostFix :: "string \<Rightarrow> string" where
  "stripNumberPostFix originalName =
     (case rsplitDot originalName of (front, back) \<Rightarrow>
        if back \<noteq> [] \<and> isDecimalInt back then front else originalName)"

section \<open>Equality of types\<close>

definition i8 :: ll_type where
  "i8 = IntTy 8"

definition isPtrToEmptyStruct :: "data_layout \<Rightarrow> ll_type \<Rightarrow> bool" where
  "isPtrToEmptyStruct DL T =
     (case T of PointerTy s \<Rightarrow>
        (case getPointerElementType DL s of Some (StructTy n []) \<Rightarrow> True | Some (OpaqueTy n) \<Rightarrow> True | _ \<Rightarrow> False)
      | _ \<Rightarrow> False)"

definition isVoidPtr :: "data_layout \<Rightarrow> ll_type \<Rightarrow> bool" where
  "isVoidPtr DL T \<longleftrightarrow> (case T of PointerTy s \<Rightarrow> getPointerElementType DL s = Some i8 | _ \<Rightarrow> False) \<or> isPtrToEmptyStruct DL T"

definition isBytes :: "ll_type \<Rightarrow> bool" where
  "isBytes T \<longleftrightarrow> (case T of ArrayTy n E \<Rightarrow> E = i8 | _ \<Rightarrow> False)"

definition sameSize :: "data_layout \<Rightarrow> ll_type \<Rightarrow> ll_type \<Rightarrow> bool" where
  "sameSize DL T1 T2 \<longleftrightarrow> getTypeAllocSize DL T1 = getTypeAllocSize DL T2"

text \<open>Function types are not sized, so they are no element of an object and do not come here.\<close>

fun isTypeEqual :: "data_layout \<Rightarrow> ll_type \<Rightarrow> ll_type \<Rightarrow> bool"
and fieldsEqual :: "data_layout \<Rightarrow> ll_type list \<Rightarrow> ll_type list \<Rightarrow> bool" where
  "isTypeEqual DL (StructTy s1 ts1) (StructTy s2 ts2) \<longleftrightarrow> StructTy s1 ts1 = StructTy s2 ts2 \<or>
     (if s1 \<noteq> [] \<and> s2 \<noteq> [] then
        stripNumberPostFix s1 = stripNumberPostFix s2 \<and> stripNumberPostFix s1 \<noteq> ''struct.anon'' \<and>
        length ts1 = length ts2 \<and> sameSize DL (StructTy s1 ts1) (StructTy s2 ts2)
      else fieldsEqual DL ts1 ts2)"
| "isTypeEqual DL T1 T2 \<longleftrightarrow> T1 = T2 \<or>
     isPointerType T1 \<and> isPointerType T2 \<and> (isVoidPtr DL T1 \<or> isVoidPtr DL T2) \<or>
     (isBytes T1 \<or> isBytes T2) \<and> sameSize DL T1 T2"
| "fieldsEqual DL [] [] \<longleftrightarrow> True"
| "fieldsEqual DL (t1 # ts1) (t2 # ts2) \<longleftrightarrow> isTypeEqual DL t1 t2 \<and> fieldsEqual DL ts1 ts2"
| "fieldsEqual DL _ _ \<longleftrightarrow> False"

text \<open>Whether a type is the first thing in another one, or counts as it.\<close>

fun firstInside :: "data_layout \<Rightarrow> ll_type \<Rightarrow> ll_type \<Rightarrow> bool" where
  "firstInside DL (StructTy s (t # ts)) elemType \<longleftrightarrow> isTypeEqual DL t elemType \<or> firstInside DL t elemType"
| "firstInside DL (StructTy s []) elemType \<longleftrightarrow> False"
| "firstInside DL (OpaqueTy s) elemType \<longleftrightarrow> False"
| "firstInside DL (ArrayTy n E) elemType \<longleftrightarrow> isTypeEqual DL E elemType \<or> firstInside DL E elemType"
| "firstInside DL T elemType \<longleftrightarrow> isTypeEqual DL T elemType"

lemma size_stripArray: "stripArray T \<noteq> T \<Longrightarrow> size (stripArray T) < size T"
proof -
  have "size (stripArray T) \<le> size T" by (induction T rule: stripArray.induct) auto
  moreover have "size (stripArray E) < size (ArrayTy n E)" for n E
  proof -
    have "size (stripArray E) \<le> size E" by (induction E rule: stripArray.induct) auto
    then show ?thesis by simp
  qed
  ultimately show "stripArray T \<noteq> T \<Longrightarrow> size (stripArray T) < size T" by (cases T) auto
qed

function zeroOffsetTypeIn :: "data_layout \<Rightarrow> ll_type \<Rightarrow> ll_type \<Rightarrow> bool" where
  "zeroOffsetTypeIn DL rootType elemType =
     (if isTypeEqual DL rootType elemType then True
      else if (case isStructWithFlexibleArray elemType of
                 Some E \<Rightarrow> getConvertedFlexibleArrayType elemType E = Inr rootType | None \<Rightarrow> False) then True
      else if (if stripArray rootType \<noteq> rootType then zeroOffsetTypeIn DL (stripArray rootType) elemType else False) then True
      else if stripArray elemType \<noteq> elemType \<and> stripArray rootType \<noteq> rootType then
        isTypeEqual DL (stripArray rootType) (stripArray elemType)
      else firstInside DL rootType elemType)"
  by pat_completeness auto

termination
  by (relation "measure (\<lambda>(DL, T, E). size T)") (auto dest: size_stripArray)

declare zeroOffsetTypeIn.simps [simp del]

definition isZeroOffsetTypeInRootType :: "data_layout \<Rightarrow> ll_type option \<Rightarrow> ll_type option \<Rightarrow> bool" where
  "isZeroOffsetTypeInRootType DL rootType elemType =
     (case (rootType, elemType) of (Some R, Some E) \<Rightarrow> zeroOffsetTypeIn DL R E | _ \<Rightarrow> True)"

section \<open>The type at an offset\<close>

fun getTypeAtOffset :: "data_layout \<Rightarrow> bool \<Rightarrow> ll_type \<Rightarrow> nat \<Rightarrow> ll_type option"
and typeInFields :: "data_layout \<Rightarrow> bool \<Rightarrow> ll_type \<Rightarrow> nat \<Rightarrow> ll_type list \<Rightarrow> nat \<Rightarrow> ll_type option" where
  "getTypeAtOffset DL strip (StructTy s ts) offset =
     (if offset = 0 then Some (StructTy s ts) else typeInFields DL strip (StructTy s ts) 0 ts offset)"
| "getTypeAtOffset DL strip (ArrayTy n E) offset =
     (if offset = 0 then Some (if strip then stripArray E else ArrayTy n E)
      else getTypeAtOffset DL strip E (offset mod getTypeAllocSize DL E))"
| "getTypeAtOffset DL strip T offset = (if offset = 0 then Some T else None)"
| "typeInFields DL strip S i [] offset = None"
| "typeInFields DL strip S i (t # ts) offset =
     (let elemOff = getElementOffset DL S i in
      if getTypeAllocSize DL t = 0 \<and> offset = elemOff then Some t
      else if elemOff \<le> offset \<and> offset < elemOff + getTypeAllocSize DL t then
        getTypeAtOffset DL strip t (offset - elemOff)
      else typeInFields DL strip S (i + 1) ts offset)"

section \<open>Special types\<close>

definition isSupportedElementType :: "ll_type \<Rightarrow> bool" where
  "isSupportedElementType T =
     (case T of FloatTy k \<Rightarrow> True | IntTy k \<Rightarrow> True | PointerTy s \<Rightarrow> True | _ \<Rightarrow> False)"

text \<open>Down through structures of one element, then the type the second element points to.\<close>

fun vecImplData :: "ll_type \<Rightarrow> ll_type list result" where
  "vecImplData (StructTy s [t]) = vecImplData t"
| "vecImplData (StructTy s ts) = Inr ts"
| "vecImplData T = Inl AssertFailed"

definition resolveVecElemType :: "data_layout \<Rightarrow> ll_type \<Rightarrow> ll_type option result" where
  "resolveVecElemType DL T =
     (case T of
        StructTy s ts \<Rightarrow>
          if s \<noteq> [] \<and> take 17 s = ''class.std::vector'' then
            rbind (vecImplData T) (\<lambda>ts.
              rassert (1 < length ts) AssertFailed
              (case ts ! 1 of PointerTy p \<Rightarrow> Inr (getPointerElementType DL p) | _ \<Rightarrow> Inr None))
          else Inr None
      | _ \<Rightarrow> Inr None)"

text \<open>\<open>vptr\<close> is the name of the type \<open>i32 (...)**\<close>, which is a vtable pointer in vtable mode.\<close>

definition isVTablePtrType :: "string \<Rightarrow> ll_type \<Rightarrow> bool" where
  "isVTablePtrType vptr T \<longleftrightarrow> T = PointerTy vptr"

definition isSpecialTypeImpl :: "data_layout \<Rightarrow> bool \<Rightarrow> string \<Rightarrow> ll_type \<Rightarrow> bool result" where
  "isSpecialTypeImpl DL vtableMode vptr T =
     rbind (resolveVecElemType DL T) (\<lambda>vectorElemT.
       let isVector = (case vectorElemT of Some E \<Rightarrow> isSupportedElementType E | None \<Rightarrow> False) in
       Inr (vtableMode \<and> isVTablePtrType vptr T \<or> isVector))"

section \<open>Properties\<close>

text \<open>Comparing types is reflexive and symmetric. It is not transitive: \<open>i8*\<close> equals every pointer.\<close>

lemma isTypeEqual_refl: "isTypeEqual DL T T"
  by (cases T) simp_all

lemma isTypeEqual_sym:
  "isTypeEqual DL T1 T2 \<longleftrightarrow> isTypeEqual DL T2 T1"
  "fieldsEqual DL ts1 ts2 \<longleftrightarrow> fieldsEqual DL ts2 ts1"
proof (induction DL T1 T2 and DL ts1 ts2 rule: isTypeEqual_fieldsEqual.induct)
  case (1 DL s1 ts1 s2 ts2)
  then show ?case by (auto simp: sameSize_def)
qed (auto simp: sameSize_def)

lemma zeroOffset_refl: "zeroOffsetTypeIn DL T T"
  by (simp add: zeroOffsetTypeIn.simps isTypeEqual_refl)

text \<open>The first scalar of the type at an offset is the scalar at that offset.\<close>

lemma scalarAt_canon:
  "wf_type DL sp T \<Longrightarrow> p < getTypeAllocSize DL T \<Longrightarrow> scalarAt DL sp T (canon DL sp T p) = scalarAt DL sp T p"
  "wf_fields DL sp S i from ts \<Longrightarrow> from \<le> p \<Longrightarrow> p < getTypeAllocSize DL S \<Longrightarrow>
     scalarIn DL sp S i ts (canonIn DL sp S i ts p) = scalarIn DL sp S i ts p"
proof (induction DL sp T p and DL sp S i ts p arbitrary: and "from" rule: canon_canonIn.induct)
  case (2 DL sp n E p)
  show ?case
  proof (cases "sp (ArrayTy n E)")
    case False
    from 2(2) False have wf: "wf_type DL sp E" "getTypeAllocSize DL (ArrayTy n E) = n * getTypeAllocSize DL E" by auto
    have q: "p mod getTypeAllocSize DL E < getTypeAllocSize DL E" using wf(2) 2(3) mod_size(1) by metis
    from logOffset_less(1) [OF wf(1) q] 2(1) [OF False wf(1) q] False show ?thesis by simp
  qed simp
next
  case (5 DL sp S i t ts p)
  let ?k = "getElementOffset DL S i" and ?n = "getTypeAllocSize DL t"
  from 5(3) have wf: "from \<le> ?k" "wf_type DL sp t" "wf_fields DL sp S (i + 1) (?k + ?n) ts" by simp_all
  consider "p < ?k" | "?k \<le> p" "p < ?k + ?n" | "?k + ?n \<le> p" by linarith
  then show ?case
  proof cases
    case 1
    then show ?thesis by (simp add: Let_def)
  next
    case 2
    then have "\<not> p < ?k" "p - ?k < ?n" by linarith+
    with 5(1) [OF refl this(1) 2(2) wf(2)] logOffset_less(1) [OF wf(2)] 2 show ?thesis by (simp add: Let_def)
  next
    case 3
    then have neg: "\<not> p < ?k" "\<not> p < ?k + ?n" by linarith+
    have "?k + ?n \<le> canonIn DL sp S (i + 1) ts p" using logOffset_less(2) [OF wf(3) 3 5(5), of 0] by simp
    then show ?thesis using 5(2) [OF refl neg wf(3) 3 5(5)] neg by (simp add: Let_def)
  qed
qed auto

lemma getTypeAtOffset_zero: "getTypeAtOffset DL False T 0 = Some T"
  by (cases T) simp_all

lemma typeAt_scalar:
  "wf_type DL sp T \<Longrightarrow> p < getTypeAllocSize DL T \<Longrightarrow> no_empty DL sp T \<Longrightarrow> scalarAt DL sp T p = Some t \<Longrightarrow>
     \<exists>R. getTypeAtOffset DL False T p = Some R \<and> scalarAt DL sp R 0 = Some t"
  "wf_fields DL sp S i from ts \<Longrightarrow> from \<le> p \<Longrightarrow> p < getTypeAllocSize DL S \<Longrightarrow> \<forall>t \<in> set ts. no_empty DL sp t \<Longrightarrow>
     scalarIn DL sp S i ts p = Some t \<Longrightarrow> \<exists>R. typeInFields DL False S i ts p = Some R \<and> scalarAt DL sp R 0 = Some t"
proof (induction DL sp T p and DL sp S i ts p arbitrary: and "from" rule: scalarAt_scalarIn.induct)
  case (1 DL sp s ts p)
  then show ?case by (cases "p = 0"; cases "sp (StructTy s ts)") auto
next
  case (2 DL sp n E p)
  show ?case
  proof (cases "p = 0 \<or> sp (ArrayTy n E)")
    case True
    then show ?thesis using 2(5) by (auto split: if_splits)
  next
    case False
    from 2(2) False have wf: "wf_type DL sp E" "getTypeAllocSize DL (ArrayTy n E) = n * getTypeAllocSize DL E" by auto
    have q: "p mod getTypeAllocSize DL E < getTypeAllocSize DL E" using wf(2) 2(3) mod_size(1) by metis
    from False 2(4,5) 2(1) [OF _ wf(1) q] show ?thesis by simp
  qed
next
  case (5 DL sp S i t' ts p)
  let ?k = "getElementOffset DL S i" and ?n = "getTypeAllocSize DL t'"
  from 5(3) have wf: "from \<le> ?k" "wf_type DL sp t'" "wf_fields DL sp S (i + 1) (?k + ?n) ts" by simp_all
  have pos: "0 < ?n" using 5(6) by (cases t') auto
  consider "p < ?k" | "?k \<le> p" "p < ?k + ?n" | "?k + ?n \<le> p" by linarith
  then show ?case
  proof cases
    case 1
    then show ?thesis using 5(7) by (simp add: Let_def)
  next
    case 2
    then have "\<not> p < ?k" "p - ?k < ?n" by linarith+
    with 5(1) [OF refl this(1) 2(2) wf(2) this(2)] 5(6,7) 2 pos show ?thesis by (simp add: Let_def)
  next
    case 3
    then have neg: "\<not> p < ?k" "\<not> p < ?k + ?n" by linarith+
    then show ?thesis using 5(2) [OF refl neg wf(3) 3 5(5)] 5(6,7) pos by (simp add: Let_def)
  qed
qed (auto split: if_splits)

end
