(* ===== verification/PointsTo.thy ===== *)
theory PointsTo
  imports Prelude
begin

text \<open>
  Points-to sets (src/PointerAnalysis/Solver/PointsTo): the interface \<open>PTSTrait\<close> and its
  two implementations, \<open>BitVectorPTS\<close> (which the race detector uses) and
  \<open>PointedByPts\<close>, which also keeps the converse relation.

  A \<open>llvm::SparseBitVector\<close> is the strictly ascending list of its set bits. Identifiers
  are 32-bit; they number the nodes of a graph held in memory and only grow by one, so they are
  natural numbers here.
\<close>

section \<open>Sparse bit vectors\<close>

definition bvOr :: "nat list \<Rightarrow> nat list \<Rightarrow> nat list" where
  "bvOr a b = fold sorted_insert b a"

definition bvAnd :: "nat list \<Rightarrow> nat list \<Rightarrow> nat list" where
  "bvAnd a b = filter (\<lambda>i. i \<in> set b) a"

definition bvDiff :: "nat list \<Rightarrow> nat list \<Rightarrow> nat list" where
  "bvDiff a b = filter (\<lambda>i. i \<notin> set b) a"

definition bvReset :: "nat \<Rightarrow> nat list \<Rightarrow> nat list" where
  "bvReset i a = filter (\<lambda>j. j \<noteq> i) a"

definition bvContains :: "nat list \<Rightarrow> nat list \<Rightarrow> bool" where
  "bvContains a b \<longleftrightarrow> list_all (\<lambda>i. i \<in> set a) b"

definition bv :: "nat list \<Rightarrow> bool" where
  "bv a \<longleftrightarrow> sorted_wrt (<) a"

lemma set_bvOr [simp]: "set (bvOr a b) = set a \<union> set b"
  unfolding bvOr_def by (induction b arbitrary: a) auto

lemma set_bvAnd [simp]: "set (bvAnd a b) = set a \<inter> set b"
  by (auto simp: bvAnd_def)

lemma set_bvDiff [simp]: "set (bvDiff a b) = set a - set b"
  by (auto simp: bvDiff_def)

lemma set_bvReset [simp]: "set (bvReset i a) = set a - {i}"
  by (auto simp: bvReset_def)

lemma bvContains_iff [simp]: "bvContains a b \<longleftrightarrow> set b \<subseteq> set a"
  by (auto simp: bvContains_def list_all_iff)

lemma bvAnd_empty_iff [simp]: "bvAnd a b = [] \<longleftrightarrow> set a \<inter> set b = {}"
  by (auto simp: bvAnd_def filter_empty_conv)

lemma bv_Nil [simp]: "bv []"
  by (simp add: bv_def)

lemma bv_insert [intro]: "bv a \<Longrightarrow> bv (sorted_insert i a)"
  by (auto simp: bv_def)

lemma bv_or [intro]: "bv a \<Longrightarrow> bv (bvOr a b)"
  unfolding bvOr_def by (induction b arbitrary: a) auto

lemma bv_filter [intro]: "bv a \<Longrightarrow> bv (filter Q a)"
  by (simp add: bv_def sorted_wrt_filter)

lemma bv_reset [intro]: "bv a \<Longrightarrow> bv (bvReset i a)"
  by (auto simp: bvReset_def)

lemma bv_diff [intro]: "bv a \<Longrightarrow> bv (bvDiff a b)"
  by (auto simp: bvDiff_def)

text \<open>Two bit vectors are equal as objects exactly when they have the same bits.\<close>

lemma bv_eq_iff: "bv a \<Longrightarrow> bv b \<Longrightarrow> a = b \<longleftrightarrow> set a = set b"
  using strict_sorted_equal [of a b] by (auto simp: bv_def)

section \<open>\<open>BitVectorPTS\<close>\<close>

type_synonym pts_vec = "nat list list"

definition inPts :: "nat \<Rightarrow> pts_vec \<Rightarrow> 'a result \<Rightarrow> 'a result" where
  "inPts n ptsVec m = rassert (n < length ptsVec) AssertFailed m"

definition ptsOnNewNode :: "nat \<Rightarrow> pts_vec \<Rightarrow> pts_vec result" where
  "ptsOnNewNode n ptsVec = rassert (n = length ptsVec) AssertFailed (Inr (ptsVec @ [[]]))"

definition ptsGet :: "nat \<Rightarrow> pts_vec \<Rightarrow> nat list result" where
  "ptsGet n ptsVec = inPts n ptsVec (Inr (ptsVec ! n))"

text \<open>The union; its largest element must be below the number of nodes.\<close>

definition ptsUnionWith :: "nat \<Rightarrow> nat \<Rightarrow> pts_vec \<Rightarrow> (bool \<times> pts_vec) result" where
  "ptsUnionWith src dst ptsVec = inPts src ptsVec (inPts dst ptsVec (
     let u = bvOr (ptsVec ! src) (ptsVec ! dst)
     in rassert (u = [] \<or> last u < length ptsVec) AssertFailed
          (Inr (u \<noteq> ptsVec ! src, ptsVec[src := u]))))"

definition ptsIntersectWith :: "nat \<Rightarrow> nat \<Rightarrow> pts_vec \<Rightarrow> bool result" where
  "ptsIntersectWith src dst ptsVec = inPts src ptsVec (inPts dst ptsVec
     (Inr (bvAnd (ptsVec ! src) (ptsVec ! dst) \<noteq> [])))"

definition ptsIntersectNoSpecial :: "nat \<Rightarrow> nat \<Rightarrow> pts_vec \<Rightarrow> bool result" where
  "ptsIntersectNoSpecial src dst ptsVec = inPts src ptsVec (inPts dst ptsVec
     (Inr (fold bvReset [0..<2] (bvAnd (ptsVec ! src) (ptsVec ! dst)) \<noteq> [])))"

definition ptsInsert :: "nat \<Rightarrow> nat \<Rightarrow> pts_vec \<Rightarrow> (bool \<times> pts_vec) result" where
  "ptsInsert src idx ptsVec = inPts src ptsVec (inPts idx ptsVec
     (Inr (idx \<notin> set (ptsVec ! src), ptsVec[src := sorted_insert idx (ptsVec ! src)])))"

definition ptsHas :: "nat \<Rightarrow> nat \<Rightarrow> pts_vec \<Rightarrow> bool result" where
  "ptsHas src idx ptsVec = inPts src ptsVec (inPts idx ptsVec (Inr (idx \<in> set (ptsVec ! src))))"

definition ptsEqual :: "nat \<Rightarrow> nat \<Rightarrow> pts_vec \<Rightarrow> bool result" where
  "ptsEqual src dst ptsVec = inPts src ptsVec (inPts dst ptsVec (Inr (ptsVec ! src = ptsVec ! dst)))"

definition ptsContains :: "nat \<Rightarrow> nat \<Rightarrow> pts_vec \<Rightarrow> bool result" where
  "ptsContains src dst ptsVec = inPts src ptsVec (inPts dst ptsVec
     (Inr (bvContains (ptsVec ! src) (ptsVec ! dst))))"

definition ptsIsEmpty :: "nat \<Rightarrow> pts_vec \<Rightarrow> bool result" where
  "ptsIsEmpty n ptsVec = inPts n ptsVec (Inr (ptsVec ! n = []))"

text \<open>
  The loop from \<open>begin\<close> to \<open>end\<close>: \<open>begin\<close> also asserts that the first element, or
  the 0 that the end iterator of an empty vector holds, is below the number of nodes.
\<close>

definition ptsElems :: "nat \<Rightarrow> pts_vec \<Rightarrow> nat list result" where
  "ptsElems n ptsVec = inPts n ptsVec
     (rassert ((case ptsVec ! n of [] \<Rightarrow> 0 | i # _ \<Rightarrow> i) < length ptsVec) AssertFailed (Inr (ptsVec ! n)))"

definition ptsClear :: "nat \<Rightarrow> pts_vec \<Rightarrow> pts_vec result" where
  "ptsClear n ptsVec = inPts n ptsVec (Inr (ptsVec[n := []]))"

definition ptsCount :: "nat \<Rightarrow> pts_vec \<Rightarrow> nat result" where
  "ptsCount n ptsVec = inPts n ptsVec (Inr (length (ptsVec ! n)))"

section \<open>\<open>PointedByPts\<close>\<close>

record pb_pts =
  pbPointsTo :: "nat list list"
  pbPointedBy :: "nat list list"

definition inPb :: "nat \<Rightarrow> pb_pts \<Rightarrow> 'a result \<Rightarrow> 'a result" where
  "inPb n p m = rassert (n < length (pbPointsTo p)) AssertFailed m"

definition pbOnNewNode :: "nat \<Rightarrow> pb_pts \<Rightarrow> pb_pts result" where
  "pbOnNewNode n p = rassert (n = length (pbPointsTo p)) AssertFailed
     (rassert (length (pbPointsTo p) = length (pbPointedBy p)) AssertFailed
       (Inr \<lparr> pbPointsTo = pbPointsTo p @ [[]], pbPointedBy = pbPointedBy p @ [[]] \<rparr>))"

definition pbAddPointer :: "nat \<Rightarrow> nat \<Rightarrow> nat \<Rightarrow> nat list list \<Rightarrow> nat list list result" where
  "pbAddPointer src dst i pb =
     (if i < length pb
      then rassert (dst \<in> set (pb ! i)) AssertFailed (Inr (pb[i := sorted_insert src (pb ! i)]))
      else Inl OutOfRange)"

definition pbUnionWith :: "nat \<Rightarrow> nat \<Rightarrow> pb_pts \<Rightarrow> (bool \<times> pb_pts) result" where
  "pbUnionWith src dst p = inPb src p (inPb dst p (
     rbind (rfold (pbAddPointer src dst) (pbPointsTo p ! dst) (pbPointedBy p)) (\<lambda>pb.
       let u = bvOr (pbPointsTo p ! src) (pbPointsTo p ! dst)
       in Inr (u \<noteq> pbPointsTo p ! src, \<lparr> pbPointsTo = (pbPointsTo p)[src := u], pbPointedBy = pb \<rparr>))))"

definition pbIntersectWith :: "nat \<Rightarrow> nat \<Rightarrow> pb_pts \<Rightarrow> bool result" where
  "pbIntersectWith src dst p = inPb src p (inPb dst p
     (Inr (bvAnd (pbPointsTo p ! src) (pbPointsTo p ! dst) \<noteq> [])))"

definition pbIntersectNoSpecial :: "nat \<Rightarrow> nat \<Rightarrow> pb_pts \<Rightarrow> bool result" where
  "pbIntersectNoSpecial src dst p = inPb src p (inPb dst p
     (Inr (fold bvReset [0..<4] (bvAnd (pbPointsTo p ! src) (pbPointsTo p ! dst)) \<noteq> [])))"

definition pbInsert :: "nat \<Rightarrow> nat \<Rightarrow> pb_pts \<Rightarrow> (bool \<times> pb_pts) result" where
  "pbInsert src idx p = inPb src p (inPb idx p
     (if idx < length (pbPointedBy p) then
        Inr (idx \<notin> set (pbPointsTo p ! src),
          \<lparr> pbPointsTo = (pbPointsTo p)[src := sorted_insert idx (pbPointsTo p ! src)],
            pbPointedBy = (pbPointedBy p)[idx := sorted_insert src (pbPointedBy p ! idx)] \<rparr>)
      else Inl OutOfRange))"

definition pbHas :: "nat \<Rightarrow> nat \<Rightarrow> pb_pts \<Rightarrow> bool result" where
  "pbHas src idx p = inPb src p (inPb idx p (Inr (idx \<in> set (pbPointsTo p ! src))))"

definition pbEqual :: "nat \<Rightarrow> nat \<Rightarrow> pb_pts \<Rightarrow> bool result" where
  "pbEqual src dst p = inPb src p (inPb dst p (Inr (pbPointsTo p ! src = pbPointsTo p ! dst)))"

definition pbContains :: "nat \<Rightarrow> nat \<Rightarrow> pb_pts \<Rightarrow> bool result" where
  "pbContains src dst p = inPb src p (inPb dst p
     (Inr (bvContains (pbPointsTo p ! src) (pbPointsTo p ! dst))))"

definition pbIsEmpty :: "nat \<Rightarrow> pb_pts \<Rightarrow> bool result" where
  "pbIsEmpty n p = inPb n p (Inr (pbPointsTo p ! n = []))"

definition pbClear :: "nat \<Rightarrow> pb_pts \<Rightarrow> pb_pts result" where
  "pbClear n p = inPb n p (Inr (p\<lparr> pbPointsTo := (pbPointsTo p)[n := []] \<rparr>))"

definition pbGetPointedBy :: "nat \<Rightarrow> pb_pts \<Rightarrow> nat list result" where
  "pbGetPointedBy n p = inPb n p (if n < length (pbPointedBy p) then Inr (pbPointedBy p ! n) else Inl OutOfRange)"

definition pbElems :: "nat \<Rightarrow> pb_pts \<Rightarrow> nat list result" where
  "pbElems n p = inPb n p (Inr (pbPointsTo p ! n))"

definition pbCount :: "nat \<Rightarrow> pb_pts \<Rightarrow> nat result" where
  "pbCount n p = inPb n p (Inr (length (pbPointsTo p ! n)))"

section \<open>The interface\<close>

text \<open>The operations of \<open>PTSTrait\<close>; \<open>Elements\<close> is the loop from \<open>begin\<close> to \<open>end\<close>. Those without an answer give \<open>Done\<close>.\<close>

datatype pts_op =
    ClearAll | OnNewNode nat | UnionWith nat nat | Insert nat nat | Clear nat | GetPointsTo nat
  | Has nat nat | Contains nat nat | IntersectWith nat nat | IntersectWithNoSpecialNode nat nat | IsEmpty nat | Equal nat nat
  | Elements nat | Count nat | GetPointedBy nat

datatype pts_answer = Done | Flag bool | Members "nat list" | Number nat

definition bvStep :: "pts_op \<Rightarrow> pts_vec \<Rightarrow> (pts_answer \<times> pts_vec) result" where
  "bvStep opn p = (case opn of
     ClearAll \<Rightarrow> Inr (Done, [])
   | OnNewNode n \<Rightarrow> rbind (ptsOnNewNode n p) (\<lambda>p. Inr (Done, p))
   | UnionWith s d \<Rightarrow> rbind (ptsUnionWith s d p) (\<lambda>(b, p). Inr (Flag b, p))
   | Insert s i \<Rightarrow> rbind (ptsInsert s i p) (\<lambda>(b, p). Inr (Flag b, p))
   | Clear n \<Rightarrow> rbind (ptsClear n p) (\<lambda>p. Inr (Done, p))
   | GetPointsTo n \<Rightarrow> rbind (ptsGet n p) (\<lambda>xs. Inr (Members xs, p))
   | Has s i \<Rightarrow> rbind (ptsHas s i p) (\<lambda>b. Inr (Flag b, p))
   | Contains s d \<Rightarrow> rbind (ptsContains s d p) (\<lambda>b. Inr (Flag b, p))
   | IntersectWith s d \<Rightarrow> rbind (ptsIntersectWith s d p) (\<lambda>b. Inr (Flag b, p))
   | IntersectWithNoSpecialNode s d \<Rightarrow> rbind (ptsIntersectNoSpecial s d p) (\<lambda>b. Inr (Flag b, p))
   | IsEmpty n \<Rightarrow> rbind (ptsIsEmpty n p) (\<lambda>b. Inr (Flag b, p))
   | Equal s d \<Rightarrow> rbind (ptsEqual s d p) (\<lambda>b. Inr (Flag b, p))
   | Elements n \<Rightarrow> rbind (ptsElems n p) (\<lambda>xs. Inr (Members xs, p))
   | Count n \<Rightarrow> rbind (ptsCount n p) (\<lambda>k. Inr (Number k, p))
   | GetPointedBy n \<Rightarrow> Inl Unreachable)"

definition pbStep :: "pts_op \<Rightarrow> pb_pts \<Rightarrow> (pts_answer \<times> pb_pts) result" where
  "pbStep opn p = (case opn of
     ClearAll \<Rightarrow> Inr (Done, \<lparr> pbPointsTo = [], pbPointedBy = [] \<rparr>)
   | OnNewNode n \<Rightarrow> rbind (pbOnNewNode n p) (\<lambda>p. Inr (Done, p))
   | UnionWith s d \<Rightarrow> rbind (pbUnionWith s d p) (\<lambda>(b, p). Inr (Flag b, p))
   | Insert s i \<Rightarrow> rbind (pbInsert s i p) (\<lambda>(b, p). Inr (Flag b, p))
   | Clear n \<Rightarrow> rbind (pbClear n p) (\<lambda>p. Inr (Done, p))
   | GetPointsTo n \<Rightarrow> rbind (pbElems n p) (\<lambda>xs. Inr (Members xs, p))
   | Has s i \<Rightarrow> rbind (pbHas s i p) (\<lambda>b. Inr (Flag b, p))
   | Contains s d \<Rightarrow> rbind (pbContains s d p) (\<lambda>b. Inr (Flag b, p))
   | IntersectWith s d \<Rightarrow> rbind (pbIntersectWith s d p) (\<lambda>b. Inr (Flag b, p))
   | IntersectWithNoSpecialNode s d \<Rightarrow> rbind (pbIntersectNoSpecial s d p) (\<lambda>b. Inr (Flag b, p))
   | IsEmpty n \<Rightarrow> rbind (pbIsEmpty n p) (\<lambda>b. Inr (Flag b, p))
   | Equal s d \<Rightarrow> rbind (pbEqual s d p) (\<lambda>b. Inr (Flag b, p))
   | Elements n \<Rightarrow> rbind (pbElems n p) (\<lambda>xs. Inr (Members xs, p))
   | Count n \<Rightarrow> rbind (pbCount n p) (\<lambda>k. Inr (Number k, p))
   | GetPointedBy n \<Rightarrow> rbind (pbGetPointedBy n p) (\<lambda>xs. Inr (Members xs, p)))"

text \<open>
  What they mean: a set of objects for every node, and for every object the nodes that ever got it, which clearing a node does
  not take back. \<open>special\<close> is the number of objects the test without special objects leaves out, \<open>support\<close> whether pointers
  of an object can be asked for.
\<close>

record pts_sets =
  objectsOf :: "nat set list"
  pointersOf :: "nat set list"

definition setStep :: "nat \<Rightarrow> bool \<Rightarrow> pts_op \<Rightarrow> pts_sets \<Rightarrow> (pts_answer \<times> pts_sets) result" where
  "setStep special support opn a =
     (let p = objectsOf a; q = pointersOf a; node = (\<lambda>n. rassert (n < length p) AssertFailed);
          nodes = (\<lambda>s d. rassert (s < length p \<and> d < length p) AssertFailed) in
      case opn of
        ClearAll \<Rightarrow> Inr (Done, \<lparr> objectsOf = [], pointersOf = [] \<rparr>)
      | OnNewNode n \<Rightarrow> rassert (n = length p) AssertFailed (Inr (Done, \<lparr> objectsOf = p @ [{}], pointersOf = q @ [{}] \<rparr>))
      | UnionWith s d \<Rightarrow> nodes s d (Inr (Flag (\<not> p ! d \<subseteq> p ! s), \<lparr> objectsOf = p[s := p ! s \<union> p ! d],
          pointersOf = map (\<lambda>i. q ! i \<union> (if i \<in> p ! d then {s} else {})) [0..<length q] \<rparr>))
      | Insert s i \<Rightarrow> nodes s i (Inr (Flag (i \<notin> p ! s), \<lparr> objectsOf = p[s := insert i (p ! s)], pointersOf = q[i := insert s (q ! i)] \<rparr>))
      | Clear n \<Rightarrow> node n (Inr (Done, a\<lparr> objectsOf := p[n := {}] \<rparr>))
      | GetPointsTo n \<Rightarrow> node n (Inr (Members (sorted_list_of_set (p ! n)), a))
      | Has s i \<Rightarrow> nodes s i (Inr (Flag (i \<in> p ! s), a))
      | Contains s d \<Rightarrow> nodes s d (Inr (Flag (p ! d \<subseteq> p ! s), a))
      | IntersectWith s d \<Rightarrow> nodes s d (Inr (Flag (p ! s \<inter> p ! d \<noteq> {}), a))
      | IntersectWithNoSpecialNode s d \<Rightarrow> nodes s d (Inr (Flag (p ! s \<inter> p ! d - {..<special} \<noteq> {}), a))
      | IsEmpty n \<Rightarrow> node n (Inr (Flag (p ! n = {}), a))
      | Equal s d \<Rightarrow> nodes s d (Inr (Flag (p ! s = p ! d), a))
      | Elements n \<Rightarrow> node n (Inr (Members (sorted_list_of_set (p ! n)), a))
      | Count n \<Rightarrow> node n (Inr (Number (card (p ! n)), a))
      | GetPointedBy n \<Rightarrow> if support then node n (Inr (Members (sorted_list_of_set (q ! n)), a)) else Inl Unreachable)"

fun runOps :: "(pts_op \<Rightarrow> 's \<Rightarrow> (pts_answer \<times> 's) result) \<Rightarrow> pts_op list \<Rightarrow> 's \<Rightarrow> pts_answer list result" where
  "runOps step [] s = Inr []"
| "runOps step (opn # ops) s =
     rbind (step opn s) (\<lambda>(b, s). rbind (runOps step ops s) (\<lambda>bs. Inr (b # bs)))"

text \<open>An implementation keeps sets, answers like them and fails like them.\<close>

locale pts_trait =
  fixes step :: "pts_op \<Rightarrow> 's \<Rightarrow> (pts_answer \<times> 's) result" and special :: nat and support :: bool
    and rel :: "'s \<Rightarrow> pts_sets \<Rightarrow> bool"
  assumes step_fails: "rel s a \<Longrightarrow> setStep special support opn a = Inl e \<Longrightarrow> step opn s = Inl e"
    and step_returns: "rel s a \<Longrightarrow> setStep special support opn a = Inr (b, a') \<Longrightarrow> \<exists>s'. step opn s = Inr (b, s') \<and> rel s' a'"
begin

lemma run_sets: "rel s a \<Longrightarrow> runOps step ops s = runOps (setStep special support) ops a"
proof (induction ops arbitrary: s a)
  case (Cons opn ops)
  show ?case
  proof (cases "setStep special support opn a")
    case (Inl e)
    with step_fails [OF Cons.prems] show ?thesis by simp
  next
    case (Inr r)
    obtain b a' where r: "r = (b, a')" by fastforce
    with step_returns [OF Cons.prems, of opn b a'] Inr obtain s' where "step opn s = Inr (b, s')" "rel s' a'" by auto
    with Cons.IH [of s' a'] Inr r show ?thesis by simp
  qed
qed simp

end

section \<open>Both implementations are lists of sets\<close>

definition bv_ok :: "nat list list \<Rightarrow> bool" where
  "bv_ok p \<longleftrightarrow> (\<forall>v \<in> set p. bv v \<and> set v \<subseteq> {..<length p})"

lemma bv_okD: "bv_ok p \<Longrightarrow> n < length p \<Longrightarrow> bv (p ! n) \<and> set (p ! n) \<subseteq> {..<length p}"
  by (simp add: bv_ok_def)

lemma bv_ok_update:
  "bv_ok p \<Longrightarrow> bv v \<Longrightarrow> set v \<subseteq> {..<length p} \<Longrightarrow> bv_ok (p[n := v])"
  unfolding bv_ok_def using set_update_subset_insert [of p n v] by fastforce

lemma bv_ok_new: "bv_ok p \<Longrightarrow> bv_ok (p @ [[]])"
  by (fastforce simp: bv_ok_def)

lemma last_bvOr:
  "bv_ok p \<Longrightarrow> s < length p \<Longrightarrow> d < length p \<Longrightarrow> bvOr (p ! s) (p ! d) = [] \<or> last (bvOr (p ! s) (p ! d)) < length p"
  using last_in_set [of "bvOr (p ! s) (p ! d)"] bv_okD [of p s] bv_okD [of p d] by auto

lemma bvOr_same_iff: "bv a \<Longrightarrow> bvOr a b = a \<longleftrightarrow> set b \<subseteq> set a"
  using bv_eq_iff [of "bvOr a b" a] by auto

named_theorems pts_ops "the operations on points-to sets, unfolded"

lemmas bv_defs [pts_ops] = inPts_def ptsOnNewNode_def ptsUnionWith_def ptsInsert_def ptsClear_def ptsHas_def
  ptsContains_def ptsIntersectWith_def ptsIntersectNoSpecial_def ptsIsEmpty_def ptsEqual_def ptsGet_def ptsElems_def ptsCount_def

lemmas pb_defs [pts_ops] = inPb_def pbOnNewNode_def pbUnionWith_def pbInsert_def pbClear_def pbHas_def
  pbContains_def pbIntersectWith_def pbIntersectNoSpecial_def pbIsEmpty_def pbEqual_def pbElems_def pbCount_def pbGetPointedBy_def

lemma empty_iff_set: "v = [] \<longleftrightarrow> set v = {}"
  by simp

lemma bv_list: "bv v \<Longrightarrow> sorted_list_of_set (set v) = v"
  by (simp add: bv_def sorted_list_of_set.idem_if_sorted_distinct strict_sorted_iff)

lemma bv_card: "bv v \<Longrightarrow> card (set v) = length v"
  by (simp add: bv_def strict_sorted_iff distinct_card)

lemma fold_reset: "set (fold bvReset [0..<k] v) = set v - {..<k}"
proof -
  have "set (fold bvReset xs v) = set v - set xs" for xs by (induction xs arbitrary: v) auto
  then show ?thesis by (simp add: lessThan_atLeast0)
qed

lemma fold_reset_nonempty: "fold bvReset [0..<k] v \<noteq> [] \<longleftrightarrow> set v - {..<k} \<noteq> {}"
  unfolding fold_reset [symmetric] by simp

lemma first_less: "bv_ok p \<Longrightarrow> n < length p \<Longrightarrow> (case p ! n of [] \<Rightarrow> 0 | i # _ \<Rightarrow> i) < length p"
  using bv_okD [of p n] by (cases "p ! n") auto

text \<open>A list of bit vectors stands for any state with its sets.\<close>

definition bv_rel :: "pts_vec \<Rightarrow> pts_sets \<Rightarrow> bool" where
  "bv_rel p a \<longleftrightarrow> bv_ok p \<and> objectsOf a = map set p"

lemma bvStep_fails: "bv_rel p a \<Longrightarrow> setStep 2 False opn a = Inl e \<Longrightarrow> bvStep opn p = Inl e"
  by (cases opn) (auto simp: bv_rel_def setStep_def bvStep_def pts_ops rassert_def Let_def split: if_splits)

lemma bvStep_returns:
  assumes rel: "bv_rel p a" and step: "setStep 2 False opn a = Inr (b, a')"
  shows "\<exists>p'. bvStep opn p = Inr (b, p') \<and> bv_rel p' a'"
proof -
  have ok: "bv_ok p" and a: "objectsOf a = map set p" using rel by (simp_all add: bv_rel_def)
  show ?thesis
  proof (cases opn)
    case ClearAll
    with step show ?thesis by (auto simp: setStep_def bvStep_def bv_rel_def bv_ok_def)
  next
    case (OnNewNode n)
    with step ok show ?thesis by (auto simp: setStep_def bvStep_def pts_ops bv_rel_def bv_ok_new a Let_def)
  next
    case (UnionWith s d)
    with step have sd: "s < length p" "d < length p" "b = Flag (\<not> set (p ! d) \<subseteq> set (p ! s))"
      "objectsOf a' = (map set p)[s := set (p ! s) \<union> set (p ! d)]" by (auto simp: setStep_def a Let_def)
    with ok bv_okD [OF ok sd(1)] bv_okD [OF ok sd(2)] have "bv_ok (p[s := bvOr (p ! s) (p ! d)])"
      by (intro bv_ok_update) auto
    with UnionWith sd last_bvOr [OF ok sd(1,2)] bv_okD [OF ok sd(1)] show ?thesis
      by (auto simp: bvStep_def pts_ops Let_def map_update bvOr_same_iff bv_rel_def)
  next
    case (Insert s i)
    with step have si: "s < length p" "i < length p" "b = Flag (i \<notin> set (p ! s))"
      "objectsOf a' = (map set p)[s := insert i (set (p ! s))]" by (auto simp: setStep_def a Let_def)
    with ok bv_okD [OF ok si(1)] have "bv_ok (p[s := sorted_insert i (p ! s)])" by (intro bv_ok_update) auto
    with Insert si show ?thesis by (auto simp: bvStep_def pts_ops map_update bv_rel_def)
  next
    case (Clear n)
    with step have "n < length p" "b = Done" "objectsOf a' = (map set p)[n := {}]" by (auto simp: setStep_def a Let_def)
    with Clear ok show ?thesis by (auto simp: bvStep_def pts_ops map_update bv_rel_def intro: bv_ok_update)
  next
    case (Equal s d)
    with step rel bv_okD [OF ok] show ?thesis by (auto simp: setStep_def bvStep_def pts_ops bv_eq_iff a Let_def)
  next
    case (Elements n)
    with step rel bv_okD [OF ok] first_less [OF ok] show ?thesis by (auto simp: setStep_def bvStep_def pts_ops bv_list a Let_def)
  next
    case (GetPointsTo n)
    with step rel bv_okD [OF ok] show ?thesis by (auto simp: setStep_def bvStep_def pts_ops bv_list a Let_def)
  next
    case (Count n)
    with step rel bv_okD [OF ok] show ?thesis by (auto simp: setStep_def bvStep_def pts_ops bv_card a Let_def)
  next
    case (IntersectWithNoSpecialNode s d)
    with step rel show ?thesis by (auto simp: setStep_def bvStep_def pts_ops fold_reset_nonempty a Let_def simp del: upt_Suc upt_rec_numeral)
  qed (use step rel empty_iff_set in \<open>auto simp: setStep_def bvStep_def pts_ops a Let_def\<close>)
qed

interpretation bvp: pts_trait bvStep 2 False bv_rel
  by unfold_locales (rule bvStep_fails bvStep_returns; assumption)+

text \<open>Here the pointers of an object are kept as well.\<close>

definition pb_rel :: "pb_pts \<Rightarrow> pts_sets \<Rightarrow> bool" where
  "pb_rel p a \<longleftrightarrow> bv_ok (pbPointsTo p) \<and> objectsOf a = map set (pbPointsTo p) \<and> length (pbPointedBy p) = length (pbPointsTo p) \<and>
     (\<forall>v \<in> set (pbPointedBy p). bv v) \<and> pointersOf a = map set (pbPointedBy p) \<and>
     (\<forall>s < length (pbPointsTo p). \<forall>i \<in> set (pbPointsTo p ! s). s \<in> set (pbPointedBy p ! i))"

lemma pbAddPointer_fold:
  assumes "\<forall>i \<in> set xs. i < length pb \<and> dst \<in> set (pb ! i)" and "\<forall>v \<in> set pb. bv v"
  shows "\<exists>pb'. rfold (pbAddPointer src dst) xs pb = Inr pb' \<and> length pb' = length pb \<and> (\<forall>v \<in> set pb'. bv v) \<and>
    (\<forall>i < length pb. set (pb' ! i) = set (pb ! i) \<union> (if i \<in> set xs then {src} else {}))"
  using assms
proof (induction xs arbitrary: pb)
  case (Cons x xs)
  let ?pb = "pb[x := sorted_insert src (pb ! x)]"
  have "\<forall>i \<in> set xs. i < length ?pb \<and> dst \<in> set (?pb ! i)" using Cons.prems by (auto simp: nth_list_update)
  moreover have "\<forall>v \<in> set ?pb. bv v" using Cons.prems set_update_subset_insert [of pb x "sorted_insert src (pb ! x)"] by fastforce
  ultimately obtain pb' where "rfold (pbAddPointer src dst) xs ?pb = Inr pb'" "length pb' = length pb" "\<forall>v \<in> set pb'. bv v"
    "\<forall>i < length pb. set (pb' ! i) = set (?pb ! i) \<union> (if i \<in> set xs then {src} else {})" using Cons.IH [of ?pb] by auto
  moreover have "pbAddPointer src dst x pb = Inr ?pb" using Cons.prems by (simp add: pbAddPointer_def)
  ultimately show ?case using Cons.prems by (auto simp: nth_list_update)
qed simp

lemma pbStep_fails: "pb_rel p a \<Longrightarrow> setStep 4 True opn a = Inl e \<Longrightarrow> pbStep opn p = Inl e"
  by (cases opn) (auto simp: setStep_def pbStep_def pts_ops pb_rel_def rassert_def Let_def split: if_splits)

lemma pbStep_returns:
  assumes rel: "pb_rel p a" and step: "setStep 4 True opn a = Inr (b, a')"
  shows "\<exists>p'. pbStep opn p = Inr (b, p') \<and> pb_rel p' a'"
proof -
  let ?p = "pbPointsTo p" and ?b = "pbPointedBy p"
  have ok: "bv_ok ?p" "length ?b = length ?p" "\<And>s i. s < length ?p \<Longrightarrow> i \<in> set (?p ! s) \<Longrightarrow> s \<in> set (?b ! i)" "\<forall>v \<in> set ?b. bv v"
    and a: "objectsOf a = map set ?p" "pointersOf a = map set ?b"
    using rel by (auto simp: pb_rel_def)
  show ?thesis
  proof (cases opn)
    case ClearAll
    with step show ?thesis by (auto simp: setStep_def pbStep_def pb_rel_def bv_ok_def)
  next
    case (OnNewNode n)
    with step have n: "n = length ?p" "b = Done" "objectsOf a' = map set ?p @ [{}]" "pointersOf a' = map set ?b @ [{}]"
      by (auto simp: setStep_def a Let_def)
    have "pb_rel \<lparr> pbPointsTo = ?p @ [[]], pbPointedBy = ?b @ [[]] \<rparr> a'"
      using ok n bv_okD [OF ok(1)] by (fastforce simp: pb_rel_def bv_ok_new nth_append)
    with n OnNewNode ok(2) show ?thesis by (auto simp: pbStep_def pts_ops)
  next
    case (UnionWith s d)
    with step have sd: "s < length ?p" "d < length ?p" "b = Flag (\<not> set (?p ! d) \<subseteq> set (?p ! s))"
      "objectsOf a' = (map set ?p)[s := set (?p ! s) \<union> set (?p ! d)]"
      "pointersOf a' = map (\<lambda>i. set (?b ! i) \<union> (if i \<in> set (?p ! d) then {s} else {})) [0..<length ?b]"
      by (auto simp: setStep_def a Let_def)
    have "\<forall>i \<in> set (?p ! d). i < length ?b \<and> d \<in> set (?b ! i)"
      using ok sd bv_okD [OF ok(1) sd(2)] by auto
    from pbAddPointer_fold [OF this ok(4), of s] obtain pb' where
      pb': "rfold (pbAddPointer s d) (?p ! d) ?b = Inr pb'" "length pb' = length ?b" "\<forall>v \<in> set pb'. bv v"
      "\<forall>i < length ?b. set (pb' ! i) = set (?b ! i) \<union> (if i \<in> set (?p ! d) then {s} else {})" by blast
    let ?u = "bvOr (?p ! s) (?p ! d)"
    have "bv_ok (?p[s := ?u])"
      using ok bv_okD [OF ok(1) sd(1)] bv_okD [OF ok(1) sd(2)] by (intro bv_ok_update) auto
    moreover have "t \<in> set (pb' ! i)" if "t < length ?p" "i \<in> set (?p[s := ?u] ! t)" for t i
      using that pb'(2,4) ok sd bv_okD [OF ok(1) that(1)] bv_okD [OF ok(1) sd(2)] bv_okD [OF ok(1) sd(1)]
      by (auto simp: nth_list_update split: if_splits)
    moreover have "pointersOf a' = map set pb'" by (rule nth_equalityI) (use sd(5) pb'(2,4) in auto)
    ultimately have "pb_rel \<lparr> pbPointsTo = ?p[s := ?u], pbPointedBy = pb' \<rparr> a'"
      using ok pb'(2,3) sd(4) by (simp add: pb_rel_def map_update)
    with UnionWith sd pb'(1) bv_okD [OF ok(1) sd(1)] show ?thesis
      by (auto simp: pbStep_def pts_ops Let_def bvOr_same_iff)
  next
    case (Insert s i)
    with step have si: "s < length ?p" "i < length ?p" "b = Flag (i \<notin> set (?p ! s))"
      "objectsOf a' = (map set ?p)[s := insert i (set (?p ! s))]" "pointersOf a' = (map set ?b)[i := insert s (set (?b ! i))]"
      using ok(2) by (auto simp: setStep_def a Let_def)
    have "bv_ok (?p[s := sorted_insert i (?p ! s)])"
      using ok si bv_okD [OF ok(1) si(1)] by (intro bv_ok_update) auto
    moreover have "\<forall>v \<in> set (?b[i := sorted_insert s (?b ! i)]). bv v"
      using ok(2,4) si(2) set_update_subset_insert [of ?b i "sorted_insert s (?b ! i)"] by fastforce
    ultimately have "pb_rel \<lparr> pbPointsTo = ?p[s := sorted_insert i (?p ! s)], pbPointedBy = ?b[i := sorted_insert s (?b ! i)] \<rparr> a'"
      using ok si by (auto simp: pb_rel_def nth_list_update map_update)
    with Insert si ok(2) show ?thesis by (auto simp: pbStep_def pts_ops)
  next
    case (Clear n)
    with step have n: "n < length ?p" "b = Done" "objectsOf a' = (map set ?p)[n := {}]" "pointersOf a' = map set ?b"
      by (auto simp: setStep_def a Let_def)
    have "pb_rel (p\<lparr> pbPointsTo := ?p[n := []] \<rparr>) a'"
      using ok n bv_ok_update [OF ok(1), of "[]" n] by (auto simp: pb_rel_def nth_list_update map_update split: if_splits)
    with n Clear show ?thesis by (auto simp: pbStep_def pts_ops)
  next
    case (Equal s d)
    with step rel bv_okD [OF ok(1)] show ?thesis by (auto simp: setStep_def pbStep_def pts_ops bv_eq_iff a Let_def)
  next
    case (Elements n)
    with step rel bv_okD [OF ok(1)] show ?thesis by (auto simp: setStep_def pbStep_def pts_ops bv_list a Let_def)
  next
    case (GetPointsTo n)
    with step rel bv_okD [OF ok(1)] show ?thesis by (auto simp: setStep_def pbStep_def pts_ops bv_list a Let_def)
  next
    case (Count n)
    with step rel bv_okD [OF ok(1)] show ?thesis by (auto simp: setStep_def pbStep_def pts_ops bv_card a Let_def)
  next
    case (GetPointedBy n)
    with step rel ok(2,4) show ?thesis by (auto simp: setStep_def pbStep_def pts_ops bv_list a Let_def)
  next
    case (IntersectWithNoSpecialNode s d)
    with step rel show ?thesis by (auto simp: setStep_def pbStep_def pts_ops fold_reset_nonempty a Let_def simp del: upt_Suc upt_rec_numeral)
  qed (use step rel empty_iff_set in \<open>auto simp: setStep_def pbStep_def pts_ops a Let_def\<close>)
qed

interpretation pbp: pts_trait pbStep 4 True pb_rel
  by unfold_locales (rule pbStep_fails pbStep_returns; assumption)+

section \<open>Properties\<close>

text \<open>The operations whose meaning does not depend on the implementation.\<close>

fun common :: "pts_op \<Rightarrow> bool" where
  "common (IntersectWithNoSpecialNode s d) \<longleftrightarrow> False"
| "common (GetPointedBy n) \<longleftrightarrow> False"
| "common opn \<longleftrightarrow> True"

lemma common_run: "list_all common ops \<Longrightarrow> runOps (setStep k b) ops a = runOps (setStep k' b') ops a"
proof (induction ops arbitrary: a)
  case (Cons opn ops)
  then have "setStep k b opn a = setStep k' b' opn a" by (cases opn) (simp_all add: setStep_def)
  with Cons show ?case by simp
qed simp

text \<open>
  C24. The two implementations of points-to sets, over all operations of their interface. From the empty state every
  sequence of operations gets from each the answers of sets, and fails at the same operation with the same
  failure; each also answers for its own number of special objects (2 and 4) and only the second tells the pointers of an object:
  those that ever got it, also if they were cleared since. So the two agree on every sequence that asks neither of
  these questions, and only on these two can they differ.
\<close>

theorem pts_implementations_agree:
  "let empty = \<lparr> objectsOf = [], pointersOf = [] \<rparr> in
   runOps bvStep ops [] = runOps (setStep 2 False) ops empty \<and>
   runOps pbStep ops \<lparr> pbPointsTo = [], pbPointedBy = [] \<rparr> = runOps (setStep 4 True) ops empty \<and>
   (list_all common ops \<longrightarrow> runOps bvStep ops [] = runOps pbStep ops \<lparr> pbPointsTo = [], pbPointedBy = [] \<rparr>)"
proof -
  let ?e = "\<lparr> objectsOf = [], pointersOf = [] \<rparr>"
  have "bv_rel [] ?e" "pb_rel \<lparr> pbPointsTo = [], pbPointedBy = [] \<rparr> ?e" by (simp_all add: bv_rel_def pb_rel_def bv_ok_def)
  from bvp.run_sets [OF this(1), of ops] pbp.run_sets [OF this(2), of ops] common_run [of ops 2 False ?e 4 True]
  show ?thesis by (simp add: Let_def)
qed

lemma pts_implementations_agree_witness:
  "(let ops = [OnNewNode 0, OnNewNode 1, Insert 0 1, UnionWith 1 0, Elements 1, Clear 0, Count 1, Equal 0 1] in
    runOps bvStep ops [] = runOps pbStep ops \<lparr> pbPointsTo = [], pbPointedBy = [] \<rparr> \<and>
    runOps bvStep ops [] = Inr [Done, Done, Flag True, Flag True, Members [1], Done, Number 1, Flag False])"
proof -
  let ?ops = "[OnNewNode 0, OnNewNode 1, Insert 0 1, UnionWith 1 0, Elements 1, Clear 0, Count 1, Equal 0 1]"
  have "list_all common ?ops" by simp
  then have "runOps bvStep ?ops [] = runOps pbStep ?ops \<lparr> pbPointsTo = [], pbPointedBy = [] \<rparr>"
    using pts_implementations_agree [of ?ops, unfolded Let_def] by blast
  moreover have "runOps bvStep ?ops [] = Inr [Done, Done, Flag True, Flag True, Members [1], Done, Number 1, Flag False]" by code_simp
  ultimately show ?thesis by (simp only: Let_def)
qed

text \<open>
  They do differ there: the test that ignores special objects drops the
  identifiers below 2 in the first and those below 4 in the second, so object 3 aliases itself in one only; and a
  cleared node still counts as a pointer to its old objects in the second.
\<close>

theorem pts_special_objects_differ:
  "(let ops = [OnNewNode 0, OnNewNode 1, OnNewNode 2, OnNewNode 3, Insert 0 3, IntersectWithNoSpecialNode 0 0] in
    runOps bvStep ops [] = Inr [Done, Done, Done, Done, Flag True, Flag True] \<and>
    runOps pbStep ops \<lparr> pbPointsTo = [], pbPointedBy = [] \<rparr> = Inr [Done, Done, Done, Done, Flag True, Flag False]) \<and>
   runOps pbStep [OnNewNode 0, Insert 0 0, Clear 0, GetPointedBy 0] \<lparr> pbPointsTo = [], pbPointedBy = [] \<rparr> =
     Inr [Done, Flag True, Done, Members [0]]"
  by code_simp

end
