(* ===== verification/ConstraintGraph.thy ===== *)
theory ConstraintGraph
  imports LLVMView PointsTo
begin

text \<open>
  The constraint graph of the pointer analysis (src/PointerAnalysis/Graph/GraphBase/GraphBase.h,
  Graph/ConstraintGraph/CGNodeBase.h, CGObjNode.h, CGPtrNode.h, ConstraintGraph.h).

  Nodes are their identifiers, positions in the vector of nodes. Every node keeps, for each kind
  of constraint, the bit vectors of its successors and predecessors, and a pointer to the node it
  was collapsed into. \<open>CGSuperNode\<close> is never created and is not modelled.
\<close>

section \<open>Definitions\<close>

datatype constraints = CLoad | CStore | CCopy | CAddrOf | COffset | CSpecial

text \<open>
  A pointer node has the value of its pointer unless it is anonymous; an object node has the
  identifier of its object.
\<close>

datatype cg_kind = PtrNode "llvm_value option" | ObjNode nat

record cons_node =
  cgKind :: cg_kind
  superNode :: "nat option"
  childNodes :: "nat list"
  isImmutable :: bool
  indirectNodes :: "nat list"
  succCons :: "constraints \<Rightarrow> nat list"
  predCons :: "constraints \<Rightarrow> nat list"

record cons_graph =
  cgNodes :: "cons_node list"
  objVec :: "nat list"

definition newNode :: "cg_kind \<Rightarrow> cons_node" where
  "newNode k = \<lparr> cgKind = k, superNode = None, childNodes = [], isImmutable = False, indirectNodes = [],
     succCons = (\<lambda>_. []), predCons = (\<lambda>_. []) \<rparr>"

definition getNodeNum :: "cons_graph \<Rightarrow> nat" where
  "getNodeNum g = length (cgNodes g)"

definition cgNode :: "cons_graph \<Rightarrow> nat \<Rightarrow> cons_node" where
  "cgNode g n = cgNodes g ! n"

definition updNode :: "nat \<Rightarrow> (cons_node \<Rightarrow> cons_node) \<Rightarrow> cons_graph \<Rightarrow> cons_graph" where
  "updNode n f g = g\<lparr> cgNodes := (cgNodes g)[n := f (cgNodes g ! n)] \<rparr>"

definition getNode :: "cons_graph \<Rightarrow> nat \<Rightarrow> nat result" where
  "getNode g n = rassert (n < getNodeNum g) AssertFailed (Inr n)"

definition addNewNode :: "cg_kind \<Rightarrow> cons_graph \<Rightarrow> nat \<times> cons_graph" where
  "addNewNode k g = (getNodeNum g, g\<lparr> cgNodes := cgNodes g @ [newNode k] \<rparr>)"

definition getObjectNode :: "cons_graph \<Rightarrow> nat \<Rightarrow> nat result" where
  "getObjectNode g obj = rassert (obj < length (objVec g)) AssertFailed (Inr (objVec g ! obj))"

definition isObjKind :: "cg_kind \<Rightarrow> bool" where
  "isObjKind k = (case k of ObjNode _ \<Rightarrow> True | PtrNode _ \<Rightarrow> False)"

definition hasSuperNode :: "cons_graph \<Rightarrow> nat \<Rightarrow> bool" where
  "hasSuperNode g n \<longleftrightarrow> superNode (cgNode g n) \<noteq> None"

definition isSuperNode :: "cons_graph \<Rightarrow> nat \<Rightarrow> bool" where
  "isSuperNode g n \<longleftrightarrow> childNodes (cgNode g n) \<noteq> []"

definition isFunctionPtr :: "cons_graph \<Rightarrow> nat \<Rightarrow> bool" where
  "isFunctionPtr g n \<longleftrightarrow> indirectNodes (cgNode g n) \<noteq> []"

definition setIndirectCallNode :: "nat \<Rightarrow> nat \<Rightarrow> cons_graph \<Rightarrow> cons_graph" where
  "setIndirectCallNode n callNode =
     updNode n (\<lambda>x. x\<lparr> indirectNodes := sorted_insert callNode (indirectNodes x) \<rparr>)"

text \<open>
  \<open>getSuperNode\<close> follows the pointers to the end; the number of nodes is fuel enough
  (\<open>getSuperNode_rep\<close>).
\<close>

fun superLoop :: "nat \<Rightarrow> cons_graph \<Rightarrow> nat \<Rightarrow> nat result" where
  "superLoop 0 g n = Inl Diverges"
| "superLoop (Suc fuel) g n =
     (case superNode (cgNode g n) of None \<Rightarrow> Inr n | Some m \<Rightarrow> superLoop fuel g m)"

definition getSuperNode :: "cons_graph \<Rightarrow> nat \<Rightarrow> nat result" where
  "getSuperNode g n = superLoop (getNodeNum g) g n"

definition addSucc :: "constraints \<Rightarrow> nat \<Rightarrow> cons_node \<Rightarrow> cons_node" where
  "addSucc k d x = x\<lparr> succCons := (succCons x)(k := sorted_insert d (succCons x k)) \<rparr>"

definition addPred :: "constraints \<Rightarrow> nat \<Rightarrow> cons_node \<Rightarrow> cons_node" where
  "addPred k s x = x\<lparr> predCons := (predCons x)(k := sorted_insert s (predCons x k)) \<rparr>"

definition delSucc :: "constraints \<Rightarrow> nat \<Rightarrow> cons_node \<Rightarrow> cons_node" where
  "delSucc k d x = x\<lparr> succCons := (succCons x)(k := bvReset d (succCons x k)) \<rparr>"

definition delPred :: "constraints \<Rightarrow> nat \<Rightarrow> cons_node \<Rightarrow> cons_node" where
  "delPred k s x = x\<lparr> predCons := (predCons x)(k := bvReset s (predCons x k)) \<rparr>"

definition insertConstraint ::
  "nat \<Rightarrow> nat \<Rightarrow> constraints \<Rightarrow> cons_graph \<Rightarrow> (bool \<times> cons_graph) result" where
  "insertConstraint this node edgeKind g =
     (if edgeKind \<noteq> CSpecial \<and> isImmutable (cgNode g node) then Inr (False, g)
      else rbind (getSuperNode g this) (\<lambda>src. rbind (getSuperNode g node) (\<lambda>dst.
        if src = dst \<and> edgeKind = CCopy then Inr (False, g)
        else
          (let r1 = dst \<notin> set (succCons (cgNode g src) edgeKind);
               g1 = updNode src (addSucc edgeKind dst) g;
               r2 = src \<notin> set (predCons (cgNode g1 dst) edgeKind);
               g2 = updNode dst (addPred edgeKind src) g1
           in rassert (r1 = r2) AssertFailed (Inr (r1, g2))))))"

text \<open>
  \<open>addConstraints\<close> returns the edge the callback is told of, if a new edge was added.
\<close>

definition addConstraints ::
  "nat \<Rightarrow> nat \<Rightarrow> constraints \<Rightarrow> cons_graph \<Rightarrow> ((nat \<times> nat \<times> constraints) option \<times> cons_graph) result" where
  "addConstraints src dst constraint g =
     (if src = dst \<and> constraint = CCopy then Inr (None, g)
      else if constraint = CAddrOf then
        rassert (isObjKind (cgKind (cgNode g src))) AssertFailed
          (rbind (getNode g (src + 1)) (\<lambda>anonNode.
            rassert (\<not> hasSuperNode g anonNode) AssertFailed
              (rassert (cgKind (cgNode g anonNode) = PtrNode None) AssertFailed
                (rbind (insertConstraint anonNode dst CCopy g) (\<lambda>(new, g).
                  if new then rbind (getSuperNode g dst) (\<lambda>d. Inr (Some (anonNode, d, CCopy), g))
                  else Inr (None, g))))))
      else rbind (insertConstraint src dst constraint g) (\<lambda>(newEdge, g).
        if newEdge
        then rbind (getSuperNode g src) (\<lambda>s. rbind (getSuperNode g dst) (\<lambda>d. Inr (Some (s, d, constraint), g)))
        else Inr (None, g)))"

text \<open>The order of \<open>edge_begin\<close>: the kinds from the last to the first.\<close>

definition edgeKinds :: "constraints list" where
  "edgeKinds = [CSpecial, COffset, CAddrOf, CCopy, CStore, CLoad]"

definition predEdges :: "cons_graph \<Rightarrow> nat \<Rightarrow> (constraints \<times> nat) list" where
  "predEdges g n = concat (map (\<lambda>k. map (Pair k) (predCons (cgNode g n) k)) edgeKinds)"

definition succEdges :: "cons_graph \<Rightarrow> nat \<Rightarrow> (constraints \<times> nat) list" where
  "succEdges g n = concat (map (\<lambda>k. map (Pair k) (succCons (cgNode g n) k)) edgeKinds)"

definition clearKind :: "nat \<Rightarrow> constraints \<Rightarrow> cons_graph \<Rightarrow> cons_graph" where
  "clearKind n k g =
     (let g1 = fold (\<lambda>target. updNode target (delPred k n)) (succCons (cgNode g n) k) g;
          g2 = fold (\<lambda>target. updNode target (delSucc k n)) (predCons (cgNode g1 n) k) g1
      in updNode n (\<lambda>x. x\<lparr> succCons := (succCons x)(k := []), predCons := (predCons x)(k := []) \<rparr>) g2)"

definition clearConstraints :: "nat \<Rightarrow> cons_graph \<Rightarrow> cons_graph" where
  "clearConstraints n = fold (clearKind n) [CLoad, CStore, CCopy, CAddrOf, COffset, CSpecial]"

definition mergeEdge :: "nat \<Rightarrow> nat \<Rightarrow> constraints \<Rightarrow> cons_graph \<Rightarrow> cons_graph result" where
  "mergeEdge src dst k g = rbind (insertConstraint src dst k g) (\<lambda>(_, g). Inr g)"

definition collapseNode :: "nat \<Rightarrow> nat \<Rightarrow> cons_graph \<Rightarrow> cons_graph result" where
  "collapseNode super node g =
     (if node = super then Inr g
      else rbind (rfold (\<lambda>(k, m) g. rbind (getNode g m) (\<lambda>m. mergeEdge m super k g)) (predEdges g node) g) (\<lambda>g.
        rbind (rfold (\<lambda>(k, m) g. rbind (getNode g m) (\<lambda>m. mergeEdge super m k g)) (succEdges g node) g) (\<lambda>g.
          let x = cgNode g node;
              g = updNode super (\<lambda>y. y\<lparr> childNodes := bvOr (childNodes y) (childNodes x),
                                        indirectNodes := fold sorted_insert (indirectNodes x) (indirectNodes y) \<rparr>) g;
              g = updNode node (\<lambda>y. y\<lparr> indirectNodes := [], childNodes := [] \<rparr>) g;
              g = clearConstraints node g
          in Inr (updNode node (\<lambda>y. y\<lparr> superNode := Some super \<rparr>) g))))"

definition collapseSCCTo :: "nat list \<Rightarrow> nat \<Rightarrow> cons_graph \<Rightarrow> cons_graph result" where
  "collapseSCCTo scc super g =
     rassert (list_all (\<lambda>n. \<not> hasSuperNode g n) scc) AssertFailed (rfold (collapseNode super) scc g)"

text \<open>\<open>addCGNode\<close>: a pointer node, or an object node with its address-taken node.\<close>

definition addPtrNode :: "llvm_value option \<Rightarrow> cons_graph \<times> pts_vec \<Rightarrow> (nat \<times> cons_graph \<times> pts_vec) result" where
  "addPtrNode v = (\<lambda>(g, p).
     case addNewNode (PtrNode v) g of (n, g) \<Rightarrow> rbind (ptsOnNewNode n p) (\<lambda>p. Inr (n, g, p)))"

definition addObjNode :: "nat \<Rightarrow> cons_graph \<times> pts_vec \<Rightarrow> (nat \<times> cons_graph \<times> pts_vec) result" where
  "addObjNode obj = (\<lambda>(g, p).
     case addNewNode (ObjNode obj) g of (n, g) \<Rightarrow>
       rbind (ptsOnNewNode n p) (\<lambda>p.
         rbind (addPtrNode None (g, p)) (\<lambda>(anon, g, p).
           rbind (insertConstraint n anon CAddrOf g) (\<lambda>(_, g).
             rbind (ptsInsert anon obj p) (\<lambda>(_, p).
               rassert (length (objVec g) = obj) AssertFailed
                 (Inr (n, g\<lparr> objVec := objVec g @ [n] \<rparr>, p)))))))"

definition getAddrTakenNode :: "cons_graph \<Rightarrow> nat \<Rightarrow> nat result" where
  "getAddrTakenNode g n = rbind (getNode g (n + 1)) (\<lambda>a.
     rassert (\<not> isObjKind (cgKind (cgNode g a))) AssertFailed (Inr a))"

section \<open>Well-formed graphs\<close>

named_theorems cg_simps "the fields of an updated graph"

lemma getNodeNum_upd [simp, cg_simps]: "getNodeNum (updNode m f g) = getNodeNum g"
  by (simp add: getNodeNum_def updNode_def)

lemma objVec_upd [simp, cg_simps]: "objVec (updNode m f g) = objVec g"
  by (simp add: updNode_def)

lemma cgNode_upd [cg_simps]:
  "m < getNodeNum g \<Longrightarrow> cgNode (updNode m f g) n = (if n = m then f (cgNode g m) else cgNode g n)"
  by (simp add: getNodeNum_def updNode_def cgNode_def)

text \<open>Updates that leave the pointers to representatives, the kinds and the flags alone.\<close>

definition same_nodes :: "cons_graph \<Rightarrow> cons_graph \<Rightarrow> bool" where
  "same_nodes g g' \<longleftrightarrow> getNodeNum g' = getNodeNum g \<and> objVec g' = objVec g \<and>
     (\<forall>n < getNodeNum g. superNode (cgNode g' n) = superNode (cgNode g n) \<and>
        cgKind (cgNode g' n) = cgKind (cgNode g n) \<and> isImmutable (cgNode g' n) = isImmutable (cgNode g n))"

lemma same_nodes_refl [simp]: "same_nodes g g"
  by (simp add: same_nodes_def)

lemma same_nodes_trans: "same_nodes g g1 \<Longrightarrow> same_nodes g1 g2 \<Longrightarrow> same_nodes g g2"
  by (auto simp: same_nodes_def)

lemma same_nodes_upd:
  "m < getNodeNum g \<Longrightarrow> superNode (f (cgNode g m)) = superNode (cgNode g m) \<Longrightarrow> cgKind (f (cgNode g m)) = cgKind (cgNode g m) \<Longrightarrow>
     isImmutable (f (cgNode g m)) = isImmutable (cgNode g m) \<Longrightarrow> same_nodes g (updNode m f g)"
  by (auto simp: same_nodes_def cg_simps)

definition edge :: "cons_graph \<Rightarrow> constraints \<Rightarrow> nat \<Rightarrow> nat \<Rightarrow> bool" where
  "edge g k s d \<longleftrightarrow> s < getNodeNum g \<and> d \<in> set (succCons (cgNode g s) k)"

text \<open>Both directions of every edge are stored, and only nodes that stand for themselves have any.\<close>

definition edges_ok :: "cons_graph \<Rightarrow> bool" where
  "edges_ok g \<longleftrightarrow>
     (\<forall>n < getNodeNum g. \<forall>k. bv (succCons (cgNode g n) k) \<and> bv (predCons (cgNode g n) k)) \<and>
     (\<forall>n < getNodeNum g. \<forall>k. \<forall>m \<in> set (succCons (cgNode g n) k) \<union> set (predCons (cgNode g n) k).
        m < getNodeNum g) \<and>
     (\<forall>s < getNodeNum g. \<forall>d < getNodeNum g. \<forall>k. edge g k s d \<longleftrightarrow> s \<in> set (predCons (cgNode g d) k))"

definition superRel :: "cons_graph \<Rightarrow> (nat \<times> nat) set" where
  "superRel g = {(n, m). n < getNodeNum g \<and> superNode (cgNode g n) = Some m}"

definition super_ok :: "cons_graph \<Rightarrow> bool" where
  "super_ok g \<longleftrightarrow> acyclic (superRel g) \<and> (\<forall>(n, m) \<in> superRel g. m < getNodeNum g)"

text \<open>The address-taken node of an object is the next node; it never has a copy edge into it.\<close>

definition addrNode :: "cons_graph \<Rightarrow> nat \<Rightarrow> bool" where
  "addrNode g a \<longleftrightarrow> (\<exists>obj < length (objVec g). a = Suc (objVec g ! obj))"

definition objs_ok :: "cons_graph \<Rightarrow> bool" where
  "objs_ok g \<longleftrightarrow>
     (\<forall>obj < length (objVec g). Suc (objVec g ! obj) < getNodeNum g \<and>
        cgKind (cgNode g (objVec g ! obj)) = ObjNode obj \<and> cgKind (cgNode g (Suc (objVec g ! obj))) = PtrNode None) \<and>
     (\<forall>n < getNodeNum g. \<forall>obj. cgKind (cgNode g n) = ObjNode obj \<longrightarrow> obj < length (objVec g) \<and> objVec g ! obj = n)"

text \<open>
  What keeps collapsing safe: copy edges are never loops, none ends in an address-taken node, a
  collapsed node has no edges, and an immutable node, which never was collapsed, only has
  special edges and copies of addresses into it.
\<close>

definition shape_ok :: "cons_graph \<Rightarrow> bool" where
  "shape_ok g \<longleftrightarrow> (\<forall>k s d. edge g k s d \<longrightarrow>
     superNode (cgNode g s) = None \<and> superNode (cgNode g d) = None \<and>
     (k = CCopy \<longrightarrow> s \<noteq> d \<and> \<not> addrNode g d) \<and>
     (isImmutable (cgNode g d) \<longrightarrow> k = CSpecial \<or> (k = CCopy \<and> addrNode g s))) \<and>
     (\<forall>(n, m) \<in> superRel g. \<not> isImmutable (cgNode g n) \<and> \<not> isImmutable (cgNode g m) \<and>
        \<not> addrNode g n \<and> \<not> addrNode g m)"

definition cg_ok :: "cons_graph \<Rightarrow> bool" where
  "cg_ok g \<longleftrightarrow> edges_ok g \<and> super_ok g \<and> objs_ok g \<and> shape_ok g"

lemma edges_okD:
  assumes "edges_ok g"
  shows "n < getNodeNum g \<Longrightarrow> bv (succCons (cgNode g n) k)" "n < getNodeNum g \<Longrightarrow> bv (predCons (cgNode g n) k)"
    "n < getNodeNum g \<Longrightarrow> m \<in> set (succCons (cgNode g n) k) \<Longrightarrow> m < getNodeNum g"
    "n < getNodeNum g \<Longrightarrow> m \<in> set (predCons (cgNode g n) k) \<Longrightarrow> m < getNodeNum g"
    "s < getNodeNum g \<Longrightarrow> d < getNodeNum g \<Longrightarrow> edge g k s d \<longleftrightarrow> s \<in> set (predCons (cgNode g d) k)"
  using assms unfolding edges_ok_def by blast+

subsection \<open>Representatives\<close>

definition rep :: "cons_graph \<Rightarrow> nat \<Rightarrow> nat" where
  "rep g n = (case getSuperNode g n of Inr m \<Rightarrow> m | Inl _ \<Rightarrow> n)"

lemma superLoop_returns:
  assumes ok: "super_ok g" and "n < getNodeNum g" and "card ((superRel g)\<^sup>+ `` {n}) < fuel"
  shows "\<exists>m. superLoop fuel g n = Inr m \<and> m < getNodeNum g \<and> superNode (cgNode g m) = None \<and> (n, m) \<in> (superRel g)\<^sup>*"
  using assms(2,3)
proof (induction fuel arbitrary: n)
  case (Suc fuel)
  show ?case
  proof (cases "superNode (cgNode g n)")
    case None
    with Suc.prems show ?thesis by auto
  next
    case (Some m)
    with Suc.prems have nm: "(n, m) \<in> superRel g" by (simp add: superRel_def)
    with ok have m: "m < getNodeNum g" by (auto simp: super_ok_def)
    have "(superRel g)\<^sup>+ `` {m} \<subseteq> (superRel g)\<^sup>+ `` {n} - {m}"
      using nm ok by (auto simp: super_ok_def acyclic_def dest: trancl_into_trancl2)
    moreover have "m \<in> (superRel g)\<^sup>+ `` {n}" using nm by auto
    moreover have "(superRel g)\<^sup>+ `` {n} \<subseteq> {..<getNodeNum g}"
    proof
      fix x assume "x \<in> (superRel g)\<^sup>+ `` {n}"
      then have "(n, x) \<in> (superRel g)\<^sup>+" by simp
      then show "x \<in> {..<getNodeNum g}" using ok by (cases rule: tranclE) (auto simp: super_ok_def)
    qed
    then have "finite ((superRel g)\<^sup>+ `` {n})" using finite_subset by blast
    ultimately have "card ((superRel g)\<^sup>+ `` {m}) < card ((superRel g)\<^sup>+ `` {n})"
      by (intro psubset_card_mono) auto
    with Suc.prems(2) have "card ((superRel g)\<^sup>+ `` {m}) < fuel" by simp
    from Suc.IH [OF m this] Some nm show ?thesis by (auto intro: converse_rtrancl_into_rtrancl)
  qed
qed simp

lemma super_ancestors:
  assumes ok: "super_ok g" and n: "n < getNodeNum g"
  shows "card ((superRel g)\<^sup>+ `` {n}) < getNodeNum g"
proof -
  have "(superRel g)\<^sup>+ `` {n} \<subseteq> {..<getNodeNum g} - {n}"
  proof
    fix x assume "x \<in> (superRel g)\<^sup>+ `` {n}"
    then have x: "(n, x) \<in> (superRel g)\<^sup>+" by simp
    then have "x < getNodeNum g" using ok by (cases rule: tranclE) (auto simp: super_ok_def)
    moreover have "x \<noteq> n" using x ok by (auto simp: super_ok_def acyclic_def)
    ultimately show "x \<in> {..<getNodeNum g} - {n}" by simp
  qed
  then have "card ((superRel g)\<^sup>+ `` {n}) \<le> card ({..<getNodeNum g} - {n})" by (intro card_mono) auto
  then show ?thesis using n by simp
qed

lemma getSuperNode_rep:
  assumes "super_ok g" and "n < getNodeNum g"
  shows "getSuperNode g n = Inr (rep g n)" "rep g n < getNodeNum g" "superNode (cgNode g (rep g n)) = None"
    "(n, rep g n) \<in> (superRel g)\<^sup>*"
  using superLoop_returns [OF assms super_ancestors [OF assms]] by (auto simp: rep_def getSuperNode_def)

lemma rep_self: "super_ok g \<Longrightarrow> n < getNodeNum g \<Longrightarrow> superNode (cgNode g n) = None \<Longrightarrow> rep g n = n"
  using getSuperNode_rep(4) [of g n] by (auto simp: superRel_def elim: converse_rtranclE)

lemma rep_idem: "super_ok g \<Longrightarrow> n < getNodeNum g \<Longrightarrow> rep g (rep g n) = rep g n"
  using getSuperNode_rep [of g n] rep_self by blast

lemma same_nodes_superRel: "same_nodes g g' \<Longrightarrow> superRel g' = superRel g"
  by (auto simp: same_nodes_def superRel_def)

lemma rep_unique:
  assumes "super_ok g" and "n < getNodeNum g" and "(n, m) \<in> (superRel g)\<^sup>*" and "superNode (cgNode g m) = None"
  shows "rep g n = m"
proof -
  have sv: "single_valued (superRel g)" by (auto simp: single_valued_def superRel_def)
  have "(m, rep g n) \<in> (superRel g)\<^sup>* \<or> (rep g n, m) \<in> (superRel g)\<^sup>*"
    using single_valued_confluent [OF sv assms(3) getSuperNode_rep(4) [OF assms(1,2)]] .
  then show ?thesis using assms(4) getSuperNode_rep(3) [OF assms(1,2)]
    by (auto simp: superRel_def elim: converse_rtranclE)
qed

lemma same_nodes_super_ok: "same_nodes g g' \<Longrightarrow> super_ok g \<Longrightarrow> super_ok g'"
  by (simp add: super_ok_def same_nodes_superRel) (simp add: same_nodes_def)

lemma same_nodes_rep:
  assumes "same_nodes g g'" and "super_ok g" and "n < getNodeNum g"
  shows "rep g' n = rep g n"
proof (rule rep_unique)
  show "super_ok g'" using assms same_nodes_super_ok by blast
  show "n < getNodeNum g'" using assms by (simp add: same_nodes_def)
  show "(n, rep g n) \<in> (superRel g')\<^sup>*"
    using getSuperNode_rep(4) [OF assms(2,3)] by (simp add: same_nodes_superRel [OF assms(1)])
  show "superNode (cgNode g' (rep g n)) = None"
    using getSuperNode_rep(2,3) [OF assms(2,3)] assms(1) by (simp add: same_nodes_def)
qed

lemma same_nodes_addr: "same_nodes g g' \<Longrightarrow> addrNode g' = addrNode g"
  by (simp add: same_nodes_def addrNode_def fun_eq_iff)

lemma same_nodes_objs: "same_nodes g g' \<Longrightarrow> objs_ok g \<Longrightarrow> objs_ok g'"
  unfolding objs_ok_def same_nodes_def by (metis Suc_lessD)

subsection \<open>Adding an edge\<close>

definition linkNodes :: "nat \<Rightarrow> nat \<Rightarrow> constraints \<Rightarrow> cons_graph \<Rightarrow> cons_graph" where
  "linkNodes s d k g = updNode d (addPred k s) (updNode s (addSucc k d) g)"

lemma add_fields [simp, cg_simps]:
  "superNode (addSucc k d x) = superNode x" "superNode (addPred k d x) = superNode x"
  "cgKind (addSucc k d x) = cgKind x" "cgKind (addPred k d x) = cgKind x"
  "isImmutable (addSucc k d x) = isImmutable x" "isImmutable (addPred k d x) = isImmutable x"
  "succCons (addPred k d x) = succCons x" "predCons (addSucc k d x) = predCons x"
  "succCons (addSucc k d x) = (succCons x)(k := sorted_insert d (succCons x k))"
  "predCons (addPred k d x) = (predCons x)(k := sorted_insert d (predCons x k))"
  "indirectNodes (addSucc k d x) = indirectNodes x" "indirectNodes (addPred k d x) = indirectNodes x"
  by (simp_all add: addSucc_def addPred_def)

lemma linkNodes_num [simp]: "getNodeNum (linkNodes s d k g) = getNodeNum g" "objVec (linkNodes s d k g) = objVec g"
  by (simp_all add: linkNodes_def)

lemma linkNodes_same:
  "s < getNodeNum g \<Longrightarrow> d < getNodeNum g \<Longrightarrow> same_nodes g (linkNodes s d k g)"
  unfolding linkNodes_def
  by (rule same_nodes_trans [of _ "updNode s (addSucc k d) g"]; rule same_nodes_upd) simp_all

lemma linkNodes_succ:
  "s < getNodeNum g \<Longrightarrow> d < getNodeNum g \<Longrightarrow> succCons (cgNode (linkNodes s d k g) n) j =
     (if n = s \<and> j = k then sorted_insert d (succCons (cgNode g s) k) else succCons (cgNode g n) j)"
  by (simp add: linkNodes_def cg_simps)

lemma linkNodes_pred:
  "s < getNodeNum g \<Longrightarrow> d < getNodeNum g \<Longrightarrow> predCons (cgNode (linkNodes s d k g) n) j =
     (if n = d \<and> j = k then sorted_insert s (predCons (cgNode g d) k) else predCons (cgNode g n) j)"
  by (simp add: linkNodes_def cg_simps)

lemma linkNodes_edge:
  "s < getNodeNum g \<Longrightarrow> d < getNodeNum g \<Longrightarrow> edge (linkNodes s d k g) j a b \<longleftrightarrow> edge g j a b \<or> (j = k \<and> a = s \<and> b = d)"
  by (auto simp: edge_def linkNodes_succ)

lemma linkNodes_edges_ok:
  assumes ok: "edges_ok g" and "s < getNodeNum g" and "d < getNodeNum g"
  shows "edges_ok (linkNodes s d k g)"
proof -
  have "edge (linkNodes s d k g) j a b \<longleftrightarrow> a \<in> set (predCons (cgNode (linkNodes s d k g) b) j)"
    if "a < getNodeNum g" "b < getNodeNum g" for a b j
    using edges_okD(5) [OF ok that, of j] assms(2,3) by (auto simp: linkNodes_edge linkNodes_pred)
  moreover have "m < getNodeNum g"
    if "n < getNodeNum g" "m \<in> set (succCons (cgNode (linkNodes s d k g) n) j) \<union>
      set (predCons (cgNode (linkNodes s d k g) n) j)" for n m j
    using that edges_okD(3,4) [OF ok that(1)] assms(2,3)
    by (auto simp: linkNodes_succ linkNodes_pred split: if_splits)
  moreover have "bv (succCons (cgNode (linkNodes s d k g) n) j) \<and> bv (predCons (cgNode (linkNodes s d k g) n) j)"
    if "n < getNodeNum g" for n j
    using edges_okD(1,2) [OF ok that] edges_okD(1,2) [OF ok] assms(2,3) by (simp add: linkNodes_succ linkNodes_pred bv_insert)
  ultimately show ?thesis unfolding edges_ok_def linkNodes_num by blast
qed

definition blocked :: "cons_graph \<Rightarrow> nat \<Rightarrow> nat \<Rightarrow> constraints \<Rightarrow> bool" where
  "blocked g a b k \<longleftrightarrow> (k \<noteq> CSpecial \<and> isImmutable (cgNode g b)) \<or> (k = CCopy \<and> rep g a = rep g b)"

lemma insertConstraint_eq:
  assumes ok: "edges_ok g" "super_ok g" and ab: "a < getNodeNum g" "b < getNodeNum g"
  shows "insertConstraint a b k g = Inr (if blocked g a b k then (False, g)
    else (\<not> edge g k (rep g a) (rep g b), linkNodes (rep g a) (rep g b) k g))"
proof -
  note a = getSuperNode_rep [OF ok(2) ab(1)] and b = getSuperNode_rep [OF ok(2) ab(2)]
  have "predCons (cgNode (updNode (rep g a) (addSucc k (rep g b)) g) (rep g b)) k = predCons (cgNode g (rep g b)) k"
    using a(2) by (simp add: cg_simps)
  then have "(rep g b \<notin> set (succCons (cgNode g (rep g a)) k)) =
      (rep g a \<notin> set (predCons (cgNode (updNode (rep g a) (addSucc k (rep g b)) g) (rep g b)) k))"
    using edges_okD(5) [OF ok(1) a(2) b(2), of k] a(2) by (simp add: edge_def)
  then show ?thesis using a(1,2) b(1)
    by (auto simp: insertConstraint_def blocked_def Let_def linkNodes_def edge_def)
qed

lemma rep_chain:
  assumes "super_ok g" and "n < getNodeNum g" and "rep g n \<noteq> n"
  obtains m where "(m, rep g n) \<in> superRel g"
  using getSuperNode_rep(4) [OF assms(1,2)] assms(3) by (auto elim: rtranclE)

lemma cg_okD: "cg_ok g \<Longrightarrow> edges_ok g" "cg_ok g \<Longrightarrow> super_ok g" "cg_ok g \<Longrightarrow> objs_ok g" "cg_ok g \<Longrightarrow> shape_ok g"
  by (simp_all add: cg_ok_def)

lemma rep_mutable:
  assumes "cg_ok g" and "n < getNodeNum g" and "\<not> isImmutable (cgNode g n)"
  shows "\<not> isImmutable (cgNode g (rep g n))"
proof (cases "rep g n = n")
  case False
  then obtain m where "(m, rep g n) \<in> superRel g" using rep_chain assms cg_okD(2) by metis
  with cg_okD(4) [OF assms(1)] show ?thesis by (auto simp: shape_ok_def)
qed (use assms in simp)

lemma rep_not_addr:
  assumes "cg_ok g" and "n < getNodeNum g" and "\<not> addrNode g n"
  shows "\<not> addrNode g (rep g n)"
proof (cases "rep g n = n")
  case False
  then obtain m where "(m, rep g n) \<in> superRel g" using rep_chain assms cg_okD(2) by metis
  with cg_okD(4) [OF assms(1)] show ?thesis by (auto simp: shape_ok_def)
qed (use assms in simp)

lemma linkNodes_cg_ok:
  assumes ok: "cg_ok g" and s: "s < getNodeNum g" "superNode (cgNode g s) = None"
    and d: "d < getNodeNum g" "superNode (cgNode g d) = None"
    and copy: "k = CCopy \<Longrightarrow> s \<noteq> d \<and> \<not> addrNode g d"
    and imm: "isImmutable (cgNode g d) \<Longrightarrow> k = CSpecial \<or> (k = CCopy \<and> addrNode g s)"
  shows "cg_ok (linkNodes s d k g)"
proof -
  note same = linkNodes_same [OF s(1) d(1), of k]
  have addr: "addrNode (linkNodes s d k g) = addrNode g" by (rule same_nodes_addr [OF same])
  have sup: "superRel (linkNodes s d k g) = superRel g" by (rule same_nodes_superRel [OF same])
  have fields: "superNode (cgNode (linkNodes s d k g) n) = superNode (cgNode g n)"
    "isImmutable (cgNode (linkNodes s d k g) n) = isImmutable (cgNode g n)" if "n < getNodeNum g" for n
    using same that by (simp_all add: same_nodes_def)
  have range: "b < getNodeNum g" if "edge g j a b" for j a b
    using that edges_okD(3) [OF cg_okD(1) [OF ok]] by (auto simp: edge_def)
  have supr: "n < getNodeNum g \<and> m < getNodeNum g" if "(n, m) \<in> superRel g" for n m
    using that cg_okD(2) [OF ok] by (auto simp: super_ok_def superRel_def)
  have "shape_ok (linkNodes s d k g)"
    unfolding shape_ok_def sup addr
  proof (intro conjI allI impI)
    fix j a b assume e: "edge (linkNodes s d k g) j a b"
    then have a: "a < getNodeNum g" by (simp add: edge_def)
    with e range have b: "b < getNodeNum g" using d s by (auto simp: linkNodes_edge)
    from cg_okD(4) [OF ok] have old: "edge g j a b \<Longrightarrow> superNode (cgNode g a) = None \<and> superNode (cgNode g b) = None \<and>
        (j = CCopy \<longrightarrow> a \<noteq> b \<and> \<not> addrNode g b) \<and>
        (isImmutable (cgNode g b) \<longrightarrow> j = CSpecial \<or> j = CCopy \<and> addrNode g a)"
      using a by (auto simp: shape_ok_def)
    have new: "\<not> edge g j a b \<Longrightarrow> j = k \<and> a = s \<and> b = d" using e s d by (simp add: linkNodes_edge)
    show "superNode (cgNode (linkNodes s d k g) a) = None" using old new s a fields by metis
    show "superNode (cgNode (linkNodes s d k g) b) = None" using old new d b fields by metis
    { assume "j = CCopy" then show "a \<noteq> b" "\<not> addrNode g b" using old new copy by blast+ }
    { assume "isImmutable (cgNode (linkNodes s d k g) b)"
      then have "isImmutable (cgNode g b)" using b fields by simp
      then show "j = CSpecial \<or> j = CCopy \<and> addrNode g a" using old new imm by blast }
  next
    show "\<forall>(n, m) \<in> superRel g. \<not> isImmutable (cgNode (linkNodes s d k g) n) \<and>
        \<not> isImmutable (cgNode (linkNodes s d k g) m) \<and> \<not> addrNode g n \<and> \<not> addrNode g m"
      using cg_okD(4) [OF ok] supr fields(2) by (fastforce simp: shape_ok_def)
  qed
  then show ?thesis
    using linkNodes_edges_ok [OF cg_okD(1) [OF ok] s(1) d(1)] same_nodes_super_ok [OF same cg_okD(2) [OF ok]]
      same_nodes_objs [OF same cg_okD(3) [OF ok]] by (simp add: cg_ok_def)
qed

text \<open>
  Inserting between any two nodes: the edge joins their representatives, everything else stays.
\<close>

lemma insertConstraint_ok:
  assumes ok: "cg_ok g" and ab: "a < getNodeNum g" "b < getNodeNum g" and copy: "k = CCopy \<Longrightarrow> \<not> addrNode g b"
  shows "\<exists>new g'. insertConstraint a b k g = Inr (new, g') \<and> cg_ok g' \<and> same_nodes g g' \<and>
    (\<forall>j x y. edge g' j x y \<longleftrightarrow> edge g j x y \<or> (\<not> blocked g a b k \<and> j = k \<and> x = rep g a \<and> y = rep g b)) \<and>
    (new \<longleftrightarrow> \<not> blocked g a b k \<and> \<not> edge g k (rep g a) (rep g b)) \<and>
    (\<forall>n. indirectNodes (cgNode g' n) = indirectNodes (cgNode g n))"
proof (cases "blocked g a b k")
  case True
  then show ?thesis using insertConstraint_eq [OF cg_okD(1,2) [OF ok] ab, of k] ok
    by (intro exI [of _ False] exI [of _ g]) simp
next
  case False
  note a = getSuperNode_rep [OF cg_okD(2) [OF ok] ab(1)] and b = getSuperNode_rep [OF cg_okD(2) [OF ok] ab(2)]
  have "cg_ok (linkNodes (rep g a) (rep g b) k g)"
    using False copy rep_not_addr [OF ok ab(2)] rep_mutable [OF ok ab(2)]
    by (intro linkNodes_cg_ok [OF ok a(2,3) b(2,3)]) (auto simp: blocked_def)
  moreover have "\<forall>n. indirectNodes (cgNode (linkNodes (rep g a) (rep g b) k g) n) = indirectNodes (cgNode g n)"
    using a(2) b(2) by (simp add: linkNodes_def cg_simps)
  ultimately show ?thesis
    using insertConstraint_eq [OF cg_okD(1,2) [OF ok] ab, of k] False linkNodes_same [OF a(2) b(2)]
    by (auto simp: linkNodes_edge [OF a(2) b(2)])
qed

text \<open>\<open>addConstraints\<close>: the source is the address-taken node for \<open>addr_of\<close>.\<close>

definition consSrc :: "cons_graph \<Rightarrow> constraints \<Rightarrow> nat \<Rightarrow> nat" where
  "consSrc g k a = (if k = CAddrOf then Suc a else a)"

definition consKind :: "constraints \<Rightarrow> constraints" where
  "consKind k = (if k = CAddrOf then CCopy else k)"

lemma edgeD:
  assumes "cg_ok g" and "edge g k s d"
  shows "s < getNodeNum g" "d < getNodeNum g" "superNode (cgNode g s) = None" "superNode (cgNode g d) = None"
    "k = CCopy \<Longrightarrow> s \<noteq> d" "k = CCopy \<Longrightarrow> \<not> addrNode g d"
    "isImmutable (cgNode g d) \<Longrightarrow> k = CSpecial \<or> (k = CCopy \<and> addrNode g s)"
proof -
  from assms(2) show s: "s < getNodeNum g" by (simp add: edge_def)
  from assms(2) edges_okD(3) [OF cg_okD(1) [OF assms(1)]] show "d < getNodeNum g" by (auto simp: edge_def)
  from cg_okD(4) [OF assms(1)] assms(2)
  show "superNode (cgNode g s) = None" "superNode (cgNode g d) = None"
    "k = CCopy \<Longrightarrow> s \<noteq> d" "k = CCopy \<Longrightarrow> \<not> addrNode g d"
    "isImmutable (cgNode g d) \<Longrightarrow> k = CSpecial \<or> (k = CCopy \<and> addrNode g s)"
    by (auto simp: shape_ok_def)
qed

lemma object_addr:
  assumes "cg_ok g" and "a < getNodeNum g" and "isObjKind (cgKind (cgNode g a))"
  shows "Suc a < getNodeNum g" "cgKind (cgNode g (Suc a)) = PtrNode None" "addrNode g (Suc a)"
proof -
  from assms(3) obtain obj where "cgKind (cgNode g a) = ObjNode obj" by (auto simp: isObjKind_def split: cg_kind.splits)
  with assms(1,2) cg_okD(3) have obj: "obj < length (objVec g)" "objVec g ! obj = a" by (auto simp: objs_ok_def)
  with cg_okD(3) [OF assms(1)] show "Suc a < getNodeNum g" "cgKind (cgNode g (Suc a)) = PtrNode None"
    "addrNode g (Suc a)" by (auto simp: objs_ok_def addrNode_def)
qed

lemma addr_no_super:
  assumes "cg_ok g" and "a < getNodeNum g" and "addrNode g a"
  shows "superNode (cgNode g a) = None" "rep g a = a"
proof -
  show "superNode (cgNode g a) = None"
  proof (rule ccontr)
    assume "superNode (cgNode g a) \<noteq> None"
    then obtain m where "(a, m) \<in> superRel g" using assms(2) by (auto simp: superRel_def)
    with cg_okD(4) [OF assms(1)] assms(3) show False by (auto simp: shape_ok_def)
  qed
  then show "rep g a = a" using rep_self cg_okD(2) [OF assms(1)] assms(2) by blast
qed

lemma addConstraints_ok:
  assumes ok: "cg_ok g" and ab: "a < getNodeNum g" "b < getNodeNum g"
    and copy: "k = CCopy \<or> k = CAddrOf \<Longrightarrow> \<not> addrNode g b" and obj: "k = CAddrOf \<Longrightarrow> isObjKind (cgKind (cgNode g a))"
  shows "\<exists>ev g'. addConstraints a b k g = Inr (ev, g') \<and> cg_ok g' \<and> same_nodes g g' \<and>
    (\<forall>j x y. edge g' j x y \<longleftrightarrow> edge g j x y \<or>
       (\<not> blocked g (consSrc g k a) b (consKind k) \<and> j = consKind k \<and> x = rep g (consSrc g k a) \<and> y = rep g b)) \<and>
    ev = (if \<not> blocked g (consSrc g k a) b (consKind k) \<and> \<not> edge g (consKind k) (rep g (consSrc g k a)) (rep g b)
          then Some (rep g (consSrc g k a), rep g b, consKind k) else None) \<and>
    (\<forall>n. indirectNodes (cgNode g' n) = indirectNodes (cgNode g n))"
proof -
  let ?a = "consSrc g k a" and ?k = "consKind k"
  have a: "?a < getNodeNum g" using ab object_addr [OF ok ab(1) obj] by (auto simp: consSrc_def)
  have "?k = CCopy \<Longrightarrow> \<not> addrNode g b" using copy by (auto simp: consKind_def split: if_splits)
  from insertConstraint_ok [OF ok a ab(2) this] obtain new g' where
    ins: "insertConstraint ?a b ?k g = Inr (new, g')" and ok': "cg_ok g'" and same: "same_nodes g g'"
    and rest: "\<forall>j x y. edge g' j x y \<longleftrightarrow> edge g j x y \<or> (\<not> blocked g ?a b ?k \<and> j = ?k \<and> x = rep g ?a \<and> y = rep g b)"
      "new \<longleftrightarrow> \<not> blocked g ?a b ?k \<and> \<not> edge g ?k (rep g ?a) (rep g b)"
      "\<forall>n. indirectNodes (cgNode g' n) = indirectNodes (cgNode g n)" by blast
  have "getNodeNum g' = getNodeNum g" using same by (simp add: same_nodes_def)
  then have sup: "getSuperNode g' x = Inr (rep g x)" if "x < getNodeNum g" for x
    using getSuperNode_rep(1) [OF cg_okD(2) [OF ok']] same_nodes_rep [OF same cg_okD(2) [OF ok]] that by simp
  have "addConstraints a b k g = Inr (if new then Some (rep g ?a, rep g b, ?k) else None, g')"
  proof (cases "k = CAddrOf")
    case True
    note anon = object_addr [OF ok ab(1) obj [OF True]]
    with addr_no_super [OF ok anon(1,3)] ins sup [OF ab(2)] obj [OF True] True show ?thesis
      by (simp add: addConstraints_def getNode_def hasSuperNode_def consSrc_def consKind_def)
  next
    case False
    show ?thesis
    proof (cases "a = b \<and> k = CCopy")
      case True
      then have "blocked g ?a b ?k" by (simp add: blocked_def consSrc_def consKind_def)
      moreover from this have "g' = g"
        using ins insertConstraint_eq [OF cg_okD(1,2) [OF ok] a ab(2), of ?k] by simp
      ultimately show ?thesis using True rest(2) by (simp add: addConstraints_def)
    next
      case neq: False
      with False ins sup [OF ab(1)] sup [OF ab(2)] show ?thesis
        by (auto simp: addConstraints_def consSrc_def consKind_def)
    qed
  qed
  with ok' same rest show ?thesis by (auto simp del: split_paired_Ex)
qed

subsection \<open>Clearing the edges of a node\<close>

lemma del_fields [simp, cg_simps]:
  "superNode (delSucc k d x) = superNode x" "superNode (delPred k d x) = superNode x"
  "cgKind (delSucc k d x) = cgKind x" "cgKind (delPred k d x) = cgKind x"
  "isImmutable (delSucc k d x) = isImmutable x" "isImmutable (delPred k d x) = isImmutable x"
  "succCons (delPred k d x) = succCons x" "predCons (delSucc k d x) = predCons x"
  "succCons (delSucc k d x) = (succCons x)(k := bvReset d (succCons x k))"
  "predCons (delPred k d x) = (predCons x)(k := bvReset d (predCons x k))"
  "indirectNodes (delSucc k d x) = indirectNodes x" "indirectNodes (delPred k d x) = indirectNodes x"
  by (simp_all add: delSucc_def delPred_def)

lemma fold_upd_num [simp]: "getNodeNum (fold (\<lambda>t. updNode t f) ts g) = getNodeNum g"
  by (induction ts arbitrary: g) simp_all

lemma fold_upd_objs [simp]: "objVec (fold (\<lambda>t. updNode t f) ts g) = objVec g"
  by (induction ts arbitrary: g) simp_all

lemma fold_upd_node:
  assumes "\<forall>t \<in> set ts. t < getNodeNum g" and "distinct ts"
  shows "cgNode (fold (\<lambda>t. updNode t f) ts g) n = (if n \<in> set ts then f (cgNode g n) else cgNode g n)"
  using assms by (induction ts arbitrary: g) (auto simp: cg_simps)

lemma bv_distinct: "bv xs \<Longrightarrow> distinct xs"
  by (simp add: bv_def strict_sorted_iff)

lemma clearKind_node:
  assumes ok: "edges_ok g" and n: "n < getNodeNum g"
  shows "\<exists>f. (\<forall>a < getNodeNum g. cgNode (clearKind n k g) a = f a (cgNode g a)) \<and>
    (\<forall>a x. superNode (f a x) = superNode x \<and> cgKind (f a x) = cgKind x \<and> isImmutable (f a x) = isImmutable x \<and>
       indirectNodes (f a x) = indirectNodes x) \<and>
    (\<forall>a j. succCons (f a (cgNode g a)) j = (if j = k then (if a = n then [] else if a \<in> set (predCons (cgNode g n) k)
       then bvReset n (succCons (cgNode g a) k) else succCons (cgNode g a) k) else succCons (cgNode g a) j)) \<and>
    (\<forall>a j. predCons (f a (cgNode g a)) j = (if j = k then (if a = n then [] else if a \<in> set (succCons (cgNode g n) k)
       then bvReset n (predCons (cgNode g a) k) else predCons (cgNode g a) k) else predCons (cgNode g a) j))"
proof -
  let ?S = "succCons (cgNode g n) k"
  define g1 where "g1 = fold (\<lambda>t. updNode t (delPred k n)) ?S g"
  have S: "\<forall>t \<in> set ?S. t < getNodeNum g" "distinct ?S"
    using edges_okD(1,3) [OF ok n] bv_distinct by blast+
  have g1: "cgNode g1 a = (if a \<in> set ?S then delPred k n (cgNode g a) else cgNode g a)" for a
    unfolding g1_def by (rule fold_upd_node [OF S])
  let ?P = "predCons (cgNode g1 n) k"
  have Psub: "set ?P = set (predCons (cgNode g n) k) - (if n \<in> set ?S then {n} else {})" by (auto simp: g1)
  have P: "\<forall>t \<in> set ?P. t < getNodeNum g1" using Psub edges_okD(4) [OF ok n] by (auto simp: g1_def)
  have "?P = (if n \<in> set ?S then bvReset n (predCons (cgNode g n) k) else predCons (cgNode g n) k)"
    by (simp add: g1)
  then have "distinct ?P" using bv_distinct [OF edges_okD(2) [OF ok n, of k]] by (simp add: bvReset_def)
  note P = P this
  define g2 where "g2 = fold (\<lambda>t. updNode t (delSucc k n)) ?P g1"
  have g2: "cgNode g2 a = (if a \<in> set ?P then delSucc k n (cgNode g1 a) else cgNode g1 a)" for a
    unfolding g2_def by (rule fold_upd_node [OF P])
  have num: "getNodeNum g2 = getNodeNum g" by (simp add: g2_def g1_def)
  have "cgNode (clearKind n k g) a =
      (if a = n then (cgNode g2 n)\<lparr> succCons := (succCons (cgNode g2 n))(k := []), predCons := (predCons (cgNode g2 n))(k := []) \<rparr>
       else cgNode g2 a)" for a
    unfolding clearKind_def Let_def g1_def [symmetric] g2_def [symmetric] using n num by (simp add: cg_simps)
  then show ?thesis
    by (intro exI [of _ "\<lambda>a x. let y = (if a \<in> set ?S then delPred k n x else x);
        z = (if a \<in> set ?P then delSucc k n y else y)
        in if a = n then z\<lparr> succCons := (succCons z)(k := []), predCons := (predCons z)(k := []) \<rparr> else z"])
      (use Psub in \<open>auto simp: Let_def g2 g1\<close>)
qed

definition same_indirect :: "cons_graph \<Rightarrow> cons_graph \<Rightarrow> bool" where
  "same_indirect g g' \<longleftrightarrow> (\<forall>n < getNodeNum g. indirectNodes (cgNode g' n) = indirectNodes (cgNode g n))"

lemma clearKind_num [simp]: "getNodeNum (clearKind n k g) = getNodeNum g" "objVec (clearKind n k g) = objVec g"
  by (simp_all add: clearKind_def Let_def)

lemma clearKind_spec:
  assumes ok: "edges_ok g" and n: "n < getNodeNum g"
  shows "same_nodes g (clearKind n k g) \<and> same_indirect g (clearKind n k g) \<and> edges_ok (clearKind n k g) \<and>
    (\<forall>j a b. edge (clearKind n k g) j a b \<longleftrightarrow> edge g j a b \<and> \<not> (j = k \<and> (a = n \<or> b = n)))"
proof -
  let ?g = "clearKind n k g"
  from clearKind_node [OF assms, of k] obtain f where
    f: "\<And>a. a < getNodeNum g \<Longrightarrow> cgNode ?g a = f a (cgNode g a)"
    "\<And>a x. superNode (f a x) = superNode x \<and> cgKind (f a x) = cgKind x \<and> isImmutable (f a x) = isImmutable x \<and>
       indirectNodes (f a x) = indirectNodes x"
    "\<And>a j. succCons (f a (cgNode g a)) j = (if j = k then (if a = n then [] else if a \<in> set (predCons (cgNode g n) k)
       then bvReset n (succCons (cgNode g a) k) else succCons (cgNode g a) k) else succCons (cgNode g a) j)"
    "\<And>a j. predCons (f a (cgNode g a)) j = (if j = k then (if a = n then [] else if a \<in> set (succCons (cgNode g n) k)
       then bvReset n (predCons (cgNode g a) k) else predCons (cgNode g a) k) else predCons (cgNode g a) j)"
    by blast
  have mirror: "b \<in> set (succCons (cgNode g a) j) \<longleftrightarrow> a \<in> set (predCons (cgNode g b) j)"
    if "a < getNodeNum g" "b < getNodeNum g" for a b j
    using edges_okD(5) [OF ok that, of j] that by (simp add: edge_def)
  have succ: "b \<in> set (succCons (cgNode ?g a) j) \<longleftrightarrow>
      b \<in> set (succCons (cgNode g a) j) \<and> \<not> (j = k \<and> (a = n \<or> b = n))" if "a < getNodeNum g" for a b j
    using mirror [OF that n, of j] by (auto simp: f(1) [OF that] f(3))
  have pred: "b \<in> set (predCons (cgNode ?g a) j) \<longleftrightarrow>
      b \<in> set (predCons (cgNode g a) j) \<and> \<not> (j = k \<and> (a = n \<or> b = n))" if "a < getNodeNum g" for a b j
    using mirror [OF n that, of j] by (auto simp: f(1) [OF that] f(4))
  have e: "edge ?g j a b \<longleftrightarrow> edge g j a b \<and> \<not> (j = k \<and> (a = n \<or> b = n))" for j a b
    by (auto simp: edge_def succ)
  have "edges_ok ?g"
    unfolding edges_ok_def clearKind_num
  proof (intro conjI allI impI)
    fix a j assume a: "a < getNodeNum g"
    show "bv (succCons (cgNode ?g a) j)" "bv (predCons (cgNode ?g a) j)"
      using edges_okD(1,2) [OF ok a] by (auto simp: f(1) [OF a] f(3,4))
    show "\<forall>m \<in> set (succCons (cgNode ?g a) j) \<union> set (predCons (cgNode ?g a) j). m < getNodeNum g"
      using edges_okD(3,4) [OF ok a] by (auto simp: succ [OF a] pred [OF a])
  next
    fix a b j assume "a < getNodeNum g" "b < getNodeNum g"
    then show "edge ?g j a b \<longleftrightarrow> a \<in> set (predCons (cgNode ?g b) j)"
      using edges_okD(5) [OF ok] by (auto simp: e pred)
  qed
  moreover have "same_nodes g ?g" "same_indirect g ?g"
    by (simp_all add: same_nodes_def same_indirect_def f(1,2))
  ultimately show ?thesis using e by simp
qed

lemma same_indirect_trans:
  "same_indirect g g1 \<Longrightarrow> same_indirect g1 g2 \<Longrightarrow> getNodeNum g1 = getNodeNum g \<Longrightarrow> same_indirect g g2"
  by (simp add: same_indirect_def)

lemma clearConstraints_spec:
  assumes ok: "edges_ok g" and n: "n < getNodeNum g"
  shows "same_nodes g (clearConstraints n g) \<and> same_indirect g (clearConstraints n g) \<and> edges_ok (clearConstraints n g) \<and>
    (\<forall>j a b. edge (clearConstraints n g) j a b \<longleftrightarrow> edge g j a b \<and> a \<noteq> n \<and> b \<noteq> n)"
proof -
  have "same_nodes g (fold (clearKind n) ks g) \<and> same_indirect g (fold (clearKind n) ks g) \<and> edges_ok (fold (clearKind n) ks g) \<and>
      (\<forall>j a b. edge (fold (clearKind n) ks g) j a b \<longleftrightarrow> edge g j a b \<and> \<not> (j \<in> set ks \<and> (a = n \<or> b = n)))" for ks
    using assms
  proof (induction ks arbitrary: g)
    case (Cons k ks)
    note one = clearKind_spec [OF Cons.prems, of k]
    from Cons.IH [of "clearKind n k g"] one Cons.prems(2) show ?case
      by (auto intro: same_nodes_trans same_indirect_trans)
  qed (simp add: same_indirect_def)
  from this [of "[CLoad, CStore, CCopy, CAddrOf, COffset, CSpecial]"]
  have "same_nodes g (clearConstraints n g) \<and> same_indirect g (clearConstraints n g) \<and> edges_ok (clearConstraints n g) \<and>
      (\<forall>j a b. edge (clearConstraints n g) j a b \<longleftrightarrow> edge g j a b \<and>
        \<not> (j \<in> set [CLoad, CStore, CCopy, CAddrOf, COffset, CSpecial] \<and> (a = n \<or> b = n)))"
    unfolding clearConstraints_def .
  moreover have "j \<in> set [CLoad, CStore, CCopy, CAddrOf, COffset, CSpecial]" for j by (cases j) simp_all
  ultimately show ?thesis by blast
qed

subsection \<open>Collapsing\<close>

lemma succEdges_iff: "n < getNodeNum g \<Longrightarrow> (k, m) \<in> set (succEdges g n) \<longleftrightarrow> edge g k n m"
  by (cases k) (auto simp: succEdges_def edgeKinds_def edge_def)

lemma predEdges_iff:
  assumes "cg_ok g" and "n < getNodeNum g"
  shows "(k, m) \<in> set (predEdges g n) \<longleftrightarrow> edge g k m n"
proof -
  have "(k, m) \<in> set (predEdges g n) \<longleftrightarrow> m \<in> set (predCons (cgNode g n) k)"
    by (cases k) (auto simp: predEdges_def edgeKinds_def)
  then show ?thesis using edges_okD(4,5) [OF cg_okD(1) [OF assms(1)]] assms(2) edgeD(1) [OF assms(1)] by metis
qed

text \<open>Adding a list of edges between nodes that stand for themselves.\<close>

lemma merge_edges:
  assumes "cg_ok g" and "\<forall>(k, m) \<in> set es. m < getNodeNum g \<and> src m < getNodeNum g \<and> dst m < getNodeNum g \<and>
      superNode (cgNode g (src m)) = None \<and> superNode (cgNode g (dst m)) = None \<and>
      (k = CCopy \<longrightarrow> \<not> addrNode g (dst m)) \<and> (isImmutable (cgNode g (dst m)) \<longrightarrow> k = CSpecial)"
  shows "\<exists>g'. rfold (\<lambda>(k, m) g. rbind (getNode g m) (\<lambda>m. mergeEdge (src m) (dst m) k g)) es g = Inr g' \<and>
    cg_ok g' \<and> same_nodes g g' \<and> same_indirect g g' \<and>
    (\<forall>j x y. edge g' j x y \<longleftrightarrow> edge g j x y \<or>
       (\<exists>m. (j, m) \<in> set es \<and> x = src m \<and> y = dst m \<and> \<not> (j = CCopy \<and> x = y)))"
  using assms
proof (induction es arbitrary: g)
  case Nil
  then show ?case by (simp add: same_indirect_def)
next
  case (Cons e es)
  obtain k m where e: "e = (k, m)" by (cases e)
  with Cons.prems(2) have m: "m < getNodeNum g" "src m < getNodeNum g" "dst m < getNodeNum g"
    "superNode (cgNode g (src m)) = None" "superNode (cgNode g (dst m)) = None"
    "k = CCopy \<Longrightarrow> \<not> addrNode g (dst m)" "isImmutable (cgNode g (dst m)) \<Longrightarrow> k = CSpecial" by auto
  have reps: "rep g (src m) = src m" "rep g (dst m) = dst m"
    using m rep_self cg_okD(2) [OF Cons.prems(1)] by blast+
  have blk: "blocked g (src m) (dst m) k \<longleftrightarrow> k = CCopy \<and> src m = dst m"
    using m(7) reps by (auto simp: blocked_def)
  from insertConstraint_ok [OF Cons.prems(1) m(2,3), of k, OF m(6)] obtain new g1 where
    g1: "insertConstraint (src m) (dst m) k g = Inr (new, g1)" "cg_ok g1" "same_nodes g g1"
    "\<forall>j x y. edge g1 j x y \<longleftrightarrow> edge g j x y \<or> (\<not> (k = CCopy \<and> src m = dst m) \<and> j = k \<and> x = src m \<and> y = dst m)"
    "\<forall>n. indirectNodes (cgNode g1 n) = indirectNodes (cgNode g n)" unfolding blk reps by blast
  have same: "getNodeNum g1 = getNodeNum g" "addrNode g1 = addrNode g"
    "\<And>n. n < getNodeNum g \<Longrightarrow> superNode (cgNode g1 n) = superNode (cgNode g n)"
    "\<And>n. n < getNodeNum g \<Longrightarrow> isImmutable (cgNode g1 n) = isImmutable (cgNode g n)"
    using g1(3) same_nodes_addr by (auto simp: same_nodes_def)
  have "\<forall>(k, m) \<in> set es. m < getNodeNum g1 \<and> src m < getNodeNum g1 \<and> dst m < getNodeNum g1 \<and>
      superNode (cgNode g1 (src m)) = None \<and> superNode (cgNode g1 (dst m)) = None \<and>
      (k = CCopy \<longrightarrow> \<not> addrNode g1 (dst m)) \<and> (isImmutable (cgNode g1 (dst m)) \<longrightarrow> k = CSpecial)"
    using Cons.prems(2) by (fastforce simp: same)
  from Cons.IH [OF g1(2) this] obtain g' where
    g': "rfold (\<lambda>(k, m) g. rbind (getNode g m) (\<lambda>m. mergeEdge (src m) (dst m) k g)) es g1 = Inr g'"
    "cg_ok g'" "same_nodes g1 g'" "same_indirect g1 g'"
    "\<forall>j x y. edge g' j x y \<longleftrightarrow> edge g1 j x y \<or>
       (\<exists>m. (j, m) \<in> set es \<and> x = src m \<and> y = dst m \<and> \<not> (j = CCopy \<and> x = y))" by blast
  have "rfold (\<lambda>(k, m) g. rbind (getNode g m) (\<lambda>m. mergeEdge (src m) (dst m) k g)) (e # es) g = Inr g'"
    using g1(1) g'(1) m(1) by (simp add: e mergeEdge_def getNode_def)
  moreover have "same_nodes g g'" using g1(3) g'(3) by (rule same_nodes_trans)
  moreover have "same_indirect g g'" using g1(5) g'(4) same(1) by (simp add: same_indirect_def)
  moreover have "edge g' j x y \<longleftrightarrow> edge g j x y \<or>
       (\<exists>m. (j, m) \<in> set (e # es) \<and> x = src m \<and> y = dst m \<and> \<not> (j = CCopy \<and> x = y))" for j x y
    using g'(5) g1(4) e by auto
  ultimately show ?case using g'(2) by blast
qed

text \<open>Moving the nodes of a component onto one of them.\<close>

definition onto :: "nat \<Rightarrow> nat set \<Rightarrow> nat \<Rightarrow> nat" where
  "onto S ns x = (if x \<in> ns then S else x)"

definition collapsed :: "nat \<Rightarrow> nat set \<Rightarrow> cons_graph \<Rightarrow> cons_graph \<Rightarrow> bool" where
  "collapsed S ns g g' \<longleftrightarrow> getNodeNum g' = getNodeNum g \<and> objVec g' = objVec g \<and>
     (\<forall>n < getNodeNum g. cgKind (cgNode g' n) = cgKind (cgNode g n) \<and>
        isImmutable (cgNode g' n) = isImmutable (cgNode g n) \<and>
        superNode (cgNode g' n) = (if n \<in> ns - {S} then Some S else superNode (cgNode g n))) \<and>
     (\<forall>k x y. edge g' k x y \<longleftrightarrow> \<not> (k = CCopy \<and> x = y) \<and>
        (\<exists>a b. edge g k a b \<and> onto S ns a = x \<and> onto S ns b = y)) \<and>
     (\<forall>n < getNodeNum g. set (indirectNodes (cgNode g' n)) =
        (if n = S then (\<Union>m \<in> insert S ns. set (indirectNodes (cgNode g m)))
         else if n \<in> ns then {} else set (indirectNodes (cgNode g n))))"

lemma setSuper_edges_ok:
  assumes "edges_ok g" and "n < getNodeNum g" and "\<And>x. succCons (f x) = succCons x" "\<And>x. predCons (f x) = predCons x"
  shows "edges_ok (updNode n f g) \<and> (\<forall>k a b. edge (updNode n f g) k a b \<longleftrightarrow> edge g k a b)"
proof -
  have e: "edge (updNode n f g) k a b \<longleftrightarrow> edge g k a b" for k a b
    using assms(2-4) by (simp add: edge_def cg_simps)
  have "edges_ok (updNode n f g)"
    using assms unfolding edges_ok_def getNodeNum_upd e by (simp add: cgNode_upd)
  then show ?thesis using e by blast
qed

lemma collapseNode_ok:
  assumes ok: "cg_ok g" and S: "S < getNodeNum g" "superNode (cgNode g S) = None" "\<not> isImmutable (cgNode g S)" "\<not> addrNode g S"
    and n: "n < getNodeNum g" "superNode (cgNode g n) = None" "\<not> isImmutable (cgNode g n)" "\<not> addrNode g n"
    and ne: "n \<noteq> S"
  shows "\<exists>g'. collapseNode S n g = Inr g' \<and> cg_ok g' \<and> collapsed S {n} g g'"
proof -
  have "\<forall>(k, m) \<in> set (predEdges g n). m < getNodeNum g \<and> m < getNodeNum g \<and> S < getNodeNum g \<and>
      superNode (cgNode g m) = None \<and> superNode (cgNode g S) = None \<and>
      (k = CCopy \<longrightarrow> \<not> addrNode g S) \<and> (isImmutable (cgNode g S) \<longrightarrow> k = CSpecial)"
    using S edgeD [OF ok] by (auto simp: predEdges_iff [OF ok n(1)])
  from merge_edges [OF ok this] obtain g1 where
    g1: "rfold (\<lambda>(k, m) g. rbind (getNode g m) (\<lambda>m. mergeEdge m S k g)) (predEdges g n) g = Inr g1"
    "cg_ok g1" "same_nodes g g1" "same_indirect g g1"
    "\<forall>j x y. edge g1 j x y \<longleftrightarrow> edge g j x y \<or>
       (\<exists>m. (j, m) \<in> set (predEdges g n) \<and> x = m \<and> y = S \<and> \<not> (j = CCopy \<and> x = y))" by blast
  have e1: "edge g1 j x y \<longleftrightarrow> edge g j x y \<or> (edge g j x n \<and> y = S \<and> \<not> (j = CCopy \<and> x = S))" for j x y
    using g1(5) by (auto simp: predEdges_iff [OF ok n(1)])
  have f1: "getNodeNum g1 = getNodeNum g" "addrNode g1 = addrNode g"
    "superNode (cgNode g1 S) = None" "superNode (cgNode g1 n) = None"
    "isImmutable (cgNode g1 S) = isImmutable (cgNode g S)"
    using g1(3) S n same_nodes_addr [OF g1(3)] by (auto simp: same_nodes_def)
  have "\<forall>(k, m) \<in> set (succEdges g1 n). m < getNodeNum g1 \<and> S < getNodeNum g1 \<and> m < getNodeNum g1 \<and>
      superNode (cgNode g1 S) = None \<and> superNode (cgNode g1 m) = None \<and>
      (k = CCopy \<longrightarrow> \<not> addrNode g1 m) \<and> (isImmutable (cgNode g1 m) \<longrightarrow> k = CSpecial)"
  proof clarify
    fix k m assume "(k, m) \<in> set (succEdges g1 n)"
    then have e: "edge g1 k n m" using n(1) by (simp add: succEdges_iff f1)
    from edgeD [OF g1(2) e] n(4) S(1) f1
    show "m < getNodeNum g1 \<and> S < getNodeNum g1 \<and> m < getNodeNum g1 \<and>
        superNode (cgNode g1 S) = None \<and> superNode (cgNode g1 m) = None \<and>
        (k = CCopy \<longrightarrow> \<not> addrNode g1 m) \<and> (isImmutable (cgNode g1 m) \<longrightarrow> k = CSpecial)" by auto
  qed
  from merge_edges [OF g1(2) this] obtain g2 where
    g2: "rfold (\<lambda>(k, m) g. rbind (getNode g m) (\<lambda>m. mergeEdge S m k g)) (succEdges g1 n) g1 = Inr g2"
    "cg_ok g2" "same_nodes g1 g2" "same_indirect g1 g2"
    "\<forall>j x y. edge g2 j x y \<longleftrightarrow> edge g1 j x y \<or>
       (\<exists>m. (j, m) \<in> set (succEdges g1 n) \<and> x = S \<and> y = m \<and> \<not> (j = CCopy \<and> x = y))" by blast
  have e2: "edge g2 j x y \<longleftrightarrow> edge g1 j x y \<or> (edge g1 j n y \<and> x = S \<and> \<not> (j = CCopy \<and> y = S))" for j x y
    using g2(5) n(1) by (auto simp: succEdges_iff f1)
  have same: "same_nodes g g2" using same_nodes_trans g1(3) g2(3) by blast
  have ind: "same_indirect g g2" using same_indirect_trans g1(4) g2(4) f1(1) by blast
  have num: "getNodeNum g2 = getNodeNum g" "objVec g2 = objVec g" using same by (simp_all add: same_nodes_def)
  define fS where "fS = (\<lambda>y :: cons_node. y\<lparr> childNodes := bvOr (childNodes y) (childNodes (cgNode g2 n)),
    indirectNodes := fold sorted_insert (indirectNodes (cgNode g2 n)) (indirectNodes y) \<rparr>)"
  define fn where "fn = (\<lambda>y :: cons_node. y\<lparr> indirectNodes := [], childNodes := [] \<rparr>)"
  define g4 where "g4 = updNode n fn (updNode S fS g2)"
  have num4: "getNodeNum g4 = getNodeNum g" "objVec g4 = objVec g" by (simp_all add: g4_def num)
  have flds: "succCons (fS x) = succCons x" "predCons (fS x) = predCons x" "succCons (fn x) = succCons x"
    "predCons (fn x) = predCons x" "superNode (fS x) = superNode x" "superNode (fn x) = superNode x"
    "cgKind (fS x) = cgKind x" "cgKind (fn x) = cgKind x" "isImmutable (fS x) = isImmutable x"
    "isImmutable (fn x) = isImmutable x" for x by (simp_all add: fS_def fn_def)
  have e4: "edges_ok g4" "\<And>k a b. edge g4 k a b \<longleftrightarrow> edge g2 k a b"
    using setSuper_edges_ok [OF cg_okD(1) [OF g2(2)], of S fS] S(1) n(1)
      setSuper_edges_ok [of "updNode S fS g2" n fn] by (auto simp: g4_def flds num)
  have node4: "cgNode g4 m = (if m = n then fn (cgNode g2 n) else if m = S then fS (cgNode g2 S) else cgNode g2 m)" for m
    using S(1) n(1) ne by (simp add: g4_def cgNode_upd num)
  have same4: "same_nodes g2 g4" by (simp add: same_nodes_def node4 flds num num4)
  have setfold: "set (fold sorted_insert xs ys) = set xs \<union> set ys" for xs ys :: "nat list"
    by (induction xs arbitrary: ys) auto
  have ind4: "set (indirectNodes (cgNode g4 m)) = (if m = S then set (indirectNodes (cgNode g S)) \<union> set (indirectNodes (cgNode g n))
      else if m = n then {} else set (indirectNodes (cgNode g m)))" if "m < getNodeNum g" for m
    using that S(1) n(1) ne ind by (auto simp: node4 fS_def fn_def setfold same_indirect_def)
  note clr = clearConstraints_spec [OF e4(1), of n]
  define g5 where "g5 = clearConstraints n g4"
  have g5: "same_nodes g4 g5" "same_indirect g4 g5" "edges_ok g5"
    "\<And>j a b. edge g5 j a b \<longleftrightarrow> edge g2 j a b \<and> a \<noteq> n \<and> b \<noteq> n"
    using clr n(1) e4(2) by (simp_all add: g5_def num4)
  define fs where "fs = (\<lambda>y :: cons_node. y\<lparr> superNode := Some S \<rparr>)"
  define g' where "g' = updNode n fs g5"
  have num5: "getNodeNum g5 = getNodeNum g" "objVec g5 = objVec g" using g5(1) num4 by (simp_all add: same_nodes_def)
  have run: "collapseNode S n g = Inr g'"
    using ne g1(1) g2(1)
    by (simp add: collapseNode_def Let_def g'_def g5_def g4_def fs_def fS_def fn_def)
  have e': "edges_ok g'" "\<And>k a b. edge g' k a b \<longleftrightarrow> edge g2 k a b \<and> a \<noteq> n \<and> b \<noteq> n"
    using setSuper_edges_ok [OF g5(3), of n fs] n(1) g5(4) by (auto simp: g'_def fs_def num5)
  have num': "getNodeNum g' = getNodeNum g" "objVec g' = objVec g" by (simp_all add: g'_def num5)
  have same5: "same_nodes g g5" using same same4 g5(1) same_nodes_trans by blast
  have node': "cgKind (cgNode g' m) = cgKind (cgNode g m)" "isImmutable (cgNode g' m) = isImmutable (cgNode g m)"
    "superNode (cgNode g' m) = (if m = n then Some S else superNode (cgNode g m))" if "m < getNodeNum g" for m
    using same5 that n(1) by (simp_all add: g'_def cgNode_upd num5 fs_def same_nodes_def)
  have ind': "set (indirectNodes (cgNode g' m)) = (if m = S then set (indirectNodes (cgNode g S)) \<union> set (indirectNodes (cgNode g n))
      else if m = n then {} else set (indirectNodes (cgNode g m)))" if "m < getNodeNum g" for m
    using g5(2) ind4 [OF that] that n(1) num4
    by (cases "m = n"; cases "m = S") (auto simp: g'_def cgNode_upd num5 fs_def same_indirect_def)
  have selfcopy: "\<not> edge g CCopy x x" for x using edgeD(5) [OF ok] by blast
  have edges: "edge g' k x y \<longleftrightarrow> \<not> (k = CCopy \<and> x = y) \<and> (\<exists>a b. edge g k a b \<and> onto S {n} a = x \<and> onto S {n} b = y)"
    for k x y
    unfolding e'(2) e2 e1 onto_def using ne selfcopy by (auto split: if_splits)
  have addr': "addrNode g' = addrNode g" by (simp add: addrNode_def num' fun_eq_iff)
  have sup': "superRel g' = insert (n, S) (superRel g)"
    using n(1,2) node'(3) by (auto simp: superRel_def num' split: if_splits)
  have "(S, n) \<notin> (superRel g)\<^sup>*" using S(2) ne by (auto simp: superRel_def elim: converse_rtranclE)
  then have "super_ok g'" using cg_okD(2) [OF ok] S(1) by (auto simp: super_ok_def sup' acyclic_insert num')
  moreover have "objs_ok g'" using cg_okD(3) [OF ok] node'(1) unfolding objs_ok_def num' by (metis Suc_lessD)
  moreover have "shape_ok g'"
    unfolding shape_ok_def addr' sup'
  proof (intro conjI allI impI)
    fix k x y assume e: "edge g' k x y"
    then obtain e2': "edge g2 k x y" "x \<noteq> n" "y \<noteq> n" using e'(2) by blast
    note D = edgeD [OF g2(2) e2'(1), unfolded num]
    have old: "superNode (cgNode g2 m) = superNode (cgNode g m)" "isImmutable (cgNode g2 m) = isImmutable (cgNode g m)"
      if "m < getNodeNum g" for m using same that by (simp_all add: same_nodes_def)
    have adr: "addrNode g2 = addrNode g" by (rule same_nodes_addr [OF same])
    show "superNode (cgNode g' x) = None" "superNode (cgNode g' y) = None"
      using D(1-4) e2' by (simp_all add: node'(3) old)
    { assume "k = CCopy" then show "x \<noteq> y" "\<not> addrNode g y" using D(5,6) adr by auto }
    { assume "isImmutable (cgNode g' y)"
      then show "k = CSpecial \<or> k = CCopy \<and> addrNode g x" using D(2,7) adr by (simp add: node'(2) old) }
  next
    have supr: "m < getNodeNum g \<and> m' < getNodeNum g" if "(m, m') \<in> superRel g" for m m'
      using that cg_okD(2) [OF ok] by (auto simp: super_ok_def superRel_def)
    show "\<forall>(m, m') \<in> insert (n, S) (superRel g). \<not> isImmutable (cgNode g' m) \<and> \<not> isImmutable (cgNode g' m') \<and>
        \<not> addrNode g m \<and> \<not> addrNode g m'"
      using cg_okD(4) [OF ok] S n supr node'(2) by (fastforce simp: shape_ok_def)
  qed
  ultimately have "cg_ok g'" using e'(1) by (simp add: cg_ok_def)
  moreover have "collapsed S {n} g g'"
    unfolding collapsed_def using num' node' ind' edges ne by (auto simp: insert_commute)
  ultimately show ?thesis using run by blast
qed

lemma onto_insert: "onto S ns (onto S {n} x) = onto S (insert n ns) x"
  by (simp add: onto_def)

lemma collapsed_trans:
  assumes one: "collapsed S {n} g g1" and rest: "collapsed S ns g1 g2"
    and range: "n < getNodeNum g" "S < getNodeNum g" "ns \<subseteq> {..<getNodeNum g}"
  shows "collapsed S (insert n ns) g g2"
proof -
  have num: "getNodeNum g1 = getNodeNum g" using one by (simp add: collapsed_def)
  have e1: "edge g1 k x y \<longleftrightarrow> \<not> (k = CCopy \<and> x = y) \<and> (\<exists>a b. edge g k a b \<and> onto S {n} a = x \<and> onto S {n} b = y)"
    for k x y using one unfolding collapsed_def by blast
  have e2: "edge g2 k x y \<longleftrightarrow> \<not> (k = CCopy \<and> x = y) \<and> (\<exists>a b. edge g1 k a b \<and> onto S ns a = x \<and> onto S ns b = y)"
    for k x y using rest unfolding collapsed_def by blast
  have "edge g2 k x y \<longleftrightarrow> \<not> (k = CCopy \<and> x = y) \<and>
      (\<exists>a b. edge g k a b \<and> onto S (insert n ns) a = x \<and> onto S (insert n ns) b = y)" for k x y
  proof
    assume "edge g2 k x y"
    then obtain a b where "\<not> (k = CCopy \<and> x = y)" "edge g1 k a b" "onto S ns a = x" "onto S ns b = y"
      unfolding e2 by blast
    moreover from \<open>edge g1 k a b\<close> obtain a0 b0 where "edge g k a0 b0" "onto S {n} a0 = a" "onto S {n} b0 = b"
      unfolding e1 by blast
    ultimately show "\<not> (k = CCopy \<and> x = y) \<and>
        (\<exists>a b. edge g k a b \<and> onto S (insert n ns) a = x \<and> onto S (insert n ns) b = y)"
      by (auto simp: onto_insert [of S ns n, symmetric])
  next
    assume r: "\<not> (k = CCopy \<and> x = y) \<and>
        (\<exists>a b. edge g k a b \<and> onto S (insert n ns) a = x \<and> onto S (insert n ns) b = y)"
    then obtain a b where ab: "edge g k a b" "onto S ns (onto S {n} a) = x" "onto S ns (onto S {n} b) = y"
      by (auto simp: onto_insert)
    with r have "edge g1 k (onto S {n} a) (onto S {n} b)" unfolding e1 by auto
    with r ab show "edge g2 k x y" unfolding e2 by auto
  qed
  moreover have i1: "set (indirectNodes (cgNode g1 m)) = (if m = S then (\<Union>m \<in> insert S {n}. set (indirectNodes (cgNode g m)))
      else if m \<in> {n} then {} else set (indirectNodes (cgNode g m)))" if "m < getNodeNum g" for m
    using one that unfolding collapsed_def by blast
  have i2: "set (indirectNodes (cgNode g2 m)) = (if m = S then (\<Union>m \<in> insert S ns. set (indirectNodes (cgNode g1 m)))
      else if m \<in> ns then {} else set (indirectNodes (cgNode g1 m)))" if "m < getNodeNum g" for m
    using rest that unfolding collapsed_def num by blast
  have "set (indirectNodes (cgNode g2 m)) = (if m = S then (\<Union>m \<in> insert S (insert n ns). set (indirectNodes (cgNode g m)))
      else if m \<in> insert n ns then {} else set (indirectNodes (cgNode g m)))" if m: "m < getNodeNum g" for m
  proof (cases "m = S")
    case True
    have "(\<Union>m \<in> insert S ns. set (indirectNodes (cgNode g1 m))) =
        (\<Union>m \<in> insert S (insert n ns). set (indirectNodes (cgNode g m)))"
    proof (intro equalityI UN_least)
      fix a assume a: "a \<in> insert S ns"
      then have "a < getNodeNum g" using range(2,3) by blast
      with a show "set (indirectNodes (cgNode g1 a)) \<subseteq> (\<Union>m \<in> insert S (insert n ns). set (indirectNodes (cgNode g m)))"
        using i1 [of a] by (cases "a = S"; cases "a = n") auto
    next
      fix a assume a: "a \<in> insert S (insert n ns)"
      then have r: "a < getNodeNum g" using range by blast
      have "set (indirectNodes (cgNode g1 S)) = set (indirectNodes (cgNode g S)) \<union> set (indirectNodes (cgNode g n))"
        using i1 [OF range(2)] by simp
      then show "set (indirectNodes (cgNode g a)) \<subseteq> (\<Union>m \<in> insert S ns. set (indirectNodes (cgNode g1 m)))"
        using a i1 [OF r] by (cases "a = S"; cases "a = n") auto
    qed
    with True show ?thesis using i2 [OF m] by simp
  next
    case False
    then show ?thesis using i1 [OF m] i2 [OF m] by auto
  qed
  moreover have "getNodeNum g2 = getNodeNum g \<and> objVec g2 = objVec g"
    using one rest by (simp add: collapsed_def)
  moreover have "cgKind (cgNode g2 m) = cgKind (cgNode g m) \<and> isImmutable (cgNode g2 m) = isImmutable (cgNode g m) \<and>
      superNode (cgNode g2 m) = (if m \<in> insert n ns - {S} then Some S else superNode (cgNode g m))"
    if "m < getNodeNum g" for m
    using one rest that by (simp add: collapsed_def)
  ultimately show ?thesis unfolding collapsed_def by simp
qed

lemma collapsed_refl: "cg_ok g \<Longrightarrow> collapsed S {} g g \<and> collapsed S {S} g g"
  using edgeD(5) by (auto simp: collapsed_def onto_def)

lemma collapse_fold:
  assumes "cg_ok g" and "distinct ns" and "\<forall>n \<in> insert S (set ns). n < getNodeNum g \<and> superNode (cgNode g n) = None \<and>
      \<not> isImmutable (cgNode g n) \<and> \<not> addrNode g n"
  shows "\<exists>g'. rfold (collapseNode S) ns g = Inr g' \<and> cg_ok g' \<and> collapsed S (set ns) g g'"
  using assms
proof (induction ns arbitrary: g)
  case Nil
  then show ?case using collapsed_refl by simp
next
  case (Cons n ns)
  have "\<exists>g1. collapseNode S n g = Inr g1 \<and> cg_ok g1 \<and> collapsed S {n} g g1"
  proof (cases "n = S")
    case True
    then show ?thesis using Cons.prems(1) collapsed_refl by (simp add: collapseNode_def)
  next
    case False
    with Cons.prems show ?thesis by (intro collapseNode_ok) auto
  qed
  then obtain g1 where g1: "collapseNode S n g = Inr g1" "cg_ok g1" "collapsed S {n} g g1" by blast
  then have num: "getNodeNum g1 = getNodeNum g" and addr: "addrNode g1 = addrNode g"
    by (auto simp: collapsed_def addrNode_def)
  have "\<forall>m \<in> insert S (set ns). m < getNodeNum g1 \<and> superNode (cgNode g1 m) = None \<and>
      \<not> isImmutable (cgNode g1 m) \<and> \<not> addrNode g1 m"
    using Cons.prems(2,3) g1(3) by (auto simp: num addr) (auto simp: collapsed_def)
  with Cons.IH [OF g1(2)] Cons.prems(2) obtain g2 where
    g2: "rfold (collapseNode S) ns g1 = Inr g2" "cg_ok g2" "collapsed S (set ns) g1 g2" by auto
  have "collapsed S (insert n (set ns)) g g2"
    using Cons.prems(3) by (intro collapsed_trans [OF g1(3) g2(3)]) auto
  then show ?case using g1(1) g2 by simp
qed

lemma collapse_exact:
  assumes "cg_ok g" and "distinct scc" and "S \<in> set scc" and "\<forall>n \<in> set scc. n < getNodeNum g \<and>
      superNode (cgNode g n) = None \<and> \<not> isImmutable (cgNode g n) \<and> \<not> addrNode g n"
  shows "\<exists>g'. collapseSCCTo scc S g = Inr g' \<and> cg_ok g' \<and> collapsed S (set scc) g g'"
  using collapse_fold [OF assms(1,2), of S] assms(3,4)
  by (auto simp: collapseSCCTo_def hasSuperNode_def list_all_iff rassert_def insert_absorb)

lemma collapsed_rep:
  assumes ok: "cg_ok g" "cg_ok g'" and col: "collapsed S ns g g'" and S: "S < getNodeNum g" "superNode (cgNode g S) = None"
    and ns: "\<forall>n \<in> ns. n < getNodeNum g \<and> superNode (cgNode g n) = None" and n: "n < getNodeNum g"
  shows "rep g' n = onto S ns (rep g n)"
proof -
  note r = getSuperNode_rep [OF cg_okD(2) [OF ok(1)] n]
  have num: "getNodeNum g' = getNodeNum g" using col by (simp add: collapsed_def)
  have sup: "superNode (cgNode g' m) = (if m \<in> ns - {S} then Some S else superNode (cgNode g m))" if "m < getNodeNum g" for m
    using col that by (simp add: collapsed_def)
  have "superRel g \<subseteq> superRel g'" using ns by (auto simp: superRel_def num sup)
  then have "(n, rep g n) \<in> (superRel g')\<^sup>*" using r(4) rtrancl_mono by blast
  moreover have "(rep g n, onto S ns (rep g n)) \<in> (superRel g')\<^sup>*"
  proof (cases "rep g n \<in> ns - {S}")
    case True
    then have "(rep g n, S) \<in> superRel g'" using r(2) by (simp add: superRel_def num sup)
    then show ?thesis using True by (auto simp: onto_def)
  qed (auto simp: onto_def)
  moreover have "superNode (cgNode g' (onto S ns (rep g n))) = None"
    using S r(2,3) by (simp add: onto_def sup)
  ultimately show ?thesis using cg_okD(2) [OF ok(2)] n num by (intro rep_unique) auto
qed

subsection \<open>New nodes\<close>

definition cg_extends :: "cons_graph \<Rightarrow> cons_graph \<Rightarrow> bool" where
  "cg_extends g g' \<longleftrightarrow> getNodeNum g \<le> getNodeNum g' \<and> (\<exists>new. objVec g' = objVec g @ new) \<and>
     (\<forall>n < getNodeNum g. cgKind (cgNode g' n) = cgKind (cgNode g n) \<and> superNode (cgNode g' n) = superNode (cgNode g n) \<and>
        isImmutable (cgNode g' n) = isImmutable (cgNode g n) \<and> indirectNodes (cgNode g' n) = indirectNodes (cgNode g n))"

lemma cg_extends_refl [simp]: "cg_extends g g"
  by (simp add: cg_extends_def)

lemma cg_extends_trans: "cg_extends g g1 \<Longrightarrow> cg_extends g1 g2 \<Longrightarrow> cg_extends g g2"
  by (auto simp: cg_extends_def)

lemma addNewNode_nodes:
  assumes "addNewNode k g = (n, g')"
  shows "n = getNodeNum g" "getNodeNum g' = Suc (getNodeNum g)" "objVec g' = objVec g"
    "m < getNodeNum g \<Longrightarrow> cgNode g' m = cgNode g m" "cgNode g' (getNodeNum g) = newNode k"
  using assms by (auto simp: addNewNode_def getNodeNum_def cgNode_def nth_append)

lemma addNewNode_edges:
  assumes "edges_ok g" and "addNewNode k g = (n, g')"
  shows "edge g' j a b \<longleftrightarrow> edge g j a b" "edges_ok g'"
proof -
  note new = addNewNode_nodes [OF assms(2)]
  have empty: "succCons (newNode k) j = []" "predCons (newNode k) j = []" for j by (simp_all add: newNode_def)
  have e: "edge g' j a b \<longleftrightarrow> edge g j a b" for j a b
    by (cases "a = getNodeNum g") (auto simp: edge_def new(2,4,5) empty less_Suc_eq)
  then show "edge g' j a b \<longleftrightarrow> edge g j a b" .
  show "edges_ok g'"
    unfolding edges_ok_def e new(2)
  proof (intro conjI allI impI)
    fix a j assume a: "a < Suc (getNodeNum g)"
    show "bv (succCons (cgNode g' a) j)" "bv (predCons (cgNode g' a) j)"
      using a edges_okD(1,2) [OF assms(1)] by (cases "a = getNodeNum g"; simp add: new(4,5) empty)+
    show "\<forall>m \<in> set (succCons (cgNode g' a) j) \<union> set (predCons (cgNode g' a) j). m < Suc (getNodeNum g)"
    proof (cases "a = getNodeNum g")
      case False
      with a have "a < getNodeNum g" by simp
      with edges_okD(3,4) [OF assms(1) this] show ?thesis by (auto simp: new(4) intro: less_SucI)
    qed (simp add: new(5) empty)
  next
    fix a b j assume "a < Suc (getNodeNum g)" "b < Suc (getNodeNum g)"
    then consider "a = getNodeNum g" "b = getNodeNum g" | "a = getNodeNum g" "b < getNodeNum g"
      | "a < getNodeNum g" "b = getNodeNum g" | "a < getNodeNum g" "b < getNodeNum g" by linarith
    then show "edge g j a b \<longleftrightarrow> a \<in> set (predCons (cgNode g' b) j)"
    proof cases
      case 2
      with edges_okD(4) [OF assms(1) 2(2), of a j] show ?thesis by (auto simp: new(4) edge_def)
    next
      case 3
      with edges_okD(3) [OF assms(1) 3(1), of b j] show ?thesis by (auto simp: new(5) empty edge_def)
    next
      case 4
      with edges_okD(5) [OF assms(1) 4, of j] show ?thesis by (simp add: new(4))
    qed (simp add: new(5) empty edge_def)
  qed
qed

lemma addNewNode_super:
  assumes "addNewNode k g = (n, g')"
  shows "superRel g' = superRel g" "super_ok g \<Longrightarrow> super_ok g'"
proof -
  note new = addNewNode_nodes [OF assms]
  show s: "superRel g' = superRel g"
    by (auto simp: superRel_def new(2,4,5) less_Suc_eq newNode_def)
  show "super_ok g \<Longrightarrow> super_ok g'" by (auto simp: super_ok_def s new(2))
qed

lemma addNewNode_extends:
  assumes "addNewNode k g = (n, g')"
  shows "cg_extends g g'"
  using addNewNode_nodes [OF assms] by (simp add: cg_extends_def)

lemma addPtrNode_ok:
  assumes ok: "cg_ok g" and p: "length p = getNodeNum g"
  shows "\<exists>g'. addPtrNode v (g, p) = Inr (getNodeNum g, g', p @ [[]]) \<and> cg_ok g' \<and> cg_extends g g' \<and>
    getNodeNum g' = Suc (getNodeNum g) \<and> objVec g' = objVec g \<and> cgNode g' (getNodeNum g) = newNode (PtrNode v) \<and>
    (\<forall>j a b. edge g' j a b \<longleftrightarrow> edge g j a b)"
proof -
  obtain n g' where new: "addNewNode (PtrNode v) g = (n, g')" by fastforce
  note nodes = addNewNode_nodes [OF new]
  have addr: "addrNode g' = addrNode g" by (simp add: addrNode_def nodes(3) fun_eq_iff)
  have e: "edge g' j a b \<longleftrightarrow> edge g j a b" for j a b using addNewNode_edges(1) [OF cg_okD(1) [OF ok] new] .
  have "objs_ok g'" using cg_okD(3) [OF ok] unfolding objs_ok_def nodes(2,3)
    by (auto simp: nodes(4,5) less_Suc_eq newNode_def)
  moreover have "shape_ok g'"
    unfolding shape_ok_def addr e addNewNode_super(1) [OF new]
  proof (intro conjI allI impI)
    fix k s d assume ed: "edge g k s d"
    note D = edgeD [OF ok ed]
    show "superNode (cgNode g' s) = None" "superNode (cgNode g' d) = None" using D by (simp_all add: nodes(4))
    { assume "k = CCopy" then show "s \<noteq> d" "\<not> addrNode g d" using D by blast+ }
    { assume "isImmutable (cgNode g' d)" then show "k = CSpecial \<or> k = CCopy \<and> addrNode g s" using D by (simp add: nodes(4)) }
  next
    show "\<forall>(n, m) \<in> superRel g. \<not> isImmutable (cgNode g' n) \<and> \<not> isImmutable (cgNode g' m) \<and> \<not> addrNode g n \<and> \<not> addrNode g m"
      using cg_okD(2,4) [OF ok] by (auto simp: shape_ok_def super_ok_def superRel_def nodes(4) split: if_splits)
  qed
  ultimately have "cg_ok g'"
    using addNewNode_edges(2) [OF cg_okD(1) [OF ok] new] addNewNode_super(2) [OF new cg_okD(2) [OF ok]]
    by (simp add: cg_ok_def)
  then show ?thesis using new nodes e addNewNode_extends [OF new] p by (simp add: addPtrNode_def ptsOnNewNode_def)
qed

lemma addObjNode_ok:
  assumes ok: "cg_ok g" and p: "length p = getNodeNum g" and obj: "obj = length (objVec g)" "obj < getNodeNum g + 2"
  shows "\<exists>g'. addObjNode obj (g, p) = Inr (getNodeNum g, g', p @ [[], [obj]]) \<and> cg_ok g' \<and> cg_extends g g' \<and>
    getNodeNum g' = getNodeNum g + 2 \<and> objVec g' = objVec g @ [getNodeNum g] \<and>
    indirectNodes (cgNode g' (getNodeNum g)) = [] \<and> indirectNodes (cgNode g' (Suc (getNodeNum g))) = [] \<and>
    (\<forall>j a b. edge g' j a b \<longleftrightarrow> edge g j a b \<or> (j = CAddrOf \<and> a = getNodeNum g \<and> b = Suc (getNodeNum g)))"
proof -
  let ?N = "getNodeNum g"
  obtain n g1 where new1: "addNewNode (ObjNode obj) g = (n, g1)" by fastforce
  note nodes1 = addNewNode_nodes [OF new1]
  obtain a g2 where new2: "addNewNode (PtrNode None) g1 = (a, g2)" by fastforce
  note nodes2 = addNewNode_nodes [OF new2]
  have E1: "edges_ok g1" "\<And>j a b. edge g1 j a b \<longleftrightarrow> edge g j a b"
    using addNewNode_edges [OF cg_okD(1) [OF ok] new1] by blast+
  have E2: "edges_ok g2" "\<And>j a b. edge g2 j a b \<longleftrightarrow> edge g j a b"
    using addNewNode_edges [OF E1(1) new2] E1(2) by blast+
  have S2: "superRel g2 = superRel g" "super_ok g2"
    using addNewNode_super [OF new1] addNewNode_super [OF new2] cg_okD(2) [OF ok] by simp_all
  have num2: "getNodeNum g2 = ?N + 2" "objVec g2 = objVec g" by (simp_all add: nodes1 nodes2)
  have node2: "m < ?N \<Longrightarrow> cgNode g2 m = cgNode g m" "cgNode g2 ?N = newNode (ObjNode obj)"
    "cgNode g2 (Suc ?N) = newNode (PtrNode None)" for m
    using nodes1 nodes2 by simp_all
  have reps: "rep g2 ?N = ?N" "rep g2 (Suc ?N) = Suc ?N"
    using rep_self [OF S2(2)] by (simp_all add: num2 node2 newNode_def)
  let ?g3 = "linkNodes ?N (Suc ?N) CAddrOf g2"
  have fresh: "\<not> edge g CAddrOf ?N (Suc ?N)" by (simp add: edge_def)
  have ins: "insertConstraint ?N (Suc ?N) CAddrOf g2 = Inr (True, ?g3)"
    using insertConstraint_eq [OF E2(1) S2(2), of ?N "Suc ?N" CAddrOf] fresh
    by (simp add: num2 blocked_def node2 newNode_def reps E2(2))
  define g' where "g' = ?g3\<lparr> objVec := objVec ?g3 @ [?N] \<rparr>"
  have same3: "same_nodes g2 ?g3" using linkNodes_same [of ?N g2 "Suc ?N"] by (simp add: num2)
  have num': "getNodeNum g' = ?N + 2" "objVec g' = objVec g @ [?N]"
    using num2 by (simp_all add: g'_def getNodeNum_def linkNodes_def updNode_def)
  have node': "cgNode g' m = cgNode ?g3 m" for m by (simp add: g'_def cgNode_def)
  have E': "edge g' j a b \<longleftrightarrow> edge g j a b \<or> (j = CAddrOf \<and> a = ?N \<and> b = Suc ?N)" for j a b
  proof -
    have "edge g' j a b \<longleftrightarrow> edge ?g3 j a b" by (simp add: edge_def node' num' num2)
    then show ?thesis using linkNodes_edge [of ?N g2 "Suc ?N" CAddrOf j a b] by (simp add: num2 E2(2))
  qed
  have "edges_ok ?g3" using linkNodes_edges_ok [OF E2(1), of ?N "Suc ?N"] by (simp add: num2)
  moreover have "edge g' j a b \<longleftrightarrow> edge ?g3 j a b" for j a b by (simp add: edge_def node' num' num2)
  moreover have "getNodeNum g' = getNodeNum ?g3" by (simp add: num' num2)
  ultimately have "edges_ok g'" by (simp only: edges_ok_def node')
  have kinds: "superNode (cgNode g' m) = superNode (cgNode g2 m) \<and> cgKind (cgNode g' m) = cgKind (cgNode g2 m) \<and>
      isImmutable (cgNode g' m) = isImmutable (cgNode g2 m)" if "m < ?N + 2" for m
    using same3 that by (simp add: same_nodes_def num2 node')
  have S': "superRel g' = superRel g" unfolding S2(1) [symmetric] using kinds by (auto simp: superRel_def num' num2)
  then have "super_ok g'" using cg_okD(2) [OF ok] by (auto simp: super_ok_def num')
  have kind_of: "m < ?N \<Longrightarrow> cgKind (cgNode g' m) = cgKind (cgNode g m)" "cgKind (cgNode g' ?N) = ObjNode obj"
    "cgKind (cgNode g' (Suc ?N)) = PtrNode None" for m
    using kinds [of m] kinds [of ?N] kinds [of "Suc ?N"] by (simp_all add: node2 newNode_def)
  have old_obj: "Suc (objVec g ! i) < ?N" "cgKind (cgNode g (objVec g ! i)) = ObjNode i"
    "cgKind (cgNode g (Suc (objVec g ! i))) = PtrNode None" if "i < length (objVec g)" for i
    using cg_okD(3) [OF ok] that by (auto simp: objs_ok_def)
  have old_kind: "i < length (objVec g) \<and> objVec g ! i = m" if "m < ?N" "cgKind (cgNode g m) = ObjNode i" for m i
    using cg_okD(3) [OF ok] that by (auto simp: objs_ok_def)
  have "objs_ok g'"
    unfolding objs_ok_def num'
  proof (intro conjI allI impI)
    fix i assume "i < length (objVec g @ [?N])"
    then consider "i < length (objVec g)" | "i = length (objVec g)" by fastforce
    then show "Suc ((objVec g @ [?N]) ! i) < ?N + 2" "cgKind (cgNode g' ((objVec g @ [?N]) ! i)) = ObjNode i"
      "cgKind (cgNode g' (Suc ((objVec g @ [?N]) ! i))) = PtrNode None"
    proof (atomize (full), cases)
      case 1
      then have "objVec g ! i < ?N" "Suc (objVec g ! i) < ?N" using old_obj(1) [of i] by simp_all
      with 1 old_obj(2,3) [OF 1] kind_of(1) [of "objVec g ! i"] kind_of(1) [of "Suc (objVec g ! i)"]
      show "Suc ((objVec g @ [?N]) ! i) < ?N + 2 \<and> cgKind (cgNode g' ((objVec g @ [?N]) ! i)) = ObjNode i \<and>
          cgKind (cgNode g' (Suc ((objVec g @ [?N]) ! i))) = PtrNode None" by (simp add: nth_append)
    next
      case 2
      then show "Suc ((objVec g @ [?N]) ! i) < ?N + 2 \<and> cgKind (cgNode g' ((objVec g @ [?N]) ! i)) = ObjNode i \<and>
          cgKind (cgNode g' (Suc ((objVec g @ [?N]) ! i))) = PtrNode None"
        using kind_of(2,3) obj(1) by (simp add: nth_append)
    qed
  next
    fix m i assume "m < ?N + 2" and k: "cgKind (cgNode g' m) = ObjNode i"
    then consider "m < ?N" | "m = ?N" | "m = Suc ?N" by linarith
    then show "i < length (objVec g @ [?N])" "(objVec g @ [?N]) ! i = m"
    proof (atomize (full), cases)
      case 1
      with old_kind [of m i] kind_of(1) [of m] k show "i < length (objVec g @ [?N]) \<and> (objVec g @ [?N]) ! i = m"
        by (simp add: nth_append)
    next
      case 2
      with k kind_of(2) obj(1) show "i < length (objVec g @ [?N]) \<and> (objVec g @ [?N]) ! i = m" by (auto simp: nth_append)
    next
      case 3
      with k kind_of(3) show "i < length (objVec g @ [?N]) \<and> (objVec g @ [?N]) ! i = m" by simp
    qed
  qed
  have addr: "addrNode g' x \<longleftrightarrow> addrNode g x \<or> x = Suc ?N" for x
  proof
    assume "addrNode g' x"
    then obtain i where i: "i < Suc (length (objVec g))" "x = Suc ((objVec g @ [?N]) ! i)"
      by (auto simp: addrNode_def num'(2))
    then show "addrNode g x \<or> x = Suc ?N"
      by (cases "i < length (objVec g)") (auto simp: addrNode_def nth_append)
  next
    assume "addrNode g x \<or> x = Suc ?N"
    then show "addrNode g' x"
    proof
      assume "addrNode g x"
      then obtain i where "i < length (objVec g)" "x = Suc (objVec g ! i)" by (auto simp: addrNode_def)
      then show ?thesis unfolding addrNode_def num'(2) by (intro exI [of _ i]) (simp add: nth_append)
    next
      assume "x = Suc ?N"
      then show ?thesis unfolding addrNode_def num'(2)
        by (intro exI [of _ "length (objVec g)"]) (simp add: nth_append)
    qed
  qed
  have "shape_ok g'"
    unfolding shape_ok_def S'
  proof (intro conjI allI impI)
    fix k s d assume "edge g' k s d"
    then consider "edge g k s d" | "k = CAddrOf" "s = ?N" "d = Suc ?N" unfolding E' by blast
    then show "superNode (cgNode g' s) = None" "superNode (cgNode g' d) = None"
      "k = CCopy \<Longrightarrow> s \<noteq> d" "k = CCopy \<Longrightarrow> \<not> addrNode g' d"
      "isImmutable (cgNode g' d) \<Longrightarrow> k = CSpecial \<or> k = CCopy \<and> addrNode g' s"
      using edgeD [OF ok, of k s d] by (cases; auto simp: kinds node2 newNode_def addr)+
  next
    show "\<forall>(n, m) \<in> superRel g. \<not> isImmutable (cgNode g' n) \<and> \<not> isImmutable (cgNode g' m) \<and> \<not> addrNode g' n \<and> \<not> addrNode g' m"
    proof clarify
      fix n m assume nm: "(n, m) \<in> superRel g"
      then have r: "n < ?N" "m < ?N" using cg_okD(2) [OF ok] by (auto simp: super_ok_def superRel_def)
      from nm cg_okD(4) [OF ok] r
      show "\<not> isImmutable (cgNode g' n) \<and> \<not> isImmutable (cgNode g' m) \<and> \<not> addrNode g' n \<and> \<not> addrNode g' m"
        by (auto simp: shape_ok_def addr kinds node2)
    qed
  qed
  have "cg_extends g g'"
    using addNewNode_extends [OF new1] addNewNode_extends [OF new2] kinds
    by (auto simp: cg_extends_def num' node2 node' linkNodes_def cgNode_upd num2)
  moreover have "addObjNode obj (g, p) = Inr (?N, g', p @ [[], [obj]])"
    using new1 new2 ins p obj
    by (simp add: addObjNode_def addPtrNode_def ptsOnNewNode_def nodes1 nodes2 ptsInsert_def inPts_def g'_def num2
      nth_append list_update_append)
  ultimately show ?thesis
    using \<open>edges_ok g'\<close> \<open>super_ok g'\<close> \<open>objs_ok g'\<close> \<open>shape_ok g'\<close> E' num'
    by (simp add: cg_ok_def node' linkNodes_def cgNode_upd num2 node2 newNode_def)
qed

end
