(* ===== verification/GraphOps.thy ===== *)
theory GraphOps
  imports ConstraintGraph
begin

text \<open>
  The constraint graph under its clients: the operations the rest of the pointer analysis calls,
  what each asks of its caller, the graphs that can be reached, and what holds of all of them.
  \<open>src/PointerAnalysis/Program/Object.h\<close> contributes the flag of immutable objects.
\<close>

section \<open>Definitions\<close>

definition setImmutable :: "nat \<Rightarrow> cons_graph \<Rightarrow> cons_graph" where
  "setImmutable n = updNode n (\<lambda>x. x\<lparr> isImmutable := True \<rparr>)"

datatype cg_op =
    NewPtr "llvm_value option" | NewObj | AddCons nat nat constraints | CollapseTo "nat list" nat
  | CallThrough nat nat | Freeze nat

text \<open>The contract of the callers.\<close>

fun opAllowed :: "cg_op \<Rightarrow> cons_graph \<times> pts_vec \<Rightarrow> bool" where
  "opAllowed (NewPtr v) (g, p) = True"
| "opAllowed NewObj (g, p) = True"
| "opAllowed (AddCons a b k) (g, p) =
     (a < getNodeNum g \<and> b < getNodeNum g \<and> (k \<in> {CCopy, CAddrOf} \<longrightarrow> \<not> addrNode g b) \<and>
      (k = CAddrOf \<longrightarrow> isObjKind (cgKind (cgNode g a))))"
| "opAllowed (CollapseTo scc S) (g, p) =
     (distinct scc \<and> S \<in> set scc \<and> (\<forall>n \<in> set scc. n < getNodeNum g \<and> \<not> hasSuperNode g n \<and>
        \<not> isImmutable (cgNode g n) \<and> \<not> addrNode g n))"
| "opAllowed (CallThrough n c) (g, p) = (n < getNodeNum g)"
| "opAllowed (Freeze n) (g, p) =
     (n < getNodeNum g \<and> \<not> hasSuperNode g n \<and> \<not> addrNode g n \<and>
      (\<forall>k \<in> set edgeKinds. \<forall>m \<in> set (predCons (cgNode g n) k). k = CSpecial \<or> (k = CCopy \<and> addrNode g m)) \<and>
      (\<forall>m < getNodeNum g. superNode (cgNode g m) \<noteq> Some n))"

fun cgStep :: "cg_op \<Rightarrow> cons_graph \<times> pts_vec \<Rightarrow> (cons_graph \<times> pts_vec) result" where
  "cgStep (NewPtr v) s = rbind (addPtrNode v s) (\<lambda>(n, s). Inr s)"
| "cgStep NewObj s = rbind (addObjNode (length (objVec (fst s))) s) (\<lambda>(n, s). Inr s)"
| "cgStep (AddCons a b k) (g, p) = rbind (addConstraints a b k g) (\<lambda>(ev, g). Inr (g, p))"
| "cgStep (CollapseTo scc S) (g, p) = rbind (collapseSCCTo scc S g) (\<lambda>g. Inr (g, p))"
| "cgStep (CallThrough n c) (g, p) = Inr (setIndirectCallNode n c g, p)"
| "cgStep (Freeze n) (g, p) = Inr (setImmutable n g, p)"

definition emptyGraph :: cons_graph where
  "emptyGraph = \<lparr> cgNodes = [], objVec = [] \<rparr>"

inductive cgReach :: "cons_graph \<times> pts_vec \<Rightarrow> bool" where
  start: "cgReach (emptyGraph, [])"
| step: "cgReach s \<Longrightarrow> opAllowed op s \<Longrightarrow> cgStep op s = Inr s' \<Longrightarrow> cgReach s'"

text \<open>A run that checks the contract, for concrete graphs.\<close>

fun cgRun :: "cg_op list \<Rightarrow> cons_graph \<times> pts_vec \<Rightarrow> (cons_graph \<times> pts_vec) result" where
  "cgRun [] s = Inr s"
| "cgRun (op # ops) s = rassert (opAllowed op s) AssertFailed (rbind (cgStep op s) (cgRun ops))"

section \<open>The invariant\<close>

text \<open>
  Points-to sets have one bit vector for each node, of object identifiers, and the address-taken
  node of an object points to it.
\<close>

definition pts_wf :: "cons_graph \<Rightarrow> pts_vec \<Rightarrow> bool" where
  "pts_wf g p \<longleftrightarrow> length p = getNodeNum g \<and> (\<forall>n < length p. bv (p ! n) \<and> set (p ! n) \<subseteq> {..<length (objVec g)}) \<and>
     (\<forall>obj < length (objVec g). obj \<in> set (p ! Suc (objVec g ! obj)))"

definition graph_wf :: "cons_graph \<times> pts_vec \<Rightarrow> bool" where
  "graph_wf s \<longleftrightarrow> cg_ok (fst s) \<and> pts_wf (fst s) (snd s)"

lemma objVec_le:
  assumes "objs_ok g"
  shows "length (objVec g) \<le> getNodeNum g"
proof -
  have kind: "cgKind (cgNode g (objVec g ! i)) = ObjNode i" "objVec g ! i < getNodeNum g"
    if "i < length (objVec g)" for i
    using assms that by (auto simp: objs_ok_def dest: Suc_lessD)
  then have "inj_on (\<lambda>i. objVec g ! i) {..<length (objVec g)}"
    by (metis (mono_tags, lifting) cg_kind.inject(2) inj_onI lessThan_iff)
  moreover have "(\<lambda>i. objVec g ! i) ` {..<length (objVec g)} \<subseteq> {..<getNodeNum g}" using kind(2) by auto
  ultimately show ?thesis using card_inj_on_le [of _ _ "{..<getNodeNum g}"] by fastforce
qed

lemma empty_cg_ok: "cg_ok emptyGraph"
  by (auto simp: cg_ok_def edges_ok_def super_ok_def objs_ok_def shape_ok_def superRel_def emptyGraph_def
    getNodeNum_def edge_def acyclic_def)

lemma pts_wf_same:
  "pts_wf g p \<Longrightarrow> getNodeNum g' = getNodeNum g \<Longrightarrow> objVec g' = objVec g \<Longrightarrow> pts_wf g' p"
  by (simp add: pts_wf_def)

text \<open>Updates of one node's flag or of its call sites.\<close>

lemma updNode_flags:
  assumes ok: "cg_ok g" and n: "n < getNodeNum g"
    and f: "\<And>x. succCons (f x) = succCons x" "\<And>x. predCons (f x) = predCons x" "\<And>x. superNode (f x) = superNode x"
      "\<And>x. cgKind (f x) = cgKind x"
    and im: "isImmutable (f (cgNode g n)) = isImmutable (cgNode g n) \<or>
      \<not> addrNode g n \<and> superNode (cgNode g n) = None \<and> (\<forall>k s. edge g k s n \<longrightarrow> k = CSpecial \<or> k = CCopy \<and> addrNode g s) \<and> (\<forall>m. (m, n) \<notin> superRel g)"
  shows "cg_ok (updNode n f g)"
proof -
  let ?g = "updNode n f g"
  from setSuper_edges_ok [where n = n and f = f, OF cg_okD(1) [OF ok] n f(1,2)]
  have e: "edges_ok ?g" "\<And>k a b. edge ?g k a b \<longleftrightarrow> edge g k a b" by blast+
  have s: "superNode (cgNode ?g m) = superNode (cgNode g m)" "cgKind (cgNode ?g m) = cgKind (cgNode g m)" for m
    using n f by (simp_all add: cgNode_upd)
  have sr: "superRel ?g = superRel g" by (simp add: superRel_def s)
  have ad: "addrNode ?g = addrNode g" "objVec ?g = objVec g" by (simp_all add: addrNode_def updNode_def fun_eq_iff)
  have "super_ok ?g" using cg_okD(2) [OF ok] by (simp add: super_ok_def sr)
  moreover have "objs_ok ?g" using cg_okD(3) [OF ok] by (simp add: objs_ok_def s ad)
  moreover have "shape_ok ?g"
    using cg_okD(4) [OF ok] im n unfolding shape_ok_def e(2) sr ad s
    by (auto simp: cgNode_upd superRel_def)
  ultimately show ?thesis using e(1) by (simp add: cg_ok_def)
qed

lemma edge_pred:
  assumes "cg_ok g" and "edge g k s n"
  shows "s \<in> set (predCons (cgNode g n) k)"
  using edges_okD(5) [OF cg_okD(1) [OF assms(1)] edgeD(1,2) [OF assms]] assms(2) by simp

lemma cgStep_ok:
  assumes "graph_wf s" and "opAllowed op s"
  shows "\<exists>s'. cgStep op s = Inr s' \<and> graph_wf s'"
proof -
  obtain g p where s: "s = (g, p)" by fastforce
  from assms(1) have ok: "cg_ok g" and p: "pts_wf g p" by (simp_all add: graph_wf_def s)
  from p have len: "length p = getNodeNum g" by (simp add: pts_wf_def)
  note obj = cg_okD(3) [OF ok]
  show ?thesis
  proof (cases op)
    case (NewPtr v)
    from addPtrNode_ok [OF ok len, of v] obtain g' where g': "addPtrNode v (g, p) = Inr (getNodeNum g, g', p @ [[]])"
      "cg_ok g'" "getNodeNum g' = Suc (getNodeNum g)" "objVec g' = objVec g" by blast
    have "pts_wf g' (p @ [[]])"
      using p obj unfolding pts_wf_def g'(3,4) by (auto simp: nth_append less_Suc_eq objs_ok_def bv_def)
    with g' show ?thesis by (simp add: NewPtr s graph_wf_def)
  next
    case NewObj
    have less: "length (objVec g) < getNodeNum g + 2" using objVec_le [OF obj] by simp
    from addObjNode_ok [OF ok len refl less] obtain g' where
      g': "addObjNode (length (objVec g)) (g, p) = Inr (getNodeNum g, g', p @ [[], [length (objVec g)]])" "cg_ok g'"
      "getNodeNum g' = getNodeNum g + 2" "objVec g' = objVec g @ [getNodeNum g]" by blast
    have wf: "bv (p ! n)" "set (p ! n) \<subseteq> {..<length (objVec g)}" if "n < getNodeNum g" for n
      using p that by (auto simp: pts_wf_def)
    have at: "(p @ [[], [length (objVec g)]]) ! n = (if n < getNodeNum g then p ! n
        else if n = getNodeNum g then [] else [length (objVec g)])" if "n < getNodeNum g + 2" for n
      using that len by (auto simp: nth_append less_Suc_eq nth_Cons split: nat.splits)
    have old: "Suc (objVec g ! i) < getNodeNum g" "i \<in> set (p ! Suc (objVec g ! i))" if "i < length (objVec g)" for i
      using obj p that by (auto simp: objs_ok_def pts_wf_def)
    have "pts_wf g' (p @ [[], [length (objVec g)]])"
      unfolding pts_wf_def g'(3,4)
    proof (intro conjI allI impI)
      fix n assume "n < length (p @ [[], [length (objVec g)]])"
      then have n: "n < getNodeNum g + 2" by (simp add: len)
      show "bv ((p @ [[], [length (objVec g)]]) ! n)" using wf(1) by (simp add: at [OF n] bv_def)
      show "set ((p @ [[], [length (objVec g)]]) ! n) \<subseteq> {..<length (objVec g @ [getNodeNum g])}"
        using wf(2) [of n] by (auto simp: at [OF n] subset_iff less_Suc_eq)
    next
      fix i assume "i < length (objVec g @ [getNodeNum g])"
      then show "i \<in> set ((p @ [[], [length (objVec g)]]) ! Suc ((objVec g @ [getNodeNum g]) ! i))"
        using old [of i] by (cases "i < length (objVec g)") (auto simp: at nth_append len)
    qed (simp add: len)
    with g' show ?thesis by (simp add: NewObj s graph_wf_def)
  next
    case (AddCons a b k)
    with assms(2) have "a < getNodeNum g" "b < getNodeNum g" "k = CCopy \<or> k = CAddrOf \<Longrightarrow> \<not> addrNode g b"
      "k = CAddrOf \<Longrightarrow> isObjKind (cgKind (cgNode g a))" by (auto simp: s)
    from addConstraints_ok [OF ok this] obtain ev g' where "addConstraints a b k g = Inr (ev, g')" "cg_ok g'"
      "same_nodes g g'" by blast
    then show ?thesis using p by (auto simp: AddCons s graph_wf_def same_nodes_def intro: pts_wf_same)
  next
    case (CollapseTo scc S)
    with assms(2) have "distinct scc" "S \<in> set scc" "\<forall>n \<in> set scc. n < getNodeNum g \<and>
      superNode (cgNode g n) = None \<and> \<not> isImmutable (cgNode g n) \<and> \<not> addrNode g n" by (auto simp: s hasSuperNode_def)
    from collapse_exact [OF ok this] obtain g' where "collapseSCCTo scc S g = Inr g'" "cg_ok g'"
      "collapsed S (set scc) g g'" by blast
    then show ?thesis using p by (auto simp: CollapseTo s graph_wf_def collapsed_def intro: pts_wf_same)
  next
    case (CallThrough n c)
    with assms(2) have "cg_ok (setIndirectCallNode n c g)"
      unfolding setIndirectCallNode_def by (intro updNode_flags [OF ok]) (auto simp: s)
    then show ?thesis using p by (auto simp: CallThrough s graph_wf_def setIndirectCallNode_def updNode_def
      getNodeNum_def intro: pts_wf_same)
  next
    case (Freeze n)
    have "set edgeKinds = UNIV" using constraints.exhaust by (auto simp: edgeKinds_def)
    with Freeze assms(2) have n: "n < getNodeNum g" "superNode (cgNode g n) = None" "\<not> addrNode g n"
      "\<And>k m. m \<in> set (predCons (cgNode g n) k) \<Longrightarrow> k = CSpecial \<or> k = CCopy \<and> addrNode g m" "\<And>m. (m, n) \<notin> superRel g"
      by (auto simp: s hasSuperNode_def superRel_def)
    have "edge g k m n \<longrightarrow> k = CSpecial \<or> k = CCopy \<and> addrNode g m" for k m using n(4) edge_pred [OF ok] by blast
    with n(1-3,5) have "cg_ok (setImmutable n g)"
      unfolding setImmutable_def by (intro updNode_flags [OF ok]) simp_all
    then show ?thesis using p by (auto simp: Freeze s graph_wf_def setImmutable_def updNode_def
      getNodeNum_def intro: pts_wf_same)
  qed
qed

lemma empty_wf: "graph_wf (emptyGraph, [])"
  using empty_cg_ok by (simp add: graph_wf_def pts_wf_def) (simp add: emptyGraph_def getNodeNum_def)

lemma cgReach_wf: "cgReach s \<Longrightarrow> graph_wf s"
proof (induction rule: cgReach.induct)
  case (step s op s')
  with cgStep_ok [OF step.IH step.hyps(2)] show ?case by auto
qed (rule empty_wf)

lemma cgRun_reach: "cgRun ops s = Inr s' \<Longrightarrow> cgReach s \<Longrightarrow> cgReach s'"
proof (induction ops arbitrary: s)
  case (Cons op ops)
  then obtain t where "opAllowed op s" "cgStep op s = Inr t" "cgRun ops t = Inr s'" by auto
  with Cons.IH [of t] cgReach.step [OF Cons.prems(2)] show ?case by blast
qed simp

section \<open>Properties\<close>

text \<open>
  C10. No operation of the constraint graph called within its contract fails, in any graph that
  such calls built; so the assertions of the class never fire, the walks to representatives
  return, and every edge is stored at both ends, only between nodes that were not collapsed.
\<close>

theorem graph_operations_safe:
  assumes reach: "cgReach (g, p)" and allowed: "opAllowed op (g, p)"
  shows "(\<exists>s'. cgStep op (g, p) = Inr s' \<and> cgReach s') \<and>
    (\<forall>n. n < getNodeNum g \<longrightarrow> (\<exists>m. getSuperNode g n = Inr m \<and> m < getNodeNum g \<and> \<not> hasSuperNode g m)) \<and>
    (\<forall>k s d. s < getNodeNum g \<longrightarrow> d < getNodeNum g \<longrightarrow>
       (d \<in> set (succCons (cgNode g s) k) \<longleftrightarrow> s \<in> set (predCons (cgNode g d) k)) \<and>
       (d \<in> set (succCons (cgNode g s) k) \<longrightarrow> \<not> hasSuperNode g s \<and> \<not> hasSuperNode g d \<and> (k = CCopy \<longrightarrow> s \<noteq> d)))"
proof (intro conjI)
  from cgReach_wf [OF reach] have wf: "graph_wf (g, p)" and ok: "cg_ok g" by (simp_all add: graph_wf_def)
  show "\<exists>s'. cgStep op (g, p) = Inr s' \<and> cgReach s'"
    using cgStep_ok [OF wf allowed] cgReach.step [OF reach allowed] by blast
  show "\<forall>n. n < getNodeNum g \<longrightarrow> (\<exists>m. getSuperNode g n = Inr m \<and> m < getNodeNum g \<and> \<not> hasSuperNode g m)"
    using getSuperNode_rep [OF cg_okD(2) [OF ok]] by (auto simp: hasSuperNode_def)
  show "\<forall>k s d. s < getNodeNum g \<longrightarrow> d < getNodeNum g \<longrightarrow>
       (d \<in> set (succCons (cgNode g s) k) \<longleftrightarrow> s \<in> set (predCons (cgNode g d) k)) \<and>
       (d \<in> set (succCons (cgNode g s) k) \<longrightarrow> \<not> hasSuperNode g s \<and> \<not> hasSuperNode g d \<and> (k = CCopy \<longrightarrow> s \<noteq> d))"
  proof (intro allI impI)
    fix k s d assume sd: "s < getNodeNum g" "d < getNodeNum g"
    then have e: "edge g k s d \<longleftrightarrow> d \<in> set (succCons (cgNode g s) k)" by (simp add: edge_def)
    show "(d \<in> set (succCons (cgNode g s) k) \<longleftrightarrow> s \<in> set (predCons (cgNode g d) k)) \<and>
       (d \<in> set (succCons (cgNode g s) k) \<longrightarrow> \<not> hasSuperNode g s \<and> \<not> hasSuperNode g d \<and> (k = CCopy \<longrightarrow> s \<noteq> d))"
      using edges_okD(5) [OF cg_okD(1) [OF ok] sd, of k] edgeD(3-5) [OF ok, of k s d]
      unfolding e [symmetric] by (auto simp: hasSuperNode_def)
  qed
qed

text \<open>
  C11. Collapsing a component moves every edge of its members to the node that stands for it, and
  only these: two nodes are related afterwards exactly if nodes they stand for were, except for
  copies from the node to itself; every node's representative is the old one, or the node
  collapsed onto when the old one is a member; and the calls through a pointer move the same way: the node collapsed onto gets
  exactly those of all members, the other members keep none, and every other node keeps its own.
\<close>

theorem collapse_moves_edges:
  assumes "cgReach (g, p)" and "opAllowed (CollapseTo scc S) (g, p)"
  shows "\<exists>g'. collapseSCCTo scc S g = Inr g' \<and>
    (\<forall>k x y. edge g' k x y \<longleftrightarrow> \<not> (k = CCopy \<and> x = y) \<and>
       (\<exists>a b. edge g k a b \<and> onto S (set scc) a = x \<and> onto S (set scc) b = y)) \<and>
    (\<forall>n. n < getNodeNum g \<longrightarrow> rep g' n = onto S (set scc) (rep g n)) \<and>
    (\<forall>n. n < getNodeNum g \<longrightarrow> set (indirectNodes (cgNode g' n)) =
       (if n = S then \<Union>m \<in> set scc. set (indirectNodes (cgNode g m))
        else if n \<in> set scc then {} else set (indirectNodes (cgNode g n)))) \<and>
    (\<forall>n. n < getNodeNum g \<longrightarrow> isFunctionPtr g n \<longrightarrow> isFunctionPtr g' (onto S (set scc) n))"
proof -
  from cgReach_wf [OF assms(1)] have ok: "cg_ok g" by (simp add: graph_wf_def)
  from assms(2) have scc: "distinct scc" "S \<in> set scc" "\<forall>n \<in> set scc. n < getNodeNum g \<and>
      superNode (cgNode g n) = None \<and> \<not> isImmutable (cgNode g n) \<and> \<not> addrNode g n"
    by (auto simp: hasSuperNode_def)
  from collapse_exact [OF ok scc] obtain g' where g': "collapseSCCTo scc S g = Inr g'" "cg_ok g'"
    "collapsed S (set scc) g g'" by blast
  have S: "S < getNodeNum g" "superNode (cgNode g S) = None"
    and ns: "\<forall>n \<in> set scc. n < getNodeNum g \<and> superNode (cgNode g n) = None" using scc(2,3) by simp_all
  have "rep g' n = onto S (set scc) (rep g n)" if "n < getNodeNum g" for n
    by (rule collapsed_rep [OF ok g'(2,3) S ns that])
  moreover have calls: "set (indirectNodes (cgNode g' n)) =
      (if n = S then \<Union>m \<in> set scc. set (indirectNodes (cgNode g m))
       else if n \<in> set scc then {} else set (indirectNodes (cgNode g n)))" if "n < getNodeNum g" for n
    using g'(3) that scc(2) by (simp add: collapsed_def insert_absorb)
  moreover have "isFunctionPtr g' (onto S (set scc) n)" if n: "n < getNodeNum g" "isFunctionPtr g n" for n
  proof -
    have "set (indirectNodes (cgNode g n)) \<subseteq> set (indirectNodes (cgNode g' (onto S (set scc) n)))"
      using calls [OF S(1)] calls [OF n(1)] scc(2) by (auto simp: onto_def)
    then show ?thesis using n(2) by (auto simp: isFunctionPtr_def)
  qed
  moreover from g'(3) have "\<forall>k x y. edge g' k x y \<longleftrightarrow> \<not> (k = CCopy \<and> x = y) \<and>
       (\<exists>a b. edge g k a b \<and> onto S (set scc) a = x \<and> onto S (set scc) b = y)"
    unfolding collapsed_def by (elim conjE)
  ultimately show ?thesis using g'(1) by blast
qed

text \<open>
  C23. A new object gets the next identifier; looking the identifier up gives its node back, the
  node after it is its address-taken node and points to the object alone, and the lookups of
  earlier objects are as before.
\<close>

theorem object_lookup:
  assumes "cgReach (g, p)" and "addObjNode (length (objVec g)) (g, p) = Inr (n, g', p')"
  shows "getObjectNode g' (length (objVec g)) = Inr n \<and>
    getAddrTakenNode g' n = Inr (n + 1) \<and> ptsGet (n + 1) p' = Inr [length (objVec g)] \<and>
    (\<forall>obj. obj < length (objVec g) \<longrightarrow> getObjectNode g' obj = getObjectNode g obj) \<and>
    (\<forall>m. m < getNodeNum g \<longrightarrow> ptsGet m p' = ptsGet m p)"
proof (intro conjI)
  from cgReach_wf [OF assms(1)] have ok: "cg_ok g" and len: "length p = getNodeNum g"
    by (simp_all add: graph_wf_def pts_wf_def)
  have less: "length (objVec g) < getNodeNum g + 2" using objVec_le [OF cg_okD(3) [OF ok]] by simp
  from addObjNode_ok [OF ok len refl less] assms(2)
  have n: "n = getNodeNum g" "p' = p @ [[], [length (objVec g)]]" "cg_ok g'"
    "getNodeNum g' = getNodeNum g + 2" "objVec g' = objVec g @ [getNodeNum g]" by auto
  have k: "cgKind (cgNode g' (Suc n)) = PtrNode None"
    using cg_okD(3) [OF n(3)] by (auto simp: objs_ok_def n(1,5) nth_append)
  show "getObjectNode g' (length (objVec g)) = Inr n" by (simp add: getObjectNode_def n)
  show "getAddrTakenNode g' n = Inr (n + 1)"
    using k by (simp add: getAddrTakenNode_def getNode_def n(1,4) isObjKind_def)
  show "ptsGet (n + 1) p' = Inr [length (objVec g)]" by (simp add: ptsGet_def inPts_def n len nth_append)
  show "\<forall>obj. obj < length (objVec g) \<longrightarrow> getObjectNode g' obj = getObjectNode g obj"
    by (simp add: getObjectNode_def n nth_append)
  show "\<forall>m. m < getNodeNum g \<longrightarrow> ptsGet m p' = ptsGet m p" by (simp add: ptsGet_def inPts_def n len nth_append)
qed

subsection \<open>Witnesses\<close>

text \<open>Two objects, three pointers on a cycle of copies, a load out of the cycle.\<close>

definition demo_ops :: "cg_op list" where
  "demo_ops = [NewObj, NewObj, NewPtr (Some 50), NewPtr (Some 51), NewPtr (Some 52), NewPtr (Some 53),
     AddCons 0 4 CAddrOf, AddCons 4 5 CCopy, AddCons 5 6 CCopy, AddCons 6 4 CCopy, AddCons 6 7 CLoad,
     CallThrough 5 9]"

lemma demo_reach: "\<exists>g p. cgRun demo_ops (emptyGraph, []) = Inr (g, p) \<and> cgReach (g, p) \<and> getNodeNum g = 8 \<and>
    opAllowed (CollapseTo [6, 5, 4] 4) (g, p) \<and> edge g CLoad 6 7"
proof -
  have "map_sum (\<lambda>_. ()) (\<lambda>(g, p). getNodeNum g = 8 \<and> opAllowed (CollapseTo [6, 5, 4] 4) (g, p) \<and> edge g CLoad 6 7)
      (cgRun demo_ops (emptyGraph, [])) = Inr True" by code_simp
  then obtain g p where r: "cgRun demo_ops (emptyGraph, []) = Inr (g, p)" "getNodeNum g = 8"
    "opAllowed (CollapseTo [6, 5, 4] 4) (g, p)" "edge g CLoad 6 7"
    by (auto simp: map_sum_def split: sum.splits)
  with cgRun_reach [OF r(1) cgReach.start] show ?thesis by blast
qed

lemma graph_operations_safe_witness:
  "\<exists>g p. cgRun demo_ops (emptyGraph, []) = Inr (g, p) \<and>
     (\<exists>s'. cgStep (CollapseTo [6, 5, 4] 4) (g, p) = Inr s' \<and> cgReach s')"
proof -
  from demo_reach obtain g p where r: "cgRun demo_ops (emptyGraph, []) = Inr (g, p)" "cgReach (g, p)"
    "opAllowed (CollapseTo [6, 5, 4] 4) (g, p)" by blast
  from graph_operations_safe [OF r(2,3)] r(1) show ?thesis by blast
qed

lemma collapse_moves_edges_witness:
  "\<exists>g p g'. cgRun demo_ops (emptyGraph, []) = Inr (g, p) \<and> collapseSCCTo [6, 5, 4] 4 g = Inr g' \<and> edge g' CLoad 4 7"
proof -
  from demo_reach obtain g p where r: "cgRun demo_ops (emptyGraph, []) = Inr (g, p)" "cgReach (g, p)"
    "opAllowed (CollapseTo [6, 5, 4] 4) (g, p)" "edge g CLoad 6 7" by blast
  from collapse_moves_edges [OF r(2,3)] obtain g' where "collapseSCCTo [6, 5, 4] 4 g = Inr g'"
    "edge g' CLoad (onto 4 (set [6, 5, 4]) 6) (onto 4 (set [6, 5, 4]) 7)" using r(4)
    by (metis constraints.distinct(3))
  with r(1) show ?thesis by (auto simp: onto_def)
qed

lemma object_lookup_witness:
  "\<exists>g' p'. addObjNode 0 (emptyGraph, []) = Inr (0, g', p') \<and> getObjectNode g' 0 = Inr 0 \<and> ptsGet 1 p' = Inr [0]"
proof -
  have "map_sum (\<lambda>_. ()) fst (addObjNode (length (objVec emptyGraph)) (emptyGraph, [])) = Inr 0" by code_simp
  then obtain g' p' where a: "addObjNode (length (objVec emptyGraph)) (emptyGraph, []) = Inr (0, g', p')"
    by (auto simp: map_sum_def split: sum.splits)
  have "length (objVec emptyGraph) = 0" by (simp add: emptyGraph_def)
  with object_lookup [OF cgReach.start a] a show ?thesis by simp
qed

end
