(* ===== verification/SCCIterator.thy ===== *)
theory SCCIterator
  imports Prelude
begin

text \<open>
  The iterator over strongly connected components
  (src/PointerAnalysis/Graph/ConstraintGraph/SCCIterator.h), an iterative depth-first search
  after Tarjan that starts from the nodes a work list leaves unset and suspends at each
  component.

  \<open>child\<close> lists the successors that \<open>child_begin\<close> and \<open>child_end\<close> delimit; an
  iterator into them is the list of those not yet seen. \<open>hasSuper\<close> is
  \<open>hasSuperNode\<close>. Vectors used as stacks have their last element first. The bit vector
  \<open>trueVisitedNode\<close> is written and never read, so it is left out.

  The loops carry fuel; the main theorem shows that \<open>sccFuel\<close>, a bound on the number of nodes
  and edges, is enough. Its proof keeps, for every frame of the search, the nodes the frame
  stands for (\<open>frame_ok\<close>).
\<close>

section \<open>Definitions\<close>

type_synonym stack_element = "nat \<times> nat list \<times> nat"

record scc_state =
  visitNum :: nat
  nodeVisitNumbers :: "nat \<Rightarrow> nat option"
  sccNodeStack :: "nat list"
  currentSCC :: "nat list"
  visitedNode :: "bool list"
  lastRoot :: nat
  visitStack :: "stack_element list"

text \<open>\<open>~0U\<close>.\<close>

definition sccDone :: nat where
  "sccDone = 4294967295"

definition dfsVisitOne :: "(nat \<Rightarrow> nat list) \<Rightarrow> nat \<Rightarrow> scc_state \<Rightarrow> scc_state" where
  "dfsVisitOne child N st =
     st\<lparr> visitNum := visitNum st + 1,
        nodeVisitNumbers := (nodeVisitNumbers st)(N \<mapsto> visitNum st + 1),
        sccNodeStack := N # sccNodeStack st,
        visitStack := (N, child N, visitNum st + 1) # visitStack st,
        visitedNode := (visitedNode st)[N := True] \<rparr>"

fun dfsVisitChildren :: "nat \<Rightarrow> (nat \<Rightarrow> nat list) \<Rightarrow> scc_state \<Rightarrow> scc_state result" where
  "dfsVisitChildren 0 child st = Inl Diverges"
| "dfsVisitChildren (Suc fuel) child st =
     (case visitStack st of
        [] \<Rightarrow> Inl AssertFailed
      | (N, [], m) # fs \<Rightarrow> Inr st
      | (N, childN # cs, m) # fs \<Rightarrow>
          (case nodeVisitNumbers st childN of
             None \<Rightarrow> dfsVisitChildren fuel child
               (dfsVisitOne child childN (st\<lparr> visitStack := (N, cs, m) # fs \<rparr>))
           | Some childNum \<Rightarrow> dfsVisitChildren fuel child
               (st\<lparr> visitStack := (N, cs, if m > childNum then childNum else m) # fs \<rparr>)))"

text \<open>Popping the component down to its root.\<close>

fun popSCC :: "nat \<Rightarrow> nat list \<Rightarrow> (nat list \<times> nat list) result" where
  "popSCC root [] = Inl EmptyAccess"
| "popSCC root (x # xs) =
     (if x = root then Inr ([x], xs)
      else rbind (popSCC root xs) (\<lambda>(scc, rest). Inr (x # scc, rest)))"

fun nextSCCLoop :: "nat \<Rightarrow> nat \<Rightarrow> (nat \<Rightarrow> nat list) \<Rightarrow> scc_state \<Rightarrow> scc_state result" where
  "nextSCCLoop 0 dfsFuel child st = (if visitStack st = [] then Inr st else Inl Diverges)"
| "nextSCCLoop (Suc fuel) dfsFuel child st =
     (if visitStack st = [] then Inr st
      else rbind (dfsVisitChildren dfsFuel child st) (\<lambda>st.
        case visitStack st of
          [] \<Rightarrow> Inl EmptyAccess
        | (visitingN, cs, minVisitNum) # fs \<Rightarrow>
            rassert (cs = []) AssertFailed
              (let fs = (case fs of
                           [] \<Rightarrow> []
                         | (P, pcs, pm) # gs \<Rightarrow> (P, pcs, if pm > minVisitNum then minVisitNum else pm) # gs);
                   st = st\<lparr> visitStack := fs \<rparr>
               in if Some minVisitNum \<noteq> nodeVisitNumbers st visitingN
                  then nextSCCLoop fuel dfsFuel child st
                  else rbind (popSCC visitingN (sccNodeStack st)) (\<lambda>(scc, rest).
                    Inr (st\<lparr> currentSCC := scc, sccNodeStack := rest,
                            nodeVisitNumbers := (\<lambda>n. if n \<in> set scc then Some sccDone
                                                    else nodeVisitNumbers st n) \<rparr>)))))"

definition getNextSCC :: "nat \<Rightarrow> (nat \<Rightarrow> nat list) \<Rightarrow> scc_state \<Rightarrow> scc_state result" where
  "getNextSCC fuel child st = nextSCCLoop fuel fuel child (st\<lparr> currentSCC := [] \<rparr>)"

definition findUnsetFrom :: "nat \<Rightarrow> bool list \<Rightarrow> nat option" where
  "findUnsetFrom i bs = find (\<lambda>j. \<not> bs ! j) [i..<length bs]"

text \<open>
  The next root: the loop condition \<open>_lastRoot > 0\<close> ends it also when the position found is
  0, which a search after \<open>lastRoot\<close> never finds.
\<close>

fun nextRoot :: "nat \<Rightarrow> (nat \<Rightarrow> bool) \<Rightarrow> scc_state \<Rightarrow> (nat option \<times> scc_state) result" where
  "nextRoot 0 hasSuper st = Inl Diverges"
| "nextRoot (Suc fuel) hasSuper st =
     (case findUnsetFrom (Suc (lastRoot st)) (visitedNode st) of
        None \<Rightarrow> Inr (None, st)
      | Some r \<Rightarrow>
          (let st = st\<lparr> lastRoot := r \<rparr>
           in if \<not> hasSuper r then Inr (Some r, st) else nextRoot fuel hasSuper st))"

definition nextSubGraph ::
  "nat \<Rightarrow> nat \<Rightarrow> (nat \<Rightarrow> nat list) \<Rightarrow> (nat \<Rightarrow> bool) \<Rightarrow> scc_state \<Rightarrow> scc_state result" where
  "nextSubGraph fuel n child hasSuper st =
     rassert (currentSCC st = []) AssertFailed
       (rbind (nextRoot fuel hasSuper st) (\<lambda>(root, st).
          case root of
            None \<Rightarrow> Inr st
          | Some r \<Rightarrow> rassert (r < n) AssertFailed (getNextSCC fuel child (dfsVisitOne child r st))))"

definition sccBegin :: "nat \<Rightarrow> nat \<Rightarrow> (nat \<Rightarrow> nat list) \<Rightarrow> bool list \<Rightarrow> scc_state result" where
  "sccBegin fuel n child workList =
     (let st = \<lparr> visitNum = 0, nodeVisitNumbers = (\<lambda>_. None), sccNodeStack = [], currentSCC = [],
                 visitedNode = workList, lastRoot = 0, visitStack = [] \<rparr>
      in case findUnsetFrom 0 workList of
           None \<Rightarrow> Inr st
         | Some first \<Rightarrow> rassert (first < n) AssertFailed (getNextSCC fuel child (dfsVisitOne child first st)))"

definition sccNext ::
  "nat \<Rightarrow> nat \<Rightarrow> (nat \<Rightarrow> nat list) \<Rightarrow> (nat \<Rightarrow> bool) \<Rightarrow> scc_state \<Rightarrow> scc_state result" where
  "sccNext fuel n child hasSuper st =
     rbind (getNextSCC fuel child st) (\<lambda>st.
       if currentSCC st = [] then nextSubGraph fuel n child hasSuper st else Inr st)"

text \<open>The loop from \<open>scc_begin\<close> to \<open>scc_end\<close>.\<close>

fun sccCollect ::
  "nat \<Rightarrow> nat \<Rightarrow> nat \<Rightarrow> (nat \<Rightarrow> nat list) \<Rightarrow> (nat \<Rightarrow> bool) \<Rightarrow> scc_state \<Rightarrow> nat list list result" where
  "sccCollect 0 fuel n child hasSuper st = Inl Diverges"
| "sccCollect (Suc steps) fuel n child hasSuper st =
     (if visitStack st = [] \<and> currentSCC st = [] then Inr []
      else rassert (currentSCC st \<noteq> []) AssertFailed
        (rbind (sccNext fuel n child hasSuper st) (\<lambda>st'.
          rbind (sccCollect steps fuel n child hasSuper st') (\<lambda>sccs. Inr (currentSCC st # sccs)))))"

definition sccFuel :: "nat \<Rightarrow> (nat \<Rightarrow> nat list) \<Rightarrow> nat" where
  "sccFuel n child = Suc (\<Sum>u \<leftarrow> [0..<n]. length (child u) + 2)"

definition sccList :: "nat \<Rightarrow> (nat \<Rightarrow> nat list) \<Rightarrow> (nat \<Rightarrow> bool) \<Rightarrow> bool list \<Rightarrow> nat list list result" where
  "sccList n child hasSuper workList =
     (let fuel = sccFuel n child
      in rbind (sccBegin fuel n child workList) (sccCollect (Suc n) fuel n child hasSuper))"

section \<open>The search invariant\<close>

definition childRel :: "(nat \<Rightarrow> nat list) \<Rightarrow> (nat \<times> nat) set" where
  "childRel child = {(a, b). b \<in> set (child a)}"

abbreviation visitNo :: "(nat \<Rightarrow> nat option) \<Rightarrow> nat \<Rightarrow> nat" where
  "visitNo num u \<equiv> the (num u)"

text \<open>
  A frame of the depth-first search, for the nodes of the node stack numbered from its own number
  up to \<open>h\<close>, the number of the frame above: they and the frame's node reach each other; the
  frame's minimum is the number of a node on the stack that they reach; and every child of theirs
  was visited and is not numbered below the minimum, or is still to come.
\<close>

definition frame_ok ::
  "(nat \<Rightarrow> nat list) \<Rightarrow> (nat \<Rightarrow> nat option) \<Rightarrow> nat list \<Rightarrow> nat \<Rightarrow> nat \<Rightarrow> nat list \<Rightarrow> nat \<Rightarrow> bool" where
  "frame_ok child num stk h N cs m \<longleftrightarrow>
     N \<in> set stk \<and> visitNo num N < h \<and> m \<le> visitNo num N \<and>
     (\<exists>c \<in> set stk. visitNo num c = m \<and> (N, c) \<in> (childRel child)\<^sup>*) \<and> set cs \<subseteq> set (child N) \<and>
     (\<forall>u \<in> set stk. visitNo num N \<le> visitNo num u \<longrightarrow> visitNo num u < h \<longrightarrow>
        (N, u) \<in> (childRel child)\<^sup>* \<and> (u, N) \<in> (childRel child)\<^sup>* \<and>
        (\<forall>c \<in> set (child u). num c \<noteq> None \<and> (c \<in> set stk \<longrightarrow> m \<le> visitNo num c) \<or> (u = N \<and> c \<in> set cs)))"

fun frames_ok ::
  "(nat \<Rightarrow> nat list) \<Rightarrow> (nat \<Rightarrow> nat option) \<Rightarrow> nat list \<Rightarrow> nat \<Rightarrow> stack_element list \<Rightarrow> bool" where
  "frames_ok child num stk h [] = (\<forall>u \<in> set stk. h \<le> visitNo num u)"
| "frames_ok child num stk h ((N, cs, m) # fs) =
     (frame_ok child num stk h N cs m \<and>
      (case fs of [] \<Rightarrow> True | (P, _, _) # _ \<Rightarrow> (P, N) \<in> (childRel child)\<^sup>*) \<and>
      frames_ok child num stk (visitNo num N) fs)"

definition scc_inv :: "(nat \<Rightarrow> nat list) \<Rightarrow> nat \<Rightarrow> bool list \<Rightarrow> scc_state \<Rightarrow> bool" where
  "scc_inv child n W st \<longleftrightarrow>
     (let num = nodeVisitNumbers st; stk = sccNodeStack st in
        visitNum st = card (dom num) \<and> dom num \<subseteq> {..<n} \<and> set stk \<subseteq> dom num \<and>
        (\<forall>u \<in> set stk. visitNo num u \<le> visitNum st) \<and>
        (\<forall>u. num u \<noteq> None \<longrightarrow> u \<notin> set stk \<longrightarrow> num u = Some sccDone) \<and>
        sorted_wrt (\<lambda>a b. visitNo num b < visitNo num a) stk \<and>
        (\<forall>u. num u = Some sccDone \<longrightarrow> (\<forall>c \<in> set (child u). num c = Some sccDone)) \<and>
        frames_ok child num stk (Suc (visitNum st)) (visitStack st) \<and>
        length (visitedNode st) = n \<and> (\<forall>j < n. visitedNode st ! j \<longleftrightarrow> W ! j \<or> num j \<noteq> None) \<and>
        (\<forall>u \<in> dom num. \<exists>r < n. \<not> W ! r \<and> (r, u) \<in> (childRel child)\<^sup>*))"

definition emitted :: "scc_state \<Rightarrow> nat set" where
  "emitted st = {u. nodeVisitNumbers st u = Some sccDone}"

text \<open>What bounds the steps that are left.\<close>

definition work :: "(nat \<Rightarrow> nat list) \<Rightarrow> nat \<Rightarrow> scc_state \<Rightarrow> nat" where
  "work child n st = (\<Sum>u | u < n \<and> nodeVisitNumbers st u = None. length (child u) + 2) +
     (\<Sum>(N, cs, m) \<leftarrow> visitStack st. length cs + 1)"

lemma frames_mono:
  assumes "frames_ok child num stk h vs"
    and "\<And>u. u \<in> set stk' \<and> visitNo num' u < h' \<longleftrightarrow> u \<in> set stk \<and> visitNo num u < h"
    and "\<And>u. u \<in> set stk \<Longrightarrow> visitNo num u < h \<Longrightarrow> visitNo num' u = visitNo num u"
    and "\<And>u. num u \<noteq> None \<Longrightarrow> num' u \<noteq> None"
  shows "frames_ok child num' stk' h' vs"
  using assms(1-3)
proof (induction vs arbitrary: h h')
  case Nil
  then show ?case by (auto simp: not_less [symmetric])
next
  case (Cons f fs)
  obtain N cs m where f: "f = (N, cs, m)" by (cases f) auto
  note on = Cons.prems(2) and eq = Cons.prems(3)
  from Cons.prems(1) have fr: "frame_ok child num stk h N cs m" and tl: "frames_ok child num stk (visitNo num N) fs"
    and chain: "case fs of [] \<Rightarrow> True | (P, _, _) # _ \<Rightarrow> (P, N) \<in> (childRel child)\<^sup>*" by (simp_all add: f)
  from fr have N: "N \<in> set stk" "visitNo num N < h" "m \<le> visitNo num N" by (simp_all add: frame_ok_def)
  with on [of N] eq [of N] have N': "N \<in> set stk'" "visitNo num' N < h'" "visitNo num' N = visitNo num N" by auto
  have "frames_ok child num' stk' (visitNo num' N) fs"
  proof (rule Cons.IH [OF tl])
    fix u
    show "u \<in> set stk' \<and> visitNo num' u < visitNo num' N \<longleftrightarrow> u \<in> set stk \<and> visitNo num u < visitNo num N"
      using on [of u] eq [of u] N N' by auto
    show "u \<in> set stk \<Longrightarrow> visitNo num u < visitNo num N \<Longrightarrow> visitNo num' u = visitNo num u"
      using eq [of u] N by auto
  qed
  moreover have "frame_ok child num' stk' h' N cs m"
    unfolding frame_ok_def
  proof (intro conjI ballI impI)
    from fr obtain c where c: "c \<in> set stk" "visitNo num c = m" "(N, c) \<in> (childRel child)\<^sup>*" by (auto simp: frame_ok_def)
    with N on [of c] eq [of c] show "\<exists>c \<in> set stk'. visitNo num' c = m \<and> (N, c) \<in> (childRel child)\<^sup>*" by auto
  next
    fix u assume u: "u \<in> set stk'" "visitNo num' N \<le> visitNo num' u" "visitNo num' u < h'"
    with on [of u] eq [of u] N' have "u \<in> set stk" "visitNo num N \<le> visitNo num u" "visitNo num u < h" by auto
    with fr have fu: "(N, u) \<in> (childRel child)\<^sup>*" "(u, N) \<in> (childRel child)\<^sup>*"
      "\<forall>c \<in> set (child u). num c \<noteq> None \<and> (c \<in> set stk \<longrightarrow> m \<le> visitNo num c) \<or> (u = N \<and> c \<in> set cs)"
      by (auto simp: frame_ok_def)
    then show "(N, u) \<in> (childRel child)\<^sup>*" "(u, N) \<in> (childRel child)\<^sup>*" by blast+
    fix c assume "c \<in> set (child u)"
    moreover have "c \<in> set stk' \<longrightarrow> m \<le> visitNo num' c" if "c \<in> set stk \<longrightarrow> m \<le> visitNo num c"
      using that on [of c] eq [of c] N N' by (cases "visitNo num' c < h'") auto
    ultimately show "num' c \<noteq> None \<and> (c \<in> set stk' \<longrightarrow> m \<le> visitNo num' c) \<or> (u = N \<and> c \<in> set cs)"
      using fu(3) assms(4) by blast
  qed (use fr N N' in \<open>auto simp: frame_ok_def\<close>)
  ultimately show ?case using chain by (simp add: f)
qed

lemma below_reaches:
  assumes "frames_ok child num stk h ((P, cs, m) # fs)" and "c \<in> set stk" and "visitNo num c < h"
  shows "(c, P) \<in> (childRel child)\<^sup>*"
  using assms
proof (induction fs arbitrary: P cs m h)
  case Nil
  then have "visitNo num P \<le> visitNo num c" by simp
  with Nil show ?case by (simp add: frame_ok_def)
next
  case (Cons f fs)
  obtain Q qs k where f: "f = (Q, qs, k)" by (cases f) auto
  show ?case
  proof (cases "visitNo num P \<le> visitNo num c")
    case True
    with Cons.prems show ?thesis by (simp add: frame_ok_def)
  next
    case False
    with Cons.IH [of "visitNo num P" Q qs k] Cons.prems have "(c, Q) \<in> (childRel child)\<^sup>*" by (simp add: f)
    moreover have "(Q, P) \<in> (childRel child)\<^sup>*" using Cons.prems(1) by (simp add: f)
    ultimately show ?thesis by simp
  qed
qed

subsection \<open>Steps of the search\<close>

lemma scc_invD:
  assumes "scc_inv child n W st"
  shows "visitNum st = card (dom (nodeVisitNumbers st))" "dom (nodeVisitNumbers st) \<subseteq> {..<n}"
    "set (sccNodeStack st) \<subseteq> dom (nodeVisitNumbers st)" "visitNum st \<le> n"
    "u \<in> set (sccNodeStack st) \<Longrightarrow> visitNo (nodeVisitNumbers st) u \<le> visitNum st"
    "nodeVisitNumbers st u \<noteq> None \<Longrightarrow> u \<notin> set (sccNodeStack st) \<Longrightarrow> nodeVisitNumbers st u = Some sccDone"
    "sorted_wrt (\<lambda>a b. visitNo (nodeVisitNumbers st) b < visitNo (nodeVisitNumbers st) a) (sccNodeStack st)"
    "nodeVisitNumbers st u = Some sccDone \<Longrightarrow> c \<in> set (child u) \<Longrightarrow> nodeVisitNumbers st c = Some sccDone"
    "frames_ok child (nodeVisitNumbers st) (sccNodeStack st) (Suc (visitNum st)) (visitStack st)"
    "length (visitedNode st) = n" "j < n \<Longrightarrow> visitedNode st ! j \<longleftrightarrow> W ! j \<or> nodeVisitNumbers st j \<noteq> None"
    "nodeVisitNumbers st u \<noteq> None \<Longrightarrow> \<exists>r < n. \<not> W ! r \<and> (r, u) \<in> (childRel child)\<^sup>*"
proof -
  note I = assms [unfolded scc_inv_def Let_def]
  show c: "visitNum st = card (dom (nodeVisitNumbers st))" and d: "dom (nodeVisitNumbers st) \<subseteq> {..<n}"
    and "set (sccNodeStack st) \<subseteq> dom (nodeVisitNumbers st)"
    and "sorted_wrt (\<lambda>a b. visitNo (nodeVisitNumbers st) b < visitNo (nodeVisitNumbers st) a) (sccNodeStack st)"
    and "frames_ok child (nodeVisitNumbers st) (sccNodeStack st) (Suc (visitNum st)) (visitStack st)"
    and "length (visitedNode st) = n"
    using I by blast+
  show "u \<in> set (sccNodeStack st) \<Longrightarrow> visitNo (nodeVisitNumbers st) u \<le> visitNum st"
    "nodeVisitNumbers st u \<noteq> None \<Longrightarrow> u \<notin> set (sccNodeStack st) \<Longrightarrow> nodeVisitNumbers st u = Some sccDone"
    "nodeVisitNumbers st u = Some sccDone \<Longrightarrow> c \<in> set (child u) \<Longrightarrow> nodeVisitNumbers st c = Some sccDone"
    "j < n \<Longrightarrow> visitedNode st ! j \<longleftrightarrow> W ! j \<or> nodeVisitNumbers st j \<noteq> None"
    "nodeVisitNumbers st u \<noteq> None \<Longrightarrow> \<exists>r < n. \<not> W ! r \<and> (r, u) \<in> (childRel child)\<^sup>*"
    using I by blast+
  show "visitNum st \<le> n" using c d card_mono [OF finite_lessThan d] by simp
qed

lemma scc_invI:
  assumes "visitNum st = card (dom (nodeVisitNumbers st))" "dom (nodeVisitNumbers st) \<subseteq> {..<n}"
    "set (sccNodeStack st) \<subseteq> dom (nodeVisitNumbers st)"
    "\<And>u. u \<in> set (sccNodeStack st) \<Longrightarrow> visitNo (nodeVisitNumbers st) u \<le> visitNum st"
    "\<And>u. nodeVisitNumbers st u \<noteq> None \<Longrightarrow> u \<notin> set (sccNodeStack st) \<Longrightarrow> nodeVisitNumbers st u = Some sccDone"
    "sorted_wrt (\<lambda>a b. visitNo (nodeVisitNumbers st) b < visitNo (nodeVisitNumbers st) a) (sccNodeStack st)"
    "\<And>u c. nodeVisitNumbers st u = Some sccDone \<Longrightarrow> c \<in> set (child u) \<Longrightarrow> nodeVisitNumbers st c = Some sccDone"
    "frames_ok child (nodeVisitNumbers st) (sccNodeStack st) (Suc (visitNum st)) (visitStack st)"
    "length (visitedNode st) = n" "\<And>j. j < n \<Longrightarrow> visitedNode st ! j \<longleftrightarrow> W ! j \<or> nodeVisitNumbers st j \<noteq> None"
    "\<And>u. nodeVisitNumbers st u \<noteq> None \<Longrightarrow> \<exists>r < n. \<not> W ! r \<and> (r, u) \<in> (childRel child)\<^sup>*"
  shows "scc_inv child n W st"
  unfolding scc_inv_def Let_def using assms by blast

lemma scc_inv_frames:
  assumes "scc_inv child n W st"
    and "frames_ok child (nodeVisitNumbers st) (sccNodeStack st) (Suc (visitNum st)) vs"
  shows "scc_inv child n W (st\<lparr> visitStack := vs \<rparr>)"
proof -
  have sel: "visitNum (st\<lparr> visitStack := vs \<rparr>) = visitNum st" "nodeVisitNumbers (st\<lparr> visitStack := vs \<rparr>) = nodeVisitNumbers st"
    "sccNodeStack (st\<lparr> visitStack := vs \<rparr>) = sccNodeStack st" "visitedNode (st\<lparr> visitStack := vs \<rparr>) = visitedNode st"
    "visitStack (st\<lparr> visitStack := vs \<rparr>) = vs" by simp_all
  show ?thesis using assms unfolding scc_inv_def Let_def sel by blast
qed

lemma visit_gen:
  assumes inv: "scc_inv child n W st" and n: "n < sccDone" and x: "x < n" "nodeVisitNumbers st x = None"
    and fr: "frames_ok child ((nodeVisitNumbers st)(x \<mapsto> visitNum st + 1)) (x # sccNodeStack st) (Suc (visitNum st)) vs"
    and chain: "case vs of [] \<Rightarrow> True | (P, _, _) # _ \<Rightarrow> (P, x) \<in> (childRel child)\<^sup>*"
    and root: "\<exists>r < n. \<not> W ! r \<and> (r, x) \<in> (childRel child)\<^sup>*"
  shows "scc_inv child n W (dfsVisitOne child x (st\<lparr> visitStack := vs \<rparr>))"
    "emitted (dfsVisitOne child x (st\<lparr> visitStack := vs \<rparr>)) = emitted st"
proof -
  note D = scc_invD [OF inv]
  let ?V = "visitNum st" and ?num = "nodeVisitNumbers st" and ?stk = "sccNodeStack st"
  let ?num' = "?num(x \<mapsto> ?V + 1)"
  have x_new: "x \<notin> set ?stk" using D(3) x(2) by auto
  have fin: "finite (dom ?num)" using D(2) finite_subset by blast
  have card: "card (dom ?num') = Suc ?V" using x(2) fin D(1) by (simp add: domIff)
  have "card (dom ?num') \<le> n" using card_mono [of "{..<n}" "dom ?num'"] D(2) x(1) by simp
  then have V: "Suc ?V < sccDone" using card n by simp
  have below: "visitNo ?num' u \<le> ?V" if "u \<in> set ?stk" for u using D(5) [OF that] x_new that by auto
  have top: "frame_ok child ?num' (x # ?stk) (Suc (Suc ?V)) x (child x) (Suc ?V)"
    using below by (fastforce simp: frame_ok_def)
  let ?st = "dfsVisitOne child x (st\<lparr> visitStack := vs \<rparr>)"
  have sel: "visitNum ?st = Suc ?V" "nodeVisitNumbers ?st = ?num'" "sccNodeStack ?st = x # ?stk"
    "visitStack ?st = (x, child x, Suc ?V) # vs" "visitedNode ?st = (visitedNode st)[x := True]"
    by (simp_all add: dfsVisitOne_def)
  show "scc_inv child n W ?st"
  proof (rule scc_invI, unfold sel)
    have "sorted_wrt (\<lambda>a b. visitNo ?num' b < visitNo ?num' a) ?stk"
      using D(7) x_new by (auto simp: sorted_wrt_iff_nth_less)
    moreover have "visitNo ?num' u < visitNo ?num' x" if "u \<in> set ?stk" for u using below [OF that] by simp
    ultimately show "sorted_wrt (\<lambda>a b. visitNo ?num' b < visitNo ?num' a) (x # ?stk)" by simp
    fix u c assume u: "?num' u = Some sccDone" and c: "c \<in> set (child u)"
    from u V have "?num u = Some sccDone" by (auto split: if_splits)
    from D(8) [OF this c] x(2) show "?num' c = Some sccDone" by auto
  next
    show "Suc ?V = card (dom ?num')" using card by simp
    show "dom ?num' \<subseteq> {..<n}" using D(2) x(1) by simp
    show "set (x # ?stk) \<subseteq> dom ?num'" using D(3) by auto
    show "visitNo ?num' u \<le> Suc ?V" if "u \<in> set (x # ?stk)" for u using that below [of u] by auto
    show "?num' u = Some sccDone" if "?num' u \<noteq> None" "u \<notin> set (x # ?stk)" for u using that D(6) [of u] by simp
    show "frames_ok child ?num' (x # ?stk) (Suc (Suc ?V)) ((x, child x, Suc ?V) # vs)"
      using top fr chain by simp
    show "length ((visitedNode st)[x := True]) = n" using D(10) by simp
    show "(visitedNode st)[x := True] ! j \<longleftrightarrow> W ! j \<or> ?num' j \<noteq> None" if "j < n" for j
      using that D(10) D(11) [OF that] by (auto simp: nth_list_update)
    show "\<exists>r < n. \<not> W ! r \<and> (r, u) \<in> (childRel child)\<^sup>*" if "?num' u \<noteq> None" for u
      using that root D(12) [of u] by (cases "u = x") auto
  qed
  show "emitted (dfsVisitOne child x (st\<lparr> visitStack := vs \<rparr>)) = emitted st"
    using V x(2) by (auto simp: emitted_def dfsVisitOne_def)
qed

lemma visit_frames:
  assumes inv: "scc_inv child n W st" and x: "nodeVisitNumbers st x = None"
    and fr: "frames_ok child (nodeVisitNumbers st) (sccNodeStack st) (Suc (visitNum st)) fs"
  shows "frames_ok child ((nodeVisitNumbers st)(x \<mapsto> visitNum st + 1)) (x # sccNodeStack st) (Suc (visitNum st)) fs"
proof (rule frames_mono [OF fr])
  note D = scc_invD [OF inv]
  have x_new: "x \<notin> set (sccNodeStack st)" using D(3) x by auto
  fix u show "u \<in> set (x # sccNodeStack st) \<and>
      visitNo ((nodeVisitNumbers st)(x \<mapsto> visitNum st + 1)) u < Suc (visitNum st) \<longleftrightarrow>
    u \<in> set (sccNodeStack st) \<and> visitNo (nodeVisitNumbers st) u < Suc (visitNum st)"
    using x_new by auto
  show "u \<in> set (sccNodeStack st) \<Longrightarrow> visitNo ((nodeVisitNumbers st)(x \<mapsto> visitNum st + 1)) u = visitNo (nodeVisitNumbers st) u"
    using x_new by auto
qed simp

lemma advance_frame:
  assumes "frames_ok child num stk h ((N, c # cs, m) # fs)" and c: "num c = Some k" "k < m \<Longrightarrow> c \<in> set stk"
  shows "frames_ok child num stk h ((N, cs, if m > k then k else m) # fs)"
proof -
  from assms(1) have fr: "frame_ok child num stk h N (c # cs) m" by simp
  have Nc: "(N, c) \<in> (childRel child)\<^sup>*" using fr by (auto simp: frame_ok_def childRel_def)
  have "frame_ok child num stk h N cs (if m > k then k else m)"
    unfolding frame_ok_def
  proof (intro conjI ballI impI)
    show "\<exists>d \<in> set stk. visitNo num d = (if m > k then k else m) \<and> (N, d) \<in> (childRel child)\<^sup>*"
      using fr c Nc by (cases "m > k") (force simp: frame_ok_def)+
  next
    fix u d assume u: "u \<in> set stk" "visitNo num N \<le> visitNo num u" "visitNo num u < h" and d: "d \<in> set (child u)"
    with fr have "num d \<noteq> None \<and> (d \<in> set stk \<longrightarrow> m \<le> visitNo num d) \<or> (u = N \<and> d \<in> set (c # cs))"
      by (simp add: frame_ok_def)
    then show "num d \<noteq> None \<and> (d \<in> set stk \<longrightarrow> (if m > k then k else m) \<le> visitNo num d) \<or> (u = N \<and> d \<in> set cs)"
      using c(1) by (cases "d = c") auto
  qed (use fr in \<open>auto simp: frame_ok_def\<close>)
  then show ?thesis using assms(1) by simp
qed

text \<open>A step to an unvisited child, and one past a visited child.\<close>

lemma dfs_visit:
  assumes inv: "scc_inv child n W st" and n: "n < sccDone" and range: "\<And>u. u < n \<Longrightarrow> set (child u) \<subseteq> {..<n}"
    and top: "visitStack st = (N, x # cs, m) # fs" and x: "nodeVisitNumbers st x = None"
  defines "st' \<equiv> dfsVisitOne child x (st\<lparr> visitStack := (N, cs, m) # fs \<rparr>)"
  shows "scc_inv child n W st'" "emitted st' = emitted st" "work child n st' < work child n st"
proof -
  note D = scc_invD [OF inv]
  let ?num = "nodeVisitNumbers st" and ?V = "visitNum st"
  from D(9) top have fr: "frames_ok child ?num (sccNodeStack st) (Suc ?V) ((N, x # cs, m) # fs)" by simp
  then have N: "N \<in> set (sccNodeStack st)" "x \<in> set (child N)" "m \<le> visitNo ?num N" "visitNo ?num N \<le> ?V"
    by (auto simp: frame_ok_def)
  then have Nn: "N < n" "?num N \<noteq> None" using D(2,3) by blast+
  then have xn: "x < n" using range N(2) by blast
  have Nx: "(N, x) \<in> (childRel child)\<^sup>*" using N(2) by (auto simp: childRel_def)
  have "frames_ok child (?num(x \<mapsto> ?V + 1)) (x # sccNodeStack st) (Suc ?V)
      ((N, cs, if m > ?V + 1 then ?V + 1 else m) # fs)"
    using visit_frames [OF inv x fr] by (rule advance_frame) simp_all
  then have "frames_ok child (?num(x \<mapsto> ?V + 1)) (x # sccNodeStack st) (Suc ?V) ((N, cs, m) # fs)"
    using N by simp
  moreover from D(12) [OF Nn(2)] Nx have "\<exists>r < n. \<not> W ! r \<and> (r, x) \<in> (childRel child)\<^sup>*"
    by (meson rtrancl_trans)
  ultimately show "scc_inv child n W st'" "emitted st' = emitted st"
    using visit_gen [OF inv n xn x, of "(N, cs, m) # fs"] Nx by (simp_all add: st'_def)
  have "{u. u < n \<and> ?num u = None} = insert x {u. u < n \<and> nodeVisitNumbers st' u = None}"
    using x xn by (auto simp: st'_def dfsVisitOne_def)
  moreover have "nodeVisitNumbers st' x \<noteq> None" by (simp add: st'_def dfsVisitOne_def)
  ultimately show "work child n st' < work child n st"
    by (simp add: work_def top) (simp add: st'_def dfsVisitOne_def)
qed

lemma dfs_advance:
  assumes inv: "scc_inv child n W st" and n: "n < sccDone"
    and top: "visitStack st = (N, c # cs, m) # fs" and c: "nodeVisitNumbers st c = Some k"
  defines "st' \<equiv> st\<lparr> visitStack := (N, cs, if m > k then k else m) # fs \<rparr>"
  shows "scc_inv child n W st'" "emitted st' = emitted st" "work child n st' < work child n st"
proof -
  note D = scc_invD [OF inv]
  from D(9) top have fr: "frames_ok child (nodeVisitNumbers st) (sccNodeStack st) (Suc (visitNum st)) ((N, c # cs, m) # fs)"
    by simp
  then have "m \<le> visitNum st" by (auto simp: frame_ok_def)
  then have "c \<in> set (sccNodeStack st)" if "k < m" using D(6) [of c] c n D(4) that by fastforce
  from scc_inv_frames [OF inv advance_frame [OF fr c this]] show "scc_inv child n W st'" by (simp only: st'_def)
  show "emitted st' = emitted st" by (simp add: emitted_def st'_def)
  show "work child n st' < work child n st" by (simp add: work_def st'_def top)
qed

text \<open>What the search leaves alone.\<close>

definition scc_mono :: "scc_state \<Rightarrow> scc_state \<Rightarrow> bool" where
  "scc_mono st st' \<longleftrightarrow> lastRoot st' = lastRoot st \<and> dom (nodeVisitNumbers st) \<subseteq> dom (nodeVisitNumbers st')"

lemma scc_mono_refl [simp]: "scc_mono st st"
  by (simp add: scc_mono_def)

lemma scc_mono_trans: "scc_mono st st1 \<Longrightarrow> scc_mono st1 st2 \<Longrightarrow> scc_mono st st2"
  by (auto simp: scc_mono_def)

lemma dfsVisitChildren_ok:
  assumes inv: "scc_inv child n W st" and n: "n < sccDone" and range: "\<And>u. u < n \<Longrightarrow> set (child u) \<subseteq> {..<n}"
    and "visitStack st \<noteq> []" and "work child n st < fuel"
  shows "\<exists>st' N m fs. dfsVisitChildren fuel child st = Inr st' \<and> visitStack st' = (N, [], m) # fs \<and>
    scc_inv child n W st' \<and> emitted st' = emitted st \<and> work child n st' \<le> work child n st \<and>
    scc_mono st st' \<and> currentSCC st' = currentSCC st"
  using assms(1,4,5)
proof (induction fuel arbitrary: st)
  case (Suc fuel)
  obtain N cs m fs where top: "visitStack st = (N, cs, m) # fs" using Suc.prems(2) by (cases "visitStack st") auto
  show ?case
  proof (cases cs)
    case Nil
    with top Suc.prems show ?thesis by auto
  next
    case (Cons c cs)
    with top have top: "visitStack st = (N, c # cs, m) # fs" by simp
    show ?thesis
    proof (cases "nodeVisitNumbers st c")
      case None
      let ?st = "dfsVisitOne child c (st\<lparr> visitStack := (N, cs, m) # fs \<rparr>)"
      note one = dfs_visit [OF Suc.prems(1) n range top None]
      have "visitStack ?st \<noteq> []" "scc_mono st ?st" "currentSCC ?st = currentSCC st"
        by (auto simp: dfsVisitOne_def scc_mono_def)
      with Suc.IH [OF one(1)] one Suc.prems(3) scc_mono_trans [of st ?st] show ?thesis
        by (fastforce simp: top None)
    next
      case (Some k)
      let ?st = "st\<lparr> visitStack := (N, cs, if m > k then k else m) # fs \<rparr>"
      note one = dfs_advance [OF Suc.prems(1) n top Some]
      have "visitStack ?st \<noteq> []" "scc_mono st ?st" "currentSCC ?st = currentSCC st"
        by (auto simp: scc_mono_def)
      with Suc.IH [OF one(1)] one Suc.prems(3) scc_mono_trans [of st ?st] show ?thesis
        by (fastforce simp: top Some)
    qed
  qed
qed simp

subsection \<open>Components\<close>

text \<open>
  What is emitted, when the nodes of \<open>D\<close> were before: distinct new nodes that reach each
  other, whose children were emitted or are among them.
\<close>

definition comp_ok :: "(nat \<Rightarrow> nat list) \<Rightarrow> nat set \<Rightarrow> nat list \<Rightarrow> bool" where
  "comp_ok child D c \<longleftrightarrow> c \<noteq> [] \<and> distinct c \<and> set c \<inter> D = {} \<and>
     (\<forall>u \<in> set c. \<forall>w \<in> set (child u). w \<in> D \<union> set c) \<and>
     (\<forall>u \<in> set c. \<forall>w \<in> set c. (u, w) \<in> (childRel child)\<^sup>*)"

lemma popSCC_ok:
  assumes "sorted_wrt (\<lambda>a b. v b < (v a :: nat)) stk" and "N \<in> set stk"
  shows "\<exists>scc rest. popSCC N stk = Inr (scc, rest) \<and> stk = scc @ rest \<and> scc \<noteq> [] \<and>
    (\<forall>u \<in> set scc. v N \<le> v u) \<and> (\<forall>u \<in> set rest. v u < v N)"
  using assms
proof (induction stk)
  case (Cons x xs)
  show ?case
  proof (cases "x = N")
    case False
    with Cons obtain scc rest where "popSCC N xs = Inr (scc, rest)" "xs = scc @ rest"
      "\<forall>u \<in> set scc. v N \<le> v u" "\<forall>u \<in> set rest. v u < v N" by auto
    moreover have "v N < v x" using False Cons.prems by auto
    ultimately show ?thesis using False by auto
  qed (use Cons.prems in auto)
qed simp

lemma sorted_by_distinct: "sorted_wrt (\<lambda>a b. v b < (v a :: nat)) xs \<Longrightarrow> distinct xs"
  by (induction xs) auto

lemma pop_merge:
  assumes fr: "frames_ok child num stk h ((N, [], m) # fs)" and m: "m < visitNo num N"
  shows "\<exists>P pcs pm gs. fs = (P, pcs, pm) # gs \<and>
    frames_ok child num stk h ((P, pcs, if pm > m then m else pm) # gs)"
proof -
  from fr have top: "frame_ok child num stk h N [] m" and rest: "frames_ok child num stk (visitNo num N) fs" by simp_all
  from top obtain c where c: "c \<in> set stk" "visitNo num c = m" "(N, c) \<in> (childRel child)\<^sup>*" and N: "visitNo num N < h"
    by (auto simp: frame_ok_def)
  obtain P pcs pm gs where fs: "fs = (P, pcs, pm) # gs"
  proof (cases fs)
    case Nil
    with rest c m show ?thesis by auto
  next
    case (Cons f gs)
    then show ?thesis using that by (cases f) auto
  qed
  from rest fs have inner: "frame_ok child num stk (visitNo num N) P pcs pm" by simp
  from fr fs have PN: "(P, N) \<in> (childRel child)\<^sup>*" by simp
  have cP: "(c, P) \<in> (childRel child)\<^sup>*"
    using below_reaches [of child num stk "visitNo num N" P pcs pm gs c] rest c m by (simp add: fs)
  have "frame_ok child num stk h P pcs (if pm > m then m else pm)"
    unfolding frame_ok_def
  proof (intro conjI ballI impI)
    show "\<exists>d \<in> set stk. visitNo num d = (if pm > m then m else pm) \<and> (P, d) \<in> (childRel child)\<^sup>*"
    proof (cases "pm > m")
      case True
      with c rtrancl_trans [OF PN c(3)] show ?thesis by auto
    next
      case False
      with inner show ?thesis by (auto simp: frame_ok_def)
    qed
  next
    fix u assume u: "u \<in> set stk" "visitNo num P \<le> visitNo num u" "visitNo num u < h"
    show "(P, u) \<in> (childRel child)\<^sup>*" "(u, P) \<in> (childRel child)\<^sup>*"
    proof (atomize (full), cases "visitNo num u < visitNo num N")
      case True
      with inner u show "(P, u) \<in> (childRel child)\<^sup>* \<and> (u, P) \<in> (childRel child)\<^sup>*" by (simp add: frame_ok_def)
    next
      case False
      with top u have "(N, u) \<in> (childRel child)\<^sup>*" "(u, N) \<in> (childRel child)\<^sup>*" by (auto simp: frame_ok_def)
      with PN c(3) cP show "(P, u) \<in> (childRel child)\<^sup>* \<and> (u, P) \<in> (childRel child)\<^sup>*" by (meson rtrancl_trans)
    qed
    fix d assume d: "d \<in> set (child u)"
    show "num d \<noteq> None \<and> (d \<in> set stk \<longrightarrow> (if pm > m then m else pm) \<le> visitNo num d) \<or> (u = P \<and> d \<in> set pcs)"
    proof (cases "visitNo num u < visitNo num N")
      case True
      with inner u d have "num d \<noteq> None \<and> (d \<in> set stk \<longrightarrow> pm \<le> visitNo num d) \<or> (u = P \<and> d \<in> set pcs)"
        by (simp add: frame_ok_def)
      then show ?thesis by auto
    next
      case False
      with top u d have "num d \<noteq> None \<and> (d \<in> set stk \<longrightarrow> m \<le> visitNo num d)" by (simp add: frame_ok_def)
      then show ?thesis by auto
    qed
  qed (use inner N in \<open>auto simp: frame_ok_def\<close>)
  with fr show ?thesis by (auto simp: fs)
qed

lemma emit_ok:
  assumes inv: "scc_inv child n W st" and n: "n < sccDone" and top: "visitStack st = (N, [], visitNo (nodeVisitNumbers st) N) # fs"
    and pop: "popSCC N (sccNodeStack st) = Inr (scc, rest)"
  defines "st' \<equiv> st\<lparr> visitStack := fs, currentSCC := scc, sccNodeStack := rest,
    nodeVisitNumbers := (\<lambda>n. if n \<in> set scc then Some sccDone else nodeVisitNumbers st n) \<rparr>"
  shows "scc_inv child n W st'" "comp_ok child (emitted st) scc" "emitted st' = emitted st \<union> set scc"
    "work child n st' \<le> work child n st" "scc_mono st st'"
proof -
  note D = scc_invD [OF inv]
  let ?num = "nodeVisitNumbers st" and ?stk = "sccNodeStack st"
  let ?num' = "\<lambda>n. if n \<in> set scc then Some sccDone else ?num n"
  from D(9) top have fr: "frame_ok child ?num ?stk (Suc (visitNum st)) N [] (visitNo ?num N)"
    and tl: "frames_ok child ?num ?stk (visitNo ?num N) fs" by simp_all
  from fr have N: "N \<in> set ?stk" by (simp add: frame_ok_def)
  from popSCC_ok [OF D(7) N] pop have split: "?stk = scc @ rest" "scc \<noteq> []"
    "\<And>u. u \<in> set scc \<Longrightarrow> visitNo ?num N \<le> visitNo ?num u" "\<And>u. u \<in> set rest \<Longrightarrow> visitNo ?num u < visitNo ?num N" by auto
  have dis: "distinct ?stk" by (rule sorted_by_distinct [OF D(7)])
  have in_scc: "u \<in> set scc \<longleftrightarrow> u \<in> set ?stk \<and> visitNo ?num N \<le> visitNo ?num u" for u
    using split(1,3) split(4) [of u] by auto
  have in_rest: "u \<in> set rest \<longleftrightarrow> u \<in> set ?stk \<and> visitNo ?num u < visitNo ?num N" for u
    using split(1,4) split(3) [of u] by auto
  have not_done: "?num u \<noteq> Some sccDone" if "u \<in> set ?stk" for u using D(4) D(5) [OF that] n by auto
  have reach: "(N, u) \<in> (childRel child)\<^sup>*" "(u, N) \<in> (childRel child)\<^sup>*"
    "\<And>c. c \<in> set (child u) \<Longrightarrow> ?num c \<noteq> None \<and> (c \<in> set ?stk \<longrightarrow> visitNo ?num N \<le> visitNo ?num c)"
    if "u \<in> set scc" for u
    using fr that D(5) [of u] in_scc by (auto simp: frame_ok_def less_Suc_eq_le)
  have closed: "c \<in> emitted st \<union> set scc" if "u \<in> set scc" "c \<in> set (child u)" for u c
    using reach(3) [OF that] in_scc [of c] D(6) [of c] by (auto simp: emitted_def)
  show "comp_ok child (emitted st) scc"
    unfolding comp_ok_def
  proof (intro conjI ballI)
    show "scc \<noteq> []" "distinct scc" using split(1,2) dis by simp_all
    show "set scc \<inter> emitted st = {}" using not_done split(1) by (auto simp: emitted_def)
    show "w \<in> emitted st \<union> set scc" if "u \<in> set scc" "w \<in> set (child u)" for u w using closed [OF that] .
    show "(u, w) \<in> (childRel child)\<^sup>*" if "u \<in> set scc" "w \<in> set scc" for u w
      using rtrancl_trans [OF reach(2) [OF that(1)] reach(1) [OF that(2)]] .
  qed
  show em: "emitted st' = emitted st \<union> set scc" by (auto simp: emitted_def st'_def)
  have dom: "dom ?num' = dom ?num" using D(3) split(1) by (auto split: if_splits)
  have sel: "visitNum st' = visitNum st" "nodeVisitNumbers st' = ?num'" "sccNodeStack st' = rest"
    "visitStack st' = fs" "visitedNode st' = visitedNode st" by (simp_all add: st'_def)
  have rest_num: "?num' u = ?num u" if "u \<in> set rest" for u using that in_scc in_rest by auto
  have some: "?num' u \<noteq> None \<longleftrightarrow> ?num u \<noteq> None" for u
  proof -
    have "u \<in> dom ?num' \<longleftrightarrow> u \<in> dom ?num" by (simp only: dom)
    then show ?thesis by (simp only: domIff)
  qed
  show "scc_inv child n W st'"
  proof (rule scc_invI, unfold sel)
    show "visitNum st = card (dom ?num')" by (simp only: dom D(1))
    show "dom ?num' \<subseteq> {..<n}" by (simp only: dom D(2))
    show "length (visitedNode st) = n" by (rule D(10))
    show "set rest \<subseteq> dom ?num'" unfolding dom using D(3) in_rest by blast
    show "visitNo ?num' u \<le> visitNum st" if "u \<in> set rest" for u
      using D(5) [of u] that in_rest rest_num by simp
    show "?num' u = Some sccDone" if "?num' u \<noteq> None" "u \<notin> set rest" for u
      using that split(1) D(6) [of u] some [of u] by auto
    have "sorted_wrt (\<lambda>a b. visitNo ?num b < visitNo ?num a) rest" using D(7) split(1) by (simp add: sorted_wrt_append)
    then show "sorted_wrt (\<lambda>a b. visitNo ?num' b < visitNo ?num' a) rest"
      by (rule sorted_wrt_mono_rel [rotated]) (simp only: rest_num)
    show "?num' c = Some sccDone" if "?num' u = Some sccDone" "c \<in> set (child u)" for u c
      using that closed [of u c] D(8) [of u c] by (auto simp: emitted_def split: if_splits)
    show "frames_ok child ?num' rest (Suc (visitNum st)) fs"
    proof (rule frames_mono [OF tl])
      fix u
      show "u \<in> set rest \<and> visitNo ?num' u < Suc (visitNum st) \<longleftrightarrow> u \<in> set ?stk \<and> visitNo ?num u < visitNo ?num N"
      proof (cases "u \<in> set rest")
        case True
        then have "u \<in> set ?stk" "visitNo ?num u < visitNo ?num N" using in_rest [of u] by blast+
        moreover have "visitNo ?num' u < Suc (visitNum st)"
          unfolding rest_num [OF True] using D(5) [OF \<open>u \<in> set ?stk\<close>] by (rule le_imp_less_Suc)
        ultimately show ?thesis using True by blast
      next
        case False
        then show ?thesis using in_rest [of u] by blast
      qed
      show "u \<in> set ?stk \<Longrightarrow> visitNo ?num u < visitNo ?num N \<Longrightarrow> visitNo ?num' u = visitNo ?num u"
        using in_rest [of u] rest_num [of u] by metis
    qed (simp only: some simp_thms)
    show "visitedNode st ! j \<longleftrightarrow> W ! j \<or> ?num' j \<noteq> None" if "j < n" for j
      using D(11) [OF that] some [of j] by blast
    show "\<exists>r < n. \<not> W ! r \<and> (r, u) \<in> (childRel child)\<^sup>*" if "?num' u \<noteq> None" for u
      using D(12) [of u] that some [of u] by blast
  qed
  have "{u. u < n \<and> ?num' u = None} = {u. u < n \<and> ?num u = None}" using some by blast
  then show "work child n st' \<le> work child n st" unfolding work_def sel by (simp add: top)
  show "scc_mono st st'" using dom by (simp add: scc_mono_def st'_def)
qed

lemma nextSCCLoop_ok:
  assumes inv: "scc_inv child n W st" and n: "n < sccDone" and range: "\<And>u. u < n \<Longrightarrow> set (child u) \<subseteq> {..<n}"
    and "work child n st < fuel" and "work child n st < dfsFuel"
  shows "\<exists>st'. nextSCCLoop fuel dfsFuel child st = Inr st' \<and> scc_inv child n W st' \<and> scc_mono st st' \<and>
    work child n st' \<le> work child n st \<and>
    (if visitStack st = [] then st' = st
     else comp_ok child (emitted st) (currentSCC st') \<and> emitted st' = emitted st \<union> set (currentSCC st'))"
  using inv assms(4,5)
proof (induction fuel arbitrary: st)
  case (Suc fuel)
  show ?case
  proof (cases "visitStack st = []")
    case False
    from dfsVisitChildren_ok [OF Suc.prems(1) n range False Suc.prems(3)] obtain st1 N m fs where
      st1: "dfsVisitChildren dfsFuel child st = Inr st1" "visitStack st1 = (N, [], m) # fs" "scc_inv child n W st1"
        "emitted st1 = emitted st" "work child n st1 \<le> work child n st" "scc_mono st st1" by blast
    from scc_invD(9) [OF st1(3)] st1(2) have fr: "frames_ok child (nodeVisitNumbers st1) (sccNodeStack st1)
      (Suc (visitNum st1)) ((N, [], m) # fs)" by simp
    then have N: "N \<in> set (sccNodeStack st1)" "m \<le> visitNo (nodeVisitNumbers st1) N" by (auto simp: frame_ok_def)
    with scc_invD(3) [OF st1(3)] have num_N: "nodeVisitNumbers st1 N = Some (visitNo (nodeVisitNumbers st1) N)" by auto
    show ?thesis
    proof (cases "m = visitNo (nodeVisitNumbers st1) N")
      case False
      with N have m: "m < visitNo (nodeVisitNumbers st1) N" by simp
      from pop_merge [OF fr this] obtain P pcs pm gs where fs: "fs = (P, pcs, pm) # gs"
        "frames_ok child (nodeVisitNumbers st1) (sccNodeStack st1) (Suc (visitNum st1))
           ((P, pcs, if pm > m then m else pm) # gs)" by blast
      let ?st = "st1\<lparr> visitStack := (P, pcs, if pm > m then m else pm) # gs \<rparr>"
      have inv': "scc_inv child n W ?st" by (rule scc_inv_frames [OF st1(3) fs(2)])
      have w: "work child n ?st < work child n st1" by (simp add: work_def st1(2) fs(1))
      have em: "emitted ?st = emitted st1" "scc_mono st1 ?st" by (simp_all add: emitted_def scc_mono_def)
      from Suc.IH [OF inv'] w st1(5) Suc.prems(2,3) obtain st' where
        st': "nextSCCLoop fuel dfsFuel child ?st = Inr st'" "scc_inv child n W st'" "scc_mono ?st st'"
        "work child n st' \<le> work child n ?st" "comp_ok child (emitted ?st) (currentSCC st')"
        "emitted st' = emitted ?st \<union> set (currentSCC st')" by fastforce
      have "Some m \<noteq> nodeVisitNumbers st1 N" using num_N False by (metis option.inject)
      then have "nextSCCLoop (Suc fuel) dfsFuel child st = nextSCCLoop fuel dfsFuel child ?st"
        using \<open>visitStack st \<noteq> []\<close> st1(1,2) fs(1) by (simp add: Let_def)
      moreover have "scc_mono st st'" using st1(6) em(2) st'(3) scc_mono_trans by blast
      ultimately show ?thesis using st' st1(4,5) em(1) w \<open>visitStack st \<noteq> []\<close>
        by (intro exI [of _ st'] conjI) (simp_all del: nextSCCLoop.simps)
    next
      case True
      from fr have tl: "frames_ok child (nodeVisitNumbers st1) (sccNodeStack st1) m fs" by (simp add: True)
      have fs: "(case fs of [] \<Rightarrow> [] | (P, pcs, pm) # gs \<Rightarrow> (P, pcs, if pm > m then m else pm) # gs) = fs"
        using tl by (cases fs) (auto simp: frame_ok_def)
      from popSCC_ok [OF scc_invD(7) [OF st1(3)] N(1)] obtain scc rest where
        pop: "popSCC N (sccNodeStack st1) = Inr (scc, rest)" by blast
      note em = emit_ok [OF st1(3) n st1(2) [unfolded True] pop]
      let ?st = "st1\<lparr> visitStack := fs, currentSCC := scc, sccNodeStack := rest,
        nodeVisitNumbers := (\<lambda>n. if n \<in> set scc then Some sccDone else nodeVisitNumbers st1 n) \<rparr>"
      have "Some m = nodeVisitNumbers st1 N" using num_N True by (metis option.inject)
      then have "nextSCCLoop (Suc fuel) dfsFuel child st = Inr ?st"
        using \<open>visitStack st \<noteq> []\<close> st1(1,2) fs pop by (simp add: Let_def cong: if_cong)
      moreover have "scc_mono st ?st" using st1(6) em(5) scc_mono_trans by blast
      ultimately show ?thesis using em(1-4) st1(4,5) \<open>visitStack st \<noteq> []\<close>
        by (intro exI [of _ ?st] conjI) (simp_all del: nextSCCLoop.simps)
    qed
  qed (use Suc.prems in simp)
qed simp

lemma getNextSCC_ok:
  assumes inv: "scc_inv child n W st" and "n < sccDone" and "\<And>u. u < n \<Longrightarrow> set (child u) \<subseteq> {..<n}"
    and "work child n st < fuel"
  shows "\<exists>st'. getNextSCC fuel child st = Inr st' \<and> scc_inv child n W st' \<and> scc_mono st st' \<and>
    work child n st' \<le> work child n st \<and>
    (if visitStack st = [] then st' = st\<lparr> currentSCC := [] \<rparr>
     else comp_ok child (emitted st) (currentSCC st') \<and> emitted st' = emitted st \<union> set (currentSCC st'))"
proof -
  let ?st = "st\<lparr> currentSCC := [] \<rparr>"
  have same: "scc_inv child n W ?st = scc_inv child n W st" "emitted ?st = emitted st"
    "work child n ?st = work child n st" "scc_mono ?st st' = scc_mono st st'" for st'
    by (simp_all add: scc_inv_def emitted_def work_def scc_mono_def)
  from nextSCCLoop_ok [of child n W ?st fuel fuel] assms show ?thesis
    unfolding same getNextSCC_def by simp
qed

subsection \<open>Roots\<close>

lemma empty_stack:
  assumes inv: "scc_inv child n W st" and "visitStack st = []"
  shows "sccNodeStack st = []" "nodeVisitNumbers st u \<noteq> None \<longleftrightarrow> u \<in> emitted st"
proof -
  from scc_invD(9) [OF inv] assms(2) have "\<forall>u \<in> set (sccNodeStack st). Suc (visitNum st) \<le> visitNo (nodeVisitNumbers st) u"
    by simp
  with scc_invD(5) [OF inv] show "sccNodeStack st = []" by (cases "sccNodeStack st") force+
  with scc_invD(6) [OF inv, of u] show "nodeVisitNumbers st u \<noteq> None \<longleftrightarrow> u \<in> emitted st" by (auto simp: emitted_def)
qed

lemma visit_root:
  assumes inv: "scc_inv child n W st" and n: "n < sccDone" and st: "visitStack st = []" and r: "r < n" "\<not> visitedNode st ! r"
  shows "scc_inv child n W (dfsVisitOne child r st)" "emitted (dfsVisitOne child r st) = emitted st"
    "work child n (dfsVisitOne child r st) \<le> work child n st"
proof -
  from scc_invD(11) [OF inv r(1)] r(2) have new: "\<not> W ! r" "nodeVisitNumbers st r = None" by auto
  have same: "st\<lparr> visitStack := [] \<rparr> = st" using st by simp
  have fr: "frames_ok child ((nodeVisitNumbers st)(r \<mapsto> visitNum st + 1)) (r # sccNodeStack st) (Suc (visitNum st)) []"
    using empty_stack(1) [OF inv st] by simp
  have "\<exists>q < n. \<not> W ! q \<and> (q, r) \<in> (childRel child)\<^sup>*" using r(1) new(1) by blast
  from visit_gen [OF inv n r(1) new(2) fr _ this] show "scc_inv child n W (dfsVisitOne child r st)"
    "emitted (dfsVisitOne child r st) = emitted st" by (simp_all add: same)
  have "{u. u < n \<and> nodeVisitNumbers st u = None} = insert r {u. u < n \<and> nodeVisitNumbers (dfsVisitOne child r st) u = None}"
    using new(2) r(1) by (auto simp: dfsVisitOne_def)
  moreover have "nodeVisitNumbers (dfsVisitOne child r st) r \<noteq> None" by (simp add: dfsVisitOne_def)
  ultimately show "work child n (dfsVisitOne child r st) \<le> work child n st"
    by (simp add: work_def st) (simp add: dfsVisitOne_def st)
qed

lemma findUnset_None: "findUnsetFrom i bs = None \<longleftrightarrow> (\<forall>j < length bs. i \<le> j \<longrightarrow> bs ! j)"
  by (auto simp: findUnsetFrom_def find_None_iff)

lemma findUnset_Some:
  assumes "findUnsetFrom i bs = Some r"
  shows "i \<le> r" "r < length bs" "\<not> bs ! r" "i \<le> j \<Longrightarrow> j < r \<Longrightarrow> bs ! j"
proof -
  from assms obtain k where k: "k < length bs - i" "r = i + k" "\<not> bs ! r" "\<forall>j < k. bs ! (i + j)"
    by (auto simp: findUnsetFrom_def find_Some_iff)
  then show "i \<le> r" "r < length bs" "\<not> bs ! r" by auto
  show "bs ! j" if "i \<le> j" "j < r"
  proof -
    from that k(2) have "j - i < k" "i + (j - i) = j" by auto
    with k(4) show ?thesis by metis
  qed
qed

definition roots_ok :: "(nat \<Rightarrow> bool) \<Rightarrow> nat \<Rightarrow> scc_state \<Rightarrow> bool" where
  "roots_ok hasSuper b st \<longleftrightarrow> (\<forall>j < length (visitedNode st). j < b \<longrightarrow> visitedNode st ! j \<or> hasSuper j)"

lemma nextRoot_ok:
  assumes "roots_ok hasSuper (Suc (lastRoot st)) st" and "lastRoot st \<le> length (visitedNode st)"
    and "length (visitedNode st) < fuel + lastRoot st"
  shows "\<exists>root l. nextRoot fuel hasSuper st = Inr (root, st\<lparr> lastRoot := l \<rparr>) \<and> l \<le> length (visitedNode st) \<and>
    (case root of None \<Rightarrow> roots_ok hasSuper (length (visitedNode st)) st
     | Some r \<Rightarrow> l = r \<and> r < length (visitedNode st) \<and> \<not> visitedNode st ! r \<and> roots_ok hasSuper r st)"
  using assms
proof (induction fuel arbitrary: st)
  case (Suc fuel)
  show ?case
  proof (cases "findUnsetFrom (Suc (lastRoot st)) (visitedNode st)")
    case None
    then have "\<forall>j < length (visitedNode st). Suc (lastRoot st) \<le> j \<longrightarrow> visitedNode st ! j" by (simp add: findUnset_None)
    then have "roots_ok hasSuper (length (visitedNode st)) st"
      using Suc.prems(1) by (auto simp: roots_ok_def not_less_eq_eq [symmetric] less_Suc_eq_le)
    then show ?thesis using None Suc.prems(2) by (auto intro!: exI [of _ "lastRoot st"])
  next
    case (Some r)
    note r = findUnset_Some [OF Some]
    have before: "roots_ok hasSuper r st"
      using Suc.prems(1) r(4) by (auto simp: roots_ok_def)
    show ?thesis
    proof (cases "hasSuper r")
      case False
      then show ?thesis using Some r before by (auto simp: Let_def intro!: exI [of _ r])
    next
      case True
      let ?st = "st\<lparr> lastRoot := r \<rparr>"
      have "roots_ok hasSuper (Suc (lastRoot ?st)) ?st"
        using before True by (auto simp: roots_ok_def less_Suc_eq)
      from Suc.IH [OF this] r(1,2) Suc.prems(3) obtain root l where "nextRoot fuel hasSuper ?st = Inr (root, st\<lparr> lastRoot := l \<rparr>)"
        "l \<le> length (visitedNode st)" "case root of None \<Rightarrow> roots_ok hasSuper (length (visitedNode st)) ?st
         | Some r \<Rightarrow> l = r \<and> r < length (visitedNode st) \<and> \<not> visitedNode st ! r \<and> roots_ok hasSuper r ?st"
        by (fastforce split: option.splits)
      then show ?thesis using Some True by (auto simp: Let_def roots_ok_def split: option.splits)
    qed
  qed
qed simp

text \<open>Between two components.\<close>

definition scc_good :: "(nat \<Rightarrow> nat list) \<Rightarrow> nat \<Rightarrow> (nat \<Rightarrow> bool) \<Rightarrow> bool list \<Rightarrow> nat \<Rightarrow> scc_state \<Rightarrow> bool" where
  "scc_good child n hasSuper W fuel st \<longleftrightarrow> scc_inv child n W st \<and> roots_ok hasSuper (Suc (lastRoot st)) st \<and>
     lastRoot st \<le> n \<and> work child n st < fuel \<and> n < fuel"

lemma roots_mono:
  assumes "roots_ok hasSuper b st" and "scc_inv child n W st" "scc_inv child n W st'" and "scc_mono st st'"
  shows "roots_ok hasSuper b st'"
proof -
  have "visitedNode st' ! j" if "j < n" "visitedNode st ! j" for j
    using that scc_invD(11) [OF assms(2) that(1)] scc_invD(11) [OF assms(3) that(1)] assms(4) by (auto simp: scc_mono_def)
  with assms(1) scc_invD(10) [OF assms(2)] scc_invD(10) [OF assms(3)] show ?thesis by (auto simp: roots_ok_def)
qed

lemma start_root:
  assumes inv: "scc_inv child n W st" and n: "n < sccDone" and range: "\<And>u. u < n \<Longrightarrow> set (child u) \<subseteq> {..<n}"
    and st: "visitStack st = []" and r: "r < n" "\<not> visitedNode st ! r" and roots: "roots_ok hasSuper r st"
    and l: "lastRoot st \<le> r" and work: "work child n st < fuel" "n < fuel"
  shows "\<exists>st'. getNextSCC fuel child (dfsVisitOne child r st) = Inr st' \<and> scc_good child n hasSuper W fuel st' \<and>
    comp_ok child (emitted st) (currentSCC st') \<and> emitted st' = emitted st \<union> set (currentSCC st')"
proof -
  let ?st = "dfsVisitOne child r st"
  note v = visit_root [OF inv n st r]
  have ne: "visitStack ?st \<noteq> []" and l': "lastRoot ?st = lastRoot st" by (simp_all add: dfsVisitOne_def)
  from getNextSCC_ok [OF v(1) n range, of fuel] v(3) work ne obtain st' where
    st': "getNextSCC fuel child ?st = Inr st'" "scc_inv child n W st'" "scc_mono ?st st'" "work child n st' < fuel"
      "comp_ok child (emitted ?st) (currentSCC st')" "emitted st' = emitted ?st \<union> set (currentSCC st')" by fastforce
  have "roots_ok hasSuper (Suc r) ?st" using roots r by (auto simp: roots_ok_def dfsVisitOne_def nth_list_update less_Suc_eq)
  from roots_mono [OF this v(1) st'(2,3)] have "roots_ok hasSuper (Suc r) st'" .
  moreover have "lastRoot st' = lastRoot st" using st'(3) l' by (simp add: scc_mono_def)
  ultimately have "scc_good child n hasSuper W fuel st'"
    using st'(2,4) work l r(1) by (auto simp: scc_good_def roots_ok_def)
  with st' v(2) show ?thesis by simp
qed

subsection \<open>The whole iteration\<close>

fun comps_ok :: "(nat \<Rightarrow> nat list) \<Rightarrow> nat set \<Rightarrow> nat list list \<Rightarrow> bool" where
  "comps_ok child D [] = True"
| "comps_ok child D (c # cs) = (comp_ok child D c \<and> comps_ok child (D \<union> set c) cs)"

text \<open>Every node that should be visited is among \<open>D\<close>.\<close>

definition covers :: "(nat \<Rightarrow> bool) \<Rightarrow> bool list \<Rightarrow> nat \<Rightarrow> nat set \<Rightarrow> bool" where
  "covers hasSuper W n D \<longleftrightarrow> (\<forall>j < n. \<not> W ! j \<longrightarrow> \<not> hasSuper j \<longrightarrow> j \<in> D)"

lemma covers_end:
  assumes inv: "scc_inv child n W st" and "visitStack st = []" and "roots_ok hasSuper n st"
  shows "covers hasSuper W n (emitted st)"
  using assms(3) scc_invD(10) [OF inv] scc_invD(11) [OF inv] empty_stack(2) [OF inv assms(2)]
  by (auto simp: covers_def roots_ok_def)

lemma sccNext_ok:
  assumes good: "scc_good child n hasSuper W fuel st" and n: "n < sccDone"
    and range: "\<And>u. u < n \<Longrightarrow> set (child u) \<subseteq> {..<n}"
  shows "\<exists>st'. sccNext fuel n child hasSuper st = Inr st' \<and> scc_good child n hasSuper W fuel st' \<and>
    (if currentSCC st' = [] then visitStack st' = [] \<and> emitted st' = emitted st \<and> covers hasSuper W n (emitted st)
     else comp_ok child (emitted st) (currentSCC st') \<and> emitted st' = emitted st \<union> set (currentSCC st'))"
proof -
  from good have inv: "scc_inv child n W st" and roots: "roots_ok hasSuper (Suc (lastRoot st)) st"
    and l: "lastRoot st \<le> n" and fuel: "work child n st < fuel" "n < fuel" by (simp_all add: scc_good_def)
  from getNextSCC_ok [OF inv n range fuel(1)] obtain st1 where
    st1: "getNextSCC fuel child st = Inr st1" "scc_inv child n W st1" "scc_mono st st1" "work child n st1 < fuel"
    "if visitStack st = [] then st1 = st\<lparr> currentSCC := [] \<rparr>
     else comp_ok child (emitted st) (currentSCC st1) \<and> emitted st1 = emitted st \<union> set (currentSCC st1)"
    using fuel(1) by (metis order_le_less_trans)
  show ?thesis
  proof (cases "visitStack st = []")
    case False
    with st1(5) have c: "comp_ok child (emitted st) (currentSCC st1)" "emitted st1 = emitted st \<union> set (currentSCC st1)" by auto
    have "scc_good child n hasSuper W fuel st1"
      using st1(2-4) roots_mono [OF roots inv st1(2,3)] l fuel(2) by (simp add: scc_good_def scc_mono_def)
    with c st1(1) show ?thesis by (auto simp: sccNext_def comp_ok_def)
  next
    case True
    with st1(5) have st1_eq: "st1 = st\<lparr> currentSCC := [] \<rparr>" by simp
    then have empty: "visitStack st1 = []" "lastRoot st1 = lastRoot st" "currentSCC st1 = []"
      and em: "emitted st1 = emitted st" and vn: "visitedNode st1 = visitedNode st"
      using True by (simp_all add: emitted_def)
    have len: "length (visitedNode st1) = n" by (rule scc_invD(10) [OF st1(2)])
    from roots have "roots_ok hasSuper (Suc (lastRoot st1)) st1" by (simp add: roots_ok_def empty(2) vn)
    from nextRoot_ok [OF this, of fuel] l fuel(2) obtain root k where
      r: "nextRoot fuel hasSuper st1 = Inr (root, st1\<lparr> lastRoot := k \<rparr>)" "k \<le> n"
        "case root of None \<Rightarrow> roots_ok hasSuper n st1
         | Some r \<Rightarrow> k = r \<and> r < n \<and> \<not> visitedNode st1 ! r \<and> roots_ok hasSuper r st1"
      unfolding len by (auto simp: empty(2))
    let ?st = "st1\<lparr> lastRoot := k \<rparr>"
    have inv': "scc_inv child n W ?st" and em': "emitted ?st = emitted st" and w': "work child n ?st = work child n st1"
      and vs': "visitStack ?st = []"
      using st1(2) em empty(1) by (simp_all add: scc_inv_def emitted_def work_def)
    have step: "sccNext fuel n child hasSuper st = rbind (Inr (root, ?st)) (\<lambda>(root, st).
          case root of None \<Rightarrow> Inr st
          | Some r \<Rightarrow> rassert (r < n) AssertFailed (getNextSCC fuel child (dfsVisitOne child r st)))"
      using st1(1) empty(3) r(1) by (simp add: sccNext_def nextSubGraph_def)
    show ?thesis
    proof (cases root)
      case None
      with r(3) have rn: "roots_ok hasSuper n st1" by simp
      then have "scc_good child n hasSuper W fuel ?st" using inv' w' st1(4) fuel(2) r(2) len
        by (auto simp: scc_good_def roots_ok_def)
      moreover have "covers hasSuper W n (emitted st)" using covers_end [OF st1(2) empty(1) rn] em by simp
      ultimately show ?thesis using step None em' vs' empty(3) by simp
    next
      case (Some r')
      with r(3) have r': "k = r'" "r' < n" "\<not> visitedNode ?st ! r'" "roots_ok hasSuper r' ?st" by (auto simp: roots_ok_def)
      have "lastRoot ?st \<le> r'" "work child n ?st < fuel" using r'(1) w' st1(4) by simp_all
      from start_root [OF inv' n range vs' r'(2-4) this fuel(2)] obtain st' where
        "getNextSCC fuel child (dfsVisitOne child r' ?st) = Inr st'" "scc_good child n hasSuper W fuel st'"
        "comp_ok child (emitted ?st) (currentSCC st')" "emitted st' = emitted ?st \<union> set (currentSCC st')" by blast
      then show ?thesis using step Some r'(2) em' by (auto simp: comp_ok_def)
    qed
  qed
qed

lemma emitted_sub: "scc_inv child n W st \<Longrightarrow> u \<in> emitted st \<Longrightarrow> u < n \<and> (\<exists>r < n. \<not> W ! r \<and> (r, u) \<in> (childRel child)\<^sup>*)"
  using scc_invD(2) [of child n W st] scc_invD(12) [of child n W st u] by (auto simp: emitted_def)

lemma emitted_card: "scc_inv child n W st \<Longrightarrow> finite (emitted st) \<and> card (emitted st) \<le> n"
  using emitted_sub [of child n W st] card_mono [of "{..<n}" "emitted st"] finite_subset [of "emitted st" "{..<n}"]
  by (auto simp: subset_iff)

lemma sccCollect_ok:
  assumes good: "scc_good child n hasSuper W fuel st" and n: "n < sccDone"
    and range: "\<And>u. u < n \<Longrightarrow> set (child u) \<subseteq> {..<n}" and "currentSCC st \<noteq> []" and "n + 2 \<le> steps + card (emitted st)"
  shows "\<exists>rest. sccCollect steps fuel n child hasSuper st = Inr (currentSCC st # rest) \<and>
    comps_ok child (emitted st) rest \<and> covers hasSuper W n (emitted st \<union> set (concat rest)) \<and>
    (\<forall>u \<in> set (concat rest). u < n \<and> (\<exists>r < n. \<not> W ! r \<and> (r, u) \<in> (childRel child)\<^sup>*))"
  using good assms(4,5)
proof (induction steps arbitrary: st)
  case 0
  have "card (emitted st) \<le> n" using emitted_card [of child n W st] 0(1) by (simp add: scc_good_def)
  with 0 show ?case by simp
next
  case (Suc steps)
  from sccNext_ok [OF Suc.prems(1) n range] obtain st' where
    st': "sccNext fuel n child hasSuper st = Inr st'" "scc_good child n hasSuper W fuel st'"
    "if currentSCC st' = [] then visitStack st' = [] \<and> emitted st' = emitted st \<and> covers hasSuper W n (emitted st)
     else comp_ok child (emitted st) (currentSCC st') \<and> emitted st' = emitted st \<union> set (currentSCC st')" by blast
  have inv': "scc_inv child n W st'" and fin: "finite (emitted st)" and card: "card (emitted st) \<le> n"
    using st'(2) Suc.prems(1) emitted_card by (auto simp: scc_good_def)
  show ?case
  proof (cases "currentSCC st' = []")
    case True
    from card Suc.prems(3) obtain k where "steps = Suc k" by (cases steps) auto
    with True st' Suc.prems(2) show ?thesis by auto
  next
    case False
    with st'(3) have c: "comp_ok child (emitted st) (currentSCC st')" "emitted st' = emitted st \<union> set (currentSCC st')" by auto
    have "card (emitted st) < card (emitted st')"
    proof (rule psubset_card_mono)
      show "finite (emitted st')" unfolding c(2) using fin by simp
      from c(1) obtain u where "u \<in> set (currentSCC st')" "u \<notin> emitted st"
        by (cases "currentSCC st'") (auto simp: comp_ok_def)
      then show "emitted st \<subset> emitted st'" unfolding c(2) by blast
    qed
    with Suc.prems(3) have "n + 2 \<le> steps + card (emitted st')" by simp
    from Suc.IH [OF st'(2) False this] obtain rest where
      rest: "sccCollect steps fuel n child hasSuper st' = Inr (currentSCC st' # rest)" "comps_ok child (emitted st') rest"
        "covers hasSuper W n (emitted st' \<union> set (concat rest))"
        "\<forall>u \<in> set (concat rest). u < n \<and> (\<exists>r < n. \<not> W ! r \<and> (r, u) \<in> (childRel child)\<^sup>*)" by blast
    have "sccCollect (Suc steps) fuel n child hasSuper st = Inr (currentSCC st # currentSCC st' # rest)"
      using st'(1) rest(1) Suc.prems(2) by simp
    moreover have "\<forall>u \<in> set (currentSCC st'). u < n \<and> (\<exists>r < n. \<not> W ! r \<and> (r, u) \<in> (childRel child)\<^sup>*)"
      using emitted_sub [OF inv'] c(2) by blast
    ultimately show ?thesis using c rest(2-4) by (intro exI [of _ "currentSCC st' # rest"]) (auto simp: Un_assoc)
  qed
qed

lemma sccList_ok:
  assumes range: "\<And>u. u < n \<Longrightarrow> set (child u) \<subseteq> {..<n}" and len: "length W = n" and n: "n < sccDone"
  shows "\<exists>out. sccList n child hasSuper W = Inr out \<and> comps_ok child {} out \<and> covers hasSuper W n (set (concat out)) \<and>
    (\<forall>u \<in> set (concat out). u < n \<and> (\<exists>r < n. \<not> W ! r \<and> (r, u) \<in> (childRel child)\<^sup>*))"
proof -
  let ?f = "sccFuel n child"
  let ?st = "\<lparr> visitNum = 0, nodeVisitNumbers = (\<lambda>_. None), sccNodeStack = [], currentSCC = [],
    visitedNode = W, lastRoot = 0, visitStack = [] \<rparr>"
  have inv: "scc_inv child n W ?st" and em: "emitted ?st = {}" using len by (auto simp: scc_inv_def emitted_def)
  have "(\<Sum>u \<leftarrow> [0..<n]. length (child u) + 2) = (\<Sum>u | u < n. length (child u) + 2)"
    by (simp add: sum_list_distinct_conv_sum_set atLeast0LessThan lessThan_def)
  moreover have "n \<le> (\<Sum>u | u < n. length (child u) + 2)"
    using sum_mono [of "{u. u < n}" "\<lambda>_. 1" "\<lambda>u. length (child u) + 2"] by simp
  ultimately have fuel: "work child n ?st < ?f" "n < ?f" by (simp_all add: work_def sccFuel_def)
  show ?thesis
  proof (cases "findUnsetFrom 0 W")
    case None
    then have "covers hasSuper W n {}" using len by (simp add: findUnset_None covers_def)
    with None show ?thesis by (intro exI [of _ "[]"]) (simp add: sccList_def sccBegin_def Let_def)
  next
    case (Some r)
    note r = findUnset_Some [OF Some]
    have "roots_ok hasSuper r ?st" using r(4) by (simp add: roots_ok_def)
    from start_root [OF inv n range _ _ _ this _ fuel] r(2,3) len em obtain st where
      st: "getNextSCC ?f child (dfsVisitOne child r ?st) = Inr st" "scc_good child n hasSuper W ?f st"
        "comp_ok child {} (currentSCC st)" "emitted st = set (currentSCC st)" by auto
    have inv': "scc_inv child n W st" using st(2) by (simp add: scc_good_def)
    have ne: "currentSCC st \<noteq> []" using st(3) by (simp add: comp_ok_def)
    then have "emitted st \<noteq> {}" by (simp add: st(4))
    then have "0 < card (emitted st)" using emitted_card [OF inv'] by (simp add: card_gt_0_iff)
    then have "n + 2 \<le> Suc n + card (emitted st)" by simp
    from sccCollect_ok [OF st(2) n range ne this] obtain rest where
      rest: "sccCollect (Suc n) ?f n child hasSuper st = Inr (currentSCC st # rest)" "comps_ok child (emitted st) rest"
        "covers hasSuper W n (emitted st \<union> set (concat rest))"
        "\<forall>u \<in> set (concat rest). u < n \<and> (\<exists>r < n. \<not> W ! r \<and> (r, u) \<in> (childRel child)\<^sup>*)" by blast
    have "sccList n child hasSuper W = Inr (currentSCC st # rest)"
      using Some st(1) r(2) len rest(1) by (simp add: sccList_def sccBegin_def Let_def del: sccCollect.simps)
    with st(3,4) rest(2-4) emitted_sub [OF inv'] show ?thesis
      by (intro exI [of _ "currentSCC st # rest"]) auto
  qed
qed

section \<open>Properties\<close>

lemma closed_reach:
  assumes "\<forall>u \<in> X. set (child u) \<subseteq> X" and "(u, w) \<in> (childRel child)\<^sup>*" and "u \<in> X"
  shows "w \<in> X"
  using assms(2,3,1) by (induction rule: rtrancl_induct) (auto simp: childRel_def)

lemma comps_ok_append:
  "comps_ok child D (xs @ ys) \<longleftrightarrow> comps_ok child D xs \<and> comps_ok child (D \<union> set (concat xs)) ys"
  by (induction xs arbitrary: D) (auto simp: Un_assoc)

lemma comps_ok_closed:
  assumes "comps_ok child D out" and "\<forall>u \<in> D. set (child u) \<subseteq> D"
  shows "(\<forall>u \<in> D \<union> set (concat out). set (child u) \<subseteq> D \<union> set (concat out)) \<and>
    distinct (concat out) \<and> set (concat out) \<inter> D = {} \<and> [] \<notin> set out"
  using assms
proof (induction out arbitrary: D)
  case (Cons c out)
  from Cons.prems have c: "comp_ok child D c" "comps_ok child (D \<union> set c) out" by simp_all
  then have "\<forall>u \<in> D \<union> set c. set (child u) \<subseteq> D \<union> set c" using Cons.prems(2) by (auto simp: comp_ok_def)
  from Cons.IH [OF c(2) this] c(1) show ?case by (auto simp: comp_ok_def Un_assoc)
qed simp

text \<open>A member's component is the set of nodes it reaches and is reached from.\<close>

lemma comp_exact:
  assumes "comps_ok child {} (xs @ c # ys)" and u: "u \<in> set c"
  shows "w \<in> set c \<longleftrightarrow> (u, w) \<in> (childRel child)\<^sup>* \<and> (w, u) \<in> (childRel child)\<^sup>*"
proof
  from assms(1) have xs: "comps_ok child {} xs" and c: "comp_ok child (set (concat xs)) c" by (simp_all add: comps_ok_append)
  show "w \<in> set c \<Longrightarrow> (u, w) \<in> (childRel child)\<^sup>* \<and> (w, u) \<in> (childRel child)\<^sup>*"
    using c u by (simp add: comp_ok_def)
  assume uw: "(u, w) \<in> (childRel child)\<^sup>* \<and> (w, u) \<in> (childRel child)\<^sup>*"
  from comps_ok_closed [OF xs] have D: "\<forall>u \<in> set (concat xs). set (child u) \<subseteq> set (concat xs)" by simp
  moreover from c have "\<forall>u \<in> set c. set (child u) \<subseteq> set (concat xs) \<union> set c" unfolding comp_ok_def by blast
  ultimately have "\<forall>u \<in> set (concat xs) \<union> set c. set (child u) \<subseteq> set (concat xs) \<union> set c" by blast
  from closed_reach [OF this conjunct1 [OF uw]] u have "w \<in> set (concat xs) \<union> set c" by blast
  moreover have "w \<notin> set (concat xs)"
    using closed_reach [OF D conjunct2 [OF uw]] u c by (auto simp: comp_ok_def)
  ultimately show "w \<in> set c" by blast
qed

text \<open>
  C20. On a graph of fewer than \<open>2\<^sup>3\<^sup>2 - 1\<close> nodes the iteration returns, and what it yields are
  strongly connected components: each exactly the nodes that reach each other, no node twice,
  and every successor of a member in the component itself or in one yielded before. All nodes
  left open by the work list are covered, except collapsed ones, and only nodes reachable from
  open ones are visited.
\<close>

theorem scc_iterator_exact:
  assumes "\<forall>u < n. set (child u) \<subseteq> {..<n}" and "length workList = n" and "n < sccDone"
  shows "\<exists>out. sccList n child hasSuper workList = Inr out \<and> distinct (concat out) \<and> [] \<notin> set out \<and>
    (\<forall>xs c ys u. out = xs @ c # ys \<longrightarrow> u \<in> set c \<longrightarrow>
       (\<forall>w. w \<in> set c \<longleftrightarrow> (u, w) \<in> (childRel child)\<^sup>* \<and> (w, u) \<in> (childRel child)\<^sup>*) \<and>
       set (child u) \<subseteq> set c \<union> set (concat xs)) \<and>
    (\<forall>u < n. \<not> workList ! u \<longrightarrow> \<not> hasSuper u \<longrightarrow> u \<in> set (concat out)) \<and>
    (\<forall>u \<in> set (concat out). u < n \<and> (\<exists>r < n. \<not> workList ! r \<and> (r, u) \<in> (childRel child)\<^sup>*))"
proof -
  from sccList_ok [of n child workList hasSuper] assms obtain out where
    out: "sccList n child hasSuper workList = Inr out" "comps_ok child {} out"
      "covers hasSuper workList n (set (concat out))"
      "\<forall>u \<in> set (concat out). u < n \<and> (\<exists>r < n. \<not> workList ! r \<and> (r, u) \<in> (childRel child)\<^sup>*)" by blast
  have "set (child u) \<subseteq> set c \<union> set (concat xs)" if "out = xs @ c # ys" "u \<in> set c" for xs c ys u
  proof -
    from out(2) that(1) have "comp_ok child ({} \<union> set (concat xs)) c" by (simp add: comps_ok_append)
    with that(2) show ?thesis unfolding comp_ok_def by blast
  qed
  moreover have "w \<in> set c \<longleftrightarrow> (u, w) \<in> (childRel child)\<^sup>* \<and> (w, u) \<in> (childRel child)\<^sup>*"
    if "out = xs @ c # ys" "u \<in> set c" for xs c ys u w
    using comp_exact [OF out(2) [unfolded that(1)] that(2)] .
  ultimately have "\<forall>xs c ys u. out = xs @ c # ys \<longrightarrow> u \<in> set c \<longrightarrow>
       (\<forall>w. w \<in> set c \<longleftrightarrow> (u, w) \<in> (childRel child)\<^sup>* \<and> (w, u) \<in> (childRel child)\<^sup>*) \<and>
       set (child u) \<subseteq> set c \<union> set (concat xs)" by blast
  moreover have "distinct (concat out)" "[] \<notin> set out" using comps_ok_closed [OF out(2)] by simp_all
  moreover have "\<forall>u < n. \<not> workList ! u \<longrightarrow> \<not> hasSuper u \<longrightarrow> u \<in> set (concat out)"
    using out(3) by (simp add: covers_def)
  ultimately show ?thesis using out(1,4) by blast
qed

text \<open>Two cycles joined by an edge, a node that was done, and one alone.\<close>

definition demo_succ :: "nat \<Rightarrow> nat list" where
  "demo_succ u = [[1], [2], [0, 3], [4], [3], [0], []] ! u"

lemma scc_iterator_exact_witness:
  "sccList 7 demo_succ (\<lambda>u. False) [False, False, False, False, False, True, False] = Inr [[4, 3], [2, 1, 0], [6]] \<and>
   distinct (concat [[4, 3], [2, 1, 0], [6 :: nat]])"
proof -
  have range: "\<forall>u < 7. set (demo_succ u) \<subseteq> {..<7}" by (simp add: demo_succ_def All_less_Suc eval_nat_numeral)
  have run: "sccList 7 demo_succ (\<lambda>u. False) [False, False, False, False, False, True, False] = Inr [[4, 3], [2, 1, 0], [6]]"
    by code_simp
  from scc_iterator_exact [OF range, of "[False, False, False, False, False, True, False]" "\<lambda>u. False"] run
  show ?thesis by (simp add: sccDone_def)
qed

end
