(* ===== verification/Solver.thy ===== *)
theory Solver
  imports GraphOps SCCIterator
begin

text \<open>
  The solver of the pointer analysis (src/PointerAnalysis/Solver/SolverBase.h and
  PartialUpdateSolver.h), as it is compiled: with \<open>addr_of\<close> constraints for offsets and
  indirect calls resolved between runs (\<open>NO_ADDR_OF_FOR_OFFSET\<close> and
  \<open>RESOLVE_FUNPTR_IMMEDIATELY\<close> are not defined).

  The language model is a template parameter of the solver, and here a record: how it indexes an
  object, what the special objects of its memory model ask for, which values are instructions, and
  how an edge's pair of addresses hashes. \<open>'l\<close> is its state. A \<open>BitVector\<close> is a list of
  bits, whose accesses assert that the index is in range; the sparse one of required edges is the
  ascending list of the bits that are set.
\<close>

section \<open>State\<close>

record 'l lang_model =
  lmIndexObject :: "nat \<Rightarrow> llvm_value \<Rightarrow> 'l \<Rightarrow> cons_graph \<times> pts_vec \<Rightarrow>
    (nat option \<times> 'l \<times> cons_graph \<times> pts_vec) result"
  lmProcessSpecial :: "nat \<Rightarrow> nat \<Rightarrow> nat \<Rightarrow> (nat \<times> nat \<times> constraints) list"
  lmIsInstruction :: "llvm_value \<Rightarrow> bool"
  hashEdge :: "nat \<Rightarrow> nat \<Rightarrow> nat"

record 'l solver =
  consGraph :: cons_graph
  ptsVec :: pts_vec
  langModel :: 'l
  updatedFunPtrs :: "nat list"
  handledGEPMap :: "nat \<Rightarrow> nat list"
  copyWorkList :: "bool list"
  lsWorkList :: "bool list"
  targetList :: "bool list"
  requiredEdge :: "nat list"

definition bitTest :: "nat \<Rightarrow> bool list \<Rightarrow> bool result" where
  "bitTest i bs = rassert (i < length bs) AssertFailed (Inr (bs ! i))"

definition bitReset :: "nat \<Rightarrow> bool list \<Rightarrow> bool list result" where
  "bitReset i bs = rassert (i < length bs) AssertFailed (Inr (bs[i := False]))"

definition bitResize :: "nat \<Rightarrow> bool \<Rightarrow> bool list \<Rightarrow> bool list" where
  "bitResize n b bs = take n bs @ replicate (n - length bs) b"

section \<open>Constraints\<close>

definition updateFunPtr :: "nat \<Rightarrow> 'l solver \<Rightarrow> 'l solver" where
  "updateFunPtr n st = st\<lparr> updatedFunPtrs := sorted_insert n (updatedFunPtrs st) \<rparr>"

definition processCopy :: "nat \<Rightarrow> nat \<Rightarrow> 'l solver \<Rightarrow> (bool \<times> 'l solver) result" where
  "processCopy src dst st =
     rbind (ptsUnionWith dst src (ptsVec st)) (\<lambda>(changed, p).
       let st = st\<lparr> ptsVec := p \<rparr> in
       if changed
       then Inr (True, if isFunctionPtr (consGraph st) dst then updateFunPtr dst st else st)
       else Inr (False, st))"

definition addCons ::
  "nat \<Rightarrow> nat \<Rightarrow> constraints \<Rightarrow> 'l solver \<Rightarrow> ((nat \<times> nat \<times> constraints) option \<times> 'l solver) result" where
  "addCons a b k st = rbind (addConstraints a b k (consGraph st)) (\<lambda>(ev, g). Inr (ev, st\<lparr> consGraph := g \<rparr>))"

definition noSupers :: "nat \<Rightarrow> nat \<Rightarrow> 'l solver \<Rightarrow> 'a result \<Rightarrow> 'a result" where
  "noSupers src dst st m =
     rassert (\<not> hasSuperNode (consGraph st) src \<and> \<not> hasSuperNode (consGraph st) dst) AssertFailed m"

text \<open>The callback that all constraints are processed with.\<close>

definition recordCopyEdge :: "'l lang_model \<Rightarrow> nat \<Rightarrow> nat \<Rightarrow> 'l solver \<Rightarrow> 'l solver" where
  "recordCopyEdge L src dst st = st\<lparr>
     copyWorkList := (if src < length (copyWorkList st) then (copyWorkList st)[src := False] else copyWorkList st),
     targetList := (if dst < length (targetList st) then (targetList st)[dst := False] else targetList st),
     requiredEdge := sorted_insert (hashEdge L src dst) (requiredEdge st) \<rparr>"

definition loadObject :: "'l lang_model \<Rightarrow> nat \<Rightarrow> nat \<Rightarrow> 'l solver \<Rightarrow> 'l solver result" where
  "loadObject L dst obj st =
     rbind (getObjectNode (consGraph st) obj) (\<lambda>node. rbind (getSuperNode (consGraph st) node) (\<lambda>node.
       rbind (addCons node dst CCopy st) (\<lambda>(ev, st).
         Inr (if ev \<noteq> None then recordCopyEdge L node dst st else st))))"

definition processLoad :: "'l lang_model \<Rightarrow> nat \<Rightarrow> nat \<Rightarrow> 'l solver \<Rightarrow> 'l solver result" where
  "processLoad L src dst st = noSupers src dst st
     (rbind (ptsElems src (ptsVec st)) (\<lambda>objs. rfold (loadObject L dst) objs st))"

definition storeObject :: "'l lang_model \<Rightarrow> nat \<Rightarrow> nat \<Rightarrow> 'l solver \<Rightarrow> 'l solver result" where
  "storeObject L src obj st =
     rbind (getObjectNode (consGraph st) obj) (\<lambda>node. rbind (getSuperNode (consGraph st) node) (\<lambda>node.
       rbind (addCons src node CCopy st) (\<lambda>(ev, st).
         Inr (if ev \<noteq> None then recordCopyEdge L src node st else st))))"

definition processStore :: "'l lang_model \<Rightarrow> nat \<Rightarrow> nat \<Rightarrow> 'l solver \<Rightarrow> 'l solver result" where
  "processStore L src dst st = noSupers src dst st
     (rbind (ptsElems dst (ptsVec st)) (\<lambda>objs. rfold (storeObject L src) objs st))"

text \<open>
  The constraints a special object adds go through the graph's callback, which is told the edge
  that was added and accepts copies only.
\<close>

definition specialConstraint ::
  "'l lang_model \<Rightarrow> nat \<times> nat \<times> constraints \<Rightarrow> 'l solver \<Rightarrow> 'l solver result" where
  "specialConstraint L = (\<lambda>(a, b, k) st.
     rbind (addCons a b k st) (\<lambda>(ev, st).
       case ev of
         None \<Rightarrow> Inr st
       | Some (s, d, c) \<Rightarrow> rassert (c = CCopy) AssertFailed (Inr (recordCopyEdge L s d st))))"

definition specialObject :: "'l lang_model \<Rightarrow> nat \<Rightarrow> nat \<Rightarrow> nat \<Rightarrow> 'l solver \<Rightarrow> 'l solver result" where
  "specialObject L src dst obj st =
     rbind (getObjectNode (consGraph st) obj) (\<lambda>node.
       rassert (isObjKind (cgKind (cgNode (consGraph st) node))) AssertFailed
         (rfold (specialConstraint L) (lmProcessSpecial L obj src dst) st))"

definition processSpecial :: "'l lang_model \<Rightarrow> nat \<Rightarrow> nat \<Rightarrow> 'l solver \<Rightarrow> 'l solver result" where
  "processSpecial L src dst st = noSupers src dst st
     (rbind (ptsElems src (ptsVec st)) (\<lambda>objs. rfold (specialObject L src dst) objs st))"

text \<open>One object whose fields are indexed; \<open>objNode\<close> is its node.\<close>

definition offsetObject :: "'l lang_model \<Rightarrow> nat \<Rightarrow> llvm_value \<Rightarrow> nat \<Rightarrow> 'l solver \<Rightarrow> 'l solver result" where
  "offsetObject L ptrNode idx objNode st =
     rbind (lmIndexObject L objNode idx (langModel st) (consGraph st, ptsVec st)) (\<lambda>(fieldObj, l, g, p).
       let st = st\<lparr> langModel := l, consGraph := g, ptsVec := p \<rparr> in
       case fieldObj of
         None \<Rightarrow> Inr st
       | Some f \<Rightarrow>
           (case cgKind (cgNode g f) of
              PtrNode _ \<Rightarrow> Inl AssertFailed
            | ObjNode fid \<Rightarrow>
                rbind (ptsHas ptrNode fid p) (\<lambda>has.
                  if has then Inr st
                  else rbind (addCons f ptrNode CAddrOf st) (\<lambda>(ev, st).
                    rbind (getAddrTakenNode (consGraph st) f) (\<lambda>addrNode.
                      Inr (recordCopyEdge L addrNode ptrNode st))))))"

definition processOffset :: "'l lang_model \<Rightarrow> nat \<Rightarrow> nat \<Rightarrow> 'l solver \<Rightarrow> 'l solver result" where
  "processOffset L src dst st = noSupers src dst st
     (case cgKind (cgNode (consGraph st) dst) of
        ObjNode _ \<Rightarrow> Inl AssertFailed
      | PtrNode None \<Rightarrow> Inl AssertFailed
      | PtrNode (Some idx) \<Rightarrow> rassert (lmIsInstruction L idx) AssertFailed
          (let handled = handledGEPMap st dst in
           rbind (ptsGet src (ptsVec st)) (\<lambda>curPts.
             let newGEPs = bvDiff curPts handled in
             rassert (bvAnd handled newGEPs = []) AssertFailed
               (rassert (bvContains curPts newGEPs) AssertFailed
                 (let st = st\<lparr> handledGEPMap := (handledGEPMap st)(dst := bvOr handled newGEPs) \<rparr> in
                  rbind (rfold (\<lambda>obj nodes. rbind (getObjectNode (consGraph st) obj) (\<lambda>n. Inr (nodes @ [n]))) newGEPs [])
                    (\<lambda>nodeVec. rfold (offsetObject L dst idx) nodeVec st))))))"

section \<open>The copy phase\<close>

definition shouldProcessCopy :: "'l lang_model \<Rightarrow> nat \<Rightarrow> nat \<Rightarrow> 'l solver \<Rightarrow> bool result" where
  "shouldProcessCopy L src dst st =
     rbind (bitTest src (lsWorkList st)) (\<lambda>ls.
       if \<not> ls then Inr True
       else rbind (bitTest dst (targetList st)) (\<lambda>t. rbind (bitTest src (copyWorkList st)) (\<lambda>c.
         if \<not> t \<and> \<not> c then Inr (hashEdge L src dst \<in> set (requiredEdge st)) else Inr False)))"

text \<open>A copy edge, and the mark on its target when the target's set grew.\<close>

definition followCopy :: "nat \<Rightarrow> nat \<Rightarrow> 'l solver \<Rightarrow> 'l solver result" where
  "followCopy src dst st =
     rbind (processCopy src dst st) (\<lambda>(changed, st).
       if changed then rbind (bitReset dst (lsWorkList st)) (\<lambda>bs. Inr (st\<lparr> lsWorkList := bs \<rparr>))
       else Inr st)"

definition copySuccs :: "cons_graph \<Rightarrow> nat \<Rightarrow> nat list" where
  "copySuccs g n = succCons (cgNode g n) CCopy"

definition copyNode :: "'l lang_model \<Rightarrow> nat \<Rightarrow> 'l solver \<Rightarrow> 'l solver result" where
  "copyNode L curNode st =
     rfold (\<lambda>dst st. rbind (shouldProcessCopy L curNode dst st) (\<lambda>should.
       if should then followCopy curNode dst st else Inr st)) (copySuccs (consGraph st) curNode) st"

definition mergeMember :: "nat \<Rightarrow> nat \<Rightarrow> 'l solver \<Rightarrow> 'l solver result" where
  "mergeMember front n st =
     rbind (bitTest n (targetList st)) (\<lambda>t.
       rbind (if \<not> t then bitReset front (targetList st) else Inr (targetList st)) (\<lambda>target.
         rbind (processCopy n front (st\<lparr> targetList := target \<rparr>)) (\<lambda>(_, st).
           rbind (ptsClear n (ptsVec st)) (\<lambda>p. Inr (st\<lparr> ptsVec := p \<rparr>)))))"

definition processCopySCC :: "nat list \<Rightarrow> 'l solver \<Rightarrow> 'l solver result" where
  "processCopySCC scc st =
     rassert (length scc > 1) AssertFailed
       (let front = hd scc in
        rbind (rfold (mergeMember front) (tl scc) st) (\<lambda>st.
          rbind (bitReset front (lsWorkList st)) (\<lambda>bs.
            rbind (collapseSCCTo scc front (consGraph st)) (\<lambda>g.
              let st = st\<lparr> lsWorkList := bs, consGraph := g \<rparr>;
                  st = (if isFunctionPtr g front then updateFunPtr front st else st)
              in rfold (followCopy front) (copySuccs g front) st))))"

definition copySCC :: "'l lang_model \<Rightarrow> nat list \<Rightarrow> 'l solver \<Rightarrow> 'l solver result" where
  "copySCC L scc st =
     (if length scc > 1 then processCopySCC scc st
      else case scc of [] \<Rightarrow> Inl EmptyAccess | curNode # _ \<Rightarrow> copyNode L curNode st)"

text \<open>The components are stacked, so the last one comes first.\<close>

definition copyPhase :: "'l lang_model \<Rightarrow> 'l solver \<Rightarrow> 'l solver result" where
  "copyPhase L st =
     (let g = consGraph st in
      rbind (sccList (getNodeNum g) (copySuccs g) (hasSuperNode g) (copyWorkList st)) (\<lambda>sccs.
        rfold (copySCC L) (rev sccs) st))"

section \<open>The other constraints\<close>

definition processNode :: "'l lang_model \<Rightarrow> nat \<Rightarrow> 'l solver \<Rightarrow> 'l solver result" where
  "processNode L n st =
     rbind (rfold (\<lambda>m. processStore L m n) (predCons (cgNode (consGraph st) n) CStore) st) (\<lambda>st.
     rbind (rfold (processLoad L n) (succCons (cgNode (consGraph st) n) CLoad) st) (\<lambda>st.
     rbind (rfold (processSpecial L n) (succCons (cgNode (consGraph st) n) CSpecial) st) (\<lambda>st.
       rfold (processOffset L n) (succCons (cgNode (consGraph st) n) COffset) st)))"

fun lsLoop :: "nat \<Rightarrow> 'l lang_model \<Rightarrow> nat \<Rightarrow> 'l solver \<Rightarrow> 'l solver result" where
  "lsLoop 0 L from st = Inl Diverges"
| "lsLoop (Suc fuel) L from st =
     (case findUnsetFrom from (lsWorkList st) of
        None \<Rightarrow> Inr st
      | Some lastID \<Rightarrow>
          rbind (getNode (consGraph st) lastID) (\<lambda>curNode.
            rbind (processNode L curNode st) (lsLoop fuel L (Suc lastID))))"

section \<open>Runs\<close>

definition solveRound :: "'l lang_model \<Rightarrow> 'l solver \<Rightarrow> 'l solver result" where
  "solveRound L st =
     rbind (copyPhase L st) (\<lambda>st.
       let st = st\<lparr> copyWorkList := replicate (length (copyWorkList st)) True,
                   targetList := replicate (length (targetList st)) True, requiredEdge := [] \<rparr>
       in rbind (lsLoop (Suc (length (lsWorkList st))) L 0 st) (\<lambda>st.
            let n = getNodeNum (consGraph st) in
            Inr (st\<lparr> lsWorkList := replicate n True,
                    copyWorkList := bitResize n False (copyWorkList st),
                    targetList := bitResize n True (targetList st) \<rparr>)))"

fun runSolver :: "nat \<Rightarrow> 'l lang_model \<Rightarrow> 'l solver \<Rightarrow> 'l solver result" where
  "runSolver 0 L st = Inl Diverges"
| "runSolver (Suc fuel) L st =
     rbind (solveRound L st) (\<lambda>st.
       if list_all (\<lambda>b. b) (copyWorkList st) then Inr st else runSolver fuel L st)"

text \<open>The start of \<open>solve\<close>: every node is still to be traversed.\<close>

definition startSolver :: "cons_graph \<Rightarrow> pts_vec \<Rightarrow> 'l \<Rightarrow> 'l solver" where
  "startSolver g p l = \<lparr> consGraph = g, ptsVec = p, langModel = l, updatedFunPtrs = [],
     handledGEPMap = (\<lambda>_. []), copyWorkList = replicate (getNodeNum g) False,
     lsWorkList = replicate (getNodeNum g) False, targetList = replicate (getNodeNum g) False,
     requiredEdge = [] \<rparr>"

text \<open>What \<open>solve\<close> asserts after a run.\<close>

definition allHandled :: "'l solver \<Rightarrow> bool" where
  "allHandled st \<longleftrightarrow> list_all (\<lambda>b. b) (lsWorkList st) \<and> list_all (\<lambda>b. b) (targetList st) \<and>
     list_all (\<lambda>b. b) (copyWorkList st) \<and> requiredEdge st = []"

end
