(* ===== verification/SolverInv.thy ===== *)
theory SolverInv
  imports Solver
begin

text \<open>
  What the solver keeps: constraints survive the collapsing of nodes (\<open>carries\<close>), an object
  that was handled stays linked (\<open>linked\<close>), and the conditions on constraint graphs of
  programs in single-assignment form that collapsing relies on (\<open>ssa_ok\<close>).
\<close>

section \<open>Constraints survive collapsing\<close>

text \<open>The points-to set of a node, which its representative holds.\<close>

definition ptsOf :: "cons_graph \<Rightarrow> pts_vec \<Rightarrow> nat \<Rightarrow> nat set" where
  "ptsOf g p n = set (p ! rep g n)"

definition carries :: "cons_graph \<Rightarrow> cons_graph \<Rightarrow> bool" where
  "carries g g' \<longleftrightarrow> getNodeNum g \<le> getNodeNum g' \<and> (\<exists>new. objVec g' = objVec g @ new) \<and>
     (\<forall>n < getNodeNum g. cgKind (cgNode g' n) = cgKind (cgNode g n) \<and>
        isImmutable (cgNode g' n) = isImmutable (cgNode g n) \<and> rep g' (rep g n) = rep g' n) \<and>
     (\<forall>k s d. edge g k s d \<longrightarrow> edge g' k (rep g' s) (rep g' d) \<or> (k = CCopy \<and> rep g' s = rep g' d))"

lemma rep_less: "cg_ok g \<Longrightarrow> n < getNodeNum g \<Longrightarrow> rep g n < getNodeNum g"
  using getSuperNode_rep(2) cg_okD(2) by blast

lemma rep_none: "cg_ok g \<Longrightarrow> n < getNodeNum g \<Longrightarrow> superNode (cgNode g (rep g n)) = None"
  using getSuperNode_rep(3) cg_okD(2) by blast

lemma rep_same: "cg_ok g \<Longrightarrow> n < getNodeNum g \<Longrightarrow> superNode (cgNode g n) = None \<Longrightarrow> rep g n = n"
  using rep_self cg_okD(2) by blast

lemma rep_rep: "cg_ok g \<Longrightarrow> n < getNodeNum g \<Longrightarrow> rep g (rep g n) = rep g n"
  using rep_same rep_less rep_none by blast

lemma rep_edge:
  assumes "cg_ok g" and "edge g k s d"
  shows "rep g s = s" "rep g d = d"
  using edgeD [OF assms] rep_same [OF assms(1)] by simp_all

lemma rep_addr: "cg_ok g \<Longrightarrow> n < getNodeNum g \<Longrightarrow> addrNode g n \<Longrightarrow> rep g n = n"
  using addr_no_super(2) by blast

lemma rep_immutable:
  assumes "cg_ok g" and "n < getNodeNum g" and "isImmutable (cgNode g n)"
  shows "rep g n = n"
proof -
  have "(n, m) \<notin> superRel g" for m using cg_okD(4) [OF assms(1)] assms(3) by (auto simp: shape_ok_def)
  then have "superNode (cgNode g n) = None" using assms(2) by (auto simp: superRel_def)
  then show ?thesis using rep_same assms by blast
qed

lemma immutable_rep: "cg_ok g \<Longrightarrow> n < getNodeNum g \<Longrightarrow> isImmutable (cgNode g (rep g n)) = isImmutable (cgNode g n)"
  using rep_immutable rep_mutable by metis

lemma carriesD:
  assumes "carries g g'"
  shows "getNodeNum g \<le> getNodeNum g'" "n < getNodeNum g \<Longrightarrow> cgKind (cgNode g' n) = cgKind (cgNode g n)"
    "n < getNodeNum g \<Longrightarrow> isImmutable (cgNode g' n) = isImmutable (cgNode g n)"
    "n < getNodeNum g \<Longrightarrow> rep g' (rep g n) = rep g' n"
    "obj < length (objVec g) \<Longrightarrow> objVec g' ! obj = objVec g ! obj" "length (objVec g) \<le> length (objVec g')"
    "edge g k s d \<Longrightarrow> edge g' k (rep g' s) (rep g' d) \<or> (k = CCopy \<and> rep g' s = rep g' d)"
  using assms by (auto simp: carries_def nth_append)

lemma carries_refl: "cg_ok g \<Longrightarrow> carries g g"
  using rep_edge [of g] by (auto simp: carries_def rep_rep)

lemma carries_trans:
  assumes ok: "cg_ok g" "cg_ok g1" and "carries g g1" and "carries g1 g2"
  shows "carries g g2"
  unfolding carries_def
proof (intro conjI allI impI)
  note one = carriesD [OF assms(3)] and two = carriesD [OF assms(4)]
  show "getNodeNum g \<le> getNodeNum g2" using one(1) two(1) by simp
  show "\<exists>new. objVec g2 = objVec g @ new" using assms(3,4) by (auto simp: carries_def)
  fix n assume n: "n < getNodeNum g"
  then have n1: "n < getNodeNum g1" "rep g n < getNodeNum g1" using one(1) rep_less [OF ok(1) n] by auto
  show "cgKind (cgNode g2 n) = cgKind (cgNode g n)" "isImmutable (cgNode g2 n) = isImmutable (cgNode g n)"
    using one(2,3) [OF n] two(2,3) [OF n1(1)] by simp_all
  show "rep g2 (rep g n) = rep g2 n" using two(4) [OF n1(1)] two(4) [OF n1(2)] one(4) [OF n] by simp
next
  note one = carriesD [OF assms(3)] and two = carriesD [OF assms(4)]
  fix k s d assume e: "edge g k s d"
  have "s < getNodeNum g1" "d < getNodeNum g1" using edgeD(1,2) [OF ok(1) e] one(1) by auto
  then have r: "rep g2 (rep g1 s) = rep g2 s" "rep g2 (rep g1 d) = rep g2 d" using two(4) by simp_all
  from one(7) [OF e] show "edge g2 k (rep g2 s) (rep g2 d) \<or> (k = CCopy \<and> rep g2 s = rep g2 d)"
  proof
    assume "edge g1 k (rep g1 s) (rep g1 d)"
    from two(7) [OF this] show ?thesis by (simp add: r)
  next
    assume "k = CCopy \<and> rep g1 s = rep g1 d"
    then show ?thesis using r by metis
  qed
qed

text \<open>Adding an edge, and adding nodes.\<close>

lemma carries_same_nodes:
  assumes ok: "cg_ok g" and same: "same_nodes g g'" and "\<And>k s d. edge g k s d \<Longrightarrow> edge g' k s d"
  shows "carries g g'"
proof -
  have r: "rep g' n = rep g n" if "n < getNodeNum g" for n
    using same_nodes_rep [OF same cg_okD(2) [OF ok] that] .
  have "edge g' k (rep g' s) (rep g' d)" if e: "edge g k s d" for k s d
    using assms(3) [OF e] edgeD(1,2) [OF ok e] rep_edge [OF ok e] r by simp
  then show ?thesis using same r rep_less [OF ok] rep_rep [OF ok] by (auto simp: carries_def same_nodes_def)
qed

lemma cg_extends_rep:
  assumes ok: "cg_ok g" "cg_ok g'" and ext: "cg_extends g g'" and n: "n < getNodeNum g"
  shows "rep g' n = rep g n"
proof (rule rep_unique)
  show "super_ok g'" "n < getNodeNum g'" using ok ext n by (auto simp: cg_ok_def cg_extends_def)
  have "superRel g \<subseteq> superRel g'" using ext by (auto simp: superRel_def cg_extends_def)
  then show "(n, rep g n) \<in> (superRel g')\<^sup>*"
    using getSuperNode_rep(4) [OF cg_okD(2) [OF ok(1)] n] rtrancl_mono by blast
  show "superNode (cgNode g' (rep g n)) = None"
    using rep_none [OF ok(1) n] rep_less [OF ok(1) n] ext by (simp add: cg_extends_def)
qed

lemma carries_extends:
  assumes ok: "cg_ok g" "cg_ok g'" and ext: "cg_extends g g'" and "\<And>k s d. edge g k s d \<Longrightarrow> edge g' k s d"
  shows "carries g g'"
proof -
  note r = cg_extends_rep [OF ok ext]
  have "edge g' k (rep g' s) (rep g' d)" if e: "edge g k s d" for k s d
    using assms(4) [OF e] edgeD(1,2) [OF ok(1) e] rep_edge [OF ok(1) e] r by simp
  then show ?thesis using ext r rep_less [OF ok(1)] rep_rep [OF ok(1)] by (auto simp: carries_def cg_extends_def)
qed

lemma carries_collapsed:
  assumes ok: "cg_ok g" "cg_ok g'" and col: "collapsed S ns g g'" and S: "S \<in> ns"
    and ns: "\<forall>n \<in> ns. n < getNodeNum g \<and> superNode (cgNode g n) = None"
  shows "carries g g'" "n < getNodeNum g \<Longrightarrow> rep g' n = onto S ns (rep g n)"
proof -
  have S': "S < getNodeNum g" "superNode (cgNode g S) = None" using S ns by auto
  have r: "rep g' n = onto S ns (rep g n)" if "n < getNodeNum g" for n
    by (rule collapsed_rep [OF ok col S' ns that])
  then show "n < getNodeNum g \<Longrightarrow> rep g' n = onto S ns (rep g n)" .
  have "edge g' k (rep g' s) (rep g' d) \<or> (k = CCopy \<and> rep g' s = rep g' d)" if e: "edge g k s d" for k s d
  proof -
    have "rep g' s = onto S ns s" "rep g' d = onto S ns d"
      using r edgeD(1,2) [OF ok(1) e] rep_edge [OF ok(1) e] by simp_all
    moreover have "edge g' k (onto S ns s) (onto S ns d) \<longleftrightarrow> \<not> (k = CCopy \<and> onto S ns s = onto S ns d) \<and>
        (\<exists>a b. edge g k a b \<and> onto S ns a = onto S ns s \<and> onto S ns b = onto S ns d)"
      using col by (simp add: collapsed_def)
    ultimately show ?thesis using e by auto
  qed
  moreover have "getNodeNum g' = getNodeNum g" "objVec g' = objVec g" using col by (simp_all add: collapsed_def)
  moreover have "cgKind (cgNode g' n) = cgKind (cgNode g n)" "isImmutable (cgNode g' n) = isImmutable (cgNode g n)"
    if "n < getNodeNum g" for n using col that by (simp_all add: collapsed_def)
  moreover have "rep g' (rep g n) = rep g' n" if "n < getNodeNum g" for n
    using r [OF that] r [OF rep_less [OF ok(1) that]] rep_rep [OF ok(1) that] by simp
  ultimately show "carries g g'" by (simp add: carries_def)
qed

section \<open>Handled objects\<close>

text \<open>
  Two nodes are linked when a copy from the first to the second has been added, or had no effect:
  they are the same node, or the second is immutable.
\<close>

definition linked :: "cons_graph \<Rightarrow> nat \<Rightarrow> nat \<Rightarrow> bool" where
  "linked g a b \<longleftrightarrow> rep g a = rep g b \<or> isImmutable (cgNode g (rep g b)) \<or> edge g CCopy (rep g a) (rep g b)"

lemma linked_rep: "cg_ok g \<Longrightarrow> a < getNodeNum g \<Longrightarrow> b < getNodeNum g \<Longrightarrow>
    linked g (rep g a) (rep g b) = linked g a b"
  by (simp add: linked_def rep_rep)

lemma linked_carries:
  assumes ok: "cg_ok g" "cg_ok g'" and car: "carries g g'" and ab: "a < getNodeNum g" "b < getNodeNum g" and "linked g a b"
  shows "linked g' a b"
proof -
  note C = carriesD [OF car]
  have r: "rep g' (rep g a) = rep g' a" "rep g' (rep g b) = rep g' b" using C(4) ab by simp_all
  from assms(6) consider "rep g a = rep g b" | "isImmutable (cgNode g (rep g b))" | "edge g CCopy (rep g a) (rep g b)"
    by (auto simp: linked_def)
  then show ?thesis
  proof cases
    case 1
    then show ?thesis using r by (metis linked_def)
  next
    case 2
    then have "isImmutable (cgNode g b)" using immutable_rep [OF ok(1) ab(2)] by simp
    then have "isImmutable (cgNode g' b)" using C(3) [OF ab(2)] by simp
    then show ?thesis using immutable_rep [OF ok(2)] C(1) ab(2) by (simp add: linked_def)
  next
    case 3
    from C(7) [OF this] show ?thesis by (auto simp: linked_def r)
  qed
qed

text \<open>A link carries points-to sets once every copy edge has been followed.\<close>

lemma linked_pts:
  assumes "linked g a b" and "\<forall>s d. edge g CCopy s d \<longrightarrow> set (p ! s) \<subseteq> set (p ! d)" and "\<not> isImmutable (cgNode g (rep g b))"
  shows "ptsOf g p a \<subseteq> ptsOf g p b"
  using assms by (auto simp: linked_def ptsOf_def)

section \<open>Single assignment\<close>

text \<open>
  The target of an offset or special constraint is the result of one instruction or one modelled
  call, so nothing else is copied into it but addresses; it is not an object and never had nodes
  collapsed into it. The result of a load is no such target.
\<close>

definition pinned :: "cons_graph \<Rightarrow> nat \<Rightarrow> bool" where
  "pinned g d \<longleftrightarrow> (\<exists>s. edge g COffset s d \<or> edge g CSpecial s d)"

definition ssa_ok :: "('l, 'm) lang_model_scheme \<Rightarrow> cons_graph \<Rightarrow> bool" where
  "ssa_ok L g \<longleftrightarrow>
     (\<forall>d. pinned g d \<longrightarrow> \<not> isObjKind (cgKind (cgNode g d)) \<and> (\<forall>s. edge g CCopy s d \<longrightarrow> addrNode g s) \<and>
        (\<forall>n. (n, d) \<notin> superRel g)) \<and>
     (\<forall>s d. edge g CLoad s d \<longrightarrow> \<not> pinned g d \<and> \<not> addrNode g d) \<and>
     (\<forall>s d. edge g COffset s d \<longrightarrow> (\<exists>v. cgKind (cgNode g d) = PtrNode (Some v) \<and> lmIsInstruction L v))"

end
