(* ===== verification/SolverCopy.thy ===== *)
theory SolverCopy
  imports SolverInv
begin

text \<open>
  The copy phase of a round: following the stacked components, every copy edge ends up with the
  set of its source included in the set of its target, and nodes whose sets changed are marked
  for the phase that handles loads, stores, offsets and special constraints.
\<close>

section \<open>Invariants\<close>

text \<open>The constraints around a node, for the objects it points to.\<close>

definition sat_node ::
  "('l, 'm) lang_model_scheme \<Rightarrow> cons_graph \<Rightarrow> pts_vec \<Rightarrow> (nat \<Rightarrow> nat list) \<Rightarrow> nat \<Rightarrow> bool" where
  "sat_node L g p H n \<longleftrightarrow>
     (\<forall>d. edge g CLoad n d \<longrightarrow> (\<forall>obj \<in> set (p ! n). linked g (objVec g ! obj) d)) \<and>
     (\<forall>s. edge g CStore s n \<longrightarrow> (\<forall>obj \<in> set (p ! n). linked g s (objVec g ! obj))) \<and>
     (\<forall>d. edge g CSpecial n d \<longrightarrow> (\<forall>obj \<in> set (p ! n). \<forall>(a, b, k) \<in> set (lmProcessSpecial L obj n d).
        a < getNodeNum g \<and> b < getNodeNum g \<and> consSrc g k a < getNodeNum g \<and> linked g (consSrc g k a) b)) \<and>
     (\<forall>d. edge g COffset n d \<longrightarrow> set (p ! n) \<subseteq> set (H d))"

text \<open>What \<open>field\<close> tells of the language model: the object that indexing gave, if it was asked.\<close>

definition gep_ok ::
  "('l \<Rightarrow> nat \<Rightarrow> llvm_value \<Rightarrow> nat option option) \<Rightarrow> 'l \<Rightarrow> cons_graph \<Rightarrow> pts_vec \<Rightarrow> (nat \<Rightarrow> nat list) \<Rightarrow> bool" where
  "gep_ok field l g p H \<longleftrightarrow> (\<forall>d. bv (H d) \<and> (\<forall>obj \<in> set (H d). obj < length (objVec g) \<and> (\<exists>s. edge g COffset s d) \<and>
     (\<forall>v. cgKind (cgNode g d) = PtrNode (Some v) \<longrightarrow> (\<exists>r. field l obj v = Some r \<and>
        (\<forall>f. r = Some f \<longrightarrow> f < length (objVec g) \<and> (linked g (Suc (objVec g ! f)) d \<or> f \<in> set (p ! d)))))))"

definition base_ok ::
  "('l, 'm) lang_model_scheme \<Rightarrow> ('l \<Rightarrow> nat \<Rightarrow> llvm_value \<Rightarrow> nat option option) \<Rightarrow> 'l solver \<Rightarrow> bool" where
  "base_ok L field st \<longleftrightarrow> graph_wf (consGraph st, ptsVec st) \<and> ssa_ok L (consGraph st) \<and>
     getNodeNum (consGraph st) < sccDone \<and>
     gep_ok field (langModel st) (consGraph st) (ptsVec st) (handledGEPMap st)"

definition lists_ok :: "nat \<Rightarrow> 'l solver \<Rightarrow> bool" where
  "lists_ok m st \<longleftrightarrow> length (copyWorkList st) = m \<and> length (lsWorkList st) = m \<and> length (targetList st) = m"

definition needed :: "('l, 'm) lang_model_scheme \<Rightarrow> 'l solver \<Rightarrow> nat \<Rightarrow> nat \<Rightarrow> bool" where
  "needed L st s d \<longleftrightarrow> \<not> lsWorkList st ! s \<or>
     (\<not> targetList st ! d \<and> \<not> copyWorkList st ! s \<and> hashEdge L s d \<in> set (requiredEdge st))"

text \<open>
  Before the components \<open>xs\<close> are processed: an edge that is not followed yet starts in one of
  them and will be taken.
\<close>

definition copy_inv ::
  "('l, 'm) lang_model_scheme \<Rightarrow> ('l \<Rightarrow> nat \<Rightarrow> llvm_value \<Rightarrow> nat option option) \<Rightarrow> nat list list \<Rightarrow> 'l solver \<Rightarrow> bool" where
  "copy_inv L field xs st \<longleftrightarrow> base_ok L field st \<and> lists_ok (getNodeNum (consGraph st)) st \<and>
     comps_ok (copySuccs (consGraph st)) {} xs \<and> (\<forall>u \<in> set (concat xs). u < getNodeNum (consGraph st)) \<and>
     (\<forall>s d. edge (consGraph st) CCopy s d \<longrightarrow> set (ptsVec st ! s) \<subseteq> set (ptsVec st ! d) \<or>
        (s \<in> set (concat xs) \<and> needed L st s d)) \<and>
     (\<forall>n < getNodeNum (consGraph st). lsWorkList st ! n \<longrightarrow>
        sat_node L (consGraph st) (ptsVec st) (handledGEPMap st) n)"

text \<open>Sets grow along edges into \<open>D\<close>; a mark that is left says the set is as it was.\<close>

definition flows :: "nat set \<Rightarrow> 'l solver \<Rightarrow> 'l solver \<Rightarrow> bool" where
  "flows D st st' \<longleftrightarrow> consGraph st' = consGraph st \<and> langModel st' = langModel st \<and>
     handledGEPMap st' = handledGEPMap st \<and> copyWorkList st' = copyWorkList st \<and> targetList st' = targetList st \<and>
     requiredEdge st' = requiredEdge st \<and> length (lsWorkList st') = length (lsWorkList st) \<and>
     pts_wf (consGraph st) (ptsVec st') \<and>
     (\<forall>n. n \<notin> D \<longrightarrow> ptsVec st' ! n = ptsVec st ! n \<and> lsWorkList st' ! n = lsWorkList st ! n) \<and>
     (\<forall>n. set (ptsVec st ! n) \<subseteq> set (ptsVec st' ! n) \<and>
        (lsWorkList st' ! n \<longrightarrow> lsWorkList st ! n \<and> ptsVec st' ! n = ptsVec st ! n))"

lemma flows_refl: "pts_wf (consGraph st) (ptsVec st) \<Longrightarrow> flows D st st"
  by (simp add: flows_def)

lemma flows_trans:
  assumes "flows D st st1" and "flows D st1 st2"
  shows "flows D st st2"
proof -
  have "set (ptsVec st ! n) \<subseteq> set (ptsVec st2 ! n)" for n using assms unfolding flows_def by blast
  with assms show ?thesis by (auto simp: flows_def)
qed

lemma flows_mono: "flows D st st' \<Longrightarrow> D \<subseteq> E \<Longrightarrow> flows E st st'"
  by (auto simp: flows_def)

lemma flows_grow: "flows D st st' \<Longrightarrow> set (ptsVec st ! n) \<subseteq> set (ptsVec st' ! n)"
  by (simp add: flows_def)

section \<open>Following edges\<close>

lemma pts_wf_union:
  assumes "pts_wf g p" and "cg_ok g" and "src < getNodeNum g" and "dst < getNodeNum g"
  shows "pts_wf g (p[dst := bvOr (p ! dst) (p ! src)])"
  using assms bv_or by (auto simp: pts_wf_def nth_list_update)

lemma processCopy_ok:
  assumes wf: "graph_wf (consGraph st, ptsVec st)" and n: "src < getNodeNum (consGraph st)" "dst < getNodeNum (consGraph st)"
  shows "\<exists>F. processCopy src dst st = Inr (\<not> set (ptsVec st ! src) \<subseteq> set (ptsVec st ! dst),
    st\<lparr> ptsVec := (ptsVec st)[dst := bvOr (ptsVec st ! dst) (ptsVec st ! src)], updatedFunPtrs := F \<rparr>)"
proof -
  let ?p = "ptsVec st" and ?g = "consGraph st"
  let ?u = "bvOr (?p ! dst) (?p ! src)"
  from wf have ok: "cg_ok ?g" and p: "pts_wf ?g ?p" by (simp_all add: graph_wf_def)
  then have len: "length ?p = getNodeNum ?g" by (simp add: pts_wf_def)
  have bvs: "bv (?p ! dst)" "bv (?p ! src)" and small: "set ?u \<subseteq> {..<length (objVec ?g)}"
    using p n len by (auto simp: pts_wf_def)
  have "last ?u < length ?p" if "?u \<noteq> []"
    using small last_in_set [OF that] objVec_le [OF cg_okD(3) [OF ok]] len by fastforce
  then have "ptsUnionWith dst src ?p = Inr (?u \<noteq> ?p ! dst, ?p[dst := ?u])"
    using n len by (auto simp: ptsUnionWith_def inPts_def Let_def rassert_def)
  moreover have "?u \<noteq> ?p ! dst \<longleftrightarrow> \<not> set (?p ! src) \<subseteq> set (?p ! dst)"
    using bvOr_same_iff [OF bvs(1)] by simp
  ultimately have un: "ptsUnionWith dst src ?p = Inr (\<not> set (?p ! src) \<subseteq> set (?p ! dst), ?p[dst := ?u])" by simp
  let ?F = "if \<not> set (?p ! src) \<subseteq> set (?p ! dst) \<and> isFunctionPtr ?g dst
    then sorted_insert dst (updatedFunPtrs st) else updatedFunPtrs st"
  have "processCopy src dst st = Inr (\<not> set (?p ! src) \<subseteq> set (?p ! dst), st\<lparr> ptsVec := ?p[dst := ?u], updatedFunPtrs := ?F \<rparr>)"
    unfolding processCopy_def un rbind_Inr prod.case by (cases st) (simp add: Let_def updateFunPtr_def)
  then show ?thesis by blast
qed

lemma followCopy_ok:
  assumes wf: "graph_wf (consGraph st, ptsVec st)" and l: "lists_ok (getNodeNum (consGraph st)) st"
    and n: "src < getNodeNum (consGraph st)" "dst < getNodeNum (consGraph st)"
  shows "\<exists>st'. followCopy src dst st = Inr st' \<and> flows {dst} st st' \<and> set (ptsVec st ! src) \<subseteq> set (ptsVec st' ! dst)"
proof -
  let ?p = "ptsVec st"
  let ?p' = "?p[dst := bvOr (?p ! dst) (?p ! src)]"
  from processCopy_ok [OF wf n] obtain F where F: "processCopy src dst st =
    Inr (\<not> set (?p ! src) \<subseteq> set (?p ! dst), st\<lparr> ptsVec := ?p', updatedFunPtrs := F \<rparr>)" by blast
  from wf have p: "pts_wf (consGraph st) ?p" "cg_ok (consGraph st)" and len: "length ?p = getNodeNum (consGraph st)"
    by (simp_all add: graph_wf_def pts_wf_def)
  have p': "pts_wf (consGraph st) ?p'" using pts_wf_union [OF p n] .
  have at: "?p' ! m = (if m = dst then bvOr (?p ! dst) (?p ! src) else ?p ! m)" for m
    using n(2) len by (simp add: nth_list_update)
  have inc: "set (?p ! m) \<subseteq> set (?p' ! m)" for m by (simp add: at)
  show ?thesis
  proof (cases "set (?p ! src) \<subseteq> set (?p ! dst)")
    case True
    have "bv (?p ! dst)" using p(1) n(2) len by (simp add: pts_wf_def)
    then have same: "?p' = ?p" using True bvOr_same_iff by (metis list_update_id)
    show ?thesis using F True p(1) unfolding same by (simp add: followCopy_def flows_def)
  next
    case False
    have "dst < length (lsWorkList st)" using l n(2) by (simp add: lists_ok_def)
    then show ?thesis using F False p' inc
      by (auto simp: followCopy_def flows_def bitReset_def nth_list_update at)
  qed
qed

text \<open>The loop over a node's successors: every edge that is needed is taken.\<close>

lemma flows_wf: "flows D st st' \<Longrightarrow> graph_wf (consGraph st, ptsVec st) \<Longrightarrow> graph_wf (consGraph st', ptsVec st')"
  by (simp add: flows_def graph_wf_def)

lemma flows_lists: "flows D st st' \<Longrightarrow> lists_ok m st \<Longrightarrow> lists_ok m st'"
  by (simp add: flows_def lists_ok_def)

lemma flows_needed: "flows D st st' \<Longrightarrow> needed L st s d \<Longrightarrow> needed L st' s d"
  by (auto simp: flows_def needed_def)

lemma shouldProcessCopy_eq:
  assumes "lists_ok m st" and "s < m" and "d < m"
  shows "shouldProcessCopy L s d st = Inr (needed L st s d)"
  using assms by (auto simp: lists_ok_def shouldProcessCopy_def bitTest_def needed_def)

lemma copy_fold_ok:
  assumes wf: "graph_wf (consGraph st, ptsVec st)" and l: "lists_ok (getNodeNum (consGraph st)) st"
    and u: "u < getNodeNum (consGraph st)" "u \<notin> set ds" and ds: "\<forall>d \<in> set ds. d < getNodeNum (consGraph st)"
    and inc: "\<forall>d \<in> set ds. set (ptsVec st ! u) \<subseteq> set (ptsVec st ! d) \<or> needed L st u d"
  shows "\<exists>st'. rfold (\<lambda>dst st. rbind (shouldProcessCopy L u dst st) (\<lambda>should.
      if should then followCopy u dst st else Inr st)) ds st = Inr st' \<and> flows (set ds) st st' \<and>
    (\<forall>d \<in> set ds. set (ptsVec st ! u) \<subseteq> set (ptsVec st' ! d))"
  using wf l u ds inc
proof (induction ds arbitrary: st)
  case Nil
  then show ?case by (auto simp: graph_wf_def intro: flows_refl)
next
  case (Cons d ds)
  let ?f = "\<lambda>dst st. rbind (shouldProcessCopy L u dst st) (\<lambda>should. if should then followCopy u dst st else Inr st)"
  have d: "d < getNodeNum (consGraph st)" using Cons.prems(5) by simp
  obtain st1 where st1: "?f d st = Inr st1" "flows {d} st st1" "set (ptsVec st ! u) \<subseteq> set (ptsVec st1 ! d)"
  proof (cases "needed L st u d")
    case True
    then show ?thesis using that followCopy_ok [OF Cons.prems(1,2) Cons.prems(3) d]
      shouldProcessCopy_eq [OF Cons.prems(2,3) d, of L] by auto
  next
    case False
    have "flows {d} st st" using Cons.prems(1) by (simp add: graph_wf_def flows_refl)
    then show ?thesis using False that Cons.prems(6) shouldProcessCopy_eq [OF Cons.prems(2,3) d, of L] by auto
  qed
  have g: "consGraph st1 = consGraph st" and pu: "ptsVec st1 ! u = ptsVec st ! u"
    using st1(2) Cons.prems(4) by (auto simp: flows_def)
  have "\<forall>x \<in> set ds. set (ptsVec st1 ! u) \<subseteq> set (ptsVec st1 ! x) \<or> needed L st1 u x"
  proof
    fix x assume "x \<in> set ds"
    with Cons.prems(6) have "set (ptsVec st ! u) \<subseteq> set (ptsVec st ! x) \<or> needed L st u x" by simp
    then show "set (ptsVec st1 ! u) \<subseteq> set (ptsVec st1 ! x) \<or> needed L st1 u x"
      using flows_needed [OF st1(2), of L u x] flows_grow [OF st1(2), of x] pu by auto
  qed
  with Cons.IH [of st1] flows_wf [OF st1(2)] flows_lists [OF st1(2)] Cons.prems obtain st2 where
    st2: "rfold ?f ds st1 = Inr st2" "flows (set ds) st1 st2" "\<forall>x \<in> set ds. set (ptsVec st1 ! u) \<subseteq> set (ptsVec st2 ! x)"
    by (auto simp: g)
  have "rfold ?f (d # ds) st = Inr st2" by (simp only: rfold.simps st1(1) rbind_Inr st2(1))
  moreover have "flows (set (d # ds)) st st2"
    using flows_trans [OF flows_mono [OF st1(2)] flows_mono [OF st2(2)]] by auto
  moreover have "set (ptsVec st ! u) \<subseteq> set (ptsVec st2 ! d)"
    using st1(3) flows_grow [OF st2(2), of d] by blast
  moreover have "\<forall>x \<in> set (d # ds). set (ptsVec st ! u) \<subseteq> set (ptsVec st2 ! x)"
    using st2(3) calculation(3) unfolding pu by simp
  ultimately show ?case by (intro exI [of _ st2] conjI)
qed

lemma edge_succs: "edge g CCopy s d \<longleftrightarrow> s < getNodeNum g \<and> d \<in> set (copySuccs g s)"
  by (simp add: edge_def copySuccs_def)

lemma gep_ok_grow:
  "gep_ok field l g p H \<Longrightarrow> (\<And>n. set (p ! n) \<subseteq> set (p' ! n)) \<Longrightarrow> gep_ok field l g p' H"
  unfolding gep_ok_def by (meson subsetD)

lemma sat_node_same: "p' ! n = p ! n \<Longrightarrow> sat_node L g p' H n = sat_node L g p H n"
  by (simp add: sat_node_def)

lemma base_ok_flows: "base_ok L field st \<Longrightarrow> flows D st st' \<Longrightarrow> base_ok L field st'"
  using flows_wf [of D st st'] gep_ok_grow [of field "langModel st" "consGraph st" "ptsVec st"] flows_grow [of D st st']
  by (auto simp: base_ok_def flows_def)

lemma copyNode_ok:
  assumes inv: "copy_inv L field (xs @ [[u]]) st"
  shows "\<exists>st'. copyNode L u st = Inr st' \<and> copy_inv L field xs st' \<and> flows (set (copySuccs (consGraph st) u)) st st'"
proof -
  let ?g = "consGraph st" and ?D = "set (copySuccs (consGraph st) u)"
  from inv have base: "base_ok L field st" and l: "lists_ok (getNodeNum ?g) st"
    and comps: "comps_ok (copySuccs ?g) {} xs" "comp_ok (copySuccs ?g) (set (concat xs)) [u]"
    and small: "u < getNodeNum ?g" "\<forall>v \<in> set (concat xs). v < getNodeNum ?g"
    and edges: "\<And>s d. edge ?g CCopy s d \<Longrightarrow> set (ptsVec st ! s) \<subseteq> set (ptsVec st ! d) \<or>
        ((s = u \<or> s \<in> set (concat xs)) \<and> needed L st s d)"
    and sat: "\<And>n. n < getNodeNum ?g \<Longrightarrow> lsWorkList st ! n \<Longrightarrow> sat_node L ?g (ptsVec st) (handledGEPMap st) n"
    by (auto simp: copy_inv_def comps_ok_append)
  from base have wf: "graph_wf (?g, ptsVec st)" and ok: "cg_ok ?g" by (simp_all add: base_ok_def graph_wf_def)
  have u_edge: "edge ?g CCopy u d" if "d \<in> ?D" for d using that small(1) by (simp add: edge_succs)
  then have u_not: "u \<notin> ?D" using edgeD(5) [OF ok] by blast
  have D: "?D \<subseteq> set (concat xs)" using comps(2) u_not by (auto simp: comp_ok_def)
  have u_new: "u \<notin> set (concat xs)" using comps(2) by (simp add: comp_ok_def)
  have "\<forall>d \<in> ?D. d < getNodeNum ?g" using D small(2) by blast
  moreover have "\<forall>d \<in> ?D. set (ptsVec st ! u) \<subseteq> set (ptsVec st ! d) \<or> needed L st u d"
    using edges [OF u_edge] by blast
  ultimately obtain st' where st': "copyNode L u st = Inr st'" "flows ?D st st'"
    "\<forall>d \<in> ?D. set (ptsVec st ! u) \<subseteq> set (ptsVec st' ! d)"
    using copy_fold_ok [OF wf l small(1) u_not] unfolding copyNode_def by blast
  have g: "consGraph st' = ?g" and H: "handledGEPMap st' = handledGEPMap st" using st'(2) by (simp_all add: flows_def)
  have keep: "ptsVec st' ! n = ptsVec st ! n" if "n \<notin> ?D" for n using st'(2) that by (simp add: flows_def)
  have mark: "lsWorkList st ! n \<and> ptsVec st' ! n = ptsVec st ! n" if "lsWorkList st' ! n" for n
    using st'(2) that by (simp add: flows_def)
  have "set (ptsVec st' ! s) \<subseteq> set (ptsVec st' ! d) \<or> (s \<in> set (concat xs) \<and> needed L st' s d)"
    if e: "edge ?g CCopy s d" for s d
  proof (cases "s = u")
    case True
    then have "d \<in> ?D" using e by (simp add: edge_succs)
    then show ?thesis using st'(3) keep [OF u_not] True by simp
  next
    case False
    from edges [OF e] False consider "set (ptsVec st ! s) \<subseteq> set (ptsVec st ! d)" | "s \<in> set (concat xs)" "needed L st s d"
      by blast
    then show ?thesis
    proof cases
      case 1
      show ?thesis
      proof (cases "ptsVec st' ! s = ptsVec st ! s")
        case True
        then show ?thesis using 1 flows_grow [OF st'(2), of d] by auto
      next
        case changed: False
        then have "s \<in> set (concat xs)" "\<not> lsWorkList st' ! s" using keep [of s] mark [of s] D by auto
        then show ?thesis by (simp add: needed_def)
      qed
    qed (use flows_needed [OF st'(2)] in blast)
  qed
  moreover have "sat_node L ?g (ptsVec st') (handledGEPMap st) n" if "n < getNodeNum ?g" "lsWorkList st' ! n" for n
    using sat [OF that(1) conjunct1 [OF mark [OF that(2)]]]
    unfolding sat_node_same [of "ptsVec st'" n "ptsVec st", OF conjunct2 [OF mark [OF that(2)]]] .
  ultimately have "copy_inv L field xs st'"
    using base_ok_flows [OF base st'(2)] flows_lists [OF st'(2) l] comps(1) small(2)
    by (simp add: copy_inv_def g H)
  with st'(1,2) show ?thesis by blast
qed

end
