(* ===== verification/SolverSCC.thy ===== *)
theory SolverSCC
  imports SolverCopy
begin

text \<open>
  Collapsing in the copy phase: a component of several nodes is merged into its first node, after
  which the graph has one node less for each other member and the component is a single node.
\<close>

section \<open>Components of a changed graph\<close>

lemma childRel_closed:
  assumes "\<forall>u \<in> X. set (child u) \<subseteq> X" and "\<forall>u \<in> X. set (child' u) = set (child u)"
    and "(u, w) \<in> (childRel child)\<^sup>*" and "u \<in> X"
  shows "(u, w) \<in> (childRel child')\<^sup>* \<and> w \<in> X"
  using assms(3)
proof (induction rule: rtrancl_induct)
  case (step y z)
  then have "z \<in> set (child y)" by (simp add: childRel_def)
  then have "(y, z) \<in> childRel child'" "z \<in> X" using step.IH assms(1,2) by (auto simp: childRel_def)
  then show ?case using step.IH by (auto intro: rtrancl_into_rtrancl)
qed (use assms(4) in simp)

lemma comps_ok_cong:
  assumes "comps_ok child D xs" and "\<forall>u \<in> D. set (child u) \<subseteq> D"
    and "\<forall>u \<in> D \<union> set (concat xs). set (child' u) = set (child u)"
  shows "comps_ok child' D xs"
  using assms
proof (induction xs arbitrary: D)
  case (Cons c xs)
  let ?X = "D \<union> set c"
  from Cons.prems(1) have c: "comp_ok child D c" "comps_ok child ?X xs" by simp_all
  from c(1) Cons.prems(2) have X: "\<forall>u \<in> ?X. set (child u) \<subseteq> ?X" by (auto simp: comp_ok_def)
  have same: "\<forall>u \<in> ?X. set (child' u) = set (child u)" using Cons.prems(3) by auto
  have "(u, w) \<in> (childRel child')\<^sup>*" if "u \<in> set c" "w \<in> set c" for u w
    using childRel_closed [OF X same, of u w] c(1) that by (simp add: comp_ok_def)
  moreover have "\<forall>u \<in> set c. \<forall>w \<in> set (child' u). w \<in> D \<union> set c" using X same by blast
  ultimately have "comp_ok child' D c" using c(1) by (simp add: comp_ok_def)
  moreover have "comps_ok child' ?X xs" using Cons.IH [OF c(2) X] Cons.prems(3) by (simp add: Un_assoc)
  ultimately show ?case by simp
qed simp

text \<open>A member of a component of several nodes has copy edges to and from members.\<close>

lemma scc_member:
  assumes comps: "comps_ok child {} (xs @ [c])" and u: "u \<in> set c" and len: "1 < length c"
  shows "\<exists>w \<in> set c. u \<in> set (child w)" "\<exists>w \<in> set c. w \<in> set (child u)"
proof -
  have dist: "distinct c" using comps by (simp add: comps_ok_append comp_ok_def)
  then have "card (set c) > 1" using len distinct_card by metis
  then obtain v where v: "v \<in> set c" "v \<noteq> u" using u by (metis card_1_singleton_iff nat_less_le is_singletonI' is_singleton_altdef empty_iff)
  from comp_exact [OF comps u, of v] v have uv: "(u, v) \<in> (childRel child)\<^sup>*" "(v, u) \<in> (childRel child)\<^sup>*" by auto
  note mem = comp_exact [OF comps u]
  from uv(2) v(2) obtain w where w: "(v, w) \<in> (childRel child)\<^sup>*" "(w, u) \<in> childRel child" by (metis rtranclE)
  then have "w \<in> set c" using mem [of w] uv(1) by (meson r_into_rtrancl rtrancl_trans)
  then show "\<exists>w \<in> set c. u \<in> set (child w)" using w(2) by (auto simp: childRel_def)
  from uv(1) v(2) obtain w where w: "(u, w) \<in> childRel child" "(w, v) \<in> (childRel child)\<^sup>*" by (metis converse_rtranclE)
  then have "w \<in> set c" using mem [of w] uv(2) by (meson r_into_rtrancl rtrancl_trans)
  then show "\<exists>w \<in> set c. w \<in> set (child u)" using w(1) by (auto simp: childRel_def)
qed

lemma scc_collapsible:
  assumes ok: "cg_ok g" and ssa: "ssa_ok L g" and comps: "comps_ok (copySuccs g) {} (xs @ [c])"
    and n: "\<forall>u \<in> set c. u < getNodeNum g" and u: "u \<in> set c" and len: "1 < length c"
  shows "superNode (cgNode g u) = None" "\<not> isImmutable (cgNode g u)" "\<not> addrNode g u" "\<not> pinned g u"
proof -
  have into: "\<exists>w \<in> set c. edge g CCopy w v" if "v \<in> set c" for v
    using scc_member(1) [OF comps that len] n by (auto simp: edge_succs)
  from into [OF u] obtain w where w: "w \<in> set c" "edge g CCopy w u" by blast
  from into [OF w(1)] obtain x where "edge g CCopy x w" by blast
  then have "\<not> addrNode g w" using edgeD(6) [OF ok] by blast
  then show "\<not> isImmutable (cgNode g u)" "\<not> pinned g u"
    using edgeD(7) [OF ok w(2)] ssa w(2) by (auto simp: ssa_ok_def)
  show "superNode (cgNode g u) = None" "\<not> addrNode g u" using edgeD(4,6) [OF ok w(2)] by simp_all
qed

section \<open>Merging the members' sets\<close>

definition merged :: "nat \<Rightarrow> nat set \<Rightarrow> 'l solver \<Rightarrow> 'l solver \<Rightarrow> bool" where
  "merged S ns st st' \<longleftrightarrow> consGraph st' = consGraph st \<and> langModel st' = langModel st \<and>
     handledGEPMap st' = handledGEPMap st \<and> copyWorkList st' = copyWorkList st \<and> lsWorkList st' = lsWorkList st \<and>
     requiredEdge st' = requiredEdge st \<and> length (targetList st') = length (targetList st) \<and>
     (\<forall>n. n \<noteq> S \<longrightarrow> targetList st' ! n = targetList st ! n) \<and>
     pts_wf (consGraph st) (ptsVec st') \<and> set (ptsVec st' ! S) = set (ptsVec st ! S) \<union> (\<Union>n \<in> ns. set (ptsVec st ! n)) \<and>
     (\<forall>n. n \<noteq> S \<longrightarrow> ptsVec st' ! n = (if n \<in> ns then [] else ptsVec st ! n))"

lemma pts_wf_clear: "pts_wf g p \<Longrightarrow> \<not> addrNode g n \<Longrightarrow> pts_wf g (p[n := []])"
  by (cases "n < length p") (auto simp: pts_wf_def addrNode_def nth_list_update)

lemma mergedD:
  assumes "merged S ns st st'"
  shows "consGraph st' = consGraph st" "langModel st' = langModel st" "handledGEPMap st' = handledGEPMap st"
    "copyWorkList st' = copyWorkList st" "lsWorkList st' = lsWorkList st" "requiredEdge st' = requiredEdge st"
    "length (targetList st') = length (targetList st)" "n \<noteq> S \<Longrightarrow> targetList st' ! n = targetList st ! n"
    "pts_wf (consGraph st) (ptsVec st')"
    "set (ptsVec st' ! S) = set (ptsVec st ! S) \<union> (\<Union>n \<in> ns. set (ptsVec st ! n))"
    "n \<noteq> S \<Longrightarrow> ptsVec st' ! n = (if n \<in> ns then [] else ptsVec st ! n)"
  using assms by (simp_all add: merged_def)

lemma mergeMember_ok:
  assumes wf: "graph_wf (consGraph st, ptsVec st)" and l: "lists_ok (getNodeNum (consGraph st)) st"
    and n: "n < getNodeNum (consGraph st)" "S < getNodeNum (consGraph st)" "n \<noteq> S" and addr: "\<not> addrNode (consGraph st) n"
  shows "\<exists>st'. mergeMember S n st = Inr st' \<and> merged S {n} st st'"
proof -
  let ?g = "consGraph st" and ?p = "ptsVec st"
  let ?t = "if \<not> targetList st ! n then (targetList st)[S := False] else targetList st"
  let ?st = "st\<lparr> targetList := ?t \<rparr>"
  let ?p1 = "?p[S := bvOr (?p ! S) (?p ! n)]"
  have t: "bitTest n (targetList st) = Inr (targetList st ! n)" "bitReset S (targetList st) = Inr ((targetList st)[S := False])"
    using l n by (simp_all add: lists_ok_def bitTest_def bitReset_def)
  have target: "(if \<not> targetList st ! n then Inr ((targetList st)[S := False]) else Inr (targetList st)) = (Inr ?t :: bool list result)"
    by simp
  have "graph_wf (consGraph ?st, ptsVec ?st)" using wf by simp
  from processCopy_ok [OF this, of n S] n obtain F where
    F: "processCopy n S ?st = Inr (\<not> set (?p ! n) \<subseteq> set (?p ! S), ?st\<lparr> ptsVec := ?p1, updatedFunPtrs := F \<rparr>)" by auto
  from wf have p: "pts_wf ?g ?p" "cg_ok ?g" and len: "length ?p = getNodeNum ?g" by (simp_all add: graph_wf_def pts_wf_def)
  have "ptsClear n ?p1 = Inr (?p1[n := []])" using n len by (simp add: ptsClear_def inPts_def)
  then have run: "mergeMember S n st = Inr (?st\<lparr> ptsVec := ?p1[n := []], updatedFunPtrs := F \<rparr>)"
    unfolding mergeMember_def t rbind_Inr target F prod.case by simp
  have "pts_wf ?g (?p1[n := []])"
    using pts_wf_clear [OF pts_wf_union [OF p n(1,2)] addr] .
  moreover have "length ?t = length (targetList st)" "m \<noteq> S \<Longrightarrow> ?t ! m = targetList st ! m" for m by simp_all
  moreover have "(?p1[n := []]) ! m = (if m = n then [] else ?p ! m)" if "m \<noteq> S" for m
    using that n len by (simp add: nth_list_update)
  moreover have "set ((?p1[n := []]) ! S) = set (?p ! S) \<union> set (?p ! n)" using n len by simp
  ultimately have "merged S {n} st (?st\<lparr> ptsVec := ?p1[n := []], updatedFunPtrs := F \<rparr>)"
    unfolding merged_def by (simp split del: if_split)
  with run show ?thesis by blast
qed

lemma merge_fold_ok:
  assumes "graph_wf (consGraph st, ptsVec st)" and "lists_ok (getNodeNum (consGraph st)) st"
    and "S < getNodeNum (consGraph st)" "distinct ns" "S \<notin> set ns"
    and "\<forall>n \<in> set ns. n < getNodeNum (consGraph st) \<and> \<not> addrNode (consGraph st) n"
  shows "\<exists>st'. rfold (mergeMember S) ns st = Inr st' \<and> merged S (set ns) st st'"
  using assms
proof (induction ns arbitrary: st)
  case Nil
  then show ?case by (simp add: merged_def graph_wf_def)
next
  case (Cons n ns)
  from Cons.prems obtain st1 where st1: "mergeMember S n st = Inr st1" "merged S {n} st st1"
    using mergeMember_ok [of st n S] by auto
  have g: "consGraph st1 = consGraph st" using st1(2) by (simp add: merged_def)
  have "graph_wf (consGraph st1, ptsVec st1)" "lists_ok (getNodeNum (consGraph st1)) st1"
    using st1(2) Cons.prems(1,2) by (simp_all add: merged_def graph_wf_def lists_ok_def)
  moreover have "S < getNodeNum (consGraph st1)" "distinct ns" "S \<notin> set ns"
    "\<forall>n \<in> set ns. n < getNodeNum (consGraph st1) \<and> \<not> addrNode (consGraph st1) n"
    using Cons.prems(3-) unfolding g by simp_all
  ultimately obtain st2 where st2: "rfold (mergeMember S) ns st1 = Inr st2" "merged S (set ns) st1 st2"
    using Cons.IH [of st1] by blast
  note one = mergedD [OF st1(2)] and two = mergedD [OF st2(2)]
  have "\<forall>m \<in> set ns. ptsVec st1 ! m = ptsVec st ! m"
  proof
    fix m assume "m \<in> set ns"
    then have "m \<noteq> S" "m \<noteq> n" using Cons.prems(4,5) by auto
    then show "ptsVec st1 ! m = ptsVec st ! m" using one(11) by simp
  qed
  then have "(\<Union>m \<in> set ns. set (ptsVec st1 ! m)) = (\<Union>m \<in> set ns. set (ptsVec st ! m))" by simp
  then have "set (ptsVec st2 ! S) = set (ptsVec st ! S) \<union> (\<Union>m \<in> set (n # ns). set (ptsVec st ! m))"
    unfolding two(10) one(10) by auto
  moreover have "ptsVec st2 ! m = (if m \<in> set (n # ns) then [] else ptsVec st ! m)" if "m \<noteq> S" for m
    unfolding two(11) [OF that] one(11) [OF that] by simp
  moreover have "targetList st2 ! m = targetList st ! m" if "m \<noteq> S" for m
    using one(8) [OF that] two(8) [OF that] by simp
  moreover have "pts_wf (consGraph st) (ptsVec st2)" using two(9) unfolding g .
  ultimately have "merged S (set (n # ns)) st st2"
    unfolding merged_def two(1-7) one(1-7) by blast
  with st1(1) st2(1) show ?case by (intro exI [of _ st2]) simp
qed

section \<open>The collapsed graph\<close>

definition scc_step :: "nat \<Rightarrow> nat set \<Rightarrow> cons_graph \<Rightarrow> cons_graph \<Rightarrow> bool" where
  "scc_step S ns g g' \<longleftrightarrow> cg_ok g \<and> cg_ok g' \<and> collapsed S ns g g' \<and> S \<in> ns \<and>
     (\<forall>u \<in> ns. u < getNodeNum g \<and> superNode (cgNode g u) = None \<and> \<not> addrNode g u \<and> \<not> pinned g u)"

lemma scc_stepD:
  assumes "scc_step S ns g g'"
  shows "cg_ok g" "cg_ok g'" "collapsed S ns g g'" "S \<in> ns" "carries g g'" "getNodeNum g' = getNodeNum g" "objVec g' = objVec g"
    "u \<in> ns \<Longrightarrow> u < getNodeNum g" "u \<in> ns \<Longrightarrow> \<not> addrNode g u" "u \<in> ns \<Longrightarrow> \<not> pinned g u"
    "n < getNodeNum g \<Longrightarrow> rep g' n = onto S ns (rep g n)" "addrNode g' = addrNode g"
    "n < getNodeNum g \<Longrightarrow> cgKind (cgNode g' n) = cgKind (cgNode g n)"
    "n < getNodeNum g \<Longrightarrow> superNode (cgNode g' n) = (if n \<in> ns - {S} then Some S else superNode (cgNode g n))"
    "edge g' k x y \<longleftrightarrow> \<not> (k = CCopy \<and> x = y) \<and> (\<exists>a b. edge g k a b \<and> onto S ns a = x \<and> onto S ns b = y)"
proof -
  from assms show b: "cg_ok g" "cg_ok g'" "collapsed S ns g g'" "S \<in> ns" by (simp_all add: scc_step_def)
  from assms have ns: "\<forall>u \<in> ns. u < getNodeNum g \<and> superNode (cgNode g u) = None" by (simp add: scc_step_def)
  show "carries g g'" "n < getNodeNum g \<Longrightarrow> rep g' n = onto S ns (rep g n)"
    using carries_collapsed [OF b ns] by blast+
  from b(3) show "getNodeNum g' = getNodeNum g" "objVec g' = objVec g" by (simp_all add: collapsed_def)
  then show "addrNode g' = addrNode g" by (simp add: addrNode_def fun_eq_iff)
  from assms show "u \<in> ns \<Longrightarrow> u < getNodeNum g" "u \<in> ns \<Longrightarrow> \<not> addrNode g u" "u \<in> ns \<Longrightarrow> \<not> pinned g u"
    by (simp_all add: scc_step_def)
  from b(3) show "n < getNodeNum g \<Longrightarrow> cgKind (cgNode g' n) = cgKind (cgNode g n)"
    "n < getNodeNum g \<Longrightarrow> superNode (cgNode g' n) = (if n \<in> ns - {S} then Some S else superNode (cgNode g n))"
    "edge g' k x y \<longleftrightarrow> \<not> (k = CCopy \<and> x = y) \<and> (\<exists>a b. edge g k a b \<and> onto S ns a = x \<and> onto S ns b = y)"
    by (simp_all add: collapsed_def)
qed

lemma onto_out: "S \<in> ns \<Longrightarrow> x \<notin> ns \<Longrightarrow> onto S ns b = x \<longleftrightarrow> b = x"
  by (auto simp: onto_def)

lemma scc_pinned:
  assumes st: "scc_step S ns g g'"
  shows "pinned g' d \<longleftrightarrow> pinned g d"
proof
  note D = scc_stepD [OF st]
  assume "pinned g' d"
  then obtain s k where k: "k = COffset \<or> k = CSpecial" "edge g' k s d" by (auto simp: pinned_def)
  then obtain a b where e: "edge g k a b" "onto S ns b = d" unfolding D(15) by blast
  then have b: "pinned g b" using k(1) by (auto simp: pinned_def)
  then have "b \<notin> ns" using D(10) by blast
  then show "pinned g d" using b e(2) by (simp add: onto_def)
next
  note D = scc_stepD [OF st]
  assume p: "pinned g d"
  then obtain s k where k: "k = COffset \<or> k = CSpecial" "edge g k s d" by (auto simp: pinned_def)
  have "onto S ns d = d" using p D(10) by (auto simp: onto_def)
  then have "edge g' k (onto S ns s) d" using k unfolding D(15) by auto
  then show "pinned g' d" using k(1) by (auto simp: pinned_def)
qed

lemma scc_ssa:
  assumes st: "scc_step S ns g g'" and ssa: "ssa_ok L g"
  shows "ssa_ok L g'"
proof -
  note D = scc_stepD [OF st] and pin = scc_pinned [OF st]
  have small: "d < getNodeNum g" if "pinned g d" for d using that edgeD(2) [OF D(1)] by (auto simp: pinned_def)
  have one: "\<not> isObjKind (cgKind (cgNode g' d)) \<and> (\<forall>s. edge g' CCopy s d \<longrightarrow> addrNode g' s) \<and> (\<forall>n. (n, d) \<notin> superRel g')"
    if p: "pinned g d" for d
  proof (intro conjI allI impI)
    from ssa p have d: "\<not> isObjKind (cgKind (cgNode g d))" "\<And>s. edge g CCopy s d \<Longrightarrow> addrNode g s" "\<And>n. (n, d) \<notin> superRel g"
      by (auto simp: ssa_ok_def)
    have out: "d \<notin> ns" using p D(10) by blast
    show "\<not> isObjKind (cgKind (cgNode g' d))" using d(1) D(13) [OF small [OF p]] by simp
    show "addrNode g' s" if e: "edge g' CCopy s d" for s
    proof -
      from e obtain a where a: "edge g CCopy a d" "onto S ns a = s" unfolding D(15) onto_out [OF D(4) out] by blast
      then have "addrNode g a" using d(2) by blast
      moreover from this have "a \<notin> ns" using D(9) by blast
      ultimately show ?thesis using a(2) by (simp add: D(12) onto_def)
    qed
    show "(n, d) \<notin> superRel g'" for n
    proof
      assume "(n, d) \<in> superRel g'"
      then have n: "n < getNodeNum g" "superNode (cgNode g' n) = Some d" using D(6) by (auto simp: superRel_def)
      then have "superNode (cgNode g n) = Some d" using D(14) [OF n(1)] out D(4) by (auto split: if_splits)
      then show False using d(3) [of n] n(1) by (simp add: superRel_def)
    qed
  qed
  have two: "\<not> pinned g' d \<and> \<not> addrNode g' d" if e: "edge g' CLoad s d" for s d
  proof -
    from e obtain a b where ab: "edge g CLoad a b" "onto S ns b = d" unfolding D(15) by blast
    have b: "\<not> pinned g b" "\<not> addrNode g b" using ssa ab(1) unfolding ssa_ok_def by blast+
    show ?thesis using ab(2) b D(4,9,10) unfolding pin D(12) onto_def by (cases "b \<in> ns") auto
  qed
  have three: "\<exists>v. cgKind (cgNode g' d) = PtrNode (Some v) \<and> lmIsInstruction L v" if e: "edge g' COffset s d" for s d
  proof -
    from e obtain a b where ab: "edge g COffset a b" "onto S ns b = d" unfolding D(15) by blast
    then have "b \<notin> ns" using D(10) by (auto simp: pinned_def)
    then have "edge g COffset a d" using ab by (simp add: onto_def)
    moreover from this have "d < getNodeNum g" using edgeD(2) [OF D(1)] by blast
    ultimately show ?thesis using ssa D(13) by (auto simp: ssa_ok_def)
  qed
  show ?thesis using one two three unfolding ssa_ok_def pin by blast
qed

lemma linked_cong: "rep g a = rep g a' \<Longrightarrow> rep g b = rep g b' \<Longrightarrow> linked g a b = linked g a' b'"
  by (simp add: linked_def)

lemma scc_rep_edge:
  assumes st: "scc_step S ns g g'" and e: "edge g k a b"
  shows "rep g' (onto S ns a) = rep g' a" "rep g' (onto S ns b) = rep g' b"
proof -
  note D = scc_stepD [OF st]
  have S: "S < getNodeNum g" "rep g S = S" using D(8) [OF D(4)] rep_same [OF D(1)] st D(4) by (auto simp: scc_step_def)
  have "rep g' (onto S ns x) = rep g' x" if "x < getNodeNum g" "rep g x = x" for x
    using D(11) [OF that(1)] D(11) [OF S(1)] that S D(4) by (auto simp: onto_def)
  then show "rep g' (onto S ns a) = rep g' a" "rep g' (onto S ns b) = rep g' b"
    using edgeD(1,2) [OF D(1) e] rep_edge [OF D(1) e] by blast+
qed

lemma scc_gep:
  assumes st: "scc_step S ns g g'" and gep: "gep_ok field l g p H"
    and p': "\<And>n. n \<notin> ns \<Longrightarrow> p' ! n = p ! n"
  shows "gep_ok field l g' p' H"
  unfolding gep_ok_def
proof (intro allI conjI ballI impI)
  note D = scc_stepD [OF st]
  show "bv (H d)" for d using gep by (simp add: gep_ok_def)
  fix d obj assume o: "obj \<in> set (H d)"
  with gep obtain s where s: "edge g COffset s d" and obj: "obj < length (objVec g)" unfolding gep_ok_def by blast
  have pin: "pinned g d" using s by (auto simp: pinned_def)
  have out: "d \<notin> ns" using D(10) pin by blast
  then have on: "onto S ns d = d" by (simp add: onto_def)
  have d: "d < getNodeNum g" using edgeD(2) [OF D(1) s] .
  show "obj < length (objVec g')" using obj D(7) by simp
  have "edge g' COffset (onto S ns s) d" unfolding D(15) using s on by auto
  then show "\<exists>s. edge g' COffset s d" by blast
  fix v assume "cgKind (cgNode g' d) = PtrNode (Some v)"
  then have "cgKind (cgNode g d) = PtrNode (Some v)" using D(13) [OF d] by simp
  with gep o obtain r where r: "field l obj v = Some r"
    "\<And>f. r = Some f \<Longrightarrow> f < length (objVec g) \<and> (linked g (Suc (objVec g ! f)) d \<or> f \<in> set (p ! d))"
    unfolding gep_ok_def by blast
  have "f < length (objVec g') \<and> (linked g' (Suc (objVec g' ! f)) d \<or> f \<in> set (p' ! d))" if f: "r = Some f" for f
  proof -
    from r(2) [OF f] have fl: "f < length (objVec g)" and "linked g (Suc (objVec g ! f)) d \<or> f \<in> set (p ! d)" by blast+
    moreover have "Suc (objVec g ! f) < getNodeNum g" using fl cg_okD(3) [OF D(1)] by (simp add: objs_ok_def)
    ultimately show ?thesis using linked_carries [OF D(1,2,5) _ d] p' [OF out] D(7) by auto
  qed
  with r(1) show "\<exists>r. field l obj v = Some r \<and>
    (\<forall>f. r = Some f \<longrightarrow> f < length (objVec g') \<and> (linked g' (Suc (objVec g' ! f)) d \<or> f \<in> set (p' ! d)))" by blast
qed

lemma scc_sat:
  assumes st: "scc_step S ns g g'" and p: "pts_wf g p" and sat: "sat_node L g p H n"
    and n: "n < getNodeNum g" "n \<noteq> S" and p': "n \<notin> ns \<Longrightarrow> p' ! n = p ! n"
  shows "sat_node L g' p' H n"
proof (cases "n \<in> ns")
  case True
  note D = scc_stepD [OF st]
  have "superNode (cgNode g' n) = Some S" using D(14) [OF n(1)] n(2) True by simp
  then have "\<not> edge g' k n d" "\<not> edge g' k d n" for k d using edgeD(3,4) [OF D(2)] by fastforce+
  then show ?thesis by (simp add: sat_node_def)
next
  case out: False
  note D = scc_stepD [OF st]
  have obj: "objVec g ! obj < getNodeNum g" if "obj \<in> set (p ! n)" for obj
  proof -
    have "obj < length (objVec g)" using p n(1) that by (auto simp: pts_wf_def)
    then show ?thesis using cg_okD(3) [OF D(1)] by (auto simp: objs_ok_def)
  qed
  note same = p' [OF out]
  have fw: "\<exists>b. edge g k n b \<and> onto S ns b = d" if "edge g' k n d" for k d
    using that unfolding D(15) onto_out [OF D(4) out] by blast
  have bw: "\<exists>a. edge g k a n \<and> onto S ns a = s" if "edge g' k s n" for k s
    using that unfolding D(15) onto_out [OF D(4) out] by blast
  have pin: "onto S ns b = b" if "edge g COffset a b \<or> edge g CSpecial a b" for a b
    using that D(10) [of b] by (auto simp: pinned_def onto_def)
  have load: "linked g' (objVec g' ! obj) d" if e: "edge g' CLoad n d" and o: "obj \<in> set (p' ! n)" for d obj
  proof -
    from fw [OF e] obtain b where b: "edge g CLoad n b" "onto S ns b = d" by blast
    have o': "obj \<in> set (p ! n)" using o same by simp
    then have "linked g (objVec g ! obj) b" using sat b(1) unfolding sat_node_def by blast
    from linked_carries [OF D(1,2,5) obj [OF o'] edgeD(2) [OF D(1) b(1)] this]
    show ?thesis using linked_cong [OF refl scc_rep_edge(2) [OF st b(1)]] b(2) D(7) by simp
  qed
  have store: "linked g' s (objVec g' ! obj)" if e: "edge g' CStore s n" and o: "obj \<in> set (p' ! n)" for s obj
  proof -
    from bw [OF e] obtain a where a: "edge g CStore a n" "onto S ns a = s" by blast
    have o': "obj \<in> set (p ! n)" using o same by simp
    then have "linked g a (objVec g ! obj)" using sat a(1) unfolding sat_node_def by blast
    from linked_carries [OF D(1,2,5) edgeD(1) [OF D(1) a(1)] obj [OF o'] this]
    show ?thesis using linked_cong [OF scc_rep_edge(1) [OF st a(1)] refl] a(2) D(7) by simp
  qed
  have special: "a < getNodeNum g' \<and> b < getNodeNum g' \<and> consSrc g' k a < getNodeNum g' \<and> linked g' (consSrc g' k a) b"
    if e: "edge g' CSpecial n d" and o: "obj \<in> set (p' ! n)" and k: "(a, b, k) \<in> set (lmProcessSpecial L obj n d)" for d obj a b k
  proof -
    from fw [OF e] obtain b' where b': "edge g CSpecial n b'" "onto S ns b' = d" by blast
    then have "edge g CSpecial n d" using pin [of n b'] by simp
    then have "\<forall>obj \<in> set (p ! n). \<forall>(a, b, k) \<in> set (lmProcessSpecial L obj n d).
        a < getNodeNum g \<and> b < getNodeNum g \<and> consSrc g k a < getNodeNum g \<and> linked g (consSrc g k a) b"
      using sat unfolding sat_node_def by blast
    moreover have "obj \<in> set (p ! n)" using o same by simp
    ultimately have "a < getNodeNum g" "b < getNodeNum g" "consSrc g k a < getNodeNum g" "linked g (consSrc g k a) b"
      using k by blast+
    then show ?thesis using linked_carries [OF D(1,2,5)] D(6) by (simp add: consSrc_def)
  qed
  have offset: "set (p' ! n) \<subseteq> set (H d)" if e: "edge g' COffset n d" for d
  proof -
    from fw [OF e] obtain b where b: "edge g COffset n b" "onto S ns b = d" by blast
    then have "edge g COffset n d" using pin [of n b] by simp
    then have "set (p ! n) \<subseteq> set (H d)" using sat unfolding sat_node_def by blast
    then show ?thesis using same by simp
  qed
  show ?thesis unfolding sat_node_def using load store special offset by blast
qed

lemma scc_succs:
  assumes st: "scc_step S ns g g'" and X: "\<forall>u \<in> X. u < getNodeNum g \<and> set (copySuccs g u) \<subseteq> X" "X \<inter> ns = {}" and u: "u \<in> X"
  shows "set (copySuccs g' u) = set (copySuccs g u)"
proof -
  note D = scc_stepD [OF st]
  have out: "u \<notin> ns" "u < getNodeNum g" using X u by auto
  have "edge g' CCopy u d \<longleftrightarrow> edge g CCopy u d" for d
  proof
    assume "edge g' CCopy u d"
    then obtain b where b: "edge g CCopy u b" "onto S ns b = d" unfolding D(15) onto_out [OF D(4) out(1)] by blast
    then have "b \<in> X" using X(1) u by (auto simp: edge_succs)
    then have "onto S ns b = b" using X(2) by (auto simp: onto_def)
    then show "edge g CCopy u d" using b by simp
  next
    assume e: "edge g CCopy u d"
    then have "d \<in> X" using X(1) u by (auto simp: edge_succs)
    then have "onto S ns d = d" "onto S ns u = u" using X(2) u by (auto simp: onto_def)
    moreover have "u \<noteq> d" using edgeD(5) [OF D(1) e] by simp
    ultimately show "edge g' CCopy u d" using e unfolding D(15) by blast
  qed
  then show ?thesis using out(2) D(6) by (auto simp: edge_succs)
qed

section \<open>The component as a single node\<close>

lemma scc_inv:
  assumes inv: "copy_inv L field (xs @ [c]) st" and c: "c = S # ms"
    and m: "merged S (set ms) st st1" and step: "scc_step S (set c) (consGraph st) g'"
    and st2: "st2 = st1\<lparr> lsWorkList := (lsWorkList st1)[S := False], consGraph := g', updatedFunPtrs := F \<rparr>"
  shows "copy_inv L field (xs @ [[S]]) st2" "\<not> lsWorkList st2 ! S"
proof -
  let ?g = "consGraph st" and ?X = "set (concat xs)"
  note D = scc_stepD [OF step] and M = mergedD [OF m]
  from inv have base: "base_ok L field st" and l: "lists_ok (getNodeNum ?g) st"
    and comps: "comps_ok (copySuccs ?g) {} (xs @ [c])"
    and small: "\<forall>v \<in> set (concat (xs @ [c])). v < getNodeNum ?g"
    and edges: "\<And>s d. edge ?g CCopy s d \<Longrightarrow> set (ptsVec st ! s) \<subseteq> set (ptsVec st ! d) \<or>
        (s \<in> set (concat (xs @ [c])) \<and> needed L st s d)"
    and sat: "\<And>n. n < getNodeNum ?g \<Longrightarrow> lsWorkList st ! n \<Longrightarrow> sat_node L ?g (ptsVec st) (handledGEPMap st) n"
    unfolding copy_inv_def by blast+
  from comps have xs: "comps_ok (copySuccs ?g) {} xs" and cok: "comp_ok (copySuccs ?g) ?X c"
    by (simp_all add: comps_ok_append)
  from comps_ok_closed [OF xs] have clX: "\<forall>u \<in> ?X. set (copySuccs ?g u) \<subseteq> ?X" by simp
  have disj: "?X \<inter> set c = {}" using cok by (auto simp: comp_ok_def)
  have X: "\<forall>u \<in> ?X. u < getNodeNum ?g \<and> set (copySuccs ?g u) \<subseteq> ?X" using clX small by auto
  have F: "consGraph st2 = g'" "ptsVec st2 = ptsVec st1" "langModel st2 = langModel st" "handledGEPMap st2 = handledGEPMap st"
    "copyWorkList st2 = copyWorkList st" "lsWorkList st2 = (lsWorkList st)[S := False]" "targetList st2 = targetList st1"
    "requiredEdge st2 = requiredEdge st" by (simp_all add: st2 M)
  have p: "pts_wf ?g (ptsVec st1)" using M(9) .
  have out: "ptsVec st1 ! n = ptsVec st ! n" if "n \<notin> set c" for n using M(11) [of n] that c by auto
  have S: "S < length (lsWorkList st)" using l D(8) [OF D(4)] by (simp add: lists_ok_def)
  then show mark: "\<not> lsWorkList st2 ! S" by (simp add: F)
  have "pts_wf g' (ptsVec st1)" using pts_wf_same [OF p D(6,7)] .
  moreover have "gep_ok field (langModel st) g' (ptsVec st1) (handledGEPMap st)"
    using scc_gep [OF step, of field "langModel st" "ptsVec st" "handledGEPMap st" "ptsVec st1"] base out by (auto simp: base_ok_def)
  ultimately have base': "base_ok L field st2"
    using scc_ssa [OF step, of L] base D(2,6) by (simp add: base_ok_def graph_wf_def F)
  have l': "lists_ok (getNodeNum g') st2" using l M(7) D(6) by (simp add: lists_ok_def F)
  have "comps_ok (copySuccs g') {} xs"
    using comps_ok_cong [OF xs, of "copySuccs g'"] scc_succs [OF step X disj] by simp
  moreover have "comp_ok (copySuccs g') ?X [S]"
  proof -
    have "d \<in> ?X \<union> {S}" if "d \<in> set (copySuccs g' S)" for d
    proof -
      have "edge g' CCopy S d" using that D(6) D(8) [OF D(4)] by (simp add: edge_succs)
      then obtain a b where ab: "edge ?g CCopy a b" "onto S (set c) a = S" "onto S (set c) b = d" unfolding D(15) by blast
      then have "a \<in> set c" using D(4) by (auto simp: onto_def split: if_splits)
      then have "b \<in> ?X \<union> set c" using cok ab(1) by (auto simp: comp_ok_def edge_succs)
      then show ?thesis using ab(3) by (auto simp: onto_def split: if_splits)
    qed
    then show ?thesis using disj D(4) by (auto simp: comp_ok_def)
  qed
  ultimately have comps': "comps_ok (copySuccs g') {} (xs @ [[S]])" by (simp add: comps_ok_append)
  have small': "\<forall>v \<in> set (concat (xs @ [[S]])). v < getNodeNum g'" using small D(6) c by auto
  have edges': "set (ptsVec st1 ! s) \<subseteq> set (ptsVec st1 ! d) \<or> (s \<in> set (concat (xs @ [[S]])) \<and> needed L st2 s d)"
    if e: "edge g' CCopy s d" for s d
  proof -
    from e obtain a b where ab: "edge ?g CCopy a b" "onto S (set c) a = s" "onto S (set c) b = d" unfolding D(15) by blast
    show ?thesis
    proof (cases "a \<in> set c")
      case True
      then show ?thesis using ab(2) mark by (simp add: onto_def needed_def)
    next
      case a: False
      then have s: "s = a" using ab(2) by (simp add: onto_def)
      from edges [OF ab(1)] consider "set (ptsVec st ! a) \<subseteq> set (ptsVec st ! b)" | "a \<in> ?X" "needed L st a b" using a by auto
      then show ?thesis
      proof cases
        case 1
        have "set (ptsVec st ! b) \<subseteq> set (ptsVec st1 ! d)"
        proof (cases "b \<in> set c")
          case True
          then have "d = S" using ab(3) by (simp add: onto_def)
          then show ?thesis using True M(10) c by auto
        next
          case False
          then show ?thesis using ab(3) out by (simp add: onto_def)
        qed
        then show ?thesis using 1 out [OF a] s by auto
      next
        case 2
        have "b \<in> set (copySuccs ?g a)" using ab(1) by (simp add: edge_succs)
        then have "b \<in> ?X" using clX 2(1) by blast
        then have b: "b \<notin> set c" using disj by auto
        then have d: "d = b" using ab(3) by (simp add: onto_def)
        have "a \<noteq> S" "b \<noteq> S" using a b D(4) by auto
        then have "needed L st2 a b" using 2(2) M(8) [of b] by (simp add: needed_def F)
        then show ?thesis using 2(1) s d by simp
      qed
    qed
  qed
  have sat': "sat_node L g' (ptsVec st1) (handledGEPMap st) n" if n: "n < getNodeNum g'" and ls: "lsWorkList st2 ! n" for n
  proof -
    have ne: "n \<noteq> S" using mark ls by auto
    then have "lsWorkList st ! n" using ls by (simp add: F)
    moreover have n': "n < getNodeNum ?g" using n D(6) by simp
    moreover have "pts_wf ?g (ptsVec st)" using base by (simp add: base_ok_def graph_wf_def)
    ultimately show ?thesis using scc_sat [OF step _ sat [OF n'] n' ne out] by blast
  qed
  show "copy_inv L field (xs @ [[S]]) st2"
    using base' l' comps' small' edges' sat' unfolding copy_inv_def F by blast
qed

text \<open>The nodes that were not collapsed; a component of several nodes leaves fewer.\<close>

definition roots :: "cons_graph \<Rightarrow> nat set" where
  "roots g = {n. n < getNodeNum g \<and> superNode (cgNode g n) = None}"

definition copy_step :: "'l solver \<Rightarrow> 'l solver \<Rightarrow> bool" where
  "copy_step st st' \<longleftrightarrow> carries (consGraph st) (consGraph st') \<and>
     getNodeNum (consGraph st') = getNodeNum (consGraph st) \<and> objVec (consGraph st') = objVec (consGraph st) \<and>
     (consGraph st' = consGraph st \<or> roots (consGraph st') \<subset> roots (consGraph st)) \<and>
     langModel st' = langModel st \<and> handledGEPMap st' = handledGEPMap st"

lemma scc_roots:
  assumes "scc_step S ns g g'" and u: "u \<in> ns" "u \<noteq> S"
  shows "roots g' \<subset> roots g"
proof -
  note D = scc_stepD [OF assms(1)]
  have "n < getNodeNum g \<and> superNode (cgNode g n) = None" if "n < getNodeNum g'" "superNode (cgNode g' n) = None" for n
    using that D(6) D(14) [of n] by (simp split: if_splits)
  then have "roots g' \<subseteq> roots g" by (auto simp: roots_def)
  moreover have "u \<in> roots g" using assms by (auto simp: roots_def scc_step_def)
  moreover have "u \<notin> roots g'" using D(14) [OF D(8) [OF u(1)]] u by (simp add: roots_def)
  ultimately show ?thesis by blast
qed

lemma copy_step_refl: "cg_ok (consGraph st) \<Longrightarrow> copy_step st st"
  by (simp add: copy_step_def carries_refl)

lemma copy_step_trans:
  assumes "cg_ok (consGraph st)" and "cg_ok (consGraph st1)" and "copy_step st st1" and "copy_step st1 st2"
  shows "copy_step st st2"
  using carries_trans [OF assms(1,2), of "consGraph st2"] assms(3,4) by (auto simp: copy_step_def)

lemma copy_step_flows: "cg_ok (consGraph st) \<Longrightarrow> flows D st st' \<Longrightarrow> copy_step st st'"
  by (simp add: copy_step_def flows_def carries_refl)

text \<open>An unmarked source has all its edges followed.\<close>

lemma processCopy_marks: "processCopy s d st = Inr (b, st') \<Longrightarrow> lsWorkList st' = lsWorkList st"
  by (auto simp: processCopy_def Let_def updateFunPtr_def split: prod.splits if_splits)

lemma followCopy_marks:
  assumes "followCopy s d st = Inr st'" and "\<not> lsWorkList st ! n" and "n < length (lsWorkList st)"
  shows "\<not> lsWorkList st' ! n \<and> n < length (lsWorkList st')"
  using assms
  by (auto simp: followCopy_def bitReset_def nth_list_update split: if_splits dest!: processCopy_marks)

lemma followCopy_fold:
  assumes "\<not> lsWorkList st ! S" and "S < length (lsWorkList st)"
  shows "rfold (\<lambda>dst st. rbind (shouldProcessCopy L S dst st) (\<lambda>should. if should then followCopy S dst st else Inr st)) ds st =
    rfold (followCopy S) ds st"
  using assms
proof (induction ds arbitrary: st)
  case (Cons d ds)
  have should: "shouldProcessCopy L S d st = Inr True"
    using Cons.prems by (simp add: shouldProcessCopy_def bitTest_def)
  show ?case
  proof (cases "followCopy S d st")
    case (Inr st1)
    then show ?thesis using should Cons.IH [of st1] followCopy_marks [OF Inr Cons.prems] by simp
  qed (simp add: should)
qed simp

lemma processCopySCC_ok:
  fixes L :: "'l lang_model"
  assumes inv: "copy_inv L field (xs @ [c]) st" and len: "1 < length c"
  shows "\<exists>st'. processCopySCC c st = Inr st' \<and> copy_inv L field xs st' \<and> copy_step st st'"
proof -
  let ?g = "consGraph st"
  obtain S ms where c: "c = S # ms" using len by (cases c) auto
  from inv have base: "base_ok L field st" and l: "lists_ok (getNodeNum ?g) st"
    and comps: "comps_ok (copySuccs ?g) {} (xs @ [c])" and small: "\<forall>v \<in> set c. v < getNodeNum ?g"
    by (auto simp: copy_inv_def)
  from base have wf: "graph_wf (?g, ptsVec st)" and ok: "cg_ok ?g" and ssa: "ssa_ok L ?g"
    by (simp_all add: base_ok_def graph_wf_def)
  note mem = scc_collapsible [OF ok ssa comps small _ len]
  have dist: "distinct c" using comps by (simp add: comps_ok_append comp_ok_def)
  have S: "S < getNodeNum ?g" using small c by simp
  obtain st1 where st1: "rfold (mergeMember S) ms st = Inr st1" "merged S (set ms) st st1"
    using merge_fold_ok [OF wf l S, of ms] dist small mem(3) c by auto
  note M = mergedD [OF st1(2)]
  obtain g' where g': "collapseSCCTo c S ?g = Inr g'" "cg_ok g'" "collapsed S (set c) ?g g'"
    using collapse_exact [OF ok dist, of S] small mem c by auto
  then have step: "scc_step S (set c) ?g g'" using ok small mem c by (simp add: scc_step_def)
  let ?F = "if isFunctionPtr g' S then sorted_insert S (updatedFunPtrs st1) else updatedFunPtrs st1"
  let ?st2 = "st1\<lparr> lsWorkList := (lsWorkList st1)[S := False], consGraph := g', updatedFunPtrs := ?F \<rparr>"
  note two = scc_inv [OF inv c st1(2) step refl, of ?F]
  have reset: "bitReset S (lsWorkList st1) = Inr ((lsWorkList st1)[S := False])"
    using l S M(5) by (simp add: bitReset_def lists_ok_def)
  have "(if isFunctionPtr g' S then updateFunPtr S (st1\<lparr> lsWorkList := (lsWorkList st1)[S := False], consGraph := g' \<rparr>)
      else st1\<lparr> lsWorkList := (lsWorkList st1)[S := False], consGraph := g' \<rparr>) = ?st2"
    by (simp add: updateFunPtr_def)
  then have run: "processCopySCC c st = rfold (followCopy S) (copySuccs g' S) ?st2"
    using len st1(1) reset g'(1) M(1) unfolding processCopySCC_def c by (simp del: rfold.simps)
  obtain st' where st': "copyNode L S ?st2 = Inr st'" "copy_inv L field xs st'" "flows (set (copySuccs g' S)) ?st2 st'"
    using copyNode_ok [OF two(1)] by auto
  have "S < length (lsWorkList ?st2)" using l S M(5) by (simp add: lists_ok_def)
  from followCopy_fold [OF two(2) this] st'(1) run have "processCopySCC c st = Inr st'"
    by (simp add: copyNode_def del: rfold.simps)
  moreover have "copy_step st st'"
  proof -
    note D = scc_stepD [OF step]
    obtain u where u: "u \<in> set c" "u \<noteq> S" using len dist c by (cases ms) auto
    have "roots g' \<subset> roots ?g" using scc_roots [OF step u] .
    moreover have "consGraph st' = g'" "langModel st' = langModel st" "handledGEPMap st' = handledGEPMap st"
      using st'(3) M(2,3) by (simp_all add: flows_def)
    ultimately show ?thesis using D(5-7) by (simp add: copy_step_def)
  qed
  ultimately show ?thesis using st'(2) by blast
qed

section \<open>The whole phase\<close>

lemma copySCC_ok:
  fixes L :: "'l lang_model"
  assumes inv: "copy_inv L field (xs @ [c]) st"
  shows "\<exists>st'. copySCC L c st = Inr st' \<and> copy_inv L field xs st' \<and> copy_step st st'"
proof (cases "1 < length c")
  case True
  then show ?thesis using processCopySCC_ok [OF inv] by (simp add: copySCC_def)
next
  case False
  have "c \<noteq> []" using inv by (simp add: copy_inv_def comps_ok_append comp_ok_def)
  then obtain u where u: "c = [u]" using False by (cases c) auto
  have "cg_ok (consGraph st)" using inv by (simp add: copy_inv_def base_ok_def graph_wf_def)
  then show ?thesis using copyNode_ok inv copy_step_flows u unfolding copySCC_def u by (auto dest!: copyNode_ok)
qed

lemma copy_components_ok:
  fixes L :: "'l lang_model"
  assumes "copy_inv L field sccs st"
  shows "\<exists>st'. rfold (copySCC L) (rev sccs) st = Inr st' \<and> copy_inv L field [] st' \<and> copy_step st st'"
  using assms
proof (induction sccs arbitrary: st rule: rev_induct)
  case Nil
  then show ?case by (simp add: copy_inv_def base_ok_def graph_wf_def copy_step_refl)
next
  case (snoc c xs)
  from copySCC_ok [OF snoc.prems] obtain st1 where
    st1: "copySCC L c st = Inr st1" "copy_inv L field xs st1" "copy_step st st1" by blast
  from snoc.IH [OF st1(2)] obtain st2 where
    st2: "rfold (copySCC L) (rev xs) st1 = Inr st2" "copy_inv L field [] st2" "copy_step st1 st2" by blast
  have "cg_ok (consGraph st)" "cg_ok (consGraph st1)"
    using snoc.prems st1(2) by (simp_all add: copy_inv_def base_ok_def graph_wf_def)
  then have "copy_step st st2" using copy_step_trans st1(3) st2(3) by blast
  with st1(1) st2(1,2) show ?case by simp
qed

text \<open>
  Before a round: an edge that is not followed yet leaves a node of the work list and will be
  taken; a node that is not marked has its other constraints satisfied.
\<close>

definition start_inv ::
  "('l, 'm) lang_model_scheme \<Rightarrow> ('l \<Rightarrow> nat \<Rightarrow> llvm_value \<Rightarrow> nat option option) \<Rightarrow> 'l solver \<Rightarrow> bool" where
  "start_inv L field st \<longleftrightarrow> base_ok L field st \<and> lists_ok (getNodeNum (consGraph st)) st \<and>
     (\<forall>s d. edge (consGraph st) CCopy s d \<longrightarrow> set (ptsVec st ! s) \<subseteq> set (ptsVec st ! d) \<or>
        (\<not> copyWorkList st ! s \<and> needed L st s d)) \<and>
     (\<forall>n < getNodeNum (consGraph st). lsWorkList st ! n \<longrightarrow>
        sat_node L (consGraph st) (ptsVec st) (handledGEPMap st) n)"

lemma copyPhase_ok:
  fixes L :: "'l lang_model"
  assumes inv: "start_inv L field st"
  shows "\<exists>st'. copyPhase L st = Inr st' \<and> copy_inv L field [] st' \<and> copy_step st st'"
proof -
  let ?g = "consGraph st"
  from inv have base: "base_ok L field st" and l: "lists_ok (getNodeNum ?g) st"
    and edges: "\<And>s d. edge ?g CCopy s d \<Longrightarrow> set (ptsVec st ! s) \<subseteq> set (ptsVec st ! d) \<or>
        (\<not> copyWorkList st ! s \<and> needed L st s d)"
    and sat: "\<forall>n < getNodeNum ?g. lsWorkList st ! n \<longrightarrow> sat_node L ?g (ptsVec st) (handledGEPMap st) n"
    unfolding start_inv_def by blast+
  from base have ok: "cg_ok ?g" and num: "getNodeNum ?g < sccDone" by (simp_all add: base_ok_def graph_wf_def)
  have range: "set (copySuccs ?g u) \<subseteq> {..<getNodeNum ?g}" if "u < getNodeNum ?g" for u
    using that edgeD(2) [OF ok, of CCopy u] by (auto simp: edge_succs)
  have len: "length (copyWorkList st) = getNodeNum ?g" using l by (simp add: lists_ok_def)
  obtain out where out: "sccList (getNodeNum ?g) (copySuccs ?g) (hasSuperNode ?g) (copyWorkList st) = Inr out"
    "comps_ok (copySuccs ?g) {} out" "covers (hasSuperNode ?g) (copyWorkList st) (getNodeNum ?g) (set (concat out))"
    "\<forall>u \<in> set (concat out). u < getNodeNum ?g"
    using sccList_ok [of "getNodeNum ?g" "copySuccs ?g", OF range len num] by blast
  have "s \<in> set (concat out)" if e: "edge ?g CCopy s d" and w: "\<not> copyWorkList st ! s" for s d
    using out(3) edgeD(1,3) [OF ok e] w by (simp add: covers_def hasSuperNode_def)
  then have "copy_inv L field out st" using base l out(2,4) edges sat unfolding copy_inv_def by blast
  from copy_components_ok [OF this] show ?thesis using out(1) by (simp add: copyPhase_def Let_def)
qed

end
