(* ===== verification/SolverWork.thy ===== *)
theory SolverWork
  imports SolverSCC
begin

text \<open>
  The second phase of a round: loads, stores, special and offset constraints of the nodes whose
  sets changed add copy edges, which are recorded for the next round. Points-to sets stay as they
  are; new objects come with their own nodes.
\<close>

section \<open>The language model's contract\<close>

text \<open>
  Indexing an object of the graph creates nothing but objects, some of them immutable, and gives an
  object of the graph or none, which \<open>field\<close> remembers; \<open>Inv\<close> is what the language model keeps of its
  state, the number of nodes and the objects.
\<close>

definition onlyObjects :: "nat \<Rightarrow> cg_op list \<Rightarrow> bool" where
  "onlyObjects M ops \<longleftrightarrow> (\<forall>op \<in> set ops. op = NewObj \<or> (\<exists>n \<ge> M. op = Freeze n))"

definition index_ok ::
  "'l lang_model \<Rightarrow> ('l \<Rightarrow> nat \<Rightarrow> llvm_value \<Rightarrow> nat option option) \<Rightarrow> ('l \<Rightarrow> nat \<Rightarrow> nat list \<Rightarrow> bool) \<Rightarrow> bool" where
  "index_ok L field Inv \<longleftrightarrow> (\<forall>l g p obj idx. graph_wf (g, p) \<longrightarrow> Inv l (getNodeNum g) (objVec g) \<longrightarrow>
     obj < length (objVec g) \<longrightarrow> lmIsInstruction L idx \<longrightarrow>
     (\<exists>r l' ops g' p'. lmIndexObject L (objVec g ! obj) idx l (g, p) = Inr (map_option (\<lambda>f. objVec g' ! f) r, l', g', p') \<and>
        onlyObjects (getNodeNum g) ops \<and> cgRun ops (g, p) = Inr (g', p') \<and> Inv l' (getNodeNum g') (objVec g') \<and>
        field l' obj idx = Some r \<and> (\<forall>f. r = Some f \<longrightarrow> f < length (objVec g')) \<and>
        (\<forall>obj v x. field l obj v = Some x \<longrightarrow> field l' obj v = Some x)))"

text \<open>
  The constraints a special object asks for are copies and addresses between nodes of the graph,
  in every graph the solver makes of \<open>g0\<close>; a pinned node only gets addresses.
\<close>

definition special_ok :: "'l lang_model \<Rightarrow> cons_graph \<Rightarrow> bool" where
  "special_ok L g0 \<longleftrightarrow> (\<forall>g p s d obj. graph_wf (g, p) \<longrightarrow> ssa_ok L g \<longrightarrow> carries g0 g \<longrightarrow> edge g CSpecial s d \<longrightarrow>
     obj < length (objVec g) \<longrightarrow> (\<forall>(a, b, k) \<in> set (lmProcessSpecial L obj s d).
       a < getNodeNum g \<and> b < getNodeNum g \<and> (k = CCopy \<or> k = CAddrOf) \<and> \<not> addrNode g b \<and>
       (k = CAddrOf \<longrightarrow> isObjKind (cgKind (cgNode g a))) \<and> (k = CCopy \<longrightarrow> pinned g (rep g b) \<longrightarrow> addrNode g a)))"

lemma special_ok_carries:
  assumes "special_ok L g0" and "cg_ok g0" and "cg_ok g1" and "carries g0 g1"
  shows "special_ok L g1"
  unfolding special_ok_def
proof (intro allI impI)
  fix g p s d obj
  assume g: "graph_wf (g, p)" "ssa_ok L g" "carries g1 g" "edge g CSpecial s d" "obj < length (objVec g)"
  then have "carries g0 g" using carries_trans [OF assms(2-4)] by blast
  then show "\<forall>(a, b, k) \<in> set (lmProcessSpecial L obj s d).
       a < getNodeNum g \<and> b < getNodeNum g \<and> (k = CCopy \<or> k = CAddrOf) \<and> \<not> addrNode g b \<and>
       (k = CAddrOf \<longrightarrow> isObjKind (cgKind (cgNode g a))) \<and> (k = CCopy \<longrightarrow> pinned g (rep g b) \<longrightarrow> addrNode g a)"
    using assms(1) g unfolding special_ok_def by blast
qed

section \<open>What the phase changes\<close>

definition workKind :: "constraints \<Rightarrow> bool" where
  "workKind k \<longleftrightarrow> k \<noteq> CCopy \<and> k \<noteq> CAddrOf"

definition ls_grow :: "'l solver \<Rightarrow> 'l solver \<Rightarrow> bool" where
  "ls_grow st st' \<longleftrightarrow> cg_extends (consGraph st) (consGraph st') \<and> superRel (consGraph st') = superRel (consGraph st) \<and>
     (\<forall>k s d. edge (consGraph st) k s d \<longrightarrow> edge (consGraph st') k s d) \<and>
     (\<forall>k s d. workKind k \<longrightarrow> edge (consGraph st') k s d \<longrightarrow> edge (consGraph st) k s d) \<and>
     (\<forall>n < getNodeNum (consGraph st). ptsVec st' ! n = ptsVec st ! n) \<and>
     (\<forall>d. set (handledGEPMap st d) \<subseteq> set (handledGEPMap st' d)) \<and> lsWorkList st' = lsWorkList st"

lemma ls_growD:
  assumes "ls_grow st st'"
  shows "cg_extends (consGraph st) (consGraph st')" "superRel (consGraph st') = superRel (consGraph st)"
    "edge (consGraph st) k s d \<Longrightarrow> edge (consGraph st') k s d"
    "workKind k \<Longrightarrow> edge (consGraph st') k s d \<longleftrightarrow> edge (consGraph st) k s d"
    "n < getNodeNum (consGraph st) \<Longrightarrow> ptsVec st' ! n = ptsVec st ! n"
    "set (handledGEPMap st d) \<subseteq> set (handledGEPMap st' d)" "lsWorkList st' = lsWorkList st"
    "getNodeNum (consGraph st) \<le> getNodeNum (consGraph st')"
    "n < getNodeNum (consGraph st) \<Longrightarrow> cgKind (cgNode (consGraph st') n) = cgKind (cgNode (consGraph st) n)"
    "obj < length (objVec (consGraph st)) \<Longrightarrow> objVec (consGraph st') ! obj = objVec (consGraph st) ! obj"
    "length (objVec (consGraph st)) \<le> length (objVec (consGraph st'))"
  using assms by (auto simp: ls_grow_def cg_extends_def nth_append)

lemma ls_grow_refl: "ls_grow st st"
  by (simp add: ls_grow_def)

lemma ls_grow_trans:
  assumes "ls_grow st st1" and "ls_grow st1 st2"
  shows "ls_grow st st2"
proof -
  note one = ls_growD [OF assms(1)] and two = ls_growD [OF assms(2)]
  have "n < getNodeNum (consGraph st1)" if "n < getNodeNum (consGraph st)" for n using that one(8) by simp
  moreover have "set (handledGEPMap st d) \<subseteq> set (handledGEPMap st2 d)" for d using one(6) two(6) by blast
  ultimately show ?thesis
    unfolding ls_grow_def using cg_extends_trans [OF one(1) two(1)] one(2-5,7) two(2-5,7) by auto
qed

lemma pinned_grow: "ls_grow st st' \<Longrightarrow> pinned (consGraph st') d \<longleftrightarrow> pinned (consGraph st) d"
  using ls_growD(4) [of st st' COffset] ls_growD(4) [of st st' CSpecial] by (simp add: pinned_def workKind_def)

lemma ls_carries:
  assumes "ls_grow st st'" and "cg_ok (consGraph st)" and "cg_ok (consGraph st')"
  shows "carries (consGraph st) (consGraph st')"
    "n < getNodeNum (consGraph st) \<Longrightarrow> rep (consGraph st') n = rep (consGraph st) n"
  using carries_extends [OF assms(2,3)] cg_extends_rep [OF assms(2,3)] ls_growD(1,3) [OF assms(1)] by blast+

lemma sat_node_grow:
  assumes grow: "ls_grow st st'" and wf: "graph_wf (consGraph st, ptsVec st)" and ok': "cg_ok (consGraph st')"
    and n: "n < getNodeNum (consGraph st)" and sat: "sat_node L (consGraph st) (ptsVec st) (handledGEPMap st) n"
  shows "sat_node L (consGraph st') (ptsVec st') (handledGEPMap st') n"
proof -
  let ?g = "consGraph st" and ?g' = "consGraph st'"
  note G = ls_growD [OF grow]
  from wf have ok: "cg_ok ?g" and p: "pts_wf ?g (ptsVec st)" by (simp_all add: graph_wf_def)
  note car = ls_carries(1) [OF grow ok ok']
  have E: "edge ?g' k s d \<longleftrightarrow> edge ?g k s d" if "k \<in> {CLoad, CStore, CSpecial, COffset}" for k s d
    using G(4) [of k s d] that by (auto simp: workKind_def)
  have obj: "obj < length (objVec ?g) \<and> objVec ?g ! obj < getNodeNum ?g" if "obj \<in> set (ptsVec st ! n)" for obj
  proof -
    have "obj < length (objVec ?g)" using p n that by (auto simp: pts_wf_def)
    then show ?thesis using cg_okD(3) [OF ok] by (auto simp: objs_ok_def)
  qed
  have L: "linked ?g' a b" if "linked ?g a b" "a < getNodeNum ?g" "b < getNodeNum ?g" for a b
    using linked_carries [OF ok ok' car that(2,3,1)] .
  show ?thesis
    unfolding sat_node_def G(5) [OF n]
  proof (intro conjI allI impI ballI)
    show "linked ?g' (objVec ?g' ! obj) d" if "edge ?g' CLoad n d" and o: "obj \<in> set (ptsVec st ! n)" for d obj
    proof -
      from that(1) have e: "edge ?g CLoad n d" by (simp add: E)
      with sat o have "linked ?g (objVec ?g ! obj) d" unfolding sat_node_def by blast
      then show ?thesis using L obj [OF o] edgeD(2) [OF ok e] G(10) by simp
    qed
    show "linked ?g' s (objVec ?g' ! obj)" if "edge ?g' CStore s n" and o: "obj \<in> set (ptsVec st ! n)" for s obj
    proof -
      from that(1) have e: "edge ?g CStore s n" by (simp add: E)
      with sat o have "linked ?g s (objVec ?g ! obj)" unfolding sat_node_def by blast
      then show ?thesis using L obj [OF o] edgeD(1) [OF ok e] G(10) by simp
    qed
    show "case x of (a, b, k) \<Rightarrow> a < getNodeNum ?g' \<and> b < getNodeNum ?g' \<and> consSrc ?g' k a < getNodeNum ?g' \<and>
        linked ?g' (consSrc ?g' k a) b"
      if "edge ?g' CSpecial n d" "obj \<in> set (ptsVec st ! n)" "x \<in> set (lmProcessSpecial L obj n d)" for d obj x
    proof -
      obtain a b k where x: "x = (a, b, k)" by (cases x)
      from that(1) have "edge ?g CSpecial n d" by (simp add: E)
      then have "\<forall>obj \<in> set (ptsVec st ! n). \<forall>(a, b, k) \<in> set (lmProcessSpecial L obj n d).
        a < getNodeNum ?g \<and> b < getNodeNum ?g \<and> consSrc ?g k a < getNodeNum ?g \<and> linked ?g (consSrc ?g k a) b"
        using sat unfolding sat_node_def by blast
      then have "a < getNodeNum ?g" "b < getNodeNum ?g" "consSrc ?g k a < getNodeNum ?g" "linked ?g (consSrc ?g k a) b"
        using that(2,3) x by blast+
      then show ?thesis using L [of "consSrc ?g k a" b] G(8) by (auto simp: x consSrc_def)
    qed
    show "set (ptsVec st ! n) \<subseteq> set (handledGEPMap st' d)" if "edge ?g' COffset n d" for d
    proof -
      from that have "edge ?g COffset n d" by (simp add: E)
      then show ?thesis using sat G(6) [of d] unfolding sat_node_def by blast
    qed
  qed
qed

lemma gep_grow:
  assumes grow: "ls_grow st st'" and ok: "cg_ok (consGraph st)" and ok': "cg_ok (consGraph st')"
    and gep: "gep_ok field l (consGraph st) (ptsVec st) H"
    and field: "\<And>obj v x. field l obj v = Some x \<Longrightarrow> field l' obj v = Some x"
  shows "gep_ok field l' (consGraph st') (ptsVec st') H"
  unfolding gep_ok_def
proof (intro allI conjI ballI impI)
  let ?g = "consGraph st" and ?g' = "consGraph st'"
  note G = ls_growD [OF grow] and car = ls_carries(1) [OF grow ok ok']
  show "bv (H d)" for d using gep by (simp add: gep_ok_def)
  fix d obj assume o: "obj \<in> set (H d)"
  with gep obtain s where s: "edge ?g COffset s d" and obj: "obj < length (objVec ?g)" unfolding gep_ok_def by blast
  have d: "d < getNodeNum ?g" using edgeD(2) [OF ok s] .
  show "obj < length (objVec ?g')" using obj G(11) by simp
  show "\<exists>s. edge ?g' COffset s d" using G(3) [OF s] by blast
  fix v assume "cgKind (cgNode ?g' d) = PtrNode (Some v)"
  then have "cgKind (cgNode ?g d) = PtrNode (Some v)" using G(9) [OF d] by simp
  with gep o obtain r where r: "field l obj v = Some r"
    "\<And>f. r = Some f \<Longrightarrow> f < length (objVec ?g) \<and> (linked ?g (Suc (objVec ?g ! f)) d \<or> f \<in> set (ptsVec st ! d))"
    unfolding gep_ok_def by blast
  have "f < length (objVec ?g') \<and> (linked ?g' (Suc (objVec ?g' ! f)) d \<or> f \<in> set (ptsVec st' ! d))" if f: "r = Some f" for f
  proof -
    from r(2) [OF f] have fl: "f < length (objVec ?g)"
      and or: "linked ?g (Suc (objVec ?g ! f)) d \<or> f \<in> set (ptsVec st ! d)" by blast+
    have "Suc (objVec ?g ! f) < getNodeNum ?g" using fl cg_okD(3) [OF ok] by (simp add: objs_ok_def)
    then show ?thesis using or fl linked_carries [OF ok ok' car _ d] G(5) [OF d] G(10) [OF fl] G(11) by auto
  qed
  with field [OF r(1)] show "\<exists>r. field l' obj v = Some r \<and>
    (\<forall>f. r = Some f \<longrightarrow> f < length (objVec ?g') \<and> (linked ?g' (Suc (objVec ?g' ! f)) d \<or> f \<in> set (ptsVec st' ! d)))" by blast
qed

section \<open>The invariant\<close>

text \<open>A copy edge waits for the next round; \<open>M\<close> is the number of nodes at the start of the phase.\<close>

definition recorded :: "('l, 'm) lang_model_scheme \<Rightarrow> nat \<Rightarrow> 'l solver \<Rightarrow> nat \<Rightarrow> nat \<Rightarrow> bool" where
  "recorded L M st s d \<longleftrightarrow> d < M \<and> \<not> targetList st ! d \<and> (s < M \<longrightarrow> \<not> copyWorkList st ! s) \<and>
     hashEdge L s d \<in> set (requiredEdge st)"

definition quiet :: "'l solver \<Rightarrow> bool" where
  "quiet st \<longleftrightarrow> list_all (\<lambda>b. b) (copyWorkList st) \<and> list_all (\<lambda>b. b) (targetList st) \<and> requiredEdge st = []"

definition progress :: "'l solver \<Rightarrow> 'l solver \<Rightarrow> bool" where
  "progress st0 st \<longleftrightarrow> getNodeNum (consGraph st0) < getNodeNum (consGraph st) \<or>
     (\<exists>k s d. edge (consGraph st) k s d \<and> \<not> edge (consGraph st0) k s d) \<or>
     (\<exists>d obj. obj \<in> set (handledGEPMap st d) \<and> obj \<notin> set (handledGEPMap st0 d))"

definition ls_inv ::
  "'l lang_model \<Rightarrow> ('l \<Rightarrow> nat \<Rightarrow> llvm_value \<Rightarrow> nat option option) \<Rightarrow> ('l \<Rightarrow> nat \<Rightarrow> nat list \<Rightarrow> bool) \<Rightarrow>
   'l solver \<Rightarrow> (nat \<Rightarrow> nat list) \<Rightarrow> 'l solver \<Rightarrow> bool" where
  "ls_inv L field Inv st0 H st \<longleftrightarrow>
     graph_wf (consGraph st, ptsVec st) \<and> ssa_ok L (consGraph st) \<and>
     Inv (langModel st) (getNodeNum (consGraph st)) (objVec (consGraph st)) \<and>
     gep_ok field (langModel st) (consGraph st) (ptsVec st) H \<and>
     lists_ok (getNodeNum (consGraph st0)) st \<and> ls_grow st0 st \<and>
     (\<forall>s d. edge (consGraph st) CCopy s d \<longrightarrow> set (ptsVec st ! s) \<subseteq> set (ptsVec st ! d) \<or>
        recorded L (getNodeNum (consGraph st0)) st s d) \<and>
     (quiet st \<or> (progress st0 st \<and>
        (\<not> list_all (\<lambda>b. b) (copyWorkList st) \<or> getNodeNum (consGraph st0) < getNodeNum (consGraph st))))"

lemma progress_grow: "progress st0 st \<Longrightarrow> ls_grow st st' \<Longrightarrow> progress st0 st'"
  unfolding progress_def using ls_growD(3,6,8) [of st st'] by (meson order_less_le_trans subsetD)

lemma record_fields [simp]:
  "consGraph (recordCopyEdge L s d st) = consGraph st" "ptsVec (recordCopyEdge L s d st) = ptsVec st"
  "langModel (recordCopyEdge L s d st) = langModel st" "handledGEPMap (recordCopyEdge L s d st) = handledGEPMap st"
  "lsWorkList (recordCopyEdge L s d st) = lsWorkList st"
  "length (copyWorkList (recordCopyEdge L s d st)) = length (copyWorkList st)"
  "length (targetList (recordCopyEdge L s d st)) = length (targetList st)"
  by (simp_all add: recordCopyEdge_def)

lemma record_recorded:
  assumes "lists_ok M st"
  shows "recorded L M st a b \<Longrightarrow> recorded L M (recordCopyEdge L s d st) a b"
    "d < M \<Longrightarrow> recorded L M (recordCopyEdge L s d st) s d"
  using assms by (auto simp: recorded_def recordCopyEdge_def lists_ok_def nth_list_update)

text \<open>A copy edge may go into a node unless it is pinned and the edge carries no address.\<close>

lemma ssa_add:
  assumes ssa: "ssa_ok L g" and same: "same_nodes g g'"
    and e: "\<And>k s d. edge g' k s d \<longleftrightarrow> edge g k s d \<or> (new \<and> k = CCopy \<and> s = x \<and> d = y)"
    and y: "pinned g y \<Longrightarrow> addrNode g x" and ok: "cg_ok g"
  shows "ssa_ok L g'"
proof -
  have pin: "pinned g' d = pinned g d" for d by (simp add: pinned_def e)
  have small: "d < getNodeNum g" if "edge g k s d" for k s d using edgeD(2) [OF ok that] .
  have kind: "cgKind (cgNode g' n) = cgKind (cgNode g n)" if "n < getNodeNum g" for n
    using same that by (simp add: same_nodes_def)
  have pk: "cgKind (cgNode g' d) = cgKind (cgNode g d)" if "pinned g d" for d
    using that small kind by (auto simp: pinned_def)
  show ?thesis
    unfolding ssa_ok_def pin same_nodes_superRel [OF same] same_nodes_addr [OF same]
  proof (intro conjI allI impI)
    show "\<not> isObjKind (cgKind (cgNode g' d))" "(n, d) \<notin> superRel g" if "pinned g d" for d n
      using ssa that pk [OF that] by (auto simp: ssa_ok_def)
    show "addrNode g s" if "pinned g d" "edge g' CCopy s d" for s d
      using ssa y that by (auto simp: ssa_ok_def e)
    show "\<not> pinned g d" "\<not> addrNode g d" if "edge g' CLoad s d" for s d
      using ssa that unfolding ssa_ok_def e by auto
    show "\<exists>v. cgKind (cgNode g' d) = PtrNode (Some v) \<and> lmIsInstruction L v" if "edge g' COffset s d" for s d
    proof -
      from that have "edge g COffset s d" by (simp add: e)
      moreover from this have "cgKind (cgNode g' d) = cgKind (cgNode g d)" using kind small by blast
      ultimately show ?thesis using ssa unfolding ssa_ok_def by auto
    qed
  qed
qed

text \<open>One constraint is added, and recorded if it is new or there is progress anyway.\<close>

lemma addCons_core:
  assumes ok: "cg_ok g" and ab: "a < getNodeNum g" "b < getNodeNum g" and k: "k = CCopy \<or> k = CAddrOf" and b: "\<not> addrNode g b"
    and obj: "k = CAddrOf \<Longrightarrow> isObjKind (cgKind (cgNode g a))"
  shows "\<exists>ev g' new. addConstraints a b k g = Inr (ev, g') \<and> cg_ok g' \<and> cg_extends g g' \<and> same_nodes g g' \<and>
    (\<forall>j x y. edge g' j x y \<longleftrightarrow> edge g j x y \<or> (new \<and> j = CCopy \<and> x = rep g (consSrc g k a) \<and> y = rep g b)) \<and>
    (if new \<and> \<not> edge g CCopy (rep g (consSrc g k a)) (rep g b) then ev = Some (rep g (consSrc g k a), rep g b, CCopy) else ev = None) \<and>
    linked g' (consSrc g k a) b \<and> consSrc g k a < getNodeNum g"
proof -
  let ?a = "consSrc g k a" and ?new = "\<not> blocked g (consSrc g k a) b CCopy"
  have k': "consKind k = CCopy" using k by (auto simp: consKind_def)
  have a: "?a < getNodeNum g" using ab obj object_addr(1) [OF ok ab(1)] by (auto simp: consSrc_def)
  from addConstraints_ok [OF ok ab, of k] b obj obtain ev g' where g': "addConstraints a b k g = Inr (ev, g')" "cg_ok g'"
    "same_nodes g g'" "\<forall>j x y. edge g' j x y \<longleftrightarrow> edge g j x y \<or> (?new \<and> j = CCopy \<and> x = rep g ?a \<and> y = rep g b)"
    "ev = (if ?new \<and> \<not> edge g CCopy (rep g ?a) (rep g b) then Some (rep g ?a, rep g b, CCopy) else None)"
    "\<forall>n. indirectNodes (cgNode g' n) = indirectNodes (cgNode g n)" unfolding k' by auto
  have "cg_extends g g'" using g'(3,6) by (simp add: cg_extends_def same_nodes_def)
  moreover have "linked g' ?a b"
  proof -
    have r: "rep g' ?a = rep g ?a" "rep g' b = rep g b"
      using same_nodes_rep [OF g'(3) cg_okD(2) [OF ok]] a ab(2) by simp_all
    have im: "isImmutable (cgNode g' (rep g b)) = isImmutable (cgNode g (rep g b))"
      using g'(3) rep_less [OF ok ab(2)] by (simp add: same_nodes_def)
    show ?thesis
    proof (cases ?new)
      case True
      then have "edge g' CCopy (rep g ?a) (rep g b)" using g'(4) by blast
      then show ?thesis by (simp add: linked_def r)
    next
      case False
      then show ?thesis by (auto simp: linked_def r im blocked_def immutable_rep [OF ok ab(2)])
    qed
  qed
  ultimately show ?thesis using g' a by (intro exI [of _ ev] exI [of _ g'] exI [of _ ?new]) (simp split: if_splits)
qed

lemma ls_inv_edge:
  assumes inv: "ls_inv L field Inv st0 H st"
    and g': "cg_ok g'" "cg_extends (consGraph st) g'" "same_nodes (consGraph st) g'"
      "\<forall>j s d. edge g' j s d \<longleftrightarrow> edge (consGraph st) j s d \<or> (new \<and> j = CCopy \<and> s = x \<and> d = y)"
    and x: "x < getNodeNum (consGraph st)" and y: "y < getNodeNum (consGraph st0)"
    and pin: "pinned (consGraph st) y \<Longrightarrow> addrNode (consGraph st) x"
    and st': "st' = (if r then recordCopyEdge L x y (st\<lparr> consGraph := g' \<rparr>) else st\<lparr> consGraph := g' \<rparr>)"
    and r: "r \<Longrightarrow> (new \<and> \<not> edge (consGraph st) CCopy x y) \<or> progress st0 st" "\<not> r \<Longrightarrow> \<not> new \<or> edge (consGraph st) CCopy x y"
  shows "ls_inv L field Inv st0 H st'" "ls_grow st st'"
proof -
  let ?g = "consGraph st" and ?M = "getNodeNum (consGraph st0)"
  from inv have wf: "graph_wf (?g, ptsVec st)" and ssa: "ssa_ok L ?g" and Inv: "Inv (langModel st) (getNodeNum ?g) (objVec ?g)"
    and gep: "gep_ok field (langModel st) ?g (ptsVec st) H" and l: "lists_ok ?M st" and grow0: "ls_grow st0 st"
    and edges: "\<And>s d. edge ?g CCopy s d \<Longrightarrow> set (ptsVec st ! s) \<subseteq> set (ptsVec st ! d) \<or> recorded L ?M st s d"
    and q: "quiet st \<or> (progress st0 st \<and> (\<not> list_all (\<lambda>b. b) (copyWorkList st) \<or> ?M < getNodeNum ?g))"
    unfolding ls_inv_def by blast+
  have F: "consGraph st' = g'" "ptsVec st' = ptsVec st" "langModel st' = langModel st" "handledGEPMap st' = handledGEPMap st"
    "lsWorkList st' = lsWorkList st" by (simp_all add: st')
  have num: "getNodeNum g' = getNodeNum ?g" "objVec g' = objVec ?g" using g'(3) by (simp_all add: same_nodes_def)
  from wf have ok: "cg_ok ?g" and p: "pts_wf ?g (ptsVec st)" by (simp_all add: graph_wf_def)
  show grow: "ls_grow st st'"
    unfolding ls_grow_def F using g'(2,4) same_nodes_superRel [OF g'(3)] by (auto simp: workKind_def)
  have wf': "graph_wf (g', ptsVec st)" using g'(1) pts_wf_same [OF p num] by (simp add: graph_wf_def)
  have ssa': "ssa_ok L g'" using ssa_add [OF ssa g'(3) _ pin ok, of new] g'(4) by blast
  have gep': "gep_ok field (langModel st) g' (ptsVec st) H"
    using gep_grow [OF grow ok _ gep] g'(1) unfolding F by blast
  have l': "lists_ok ?M st'" using l by (simp add: lists_ok_def st')
  have l1: "lists_ok ?M (st\<lparr> consGraph := g' \<rparr>)" using l by (simp add: lists_ok_def)
  have rec: "recorded L ?M st a b \<Longrightarrow> recorded L ?M st' a b" for a b
    using record_recorded(1) [OF l1, of L a b x y] by (cases r) (simp_all add: st' recorded_def)
  have edges': "set (ptsVec st ! s) \<subseteq> set (ptsVec st ! d) \<or> recorded L ?M st' s d" if "edge g' CCopy s d" for s d
  proof (cases "edge ?g CCopy s d")
    case True
    then show ?thesis using edges rec by blast
  next
    case False
    then have sd: "new" "s = x" "d = y" using that g'(4) by blast+
    then have r using r(2) False by blast
    then have "recorded L ?M st' x y" using record_recorded(2) [OF l1 y, of L x] by (simp add: st')
    then show ?thesis using sd by simp
  qed
  have q': "quiet st' \<or> (progress st0 st' \<and> (\<not> list_all (\<lambda>b. b) (copyWorkList st') \<or> ?M < getNodeNum g'))"
  proof (cases r)
    case True
    have "progress st0 st'"
      using r(1) [OF True]
    proof
      assume n: "new \<and> \<not> edge ?g CCopy x y"
      then have "edge g' CCopy x y" "\<not> edge (consGraph st0) CCopy x y" using g'(4) ls_growD(3) [OF grow0] by blast+
      then show ?thesis unfolding progress_def F by blast
    next
      assume "progress st0 st"
      then show ?thesis using progress_grow grow by blast
    qed
    moreover have "\<not> list_all (\<lambda>b. b) (copyWorkList st') \<or> ?M < getNodeNum g'"
    proof (cases "x < ?M")
      case x': True
      then have "x < length (copyWorkList st')" "\<not> copyWorkList st' ! x"
        using True l by (simp_all add: st' recordCopyEdge_def lists_ok_def)
      then show ?thesis by (auto simp: list_all_length)
    next
      case False
      then show ?thesis using x num by simp
    qed
    ultimately show ?thesis by blast
  next
    case False
    then have "quiet st' = quiet st" "copyWorkList st' = copyWorkList st" by (simp_all add: st' quiet_def)
    then show ?thesis using q progress_grow [OF _ grow] num by auto
  qed
  show "ls_inv L field Inv st0 H st'"
    unfolding ls_inv_def F num
    using wf' ssa' Inv gep' l' ls_grow_trans [OF grow0 grow] edges' q' num by simp
qed

section \<open>Loads, stores and special constraints\<close>

lemma ls_invD:
  assumes "ls_inv L field Inv st0 H st"
  shows "graph_wf (consGraph st, ptsVec st)" "cg_ok (consGraph st)" "pts_wf (consGraph st) (ptsVec st)" "ssa_ok L (consGraph st)"
    "Inv (langModel st) (getNodeNum (consGraph st)) (objVec (consGraph st))" "ls_grow st0 st"
    "lists_ok (getNodeNum (consGraph st0)) st"
    "gep_ok field (langModel st) (consGraph st) (ptsVec st) H"
  using assms by (simp_all add: ls_inv_def graph_wf_def)

lemma object_node:
  assumes "cg_ok g" and "obj < length (objVec g)"
  shows "objVec g ! obj < getNodeNum g" "\<not> addrNode g (objVec g ! obj)" "isObjKind (cgKind (cgNode g (objVec g ! obj)))"
    "getObjectNode g obj = Inr (objVec g ! obj)" "Suc (objVec g ! obj) < getNodeNum g"
proof -
  have o: "objs_ok g" using cg_okD(3) [OF assms(1)] .
  then show s: "objVec g ! obj < getNodeNum g" "Suc (objVec g ! obj) < getNodeNum g" using assms(2) by (auto simp: objs_ok_def)
  have k: "cgKind (cgNode g (objVec g ! obj)) = ObjNode obj" using o assms(2) by (simp add: objs_ok_def)
  then show "isObjKind (cgKind (cgNode g (objVec g ! obj)))" by (simp add: isObjKind_def)
  show "\<not> addrNode g (objVec g ! obj)" using o k by (auto simp: addrNode_def objs_ok_def)
  show "getObjectNode g obj = Inr (objVec g ! obj)" using assms(2) by (simp add: getObjectNode_def)
qed

text \<open>The representative of an object is not pinned.\<close>

lemma object_not_pinned:
  assumes ok: "cg_ok g" and ssa: "ssa_ok L g" and obj: "obj < length (objVec g)"
  shows "\<not> pinned g (rep g (objVec g ! obj))"
proof
  let ?o = "objVec g ! obj"
  assume p: "pinned g (rep g ?o)"
  note O = object_node [OF ok obj]
  have "rep g ?o \<noteq> ?o" using p ssa O(3) by (auto simp: ssa_ok_def)
  moreover have "(?o, rep g ?o) \<in> (superRel g)\<^sup>*" using getSuperNode_rep(4) [OF cg_okD(2) [OF ok] O(1)] .
  ultimately obtain m where "(m, rep g ?o) \<in> superRel g" by (metis rtranclE)
  then show False using p ssa by (auto simp: ssa_ok_def)
qed

lemma linked_grow:
  assumes "ls_grow st st'" and "cg_ok (consGraph st)" and "cg_ok (consGraph st')" and "a < getNodeNum (consGraph st)"
    and "b < getNodeNum (consGraph st)" and "linked (consGraph st) a b"
  shows "linked (consGraph st') a b"
  using linked_carries [OF assms(2,3) ls_carries(1) [OF assms(1-3)] assms(4-6)] .

lemma ls_add:
  assumes inv: "ls_inv L field Inv st0 H st" and ok0: "cg_ok (consGraph st0)"
    and a: "a < getNodeNum (consGraph st)" and b: "b < getNodeNum (consGraph st0)" "\<not> addrNode (consGraph st) b"
    and k: "k = CCopy \<or> k = CAddrOf" and obj: "k = CAddrOf \<Longrightarrow> isObjKind (cgKind (cgNode (consGraph st) a))"
    and pin: "pinned (consGraph st) (rep (consGraph st) b) \<Longrightarrow> addrNode (consGraph st) (consSrc (consGraph st) k a)"
    and x: "x = rep (consGraph st) (consSrc (consGraph st) k a)" and y: "y = rep (consGraph st) b"
  shows "\<exists>ev g'. addCons a b k st = Inr (ev, st\<lparr> consGraph := g' \<rparr>) \<and> (ev = None \<or> ev = Some (x, y, CCopy)) \<and>
    linked g' (consSrc g' k a) b \<and> same_nodes (consGraph st) g' \<and> consSrc g' k a < getNodeNum g' \<and>
    (\<forall>r. (ev \<noteq> None \<longrightarrow> r) \<longrightarrow> (r \<longrightarrow> ev \<noteq> None \<or> progress st0 st) \<longrightarrow>
       ls_inv L field Inv st0 H (if r then recordCopyEdge L x y (st\<lparr> consGraph := g' \<rparr>) else st\<lparr> consGraph := g' \<rparr>) \<and>
       ls_grow st (if r then recordCopyEdge L x y (st\<lparr> consGraph := g' \<rparr>) else st\<lparr> consGraph := g' \<rparr>))"
proof -
  let ?g = "consGraph st"
  note I = ls_invD [OF inv]
  have b': "b < getNodeNum ?g" using b(1) ls_growD(8) [OF I(6)] by simp
  from addCons_core [OF I(2) a b' k b(2) obj] obtain ev g' new where
    g': "addConstraints a b k ?g = Inr (ev, g')" "cg_ok g'" "cg_extends ?g g'" "same_nodes ?g g'"
      "\<forall>j s d. edge g' j s d \<longleftrightarrow> edge ?g j s d \<or> (new \<and> j = CCopy \<and> s = x \<and> d = y)"
    and ev: "if new \<and> \<not> edge ?g CCopy x y then ev = Some (x, y, CCopy) else ev = None"
    and src: "linked g' (consSrc ?g k a) b" "consSrc ?g k a < getNodeNum ?g" unfolding x y by blast
  have c: "consSrc g' k a = consSrc ?g k a" by (simp add: consSrc_def)
  have xN: "x < getNodeNum ?g" using rep_less [OF I(2) src(2)] x by simp
  have yN: "y < getNodeNum (consGraph st0)"
    using ls_carries(2) [OF I(6) ok0 I(2) b(1)] rep_less [OF ok0 b(1)] y by simp
  have pin': "addrNode ?g x" if "pinned ?g y"
    using pin that x y rep_addr [OF I(2) src(2)] by simp
  have r1: "(new \<and> \<not> edge ?g CCopy x y) \<or> progress st0 st" if "r \<longrightarrow> ev \<noteq> None \<or> progress st0 st" "r" for r
    using that ev by (auto split: if_splits)
  have r2: "\<not> new \<or> edge ?g CCopy x y" if "ev \<noteq> None \<longrightarrow> r" "\<not> r" for r
    using that ev by (auto split: if_splits)
  have "addCons a b k st = Inr (ev, st\<lparr> consGraph := g' \<rparr>)" using g'(1) by (simp add: addCons_def)
  moreover have "ev = None \<or> ev = Some (x, y, CCopy)" using ev by (auto split: if_splits)
  moreover have "consSrc g' k a < getNodeNum g'" using src(2) g'(4) by (simp add: same_nodes_def c)
  moreover have "ls_inv L field Inv st0 H (if r then recordCopyEdge L x y (st\<lparr> consGraph := g' \<rparr>) else st\<lparr> consGraph := g' \<rparr>) \<and>
       ls_grow st (if r then recordCopyEdge L x y (st\<lparr> consGraph := g' \<rparr>) else st\<lparr> consGraph := g' \<rparr>)"
    if "ev \<noteq> None \<longrightarrow> r" "r \<longrightarrow> ev \<noteq> None \<or> progress st0 st" for r
    using ls_inv_edge [OF inv g'(2-5) xN yN pin' refl r1 r2, of r] that by blast
  ultimately show ?thesis using src(1) g'(4) c by (intro exI [of _ ev] exI [of _ g']) simp
qed

text \<open>A loop whose steps keep the invariant and establish what stays true.\<close>

lemma ls_fold:
  assumes step: "\<And>x st. x \<in> set xs \<Longrightarrow> I st \<Longrightarrow> \<exists>st'. f x st = Inr st' \<and> I st' \<and> ls_grow st st' \<and> Q x st'"
    and mono: "\<And>x st st'. x \<in> set xs \<Longrightarrow> Q x st \<Longrightarrow> I st \<Longrightarrow> I st' \<Longrightarrow> ls_grow st st' \<Longrightarrow> Q x st'" and I: "I st"
  shows "\<exists>st'. rfold f xs st = Inr st' \<and> I st' \<and> ls_grow st st' \<and> (\<forall>x \<in> set xs. Q x st')"
  using assms
proof (induction xs arbitrary: st)
  case (Cons x xs)
  from Cons.prems(1) [of x] Cons.prems(3) obtain st1 where st1: "f x st = Inr st1" "I st1" "ls_grow st st1" "Q x st1" by auto
  have "\<exists>st'. rfold f xs st1 = Inr st' \<and> I st' \<and> ls_grow st1 st' \<and> (\<forall>x \<in> set xs. Q x st')"
    by (rule Cons.IH [OF _ _ st1(2)]) (use Cons.prems(1,2) in auto)
  then obtain st2 where st2: "rfold f xs st1 = Inr st2" "I st2" "ls_grow st1 st2" "\<forall>x \<in> set xs. Q x st2" by blast
  have "Q x st2" using Cons.prems(2) [of x st1 st2] st1 st2 by simp
  then show ?case using st1(1) st2 ls_grow_trans [OF st1(3) st2(3)] by simp
qed (simp add: ls_grow_refl)

abbreviation ls_ok ::
  "'l lang_model \<Rightarrow> ('l \<Rightarrow> nat \<Rightarrow> llvm_value \<Rightarrow> nat option option) \<Rightarrow> ('l \<Rightarrow> nat \<Rightarrow> nat list \<Rightarrow> bool) \<Rightarrow>
   'l solver \<Rightarrow> 'l solver \<Rightarrow> bool" where
  "ls_ok L field Inv st0 st \<equiv> ls_inv L field Inv st0 (handledGEPMap st) st"

lemma ls_objects:
  assumes inv: "ls_inv L field Inv st0 H st" and wf0: "graph_wf (consGraph st0, ptsVec st0)"
    and n: "n < getNodeNum (consGraph st0)"
  shows "ptsElems n (ptsVec st) = Inr (ptsVec st0 ! n)" "ptsGet n (ptsVec st) = Inr (ptsVec st0 ! n)"
    "obj \<in> set (ptsVec st0 ! n) \<Longrightarrow> obj < length (objVec (consGraph st0))" "bv (ptsVec st0 ! n)"
proof -
  note I = ls_invD [OF inv]
  have n': "n < length (ptsVec st)" using I(3) n ls_growD(8) [OF I(6)] by (simp add: pts_wf_def)
  have same: "ptsVec st ! n = ptsVec st0 ! n" using ls_growD(5) [OF I(6) n] .
  have p0: "pts_wf (consGraph st0) (ptsVec st0)" using wf0 by (simp add: graph_wf_def)
  show "obj \<in> set (ptsVec st0 ! n) \<Longrightarrow> obj < length (objVec (consGraph st0))" "bv (ptsVec st0 ! n)"
    using p0 n by (auto simp: pts_wf_def)
  have "(case ptsVec st0 ! n of [] \<Rightarrow> 0 | i # _ \<Rightarrow> i) < length (ptsVec st)"
  proof (cases "ptsVec st0 ! n")
    case (Cons i rest)
    then have "i < length (objVec (consGraph st))" using I(3) n' same by (auto simp: pts_wf_def)
    then show ?thesis using Cons objVec_le [OF cg_okD(3) [OF I(2)]] I(3) by (simp add: pts_wf_def)
  qed (use n' in auto)
  then show "ptsElems n (ptsVec st) = Inr (ptsVec st0 ! n)" "ptsGet n (ptsVec st) = Inr (ptsVec st0 ! n)"
    using n' by (simp_all add: ptsElems_def ptsGet_def inPts_def same)
qed

lemma ls_edge:
  assumes inv: "ls_inv L field Inv st0 H st" and e: "edge (consGraph st0) k s d"
  shows "edge (consGraph st) k s d" "hasSuperNode (consGraph st) s = False" "hasSuperNode (consGraph st) d = False"
    "rep (consGraph st) s = s" "rep (consGraph st) d = d" "s < getNodeNum (consGraph st)" "d < getNodeNum (consGraph st)"
proof -
  note I = ls_invD [OF inv]
  show e': "edge (consGraph st) k s d" using ls_growD(3) [OF I(6) e] .
  show "hasSuperNode (consGraph st) s = False" "hasSuperNode (consGraph st) d = False"
    using edgeD(3,4) [OF I(2) e'] by (simp_all add: hasSuperNode_def)
  show "rep (consGraph st) s = s" "rep (consGraph st) d = d" using rep_edge [OF I(2) e'] .
  show "s < getNodeNum (consGraph st)" "d < getNodeNum (consGraph st)" using edgeD(1,2) [OF I(2) e'] .
qed

lemma loadObject_ok:
  assumes inv: "ls_ok L field Inv st0 st" and wf0: "graph_wf (consGraph st0, ptsVec st0)"
    and e: "edge (consGraph st0) CLoad n d" and obj: "obj < length (objVec (consGraph st0))"
  shows "\<exists>st'. loadObject L d obj st = Inr st' \<and> ls_ok L field Inv st0 st' \<and> ls_grow st st' \<and>
    linked (consGraph st') (objVec (consGraph st') ! obj) d"
proof -
  let ?g = "consGraph st"
  let ?o = "objVec ?g ! obj"
  note I = ls_invD [OF inv] and E = ls_edge [OF inv e]
  from wf0 have ok0: "cg_ok (consGraph st0)" by (simp add: graph_wf_def)
  have obj': "obj < length (objVec ?g)" using obj ls_growD(11) [OF I(6)] by simp
  note O = object_node [OF I(2) obj']
  have d: "\<not> pinned ?g d" "\<not> addrNode ?g d" using I(4) E(1) by (auto simp: ssa_ok_def)
  note R = getSuperNode_rep [OF cg_okD(2) [OF I(2)] O(1)]
  have r: "rep ?g ?o < getNodeNum ?g" "rep ?g (rep ?g ?o) = rep ?g ?o" using rep_less [OF I(2) O(1)] rep_rep [OF I(2) O(1)] .
  obtain ev g' where g': "addCons (rep ?g ?o) d CCopy st = Inr (ev, st\<lparr> consGraph := g' \<rparr>)"
    "linked g' (rep ?g ?o) d" "same_nodes ?g g'" and
    keep: "\<forall>r. (ev \<noteq> None \<longrightarrow> r) \<longrightarrow> (r \<longrightarrow> ev \<noteq> None \<or> progress st0 st) \<longrightarrow>
       ls_inv L field Inv st0 (handledGEPMap st) (if r then recordCopyEdge L (rep ?g ?o) d (st\<lparr> consGraph := g' \<rparr>) else st\<lparr> consGraph := g' \<rparr>) \<and>
       ls_grow st (if r then recordCopyEdge L (rep ?g ?o) d (st\<lparr> consGraph := g' \<rparr>) else st\<lparr> consGraph := g' \<rparr>)"
    using ls_add [OF inv ok0 r(1) edgeD(2) [OF ok0 e] d(2), of CCopy "rep ?g ?o" d] r(2) E(5) d(1) by (auto simp: consSrc_def)
  let ?st' = "if ev \<noteq> None then recordCopyEdge L (rep ?g ?o) d (st\<lparr> consGraph := g' \<rparr>) else st\<lparr> consGraph := g' \<rparr>"
  have "loadObject L d obj st = Inr ?st'" using O(4) R(1) g'(1) by (simp add: loadObject_def split: option.splits)
  moreover have "ls_ok L field Inv st0 ?st'" "ls_grow st ?st'"
    using keep by (auto split: if_splits simp: ls_inv_def)
  moreover have "linked (consGraph ?st') (objVec (consGraph ?st') ! obj) d"
  proof -
    have "rep g' (rep ?g ?o) = rep g' ?o"
      using same_nodes_rep [OF g'(3) cg_okD(2) [OF I(2)]] O(1) r by simp
    then have "linked g' ?o d" using linked_cong [OF _ refl] g'(2) by blast
    then show ?thesis using g'(3) by (simp add: same_nodes_def split: if_splits)
  qed
  ultimately show ?thesis by blast
qed

lemma object_link_grow:
  assumes "ls_ok L field Inv st0 st" and "ls_ok L field Inv st0 st'" and "ls_grow st st'"
    and obj: "obj < length (objVec (consGraph st0))" and d: "d < getNodeNum (consGraph st0)"
  shows "linked (consGraph st) (objVec (consGraph st) ! obj) d \<Longrightarrow> linked (consGraph st') (objVec (consGraph st') ! obj) d"
    "linked (consGraph st) d (objVec (consGraph st) ! obj) \<Longrightarrow> linked (consGraph st') d (objVec (consGraph st') ! obj)"
proof -
  note I = ls_invD [OF assms(1)] and I' = ls_invD [OF assms(2)]
  have o: "obj < length (objVec (consGraph st))" using obj ls_growD(11) [OF I(6)] by simp
  have d': "d < getNodeNum (consGraph st)" using d ls_growD(8) [OF I(6)] by simp
  note same = ls_growD(10) [OF assms(3) o] and less = object_node(1) [OF I(2) o]
  show "linked (consGraph st) (objVec (consGraph st) ! obj) d \<Longrightarrow> linked (consGraph st') (objVec (consGraph st') ! obj) d"
    "linked (consGraph st) d (objVec (consGraph st) ! obj) \<Longrightarrow> linked (consGraph st') d (objVec (consGraph st') ! obj)"
    using linked_grow [OF assms(3) I(2) I'(2)] less d' by (simp_all add: same)
qed

lemma processLoad_ok:
  assumes inv: "ls_ok L field Inv st0 st" and wf0: "graph_wf (consGraph st0, ptsVec st0)"
    and e: "edge (consGraph st0) CLoad n d"
  shows "\<exists>st'. processLoad L n d st = Inr st' \<and> ls_ok L field Inv st0 st' \<and> ls_grow st st' \<and>
    (\<forall>obj \<in> set (ptsVec st0 ! n). linked (consGraph st') (objVec (consGraph st') ! obj) d)"
proof -
  from wf0 have ok0: "cg_ok (consGraph st0)" by (simp add: graph_wf_def)
  note E = ls_edge [OF inv e] and E0 = edgeD [OF ok0 e]
  note O = ls_objects [OF inv wf0 E0(1)]
  have "\<exists>st'. rfold (loadObject L d) (ptsVec st0 ! n) st = Inr st' \<and> ls_ok L field Inv st0 st' \<and> ls_grow st st' \<and>
    (\<forall>obj \<in> set (ptsVec st0 ! n). linked (consGraph st') (objVec (consGraph st') ! obj) d)"
  proof (rule ls_fold)
    show "\<exists>st'. loadObject L d obj st = Inr st' \<and> ls_ok L field Inv st0 st' \<and> ls_grow st st' \<and>
      linked (consGraph st') (objVec (consGraph st') ! obj) d"
      if "obj \<in> set (ptsVec st0 ! n)" "ls_ok L field Inv st0 st" for obj st
      using loadObject_ok [OF that(2) wf0 e O(3) [OF that(1)]] .
    show "linked (consGraph st') (objVec (consGraph st') ! obj) d"
      if "obj \<in> set (ptsVec st0 ! n)" "linked (consGraph st) (objVec (consGraph st) ! obj) d" "ls_ok L field Inv st0 st"
        "ls_ok L field Inv st0 st'" "ls_grow st st'" for obj st st'
      using object_link_grow(1) [OF that(3-5) O(3) [OF that(1)] E0(2) that(2)] .
  qed (rule inv)
  then show ?thesis using O(1) E(2,3) by (simp add: processLoad_def noSupers_def)
qed

lemma storeObject_ok:
  assumes inv: "ls_ok L field Inv st0 st" and wf0: "graph_wf (consGraph st0, ptsVec st0)"
    and e: "edge (consGraph st0) CStore m n" and obj: "obj < length (objVec (consGraph st0))"
  shows "\<exists>st'. storeObject L m obj st = Inr st' \<and> ls_ok L field Inv st0 st' \<and> ls_grow st st' \<and>
    linked (consGraph st') m (objVec (consGraph st') ! obj)"
proof -
  let ?g = "consGraph st"
  let ?o = "objVec ?g ! obj"
  note I = ls_invD [OF inv] and E = ls_edge [OF inv e]
  from wf0 have ok0: "cg_ok (consGraph st0)" by (simp add: graph_wf_def)
  have obj': "obj < length (objVec ?g)" using obj ls_growD(11) [OF I(6)] by simp
  note O = object_node [OF I(2) obj']
  note R = getSuperNode_rep [OF cg_okD(2) [OF I(2)] O(1)]
  have o0: "?o < getNodeNum (consGraph st0)" using object_node(1) [OF ok0 obj] ls_growD(10) [OF I(6) obj] by simp
  then have r0: "rep ?g ?o < getNodeNum (consGraph st0)"
    using rep_less [OF ok0] ls_carries(2) [OF I(6) ok0 I(2)] by simp
  have r: "rep ?g ?o < getNodeNum ?g" "rep ?g (rep ?g ?o) = rep ?g ?o" using rep_less [OF I(2) O(1)] rep_rep [OF I(2) O(1)] .
  have d: "\<not> pinned ?g (rep ?g ?o)" "\<not> addrNode ?g (rep ?g ?o)"
    using object_not_pinned [OF I(2) I(4) obj'] rep_not_addr [OF I(2) O(1) O(2)] by simp_all
  obtain ev g' where g': "addCons m (rep ?g ?o) CCopy st = Inr (ev, st\<lparr> consGraph := g' \<rparr>)"
    "linked g' m (rep ?g ?o)" "same_nodes ?g g'" and
    keep: "\<forall>r. (ev \<noteq> None \<longrightarrow> r) \<longrightarrow> (r \<longrightarrow> ev \<noteq> None \<or> progress st0 st) \<longrightarrow>
       ls_inv L field Inv st0 (handledGEPMap st) (if r then recordCopyEdge L m (rep ?g ?o) (st\<lparr> consGraph := g' \<rparr>) else st\<lparr> consGraph := g' \<rparr>) \<and>
       ls_grow st (if r then recordCopyEdge L m (rep ?g ?o) (st\<lparr> consGraph := g' \<rparr>) else st\<lparr> consGraph := g' \<rparr>)"
    using ls_add [OF inv ok0 E(6) r0 d(2), of CCopy m "rep ?g ?o"] r(2) E(4) d(1) by (auto simp: consSrc_def)
  let ?st' = "if ev \<noteq> None then recordCopyEdge L m (rep ?g ?o) (st\<lparr> consGraph := g' \<rparr>) else st\<lparr> consGraph := g' \<rparr>"
  have "storeObject L m obj st = Inr ?st'" using O(4) R(1) g'(1) by (simp add: storeObject_def split: option.splits)
  moreover have "ls_ok L field Inv st0 ?st'" "ls_grow st ?st'"
    using keep by (auto split: if_splits simp: ls_inv_def)
  moreover have "linked (consGraph ?st') m (objVec (consGraph ?st') ! obj)"
  proof -
    have "rep g' (rep ?g ?o) = rep g' ?o"
      using same_nodes_rep [OF g'(3) cg_okD(2) [OF I(2)]] O(1) r by simp
    then have "linked g' m ?o" using linked_cong [OF refl] g'(2) by blast
    then show ?thesis using g'(3) by (simp add: same_nodes_def split: if_splits)
  qed
  ultimately show ?thesis by blast
qed

lemma processStore_ok:
  assumes inv: "ls_ok L field Inv st0 st" and wf0: "graph_wf (consGraph st0, ptsVec st0)"
    and e: "edge (consGraph st0) CStore m n"
  shows "\<exists>st'. processStore L m n st = Inr st' \<and> ls_ok L field Inv st0 st' \<and> ls_grow st st' \<and>
    (\<forall>obj \<in> set (ptsVec st0 ! n). linked (consGraph st') m (objVec (consGraph st') ! obj))"
proof -
  from wf0 have ok0: "cg_ok (consGraph st0)" by (simp add: graph_wf_def)
  note E = ls_edge [OF inv e] and E0 = edgeD [OF ok0 e]
  note O = ls_objects [OF inv wf0 E0(2)]
  have "\<exists>st'. rfold (storeObject L m) (ptsVec st0 ! n) st = Inr st' \<and> ls_ok L field Inv st0 st' \<and> ls_grow st st' \<and>
    (\<forall>obj \<in> set (ptsVec st0 ! n). linked (consGraph st') m (objVec (consGraph st') ! obj))"
  proof (rule ls_fold)
    show "\<exists>st'. storeObject L m obj st = Inr st' \<and> ls_ok L field Inv st0 st' \<and> ls_grow st st' \<and>
      linked (consGraph st') m (objVec (consGraph st') ! obj)"
      if "obj \<in> set (ptsVec st0 ! n)" "ls_ok L field Inv st0 st" for obj st
      using storeObject_ok [OF that(2) wf0 e O(3) [OF that(1)]] .
    show "linked (consGraph st') m (objVec (consGraph st') ! obj)"
      if "obj \<in> set (ptsVec st0 ! n)" "linked (consGraph st) m (objVec (consGraph st) ! obj)" "ls_ok L field Inv st0 st"
        "ls_ok L field Inv st0 st'" "ls_grow st st'" for obj st st'
      using object_link_grow(2) [OF that(3-5) O(3) [OF that(1)] E0(1) that(2)] .
  qed (rule inv)
  then show ?thesis using O(1) E(2,3) by (simp add: processStore_def noSupers_def)
qed

definition special_sat :: "cons_graph \<Rightarrow> nat \<times> nat \<times> constraints \<Rightarrow> bool" where
  "special_sat g = (\<lambda>(a, b, k). a < getNodeNum g \<and> b < getNodeNum g \<and> consSrc g k a < getNodeNum g \<and> linked g (consSrc g k a) b)"

lemma special_sat_grow:
  assumes "ls_inv L field Inv st0 H st" and "ls_inv L field Inv st0 H' st'" and "ls_grow st st'" and "special_sat (consGraph st) x"
  shows "special_sat (consGraph st') x"
  using assms(4) linked_grow [OF assms(3) ls_invD(2) [OF assms(1)] ls_invD(2) [OF assms(2)]] ls_growD(8) [OF assms(3)]
  by (auto simp: special_sat_def consSrc_def)

lemma specialConstraint_ok:
  assumes inv: "ls_ok L field Inv st0 st" and wf0: "graph_wf (consGraph st0, ptsVec st0)" and ssa0: "ssa_ok L (consGraph st0)"
    and spec: "special_ok L (consGraph st0)" and e: "edge (consGraph st0) CSpecial s d"
    and obj: "obj < length (objVec (consGraph st0))" and x: "x \<in> set (lmProcessSpecial L obj s d)"
  shows "\<exists>st'. specialConstraint L x st = Inr st' \<and> ls_ok L field Inv st0 st' \<and> ls_grow st st' \<and> special_sat (consGraph st') x"
proof -
  let ?g = "consGraph st"
  obtain a b k where abk: "x = (a, b, k)" by (cases x)
  note I = ls_invD [OF inv] and E = ls_edge [OF inv e]
  from wf0 have ok0: "cg_ok (consGraph st0)" by (simp add: graph_wf_def)
  have obj': "obj < length (objVec ?g)" using obj ls_growD(11) [OF I(6)] by simp
  have old: "b < getNodeNum (consGraph st0)"
    using spec wf0 ssa0 carries_refl [OF ok0] e obj x unfolding abk special_ok_def by fast
  have "\<forall>(a, b, k) \<in> set (lmProcessSpecial L obj s d).
       a < getNodeNum ?g \<and> b < getNodeNum ?g \<and> (k = CCopy \<or> k = CAddrOf) \<and> \<not> addrNode ?g b \<and>
       (k = CAddrOf \<longrightarrow> isObjKind (cgKind (cgNode ?g a))) \<and> (k = CCopy \<longrightarrow> pinned ?g (rep ?g b) \<longrightarrow> addrNode ?g a)"
    using spec I(1,4) ls_carries(1) [OF I(6) ok0 I(2)] E(1) obj' unfolding special_ok_def by blast
  then have S: "a < getNodeNum ?g" "b < getNodeNum ?g" "k = CCopy \<or> k = CAddrOf" "\<not> addrNode ?g b"
    "k = CAddrOf \<Longrightarrow> isObjKind (cgKind (cgNode ?g a))" "k = CCopy \<Longrightarrow> pinned ?g (rep ?g b) \<Longrightarrow> addrNode ?g a"
    using x unfolding abk by blast+
  have pin: "addrNode ?g (consSrc ?g k a)" if "pinned ?g (rep ?g b)"
    using S(3) S(6) [OF _ that] object_addr(3) [OF I(2) S(1)] S(5) by (auto simp: consSrc_def)
  from ls_add [OF inv ok0 S(1) old S(4,3,5) pin refl refl] obtain ev g' where
    g': "addCons a b k st = Inr (ev, st\<lparr> consGraph := g' \<rparr>)"
      "ev = None \<or> ev = Some (rep ?g (consSrc ?g k a), rep ?g b, CCopy)" "linked g' (consSrc g' k a) b"
      "same_nodes ?g g'" "consSrc g' k a < getNodeNum g'" and
    keep: "\<forall>r. (ev \<noteq> None \<longrightarrow> r) \<longrightarrow> (r \<longrightarrow> ev \<noteq> None \<or> progress st0 st) \<longrightarrow>
       ls_inv L field Inv st0 (handledGEPMap st) (if r then recordCopyEdge L (rep ?g (consSrc ?g k a)) (rep ?g b) (st\<lparr> consGraph := g' \<rparr>)
         else st\<lparr> consGraph := g' \<rparr>) \<and>
       ls_grow st (if r then recordCopyEdge L (rep ?g (consSrc ?g k a)) (rep ?g b) (st\<lparr> consGraph := g' \<rparr>)
         else st\<lparr> consGraph := g' \<rparr>)" by blast
  let ?st' = "if ev \<noteq> None then recordCopyEdge L (rep ?g (consSrc ?g k a)) (rep ?g b) (st\<lparr> consGraph := g' \<rparr>) else st\<lparr> consGraph := g' \<rparr>"
  have "specialConstraint L x st = Inr ?st'"
    using g'(1,2) by (auto simp: specialConstraint_def abk split: option.splits)
  moreover have "ls_ok L field Inv st0 ?st'" "ls_grow st ?st'"
    using keep by (auto split: if_splits simp: ls_inv_def)
  moreover have "special_sat (consGraph ?st') x"
    using g'(3-5) S(1,2) by (simp add: abk special_sat_def same_nodes_def split: if_splits)
  ultimately show ?thesis by blast
qed

lemma processSpecial_ok:
  assumes inv: "ls_ok L field Inv st0 st" and wf0: "graph_wf (consGraph st0, ptsVec st0)" and ssa0: "ssa_ok L (consGraph st0)"
    and spec: "special_ok L (consGraph st0)" and e: "edge (consGraph st0) CSpecial n d"
  shows "\<exists>st'. processSpecial L n d st = Inr st' \<and> ls_ok L field Inv st0 st' \<and> ls_grow st st' \<and>
    (\<forall>obj \<in> set (ptsVec st0 ! n). \<forall>x \<in> set (lmProcessSpecial L obj n d). special_sat (consGraph st') x)"
proof -
  from wf0 have ok0: "cg_ok (consGraph st0)" by (simp add: graph_wf_def)
  note E = ls_edge [OF inv e] and E0 = edgeD [OF ok0 e]
  note O = ls_objects [OF inv wf0 E0(1)]
  have one: "\<exists>st'. specialObject L n d obj st = Inr st' \<and> ls_ok L field Inv st0 st' \<and> ls_grow st st' \<and>
    (\<forall>x \<in> set (lmProcessSpecial L obj n d). special_sat (consGraph st') x)"
    if obj: "obj \<in> set (ptsVec st0 ! n)" and inv: "ls_ok L field Inv st0 st" for obj st
  proof -
    note I = ls_invD [OF inv]
    have "obj < length (objVec (consGraph st))" using O(3) [OF obj] ls_growD(11) [OF I(6)] by simp
    note node = object_node [OF I(2) this]
    have "\<exists>st'. rfold (specialConstraint L) (lmProcessSpecial L obj n d) st = Inr st' \<and> ls_ok L field Inv st0 st' \<and>
      ls_grow st st' \<and> (\<forall>x \<in> set (lmProcessSpecial L obj n d). special_sat (consGraph st') x)"
    proof (rule ls_fold)
      show "\<exists>st'. specialConstraint L x st = Inr st' \<and> ls_ok L field Inv st0 st' \<and> ls_grow st st' \<and> special_sat (consGraph st') x"
        if "x \<in> set (lmProcessSpecial L obj n d)" "ls_ok L field Inv st0 st" for x st
        using specialConstraint_ok [OF that(2) wf0 ssa0 spec e O(3) [OF obj] that(1)] .
      show "special_sat (consGraph st') x" if "special_sat (consGraph st) x" "ls_ok L field Inv st0 st"
        "ls_ok L field Inv st0 st'" "ls_grow st st'" for x st st'
        using special_sat_grow [OF that(2-4,1)] .
    qed (rule inv)
    then show ?thesis using node(3,4) by (simp add: specialObject_def)
  qed
  have "\<exists>st'. rfold (specialObject L n d) (ptsVec st0 ! n) st = Inr st' \<and> ls_ok L field Inv st0 st' \<and> ls_grow st st' \<and>
    (\<forall>obj \<in> set (ptsVec st0 ! n). \<forall>x \<in> set (lmProcessSpecial L obj n d). special_sat (consGraph st') x)"
  proof (rule ls_fold)
    show "\<forall>x \<in> set (lmProcessSpecial L obj n d). special_sat (consGraph st') x"
      if "\<forall>x \<in> set (lmProcessSpecial L obj n d). special_sat (consGraph st) x" "ls_ok L field Inv st0 st"
        "ls_ok L field Inv st0 st'" "ls_grow st st'" for obj st st'
      using special_sat_grow [OF that(2-4)] that(1) by blast
  qed (use one inv in blast)+
  then show ?thesis using O(1) E(2,3) by (simp add: processSpecial_def noSupers_def)
qed

section \<open>Offsets\<close>

definition new_objs :: "cons_graph \<times> pts_vec \<Rightarrow> cons_graph \<times> pts_vec \<Rightarrow> bool" where
  "new_objs = (\<lambda>(g, p) (g', p'). graph_wf (g', p') \<and> cg_extends g g' \<and> superRel g' = superRel g \<and>
     (\<forall>j a b. edge g j a b \<longrightarrow> edge g' j a b) \<and> (\<forall>j a b. j \<noteq> CAddrOf \<longrightarrow> edge g' j a b \<longrightarrow> edge g j a b) \<and>
     (\<forall>n < getNodeNum g. p' ! n = p ! n))"

lemma new_objsD:
  assumes "new_objs (g, p) (g', p')"
  shows "graph_wf (g', p')" "cg_extends g g'" "superRel g' = superRel g" "edge g j a b \<Longrightarrow> edge g' j a b"
    "j \<noteq> CAddrOf \<Longrightarrow> edge g' j a b \<Longrightarrow> edge g j a b" "n < getNodeNum g \<Longrightarrow> p' ! n = p ! n" "getNodeNum g \<le> getNodeNum g'"
  using assms by (auto simp: new_objs_def cg_extends_def)

lemma newObj_step:
  assumes wf: "graph_wf (g, p)" and run: "cgStep NewObj (g, p) = Inr (g', p')"
  shows "new_objs (g, p) (g', p')"
proof -
  from wf have ok: "cg_ok g" and p: "length p = getNodeNum g" by (simp_all add: graph_wf_def pts_wf_def)
  have less: "length (objVec g) < getNodeNum g + 2" using objVec_le [OF cg_okD(3) [OF ok]] by simp
  from addObjNode_ok [OF ok p refl less] run have
    new: "cg_ok g'" "cg_extends g g'" "getNodeNum g' = getNodeNum g + 2" "p' = p @ [[], [length (objVec g)]]"
      "\<forall>j a b. edge g' j a b \<longleftrightarrow> edge g j a b \<or> (j = CAddrOf \<and> a = getNodeNum g \<and> b = Suc (getNodeNum g))" by auto
  have wf': "graph_wf (g', p')" using cgStep_ok [OF wf, of NewObj] run by auto
  have "edge g' CAddrOf (getNodeNum g) (Suc (getNodeNum g))" using new(5) by blast
  then have none: "superNode (cgNode g' (getNodeNum g)) = None" "superNode (cgNode g' (Suc (getNodeNum g))) = None"
    using edgeD(3,4) [OF new(1)] by blast+
  have old: "n < getNodeNum g" if n: "n < getNodeNum g'" "superNode (cgNode g' n) = Some m" for n m
  proof -
    have "n \<noteq> getNodeNum g" "n \<noteq> Suc (getNodeNum g)" using none n(2) by auto
    then show ?thesis using n(1) new(3) by simp
  qed
  have keep: "superNode (cgNode g' n) = superNode (cgNode g n)" if "n < getNodeNum g" for n
    using new(2) that by (simp add: cg_extends_def)
  have "(n, m) \<in> superRel g' \<longleftrightarrow> (n, m) \<in> superRel g" for n m
    using old [of n m] keep [of n] new(3) by (auto simp: superRel_def)
  then have "superRel g' = superRel g" by auto
  moreover have "p' ! n = p ! n" if "n < getNodeNum g" for n using that p by (simp add: new(4) nth_append)
  ultimately show ?thesis unfolding new_objs_def prod.case using wf' new(2,5) by blast
qed

lemma freeze_step:
  assumes wf: "graph_wf (g, p)" and new: "M \<le> n" and M: "M \<le> getNodeNum g" and allowed: "opAllowed (Freeze n) (g, p)"
  shows "graph_wf (setImmutable n g, p)" and "getNodeNum (setImmutable n g) = getNodeNum g" and "objVec (setImmutable n g) = objVec g"
    and "superRel (setImmutable n g) = superRel g" and "edge (setImmutable n g) = edge g"
    and "m < M \<Longrightarrow> cgNode (setImmutable n g) m = cgNode g m"
proof -
  have n: "n < getNodeNum g" using allowed by simp
  have step: "cgStep (Freeze n) (g, p) = Inr (setImmutable n g, p)" by simp
  show "graph_wf (setImmutable n g, p)" using cgStep_ok [OF wf allowed] step by auto
  show num: "getNodeNum (setImmutable n g) = getNodeNum g" "objVec (setImmutable n g) = objVec g"
    by (simp_all add: setImmutable_def updNode_def getNodeNum_def)
  have node: "cgNode (setImmutable n g) m = (if m = n then (cgNode g n)\<lparr> isImmutable := True \<rparr> else cgNode g m)"
    if "m < getNodeNum g" for m
    using that n by (auto simp: setImmutable_def cgNode_upd)
  have same: "superNode (cgNode (setImmutable n g) m) = superNode (cgNode g m)" "succCons (cgNode (setImmutable n g) m) = succCons (cgNode g m)"
    if "m < getNodeNum g" for m
    using node [OF that] by simp_all
  then show "superRel (setImmutable n g) = superRel g" by (auto simp: superRel_def num)
  show "edge (setImmutable n g) = edge g" using same by (intro ext) (auto simp: edge_def num)
  show "m < M \<Longrightarrow> cgNode (setImmutable n g) m = cgNode g m" using node M new by simp
qed

lemma newObjs:
  assumes "graph_wf (g, p)" and "onlyObjects (getNodeNum g) ops" and "cgRun ops (g, p) = Inr (g', p')"
  shows "new_objs (g, p) (g', p')"
proof -
  have "new_objs (g, p) (g', p')"
    if "new_objs (g, p) (g1, p1)" "onlyObjects (getNodeNum g) ops" "cgRun ops (g1, p1) = Inr (g', p')" for g1 p1 ops
    using that
  proof (induction ops arbitrary: g1 p1)
    case Nil
    then show ?case by simp
  next
    case (Cons op ops)
    note G = new_objsD [OF Cons.prems(1)]
    from Cons.prems(3) obtain g2 p2 where allowed: "opAllowed op (g1, p1)" and one: "cgStep op (g1, p1) = Inr (g2, p2)"
      and rest: "cgRun ops (g2, p2) = Inr (g', p')" by (auto simp del: cgStep.simps opAllowed.simps)
    from Cons.prems(2) have ops: "onlyObjects (getNodeNum g) ops" by (simp add: onlyObjects_def)
    from Cons.prems(2) consider "op = NewObj" | n where "op = Freeze n" "getNodeNum g \<le> n" by (auto simp: onlyObjects_def)
    then have "new_objs (g, p) (g2, p2)"
    proof cases
      case 1
      note R = new_objsD [OF newObj_step [OF G(1) one [unfolded 1]]]
      have "p2 ! n = p ! n" if "n < getNodeNum g" for n
      proof -
        have "n < getNodeNum g1" using that G(7) by simp
        then show ?thesis using G(6) [OF that] R(6) by simp
      qed
      moreover have "edge g2 j a b" if "edge g j a b" for j a b using R(4) [OF G(4) [OF that]] .
      moreover have "edge g j a b" if "j \<noteq> CAddrOf" "edge g2 j a b" for j a b using G(5) [OF that(1) R(5) [OF that]] .
      ultimately show ?thesis
        unfolding new_objs_def prod.case R(3) G(3) using R(1) cg_extends_trans [OF G(2) R(2)] by blast
    next
      case (2 n)
      note F = freeze_step [OF G(1) 2(2) G(7) allowed [unfolded 2(1)]]
      have g2: "g2 = setImmutable n g1" "p2 = p1" using one 2(1) by simp_all
      have "cg_extends g g2" using G(2) F(2,3,6) unfolding g2(1) cg_extends_def by simp
      then show ?thesis using F(1,4,5) G unfolding new_objs_def prod.case g2 by simp
    qed
    then show ?case using Cons.IH ops rest by blast
  qed
  moreover have "new_objs (g, p) (g, p)" using assms(1) by (simp add: new_objs_def)
  ultimately show ?thesis using assms(2,3) by blast
qed

lemma addrNode_extends:
  assumes ok: "cg_ok g" "cg_ok g'" and ext: "cg_extends g g'" and n: "n < getNodeNum g"
  shows "addrNode g' n \<longleftrightarrow> addrNode g n"
proof
  from ext obtain new where new: "objVec g' = objVec g @ new" by (auto simp: cg_extends_def)
  show "addrNode g n \<Longrightarrow> addrNode g' n"
    unfolding addrNode_def new by (metis length_append nth_append trans_less_add1)
  assume "addrNode g' n"
  then obtain i where i: "i < length (objVec g')" "n = Suc (objVec g' ! i)" by (auto simp: addrNode_def)
  then have k: "cgKind (cgNode g' (objVec g' ! i)) = ObjNode i" using cg_okD(3) [OF ok(2)] by (simp add: objs_ok_def)
  have "objVec g' ! i < getNodeNum g" using i n by simp
  then have "cgKind (cgNode g (objVec g' ! i)) = ObjNode i" "objVec g' ! i < getNodeNum g"
    using k ext by (simp_all add: cg_extends_def)
  then have "i < length (objVec g)" "objVec g ! i = objVec g' ! i" using cg_okD(3) [OF ok(1)] by (auto simp: objs_ok_def)
  then show "addrNode g n" using i(2) by (auto simp: addrNode_def)
qed

lemma ssa_new:
  assumes ssa: "ssa_ok L g" and ok: "cg_ok g" "cg_ok g'" and ext: "cg_extends g g'" and sup: "superRel g' = superRel g"
    and e: "\<And>j a b. edge g j a b \<Longrightarrow> edge g' j a b" "\<And>j a b. j \<noteq> CAddrOf \<Longrightarrow> edge g' j a b \<Longrightarrow> edge g j a b"
  shows "ssa_ok L g'"
proof -
  have E: "edge g' j a b = edge g j a b" if "j \<noteq> CAddrOf" for j a b using e that by blast
  have pin: "pinned g' d = pinned g d" for d by (simp add: pinned_def E)
  have kind: "cgKind (cgNode g' n) = cgKind (cgNode g n)" if "n < getNodeNum g" for n using ext that by (simp add: cg_extends_def)
  have small: "s < getNodeNum g" "d < getNodeNum g" if "edge g k s d" for k s d using edgeD(1,2) [OF ok(1) that] .
  have pd: "d < getNodeNum g" if "pinned g d" for d using that small by (auto simp: pinned_def)
  show ?thesis
    unfolding ssa_ok_def pin sup
  proof (intro conjI allI impI)
    show "\<not> isObjKind (cgKind (cgNode g' d))" "(n, d) \<notin> superRel g" if "pinned g d" for d n
      using ssa that kind [OF pd [OF that]] by (auto simp: ssa_ok_def)
    show "addrNode g' s" if "pinned g d" "edge g' CCopy s d" for s d
    proof -
      have e': "edge g CCopy s d" using that(2) by (simp add: E)
      then show ?thesis using ssa that(1) addrNode_extends [OF ok ext small(1) [OF e']] by (simp add: ssa_ok_def)
    qed
    show "\<not> pinned g d" "\<not> addrNode g' d" if "edge g' CLoad s d" for s d
    proof -
      have e': "edge g CLoad s d" using that by (simp add: E)
      then show "\<not> pinned g d" "\<not> addrNode g' d" using ssa addrNode_extends [OF ok ext small(2) [OF e']] by (auto simp: ssa_ok_def)
    qed
    show "\<exists>v. cgKind (cgNode g' d) = PtrNode (Some v) \<and> lmIsInstruction L v" if "edge g' COffset s d" for s d
    proof -
      have e': "edge g COffset s d" using that by (simp add: E)
      then show ?thesis using ssa kind [OF small(2) [OF e']] unfolding ssa_ok_def by auto
    qed
  qed
qed

lemma ls_index:
  assumes inv: "ls_inv L field Inv st0 H st" and contract: "index_ok L field Inv"
    and obj: "obj < length (objVec (consGraph st))" and idx: "lmIsInstruction L v"
  shows "\<exists>r l' g' p'. lmIndexObject L (objVec (consGraph st) ! obj) v (langModel st) (consGraph st, ptsVec st) =
      Inr (map_option (\<lambda>f. objVec g' ! f) r, l', g', p') \<and>
    ls_inv L field Inv st0 H (st\<lparr> langModel := l', consGraph := g', ptsVec := p' \<rparr>) \<and>
    ls_grow st (st\<lparr> langModel := l', consGraph := g', ptsVec := p' \<rparr>) \<and>
    field l' obj v = Some r \<and> (\<forall>f. r = Some f \<longrightarrow> f < length (objVec g'))"
proof -
  let ?g = "consGraph st" and ?M = "getNodeNum (consGraph st0)"
  note I = ls_invD [OF inv]
  from contract I(1,5) obj idx obtain r l' ops g' p' where
    run: "lmIndexObject L (objVec ?g ! obj) v (langModel st) (?g, ptsVec st) = Inr (map_option (\<lambda>f. objVec g' ! f) r, l', g', p')"
    and only: "onlyObjects (getNodeNum ?g) ops" and new: "cgRun ops (?g, ptsVec st) = Inr (g', p')" and Inv': "Inv l' (getNodeNum g') (objVec g')"
    and r: "field l' obj v = Some r" "\<forall>f. r = Some f \<longrightarrow> f < length (objVec g')"
    and mono: "\<forall>obj v x. field (langModel st) obj v = Some x \<longrightarrow> field l' obj v = Some x"
    unfolding index_ok_def by blast
  note N = new_objsD [OF newObjs [OF I(1) only new]]
  from N(1) have wf': "graph_wf (g', p')" and ok': "cg_ok g'" by (simp_all add: graph_wf_def)
  let ?st = "st\<lparr> langModel := l', consGraph := g', ptsVec := p' \<rparr>"
  have grow: "ls_grow st ?st" using N(2-6) by (auto simp: ls_grow_def workKind_def)
  have ssa': "ssa_ok L g'" using ssa_new [OF I(4,2) ok' N(2-5)] by blast
  have gep': "gep_ok field l' g' p' H" using gep_grow [OF grow I(2) _ I(8), of l'] ok' mono by simp
  have edges': "set (p' ! s) \<subseteq> set (p' ! d) \<or> recorded L ?M ?st s d" if "edge g' CCopy s d" for s d
  proof -
    have e: "edge ?g CCopy s d" using that N(5) by blast
    then have "set (ptsVec st ! s) \<subseteq> set (ptsVec st ! d) \<or> recorded L ?M st s d" using inv by (simp add: ls_inv_def)
    then show ?thesis using N(6) edgeD(1,2) [OF I(2) e] by (simp add: recorded_def)
  qed
  have q': "quiet ?st \<or> (progress st0 ?st \<and> (\<not> list_all (\<lambda>b. b) (copyWorkList ?st) \<or> ?M < getNodeNum g'))"
  proof -
    have "quiet st \<or> (progress st0 st \<and> (\<not> list_all (\<lambda>b. b) (copyWorkList st) \<or> ?M < getNodeNum ?g))"
      using inv by (simp add: ls_inv_def)
    then show ?thesis using progress_grow [OF _ grow] N(7) by (auto simp: quiet_def)
  qed
  have "lists_ok ?M ?st" using I(7) by (simp add: lists_ok_def)
  then have "ls_inv L field Inv st0 H ?st"
    using wf' ssa' Inv' gep' ls_grow_trans [OF I(6) grow] edges' q' unfolding ls_inv_def by simp
  then show ?thesis using run grow r by blast
qed

lemma ls_inv_H:
  assumes "ls_inv L field Inv st0 H st" and "gep_ok field (langModel st) (consGraph st) (ptsVec st) H'"
  shows "ls_inv L field Inv st0 H' st"
  using assms unfolding ls_inv_def by blast

lemma gep_insert:
  assumes gep: "gep_ok field l g p H" and obj: "obj < length (objVec g)" and e: "edge g COffset s d"
    and kind: "cgKind (cgNode g d) = PtrNode (Some v)" and r: "field l obj v = Some r"
    and f: "\<And>f. r = Some f \<Longrightarrow> f < length (objVec g) \<and> (linked g (Suc (objVec g ! f)) d \<or> f \<in> set (p ! d))"
  shows "gep_ok field l g p (H(d := sorted_insert obj (H d)))"
  unfolding gep_ok_def
proof (intro allI conjI ballI)
  let ?H = "H(d := sorted_insert obj (H d))"
  fix d'
  show "bv (?H d')" using gep by (auto simp: gep_ok_def)
  fix o' assume o': "o' \<in> set (?H d')"
  then consider "o' \<in> set (H d')" | "d' = d" "o' = obj" by (auto split: if_splits)
  then have "o' < length (objVec g) \<and> (\<exists>s. edge g COffset s d') \<and>
    (\<forall>v. cgKind (cgNode g d') = PtrNode (Some v) \<longrightarrow> (\<exists>r. field l o' v = Some r \<and>
      (\<forall>f. r = Some f \<longrightarrow> f < length (objVec g) \<and> (linked g (Suc (objVec g ! f)) d' \<or> f \<in> set (p ! d')))))"
  proof cases
    case 1
    then show ?thesis using gep unfolding gep_ok_def by blast
  next
    case 2
    then show ?thesis using obj e kind r f by auto
  qed
  then show "o' < length (objVec g)" "\<exists>s. edge g COffset s d'"
    "cgKind (cgNode g d') = PtrNode (Some w) \<longrightarrow> (\<exists>r. field l o' w = Some r \<and>
      (\<forall>f. r = Some f \<longrightarrow> f < length (objVec g) \<and> (linked g (Suc (objVec g ! f)) d' \<or> f \<in> set (p ! d'))))" for w
    by blast+
qed

lemma offsetObject_ok:
  assumes inv: "ls_inv L field Inv st0 H st" and wf0: "graph_wf (consGraph st0, ptsVec st0)" and contract: "index_ok L field Inv"
    and e: "edge (consGraph st0) COffset s d" and kind: "cgKind (cgNode (consGraph st0) d) = PtrNode (Some v)"
    and idx: "lmIsInstruction L v" and obj: "obj < length (objVec (consGraph st0))" and prog: "progress st0 st"
  shows "\<exists>st'. offsetObject L d v (objVec (consGraph st0) ! obj) st = Inr st' \<and>
    ls_inv L field Inv st0 (H(d := sorted_insert obj (H d))) st' \<and> ls_grow st st' \<and> handledGEPMap st' = handledGEPMap st"
proof -
  note I = ls_invD [OF inv]
  from wf0 have ok0: "cg_ok (consGraph st0)" by (simp add: graph_wf_def)
  have obj1: "obj < length (objVec (consGraph st))" "objVec (consGraph st0) ! obj = objVec (consGraph st) ! obj"
    using obj ls_growD(10,11) [OF I(6)] by auto
  from ls_index [OF inv contract obj1(1) idx] obtain r l' g' p' where
    run: "lmIndexObject L (objVec (consGraph st) ! obj) v (langModel st) (consGraph st, ptsVec st) =
      Inr (map_option (\<lambda>f. objVec g' ! f) r, l', g', p')"
    and inv1: "ls_inv L field Inv st0 H (st\<lparr> langModel := l', consGraph := g', ptsVec := p' \<rparr>)"
    and grow1: "ls_grow st (st\<lparr> langModel := l', consGraph := g', ptsVec := p' \<rparr>)"
    and r: "field l' obj v = Some r" "\<forall>f. r = Some f \<longrightarrow> f < length (objVec g')" by blast
  let ?st = "st\<lparr> langModel := l', consGraph := g', ptsVec := p' \<rparr>"
  have "consGraph ?st = g'" "ptsVec ?st = p'" "langModel ?st = l'" by simp_all
  note J = ls_invD [OF inv1, unfolded this] and E = ls_edge [OF inv1 e, unfolded this]
  have d0: "d < getNodeNum (consGraph st0)" using edgeD(2) [OF ok0 e] .
  have kind': "cgKind (cgNode g' d) = PtrNode (Some v)" using ls_growD(9) [OF J(6) d0] kind by simp
  have obj': "obj < length (objVec g')" using ls_growD(11) [OF J(6)] obj by simp
  show ?thesis
  proof (cases r)
    case None
    have "gep_ok field l' g' p' (H(d := sorted_insert obj (H d)))"
      using gep_insert [OF J(8) obj' E(1) kind' r(1)] None by simp
    then have "ls_inv L field Inv st0 (H(d := sorted_insert obj (H d))) ?st" using ls_inv_H [OF inv1] by simp
    then show ?thesis using run None grow1 obj1(2) by (simp add: offsetObject_def)
  next
    case (Some f)
    then have f: "f < length (objVec g')" using r(2) by simp
    note O = object_node [OF J(2) f]
    have fk: "cgKind (cgNode g' (objVec g' ! f)) = ObjNode f" using cg_okD(3) [OF J(2)] f by (simp add: objs_ok_def)
    have len: "length p' = getNodeNum g'" using J(3) by (simp add: pts_wf_def)
    have "f < length p'" using f objVec_le [OF cg_okD(3) [OF J(2)]] len by simp
    then have has: "ptsHas d f p' = Inr (f \<in> set (p' ! d))" using E(7) len by (simp add: ptsHas_def inPts_def)
    show ?thesis
    proof (cases "f \<in> set (p' ! d)")
      case True
      have "gep_ok field l' g' p' (H(d := sorted_insert obj (H d)))"
        using gep_insert [OF J(8) obj' E(1) kind' r(1)] Some f True by simp
      then have "ls_inv L field Inv st0 (H(d := sorted_insert obj (H d))) ?st" using ls_inv_H [OF inv1] by simp
      then show ?thesis using run Some grow1 obj1(2) fk has True by (simp add: offsetObject_def)
    next
      case False
      let ?a = "Suc (objVec g' ! f)"
      have addr: "addrNode g' ?a" using f by (auto simp: addrNode_def)
      have nd: "\<not> addrNode g' d"
      proof
        assume "addrNode g' d"
        then show False using kind' cg_okD(3) [OF J(2)] by (auto simp: addrNode_def objs_ok_def)
      qed
      have reps: "rep g' ?a = ?a" using rep_addr [OF J(2) O(5) addr] .
      have pre: "objVec g' ! f < getNodeNum (consGraph ?st)" "\<not> addrNode (consGraph ?st) d"
        "isObjKind (cgKind (cgNode (consGraph ?st) (objVec g' ! f)))"
        "?a = rep (consGraph ?st) (consSrc (consGraph ?st) CAddrOf (objVec g' ! f))" "d = rep (consGraph ?st) d"
        "addrNode (consGraph ?st) (consSrc (consGraph ?st) CAddrOf (objVec g' ! f))"
        using O(1,3) nd addr reps E(5) by (simp_all add: consSrc_def)
      from ls_add [OF inv1 ok0 pre(1) d0 pre(2) disjI2 [OF refl] pre(3) pre(6) pre(4,5)] obtain ev g2 where
        g2': "addCons (objVec g' ! f) d CAddrOf ?st = Inr (ev, ?st\<lparr> consGraph := g2 \<rparr>)"
        "linked g2 (consSrc g2 CAddrOf (objVec g' ! f)) d" "same_nodes (consGraph ?st) g2" and
        keep: "\<forall>r. (ev \<noteq> None \<longrightarrow> r) \<longrightarrow> (r \<longrightarrow> ev \<noteq> None \<or> progress st0 ?st) \<longrightarrow>
          ls_inv L field Inv st0 H (if r then recordCopyEdge L ?a d (?st\<lparr> consGraph := g2 \<rparr>) else ?st\<lparr> consGraph := g2 \<rparr>) \<and>
          ls_grow ?st (if r then recordCopyEdge L ?a d (?st\<lparr> consGraph := g2 \<rparr>) else ?st\<lparr> consGraph := g2 \<rparr>)"
        by blast
      have g2: "addCons (objVec g' ! f) d CAddrOf ?st = Inr (ev, ?st\<lparr> consGraph := g2 \<rparr>)"
        "linked g2 ?a d" "same_nodes g' g2" using g2' by (simp_all add: consSrc_def)
      let ?st2 = "recordCopyEdge L ?a d (?st\<lparr> consGraph := g2 \<rparr>)"
      have prog1: "progress st0 ?st" using progress_grow [OF prog grow1] .
      have inv2: "ls_inv L field Inv st0 H ?st2" and grow2: "ls_grow ?st ?st2"
        using keep [rule_format, of True] prog1 unfolding if_True by blast+
      note K = ls_invD [OF inv2]
      have num: "objVec g2 = objVec g'" using g2(3) by (simp add: same_nodes_def)
      have kind2: "cgKind (cgNode g2 d) = PtrNode (Some v)" using kind' g2(3) E(7) by (simp add: same_nodes_def)
      have "objs_ok g2" using cg_okD(3) [OF K(2)] by simp
      then have "?a < getNodeNum g2" "cgKind (cgNode g2 ?a) = PtrNode None" using f num by (simp_all add: objs_ok_def)
      then have take: "getAddrTakenNode g2 (objVec g' ! f) = Inr ?a"
        by (simp add: getAddrTakenNode_def getNode_def isObjKind_def)
      have e2: "edge g2 COffset s d" using ls_growD(3) [OF grow2, of COffset s d] E(1) by simp
      have gep2: "gep_ok field l' g2 p' H" using K(8) by simp
      have "gep_ok field l' g2 p' (H(d := sorted_insert obj (H d)))"
      proof (rule gep_insert [OF gep2 _ e2 kind2 r(1)])
        show "obj < length (objVec g2)" using obj' by (simp add: num)
        show "f' < length (objVec g2) \<and> (linked g2 (Suc (objVec g2 ! f')) d \<or> f' \<in> set (p' ! d))" if "r = Some f'" for f'
          using that Some f g2(2) by (simp add: num)
      qed
      then have "ls_inv L field Inv st0 (H(d := sorted_insert obj (H d))) ?st2" using ls_inv_H [OF inv2] by simp
      moreover have "ls_grow st ?st2" using ls_grow_trans [OF grow1 grow2] .
      moreover have "offsetObject L d v (objVec (consGraph st0) ! obj) st = Inr ?st2"
        using run Some obj1(2) fk has False g2(1) take by (simp add: offsetObject_def)
      ultimately show ?thesis by (intro exI [of _ ?st2]) simp
    qed
  qed
qed

lemma offset_fold_ok:
  assumes inv: "ls_inv L field Inv st0 H st" and wf0: "graph_wf (consGraph st0, ptsVec st0)" and contract: "index_ok L field Inv"
    and e: "edge (consGraph st0) COffset s d" and kind: "cgKind (cgNode (consGraph st0) d) = PtrNode (Some v)"
    and idx: "lmIsInstruction L v" and objs: "\<forall>obj \<in> set os. obj < length (objVec (consGraph st0))" and prog: "progress st0 st"
  shows "\<exists>st'. rfold (offsetObject L d v) (map ((!) (objVec (consGraph st0))) os) st = Inr st' \<and>
    ls_inv L field Inv st0 (H(d := bvOr (H d) os)) st' \<and> ls_grow st st' \<and> handledGEPMap st' = handledGEPMap st"
  using inv objs prog
proof (induction os arbitrary: st H)
  case Nil
  then show ?case by (simp add: bvOr_def ls_grow_refl)
next
  case (Cons obj os)
  from offsetObject_ok [OF Cons.prems(1) wf0 contract e kind idx _ Cons.prems(3), of obj] Cons.prems(2)
  obtain st1 where st1: "offsetObject L d v (objVec (consGraph st0) ! obj) st = Inr st1"
    "ls_inv L field Inv st0 (H(d := sorted_insert obj (H d))) st1" "ls_grow st st1" "handledGEPMap st1 = handledGEPMap st" by auto
  let ?H1 = "H(d := sorted_insert obj (H d))"
  have upd: "?H1(d := bvOr (?H1 d) os) = H(d := bvOr (H d) (obj # os))" by (simp add: bvOr_def)
  have "\<forall>obj \<in> set os. obj < length (objVec (consGraph st0))" using Cons.prems(2) by simp
  from Cons.IH [OF st1(2) this progress_grow [OF Cons.prems(3) st1(3)], unfolded upd] obtain st2 where
    st2: "rfold (offsetObject L d v) (map ((!) (objVec (consGraph st0))) os) st1 = Inr st2"
    "ls_inv L field Inv st0 (H(d := bvOr (H d) (obj # os))) st2" "ls_grow st1 st2"
    "handledGEPMap st2 = handledGEPMap st1" by blast
  have run: "rfold (offsetObject L d v) (map ((!) (objVec (consGraph st0))) (obj # os)) st = Inr st2"
    using st1(1) st2(1) by simp
  have "handledGEPMap st2 = handledGEPMap st" using st1(4) st2(4) by simp
  then show ?case using run st2(2) ls_grow_trans [OF st1(3) st2(3)] by blast
qed

lemma nodes_of_objects:
  "\<forall>obj \<in> set os. obj < length (objVec g) \<Longrightarrow>
    rfold (\<lambda>obj nodes. rbind (getObjectNode g obj) (\<lambda>n. Inr (nodes @ [n]))) os ns = Inr (ns @ map ((!) (objVec g)) os)"
  by (induction os arbitrary: ns) (simp_all add: getObjectNode_def)

lemma processOffset_ok:
  assumes inv: "ls_ok L field Inv st0 st" and wf0: "graph_wf (consGraph st0, ptsVec st0)" and contract: "index_ok L field Inv"
    and e: "edge (consGraph st0) COffset n d"
  shows "\<exists>st'. processOffset L n d st = Inr st' \<and> ls_ok L field Inv st0 st' \<and> ls_grow st st' \<and>
    set (ptsVec st0 ! n) \<subseteq> set (handledGEPMap st' d)"
proof -
  note I = ls_invD [OF inv] and E = ls_edge [OF inv e]
  from wf0 have ok0: "cg_ok (consGraph st0)" by (simp add: graph_wf_def)
  note E0 = edgeD [OF ok0 e] and O = ls_objects [OF inv wf0 edgeD(1) [OF ok0 e]]
  let ?H = "handledGEPMap st"
  let ?new = "bvDiff (ptsVec st0 ! n) (?H d)"
  from I(4) E(1) obtain v where v: "cgKind (cgNode (consGraph st) d) = PtrNode (Some v)" "lmIsInstruction L v"
    unfolding ssa_ok_def by blast
  then have kind0: "cgKind (cgNode (consGraph st0) d) = PtrNode (Some v)" using ls_growD(9) [OF I(6) E0(2)] by simp
  have new: "set ?new = set (ptsVec st0 ! n) - set (?H d)" by (auto simp: bvDiff_def)
  let ?st1 = "st\<lparr> handledGEPMap := ?H(d := bvOr (?H d) ?new) \<rparr>"
  have grow1: "ls_grow st ?st1" by (simp add: ls_grow_def)
  have objs0: "\<forall>obj \<in> set ?new. obj < length (objVec (consGraph st0))" using new O(3) by blast
  have objs: "\<forall>obj \<in> set ?new. obj < length (objVec (consGraph st)) \<and> objVec (consGraph st) ! obj = objVec (consGraph st0) ! obj"
    using objs0 ls_growD(10,11) [OF I(6)] by fastforce
  have nodes: "rfold (\<lambda>obj nodes. rbind (getObjectNode (consGraph st) obj) (\<lambda>n. Inr (nodes @ [n]))) ?new [] =
      Inr (map ((!) (objVec (consGraph st0))) ?new)"
    using nodes_of_objects [of ?new "consGraph st" "[]"] objs by simp
  have run: "processOffset L n d st = rfold (offsetObject L d v) (map ((!) (objVec (consGraph st0))) ?new) ?st1"
    using E(2,3) v O(2) nodes new by (auto simp: processOffset_def noSupers_def Let_def rassert_def)
  show ?thesis
  proof (cases "?new = []")
    case True
    then have same: "?st1 = st" by (simp add: bvOr_def)
    have "set (ptsVec st0 ! n) \<subseteq> set (?H d)" using new True by auto
    then show ?thesis using run same True inv ls_grow_refl by (intro exI [of _ st]) simp
  next
    case False
    then obtain obj where obj: "obj \<in> set ?new" by (cases ?new) auto
    have "obj \<notin> set (handledGEPMap st0 d)" using obj new ls_growD(6) [OF I(6), of d] by blast
    then have prog: "progress st0 ?st1" using obj unfolding progress_def by auto
    have q: "quiet ?st1 \<or> (progress st0 ?st1 \<and>
        (\<not> list_all (\<lambda>b. b) (copyWorkList ?st1) \<or> getNodeNum (consGraph st0) < getNodeNum (consGraph ?st1)))"
      using inv prog by (auto simp: ls_inv_def quiet_def)
    have "ls_inv L field Inv st0 ?H ?st1"
      using inv q ls_grow_trans [OF I(6) grow1] by (simp add: ls_inv_def lists_ok_def recorded_def)
    from offset_fold_ok [OF this wf0 contract e kind0 v(2) objs0 prog] obtain st' where
      st': "rfold (offsetObject L d v) (map ((!) (objVec (consGraph st0))) ?new) ?st1 = Inr st'"
      "ls_inv L field Inv st0 (?H(d := bvOr (?H d) ?new)) st'" "ls_grow ?st1 st'"
      "handledGEPMap st' = handledGEPMap ?st1" by blast
    have H': "handledGEPMap st' = ?H(d := bvOr (?H d) ?new)" using st'(4) by simp
    have "set (ptsVec st0 ! n) \<subseteq> set (handledGEPMap st' d)" using new by (auto simp: H')
    moreover have "ls_ok L field Inv st0 st'" using st'(2) unfolding H' .
    ultimately show ?thesis using run st'(1) ls_grow_trans [OF grow1 st'(3)] by metis
  qed
qed

section \<open>Nodes and the loop over them\<close>

lemma work_edges:
  assumes inv: "ls_inv L field Inv st0 H st" and n: "n < getNodeNum (consGraph st0)" and k: "workKind k"
  shows "d \<in> set (succCons (cgNode (consGraph st) n) k) \<longleftrightarrow> edge (consGraph st0) k n d"
    "m \<in> set (predCons (cgNode (consGraph st) n) k) \<longleftrightarrow> edge (consGraph st0) k m n"
proof -
  note I = ls_invD [OF inv]
  have n': "n < getNodeNum (consGraph st)" using n ls_growD(8) [OF I(6)] by simp
  note eq = ls_growD(4) [OF I(6) k]
  show "d \<in> set (succCons (cgNode (consGraph st) n) k) \<longleftrightarrow> edge (consGraph st0) k n d"
    using eq [of n d] n' by (simp add: edge_def)
  have "m \<in> set (predCons (cgNode (consGraph st) n) k) \<longleftrightarrow> edge (consGraph st) k m n"
    using edges_okD(4,5) [OF cg_okD(1) [OF I(2)]] n' by (metis edge_def)
  then show "m \<in> set (predCons (cgNode (consGraph st) n) k) \<longleftrightarrow> edge (consGraph st0) k m n" using eq by simp
qed

lemma processNode_ok:
  assumes inv: "ls_ok L field Inv st0 st" and wf0: "graph_wf (consGraph st0, ptsVec st0)" and ssa0: "ssa_ok L (consGraph st0)"
    and contract: "index_ok L field Inv" and spec: "special_ok L (consGraph st0)" and n: "n < getNodeNum (consGraph st0)"
  shows "\<exists>st'. processNode L n st = Inr st' \<and> ls_ok L field Inv st0 st' \<and> ls_grow st st' \<and>
    sat_node L (consGraph st') (ptsVec st') (handledGEPMap st') n"
proof -
  let ?I = "ls_ok L field Inv st0" and ?P = "set (ptsVec st0 ! n)"
  have kinds: "workKind CStore" "workKind CLoad" "workKind CSpecial" "workKind COffset" by (simp_all add: workKind_def)
  from wf0 have ok0: "cg_ok (consGraph st0)" by (simp add: graph_wf_def)
  note objs = ls_objects(3) [OF inv wf0 n]
  let ?store = "\<lambda>m st. \<forall>obj \<in> ?P. linked (consGraph st) m (objVec (consGraph st) ! obj)"
  have store_mono: "?store m st2" if "?I st1" "?I st2" "ls_grow st1 st2" "edge (consGraph st0) CStore m n" "?store m st1" for m st1 st2
    using object_link_grow(2) [OF that(1-3)] objs edgeD(1) [OF ok0 that(4)] that(5) by blast
  have "\<exists>st'. rfold (\<lambda>m. processStore L m n) (predCons (cgNode (consGraph st) n) CStore) st = Inr st' \<and> ?I st' \<and> ls_grow st st' \<and>
      (\<forall>m \<in> set (predCons (cgNode (consGraph st) n) CStore). ?store m st')"
    by (rule ls_fold) (use processStore_ok [OF _ wf0] work_edges(2) [OF inv n kinds(1)] store_mono inv in blast)+
  then obtain st1 where st1: "rfold (\<lambda>m. processStore L m n) (predCons (cgNode (consGraph st) n) CStore) st = Inr st1" "?I st1"
    "ls_grow st st1" "\<And>m. edge (consGraph st0) CStore m n \<Longrightarrow> ?store m st1" using work_edges(2) [OF inv n kinds(1)] by blast
  let ?load = "\<lambda>d st. \<forall>obj \<in> ?P. linked (consGraph st) (objVec (consGraph st) ! obj) d"
  have load_mono: "?load d st2" if "?I st1" "?I st2" "ls_grow st1 st2" "edge (consGraph st0) CLoad n d" "?load d st1" for d st1 st2
    using object_link_grow(1) [OF that(1-3)] objs edgeD(2) [OF ok0 that(4)] that(5) by blast
  have "\<exists>st'. rfold (processLoad L n) (succCons (cgNode (consGraph st1) n) CLoad) st1 = Inr st' \<and> ?I st' \<and> ls_grow st1 st' \<and>
      (\<forall>d \<in> set (succCons (cgNode (consGraph st1) n) CLoad). ?load d st')"
    by (rule ls_fold) (use processLoad_ok [OF _ wf0] work_edges(1) [OF st1(2) n kinds(2)] load_mono st1(2) in blast)+
  then obtain st2 where st2: "rfold (processLoad L n) (succCons (cgNode (consGraph st1) n) CLoad) st1 = Inr st2" "?I st2"
    "ls_grow st1 st2" "\<And>d. edge (consGraph st0) CLoad n d \<Longrightarrow> ?load d st2" using work_edges(1) [OF st1(2) n kinds(2)] by blast
  let ?spec = "\<lambda>d st. \<forall>obj \<in> ?P. \<forall>x \<in> set (lmProcessSpecial L obj n d). special_sat (consGraph st) x"
  have spec_mono: "?spec d st2" if "?I st1" "?I st2" "ls_grow st1 st2" "?spec d st1" for d st1 st2
    using special_sat_grow [OF that(1-3)] that(4) by blast
  have "\<exists>st'. rfold (processSpecial L n) (succCons (cgNode (consGraph st2) n) CSpecial) st2 = Inr st' \<and> ?I st' \<and> ls_grow st2 st' \<and>
      (\<forall>d \<in> set (succCons (cgNode (consGraph st2) n) CSpecial). ?spec d st')"
    by (rule ls_fold)
      (use processSpecial_ok [OF _ wf0 ssa0 spec] work_edges(1) [OF st2(2) n kinds(3)] spec_mono st2(2) in blast)+
  then obtain st3 where st3: "rfold (processSpecial L n) (succCons (cgNode (consGraph st2) n) CSpecial) st2 = Inr st3" "?I st3"
    "ls_grow st2 st3" "\<And>d. edge (consGraph st0) CSpecial n d \<Longrightarrow> ?spec d st3" using work_edges(1) [OF st2(2) n kinds(3)] by blast
  let ?off = "\<lambda>d st. ?P \<subseteq> set (handledGEPMap st d)"
  have off_mono: "?off d st2" if "ls_grow st1 st2" "?off d st1" for d and st1 st2 :: "'a solver"
    using ls_growD(6) [OF that(1), of d] that(2) by blast
  have "\<exists>st'. rfold (processOffset L n) (succCons (cgNode (consGraph st3) n) COffset) st3 = Inr st' \<and> ?I st' \<and> ls_grow st3 st' \<and>
      (\<forall>d \<in> set (succCons (cgNode (consGraph st3) n) COffset). ?off d st')"
    by (rule ls_fold)
      (use processOffset_ok [OF _ wf0 contract] work_edges(1) [OF st3(2) n kinds(4)] off_mono st3(2) in blast)+
  then obtain st4 where st4: "rfold (processOffset L n) (succCons (cgNode (consGraph st3) n) COffset) st3 = Inr st4" "?I st4"
    "ls_grow st3 st4" "\<And>d. edge (consGraph st0) COffset n d \<Longrightarrow> ?off d st4" using work_edges(1) [OF st3(2) n kinds(4)] by blast
  have g34: "ls_grow st3 st4" and g24: "ls_grow st2 st4" and g14: "ls_grow st1 st4" and grow: "ls_grow st st4"
    using st1(3) st2(3) st3(3) st4(3) ls_grow_trans by blast+
  have run: "processNode L n st = Inr st4" using st1(1) st2(1) st3(1) st4(1) by (simp add: processNode_def)
  note J = ls_invD [OF st4(2)]
  have E: "edge (consGraph st4) k s d \<longleftrightarrow> edge (consGraph st0) k s d" if "workKind k" for k s d
    using ls_growD(4) [OF J(6) that] .
  have "sat_node L (consGraph st4) (ptsVec st4) (handledGEPMap st4) n"
    unfolding sat_node_def ls_growD(5) [OF J(6) n] E [OF kinds(1)] E [OF kinds(2)] E [OF kinds(3)] E [OF kinds(4)]
    using store_mono [OF st1(2) st4(2) g14 _ st1(4)] load_mono [OF st2(2) st4(2) g24 _ st2(4)]
      spec_mono [OF st3(2) st4(2) g34 st3(4)] st4(4)
    unfolding special_sat_def by blast
  then show ?thesis using run st4(2) grow by blast
qed

end
