(* ===== verification/SolverFix.thy ===== *)
theory SolverFix
  imports SolverWork
begin

text \<open>
  Whole runs of the solver: a round keeps what the next one needs and, unless it is the last, makes
  progress; so the rounds end, and what they end in is closed under the constraints.
\<close>

section \<open>The work loop\<close>

lemma lsLoop_ok:
  assumes inv: "ls_ok L field Inv st0 st" and wf0: "graph_wf (consGraph st0, ptsVec st0)" and ssa0: "ssa_ok L (consGraph st0)"
    and contract: "index_ok L field Inv" and spec: "special_ok L (consGraph st0)"
    and fuel: "getNodeNum (consGraph st0) - i < fuel"
  shows "\<exists>st'. lsLoop fuel L i st = Inr st' \<and> ls_ok L field Inv st0 st' \<and> ls_grow st st' \<and>
    (\<forall>n < getNodeNum (consGraph st0). i \<le> n \<longrightarrow> \<not> lsWorkList st ! n \<longrightarrow>
      sat_node L (consGraph st') (ptsVec st') (handledGEPMap st') n)"
  using inv fuel
proof (induction fuel arbitrary: i st)
  case (Suc fuel)
  let ?M = "getNodeNum (consGraph st0)"
  note I = ls_invD [OF Suc.prems(1)]
  have len: "length (lsWorkList st) = ?M" using I(7) by (simp add: lists_ok_def)
  show ?case
  proof (cases "findUnsetFrom i (lsWorkList st)")
    case None
    then have "\<forall>n < ?M. i \<le> n \<longrightarrow> lsWorkList st ! n" by (simp add: findUnset_None len)
    then show ?thesis using None Suc.prems(1) ls_grow_refl by auto
  next
    case (Some r)
    note F = findUnset_Some [OF Some]
    have r: "r < ?M" using F(2) len by simp
    have node: "getNode (consGraph st) r = Inr r" using r ls_growD(8) [OF I(6)] by (simp add: getNode_def)
    from processNode_ok [OF Suc.prems(1) wf0 ssa0 contract spec r] obtain st1 where
      st1: "processNode L r st = Inr st1" "ls_ok L field Inv st0 st1" "ls_grow st st1"
        "sat_node L (consGraph st1) (ptsVec st1) (handledGEPMap st1) r" by blast
    have "?M - Suc r < fuel" using Suc.prems(2) F(1) r by simp
    from Suc.IH [OF st1(2) this] obtain st2 where
      st2: "lsLoop fuel L (Suc r) st1 = Inr st2" "ls_ok L field Inv st0 st2" "ls_grow st1 st2"
        "\<And>n. n < ?M \<Longrightarrow> Suc r \<le> n \<Longrightarrow> \<not> lsWorkList st1 ! n \<Longrightarrow>
          sat_node L (consGraph st2) (ptsVec st2) (handledGEPMap st2) n" by blast
    note J = ls_invD [OF st1(2)] and K = ls_invD [OF st2(2)]
    have "r < getNodeNum (consGraph st1)" using r ls_growD(8) [OF J(6)] by simp
    then have sat_r: "sat_node L (consGraph st2) (ptsVec st2) (handledGEPMap st2) r"
      using sat_node_grow [OF st2(3) J(1) K(2) _ st1(4)] by blast
    have "sat_node L (consGraph st2) (ptsVec st2) (handledGEPMap st2) n" if n: "n < ?M" "i \<le> n" "\<not> lsWorkList st ! n" for n
    proof (cases "n = r")
      case False
      have "r \<le> n" using F(4) [OF n(2)] n(3) by (meson not_le_imp_less)
      then have "Suc r \<le> n" using False by simp
      then show ?thesis using st2(4) [OF n(1)] n(3) ls_growD(7) [OF st1(3)] by simp
    qed (use sat_r in simp)
    then show ?thesis using Some node st1(1) st2(1,2) ls_grow_trans [OF st1(3) st2(3)] by simp
  qed
qed simp

section \<open>A round\<close>

text \<open>What holds when nothing is left to do.\<close>

definition solved ::
  "'l lang_model \<Rightarrow> ('l \<Rightarrow> nat \<Rightarrow> llvm_value \<Rightarrow> nat option option) \<Rightarrow> 'l solver \<Rightarrow> bool" where
  "solved L field st \<longleftrightarrow> base_ok L field st \<and>
     (\<forall>s d. edge (consGraph st) CCopy s d \<longrightarrow> set (ptsVec st ! s) \<subseteq> set (ptsVec st ! d)) \<and>
     (\<forall>n < getNodeNum (consGraph st). sat_node L (consGraph st) (ptsVec st) (handledGEPMap st) n)"

text \<open>The measure of a state: nodes to come, nodes not collapsed, edges and handled objects to come.\<close>

definition edgeSet :: "cons_graph \<Rightarrow> (constraints \<times> nat \<times> nat) set" where
  "edgeSet g = {(k, s, d). edge g k s d}"

definition handledSet :: "(nat \<Rightarrow> nat list) \<Rightarrow> (nat \<times> nat) set" where
  "handledSet H = {(d, obj). obj \<in> set (H d)}"

definition round_measure :: "nat \<Rightarrow> 'l solver \<Rightarrow> nat" where
  "round_measure B st = 7 * B * B - (card (edgeSet (consGraph st)) + card (handledSet (handledGEPMap st)))"

definition solver_rel :: "nat \<Rightarrow> ('l solver \<times> 'l solver) set" where
  "solver_rel B = measures [\<lambda>st. B - getNodeNum (consGraph st), \<lambda>st. card (roots (consGraph st)), round_measure B]"

lemma edgeSet_bound:
  assumes ok: "cg_ok g" and B: "getNodeNum g \<le> B"
  shows "finite (edgeSet g)" "card (edgeSet g) \<le> 6 * B * B"
proof -
  let ?K = "{CLoad, CStore, CCopy, CAddrOf, COffset, CSpecial}"
  have "k \<in> ?K" for k by (cases k) auto
  then have sub: "edgeSet g \<subseteq> ?K \<times> {..<B} \<times> {..<B}"
    using edgeD(1,2) [OF ok] B by (fastforce simp: edgeSet_def)
  have fin: "finite (?K \<times> {..<B} \<times> {..<B})" by simp
  show "finite (edgeSet g)" using finite_subset [OF sub fin] .
  show "card (edgeSet g) \<le> 6 * B * B" using card_mono [OF fin sub] by (simp add: card_cartesian_product)
qed

lemma handledSet_bound:
  assumes gep: "gep_ok field l g p H" and ok: "cg_ok g" and B: "getNodeNum g \<le> B"
  shows "finite (handledSet H)" "card (handledSet H) \<le> B * B"
proof -
  have sub: "handledSet H \<subseteq> {..<B} \<times> {..<B}"
  proof clarify
    fix d obj assume "(d, obj) \<in> handledSet H"
    then have o: "obj \<in> set (H d)" by (simp add: handledSet_def)
    with gep obtain s where "edge g COffset s d" "obj < length (objVec g)" unfolding gep_ok_def by blast
    then show "d \<in> {..<B} \<and> obj \<in> {..<B}"
      using edgeD(2) [OF ok] objVec_le [OF cg_okD(3) [OF ok]] B by fastforce
  qed
  have fin: "finite ({..<B} \<times> {..<B})" by simp
  show "finite (handledSet H)" using finite_subset [OF sub fin] .
  show "card (handledSet H) \<le> B * B" using card_mono [OF fin sub] by (simp add: card_cartesian_product)
qed

lemma progress_measure:
  assumes ok: "cg_ok (consGraph st')" and gep: "gep_ok field l (consGraph st') p (handledGEPMap st')"
    and B: "getNodeNum (consGraph st') \<le> B" and num: "getNodeNum (consGraph st') = getNodeNum (consGraph st)"
    and sub: "edgeSet (consGraph st) \<subseteq> edgeSet (consGraph st')" "handledSet (handledGEPMap st) \<subseteq> handledSet (handledGEPMap st')"
    and prog: "progress st st'"
  shows "round_measure B st' < round_measure B st"
proof -
  let ?E = "edgeSet (consGraph st)" and ?E' = "edgeSet (consGraph st')"
  let ?H = "handledSet (handledGEPMap st)" and ?H' = "handledSet (handledGEPMap st')"
  note E = edgeSet_bound [OF ok B] and H = handledSet_bound [OF gep ok B]
  have le: "card ?E \<le> card ?E'" "card ?H \<le> card ?H'" using card_mono [OF E(1) sub(1)] card_mono [OF H(1) sub(2)] .
  have "(\<exists>x. x \<in> ?E' \<and> x \<notin> ?E) \<or> (\<exists>x. x \<in> ?H' \<and> x \<notin> ?H)"
    using prog num by (auto simp: progress_def edgeSet_def handledSet_def)
  then have "?E \<subset> ?E' \<or> ?H \<subset> ?H'" using sub by blast
  then have "card ?E + card ?H < card ?E' + card ?H'"
    using psubset_card_mono [OF E(1), of ?E] psubset_card_mono [OF H(1), of ?H] le by linarith
  moreover have "card ?E' + card ?H' \<le> 7 * B * B" using E(2) H(2) by simp
  ultimately show ?thesis by (simp add: round_measure_def)
qed

text \<open>Resizing the lists at the end of a round.\<close>

lemma bitResize_nth:
  "length (bitResize n b bs) = n" "i < n \<Longrightarrow> bitResize n b bs ! i = (if i < length bs then bs ! i else b)"
  by (auto simp: bitResize_def nth_append)

lemma bitResize_all: "length bs \<le> n \<Longrightarrow> list_all (\<lambda>b. b) (bitResize n False bs) \<longleftrightarrow> list_all (\<lambda>b. b) bs \<and> length bs = n"
  by (cases "length bs = n") (simp_all add: bitResize_def list_all_iff set_replicate_conv_if)

lemma solveRound_ok:
  assumes start: "start_inv L field st" and Inv: "Inv (langModel st) (getNodeNum (consGraph st)) (objVec (consGraph st))"
    and contract: "index_ok L field Inv" and spec: "special_ok L (consGraph st)"
    and bound: "\<forall>l n objs. Inv l n objs \<longrightarrow> n \<le> B" and B: "B < sccDone"
  shows "\<exists>st'. solveRound L st = Inr st' \<and> start_inv L field st' \<and>
    Inv (langModel st') (getNodeNum (consGraph st')) (objVec (consGraph st')) \<and> carries (consGraph st) (consGraph st') \<and>
    (if list_all (\<lambda>b. b) (copyWorkList st') then allHandled st' \<and> solved L field st' else (st', st) \<in> solver_rel B)"
proof -
  let ?all = "list_all (\<lambda>b. b)"
  from copyPhase_ok [OF start] obtain sc where sc: "copyPhase L st = Inr sc" "copy_inv L field [] sc" "copy_step st sc" by blast
  let ?g = "consGraph st" and ?gc = "consGraph sc"
  let ?M = "getNodeNum ?gc"
  from sc(2) have base: "base_ok L field sc" and l: "lists_ok ?M sc"
    and copied: "\<And>s d. edge ?gc CCopy s d \<Longrightarrow> set (ptsVec sc ! s) \<subseteq> set (ptsVec sc ! d)"
    and marked: "\<And>n. n < ?M \<Longrightarrow> lsWorkList sc ! n \<Longrightarrow> sat_node L ?gc (ptsVec sc) (handledGEPMap sc) n"
    by (auto simp: copy_inv_def)
  from base have wf: "graph_wf (?gc, ptsVec sc)" and ok: "cg_ok ?gc" and ssa: "ssa_ok L ?gc"
    and gep: "gep_ok field (langModel sc) ?gc (ptsVec sc) (handledGEPMap sc)" by (simp_all add: base_ok_def graph_wf_def)
  from start have ok_st: "cg_ok ?g" by (simp add: start_inv_def base_ok_def graph_wf_def)
  from sc(3) have cs: "carries ?g ?gc" "?M = getNodeNum ?g" "objVec ?gc = objVec ?g" "?gc = ?g \<or> roots ?gc \<subset> roots ?g"
    "langModel sc = langModel st" "handledGEPMap sc = handledGEPMap st" by (simp_all add: copy_step_def)
  let ?s0 = "sc\<lparr> copyWorkList := replicate (length (copyWorkList sc)) True,
    targetList := replicate (length (targetList sc)) True, requiredEdge := [] \<rparr>"
  have spec': "special_ok L ?gc" using special_ok_carries [OF spec ok_st ok cs(1)] .
  have q0: "quiet ?s0" by (simp add: quiet_def list_all_iff)
  have l0: "lists_ok ?M ?s0" using l by (simp add: lists_ok_def)
  have inv0: "ls_ok L field Inv ?s0 ?s0"
    using wf ssa gep Inv copied q0 l0 ls_grow_refl [of ?s0] by (simp add: ls_inv_def cs)
  have wf0: "graph_wf (consGraph ?s0, ptsVec ?s0)" using wf by simp
  have "length (lsWorkList sc) = ?M" using l by (simp add: lists_ok_def)
  then have "getNodeNum (consGraph ?s0) - 0 < Suc (length (lsWorkList sc))" by simp
  from lsLoop_ok [OF inv0 wf0 _ contract _ this] ssa spec' obtain s2 where
    s2: "lsLoop (Suc (length (lsWorkList sc))) L 0 ?s0 = Inr s2" "ls_ok L field Inv ?s0 s2" "ls_grow ?s0 s2"
      "\<And>n. n < ?M \<Longrightarrow> \<not> lsWorkList sc ! n \<Longrightarrow> sat_node L (consGraph s2) (ptsVec s2) (handledGEPMap s2) n" by auto
  note J = ls_invD [OF s2(2)] and G = ls_growD [OF s2(3)]
  let ?n = "getNodeNum (consGraph s2)"
  let ?s' = "s2\<lparr> lsWorkList := replicate ?n True, copyWorkList := bitResize ?n False (copyWorkList s2),
    targetList := bitResize ?n True (targetList s2) \<rparr>"
  have run: "solveRound L st = Inr ?s'" using s2(1) unfolding solveRound_def Let_def sc(1) rbind_Inr by (simp del: lsLoop.simps)
  have len: "length (copyWorkList s2) = ?M" "length (targetList s2) = ?M" "?M \<le> ?n"
    using J(7) G(8) by (simp_all add: lists_ok_def)
  have sat: "sat_node L (consGraph s2) (ptsVec s2) (handledGEPMap s2) n" if n: "n < ?n" for n
  proof (cases "n < ?M")
    case True
    show ?thesis
    proof (cases "lsWorkList sc ! n")
      case marked': True
      then have "sat_node L (consGraph ?s0) (ptsVec ?s0) (handledGEPMap ?s0) n" using marked [OF True] by simp
      then show ?thesis using sat_node_grow [OF s2(3) wf0 J(2)] True by simp
    qed (use s2(4) True in blast)
  next
    case False
    have "\<not> edge (consGraph s2) k n d" "\<not> edge (consGraph s2) k d n" if "workKind k" for k d
      using G(4) [OF that] edgeD(1,2) [OF ok] False by fastforce+
    then show ?thesis by (simp add: sat_node_def workKind_def)
  qed
  have gep2: "gep_ok field (langModel s2) (consGraph s2) (ptsVec s2) (handledGEPMap s2)" using J(8) .
  have n_B: "?n \<le> B" using bound J(5) by blast
  have base2: "base_ok L field s2" using J(1,4) gep2 n_B B by (simp add: base_ok_def)
  have base': "base_ok L field ?s'" using base2 by (simp add: base_ok_def)
  have edges: "set (ptsVec s2 ! s) \<subseteq> set (ptsVec s2 ! d) \<or> recorded L ?M s2 s d" if "edge (consGraph s2) CCopy s d" for s d
    using s2(2) that by (simp add: ls_inv_def)
  have start': "start_inv L field ?s'"
  proof -
    have "\<not> copyWorkList ?s' ! s \<and> needed L ?s' s d" if e: "edge (consGraph s2) CCopy s d" and r: "recorded L ?M s2 s d" for s d
      using r edgeD(1,2) [OF J(2) e] len by (auto simp: recorded_def needed_def bitResize_nth)
    then have e: "set (ptsVec s2 ! s) \<subseteq> set (ptsVec s2 ! d) \<or> (\<not> copyWorkList ?s' ! s \<and> needed L ?s' s d)"
      if "edge (consGraph s2) CCopy s d" for s d using edges [OF that] that by blast
    have "lists_ok ?n ?s'" by (simp add: lists_ok_def bitResize_nth)
    then show ?thesis unfolding start_inv_def using base' sat e by simp
  qed
  have car: "carries ?g (consGraph s2)"
    using carries_trans [OF ok_st ok cs(1)] ls_carries(1) [OF s2(3) _ J(2)] ok by simp
  have all: "?all (copyWorkList ?s') \<longleftrightarrow> ?all (copyWorkList s2) \<and> ?n = ?M"
    using bitResize_all [of "copyWorkList s2" ?n] len by auto
  have q: "quiet s2 \<or> (progress ?s0 s2 \<and> (\<not> ?all (copyWorkList s2) \<or> ?M < ?n))"
    using s2(2) by (simp add: ls_inv_def)
  have last: "allHandled ?s' \<and> solved L field ?s'" if a: "?all (copyWorkList ?s')"
  proof -
    have Q: "quiet s2" and n: "?n = ?M" using a q all by auto
    then have t: "?all (targetList s2)" "requiredEdge s2 = []" by (simp_all add: quiet_def)
    have "bitResize ?n True (targetList s2) = targetList s2" using n len(2) by (simp add: bitResize_def)
    then have "allHandled ?s'" using a t by (simp add: allHandled_def list_all_iff)
    moreover have "\<not> recorded L ?M s2 s d" for s d using t by (simp add: recorded_def)
    then have "solved L field ?s'" using base' sat edges by (simp add: solved_def)
    ultimately show ?thesis by blast
  qed
  have less: "(?s', st) \<in> solver_rel B" if a: "\<not> ?all (copyWorkList ?s')"
  proof -
    have prog: "progress ?s0 s2"
    proof (cases "?M < ?n")
      case True
      then show ?thesis by (simp add: progress_def)
    next
      case False
      then have "\<not> quiet s2" using a all len(3) by (auto simp: quiet_def)
      then show ?thesis using q by blast
    qed
    show ?thesis
    proof (cases "?M < ?n")
      case True
      then have "B - ?n < B - getNodeNum ?g" using n_B cs(2) by linarith
      then show ?thesis by (simp add: solver_rel_def measures_def inv_image_def)
    next
      case False
      then have n: "?n = ?M" using len(3) by simp
      have sup: "superNode (cgNode (consGraph s2) i) = superNode (cgNode ?gc i)" if "i < ?M" for i
        using G(1) that by (simp add: cg_extends_def)
      have roots: "roots (consGraph s2) = roots ?gc" using n sup by (auto simp: roots_def)
      show ?thesis
      proof (cases "?gc = ?g")
        case False
        then have "roots (consGraph s2) \<subset> roots ?g" using cs(4) roots by simp
        moreover have "finite (roots ?g)" by (simp add: roots_def)
        ultimately have "card (roots (consGraph s2)) < card (roots ?g)" using psubset_card_mono by blast
        then show ?thesis using n cs(2) by (simp add: solver_rel_def measures_def inv_image_def)
      next
        case True
        have sub: "edgeSet ?g \<subseteq> edgeSet (consGraph ?s')" "handledSet (handledGEPMap st) \<subseteq> handledSet (handledGEPMap ?s')"
          using G(3) G(6) True cs(6) by (fastforce simp: edgeSet_def handledSet_def)+
        have "progress st ?s'" using prog True cs(6) by (simp add: progress_def)
        then have "round_measure B ?s' < round_measure B st"
          using progress_measure [OF _ _ _ _ sub, of field "langModel s2" "ptsVec s2" B] J(2) gep2 n_B n cs(2) by simp
        then show ?thesis using n cs(2) True roots by (simp add: solver_rel_def measures_def inv_image_def)
      qed
    qed
  qed
  show ?thesis using run start' J(5) car last less by (intro exI [of _ ?s']) simp
qed

section \<open>Runs\<close>

lemma runSolver_mono: "runSolver fuel L st = Inr r \<Longrightarrow> fuel \<le> fuel' \<Longrightarrow> runSolver fuel' L st = Inr r"
proof (induction fuel arbitrary: fuel' st)
  case (Suc fuel)
  then obtain fuel1 where f: "fuel' = Suc fuel1" "fuel \<le> fuel1" by (cases fuel') auto
  from Suc.prems(1) obtain st1 where "solveRound L st = Inr st1"
    "(if list_all (\<lambda>b. b) (copyWorkList st1) then Inr st1 else runSolver fuel L st1) = Inr r" by auto
  then show ?case using Suc.IH [OF _ f(2)] by (auto simp: f(1) split: if_splits)
qed simp

lemma runSolver_ok:
  assumes contract: "index_ok L field Inv" and bound: "\<forall>l n objs. Inv l n objs \<longrightarrow> n \<le> B" and B: "B < sccDone"
    and start: "start_inv L field st" and Inv: "Inv (langModel st) (getNodeNum (consGraph st)) (objVec (consGraph st))"
    and spec: "special_ok L (consGraph st)"
  shows "\<exists>fuel st'. runSolver fuel L st = Inr st' \<and> allHandled st' \<and> solved L field st' \<and> carries (consGraph st) (consGraph st') \<and>
    Inv (langModel st') (getNodeNum (consGraph st')) (objVec (consGraph st'))"
  using start Inv spec
proof (induction st rule: wf_induct_rule [OF wf_measures, of "[\<lambda>st. B - getNodeNum (consGraph st),
    \<lambda>st. card (roots (consGraph st)), round_measure B]"])
  case (1 st)
  from solveRound_ok [OF 1(2,3) contract 1(4) bound B] obtain st1 where
    st1: "solveRound L st = Inr st1" "start_inv L field st1"
      "Inv (langModel st1) (getNodeNum (consGraph st1)) (objVec (consGraph st1))" "carries (consGraph st) (consGraph st1)"
    and cont: "if list_all (\<lambda>b. b) (copyWorkList st1) then allHandled st1 \<and> solved L field st1 else (st1, st) \<in> solver_rel B"
    by blast
  have ok: "cg_ok (consGraph st)" "cg_ok (consGraph st1)"
    using 1(2) st1(2) by (simp_all add: start_inv_def base_ok_def graph_wf_def)
  show ?case
  proof (cases "list_all (\<lambda>b. b) (copyWorkList st1)")
    case True
    then have "runSolver (Suc 0) L st = Inr st1" using st1(1) by simp
    moreover have "allHandled st1 \<and> solved L field st1" using True cont by simp
    ultimately show ?thesis using st1(3,4) by blast
  next
    case False
    then have "(st1, st) \<in> solver_rel B" using cont by simp
    from 1(1) [OF this [unfolded solver_rel_def] st1(2,3) special_ok_carries [OF 1(4) ok st1(4)]] obtain fuel st' where
      st': "runSolver fuel L st1 = Inr st'" "allHandled st'" "solved L field st'" "carries (consGraph st1) (consGraph st')"
        "Inv (langModel st') (getNodeNum (consGraph st')) (objVec (consGraph st'))" by blast
    have "runSolver (Suc fuel) L st = Inr st'" using st1(1) st'(1) False by simp
    then show ?thesis using st'(2,3,5) carries_trans [OF ok st1(4) st'(4)] by blast
  qed
qed

lemma startSolver_inv:
  assumes "graph_wf (g, p)" and "ssa_ok L g" and "getNodeNum g < sccDone"
  shows "start_inv L field (startSolver g p l)"
proof -
  have "s < getNodeNum g" if "edge g CCopy s d" for s d using assms(1) edgeD(1) that by (auto simp: graph_wf_def)
  then show ?thesis
    using assms by (auto simp: start_inv_def startSolver_def base_ok_def gep_ok_def lists_ok_def needed_def)
qed

section \<open>The fixed point\<close>

text \<open>
  Closed under the constraints of \<open>g\<close>: \<open>ptsOf g' p\<close> gives every node the set of the node it was
  collapsed into. Nothing is copied into immutable nodes.
\<close>

definition andersen_closed ::
  "'l lang_model \<Rightarrow> ('l \<Rightarrow> nat \<Rightarrow> llvm_value \<Rightarrow> nat option option) \<Rightarrow> 'l \<Rightarrow> cons_graph \<Rightarrow> cons_graph \<Rightarrow> pts_vec \<Rightarrow> bool" where
  "andersen_closed L field l g g' p \<longleftrightarrow>
     (\<forall>obj < length (objVec g). obj \<in> ptsOf g' p (Suc (objVec g ! obj))) \<and>
     (\<forall>s d. edge g CCopy s d \<longrightarrow> ptsOf g' p s \<subseteq> ptsOf g' p d) \<and>
     (\<forall>s d. edge g CLoad s d \<longrightarrow> (\<forall>obj \<in> ptsOf g' p s. ptsOf g' p (objVec g' ! obj) \<subseteq> ptsOf g' p d)) \<and>
     (\<forall>s d. edge g CStore s d \<longrightarrow> (\<forall>obj \<in> ptsOf g' p d. isImmutable (cgNode g' (objVec g' ! obj)) \<or>
        ptsOf g' p s \<subseteq> ptsOf g' p (objVec g' ! obj))) \<and>
     (\<forall>s d v. edge g COffset s d \<longrightarrow> cgKind (cgNode g d) = PtrNode (Some v) \<longrightarrow>
        (\<forall>obj \<in> ptsOf g' p s. \<exists>r. field l obj v = Some r \<and> (\<forall>f. r = Some f \<longrightarrow> f \<in> ptsOf g' p d))) \<and>
     (\<forall>s d. edge g CSpecial s d \<longrightarrow> (\<forall>obj \<in> ptsOf g' p s. \<forall>(a, b, k) \<in> set (lmProcessSpecial L obj (rep g' s) d).
        isImmutable (cgNode g' b) \<or> ptsOf g' p (consSrc g' k a) \<subseteq> ptsOf g' p b))"

lemma pinned_rep:
  assumes ok: "cg_ok g'" and ssa: "ssa_ok L g'" and d: "d < getNodeNum g'" and p: "pinned g' (rep g' d)"
  shows "rep g' d = d"
proof (rule ccontr)
  assume ne: "rep g' d \<noteq> d"
  have "(d, rep g' d) \<in> (superRel g')\<^sup>*" using getSuperNode_rep(4) [OF cg_okD(2) [OF ok] d] .
  then obtain m where "(m, rep g' d) \<in> superRel g'" using ne by (metis rtranclE)
  then show False using ssa p by (auto simp: ssa_ok_def)
qed

lemma solved_closed:
  assumes solved: "solved L field st" and ok0: "cg_ok g" and car: "carries g (consGraph st)"
  shows "andersen_closed L field (langModel st) g (consGraph st) (ptsVec st)"
proof -
  let ?g = "consGraph st" and ?p = "ptsVec st"
  let ?P = "ptsOf ?g ?p"
  note C = carriesD [OF car]
  from solved have ok: "cg_ok ?g" and p: "pts_wf ?g ?p" and ssa: "ssa_ok L ?g"
    and gep: "gep_ok field (langModel st) ?g ?p (handledGEPMap st)"
    and copied: "\<forall>s d. edge ?g CCopy s d \<longrightarrow> set (?p ! s) \<subseteq> set (?p ! d)"
    and sat: "\<And>n. n < getNodeNum ?g \<Longrightarrow> sat_node L ?g ?p (handledGEPMap st) n"
    by (simp_all add: solved_def base_ok_def graph_wf_def)
  have link: "?P a \<subseteq> ?P b" if "linked ?g a b" "\<not> isImmutable (cgNode ?g b)" "b < getNodeNum ?g" for a b
    using linked_pts [OF that(1) copied] that(2) immutable_rep [OF ok that(3)] by simp
  have E: "edge ?g k (rep ?g s) (rep ?g d)" "s < getNodeNum ?g" "d < getNodeNum ?g" "sat_node L ?g ?p (handledGEPMap st) (rep ?g s)"
    "sat_node L ?g ?p (handledGEPMap st) (rep ?g d)" if "edge g k s d" "k \<noteq> CCopy" for k s d
  proof -
    show s: "s < getNodeNum ?g" and d: "d < getNodeNum ?g" using edgeD(1,2) [OF ok0 that(1)] C(1) by simp_all
    show "edge ?g k (rep ?g s) (rep ?g d)" using C(7) [OF that(1)] that(2) by blast
    show "sat_node L ?g ?p (handledGEPMap st) (rep ?g s)" "sat_node L ?g ?p (handledGEPMap st) (rep ?g d)"
      using sat rep_less [OF ok s] rep_less [OF ok d] by blast+
  qed
  have obj: "obj < length (objVec ?g)" if "obj \<in> ?P n" "n < getNodeNum ?g" for obj n
    using that p rep_less [OF ok that(2)] by (auto simp: ptsOf_def pts_wf_def)
  have mutable: "\<not> isImmutable (cgNode ?g d)" if "edge ?g k (rep ?g s) (rep ?g d)" "k \<noteq> CCopy" "k \<noteq> CSpecial" "d < getNodeNum ?g" for k s d
    using edgeD(7) [OF ok that(1)] that(2,3) immutable_rep [OF ok that(4)] by blast
  have own: "f \<in> ?P (Suc (objVec ?g ! f))" if "f < length (objVec ?g)" for f
  proof -
    have "addrNode ?g (Suc (objVec ?g ! f))" using that by (auto simp: addrNode_def)
    then have "rep ?g (Suc (objVec ?g ! f)) = Suc (objVec ?g ! f)"
      using rep_addr [OF ok] object_node(5) [OF ok that] by blast
    then show ?thesis using p that by (simp add: ptsOf_def pts_wf_def)
  qed
  have addr: "obj \<in> ?P (Suc (objVec g ! obj))" if "obj < length (objVec g)" for obj
    using own [of obj] C(5) [OF that] C(6) that by simp
  have copy: "?P s \<subseteq> ?P d" if "edge g CCopy s d" for s d
    using C(7) [OF that] copied by (auto simp: ptsOf_def)
  have load: "?P (objVec ?g ! obj) \<subseteq> ?P d" if e: "edge g CLoad s d" and o: "obj \<in> ?P s" for s d obj
  proof -
    note F = E [OF e]
    have "linked ?g (objVec ?g ! obj) (rep ?g d)" using F(1,4) o by (auto simp: sat_node_def ptsOf_def)
    then have "linked ?g (objVec ?g ! obj) d" using linked_cong [OF refl rep_rep [OF ok F(3)]] by blast
    then show ?thesis using link mutable [OF F(1)] F(3) by blast
  qed
  have store: "isImmutable (cgNode ?g (objVec ?g ! obj)) \<or> ?P s \<subseteq> ?P (objVec ?g ! obj)"
    if e: "edge g CStore s d" and o: "obj \<in> ?P d" for s d obj
  proof -
    note F = E [OF e]
    have "linked ?g (rep ?g s) (objVec ?g ! obj)" using F(1,5) o by (auto simp: sat_node_def ptsOf_def)
    then have "linked ?g s (objVec ?g ! obj)" using linked_cong [OF rep_rep [OF ok F(2)] refl] by blast
    then show ?thesis using link object_node(1) [OF ok obj [OF o F(3)]] by blast
  qed
  have offset: "\<exists>r. field (langModel st) obj v = Some r \<and> (\<forall>f. r = Some f \<longrightarrow> f \<in> ?P d)"
    if e: "edge g COffset s d" and k: "cgKind (cgNode g d) = PtrNode (Some v)" and o: "obj \<in> ?P s" for s d v obj
  proof -
    note F = E [OF e]
    have d: "rep ?g d = d" using pinned_rep [OF ok ssa F(3)] F(1) by (auto simp: pinned_def)
    have "cgKind (cgNode ?g d) = PtrNode (Some v)" using C(2) edgeD(2) [OF ok0 e] k by simp
    moreover have "obj \<in> set (handledGEPMap st d)" using F(1,4) o unfolding d sat_node_def ptsOf_def by blast
    ultimately obtain r where r: "field (langModel st) obj v = Some r"
      "\<And>f. r = Some f \<Longrightarrow> f < length (objVec ?g) \<and> (linked ?g (Suc (objVec ?g ! f)) d \<or> f \<in> set (?p ! d))"
      using gep unfolding gep_ok_def by blast
    have "f \<in> ?P d" if f: "r = Some f" for f
      using r(2) [OF f] link [OF _ mutable [OF F(1) _ _ F(3)] F(3)] own [of f] d by (auto simp: ptsOf_def)
    with r(1) show ?thesis by blast
  qed
  have special: "isImmutable (cgNode ?g b) \<or> ?P (consSrc ?g k a) \<subseteq> ?P b"
    if e: "edge g CSpecial s d" and o: "obj \<in> ?P s" and x: "(a, b, k) \<in> set (lmProcessSpecial L obj (rep ?g s) d)" for s d obj a b k
  proof -
    note F = E [OF e]
    have d: "rep ?g d = d" using pinned_rep [OF ok ssa F(3)] F(1) by (auto simp: pinned_def)
    have "obj \<in> set (?p ! rep ?g s)" using o by (simp add: ptsOf_def)
    then have "linked ?g (consSrc ?g k a) b \<and> b < getNodeNum ?g"
      using F(1,4) x unfolding d sat_node_def by blast
    then show ?thesis using link by blast
  qed
  show ?thesis
    unfolding andersen_closed_def
  proof (intro conjI allI impI ballI)
    show "case x of (a, b, k) \<Rightarrow> isImmutable (cgNode ?g b) \<or> ?P (consSrc ?g k a) \<subseteq> ?P b"
      if "edge g CSpecial s d" "obj \<in> ?P s" "x \<in> set (lmProcessSpecial L obj (rep ?g s) d)" for s d obj x
      using special [OF that(1,2)] that(3) by (cases x) blast
  qed (rule addr copy load store offset; assumption)+
qed

section \<open>Properties\<close>

lemma solver_closed:
  assumes "graph_wf (g, p)" and "ssa_ok L g" and "index_ok L field Inv" and "special_ok L g"
    and "Inv l (getNodeNum g) (objVec g)" and "\<forall>l n objs. Inv l n objs \<longrightarrow> n \<le> B" and "B < sccDone"
  shows "\<exists>enough st'. (\<forall>fuel \<ge> enough. runSolver fuel L (startSolver g p l) = Inr st') \<and> allHandled st' \<and>
    carries g (consGraph st') \<and> andersen_closed L field (langModel st') g (consGraph st') (ptsVec st') \<and>
    Inv (langModel st') (getNodeNum (consGraph st')) (objVec (consGraph st'))"
proof -
  from assms(5-7) have "getNodeNum g < sccDone" using order_le_less_trans by blast
  from startSolver_inv [OF assms(1,2) this] have start: "start_inv L field (startSolver g p l)" .
  have s: "consGraph (startSolver g p l) = g" "langModel (startSolver g p l) = l" by (simp_all add: startSolver_def)
  from runSolver_ok [OF assms(3,6,7) start] assms(4,5) obtain fuel st' where
    st': "runSolver fuel L (startSolver g p l) = Inr st'" "allHandled st'" "solved L field st'" "carries g (consGraph st')"
    "Inv (langModel st') (getNodeNum (consGraph st')) (objVec (consGraph st'))"
    unfolding s by blast
  have "cg_ok g" using assms(1) by (simp add: graph_wf_def)
  then show ?thesis using solved_closed [OF st'(3) _ st'(4)] st' runSolver_mono [OF st'(1)] by blast
qed

text \<open>
  C2. The solver ends. From any well-formed constraint graph of a program in single-assignment
  form, with a language model within its contract, every run with enough fuel returns without a
  failed assertion, with all work lists handled as \<open>solve\<close> asserts; all nodes, objects and
  constraints of the graph are kept up to collapsing; and the points-to sets are closed under
  all its copy, load, store, offset and special constraints, as Andersen's analysis demands.
\<close>

theorem solver_fixed_point:
  assumes "graph_wf (g, p)" and "ssa_ok L g" and "index_ok L field Inv" and "special_ok L g"
    and "Inv l (getNodeNum g) (objVec g)" and "\<forall>l n objs. Inv l n objs \<longrightarrow> n \<le> B" and "B < sccDone"
  shows "\<exists>enough st'. (\<forall>fuel \<ge> enough. runSolver fuel L (startSolver g p l) = Inr st') \<and> allHandled st' \<and>
    carries g (consGraph st') \<and> andersen_closed L field (langModel st') g (consGraph st') (ptsVec st')"
  using solver_closed [OF assms] by blast

text \<open>
  C12. No round starves a node: after a round the load, store, special and offset constraints of
  every node are worked off for all objects the node points to, whether the node was on the work
  list or is new; and a round that is not the last brings the run nearer to its end.
\<close>

theorem round_handles_all:
  assumes "start_inv L field st" and "index_ok L field Inv" and "special_ok L (consGraph st)"
    and "Inv (langModel st) (getNodeNum (consGraph st)) (objVec (consGraph st))"
    and "\<forall>l n objs. Inv l n objs \<longrightarrow> n \<le> B" and "B < sccDone"
  shows "\<exists>st'. solveRound L st = Inr st' \<and>
    (\<forall>n < getNodeNum (consGraph st'). sat_node L (consGraph st') (ptsVec st') (handledGEPMap st') n) \<and>
    (if list_all (\<lambda>b. b) (copyWorkList st') then allHandled st' else (st', st) \<in> solver_rel B) \<and> wf (solver_rel B)"
proof -
  from solveRound_ok [OF assms(1,4,2,3,5,6)] obtain st' where st': "solveRound L st = Inr st'" "start_inv L field st'"
    "if list_all (\<lambda>b. b) (copyWorkList st') then allHandled st' \<and> solved L field st' else (st', st) \<in> solver_rel B" by blast
  have "list_all (\<lambda>b. b) (lsWorkList st')"
    using st'(1) by (auto simp: solveRound_def Let_def list_all_iff simp del: lsLoop.simps)
  then have "sat_node L (consGraph st') (ptsVec st') (handledGEPMap st') n" if "n < getNodeNum (consGraph st')" for n
    using st'(2) that by (simp add: start_inv_def lists_ok_def list_all_length)
  then show ?thesis using st'(1,3) by (auto simp: solver_rel_def split: if_splits)
qed

text \<open>
  C13. The copy phase, which collapses cycles of copies and follows the components in order, gives
  every copy edge of the graph it started from its effect, although each edge is looked at once
  and only edges that the work lists call for are followed.
\<close>

theorem copy_phase_complete:
  assumes "start_inv L field st"
  shows "\<exists>st'. copyPhase L st = Inr st' \<and> carries (consGraph st) (consGraph st') \<and>
    (\<forall>s d. edge (consGraph st) CCopy s d \<longrightarrow> ptsOf (consGraph st') (ptsVec st') s \<subseteq> ptsOf (consGraph st') (ptsVec st') d)"
proof -
  from copyPhase_ok [OF assms] obtain st' where st': "copyPhase L st = Inr st'" "copy_inv L field [] st'" "copy_step st st'" by blast
  then have "carries (consGraph st) (consGraph st')" by (simp add: copy_step_def)
  moreover have "\<forall>s d. edge (consGraph st') CCopy s d \<longrightarrow> set (ptsVec st' ! s) \<subseteq> set (ptsVec st' ! d)"
    using st'(2) by (simp add: copy_inv_def)
  ultimately show ?thesis using st'(1) carriesD(7) unfolding ptsOf_def by (metis order_refl)
qed

subsection \<open>Witnesses\<close>

text \<open>
  Two objects; two pointers on a cycle; a store and a load through it, an offset from it by the
  instruction 7, and a special constraint. The language model gives each of the two objects one
  field, and special objects ask for the address of the first object.
\<close>

definition solver_ops :: "cg_op list" where
  "solver_ops = [NewObj, NewObj, NewPtr (Some 50), NewPtr (Some 51), NewPtr (Some 52), NewPtr (Some 7),
     NewPtr (Some 54), NewPtr (Some 55), AddCons 0 4 CAddrOf, AddCons 2 5 CAddrOf, AddCons 4 6 CCopy, AddCons 6 4 CCopy,
     AddCons 5 4 CStore, AddCons 6 8 CLoad, AddCons 6 7 COffset, AddCons 5 9 CSpecial]"

type_synonym demo_fields = "(nat \<times> nat option) list"

definition demo_index :: "nat \<Rightarrow> llvm_value \<Rightarrow> demo_fields \<Rightarrow> cons_graph \<times> pts_vec \<Rightarrow>
    (nat option \<times> demo_fields \<times> cons_graph \<times> pts_vec) result" where
  "demo_index objNode v l s =
     (case cgKind (cgNode (fst s) objNode) of
        PtrNode _ \<Rightarrow> Inl AssertFailed
      | ObjNode obj \<Rightarrow>
          (case map_of l obj of
             Some r \<Rightarrow> Inr (map_option (\<lambda>f. objVec (fst s) ! f) r, l, s)
           | None \<Rightarrow>
               if obj < 2 then rbind (cgStep NewObj s) (\<lambda>s'.
                 let f = length (objVec (fst s)) in Inr (Some (objVec (fst s') ! f), (obj, Some f) # l, s'))
               else Inr (None, (obj, None) # l, s)))"

definition demo_lm :: "demo_fields lang_model" where
  "demo_lm = \<lparr> lmIndexObject = demo_index, lmProcessSpecial = (\<lambda>obj s d. [(1, 9, CCopy)]),
     lmIsInstruction = (\<lambda>v. v = 7), hashEdge = (\<lambda>s d. (s + 3 * d) mod 5) \<rparr>"

definition demo_field :: "demo_fields \<Rightarrow> nat \<Rightarrow> llvm_value \<Rightarrow> nat option option" where
  "demo_field l obj v = map_of l obj"

definition demo_Inv :: "demo_fields \<Rightarrow> nat \<Rightarrow> nat list \<Rightarrow> bool" where
  "demo_Inv l n objs \<longleftrightarrow> n + (if map_of l 0 = None then 2 else 0) + (if map_of l 1 = None then 2 else 0) \<le> 14 \<and>
     (\<forall>obj f. map_of l obj = Some (Some f) \<longrightarrow> f < length objs)"

lemma demo_index_ok: "index_ok demo_lm demo_field demo_Inv"
  unfolding index_ok_def
proof (intro allI impI)
  fix l g p obj idx
  assume wf: "graph_wf (g, p)" and Inv: "demo_Inv l (getNodeNum g) (objVec g)" and obj: "obj < length (objVec g)"
  from wf have ok: "cg_ok g" and len: "length p = getNodeNum g" by (simp_all add: graph_wf_def pts_wf_def)
  have kind: "cgKind (cgNode g (objVec g ! obj)) = ObjNode obj" using cg_okD(3) [OF ok] obj by (simp add: objs_ok_def)
  show "\<exists>r l' ops g' p'. lmIndexObject demo_lm (objVec g ! obj) idx l (g, p) = Inr (map_option (\<lambda>f. objVec g' ! f) r, l', g', p') \<and>
     onlyObjects (getNodeNum g) ops \<and> cgRun ops (g, p) = Inr (g', p') \<and> demo_Inv l' (getNodeNum g') (objVec g') \<and>
     demo_field l' obj idx = Some r \<and> (\<forall>f. r = Some f \<longrightarrow> f < length (objVec g')) \<and>
     (\<forall>obj v x. demo_field l obj v = Some x \<longrightarrow> demo_field l' obj v = Some x)"
  proof (cases "map_of l obj")
    case (Some r)
    have "lmIndexObject demo_lm (objVec g ! obj) idx l (g, p) = Inr (map_option (\<lambda>f. objVec g ! f) r, l, g, p)"
      using kind Some by (simp add: demo_lm_def demo_index_def)
    moreover have "onlyObjects (getNodeNum g) []" "cgRun [] (g, p) = Inr (g, p)" by (simp_all add: onlyObjects_def)
    moreover have "\<forall>f. r = Some f \<longrightarrow> f < length (objVec g)" using Inv Some by (auto simp: demo_Inv_def)
    ultimately show ?thesis using Inv Some unfolding demo_field_def by blast
  next
    case None
    show ?thesis
    proof (cases "obj < 2")
      case True
      have less: "length (objVec g) < getNodeNum g + 2" using objVec_le [OF cg_okD(3) [OF ok]] by simp
      from addObjNode_ok [OF ok len refl less] obtain g' where
        g': "addObjNode (length (objVec g)) (g, p) = Inr (getNodeNum g, g', p @ [[], [length (objVec g)]])"
        "getNodeNum g' = getNodeNum g + 2" "objVec g' = objVec g @ [getNodeNum g]" by blast
      let ?p' = "p @ [[], [length (objVec g)]]" and ?l' = "(obj, Some (length (objVec g))) # l"
      have step: "cgStep NewObj (g, p) = Inr (g', ?p')" using g'(1) by simp
      have "lmIndexObject demo_lm (objVec g ! obj) idx l (g, p) =
          Inr (map_option (\<lambda>f. objVec g' ! f) (Some (length (objVec g))), ?l', g', ?p')"
        using kind None True step by (simp add: demo_lm_def demo_index_def Let_def del: cgStep.simps)
      moreover have "onlyObjects (getNodeNum g) [NewObj]" "cgRun [NewObj] (g, p) = Inr (g', ?p')"
        using step by (simp_all add: onlyObjects_def)
      moreover have "obj = 0 \<or> obj = 1" using True by auto
      then have "demo_Inv ?l' (getNodeNum g') (objVec g')"
        using Inv None by (auto simp: demo_Inv_def g'(2,3) less_Suc_eq)
      moreover have "\<forall>x v y. demo_field l x v = Some y \<longrightarrow> demo_field ?l' x v = Some y"
        using None by (auto simp: demo_field_def)
      moreover have "demo_field ?l' obj idx = Some (Some (length (objVec g)))" by (simp add: demo_field_def)
      moreover have "length (objVec g) < length (objVec g')" by (simp add: g'(3))
      ultimately show ?thesis by blast
    next
      case False
      let ?l' = "(obj, None) # l"
      have "lmIndexObject demo_lm (objVec g ! obj) idx l (g, p) = Inr (map_option (\<lambda>f. objVec g ! f) None, ?l', g, p)"
        using kind None False by (simp add: demo_lm_def demo_index_def)
      moreover have "onlyObjects (getNodeNum g) []" "cgRun [] (g, p) = Inr (g, p)" by (simp_all add: onlyObjects_def)
      moreover have "demo_Inv ?l' (getNodeNum g) (objVec g)" using Inv None False by (auto simp: demo_Inv_def)
      moreover have "\<forall>x v y. demo_field l x v = Some y \<longrightarrow> demo_field ?l' x v = Some y"
        using None by (auto simp: demo_field_def)
      moreover have "demo_field ?l' obj idx = Some None" by (simp add: demo_field_def)
      ultimately show ?thesis by blast
    qed
  qed
qed

lemma demo_special_ok:
  assumes "cg_ok g" and "1 < getNodeNum g" "9 < getNodeNum g" and "objVec g \<noteq> []" "objVec g ! 0 = 0"
    and kind: "cgKind (cgNode g 9) = PtrNode (Some v)"
  shows "special_ok demo_lm g"
  unfolding special_ok_def
proof (intro allI impI)
  fix g' p s d obj
  assume wf: "graph_wf (g', p)" and car: "carries g g'"
  note C = carriesD [OF car]
  have n: "1 < getNodeNum g'" "9 < getNodeNum g'" using assms(2,3) C(1) by simp_all
  have o: "0 < length (objVec g)" "0 < length (objVec g')" using assms(4) C(6) by auto
  have "objVec g' ! 0 = 0" using C(5) [OF o(1)] assms(5) by simp
  then have a: "addrNode g' 1" using o(2) by (auto simp: addrNode_def)
  have k: "cgKind (cgNode g' 9) = PtrNode (Some v)" using C(2) [OF assms(3)] kind by simp
  have "\<not> addrNode g' 9"
  proof
    assume "addrNode g' 9"
    moreover have "objs_ok g'" using wf cg_okD(3) by (simp add: graph_wf_def)
    ultimately have "cgKind (cgNode g' 9) = PtrNode None" by (auto simp: addrNode_def objs_ok_def)
    then show False using k by simp
  qed
  then show "\<forall>(a, b, k) \<in> set (lmProcessSpecial demo_lm obj s d).
       a < getNodeNum g' \<and> b < getNodeNum g' \<and> (k = CCopy \<or> k = CAddrOf) \<and> \<not> addrNode g' b \<and>
       (k = CAddrOf \<longrightarrow> isObjKind (cgKind (cgNode g' a))) \<and> (k = CCopy \<longrightarrow> pinned g' (rep g' b) \<longrightarrow> addrNode g' a)"
    using n a by (simp add: demo_lm_def)
qed

text \<open>Single assignment, checked node by node.\<close>

definition ssaCheck :: "(llvm_value \<Rightarrow> bool) \<Rightarrow> cons_graph \<Rightarrow> bool" where
  "ssaCheck inst g \<longleftrightarrow> (let ns = [0..<getNodeNum g];
       pin = (\<lambda>d. list_ex (\<lambda>s. edge g COffset s d \<or> edge g CSpecial s d) ns);
       addr = (\<lambda>n. list_ex (\<lambda>o'. n = Suc o') (objVec g))
     in list_all (\<lambda>d. (pin d \<longrightarrow> \<not> isObjKind (cgKind (cgNode g d)) \<and>
            list_all (\<lambda>s. (edge g CCopy s d \<longrightarrow> addr s) \<and> superNode (cgNode g s) \<noteq> Some d) ns) \<and>
          list_all (\<lambda>s. (edge g CLoad s d \<longrightarrow> \<not> pin d \<and> \<not> addr d) \<and>
            (edge g COffset s d \<longrightarrow> (case cgKind (cgNode g d) of PtrNode (Some v) \<Rightarrow> inst v | _ \<Rightarrow> False))) ns) ns)"

lemma ssaCheck_ok:
  assumes ok: "cg_ok g" and check: "ssaCheck (lmIsInstruction L) g"
  shows "ssa_ok L g"
proof -
  have small: "s < getNodeNum g" "d < getNodeNum g" if "edge g k s d" for k s d using edgeD(1,2) [OF ok that] .
  have addr: "list_ex (\<lambda>o'. n = Suc o') (objVec g) \<longleftrightarrow> addrNode g n" for n
    by (auto simp: list_ex_iff addrNode_def in_set_conv_nth)
  have pin: "list_ex (\<lambda>s. edge g COffset s d \<or> edge g CSpecial s d) [0..<getNodeNum g] \<longleftrightarrow> pinned g d" for d
    using small by (auto simp: list_ex_iff pinned_def)
  have all: "(pinned g d \<longrightarrow> \<not> isObjKind (cgKind (cgNode g d)) \<and> (\<forall>s < getNodeNum g. (edge g CCopy s d \<longrightarrow> addrNode g s) \<and>
      superNode (cgNode g s) \<noteq> Some d)) \<and> (\<forall>s < getNodeNum g. (edge g CLoad s d \<longrightarrow> \<not> pinned g d \<and> \<not> addrNode g d) \<and>
      (edge g COffset s d \<longrightarrow> (case cgKind (cgNode g d) of PtrNode (Some v) \<Rightarrow> lmIsInstruction L v | _ \<Rightarrow> False)))"
    if "d < getNodeNum g" for d
    using check that unfolding ssaCheck_def Let_def pin addr list_all_iff by simp
  show ?thesis
    unfolding ssa_ok_def
  proof (intro conjI allI impI)
    fix d assume p: "pinned g d"
    then have d: "d < getNodeNum g" using small by (auto simp: pinned_def)
    note A = all [OF d]
    show "\<not> isObjKind (cgKind (cgNode g d))" using A p by blast
    show "addrNode g s" if "edge g CCopy s d" for s using A p small(1) [OF that] that by blast
    show "(n, d) \<notin> superRel g" for n using A p by (auto simp: superRel_def)
  next
    fix s d assume e: "edge g CLoad s d"
    show "\<not> pinned g d" "\<not> addrNode g d" using all [OF small(2) [OF e]] small(1) [OF e] e by blast+
  next
    fix s d assume e: "edge g COffset s d"
    have "case cgKind (cgNode g d) of PtrNode (Some v) \<Rightarrow> lmIsInstruction L v | _ \<Rightarrow> False"
      using all [OF small(2) [OF e]] small(1) [OF e] e by blast
    then show "\<exists>v. cgKind (cgNode g d) = PtrNode (Some v) \<and> lmIsInstruction L v"
      by (auto split: cg_kind.splits option.splits)
  qed
qed

definition demo_facts :: "cons_graph \<Rightarrow> bool" where
  "demo_facts g \<longleftrightarrow> getNodeNum g = 10 \<and> objVec g = [0, 2] \<and> ssaCheck (\<lambda>v. v = 7) g \<and>
     cgKind (cgNode g 9) = PtrNode (Some 55) \<and> edge g CCopy 1 4 \<and> edge g CCopy 3 5 \<and> edge g CCopy 4 6 \<and>
     edge g CStore 5 4 \<and> edge g CLoad 6 8 \<and> \<not> isImmutable (cgNode g 0)"

lemma demo_solver:
  "\<exists>g p. cgRun solver_ops (emptyGraph, []) = Inr (g, p) \<and> graph_wf (g, p) \<and> demo_facts g \<and> ssa_ok demo_lm g \<and> special_ok demo_lm g \<and>
     demo_Inv [] (getNodeNum g) (objVec g)"
proof -
  have "map_sum (\<lambda>_. ()) (\<lambda>(g, p). demo_facts g) (cgRun solver_ops (emptyGraph, [])) = Inr True" by code_simp
  then obtain g p where r: "cgRun solver_ops (emptyGraph, []) = Inr (g, p)" "demo_facts g"
    by (auto simp: map_sum_def split: sum.splits)
  have wf: "graph_wf (g, p)" using cgReach_wf [OF cgRun_reach [OF r(1) cgReach.start]] .
  then have ok: "cg_ok g" by (simp add: graph_wf_def)
  have "ssaCheck (lmIsInstruction demo_lm) g" using r(2) by (simp add: demo_facts_def demo_lm_def)
  then have "ssa_ok demo_lm g" using ssaCheck_ok [OF ok] by blast
  moreover have "special_ok demo_lm g" using r(2) by (intro demo_special_ok [OF ok]) (auto simp: demo_facts_def)
  moreover have "demo_Inv [] (getNodeNum g) (objVec g)" using r(2) by (simp add: demo_facts_def demo_Inv_def)
  ultimately show ?thesis using r wf by blast
qed

lemma demo_bound: "\<forall>l n objs. demo_Inv l n objs \<longrightarrow> n \<le> 14" "(14::nat) < sccDone"
  by (auto simp: demo_Inv_def sccDone_def)

lemma andersen_closedD:
  assumes "andersen_closed L field l g g' p"
  shows "obj < length (objVec g) \<Longrightarrow> obj \<in> ptsOf g' p (Suc (objVec g ! obj))"
    "edge g CCopy s d \<Longrightarrow> ptsOf g' p s \<subseteq> ptsOf g' p d"
    "edge g CLoad s d \<Longrightarrow> obj \<in> ptsOf g' p s \<Longrightarrow> ptsOf g' p (objVec g' ! obj) \<subseteq> ptsOf g' p d"
    "edge g CStore s d \<Longrightarrow> obj \<in> ptsOf g' p d \<Longrightarrow>
       isImmutable (cgNode g' (objVec g' ! obj)) \<or> ptsOf g' p s \<subseteq> ptsOf g' p (objVec g' ! obj)"
  using assms by (simp_all add: andersen_closed_def)

text \<open>The load gets the object that was stored through the cycle, the special constraint its address.\<close>

lemma solver_fixed_point_witness:
  "\<exists>g p fuel st'. cgRun solver_ops (emptyGraph, []) = Inr (g, p) \<and> runSolver fuel demo_lm (startSolver g p []) = Inr st' \<and>
     allHandled st' \<and> 0 \<in> ptsOf (consGraph st') (ptsVec st') 6 \<and> 1 \<in> ptsOf (consGraph st') (ptsVec st') 8"
proof -
  from demo_solver obtain g p where r: "cgRun solver_ops (emptyGraph, []) = Inr (g, p)" "graph_wf (g, p)" "demo_facts g"
    "ssa_ok demo_lm g" "special_ok demo_lm g" "demo_Inv [] (getNodeNum g) (objVec g)" by blast
  from solver_fixed_point [OF r(2,4) demo_index_ok r(5,6) demo_bound] obtain enough st' where
    st': "runSolver enough demo_lm (startSolver g p []) = Inr st'" "allHandled st'" "carries g (consGraph st')"
      "andersen_closed demo_lm demo_field (langModel st') g (consGraph st') (ptsVec st')" by blast
  let ?P = "ptsOf (consGraph st') (ptsVec st')"
  from r(3) have F: "objVec g = [0, 2]" "getNodeNum g = 10" "edge g CCopy 1 4" "edge g CCopy 3 5" "edge g CCopy 4 6"
    "edge g CStore 5 4" "edge g CLoad 6 8" "\<not> isImmutable (cgNode g 0)" by (auto simp: demo_facts_def)
  note C = andersen_closedD [OF st'(4)]
  have o: "objVec (consGraph st') ! 0 = 0" using carriesD(5) [OF st'(3), of 0] F(1) by simp
  have im: "\<not> isImmutable (cgNode (consGraph st') 0)" using carriesD(3) [OF st'(3), of 0] F(2,8) by simp
  have "0 \<in> ?P 1" "1 \<in> ?P 3" using C(1) [of 0] C(1) [of 1] F(1) by (simp_all add: numeral_eq_Suc)
  then have p: "0 \<in> ?P 4" "1 \<in> ?P 5" "0 \<in> ?P 6" using C(2) F(3-5) by blast+
  have "1 \<in> ?P 0" using C(4) [OF F(6) p(1)] p(2) im o by auto
  then have "1 \<in> ?P 8" using C(3) [OF F(7) p(3)] o by auto
  then show ?thesis using r(1) st'(1,2) p(3) by blast
qed

lemma demo_start:
  assumes "graph_wf (g, p)" and "ssa_ok demo_lm g" and "demo_Inv [] (getNodeNum g) (objVec g)"
  shows "start_inv demo_lm demo_field (startSolver g p [])"
proof -
  have "getNodeNum g < sccDone" using assms(3) demo_bound by (auto intro: order_le_less_trans)
  then show ?thesis by (rule startSolver_inv [OF assms(1,2)])
qed

lemma round_handles_all_witness:
  "\<exists>g p st'. cgRun solver_ops (emptyGraph, []) = Inr (g, p) \<and> solveRound demo_lm (startSolver g p []) = Inr st' \<and>
     sat_node demo_lm (consGraph st') (ptsVec st') (handledGEPMap st') 4"
proof -
  from demo_solver obtain g p where r: "cgRun solver_ops (emptyGraph, []) = Inr (g, p)" "graph_wf (g, p)" "demo_facts g"
    "ssa_ok demo_lm g" "special_ok demo_lm g" "demo_Inv [] (getNodeNum g) (objVec g)" by blast
  have s: "consGraph (startSolver g p []) = g" "langModel (startSolver g p []) = []" by (simp_all add: startSolver_def)
  from round_handles_all [OF demo_start [OF r(2,4,6)] demo_index_ok _ _ demo_bound, unfolded s, OF r(5,6)] obtain st' where
    st': "solveRound demo_lm (startSolver g p []) = Inr st'"
    "\<forall>n < getNodeNum (consGraph st'). sat_node demo_lm (consGraph st') (ptsVec st') (handledGEPMap st') n" by blast
  from solveRound_ok [OF demo_start [OF r(2,4,6)] _ demo_index_ok _ demo_bound, unfolded s, OF r(6,5)] st'(1)
  have "getNodeNum g \<le> getNodeNum (consGraph st')" using carriesD(1) by auto
  then show ?thesis using r(1,3) st' by (auto simp: demo_facts_def)
qed

lemma copy_phase_complete_witness:
  "\<exists>g p st'. cgRun solver_ops (emptyGraph, []) = Inr (g, p) \<and> copyPhase demo_lm (startSolver g p []) = Inr st' \<and>
     ptsOf (consGraph st') (ptsVec st') 4 \<subseteq> ptsOf (consGraph st') (ptsVec st') 6"
proof -
  from demo_solver obtain g p where r: "cgRun solver_ops (emptyGraph, []) = Inr (g, p)" "graph_wf (g, p)" "demo_facts g"
    "ssa_ok demo_lm g" "special_ok demo_lm g" "demo_Inv [] (getNodeNum g) (objVec g)" by blast
  have s: "consGraph (startSolver g p []) = g" by (simp add: startSolver_def)
  from copy_phase_complete [OF demo_start [OF r(2,4,6)], unfolded s] r(1,3) show ?thesis
    by (auto simp: demo_facts_def)
qed

end
