(* ===== verification/CallContexts.thy ===== *)
theory CallContexts
  imports LangModel
begin

text \<open>
  Calling contexts of the pointer analysis (src/PointerAnalysis/Context): a ring buffer of the
  last K call sites, the call-site contexts and origin contexts over it, the tables that make
  equal contexts one pointer, and the pair of both that the race detector uses.

  The capacity K is a \<open>uint32_t\<close> template parameter; indices stay below K and
  \<open>last + 1\<close> is at most K, so nothing wraps. The tables are \<open>std::unordered_set\<close>s
  whose hash depends on the compared data only, so a lookup finds an equal element exactly when
  there is one; an element's address is its position, which never changes.
\<close>

section \<open>The ring buffer\<close>

record ring =
  slots :: "llvm_value option list"
  ringLast :: nat

definition ringNew :: "nat \<Rightarrow> ring" where
  "ringNew n = \<lparr> slots = replicate n None, ringLast = 0 \<rparr>"

text \<open>\<open>push\<close> returns the slot it overwrites.\<close>

definition ringPush :: "llvm_value option \<Rightarrow> ring \<Rightarrow> llvm_value option \<times> ring" where
  "ringPush value r =
     (slots r ! ringLast r,
      r\<lparr> slots := (slots r)[ringLast r := value], ringLast := (ringLast r + 1) mod length (slots r) \<rparr>)"

text \<open>An iterator is an index; \<open>end()\<close> has the index K.\<close>

definition ringBegin :: "ring \<Rightarrow> nat" where
  "ringBegin r = ringLast r"

definition ringEnd :: "ring \<Rightarrow> nat" where
  "ringEnd r = length (slots r)"

definition iterNext :: "ring \<Rightarrow> nat \<Rightarrow> nat" where
  "iterNext r i =
     (if (i + 1) mod length (slots r) = ringLast r then length (slots r)
      else (i + 1) mod length (slots r))"

text \<open>The postfix operator returns the advanced iterator, too.\<close>

definition iterNextPost :: "ring \<Rightarrow> nat \<Rightarrow> nat \<times> nat" where
  "iterNextPost r i =
     (let i' = (if (i + 1) mod length (slots r) = ringLast r then length (slots r)
                else (i + 1) mod length (slots r))
      in (i', i'))"

definition iterDeref :: "ring \<Rightarrow> nat \<Rightarrow> llvm_value option result" where
  "iterDeref r i = (if i < length (slots r) then Inr (slots r ! i) else Inl OutOfRange)"

text \<open>The range-based \<open>for\<close> over a buffer, with fuel for the number of steps.\<close>

fun ringWalk :: "nat \<Rightarrow> ring \<Rightarrow> nat \<Rightarrow> llvm_value option list result" where
  "ringWalk 0 r i = (if i = ringEnd r then Inr [] else Inl Diverges)"
| "ringWalk (Suc fuel) r i =
     (if i = ringEnd r then Inr []
      else rbind (iterDeref r i) (\<lambda>x.
        rbind (ringWalk fuel r (iterNext r i)) (\<lambda>xs. Inr (x # xs))))"

definition ringElems :: "ring \<Rightarrow> llvm_value option list result" where
  "ringElems r = ringWalk (length (slots r)) r (ringBegin r)"

section \<open>Call-site contexts\<close>

definition kcsEvolve :: "llvm_module \<Rightarrow> ring \<Rightarrow> llvm_value \<Rightarrow> ring result" where
  "kcsEvolve M prevCtx I = rassert (isCallBase M I) AssertFailed (Inr (snd (ringPush (Some I) prevCtx)))"

fun lastCall :: "llvm_value option \<Rightarrow> llvm_value option list \<Rightarrow> llvm_value option" where
  "lastCall found [] = found"
| "lastCall found (None # xs) = lastCall found xs"
| "lastCall found (Some I # xs) = lastCall (Some I) xs"

definition kcsGetLast :: "ring \<Rightarrow> llvm_value option result" where
  "kcsGetLast r = rbind (ringElems r) (\<lambda>xs. Inr (lastCall None xs))"

definition kcsEmpty :: "ring \<Rightarrow> bool result" where
  "kcsEmpty r = rbind (kcsGetLast r) (\<lambda>x. Inr (x = None))"

fun kcsEqLoop :: "nat \<Rightarrow> ring \<Rightarrow> ring \<Rightarrow> nat \<Rightarrow> nat \<Rightarrow> bool result" where
  "kcsEqLoop 0 a b it1 it2 =
     (if it1 = ringEnd a then rassert (it2 = ringEnd b) AssertFailed (Inr True) else Inl Diverges)"
| "kcsEqLoop (Suc fuel) a b it1 it2 =
     (if it1 = ringEnd a then rassert (it2 = ringEnd b) AssertFailed (Inr True)
      else rbind (iterDeref a it1) (\<lambda>x. rbind (iterDeref b it2) (\<lambda>y.
        if x \<noteq> y then Inr False
        else kcsEqLoop fuel a b (snd (iterNextPost a it1)) (snd (iterNextPost b it2)))))"

definition kcsEq :: "ring \<Rightarrow> ring \<Rightarrow> bool result" where
  "kcsEq a b = kcsEqLoop (length (slots a)) a b (ringBegin a) (ringBegin b)"

text \<open>
  \<open>toString\<close>; \<open>pr\<close> prints an instruction (its text when \<open>detailed\<close>, else its
  address).
\<close>

definition kcsToString :: "(llvm_value \<Rightarrow> string) \<Rightarrow> bool \<Rightarrow> ring \<Rightarrow> string result" where
  "kcsToString pr detailed r = rbind (ringElems r) (\<lambda>xs. Inr (''<'' @
     concat (map (\<lambda>x. case x of None \<Rightarrow> [] | Some I \<Rightarrow> pr I @ (if detailed then '';'' else ''->'')) xs) @ ''>''))"

section \<open>Tables of contexts\<close>

datatype ctx_ptr = InitCtx | GlobCtx | CtxAt nat

definition ctxDeref :: "'c \<Rightarrow> 'c \<Rightarrow> 'c list \<Rightarrow> ctx_ptr \<Rightarrow> 'c" where
  "ctxDeref initC globC ctxSet p = (case p of InitCtx \<Rightarrow> initC | GlobCtx \<Rightarrow> globC | CtxAt i \<Rightarrow> ctxSet ! i)"

fun emplace :: "('c \<Rightarrow> 'c \<Rightarrow> bool) \<Rightarrow> 'c \<Rightarrow> 'c list \<Rightarrow> nat \<times> 'c list" where
  "emplace eq c [] = (0, [c])"
| "emplace eq c (d # ds) =
     (if eq d c then (0, d # ds) else (case emplace eq c ds of (i, es) \<Rightarrow> (Suc i, d # es)))"

definition kcsContextEvolve ::
  "llvm_module \<Rightarrow> nat \<Rightarrow> ring list \<Rightarrow> ctx_ptr \<Rightarrow> llvm_value \<Rightarrow> (ctx_ptr \<times> ring list) result" where
  "kcsContextEvolve M k ctxSet prevCtx I =
     rbind (kcsEvolve M (ctxDeref (ringNew k) (ringNew k) ctxSet prevCtx) I) (\<lambda>c.
       case emplace (\<lambda>a b. kcsEq a b = Inr True) c ctxSet of (i, ctxSet) \<Rightarrow> Inr (CtxAt i, ctxSet))"

text \<open>An origin context grows only at the calls its callback accepts.\<close>

definition originContextEvolve ::
  "(ctx_ptr \<Rightarrow> llvm_value \<Rightarrow> bool) \<Rightarrow> llvm_module \<Rightarrow> nat \<Rightarrow> ring list \<Rightarrow> ctx_ptr \<Rightarrow> llvm_value \<Rightarrow>
     (ctx_ptr \<times> ring list) result" where
  "originContextEvolve callback M k ctxSet prevCtx I =
     (if callback prevCtx I then kcsContextEvolve M k ctxSet prevCtx I else Inr (prevCtx, ctxSet))"

text \<open>The callback \<open>RaceModel\<close> installs, and the default one.\<close>

definition raceOrigin :: "llvm_module \<Rightarrow> ctx_ptr \<Rightarrow> llvm_value \<Rightarrow> bool" where
  "raceOrigin M context I = isInvokingAnOrigin M I"

definition noOrigin :: "ctx_ptr \<Rightarrow> llvm_value \<Rightarrow> bool" where
  "noOrigin context I = False"

section \<open>The contexts of the race detector\<close>

text \<open>\<open>HybridCtx<KOrigin<3>, KCallSite<1>>\<close>: a pair of pointers, in a table of its own.\<close>

record ctx_state =
  originSet :: "ring list"
  callSiteSet :: "ring list"
  hybridSet :: "(ctx_ptr \<times> ctx_ptr) list"

definition releaseCtx :: ctx_state where
  "releaseCtx = \<lparr> originSet = [], callSiteSet = [], hybridSet = [] \<rparr>"

definition hybridDeref :: "ctx_state \<Rightarrow> ctx_ptr \<Rightarrow> ctx_ptr \<times> ctx_ptr" where
  "hybridDeref st p = ctxDeref (InitCtx, InitCtx) (GlobCtx, GlobCtx) (hybridSet st) p"

definition hybridContextEvolve ::
  "llvm_module \<Rightarrow> ctx_state \<Rightarrow> ctx_ptr \<Rightarrow> llvm_value \<Rightarrow> (ctx_ptr \<times> ctx_state) result" where
  "hybridContextEvolve M st prevCtx I =
     (case hybridDeref st prevCtx of (origin, callsite) \<Rightarrow>
        rbind (originContextEvolve (raceOrigin M) M 3 (originSet st) origin I) (\<lambda>(origin, oset).
          rbind (kcsContextEvolve M 1 (callSiteSet st) callsite I) (\<lambda>(callsite, cset).
            case emplace (=) (origin, callsite) (hybridSet st) of (i, hset) \<Rightarrow>
              Inr (CtxAt i, \<lparr> originSet = oset, callSiteSet = cset, hybridSet = hset \<rparr>))))"

text \<open>The context reached by a chain of calls.\<close>

fun evolveAlong ::
  "llvm_module \<Rightarrow> ctx_ptr \<Rightarrow> llvm_value list \<Rightarrow> ctx_state \<Rightarrow> (ctx_ptr \<times> ctx_state) result" where
  "evolveAlong M p [] st = Inr (p, st)"
| "evolveAlong M p (I # Is) st = rbind (hybridContextEvolve M st p I) (\<lambda>(p, st). evolveAlong M p Is st)"

section \<open>The buffer as a queue of fixed length\<close>

definition ring_ok :: "nat \<Rightarrow> ring \<Rightarrow> bool" where
  "ring_ok k r \<longleftrightarrow> length (slots r) = k \<and> ringLast r < k"

text \<open>The contents, oldest first.\<close>

definition calls :: "ring \<Rightarrow> llvm_value option list" where
  "calls r = rotate (ringLast r) (slots r)"

lemma ringNew_ok: "0 < k \<Longrightarrow> ring_ok k (ringNew k)"
  by (simp add: ring_ok_def ringNew_def)

lemma calls_ringNew: "calls (ringNew k) = replicate k None"
  by (simp add: calls_def ringNew_def)

lemma calls_split: "ring_ok k r \<Longrightarrow> calls r = drop (ringLast r) (slots r) @ take (ringLast r) (slots r)"
  by (simp add: ring_ok_def calls_def rotate_drop_take)

lemma calls_length: "length (calls r) = length (slots r)"
  by (simp add: calls_def)

lemma ringPush_ok: "ring_ok k r \<Longrightarrow> ring_ok k (snd (ringPush v r))"
  by (simp add: ring_ok_def ringPush_def)

lemma ringPush_calls:
  assumes "ring_ok k r"
  shows "calls (snd (ringPush v r)) = tl (calls r) @ [v]" "fst (ringPush v r) = hd (calls r)"
proof -
  define l where "l = ringLast r"
  define xs where "xs = slots r"
  have l: "l < length xs" using assms by (simp add: ring_ok_def l_def xs_def)
  then have d: "drop l xs = xs ! l # drop (Suc l) xs" by (simp add: Cons_nth_drop_Suc)
  have "rotate l (xs[l := v]) = v # drop (Suc l) xs @ take l xs"
    using l by (simp add: rotate_drop_take drop_update_cancel upd_conv_take_nth_drop)
  then have "rotate (Suc l) (xs[l := v]) = drop (Suc l) xs @ take l xs @ [v]" by simp
  moreover have "rotate (Suc l mod length xs) (xs[l := v]) = rotate (Suc l) (xs[l := v])"
    using rotate_conv_mod [of "Suc l" "xs[l := v]"] by simp
  moreover have old: "calls r = xs ! l # drop (Suc l) xs @ take l xs"
    using calls_split [OF assms] d by (simp add: l_def xs_def)
  ultimately show "calls (snd (ringPush v r)) = tl (calls r) @ [v]"
    by (simp add: ringPush_def calls_def flip: l_def xs_def)
  show "fst (ringPush v r) = hd (calls r)" using old by (simp add: ringPush_def l_def xs_def)
qed

text \<open>The position of the iterator after \<open>j\<close> steps.\<close>

definition iterAt :: "ring \<Rightarrow> nat \<Rightarrow> nat" where
  "iterAt r j = (if j = length (slots r) then ringEnd r else (ringLast r + j) mod length (slots r))"

lemma iterAt_rules:
  assumes "ring_ok k r"
  shows "iterAt r 0 = ringBegin r" "j < k \<Longrightarrow> iterAt r j \<noteq> ringEnd r" "iterAt r k = ringEnd r"
    "j < k \<Longrightarrow> iterDeref r (iterAt r j) = Inr (calls r ! j)"
    "j < k \<Longrightarrow> iterNext r (iterAt r j) = iterAt r (Suc j)"
proof -
  have k: "length (slots r) = k" "ringLast r < k" using assms by (simp_all add: ring_ok_def)
  show "iterAt r 0 = ringBegin r" using k by (simp add: iterAt_def ringBegin_def)
  show "iterAt r k = ringEnd r" using k by (simp add: iterAt_def)
  assume j: "j < k"
  then have at: "iterAt r j = (ringLast r + j) mod k" using k by (simp add: iterAt_def)
  show "iterAt r j \<noteq> ringEnd r" using j k mod_less_divisor [of k "ringLast r + j"] by (simp add: at ringEnd_def del: mod_less_divisor)
  show "iterDeref r (iterAt r j) = Inr (calls r ! j)"
    using j k nth_rotate [of j "slots r" "ringLast r"] by (simp add: at iterDeref_def calls_def)
  have "(iterAt r j + 1) mod k = (ringLast r + Suc j) mod k" by (simp add: at mod_Suc_eq)
  moreover have "(ringLast r + Suc j) mod k = ringLast r \<longleftrightarrow> Suc j = k"
  proof
    assume "(ringLast r + Suc j) mod k = ringLast r"
    then show "Suc j = k" using j k by (auto simp: mod_if split: if_splits)
  qed (use k in simp)
  ultimately show "iterNext r (iterAt r j) = iterAt r (Suc j)"
    using k j by (auto simp: iterNext_def iterAt_def ringEnd_def)
qed

lemma ringWalk_calls:
  assumes "ring_ok k r" and "j \<le> k"
  shows "ringWalk (k - j) r (iterAt r j) = Inr (drop j (calls r))"
  using assms(2)
proof (induction rule: inc_induct)
  case base
  show ?case using assms(1) by (simp add: iterAt_rules calls_length ring_ok_def)
next
  case (step j)
  then have "k - j = Suc (k - Suc j)" "j < length (calls r)"
    using assms(1) by (simp_all add: calls_length ring_ok_def)
  with step assms(1) show ?case by (simp add: iterAt_rules Cons_nth_drop_Suc)
qed

lemma ringElems_calls: "ring_ok k r \<Longrightarrow> ringElems r = Inr (calls r)"
  using ringWalk_calls [of k r 0] iterAt_rules(1) [of k r] by (simp add: ringElems_def ring_ok_def)

lemma kcsEqLoop_calls:
  assumes "ring_ok k a" and "ring_ok k b" and "j \<le> k"
  shows "kcsEqLoop (k - j) a b (iterAt a j) (iterAt b j) = Inr (drop j (calls a) = drop j (calls b))"
  using assms(3)
proof (induction rule: inc_induct)
  case base
  show ?case using assms(1,2) by (simp add: iterAt_rules calls_length ring_ok_def)
next
  case (step j)
  then have "k - j = Suc (k - Suc j)" "j < length (calls a)" "j < length (calls b)"
    using assms(1,2) by (simp_all add: calls_length ring_ok_def)
  moreover have "snd (iterNextPost r i) = iterNext r i" for r i by (simp add: iterNextPost_def iterNext_def Let_def)
  ultimately show ?case using step assms(1,2) by (simp add: iterAt_rules flip: Cons_nth_drop_Suc)
qed

lemma kcsEq_calls: "ring_ok k a \<Longrightarrow> ring_ok k b \<Longrightarrow> kcsEq a b = Inr (calls a = calls b)"
  using kcsEqLoop_calls [of k a b 0] iterAt_rules(1) [of k a] iterAt_rules(1) [of k b]
  by (simp add: kcsEq_def ring_ok_def)

section \<open>Tables keep one copy of each element\<close>

text \<open>
  What a table asks of its element type: the comparison decides equality of what the elements
  show. Looking up or adding an element then gives equal positions exactly to equal elements,
  and never moves one.
\<close>

locale interned =
  fixes eq :: "'c \<Rightarrow> 'c \<Rightarrow> bool" and seen :: "'c \<Rightarrow> 'v" and ok :: "'c \<Rightarrow> bool"
  assumes eq_seen: "ok a \<Longrightarrow> ok b \<Longrightarrow> eq a b \<longleftrightarrow> seen a = seen b"
begin

lemma emplace_found:
  assumes "emplace eq c tab = (i, tab')" and "ok c" and "\<forall>d \<in> set tab. ok d" and "distinct (map seen tab)"
  shows "i < length tab'" "seen (tab' ! i) = seen c" "distinct (map seen tab')" "\<forall>d \<in> set tab'. ok d"
    "\<exists>new. tab' = tab @ new" "set tab' \<subseteq> insert c (set tab)"
proof -
  have "i < length tab' \<and> seen (tab' ! i) = seen c \<and> distinct (map seen tab') \<and> (\<forall>d \<in> set tab'. ok d) \<and>
      (\<exists>new. tab' = tab @ new) \<and> set tab' \<subseteq> insert c (set tab)"
    using assms
  proof (induction tab arbitrary: i tab')
    case (Cons d ds)
    show ?case
    proof (cases "eq d c")
      case True
      then have "seen d = seen c" using Cons.prems eq_seen by auto
      with True Cons.prems show ?thesis by auto
    next
      case False
      then have ne: "seen d \<noteq> seen c" using Cons.prems eq_seen by auto
      from False Cons.prems obtain j es where rec: "emplace eq c ds = (j, es)" "i = Suc j" "tab' = d # es"
        by (auto split: prod.splits)
      from Cons.IH [OF rec(1)] Cons.prems have IH: "j < length es" "seen (es ! j) = seen c" "distinct (map seen es)"
        "\<forall>d \<in> set es. ok d" "\<exists>new. es = ds @ new" "set es \<subseteq> insert c (set ds)" by auto
      have "seen d \<notin> seen ` set es"
      proof
        assume "seen d \<in> seen ` set es"
        then obtain e where "e \<in> set es" "seen e = seen d" by auto
        with IH(6) ne have "seen d \<in> seen ` set ds" by (metis image_eqI insertE subsetD)
        with Cons.prems(4) show False by simp
      qed
      with IH rec Cons.prems show ?thesis by auto
    qed
  qed auto
  then show "i < length tab'" "seen (tab' ! i) = seen c" "distinct (map seen tab')" "\<forall>d \<in> set tab'. ok d"
    "\<exists>new. tab' = tab @ new" "set tab' \<subseteq> insert c (set tab)" by blast+
qed

end

interpretation kcs_table: interned "\<lambda>a b. kcsEq a b = Inr True" calls "ring_ok k"
  by unfold_locales (simp add: kcsEq_calls)

interpretation hybrid_table: interned "(=)" "\<lambda>c. c" "\<lambda>_. True"
  by unfold_locales simp

section \<open>What a context denotes\<close>

definition lastn :: "nat \<Rightarrow> 'a list \<Rightarrow> 'a list" where
  "lastn k xs = drop (length xs - k) xs"

lemma lastn_Nil [simp]: "lastn k [] = []"
  by (simp add: lastn_def)

text \<open>The buffer after the calls \<open>xs\<close>: the last \<open>k\<close> of them, after null pointers.\<close>

definition padded :: "nat \<Rightarrow> llvm_value list \<Rightarrow> llvm_value option list" where
  "padded k xs = drop (length xs) (replicate k None @ map Some xs)"

lemma padded_snoc: "0 < k \<Longrightarrow> padded k (xs @ [I]) = tl (padded k xs) @ [Some I]"
proof -
  assume "0 < k"
  define L where "L = replicate k None @ map Some xs"
  have "length xs < length L" using \<open>0 < k\<close> by (simp add: L_def)
  then have "drop (Suc (length xs)) (L @ [Some I]) = tl (drop (length xs) L) @ [Some I]"
    by (simp add: drop_Suc tl_drop)
  then show ?thesis by (simp add: padded_def L_def)
qed

lemma padded_lastn: "padded k xs = replicate (k - length xs) None @ map Some (lastn k xs)"
  by (simp add: padded_def lastn_def drop_map)

lemma padded_eq_iff: "padded k xs = padded k ys \<longleftrightarrow> lastn k xs = lastn k ys"
proof
  assume eq: "padded k xs = padded k ys"
  have flt: "concat (map (\<lambda>x. case x of None \<Rightarrow> [] | Some I \<Rightarrow> [I]) (padded k zs)) = lastn k zs" for zs
    by (simp add: padded_lastn comp_def)
  from arg_cong [OF eq, of "\<lambda>l. concat (map (\<lambda>x. case x of None \<Rightarrow> [] | Some I \<Rightarrow> [I]) l)"]
  show "lastn k xs = lastn k ys" by (simp add: flt)
next
  assume eq: "lastn k xs = lastn k ys"
  have "k - length zs = k - length (lastn k zs)" for zs :: "llvm_value list" by (simp add: lastn_def)
  with eq show "padded k xs = padded k ys" unfolding padded_lastn by metis
qed

lemma padded_Nil_iff: "0 < k \<Longrightarrow> padded k xs = replicate k None \<longleftrightarrow> xs = []"
  using padded_eq_iff [of k xs "[]"] by (auto simp: padded_lastn lastn_def)

definition table_ok :: "nat \<Rightarrow> ring list \<Rightarrow> bool" where
  "table_ok k tab \<longleftrightarrow> (\<forall>r \<in> set tab. ring_ok k r) \<and> distinct (map calls tab)"

definition denotes :: "nat \<Rightarrow> ring list \<Rightarrow> ctx_ptr \<Rightarrow> llvm_value list \<Rightarrow> bool" where
  "denotes k tab p xs \<longleftrightarrow> (p = InitCtx \<and> xs = []) \<or>
     (\<exists>i < length tab. p = CtxAt i \<and> xs \<noteq> [] \<and> calls (tab ! i) = padded k xs)"

lemma denotes_grow: "denotes k tab p xs \<Longrightarrow> denotes k (tab @ new) p xs"
  by (auto simp: denotes_def nth_append)

lemma denotes_unique:
  assumes "table_ok k tab" and "0 < k" and "denotes k tab p xs" and "denotes k tab q ys"
  shows "p = q \<longleftrightarrow> lastn k xs = lastn k ys"
proof -
  have nil: "lastn k zs = [] \<longleftrightarrow> zs = []" for zs :: "llvm_value list"
    using assms(2) by (cases zs) (auto simp: lastn_def)
  have "i = j \<longleftrightarrow> padded k xs = padded k ys"
    if "i < length tab" "calls (tab ! i) = padded k xs" "j < length tab" "calls (tab ! j) = padded k ys" for i j
  proof -
    from assms(1) have "distinct (map calls tab)" by (simp add: table_ok_def)
    from nth_eq_iff_index_eq [OF this, of i j] that show ?thesis by auto
  qed
  with assms(3,4) show ?thesis
    by (auto simp: denotes_def padded_eq_iff nil) (use nil [of ys] in \<open>simp add: lastn_def\<close>)
qed

lemma kcsContextEvolve_denotes:
  assumes tab: "table_ok k tab" "0 < k" and p: "denotes k tab p xs" and I: "isCallBase M I"
  shows "\<exists>q tab'. kcsContextEvolve M k tab p I = Inr (q, tab') \<and> table_ok k tab' \<and> denotes k tab' q (xs @ [I]) \<and>
    (\<exists>new. tab' = tab @ new)"
proof -
  let ?old = "ctxDeref (ringNew k) (ringNew k) tab p"
  let ?new = "snd (ringPush (Some I) ?old)"
  have old: "ring_ok k ?old" "calls ?old = padded k xs"
    using p tab by (auto simp: denotes_def ctxDeref_def table_ok_def ringNew_ok calls_ringNew padded_def)
  obtain i tab' where em: "emplace (\<lambda>a b. kcsEq a b = Inr True) ?new tab = (i, tab')" by fastforce
  have ok: "\<forall>d \<in> set tab. ring_ok k d" "distinct (map calls tab)" using tab(1) by (simp_all add: table_ok_def)
  note found = kcs_table.emplace_found [OF em ringPush_ok [OF old(1)] ok]
  have "calls ?new = padded k (xs @ [I])" using ringPush_calls(1) [OF old(1)] old(2) tab(2) by (simp add: padded_snoc)
  with found(1,2) have "denotes k tab' (CtxAt i) (xs @ [I])" by (simp add: denotes_def)
  moreover have "table_ok k tab'" using found(3,4) by (simp add: table_ok_def)
  moreover have "kcsContextEvolve M k tab p I = Inr (CtxAt i, tab')"
    using em I by (simp add: kcsContextEvolve_def kcsEvolve_def)
  ultimately show ?thesis using found(5) by blast
qed

section \<open>The pair of contexts\<close>

definition ctx_ok :: "ctx_state \<Rightarrow> bool" where
  "ctx_ok st \<longleftrightarrow> table_ok 3 (originSet st) \<and> table_ok 1 (callSiteSet st) \<and> distinct (hybridSet st)"

definition pairDenotes :: "llvm_module \<Rightarrow> ctx_state \<Rightarrow> ctx_ptr \<times> ctx_ptr \<Rightarrow> llvm_value list \<Rightarrow> bool" where
  "pairDenotes M st c xs \<longleftrightarrow> denotes 3 (originSet st) (fst c) (filter (isInvokingAnOrigin M) xs) \<and>
     denotes 1 (callSiteSet st) (snd c) xs"

definition hybridDenotes :: "llvm_module \<Rightarrow> ctx_state \<Rightarrow> ctx_ptr \<Rightarrow> llvm_value list \<Rightarrow> bool" where
  "hybridDenotes M st p xs \<longleftrightarrow> (p = InitCtx \<and> xs = []) \<or>
     (\<exists>i < length (hybridSet st). p = CtxAt i \<and> xs \<noteq> [] \<and> pairDenotes M st (hybridSet st ! i) xs)"

definition ctx_extends :: "ctx_state \<Rightarrow> ctx_state \<Rightarrow> bool" where
  "ctx_extends st st' \<longleftrightarrow> (\<exists>a b c. originSet st' = originSet st @ a \<and> callSiteSet st' = callSiteSet st @ b \<and>
     hybridSet st' = hybridSet st @ c)"

lemma ctx_extends_trans: "ctx_extends st st' \<Longrightarrow> ctx_extends st' st'' \<Longrightarrow> ctx_extends st st''"
  by (auto simp: ctx_extends_def)

lemma hybridDenotes_grow: "hybridDenotes M st p xs \<Longrightarrow> ctx_extends st st' \<Longrightarrow> hybridDenotes M st' p xs"
  by (auto simp: hybridDenotes_def ctx_extends_def pairDenotes_def nth_append intro: denotes_grow)

lemma hybridDenotes_unique:
  assumes ok: "ctx_ok st" and p: "hybridDenotes M st p xs" and q: "hybridDenotes M st q ys"
  shows "p = q \<longleftrightarrow> lastn 3 (filter (isInvokingAnOrigin M) xs) = lastn 3 (filter (isInvokingAnOrigin M) ys) \<and>
    lastn 1 xs = lastn 1 ys"
proof -
  have nil: "lastn (Suc 0) zs = [] \<longleftrightarrow> zs = []" for zs :: "llvm_value list" by (cases zs) (auto simp: lastn_def)
  have pair: "c = d \<longleftrightarrow> lastn 3 (filter (isInvokingAnOrigin M) xs) = lastn 3 (filter (isInvokingAnOrigin M) ys) \<and>
      lastn 1 xs = lastn 1 ys" if "pairDenotes M st c xs" "pairDenotes M st d ys" for c d
    using that ok denotes_unique [of 3 "originSet st" "fst c" _ "fst d"]
      denotes_unique [of 1 "callSiteSet st" "snd c" xs "snd d" ys]
    by (auto simp: pairDenotes_def ctx_ok_def prod_eq_iff)
  have index: "hybridSet st ! i = hybridSet st ! j \<longleftrightarrow> i = j"
    if "i < length (hybridSet st)" "j < length (hybridSet st)" for i j
    using ok that by (simp add: ctx_ok_def nth_eq_iff_index_eq)
  show ?thesis
  proof (cases "xs = [] \<or> ys = []")
    case True
    then show ?thesis using p q nil [of xs] nil [of ys] by (auto simp: hybridDenotes_def)
  next
    case False
    with p q obtain i j where "i < length (hybridSet st)" "p = CtxAt i" "pairDenotes M st (hybridSet st ! i) xs"
      "j < length (hybridSet st)" "q = CtxAt j" "pairDenotes M st (hybridSet st ! j) ys"
      by (auto simp: hybridDenotes_def)
    with pair [of "hybridSet st ! i" "hybridSet st ! j"] index [of i j] show ?thesis by simp
  qed
qed

lemma originContextEvolve_denotes:
  assumes "table_ok 3 tab" and "denotes 3 tab p (filter (isInvokingAnOrigin M) xs)" and "isCallBase M I"
  shows "\<exists>q tab'. originContextEvolve (raceOrigin M) M 3 tab p I = Inr (q, tab') \<and> table_ok 3 tab' \<and>
    denotes 3 tab' q (filter (isInvokingAnOrigin M) (xs @ [I])) \<and> (\<exists>new. tab' = tab @ new)"
  using kcsContextEvolve_denotes [OF assms(1) _ assms(2,3)] assms(1,2)
  by (simp add: originContextEvolve_def raceOrigin_def)

lemma hybridContextEvolve_denotes:
  assumes ok: "ctx_ok st" and p: "hybridDenotes M st p xs" and I: "isCallBase M I"
  shows "\<exists>q st'. hybridContextEvolve M st p I = Inr (q, st') \<and> ctx_ok st' \<and> hybridDenotes M st' q (xs @ [I]) \<and>
    ctx_extends st st'"
proof -
  obtain oc cc where old: "hybridDeref st p = (oc, cc)" by fastforce
  have oc: "denotes 3 (originSet st) oc (filter (isInvokingAnOrigin M) xs)" "denotes 1 (callSiteSet st) cc xs"
    using p old by (auto simp: hybridDenotes_def hybridDeref_def ctxDeref_def pairDenotes_def denotes_def)
  from originContextEvolve_denotes [OF _ oc(1) I] ok obtain oc' oset where
    oc': "originContextEvolve (raceOrigin M) M 3 (originSet st) oc I = Inr (oc', oset)" "table_ok 3 oset"
    "denotes 3 oset oc' (filter (isInvokingAnOrigin M) (xs @ [I]))" "\<exists>new. oset = originSet st @ new"
    by (auto simp: ctx_ok_def)
  from kcsContextEvolve_denotes [OF _ _ oc(2) I] ok obtain cc' cset where
    cc': "kcsContextEvolve M 1 (callSiteSet st) cc I = Inr (cc', cset)" "table_ok 1 cset"
    "denotes 1 cset cc' (xs @ [I])" "\<exists>new. cset = callSiteSet st @ new"
    by (auto simp: ctx_ok_def)
  obtain i hset where em: "emplace (=) (oc', cc') (hybridSet st) = (i, hset)" by fastforce
  have d: "distinct (map (\<lambda>c. c) (hybridSet st))" using ok by (simp add: ctx_ok_def)
  note found = hybrid_table.emplace_found [OF em _ _ d, simplified]
  let ?st = "\<lparr> originSet = oset, callSiteSet = cset, hybridSet = hset \<rparr>"
  have "hybridContextEvolve M st p I = Inr (CtxAt i, ?st)"
    by (simp add: hybridContextEvolve_def old oc'(1) cc'(1) [simplified] em)
  moreover have "ctx_ok ?st" using found(3) oc'(2) cc'(2) by (simp add: ctx_ok_def)
  moreover have "hybridDenotes M ?st (CtxAt i) (xs @ [I])"
    using found(1,2) oc'(3) cc'(3) by (simp add: hybridDenotes_def pairDenotes_def)
  moreover have "ctx_extends st ?st" using found oc'(4) cc'(4) by (auto simp: ctx_extends_def)
  ultimately show ?thesis by blast
qed

lemma evolveAlong_denotes:
  assumes "ctx_ok st" and "hybridDenotes M st p xs" and "\<forall>I \<in> set Is. isCallBase M I"
  shows "\<exists>q st'. evolveAlong M p Is st = Inr (q, st') \<and> ctx_ok st' \<and> hybridDenotes M st' q (xs @ Is) \<and>
    ctx_extends st st'"
  using assms
proof (induction Is arbitrary: p xs st)
  case Nil
  then show ?case by (auto simp: ctx_extends_def)
next
  case (Cons I Is)
  from hybridContextEvolve_denotes [OF Cons.prems(1,2), of I] Cons.prems(3) obtain q st1 where
    q: "hybridContextEvolve M st p I = Inr (q, st1)" "ctx_ok st1" "hybridDenotes M st1 q (xs @ [I])" "ctx_extends st st1"
    by auto
  from Cons.IH [OF q(2,3)] Cons.prems(3) obtain q' st2 where
    "evolveAlong M q Is st1 = Inr (q', st2)" "ctx_ok st2" "hybridDenotes M st2 q' (xs @ I # Is)" "ctx_extends st1 st2"
    by auto
  with q show ?case by (auto intro: ctx_extends_trans)
qed

section \<open>Properties\<close>

text \<open>
  C21. Contexts are exactly the bounded call strings they stand for: after any two chains of calls
  from the initial context, in tables of any contents, the detector holds the same pointer if and
  only if the last three thread-creating calls and the last call agree.
\<close>

theorem contexts_exact:
  assumes "ctx_ok st" and "\<forall>I \<in> set xs \<union> set ys. isCallBase M I"
  shows "\<exists>p st1 q st2. evolveAlong M InitCtx xs st = Inr (p, st1) \<and> evolveAlong M InitCtx ys st1 = Inr (q, st2) \<and>
    (p = q \<longleftrightarrow> lastn 3 (filter (isInvokingAnOrigin M) xs) = lastn 3 (filter (isInvokingAnOrigin M) ys) \<and>
       lastn 1 xs = lastn 1 ys)"
proof -
  have init: "hybridDenotes M s InitCtx []" for s by (simp add: hybridDenotes_def)
  from evolveAlong_denotes [OF assms(1) init] assms(2) obtain p st1 where
    p: "evolveAlong M InitCtx xs st = Inr (p, st1)" "ctx_ok st1" "hybridDenotes M st1 p xs" by fastforce
  from evolveAlong_denotes [OF p(2) init] assms(2) obtain q st2 where
    q: "evolveAlong M InitCtx ys st1 = Inr (q, st2)" "ctx_ok st2" "hybridDenotes M st2 q ys" "ctx_extends st1 st2"
    by fastforce
  from hybridDenotes_unique [OF q(2) hybridDenotes_grow [OF p(3) q(4)] q(3)] p(1) q(1) show ?thesis by blast
qed

text \<open>
  C22. A call-site context of capacity K holds the last K calls, in order, behind null pointers
  while there are fewer; its last call is the newest one and it is empty before the first.
\<close>

theorem context_bounded:
  assumes "0 < k" and "rfold (\<lambda>I r. kcsEvolve M r I) xs (ringNew k) = Inr r"
  shows "ringElems r = Inr (replicate (k - length xs) None @ map Some (lastn k xs)) \<and> length (slots r) = k \<and>
    kcsGetLast r = Inr (if xs = [] then None else Some (last xs)) \<and> kcsEmpty r = Inr (xs = [])"
proof -
  have "ring_ok k r \<and> calls r = padded k (ys @ xs)"
    if "ring_ok k r0" "calls r0 = padded k ys" "rfold (\<lambda>I r. kcsEvolve M r I) xs r0 = Inr r" for r0 ys
    using that
  proof (induction xs arbitrary: r0 ys)
    case (Cons I xs)
    then have rest: "rfold (\<lambda>I r. kcsEvolve M r I) xs (snd (ringPush (Some I) r0)) = Inr r"
      by (simp add: kcsEvolve_def)
    from Cons.IH [OF ringPush_ok [OF Cons.prems(1)] _ rest, of "ys @ [I]"] Cons.prems(1,2) assms(1)
    show ?case by (simp add: ringPush_calls padded_snoc)
  qed simp
  from this [OF ringNew_ok [OF assms(1)] _ assms(2), of "[]"]
  have r: "ring_ok k r" "calls r = padded k xs" by (simp_all add: calls_ringNew padded_def)
  have newest: "lastCall d (us @ [Some I]) = Some I" for d us I
    by (induction d us rule: lastCall.induct) simp_all
  have nils: "lastCall None (replicate m None) = None" for m by (induction m) simp_all
  have "lastCall None (padded k xs) = (if xs = [] then None else Some (last xs))"
  proof (cases xs rule: rev_cases)
    case Nil
    then show ?thesis by (simp add: padded_def nils)
  next
    case (snoc ys y)
    then show ?thesis using assms(1) by (simp add: padded_snoc newest)
  qed
  with r ringElems_calls [OF r(1)] show ?thesis
    by (simp add: kcsGetLast_def kcsEmpty_def ring_ok_def flip: padded_lastn)
qed

subsection \<open>Witnesses\<close>

text \<open>Calls 1 to 4 create threads, 5 and 6 do not.\<close>

definition ctx_module :: llvm_module where
  "ctx_module = empty_module
     \<lparr> classOf := (\<lambda>v. CallInst), getCalledFunction := (\<lambda>v. if v < 5 then Some 20 else Some 21),
       hasName := (\<lambda>v. v = 20), getName := (\<lambda>v. ''pthread_create'') \<rparr>"

lemma contexts_exact_witness:
  "\<exists>p st1 q st2. evolveAlong ctx_module InitCtx [1, 2, 5, 3, 4, 6] releaseCtx = Inr (p, st1) \<and>
     evolveAlong ctx_module InitCtx [2, 3, 5, 4, 5, 6] st1 = Inr (q, st2) \<and> p = q"
proof -
  have ok: "ctx_ok releaseCtx" by (simp add: ctx_ok_def releaseCtx_def table_ok_def)
  have calls: "\<forall>I \<in> set [1, 2, 5, 3, 4, 6] \<union> set [2, 3, 5, 4, 5, 6]. isCallBase ctx_module I" by code_simp
  have "lastn 3 (filter (isInvokingAnOrigin ctx_module) [1, 2, 5, 3, 4, 6]) =
      lastn 3 (filter (isInvokingAnOrigin ctx_module) [2, 3, 5, 4, 5, 6])
    \<and> lastn 1 [1, 2, 5, 3, 4, 6] = lastn 1 [2, 3, 5, 4, 5, 6 :: nat]" by code_simp
  with contexts_exact [OF ok calls] show ?thesis by blast
qed

lemma context_bounded_witness:
  "\<exists>r. rfold (\<lambda>I r. kcsEvolve ctx_module r I) [1, 2, 3, 4] (ringNew 3) = Inr r \<and>
     ringElems r = Inr [Some 2, Some 3, Some 4] \<and> kcsGetLast r = Inr (Some 4)"
proof -
  obtain r where r: "rfold (\<lambda>I r. kcsEvolve ctx_module r I) [1, 2, 3, 4] (ringNew 3) = Inr r"
    by (simp add: kcsEvolve_def isCallBase_def ctx_module_def)
  from context_bounded [OF _ r] have "ringElems r = Inr [Some 2, Some 3, Some 4] \<and> kcsGetLast r = Inr (Some 4)"
    by (simp add: lastn_def)
  with r show ?thesis by blast
qed

end
