(* ===== verification/MemBlocks.thy ===== *)
theory MemBlocks
  imports TypeUtil SolverFix CallContexts
begin

text \<open>
  Memory blocks and their objects (MemBlock.h, FSObject.h of
  src/PointerAnalysis/Models/MemoryModel/FieldSensitive and Object.h of src/PointerAnalysis/Program). A block stands for one
  allocation site. A block of an aggregate has a slot for every element of its layout, and the
  object of a slot is made when it is first asked for; a scalar or field-insensitive block has one
  object. Objects and blocks are numbers, positions in the lists of the memory; the number of an object
  is its \<open>objID\<close>, which the constraint graph uses as well.

  What the code asks of a \<open>getelementptr\<close> is a parameter (\<open>gep_view\<close>), and so are the options of
  the command line.
\<close>

section \<open>State\<close>

datatype alloc_kind = AStack | AHeap | AFunctions | AGlobals | AAnonymous | ANull | AUniversal

text \<open>
  A special object is a \<open>std::vector\<close> with the type of its elements and the object that stands for
  them, that object itself, or a vtable pointer with the name of the vtable.
\<close>

datatype object_kind = NormalObj | VectorObj ll_type nat | VectorElem | VTablePtrObj string

record fs_object =
  objBlock :: "nat option"
  objOffset :: nat
  objKind :: object_kind
  allowIndex :: bool
  objImmutable :: bool
  objNode :: "nat option"

datatype block_kind = Aggregate mem_layout | FIBlock | ScalarBlock

record mem_block =
  blkKind :: block_kind
  blkContext :: ctx_ptr
  blkValue :: "llvm_value option"
  blkAlloc :: alloc_kind
  blkImmutable :: bool
  fieldObjs :: "nat option list"
  fieldType :: "ll_type option list"

record fs_mem =
  fsObjs :: "fs_object list"
  fsBlocks :: "mem_block list"
  memBlockMap :: "ctx_ptr \<times> llvm_value \<Rightarrow> nat option"
  layoutManager :: layout_manager

record pta_opts =
  memlayoutFiltering :: bool
  useFIMode :: bool
  vtableMode :: bool
  anonRecLimit :: nat
  anonRecDepthLimit :: nat

definition newObj :: "nat option \<Rightarrow> nat \<Rightarrow> object_kind \<Rightarrow> bool \<Rightarrow> fs_object" where
  "newObj block pOffset kind indexable = \<lparr> objBlock = block, objOffset = pOffset, objKind = kind,
     allowIndex = indexable, objImmutable = False, objNode = None \<rparr>"

definition addObject :: "fs_object \<Rightarrow> fs_mem \<Rightarrow> nat \<times> fs_mem" where
  "addObject obj mem = (length (fsObjs mem), mem\<lparr> fsObjs := fsObjs mem @ [obj] \<rparr>)"

definition updObj :: "nat \<Rightarrow> (fs_object \<Rightarrow> fs_object) \<Rightarrow> fs_mem \<Rightarrow> fs_mem" where
  "updObj i f mem = mem\<lparr> fsObjs := (fsObjs mem)[i := f (fsObjs mem ! i)] \<rparr>"

definition updBlock :: "nat \<Rightarrow> (mem_block \<Rightarrow> mem_block) \<Rightarrow> fs_mem \<Rightarrow> fs_mem" where
  "updBlock b f mem = mem\<lparr> fsBlocks := (fsBlocks mem)[b := f (fsBlocks mem ! b)] \<rparr>"

section \<open>Nodes of objects\<close>

definition getObjNode :: "fs_mem \<Rightarrow> nat \<Rightarrow> nat result" where
  "getObjNode mem obj = (case objNode (fsObjs mem ! obj) of None \<Rightarrow> Inl AssertFailed | Some n \<Rightarrow> Inr n)"

definition setObjNode :: "nat \<Rightarrow> nat \<Rightarrow> fs_mem \<Rightarrow> cons_graph \<Rightarrow> (fs_mem \<times> cons_graph) result" where
  "setObjNode obj node mem g = rassert (objNode (fsObjs mem ! obj) = None) AssertFailed
     (Inr (updObj obj (\<lambda>x. x\<lparr> objNode := Some node \<rparr>) mem,
           if objImmutable (fsObjs mem ! obj) then setImmutable node g else g))"

definition isSpecialObject :: "fs_object \<Rightarrow> bool" where
  "isSpecialObject x \<longleftrightarrow> objKind x \<noteq> NormalObj"

text \<open>\<open>createNode\<close> of the memory model, and \<open>initWithNode\<close> of a special object.\<close>

definition createNode :: "nat \<Rightarrow> fs_mem \<Rightarrow> cons_graph \<times> pts_vec \<Rightarrow> (nat \<times> fs_mem \<times> cons_graph \<times> pts_vec) result" where
  "createNode obj mem s =
     rbind (addObjNode obj s) (\<lambda>(node, g, p).
     rbind (setObjNode obj node mem g) (\<lambda>(mem, g). Inr (node, mem, g, p)))"

definition setObjImmutable :: "nat \<Rightarrow> fs_mem \<times> cons_graph \<Rightarrow> fs_mem \<times> cons_graph" where
  "setObjImmutable obj = (\<lambda>(mem, g).
     (updObj obj (\<lambda>x. x\<lparr> objImmutable := True \<rparr>) mem,
      case objNode (fsObjs mem ! obj) of None \<Rightarrow> g | Some n \<Rightarrow> setImmutable n g))"

section \<open>Blocks\<close>

definition makeField :: "nat \<Rightarrow> nat \<Rightarrow> nat \<Rightarrow> bool \<Rightarrow> fs_mem \<Rightarrow> nat \<times> fs_mem" where
  "makeField b fieldNum pOffset immutable mem =
     (let (obj, mem) = addObject (newObj (Some b) pOffset NormalObj True\<lparr> objImmutable := immutable \<rparr>) mem in
      (obj, updBlock b (\<lambda>x. x\<lparr> fieldObjs := (fieldObjs x)[fieldNum := Some obj] \<rparr>) mem))"

definition indexMemoryBlock :: "bool \<Rightarrow> nat \<Rightarrow> mem_layout \<Rightarrow> nat \<Rightarrow> fs_mem \<Rightarrow> nat option \<times> fs_mem" where
  "indexMemoryBlock ensurePtr b L pOffset mem =
     (if pOffset = 0 then
        if (if ensurePtr then offsetIsPtr L 0 else True) then
          (case fieldObjs (fsBlocks mem ! b) ! 0 of
             Some obj \<Rightarrow> (Some obj, mem)
           | None \<Rightarrow> map_prod Some id (makeField b 0 0 False mem))
        else (None, mem)
      else
        let (lOffset, pOffset) = indexPhysicalOffset L pOffset in
        if lOffset \<noteq> SIZE_MAX then
          let fieldNum = getLogicalOffset L lOffset in
          if 0 \<le> fieldNum \<and> (if ensurePtr then offsetIsPtr L lOffset else True) then
            (case fieldObjs (fsBlocks mem ! b) ! nat fieldNum of
               Some obj \<Rightarrow> (Some obj, mem)
             | None \<Rightarrow> map_prod Some id (makeField b (nat fieldNum) pOffset (blkImmutable (fsBlocks mem ! b)) mem))
          else (None, mem)
        else (None, mem))"

definition blockObjectAt :: "bool \<Rightarrow> nat \<Rightarrow> nat \<Rightarrow> fs_mem \<Rightarrow> nat option \<times> fs_mem" where
  "blockObjectAt ensurePtr b offset mem =
     (case blkKind (fsBlocks mem ! b) of
        Aggregate L \<Rightarrow> indexMemoryBlock ensurePtr b L offset mem
      | FIBlock \<Rightarrow> (fieldObjs (fsBlocks mem ! b) ! 0, mem)
      | ScalarBlock \<Rightarrow> (if offset = 0 then fieldObjs (fsBlocks mem ! b) ! 0 else None, mem))"

definition getObjectAt :: "nat \<Rightarrow> nat \<Rightarrow> fs_mem \<Rightarrow> nat option \<times> fs_mem" where
  "getObjectAt = blockObjectAt False"

definition getPtrObjectAt :: "nat \<Rightarrow> nat \<Rightarrow> fs_mem \<Rightarrow> nat option \<times> fs_mem" where
  "getPtrObjectAt = blockObjectAt True"

definition setBlockImmutable :: "nat \<Rightarrow> fs_mem \<times> cons_graph \<Rightarrow> fs_mem \<times> cons_graph" where
  "setBlockImmutable b = (\<lambda>(mem, g).
     fold (\<lambda>slot. case slot of None \<Rightarrow> id | Some obj \<Rightarrow> setObjImmutable obj) (fieldObjs (fsBlocks mem ! b))
       (case blkKind (fsBlocks mem ! b) of
          Aggregate L \<Rightarrow> (updBlock b (\<lambda>x. x\<lparr> blkImmutable := True \<rparr>) mem, g) | _ \<Rightarrow> (mem, g)))"

definition initializeOffsetWith :: "nat \<Rightarrow> nat \<Rightarrow> nat \<Rightarrow> fs_mem \<Rightarrow> fs_mem result" where
  "initializeOffsetWith b pOffset obj mem =
     (let put = (\<lambda>fieldNum. updBlock b (\<lambda>x. x\<lparr> fieldObjs := (fieldObjs x)[fieldNum := Some obj] \<rparr>) mem) in
      case blkKind (fsBlocks mem ! b) of
        Aggregate L \<Rightarrow>
          if pOffset = 0 then
            rassert (fieldObjs (fsBlocks mem ! b) ! 0 = None) AssertFailed (Inr (put 0))
          else
            let (lOffset, pOffset) = indexPhysicalOffset L pOffset; fieldNum = getLogicalOffset L lOffset in
            rassert (0 < fieldNum) AssertFailed
            (rassert (fieldObjs (fsBlocks mem ! b) ! nat fieldNum = None) AssertFailed (Inr (put (nat fieldNum))))
      | _ \<Rightarrow> Inl AssertFailed)"

text \<open>The type at an offset is cached by the number of the field.\<close>

definition getOffsetType :: "data_layout \<Rightarrow> nat \<Rightarrow> nat \<Rightarrow> fs_mem \<Rightarrow> (ll_type option \<times> fs_mem) result" where
  "getOffsetType DL b pOffset mem =
     (case blkKind (fsBlocks mem ! b) of
        Aggregate L \<Rightarrow>
          let (lOffset, pOffset) = indexPhysicalOffset L pOffset; fieldNum = getLogicalOffset L lOffset;
              put = (\<lambda>T. updBlock b (\<lambda>x. x\<lparr> fieldType := (fieldType x)[nat fieldNum := Some T] \<rparr>) mem) in
          if fieldNum < 0 then Inr (None, mem)
          else (case fieldType (fsBlocks mem ! b) ! nat fieldNum of
             Some T \<Rightarrow> Inr (Some T, mem)
           | None \<Rightarrow>
               let rootType = memType L in
               if pOffset = 0 then
                 rassert (lOffset = 0 \<and> fieldNum = 0) AssertFailed (Inr (Some rootType, put rootType))
               else (case getTypeAtOffset DL False rootType pOffset of
                   None \<Rightarrow> Inl AssertFailed
                 | Some T \<Rightarrow> Inr (Some T, put T)))
      | _ \<Rightarrow> Inr (None, mem))"

definition validateStepSize :: "nat \<Rightarrow> nat \<Rightarrow> nat \<Rightarrow> fs_mem \<Rightarrow> bool" where
  "validateStepSize b pOffset stepSize mem =
     (case blkKind (fsBlocks mem ! b) of
        Aggregate L \<Rightarrow> isArrayExistAtOffset (subArrays L) pOffset stepSize
      | FIBlock \<Rightarrow> True
      | ScalarBlock \<Rightarrow> False)"

section \<open>Indexing an object\<close>

datatype gep_index = UndefIndex | ConstIndex bool | VarIndex

record gep_view =
  isGEP :: "llvm_value \<Rightarrow> bool"
  hasAllConstantIndices :: "llvm_value \<Rightarrow> bool"
  constantOffset :: "llvm_value \<Rightarrow> int"
  gepElementType :: "llvm_value \<Rightarrow> ll_type"
  gepIndices :: "llvm_value \<Rightarrow> (gep_index \<times> ll_type) list"

fun stepOfIndices :: "data_layout \<Rightarrow> (gep_index \<times> ll_type) list \<Rightarrow> nat result" where
  "stepOfIndices DL [] = Inl Unreachable"
| "stepOfIndices DL ((UndefIndex, T) # rest) = Inr SIZE_MAX"
| "stepOfIndices DL ((ConstIndex zero, T) # rest) = rassert zero AssertFailed (stepOfIndices DL rest)"
| "stepOfIndices DL ((VarIndex, T) # rest) = Inr (getTypeAllocSize DL T)"

definition getGEPStepSize :: "data_layout \<Rightarrow> gep_view \<Rightarrow> llvm_value \<Rightarrow> nat result" where
  "getGEPStepSize DL G GEP =
     rassert (\<not> hasAllConstantIndices G GEP) AssertFailed
     (let idxs = gepIndices G GEP in
      rassert (length idxs = 1 \<or> length idxs = 2 \<or> (length idxs = 3 \<and> fst (idxs ! 2) = UndefIndex)) AssertFailed
      (stepOfIndices DL idxs))"

definition indexAggregate ::
  "data_layout \<Rightarrow> pta_opts \<Rightarrow> gep_view \<Rightarrow> nat \<Rightarrow> mem_layout \<Rightarrow> nat \<Rightarrow> llvm_value \<Rightarrow> bool \<Rightarrow> fs_mem \<Rightarrow>
     (nat option \<times> fs_mem) result" where
  "indexAggregate DL opts G b L obj idx ensurePtr mem =
     (if \<not> isGEP G idx then Inr (None, mem)
      else if hasAllConstantIndices G idx then
        rbind (getOffsetType DL b (objOffset (fsObjs mem ! obj)) mem) (\<lambda>(fieldTy, mem).
          let offset = constantOffset G idx in
          if \<not> memlayoutFiltering opts \<and> 0 \<le> offset \<and> gepElementType G idx \<noteq> i8 \<and>
             \<not> isZeroOffsetTypeInRootType DL fieldTy (Some (gepElementType G idx))
          then Inr (None, mem)
          else
            let off = int (objOffset (fsObjs mem ! obj)) + offset in
            if off < 0 then Inr (None, mem)
            else Inr (indexMemoryBlock ensurePtr b L (nat off mod 2 ^ 32) mem))
      else
        rbind (getGEPStepSize DL G idx) (\<lambda>stepSize.
          if stepSize = SIZE_MAX then Inr (None, mem)
          else if validateStepSize b (objOffset (fsObjs mem ! obj)) stepSize mem then Inr (Some obj, mem)
          else Inr (None, mem)))"

definition blockIndexObject ::
  "data_layout \<Rightarrow> pta_opts \<Rightarrow> gep_view \<Rightarrow> nat \<Rightarrow> nat \<Rightarrow> llvm_value \<Rightarrow> bool \<Rightarrow> fs_mem \<Rightarrow> (nat option \<times> fs_mem) result" where
  "blockIndexObject DL opts G b obj idx ensurePtr mem =
     rassert (objBlock (fsObjs mem ! obj) = Some b) AssertFailed
     (case blkKind (fsBlocks mem ! b) of
        Aggregate L \<Rightarrow> indexAggregate DL opts G b L obj idx ensurePtr mem
      | FIBlock \<Rightarrow> Inr (fieldObjs (fsBlocks mem ! b) ! 0, mem)
      | ScalarBlock \<Rightarrow> Inr (None, mem))"

definition objIndexObject ::
  "data_layout \<Rightarrow> pta_opts \<Rightarrow> gep_view \<Rightarrow> bool \<Rightarrow> nat \<Rightarrow> llvm_value \<Rightarrow> fs_mem \<Rightarrow> (nat option \<times> fs_mem) result" where
  "objIndexObject DL opts G ensurePtr obj idx mem =
     (if allowIndex (fsObjs mem ! obj) then
        (case objBlock (fsObjs mem ! obj) of
           None \<Rightarrow> Inl NullDeref
         | Some b \<Rightarrow> blockIndexObject DL opts G b obj idx ensurePtr mem)
      else Inr (None, mem))"

text \<open>\<open>FSMemModel::indexObject\<close>.\<close>

definition fsIndexObject ::
  "data_layout \<Rightarrow> pta_opts \<Rightarrow> gep_view \<Rightarrow> nat \<Rightarrow> llvm_value \<Rightarrow> fs_mem \<Rightarrow> cons_graph \<times> pts_vec \<Rightarrow>
     (nat option \<times> fs_mem \<times> cons_graph \<times> pts_vec) result" where
  "fsIndexObject DL opts G obj idx mem s =
     rbind (objIndexObject DL opts G False obj idx mem) (\<lambda>(r, mem).
       case r of
         None \<Rightarrow> Inr (None, mem, s)
       | Some f \<Rightarrow>
           (case objNode (fsObjs mem ! f) of
              Some n \<Rightarrow> Inr (Some n, mem, s)
            | None \<Rightarrow> rbind (createNode f mem s) (\<lambda>(n, mem, s). Inr (Some n, mem, s))))"

text \<open>The language model the solver sees: the memory model without special objects.\<close>

definition fsLangModel :: "data_layout \<Rightarrow> pta_opts \<Rightarrow> gep_view \<Rightarrow> (llvm_value \<Rightarrow> bool) \<Rightarrow> (nat \<Rightarrow> nat \<Rightarrow> nat) \<Rightarrow> fs_mem lang_model" where
  "fsLangModel DL opts G isInst hash =
     \<lparr> lmIndexObject = (\<lambda>node idx mem s. case cgKind (cgNode (fst s) node) of
          ObjNode obj \<Rightarrow> fsIndexObject DL opts G obj idx mem s | PtrNode v \<Rightarrow> Inl AssertFailed),
       lmProcessSpecial = (\<lambda>obj s d. []), lmIsInstruction = isInst, hashEdge = hash \<rparr>"

end
