(* ===== verification/MemIndex.thy ===== *)
theory MemIndex
  imports MemBlocks
begin

text \<open>
  Indexing objects is right. A block whose layout comes from the manager has one object for every
  place up to array indices (\<open>slotOf\<close>); the objects and the caches of the memory satisfy \<open>mem_ok\<close>; and
  \<open>FSMemModel::indexObject\<close> keeps the contract \<open>index_ok\<close> under which the solver reaches its fixed
  point.
\<close>

section \<open>Places of a block\<close>

text \<open>The layouts of blocks: collapsed, of a type without empty parts whose first scalar is at its start.\<close>

definition aggType :: "data_layout \<Rightarrow> (bool \<Rightarrow> ll_type \<Rightarrow> bool) \<Rightarrow> ll_type \<Rightarrow> bool" where
  "aggType DL sp T \<longleftrightarrow> request_ok DL sp True T \<and> no_empty DL (sp True) T \<and> scalarAt DL (sp True) T 0 \<noteq> None"

definition aggLayout :: "data_layout \<Rightarrow> (bool \<Rightarrow> ll_type \<Rightarrow> bool) \<Rightarrow> mem_layout \<Rightarrow> bool" where
  "aggLayout DL sp L \<longleftrightarrow> (\<exists>T. aggType DL sp T \<and> L = layoutOf DL (sp True) True T)"

definition placeNumber :: "mem_layout \<Rightarrow> nat \<Rightarrow> int" where
  "placeNumber L p = getLogicalOffset L (fst (indexPhysicalOffset L p))"

definition slotOf :: "mem_layout \<Rightarrow> nat \<Rightarrow> nat option" where
  "slotOf L p = (if p = 0 then Some 0
     else if fst (indexPhysicalOffset L p) \<noteq> SIZE_MAX \<and> 0 \<le> placeNumber L p then Some (nat (placeNumber L p)) else None)"

lemma elems_small:
  assumes "aggType DL sp T" and "l \<in> elems DL (sp True) True T"
  shows "l < SIZE_MAX" and "subs DL (sp True) T = [] \<Longrightarrow> l < rootSize DL T"
proof -
  have ne: "no_empty DL (sp True) T" and rq: "request_ok DL sp True T" using assms(1) by (simp_all add: aggType_def)
  have "l < SIZE_MAX \<and> (subs DL (sp True) T = [] \<longrightarrow> l < rootSize DL T)"
  proof (cases "wf_type DL (sp True) T")
    case True
    from assms(2) have "l \<in> marks (\<lambda>_. True) DL (sp True) T" using elems_marks(1) [OF ne] by simp
    then have "l < getTypeAllocSize DL T" using marks_bound(1) [OF True] logSize_le(1) [OF True] by (meson less_le_trans)
    then show ?thesis using wf_type_size [OF True] rootSize_wf [OF True] rq by (simp add: request_ok_def)
  next
    case False
    with rq have u: "unbounded DL (sp True) T" "\<not> sp True T" by (simp_all add: request_ok_def)
    from u(1) obtain E where T: "T = ArrayTy SIZE_MAX E" "wf_type DL (sp True) E" "0 < getTypeAllocSize DL E" "\<not> isEmpty DL T"
      by (rule unboundedD)
    with ne u(2) have neE: "no_empty DL (sp True) E" by simp
    from assms(2) T u(2) have "l \<in> elems DL (sp True) True E" by simp
    then have "l \<in> marks (\<lambda>_. True) DL (sp True) E" using elems_marks(1) [OF neE] by simp
    then have "l < getTypeAllocSize DL E" using marks_bound(1) [OF T(2)] logSize_le(1) [OF T(2)] by (meson less_le_trans)
    moreover have "subs DL (sp True) T \<noteq> []" using T(1,4) u(2) by (simp add: isEmpty_def)
    ultimately show ?thesis using wf_type_size [OF T(2)] by simp
  qed
  then show "l < SIZE_MAX" "subs DL (sp True) T = [] \<Longrightarrow> l < rootSize DL T" by blast+
qed

lemma layout_finite [simp]: "finite (elementLayout (layoutOf DL sp c T))"
  by (simp add: layoutOf_def finite_elems)

text \<open>An offset has a number exactly when a scalar starts there.\<close>

lemma placeNumber_pos:
  assumes "aggType DL sp T"
  shows "0 \<le> placeNumber (layoutOf DL (sp True) True T) p \<longleftrightarrow> p < rootSize DL T \<and> scalarAt DL (sp True) T p \<noteq> None"
proof -
  let ?L = "layoutOf DL (sp True) True T"
  have ne: "no_empty DL (sp True) T" and rq: "request_ok DL sp True T" using assms by (simp_all add: aggType_def)
  have num: "0 \<le> getLogicalOffset ?L l \<longleftrightarrow> l \<in> elementLayout ?L" for l
    by (simp add: logical_number(1))
  show ?thesis
  proof (cases "p < rootSize DL T")
    case True
    show ?thesis
      unfolding placeNumber_def num index_request [OF rq True] fst_conv element_request [OF rq True ne] using True by simp
  next
    case False
    have "fst (indexPhysicalOffset ?L p) \<notin> elementLayout ?L"
    proof (cases "subs DL (sp True) T = []")
      case True
      then have "fst (indexPhysicalOffset ?L p) = p" by (simp add: indexPhysicalOffset_def hasArray_def layoutOf_def partSubs_def)
      moreover have "p \<notin> elems DL (sp True) True T" using elems_small(2) [OF assms _ True] False by blast
      ultimately show ?thesis by (simp add: layoutOf_def)
    next
      case sub: False
      have "SIZE_MAX \<notin> elems DL (sp True) True T" using elems_small(1) [OF assms] by blast
      moreover have "fst (indexPhysicalOffset ?L p) = SIZE_MAX" using index_beyond [OF _ sub] False by simp
      ultimately show ?thesis by (simp add: layoutOf_def)
    qed
    then show ?thesis using False num by (simp add: placeNumber_def)
  qed
qed

lemma placeNumber_eq:
  assumes "aggType DL sp T" and "0 \<le> placeNumber (layoutOf DL (sp True) True T) p"
    and "placeNumber (layoutOf DL (sp True) True T) p = placeNumber (layoutOf DL (sp True) True T) q"
  shows "canon DL (sp True) T p = canon DL (sp True) T q"
proof -
  let ?L = "layoutOf DL (sp True) True T"
  have ne: "no_empty DL (sp True) T" and rq: "request_ok DL sp True T" using assms(1) by (simp_all add: aggType_def)
  have p: "p < rootSize DL T" "scalarAt DL (sp True) T p \<noteq> None" using placeNumber_pos [OF assms(1)] assms(2) by blast+
  have q: "q < rootSize DL T" "scalarAt DL (sp True) T q \<noteq> None" using placeNumber_pos [OF assms(1)] assms(2,3) by metis+
  have "logOffset DL (sp True) T p \<in> elementLayout ?L" "logOffset DL (sp True) T q \<in> elementLayout ?L"
    using element_request [OF rq _ ne] p q by blast+
  moreover have "getLogicalOffset ?L (logOffset DL (sp True) T p) = getLogicalOffset ?L (logOffset DL (sp True) T q)"
    using assms(3) by (simp add: placeNumber_def index_request [OF rq p(1)] index_request [OF rq q(1)])
  ultimately have "logOffset DL (sp True) T p = logOffset DL (sp True) T q" using number_inj by (metis layout_finite)
  then show ?thesis using logOffset_request_eq [OF rq p(1) q(1)] by blast
qed

lemma placeNumber_same:
  assumes "aggType DL sp T" and "p < rootSize DL T" and "q < rootSize DL T" and "canon DL (sp True) T p = canon DL (sp True) T q"
  shows "placeNumber (layoutOf DL (sp True) True T) p = placeNumber (layoutOf DL (sp True) True T) q"
proof -
  have rq: "request_ok DL sp True T" using assms(1) by (simp add: aggType_def)
  have "logOffset DL (sp True) T p = logOffset DL (sp True) T q" using logOffset_request_eq [OF rq assms(2,3)] assms(4) by blast
  then show ?thesis by (simp add: placeNumber_def index_request [OF rq assms(2)] index_request [OF rq assms(3)])
qed

lemma rootSize_pos: "aggType DL sp T \<Longrightarrow> 0 < rootSize DL T"
proof -
  assume a: "aggType DL sp T"
  then have "isAggregateType T" "no_empty DL (sp True) T" by (auto simp: aggType_def request_ok_def)
  then show "0 < rootSize DL T" by (cases T) (auto simp: rootSize_def SIZE_MAX_def)
qed

lemma placeNumber_zero:
  assumes "aggType DL sp T"
  shows "placeNumber (layoutOf DL (sp True) True T) 0 = 0"
proof -
  let ?L = "layoutOf DL (sp True) True T"
  have rq: "request_ok DL sp True T" and s: "scalarAt DL (sp True) T 0 \<noteq> None" using assms by (simp_all add: aggType_def)
  have "0 \<le> placeNumber ?L 0" using placeNumber_pos [OF assms] rootSize_pos [OF assms] s by blast
  moreover have "placeNumber ?L 0 = getLogicalOffset ?L 0"
    by (simp add: placeNumber_def index_request [OF rq rootSize_pos [OF assms]] logOffset_zero)
  ultimately show ?thesis by (auto simp: logical_number(1) split: if_splits)
qed

text \<open>Slots are elements' places up to array indices.\<close>

lemma slotOf_iff:
  assumes "aggType DL sp T" and "L = layoutOf DL (sp True) True T"
  shows "slotOf L p = (if p < rootSize DL T \<and> scalarAt DL (sp True) T p \<noteq> None then Some (nat (placeNumber L p)) else None)"
proof -
  have rq: "request_ok DL sp True T" and s: "scalarAt DL (sp True) T 0 \<noteq> None" using assms(1) by (simp_all add: aggType_def)
  show ?thesis
  proof (cases "p = 0")
    case True
    then show ?thesis using rootSize_pos [OF assms(1)] s placeNumber_zero [OF assms(1)] by (simp add: slotOf_def assms(2))
  next
    case False
    have "fst (indexPhysicalOffset L p) \<noteq> SIZE_MAX" if "0 \<le> placeNumber L p"
    proof
      assume "fst (indexPhysicalOffset L p) = SIZE_MAX"
      then have "SIZE_MAX \<in> elems DL (sp True) True T"
        using that by (simp add: placeNumber_def assms(2) logical_number(1) split: if_splits) (simp add: layoutOf_def)
      then show False using elems_small(1) [OF assms(1)] by blast
    qed
    then show ?thesis using False placeNumber_pos [OF assms(1), of p] by (auto simp: slotOf_def assms(2))
  qed
qed

lemma slotOf_less:
  assumes "aggLayout DL sp L" and "slotOf L p = Some n"
  shows "n < max 1 (getNumIndexableElem L)"
proof -
  from assms(1) obtain T where T: "aggType DL sp T" "L = layoutOf DL (sp True) True T" by (auto simp: aggLayout_def)
  from assms(2) have n: "n = nat (placeNumber L p)" "0 \<le> placeNumber L p"
    using slotOf_iff [OF T] placeNumber_pos [OF T(1), of p] T(2) by (auto split: if_splits)
  have "fst (indexPhysicalOffset L p) \<in> elementLayout L"
    using n(2) by (simp add: placeNumber_def T(2) logical_number(1) split: if_splits)
  then have "nat (placeNumber L p) < getNumIndexableElem L"
    unfolding placeNumber_def using number_less [of L] T(2) by simp
  then show ?thesis using n(1) by simp
qed

section \<open>What indexing aims at\<close>

text \<open>The type at an offset of a block, without the cache.\<close>

definition typeOfPlace :: "data_layout \<Rightarrow> mem_layout \<Rightarrow> nat \<Rightarrow> ll_type option" where
  "typeOfPlace DL L p =
     (if placeNumber L p < 0 then None
      else if snd (indexPhysicalOffset L p) = 0 then Some (memType L)
      else getTypeAtOffset DL False (memType L) (snd (indexPhysicalOffset L p)))"

lemma root_type_at:
  assumes "aggType DL sp T" and "p < rootSize DL T" and "scalarAt DL (sp True) T p \<noteq> None" and "canon DL (sp True) T p \<noteq> 0"
  shows "getTypeAtOffset DL False T (canon DL (sp True) T p) \<noteq> None"
proof -
  have ne: "no_empty DL (sp True) T" and rq: "request_ok DL sp True T" using assms(1) by (simp_all add: aggType_def)
  have wf: "getTypeAtOffset DL False E (canon DL (sp True) E q) \<noteq> None"
    if h: "wf_type DL (sp True) E" "q < getTypeAllocSize DL E" "no_empty DL (sp True) E" "scalarAt DL (sp True) E q \<noteq> None" for E q
  proof -
    have "canon DL (sp True) E q < getTypeAllocSize DL E" using logOffset_less(1) [OF h(1,2)] by blast
    moreover obtain t where "scalarAt DL (sp True) E (canon DL (sp True) E q) = Some t"
      using scalarAt_canon(1) [OF h(1,2)] h(4) by fastforce
    ultimately show ?thesis using typeAt_scalar(1) [OF h(1) _ h(3)] by fastforce
  qed
  show ?thesis
  proof (cases "wf_type DL (sp True) T")
    case True
    then show ?thesis using wf [OF True _ ne assms(3)] assms(2) rootSize_wf [OF True] rq by (simp add: request_ok_def)
  next
    case False
    with rq have u: "unbounded DL (sp True) T" "\<not> sp True T" by (simp_all add: request_ok_def)
    from u(1) obtain E where T: "T = ArrayTy SIZE_MAX E" "wf_type DL (sp True) E" "0 < getTypeAllocSize DL E" "\<not> isEmpty DL T"
      by (rule unboundedD)
    let ?q = "p mod getTypeAllocSize DL E"
    have q: "?q < getTypeAllocSize DL E" using T(3) by simp
    have "canon DL (sp True) E ?q < getTypeAllocSize DL E" using logOffset_less(1) [OF T(2) q] by blast
    moreover have "getTypeAtOffset DL False E (canon DL (sp True) E ?q) \<noteq> None"
      using T u(2) ne assms(3) by (intro wf [OF T(2) q]) simp_all
    ultimately show ?thesis using T(1) u(2) assms(4) by simp
  qed
qed

lemma typeOfPlace_some:
  assumes "aggLayout DL sp L" and "0 \<le> placeNumber L p"
  shows "typeOfPlace DL L p \<noteq> None"
proof -
  from assms(1) obtain T where T: "aggType DL sp T" "L = layoutOf DL (sp True) True T" by (auto simp: aggLayout_def)
  have rq: "request_ok DL sp True T" using T(1) by (simp add: aggType_def)
  have p: "p < rootSize DL T" "scalarAt DL (sp True) T p \<noteq> None" using placeNumber_pos [OF T(1)] assms(2) T(2) by blast+
  have "snd (indexPhysicalOffset L p) = canon DL (sp True) T p" "memType L = T"
    using index_request [OF rq p(1)] by (simp_all add: T(2) layoutOf_def)
  then show ?thesis using root_type_at [OF T(1) p] assms(2) by (auto simp: typeOfPlace_def)
qed

lemma typeOfPlace_eq:
  assumes "aggLayout DL sp L" and "0 \<le> placeNumber L p" and "placeNumber L p = placeNumber L q"
  shows "typeOfPlace DL L p = typeOfPlace DL L q"
proof -
  from assms(1) obtain T where T: "aggType DL sp T" "L = layoutOf DL (sp True) True T" by (auto simp: aggLayout_def)
  have rq: "request_ok DL sp True T" using T(1) by (simp add: aggType_def)
  have p: "p < rootSize DL T" "q < rootSize DL T" using placeNumber_pos [OF T(1)] assms(2,3) T(2) by metis+
  have "canon DL (sp True) T p = canon DL (sp True) T q" using placeNumber_eq [OF T(1)] assms(2,3) T(2) by blast
  then have "snd (indexPhysicalOffset L p) = snd (indexPhysicalOffset L q)"
    using index_request [OF rq p(1)] index_request [OF rq p(2)] by (simp add: T(2))
  then show ?thesis using assms(3) by (simp add: typeOfPlace_def)
qed

lemma place_zero:
  assumes "aggLayout DL sp L" and "0 \<le> placeNumber L p" and "snd (indexPhysicalOffset L p) = 0"
  shows "fst (indexPhysicalOffset L p) = 0" and "placeNumber L p = 0"
proof -
  from assms(1) obtain T where T: "aggType DL sp T" "L = layoutOf DL (sp True) True T" by (auto simp: aggLayout_def)
  have rq: "request_ok DL sp True T" using T(1) by (simp add: aggType_def)
  have p: "p < rootSize DL T" using placeNumber_pos [OF T(1)] assms(2) T(2) by blast
  have c: "canon DL (sp True) T p = canon DL (sp True) T 0"
    using assms(3) index_request [OF rq p] by (simp add: T(2) canon_zero)
  then have "logOffset DL (sp True) T p = logOffset DL (sp True) T 0"
    using logOffset_request_eq [OF rq p rootSize_pos [OF T(1)]] by blast
  then show "fst (indexPhysicalOffset L p) = 0" using index_request [OF rq p] by (simp add: T(2) logOffset_zero)
  show "placeNumber L p = 0"
    using placeNumber_same [OF T(1) p rootSize_pos [OF T(1)] c] placeNumber_zero [OF T(1)] T(2) by simp
qed

lemma canon_idem:
  "wf_type DL sp T \<Longrightarrow> p < getTypeAllocSize DL T \<Longrightarrow> canon DL sp T (canon DL sp T p) = canon DL sp T p"
  "wf_fields DL sp S i from ts \<Longrightarrow> from \<le> p \<Longrightarrow> p < getTypeAllocSize DL S \<Longrightarrow>
     canonIn DL sp S i ts (canonIn DL sp S i ts p) = canonIn DL sp S i ts p"
proof (induction DL sp T p and DL sp S i ts p arbitrary: and "from" rule: canon_canonIn.induct)
  case (2 DL sp n E p)
  show ?case
  proof (cases "sp (ArrayTy n E)")
    case False
    from 2(2) False have wf: "wf_type DL sp E" "getTypeAllocSize DL (ArrayTy n E) = n * getTypeAllocSize DL E" by auto
    have q: "p mod getTypeAllocSize DL E < getTypeAllocSize DL E" using wf(2) 2(3) mod_size(1) by metis
    from logOffset_less(1) [OF wf(1) q] 2(1) [OF False wf(1) q] False show ?thesis by simp
  qed simp
next
  case (5 DL sp S i t ts p)
  let ?k = "getElementOffset DL S i" and ?n = "getTypeAllocSize DL t"
  from 5(3) have wf: "from \<le> ?k" "wf_type DL sp t" "wf_fields DL sp S (i + 1) (?k + ?n) ts" by simp_all
  consider "p < ?k" | "?k \<le> p" "p < ?k + ?n" | "?k + ?n \<le> p" by linarith
  then show ?case
  proof cases
    case 1
    then show ?thesis by (simp add: Let_def)
  next
    case 2
    then have "\<not> p < ?k" "p - ?k < ?n" by linarith+
    with 5(1) [OF refl this(1) 2(2) wf(2)] logOffset_less(1) [OF wf(2)] 2 show ?thesis by (simp add: Let_def)
  next
    case 3
    then have neg: "\<not> p < ?k" "\<not> p < ?k + ?n" by linarith+
    have "?k + ?n \<le> canonIn DL sp S (i + 1) ts p" using logOffset_less(2) [OF wf(3) 3 5(5), of 0] by simp
    then show ?thesis using 5(2) [OF refl neg wf(3) 3 5(5)] neg by (simp add: Let_def)
  qed
qed auto

lemma root_canon:
  assumes "request_ok DL sp True T" and "p < rootSize DL T"
  shows "canon DL (sp True) T p < rootSize DL T" and "canon DL (sp True) T (canon DL (sp True) T p) = canon DL (sp True) T p"
    and "scalarAt DL (sp True) T (canon DL (sp True) T p) = scalarAt DL (sp True) T p"
proof -
  have "canon DL (sp True) T p < rootSize DL T \<and> canon DL (sp True) T (canon DL (sp True) T p) = canon DL (sp True) T p \<and>
    scalarAt DL (sp True) T (canon DL (sp True) T p) = scalarAt DL (sp True) T p"
  proof (cases "wf_type DL (sp True) T")
    case True
    then show ?thesis using canon_idem(1) [OF True] scalarAt_canon(1) [OF True] logOffset_less(1) [OF True] assms rootSize_wf [OF True]
      by (simp add: request_ok_def)
  next
    case False
    with assms(1) have u: "unbounded DL (sp True) T" "\<not> sp True T" by (simp_all add: request_ok_def)
    from u(1) obtain E where T: "T = ArrayTy SIZE_MAX E" "wf_type DL (sp True) E" "0 < getTypeAllocSize DL E" "\<not> isEmpty DL T"
      by (rule unboundedD)
    let ?q = "p mod getTypeAllocSize DL E"
    have q: "?q < getTypeAllocSize DL E" using T(3) by simp
    have "canon DL (sp True) E ?q < getTypeAllocSize DL E" using logOffset_less(1) [OF T(2) q] by blast
    moreover have "rootSize DL T = SIZE_MAX" using T(1,4) by (simp add: rootSize_def)
    ultimately show ?thesis
      using canon_idem(1) [OF T(2) q] scalarAt_canon(1) [OF T(2) q] wf_type_size [OF T(2)] u(2) T(1) by simp
  qed
  then show "canon DL (sp True) T p < rootSize DL T" "canon DL (sp True) T (canon DL (sp True) T p) = canon DL (sp True) T p"
    "scalarAt DL (sp True) T (canon DL (sp True) T p) = scalarAt DL (sp True) T p" by blast+
qed

lemma slotOf_canon:
  assumes "aggLayout DL sp L" and "slotOf L p = Some n"
  shows "slotOf L (snd (indexPhysicalOffset L p)) = Some n"
proof -
  from assms(1) obtain T where T: "aggType DL sp T" "L = layoutOf DL (sp True) True T" by (auto simp: aggLayout_def)
  have rq: "request_ok DL sp True T" using T(1) by (simp add: aggType_def)
  from assms(2) have p: "p < rootSize DL T" "scalarAt DL (sp True) T p \<noteq> None" "n = nat (placeNumber L p)"
    unfolding slotOf_iff [OF T] by (auto split: if_splits)
  note r = root_canon [OF rq p(1)]
  have "placeNumber L (canon DL (sp True) T p) = placeNumber L p"
    using placeNumber_same [OF T(1) r(1) p(1) r(2)] T(2) by simp
  then show ?thesis using r(1,3) p(2,3) index_request [OF rq p(1)] unfolding slotOf_iff [OF T] by (simp add: T(2))
qed

section \<open>The memory\<close>

definition block_ok :: "data_layout \<Rightarrow> (bool \<Rightarrow> ll_type \<Rightarrow> bool) \<Rightarrow> fs_object list \<Rightarrow> nat \<Rightarrow> mem_block \<Rightarrow> bool" where
  "block_ok DL sp objs b B \<longleftrightarrow>
     (case blkKind B of
        Aggregate L \<Rightarrow> aggLayout DL sp L \<and> length (fieldObjs B) = max 1 (getNumIndexableElem L) \<and>
          length (fieldType B) = length (fieldObjs B) \<and>
          (\<forall>p T. 0 \<le> placeNumber L p \<longrightarrow> fieldType B ! nat (placeNumber L p) = Some T \<longrightarrow> typeOfPlace DL L p = Some T)
      | _ \<Rightarrow> (\<exists>obj. fieldObjs B = [Some obj])) \<and>
     (\<forall>n < length (fieldObjs B). \<forall>obj. fieldObjs B ! n = Some obj \<longrightarrow> obj < length objs \<and> objBlock (objs ! obj) = Some b \<and>
        (\<forall>L. blkKind B = Aggregate L \<longrightarrow> slotOf L (objOffset (objs ! obj)) = Some n))"

definition mem_ok :: "data_layout \<Rightarrow> (bool \<Rightarrow> ll_type \<Rightarrow> bool) \<Rightarrow> fs_mem \<Rightarrow> bool" where
  "mem_ok DL sp mem \<longleftrightarrow> (\<forall>b < length (fsBlocks mem). block_ok DL sp (fsObjs mem) b (fsBlocks mem ! b)) \<and>
     (\<forall>obj < length (fsObjs mem). \<exists>b < length (fsBlocks mem). objBlock (fsObjs mem ! obj) = Some b)"

datatype idx_target = NoTarget | SameObject | SlotAt nat nat

definition aggTarget :: "data_layout \<Rightarrow> pta_opts \<Rightarrow> gep_view \<Rightarrow> nat \<Rightarrow> mem_layout \<Rightarrow> nat \<Rightarrow> llvm_value \<Rightarrow> idx_target" where
  "aggTarget DL opts G b L offset v =
     (if \<not> isGEP G v then NoTarget
      else if hasAllConstantIndices G v then
        if \<not> memlayoutFiltering opts \<and> 0 \<le> constantOffset G v \<and> gepElementType G v \<noteq> i8 \<and>
           \<not> isZeroOffsetTypeInRootType DL (typeOfPlace DL L offset) (Some (gepElementType G v)) then NoTarget
        else if int offset + constantOffset G v < 0 then NoTarget
        else (case slotOf L (nat (int offset + constantOffset G v) mod 2 ^ 32) of None \<Rightarrow> NoTarget | Some n \<Rightarrow> SlotAt b n)
      else (case getGEPStepSize DL G v of
          Inr n \<Rightarrow> if n \<noteq> SIZE_MAX \<and> isArrayExistAtOffset (subArrays L) offset n then SameObject else NoTarget
        | Inl e \<Rightarrow> NoTarget))"

definition idxTarget :: "data_layout \<Rightarrow> pta_opts \<Rightarrow> gep_view \<Rightarrow> fs_mem \<Rightarrow> nat \<Rightarrow> llvm_value \<Rightarrow> idx_target" where
  "idxTarget DL opts G mem obj v =
     (if \<not> allowIndex (fsObjs mem ! obj) then NoTarget
      else case objBlock (fsObjs mem ! obj) of
        None \<Rightarrow> NoTarget
      | Some b \<Rightarrow> (case blkKind (fsBlocks mem ! b) of
            Aggregate L \<Rightarrow> aggTarget DL opts G b L (objOffset (fsObjs mem ! obj)) v
          | FIBlock \<Rightarrow> SlotAt b 0
          | ScalarBlock \<Rightarrow> NoTarget))"

text \<open>What the index of an object is known to be.\<close>

definition fsField :: "data_layout \<Rightarrow> pta_opts \<Rightarrow> gep_view \<Rightarrow> fs_mem \<Rightarrow> nat \<Rightarrow> llvm_value \<Rightarrow> nat option option" where
  "fsField DL opts G mem obj v =
     (if obj < length (fsObjs mem) then
        (case idxTarget DL opts G mem obj v of
           NoTarget \<Rightarrow> Some None
         | SameObject \<Rightarrow> Some (Some obj)
         | SlotAt b n \<Rightarrow> map_option Some (fieldObjs (fsBlocks mem ! b) ! n))
      else None)"

text \<open>A memory that has only grown: new objects, filled slots, more cached types.\<close>

definition mem_grows :: "fs_mem \<Rightarrow> fs_mem \<Rightarrow> bool" where
  "mem_grows mem mem' \<longleftrightarrow> (\<exists>new. fsObjs mem' = fsObjs mem @ new) \<and> length (fsBlocks mem') = length (fsBlocks mem) \<and>
     (\<forall>b < length (fsBlocks mem). blkKind (fsBlocks mem' ! b) = blkKind (fsBlocks mem ! b) \<and>
        (\<forall>n x. fieldObjs (fsBlocks mem ! b) ! n = Some x \<longrightarrow> fieldObjs (fsBlocks mem' ! b) ! n = Some x))"

lemma mem_grows_refl: "mem_grows mem mem"
  by (simp add: mem_grows_def)

lemma mem_okD:
  assumes "mem_ok DL sp mem"
  shows "b < length (fsBlocks mem) \<Longrightarrow> block_ok DL sp (fsObjs mem) b (fsBlocks mem ! b)"
    and "obj < length (fsObjs mem) \<Longrightarrow> \<exists>b < length (fsBlocks mem). objBlock (fsObjs mem ! obj) = Some b"
  using assms by (simp_all add: mem_ok_def)

lemma block_okI:
  assumes "blkKind B = Aggregate L" and "aggLayout DL sp L" and "length (fieldObjs B) = max 1 (getNumIndexableElem L)"
    and "length (fieldType B) = length (fieldObjs B)"
    and "\<And>p T. 0 \<le> placeNumber L p \<Longrightarrow> fieldType B ! nat (placeNumber L p) = Some T \<Longrightarrow> typeOfPlace DL L p = Some T"
    and "\<And>n obj. n < length (fieldObjs B) \<Longrightarrow> fieldObjs B ! n = Some obj \<Longrightarrow>
       obj < length objs \<and> objBlock (objs ! obj) = Some b \<and> slotOf L (objOffset (objs ! obj)) = Some n"
  shows "block_ok DL sp objs b B"
  unfolding block_ok_def using assms by simp

lemma block_okD:
  assumes "block_ok DL sp objs b B" and "blkKind B = Aggregate L"
  shows "aggLayout DL sp L" and "length (fieldObjs B) = max 1 (getNumIndexableElem L)" and "length (fieldType B) = length (fieldObjs B)"
    and "0 \<le> placeNumber L p \<Longrightarrow> fieldType B ! nat (placeNumber L p) = Some T \<Longrightarrow> typeOfPlace DL L p = Some T"
    and "n < length (fieldObjs B) \<Longrightarrow> fieldObjs B ! n = Some obj \<Longrightarrow>
       obj < length objs \<and> objBlock (objs ! obj) = Some b \<and> slotOf L (objOffset (objs ! obj)) = Some n"
  using assms by (simp_all add: block_ok_def)

lemma block_ok_more:
  assumes "block_ok DL sp objs b B"
  shows "block_ok DL sp (objs @ new) b B"
  using assms unfolding block_ok_def by (auto simp: nth_append)

lemma aggTarget_slot:
  assumes "aggLayout DL sp L" and "aggTarget DL opts G b L off v = SlotAt b' n"
  shows "b' = b" and "n < max 1 (getNumIndexableElem L)"
proof -
  have "b' = b \<and> (\<exists>p. slotOf L p = Some n)"
    using assms(2) by (auto simp: aggTarget_def split: if_splits option.splits sum.splits)
  then show "b' = b" "n < max 1 (getNumIndexableElem L)" using slotOf_less [OF assms(1)] by blast+
qed

lemma idxTarget_slot:
  assumes "mem_ok DL sp mem" and "obj < length (fsObjs mem)" and "idxTarget DL opts G mem obj v = SlotAt b n"
  shows "b < length (fsBlocks mem)" and "n < length (fieldObjs (fsBlocks mem ! b))"
proof -
  from mem_okD(2) [OF assms(1,2)] obtain b0 where b0: "b0 < length (fsBlocks mem)" "objBlock (fsObjs mem ! obj) = Some b0" by blast
  note B = mem_okD(1) [OF assms(1) b0(1)]
  have "b < length (fsBlocks mem) \<and> n < length (fieldObjs (fsBlocks mem ! b))"
  proof (cases "blkKind (fsBlocks mem ! b0)")
    case (Aggregate L)
    then have "aggTarget DL opts G b0 L (objOffset (fsObjs mem ! obj)) v = SlotAt b n"
      using assms(3) b0(2) by (simp add: idxTarget_def split: if_splits)
    moreover have "aggLayout DL sp L" "length (fieldObjs (fsBlocks mem ! b0)) = max 1 (getNumIndexableElem L)"
      using B Aggregate by (simp_all add: block_ok_def)
    ultimately show ?thesis using aggTarget_slot b0(1) by metis
  next
    case FIBlock
    then show ?thesis using assms(3) b0 B by (auto simp: idxTarget_def block_ok_def split: if_splits)
  next
    case ScalarBlock
    then show ?thesis using assms(3) b0 by (simp add: idxTarget_def split: if_splits)
  qed
  then show "b < length (fsBlocks mem)" "n < length (fieldObjs (fsBlocks mem ! b))" by blast+
qed

lemma idxTarget_grows:
  assumes "mem_ok DL sp mem" and "obj < length (fsObjs mem)" and "mem_grows mem mem'"
  shows "idxTarget DL opts G mem' obj v = idxTarget DL opts G mem obj v"
proof -
  from mem_okD(2) [OF assms(1,2)] obtain b where b: "b < length (fsBlocks mem)" "objBlock (fsObjs mem ! obj) = Some b" by blast
  have "fsObjs mem' ! obj = fsObjs mem ! obj" using assms(2,3) by (auto simp: mem_grows_def nth_append)
  moreover have "blkKind (fsBlocks mem' ! b) = blkKind (fsBlocks mem ! b)" using assms(3) b(1) by (simp add: mem_grows_def)
  ultimately show ?thesis using b(2) by (cases "blkKind (fsBlocks mem ! b)") (simp_all add: idxTarget_def)
qed

lemma fsField_grows:
  assumes "mem_ok DL sp mem" and "mem_grows mem mem'" and "fsField DL opts G mem obj v = Some x"
  shows "fsField DL opts G mem' obj v = Some x"
proof -
  from assms(3) have obj: "obj < length (fsObjs mem)" by (simp add: fsField_def split: if_splits)
  then have obj': "obj < length (fsObjs mem')" using assms(2) by (auto simp: mem_grows_def)
  note T = idxTarget_grows [OF assms(1) obj assms(2), of opts G v]
  show ?thesis
  proof (cases "idxTarget DL opts G mem obj v")
    case (SlotAt b n)
    note S = idxTarget_slot [OF assms(1) obj SlotAt]
    from assms(3) SlotAt obj obtain y where y: "fieldObjs (fsBlocks mem ! b) ! n = Some y" "x = Some y" by (auto simp: fsField_def)
    then have "fieldObjs (fsBlocks mem' ! b) ! n = Some y" using assms(2) S(1) by (simp add: mem_grows_def)
    then show ?thesis using T SlotAt obj' y(2) by (simp add: fsField_def)
  qed (use assms(3) T obj obj' in \<open>simp_all add: fsField_def\<close>)
qed

section \<open>The steps of indexing\<close>

text \<open>Two memories that differ in cached types only.\<close>

definition same_but_types :: "fs_mem \<Rightarrow> fs_mem \<Rightarrow> bool" where
  "same_but_types mem mem' \<longleftrightarrow> fsObjs mem' = fsObjs mem \<and> length (fsBlocks mem') = length (fsBlocks mem) \<and>
     (\<forall>b < length (fsBlocks mem). blkKind (fsBlocks mem' ! b) = blkKind (fsBlocks mem ! b) \<and>
        fieldObjs (fsBlocks mem' ! b) = fieldObjs (fsBlocks mem ! b) \<and>
        blkImmutable (fsBlocks mem' ! b) = blkImmutable (fsBlocks mem ! b))"

definition emptyIn :: "mem_block \<Rightarrow> nat" where
  "emptyIn B = length (filter (\<lambda>x. x = None) (fieldObjs B))"

definition emptySlots :: "fs_mem \<Rightarrow> nat" where
  "emptySlots mem = sum_list (map emptyIn (fsBlocks mem))"

lemma same_but_types_grows: "same_but_types mem mem' \<Longrightarrow> mem_grows mem mem'"
  by (simp add: same_but_types_def mem_grows_def)

lemma same_but_types_empty:
  assumes "same_but_types mem mem'"
  shows "emptySlots mem' = emptySlots mem"
proof -
  have "map emptyIn (fsBlocks mem') = map emptyIn (fsBlocks mem)"
    using assms by (intro nth_equalityI) (simp_all add: same_but_types_def emptyIn_def)
  then show ?thesis by (simp add: emptySlots_def)
qed

lemma updBlock_nth:
  "b < length (fsBlocks mem) \<Longrightarrow> c < length (fsBlocks mem) \<Longrightarrow>
     fsBlocks (updBlock b f mem) ! c = (if c = b then f (fsBlocks mem ! b) else fsBlocks mem ! c)"
  "length (fsBlocks (updBlock b f mem)) = length (fsBlocks mem)" "fsObjs (updBlock b f mem) = fsObjs mem"
  by (auto simp: updBlock_def)

lemma mem_ok_updBlock:
  assumes "mem_ok DL sp mem" and "b < length (fsBlocks mem)" and "block_ok DL sp (fsObjs mem) b (f (fsBlocks mem ! b))"
  shows "mem_ok DL sp (updBlock b f mem)"
  unfolding mem_ok_def updBlock_nth(2,3)
proof (intro conjI allI impI)
  show "block_ok DL sp (fsObjs mem) c (fsBlocks (updBlock b f mem) ! c)" if "c < length (fsBlocks mem)" for c
    using updBlock_nth(1) [OF assms(2) that, of f] assms(3) mem_okD(1) [OF assms(1) that] by simp
  show "\<exists>c < length (fsBlocks mem). objBlock (fsObjs mem ! obj) = Some c" if "obj < length (fsObjs mem)" for obj
    using mem_okD(2) [OF assms(1) that] .
qed

lemma getOffsetType_ok:
  assumes ok: "mem_ok DL sp mem" and b: "b < length (fsBlocks mem)" and L: "blkKind (fsBlocks mem ! b) = Aggregate L"
  shows "\<exists>mem'. getOffsetType DL b p mem = Inr (typeOfPlace DL L p, mem') \<and> mem_ok DL sp mem' \<and> same_but_types mem mem'"
proof -
  let ?B = "fsBlocks mem ! b" and ?n = "nat (placeNumber L p)"
  note B = block_okD [OF mem_okD(1) [OF ok b] L]
  have refl: "same_but_types mem mem" by (simp add: same_but_types_def)
  obtain l q where lq: "indexPhysicalOffset L p = (l, q)" by fastforce
  have num: "getLogicalOffset L l = placeNumber L p" using lq by (simp add: placeNumber_def)
  show ?thesis
  proof (cases "placeNumber L p < 0")
    case True
    then show ?thesis using L lq num ok refl by (auto simp: getOffsetType_def typeOfPlace_def)
  next
    case False
    then have pos: "0 \<le> placeNumber L p" by simp
    show ?thesis
    proof (cases "fieldType ?B ! ?n")
      case (Some T)
      then show ?thesis using L lq num ok refl False B(4) [OF pos Some] by (simp add: getOffsetType_def)
    next
      case None
      from typeOfPlace_some [OF B(1) pos] obtain T where T: "typeOfPlace DL L p = Some T" by blast
      let ?f = "\<lambda>x :: mem_block. x\<lparr> fieldType := (fieldType x)[?n := Some T] \<rparr>"
      let ?mem = "updBlock b ?f mem"
      have "getOffsetType DL b p mem = Inr (Some T, ?mem)"
        using L lq num False None T place_zero [OF B(1) pos] by (auto simp: getOffsetType_def typeOfPlace_def Let_def)
      moreover have same: "same_but_types mem ?mem" using b by (simp add: same_but_types_def updBlock_nth)
      moreover have "block_ok DL sp (fsObjs mem) b (?f ?B)"
      proof -
        have "typeOfPlace DL L q = Some T'" if "0 \<le> placeNumber L q" "(fieldType ?B)[?n := Some T] ! nat (placeNumber L q) = Some T'" for q T'
        proof (cases "nat (placeNumber L q) = ?n")
          case True
          then have eq: "placeNumber L p = placeNumber L q" using that(1) pos by simp
          then have "typeOfPlace DL L q = Some T" using typeOfPlace_eq [OF B(1) pos eq] T by simp
          moreover have "?n < length (fieldType ?B)"
          proof -
            from B(1) obtain TT where TT: "aggType DL sp TT" "L = layoutOf DL (sp True) True TT" by (auto simp: aggLayout_def)
            then have "slotOf L p = Some ?n" using slotOf_iff [OF TT] placeNumber_pos [OF TT(1), of p] pos by simp
            then show ?thesis using slotOf_less [OF B(1), of p ?n] B(2,3) by simp
          qed
          ultimately show ?thesis using that(2) True by simp
        next
          case False
          then show ?thesis using that B(4) by simp
        qed
        note types = this
        show ?thesis
          by (rule block_okI [OF _ B(1)]) (use L B(2,3) B(5) types in simp_all)
      qed
      then have "mem_ok DL sp ?mem"
        by (rule mem_ok_updBlock [OF ok b, of ?f])
      ultimately show ?thesis unfolding T by blast
    qed
  qed
qed

lemma filter_fill:
  "n < length xs \<Longrightarrow> xs ! n = None \<Longrightarrow>
     length (filter (\<lambda>x. x = None) (xs[n := Some y])) + 1 = length (filter (\<lambda>x. x = None) xs)"
proof (induction xs arbitrary: n)
  case (Cons x xs)
  then show ?case by (cases n) auto
qed simp

lemma makeField_ok:
  assumes ok: "mem_ok DL sp mem" and b: "b < length (fsBlocks mem)" and L: "blkKind (fsBlocks mem ! b) = Aggregate L"
    and n: "n < length (fieldObjs (fsBlocks mem ! b))" "fieldObjs (fsBlocks mem ! b) ! n = None" and slot: "slotOf L off = Some n"
  shows "\<exists>mem'. makeField b n off imm mem = (length (fsObjs mem), mem') \<and> mem_ok DL sp mem' \<and> mem_grows mem mem' \<and>
    fsObjs mem' = fsObjs mem @ [newObj (Some b) off NormalObj True\<lparr> objImmutable := imm \<rparr>] \<and>
    fieldObjs (fsBlocks mem' ! b) ! n = Some (length (fsObjs mem)) \<and> emptySlots mem' + 1 = emptySlots mem"
proof -
  let ?B = "fsBlocks mem ! b" and ?x = "newObj (Some b) off NormalObj True\<lparr> objImmutable := imm \<rparr>" and ?o = "length (fsObjs mem)"
  let ?f = "\<lambda>x :: mem_block. x\<lparr> fieldObjs := (fieldObjs x)[n := Some ?o] \<rparr>"
  let ?mem = "updBlock b ?f (mem\<lparr> fsObjs := fsObjs mem @ [?x] \<rparr>)"
  have made: "makeField b n off imm mem = (?o, ?mem)" by (simp add: makeField_def addObject_def Let_def)
  have b': "b < length (fsBlocks (mem\<lparr> fsObjs := fsObjs mem @ [?x] \<rparr>))" using b by simp
  have blk: "fsBlocks ?mem ! c = (if c = b then ?f ?B else fsBlocks mem ! c)" if "c < length (fsBlocks mem)" for c
    using updBlock_nth(1) [OF b', of c ?f] that by simp
  have old: "(fsObjs mem @ [?x]) ! obj = fsObjs mem ! obj" if "obj < ?o" for obj using that by (simp add: nth_append)
  note B = block_okD [OF block_ok_more [OF mem_okD(1) [OF ok b], of "[?x]"] L]
  have upd: "block_ok DL sp (fsObjs mem @ [?x]) b (?f ?B)"
  proof (rule block_okI [OF _ B(1)])
    fix m obj assume m: "m < length (fieldObjs (?f ?B))" "fieldObjs (?f ?B) ! m = Some obj"
    show "obj < length (fsObjs mem @ [?x]) \<and> objBlock ((fsObjs mem @ [?x]) ! obj) = Some b \<and>
        slotOf L (objOffset ((fsObjs mem @ [?x]) ! obj)) = Some m"
    proof (cases "m = n")
      case True
      with m(2) n(1) have "obj = ?o" by simp
      then show ?thesis using slot True by (simp add: newObj_def)
    next
      case False
      then show ?thesis using m B(5) [of m obj] by simp
    qed
  qed (use L B(2,3) B(4) in simp_all)
  have "mem_ok DL sp ?mem"
    unfolding mem_ok_def
  proof (intro conjI allI impI)
    show "block_ok DL sp (fsObjs ?mem) c (fsBlocks ?mem ! c)" if "c < length (fsBlocks ?mem)" for c
      using that upd block_ok_more [OF mem_okD(1) [OF ok, of c], of "[?x]"] blk [of c] by (simp add: updBlock_nth(2,3))
    show "\<exists>c < length (fsBlocks ?mem). objBlock (fsObjs ?mem ! obj) = Some c" if "obj < length (fsObjs ?mem)" for obj
      using that mem_okD(2) [OF ok, of obj] b by (auto simp: updBlock_nth(2,3) nth_append newObj_def less_Suc_eq)
  qed
  moreover have "mem_grows mem ?mem"
    unfolding mem_grows_def
  proof (intro conjI allI impI)
    show "\<exists>new. fsObjs ?mem = fsObjs mem @ new" by (simp add: updBlock_nth(3))
    show "length (fsBlocks ?mem) = length (fsBlocks mem)" by (simp add: updBlock_nth(2))
    fix c assume c: "c < length (fsBlocks mem)"
    show "blkKind (fsBlocks ?mem ! c) = blkKind (fsBlocks mem ! c)" using blk [OF c] by simp
    fix k x assume "fieldObjs (fsBlocks mem ! c) ! k = Some x"
    then show "fieldObjs (fsBlocks ?mem ! c) ! k = Some x" using blk [OF c] n by (cases "k = n") (auto simp: nth_list_update)
  qed
  moreover have "fsObjs ?mem = fsObjs mem @ [?x]" by (simp add: updBlock_nth(3))
  moreover have "fieldObjs (fsBlocks ?mem ! b) ! n = Some ?o" using blk [OF b] n(1) by simp
  moreover have "emptySlots ?mem + 1 = emptySlots mem"
  proof -
    have "emptyIn (?f ?B) + 1 = emptyIn ?B" using filter_fill [OF n] by (simp add: emptyIn_def)
    moreover have "map emptyIn (fsBlocks ?mem) = (map emptyIn (fsBlocks mem))[b := emptyIn (?f ?B)]"
      by (simp add: updBlock_def map_update)
    moreover have "emptyIn ?B \<le> sum_list (map emptyIn (fsBlocks mem))"
      using b by (intro member_le_sum_list) simp_all
    ultimately show ?thesis using b by (simp add: emptySlots_def sum_list_update)
  qed
  ultimately show ?thesis using made by blast
qed

lemma indexMemoryBlock_slot:
  "indexMemoryBlock False b L p mem =
     (case slotOf L p of
        None \<Rightarrow> (None, mem)
      | Some n \<Rightarrow> (case fieldObjs (fsBlocks mem ! b) ! n of
            Some obj \<Rightarrow> (Some obj, mem)
          | None \<Rightarrow> map_prod Some id (makeField b n (if p = 0 then 0 else snd (indexPhysicalOffset L p))
              (p \<noteq> 0 \<and> blkImmutable (fsBlocks mem ! b)) mem)))"
  by (auto simp: indexMemoryBlock_def slotOf_def placeNumber_def Let_def split: option.splits prod.splits)

text \<open>Either the slot is full, or it gets its object.\<close>

definition fills :: "data_layout \<Rightarrow> (bool \<Rightarrow> ll_type \<Rightarrow> bool) \<Rightarrow> nat \<Rightarrow> nat \<Rightarrow> nat option \<Rightarrow> fs_mem \<Rightarrow> fs_mem \<Rightarrow> bool" where
  "fills DL sp b n r mem mem' \<longleftrightarrow> mem_ok DL sp mem' \<and> mem_grows mem mem' \<and> fieldObjs (fsBlocks mem' ! b) ! n = r \<and>
     (r \<noteq> None \<and> fsObjs mem' = fsObjs mem \<and> emptySlots mem' = emptySlots mem \<or>
      r = Some (length (fsObjs mem)) \<and> emptySlots mem' + 1 = emptySlots mem \<and>
        (\<exists>x. fsObjs mem' = fsObjs mem @ [x] \<and> objNode x = None))"

lemma indexMemoryBlock_ok:
  assumes ok: "mem_ok DL sp mem" and b: "b < length (fsBlocks mem)" and L: "blkKind (fsBlocks mem ! b) = Aggregate L"
  shows "case slotOf L p of
      None \<Rightarrow> indexMemoryBlock False b L p mem = (None, mem)
    | Some n \<Rightarrow> \<exists>r mem'. indexMemoryBlock False b L p mem = (r, mem') \<and> fills DL sp b n r mem mem'"
proof (cases "slotOf L p")
  case None
  then show ?thesis by (simp add: indexMemoryBlock_slot)
next
  case (Some n)
  have B: "aggLayout DL sp L" "length (fieldObjs (fsBlocks mem ! b)) = max 1 (getNumIndexableElem L)"
    using mem_okD(1) [OF ok b] L by (simp_all add: block_ok_def)
  then have n: "n < length (fieldObjs (fsBlocks mem ! b))" using slotOf_less [OF B(1) Some] by simp
  show ?thesis
  proof (cases "fieldObjs (fsBlocks mem ! b) ! n")
    case (Some obj)
    then show ?thesis using \<open>slotOf L p = Some n\<close> ok by (simp add: indexMemoryBlock_slot fills_def mem_grows_refl)
  next
    case None
    have slot: "slotOf L (if p = 0 then 0 else snd (indexPhysicalOffset L p)) = Some n"
      using slotOf_canon [OF B(1) Some] Some by (cases "p = 0") simp_all
    let ?imm = "p \<noteq> 0 \<and> blkImmutable (fsBlocks mem ! b)" and ?off = "if p = 0 then 0 else snd (indexPhysicalOffset L p)"
    from makeField_ok [OF ok b L n None slot, of ?imm] obtain mem' where m: "makeField b n ?off ?imm mem = (length (fsObjs mem), mem')"
      "mem_ok DL sp mem'" "mem_grows mem mem'" "fsObjs mem' = fsObjs mem @ [newObj (Some b) ?off NormalObj True\<lparr> objImmutable := ?imm \<rparr>]"
      "fieldObjs (fsBlocks mem' ! b) ! n = Some (length (fsObjs mem))" "emptySlots mem' + 1 = emptySlots mem" by blast
    have "fills DL sp b n (Some (length (fsObjs mem))) mem mem'"
      unfolding fills_def using m(2-6) by (auto simp: newObj_def)
    then show ?thesis using Some None m(1) by (simp add: indexMemoryBlock_slot)
  qed
qed

text \<open>Indexing an object, before its result gets a node.\<close>

definition indexed :: "data_layout \<Rightarrow> (bool \<Rightarrow> ll_type \<Rightarrow> bool) \<Rightarrow> fs_mem \<Rightarrow> nat option \<Rightarrow> fs_mem \<Rightarrow> bool" where
  "indexed DL sp mem r mem' \<longleftrightarrow> mem_ok DL sp mem' \<and> mem_grows mem mem' \<and>
     (fsObjs mem' = fsObjs mem \<and> emptySlots mem' = emptySlots mem \<and> (\<forall>f. r = Some f \<longrightarrow> f < length (fsObjs mem)) \<or>
      r = Some (length (fsObjs mem)) \<and> emptySlots mem' + 1 = emptySlots mem \<and>
        (\<exists>x. fsObjs mem' = fsObjs mem @ [x] \<and> objNode x = None))"

lemma indexed_same:
  "mem_ok DL sp mem \<Longrightarrow> \<forall>f. r = Some f \<longrightarrow> f < length (fsObjs mem) \<Longrightarrow> indexed DL sp mem r mem"
  by (simp add: indexed_def mem_grows_refl)

lemma indexed_types:
  assumes "same_but_types mem mem1" and "indexed DL sp mem1 r mem2"
  shows "indexed DL sp mem r mem2"
proof -
  have "fsObjs mem1 = fsObjs mem" "length (fsBlocks mem1) = length (fsBlocks mem)" using assms(1) by (simp_all add: same_but_types_def)
  moreover have "mem_grows mem mem2" if "mem_grows mem1 mem2"
    using that assms(1) unfolding mem_grows_def same_but_types_def by auto
  ultimately show ?thesis using assms(2) same_but_types_empty [OF assms(1)] by (auto simp: indexed_def)
qed

definition gep_fine :: "data_layout \<Rightarrow> gep_view \<Rightarrow> llvm_value \<Rightarrow> bool" where
  "gep_fine DL G v \<longleftrightarrow> isGEP G v \<longrightarrow> \<not> hasAllConstantIndices G v \<longrightarrow> (\<exists>n. getGEPStepSize DL G v = Inr n)"

lemma fill_indexed:
  assumes "fills DL sp b n r mem mem'" and "mem_ok DL sp mem" and "b < length (fsBlocks mem)" and "n < length (fieldObjs (fsBlocks mem' ! b))"
  shows "indexed DL sp mem r mem'"
proof -
  have "f < length (fsObjs mem)" if "r = Some f" "fsObjs mem' = fsObjs mem" for f
  proof -
    have "mem_ok DL sp mem'" "b < length (fsBlocks mem')" using assms(1,3) by (auto simp: fills_def mem_grows_def)
    then have "block_ok DL sp (fsObjs mem') b (fsBlocks mem' ! b)" using mem_okD(1) by blast
    then have "f < length (fsObjs mem')" using assms(1,4) that(1) by (auto simp: block_ok_def fills_def)
    then show ?thesis using that(2) by simp
  qed
  then show ?thesis using assms(1) by (auto simp: indexed_def fills_def)
qed

lemma indexAggregate_ok:
  assumes ok: "mem_ok DL sp mem" and b: "b < length (fsBlocks mem)" and L: "blkKind (fsBlocks mem ! b) = Aggregate L"
    and obj: "obj < length (fsObjs mem)" and gep: "gep_fine DL G v"
  shows "\<exists>r mem'. indexAggregate DL opts G b L obj v False mem = Inr (r, mem') \<and> indexed DL sp mem r mem' \<and>
    (case aggTarget DL opts G b L (objOffset (fsObjs mem ! obj)) v of
       NoTarget \<Rightarrow> r = None | SameObject \<Rightarrow> r = Some obj | SlotAt c n \<Rightarrow> fieldObjs (fsBlocks mem' ! c) ! n = r \<and> r \<noteq> None)"
proof -
  let ?off = "objOffset (fsObjs mem ! obj)"
  note none = indexed_same [OF ok, of None]
  show ?thesis
  proof (cases "isGEP G v")
    case False
    then show ?thesis using none by (simp add: indexAggregate_def aggTarget_def)
  next
    case gepv: True
    show ?thesis
    proof (cases "hasAllConstantIndices G v")
      case False
      from gep gepv False obtain n where n: "getGEPStepSize DL G v = Inr n" by (auto simp: gep_fine_def)
      have "validateStepSize b ?off n mem = isArrayExistAtOffset (subArrays L) ?off n" using L by (simp add: validateStepSize_def)
      then show ?thesis using gepv False n none indexed_same [OF ok, of "Some obj"] obj
        by (auto simp: indexAggregate_def aggTarget_def)
    next
      case const: True
      from getOffsetType_ok [OF ok b L, of ?off] obtain mem1 where
        T: "getOffsetType DL b ?off mem = Inr (typeOfPlace DL L ?off, mem1)" "mem_ok DL sp mem1" "same_but_types mem mem1" by blast
      have m1: "fsObjs mem1 = fsObjs mem" "b < length (fsBlocks mem1)" "blkKind (fsBlocks mem1 ! b) = Aggregate L"
        using T(3) b L by (simp_all add: same_but_types_def)
      note none1 = indexed_types [OF T(3) indexed_same [OF T(2), of None]]
      let ?filter = "\<not> memlayoutFiltering opts \<and> 0 \<le> constantOffset G v \<and> gepElementType G v \<noteq> i8 \<and>
        \<not> isZeroOffsetTypeInRootType DL (typeOfPlace DL L ?off) (Some (gepElementType G v))"
      let ?pos = "int ?off + constantOffset G v" and ?q = "nat (int ?off + constantOffset G v) mod 2 ^ 32"
      have step: "indexAggregate DL opts G b L obj v False mem =
          (if ?filter \<or> ?pos < 0 then Inr (None, mem1) else Inr (indexMemoryBlock False b L ?q mem1))"
        using gepv const T(1) m1(1) by (simp add: indexAggregate_def Let_def)
      have target: "aggTarget DL opts G b L ?off v =
          (if ?filter \<or> ?pos < 0 then NoTarget else case slotOf L ?q of None \<Rightarrow> NoTarget | Some n \<Rightarrow> SlotAt b n)"
        using gepv const by (simp add: aggTarget_def)
      show ?thesis
      proof (cases "?filter \<or> ?pos < 0")
        case True
        then show ?thesis unfolding step target using none1 by simp
      next
        case False
        note I = indexMemoryBlock_ok [OF T(2) m1(2,3), of ?q]
        show ?thesis
        proof (cases "slotOf L ?q")
          case None
          then show ?thesis unfolding step target if_not_P [OF False] using I none1 by simp
        next
          case (Some n)
          with I obtain r mem2 where r: "indexMemoryBlock False b L ?q mem1 = (r, mem2)" "fills DL sp b n r mem1 mem2" by auto
          have m2: "mem_ok DL sp mem2" "b < length (fsBlocks mem2)" "blkKind (fsBlocks mem2 ! b) = Aggregate L"
            using r(2) m1(2,3) by (simp_all add: fills_def mem_grows_def)
          note B = block_okD [OF mem_okD(1) [OF m2(1,2)] m2(3)]
          have n: "n < length (fieldObjs (fsBlocks mem2 ! b))" using slotOf_less [OF B(1) Some] B(2) by simp
          have "indexed DL sp mem r mem2" by (rule indexed_types [OF T(3) fill_indexed [OF r(2) T(2) m1(2) n]])
          moreover have "fieldObjs (fsBlocks mem2 ! b) ! n = r" "r \<noteq> None" using r(2) by (auto simp: fills_def)
          ultimately show ?thesis unfolding step target if_not_P [OF False] r(1) using Some by simp
        qed
      qed
    qed
  qed
qed

lemma objIndexObject_ok:
  assumes ok: "mem_ok DL sp mem" and obj: "obj < length (fsObjs mem)" and gep: "gep_fine DL G v"
  shows "\<exists>r mem'. objIndexObject DL opts G False obj v mem = Inr (r, mem') \<and> indexed DL sp mem r mem' \<and>
    fsField DL opts G mem' obj v = Some r"
proof -
  from mem_okD(2) [OF ok obj] obtain b where b: "b < length (fsBlocks mem)" "objBlock (fsObjs mem ! obj) = Some b" by blast
  note none = indexed_same [OF ok, of None]
  show ?thesis
  proof (cases "allowIndex (fsObjs mem ! obj)")
    case False
    then show ?thesis using none obj by (simp add: objIndexObject_def fsField_def idxTarget_def)
  next
    case allow: True
    show ?thesis
    proof (cases "blkKind (fsBlocks mem ! b)")
      case (Aggregate L)
      let ?t = "aggTarget DL opts G b L (objOffset (fsObjs mem ! obj)) v"
      from indexAggregate_ok [OF ok b(1) Aggregate obj gep, of opts] obtain r mem' where
        r: "indexAggregate DL opts G b L obj v False mem = Inr (r, mem')" "indexed DL sp mem r mem'"
          "case ?t of NoTarget \<Rightarrow> r = None | SameObject \<Rightarrow> r = Some obj | SlotAt c n \<Rightarrow> fieldObjs (fsBlocks mem' ! c) ! n = r \<and> r \<noteq> None"
        by blast
      have grow: "mem_grows mem mem'" using r(2) by (simp add: indexed_def)
      then have obj': "obj < length (fsObjs mem')" using obj by (auto simp: mem_grows_def)
      have "idxTarget DL opts G mem obj v = ?t" using allow b(2) Aggregate by (simp add: idxTarget_def)
      then have "idxTarget DL opts G mem' obj v = ?t" using idxTarget_grows [OF ok obj grow] by simp
      then have "fsField DL opts G mem' obj v = Some r" using r(3) obj' by (cases ?t) (auto simp: fsField_def)
      moreover have "objIndexObject DL opts G False obj v mem = Inr (r, mem')"
        using allow b(2) Aggregate r(1) by (simp add: objIndexObject_def blockIndexObject_def)
      ultimately show ?thesis using r(2) by blast
    next
      case FIBlock
      note B = mem_okD(1) [OF ok b(1)]
      from B FIBlock obtain o' where o: "fieldObjs (fsBlocks mem ! b) = [Some o']" by (auto simp: block_ok_def)
      then have "o' < length (fsObjs mem)" using B unfolding block_ok_def by fastforce
      then have "indexed DL sp mem (Some o') mem" using indexed_same [OF ok, of "Some o'"] by simp
      then show ?thesis using allow b(2) FIBlock o obj
        by (simp add: objIndexObject_def blockIndexObject_def fsField_def idxTarget_def)
    next
      case ScalarBlock
      then show ?thesis using allow b(2) none obj
        by (simp add: objIndexObject_def blockIndexObject_def fsField_def idxTarget_def)
    qed
  qed
qed

section \<open>The contract with the solver\<close>

text \<open>
  Every object has its node in the constraint graph, and the nodes stay below a bound: each empty
  slot stands for the two nodes its object will take.
\<close>

definition fsInv :: "data_layout \<Rightarrow> (bool \<Rightarrow> ll_type \<Rightarrow> bool) \<Rightarrow> nat \<Rightarrow> fs_mem \<Rightarrow> nat \<Rightarrow> nat list \<Rightarrow> bool" where
  "fsInv DL sp B mem n objs \<longleftrightarrow> mem_ok DL sp mem \<and> map objNode (fsObjs mem) = map Some objs \<and> n + 2 * emptySlots mem \<le> B"

lemma fsInvD:
  assumes "fsInv DL sp B mem n objs"
  shows "mem_ok DL sp mem" and "length (fsObjs mem) = length objs" and "n + 2 * emptySlots mem \<le> B"
    and "obj < length objs \<Longrightarrow> objNode (fsObjs mem ! obj) = Some (objs ! obj)"
proof -
  from assms have m: "map objNode (fsObjs mem) = map Some objs" by (simp add: fsInv_def)
  show "mem_ok DL sp mem" "n + 2 * emptySlots mem \<le> B" using assms by (simp_all add: fsInv_def)
  show len: "length (fsObjs mem) = length objs" using m map_eq_imp_length_eq by blast
  show "objNode (fsObjs mem ! obj) = Some (objs ! obj)" if "obj < length objs" using m that len by (metis nth_map)
qed

text \<open>An object's node changes nothing else.\<close>

lemma node_ok:
  fixes N :: nat
  assumes "mem_ok DL sp mem" and "fsObjs mem = objs @ [x]"
  defines "mem' \<equiv> mem\<lparr> fsObjs := objs @ [x\<lparr> objNode := Some N \<rparr>] \<rparr>"
  shows "mem_ok DL sp mem'" and "emptySlots mem' = emptySlots mem"
    and "obj < length (fsObjs mem) \<Longrightarrow> fsField DL opts G mem' obj v = fsField DL opts G mem obj v"
proof -
  have get: "objBlock (fsObjs mem' ! i) = objBlock (fsObjs mem ! i)" "objOffset (fsObjs mem' ! i) = objOffset (fsObjs mem ! i)"
    "allowIndex (fsObjs mem' ! i) = allowIndex (fsObjs mem ! i)" if "i < length (fsObjs mem)" for i
    using that by (auto simp: mem'_def assms(2) nth_append less_Suc_eq)
  have len: "length (fsObjs mem') = length (fsObjs mem)" "fsBlocks mem' = fsBlocks mem" by (simp_all add: mem'_def assms(2))
  have "block_ok DL sp (fsObjs mem') b B" if "block_ok DL sp (fsObjs mem) b B" for b B
    using that get len(1) unfolding block_ok_def by auto
  then show "mem_ok DL sp mem'" using assms(1) get(1) unfolding mem_ok_def len by simp
  show "emptySlots mem' = emptySlots mem" by (simp add: emptySlots_def len(2))
  show "fsField DL opts G mem' obj v = fsField DL opts G mem obj v" if "obj < length (fsObjs mem)"
    unfolding fsField_def idxTarget_def len get [OF that] ..
qed

lemma createNode_at:
  assumes wf: "graph_wf (g, p)" and i: "i = length (objVec g)" "objNode (fsObjs mem ! i) = None"
  shows "\<exists>ops g' p'. createNode i mem (g, p) =
      Inr (getNodeNum g, mem\<lparr> fsObjs := (fsObjs mem)[i := (fsObjs mem ! i)\<lparr> objNode := Some (getNodeNum g) \<rparr>] \<rparr>, g', p') \<and>
    onlyObjects (getNodeNum g) ops \<and> cgRun ops (g, p) = Inr (g', p') \<and> getNodeNum g' = getNodeNum g + 2 \<and>
    objVec g' = objVec g @ [getNodeNum g]"
proof -
  let ?N = "getNodeNum g"
  from wf have ok: "cg_ok g" and p: "length p = ?N" by (simp_all add: graph_wf_def pts_wf_def)
  have less: "length (objVec g) < ?N + 2" using objVec_le [OF cg_okD(3) [OF ok]] by simp
  from addObjNode_ok [OF ok p refl less] obtain g1 where
    g1: "addObjNode (length (objVec g)) (g, p) = Inr (?N, g1, p @ [[], [length (objVec g)]])" "cg_ok g1" "cg_extends g g1"
      "getNodeNum g1 = ?N + 2" "objVec g1 = objVec g @ [?N]"
      "\<forall>j a b. edge g1 j a b \<longleftrightarrow> edge g j a b \<or> (j = CAddrOf \<and> a = ?N \<and> b = Suc ?N)" by blast
  let ?p = "p @ [[], [length (objVec g)]]"
  have step: "cgStep NewObj (g, p) = Inr (g1, ?p)" using g1(1) by simp
  note new = new_objsD [OF newObj_step [OF wf step]]
  have old: "superNode (cgNode g1 m) \<noteq> Some ?N" if "m < getNodeNum g1" for m
  proof
    assume "superNode (cgNode g1 m) = Some ?N"
    then have "(m, ?N) \<in> superRel g" using that new(3) by (auto simp: superRel_def)
    then show False using cg_okD(2) [OF ok] by (auto simp: superRel_def super_ok_def)
  qed
  have kind: "cgKind (cgNode g1 ?N) = ObjNode (length (objVec g))"
    using cg_okD(3) [OF g1(2)] by (auto simp: objs_ok_def g1(5) nth_append)
  have "\<not> addrNode g1 ?N"
  proof
    assume "addrNode g1 ?N"
    then have "cgKind (cgNode g1 ?N) = PtrNode None" using cg_okD(3) [OF g1(2)] by (auto simp: addrNode_def objs_ok_def)
    then show False using kind by simp
  qed
  moreover have "predCons (cgNode g1 ?N) k = []" for k
  proof -
    have "\<not> edge g1 k m ?N" for m using g1(6) edgeD(2) [OF ok, of k m ?N] by auto
    moreover have "?N < getNodeNum g1" using g1(4) by simp
    ultimately have "m \<notin> set (predCons (cgNode g1 ?N) k)" for m using edges_okD(4,5) [OF cg_okD(1) [OF g1(2)]] by blast
    then show ?thesis by (metis list.set_intros(1) neq_Nil_conv)
  qed
  moreover have "edge g1 CAddrOf ?N (Suc ?N)" using g1(6) by blast
  then have "\<not> hasSuperNode g1 ?N" using edgeD(3) [OF g1(2)] by (simp add: hasSuperNode_def)
  ultimately have allowed: "opAllowed (Freeze ?N) (g1, ?p)" using old g1(4) by simp
  let ?x = "fsObjs mem ! i"
  let ?mem = "mem\<lparr> fsObjs := (fsObjs mem)[i := ?x\<lparr> objNode := Some ?N \<rparr>] \<rparr>"
  let ?g = "if objImmutable ?x then setImmutable ?N g1 else g1" and ?ops = "if objImmutable ?x then [NewObj, Freeze ?N] else [NewObj]"
  have "addObjNode i (g, p) = Inr (?N, g1, ?p)" using g1(1) i(1) by simp
  then have "createNode i mem (g, p) = Inr (?N, ?mem, ?g, ?p)"
    unfolding createNode_def setObjNode_def updObj_def using i(2) by simp
  moreover have "onlyObjects ?N ?ops" by (simp add: onlyObjects_def)
  moreover have "cgRun ?ops (g, p) = Inr (?g, ?p)" using step allowed by (simp del: cgStep.simps(2) opAllowed.simps(6))
  moreover have "getNodeNum ?g = ?N + 2" "objVec ?g = objVec g @ [?N]" using g1(4,5) freeze_step [OF new(1) order_refl _ allowed] new(7) by simp_all
  ultimately show ?thesis by blast
qed

lemma createNode_ok:
  assumes "graph_wf (g, p)" and "fsObjs mem = objs @ [x]" "objNode x = None" and "length objs = length (objVec g)"
  shows "\<exists>ops g' p'. createNode (length objs) mem (g, p) =
      Inr (getNodeNum g, mem\<lparr> fsObjs := objs @ [x\<lparr> objNode := Some (getNodeNum g) \<rparr>] \<rparr>, g', p') \<and>
    onlyObjects (getNodeNum g) ops \<and> cgRun ops (g, p) = Inr (g', p') \<and> getNodeNum g' = getNodeNum g + 2 \<and>
    objVec g' = objVec g @ [getNodeNum g]"
proof -
  have "objNode (fsObjs mem ! length objs) = None" using assms(2,3) by simp
  from createNode_at [OF assms(1,4) this] show ?thesis using assms(2) by simp
qed

text \<open>
  The memory model keeps the solver's contract: whatever the program indexes, the result is an
  object of the graph, the same one for the same place, and the memory cannot outgrow the bound.
\<close>

lemma fs_index_ok:
  assumes gep: "\<forall>v. isInst v \<longrightarrow> gep_fine DL G v"
  shows "index_ok (fsLangModel DL opts G isInst hash) (fsField DL opts G) (fsInv DL sp B)"
  unfolding index_ok_def
proof (intro allI impI)
  fix mem g p obj v
  let ?L = "fsLangModel DL opts G isInst hash" and ?field = "fsField DL opts G"
  assume wf: "graph_wf (g, p)" and Inv: "fsInv DL sp B mem (getNodeNum g) (objVec g)" and obj: "obj < length (objVec g)"
    and "lmIsInstruction ?L v"
  then have gepv: "gep_fine DL G v" using gep by (simp add: fsLangModel_def)
  from wf have ok: "cg_ok g" by (simp add: graph_wf_def)
  note I = fsInvD [OF Inv]
  have obj': "obj < length (fsObjs mem)" using obj I(2) by simp
  have kind: "cgKind (cgNode g (objVec g ! obj)) = ObjNode obj" using cg_okD(3) [OF ok] obj by (simp add: objs_ok_def)
  from objIndexObject_ok [OF I(1) obj' gepv, of opts] obtain r mem1 where
    r: "objIndexObject DL opts G False obj v mem = Inr (r, mem1)" "indexed DL sp mem r mem1" "?field mem1 obj v = Some r" by blast
  have ok1: "mem_ok DL sp mem1" and grow: "mem_grows mem mem1" using r(2) by (simp_all add: indexed_def)
  have keep: "\<forall>obj v x. ?field mem obj v = Some x \<longrightarrow> ?field mem1 obj v = Some x" using fsField_grows [OF I(1) grow] by blast
  have idx: "lmIndexObject ?L (objVec g ! obj) v mem (g, p) = (case r of
       None \<Rightarrow> Inr (None, mem1, g, p)
     | Some f \<Rightarrow> (case objNode (fsObjs mem1 ! f) of
          Some n \<Rightarrow> Inr (Some n, mem1, g, p)
        | None \<Rightarrow> rbind (createNode f mem1 (g, p)) (\<lambda>(n, mem, s). Inr (Some n, mem, s))))"
    using kind r(1) by (simp add: fsLangModel_def fsIndexObject_def)
  show "\<exists>r l' ops g' p'. lmIndexObject ?L (objVec g ! obj) v mem (g, p) = Inr (map_option (\<lambda>f. objVec g' ! f) r, l', g', p') \<and>
     onlyObjects (getNodeNum g) ops \<and> cgRun ops (g, p) = Inr (g', p') \<and> fsInv DL sp B l' (getNodeNum g') (objVec g') \<and>
     ?field l' obj v = Some r \<and> (\<forall>f. r = Some f \<longrightarrow> f < length (objVec g')) \<and>
     (\<forall>obj v x. ?field mem obj v = Some x \<longrightarrow> ?field l' obj v = Some x)"
  proof (cases "fsObjs mem1 = fsObjs mem \<and> emptySlots mem1 = emptySlots mem \<and> (\<forall>f. r = Some f \<longrightarrow> f < length (fsObjs mem))")
    case True
    then have old: "fsObjs mem1 = fsObjs mem" "emptySlots mem1 = emptySlots mem" "\<And>f. r = Some f \<Longrightarrow> f < length (objVec g)"
      using I(2) by auto
    have "lmIndexObject ?L (objVec g ! obj) v mem (g, p) = Inr (map_option (\<lambda>f. objVec g ! f) r, mem1, g, p)"
      unfolding idx using old(1,3) I(4) by (cases r) simp_all
    moreover have "onlyObjects (getNodeNum g) []" "cgRun [] (g, p) = Inr (g, p)" by (simp_all add: onlyObjects_def)
    moreover have "fsInv DL sp B mem1 (getNodeNum g) (objVec g)" using Inv ok1 old(1,2) by (simp add: fsInv_def)
    ultimately show ?thesis using r(3) old(3) keep by blast
  next
    case False
    with r(2) obtain x where x: "r = Some (length (fsObjs mem))" "emptySlots mem1 + 1 = emptySlots mem"
      "fsObjs mem1 = fsObjs mem @ [x]" "objNode x = None" unfolding indexed_def by blast
    from createNode_ok [OF wf x(3,4) I(2)] obtain ops g' p' where
      c: "createNode (length (fsObjs mem)) mem1 (g, p) =
          Inr (getNodeNum g, mem1\<lparr> fsObjs := fsObjs mem @ [x\<lparr> objNode := Some (getNodeNum g) \<rparr>] \<rparr>, g', p')"
        "onlyObjects (getNodeNum g) ops" "cgRun ops (g, p) = Inr (g', p')" "getNodeNum g' = getNodeNum g + 2"
        "objVec g' = objVec g @ [getNodeNum g]" by blast
    let ?mem = "mem1\<lparr> fsObjs := fsObjs mem @ [x\<lparr> objNode := Some (getNodeNum g) \<rparr>] \<rparr>"
    note N = node_ok [where N = "getNodeNum g", OF ok1 x(3)]
    have len: "length (objVec g) = length (fsObjs mem)" using I(2) by simp
    have "lmIndexObject ?L (objVec g ! obj) v mem (g, p) = Inr (map_option (\<lambda>f. objVec g' ! f) r, ?mem, g', p')"
      unfolding idx x(1) option.case using c(1) x(3,4) by (simp add: c(5) nth_append len)
    moreover have "fsInv DL sp B ?mem (getNodeNum g') (objVec g')"
    proof -
      have "map objNode (fsObjs mem) = map Some (objVec g)" using Inv by (simp add: fsInv_def)
      moreover have "getNodeNum g' + 2 * emptySlots ?mem \<le> B" using I(3) x(2) N(2) c(4) by simp
      ultimately show ?thesis unfolding fsInv_def using N(1) c(5) by simp
    qed
    moreover have "\<forall>f. r = Some f \<longrightarrow> f < length (objVec g')" using x(1) c(5) len by simp
    moreover have fld: "?field ?mem i w = ?field mem1 i w" if "?field mem1 i w = Some y" for i w y
          proof -
      have "i < length (fsObjs mem1)" using that by (simp add: fsField_def split: if_splits)
      then show ?thesis by (rule N(3))
    qed
    have "?field ?mem obj v = Some r" using fld [OF r(3)] r(3) by simp
    moreover have "\<forall>i w y. ?field mem i w = Some y \<longrightarrow> ?field ?mem i w = Some y" using keep fld by metis
    ultimately show ?thesis using c(2,3) by blast
  qed
qed

end
