(* ===== verification/MemAlloc.thy ===== *)
theory MemAlloc
  imports MemIndex
begin

text \<open>
  Allocating objects (FSMemModel.h of src/PointerAnalysis/Models/MemoryModel/FieldSensitive and
  CppMemModel.h of src/PointerAnalysis/Models/MemoryModel/CppMemModel): functions, globals, stack and heap
  objects by their type, special objects for vectors and vtable pointers, and anonymous objects that
  are built along the type, for the arguments of \<open>main\<close>. The state is the memory, the constraint
  graph and the points-to sets; an operation gives the node of the new object.

  Parameters are what the code asks of LLVM, demangling and debug information.
\<close>

section \<open>State and parameters\<close>

datatype mem_model_kind = FSKind | CPPKind

text \<open>
  Constants that initialise globals. A scalar has its type, the type of its canonical form and
  what that is: nothing of interest (no pointer, or the address of a block), a constant
  \<open>getelementptr\<close> with its base and offset, a bitcast with its operand, another expression, or a
  global itself.
\<close>

datatype init_target =
    NoPointer | GepTo llvm_value int | CastOf llvm_value | OtherExpr | GlobalItself llvm_value

datatype ll_const =
    NullOrUndef ll_type
  | ScalarConst ll_type ll_type init_target
  | AggregateConst ll_type "ll_const list"
  | DataArrayConst ll_type

record mem_env =
  envDL :: data_layout
  envOpts :: pta_opts
  envKind :: mem_model_kind
  vptrType :: string
  envModule :: llvm_module
  demangle :: "string \<Rightarrow> string"
  pointeeType :: "llvm_value \<Rightarrow> ll_type"
  constantArraySize :: "llvm_value \<Rightarrow> int option"
  vtableNameOf :: "llvm_value option \<Rightarrow> alloc_kind \<Rightarrow> nat \<Rightarrow> ll_type \<Rightarrow> string"
  structHasPadding :: "ll_type \<Rightarrow> bool"
  initializerOf :: "llvm_value \<Rightarrow> ll_const option"
  isConstantGlobal :: "llvm_value \<Rightarrow> bool"
  nullValue :: llvm_value
  undefValue :: llvm_value

type_synonym alloc_state = "fs_mem \<times> cons_graph \<times> pts_vec"

definition isGlobalVar :: "mem_env \<Rightarrow> llvm_value \<Rightarrow> bool" where
  "isGlobalVar E v \<longleftrightarrow> classOf (envModule E) v = GlobalVariable"

definition getDemangledName :: "mem_env \<Rightarrow> string \<Rightarrow> string" where
  "getDemangledName E mangledName = demangle E (stripNumberPostFix mangledName)"

definition isVTableVariable :: "mem_env \<Rightarrow> llvm_value \<Rightarrow> bool" where
  "isVTableVariable E g \<longleftrightarrow> hasName (envModule E) g \<and>
     (let name = getDemangledName E (getName (envModule E) g) in
      \<exists>i < length name. take 10 (drop i name) = ''vtable for'')"

section \<open>Blocks\<close>

definition getMemBlock :: "mem_env \<Rightarrow> ctx_ptr \<Rightarrow> llvm_value \<Rightarrow> fs_mem \<Rightarrow> nat result" where
  "getMemBlock E c v mem =
     (case memBlockMap mem (if isGlobalVar E v then GlobCtx else c, v) of
        None \<Rightarrow> Inl AssertFailed
      | Some b \<Rightarrow> Inr b)"

text \<open>A block with a value is found again by it and its context, unless it is anonymous.\<close>

definition allocMemBlock :: "mem_block \<Rightarrow> fs_mem \<Rightarrow> (nat \<times> fs_mem) result" where
  "allocMemBlock B mem =
     (let b = length (fsBlocks mem); mem = mem\<lparr> fsBlocks := fsBlocks mem @ [B] \<rparr> in
      rassert (blkValue B \<noteq> None \<or> blkAlloc B = AAnonymous) AssertFailed
      (if blkAlloc B = AAnonymous then Inr (b, mem)
       else case blkValue B of
           None \<Rightarrow> Inl AssertFailed
         | Some v \<Rightarrow> rassert (memBlockMap mem (blkContext B, v) = None) AssertFailed
             (Inr (b, mem\<lparr> memBlockMap := (memBlockMap mem)((blkContext B, v) \<mapsto> b) \<rparr>))))"

definition newBlock :: "block_kind \<Rightarrow> ctx_ptr \<Rightarrow> llvm_value option \<Rightarrow> alloc_kind \<Rightarrow> nat option list \<Rightarrow> mem_block" where
  "newBlock kind c v T objs = \<lparr> blkKind = kind, blkContext = c, blkValue = v, blkAlloc = T, blkImmutable = False,
     fieldObjs = objs, fieldType = replicate (length objs) None \<rparr>"

definition allocFIBlock :: "ctx_ptr \<Rightarrow> llvm_value option \<Rightarrow> alloc_kind \<Rightarrow> fs_mem \<Rightarrow> (nat \<times> fs_mem) result" where
  "allocFIBlock c v T mem =
     (let (obj, mem) = addObject (newObj (Some (length (fsBlocks mem))) 0 NormalObj True) mem in
      allocMemBlock (newBlock FIBlock c v T [Some obj]) mem)"

definition allocScalarBlock :: "ctx_ptr \<Rightarrow> llvm_value option \<Rightarrow> alloc_kind \<Rightarrow> fs_mem \<Rightarrow> (nat \<times> fs_mem) result" where
  "allocScalarBlock c v T mem =
     (let (obj, mem) = addObject (newObj (Some (length (fsBlocks mem))) 0 NormalObj True) mem in
      allocMemBlock (newBlock ScalarBlock c v T [Some obj]) mem)"

definition allocAggregateBlock :: "ctx_ptr \<Rightarrow> llvm_value option \<Rightarrow> alloc_kind \<Rightarrow> mem_layout \<Rightarrow> fs_mem \<Rightarrow> (nat \<times> fs_mem) result" where
  "allocAggregateBlock c v T L mem =
     allocMemBlock (newBlock (Aggregate L) c v T (replicate (max 1 (getNumIndexableElem L)) None)) mem"

definition nodeAtStart :: "nat \<Rightarrow> alloc_state \<Rightarrow> (nat \<times> alloc_state) result" where
  "nodeAtStart b = (\<lambda>(mem, s).
     (case getObjectAt b 0 mem of
        (None, mem) \<Rightarrow> Inl AssertFailed
      | (Some obj, mem) \<Rightarrow> createNode obj mem s))"

definition allocFIObject :: "ctx_ptr \<Rightarrow> llvm_value option \<Rightarrow> alloc_kind \<Rightarrow> alloc_state \<Rightarrow> (nat \<times> alloc_state) result" where
  "allocFIObject c v T = (\<lambda>(mem, s). rbind (allocFIBlock c v T mem) (\<lambda>(b, mem). nodeAtStart b (mem, s)))"

definition allocScalarObject :: "ctx_ptr \<Rightarrow> llvm_value option \<Rightarrow> alloc_kind \<Rightarrow> alloc_state \<Rightarrow> (nat \<times> alloc_state) result" where
  "allocScalarObject c v T = (\<lambda>(mem, s). rbind (allocScalarBlock c v T mem) (\<lambda>(b, mem). nodeAtStart b (mem, s)))"

definition requestLayout ::
  "mem_env \<Rightarrow> bool \<Rightarrow> layout_callback \<Rightarrow> ll_type \<Rightarrow> fs_mem \<Rightarrow> (mem_layout \<times> fs_mem) result" where
  "requestLayout E collapse callback T mem =
     rbind (getLayoutForType (envDL E) collapse callback T (layoutManager mem)) (\<lambda>(L, m).
       Inr (L, mem\<lparr> layoutManager := m \<rparr>))"

definition allocStructArrayFS ::
  "mem_env \<Rightarrow> ctx_ptr \<Rightarrow> llvm_value option \<Rightarrow> alloc_kind \<Rightarrow> ll_type \<Rightarrow> alloc_state \<Rightarrow> (nat \<times> alloc_state) result" where
  "allocStructArrayFS E c v T type = (\<lambda>(mem, s).
     rbind (requestLayout E True None type mem) (\<lambda>(L, mem).
     rbind (allocAggregateBlock c v T L mem) (\<lambda>(b, mem). nodeAtStart b (mem, s))))"

section \<open>Special objects\<close>

text \<open>A vector and the object of its elements, which cannot be indexed, both with their nodes.\<close>

definition newVector :: "nat option \<Rightarrow> nat \<Rightarrow> ll_type \<Rightarrow> alloc_state \<Rightarrow> (nat \<times> alloc_state) result" where
  "newVector b pOffset elemType = (\<lambda>(mem, s).
     (let vec = length (fsObjs mem);
          (_, mem) = addObject (newObj b pOffset (VectorObj elemType (vec + 1)) True) mem;
          (elem, mem) = addObject (newObj b 0 VectorElem False) mem in
      rbind (createNode vec mem s) (\<lambda>(_, mem, s).
      rbind (createNode elem mem s) (\<lambda>(_, mem, s). Inr (vec, mem, s)))))"

definition setMemBlock :: "nat \<Rightarrow> nat \<Rightarrow> fs_mem \<Rightarrow> fs_mem result" where
  "setMemBlock obj b mem = rassert (objBlock (fsObjs mem ! obj) = None) AssertFailed
     (Inr (updObj obj (\<lambda>x. x\<lparr> objBlock := Some b \<rparr>) mem))"

definition newVTablePtr :: "mem_env \<Rightarrow> nat \<Rightarrow> nat \<Rightarrow> ll_type \<Rightarrow> alloc_state \<Rightarrow> (nat \<times> alloc_state) result" where
  "newVTablePtr E b pOffset objType = (\<lambda>(mem, s).
     (case stripArray objType of
        StructTy n ts \<Rightarrow>
          let B = fsBlocks mem ! b; name = vtableNameOf E (blkValue B) (blkAlloc B) pOffset (StructTy n ts);
              (obj, mem) = addObject (newObj (Some b) pOffset (VTablePtrObj name) True) mem in
          rbind (createNode obj mem s) (\<lambda>(_, mem, s). Inr (obj, mem, s))
      | _ \<Rightarrow> Inl AssertFailed))"

definition isSpecial :: "mem_env \<Rightarrow> ll_type \<Rightarrow> bool result" where
  "isSpecial E T = isSpecialTypeImpl (envDL E) (vtableMode (envOpts E)) (vptrType E) T"

definition specialCallback :: "mem_env \<Rightarrow> layout_callback" where
  "specialCallback E = Some (\<lambda>T L lOffset pOffset.
     rbind (isSpecial E T) (\<lambda>special. collectSpecialObj (envDL E) (\<lambda>_. special) T L lOffset pOffset))"

text \<open>Down to the first element that is a vector; what was found before stays when there is none.\<close>

lemma size_stripArray_le: "size (stripArray T) \<le> size T"
  using size_stripArray by (metis less_imp_le order_refl)

function vectorInside :: "data_layout \<Rightarrow> ll_type \<Rightarrow> ll_type option \<Rightarrow> (ll_type option \<times> ll_type) result" where
  "vectorInside DL elem found =
     (case elem of
        StructTy s ts \<Rightarrow>
          rbind (resolveVecElemType DL elem) (\<lambda>result.
            case result of
              Some V \<Rightarrow> Inr (Some V, elem)
            | None \<Rightarrow> (case ts of [] \<Rightarrow> Inl AssertFailed | t # _ \<Rightarrow> vectorInside DL (stripArray t) found))
      | _ \<Rightarrow> Inr (found, elem))"
  by pat_completeness auto

termination
proof (relation "measure (\<lambda>(DL, T, found). size T)")
  fix DL elem found s ts t ts' and result :: "ll_type option"
  assume "elem = StructTy s ts" and "ts = t # ts'"
  then show "((DL, stripArray t, found), DL, elem, found) \<in> measure (\<lambda>(DL, T, found). size T)"
    using size_stripArray_le [of t] by simp
qed simp

declare vectorInside.simps [simp del]

definition allocSpecialAt ::
  "mem_env \<Rightarrow> ll_type \<Rightarrow> nat \<Rightarrow> nat \<Rightarrow> ll_type option \<times> alloc_state \<Rightarrow> (ll_type option \<times> alloc_state) result" where
  "allocSpecialAt E type b offset = (\<lambda>(vectorElemT, s).
     (case getTypeAtOffset (envDL E) True type offset of
        None \<Rightarrow> Inl AssertFailed
      | Some elem \<Rightarrow>
          rbind (vectorInside (envDL E) (stripArray elem) vectorElemT) (\<lambda>(vectorElemT, elem).
            case vectorElemT of
              Some V \<Rightarrow>
                rbind (newVector (Some b) offset V s) (\<lambda>(vec, mem, gp).
                rbind (initializeOffsetWith b offset vec mem) (\<lambda>mem. Inr (vectorElemT, mem, gp)))
            | None \<Rightarrow>
                rassert (isVTablePtrType (vptrType E) elem \<and> vtableMode (envOpts E)) AssertFailed
                (rbind (newVTablePtr E b offset type s) (\<lambda>(vptr, mem, gp).
                 rbind (initializeOffsetWith b offset vptr mem) (\<lambda>mem. Inr (vectorElemT, mem, gp)))))))"

definition allocWithSpecials ::
  "mem_env \<Rightarrow> ctx_ptr \<Rightarrow> llvm_value option \<Rightarrow> alloc_kind \<Rightarrow> ll_type \<Rightarrow> ll_type option \<Rightarrow> alloc_state \<Rightarrow> (nat \<times> alloc_state) result" where
  "allocWithSpecials E c v T type vectorElemT = (\<lambda>(mem, s).
     rbind (requestLayout E True (specialCallback E) type mem) (\<lambda>(L, mem).
     rbind (allocAggregateBlock c v T L mem) (\<lambda>(b, mem).
     rbind (rfold (allocSpecialAt E type b) (sorted_list_of_set (specialLayout L)) (vectorElemT, mem, s)) (\<lambda>(_, mem, s).
     case getObjectAt b 0 mem of
       (None, mem) \<Rightarrow> Inl NullDeref
     | (Some obj, mem) \<Rightarrow>
         (case objNode (fsObjs mem ! obj) of
            Some n \<Rightarrow> Inr (n, mem, s)
          | None \<Rightarrow> createNode obj mem s)))))"

definition allocStructArrayCpp ::
  "mem_env \<Rightarrow> ctx_ptr \<Rightarrow> llvm_value option \<Rightarrow> alloc_kind \<Rightarrow> ll_type \<Rightarrow> alloc_state \<Rightarrow> (nat \<times> alloc_state) result" where
  "allocStructArrayCpp E c v T type = (\<lambda>(mem, s).
     if T \<noteq> AAnonymous \<and> (case v of Some g \<Rightarrow> isGlobalVar E g \<and> isVTableVariable E g \<and> \<not> isDeclaration (envModule E) g | None \<Rightarrow> False)
     then
       rbind (requestLayout E False None (pointeeType E (the v)) mem) (\<lambda>(L, mem).
       rbind (allocAggregateBlock c v T L mem) (\<lambda>(b, mem). nodeAtStart b (mem, s)))
     else
       rbind (resolveVecElemType (envDL E) type) (\<lambda>vectorElemT.
       case vectorElemT of
         Some V \<Rightarrow>
           if isSupportedElementType V then
             rbind (newVector None 0 V (mem, s)) (\<lambda>(vec, mem, s).
             rbind (allocMemBlock (newBlock ScalarBlock c v T [Some vec]) mem) (\<lambda>(b, mem).
             rbind (setMemBlock vec b mem) (\<lambda>mem.
             rbind (setMemBlock (vec + 1) b mem) (\<lambda>mem.
             rbind (getObjNode mem vec) (\<lambda>n. Inr (n, mem, s))))))
           else allocWithSpecials E c v T type vectorElemT (mem, s)
       | None \<Rightarrow> allocWithSpecials E c v T type vectorElemT (mem, s)))"

section \<open>Objects by type\<close>

definition allocStructArrayObj ::
  "mem_env \<Rightarrow> ctx_ptr \<Rightarrow> llvm_value option \<Rightarrow> alloc_kind \<Rightarrow> ll_type \<Rightarrow> alloc_state \<Rightarrow> (nat \<times> alloc_state) result" where
  "allocStructArrayObj E c v T type s =
     (case envKind E of
        FSKind \<Rightarrow> allocStructArrayFS E c v T type s
      | CPPKind \<Rightarrow> allocStructArrayCpp E c v T type s)"

definition allocValueWithType ::
  "mem_env \<Rightarrow> ctx_ptr \<Rightarrow> llvm_value option \<Rightarrow> alloc_kind \<Rightarrow> ll_type \<Rightarrow> alloc_state \<Rightarrow> (nat \<times> alloc_state) result" where
  "allocValueWithType E c v T type s =
     (if useFIMode (envOpts E) then allocFIObject c v T s
      else case type of
          StructTy n ts \<Rightarrow> allocStructArrayObj E c v T type s
        | ArrayTy n elem \<Rightarrow> allocStructArrayObj E c v T type s
        | OpaqueTy n \<Rightarrow> allocFIObject c v T s
        | VectorTy n \<Rightarrow> allocFIObject c v T s
        | _ \<Rightarrow> allocScalarObject c v T s)"

definition allocNullObj :: "mem_env \<Rightarrow> alloc_state \<Rightarrow> (nat \<times> alloc_state) result" where
  "allocNullObj E = allocFIObject GlobCtx (Some (nullValue E)) ANull"

definition allocUniObj :: "mem_env \<Rightarrow> alloc_state \<Rightarrow> (nat \<times> alloc_state) result" where
  "allocUniObj E = allocFIObject GlobCtx (Some (undefValue E)) AUniversal"

definition allocFunction :: "llvm_value \<Rightarrow> alloc_state \<Rightarrow> (nat \<times> alloc_state) result" where
  "allocFunction f = allocScalarObject GlobCtx (Some f) AFunctions"

definition allocGlobalVariable :: "mem_env \<Rightarrow> llvm_value \<Rightarrow> alloc_state \<Rightarrow> (nat \<times> alloc_state) result" where
  "allocGlobalVariable E g = allocValueWithType E GlobCtx (Some g) AGlobals (pointeeType E g)"

text \<open>A negative constant size leaves the type uninitialised, a pointer to anything.\<close>

definition allocStackObj :: "mem_env \<Rightarrow> ctx_ptr \<Rightarrow> llvm_value \<Rightarrow> alloc_state \<Rightarrow> (nat \<times> alloc_state) result" where
  "allocStackObj E c I s =
     (let elementType = pointeeType E I in
      case constantArraySize E I of
        None \<Rightarrow> allocValueWithType E c (Some I) AStack (ArrayTy SIZE_MAX elementType) s
      | Some num \<Rightarrow>
          if 0 \<le> num then
            let eleNum = nat num mod 2 ^ 32 in
            allocValueWithType E c (Some I) AStack (if eleNum = 1 then elementType else ArrayTy eleNum elementType) s
          else Inl NullDeref)"

definition allocHeapObj :: "mem_env \<Rightarrow> ctx_ptr \<Rightarrow> llvm_value \<Rightarrow> ll_type option \<Rightarrow> alloc_state \<Rightarrow> (nat \<times> alloc_state) result" where
  "allocHeapObj E c I T s =
     (case T of
        Some type \<Rightarrow> allocValueWithType E c (Some I) AHeap type s
      | None \<Rightarrow> allocFIObject c (Some I) AHeap s)"

section \<open>Anonymous objects\<close>

definition isSpecialType :: "mem_env \<Rightarrow> ll_type \<Rightarrow> bool result" where
  "isSpecialType E T = (case envKind E of FSKind \<Rightarrow> Inr False | CPPKind \<Rightarrow> isSpecial E T)"

fun isSized :: "ll_type \<Rightarrow> bool" where
  "isSized (StructTy s ts) \<longleftrightarrow> (\<forall>t \<in> set ts. isSized t)"
| "isSized (ArrayTy n E) \<longleftrightarrow> isSized E"
| "isSized (OpaqueTy s) \<longleftrightarrow> False"
| "isSized T \<longleftrightarrow> True"

definition addAddrOf :: "nat \<Rightarrow> nat \<Rightarrow> alloc_state \<Rightarrow> alloc_state result" where
  "addAddrOf src dst = (\<lambda>(mem, g, p). rbind (addConstraints src dst CAddrOf g) (\<lambda>(_, g). Inr (mem, g, p)))"

text \<open>The type an anonymous pointer points to, as an array; none for functions and void.\<close>

definition childType :: "mem_env \<Rightarrow> string \<Rightarrow> ll_type option" where
  "childType E s = map_option getUnboundedArrayTy (getPointerElementType (envDL E) s)"

text \<open>The child goes into the pointer at an offset of the block, if there is one.\<close>

definition linkChild :: "nat \<Rightarrow> nat \<Rightarrow> nat \<Rightarrow> alloc_state \<Rightarrow> alloc_state result" where
  "linkChild child b offset = (\<lambda>(mem, s).
     (case getPtrObjectAt b offset mem of
        (None, mem) \<Rightarrow> Inr (mem, s)
      | (Some obj, mem) \<Rightarrow>
          (case objNode (fsObjs mem ! obj) of
             None \<Rightarrow> rbind (createNode obj mem s) (\<lambda>(n, mem, s). addAddrOf child n (mem, s))
           | Some n \<Rightarrow> rassert (offset = 0) AssertFailed (addAddrOf child n (mem, s)))))"

text \<open>
  \<open>typeTree\<close> are the types that are being built, the counter how many objects were. The recursion
  ends because the tree has a limit and structures are finite.
\<close>

function (sequential)
  allocAnonObjRec :: "mem_env \<Rightarrow> ctx_ptr \<Rightarrow> ll_type option \<Rightarrow> llvm_value option \<Rightarrow> ll_type list \<Rightarrow>
    nat \<times> alloc_state \<Rightarrow> (nat option \<times> nat \<times> alloc_state) result"
and initAnonAggregateObj :: "mem_env \<Rightarrow> ctx_ptr \<Rightarrow> ll_type \<Rightarrow> nat \<Rightarrow> ll_type list \<Rightarrow> llvm_value option \<Rightarrow> nat \<Rightarrow>
    nat \<times> alloc_state \<Rightarrow> (nat \<times> alloc_state) result"
and initAnonFields :: "mem_env \<Rightarrow> ctx_ptr \<Rightarrow> ll_type \<Rightarrow> nat \<Rightarrow> ll_type list \<Rightarrow> nat \<Rightarrow> ll_type list \<Rightarrow> llvm_value option \<Rightarrow> nat \<Rightarrow>
    nat \<times> alloc_state \<Rightarrow> (nat \<times> alloc_state) result" where
  "allocAnonObjRec E c None tag typeTree (cnt, s) = Inr (None, cnt, s)"
| "allocAnonObjRec E c (Some T) tag typeTree (cnt, s) =
     (if anonRecDepthLimit (envOpts E) < length typeTree then Inr (None, cnt, s)
      else if T \<in> set typeTree \<or> anonRecLimit (envOpts E) \<noteq> 0 \<and> anonRecLimit (envOpts E) < cnt then Inr (None, cnt, s)
      else if \<not> isSized T then rbind (allocFIObject c tag AAnonymous s) (\<lambda>(n, s). Inr (Some n, cnt, s))
      else
        rbind (allocValueWithType E c tag AAnonymous T s) (\<lambda>(n, mem, g, p).
        (case cgKind (cgNode g n) of
           PtrNode x \<Rightarrow> Inl AssertFailed
         | ObjNode obj \<Rightarrow>
             if isSpecialObject (fsObjs mem ! obj) then Inr (Some n, cnt + 1, mem, g, p)
             else
               (case objBlock (fsObjs mem ! obj) of
                  None \<Rightarrow> Inl NullDeref
                | Some b \<Rightarrow>
                    (case stripArray T of
                       StructTy m ts \<Rightarrow>
                         rbind (initAnonAggregateObj E c (StructTy m ts) b (typeTree @ [T]) tag 0 (cnt + 1, mem, g, p)) (\<lambda>st.
                           Inr (Some n, st))
                     | PointerTy m \<Rightarrow>
                         rbind (allocAnonObjRec E c (childType E m) tag (typeTree @ [T]) (cnt + 1, mem, g, p)) (\<lambda>(child, cnt, s).
                           case child of
                             None \<Rightarrow> Inr (Some n, cnt, s)
                           | Some ch \<Rightarrow> rbind (addAddrOf ch n s) (\<lambda>s. Inr (Some n, cnt, s)))
                     | _ \<Rightarrow> Inr (Some n, cnt + 1, mem, g, p))))))"
| "initAnonAggregateObj E c (StructTy m ts) b typeTree tag globOffset st =
     rassert (isSized (StructTy m ts)) AssertFailed (initAnonFields E c (StructTy m ts) 0 ts b typeTree tag globOffset st)"
| "initAnonAggregateObj E c T b typeTree tag globOffset st = Inl AssertFailed"
| "initAnonFields E c S i [] b typeTree tag globOffset st = Inr st"
| "initAnonFields E c S i (t # ts) b typeTree tag globOffset st =
     (let offset = globOffset + getElementOffset (envDL E) S i in
      rbind (case stripArray t of
          StructTy m us \<Rightarrow>
            rbind (isSpecialType E (StructTy m us)) (\<lambda>special.
              if special then Inr st else initAnonAggregateObj E c (StructTy m us) b typeTree tag offset st)
        | PointerTy m \<Rightarrow>
            rbind (allocAnonObjRec E c (childType E m) tag typeTree st) (\<lambda>(child, cnt, s).
              case child of
                None \<Rightarrow> Inr (cnt, s)
              | Some ch \<Rightarrow> rbind (linkChild ch b offset s) (\<lambda>s. Inr (cnt, s)))
        | _ \<Rightarrow> Inr st) (\<lambda>st. initAnonFields E c S (i + 1) ts b typeTree tag globOffset st))"
  by pat_completeness auto

termination
proof (relation "measures
    [\<lambda>x. case x of
        Inl (E, c, T, tag, tree, st) \<Rightarrow> anonRecDepthLimit (envOpts E) + 1 - length tree
      | Inr (Inl (E, c, T, b, tree, tag, off, st)) \<Rightarrow> anonRecDepthLimit (envOpts E) + 1 - length tree
      | Inr (Inr (E, c, S, i, ts, b, tree, tag, off, st)) \<Rightarrow> anonRecDepthLimit (envOpts E) + 1 - length tree,
     \<lambda>x. case x of
        Inl y \<Rightarrow> 0
      | Inr (Inl (E, c, T, b, tree, tag, off, st)) \<Rightarrow> 2 * size T
      | Inr (Inr (E, c, S, i, ts, b, tree, tag, off, st)) \<Rightarrow> 2 * size_list size ts + 1]")
  fix E c S i t ts b tree tag off st offset m us x
  assume s: "stripArray t = StructTy m us"
  have "2 * size (StructTy m us) < 2 * size_list size (t # ts) + 1" using size_stripArray_le [of t] unfolding s by simp
  then show "(Inr (Inl (E, c, StructTy m us, b, tree, tag, offset, st)), Inr (Inr (E, c, S, i, t # ts, b, tree, tag, off, st))) \<in> measures
    [\<lambda>x. case x of
        Inl (E, c, T, tag, tree, st) \<Rightarrow> anonRecDepthLimit (envOpts E) + 1 - length tree
      | Inr (Inl (E, c, T, b, tree, tag, off, st)) \<Rightarrow> anonRecDepthLimit (envOpts E) + 1 - length tree
      | Inr (Inr (E, c, S, i, ts, b, tree, tag, off, st)) \<Rightarrow> anonRecDepthLimit (envOpts E) + 1 - length tree,
     \<lambda>x. case x of
        Inl y \<Rightarrow> 0
      | Inr (Inl (E, c, T, b, tree, tag, off, st)) \<Rightarrow> 2 * size T
      | Inr (Inr (E, c, S, i, ts, b, tree, tag, off, st)) \<Rightarrow> 2 * size_list size ts + 1]" by simp
qed auto

definition allocAnonObj ::
  "mem_env \<Rightarrow> ctx_ptr \<Rightarrow> ll_type option \<Rightarrow> llvm_value option \<Rightarrow> bool \<Rightarrow> alloc_state \<Rightarrow> (nat option \<times> alloc_state) result" where
  "allocAnonObj E c T tag recursive s =
     (case T of
        Some type \<Rightarrow>
          if recursive then rbind (allocAnonObjRec E c (Some type) tag [] (0, s)) (\<lambda>(n, cnt, s). Inr (n, s))
          else rbind (allocValueWithType E c tag AAnonymous type s) (\<lambda>(n, s). Inr (Some n, s))
      | None \<Rightarrow> rbind (allocFIObject c tag AAnonymous s) (\<lambda>(n, s). Inr (Some n, s)))"

definition handleMemCpy :: "mem_env \<Rightarrow> ctx_ptr \<Rightarrow> nat \<Rightarrow> nat \<Rightarrow> alloc_state \<Rightarrow> alloc_state result" where
  "handleMemCpy E c src dst s =
     (if useFIMode (envOpts E) then
        rbind (allocAnonObj E c None None False s) (\<lambda>(n, mem, g, p).
        case n of
          None \<Rightarrow> Inl NullDeref
        | Some tmp \<Rightarrow>
            rbind (addConstraints src tmp CLoad g) (\<lambda>(_, g).
            rbind (addConstraints tmp dst CStore g) (\<lambda>(_, g). Inr (mem, g, p))))
      else Inr s)"

section \<open>Initialisers of globals\<close>

text \<open>The node of the object a constant points to, if it has one; what a \<open>getelementptr\<close> names may have none yet.\<close>

definition startNode :: "mem_env \<Rightarrow> llvm_value \<Rightarrow> alloc_state \<Rightarrow> (nat option \<times> alloc_state) result" where
  "startNode E v = (\<lambda>(mem, s).
     rbind (getMemBlock E GlobCtx v mem) (\<lambda>b.
     case getObjectAt b 0 mem of
       (None, mem) \<Rightarrow> Inl NullDeref
     | (Some obj, mem) \<Rightarrow> rbind (getObjNode mem obj) (\<lambda>n. Inr (Some n, mem, s))))"

definition targetNode :: "mem_env \<Rightarrow> init_target \<Rightarrow> alloc_state \<Rightarrow> (nat option \<times> alloc_state) result" where
  "targetNode E t = (\<lambda>(mem, s).
     (case t of
        GepTo base off \<Rightarrow>
          rassert (0 \<le> off) AssertFailed
          (rbind (getMemBlock E GlobCtx base mem) (\<lambda>b.
           case getObjectAt b (nat off mod 2 ^ 32) mem of
             (None, mem) \<Rightarrow> Inr (None, mem, s)
           | (Some obj, mem) \<Rightarrow>
               (case objNode (fsObjs mem ! obj) of
                  Some n \<Rightarrow> Inr (Some n, mem, s)
                | None \<Rightarrow> rbind (createNode obj mem s) (\<lambda>(n, mem, s). Inr (Some n, mem, s)))))
      | CastOf v \<Rightarrow> startNode E v (mem, s)
      | OtherExpr \<Rightarrow> Inr (None, mem, s)
      | GlobalItself v \<Rightarrow> startNode E v (mem, s)
      | NoPointer \<Rightarrow> Inr (None, mem, s)))"

definition initPointer :: "mem_env \<Rightarrow> nat \<Rightarrow> nat \<times> init_target \<Rightarrow> alloc_state \<Rightarrow> alloc_state result" where
  "initPointer E b = (\<lambda>(offset, t) (mem, s).
     (case getObjectAt b offset mem of
        (None, mem) \<Rightarrow> Inl NullDeref
      | (Some ptr, mem) \<Rightarrow>
          rbind (case objNode (fsObjs mem ! ptr) of
              Some n \<Rightarrow> Inr (n, mem, s)
            | None \<Rightarrow> createNode ptr mem s) (\<lambda>(ptrNode, s).
          rbind (targetNode E t s) (\<lambda>(objNode, s).
          case objNode of
            None \<Rightarrow> Inr s
          | Some n \<Rightarrow> addAddrOf n ptrNode s))))"

definition processScalarGlobals ::
  "mem_env \<Rightarrow> nat \<Rightarrow> ll_type \<Rightarrow> init_target \<Rightarrow> nat \<times> alloc_state \<Rightarrow> (nat \<times> alloc_state) result" where
  "processScalarGlobals E b canonType t = (\<lambda>(offset, s).
     rbind (if t = NoPointer then Inr s else initPointer E b (offset, t) s) (\<lambda>s.
       Inr (offset + getTypeAllocSize (envDL E) canonType, s)))"

fun constType :: "ll_const \<Rightarrow> ll_type" where
  "constType (NullOrUndef T) = T"
| "constType (ScalarConst T T' t) = T"
| "constType (AggregateConst T cs) = T"
| "constType (DataArrayConst T) = T"

fun isStructTy :: "ll_type \<Rightarrow> bool" where
  "isStructTy (StructTy s ts) \<longleftrightarrow> True"
| "isStructTy T \<longleftrightarrow> False"

fun processInitializer :: "mem_env \<Rightarrow> nat \<Rightarrow> ll_const \<Rightarrow> nat \<times> alloc_state \<Rightarrow> (nat \<times> alloc_state) result"
and processOperands :: "mem_env \<Rightarrow> nat \<Rightarrow> ll_type \<Rightarrow> nat \<Rightarrow> nat \<Rightarrow> ll_const list \<Rightarrow> nat \<times> alloc_state \<Rightarrow> (nat \<times> alloc_state) result" where
  "processInitializer E b (NullOrUndef T) (offset, s) = Inr (offset + getTypeAllocSize (envDL E) T, s)"
| "processInitializer E b (ScalarConst T T' t) (offset, s) = processScalarGlobals E b T' t (offset, s)"
| "processInitializer E b (AggregateConst T cs) (offset, s) =
     rbind (processOperands E b T offset 0 cs (offset, s)) (\<lambda>(offset', s).
       Inr (if isStructTy T then offset + getTypeAllocSize (envDL E) T else offset', s))"
| "processInitializer E b (DataArrayConst T) (offset, s) = Inr (offset + getTypeAllocSize (envDL E) T, s)"
| "processOperands E b T initOffset i [] st = Inr st"
| "processOperands E b T initOffset i (c # cs) (offset, s) =
     rbind (if isStructTy T \<and> structHasPadding E T
         then rassert (initOffset \<le> offset) AssertFailed (Inr (initOffset + getElementOffset (envDL E) T i))
         else Inr offset) (\<lambda>offset.
     rbind (processInitializer E b c (offset, s)) (\<lambda>st. processOperands E b T initOffset (i + 1) cs st))"

definition initializeGlobalFS :: "mem_env \<Rightarrow> llvm_value \<Rightarrow> alloc_state \<Rightarrow> alloc_state result" where
  "initializeGlobalFS E g = (\<lambda>(mem, s).
     (case initializerOf E g of
        None \<Rightarrow> Inr (mem, s)
      | Some c \<Rightarrow>
          rbind (getMemBlock E GlobCtx g mem) (\<lambda>b.
          rbind (processInitializer E b c (0, mem, s)) (\<lambda>(_, mem, g1, p).
          if isConstantGlobal E g then let (mem, g1) = setBlockImmutable b (mem, g1) in Inr (mem, g1, p)
          else Inr (mem, g1, p)))))"

definition initializeGlobal :: "mem_env \<Rightarrow> llvm_value \<Rightarrow> alloc_state \<Rightarrow> alloc_state result" where
  "initializeGlobal E g s =
     (case envKind E of
        FSKind \<Rightarrow> initializeGlobalFS E g s
      | CPPKind \<Rightarrow>
          rbind (resolveVecElemType (envDL E) (pointeeType E g)) (\<lambda>vectorElemT.
            if (case vectorElemT of Some V \<Rightarrow> isSupportedElementType V | None \<Rightarrow> False) then Inr s
            else initializeGlobalFS E g s))"

end
