(* ===== verification/AllocOk.thy ===== *)
theory AllocOk
  imports MemAlloc
begin

text \<open>
  Allocation is right. The layout of a type depends on the callback only through the parts of the
  type; every allocation of an object whose type has a layout succeeds, adds objects and a block and
  nothing else, and keeps the memory, the layouts and the graph in step.
\<close>

section \<open>Callbacks that agree\<close>

fun typesIn :: "ll_type \<Rightarrow> ll_type list" where
  "typesIn (StructTy s ts) = StructTy s ts # concat (map typesIn ts)"
| "typesIn (ArrayTy n E) = ArrayTy n E # typesIn E"
| "typesIn T = [T]"

definition callbackAt :: "layout_callback \<Rightarrow> ll_type \<Rightarrow> mem_layout \<Rightarrow> nat \<Rightarrow> nat \<Rightarrow> (mem_layout \<times> nat \<times> nat) option result" where
  "callbackAt cb T L l p = (case cb of None \<Rightarrow> Inr None | Some f \<Rightarrow> f T L l p)"

definition agree :: "layout_callback \<Rightarrow> layout_callback \<Rightarrow> ll_type \<Rightarrow> bool" where
  "agree cb cb' T \<longleftrightarrow> (\<forall>U \<in> set (typesIn T). callbackAt cb U = callbackAt cb' U)"

lemma agree_self: "agree cb cb' T \<Longrightarrow> callbackAt cb T = callbackAt cb' T"
  by (cases T) (auto simp: agree_def)

lemma agree_parts:
  "agree cb cb' (StructTy s ts) \<Longrightarrow> t \<in> set ts \<Longrightarrow> agree cb cb' t" "agree cb cb' (ArrayTy n E) \<Longrightarrow> agree cb cb' E"
  by (auto simp: agree_def)

definition same_part :: "layout_callback \<Rightarrow> layout_callback \<Rightarrow> ll_type \<Rightarrow> bool" where
  "same_part cb cb' T \<longleftrightarrow> (\<forall>DL c L l p m. setElementLayout DL c cb T L l p m = setElementLayout DL c cb' T L l p m)"

lemma same_partD: "same_part cb cb' T \<Longrightarrow> setElementLayout DL c cb T = setElementLayout DL c cb' T"
  by (simp add: same_part_def fun_eq_iff)

lemma same_fields:
  "\<forall>t \<in> set ts. same_part cb cb' t \<Longrightarrow> layoutFields DL c cb T i ts L l p m = layoutFields DL c cb' T i ts L l p m"
proof (induction ts arbitrary: i L l p m)
  case (Cons t ts)
  then have "setElementLayout DL c cb t = setElementLayout DL c cb' t" using same_partD by simp
  moreover have "layoutFields DL c cb T (i + 1) ts = layoutFields DL c cb' T (i + 1) ts" using Cons by (simp add: fun_eq_iff)
  ultimately show ?case by simp
qed simp

lemma same_elements:
  "same_part cb cb' E \<Longrightarrow> layoutElements DL cb i k E L l p m = layoutElements DL cb' i k E L l p m"
proof (induction k arbitrary: i L l p m)
  case (Suc k)
  then have "layoutElements DL cb (i + 1) k E = layoutElements DL cb' (i + 1) k E" by (simp add: fun_eq_iff)
  then show ?case using same_partD [OF Suc.prems] by simp
qed simp

lemma same_struct:
  assumes "\<forall>t \<in> set ts. same_part cb cb' t"
  shows "DFSTypeTree DL c cb (StructTy s ts) = DFSTypeTree DL c cb' (StructTy s ts)"
proof -
  have eq: "layoutFields DL c cb (StructTy s ts) 0 ts = layoutFields DL c cb' (StructTy s ts) 0 ts"
    using same_fields [OF assms] by (simp add: fun_eq_iff)
  have "DFSTypeTree DL c cb (StructTy s ts) l p m = DFSTypeTree DL c cb' (StructTy s ts) l p m" for l p m
    by (cases "findLayout c (StructTy s ts) m") (simp_all add: eq)
  then show ?thesis by blast
qed

lemma same_array:
  assumes "same_part cb cb' E"
  shows "DFSTypeTree DL c cb (ArrayTy n E) = DFSTypeTree DL c cb' (ArrayTy n E)"
proof -
  have eq: "layoutElements DL cb 0 n E = layoutElements DL cb' 0 n E" using same_elements [OF assms] by (simp add: fun_eq_iff)
  have "DFSTypeTree DL c cb (ArrayTy n E) l p m = DFSTypeTree DL c cb' (ArrayTy n E) l p m" for l p m
    by (cases "findLayout c (ArrayTy n E) m")
      (simp_all add: eq same_partD [OF assms] del: setElementLayout.simps layoutElements.simps)
  then show ?thesis by blast
qed

lemma same_step:
  assumes "callbackAt cb T = callbackAt cb' T" and "isAggregateType T \<Longrightarrow> \<forall>DL c. DFSTypeTree DL c cb T = DFSTypeTree DL c cb' T"
  shows "same_part cb cb' T"
proof -
  have "setElementLayout DL c cb T L l p m = setElementLayout DL c cb' T L l p m" for DL c L l p m
  proof -
    have "(case cb of None \<Rightarrow> Inr None | Some f \<Rightarrow> f T L l p) = (case cb' of None \<Rightarrow> Inr None | Some f \<Rightarrow> f T L l p)"
      using assms(1) by (simp add: callbackAt_def fun_eq_iff)
    then show ?thesis using assms(2) by (cases T) (simp_all del: DFSTypeTree.simps cong: option.case_cong)
  qed
  then show ?thesis by (simp add: same_part_def)
qed

lemma agree_same_part: "agree cb cb' T \<Longrightarrow> same_part cb cb' T"
proof (induction T)
  case (StructTy s ts)
  then have "\<forall>t \<in> set ts. same_part cb cb' t" using agree_parts(1) by blast
  then show ?case using same_step [OF agree_self [OF StructTy.prems]] same_struct by blast
next
  case (ArrayTy n E)
  then have "same_part cb cb' E" using agree_parts(2) by blast
  then show ?case using same_step [OF agree_self [OF ArrayTy.prems]] same_array by blast
next
  case (OpaqueTy s)
  have "DFSTypeTree DL c cb (OpaqueTy s) l p m = DFSTypeTree DL c cb' (OpaqueTy s) l p m" for DL c l p m
    by (cases "findLayout c (OpaqueTy s) m") simp_all
  then have "DFSTypeTree DL c cb (OpaqueTy s) = DFSTypeTree DL c cb' (OpaqueTy s)" for DL c by blast
  then show ?case using same_step [OF agree_self [OF OpaqueTy.prems]] by blast
qed (rule same_step, erule agree_self, simp)+

lemma agree_layout:
  assumes "agree cb cb' T"
  shows "getLayoutForType DL c cb T m = getLayoutForType DL c cb' T m"
proof -
  have "DFSTypeTree DL c cb T = DFSTypeTree DL c cb' T"
  proof (cases T)
    case (StructTy s ts)
    then show ?thesis using same_struct agree_same_part agree_parts(1) assms by metis
  next
    case (ArrayTy n E)
    then show ?thesis using same_array agree_same_part agree_parts(2) assms by metis
  next
    case (OpaqueTy s)
    have "DFSTypeTree DL c cb (OpaqueTy s) l p m = DFSTypeTree DL c cb' (OpaqueTy s) l p m" for l p m
      by (cases "findLayout c (OpaqueTy s) m") simp_all
    then show ?thesis using OpaqueTy by blast
  qed (auto simp: fun_eq_iff)
  then show ?thesis by (simp add: getLayoutForType_def)
qed

section \<open>The state of the allocator\<close>

text \<open>The special types of a layout: none for uncollapsed ones and in the plain model.\<close>

definition envSp :: "mem_env \<Rightarrow> bool \<Rightarrow> ll_type \<Rightarrow> bool" where
  "envSp E c T \<longleftrightarrow> envKind E = CPPKind \<and> c \<and> isSpecial E T = Inr True"

definition alloc_ok :: "mem_env \<Rightarrow> alloc_state \<Rightarrow> bool" where
  "alloc_ok E = (\<lambda>(mem, g, p). graph_wf (g, p) \<and> mem_ok (envDL E) (envSp E) mem \<and>
     map objNode (fsObjs mem) = map Some (objVec g) \<and> mgr_ok (envDL E) (envSp E) (layoutManager mem))"

text \<open>Blocks stay as they are, and slots that are full stay full.\<close>

definition mem_extends :: "fs_mem \<Rightarrow> fs_mem \<Rightarrow> bool" where
  "mem_extends mem mem' \<longleftrightarrow> (\<exists>new. fsObjs mem' = fsObjs mem @ new) \<and> length (fsBlocks mem) \<le> length (fsBlocks mem') \<and>
     (\<forall>b < length (fsBlocks mem). blkKind (fsBlocks mem' ! b) = blkKind (fsBlocks mem ! b) \<and>
        (\<forall>n x. fieldObjs (fsBlocks mem ! b) ! n = Some x \<longrightarrow> fieldObjs (fsBlocks mem' ! b) ! n = Some x)) \<and>
     (\<forall>k b. memBlockMap mem k = Some b \<longrightarrow> memBlockMap mem' k = Some b)"

lemma mem_extends_refl: "mem_extends mem mem"
  by (simp add: mem_extends_def)

lemma mem_extends_trans:
  assumes "mem_extends a b" and "mem_extends b c"
  shows "mem_extends a c"
  using assms unfolding mem_extends_def by (auto intro: order_trans)

text \<open>
  What an allocation does: it adds objects to the graph and a block to the memory, which its value and context find
  unless it is anonymous, and gives the node of a new object of that block.
\<close>

definition newKey :: "ctx_ptr \<Rightarrow> llvm_value option \<Rightarrow> alloc_kind \<Rightarrow> fs_mem \<Rightarrow> ctx_ptr \<times> llvm_value \<Rightarrow> nat option" where
  "newKey c v T mem = (if T = AAnonymous then memBlockMap mem else (memBlockMap mem)((c, the v) \<mapsto> length (fsBlocks mem)))"

definition allocates :: "mem_env \<Rightarrow> ctx_ptr \<Rightarrow> llvm_value option \<Rightarrow> alloc_kind \<Rightarrow> alloc_state \<Rightarrow> nat \<Rightarrow> alloc_state \<Rightarrow> bool" where
  "allocates E c v T = (\<lambda>(mem, g, p) n (mem', g', p'). alloc_ok E (mem', g', p') \<and> mem_extends mem mem' \<and>
     memBlockMap mem' = newKey c v T mem \<and>
     length (fsBlocks mem') = Suc (length (fsBlocks mem)) \<and>
     (\<exists>ops. onlyObjects (getNodeNum g) ops \<and> cgRun ops (g, p) = Inr (g', p')) \<and>
     (\<exists>obj. length (objVec g) \<le> obj \<and> obj < length (objVec g') \<and> objVec g' ! obj = n \<and>
        objBlock (fsObjs mem' ! obj) = Some (length (fsBlocks mem))))"

section \<open>A new block\<close>

lemma mem_ok_append:
  assumes ok: "mem_ok DL sp mem" and objs: "fsObjs mem' = fsObjs mem @ new" and blks: "fsBlocks mem' = fsBlocks mem @ [B]"
    and own: "\<forall>x \<in> set new. objBlock x = Some (length (fsBlocks mem))"
    and B: "block_ok DL sp (fsObjs mem @ new) (length (fsBlocks mem)) B"
  shows "mem_ok DL sp mem'"
  unfolding mem_ok_def objs blks
proof (intro conjI allI impI)
  show "block_ok DL sp (fsObjs mem @ new) b ((fsBlocks mem @ [B]) ! b)" if "b < length (fsBlocks mem @ [B])" for b
  proof (cases "b = length (fsBlocks mem)")
    case True
    then show ?thesis using B by simp
  next
    case False
    then have "b < length (fsBlocks mem)" using that by simp
    then show ?thesis using block_ok_more [OF mem_okD(1) [OF ok]] by (simp add: nth_append)
  qed
  show "\<exists>b < length (fsBlocks mem @ [B]). objBlock ((fsObjs mem @ new) ! obj) = Some b" if "obj < length (fsObjs mem @ new)" for obj
  proof (cases "obj < length (fsObjs mem)")
    case True
    then show ?thesis using mem_okD(2) [OF ok True] by (auto simp: nth_append intro: less_SucI)
  next
    case False
    then have "(fsObjs mem @ new) ! obj \<in> set new" using that by (simp add: nth_append)
    then show ?thesis using own by auto
  qed
qed

lemma single_block_ok:
  assumes "kind = FIBlock \<or> kind = ScalarBlock" and "obj < length objs" and "objBlock (objs ! obj) = Some b"
  shows "block_ok DL sp objs b (newBlock kind c v T [Some obj])"
  using assms by (auto simp: block_ok_def newBlock_def)

lemma empty_block_ok:
  assumes "aggLayout DL sp L"
  shows "block_ok DL sp objs b (newBlock (Aggregate L) c v T (replicate (max 1 (getNumIndexableElem L)) None))"
proof (rule block_okI [OF _ assms])
  fix p S
  assume p: "0 \<le> placeNumber L p"
    and some: "fieldType (newBlock (Aggregate L) c v T (replicate (max 1 (getNumIndexableElem L)) None)) ! nat (placeNumber L p) = Some S"
  from assms obtain TT where TT: "aggType DL sp TT" "L = layoutOf DL (sp True) True TT" by (auto simp: aggLayout_def)
  have "slotOf L p = Some (nat (placeNumber L p))" using slotOf_iff [OF TT] placeNumber_pos [OF TT(1), of p] p TT(2) by simp
  then have "nat (placeNumber L p) < max 1 (getNumIndexableElem L)" using slotOf_less [OF assms] by blast
  then show "typeOfPlace DL L p = Some S" using some by (simp add: newBlock_def)
qed (simp_all add: newBlock_def)

text \<open>No block has the key yet.\<close>

definition fresh_key :: "fs_mem \<Rightarrow> ctx_ptr \<Rightarrow> llvm_value option \<Rightarrow> alloc_kind \<Rightarrow> bool" where
  "fresh_key mem c v T \<longleftrightarrow> T = AAnonymous \<or> (\<exists>x. v = Some x \<and> memBlockMap mem (c, x) = None)"

lemma allocMemBlock_ok:
  assumes "fresh_key mem c v T"
  shows "\<exists>mem'. allocMemBlock (newBlock kind c v T objs) mem = Inr (length (fsBlocks mem), mem') \<and>
    fsObjs mem' = fsObjs mem \<and> fsBlocks mem' = fsBlocks mem @ [newBlock kind c v T objs] \<and> layoutManager mem' = layoutManager mem \<and>
    memBlockMap mem' = newKey c v T mem"
  using assms by (auto simp: allocMemBlock_def newBlock_def fresh_key_def newKey_def Let_def)

lemma newKey_keeps: "fresh_key mem c v T \<Longrightarrow> memBlockMap mem k = Some b \<Longrightarrow> newKey c v T mem k = Some b"
  by (auto simp: fresh_key_def newKey_def)

lemma newKey_frame:
  "newKey c v T (mem\<lparr> fsObjs := objs \<rparr>) = newKey c v T mem" "newKey c v T (mem\<lparr> layoutManager := m \<rparr>) = newKey c v T mem"
  by (simp_all add: newKey_def)

lemma cgRun_wf: "cgRun ops s = Inr s' \<Longrightarrow> graph_wf s \<Longrightarrow> graph_wf s'"
proof (induction ops arbitrary: s)
  case (Cons op ops)
  from Cons.prems(1) obtain t where t: "opAllowed op s" "cgStep op s = Inr t" "cgRun ops t = Inr s'" by auto
  then have "graph_wf t" using cgStep_ok [OF Cons.prems(2) t(1)] by auto
  then show ?case using Cons.IH [OF t(3)] by blast
qed simp

lemma cgRun_append: "cgRun ops s = Inr t \<Longrightarrow> cgRun ops' t = Inr u \<Longrightarrow> cgRun (ops @ ops') s = Inr u"
proof (induction ops arbitrary: s)
  case (Cons op ops)
  from Cons.prems(1) obtain s1 where "opAllowed op s" "cgStep op s = Inr s1" "cgRun ops s1 = Inr t" by auto
  then show ?case using Cons.IH [OF _ Cons.prems(2)] by simp
qed simp

text \<open>The last step: the new object gets its node.\<close>

lemma finish_object:
  assumes ok: "alloc_ok E (mem, g, p)" and mem1: "mem_ok (envDL E) (envSp E) mem1" "fsObjs mem1 = fsObjs mem @ [x]" "objNode x = None"
    and x: "objBlock x = Some (length (fsBlocks mem))" and ext: "mem_extends mem mem1"
    and len: "length (fsBlocks mem1) = Suc (length (fsBlocks mem))"
    and mgr: "mgr_ok (envDL E) (envSp E) (layoutManager mem1)" and map: "memBlockMap mem1 = newKey c v T mem"
  shows "\<exists>n s'. createNode (length (fsObjs mem)) mem1 (g, p) = Inr (n, s') \<and> allocates E c v T (mem, g, p) n s'"
proof -
  from ok have wf: "graph_wf (g, p)" and nodes: "map objNode (fsObjs mem) = map Some (objVec g)" by (simp_all add: alloc_ok_def)
  have l: "length (fsObjs mem) = length (objVec g)" using nodes map_eq_imp_length_eq by blast
  from createNode_ok [OF wf mem1(2,3) l] obtain ops g' p' where c:
    "createNode (length (fsObjs mem)) mem1 (g, p) =
       Inr (getNodeNum g, mem1\<lparr> fsObjs := fsObjs mem @ [x\<lparr> objNode := Some (getNodeNum g) \<rparr>] \<rparr>, g', p')"
    "onlyObjects (getNodeNum g) ops" "cgRun ops (g, p) = Inr (g', p')" "objVec g' = objVec g @ [getNodeNum g]" by blast
  let ?mem = "mem1\<lparr> fsObjs := fsObjs mem @ [x\<lparr> objNode := Some (getNodeNum g) \<rparr>] \<rparr>"
  have wf': "graph_wf (g', p')" using cgRun_wf [OF c(3) wf] .
  have "mem_ok (envDL E) (envSp E) ?mem" using node_ok(1) [OF mem1(1,2)] .
  moreover have "map objNode (fsObjs ?mem) = map Some (objVec g')" using nodes c(4) by simp
  ultimately have "alloc_ok E (?mem, g', p')" using wf' mgr by (simp add: alloc_ok_def)
  moreover have "mem_extends mem ?mem" using ext by (simp add: mem_extends_def)
  moreover have "objVec g' ! length (objVec g) = getNodeNum g" "length (objVec g) < length (objVec g')" using c(4) by simp_all
  moreover have "objBlock (fsObjs ?mem ! length (objVec g)) = Some (length (fsBlocks mem))" using x l by (simp add: nth_append)
  moreover have "memBlockMap ?mem = newKey c v T mem" using map by simp
  ultimately show ?thesis using c(1-3) len unfolding allocates_def by fastforce
qed

lemma single_object_ok:
  assumes ok: "alloc_ok E (mem, g, p)" and key: "fresh_key mem c v T"
  shows "\<exists>n s'. allocFIObject c v T (mem, g, p) = Inr (n, s') \<and> allocates E c v T (mem, g, p) n s'"
    and "\<exists>n s'. allocScalarObject c v T (mem, g, p) = Inr (n, s') \<and> allocates E c v T (mem, g, p) n s'"
proof -
  from ok have mem: "mem_ok (envDL E) (envSp E) mem" "mgr_ok (envDL E) (envSp E) (layoutManager mem)" by (simp_all add: alloc_ok_def)
  let ?b = "length (fsBlocks mem)" and ?o = "length (fsObjs mem)"
  let ?x = "newObj (Some ?b) 0 NormalObj True"
  let ?mem = "mem\<lparr> fsObjs := fsObjs mem @ [?x] \<rparr>"
  have step: "\<exists>mem1. allocMemBlock (newBlock kind c v T [Some ?o]) ?mem = Inr (?b, mem1) \<and>
      getObjectAt ?b 0 mem1 = (Some ?o, mem1) \<and> (\<exists>n s'. createNode ?o mem1 (g, p) = Inr (n, s') \<and> allocates E c v T (mem, g, p) n s')"
    if kind: "kind = FIBlock \<or> kind = ScalarBlock" for kind
  proof -
    from key have "fresh_key ?mem c v T" by (simp add: fresh_key_def)
    from allocMemBlock_ok [OF this, of kind "[Some ?o]"] obtain mem1 where
      m1: "allocMemBlock (newBlock kind c v T [Some ?o]) ?mem = Inr (?b, mem1)" "fsObjs mem1 = fsObjs mem @ [?x]"
        "fsBlocks mem1 = fsBlocks mem @ [newBlock kind c v T [Some ?o]]" "layoutManager mem1 = layoutManager mem"
        "memBlockMap mem1 = newKey c v T mem" by (auto simp: newKey_frame)
    have "block_ok (envDL E) (envSp E) (fsObjs mem @ [?x]) ?b (newBlock kind c v T [Some ?o])"
      by (rule single_block_ok [OF kind]) (simp_all add: newObj_def)
    then have ok1: "mem_ok (envDL E) (envSp E) mem1"
      by (intro mem_ok_append [OF mem(1) m1(2,3)]) (simp_all add: newObj_def)
    have "mem_extends mem mem1" using m1 newKey_keeps [OF key] by (simp add: mem_extends_def nth_append)
    then have "\<exists>n s'. createNode ?o mem1 (g, p) = Inr (n, s') \<and> allocates E c v T (mem, g, p) n s'"
      using m1(3-5) mem(2) by (intro finish_object [OF ok ok1 m1(2)]) (simp_all add: newObj_def)
    moreover have "getObjectAt ?b 0 mem1 = (Some ?o, mem1)"
      using kind m1(3) by (auto simp: getObjectAt_def blockObjectAt_def newBlock_def)
    ultimately show ?thesis using m1(1) by blast
  qed
  show "\<exists>n s'. allocFIObject c v T (mem, g, p) = Inr (n, s') \<and> allocates E c v T (mem, g, p) n s'"
    using step [of FIBlock] by (auto simp: allocFIObject_def allocFIBlock_def addObject_def nodeAtStart_def Let_def)
  show "\<exists>n s'. allocScalarObject c v T (mem, g, p) = Inr (n, s') \<and> allocates E c v T (mem, g, p) n s'"
    using step [of ScalarBlock] by (auto simp: allocScalarObject_def allocScalarBlock_def addObject_def nodeAtStart_def Let_def)
qed


section \<open>Aggregates\<close>

lemma makeField_frame:
  "layoutManager (snd (makeField b n off imm mem)) = layoutManager mem"
  "memBlockMap (snd (makeField b n off imm mem)) = memBlockMap mem"
  by (simp_all add: makeField_def addObject_def updBlock_def Let_def)

text \<open>A block of a layout, its object at the start, and the node of that.\<close>

lemma aggregate_object_ok:
  assumes ok: "alloc_ok E (mem, g, p)" and key: "fresh_key mem c v T" and agg: "aggLayout (envDL E) (envSp E) L"
    and mgr: "mgr_ok (envDL E) (envSp E) m"
  shows "\<exists>mem2 mem3 n s'. allocAggregateBlock c v T L (mem\<lparr> layoutManager := m \<rparr>) = Inr (length (fsBlocks mem), mem2) \<and>
    getObjectAt (length (fsBlocks mem)) 0 mem2 = (Some (length (fsObjs mem)), mem3) \<and>
    objNode (fsObjs mem3 ! length (fsObjs mem)) = None \<and>
    createNode (length (fsObjs mem)) mem3 (g, p) = Inr (n, s') \<and> allocates E c v T (mem, g, p) n s'"
proof -
  let ?b = "length (fsBlocks mem)" and ?slots = "replicate (max 1 (getNumIndexableElem L)) None"
  let ?B = "newBlock (Aggregate L) c v T ?slots"
  from ok have mem: "mem_ok (envDL E) (envSp E) mem" by (simp add: alloc_ok_def)
  from key have "fresh_key (mem\<lparr> layoutManager := m \<rparr>) c v T" by (simp add: fresh_key_def)
  from allocMemBlock_ok [OF this, of "Aggregate L" ?slots] obtain mem2 where
    m2: "allocAggregateBlock c v T L (mem\<lparr> layoutManager := m \<rparr>) = Inr (?b, mem2)" "fsObjs mem2 = fsObjs mem @ []"
      "fsBlocks mem2 = fsBlocks mem @ [?B]" "layoutManager mem2 = m" "memBlockMap mem2 = newKey c v T mem"
    by (auto simp: allocAggregateBlock_def newKey_frame)
  have "block_ok (envDL E) (envSp E) (fsObjs mem @ []) ?b ?B" using empty_block_ok [OF agg] .
  then have ok2: "mem_ok (envDL E) (envSp E) mem2" by (intro mem_ok_append [OF mem m2(2,3)]) simp_all
  have b2: "?b < length (fsBlocks mem2)" "blkKind (fsBlocks mem2 ! ?b) = Aggregate L" "fieldObjs (fsBlocks mem2 ! ?b) = ?slots"
    using m2(3) by (simp_all add: newBlock_def)
  have slot: "0 < length (fieldObjs (fsBlocks mem2 ! ?b))" "fieldObjs (fsBlocks mem2 ! ?b) ! 0 = None" using b2(3) by simp_all
  have zero: "slotOf L 0 = Some 0" by (simp add: slotOf_def)
  from makeField_ok [OF ok2 b2(1,2) slot zero, of False] obtain mem3 where
    m3: "makeField ?b 0 0 False mem2 = (length (fsObjs mem), mem3)" "mem_ok (envDL E) (envSp E) mem3" "mem_grows mem2 mem3"
      "fsObjs mem3 = fsObjs mem @ [newObj (Some ?b) 0 NormalObj True\<lparr> objImmutable := False \<rparr>]" using m2(2) by auto
  have frame: "layoutManager mem3 = m" "memBlockMap mem3 = memBlockMap mem2"
    using makeField_frame [of ?b 0 0 False mem2] m3(1) m2(4) by simp_all
  have "getObjectAt ?b 0 mem2 = (Some (length (fsObjs mem)), mem3)"
    using b2(2) slot(2) m3(1) by (simp add: getObjectAt_def blockObjectAt_def indexMemoryBlock_def)
  moreover have "objNode (fsObjs mem3 ! length (fsObjs mem)) = None" using m3(4) by (simp add: newObj_def)
  moreover have "mem_extends mem mem3"
    using m2(2,3,5) m3(3,4) frame(2) newKey_keeps [OF key] by (auto simp: mem_extends_def mem_grows_def nth_append)
  then have "\<exists>n s'. createNode (length (fsObjs mem)) mem3 (g, p) = Inr (n, s') \<and> allocates E c v T (mem, g, p) n s'"
    using m2(3,5) m3(3) mgr frame by (intro finish_object [OF ok m3(2,4)]) (simp_all add: newObj_def mem_grows_def)
  ultimately show ?thesis using m2(1) by blast
qed

text \<open>
  The types whose layout the allocation gets: without empty parts, and no question about special
  types fails. In a plain one nothing inside is special.
\<close>

definition layout_type :: "mem_env \<Rightarrow> ll_type \<Rightarrow> bool" where
  "layout_type E T \<longleftrightarrow> aggType (envDL E) (envSp E) T \<and>
     (envKind E = CPPKind \<longrightarrow> (\<forall>U \<in> set (typesIn T). \<exists>x. isSpecial E U = Inr x))"

definition plain_type :: "mem_env \<Rightarrow> ll_type \<Rightarrow> bool" where
  "plain_type E T \<longleftrightarrow> layout_type E T \<and> specials (envDL E) (envSp E True) True T = {}"

lemma typesIn_self: "T \<in> set (typesIn T)"
  by (cases T) simp_all

lemma type_layout:
  assumes "layout_type E T" and "mgr_ok (envDL E) (envSp E) (layoutManager mem)"
  shows "\<exists>m. requestLayout E True (if envKind E = CPPKind then specialCallback E else None) T mem =
      Inr (layoutOf (envDL E) (envSp E True) True T, mem\<lparr> layoutManager := m \<rparr>) \<and> mgr_ok (envDL E) (envSp E) m"
proof -
  let ?sp = "envSp E True" and ?cb = "if envKind E = CPPKind then specialCallback E else None"
  let ?cb' = "if envKind E = CPPKind then Some (collectSpecialObj (envDL E) ?sp) else None"
  have rq: "request_ok (envDL E) (envSp E) True T" using assms(1) by (simp add: layout_type_def aggType_def)
  have "cb_ok (envDL E) ?sp ?cb'" by (auto simp: cb_ok_def envSp_def)
  from request_layout [OF assms(2) rq this] obtain m where
    m: "getLayoutForType (envDL E) True ?cb' T (layoutManager mem) = Inr (layoutOf (envDL E) ?sp True T, m)"
      "mgr_ok (envDL E) (envSp E) m" by blast
  have "callbackAt ?cb U = callbackAt ?cb' U" if "U \<in> set (typesIn T)" for U
  proof (cases "envKind E = CPPKind")
    case True
    with that assms(1) obtain x where x: "isSpecial E U = Inr x" by (auto simp: layout_type_def)
    then have "?sp U = x" using True by (cases x) (simp_all add: envSp_def)
    then show ?thesis using True x by (simp add: fun_eq_iff callbackAt_def specialCallback_def collectSpecialObj_def)
  qed simp
  then have "agree ?cb ?cb' T" by (simp add: agree_def)
  then have "requestLayout E True ?cb T mem = Inr (layoutOf (envDL E) ?sp True T, mem\<lparr> layoutManager := m \<rparr>)"
    unfolding requestLayout_def agree_layout [OF \<open>agree ?cb ?cb' T\<close>] m(1) by simp
  then show ?thesis using m(2) by blast
qed

text \<open>The variables whose block is not collapsed.\<close>

definition keepsArrays :: "mem_env \<Rightarrow> llvm_value option \<Rightarrow> alloc_kind \<Rightarrow> bool" where
  "keepsArrays E v T \<longleftrightarrow> envKind E = CPPKind \<and> T \<noteq> AAnonymous \<and>
     (case v of Some g \<Rightarrow> isGlobalVar E g \<and> isVTableVariable E g \<and> \<not> isDeclaration (envModule E) g | None \<Rightarrow> False)"

lemma cpp_collapsed:
  assumes "\<not> keepsArrays E v T" and "envKind E = CPPKind"
  shows "allocStructArrayObj E c v T type (mem, s) = rbind (resolveVecElemType (envDL E) type) (\<lambda>vectorElemT.
     case vectorElemT of
       Some V \<Rightarrow>
         if isSupportedElementType V then
           rbind (newVector None 0 V (mem, s)) (\<lambda>(vec, mem, s).
           rbind (allocMemBlock (newBlock ScalarBlock c v T [Some vec]) mem) (\<lambda>(b, mem).
           rbind (setMemBlock vec b mem) (\<lambda>mem.
           rbind (setMemBlock (vec + 1) b mem) (\<lambda>mem.
           rbind (getObjNode mem vec) (\<lambda>n. Inr (n, mem, s))))))
         else allocWithSpecials E c v T type vectorElemT (mem, s)
     | None \<Rightarrow> allocWithSpecials E c v T type vectorElemT (mem, s))"
  unfolding allocStructArrayObj_def assms(2) mem_model_kind.case allocStructArrayCpp_def prod.case
  by (rule if_not_P) (use assms in \<open>simp add: keepsArrays_def\<close>)

lemma struct_object_ok:
  assumes ok: "alloc_ok E (mem, g, p)" and key: "fresh_key mem c v T" and plain: "plain_type E type" and "\<not> keepsArrays E v T"
  shows "\<exists>n s'. allocStructArrayObj E c v T type (mem, g, p) = Inr (n, s') \<and> allocates E c v T (mem, g, p) n s'"
proof -
  let ?L = "layoutOf (envDL E) (envSp E True) True type" and ?b = "length (fsBlocks mem)"
  from ok have mgr: "mgr_ok (envDL E) (envSp E) (layoutManager mem)" by (simp add: alloc_ok_def)
  from plain have layout: "layout_type E type" by (simp add: plain_type_def)
  from type_layout [OF layout mgr] obtain m where
    m: "requestLayout E True (if envKind E = CPPKind then specialCallback E else None) type mem = Inr (?L, mem\<lparr> layoutManager := m \<rparr>)"
      "mgr_ok (envDL E) (envSp E) m" by blast
  have "aggLayout (envDL E) (envSp E) ?L" using layout by (auto simp: layout_type_def aggLayout_def)
  from aggregate_object_ok [OF ok key this m(2)] obtain mem2 mem3 n s' where
    a: "allocAggregateBlock c v T ?L (mem\<lparr> layoutManager := m \<rparr>) = Inr (?b, mem2)"
      "getObjectAt ?b 0 mem2 = (Some (length (fsObjs mem)), mem3)" "objNode (fsObjs mem3 ! length (fsObjs mem)) = None"
      "createNode (length (fsObjs mem)) mem3 (g, p) = Inr (n, s')" "allocates E c v T (mem, g, p) n s'" by blast
  show ?thesis
  proof (cases "envKind E")
    case FSKind
    then show ?thesis using m(1) a by (simp add: allocStructArrayObj_def allocStructArrayFS_def nodeAtStart_def)
  next
    case CPPKind
    from layout CPPKind typesIn_self [of type] obtain x where x: "isSpecial E type = Inr x" unfolding layout_type_def by blast
    have "\<not> envSp E True type" using layout by (simp add: layout_type_def aggType_def request_ok_def)
    then have "\<not> x" using x CPPKind by (cases x) (simp_all add: envSp_def)
    with x obtain V where V: "resolveVecElemType (envDL E) type = Inr V" "\<forall>U. V = Some U \<longrightarrow> \<not> isSupportedElementType U"
      by (cases "resolveVecElemType (envDL E) type") (auto simp: isSpecial_def isSpecialTypeImpl_def Let_def split: option.splits)
    have "sorted_list_of_set (specialLayout ?L) = []" using plain by (simp add: plain_type_def layoutOf_def)
    then have special: "allocWithSpecials E c v T type V (mem, g, p) = Inr (n, s')"
      using m(1) a CPPKind by (simp add: allocWithSpecials_def)
    have "allocStructArrayObj E c v T type (mem, g, p) = Inr (n, s')"
      unfolding cpp_collapsed [OF assms(4) CPPKind] using V special by (cases V) simp_all
    then show ?thesis using a(5) by blast
  qed
qed


section \<open>Vectors\<close>

lemma newVector_ok:
  assumes wf: "graph_wf (g, p)" and l: "length (fsObjs mem) = length (objVec g)"
  shows "\<exists>ops N g' p'. newVector b off V (mem, g, p) = Inr (length (fsObjs mem), mem\<lparr> fsObjs := fsObjs mem @
      [newObj b off (VectorObj V (length (fsObjs mem) + 1)) True\<lparr> objNode := Some (getNodeNum g) \<rparr>,
       newObj b 0 VectorElem False\<lparr> objNode := Some N \<rparr>] \<rparr>, g', p') \<and> onlyObjects (getNodeNum g) ops \<and>
    cgRun ops (g, p) = Inr (g', p') \<and> graph_wf (g', p') \<and> objVec g' = objVec g @ [getNodeNum g, N]"
proof -
  let ?o = "length (fsObjs mem)" and ?N = "getNodeNum g"
  let ?vec = "newObj b off (VectorObj V (?o + 1)) True" and ?elem = "newObj b 0 VectorElem False"
  let ?mem1 = "mem\<lparr> fsObjs := fsObjs mem @ [?vec, ?elem] \<rparr>"
  have "objNode (fsObjs ?mem1 ! ?o) = None" by (simp add: newObj_def)
  from createNode_at [OF wf l this] obtain ops1 g1 p1 where
    c1: "createNode ?o ?mem1 (g, p) =
        Inr (?N, ?mem1\<lparr> fsObjs := fsObjs mem @ [?vec\<lparr> objNode := Some ?N \<rparr>, ?elem] \<rparr>, g1, p1)"
      "onlyObjects ?N ops1" "cgRun ops1 (g, p) = Inr (g1, p1)" "getNodeNum g1 = ?N + 2" "objVec g1 = objVec g @ [?N]"
    by (auto simp: list_update_append)
  let ?mem2 = "?mem1\<lparr> fsObjs := fsObjs mem @ [?vec\<lparr> objNode := Some ?N \<rparr>, ?elem] \<rparr>"
  have wf1: "graph_wf (g1, p1)" using cgRun_wf [OF c1(3) wf] .
  have l1: "?o + 1 = length (objVec g1)" using l c1(5) by simp
  have "objNode (fsObjs ?mem2 ! (?o + 1)) = None" by (simp add: nth_append newObj_def)
  from createNode_at [OF wf1 l1 this] obtain ops2 g2 p2 where
    c2: "createNode (?o + 1) ?mem2 (g1, p1) = Inr (getNodeNum g1, ?mem2\<lparr> fsObjs := fsObjs mem @
          [?vec\<lparr> objNode := Some ?N \<rparr>, ?elem\<lparr> objNode := Some (getNodeNum g1) \<rparr>] \<rparr>, g2, p2)"
      "onlyObjects (getNodeNum g1) ops2" "cgRun ops2 (g1, p1) = Inr (g2, p2)" "objVec g2 = objVec g1 @ [getNodeNum g1]"
    by (auto simp: list_update_append nth_append)
  have "newVector b off V (mem, g, p) = Inr (?o, ?mem2\<lparr> fsObjs := fsObjs mem @
      [?vec\<lparr> objNode := Some ?N \<rparr>, ?elem\<lparr> objNode := Some (getNodeNum g1) \<rparr>] \<rparr>, g2, p2)"
    using c1(1) c2(1) by (simp add: newVector_def addObject_def Let_def)
  moreover have "cgRun (ops1 @ ops2) (g, p) = Inr (g2, p2)" using c1(3) c2(3) by (rule cgRun_append)
  moreover have "onlyObjects ?N (ops1 @ ops2)" using c1(2,4) c2(2) by (auto simp: onlyObjects_def)
  moreover have "graph_wf (g2, p2)" using cgRun_wf [OF c2(3) wf1] .
  moreover have "objVec g2 = objVec g @ [?N, getNodeNum g1]" using c1(5) c2(4) by simp
  ultimately show ?thesis by auto
qed

text \<open>A vector and the object for its elements, in a block that cannot be indexed.\<close>

lemma vector_object_ok:
  assumes ok: "alloc_ok E (mem, g, p)" and key: "fresh_key mem c v T" and not: "\<not> keepsArrays E v T" and cpp: "envKind E = CPPKind"
    and V: "resolveVecElemType (envDL E) type = Inr (Some V)" "isSupportedElementType V"
  shows "\<exists>n s'. allocStructArrayObj E c v T type (mem, g, p) = Inr (n, s') \<and> allocates E c v T (mem, g, p) n s'"
proof -
  let ?b = "length (fsBlocks mem)" and ?o = "length (fsObjs mem)" and ?N = "getNodeNum g"
  from ok have wf: "graph_wf (g, p)" and nodes: "map objNode (fsObjs mem) = map Some (objVec g)"
    and mem: "mem_ok (envDL E) (envSp E) mem" "mgr_ok (envDL E) (envSp E) (layoutManager mem)" by (simp_all add: alloc_ok_def)
  have l: "?o = length (objVec g)" using nodes map_eq_imp_length_eq by blast
  let ?vec = "newObj None 0 (VectorObj V (?o + 1)) True" and ?elem = "newObj None 0 VectorElem False"
  from newVector_ok [OF wf l, of None 0 V] obtain ops N g2 p2 where
    new: "newVector None 0 V (mem, g, p) = Inr (?o, mem\<lparr> fsObjs := fsObjs mem @
        [?vec\<lparr> objNode := Some ?N \<rparr>, ?elem\<lparr> objNode := Some N \<rparr>] \<rparr>, g2, p2)"
      "onlyObjects ?N ops" "cgRun ops (g, p) = Inr (g2, p2)" "graph_wf (g2, p2)" "objVec g2 = objVec g @ [?N, N]" by blast
  let ?mem3 = "mem\<lparr> fsObjs := fsObjs mem @ [?vec\<lparr> objNode := Some ?N \<rparr>, ?elem\<lparr> objNode := Some N \<rparr>] \<rparr>"
  from key have "fresh_key ?mem3 c v T" by (simp add: fresh_key_def)
  let ?B = "newBlock ScalarBlock c v T [Some ?o]"
  from allocMemBlock_ok [OF \<open>fresh_key ?mem3 c v T\<close>, of ScalarBlock "[Some ?o]"] obtain mem4 where
    m4: "allocMemBlock ?B ?mem3 = Inr (?b, mem4)" "fsObjs mem4 = fsObjs ?mem3" "fsBlocks mem4 = fsBlocks mem @ [?B]"
      "layoutManager mem4 = layoutManager mem" "memBlockMap mem4 = newKey c v T mem" by (auto simp: newKey_frame)
  let ?vec' = "?vec\<lparr> objNode := Some ?N, objBlock := Some ?b \<rparr>" and ?elem' = "?elem\<lparr> objNode := Some N, objBlock := Some ?b \<rparr>"
  let ?mem5 = "mem4\<lparr> fsObjs := fsObjs mem @ [?vec', ?elem\<lparr> objNode := Some N \<rparr>] \<rparr>"
  let ?mem6 = "mem4\<lparr> fsObjs := fsObjs mem @ [?vec', ?elem'] \<rparr>"
  have s1: "setMemBlock ?o ?b mem4 = Inr ?mem5"
    by (simp add: setMemBlock_def updObj_def m4(2) newObj_def list_update_append)
  have s2: "setMemBlock (?o + 1) ?b ?mem5 = Inr ?mem6"
    by (simp add: setMemBlock_def updObj_def newObj_def list_update_append nth_append)
  have n: "getObjNode ?mem6 ?o = Inr ?N" by (simp add: getObjNode_def newObj_def)
  have result: "allocStructArrayObj E c v T type (mem, g, p) = Inr (?N, ?mem6, g2, p2)"
    unfolding cpp_collapsed [OF not cpp] using V new(1) m4(1) s1 s2 n by simp
  have "block_ok (envDL E) (envSp E) (fsObjs mem @ [?vec', ?elem']) ?b ?B"
    by (rule single_block_ok) simp_all
  then have "mem_ok (envDL E) (envSp E) ?mem6"
    using m4(3) by (intro mem_ok_append [OF mem(1), where new = "[?vec', ?elem']"]) simp_all
  moreover have "map objNode (fsObjs ?mem6) = map Some (objVec g2)" using nodes new(5) by simp
  ultimately have "alloc_ok E (?mem6, g2, p2)" using mem(2) m4(4) new(4) by (simp add: alloc_ok_def)
  moreover have "mem_extends mem ?mem6" using m4(3,5) newKey_keeps [OF key] by (simp add: mem_extends_def nth_append)
  moreover have "objVec g2 ! length (objVec g) = ?N" "length (objVec g) < length (objVec g2)" using new(5) by simp_all
  moreover have "objBlock (fsObjs ?mem6 ! length (objVec g)) = Some ?b" using l by (simp add: nth_append)
  ultimately have "allocates E c v T (mem, g, p) ?N (?mem6, g2, p2)"
    unfolding allocates_def using m4(3,5) new(2,3) by (auto intro!: exI [of _ "length (objVec g)"] exI [of _ ops])
  then show ?thesis using result by blast
qed

section \<open>Allocation by type\<close>

definition alloc_type_ok :: "mem_env \<Rightarrow> ll_type \<Rightarrow> bool" where
  "alloc_type_ok E T \<longleftrightarrow> useFIMode (envOpts E) \<or> \<not> isAggregateType T \<or> (\<exists>s. T = OpaqueTy s) \<or> plain_type E T \<or>
     envKind E = CPPKind \<and> (\<exists>V. resolveVecElemType (envDL E) T = Inr (Some V) \<and> isSupportedElementType V)"

lemma value_object_ok:
  assumes "alloc_ok E (mem, g, p)" and "fresh_key mem c v T" and "alloc_type_ok E type" and "\<not> keepsArrays E v T"
  shows "\<exists>n s'. allocValueWithType E c v T type (mem, g, p) = Inr (n, s') \<and> allocates E c v T (mem, g, p) n s'"
proof (cases "useFIMode (envOpts E)")
  case True
  then show ?thesis using single_object_ok(1) [OF assms(1,2)] by (simp add: allocValueWithType_def)
next
  case False
  note single = single_object_ok [OF assms(1,2)]
  have agg: "\<exists>n s'. allocStructArrayObj E c v T type (mem, g, p) = Inr (n, s') \<and> allocates E c v T (mem, g, p) n s'"
    if "isAggregateType type" "\<nexists>s. type = OpaqueTy s"
    using that False assms(3) struct_object_ok [OF assms(1,2) _ assms(4)] vector_object_ok [OF assms(1,2,4)]
    unfolding alloc_type_ok_def by blast
  show ?thesis using False single agg by (cases type) (simp_all add: allocValueWithType_def)
qed

end
