(* ===== verification/MemProps.thy ===== *)
theory MemProps
  imports MemIndex
begin

text \<open>
  What the field-sensitive memory model promises the analyses: layouts never fail and do not depend on what was
  asked before, offsets and elements of a layout are those of the type, an object of a block is
  its place up to array indices, and the solver on this memory model ends with the points-to sets
  closed. The data layout of the examples aligns like x86-64.
\<close>

section \<open>An example data layout\<close>

definition roundUp :: "nat \<Rightarrow> nat \<Rightarrow> nat" where
  "roundUp n a = (n + a - 1) div a * a"

fun demoAlign :: "ll_type \<Rightarrow> nat" where
  "demoAlign (StructTy s ts) = foldr (\<lambda>t. max (demoAlign t)) ts 1"
| "demoAlign (ArrayTy n E) = demoAlign E"
| "demoAlign (PointerTy s) = 8"
| "demoAlign (VectorTy k) = 16"
| "demoAlign (IntTy w) = (if w \<le> 8 then 1 else if w \<le> 16 then 2 else if w \<le> 32 then 4 else 8)"
| "demoAlign (FloatTy w) = (if w \<le> 32 then 4 else 8)"
| "demoAlign (OpaqueTy s) = 1"

fun demoSize :: "ll_type \<Rightarrow> nat" where
  "demoSize (StructTy s ts) =
     roundUp (foldl (\<lambda>n t. roundUp n (demoAlign t) + demoSize t) 0 ts) (demoAlign (StructTy s ts))"
| "demoSize (ArrayTy n E) = size_t (n * demoSize E)"
| "demoSize T = demoAlign T"

fun demoOffset :: "ll_type \<Rightarrow> nat \<Rightarrow> nat" where
  "demoOffset (StructTy s ts) i =
     roundUp (foldl (\<lambda>n t. roundUp n (demoAlign t) + demoSize t) 0 (take i ts)) (demoAlign (ts ! i))"
| "demoOffset T i = 0"

definition demoDL :: data_layout where
  "demoDL = \<lparr> getTypeAllocSize = demoSize, getElementOffset = demoOffset, getPointerElementType = (\<lambda>s. None) \<rparr>"

text \<open>A counter, three pairs of a number and a pointer, and ten numbers.\<close>

definition demoPair :: ll_type where
  "demoPair = StructTy ''pair'' [IntTy 64, PointerTy ''i8'']"

definition demoStruct :: ll_type where
  "demoStruct = StructTy ''s'' [IntTy 32, ArrayTy 3 demoPair, ArrayTy 10 (IntTy 32)]"

definition demoSp :: "bool \<Rightarrow> ll_type \<Rightarrow> bool" where
  "demoSp c T \<longleftrightarrow> False"

lemma demo_sizes [simp]:
  "demoSize demoPair = 16" "demoAlign demoPair = 8" "demoSize demoStruct = 96"
  "demoOffset demoStruct 0 = 0" "demoOffset demoStruct 1 = 8" "demoOffset demoStruct 2 = 56"
  "demoOffset demoPair 0 = 0" "demoOffset demoPair 1 = 8"
  by (simp_all add: demoPair_def demoStruct_def roundUp_def size_t_def)

lemma demo_type:
  "request_ok demoDL demoSp True demoStruct" "no_empty demoDL (demoSp True) demoStruct" "aggType demoDL demoSp demoStruct"
  "cb_ok demoDL (demoSp True) None"
proof -
  have f: "demoSp c = (\<lambda>_. False)" for c by (simp add: demoSp_def fun_eq_iff)
  have wf: "wf_type demoDL (demoSp True) demoStruct" and ne: "no_empty demoDL (demoSp True) demoStruct"
    and sc: "scalarAt demoDL (demoSp True) demoStruct 0 \<noteq> None"
    by (simp_all add: f demoDL_def demoStruct_def demoPair_def roundUp_def size_t_def SIZE_MAX_def)
  have "isAggregateType demoStruct" by (simp add: demoStruct_def)
  then show "request_ok demoDL demoSp True demoStruct" using wf by (simp add: request_ok_def f)
  then show "no_empty demoDL (demoSp True) demoStruct" "aggType demoDL demoSp demoStruct" using ne sc by (simp_all add: aggType_def)
  show "cb_ok demoDL (demoSp True) None" by (simp add: cb_ok_def f)
qed

lemma demo_root: "rootSize demoDL demoStruct = 96"
  by (simp add: rootSize_def demoStruct_def demoDL_def demoPair_def roundUp_def size_t_def)

section \<open>Layouts\<close>

text \<open>
  C18. A request for the layout of an aggregate succeeds whatever was asked before, in any mix of
  collapsed and uncollapsed layouts, with and without special types: no assertion of the builders fails,
  and the caches never change an answer.
\<close>

theorem layout_requests_safe:
  assumes "mgr_reach DL sp m" and "request_ok DL sp c T" and "cb_ok DL (sp c) callback"
  shows "\<exists>L m1 m0. getLayoutForType DL c callback T m = Inr (L, m1) \<and> mgr_reach DL sp m1 \<and>
    getLayoutForType DL c callback T emptyManager = Inr (L, m0)"
proof -
  from request_layout [OF mgr_reach_ok [OF assms(1)] assms(2,3)] obtain m1 where
    m1: "getLayoutForType DL c callback T m = Inr (layoutOf DL (sp c) c T, m1)" by blast
  from request_layout [OF mgr_reach_ok [OF mgr_reach.start] assms(2,3)] obtain m0 where
    "getLayoutForType DL c callback T emptyManager = Inr (layoutOf DL (sp c) c T, m0)" by blast
  then show ?thesis using m1 mgr_reach.request [OF assms m1] by blast
qed

text \<open>
  C16. In a collapsed layout a physical offset inside the type gets the logical offset that the reference function
  defines by recursion on the type, and becomes its place with every array index zero; two offsets
  get the same logical offset exactly if they are the same place up to array indices.
\<close>

theorem layout_offsets_exact:
  assumes "mgr_reach DL sp m" and "request_ok DL sp True T" and "cb_ok DL (sp True) callback"
    and "getLayoutForType DL True callback T m = Inr (L, m')" and "p < rootSize DL T" and "q < rootSize DL T"
  shows "indexPhysicalOffset L p = (logOffset DL (sp True) T p, canon DL (sp True) T p) \<and>
    (fst (indexPhysicalOffset L p) = fst (indexPhysicalOffset L q) \<longleftrightarrow> snd (indexPhysicalOffset L p) = snd (indexPhysicalOffset L q))"
proof -
  have L: "L = layoutOf DL (sp True) True T" using request_layout [OF mgr_reach_ok [OF assms(1)] assms(2,3)] assms(4) by auto
  note I = index_request [OF assms(2,5)] index_request [OF assms(2,6)]
  show ?thesis unfolding L I fst_conv snd_conv using logOffset_request_eq [OF assms(2,5,6)] by blast
qed

text \<open>
  C17. The layout of a type without empty parts types its offsets: an offset is indexable, and has a number, exactly if a scalar or
  special part of the type starts there; it is a pointer exactly if that part is a pointer that is
  not special; and numbers are in range and differ for different logical offsets. A part of size
  zero, an array of length zero say, is excluded (\<open>no_empty\<close>) because the code marks its offset as an element although
  no scalar starts there: \<open>empty_part_is_element\<close> below.
\<close>

theorem layout_types_offsets:
  assumes "mgr_reach DL sp m" and "request_ok DL sp True T" and "cb_ok DL (sp True) callback"
    and "getLayoutForType DL True callback T m = Inr (L, m')" and "no_empty DL (sp True) T"
    and "p < rootSize DL T" and "q < rootSize DL T"
  shows "let l = fst (indexPhysicalOffset L p); k = fst (indexPhysicalOffset L q) in
    (offsetIndexable L l \<longleftrightarrow> scalarAt DL (sp True) T p \<noteq> None) \<and> (0 \<le> getLogicalOffset L l \<longleftrightarrow> offsetIndexable L l) \<and>
    (offsetIsPtr L l \<longleftrightarrow> (\<exists>s. scalarAt DL (sp True) T p = Some (PointerTy s) \<and> \<not> sp True (PointerTy s))) \<and>
    (offsetIndexable L l \<longrightarrow> nat (getLogicalOffset L l) < getNumIndexableElem L \<and>
      (offsetIndexable L k \<longrightarrow> getLogicalOffset L l = getLogicalOffset L k \<longrightarrow> l = k))"
proof -
  have L: "L = layoutOf DL (sp True) True T" using request_layout [OF mgr_reach_ok [OF assms(1)] assms(2,3)] assms(4) by auto
  let ?l = "logOffset DL (sp True) T p" and ?k = "logOffset DL (sp True) T q"
  have i: "fst (indexPhysicalOffset L p) = ?l" "fst (indexPhysicalOffset L q) = ?k"
    by (simp_all add: L index_request [OF assms(2,6)] index_request [OF assms(2,7)])
  have fin: "finite (elementLayout L)" by (simp add: L)
  note num = logical_number [OF fin]
  have "offsetIndexable L ?l \<longleftrightarrow> scalarAt DL (sp True) T p \<noteq> None"
    using element_request [OF assms(2,6,5)] num(2) L by blast
  moreover have "0 \<le> getLogicalOffset L ?l \<longleftrightarrow> offsetIndexable L ?l" by (simp add: num)
  moreover have "offsetIsPtr L ?l \<longleftrightarrow> (\<exists>s. scalarAt DL (sp True) T p = Some (PointerTy s) \<and> \<not> sp True (PointerTy s))"
    using pointer_request [OF assms(2,6)] L by blast
  moreover have "nat (getLogicalOffset L ?l) < getNumIndexableElem L" if "offsetIndexable L ?l" using number_less [OF fin] that num(2) by blast
  moreover have "?l = ?k" if "offsetIndexable L ?l" "offsetIndexable L ?k" "getLogicalOffset L ?l = getLogicalOffset L ?k"
    using number_inj [OF fin] that num(2) by blast
  ultimately show ?thesis unfolding Let_def i by blast
qed

text \<open>
  Why empty parts are excluded: in \<open>{ i8, [0 x i32], i64 }\<close> the offset 4 of the empty array is an element with a
  number of its own, between the two scalars at 0 and 8.
\<close>

lemma empty_part_is_element:
  defines "T \<equiv> StructTy ''z'' [IntTy 8, ArrayTy 0 (IntTy 32), IntTy 64]"
  shows "case getLayoutForType demoDL True None T emptyManager of Inl e \<Rightarrow> False
    | Inr (L, m) \<Rightarrow> elementLayout L = {0, 4, 8} \<and> indexPhysicalOffset L 4 = (4, 4) \<and> scalarAt demoDL (demoSp True) T 4 = None"
  by (auto simp: T_def getLayoutForType_def demoDL_def roundUp_def size_t_def emptyManager_def findLayout_def insertLayout_def Let_def
      setMaxOffsets_def newMemLayout_def setElementOffset_def mergeMemoryLayout_def indexPhysicalOffset_def hasArray_def demoSp_def)

subsection \<open>Witnesses\<close>

lemma layout_requests_safe_witness:
  "\<exists>L m1 m0. getLayoutForType demoDL True None demoStruct emptyManager = Inr (L, m1) \<and> mgr_reach demoDL demoSp m1 \<and>
     getLayoutForType demoDL True None demoStruct emptyManager = Inr (L, m0)"
  by (rule layout_requests_safe [OF mgr_reach.start demo_type(1,4)])

lemma demo_layout:
  "\<exists>m'. getLayoutForType demoDL True None demoStruct emptyManager = Inr (layoutOf demoDL (demoSp True) True demoStruct, m')"
  using request_layout [OF mgr_reach_ok [OF mgr_reach.start] demo_type(1,4)] by blast

text \<open>Offsets 32 and 48 are the pointers of the second and third pair: offset 16 in the first.\<close>

lemma layout_offsets_exact_witness:
  "\<exists>L m'. getLayoutForType demoDL True None demoStruct emptyManager = Inr (L, m') \<and>
     snd (indexPhysicalOffset L 32) = 16 \<and> fst (indexPhysicalOffset L 32) = 16 \<and>
     fst (indexPhysicalOffset L 32) = fst (indexPhysicalOffset L 48)"
proof -
  from demo_layout obtain m' where
    m': "getLayoutForType demoDL True None demoStruct emptyManager = Inr (layoutOf demoDL (demoSp True) True demoStruct, m')" by blast
  let ?L = "layoutOf demoDL (demoSp True) True demoStruct"
  have eval: "logOffset demoDL (demoSp True) demoStruct 32 = 16" "canon demoDL (demoSp True) demoStruct 32 = 16"
    "canon demoDL (demoSp True) demoStruct 48 = 16"
    by (simp_all add: demoStruct_def demoPair_def demoSp_def demoDL_def roundUp_def size_t_def)
  note w = layout_offsets_exact [OF mgr_reach.start demo_type(1,4) m', unfolded demo_root]
  have "indexPhysicalOffset ?L 32 = (16, 16)" "snd (indexPhysicalOffset ?L 48) = 16" using w [of 32 48] w [of 48 48] eval by simp_all
  moreover have "fst (indexPhysicalOffset ?L 32) = fst (indexPhysicalOffset ?L 48)" using w [of 32 48] calculation by simp
  ultimately show ?thesis using m' by auto
qed

lemma layout_types_offsets_witness:
  "\<exists>L m'. getLayoutForType demoDL True None demoStruct emptyManager = Inr (L, m') \<and> offsetIsPtr L (fst (indexPhysicalOffset L 32)) \<and>
     \<not> offsetIndexable L (fst (indexPhysicalOffset L 33))"
proof -
  from demo_layout obtain m' where
    m': "getLayoutForType demoDL True None demoStruct emptyManager = Inr (layoutOf demoDL (demoSp True) True demoStruct, m')" by blast
  have eval: "scalarAt demoDL (demoSp True) demoStruct 32 = Some (PointerTy ''i8'')" "scalarAt demoDL (demoSp True) demoStruct 33 = None"
    by (simp_all add: demoStruct_def demoPair_def demoSp_def demoDL_def roundUp_def size_t_def)
  note w = layout_types_offsets [OF mgr_reach.start demo_type(1,4) m' demo_type(2), unfolded demo_root Let_def]
  show ?thesis using w [of 32 33] w [of 33 32] eval m' by (auto simp: demoSp_def)
qed

section \<open>Objects of a block\<close>

lemma getObjectAt_slot:
  assumes ok: "mem_ok DL sp mem" and b: "b < length (fsBlocks mem)" and L: "blkKind (fsBlocks mem ! b) = Aggregate L"
    and n: "slotOf L p = Some n"
  shows "\<exists>x mem'. getObjectAt b p mem = (Some x, mem') \<and> mem_ok DL sp mem' \<and> mem_grows mem mem' \<and>
    n < length (fieldObjs (fsBlocks mem' ! b)) \<and> fieldObjs (fsBlocks mem' ! b) ! n = Some x"
proof -
  from indexMemoryBlock_ok [OF ok b L, of p] n obtain r mem' where
    r: "indexMemoryBlock False b L p mem = (r, mem')" "fills DL sp b n r mem mem'" by auto
  then have F: "mem_ok DL sp mem'" "mem_grows mem mem'" "fieldObjs (fsBlocks mem' ! b) ! n = r" "r \<noteq> None"
    by (auto simp: fills_def)
  have m: "b < length (fsBlocks mem')" "blkKind (fsBlocks mem' ! b) = Aggregate L" using F(2) b L by (simp_all add: mem_grows_def)
  note B = block_okD [OF mem_okD(1) [OF F(1) m(1)] m(2)]
  have "n < length (fieldObjs (fsBlocks mem' ! b))" using slotOf_less [OF B(1) n] B(2) by simp
  moreover have "getObjectAt b p mem = (r, mem')" using L r(1) by (simp add: getObjectAt_def blockObjectAt_def)
  moreover obtain x where "r = Some x" using F(4) by blast
  ultimately show ?thesis using F(1-3) by blast
qed

text \<open>
  C15. Within a block whose type has no empty part an object is a place of the type up to array indices: asking for
  two offsets where scalars start gives objects, the same one exactly if the places differ in array indices
  only, however many of them were made before; any other offset gives none and makes none. The
  blocks of the memory have such types (\<open>aggType\<close>, \<open>mem_ok\<close>): at the offset of a part of size zero the code makes an object although
  no scalar starts there (\<open>empty_part_is_element\<close>).
\<close>

theorem same_place_same_object:
  assumes "mem_ok DL sp mem" and "b < length (fsBlocks mem)" and "aggType DL sp T"
    and "blkKind (fsBlocks mem ! b) = Aggregate (layoutOf DL (sp True) True T)"
    and "p < rootSize DL T" and "scalarAt DL (sp True) T p \<noteq> None" and "q < rootSize DL T" and "scalarAt DL (sp True) T q \<noteq> None"
    and "\<not> (r < rootSize DL T \<and> scalarAt DL (sp True) T r \<noteq> None)"
  shows "\<exists>x mem1 y mem2. getObjectAt b p mem = (Some x, mem1) \<and> getObjectAt b q mem1 = (Some y, mem2) \<and> mem_ok DL sp mem2 \<and>
    (x = y \<longleftrightarrow> canon DL (sp True) T p = canon DL (sp True) T q) \<and> getObjectAt b r mem = (None, mem)"
proof -
  let ?L = "layoutOf DL (sp True) True T"
  have n: "slotOf ?L p = Some (nat (placeNumber ?L p))" "slotOf ?L q = Some (nat (placeNumber ?L q))" "slotOf ?L r = None"
    using slotOf_iff [OF assms(3) refl] assms(5-9) by auto
  from getObjectAt_slot [OF assms(1,2,4) n(1)] obtain x mem1 where
    x: "getObjectAt b p mem = (Some x, mem1)" "mem_ok DL sp mem1" "mem_grows mem mem1"
      "fieldObjs (fsBlocks mem1 ! b) ! nat (placeNumber ?L p) = Some x" by blast
  have m1: "b < length (fsBlocks mem1)" "blkKind (fsBlocks mem1 ! b) = Aggregate ?L" using x(3) assms(2,4) by (simp_all add: mem_grows_def)
  from getObjectAt_slot [OF x(2) m1 n(2)] obtain y mem2 where
    y: "getObjectAt b q mem1 = (Some y, mem2)" "mem_ok DL sp mem2" "mem_grows mem1 mem2"
      "fieldObjs (fsBlocks mem2 ! b) ! nat (placeNumber ?L q) = Some y" by blast
  have m2: "b < length (fsBlocks mem2)" "blkKind (fsBlocks mem2 ! b) = Aggregate ?L" using y(3) m1 by (simp_all add: mem_grows_def)
  note B = block_okD [OF mem_okD(1) [OF y(2) m2(1)] m2(2)]
  have x2: "fieldObjs (fsBlocks mem2 ! b) ! nat (placeNumber ?L p) = Some x" using y(3) m1(1) x(4) by (simp add: mem_grows_def)
  have pos: "0 \<le> placeNumber ?L p" "0 \<le> placeNumber ?L q" using placeNumber_pos [OF assms(3)] assms(5-8) by blast+
  have less: "nat (placeNumber ?L p) < length (fieldObjs (fsBlocks mem2 ! b))" "nat (placeNumber ?L q) < length (fieldObjs (fsBlocks mem2 ! b))"
    using slotOf_less [OF B(1)] n(1,2) B(2) by simp_all
  have "x = y \<longleftrightarrow> canon DL (sp True) T p = canon DL (sp True) T q"
  proof
    assume "x = y"
    then have "nat (placeNumber ?L p) = nat (placeNumber ?L q)" using B(5) [OF less(1) x2] B(5) [OF less(2) y(4)] by simp
    then have "placeNumber ?L p = placeNumber ?L q" using pos by simp
    then show "canon DL (sp True) T p = canon DL (sp True) T q" using placeNumber_eq [OF assms(3) pos(1)] by blast
  next
    assume "canon DL (sp True) T p = canon DL (sp True) T q"
    then have "placeNumber ?L p = placeNumber ?L q" using placeNumber_same [OF assms(3,5,7)] by blast
    then show "x = y" using x2 y(4) by simp
  qed
  moreover have "getObjectAt b r mem = (None, mem)"
    using indexMemoryBlock_ok [OF assms(1,2,4), of r] n(3) assms(4) by (simp add: getObjectAt_def blockObjectAt_def)
  ultimately show ?thesis using x(1) y(1,2) by blast
qed

section \<open>The solver on the memory model\<close>

text \<open>
  C3. Put together, the solver over the field-sensitive memory ends: from a well-formed graph whose objects are those of the
  memory, with enough fuel, without a failed assertion of either, in a memory that is again
  well-formed, with all constraints of the program satisfied; the fields of an object that offset
  constraints lead to are those the memory has.
\<close>

theorem solver_on_memory:
  assumes "graph_wf (g, p)" and "ssa_ok (fsLangModel DL opts G isInst hash) g" and "fsInv DL sp B mem (getNodeNum g) (objVec g)"
    and "B < sccDone" and "\<forall>v. isInst v \<longrightarrow> gep_fine DL G v"
  shows "\<exists>enough st'. (\<forall>fuel \<ge> enough. runSolver fuel (fsLangModel DL opts G isInst hash) (startSolver g p mem) = Inr st') \<and>
    allHandled st' \<and> mem_ok DL sp (langModel st') \<and>
    andersen_closed (fsLangModel DL opts G isInst hash) (fsField DL opts G) (langModel st') g (consGraph st') (ptsVec st')"
proof -
  have spec: "special_ok (fsLangModel DL opts G isInst hash) g" by (simp add: special_ok_def fsLangModel_def)
  have bound: "\<forall>l n objs. fsInv DL sp B l n objs \<longrightarrow> n \<le> B" using fsInvD(3) by fastforce
  from solver_closed [OF assms(1,2) fs_index_ok [OF assms(5)] spec assms(3) bound assms(4)] show ?thesis
    using fsInvD(1) by blast
qed

subsection \<open>Witnesses\<close>

text \<open>One block of the structure, with the object of its start, which a pointer points to; an instruction takes the address of a field.\<close>

definition demoBlock :: "nat option \<Rightarrow> mem_block" where
  "demoBlock obj = (let L = layoutOf demoDL (demoSp True) True demoStruct in
     \<lparr> blkKind = Aggregate L, blkContext = InitCtx, blkValue = Some 40, blkAlloc = AStack, blkImmutable = False,
       fieldObjs = (replicate (max 1 (getNumIndexableElem L)) None)[0 := obj],
       fieldType = replicate (max 1 (getNumIndexableElem L)) None \<rparr>)"

definition demoMem :: fs_mem where
  "demoMem = \<lparr> fsObjs = [newObj (Some 0) 0 NormalObj True\<lparr> objNode := Some 0 \<rparr>], fsBlocks = [demoBlock (Some 0)],
     memBlockMap = Map.empty, layoutManager = emptyManager \<rparr>"

definition demoGep :: gep_view where
  "demoGep = \<lparr> isGEP = (\<lambda>v. v = 51), hasAllConstantIndices = (\<lambda>v. True), constantOffset = (\<lambda>v. 32),
     gepElementType = (\<lambda>v. demoStruct), gepIndices = (\<lambda>v. []) \<rparr>"

definition demoOpts :: pta_opts where
  "demoOpts = \<lparr> memlayoutFiltering = False, useFIMode = False, vtableMode = False, anonRecLimit = 0, anonRecDepthLimit = 10 \<rparr>"

text \<open>Two objects, a pointer to the first and one to a field of it.\<close>

definition demo_mem_ops :: "cg_op list" where
  "demo_mem_ops = [NewObj, NewPtr (Some 50), NewPtr (Some 51), AddCons 0 2 CAddrOf, AddCons 2 3 COffset]"

lemma demo_elems: "getNumIndexableElem (layoutOf demoDL (demoSp True) True demoStruct) = 4"
proof -
  have "elementLayout (layoutOf demoDL (demoSp True) True demoStruct) = {0, 8, 16, 24}"
    by (simp add: layoutOf_def demoStruct_def demoPair_def demoSp_def demoDL_def roundUp_def size_t_def isEmpty_def partSize_def image_Un) auto
  then show ?thesis by (simp add: getNumIndexableElem_def)
qed

lemma demo_mem_ok: "mem_ok demoDL demoSp demoMem"
  unfolding mem_ok_def
proof (intro conjI allI impI)
  let ?L = "layoutOf demoDL (demoSp True) True demoStruct"
  have agg: "aggLayout demoDL demoSp ?L" using demo_type(3) by (auto simp: aggLayout_def)
  have len: "length (fieldType (demoBlock (Some 0))) = 4" "length (fieldObjs (demoBlock (Some 0))) = 4"
    by (simp_all add: demoBlock_def Let_def demo_elems)
  show "block_ok demoDL demoSp (fsObjs demoMem) b (fsBlocks demoMem ! b)" if "b < length (fsBlocks demoMem)" for b
  proof -
    have b: "b = 0" "fsBlocks demoMem ! b = demoBlock (Some 0)" using that by (simp_all add: demoMem_def)
    show ?thesis
      unfolding b(2)
    proof (rule block_okI [OF _ agg])
      show "blkKind (demoBlock (Some 0)) = Aggregate ?L" by (simp add: demoBlock_def Let_def)
      show "length (fieldObjs (demoBlock (Some 0))) = max 1 (getNumIndexableElem ?L)" by (simp add: len demo_elems)
      show "length (fieldType (demoBlock (Some 0))) = length (fieldObjs (demoBlock (Some 0)))" by (simp add: len)
      fix q T assume "0 \<le> placeNumber ?L q" "fieldType (demoBlock (Some 0)) ! nat (placeNumber ?L q) = Some T"
      moreover have "slotOf ?L q = Some (nat (placeNumber ?L q))"
        using calculation(1) slotOf_iff [OF demo_type(3) refl] placeNumber_pos [OF demo_type(3), of q] by simp
      then have "nat (placeNumber ?L q) < 4" using slotOf_less [OF agg] demo_elems by fastforce
      ultimately show "typeOfPlace demoDL ?L q = Some T" by (simp add: demoBlock_def Let_def demo_elems)
    next
      fix n obj assume "n < length (fieldObjs (demoBlock (Some 0)))" "fieldObjs (demoBlock (Some 0)) ! n = Some obj"
      then have "n = 0 \<and> obj = 0" by (simp add: demoBlock_def Let_def demo_elems nth_list_update split: if_splits)
      then show "obj < length (fsObjs demoMem) \<and> objBlock (fsObjs demoMem ! obj) = Some b \<and> slotOf ?L (objOffset (fsObjs demoMem ! obj)) = Some n"
        by (simp add: demoMem_def newObj_def b(1) slotOf_def)
    qed
  qed
  show "\<exists>b < length (fsBlocks demoMem). objBlock (fsObjs demoMem ! obj) = Some b" if "obj < length (fsObjs demoMem)" for obj
    using that by (auto simp: demoMem_def newObj_def)
qed

text \<open>The pointers of the second and third pair are one object, apart from the counter.\<close>

lemma same_place_same_object_witness:
  "\<exists>x mem1 mem2. getObjectAt 0 32 demoMem = (Some x, mem1) \<and> getObjectAt 0 48 mem1 = (Some x, mem2) \<and>
     getObjectAt 0 33 demoMem = (None, demoMem)"
proof -
  let ?L = "layoutOf demoDL (demoSp True) True demoStruct"
  have eval: "scalarAt demoDL (demoSp True) demoStruct 32 \<noteq> None" "scalarAt demoDL (demoSp True) demoStruct 48 \<noteq> None"
    "scalarAt demoDL (demoSp True) demoStruct 33 = None" "canon demoDL (demoSp True) demoStruct 32 = canon demoDL (demoSp True) demoStruct 48"
    by (simp_all add: demoStruct_def demoPair_def demoSp_def demoDL_def roundUp_def size_t_def)
  have "blkKind (fsBlocks demoMem ! 0) = Aggregate ?L" "0 < length (fsBlocks demoMem)" by (simp_all add: demoMem_def demoBlock_def Let_def)
  from same_place_same_object [OF demo_mem_ok this(2) demo_type(3) this(1), of 32 48 33] eval show ?thesis by (auto simp: demo_root)
qed

lemma solver_on_memory_witness:
  "\<exists>g p fuel st'. cgRun demo_mem_ops (emptyGraph, []) = Inr (g, p) \<and>
     runSolver fuel (fsLangModel demoDL demoOpts demoGep (\<lambda>v. v = 51) (\<lambda>a b. a)) (startSolver g p demoMem) = Inr st' \<and>
     0 \<in> ptsOf (consGraph st') (ptsVec st') 2"
proof -
  let ?LM = "fsLangModel demoDL demoOpts demoGep (\<lambda>v. v = 51) (\<lambda>a b. a)"
  have "map_sum (\<lambda>_. ()) (\<lambda>(g, p). getNodeNum g = 4 \<and> objVec g = [0] \<and> ssaCheck (\<lambda>v. v = 51) g \<and> edge g CCopy 1 2)
      (cgRun demo_mem_ops (emptyGraph, [])) = Inr True" by code_simp
  then obtain g p where r: "cgRun demo_mem_ops (emptyGraph, []) = Inr (g, p)" "getNodeNum g = 4" "objVec g = [0]"
    "ssaCheck (\<lambda>v. v = 51) g" "edge g CCopy 1 2" by (auto simp: map_sum_def split: sum.splits)
  have wf: "graph_wf (g, p)" using cgReach_wf [OF cgRun_reach [OF r(1) cgReach.start]] .
  have "ssaCheck (lmIsInstruction ?LM) g" using r(4) by (simp add: fsLangModel_def)
  then have ssa: "ssa_ok ?LM g" using ssaCheck_ok wf by (auto simp: graph_wf_def)
  have "emptySlots demoMem = 3"
    by (simp add: emptySlots_def emptyIn_def demoMem_def demoBlock_def Let_def demo_elems numeral_eq_Suc)
  then have Inv: "fsInv demoDL demoSp 10 demoMem (getNodeNum g) (objVec g)"
    using demo_mem_ok r(2,3) by (simp add: fsInv_def demoMem_def)
  have "(10 :: nat) < sccDone" by (simp add: sccDone_def)
  moreover have "\<forall>v. v = 51 \<longrightarrow> gep_fine demoDL demoGep v" by (simp add: gep_fine_def demoGep_def)
  ultimately obtain enough st' where st': "runSolver enough ?LM (startSolver g p demoMem) = Inr st'"
    "andersen_closed ?LM (fsField demoDL demoOpts demoGep) (langModel st') g (consGraph st') (ptsVec st')"
    using solver_on_memory [OF wf ssa Inv] by blast
  note C = andersen_closedD [OF st'(2)]
  have "0 \<in> ptsOf (consGraph st') (ptsVec st') 1" using C(1) [of 0] r(3) by simp
  then have "0 \<in> ptsOf (consGraph st') (ptsVec st') 2" using C(2) [OF r(5)] by blast
  then show ?thesis using r(1) st'(1) by blast
qed

section \<open>Variable indices\<close>

text \<open>Ten numbers, then three records that each hold an array of four numbers after a long one.\<close>

definition missStruct :: ll_type where
  "missStruct = StructTy ''m'' [ArrayTy 10 (IntTy 32), ArrayTy 3 (StructTy ''r'' [IntTy 64, ArrayTy 4 (IntTy 32)])]"

text \<open>
  C28. The check that a variable index moves inside an array misses arrays that lie behind another array of the same
  structure: with an array of four-byte elements at offset 48, it refuses the step four there, because it
  only looks into the first array that starts before.
\<close>

theorem step_check_misses:
  "\<exists>L m'. getLayoutForType demoDL True None missStruct emptyManager = Inr (L, m') \<and>
     getTypeAtOffset demoDL False missStruct 48 = Some (ArrayTy 4 (IntTy 32)) \<and> \<not> isArrayExistAtOffset (subArrays L) 48 4"
proof -
  have f: "demoSp c = (\<lambda>_. False)" for c by (simp add: demoSp_def fun_eq_iff)
  have "wf_type demoDL (demoSp True) missStruct" by (simp add: f demoDL_def missStruct_def roundUp_def size_t_def SIZE_MAX_def)
  then have "request_ok demoDL demoSp True missStruct" by (simp add: request_ok_def f missStruct_def)
  from request_layout [OF mgr_reach_ok [OF mgr_reach.start] this demo_type(4)] obtain m' where
    m': "getLayoutForType demoDL True None missStruct emptyManager = Inr (layoutOf demoDL (demoSp True) True missStruct, m')" by blast
  have "getTypeAtOffset demoDL False missStruct 48 = Some (ArrayTy 4 (IntTy 32))"
    by (simp add: demoDL_def missStruct_def roundUp_def size_t_def)
  moreover have "\<not> isArrayExistAtOffset (subArrays (layoutOf demoDL (demoSp True) True missStruct)) 48 4"
    by (simp add: layoutOf_def partSubs_def f demoDL_def missStruct_def roundUp_def size_t_def isArrayExistAtOffset.simps getArraySize_def SIZE_MAX_def)
  ultimately show ?thesis using m' by blast
qed

end
