(* ===== verification/AllocProps.thy ===== *)
theory AllocProps
  imports AllocOk MemProps
begin

text \<open>
  What allocation promises: from a memory in step with the graph every allocation of a value by its type
  succeeds and leaves them in step, and the block is found again; and what it does not: a vtable
  pointer that lies behind a vector becomes a vector.
\<close>

section \<open>Allocation\<close>

lemma alloc_start: "alloc_ok E (\<lparr> fsObjs = [], fsBlocks = [], memBlockMap = Map.empty, layoutManager = emptyManager \<rparr>, emptyGraph, [])"
  using empty_wf mgr_reach_ok [OF mgr_reach.start] by (simp add: alloc_ok_def mem_ok_def emptyGraph_def)

text \<open>
  C14. Allocating a value of one of the types in \<open>alloc_type_ok\<close> succeeds in every memory in step with the graph,
  without a failed assertion: one block is added and only objects are added to the graph, what was there stays, the result
  is the node of an object of the new block, the memory stays in step with the graph and can index its
  objects for the solver, and a block that is not anonymous is what its value and context find from then on.

  The types are: every type in the field-insensitive mode; otherwise the types that are no aggregates, opaque structures, aggregates without an
  empty part and without a vector or vtable pointer inside, and in the C++ model the vectors themselves. Not covered are
  aggregates with a vector or vtable pointer as a part, which \<open>allocSpecialAt\<close> fills and on which the
  code can fail or go wrong (\<open>vector_shadows_vtable\<close> below), aggregates with an empty part, and
  the vtables that the C++ model keeps uncollapsed (\<open>keepsArrays\<close>).
\<close>

theorem allocation_keeps_memory:
  assumes "alloc_ok E (mem, g, p)" and "fresh_key mem c v T" and "alloc_type_ok E type" and "\<not> keepsArrays E v T"
    and "T = AAnonymous \<or> v = Some x" and "isGlobalVar E x \<longrightarrow> c = GlobCtx"
  shows "\<exists>n mem' g' p'. allocValueWithType E c v T type (mem, g, p) = Inr (n, mem', g', p') \<and>
    allocates E c v T (mem, g, p) n (mem', g', p') \<and>
    fsInv (envDL E) (envSp E) (getNodeNum g' + 2 * emptySlots mem') mem' (getNodeNum g') (objVec g') \<and>
    (T \<noteq> AAnonymous \<longrightarrow> getMemBlock E c x mem' = Inr (length (fsBlocks mem)))"
proof -
  from value_object_ok [OF assms(1-4)] obtain n mem' g' p' where
    a: "allocValueWithType E c v T type (mem, g, p) = Inr (n, mem', g', p')" "allocates E c v T (mem, g, p) n (mem', g', p')" by auto
  then have ok: "alloc_ok E (mem', g', p')" and map: "memBlockMap mem' = newKey c v T mem" by (simp_all add: allocates_def)
  have "fsInv (envDL E) (envSp E) (getNodeNum g' + 2 * emptySlots mem') mem' (getNodeNum g') (objVec g')"
    using ok by (simp add: alloc_ok_def fsInv_def)
  moreover have "getMemBlock E c x mem' = Inr (length (fsBlocks mem))" if "T \<noteq> AAnonymous"
    using that assms(5,6) map by (simp add: getMemBlock_def newKey_def)
  ultimately show ?thesis using a by blast
qed

subsection \<open>Witness\<close>

definition demoEnv :: "mem_model_kind \<Rightarrow> mem_env" where
  "demoEnv K = \<lparr> envDL = demoDL\<lparr> getPointerElementType := (\<lambda>s. Some i8) \<rparr>, envOpts = demoOpts\<lparr> vtableMode := True \<rparr>, envKind = K,
     vptrType = ''vptr'', envModule = empty_module, demangle = id, pointeeType = (\<lambda>v. demoStruct), constantArraySize = (\<lambda>v. Some 1),
     vtableNameOf = (\<lambda>v T n S. ''vtable''), structHasPadding = (\<lambda>T. False), initializerOf = (\<lambda>v. None), isConstantGlobal = (\<lambda>v. False),
     nullValue = 0, undefValue = 1 \<rparr>"

definition noMem :: fs_mem where
  "noMem = \<lparr> fsObjs = [], fsBlocks = [], memBlockMap = Map.empty, layoutManager = emptyManager \<rparr>"

lemma allocation_keeps_memory_witness:
  "\<exists>n mem g p. allocStackObj (demoEnv FSKind) InitCtx 40 (noMem, emptyGraph, []) = Inr (n, mem, g, p) \<and>
     getMemBlock (demoEnv FSKind) InitCtx 40 mem = Inr 0 \<and> length (fsBlocks mem) = 1"
proof -
  let ?E = "demoEnv FSKind"
  have sp: "envSp ?E = demoSp" by (simp add: envSp_def demoSp_def demoEnv_def fun_eq_iff)
  have f: "demoSp True = (\<lambda>_. False)" by (simp add: demoSp_def fun_eq_iff)
  have "aggType (envDL ?E) (envSp ?E) demoStruct"
    unfolding sp by (simp add: aggType_def request_ok_def f demoEnv_def demoDL_def demoStruct_def demoPair_def roundUp_def size_t_def SIZE_MAX_def)
  moreover have "specials (envDL ?E) (envSp ?E True) True demoStruct = {}" unfolding sp f by (simp add: demoStruct_def demoPair_def)
  moreover have "envKind ?E \<noteq> CPPKind" by (simp add: demoEnv_def)
  ultimately have type: "alloc_type_ok ?E demoStruct" unfolding alloc_type_ok_def plain_type_def layout_type_def by blast
  have start: "alloc_ok ?E (noMem, emptyGraph, [])" unfolding noMem_def by (rule alloc_start)
  have "fresh_key noMem InitCtx (Some 40) AStack" by (simp add: fresh_key_def noMem_def)
  moreover have "\<not> keepsArrays ?E (Some 40) AStack" by (simp add: keepsArrays_def demoEnv_def)
  moreover have "AStack = AAnonymous \<or> Some (40 :: nat) = Some 40" by simp
  moreover have "isGlobalVar ?E 40 \<longrightarrow> InitCtx = GlobCtx" by (simp add: isGlobalVar_def demoEnv_def empty_module_def)
  ultimately obtain n mem g p where
    r: "allocValueWithType ?E InitCtx (Some 40) AStack demoStruct (noMem, emptyGraph, []) = Inr (n, mem, g, p)"
      "allocates ?E InitCtx (Some 40) AStack (noMem, emptyGraph, []) n (mem, g, p)" "getMemBlock ?E InitCtx 40 mem = Inr (length (fsBlocks noMem))"
    using allocation_keeps_memory [OF start _ type, of InitCtx "Some 40" AStack 40] by blast
  have "allocStackObj ?E InitCtx 40 (noMem, emptyGraph, []) = Inr (n, mem, g, p)"
    using r(1) by (simp add: allocStackObj_def demoEnv_def)
  moreover have "length (fsBlocks mem) = 1" using r(2) by (simp add: allocates_def noMem_def)
  ultimately show ?thesis using r(3) by (simp add: noMem_def)
qed

section \<open>A vtable pointer behind a vector\<close>

definition vecTy :: ll_type where
  "vecTy = StructTy ''class.std::vector'' [StructTy ''base'' [PointerTy ''A'', PointerTy ''A'', PointerTy ''A'']]"

definition hostTy :: ll_type where
  "hostTy = StructTy ''host'' [vecTy, PointerTy ''vptr'']"

lemma vec_questions:
  "isSpecial (demoEnv CPPKind) hostTy = Inr False" "isSpecial (demoEnv CPPKind) vecTy = Inr True"
  "isSpecial (demoEnv CPPKind) (PointerTy s) = Inr (s = ''vptr'')"
  "isSpecial (demoEnv CPPKind) (StructTy ''base'' ts) = Inr False"
  by (simp_all add: isSpecial_def isSpecialTypeImpl_def resolveVecElemType_def isVTablePtrType_def hostTy_def vecTy_def
      isSupportedElementType_def demoEnv_def i8_def demoOpts_def)

lemma vec_special:
  "envSp (demoEnv CPPKind) True hostTy \<longleftrightarrow> False" "envSp (demoEnv CPPKind) True vecTy \<longleftrightarrow> True"
  "envSp (demoEnv CPPKind) True (PointerTy s) \<longleftrightarrow> s = ''vptr''"
  by (auto simp: envSp_def vec_questions) (simp_all add: demoEnv_def)

lemma host_sizes [simp]:
  "demoSize vecTy = 24" "demoSize hostTy = 32" "demoOffset hostTy 0 = 0" "demoOffset hostTy (Suc 0) = 24"
  by (simp_all add: vecTy_def hostTy_def roundUp_def size_t_def)

lemma demo_env [simp]:
  "getTypeAllocSize (envDL (demoEnv K)) = demoSize" "getElementOffset (envDL (demoEnv K)) = demoOffset"
  "envKind (demoEnv K) = K"
  by (simp_all add: demoEnv_def demoDL_def)

lemma host_layout:
  defines "L \<equiv> layoutOf (envDL (demoEnv CPPKind)) (envSp (demoEnv CPPKind) True) True hostTy"
  shows "layout_type (demoEnv CPPKind) hostTy" and "elementLayout L = {0, 24}" and "specialLayout L = {0, 24}" and "subArrays L = []"
    and "mIsArray L = False"
proof -
  let ?E = "demoEnv CPPKind"
  let ?sp = "envSp ?E True"
  have sz: "demoSize (StructTy ''host'' [vecTy, PointerTy ''vptr'']) = 32" using host_sizes(2) unfolding hostTy_def .
  have off: "demoOffset (StructTy ''host'' [vecTy, PointerTy ''vptr'']) 0 = 0" "demoOffset (StructTy ''host'' [vecTy, PointerTy ''vptr'']) (Suc 0) = 24"
    using host_sizes(3,4) unfolding hostTy_def by simp_all
  have sp: "\<not> ?sp (StructTy ''host'' [vecTy, PointerTy ''vptr''])" using vec_special(1) unfolding hostTy_def by simp
  have vec: "wf_type (envDL ?E) ?sp vecTy" "elems (envDL ?E) ?sp True vecTy = {0}" "specials (envDL ?E) ?sp True vecTy = {0}"
    "subs (envDL ?E) ?sp vecTy = []" "no_empty (envDL ?E) ?sp vecTy" "scalarAt (envDL ?E) ?sp vecTy 0 \<noteq> None" "partSize (envDL ?E) ?sp True vecTy = 24"
    using vec_special(2) unfolding vecTy_def by (simp_all add: size_t_def SIZE_MAX_def roundUp_def partSize_def)
  have wf: "wf_type (envDL ?E) ?sp hostTy" "no_empty (envDL ?E) ?sp hostTy" "scalarAt (envDL ?E) ?sp hostTy 0 \<noteq> None" "isAggregateType hostTy"
    unfolding hostTy_def using vec sz off sp by (simp_all add: SIZE_MAX_def)
  have "\<exists>x. isSpecial ?E U = Inr x" if "U \<in> set (typesIn hostTy)" for U
    using that vec_questions by (auto simp: hostTy_def vecTy_def)
  then show "layout_type ?E hostTy" using wf vec_special(1) by (simp add: layout_type_def aggType_def request_ok_def)
  show "elementLayout L = {0, 24}" "specialLayout L = {0, 24}" "subArrays L = []" "mIsArray L = False"
    unfolding L_def layoutOf_def hostTy_def using vec sz off sp vec_special(3) by (simp_all add: isEmpty_def partSubs_def insert_commute)
qed

text \<open>One special object goes into its slot.\<close>

lemma special_vector:
  assumes "graph_wf (g, p)" and "length (fsObjs mem) = length (objVec g)" and "b < length (fsBlocks mem)"
    and "blkKind (fsBlocks mem ! b) = Aggregate L" and "getTypeAtOffset (envDL E) True type offset = Some elem"
    and "vectorInside (envDL E) (stripArray elem) found = Inr (Some V, elem')" and "k < length (fieldObjs (fsBlocks mem ! b))"
    and "fieldObjs (fsBlocks mem ! b) ! k = None" and "offset = 0 \<and> k = 0 \<or> 0 < offset \<and> 0 < k \<and> placeNumber L offset = int k"
  shows "\<exists>N g' p'. allocSpecialAt E type b offset (found, mem, g, p) = Inr (Some V, mem\<lparr>
      fsObjs := fsObjs mem @ [newObj (Some b) offset (VectorObj V (length (fsObjs mem) + 1)) True\<lparr> objNode := Some (getNodeNum g) \<rparr>,
        newObj (Some b) 0 VectorElem False\<lparr> objNode := Some N \<rparr>],
      fsBlocks := (fsBlocks mem)[b := (fsBlocks mem ! b)\<lparr> fieldObjs := (fieldObjs (fsBlocks mem ! b))[k := Some (length (fsObjs mem))] \<rparr>] \<rparr>, g', p') \<and>
    graph_wf (g', p') \<and> length (objVec g') = length (objVec g) + 2"
proof -
  from newVector_ok [OF assms(1,2), of "Some b" offset V] obtain N g' p' where
    new: "newVector (Some b) offset V (mem, g, p) = Inr (length (fsObjs mem), mem\<lparr> fsObjs := fsObjs mem @
      [newObj (Some b) offset (VectorObj V (length (fsObjs mem) + 1)) True\<lparr> objNode := Some (getNodeNum g) \<rparr>,
       newObj (Some b) 0 VectorElem False\<lparr> objNode := Some N \<rparr>] \<rparr>, g', p')" "graph_wf (g', p')"
      "length (objVec g') = length (objVec g) + 2" by auto
  have "initializeOffsetWith b offset obj mem' = Inr (updBlock b (\<lambda>x. x\<lparr> fieldObjs := (fieldObjs x)[k := Some obj] \<rparr>) mem')"
    if "fsBlocks mem' = fsBlocks mem" for obj mem'
    using that assms(4,8,9) by (auto simp: initializeOffsetWith_def placeNumber_def Let_def split: prod.splits)
  then show ?thesis using new assms(5,6) by (intro exI [of _ N] exI [of _ g'] exI [of _ p']) (simp add: allocSpecialAt_def updBlock_def)
qed

text \<open>
  C29. A vtable pointer that lies behind a vector in a structure is allocated as a vector with the elements of the
  one before: the element type that was found is kept from one special part to the next.
\<close>

theorem vector_shadows_vtable:
  "\<exists>n mem g p obj. allocHeapObj (demoEnv CPPKind) InitCtx 40 (Some hostTy) (noMem, emptyGraph, []) = Inr (n, mem, g, p) \<and>
     getTypeAtOffset (envDL (demoEnv CPPKind)) True hostTy 24 = Some (PointerTy (vptrType (demoEnv CPPKind))) \<and>
     getObjectAt 0 24 mem = (Some obj, mem) \<and> objKind (fsObjs mem ! obj) = VectorObj i8 (obj + 1)"
proof -
  let ?E = "demoEnv CPPKind"
  let ?L = "layoutOf (envDL ?E) (envSp ?E True) True hostTy"
  note L = host_layout
  have "mgr_ok (envDL ?E) (envSp ?E) (layoutManager noMem)" using mgr_reach_ok [OF mgr_reach.start] by (simp add: noMem_def)
  from type_layout [OF L(1) this] obtain m where
    m: "requestLayout ?E True (specialCallback ?E) hostTy noMem = Inr (?L, noMem\<lparr> layoutManager := m \<rparr>)" by auto
  have two: "getNumIndexableElem ?L = 2" using L(2) by (simp add: getNumIndexableElem_def)
  let ?B = "newBlock (Aggregate ?L) InitCtx (Some 40) AHeap [None, None]"
  have "fresh_key (noMem\<lparr> layoutManager := m \<rparr>) InitCtx (Some 40) AHeap" by (simp add: fresh_key_def noMem_def)
  from allocMemBlock_ok [OF this, of "Aggregate ?L" "[None, None]"] obtain mem1 where
    b: "allocAggregateBlock InitCtx (Some 40) AHeap ?L (noMem\<lparr> layoutManager := m \<rparr>) = Inr (0, mem1)" "fsObjs mem1 = []"
      "fsBlocks mem1 = [?B]" by (auto simp: allocAggregateBlock_def two noMem_def numeral_2_eq_2)
  have index: "indexPhysicalOffset ?L q = (q, q)" for q using L(4) by (simp add: indexPhysicalOffset_def hasArray_def)
  have "Collect (\<lambda>x. x \<in> {0, 24 :: nat} \<and> x < 24) = {0}" by auto
  then have num: "placeNumber ?L 24 = 1" using L(2) by (simp add: placeNumber_def index logical_number(1))
  have types: "getTypeAtOffset (envDL ?E) True hostTy 0 = Some hostTy" 
    "getTypeAtOffset (envDL ?E) True hostTy 24 = Some (PointerTy ''vptr'')"
    using host_sizes unfolding hostTy_def by simp_all
  have vec: "resolveVecElemType (envDL ?E) vecTy = Inr (Some i8)" "resolveVecElemType (envDL ?E) hostTy = Inr None"
    by (simp_all add: resolveVecElemType_def vecTy_def hostTy_def demoEnv_def)
  have inside: "vectorInside (envDL ?E) (stripArray hostTy) None = Inr (Some i8, vecTy)"
    "vectorInside (envDL ?E) (stripArray (PointerTy ''vptr'')) (Some i8) = Inr (Some i8, PointerTy ''vptr'')"
    using vec by (simp_all add: vectorInside.simps hostTy_def vecTy_def)
  have spec: "sorted_list_of_set (specialLayout ?L) = [0, 24]" using L(3) by simp
  have g0: "graph_wf (emptyGraph, [])" "length (fsObjs mem1) = length (objVec emptyGraph)" using empty_wf b(2) by (simp_all add: emptyGraph_def)
  from special_vector [OF g0, of 0 ?L ?E hostTy 0 hostTy None i8 vecTy 0] obtain mem2 g2 p2 where
    s1: "allocSpecialAt ?E hostTy 0 0 (None, mem1, emptyGraph, []) = Inr (Some i8, mem2, g2, p2)" "graph_wf (g2, p2)"
      "length (fsObjs mem2) = 2" "length (objVec g2) = 2" "fsBlocks mem2 = [?B\<lparr> fieldObjs := [Some 0, None] \<rparr>]"
      "objNode (fsObjs mem2 ! 0) \<noteq> None"
    using b(2,3) types(1) inside(1) by (auto simp: newBlock_def emptyGraph_def)
  from special_vector [OF s1(2), of mem2 0 ?L ?E hostTy 24 "PointerTy ''vptr''" "Some i8" i8 "PointerTy ''vptr''" 1] obtain mem3 g3 p3 where
    s2: "allocSpecialAt ?E hostTy 0 24 (Some i8, mem2, g2, p2) = Inr (Some i8, mem3, g3, p3)"
      "fsBlocks mem3 = [?B\<lparr> fieldObjs := [Some 0, Some 2] \<rparr>]" "objKind (fsObjs mem3 ! 2) = VectorObj i8 3"
      "objNode (fsObjs mem3 ! 0) \<noteq> None"
    using s1(3-6) types(2) inside(2) num by (auto simp: newBlock_def newObj_def nth_append)
  have at: "getObjectAt 0 0 mem3 = (Some 0, mem3)" "getObjectAt 0 24 mem3 = (Some 2, mem3)"
    using s2(2) num by (simp_all add: getObjectAt_def blockObjectAt_def indexMemoryBlock_def newBlock_def index placeNumber_def SIZE_MAX_def)
  from s2(4) obtain n where n: "objNode (fsObjs mem3 ! 0) = Some n" by blast
  have special: "allocWithSpecials ?E InitCtx (Some 40) AHeap hostTy None (noMem, emptyGraph, []) = Inr (n, mem3, g3, p3)"
    using m b(1) s1(1) s2(1) at(1) n by (simp add: allocWithSpecials_def spec)
  have "\<not> keepsArrays ?E (Some 40) AHeap" by (simp add: keepsArrays_def isGlobalVar_def demoEnv_def empty_module_def)
  from cpp_collapsed [OF this] have "allocStructArrayObj ?E InitCtx (Some 40) AHeap hostTy (noMem, emptyGraph, []) = Inr (n, mem3, g3, p3)"
    using vec(2) special by simp
  moreover have "\<not> useFIMode (envOpts ?E)" by (simp add: demoEnv_def demoOpts_def)
  ultimately have "allocHeapObj ?E InitCtx 40 (Some hostTy) (noMem, emptyGraph, []) = Inr (n, mem3, g3, p3)"
    by (simp add: allocHeapObj_def allocValueWithType_def hostTy_def)
  moreover have "vptrType ?E = ''vptr''" by (simp add: demoEnv_def)
  ultimately show ?thesis using types(2) at(2) s2(3) by force
qed

section \<open>Initialisers\<close>

text \<open>Where a part of a constant lies, by the data layout, and the pointers of a constant with their offsets.\<close>

fun partOffset :: "data_layout \<Rightarrow> ll_type \<Rightarrow> nat \<Rightarrow> nat" where
  "partOffset DL (ArrayTy n E) i = i * getTypeAllocSize DL E"
| "partOffset DL T i = getElementOffset DL T i"

fun initPointers :: "data_layout \<Rightarrow> nat \<Rightarrow> ll_const \<Rightarrow> (nat \<times> init_target) list"
and operandPointers :: "data_layout \<Rightarrow> nat \<Rightarrow> ll_type \<Rightarrow> nat \<Rightarrow> ll_const list \<Rightarrow> (nat \<times> init_target) list" where
  "initPointers DL off (NullOrUndef T) = []"
| "initPointers DL off (ScalarConst T T' t) = (if t = NoPointer then [] else [(off, t)])"
| "initPointers DL off (AggregateConst T cs) = operandPointers DL off T 0 cs"
| "initPointers DL off (DataArrayConst T) = []"
| "operandPointers DL off T i [] = []"
| "operandPointers DL off T i (c # cs) = initPointers DL (off + partOffset DL T i) c @ operandPointers DL off T (i + 1) cs"

text \<open>
  Constants of their type: fields and elements have the types of the aggregate, a scalar keeps its size in its canonical
  form, and a structure without padding has each field at the end of the one before.
\<close>

fun const_ok :: "mem_env \<Rightarrow> ll_const \<Rightarrow> bool" where
  "const_ok E (NullOrUndef T) \<longleftrightarrow> True"
| "const_ok E (ScalarConst T T' t) \<longleftrightarrow> getTypeAllocSize (envDL E) T' = getTypeAllocSize (envDL E) T"
| "const_ok E (AggregateConst T cs) \<longleftrightarrow> (\<forall>c \<in> set cs. const_ok E c) \<and>
     (case T of
        StructTy s ts \<Rightarrow> map constType cs = ts \<and> (structHasPadding E T \<or>
          (\<forall>i < length ts. getElementOffset (envDL E) T i = sum_list (map (getTypeAllocSize (envDL E)) (take i ts))))
      | ArrayTy n F \<Rightarrow> length cs = n \<and> (\<forall>c \<in> set cs. constType c = F) \<and> getTypeAllocSize (envDL E) T = n * getTypeAllocSize (envDL E) F
      | _ \<Rightarrow> False)"
| "const_ok E (DataArrayConst T) \<longleftrightarrow> True"

definition visits :: "mem_env \<Rightarrow> nat \<Rightarrow> ll_const \<Rightarrow> bool" where
  "visits E b c \<longleftrightarrow> (\<forall>off s. processInitializer E b c (off, s) =
     rbind (rfold (initPointer E b) (initPointers (envDL E) off c) s) (\<lambda>s. Inr (off + getTypeAllocSize (envDL E) (constType c), s)))"

lemma visitsD:
  "visits E b c \<Longrightarrow> processInitializer E b c (off, s) =
     rbind (rfold (initPointer E b) (initPointers (envDL E) off c) s) (\<lambda>s. Inr (off + getTypeAllocSize (envDL E) (constType c), s))"
  unfolding visits_def by blast

lemma operands_in_order:
  assumes "\<forall>c \<in> set cs. visits E b c" and "\<not> (isStructTy T \<and> structHasPadding E T)"
    and "\<forall>k < length cs. partOffset (envDL E) T (i + k) = from + sum_list (map (getTypeAllocSize (envDL E) \<circ> constType) (take k cs))"
  shows "processOperands E b T off i cs (off + from, s) =
    rbind (rfold (initPointer E b) (operandPointers (envDL E) off T i cs) s)
      (\<lambda>s. Inr (off + from + sum_list (map (getTypeAllocSize (envDL E) \<circ> constType) cs), s))"
  using assms(1,3)
proof (induction cs arbitrary: i "from" s)
  case (Cons c cs)
  let ?n = "getTypeAllocSize (envDL E) (constType c)"
  have here: "partOffset (envDL E) T i = from" using Cons.prems(2) [rule_format, of 0] by simp
  have step: "processInitializer E b c (off + from, s) =
      rbind (rfold (initPointer E b) (initPointers (envDL E) (off + from) c) s) (\<lambda>s. Inr (off + from + ?n, s))"
    using Cons.prems(1) by (intro visitsD) simp
  have "partOffset (envDL E) T (i + 1 + k) = (from + ?n) + sum_list (map (getTypeAllocSize (envDL E) \<circ> constType) (take k cs))"
    if "k < length cs" for k
    using Cons.prems(2) [rule_format, of "Suc k"] that by simp
  then have IH: "processOperands E b T off (i + 1) cs (off + (from + ?n), s) =
      rbind (rfold (initPointer E b) (operandPointers (envDL E) off T (i + 1) cs) s)
        (\<lambda>s. Inr (off + (from + ?n) + sum_list (map (getTypeAllocSize (envDL E) \<circ> constType) cs), s))" for s
    using Cons.prems(1) by (intro Cons.IH) (simp_all add: comp_def)
  show ?case
  proof (cases "rfold (initPointer E b) (initPointers (envDL E) (off + from) c) s")
    case (Inl e)
    then show ?thesis using step here assms(2) by (auto simp: rfold_append)
  next
    case (Inr s')
    then show ?thesis using step here assms(2) IH [of s'] by (auto simp: rfold_append add.assoc comp_def)
  qed
qed simp

text \<open>With padding the offset is set before every operand.\<close>

lemma operands_padded:
  assumes "\<forall>c \<in> set cs. visits E b c" and "isStructTy T" and "structHasPadding E T" and "off \<le> from"
  shows "map_sum id snd (processOperands E b T off i cs (from, s)) = rfold (initPointer E b) (operandPointers (envDL E) off T i cs) s"
  using assms(1,4)
proof (induction cs arbitrary: i "from" s)
  case (Cons c cs)
  have part: "partOffset (envDL E) T i = getElementOffset (envDL E) T i" using assms(2) by (cases T) simp_all
  have step: "processInitializer E b c (off + partOffset (envDL E) T i, s) =
      rbind (rfold (initPointer E b) (initPointers (envDL E) (off + partOffset (envDL E) T i) c) s)
        (\<lambda>s. Inr (off + partOffset (envDL E) T i + getTypeAllocSize (envDL E) (constType c), s))"
    using Cons.prems(1) by (intro visitsD) simp
  show ?case
  proof (cases "rfold (initPointer E b) (initPointers (envDL E) (off + partOffset (envDL E) T i) c) s")
    case (Inl e)
    then show ?thesis using step part assms(2,3) Cons.prems(2) by (simp add: rfold_append)
  next
    case (Inr s')
    then show ?thesis using step part assms(2,3) Cons.prems Cons.IH [of _ "i + 1" s'] by (simp add: rfold_append)
  qed
qed simp

lemma aggregate_visits:
  assumes "\<forall>c \<in> set cs. visits E b c" and "const_ok E (AggregateConst T cs)"
  shows "visits E b (AggregateConst T cs)"
  unfolding visits_def
proof (intro allI)
  fix off s
  let ?size = "getTypeAllocSize (envDL E)" and ?ps = "operandPointers (envDL E) off T 0 cs"
  have "rbind (processOperands E b T off 0 cs (off, s)) (\<lambda>(off', s). Inr (if isStructTy T then off + ?size T else off', s)) =
      rbind (rfold (initPointer E b) ?ps s) (\<lambda>s. Inr (off + ?size T, s))"
  proof (cases "isStructTy T \<and> structHasPadding E T")
    case True
    then have "rfold (initPointer E b) ?ps s = map_sum id snd (processOperands E b T off 0 cs (off, s))"
      using operands_padded [OF assms(1)] by simp
    then show ?thesis using True by (cases "processOperands E b T off 0 cs (off, s)") auto
  next
    case False
    have parts: "\<forall>k < length cs. partOffset (envDL E) T (0 + k) = 0 + sum_list (map (?size \<circ> constType) (take k cs))"
    proof (cases T)
      case (StructTy n ts)
      then have "map (?size \<circ> constType) (take k cs) = map ?size (take k ts)" "length ts = length cs" for k
        using assms(2) by (auto simp: take_map)
      then show ?thesis using StructTy assms(2) False by simp
    next
      case (ArrayTy n F)
      then have eq: "map (?size \<circ> constType) (take k cs) = map (\<lambda>_. ?size F) (take k cs)" for k
        using assms(2) by (auto dest: in_set_takeD)
      show ?thesis unfolding eq using ArrayTy by (simp add: sum_list_triv)
    qed (use assms(2) in auto)
    have whole: "isStructTy T \<or> sum_list (map (?size \<circ> constType) cs) = ?size T"
    proof (cases T)
      case (ArrayTy n F)
      then have eq: "map (?size \<circ> constType) cs = map (\<lambda>_. ?size F) cs" using assms(2) by auto
      show ?thesis unfolding eq using ArrayTy assms(2) by (simp add: sum_list_triv)
    qed (use assms(2) in auto)
    have "processOperands E b T off 0 cs (off + 0, s) =
        rbind (rfold (initPointer E b) ?ps s) (\<lambda>s. Inr (off + 0 + sum_list (map (?size \<circ> constType) cs), s))"
      by (rule operands_in_order [OF assms(1) False parts])
    then show ?thesis using whole by (cases "rfold (initPointer E b) ?ps s") auto
  qed
  then show "processInitializer E b (AggregateConst T cs) (off, s) =
      rbind (rfold (initPointer E b) (initPointers (envDL E) off (AggregateConst T cs)) s)
        (\<lambda>s. Inr (off + ?size (constType (AggregateConst T cs)), s))" by simp
qed

lemma const_visits: "const_ok E c \<Longrightarrow> visits E b c"
proof (induction c)
  case (ScalarConst T T' t)
  then show ?case
    by (auto simp: visits_def processScalarGlobals_def rbind_def split: sum.splits)
next
  case (AggregateConst T cs)
  then have "\<forall>c \<in> set cs. visits E b c" by simp
  then show ?case using AggregateConst.prems by (rule aggregate_visits)
qed (simp_all add: visits_def)

text \<open>
  C19. The walk over the initialiser of a global stores each pointer constant at its offset in the data layout, in the
  order of the constants, and nothing else: fields of structures at their element offsets, with or without
  padding, elements of arrays at multiples of the element size, at any depth; it ends at the end of the constant and fails
  only where storing one of these pointers does.
\<close>

theorem initializer_exact:
  assumes "const_ok E c"
  shows "processInitializer E b c (off, s) = rbind (rfold (initPointer E b) (initPointers (envDL E) off c) s)
    (\<lambda>s. Inr (off + getTypeAllocSize (envDL E) (constType c), s))"
  using const_visits [OF assms] by (rule visitsD)

lemma initializer_exact_witness:
  "processInitializer (demoEnv FSKind) 0 (AggregateConst (ArrayTy 2 demoPair)
      [AggregateConst demoPair [ScalarConst (IntTy 64) (IntTy 64) NoPointer, ScalarConst (PointerTy ''i8'') (PointerTy ''x'') (GlobalItself 40)],
       AggregateConst demoPair [NullOrUndef (IntTy 64), ScalarConst (PointerTy ''i8'') (PointerTy ''i8'') (GepTo 41 8)]]) (0, noMem, emptyGraph, []) =
   rbind (rfold (initPointer (demoEnv FSKind) 0) [(8, GlobalItself 40), (24, GepTo 41 8)] (noMem, emptyGraph, [])) (\<lambda>s. Inr (32, s))"
  (is "processInitializer ?E 0 ?c (0, ?s) = _")
proof -
  have off: "getElementOffset (envDL ?E) demoPair 0 = 0" "getElementOffset (envDL ?E) demoPair (Suc 0) = 8"
    "getTypeAllocSize (envDL ?E) demoPair = 16" using demo_sizes by simp_all
  have pair: "demoPair = StructTy ''pair'' [IntTy 64, PointerTy ''i8'']" by (rule demoPair_def)
  have fields: "\<forall>i < Suc (Suc 0). getElementOffset (envDL ?E) demoPair i =
      sum_list (map (getTypeAllocSize (envDL ?E)) (take i [IntTy 64, PointerTy ''i8'']))"
    using off by (auto simp: less_Suc_eq)
  have "getTypeAllocSize (envDL ?E) (ArrayTy 2 demoPair) = 32" by (simp add: size_t_def)
  moreover have "const_ok ?E ?c" using fields unfolding pair by (simp add: size_t_def roundUp_def)
  moreover have "initPointers (envDL ?E) 0 ?c = [(8, GlobalItself 40), (24, GepTo 41 8)]"
    using off unfolding pair by simp
  ultimately show ?thesis using initializer_exact [of ?E ?c 0 0 ?s] by simp
qed

end
