(* ===== verification/CallGraphs.thy ===== *)
theory CallGraphs
  imports CallContexts
begin

text \<open>
  The context-sensitive call graph of the pointer analysis (Graph/CallGraph.h, Program/CtxModule.h,
  Program/CtxFunction.h, Program/CallSite.h and CallSite.cpp of src/PointerAnalysis). A node is a
  function in a context, or an indirect call in the context of its caller; nodes are numbers, positions in
  the list of the graph. The module walks the bodies of new functions breadth first and tells its client of every new node and edge:
  the client's callbacks are template parameters in the code and a record here, over a state of the
  client's own. Contexts evolve by a function of the context trait, a template parameter as well.
\<close>

section \<open>Call sites\<close>

record pta_view =
  ptaModule :: llvm_module
  isInlineAsm :: "llvm_value \<Rightarrow> bool"
  isNullConstant :: "llvm_value \<Rightarrow> bool"
  ctxEvolve :: "ctx_ptr \<Rightarrow> llvm_value \<Rightarrow> ctx_ptr"

definition csIsIndirectCall :: "('x) pta_view_scheme \<Rightarrow> llvm_value \<Rightarrow> bool" where
  "csIsIndirectCall V I =
     (let M = ptaModule V; v = getCalledOperand M I in
      if classOf M (stripPointerCasts M v) = FunctionV then False
      else if isIndirectCall M I then True
      else isNullConstant V v)"

definition csResolveTarget :: "llvm_module \<Rightarrow> llvm_value \<Rightarrow> llvm_value option result" where
  "csResolveTarget M calledValue =
     (let op0 = getOperand M calledValue 0; symbol = stripPointerCasts M (getIndirectSymbol M calledValue) in
      if classOf M calledValue = BitCastOperator \<and> classOf M op0 = FunctionV then Inr (Some op0)
      else if classOf M calledValue = GlobalAlias then
        (if classOf M symbol = FunctionV then Inr (Some symbol) else Inl Unreachable)
      else if classOf M calledValue = UndefValue then Inr None
      else Inl Unreachable)"

definition csCalledFunction :: "'x pta_view_scheme \<Rightarrow> llvm_value \<Rightarrow> llvm_value option result" where
  "csCalledFunction V I =
     (if csIsIndirectCall V I then Inr None
      else case getCalledFunction (ptaModule V) I of
          Some f \<Rightarrow> Inr (Some f)
        | None \<Rightarrow> csResolveTarget (ptaModule V) (getCalledOperand (ptaModule V) I))"

section \<open>The graph\<close>

text \<open>
  A direct node is a function and whether it is external; an indirect one has the function pointer
  if the client gave one, the functions it was resolved to and their nodes.
\<close>

datatype call_target =
    DirectFun llvm_value bool
  | IndirectSite "llvm_value option" "llvm_value list" "nat list"

record call_node =
  cnCtx :: ctx_ptr
  cnSite :: "llvm_value option"
  cnTarget :: call_target
  cnSucc :: "(llvm_value \<times> nat) list"
  cnPred :: "(llvm_value \<times> nat) list"

record ctx_module =
  callNodes :: "call_node list"
  ctxFunMap :: "((ctx_ptr \<times> llvm_value) \<times> nat) list"
  ctxFunPtrMap :: "((ctx_ptr \<times> llvm_value) \<times> nat) list"

definition newCtxModule :: ctx_module where
  "newCtxModule = \<lparr> callNodes = [], ctxFunMap = [], ctxFunPtrMap = [] \<rparr>"

definition isIndirectNode :: "call_node \<Rightarrow> bool" where
  "isIndirectNode n = (case cnTarget n of DirectFun f ext \<Rightarrow> False | IndirectSite v ts rs \<Rightarrow> True)"

text \<open>The target of a node is asked by its kind; the value called indirectly may come from the client.\<close>

definition getTargetFun :: "call_node \<Rightarrow> (llvm_value \<times> bool) result" where
  "getTargetFun n = (case cnTarget n of DirectFun f ext \<Rightarrow> Inr (f, ext) | IndirectSite v ts rs \<Rightarrow> Inl AssertFailed)"

definition isInterceptedCallSite :: "call_node \<Rightarrow> bool result" where
  "isInterceptedCallSite n = (case cnTarget n of DirectFun f ext \<Rightarrow> Inl AssertFailed | IndirectSite v ts rs \<Rightarrow> Inr (v \<noteq> None))"

definition getIndirectValue :: "llvm_module \<Rightarrow> call_node \<Rightarrow> llvm_value result" where
  "getIndirectValue M n =
     (case cnTarget n of
        DirectFun f ext \<Rightarrow> Inl AssertFailed
      | IndirectSite (Some v) ts rs \<Rightarrow> Inr v
      | IndirectSite None ts rs \<Rightarrow> (case cnSite n of None \<Rightarrow> Inl NullDeref | Some I \<Rightarrow> Inr (getCalledOperand M I)))"

definition updCall :: "nat \<Rightarrow> (call_node \<Rightarrow> call_node) \<Rightarrow> ctx_module \<Rightarrow> ctx_module" where
  "updCall i f cm = cm\<lparr> callNodes := (callNodes cm)[i := f (callNodes cm ! i)] \<rparr>"

definition addCallNode :: "ctx_ptr \<Rightarrow> llvm_value option \<Rightarrow> call_target \<Rightarrow> ctx_module \<Rightarrow> nat \<times> ctx_module" where
  "addCallNode C I t cm = (length (callNodes cm),
     cm\<lparr> callNodes := callNodes cm @ [\<lparr> cnCtx = C, cnSite = I, cnTarget = t, cnSucc = [], cnPred = [] \<rparr>] \<rparr>)"

definition createCallNode :: "ctx_ptr \<Rightarrow> llvm_value \<Rightarrow> llvm_value option \<Rightarrow> ctx_module \<Rightarrow> nat \<times> ctx_module" where
  "createCallNode C F I = addCallNode C I (DirectFun F False)"

definition createIndCallNode :: "ctx_ptr \<Rightarrow> llvm_value option \<Rightarrow> llvm_value \<Rightarrow> ctx_module \<Rightarrow> nat \<times> ctx_module" where
  "createIndCallNode C v I = addCallNode C (Some I) (IndirectSite v [] [])"

text \<open>An edge is stored at both ends; the answer says whether it is new.\<close>

definition insertCallEdge :: "nat \<Rightarrow> nat \<Rightarrow> llvm_value \<Rightarrow> ctx_module \<Rightarrow> (bool \<times> ctx_module) result" where
  "insertCallEdge src dst I cm =
     (let b1 = (I, dst) \<notin> set (cnSucc (callNodes cm ! src));
          cm = updCall src (\<lambda>n. n\<lparr> cnSucc := List.insert (I, dst) (cnSucc n) \<rparr>) cm;
          b2 = (I, src) \<notin> set (cnPred (callNodes cm ! dst));
          cm = updCall dst (\<lambda>n. n\<lparr> cnPred := List.insert (I, src) (cnPred n) \<rparr>) cm in
      rassert (b1 = b2) AssertFailed (Inr (b1, cm)))"

definition markAsExtFunction :: "nat \<Rightarrow> ctx_module \<Rightarrow> ctx_module" where
  "markAsExtFunction i = updCall i (\<lambda>n. n\<lparr> cnTarget :=
     (case cnTarget n of DirectFun f ext \<Rightarrow> DirectFun f True | t \<Rightarrow> t) \<rparr>)"

definition resolvedTo :: "nat \<Rightarrow> nat \<Rightarrow> llvm_value \<Rightarrow> bool \<Rightarrow> ctx_module \<Rightarrow> (bool \<times> ctx_module) result" where
  "resolvedTo maxTargets i fun applyLimit cm =
     (case cnTarget (callNodes cm ! i) of
        DirectFun f ext \<Rightarrow> Inl AssertFailed
      | IndirectSite v targets rs \<Rightarrow>
          if applyLimit \<and> maxTargets \<le> length targets then Inr (False, cm)
          else Inr (fun \<notin> set targets,
            updCall i (\<lambda>n. n\<lparr> cnTarget := IndirectSite v (List.insert fun targets) rs \<rparr>) cm))"

definition resolvedToNode :: "nat \<Rightarrow> nat \<Rightarrow> ctx_module \<Rightarrow> ctx_module result" where
  "resolvedToNode i node cm =
     (case cnTarget (callNodes cm ! i) of
        DirectFun f ext \<Rightarrow> Inl AssertFailed
      | IndirectSite v targets rs \<Rightarrow> rassert (node \<notin> set rs) AssertFailed
          (Inr (updCall i (\<lambda>n. n\<lparr> cnTarget := IndirectSite v targets (List.insert node rs) \<rparr>) cm)))"

section \<open>The client\<close>

text \<open>
  The client may redirect a function or ignore it before its node is made; it says of a new
  direct node whether its body is to be walked; it learns of new indirect nodes and of edges, with the
  function the call names.
\<close>

record 's callbacks =
  beforeNewNode :: "ctx_ptr \<Rightarrow> ctx_ptr \<Rightarrow> llvm_value \<Rightarrow> llvm_value option \<Rightarrow> 's \<Rightarrow>
    ((llvm_value option \<times> intercept_option) \<times> 's) result"
  onNewDirect :: "call_node \<Rightarrow> nat \<Rightarrow> 's \<Rightarrow> (bool \<times> 's) result"
  onNewInDirect :: "call_node \<Rightarrow> nat \<Rightarrow> 's \<Rightarrow> 's result"
  onNewEdge :: "call_node \<Rightarrow> call_node \<Rightarrow> llvm_value option \<Rightarrow> llvm_value \<Rightarrow> 's \<Rightarrow> 's result"

section \<open>Walking the calls\<close>

definition getOrCreateInDirectCallNode ::
  "'s callbacks \<Rightarrow> ctx_ptr \<Rightarrow> llvm_value \<Rightarrow> llvm_value option \<Rightarrow> ctx_module \<times> 's \<Rightarrow> ((nat \<times> bool) \<times> ctx_module \<times> 's) result" where
  "getOrCreateInDirectCallNode cb C I target = (\<lambda>(cm, s).
     (case map_of (ctxFunPtrMap cm) (C, I) of
        Some i \<Rightarrow> Inr ((i, False), cm, s)
      | None \<Rightarrow>
          let (i, cm) = createIndCallNode C target I cm; cm = cm\<lparr> ctxFunPtrMap := ((C, I), i) # ctxFunPtrMap cm \<rparr> in
          rbind (onNewInDirect cb (callNodes cm ! i) i s) (\<lambda>s. Inr ((i, True), cm, s))))"

definition newDirectNode :: "ctx_ptr \<Rightarrow> llvm_value \<Rightarrow> llvm_value option \<Rightarrow> ctx_module \<Rightarrow> nat \<times> ctx_module" where
  "newDirectNode C F I cm =
     (let (i, cm) = createCallNode C F I cm in (i, cm\<lparr> ctxFunMap := ((C, F), i) # ctxFunMap cm \<rparr>))"

definition createEntryNode ::
  "'x pta_view_scheme \<Rightarrow> string \<Rightarrow> 's callbacks \<Rightarrow> ctx_ptr \<Rightarrow> llvm_value \<Rightarrow> ctx_module \<times> 's \<Rightarrow> (nat \<times> ctx_module \<times> 's) result" where
  "createEntryNode V entryName cb C F = (\<lambda>(cm, s).
     rassert (getName (ptaModule V) F = entryName) AssertFailed
     (rassert (ctxFunMap cm = []) AssertFailed
      (let (i, cm) = newDirectNode C F None cm in
       rbind (onNewDirect cb (callNodes cm ! i) i s) (\<lambda>(needToExpand, s).
       rassert needToExpand AssertFailed
       (rbind (beforeNewNode cb InitCtx InitCtx F None s) (\<lambda>(_, s). Inr (i, cm, s)))))))"

definition getOrCreateCallNode ::
  "'x pta_view_scheme \<Rightarrow> 's callbacks \<Rightarrow> ctx_ptr \<Rightarrow> ctx_ptr \<Rightarrow> llvm_value \<Rightarrow> llvm_value \<Rightarrow> ctx_module \<times> 's \<Rightarrow>
     ((nat option \<times> bool) \<times> ctx_module \<times> 's) result" where
  "getOrCreateCallNode V cb curCtx preCtx F I = (\<lambda>(cm, s).
     rbind (beforeNewNode cb curCtx preCtx F (Some I) s) (\<lambda>((redirectTo, option), s).
     if option = IGNORE_FUN then Inr ((None, False), cm, s)
     else case redirectTo of
         None \<Rightarrow> Inl AssertFailed
       | Some F \<Rightarrow>
           if classOf (ptaModule V) F = FunctionV then
             (case map_of (ctxFunMap cm) (curCtx, F) of
                Some i \<Rightarrow> Inr ((Some i, False), cm, s)
              | None \<Rightarrow>
                  let (i, cm) = newDirectNode curCtx F (Some I) cm in
                  rbind (if option = EXPAND_BODY then onNewDirect cb (callNodes cm ! i) i s else Inr (False, s)) (\<lambda>(needToExpand, s).
                    Inr ((Some i, needToExpand), (if needToExpand then cm else markAsExtFunction i cm), s)))
           else
             rassert (isPointerTy (ptaModule V) F) AssertFailed
             (rbind (getOrCreateInDirectCallNode cb preCtx I (Some F) (cm, s)) (\<lambda>((i, _), st). Inr ((Some i, False), st)))))"

definition createEdge ::
  "'s callbacks \<Rightarrow> nat \<Rightarrow> nat option \<Rightarrow> llvm_value option \<Rightarrow> llvm_value \<Rightarrow> ctx_module \<times> 's \<Rightarrow> (ctx_module \<times> 's) result" where
  "createEdge cb src dst originalTarget I = (\<lambda>(cm, s).
     (case dst of
        None \<Rightarrow> Inr (cm, s)
      | Some d \<Rightarrow>
          rbind (insertCallEdge src d I cm) (\<lambda>(_, cm).
          rbind (onNewEdge cb (callNodes cm ! src) (callNodes cm ! d) originalTarget I s) (\<lambda>s. Inr (cm, s)))))"

text \<open>One instruction of the body of a node; the queue gets the new functions.\<close>

definition visitCallInst ::
  "'x pta_view_scheme \<Rightarrow> 's callbacks \<Rightarrow> nat \<Rightarrow> ctx_ptr \<Rightarrow> llvm_value \<Rightarrow> nat list \<times> ctx_module \<times> 's \<Rightarrow> (nat list \<times> ctx_module \<times> 's) result" where
  "visitCallInst V cb node context I = (\<lambda>(queue, st).
     if \<not> isCallBase (ptaModule V) I then Inr (queue, st)
     else if csIsIndirectCall V I then
       rbind (getOrCreateInDirectCallNode cb context I None st) (\<lambda>((target, _), st).
       rbind (createEdge cb node (Some target) None I st) (\<lambda>st. Inr (queue, st)))
     else if isInlineAsm V I then Inr (queue, st)
     else
       rbind (csCalledFunction V I) (\<lambda>fun.
       case fun of
         None \<Rightarrow> Inl AssertFailed
       | Some F \<Rightarrow>
           rbind (getOrCreateCallNode V cb (ctxEvolve V context I) context F I st) (\<lambda>((target, needToHandle), st).
           rbind (if needToHandle then (case target of None \<Rightarrow> Inl AssertFailed | Some t \<Rightarrow> Inr (queue @ [t])) else Inr queue) (\<lambda>queue.
           rbind (createEdge cb node target (Some F) I st) (\<lambda>st. Inr (queue, st))))))"

definition bodyOf :: "'x pta_view_scheme \<Rightarrow> llvm_value \<Rightarrow> llvm_value list" where
  "bodyOf V F = concat (map (getInstList (ptaModule V)) (getBasicBlockList (ptaModule V) F))"

definition visitCallNode ::
  "'x pta_view_scheme \<Rightarrow> 's callbacks \<Rightarrow> nat \<Rightarrow> nat list \<times> ctx_module \<times> 's \<Rightarrow> (nat list \<times> ctx_module \<times> 's) result" where
  "visitCallNode V cb node = (\<lambda>(queue, cm, s).
     (case cnTarget (callNodes cm ! node) of
        IndirectSite v ts rs \<Rightarrow> Inr (queue, cm, s)
      | DirectFun F ext \<Rightarrow> rfold (visitCallInst V cb node (cnCtx (callNodes cm ! node))) (bodyOf V F) (queue, cm, s)))"

fun expandLoop :: "nat \<Rightarrow> 'x pta_view_scheme \<Rightarrow> 's callbacks \<Rightarrow> nat list \<times> ctx_module \<times> 's \<Rightarrow> (ctx_module \<times> 's) result" where
  "expandLoop fuel V cb ([], st) = Inr st"
| "expandLoop 0 V cb (n # queue, st) = Inl Diverges"
| "expandLoop (Suc fuel) V cb (n # queue, st) = rbind (visitCallNode V cb n (queue, st)) (expandLoop fuel V cb)"

definition expandFromNode :: "nat \<Rightarrow> 'x pta_view_scheme \<Rightarrow> 's callbacks \<Rightarrow> nat \<Rightarrow> ctx_module \<times> 's \<Rightarrow> (ctx_module \<times> 's) result" where
  "expandFromNode fuel V cb root st = expandLoop fuel V cb ([root], st)"

text \<open>No result means that the program ends because it finds no entry function.\<close>

definition buildInitCallGraph ::
  "nat \<Rightarrow> 'x pta_view_scheme \<Rightarrow> string \<Rightarrow> 's callbacks \<Rightarrow> ctx_module \<times> 's \<Rightarrow> (ctx_module \<times> 's) option result" where
  "buildInitCallGraph fuel V entryName cb = (\<lambda>(cm, s).
     rassert (ctxFunMap cm = [] \<and> ctxFunPtrMap cm = []) AssertFailed
     (case find (\<lambda>f. getName (ptaModule V) f = entryName) (getFunctionList (ptaModule V)) of
        None \<Rightarrow> Inr None
      | Some entryFun \<Rightarrow>
          if isDeclaration (ptaModule V) entryFun then Inr None
          else
            rbind (createEntryNode V entryName cb InitCtx entryFun (cm, s)) (\<lambda>(entryNode, st).
            rbind (expandFromNode fuel V cb entryNode st) (\<lambda>st. Inr (Some st)))))"

text \<open>An indirect call gets a target: the call graph grows from there.\<close>

definition resolveCallTo ::
  "nat \<Rightarrow> 'x pta_view_scheme \<Rightarrow> 's callbacks \<Rightarrow> nat \<Rightarrow> llvm_value \<Rightarrow> ctx_module \<times> 's \<Rightarrow> (ctx_module \<times> 's) result" where
  "resolveCallTo fuel V cb resolvedNode target = (\<lambda>(cm, s).
     (case cnPred (callNodes cm ! resolvedNode) of
        [(callInst, caller)] \<Rightarrow>
          let callerCtx = cnCtx (callNodes cm ! caller) in
          rbind (getOrCreateCallNode V cb (ctxEvolve V callerCtx callInst) callerCtx target callInst (cm, s)) (\<lambda>((node, new), st).
          case node of
            None \<Rightarrow> Inr st
          | Some n \<Rightarrow>
              rbind (createEdge cb caller (Some n) (Some target) callInst st) (\<lambda>(cm, s).
              if isIndirectNode (callNodes cm ! n) then Inr (cm, s)
              else
                rbind (resolvedToNode resolvedNode n cm) (\<lambda>cm.
                if new then expandFromNode fuel V cb n (cm, s) else Inr (cm, s))))
      | _ \<Rightarrow> Inl AssertFailed))"

definition getDirectNode :: "ctx_ptr \<Rightarrow> llvm_value \<Rightarrow> ctx_module \<Rightarrow> nat result" where
  "getDirectNode C F cm = (case map_of (ctxFunMap cm) (C, F) of None \<Rightarrow> Inl AssertFailed | Some i \<Rightarrow> Inr i)"

definition getDirectNodeOrNull :: "ctx_ptr \<Rightarrow> llvm_value \<Rightarrow> ctx_module \<Rightarrow> nat option" where
  "getDirectNodeOrNull C F cm = map_of (ctxFunMap cm) (C, F)"

definition getInDirectNode :: "ctx_ptr \<Rightarrow> llvm_value \<Rightarrow> ctx_module \<Rightarrow> nat option" where
  "getInDirectNode C I cm = map_of (ctxFunPtrMap cm) (C, I)"

end
