(* ===== verification/Canonical.thy ===== *)
theory Canonical
  imports CallGraphs MemAlloc
begin

text \<open>
  Canonical values (Models/MemoryModel/Canonicalizer.cpp of src/PointerAnalysis): pointers that
  differ by casts only share one node of the constraint graph, and every null, undefined or forged pointer
  is one of two special values. What LLVM says of a value is a parameter, as is its own
  \<open>stripPointerCastsAndInvariantGroups\<close>.
\<close>

section \<open>Questions about values\<close>

text \<open>\<open>Operator::getOpcode\<close>: instructions and constant expressions alike.\<close>

datatype operator_code = OpGEP | OpBitCast | OpAddrSpaceCast | OpIntToPtr | OpPtrToInt | OtherOp

datatype intrinsic_id =
    NotIntrinsic | DbgDeclare | DbgValue | DbgLabel | MemCpy | MemMove | MemSet | VAStart | VAEnd | VACopy
  | LaunderInvariantGroup | StripInvariantGroup | OtherIntrinsic

record value_view = pta_view +
  memEnv :: mem_env
  operatorOf :: "llvm_value \<Rightarrow> operator_code"
  isInstruction :: "llvm_value \<Rightarrow> bool"
  isGlobalValue :: "llvm_value \<Rightarrow> bool"
  stripCastsAndGroups :: "llvm_value \<Rightarrow> llvm_value"
  getAliasee :: "llvm_value \<Rightarrow> llvm_value"
  getNumIndices :: "llvm_value \<Rightarrow> nat"
  hasAllConstantIndices :: "llvm_value \<Rightarrow> bool"
  isNegative :: "llvm_value \<Rightarrow> bool"
  getReturnedArgOperand :: "llvm_value \<Rightarrow> llvm_value option"
  intrinsicID :: "llvm_value \<Rightarrow> intrinsic_id"
  valueFuel :: nat

definition callIntrinsicID :: "'x value_view_scheme \<Rightarrow> llvm_value \<Rightarrow> intrinsic_id" where
  "callIntrinsicID V I = (case getCalledFunction (ptaModule V) I of Some F \<Rightarrow> intrinsicID V F | None \<Rightarrow> NotIntrinsic)"

section \<open>The canonicalizers\<close>

definition stripNullOrUnDef :: "'x value_view_scheme \<Rightarrow> llvm_value \<Rightarrow> llvm_value" where
  "stripNullOrUnDef V v =
     (let v = if classOf (ptaModule V) v = UndefValue then undefValue (memEnv V) else v;
          v = if isNullConstant V v then nullValue (memEnv V) else v in
      if operatorOf V v = OpIntToPtr then
        let op = getOperand (ptaModule V) v 0 in
        if operatorOf V op = OpPtrToInt then getOperand (ptaModule V) op 0 else undefValue (memEnv V)
      else v)"

text \<open>One step of the field-insensitive strip: a value and whether its type is asserted, or nothing at the end.\<close>

definition stripStepFI :: "'x value_view_scheme \<Rightarrow> llvm_value \<Rightarrow> (llvm_value \<times> bool) option" where
  "stripStepFI V v =
     (let M = ptaModule V in
      if operatorOf V v = OpGEP then Some (getPointerOperand M v, True)
      else if operatorOf V v = OpBitCast \<or> operatorOf V v = OpAddrSpaceCast then Some (getOperand M v 0, True)
      else if classOf M v = GlobalAlias then Some (getAliasee V v, True)
      else if isCallBase M v then
        (case getReturnedArgOperand V v of
           Some r \<Rightarrow> Some (r, False)
         | None \<Rightarrow>
             if callIntrinsicID V v = LaunderInvariantGroup \<or> callIntrinsicID V v = StripInvariantGroup
             then Some (getArgOperand M v 0, False) else None)
      else None)"

fun stripOffsetsFI :: "nat \<Rightarrow> 'x value_view_scheme \<Rightarrow> llvm_value set \<Rightarrow> llvm_value \<Rightarrow> llvm_value result" where
  "stripOffsetsFI 0 V visited v = Inl Diverges"
| "stripOffsetsFI (Suc fuel) V visited v =
     (case stripStepFI V v of
        None \<Rightarrow> Inr v
      | Some (w, typed) \<Rightarrow>
          rassert (typed \<longrightarrow> isPointerTy (ptaModule V) w) AssertFailed
          (if w \<in> visited then Inr w else stripOffsetsFI fuel V (insert w visited) w))"

definition canonicalizeFI :: "nat \<Rightarrow> 'x value_view_scheme \<Rightarrow> llvm_value \<Rightarrow> llvm_value result" where
  "canonicalizeFI fuel V v =
     (if \<not> isPointerTy (ptaModule V) v then Inr v
      else rbind (stripOffsetsFI fuel V {v} v) (\<lambda>v. Inr (stripNullOrUnDef V v)))"

text \<open>A \<open>getelementptr\<close> instruction with one negative constant index stands for its base.\<close>

definition negativeGep :: "'x value_view_scheme \<Rightarrow> llvm_value \<Rightarrow> bool" where
  "negativeGep V v \<longleftrightarrow> (let M = ptaModule V in
     operatorOf V v = OpGEP \<and> isInstruction V v \<and> getNumIndices V v = 1 \<and> hasAllConstantIndices V v \<and>
     classOf M (getOperand M v 1) = ConstantInt \<and> isNegative V (getOperand M v 1))"

fun canonicalizeFS :: "nat \<Rightarrow> 'x value_view_scheme \<Rightarrow> llvm_value \<Rightarrow> llvm_value result"
and canonicalLoop :: "nat \<Rightarrow> 'x value_view_scheme \<Rightarrow> llvm_value \<Rightarrow> llvm_value result" where
  "canonicalizeFS fuel V v =
     (if useFIMode (envOpts (memEnv V)) then canonicalizeFI fuel V v
      else if \<not> isPointerTy (ptaModule V) v then Inr v
      else canonicalLoop fuel V v)"
| "canonicalLoop 0 V v = Inl Diverges"
| "canonicalLoop (Suc fuel) V v =
     (let v = stripCastsAndGroups V v in
      rbind (if negativeGep V v then canonicalizeFS fuel V (getOperand (ptaModule V) v 0) else Inr v) (\<lambda>v.
      let v = if classOf (ptaModule V) v = GlobalAlias then getAliasee V v else v;
          tmp = stripNullOrUnDef V v in
      if v \<noteq> tmp then canonicalLoop fuel V tmp else Inr v))"

definition canonicalize :: "'x value_view_scheme \<Rightarrow> llvm_value \<Rightarrow> llvm_value result" where
  "canonicalize V v = canonicalizeFS (valueFuel V) V v"

end
