(* ===== verification/CanonicalOk.thy ===== *)
theory CanonicalOk
  imports Canonical MemProps
begin

text \<open>
  Canonical pointers: on values whose casts and aliases are well founded the canonicalizer ends, casts of a pointer have the
  same result, and results are stable except where the loop stopped at what an alias names.
\<close>

section \<open>Well-founded values\<close>

definition canonical_form :: "'x value_view_scheme \<Rightarrow> llvm_value \<Rightarrow> bool" where
  "canonical_form V w \<longleftrightarrow> stripCastsAndGroups V w = w \<and> \<not> negativeGep V w \<and> classOf (ptaModule V) w \<noteq> GlobalAlias \<and>
     stripNullOrUnDef V w = w"

text \<open>
  Every step to another value goes down a rank below the fuel, and LLVM's own strip reaches a value it does not strip
  further.
\<close>

definition value_rank :: "'x value_view_scheme \<Rightarrow> (llvm_value \<Rightarrow> nat) \<Rightarrow> bool" where
  "value_rank V r \<longleftrightarrow> \<not> useFIMode (envOpts (memEnv V)) \<and> (\<forall>v. r v < valueFuel V \<and>
     r (stripCastsAndGroups V v) \<le> r v \<and> stripCastsAndGroups V (stripCastsAndGroups V v) = stripCastsAndGroups V v \<and>
     (negativeGep V v \<longrightarrow> r (getOperand (ptaModule V) v 0) < r v \<and> isPointerTy (ptaModule V) (getOperand (ptaModule V) v 0)) \<and>
     (classOf (ptaModule V) v = GlobalAlias \<longrightarrow> r (getAliasee V v) < r v) \<and>
     (stripNullOrUnDef V v \<noteq> v \<longrightarrow> r (stripNullOrUnDef V v) < r v))"

lemma value_rankD:
  assumes "value_rank V r"
  shows "\<not> useFIMode (envOpts (memEnv V))" "r v < valueFuel V" "r (stripCastsAndGroups V v) \<le> r v"
    "stripCastsAndGroups V (stripCastsAndGroups V v) = stripCastsAndGroups V v"
    "negativeGep V v \<Longrightarrow> r (getOperand (ptaModule V) v 0) < r v"
    "negativeGep V v \<Longrightarrow> isPointerTy (ptaModule V) (getOperand (ptaModule V) v 0)"
    "classOf (ptaModule V) v = GlobalAlias \<Longrightarrow> r (getAliasee V v) < r v"
    "stripNullOrUnDef V v \<noteq> v \<Longrightarrow> r (stripNullOrUnDef V v) < r v"
  using assms unfolding value_rank_def by blast+

text \<open>
  The loop looks at an aliasee for null and forged pointers only; it is canonical if every alias names a value that is
  neither stripped nor an alias nor a negative step.
\<close>

definition aliasee :: "'x value_view_scheme \<Rightarrow> llvm_value \<Rightarrow> bool" where
  "aliasee V w \<longleftrightarrow> stripNullOrUnDef V w = w \<and> (\<exists>a. classOf (ptaModule V) a = GlobalAlias \<and> getAliasee V a = w)"

definition plain_aliases :: "'x value_view_scheme \<Rightarrow> bool" where
  "plain_aliases V \<longleftrightarrow> (\<forall>a. classOf (ptaModule V) a = GlobalAlias \<longrightarrow> stripCastsAndGroups V (getAliasee V a) = getAliasee V a \<and>
     classOf (ptaModule V) (getAliasee V a) \<noteq> GlobalAlias \<and> \<not> negativeGep V (getAliasee V a))"

lemma plain_aliasee: "plain_aliases V \<Longrightarrow> canonical_form V w \<or> aliasee V w \<Longrightarrow> canonical_form V w"
  by (auto simp: plain_aliases_def aliasee_def canonical_form_def)

section \<open>The loop\<close>

lemma loop_form:
  assumes "canonical_form V w"
  shows "canonicalLoop (Suc fuel) V w = Inr w"
  using assms by (simp add: canonical_form_def Let_def)

lemma loop_strip:
  assumes "value_rank V r"
  shows "canonicalLoop fuel V (stripCastsAndGroups V v) = canonicalLoop fuel V v"
  using value_rankD(4) [OF assms] by (cases fuel) simp_all

text \<open>The end of an iteration: an alias is followed once, and the loop goes on only from a null or forged pointer.\<close>

definition loopTail :: "nat \<Rightarrow> 'x value_view_scheme \<Rightarrow> llvm_value \<Rightarrow> llvm_value result" where
  "loopTail fuel V v =
     (let v = if classOf (ptaModule V) v = GlobalAlias then getAliasee V v else v in
      if v \<noteq> stripNullOrUnDef V v then canonicalLoop fuel V (stripNullOrUnDef V v) else Inr v)"

lemma tail_ok:
  assumes rank: "value_rank V r"
    and down: "\<And>u. r u < r v \<Longrightarrow> \<exists>w. canonicalLoop fuel V u = Inr w \<and> r w \<le> r u \<and> (canonical_form V w \<or> aliasee V w)"
    and v: "classOf (ptaModule V) v \<noteq> GlobalAlias \<Longrightarrow> stripNullOrUnDef V v = v \<Longrightarrow> canonical_form V v \<or> aliasee V v"
  shows "\<exists>w. loopTail fuel V v = Inr w \<and> r w \<le> r v \<and> (canonical_form V w \<or> aliasee V w)"
proof -
  note R = value_rankD [OF rank]
  define v3 where "v3 = (if classOf (ptaModule V) v = GlobalAlias then getAliasee V v else v)"
  have r3: "r v3 \<le> r v" using R(7) by (auto simp: v3_def less_imp_le)
  show ?thesis
  proof (cases "stripNullOrUnDef V v3 = v3")
    case True
    then have "canonical_form V v3 \<or> aliasee V v3" using v by (auto simp: v3_def aliasee_def split: if_splits)
    then show ?thesis using True r3 by (simp add: loopTail_def v3_def [symmetric])
  next
    case False
    then have lt: "r (stripNullOrUnDef V v3) < r v" using R(8) r3 by fastforce
    from down [OF this] obtain w where w: "canonicalLoop fuel V (stripNullOrUnDef V v3) = Inr w" "r w \<le> r (stripNullOrUnDef V v3)"
      "canonical_form V w \<or> aliasee V w" by blast
    have "loopTail fuel V v = Inr w" using False w(1) by (simp add: loopTail_def v3_def [symmetric])
    moreover have "r w \<le> r v" using w(2) lt by simp
    ultimately show ?thesis using w(3) by blast
  qed
qed

lemma loop_step:
  "canonicalLoop (Suc fuel) V v = rbind (if negativeGep V (stripCastsAndGroups V v)
     then canonicalizeFS fuel V (getOperand (ptaModule V) (stripCastsAndGroups V v) 0) else Inr (stripCastsAndGroups V v)) (loopTail fuel V)"
proof -
  have "loopTail fuel V = (\<lambda>v. let v = if classOf (ptaModule V) v = GlobalAlias then getAliasee V v else v; tmp = stripNullOrUnDef V v in
      if v \<noteq> tmp then canonicalLoop fuel V tmp else Inr v)" by (simp add: fun_eq_iff loopTail_def Let_def)
  then show ?thesis unfolding canonicalLoop.simps(2) Let_def by (simp only:)
qed

lemma loop_returns:
  assumes rank: "value_rank V r"
  shows "r v < fuel \<Longrightarrow> \<exists>w. canonicalLoop fuel V v = Inr w \<and> r w \<le> r v \<and> (canonical_form V w \<or> aliasee V w)"
proof (induction fuel arbitrary: v)
  case (Suc fuel)
  note R = value_rankD [OF rank]
  let ?v1 = "stripCastsAndGroups V v" and ?M = "ptaModule V"
  have r1: "r ?v1 \<le> r v" "r ?v1 < Suc fuel" using R(3) [of v] Suc.prems by simp_all
  have down: "\<exists>w. canonicalLoop fuel V u = Inr w \<and> r w \<le> r u \<and> (canonical_form V w \<or> aliasee V w)" if "r u < r ?v1" for u
    using Suc.IH [of u] that r1 by simp
  show ?case
  proof (cases "negativeGep V ?v1")
    case True
    let ?op = "getOperand ?M ?v1 0"
    have op: "r ?op < r ?v1" by (rule R(5) [OF True])
    from down [OF op] obtain w0 where w0: "canonicalLoop fuel V ?op = Inr w0" "r w0 \<le> r ?op" "canonical_form V w0 \<or> aliasee V w0" by blast
    have "canonicalizeFS fuel V ?op = Inr w0" using w0(1) R(1) R(6) [OF True] by simp
    then have "canonicalLoop (Suc fuel) V v = loopTail fuel V w0" using True by (simp only: loop_step if_True rbind_Inr)
    moreover have "\<exists>w. loopTail fuel V w0 = Inr w \<and> r w \<le> r w0 \<and> (canonical_form V w \<or> aliasee V w)"
    proof (rule tail_ok [OF rank])
      show "\<exists>w. canonicalLoop fuel V u = Inr w \<and> r w \<le> r u \<and> (canonical_form V w \<or> aliasee V w)" if "r u < r w0" for u
        using down that w0(2) op by simp
    qed (use w0(3) in blast)
    ultimately show ?thesis using w0(2) op r1(1) by (metis le_trans less_imp_le)
  next
    case False
    have "canonicalLoop (Suc fuel) V v = loopTail fuel V ?v1" using False by (simp only: loop_step if_False rbind_Inr)
    moreover have "\<exists>w. loopTail fuel V ?v1 = Inr w \<and> r w \<le> r ?v1 \<and> (canonical_form V w \<or> aliasee V w)"
      using tail_ok [OF rank, of ?v1, OF down] False R(4) by (auto simp: canonical_form_def)
    ultimately show ?thesis using r1(1) by (metis le_trans)
  qed
qed simp

lemma loop_ok:
  assumes "value_rank V r" and "plain_aliases V" and "r v < fuel"
  shows "\<exists>w. canonicalLoop fuel V v = Inr w \<and> canonical_form V w"
  using loop_returns [OF assms(1,3)] plain_aliasee [OF assms(2)] by blast

lemma canonicalize_loop:
  assumes "value_rank V r"
  shows "canonicalize V v = (if isPointerTy (ptaModule V) v then canonicalLoop (valueFuel V) V v else Inr v)"
  using value_rankD(1) [OF assms] by (simp add: canonicalize_def)

lemma canonical_self:
  assumes "value_rank V r" and "canonical_form V w"
  shows "canonicalize V w = Inr w"
proof -
  have "0 < valueFuel V" using value_rankD(2) [OF assms(1), of w] by simp
  then obtain fuel where "valueFuel V = Suc fuel" by (cases "valueFuel V") auto
  then show ?thesis using loop_form [OF assms(2)] canonicalize_loop [OF assms(1)] by simp
qed


subsection \<open>Witness\<close>

text \<open>
  A program of two functions: \<open>main\<close> takes the address of a field of a structure on its stack, passes the structure
  through a cast to a function that returns its argument, stores what it gets in the field and loads it again.
\<close>

definition demoProgram :: llvm_module where
  "demoProgram = empty_module\<lparr>
     classOf := (\<lambda>v. if v = 1 then UndefValue else if v \<in> {2, 3} then FunctionV else if v = 5 then GlobalVariable
       else if v = 13 then CallInst else OtherValue),
     getName := (\<lambda>v. if v = 2 then ''main'' else if v = 3 then ''f'' else ''g''),
     isPointerTy := (\<lambda>v. v \<in> {0, 1, 2, 3, 5, 10, 11, 12, 13, 15, 20}),
     getOperand := (\<lambda>v i. if v = 12 then 10 else if v = 14 then 13 else if v = 21 then 20 else v),
     getPointerOperand := (\<lambda>v. if v = 11 then 10 else if v \<in> {14, 15} then 11 else v),
     getCalledFunction := (\<lambda>v. if v = 13 then Some 3 else None), getCalledOperand := (\<lambda>v. if v = 13 then 3 else v),
     getArgOperand := (\<lambda>v i. if v = 13 then 12 else v), numArgOperands := (\<lambda>v. if v = 13 then 1 else 0),
     getArg := (\<lambda>F i. if F = 3 then 20 else F), argSize := (\<lambda>F. if F = 3 then 1 else 0),
     getFunction := (\<lambda>v. if v \<in> {20, 21} then 3 else 2),
     getBasicBlockList := (\<lambda>F. if F = 2 then [50] else if F = 3 then [51] else []),
     getInstList := (\<lambda>B. if B = 50 then [10, 11, 12, 13, 14, 15, 16] else if B = 51 then [21] else []),
     getFunctionList := [3, 2] \<rparr>"

definition demoMemEnv :: mem_env where
  "demoMemEnv = \<lparr> envDL = demoDL\<lparr> getPointerElementType := (\<lambda>s. Some i8) \<rparr>, envOpts = demoOpts, envKind = FSKind, vptrType = ''vptr'',
     envModule = demoProgram, demangle = id, pointeeType = (\<lambda>v. demoStruct), constantArraySize = (\<lambda>v. Some 1),
     vtableNameOf = (\<lambda>v T n S. ''''), structHasPadding = (\<lambda>T. False), initializerOf = (\<lambda>v. None), isConstantGlobal = (\<lambda>v. False),
     nullValue = 0, undefValue = 1 \<rparr>"

definition demoValues :: value_view where
  "demoValues = \<lparr> ptaModule = demoProgram, isInlineAsm = (\<lambda>v. False), isNullConstant = (\<lambda>v. v = 0), ctxEvolve = (\<lambda>C I. C),
     memEnv = demoMemEnv, operatorOf = (\<lambda>v. if v = 11 then OpGEP else if v = 12 then OpBitCast else OtherOp),
     isInstruction = (\<lambda>v. v \<in> {10..16} \<union> {21}), isGlobalValue = (\<lambda>v. v \<in> {2, 3, 5}),
     stripCastsAndGroups = (\<lambda>v. if v = 12 then 10 else v), getAliasee = (\<lambda>v. v), getNumIndices = (\<lambda>v. 2),
     hasAllConstantIndices = (\<lambda>v. True), isNegative = (\<lambda>v. False), getReturnedArgOperand = (\<lambda>v. None),
     intrinsicID = (\<lambda>v. NotIntrinsic), valueFuel = 2 \<rparr>"

lemma demo_values_rank: "value_rank demoValues (\<lambda>v. if v = 12 then 1 else 0)"
  by (auto simp: value_rank_def demoValues_def demoMemEnv_def demoOpts_def demoProgram_def negativeGep_def stripNullOrUnDef_def Let_def)

text \<open>The same values with two aliases: 6 names the global 5, and 7 names 8, a cast of it.\<close>

definition aliasValues :: value_view where
  "aliasValues = demoValues\<lparr> ptaModule := demoProgram\<lparr>
       classOf := (\<lambda>v. if v \<in> {6, 7} then GlobalAlias else classOf demoProgram v),
       isPointerTy := (\<lambda>v. v \<in> {5, 6, 7, 8} \<or> isPointerTy demoProgram v),
       getOperand := (\<lambda>v i. if v = 8 then 5 else getOperand demoProgram v i) \<rparr>,
     operatorOf := (\<lambda>v. if v = 8 then OpBitCast else operatorOf demoValues v),
     stripCastsAndGroups := (\<lambda>v. if v = 8 then 5 else stripCastsAndGroups demoValues v),
     getAliasee := (\<lambda>v. if v = 6 then 5 else if v = 7 then 8 else v), valueFuel := 3 \<rparr>"

lemma alias_values_rank: "value_rank aliasValues (\<lambda>v. if v = 7 then 2 else if v \<in> {6, 8, 12} then 1 else 0)"
  by (auto simp: value_rank_def aliasValues_def demoValues_def demoMemEnv_def demoOpts_def demoProgram_def negativeGep_def
      stripNullOrUnDef_def Let_def)


end
