(* ===== verification/GenGraph.thy ===== *)
theory GenGraph
  imports AllocOk
begin

text \<open>
  How the constraint graph grows while it is built: nodes keep what they are, edges stay, and allocation adds edges out
  of address-taken nodes only.
\<close>

section \<open>Growing graphs\<close>

definition nodes_grow :: "cons_graph \<Rightarrow> cons_graph \<Rightarrow> bool" where
  "nodes_grow g g' \<longleftrightarrow> getNodeNum g \<le> getNodeNum g' \<and> (\<exists>new. objVec g' = objVec g @ new) \<and>
     (\<forall>n < getNodeNum g. cgKind (cgNode g' n) = cgKind (cgNode g n) \<and> superNode (cgNode g' n) = superNode (cgNode g n) \<and>
        set (indirectNodes (cgNode g n)) \<subseteq> set (indirectNodes (cgNode g' n)) \<and>
        (isImmutable (cgNode g' n) \<longrightarrow> isImmutable (cgNode g n) \<or> isObjKind (cgKind (cgNode g n)))) \<and>
     (\<forall>n. getNodeNum g \<le> n \<longrightarrow> n < getNodeNum g' \<longrightarrow> superNode (cgNode g' n) = None \<and>
        (isImmutable (cgNode g' n) \<longrightarrow> isObjKind (cgKind (cgNode g' n)))) \<and>
     (\<forall>k s d. edge g k s d \<longrightarrow> edge g' k s d)"

text \<open>The new edges are those of new objects and of addresses.\<close>

definition addr_only :: "cons_graph \<Rightarrow> cons_graph \<Rightarrow> bool" where
  "addr_only g g' \<longleftrightarrow> (\<forall>k s d. edge g' k s d \<longrightarrow> edge g k s d \<or> k = CAddrOf \<and> addrNode g' d \<or> k = CCopy \<and> addrNode g' s)"

lemma nodes_growD:
  assumes "nodes_grow g g'"
  shows "getNodeNum g \<le> getNodeNum g'" "\<exists>new. objVec g' = objVec g @ new"
    "n < getNodeNum g \<Longrightarrow> cgKind (cgNode g' n) = cgKind (cgNode g n)" "n < getNodeNum g \<Longrightarrow> superNode (cgNode g' n) = superNode (cgNode g n)"
    "n < getNodeNum g \<Longrightarrow> set (indirectNodes (cgNode g n)) \<subseteq> set (indirectNodes (cgNode g' n))"
    "edge g k s d \<Longrightarrow> edge g' k s d"
  using assms unfolding nodes_grow_def by blast+

lemma nodes_grow_refl: "nodes_grow g g"
  by (simp add: nodes_grow_def)

lemma nodes_grow_trans:
  assumes "nodes_grow a b" and "nodes_grow b c"
  shows "nodes_grow a c"
proof -
  note A = assms(1) [unfolded nodes_grow_def] and B = assms(2) [unfolded nodes_grow_def]
  have num: "getNodeNum a \<le> getNodeNum b" "getNodeNum b \<le> getNodeNum c" using A B by blast+
  have "\<exists>new. objVec c = objVec a @ new" using A B by (metis append_assoc)
  moreover have "cgKind (cgNode c n) = cgKind (cgNode a n) \<and> superNode (cgNode c n) = superNode (cgNode a n) \<and>
      set (indirectNodes (cgNode a n)) \<subseteq> set (indirectNodes (cgNode c n)) \<and>
      (isImmutable (cgNode c n) \<longrightarrow> isImmutable (cgNode a n) \<or> isObjKind (cgKind (cgNode a n)))" if "n < getNodeNum a" for n
  proof -
    have n: "n < getNodeNum b" using that num by simp
    have a: "cgKind (cgNode b n) = cgKind (cgNode a n)" "superNode (cgNode b n) = superNode (cgNode a n)"
      "set (indirectNodes (cgNode a n)) \<subseteq> set (indirectNodes (cgNode b n))"
      "isImmutable (cgNode b n) \<longrightarrow> isImmutable (cgNode a n) \<or> isObjKind (cgKind (cgNode a n))" using A that by blast+
    have b: "cgKind (cgNode c n) = cgKind (cgNode b n)" "superNode (cgNode c n) = superNode (cgNode b n)"
      "set (indirectNodes (cgNode b n)) \<subseteq> set (indirectNodes (cgNode c n))"
      "isImmutable (cgNode c n) \<longrightarrow> isImmutable (cgNode b n) \<or> isObjKind (cgKind (cgNode b n))" using B n by blast+
    show ?thesis using a b by auto
  qed
  moreover have "superNode (cgNode c n) = None \<and> (isImmutable (cgNode c n) \<longrightarrow> isObjKind (cgKind (cgNode c n)))"
    if "getNodeNum a \<le> n" "n < getNodeNum c" for n
  proof (cases "n < getNodeNum b")
    case True
    then have "superNode (cgNode b n) = None" "isImmutable (cgNode b n) \<longrightarrow> isObjKind (cgKind (cgNode b n))"
      "cgKind (cgNode c n) = cgKind (cgNode b n)" "superNode (cgNode c n) = superNode (cgNode b n)"
      "isImmutable (cgNode c n) \<longrightarrow> isImmutable (cgNode b n) \<or> isObjKind (cgKind (cgNode b n))" using A B that(1) by blast+
    then show ?thesis by auto
  next
    case False
    then show ?thesis using B that(2) by (meson not_less)
  qed
  ultimately show ?thesis using A B unfolding nodes_grow_def by (meson order_trans)
qed

lemma objVec_grow:
  assumes "nodes_grow g g'"
  shows "i < length (objVec g) \<Longrightarrow> i < length (objVec g') \<and> objVec g' ! i = objVec g ! i" and "addrNode g a \<Longrightarrow> addrNode g' a"
proof -
  obtain new where new: "objVec g' = objVec g @ new" using nodes_growD(2) [OF assms] by blast
  then show "i < length (objVec g) \<Longrightarrow> i < length (objVec g') \<and> objVec g' ! i = objVec g ! i" by (simp add: nth_append)
  show "addrNode g a \<Longrightarrow> addrNode g' a" unfolding addrNode_def using new by (metis length_append nth_append trans_less_add1)
qed

lemma addr_only_refl: "addr_only g g"
  by (simp add: addr_only_def)

lemma addr_only_trans:
  assumes "addr_only a b" and "addr_only b c" and "nodes_grow b c"
  shows "addr_only a c"
  using assms(1,2) objVec_grow(2) [OF assms(3)] unfolding addr_only_def by blast

section \<open>Allocation\<close>

definition new_objects :: "nat \<Rightarrow> cons_graph \<Rightarrow> bool" where
  "new_objects M g \<longleftrightarrow> (\<forall>n. M \<le> n \<longrightarrow> n < getNodeNum g \<longrightarrow> isObjKind (cgKind (cgNode g n)) \<or> addrNode g n)"

lemma new_object_grows:
  assumes "graph_wf (g, p)" and "cgStep NewObj (g, p) = Inr (g', p')"
  shows "nodes_grow g g'" and "addr_only g g'" and "new_objects M g \<Longrightarrow> new_objects M g'"
proof -
  have ok: "cg_ok g" and len: "length p = getNodeNum g" using assms(1) by (simp_all add: graph_wf_def pts_wf_def)
  have "length (objVec g) < getNodeNum g + 2" using objVec_le [OF cg_okD(3) [OF ok]] by simp
  from addObjNode_ok [OF ok len refl this] obtain h where
    h: "addObjNode (length (objVec g)) (g, p) = Inr (getNodeNum g, h, p @ [[], [length (objVec g)]])" "cg_ok h" "cg_extends g h"
      "getNodeNum h = getNodeNum g + 2" "objVec h = objVec g @ [getNodeNum g]"
      "\<And>j a b. edge h j a b \<longleftrightarrow> edge g j a b \<or> j = CAddrOf \<and> a = getNodeNum g \<and> b = Suc (getNodeNum g)" by blast
  have g': "g' = h" using assms(2) h(1) by simp
  have at: "length (objVec g) < length (objVec h)" "objVec h ! length (objVec g) = getNodeNum g" by (simp_all add: h(5))
  then have new: "cgKind (cgNode h (getNodeNum g)) = ObjNode (length (objVec g))"
    using cg_okD(3) [OF h(2)] unfolding objs_ok_def by metis
  have addr: "addrNode h (Suc (getNodeNum g))" unfolding addrNode_def using at by metis
  have e: "edge h CAddrOf (getNodeNum g) (Suc (getNodeNum g))" using h(6) by simp
  have two: "n = getNodeNum g \<or> n = Suc (getNodeNum g)" if "getNodeNum g \<le> n" "n < getNodeNum h" for n using that h(4) by auto
  have "superNode (cgNode h n) = None \<and> (isImmutable (cgNode h n) \<longrightarrow> isObjKind (cgKind (cgNode h n)))"
    if "getNodeNum g \<le> n" "n < getNodeNum h" for n
    using two [OF that] edgeD(3,4,7) [OF h(2) e] new(1) by (auto simp: isObjKind_def)
  moreover have "\<exists>new. objVec h = objVec g @ new" using h(5) by blast
  ultimately show "nodes_grow g g'" using h(3,4,6) unfolding nodes_grow_def g' cg_extends_def by auto
  show "addr_only g g'" using h(6) addr by (auto simp: addr_only_def g')
  show "new_objects M g'" if "new_objects M g"
    unfolding new_objects_def g'
  proof (intro allI impI)
    fix n assume n: "M \<le> n" "n < getNodeNum h"
    show "isObjKind (cgKind (cgNode h n)) \<or> addrNode h n"
    proof (cases "n < getNodeNum g")
      case True
      then have "isObjKind (cgKind (cgNode g n)) \<or> addrNode g n" using that n(1) by (simp add: new_objects_def)
      then show ?thesis using True h(3) objVec_grow(2) [OF \<open>nodes_grow g g'\<close>] by (auto simp: cg_extends_def g')
    next
      case False
      then show ?thesis using two [OF _ n(2)] new(1) addr by (auto simp: isObjKind_def)
    qed
  qed
qed

lemma freeze_grows:
  assumes "graph_wf (g, p)" and "opAllowed (Freeze n) (g, p)" and "cgStep (Freeze n) (g, p) = Inr (g', p')" and "isObjKind (cgKind (cgNode g n))"
  shows "nodes_grow g g'" and "addr_only g g'" and "new_objects M g \<Longrightarrow> new_objects M g'"
proof -
  have g': "g' = setImmutable n g" and n: "n < getNodeNum g" using assms(2,3) by simp_all
  have at: "cgNode g' m = (if m = n then (cgNode g n)\<lparr> isImmutable := True \<rparr> else cgNode g m)" "getNodeNum g' = getNodeNum g" "objVec g' = objVec g" for m
    using n by (simp_all add: g' setImmutable_def cgNode_upd)
  have e: "edge g' k s d \<longleftrightarrow> edge g k s d" for k s d by (simp add: edge_def at)
  show "nodes_grow g g'" using assms(4) by (auto simp: nodes_grow_def at e)
  show "addr_only g g'" by (simp add: addr_only_def e)
  show "new_objects M g'" if "new_objects M g" using that by (simp add: new_objects_def at addrNode_def)
qed

lemma objects_grow:
  "cgRun ops (g, p) = Inr (g', p') \<Longrightarrow> graph_wf (g, p) \<Longrightarrow> onlyObjects M ops \<Longrightarrow> new_objects M g \<Longrightarrow> nodes_grow g g' \<and> addr_only g g'"
proof (induction ops arbitrary: g p)
  case Nil
  then show ?case by (simp add: nodes_grow_refl addr_only_refl)
next
  case (Cons op ops)
  from Cons.prems(1) obtain g1 p1 where s: "opAllowed op (g, p)" "cgStep op (g, p) = Inr (g1, p1)" "cgRun ops (g1, p1) = Inr (g', p')" by auto
  have wf1: "graph_wf (g1, p1)" using cgStep_ok [OF Cons.prems(2) s(1)] s(2) by auto
  have only: "onlyObjects M ops" "op = NewObj \<or> (\<exists>n \<ge> M. op = Freeze n)" using Cons.prems(3) by (simp_all add: onlyObjects_def)
  have "nodes_grow g g1 \<and> addr_only g g1 \<and> new_objects M g1"
    using only(2)
  proof
    assume "op = NewObj"
    then show ?thesis using new_object_grows [OF Cons.prems(2)] s(2) Cons.prems(4) by blast
  next
    assume "\<exists>n \<ge> M. op = Freeze n"
    then obtain n where n: "M \<le> n" "op = Freeze n" by blast
    have "isObjKind (cgKind (cgNode g n))" using Cons.prems(4) n s(1) by (auto simp: new_objects_def)
    then show ?thesis using freeze_grows [OF Cons.prems(2)] s(1,2) n(2) Cons.prems(4) by blast
  qed
  then show ?case using Cons.IH [OF s(3) wf1 only(1)] nodes_grow_trans addr_only_trans by blast
qed

lemma allocates_grows:
  assumes "allocates E c v T (mem, g, p) n (mem', g', p')" and "graph_wf (g, p)"
  shows "nodes_grow g g'" and "addr_only g g'"
proof -
  obtain ops where "onlyObjects (getNodeNum g) ops" "cgRun ops (g, p) = Inr (g', p')" using assms(1) by (auto simp: allocates_def)
  moreover have "new_objects (getNodeNum g) g" by (simp add: new_objects_def)
  ultimately show "nodes_grow g g'" "addr_only g g'" using objects_grow assms(2) by blast+
qed

section \<open>Pointers\<close>

lemma new_pointer_grows:
  assumes "graph_wf (g, p)"
  shows "\<exists>g'. addPtrNode v (g, p) = Inr (getNodeNum g, g', p @ [[]]) \<and> graph_wf (g', p @ [[]]) \<and> nodes_grow g g' \<and> addr_only g g' \<and>
    getNodeNum g' = Suc (getNodeNum g) \<and> cgKind (cgNode g' (getNodeNum g)) = PtrNode v \<and> objVec g' = objVec g \<and>
    (\<forall>k s d. edge g' k s d \<longleftrightarrow> edge g k s d)"
proof -
  have ok: "cg_ok g" and len: "length p = getNodeNum g" using assms by (simp_all add: graph_wf_def pts_wf_def)
  from addPtrNode_ok [OF ok len, of v] obtain g' where
    g': "addPtrNode v (g, p) = Inr (getNodeNum g, g', p @ [[]])" "cg_extends g g'" "getNodeNum g' = Suc (getNodeNum g)"
      "objVec g' = objVec g" "cgNode g' (getNodeNum g) = newNode (PtrNode v)" "\<forall>k s d. edge g' k s d \<longleftrightarrow> edge g k s d" by blast
  have "graph_wf (g', p @ [[]])" using cgStep_ok [OF assms, of "NewPtr v"] g'(1) by simp
  moreover have "superNode (cgNode g' n) = None \<and> (isImmutable (cgNode g' n) \<longrightarrow> isObjKind (cgKind (cgNode g' n)))"
    if "getNodeNum g \<le> n" "n < getNodeNum g'" for n
  proof -
    have "n = getNodeNum g" using that g'(3) by simp
    then show ?thesis using g'(5) by (simp add: newNode_def)
  qed
  then have "nodes_grow g g'" using g'(2-4,6) unfolding nodes_grow_def cg_extends_def by simp
  moreover have "addr_only g g'" using g'(6) by (simp add: addr_only_def)
  ultimately show ?thesis using g' by (auto simp: newNode_def)
qed

section \<open>Constraints\<close>

text \<open>Without collapsed nodes every node represents itself.\<close>

definition flat :: "cons_graph \<Rightarrow> bool" where
  "flat g \<longleftrightarrow> (\<forall>n < getNodeNum g. superNode (cgNode g n) = None \<and> (isImmutable (cgNode g n) \<longrightarrow> isObjKind (cgKind (cgNode g n))))"

lemma flat_rep: "cg_ok g \<Longrightarrow> flat g \<Longrightarrow> n < getNodeNum g \<Longrightarrow> rep g n = n"
  using rep_self cg_okD(2) by (simp add: flat_def)

lemma flat_grows:
  assumes "flat g" and "nodes_grow g g'"
  shows "flat g'"
  unfolding flat_def
proof (intro allI impI)
  fix n assume n: "n < getNodeNum g'"
  show "superNode (cgNode g' n) = None \<and> (isImmutable (cgNode g' n) \<longrightarrow> isObjKind (cgKind (cgNode g' n)))"
  proof (cases "n < getNodeNum g")
    case True
    then have "superNode (cgNode g n) = None" "isImmutable (cgNode g n) \<longrightarrow> isObjKind (cgKind (cgNode g n))" using assms(1) by (auto simp: flat_def)
    then show ?thesis using assms(2) True unfolding nodes_grow_def by auto
  next
    case False
    then show ?thesis using assms(2) n unfolding nodes_grow_def by (meson not_less)
  qed
qed

text \<open>The constraint an edge stands for: an address is copied out of the object's address-taken node.\<close>

definition linked :: "cons_graph \<Rightarrow> constraints \<Rightarrow> nat \<Rightarrow> nat \<Rightarrow> bool" where
  "linked g k s d \<longleftrightarrow> edge g (consKind k) (consSrc g k s) d \<or> consKind k = CCopy \<and> consSrc g k s = d"

lemma linked_grows: "linked g k s d \<Longrightarrow> nodes_grow g g' \<Longrightarrow> linked g' k s d"
  using nodes_growD(6) by (auto simp: linked_def consSrc_def)

lemma add_constraint:
  assumes wf: "graph_wf (g, p)" and flat: "flat g" and ab: "a < getNodeNum g" "b < getNodeNum g"
    and ptr: "\<exists>v. cgKind (cgNode g b) = PtrNode (Some v)" and obj: "k = CAddrOf \<Longrightarrow> isObjKind (cgKind (cgNode g a))"
  shows "\<exists>ev g'. addConstraints a b k g = Inr (ev, g') \<and> graph_wf (g', p) \<and> nodes_grow g g' \<and> linked g' k a b \<and>
    getNodeNum g' = getNodeNum g \<and> objVec g' = objVec g \<and>
    (\<forall>j x y. edge g' j x y \<longrightarrow> edge g j x y \<or> j = consKind k \<and> x = consSrc g k a \<and> y = b)"
proof -
  have ok: "cg_ok g" using wf by (simp add: graph_wf_def)
  have kind: "cgKind (cgNode g b) \<noteq> PtrNode None" "\<not> isObjKind (cgKind (cgNode g b))" using ptr by (auto simp: isObjKind_def)
  then have addr: "\<not> addrNode g b" using cg_okD(3) [OF ok] by (auto simp: addrNode_def objs_ok_def)
  from addConstraints_ok [OF ok ab addr obj] obtain ev g' where
    g': "addConstraints a b k g = Inr (ev, g')" "cg_ok g'" "same_nodes g g'"
      "\<And>j x y. edge g' j x y \<longleftrightarrow> edge g j x y \<or>
        (\<not> blocked g (consSrc g k a) b (consKind k) \<and> j = consKind k \<and> x = rep g (consSrc g k a) \<and> y = rep g b)"
      "\<And>n. indirectNodes (cgNode g' n) = indirectNodes (cgNode g n)" by blast
  have src: "consSrc g k a < getNodeNum g" using ab object_addr(1) [OF ok ab(1) obj] by (auto simp: consSrc_def)
  have reps: "rep g (consSrc g k a) = consSrc g k a" "rep g b = b" using flat_rep [OF ok flat] src ab(2) by blast+
  have "\<not> isImmutable (cgNode g b)" using flat ab(2) kind(2) by (auto simp: flat_def)
  then have free: "blocked g (consSrc g k a) b (consKind k) \<longleftrightarrow> consKind k = CCopy \<and> consSrc g k a = b" by (auto simp: blocked_def reps)
  have "linked g' k a b" using g'(4) free reps by (auto simp: linked_def consSrc_def)
  moreover have "nodes_grow g g'" using g'(3-5) unfolding nodes_grow_def same_nodes_def by auto
  moreover have "graph_wf (g', p)" using g'(2,3) wf by (auto simp: graph_wf_def same_nodes_def intro: pts_wf_same)
  moreover have "getNodeNum g' = getNodeNum g" "objVec g' = objVec g" using g'(3) by (simp_all add: same_nodes_def)
  ultimately show ?thesis using g'(1,4) reps by auto
qed

end
