(* ===== verification/InstVisitor.thy ===== *)
theory InstVisitor
  imports Canonical
begin

text \<open>
  The visitor of instructions in a context (Util/CtxInstVisitor.h of src/PointerAnalysis): an
  instruction is offered to the function of its class; a class the visitor's subclass does not handle
  passes it on to a more general one, and \<open>visitInstruction\<close> ignores it.
\<close>

section \<open>Classes of instructions\<close>

datatype inst_class =
    VReturnInst | VBranchInst | VSwitchInst | VIndirectBrInst | VResumeInst | VUnreachableInst
  | VCleanupReturnInst | VCatchReturnInst | VCatchSwitchInst | VICmpInst | VFCmpInst | VAllocaInst | VLoadInst
  | VStoreInst | VAtomicCmpXchgInst | VAtomicRMWInst | VFenceInst | VGetElementPtrInst | VPHINode | VTruncInst
  | VZExtInst | VSExtInst | VFPTruncInst | VFPExtInst | VFPToUIInst | VFPToSIInst | VUIToFPInst | VSIToFPInst
  | VPtrToIntInst | VIntToPtrInst | VBitCastInst | VAddrSpaceCastInst | VSelectInst | VVAArgInst
  | VExtractElementInst | VInsertElementInst | VShuffleVectorInst | VExtractValueInst | VInsertValueInst
  | VLandingPadInst | VFuncletPadInst | VCleanupPadInst | VCatchPadInst | VFreezeInst
  | VDbgDeclareInst | VDbgValueInst | VDbgLabelInst | VDbgInfoIntrinsic | VMemSetInst | VMemCpyInst | VMemMoveInst
  | VMemTransferInst | VMemIntrinsic | VVAStartInst | VVAEndInst | VVACopyInst | VIntrinsicInst
  | VCallBrInst | VCallInst | VInvokeInst | VTerminator | VCastInst | VUnaryOperator | VBinaryOperator | VCmpInst
  | VUnaryInstruction | VCallBase | VInstruction

text \<open>
  The default functions; \<open>other\<close> tells of a call base whether it is an invoke or a \<open>callbr\<close>.
  A subclass has to handle \<open>freeze\<close> itself.
\<close>

fun delegatesTo :: "bool \<Rightarrow> inst_class \<Rightarrow> inst_class option" where
  "delegatesTo other VReturnInst = Some VTerminator"
| "delegatesTo other VBranchInst = Some VTerminator"
| "delegatesTo other VSwitchInst = Some VTerminator"
| "delegatesTo other VIndirectBrInst = Some VTerminator"
| "delegatesTo other VResumeInst = Some VTerminator"
| "delegatesTo other VUnreachableInst = Some VTerminator"
| "delegatesTo other VCleanupReturnInst = Some VTerminator"
| "delegatesTo other VCatchReturnInst = Some VTerminator"
| "delegatesTo other VCatchSwitchInst = Some VTerminator"
| "delegatesTo other VICmpInst = Some VCmpInst"
| "delegatesTo other VFCmpInst = Some VCmpInst"
| "delegatesTo other VAllocaInst = Some VUnaryInstruction"
| "delegatesTo other VLoadInst = Some VUnaryInstruction"
| "delegatesTo other VStoreInst = Some VInstruction"
| "delegatesTo other VAtomicCmpXchgInst = Some VInstruction"
| "delegatesTo other VAtomicRMWInst = Some VInstruction"
| "delegatesTo other VFenceInst = Some VInstruction"
| "delegatesTo other VGetElementPtrInst = Some VInstruction"
| "delegatesTo other VPHINode = Some VInstruction"
| "delegatesTo other VTruncInst = Some VCastInst"
| "delegatesTo other VZExtInst = Some VCastInst"
| "delegatesTo other VSExtInst = Some VCastInst"
| "delegatesTo other VFPTruncInst = Some VCastInst"
| "delegatesTo other VFPExtInst = Some VCastInst"
| "delegatesTo other VFPToUIInst = Some VCastInst"
| "delegatesTo other VFPToSIInst = Some VCastInst"
| "delegatesTo other VUIToFPInst = Some VCastInst"
| "delegatesTo other VSIToFPInst = Some VCastInst"
| "delegatesTo other VPtrToIntInst = Some VCastInst"
| "delegatesTo other VIntToPtrInst = Some VCastInst"
| "delegatesTo other VBitCastInst = Some VCastInst"
| "delegatesTo other VAddrSpaceCastInst = Some VCastInst"
| "delegatesTo other VSelectInst = Some VInstruction"
| "delegatesTo other VVAArgInst = Some VUnaryInstruction"
| "delegatesTo other VExtractElementInst = Some VInstruction"
| "delegatesTo other VInsertElementInst = Some VInstruction"
| "delegatesTo other VShuffleVectorInst = Some VInstruction"
| "delegatesTo other VExtractValueInst = Some VUnaryInstruction"
| "delegatesTo other VInsertValueInst = Some VInstruction"
| "delegatesTo other VLandingPadInst = Some VInstruction"
| "delegatesTo other VFuncletPadInst = Some VInstruction"
| "delegatesTo other VCleanupPadInst = Some VFuncletPadInst"
| "delegatesTo other VCatchPadInst = Some VFuncletPadInst"
| "delegatesTo other VFreezeInst = None"
| "delegatesTo other VDbgDeclareInst = Some VDbgInfoIntrinsic"
| "delegatesTo other VDbgValueInst = Some VDbgInfoIntrinsic"
| "delegatesTo other VDbgLabelInst = Some VDbgInfoIntrinsic"
| "delegatesTo other VDbgInfoIntrinsic = Some VIntrinsicInst"
| "delegatesTo other VMemSetInst = Some VMemIntrinsic"
| "delegatesTo other VMemCpyInst = Some VMemTransferInst"
| "delegatesTo other VMemMoveInst = Some VMemTransferInst"
| "delegatesTo other VMemTransferInst = Some VMemIntrinsic"
| "delegatesTo other VMemIntrinsic = Some VIntrinsicInst"
| "delegatesTo other VVAStartInst = Some VIntrinsicInst"
| "delegatesTo other VVAEndInst = Some VIntrinsicInst"
| "delegatesTo other VVACopyInst = Some VIntrinsicInst"
| "delegatesTo other VIntrinsicInst = Some VCallInst"
| "delegatesTo other VCallBrInst = Some VCallBase"
| "delegatesTo other VCallInst = Some VCallBase"
| "delegatesTo other VInvokeInst = Some VCallBase"
| "delegatesTo other VTerminator = Some VInstruction"
| "delegatesTo other VCastInst = Some VUnaryInstruction"
| "delegatesTo other VUnaryOperator = Some VUnaryInstruction"
| "delegatesTo other VBinaryOperator = Some VInstruction"
| "delegatesTo other VCmpInst = Some VInstruction"
| "delegatesTo other VUnaryInstruction = Some VInstruction"
| "delegatesTo other VCallBase = Some (if other then VTerminator else VInstruction)"
| "delegatesTo other VInstruction = None"

text \<open>A call is offered to the class of its intrinsic first.\<close>

definition delegateCallInst :: "'x value_view_scheme \<Rightarrow> llvm_value \<Rightarrow> inst_class" where
  "delegateCallInst V I =
     (case getCalledFunction (ptaModule V) I of
        None \<Rightarrow> VCallInst
      | Some F \<Rightarrow>
          (case intrinsicID V F of
             DbgDeclare \<Rightarrow> VDbgDeclareInst
           | DbgValue \<Rightarrow> VDbgValueInst
           | DbgLabel \<Rightarrow> VDbgLabelInst
           | MemCpy \<Rightarrow> VMemCpyInst
           | MemMove \<Rightarrow> VMemMoveInst
           | MemSet \<Rightarrow> VMemSetInst
           | VAStart \<Rightarrow> VVAStartInst
           | VAEnd \<Rightarrow> VVAEndInst
           | VACopy \<Rightarrow> VVACopyInst
           | NotIntrinsic \<Rightarrow> VCallInst
           | _ \<Rightarrow> VIntrinsicInst))"

text \<open>The class that handles an instruction, if one does; no chain of classes is longer than eight.\<close>

fun visitUp :: "nat \<Rightarrow> (inst_class \<Rightarrow> bool) \<Rightarrow> bool \<Rightarrow> inst_class \<Rightarrow> inst_class option result" where
  "visitUp 0 handled other c = Inl Diverges"
| "visitUp (Suc fuel) handled other c =
     (if handled c then Inr (Some c)
      else case delegatesTo other c of None \<Rightarrow> Inr None | Some d \<Rightarrow> visitUp fuel handled other d)"

definition visitedAs :: "'x value_view_scheme \<Rightarrow> (llvm_value \<Rightarrow> inst_class) \<Rightarrow> (inst_class \<Rightarrow> bool) \<Rightarrow> llvm_value \<Rightarrow> inst_class option result" where
  "visitedAs V opcodeClass handled I =
     (let c = opcodeClass I in
      visitUp 8 handled (c = VInvokeInst \<or> c = VCallBrInst) (if c = VCallInst then delegateCallInst V I else c))"

text \<open>A function's instructions in a context, block by block.\<close>

definition visitFunctionBody ::
  "'x value_view_scheme \<Rightarrow> (ctx_ptr \<Rightarrow> llvm_value \<Rightarrow> 's \<Rightarrow> 's result) \<Rightarrow> ctx_ptr \<Rightarrow> llvm_value \<Rightarrow> 's \<Rightarrow> 's result" where
  "visitFunctionBody V visit C F =
     rfold (\<lambda>BB. rfold (visit C) (getInstList (ptaModule V) BB)) (getBasicBlockList (ptaModule V) F)"

lemma visitFunctionBody_bodyOf: "visitFunctionBody V visit C F s = rfold (visit C) (bodyOf V F) s"
  by (simp add: visitFunctionBody_def bodyOf_def rfold_concat)

text \<open>Every class is handled or ignored in the end.\<close>

lemma visitUp_returns: "visitUp 8 handled other c \<noteq> Inl e"
  by (cases c) (simp_all add: numeral_eq_Suc)

end
