(* ===== verification/ConsGen.thy ===== *)
theory ConsGen
  imports InstVisitor Solver
begin

text \<open>
  From LLVM to the constraint graph (Models/LanguageModel/ConsGraphBuilder.h, PtrNodeManager.h and
  LangModelBase.h of src/PointerAnalysis): pointers of the program get nodes, the instructions of every function
  the call graph reaches and the calls between them become constraints. The builder is the client of the call graph.

  The build is the one with assertions. Log output is left out.
\<close>

section \<open>State\<close>

text \<open>
  The tables of pointers and of returned values give their nodes; an anonymous node made for a call of a vector function
  remembers the call and its parameters.
\<close>

record gen_state =
  allocState :: alloc_state
  ptrMap :: "ctx_ptr \<times> llvm_value \<Rightarrow> nat option"
  retPtrMap :: "ctx_ptr \<times> llvm_value \<Rightarrow> nat option"
  nullPtrNode :: nat
  uniPtrNode :: nat
  nodeTags :: "nat \<Rightarrow> (llvm_value \<times> nat list) option"

record builder_view = value_view +
  opcodeClass :: "llvm_value \<Rightarrow> inst_class"
  getReturnValue :: "llvm_value \<Rightarrow> llvm_value option"
  incomingValues :: "llvm_value \<Rightarrow> llvm_value list"
  getSource :: "llvm_value \<Rightarrow> llvm_value"
  getDest :: "llvm_value \<Rightarrow> llvm_value"
  returnsPointer :: "llvm_value \<Rightarrow> bool"
  typeId :: "llvm_value \<Rightarrow> nat"
  returnTypeId :: "llvm_value \<Rightarrow> nat"
  isVarArg :: "llvm_value \<Rightarrow> bool"
  declContextName :: "llvm_value \<Rightarrow> string option"
  functionBaseName :: "llvm_value \<Rightarrow> string"
  stripInBounds :: "llvm_value \<Rightarrow> llvm_value"

definition genGraph :: "gen_state \<Rightarrow> cons_graph" where
  "genGraph gs = fst (snd (allocState gs))"

definition genPts :: "gen_state \<Rightarrow> pts_vec" where
  "genPts gs = snd (snd (allocState gs))"

definition addEdge :: "nat \<Rightarrow> nat \<Rightarrow> constraints \<Rightarrow> gen_state \<Rightarrow> gen_state result" where
  "addEdge src dst k gs =
     (case allocState gs of (mem, g, p) \<Rightarrow>
        rbind (addConstraints src dst k g) (\<lambda>(_, g). Inr (gs\<lparr> allocState := (mem, g, p) \<rparr>)))"

definition addNode :: "llvm_value option \<Rightarrow> gen_state \<Rightarrow> (nat \<times> gen_state) result" where
  "addNode v gs =
     (case allocState gs of (mem, s) \<Rightarrow>
        rbind (addPtrNode v s) (\<lambda>(n, s). Inr (n, gs\<lparr> allocState := (mem, s) \<rparr>)))"

section \<open>Pointers\<close>

text \<open>A pointer is a value in a context; a global's context is the global one.\<close>

definition ptrKey :: "'x value_view_scheme \<Rightarrow> ctx_ptr \<Rightarrow> llvm_value \<Rightarrow> ctx_ptr \<times> llvm_value" where
  "ptrKey V C v = (if isGlobalValue V v then GlobCtx else C, v)"

definition specialPtr :: "'x value_view_scheme \<Rightarrow> llvm_value \<Rightarrow> gen_state \<Rightarrow> nat option" where
  "specialPtr V v gs =
     (if v = undefValue (memEnv V) then Some (uniPtrNode gs)
      else if v = nullValue (memEnv V) then Some (nullPtrNode gs) else None)"

definition createRetNode :: "ctx_ptr \<Rightarrow> llvm_value \<Rightarrow> gen_state \<Rightarrow> (nat \<times> gen_state) result" where
  "createRetNode C F gs =
     rassert (retPtrMap gs (C, F) = None) AssertFailed
     (rbind (addNode (Some F) gs) (\<lambda>(n, gs). Inr (n, gs\<lparr> retPtrMap := (retPtrMap gs)((C, F) \<mapsto> n) \<rparr>)))"

definition getRetNode :: "ctx_ptr \<Rightarrow> llvm_value \<Rightarrow> gen_state \<Rightarrow> nat result" where
  "getRetNode C F gs = (case retPtrMap gs (C, F) of None \<Rightarrow> Inl AssertFailed | Some n \<Rightarrow> Inr n)"

definition createAnonPtrNode :: "(llvm_value \<times> nat list) option \<Rightarrow> gen_state \<Rightarrow> (nat \<times> gen_state) result" where
  "createAnonPtrNode tag gs = rbind (addNode None gs) (\<lambda>(n, gs). Inr (n, gs\<lparr> nodeTags := (nodeTags gs)(n := tag) \<rparr>))"

definition getPtrNode :: "'x value_view_scheme \<Rightarrow> ctx_ptr \<Rightarrow> llvm_value \<Rightarrow> gen_state \<Rightarrow> nat result" where
  "getPtrNode V C v gs = rbind (canonicalize V v) (\<lambda>v.
     case specialPtr V v gs of
       Some n \<Rightarrow> Inr n
     | None \<Rightarrow> (case ptrMap gs (ptrKey V C v) of None \<Rightarrow> Inl Unreachable | Some n \<Rightarrow> Inr n))"

definition getPtrNodeOrNull :: "'x value_view_scheme \<Rightarrow> ctx_ptr \<Rightarrow> llvm_value \<Rightarrow> gen_state \<Rightarrow> nat option result" where
  "getPtrNodeOrNull V C v gs = rbind (canonicalize V v) (\<lambda>v.
     case specialPtr V v gs of Some n \<Rightarrow> Inr (Some n) | None \<Rightarrow> Inr (ptrMap gs (ptrKey V C v)))"

definition newPtrNode :: "ctx_ptr \<times> llvm_value \<Rightarrow> gen_state \<Rightarrow> (nat \<times> gen_state) result" where
  "newPtrNode key gs = rbind (addNode (Some (snd key)) gs) (\<lambda>(n, gs). Inr (n, gs\<lparr> ptrMap := (ptrMap gs)(key \<mapsto> n) \<rparr>))"

definition getOrCreatePtrNode :: "'x value_view_scheme \<Rightarrow> ctx_ptr \<Rightarrow> llvm_value \<Rightarrow> gen_state \<Rightarrow> (nat \<times> gen_state) result" where
  "getOrCreatePtrNode V C v gs = rbind (canonicalize V v) (\<lambda>v.
     case specialPtr V v gs of
       Some n \<Rightarrow> Inr (n, gs)
     | None \<Rightarrow>
         (case ptrMap gs (ptrKey V C v) of
            Some n \<Rightarrow> Inr (n, gs)
          | None \<Rightarrow> newPtrNode (ptrKey V C v) gs))"

definition createPtrNode :: "'x value_view_scheme \<Rightarrow> ctx_ptr \<Rightarrow> llvm_value \<Rightarrow> gen_state \<Rightarrow> (nat \<times> gen_state) result" where
  "createPtrNode V C v gs = rbind (canonicalize V v) (\<lambda>v.
     case specialPtr V v gs of
       Some n \<Rightarrow> Inr (n, gs)
     | None \<Rightarrow> rassert (ptrMap gs (ptrKey V C v) = None) Unreachable (newPtrNode (ptrKey V C v) gs))"

text \<open>The builder starts with the null and the universal pointer and their objects.\<close>

definition initPtrNodes :: "'x value_view_scheme \<Rightarrow> gen_state \<Rightarrow> gen_state result" where
  "initPtrNodes V gs =
     rbind (newPtrNode (GlobCtx, nullValue (memEnv V)) gs) (\<lambda>(n, gs).
     rassert (undefValue (memEnv V) \<noteq> nullValue (memEnv V)) Unreachable
     (rbind (newPtrNode (GlobCtx, undefValue (memEnv V)) gs) (\<lambda>(u, gs).
        Inr (gs\<lparr> nullPtrNode := n, uniPtrNode := u \<rparr>))))"

definition newGenState :: gen_state where
  "newGenState = \<lparr> allocState = (\<lparr> fsObjs = [], fsBlocks = [], memBlockMap = Map.empty, layoutManager = emptyManager \<rparr>,
     \<lparr> cgNodes = [], objVec = [] \<rparr>, []),
     ptrMap = Map.empty, retPtrMap = Map.empty, nullPtrNode = 0, uniPtrNode = 0, nodeTags = Map.empty \<rparr>"

definition newBuilder :: "'x value_view_scheme \<Rightarrow> gen_state result" where
  "newBuilder V =
     rbind (initPtrNodes V newGenState) (\<lambda>gs.
     rbind (allocNullObj (memEnv V) (allocState gs)) (\<lambda>(_, st).
     rbind (allocUniObj (memEnv V) st) (\<lambda>(_, st). Inr (gs\<lparr> allocState := st \<rparr>))))"

section \<open>Instructions\<close>

definition visitAllocaInst :: "'x builder_view_scheme \<Rightarrow> ctx_ptr \<Rightarrow> llvm_value \<Rightarrow> gen_state \<Rightarrow> gen_state result" where
  "visitAllocaInst V C I gs =
     rbind (allocStackObj (memEnv V) C I (allocState gs)) (\<lambda>(stackObj, st).
     rbind (createPtrNode V C I (gs\<lparr> allocState := st \<rparr>)) (\<lambda>(stackPtr, gs).
     addEdge stackObj stackPtr CAddrOf gs))"

definition visitReturnInst :: "'x builder_view_scheme \<Rightarrow> ctx_ptr \<Rightarrow> llvm_value \<Rightarrow> gen_state \<Rightarrow> gen_state result" where
  "visitReturnInst V C I gs =
     (case getReturnValue V I of
        None \<Rightarrow> Inr gs
      | Some r \<Rightarrow>
          if isPointerTy (ptaModule V) r then
            rbind (getPtrNode V C r gs) (\<lambda>returnPtr.
            rbind (getRetNode C (getFunction (ptaModule V) I) gs) (\<lambda>returnNode.
            addEdge returnPtr returnNode CCopy gs))
          else Inr gs)"

definition visitGetElementPtrInst :: "'x builder_view_scheme \<Rightarrow> ctx_ptr \<Rightarrow> llvm_value \<Rightarrow> gen_state \<Rightarrow> gen_state result" where
  "visitGetElementPtrInst V C I gs =
     rbind (canonicalize V (getPointerOperand (ptaModule V) I)) (\<lambda>baseValue.
     rbind (canonicalize V I) (\<lambda>gepValue.
     if baseValue \<noteq> gepValue then
       rbind (getOrCreatePtrNode V C gepValue gs) (\<lambda>(gepNode, gs).
       rbind (getOrCreatePtrNode V C baseValue gs) (\<lambda>(baseNode, gs).
       addEdge baseNode gepNode COffset gs))
     else Inr gs))"

definition visitLoadInst :: "'x builder_view_scheme \<Rightarrow> ctx_ptr \<Rightarrow> llvm_value \<Rightarrow> gen_state \<Rightarrow> gen_state result" where
  "visitLoadInst V C I gs =
     (if isPointerTy (ptaModule V) I then
        rbind (getOrCreatePtrNode V C (getPointerOperand (ptaModule V) I) gs) (\<lambda>(loadedFrom, gs).
        rbind (getOrCreatePtrNode V C I gs) (\<lambda>(loadedInto, gs).
        addEdge loadedFrom loadedInto CLoad gs))
      else Inr gs)"

text \<open>A store through the null or the universal pointer is ignored.\<close>

definition visitStoreInst :: "'x builder_view_scheme \<Rightarrow> ctx_ptr \<Rightarrow> llvm_value \<Rightarrow> gen_state \<Rightarrow> gen_state result" where
  "visitStoreInst V C I gs =
     (let operand = getOperand (ptaModule V) I 0 in
      if isPointerTy (ptaModule V) operand then
        rbind (canonicalize V (getPointerOperand (ptaModule V) I)) (\<lambda>dst.
        if dst = undefValue (memEnv V) \<or> dst = nullValue (memEnv V) then Inr gs
        else
          rbind (getOrCreatePtrNode V C operand gs) (\<lambda>(srcNode, gs).
          rbind (getOrCreatePtrNode V C (getPointerOperand (ptaModule V) I) gs) (\<lambda>(dstNode, gs).
          addEdge srcNode dstNode CStore gs)))
      else Inr gs)"

definition visitCallBase :: "'x builder_view_scheme \<Rightarrow> ctx_ptr \<Rightarrow> llvm_value \<Rightarrow> gen_state \<Rightarrow> gen_state result" where
  "visitCallBase V C I gs =
     (if isPointerTy (ptaModule V) I then
        rbind (canonicalize V I) (\<lambda>retValue.
        if retValue \<noteq> I then Inr gs
        else rbind (getOrCreatePtrNode V C I gs) (\<lambda>(_, gs). Inr gs))
      else Inr gs)"

definition copyInto :: "'x value_view_scheme \<Rightarrow> ctx_ptr \<Rightarrow> nat \<Rightarrow> llvm_value \<Rightarrow> gen_state \<Rightarrow> gen_state result" where
  "copyInto V C dst v gs = rbind (getOrCreatePtrNode V C v gs) (\<lambda>(src, gs). addEdge src dst CCopy gs)"

definition visitPHINode :: "'x builder_view_scheme \<Rightarrow> ctx_ptr \<Rightarrow> llvm_value \<Rightarrow> gen_state \<Rightarrow> gen_state result" where
  "visitPHINode V C I gs =
     (if isPointerTy (ptaModule V) I then
        rbind (getOrCreatePtrNode V C I gs) (\<lambda>(dst, gs). rfold (copyInto V C dst) (incomingValues V I) gs)
      else Inr gs)"

definition visitSelectInst :: "'x builder_view_scheme \<Rightarrow> ctx_ptr \<Rightarrow> llvm_value \<Rightarrow> gen_state \<Rightarrow> gen_state result" where
  "visitSelectInst V C I gs =
     (if isPointerTy (ptaModule V) I then
        rbind (getOrCreatePtrNode V C I gs) (\<lambda>(dst, gs).
        rbind (copyInto V C dst (getOperand (ptaModule V) I 1) gs) (copyInto V C dst (getOperand (ptaModule V) I 2)))
      else Inr gs)"

definition visitMemCpyInst :: "'x builder_view_scheme \<Rightarrow> ctx_ptr \<Rightarrow> llvm_value \<Rightarrow> gen_state \<Rightarrow> gen_state result" where
  "visitMemCpyInst V C I gs =
     rbind (getOrCreatePtrNode V C (getSource V I) gs) (\<lambda>(src, gs).
     rbind (getOrCreatePtrNode V C (getDest V I) gs) (\<lambda>(dst, gs).
     rbind (handleMemCpy (memEnv V) C src dst (allocState gs)) (\<lambda>st. Inr (gs\<lparr> allocState := st \<rparr>))))"

definition builderHandles :: "inst_class \<Rightarrow> bool" where
  "builderHandles c \<longleftrightarrow> c \<in> {VAllocaInst, VReturnInst, VGetElementPtrInst, VLoadInst, VStoreInst, VCallBase, VBitCastInst,
     VPHINode, VMemCpyInst, VIntToPtrInst, VSelectInst, VExtractValueInst, VFreezeInst}"

text \<open>Bitcasts are part of canonical values; of integers, aggregates and frozen values no pointers are tracked.\<close>

definition visitAs :: "'x builder_view_scheme \<Rightarrow> inst_class \<Rightarrow> ctx_ptr \<Rightarrow> llvm_value \<Rightarrow> gen_state \<Rightarrow> gen_state result" where
  "visitAs V c =
     (case c of
        VAllocaInst \<Rightarrow> visitAllocaInst V
      | VReturnInst \<Rightarrow> visitReturnInst V
      | VGetElementPtrInst \<Rightarrow> visitGetElementPtrInst V
      | VLoadInst \<Rightarrow> visitLoadInst V
      | VStoreInst \<Rightarrow> visitStoreInst V
      | VCallBase \<Rightarrow> visitCallBase V
      | VPHINode \<Rightarrow> visitPHINode V
      | VMemCpyInst \<Rightarrow> visitMemCpyInst V
      | VSelectInst \<Rightarrow> visitSelectInst V
      | _ \<Rightarrow> (\<lambda>C I gs. Inr gs))"

definition visitInst :: "'x builder_view_scheme \<Rightarrow> ctx_ptr \<Rightarrow> llvm_value \<Rightarrow> gen_state \<Rightarrow> gen_state result" where
  "visitInst V C I gs = rbind (visitedAs V (opcodeClass V) builderHandles I) (\<lambda>c.
     case c of None \<Rightarrow> Inr gs | Some c \<Rightarrow> visitAs V c C I gs)"

section \<open>Functions\<close>

definition createArgNode :: "'x builder_view_scheme \<Rightarrow> ctx_ptr \<Rightarrow> llvm_value \<Rightarrow> gen_state \<Rightarrow> gen_state result" where
  "createArgNode V C a gs =
     (if isPointerTy (ptaModule V) a then rbind (createPtrNode V C a gs) (\<lambda>(_, gs). Inr gs) else Inr gs)"

definition argsOf :: "llvm_module \<Rightarrow> llvm_value \<Rightarrow> llvm_value list" where
  "argsOf M F = map (getArg M F) [0..<argSize M F]"

definition initFunction :: "'x builder_view_scheme \<Rightarrow> ctx_ptr \<Rightarrow> llvm_value \<Rightarrow> gen_state \<Rightarrow> (bool \<times> gen_state) result" where
  "initFunction V C F gs =
     (if isDeclaration (ptaModule V) F \<or> isIntrinsic (ptaModule V) F then Inr (False, gs)
      else
        rbind (if returnsPointer V F then rbind (createRetNode C F gs) (\<lambda>(_, gs). Inr gs) else Inr gs) (\<lambda>gs.
        rbind (rfold (createArgNode V C) (argsOf (ptaModule V) F) gs) (\<lambda>gs.
        rbind (visitFunctionBody V (visitInst V) C F gs) (\<lambda>gs. Inr (True, gs)))))"

definition initIndirectCall :: "'x builder_view_scheme \<Rightarrow> call_node \<Rightarrow> nat \<Rightarrow> gen_state \<Rightarrow> gen_state result" where
  "initIndirectCall V node i gs =
     rbind (getIndirectValue (ptaModule V) node) (\<lambda>v.
     rbind (getPtrNode V (cnCtx node) v gs) (\<lambda>funPtrNode.
     case allocState gs of (mem, g, p) \<Rightarrow> Inr (gs\<lparr> allocState := (mem, setIndirectCallNode funPtrNode i g, p) \<rparr>)))"

end
