(* ===== verification/GenOk.thy ===== *)
theory GenOk
  imports GenGraph ConsGen CanonicalOk
begin

text \<open>
  The state of the builder: the tables of pointers agree with the graph, the memory is in step with it, and every edge
  into a pointer has the kind of constraint its value gives rise to. Its elementary operations succeed, keep
  this, and only add what they are asked for.
\<close>

section \<open>Canonical pointers\<close>

definition canonOf :: "'x value_view_scheme \<Rightarrow> llvm_value \<Rightarrow> llvm_value" where
  "canonOf V v = (case canonicalize V v of Inr w \<Rightarrow> w | Inl e \<Rightarrow> v)"

definition ranked :: "'x value_view_scheme \<Rightarrow> bool" where
  "ranked V \<longleftrightarrow> (\<exists>r. value_rank V r) \<and> plain_aliases V \<and> nullValue (memEnv V) \<noteq> undefValue (memEnv V)"

lemma canonicalize_canonOf:
  assumes "ranked V"
  shows "canonicalize V v = Inr (canonOf V v)"
proof -
  obtain r where r: "value_rank V r" and plain: "plain_aliases V" using assms by (auto simp: ranked_def)
  show ?thesis
  proof (cases "isPointerTy (ptaModule V) v")
    case True
    obtain w where "canonicalLoop (valueFuel V) V v = Inr w" using loop_ok [OF r plain value_rankD(2) [OF r]] by blast
    then show ?thesis using True by (simp add: canonOf_def canonicalize_loop [OF r])
  next
    case False
    then show ?thesis by (simp add: canonOf_def canonicalize_loop [OF r])
  qed
qed

definition gepValue :: "'x value_view_scheme \<Rightarrow> llvm_value \<Rightarrow> bool" where
  "gepValue V v \<longleftrightarrow> operatorOf V v = OpGEP \<and> isInstruction V v"

text \<open>The node of a pointer, if it has one.\<close>

definition ptrNode :: "'x value_view_scheme \<Rightarrow> gen_state \<Rightarrow> ctx_ptr \<Rightarrow> llvm_value \<Rightarrow> nat option" where
  "ptrNode V gs C v =
     (case specialPtr V (canonOf V v) gs of Some n \<Rightarrow> Some n | None \<Rightarrow> ptrMap gs (ptrKey V C (canonOf V v)))"

lemma getPtrNode_eq:
  "ranked V \<Longrightarrow> getPtrNode V C v gs = (case ptrNode V gs C v of None \<Rightarrow> Inl Unreachable | Some n \<Rightarrow> Inr n)"
  by (simp add: getPtrNode_def canonicalize_canonOf ptrNode_def split: option.splits)

lemma getOrCreatePtrNode_eq:
  "ranked V \<Longrightarrow> getOrCreatePtrNode V C v gs =
     (case ptrNode V gs C v of None \<Rightarrow> newPtrNode (ptrKey V C (canonOf V v)) gs | Some n \<Rightarrow> Inr (n, gs))"
  by (simp add: getOrCreatePtrNode_def canonicalize_canonOf ptrNode_def split: option.splits)

section \<open>The invariant\<close>

definition edge_fits :: "'x value_view_scheme \<Rightarrow> gen_state \<Rightarrow> constraints \<Rightarrow> nat \<Rightarrow> nat \<Rightarrow> bool" where
  "edge_fits V gs k s d \<longleftrightarrow>
     (case k of
        COffset \<Rightarrow> \<exists>key. ptrMap gs key = Some d \<and> gepValue V (snd key)
      | CLoad \<Rightarrow> \<exists>key. ptrMap gs key = Some d \<and> \<not> gepValue V (snd key)
      | CCopy \<Rightarrow> addrNode (genGraph gs) s \<or> (\<exists>key. ptrMap gs key = Some d \<and> \<not> gepValue V (snd key)) \<or> (\<exists>key. retPtrMap gs key = Some d)
      | CStore \<Rightarrow> \<exists>key. ptrMap gs key = Some d
      | CAddrOf \<Rightarrow> addrNode (genGraph gs) d
      | CSpecial \<Rightarrow> False)"

definition flow_ok :: "'x value_view_scheme \<Rightarrow> gen_state \<Rightarrow> bool" where
  "flow_ok V gs \<longleftrightarrow> (\<forall>k s d. edge (genGraph gs) k s d \<longrightarrow> edge_fits V gs k s d)"

definition tables_ok :: "'x value_view_scheme \<Rightarrow> gen_state \<Rightarrow> bool" where
  "tables_ok V gs \<longleftrightarrow>
     (\<forall>key n. ptrMap gs key = Some n \<or> retPtrMap gs key = Some n \<longrightarrow>
        n < getNodeNum (genGraph gs) \<and> cgKind (cgNode (genGraph gs) n) = PtrNode (Some (snd key))) \<and>
     (\<forall>key key' n. ptrMap gs key = Some n \<longrightarrow> ptrMap gs key' = Some n \<longrightarrow> key = key') \<and>
     (\<forall>key key' n. ptrMap gs key = Some n \<longrightarrow> retPtrMap gs key' \<noteq> Some n) \<and>
     ptrMap gs (GlobCtx, nullValue (memEnv V)) = Some (nullPtrNode gs) \<and>
     ptrMap gs (GlobCtx, undefValue (memEnv V)) = Some (uniPtrNode gs)"

definition gen_ok :: "'x value_view_scheme \<Rightarrow> gen_state \<Rightarrow> bool" where
  "gen_ok V gs \<longleftrightarrow> alloc_ok (memEnv V) (allocState gs) \<and> flat (genGraph gs) \<and> tables_ok V gs \<and> flow_ok V gs"

abbreviation genMem :: "gen_state \<Rightarrow> fs_mem" where
  "genMem gs \<equiv> fst (allocState gs)"

lemma tables_okD:
  assumes "tables_ok V gs"
  shows "ptrMap gs key = Some n \<Longrightarrow> n < getNodeNum (genGraph gs)" "retPtrMap gs key = Some n \<Longrightarrow> n < getNodeNum (genGraph gs)"
    "ptrMap gs key = Some n \<Longrightarrow> cgKind (cgNode (genGraph gs) n) = PtrNode (Some (snd key))"
    "retPtrMap gs key = Some n \<Longrightarrow> cgKind (cgNode (genGraph gs) n) = PtrNode (Some (snd key))"
    "ptrMap gs key = Some n \<Longrightarrow> ptrMap gs key' = Some n \<Longrightarrow> key = key'"
    "ptrMap gs key = Some n \<Longrightarrow> retPtrMap gs key' \<noteq> Some n"
    "ptrMap gs (GlobCtx, nullValue (memEnv V)) = Some (nullPtrNode gs)" "ptrMap gs (GlobCtx, undefValue (memEnv V)) = Some (uniPtrNode gs)"
  using assms unfolding tables_ok_def by blast+

lemma gen_okD:
  assumes "gen_ok V gs"
  shows "alloc_ok (memEnv V) (allocState gs)" "flat (genGraph gs)" "tables_ok V gs" "flow_ok V gs"
    "graph_wf (genGraph gs, genPts gs)" "cg_ok (genGraph gs)"
proof -
  show "alloc_ok (memEnv V) (allocState gs)" "flat (genGraph gs)" "tables_ok V gs" "flow_ok V gs" using assms by (simp_all add: gen_ok_def)
  then show "graph_wf (genGraph gs, genPts gs)" by (auto simp: alloc_ok_def genGraph_def genPts_def split: prod.splits)
  then show "cg_ok (genGraph gs)" by (simp add: graph_wf_def)
qed

lemma ptrNode_key:
  assumes "tables_ok V gs" and "ptrNode V gs C v = Some n"
  shows "\<exists>key. ptrMap gs key = Some n \<and> snd key = canonOf V v"
proof (cases "specialPtr V (canonOf V v) gs")
  case None
  then show ?thesis using assms(2) by (auto simp: ptrNode_def ptrKey_def)
next
  case (Some m)
  then have "canonOf V v = undefValue (memEnv V) \<and> n = uniPtrNode gs \<or> canonOf V v = nullValue (memEnv V) \<and> n = nullPtrNode gs"
    using assms(2) by (auto simp: ptrNode_def specialPtr_def split: if_splits)
  then show ?thesis using tables_okD(7,8) [OF assms(1)] by (metis snd_conv)
qed

section \<open>Steps\<close>

definition mem_keeps :: "fs_mem \<Rightarrow> fs_mem \<Rightarrow> bool" where
  "mem_keeps mem mem' \<longleftrightarrow> memBlockMap mem \<subseteq>\<^sub>m memBlockMap mem' \<and> length (fsObjs mem) \<le> length (fsObjs mem') \<and>
     (\<forall>obj < length (fsObjs mem). objBlock (fsObjs mem' ! obj) = objBlock (fsObjs mem ! obj))"

lemma extends_keeps: "mem_extends mem mem' \<Longrightarrow> mem_keeps mem mem'"
  by (auto simp: mem_extends_def mem_keeps_def map_le_def dom_def nth_append)

text \<open>Pointers only for the keys in \<open>A\<close>, blocks for those in \<open>B\<close>, returned values for those in \<open>R\<close>.\<close>

definition gen_step ::
  "'x value_view_scheme \<Rightarrow> (ctx_ptr \<times> llvm_value) set \<Rightarrow> (ctx_ptr \<times> llvm_value) set \<Rightarrow> (ctx_ptr \<times> llvm_value) set \<Rightarrow>
     gen_state \<Rightarrow> gen_state \<Rightarrow> bool" where
  "gen_step V A B R gs gs' \<longleftrightarrow> gen_ok V gs' \<and> nodes_grow (genGraph gs) (genGraph gs') \<and>
     ptrMap gs \<subseteq>\<^sub>m ptrMap gs' \<and> dom (ptrMap gs') \<subseteq> dom (ptrMap gs) \<union> A \<and>
     retPtrMap gs \<subseteq>\<^sub>m retPtrMap gs' \<and> dom (retPtrMap gs') \<subseteq> dom (retPtrMap gs) \<union> R \<and>
     mem_keeps (genMem gs) (genMem gs') \<and> dom (memBlockMap (genMem gs')) \<subseteq> dom (memBlockMap (genMem gs)) \<union> B \<and>
     nullPtrNode gs' = nullPtrNode gs \<and> uniPtrNode gs' = uniPtrNode gs"

lemma gen_stepD:
  assumes "gen_step V A B R gs gs'"
  shows "gen_ok V gs'" "nodes_grow (genGraph gs) (genGraph gs')" "ptrMap gs key = Some n \<Longrightarrow> ptrMap gs' key = Some n"
    "retPtrMap gs key = Some n \<Longrightarrow> retPtrMap gs' key = Some n" "mem_keeps (genMem gs) (genMem gs')"
    "ptrMap gs' key = Some n \<Longrightarrow> ptrMap gs key \<noteq> None \<or> key \<in> A" "retPtrMap gs' key = Some n \<Longrightarrow> retPtrMap gs key \<noteq> None \<or> key \<in> R"
    "memBlockMap (genMem gs') key = Some b \<Longrightarrow> memBlockMap (genMem gs) key \<noteq> None \<or> key \<in> B"
    "nullPtrNode gs' = nullPtrNode gs" "uniPtrNode gs' = uniPtrNode gs"
proof -
  note a = assms [unfolded gen_step_def]
  show "gen_ok V gs'" "nodes_grow (genGraph gs) (genGraph gs')" "mem_keeps (genMem gs) (genMem gs')"
    "nullPtrNode gs' = nullPtrNode gs" "uniPtrNode gs' = uniPtrNode gs" using a by blast+
  show "ptrMap gs' key = Some n" if "ptrMap gs key = Some n" using a that by (metis domI map_le_def)
  show "retPtrMap gs' key = Some n" if "retPtrMap gs key = Some n" using a that by (metis domI map_le_def)
  show "ptrMap gs key \<noteq> None \<or> key \<in> A" if "ptrMap gs' key = Some n" using a that by (blast dest: domI)
  show "retPtrMap gs key \<noteq> None \<or> key \<in> R" if "retPtrMap gs' key = Some n" using a that by (blast dest: domI)
  show "memBlockMap (genMem gs) key \<noteq> None \<or> key \<in> B" if "memBlockMap (genMem gs') key = Some b" using a that by (blast dest: domI)
qed

lemma gen_step_refl: "gen_ok V gs \<Longrightarrow> gen_step V A B R gs gs"
  by (auto simp: gen_step_def nodes_grow_refl mem_keeps_def)

lemma mem_keeps_trans: "mem_keeps a b \<Longrightarrow> mem_keeps b c \<Longrightarrow> mem_keeps a c"
  unfolding mem_keeps_def by (auto intro: map_le_trans)

lemma gen_step_trans:
  assumes "gen_step V A B R a b" and "gen_step V A B R b c"
  shows "gen_step V A B R a c"
proof -
  note x = assms(1) [unfolded gen_step_def] and y = assms(2) [unfolded gen_step_def]
  have "nodes_grow (genGraph a) (genGraph c)" using x y by (blast intro: nodes_grow_trans)
  moreover have "ptrMap a \<subseteq>\<^sub>m ptrMap c" "retPtrMap a \<subseteq>\<^sub>m retPtrMap c" using x y by (blast intro: map_le_trans)+
  moreover have "mem_keeps (genMem a) (genMem c)" using x y by (blast intro: mem_keeps_trans)
  moreover have "dom (ptrMap c) \<subseteq> dom (ptrMap a) \<union> A" "dom (retPtrMap c) \<subseteq> dom (retPtrMap a) \<union> R"
    "dom (memBlockMap (genMem c)) \<subseteq> dom (memBlockMap (genMem a)) \<union> B" using x y by blast+
  ultimately show ?thesis using x y unfolding gen_step_def by simp
qed

lemma gen_step_mono: "gen_step V A B R gs gs' \<Longrightarrow> A \<subseteq> A' \<Longrightarrow> B \<subseteq> B' \<Longrightarrow> R \<subseteq> R' \<Longrightarrow> gen_step V A' B' R' gs gs'"
  unfolding gen_step_def by blast

lemma ptrNode_step: "gen_step V A B R gs gs' \<Longrightarrow> ptrNode V gs C v = Some n \<Longrightarrow> ptrNode V gs' C v = Some n"
proof -
  assume step: "gen_step V A B R gs gs'" and n: "ptrNode V gs C v = Some n"
  have "specialPtr V w gs' = specialPtr V w gs" for w using gen_stepD(9,10) [OF step] by (simp add: specialPtr_def)
  then show ?thesis using n gen_stepD(3) [OF step] by (auto simp: ptrNode_def split: option.splits)
qed

lemma edge_fits_grow:
  assumes "edge_fits V gs k s d" and "nodes_grow (genGraph gs) (genGraph gs')" and "ptrMap gs \<subseteq>\<^sub>m ptrMap gs'" and "retPtrMap gs \<subseteq>\<^sub>m retPtrMap gs'"
  shows "edge_fits V gs' k s d"
proof -
  have "ptrMap gs key = Some n \<Longrightarrow> ptrMap gs' key = Some n" "retPtrMap gs key = Some n \<Longrightarrow> retPtrMap gs' key = Some n" for key n
    using assms(3,4) by (metis domI map_le_def)+
  moreover have "addrNode (genGraph gs) n \<Longrightarrow> addrNode (genGraph gs') n" for n by (rule objVec_grow(2) [OF assms(2)])
  ultimately show ?thesis using assms(1) unfolding edge_fits_def by (cases k) (simp_all, blast+)
qed

lemma gen_update:
  assumes ok: "gen_ok V gs" and st: "alloc_ok (memEnv V) (allocState gs')" and grow: "nodes_grow (genGraph gs) (genGraph gs')"
    and maps: "ptrMap gs \<subseteq>\<^sub>m ptrMap gs'" "retPtrMap gs \<subseteq>\<^sub>m retPtrMap gs'" and tables: "tables_ok V gs'"
    and flow: "\<And>k s d. edge (genGraph gs') k s d \<Longrightarrow> edge (genGraph gs) k s d \<or> edge_fits V gs' k s d"
  shows "gen_ok V gs'"
proof -
  have "edge_fits V gs' k s d" if "edge (genGraph gs') k s d" for k s d
  proof -
    have "edge_fits V gs' k s d" if "edge (genGraph gs) k s d"
      using gen_okD(4) [OF ok] that by (intro edge_fits_grow [OF _ grow maps]) (simp add: flow_ok_def)
    then show ?thesis using flow [OF that] by blast
  qed
  then show ?thesis using st flat_grows [OF gen_okD(2) [OF ok] grow] tables by (simp add: gen_ok_def flow_ok_def)
qed

text \<open>Allocation leaves the tables alone and adds only what fits.\<close>

lemma tables_grow:
  assumes "tables_ok V gs" and "nodes_grow (genGraph gs) (genGraph gs')" and "ptrMap gs' = ptrMap gs" and "retPtrMap gs' = retPtrMap gs"
    and "nullPtrNode gs' = nullPtrNode gs" and "uniPtrNode gs' = uniPtrNode gs"
  shows "tables_ok V gs'"
  using assms(1) nodes_growD(1,3) [OF assms(2)] unfolding tables_ok_def assms(3-6) by (metis order_less_le_trans)

lemma gen_memory:
  assumes ok: "gen_ok V gs" and st: "allocState gs = (mem, g, p)" and st': "alloc_ok (memEnv V) (mem', g', p')"
    and grow: "nodes_grow g g'" "addr_only g g'" and keeps: "mem_keeps mem mem'" and map: "dom (memBlockMap mem') \<subseteq> dom (memBlockMap mem) \<union> B"
  shows "gen_step V A B R gs (gs\<lparr> allocState := (mem', g', p') \<rparr>)"
proof -
  let ?gs = "gs\<lparr> allocState := (mem', g', p') \<rparr>"
  have g: "genGraph gs = g" "genGraph ?gs = g'" "genMem gs = mem" "genMem ?gs = mem'" using st by (simp_all add: genGraph_def)
  have "gen_ok V ?gs"
  proof (rule gen_update [OF ok])
    show "tables_ok V ?gs" by (rule tables_grow [OF gen_okD(3) [OF ok]]) (simp_all add: g grow(1))
    show "edge (genGraph gs) k s d \<or> edge_fits V ?gs k s d" if "edge (genGraph ?gs) k s d" for k s d
      using that grow(2) [unfolded addr_only_def, rule_format, of k s d] by (auto simp: g edge_fits_def)
  qed (simp_all add: st' g grow(1))
  then show ?thesis using grow(1) keeps map by (auto simp: gen_step_def g)
qed

lemma gen_allocates:
  assumes ok: "gen_ok V gs" and st: "allocState gs = st" and a: "allocates (memEnv V) c v T st n st'"
  shows "gen_step V A {(c, the v)} R gs (gs\<lparr> allocState := st' \<rparr>)" and "T = AAnonymous \<Longrightarrow> gen_step V A {} R gs (gs\<lparr> allocState := st' \<rparr>)"
proof -
  obtain mem g p mem' g' p' where s: "st = (mem, g, p)" "st' = (mem', g', p')" by (cases st, cases st') auto
  have al: "allocates (memEnv V) c v T (mem, g, p) n (mem', g', p')" using a by (simp only: s)
  have wf: "graph_wf (g, p)" using gen_okD(5) [OF ok] st s(1) by (simp add: genGraph_def genPts_def)
  have ok': "alloc_ok (memEnv V) (mem', g', p')" "mem_keeps mem mem'" "memBlockMap mem' = newKey c v T mem"
    using al extends_keeps by (auto simp: allocates_def)
  note grow = allocates_grows [OF al wf]
  show "gen_step V A {(c, the v)} R gs (gs\<lparr> allocState := st' \<rparr>)"
    unfolding s(2) by (rule gen_memory [OF ok st [unfolded s(1)] ok'(1) grow ok'(2)]) (auto simp: ok'(3) newKey_def)
  show "gen_step V A {} R gs (gs\<lparr> allocState := st' \<rparr>)" if "T = AAnonymous"
    unfolding s(2) by (rule gen_memory [OF ok st [unfolded s(1)] ok'(1) grow ok'(2)]) (simp add: ok'(3) newKey_def that)
qed

section \<open>New pointers\<close>

lemma addNode_state_ok:
  assumes ok: "gen_ok V gs"
  shows "\<exists>st'. addNode v gs = Inr (getNodeNum (genGraph gs), gs\<lparr> allocState := (genMem gs, st') \<rparr>) \<and>
    alloc_ok (memEnv V) (genMem gs, st') \<and> nodes_grow (genGraph gs) (fst st') \<and> getNodeNum (fst st') = Suc (getNodeNum (genGraph gs)) \<and>
    cgKind (cgNode (fst st') (getNodeNum (genGraph gs))) = PtrNode v \<and> (\<forall>k s d. edge (fst st') k s d \<longleftrightarrow> edge (genGraph gs) k s d)"
proof -
  obtain mem g p where st: "allocState gs = (mem, g, p)" by (cases "allocState gs") auto
  have g: "genGraph gs = g" "genPts gs = p" using st by (simp_all add: genGraph_def genPts_def)
  from new_pointer_grows [OF gen_okD(5) [OF ok], of v] obtain g' where
    g': "addPtrNode v (g, p) = Inr (getNodeNum g, g', p @ [[]])" "graph_wf (g', p @ [[]])" "nodes_grow g g'" "getNodeNum g' = Suc (getNodeNum g)"
      "cgKind (cgNode g' (getNodeNum g)) = PtrNode v" "objVec g' = objVec g" "\<forall>k s d. edge g' k s d \<longleftrightarrow> edge g k s d" unfolding g by blast
  have "alloc_ok (memEnv V) (mem, g', p @ [[]])" using gen_okD(1) [OF ok] g'(2,6) by (simp add: alloc_ok_def st)
  then show ?thesis using g' by (auto simp: addNode_def st g)
qed

lemma newPtrNode_ok:
  assumes ok: "gen_ok V gs" and new: "ptrMap gs key = None"
  shows "\<exists>gs'. newPtrNode key gs = Inr (getNodeNum (genGraph gs), gs') \<and> gen_step V {key} B R gs gs' \<and> ptrMap gs' key = Some (getNodeNum (genGraph gs))"
proof -
  let ?n = "getNodeNum (genGraph gs)"
  from addNode_state_ok [OF ok, of "Some (snd key)"] obtain st' where
    a: "addNode (Some (snd key)) gs = Inr (?n, gs\<lparr> allocState := (genMem gs, st') \<rparr>)" "alloc_ok (memEnv V) (genMem gs, st')"
      "nodes_grow (genGraph gs) (fst st')" "getNodeNum (fst st') = Suc ?n" "cgKind (cgNode (fst st') ?n) = PtrNode (Some (snd key))"
      "\<And>k s d. edge (fst st') k s d \<longleftrightarrow> edge (genGraph gs) k s d" by blast
  define gs' where "gs' = gs\<lparr> allocState := (genMem gs, st'), ptrMap := (ptrMap gs)(key \<mapsto> ?n) \<rparr>"
  have g': "genGraph gs' = fst st'" "genMem gs' = genMem gs" by (simp_all add: gs'_def genGraph_def)
  have f: "ptrMap gs' = (ptrMap gs)(key \<mapsto> ?n)" "retPtrMap gs' = retPtrMap gs" "nullPtrNode gs' = nullPtrNode gs" "uniPtrNode gs' = uniPtrNode gs"
    by (simp_all add: gs'_def)
  note T = tables_okD [OF gen_okD(3) [OF ok]]
  have le: "ptrMap gs \<subseteq>\<^sub>m ptrMap gs'" using new by (auto simp: gs'_def map_le_def dom_def)
  have old: "m < ?n" if "ptrMap gs k = Some m \<or> retPtrMap gs k = Some m" for k m using that T(1,2) by blast
  then have unused: "ptrMap gs k \<noteq> Some ?n" "retPtrMap gs k \<noteq> Some ?n" for k by blast+
  have "tables_ok V gs'"
    unfolding tables_ok_def
  proof (intro conjI allI impI)
    fix k m assume "ptrMap gs' k = Some m \<or> retPtrMap gs' k = Some m"
    then have "k = key \<and> m = ?n \<or> ptrMap gs k = Some m \<or> retPtrMap gs k = Some m" by (auto simp: gs'_def split: if_splits)
    then have "m < Suc ?n \<and> cgKind (cgNode (fst st') m) = PtrNode (Some (snd k))"
    proof
      assume "ptrMap gs k = Some m \<or> retPtrMap gs k = Some m"
      then have "m < ?n" "cgKind (cgNode (genGraph gs) m) = PtrNode (Some (snd k))" using old T(3,4) by blast+
      then show ?thesis using nodes_growD(3) [OF a(3)] by simp
    qed (simp add: a(5))
    then show "m < getNodeNum (genGraph gs')" "cgKind (cgNode (genGraph gs') m) = PtrNode (Some (snd k))" by (simp_all add: g' a(4))
  next
    fix k k' m assume "ptrMap gs' k = Some m" "ptrMap gs' k' = Some m"
    then show "k = k'" using T(5) [of k m k'] unused by (auto simp: gs'_def split: if_splits)
  next
    fix k k' m assume "ptrMap gs' k = Some m"
    then show "retPtrMap gs' k' \<noteq> Some m" using T(6) [of k m k'] unused(1) [of k] unused(2) [of k'] by (auto simp: gs'_def split: if_splits)
  next
    have "ptrMap gs' k = Some m" if "ptrMap gs k = Some m" for k m using le that by (metis domI map_le_def)
    then show "ptrMap gs' (GlobCtx, nullValue (memEnv V)) = Some (nullPtrNode gs')" "ptrMap gs' (GlobCtx, undefValue (memEnv V)) = Some (uniPtrNode gs')"
      using T(7,8) by (simp_all add: gs'_def)
  qed
  then have "gen_ok V gs'" using a(2,3,6) le by (intro gen_update [OF ok]) (simp_all add: gs'_def genGraph_def)
  then have "gen_step V {key} B R gs gs'" using a(3) le by (auto simp: gen_step_def g' f mem_keeps_def)
  moreover have "newPtrNode key gs = Inr (?n, gs')" using a(1) by (simp add: newPtrNode_def gs'_def)
  ultimately show ?thesis by (auto simp: gs'_def)
qed

lemma getOrCreatePtrNode_ok:
  assumes rk: "ranked V" and ok: "gen_ok V gs"
  shows "\<exists>n gs'. getOrCreatePtrNode V C v gs = Inr (n, gs') \<and> gen_step V {ptrKey V C (canonOf V v)} B R gs gs' \<and> ptrNode V gs' C v = Some n"
proof (cases "ptrNode V gs C v")
  case None
  then have sp: "specialPtr V (canonOf V v) gs = None" and new: "ptrMap gs (ptrKey V C (canonOf V v)) = None"
    by (auto simp: ptrNode_def split: option.splits)
  from newPtrNode_ok [OF ok new] obtain gs' where
    n: "newPtrNode (ptrKey V C (canonOf V v)) gs = Inr (getNodeNum (genGraph gs), gs')" "gen_step V {ptrKey V C (canonOf V v)} B R gs gs'"
      "ptrMap gs' (ptrKey V C (canonOf V v)) = Some (getNodeNum (genGraph gs))" by blast
  have "specialPtr V (canonOf V v) gs' = None" using sp by (simp add: specialPtr_def split: if_splits)
  then show ?thesis using n None by (auto simp: getOrCreatePtrNode_eq [OF rk] ptrNode_def)
next
  case (Some n)
  then show ?thesis using gen_step_refl [OF ok] by (auto simp: getOrCreatePtrNode_eq [OF rk])
qed

lemma createPtrNode_ok:
  assumes rk: "ranked V" and ok: "gen_ok V gs" and plain: "canonOf V v \<noteq> nullValue (memEnv V)" "canonOf V v \<noteq> undefValue (memEnv V)"
    and new: "ptrMap gs (ptrKey V C (canonOf V v)) = None"
  shows "\<exists>n gs'. createPtrNode V C v gs = Inr (n, gs') \<and> gen_step V {ptrKey V C (canonOf V v)} B R gs gs' \<and> ptrNode V gs' C v = Some n"
proof -
  from newPtrNode_ok [OF ok new] obtain gs' where
    n: "newPtrNode (ptrKey V C (canonOf V v)) gs = Inr (getNodeNum (genGraph gs), gs')" "gen_step V {ptrKey V C (canonOf V v)} B R gs gs'"
      "ptrMap gs' (ptrKey V C (canonOf V v)) = Some (getNodeNum (genGraph gs))" by blast
  have "specialPtr V (canonOf V v) s = None" for s using plain by (simp add: specialPtr_def)
  then show ?thesis using n new by (auto simp: createPtrNode_def canonicalize_canonOf [OF rk] ptrNode_def)
qed

lemma createRetNode_ok:
  assumes ok: "gen_ok V gs" and new: "retPtrMap gs (C, F) = None"
  shows "\<exists>n gs'. createRetNode C F gs = Inr (n, gs') \<and> gen_step V A B {(C, F)} gs gs' \<and> retPtrMap gs' (C, F) = Some n"
proof -
  let ?n = "getNodeNum (genGraph gs)"
  from addNode_state_ok [OF ok, of "Some F"] obtain st' where
    a: "addNode (Some F) gs = Inr (?n, gs\<lparr> allocState := (genMem gs, st') \<rparr>)" "alloc_ok (memEnv V) (genMem gs, st')"
      "nodes_grow (genGraph gs) (fst st')" "getNodeNum (fst st') = Suc ?n" "cgKind (cgNode (fst st') ?n) = PtrNode (Some F)"
      "\<And>k s d. edge (fst st') k s d \<longleftrightarrow> edge (genGraph gs) k s d" by blast
  define gs' where "gs' = gs\<lparr> allocState := (genMem gs, st'), retPtrMap := (retPtrMap gs)((C, F) \<mapsto> ?n) \<rparr>"
  have g': "genGraph gs' = fst st'" "genMem gs' = genMem gs" by (simp_all add: gs'_def genGraph_def)
  have f: "retPtrMap gs' = (retPtrMap gs)((C, F) \<mapsto> ?n)" "ptrMap gs' = ptrMap gs" "nullPtrNode gs' = nullPtrNode gs" "uniPtrNode gs' = uniPtrNode gs"
    by (simp_all add: gs'_def)
  note T = tables_okD [OF gen_okD(3) [OF ok]]
  have le: "retPtrMap gs \<subseteq>\<^sub>m retPtrMap gs'" using new by (auto simp: gs'_def map_le_def dom_def)
  have old: "m < ?n" if "ptrMap gs k = Some m \<or> retPtrMap gs k = Some m" for k m using that T(1,2) by blast
  then have unused: "ptrMap gs k \<noteq> Some ?n" "retPtrMap gs k \<noteq> Some ?n" for k by blast+
  have "tables_ok V gs'"
    unfolding tables_ok_def
  proof (intro conjI allI impI)
    fix k m assume "ptrMap gs' k = Some m \<or> retPtrMap gs' k = Some m"
    then have "k = (C, F) \<and> m = ?n \<or> ptrMap gs k = Some m \<or> retPtrMap gs k = Some m" by (auto simp: gs'_def split: if_splits)
    then have "m < Suc ?n \<and> cgKind (cgNode (fst st') m) = PtrNode (Some (snd k))"
    proof
      assume "ptrMap gs k = Some m \<or> retPtrMap gs k = Some m"
      then have "m < ?n" "cgKind (cgNode (genGraph gs) m) = PtrNode (Some (snd k))" using old T(3,4) by blast+
      then show ?thesis using nodes_growD(3) [OF a(3)] by simp
    qed (simp add: a(5))
    then show "m < getNodeNum (genGraph gs')" "cgKind (cgNode (genGraph gs') m) = PtrNode (Some (snd k))" by (simp_all add: g' a(4))
  next
    fix k k' m assume "ptrMap gs' k = Some m" "ptrMap gs' k' = Some m"
    then show "k = k'" using T(5) by (simp add: gs'_def)
  next
    fix k k' m assume "ptrMap gs' k = Some m"
    then show "retPtrMap gs' k' \<noteq> Some m" using T(6) [of k m k'] unused(1) [of k] unused(2) [of k'] by (auto simp: gs'_def split: if_splits)
  next
    show "ptrMap gs' (GlobCtx, nullValue (memEnv V)) = Some (nullPtrNode gs')" "ptrMap gs' (GlobCtx, undefValue (memEnv V)) = Some (uniPtrNode gs')"
      using T(7,8) by (simp_all add: gs'_def)
  qed
  then have "gen_ok V gs'" using a(2,3,6) le by (intro gen_update [OF ok]) (simp_all add: gs'_def genGraph_def)
  then have "gen_step V A B {(C, F)} gs gs'" using a(3) le by (auto simp: gen_step_def g' f mem_keeps_def)
  moreover have "createRetNode C F gs = Inr (?n, gs')" using a(1) new by (simp add: createRetNode_def gs'_def)
  ultimately show ?thesis by (auto simp: gs'_def)
qed

section \<open>New edges\<close>

lemma addEdge_ok:
  assumes ok: "gen_ok V gs" and s: "s < getNodeNum (genGraph gs)" and d: "(\<exists>key. ptrMap gs key = Some d) \<or> (\<exists>key. retPtrMap gs key = Some d)"
    and obj: "k = CAddrOf \<Longrightarrow> isObjKind (cgKind (cgNode (genGraph gs) s))" and fits: "k \<noteq> CAddrOf \<Longrightarrow> edge_fits V gs k s d"
  shows "\<exists>gs'. addEdge s d k gs = Inr gs' \<and> gen_step V A B R gs gs' \<and> linked (genGraph gs') k s d"
proof -
  obtain mem g p where st: "allocState gs = (mem, g, p)" by (cases "allocState gs") auto
  have g: "genGraph gs = g" "genPts gs = p" using st by (simp_all add: genGraph_def genPts_def)
  note T = tables_okD [OF gen_okD(3) [OF ok]]
  have dn: "d < getNodeNum g" "\<exists>v. cgKind (cgNode g d) = PtrNode (Some v)" using d T(1-4) unfolding g by blast+
  from add_constraint [OF gen_okD(5) [OF ok] gen_okD(2) [OF ok], unfolded g, OF s [unfolded g] dn obj [unfolded g]] obtain ev g' where
    g': "addConstraints s d k g = Inr (ev, g')" "graph_wf (g', p)" "nodes_grow g g'" "linked g' k s d" "objVec g' = objVec g"
      "\<And>j x y. edge g' j x y \<Longrightarrow> edge g j x y \<or> j = consKind k \<and> x = consSrc g k s \<and> y = d" by blast
  define gs' where "gs' = gs\<lparr> allocState := (mem, g', p) \<rparr>"
  have n: "genGraph gs' = g'" "genMem gs' = genMem gs" "ptrMap gs' = ptrMap gs" "retPtrMap gs' = retPtrMap gs"
    "nullPtrNode gs' = nullPtrNode gs" "uniPtrNode gs' = uniPtrNode gs"
    by (simp_all add: gs'_def genGraph_def st)
  have new: "edge_fits V gs' (consKind k) (consSrc g k s) d"
  proof (cases "k = CAddrOf")
    case True
    then have "addrNode g (Suc s)" using object_addr(3) [OF gen_okD(6) [OF ok]] s obj unfolding g by blast
    then have "addrNode g' (Suc s)" by (rule objVec_grow(2) [OF g'(3)])
    then show ?thesis using True by (simp add: edge_fits_def consKind_def consSrc_def n)
  next
    case False
    then show ?thesis using edge_fits_grow [OF fits, of gs'] g'(3) by (simp add: consKind_def consSrc_def n g)
  qed
  have "gen_ok V gs'"
  proof (rule gen_update [OF ok])
    show "alloc_ok (memEnv V) (allocState gs')" using gen_okD(1) [OF ok] g'(2,5) by (simp add: gs'_def alloc_ok_def st)
    show "tables_ok V gs'" by (rule tables_grow [OF gen_okD(3) [OF ok]]) (simp_all add: n g g'(3))
    show "edge (genGraph gs) k s d \<or> edge_fits V gs' k s d" if "edge (genGraph gs') k s d" for k s d
      using g'(6) [of k s d] that new by (auto simp: n g)
  qed (simp_all add: n g g'(3))
  then have "gen_step V A B R gs gs'" using g'(3) by (simp add: gen_step_def n g mem_keeps_def)
  moreover have "addEdge s d k gs = Inr gs'" using g'(1) by (simp add: addEdge_def st gs'_def)
  ultimately show ?thesis using g'(4) by (auto simp: n)
qed

end
