(* ===== verification/CallCons.thy ===== *)
theory CallCons
  imports ConsGen
begin

text \<open>
  Calls and the whole program (ConsGraphBuilder.h, LangModelBase.h, CppMemModel.h and Vector.h of
  src/PointerAnalysis): the constraints of a call, what the memory model and the language model take over,
  globals, the construction of the graph, and the resolution of function pointers.
\<close>

section \<open>Vector functions\<close>

datatype vec_api = UNKNOWN | PUSH_BACK | IT_BEGIN | IT_END | OPERATOR_INDEX | CTOR | DTOR

definition VecAPIMap :: "(string \<times> vec_api) list" where
  "VecAPIMap = [(''push_back'', PUSH_BACK), (''begin'', IT_BEGIN), (''end'', IT_END), (''operator[]'', OPERATOR_INDEX),
     (''vector'', CTOR), (''~vector'', DTOR)]"

text \<open>The kind of a called function and the type of the elements; a name that cannot be demangled has no context.\<close>

definition vectorAPI :: "'x builder_view_scheme \<Rightarrow> llvm_value option \<Rightarrow> (vec_api \<times> ll_type option) result" where
  "vectorAPI V called =
     (case called of
        None \<Rightarrow> Inr (UNKNOWN, None)
      | Some F \<Rightarrow>
          (case declContextName V F of
             None \<Rightarrow> Inr (UNKNOWN, None)
           | Some funContext \<Rightarrow>
               if prefix ''std::vector'' funContext \<and> 0 < argSize (ptaModule V) F \<and> isPointerTy (ptaModule V) (getArg (ptaModule V) F 0) then
                 rbind (resolveVecElemType (envDL (memEnv V)) (pointeeType (memEnv V) (getArg (ptaModule V) F 0))) (\<lambda>T.
                 case T of
                   None \<Rightarrow> Inr (UNKNOWN, None)
                 | Some E \<Rightarrow>
                     if isSupportedElementType E
                     then Inr (case map_of VecAPIMap (functionBaseName V F) of Some k \<Rightarrow> k | None \<Rightarrow> UNKNOWN, Some E)
                     else Inr (UNKNOWN, Some E))
               else Inr (UNKNOWN, None)))"

definition calledAPI :: "'x builder_view_scheme \<Rightarrow> llvm_value \<Rightarrow> (vec_api \<times> ll_type option) result" where
  "calledAPI V I =
     (if isCallBase (ptaModule V) I then vectorAPI V (getCalledFunction (ptaModule V) I) else Inr (UNKNOWN, None))"

definition modelVectorAPIs ::
  "'x builder_view_scheme \<Rightarrow> ctx_ptr \<Rightarrow> llvm_value \<Rightarrow> vec_api \<times> ll_type option \<Rightarrow> gen_state \<Rightarrow> gen_state result" where
  "modelVectorAPIs V C I = (\<lambda>(kind, vecElemType) gs.
     (case kind of
        PUSH_BACK \<Rightarrow>
          (case vecElemType of
             None \<Rightarrow> Inl NullDeref
           | Some E \<Rightarrow>
               if isPointerType E then
                 rbind (getPtrNode V C (getArgOperand (ptaModule V) I 0) gs) (\<lambda>vec.
                 rbind (getPtrNode V C (getArgOperand (ptaModule V) I 1) gs) (\<lambda>elem.
                 rbind (createAnonPtrNode None gs) (\<lambda>(loadedElem, gs).
                 rbind (addEdge elem loadedElem CLoad gs) (\<lambda>gs.
                 rbind (createAnonPtrNode (Some (I, [loadedElem])) gs) (\<lambda>(fake, gs).
                 addEdge vec fake CSpecial gs)))))
               else Inr gs)
      | IT_BEGIN \<Rightarrow>
          rbind (getPtrNode V C (getArgOperand (ptaModule V) I 0) gs) (\<lambda>vec.
          rbind (getPtrNode V C I gs) (\<lambda>idx. addEdge vec idx CSpecial gs))
      | OPERATOR_INDEX \<Rightarrow>
          rbind (getPtrNode V C (getArgOperand (ptaModule V) I 0) gs) (\<lambda>vec.
          rbind (getPtrNode V C I gs) (\<lambda>idx. addEdge vec idx CSpecial gs))
      | UNKNOWN \<Rightarrow> Inl Unreachable
      | _ \<Rightarrow> Inr gs))"

text \<open>The calls the memory model takes over; stores of vtables are recorded besides.\<close>

definition memInterceptCallSite :: "'x builder_view_scheme \<Rightarrow> ctx_ptr \<Rightarrow> llvm_value \<Rightarrow> gen_state \<Rightarrow> (bool \<times> gen_state) result" where
  "memInterceptCallSite V C I gs =
     (let M = ptaModule V in
      case envKind (memEnv V) of
        FSKind \<Rightarrow> Inr (False, gs)
      | CPPKind \<Rightarrow>
          rbind (if vtableMode (envOpts (memEnv V)) \<and> isCallBase M I \<and>
                 (case getCalledFunction M I of Some F \<Rightarrow> getName M F = ''.coderrect.vtable.init'' | None \<Rightarrow> False)
              then rbind (getPtrNode V C (getArgOperand M I 1) gs) (\<lambda>vptr.
                   rbind (getPtrNode V C (getArgOperand M I 0) gs) (\<lambda>src. addEdge src vptr CSpecial gs))
              else Inr gs) (\<lambda>gs.
          rbind (calledAPI V I) (\<lambda>api.
          if fst api \<noteq> UNKNOWN then rbind (modelVectorAPIs V C I api gs) (\<lambda>gs. Inr (True, gs)) else Inr (False, gs))))"

text \<open>What a special object adds when it turns up in the source of a special constraint.\<close>

definition ptrNodeValue :: "cons_graph \<Rightarrow> nat \<Rightarrow> llvm_value option" where
  "ptrNodeValue g n = (case cgKind (cgNode g n) of PtrNode v \<Rightarrow> v | ObjNode obj \<Rightarrow> None)"

definition vectorSpecial :: "'x builder_view_scheme \<Rightarrow> gen_state \<Rightarrow> nat \<Rightarrow> nat \<Rightarrow> (nat \<times> nat \<times> constraints) list result" where
  "vectorSpecial V gs elemNode dst =
     (case (case ptrNodeValue (genGraph gs) dst of Some v \<Rightarrow> Some v | None \<Rightarrow> map_option fst (nodeTags gs dst)) of
        None \<Rightarrow> Inl NullDeref
      | Some apiCall \<Rightarrow>
          rbind (calledAPI V apiCall) (\<lambda>(kind, _).
          case kind of
            PUSH_BACK \<Rightarrow> (case nodeTags gs dst of
                Some (_, [param]) \<Rightarrow> Inr [(param, elemNode, CCopy)] | _ \<Rightarrow> Inl AssertFailed)
          | IT_BEGIN \<Rightarrow> Inr [(elemNode, dst, CAddrOf)]
          | OPERATOR_INDEX \<Rightarrow> Inr [(elemNode, dst, CAddrOf)]
          | _ \<Rightarrow> Inr []))"

definition vtableSpecial :: "'x builder_view_scheme \<Rightarrow> gen_state \<Rightarrow> string \<Rightarrow> nat \<Rightarrow> nat \<Rightarrow> (nat \<times> nat \<times> constraints) list result" where
  "vtableSpecial V gs vtableName node vptr =
     (case ptrNodeValue (genGraph gs) vptr of
        None \<Rightarrow> Inl AssertFailed
      | Some v \<Rightarrow>
          let vtable = stripInBounds V v in
          if \<not> isVTableVariable (memEnv V) vtable then Inr []
          else if vtableName = [] \<or> getName (ptaModule V) vtable = vtableName then Inr [(vptr, node, CCopy)] else Inr [])"

definition processSpecialObj :: "'x builder_view_scheme \<Rightarrow> gen_state \<Rightarrow> nat \<Rightarrow> nat \<Rightarrow> (nat \<times> nat \<times> constraints) list result" where
  "processSpecialObj V gs obj dst =
     (let mem = fst (allocState gs) in
      case objKind (fsObjs mem ! obj) of
        VectorObj T elem \<Rightarrow> rbind (getObjNode mem elem) (\<lambda>n. vectorSpecial V gs n dst)
      | VTablePtrObj name \<Rightarrow> rbind (getObjNode mem obj) (\<lambda>n. vtableSpecial V gs name n dst)
      | _ \<Rightarrow> Inr [])"

section \<open>The language model\<close>

datatype indirect_option = SKIP | WITH_LIMIT | CRITICAL

text \<open>What a language model decides, over the state of the builder.\<close>

record lang_hooks =
  hookHeapAllocAPI :: "llvm_value \<Rightarrow> bool"
  hookHeapAllocSite :: "ctx_ptr \<Rightarrow> llvm_value \<Rightarrow> llvm_value \<Rightarrow> gen_state \<Rightarrow> gen_state result"
  hookFunction :: "llvm_value \<Rightarrow> llvm_value \<Rightarrow> (llvm_value option \<times> intercept_option) result"
  hookCallSite :: "ctx_ptr \<Rightarrow> ctx_ptr \<Rightarrow> llvm_value \<Rightarrow> llvm_value option \<Rightarrow> llvm_value \<Rightarrow> gen_state \<Rightarrow> (bool \<times> gen_state) result"
  hookCompatible :: "llvm_value \<Rightarrow> llvm_value \<Rightarrow> bool result"
  hookIndirect :: "llvm_value \<Rightarrow> llvm_value \<Rightarrow> indirect_option"

text \<open>A pointer parameter of the entry points to an object of its own.\<close>

definition interceptEntryArg :: "'x builder_view_scheme \<Rightarrow> llvm_value \<Rightarrow> gen_state \<Rightarrow> gen_state result" where
  "interceptEntryArg V a gs =
     (if isPointerTy (ptaModule V) a then
        rbind (allocAnonObj (memEnv V) InitCtx (Some (getUnboundedArrayTy (pointeeType (memEnv V) a))) (Some a) True (allocState gs)) (\<lambda>(n, st).
        let gs = gs\<lparr> allocState := st \<rparr> in
        rbind (getPtrNode V InitCtx a gs) (\<lambda>ptrNode.
        case n of None \<Rightarrow> Inl NullDeref | Some obj \<Rightarrow> addEdge obj ptrNode CAddrOf gs))
      else Inr gs)"

definition interceptEntryFun :: "'x builder_view_scheme \<Rightarrow> llvm_value \<Rightarrow> gen_state \<Rightarrow> gen_state result" where
  "interceptEntryFun V entry = rfold (interceptEntryArg V) (argsOf (ptaModule V) entry)"

text \<open>The memory model lets every function through.\<close>

definition memInterceptFunction :: "llvm_value \<Rightarrow> llvm_value option \<times> intercept_option" where
  "memInterceptFunction F = (Some F, EXPAND_BODY)"

definition overrideFunction ::
  "'x builder_view_scheme \<Rightarrow> lang_hooks \<Rightarrow> llvm_value \<Rightarrow> llvm_value option \<Rightarrow> gen_state \<Rightarrow>
     ((llvm_value option \<times> intercept_option) \<times> gen_state) result" where
  "overrideFunction V H F callsite gs =
     (if hookHeapAllocAPI H F then Inr ((Some F, ONLY_CALLSITE), gs)
      else case callsite of
          None \<Rightarrow> rbind (interceptEntryFun V F gs) (\<lambda>gs. Inr ((Some F, EXPAND_BODY), gs))
        | Some I \<Rightarrow> rbind (hookFunction H F I) (\<lambda>r. Inr (r, gs)))"

definition overrideCallSite ::
  "'x builder_view_scheme \<Rightarrow> lang_hooks \<Rightarrow> ctx_ptr \<Rightarrow> ctx_ptr \<Rightarrow> llvm_value \<Rightarrow> llvm_value option \<Rightarrow> llvm_value \<Rightarrow> gen_state \<Rightarrow>
     (bool \<times> gen_state) result" where
  "overrideCallSite V H callerCtx calleeCtx callee originalTarget I gs =
     rassert (ctxEvolve V callerCtx I = calleeCtx) AssertFailed
     (if hookHeapAllocAPI H callee then rbind (hookHeapAllocSite H callerCtx callee I gs) (\<lambda>gs. Inr (True, gs))
      else hookCallSite H callerCtx calleeCtx callee originalTarget I gs)"

section \<open>Calls\<close>

text \<open>Whether a function fits an indirect call: pointers fit each other, other types must be equal.\<close>

definition typesFit :: "'x builder_view_scheme \<Rightarrow> llvm_value \<Rightarrow> llvm_value \<Rightarrow> bool" where
  "typesFit V param arg \<longleftrightarrow>
     (let M = ptaModule V in
      if \<not> isPointerTy M param \<and> \<not> isPointerTy M arg \<and> typeId V param \<noteq> typeId V arg then False
      else isPointerTy M param = isPointerTy M arg)"

definition isLooslyCompatibleCall :: "'x builder_view_scheme \<Rightarrow> llvm_value \<Rightarrow> llvm_value \<Rightarrow> bool result" where
  "isLooslyCompatibleCall V I F =
     (let M = ptaModule V in
      rassert (isIndirectCall M I) AssertFailed
      (if typeId V (getCalledOperand M I) = typeId V F then Inr True
       else if \<not> isPointerTy M I \<and> \<not> returnsPointer V F \<and> typeId V I \<noteq> returnTypeId V F then Inr False
       else if isPointerTy M I \<noteq> returnsPointer V F then Inr False
       else if numArgOperands M I \<noteq> argSize M F \<and> \<not> isVarArg V F then Inr False
       else if isVarArg V F \<and> numArgOperands M I < argSize M F then Inr False
       else Inr (list_all (\<lambda>i. typesFit V (getArgOperand M I i) (getArg M F i)) [0..<argSize M F])))"

definition isCompatibleCall :: "'x builder_view_scheme \<Rightarrow> llvm_value \<Rightarrow> llvm_value \<Rightarrow> bool result" where
  "isCompatibleCall V indirectCall F =
     rassert (isCallBase (ptaModule V) indirectCall) AssertFailed (isLooslyCompatibleCall V indirectCall F)"

fun linkArgs :: "'x builder_view_scheme \<Rightarrow> ctx_ptr \<Rightarrow> ctx_ptr \<Rightarrow> llvm_value list \<Rightarrow> llvm_value list \<Rightarrow> gen_state \<Rightarrow> gen_state result" where
  "linkArgs V callerCtx calleeCtx (formal # fs) (actual # as) gs =
     rassert (isPointerTy (ptaModule V) formal = isPointerTy (ptaModule V) actual) AssertFailed
     (rbind (if isPointerTy (ptaModule V) actual then
          rbind (getOrCreatePtrNode V callerCtx actual gs) (\<lambda>(aNode, gs).
          rbind (getOrCreatePtrNode V calleeCtx formal gs) (\<lambda>(fNode, gs). addEdge aNode fNode CCopy gs))
        else Inr gs) (linkArgs V callerCtx calleeCtx fs as))"
| "linkArgs V callerCtx calleeCtx fs as gs = Inr gs"

definition callArgs :: "llvm_module \<Rightarrow> llvm_value \<Rightarrow> llvm_value list" where
  "callArgs M I = map (getArgOperand M I) [0..<numArgOperands M I]"

definition linkReturn :: "'x builder_view_scheme \<Rightarrow> ctx_ptr \<Rightarrow> ctx_ptr \<Rightarrow> llvm_value \<Rightarrow> llvm_value \<Rightarrow> gen_state \<Rightarrow> gen_state result" where
  "linkReturn V callerCtx calleeCtx F I gs =
     (case getReturnedArgOperand V I of
        Some rv \<Rightarrow>
          if isPointerTy (ptaModule V) rv then
            rbind (canonicalize V rv) (\<lambda>src. rbind (canonicalize V I) (\<lambda>dst. rassert (src = dst) AssertFailed (Inr gs)))
          else Inr gs
      | None \<Rightarrow>
          if returnsPointer V F \<and> isPointerTy (ptaModule V) I then
            rbind (getRetNode calleeCtx F gs) (\<lambda>src.
            rbind (getOrCreatePtrNode V callerCtx I gs) (\<lambda>(dst, gs). addEdge src dst CCopy gs))
          else Inr gs)"

definition processCallSite ::
  "'x builder_view_scheme \<Rightarrow> lang_hooks \<Rightarrow> ctx_ptr \<Rightarrow> llvm_value \<Rightarrow> ctx_ptr \<Rightarrow> llvm_value \<times> bool \<Rightarrow> llvm_value option \<Rightarrow> llvm_value \<Rightarrow>
     gen_state \<Rightarrow> gen_state result" where
  "processCallSite V H callerCtx caller calleeCtx = (\<lambda>(callee, ext) originalTarget I gs.
     rbind (memInterceptCallSite V callerCtx I gs) (\<lambda>(handled, gs).
     if handled then Inr gs
     else
       rbind (overrideCallSite V H callerCtx calleeCtx callee originalTarget I gs) (\<lambda>(handled, gs).
       if handled \<or> ext then Inr gs
       else
         let M = ptaModule V in
         rassert (isCallBase M I) AssertFailed
         (rbind (if csIsIndirectCall V I then Inr True else rbind (csCalledFunction V I) (\<lambda>f. Inr (f = Some callee))) (\<lambda>matches.
         rassert matches AssertFailed
         (rassert (getFunction M I = caller) AssertFailed
         (rassert (ctxEvolve V callerCtx I = calleeCtx) AssertFailed
         (rbind (if csIsIndirectCall V I then isCompatibleCall V I callee else Inr True) (\<lambda>fits.
         rassert fits AssertFailed
         (if isIntrinsic M callee \<or> isDeclaration M callee then Inr gs
          else rbind (linkArgs V callerCtx calleeCtx (argsOf M callee) (callArgs M I) gs) (linkReturn V callerCtx calleeCtx callee I)))))))))))"

section \<open>The client of the call graph\<close>

definition onCallEdge ::
  "'x builder_view_scheme \<Rightarrow> lang_hooks \<Rightarrow> call_node \<Rightarrow> call_node \<Rightarrow> llvm_value option \<Rightarrow> llvm_value \<Rightarrow> gen_state \<Rightarrow> gen_state result" where
  "onCallEdge V H n1 n2 originalTarget I gs =
     (if isIndirectNode n2 then Inr gs
      else
        rbind (getTargetFun n1) (\<lambda>(caller, _).
        rbind (getTargetFun n2) (\<lambda>callee.
        processCallSite V H (cnCtx n1) caller (cnCtx n2) callee originalTarget I gs)))"

definition builderCallbacks :: "'x builder_view_scheme \<Rightarrow> lang_hooks \<Rightarrow> gen_state callbacks" where
  "builderCallbacks V H =
     \<lparr> beforeNewNode = (\<lambda>calleeCtx callerCtx F callsite gs.
         if snd (memInterceptFunction F) = EXPAND_BODY then overrideFunction V H F callsite gs
         else Inr (memInterceptFunction F, gs)),
       onNewDirect = (\<lambda>n i gs. rbind (getTargetFun n) (\<lambda>(F, _). initFunction V (cnCtx n) F gs)),
       onNewInDirect = initIndirectCall V,
       onNewEdge = onCallEdge V H \<rparr>"

section \<open>The whole program\<close>

definition addGlobalVariable :: "'x builder_view_scheme \<Rightarrow> llvm_value \<Rightarrow> gen_state \<Rightarrow> gen_state result" where
  "addGlobalVariable V gVar gs =
     rbind (allocGlobalVariable (memEnv V) gVar (allocState gs)) (\<lambda>(obj, st).
     rbind (createPtrNode V GlobCtx gVar (gs\<lparr> allocState := st \<rparr>)) (\<lambda>(ptr, gs). addEdge obj ptr CAddrOf gs))"

definition addFunction :: "'x builder_view_scheme \<Rightarrow> llvm_value \<Rightarrow> gen_state \<Rightarrow> gen_state result" where
  "addFunction V fun gs =
     rbind (allocFunction fun (allocState gs)) (\<lambda>(obj, st).
     rbind (createPtrNode V GlobCtx fun (gs\<lparr> allocState := st \<rparr>)) (\<lambda>(ptr, gs). addEdge obj ptr CAddrOf gs))"

definition addGlobals :: "'x builder_view_scheme \<Rightarrow> llvm_value list \<Rightarrow> gen_state \<Rightarrow> gen_state result" where
  "addGlobals V globals gs =
     rbind (rfold (addGlobalVariable V) globals gs) (rfold (addFunction V) (getFunctionList (ptaModule V)))"

definition initGlobal :: "'x builder_view_scheme \<Rightarrow> llvm_value \<Rightarrow> gen_state \<Rightarrow> gen_state result" where
  "initGlobal V gVar gs =
     rbind (initializeGlobal (memEnv V) gVar (allocState gs)) (\<lambda>st. Inr (gs\<lparr> allocState := st \<rparr>))"

definition constructConsGraph ::
  "nat \<Rightarrow> 'x builder_view_scheme \<Rightarrow> lang_hooks \<Rightarrow> llvm_value list \<Rightarrow> string \<Rightarrow> gen_state \<Rightarrow> (ctx_module \<times> gen_state) option result" where
  "constructConsGraph fuel V H globals entryName gs =
     rbind (addGlobals V globals gs) (\<lambda>gs.
     rbind (rfold (initGlobal V) globals gs) (\<lambda>gs.
     buildInitCallGraph fuel V entryName (builderCallbacks V H) (newCtxModule, gs)))"

section \<open>Function pointers\<close>

definition objFunction :: "fs_mem \<Rightarrow> nat \<Rightarrow> llvm_value option result" where
  "objFunction mem obj =
     (case objBlock (fsObjs mem ! obj) of
        None \<Rightarrow> Inl NullDeref
      | Some b \<Rightarrow> Inr (if blkAlloc (fsBlocks mem ! b) = AFunctions then blkValue (fsBlocks mem ! b) else None))"

text \<open>One function a pointer has got, for one call through it.\<close>

definition resolveIndirect ::
  "nat \<Rightarrow> nat \<Rightarrow> 'x builder_view_scheme \<Rightarrow> lang_hooks \<Rightarrow> llvm_value \<Rightarrow> nat \<Rightarrow> bool \<times> ctx_module \<times> gen_state \<Rightarrow>
     (bool \<times> ctx_module \<times> gen_state) result" where
  "resolveIndirect fuel maxTargets V H target indirectNode = (\<lambda>(changed, cm, gs).
     (case cnSite (callNodes cm ! indirectNode) of
        None \<Rightarrow> Inl NullDeref
      | Some callsite \<Rightarrow>
          rbind (isInterceptedCallSite (callNodes cm ! indirectNode)) (\<lambda>intercepted.
          rbind (if intercepted then hookCompatible H callsite target else isCompatibleCall V callsite target) (\<lambda>compatible.
          if \<not> compatible \<or> hookIndirect H target callsite = SKIP then Inr (changed, cm, gs)
          else
            rbind (resolvedTo maxTargets indirectNode target (hookIndirect H target callsite = WITH_LIMIT) cm) (\<lambda>(newTarget, cm).
            if newTarget then
              rbind (resolveCallTo fuel V (builderCallbacks V H) indirectNode target (cm, gs)) (\<lambda>(cm, gs). Inr (True, cm, gs))
            else Inr (changed, cm, gs))))))"

text \<open>
  The calls through a pointer are a set that may grow meanwhile; the walk is in the order of the nodes' creation,
  so it meets those that are added.
\<close>

fun resolveThrough ::
  "nat \<Rightarrow> nat \<Rightarrow> nat \<Rightarrow> 'x builder_view_scheme \<Rightarrow> lang_hooks \<Rightarrow> nat \<Rightarrow> llvm_value \<Rightarrow> nat \<Rightarrow> bool \<times> ctx_module \<times> gen_state \<Rightarrow>
     (bool \<times> ctx_module \<times> gen_state) result" where
  "resolveThrough 0 fuel maxTargets V H funPtr target from st = Inl Diverges"
| "resolveThrough (Suc steps) fuel maxTargets V H funPtr target from st =
     (case filter (\<lambda>i. from \<le> i) (indirectNodes (cgNode (genGraph (snd (snd st))) funPtr)) of
        [] \<Rightarrow> Inr st
      | i # _ \<Rightarrow> rbind (resolveIndirect fuel maxTargets V H target i st) (resolveThrough steps fuel maxTargets V H funPtr target (Suc i)))"

definition updateFunPtrObj ::
  "nat \<Rightarrow> nat \<Rightarrow> nat \<Rightarrow> 'x builder_view_scheme \<Rightarrow> lang_hooks \<Rightarrow> nat \<Rightarrow> nat \<Rightarrow> bool \<times> ctx_module \<times> gen_state \<Rightarrow>
     (bool \<times> ctx_module \<times> gen_state) result" where
  "updateFunPtrObj steps fuel maxTargets V H funPtr obj = (\<lambda>(changed, cm, gs).
     rbind (getObjectNode (genGraph gs) obj) (\<lambda>_.
     rbind (objFunction (fst (allocState gs)) obj) (\<lambda>target.
     case target of
       None \<Rightarrow> Inr (changed, cm, gs)
     | Some F \<Rightarrow>
         rassert (classOf (ptaModule V) F = FunctionV) AssertFailed
         (resolveThrough steps fuel maxTargets V H funPtr F 0 (changed, cm, gs)))))"

definition updateFunPtrNode ::
  "nat \<Rightarrow> nat \<Rightarrow> nat \<Rightarrow> 'x builder_view_scheme \<Rightarrow> lang_hooks \<Rightarrow> nat \<Rightarrow> bool \<times> ctx_module \<times> gen_state \<Rightarrow>
     (bool \<times> ctx_module \<times> gen_state) result" where
  "updateFunPtrNode steps fuel maxTargets V H n = (\<lambda>(changed, cm, gs).
     rbind (getSuperNode (genGraph gs) n) (\<lambda>funPtr.
     rassert (isFunctionPtr (genGraph gs) funPtr) AssertFailed
     (rfold (updateFunPtrObj steps fuel maxTargets V H funPtr) (genPts gs ! funPtr) (changed, cm, gs))))"

definition updateFunPtrs ::
  "nat \<Rightarrow> nat \<Rightarrow> nat \<Rightarrow> 'x builder_view_scheme \<Rightarrow> lang_hooks \<Rightarrow> nat list \<Rightarrow> ctx_module \<times> gen_state \<Rightarrow> (bool \<times> ctx_module \<times> gen_state) result" where
  "updateFunPtrs steps fuel maxTargets V H funPtrs = (\<lambda>(cm, gs).
     rfold (updateFunPtrNode steps fuel maxTargets V H) funPtrs (False, cm, gs))"

end
