(* ===== verification/GenRules.thy ===== *)
theory GenRules
  imports GenOk CallCons
begin

text \<open>
  What the instructions of a program say about its pointers, and that visiting them puts it into the constraint graph.
\<close>

section \<open>Rules\<close>

text \<open>A pointer, the value a function returns, or the object of an allocation, each in a context; a rule relates two of them.\<close>

datatype place = PtrOf ctx_ptr llvm_value | RetOf ctx_ptr llvm_value | ObjOf ctx_ptr llvm_value

type_synonym gen_rule = "constraints \<times> place \<times> place"

text \<open>The nodes of a place.\<close>

definition placeAt :: "'x value_view_scheme \<Rightarrow> gen_state \<Rightarrow> place \<Rightarrow> nat \<Rightarrow> bool" where
  "placeAt V gs pl n \<longleftrightarrow>
     (case pl of
        PtrOf C v \<Rightarrow> ptrNode V gs C v = Some n
      | RetOf C F \<Rightarrow> retPtrMap gs (C, F) = Some n
      | ObjOf C v \<Rightarrow> \<exists>b obj. memBlockMap (genMem gs) (C, v) = Some b \<and> obj < length (objVec (genGraph gs)) \<and>
          objBlock (fsObjs (genMem gs) ! obj) = Some b \<and> n = objVec (genGraph gs) ! obj)"

definition holds :: "'x value_view_scheme \<Rightarrow> gen_state \<Rightarrow> gen_rule \<Rightarrow> bool" where
  "holds V gs = (\<lambda>(k, a, b). \<exists>s d. placeAt V gs a s \<and> placeAt V gs b d \<and> linked (genGraph gs) k s d)"

lemma objects_nodes:
  assumes "gen_ok V gs"
  shows "length (fsObjs (genMem gs)) = length (objVec (genGraph gs))"
proof -
  have "map objNode (fsObjs (genMem gs)) = map Some (objVec (genGraph gs))"
    using gen_okD(1) [OF assms] by (auto simp: alloc_ok_def genGraph_def split: prod.splits)
  then show ?thesis by (rule map_eq_imp_length_eq)
qed

lemma placeAt_step:
  assumes step: "gen_step V A B R gs gs'" and ok: "gen_ok V gs" and at: "placeAt V gs pl n"
  shows "placeAt V gs' pl n"
proof (cases pl)
  case (PtrOf C v)
  then show ?thesis using at ptrNode_step [OF step] by (simp add: placeAt_def)
next
  case (RetOf C F)
  then show ?thesis using at gen_stepD(4) [OF step] by (simp add: placeAt_def)
next
  case (ObjOf C v)
  then obtain b obj where o: "memBlockMap (genMem gs) (C, v) = Some b" "obj < length (objVec (genGraph gs))"
    "objBlock (fsObjs (genMem gs) ! obj) = Some b" "n = objVec (genGraph gs) ! obj" using at by (auto simp: placeAt_def)
  have k: "mem_keeps (genMem gs) (genMem gs')" by (rule gen_stepD(5) [OF step])
  have "memBlockMap (genMem gs') (C, v) = Some b" using k o(1) by (metis domI map_le_def mem_keeps_def)
  moreover have "objBlock (fsObjs (genMem gs') ! obj) = Some b" using k o(2,3) objects_nodes [OF ok] by (simp add: mem_keeps_def)
  moreover have "obj < length (objVec (genGraph gs')) \<and> objVec (genGraph gs') ! obj = objVec (genGraph gs) ! obj"
    by (rule objVec_grow(1) [OF gen_stepD(2) [OF step] o(2)])
  ultimately show ?thesis using o(4) ObjOf by (auto simp: placeAt_def)
qed

lemma holds_step:
  assumes "gen_step V A B R gs gs'" and "gen_ok V gs" and "holds V gs r"
  shows "holds V gs' r"
proof -
  obtain k a b where r: "r = (k, a, b)" by (cases r)
  then obtain s d where "placeAt V gs a s" "placeAt V gs b d" "linked (genGraph gs) k s d" using assms(3) by (auto simp: holds_def)
  then have "placeAt V gs' a s" "placeAt V gs' b d" "linked (genGraph gs') k s d"
    using placeAt_step [OF assms(1,2)] linked_grows [OF _ gen_stepD(2) [OF assms(1)]] by blast+
  then show ?thesis unfolding r holds_def by blast
qed

text \<open>A constraint that fits its target.\<close>

definition rule_fits :: "'x value_view_scheme \<Rightarrow> gen_rule \<Rightarrow> bool" where
  "rule_fits V = (\<lambda>(k, a, b). k \<noteq> CSpecial \<and> (k = CAddrOf \<longrightarrow> (\<exists>C v. a = ObjOf C v)) \<and>
     (case b of
        PtrOf C v \<Rightarrow> (k = COffset \<longrightarrow> gepValue V (canonOf V v)) \<and> (k = CLoad \<or> k = CCopy \<longrightarrow> \<not> gepValue V (canonOf V v))
      | RetOf C F \<Rightarrow> k = CCopy
      | ObjOf C v \<Rightarrow> False))"

lemma placeAt_node:
  assumes ok: "gen_ok V gs" and "placeAt V gs pl n"
  shows "n < getNodeNum (genGraph gs)" and "pl = ObjOf C v \<Longrightarrow> isObjKind (cgKind (cgNode (genGraph gs) n))"
proof -
  note T = tables_okD [OF gen_okD(3) [OF ok]]
  have obj: "n < getNodeNum (genGraph gs) \<and> isObjKind (cgKind (cgNode (genGraph gs) n))" if "pl = ObjOf C v" for C v
  proof -
    have "\<exists>obj < length (objVec (genGraph gs)). n = objVec (genGraph gs) ! obj" using assms(2) unfolding that by (auto simp: placeAt_def)
    then obtain obj where "obj < length (objVec (genGraph gs))" "n = objVec (genGraph gs) ! obj" by blast
    then show ?thesis using cg_okD(3) [OF gen_okD(6) [OF ok]] by (auto simp: objs_ok_def isObjKind_def dest: Suc_lessD)
  qed
  then show "pl = ObjOf C v \<Longrightarrow> isObjKind (cgKind (cgNode (genGraph gs) n))" by blast
  show "n < getNodeNum (genGraph gs)"
  proof (cases pl)
    case (PtrOf C v)
    then show ?thesis using assms(2) ptrNode_key [OF gen_okD(3) [OF ok]] T(1) by (fastforce simp: placeAt_def)
  next
    case (RetOf C F)
    then show ?thesis using assms(2) T(2) by (auto simp: placeAt_def)
  qed (use obj in blast)
qed

lemma add_rule:
  assumes ok: "gen_ok V gs" and a: "placeAt V gs a s" and b: "placeAt V gs b d" and fits: "rule_fits V (k, a, b)"
  shows "\<exists>gs'. addEdge s d k gs = Inr gs' \<and> gen_step V A B R gs gs' \<and> holds V gs' (k, a, b)"
proof -
  have k: "k \<noteq> CSpecial" using fits by (simp add: rule_fits_def)
  have d: "((\<exists>key. ptrMap gs key = Some d) \<or> (\<exists>key. retPtrMap gs key = Some d)) \<and> (k \<noteq> CAddrOf \<longrightarrow> edge_fits V gs k s d)"
  proof (cases b)
    case (PtrOf C v)
    then have "ptrNode V gs C v = Some d" using b by (simp add: placeAt_def)
    from ptrNode_key [OF gen_okD(3) [OF ok] this] obtain key where "ptrMap gs key = Some d" "snd key = canonOf V v" by blast
    moreover from this have "\<exists>key. ptrMap gs key = Some d \<and> gepValue V (snd key) = gepValue V (canonOf V v)" by metis
    ultimately show ?thesis using fits k PtrOf unfolding rule_fits_def edge_fits_def by (cases k) (simp_all, metis+)
  next
    case (RetOf C F)
    then show ?thesis using b fits by (auto simp: placeAt_def rule_fits_def edge_fits_def)
  next
    case (ObjOf C v)
    then show ?thesis using fits by (simp add: rule_fits_def)
  qed
  have obj: "isObjKind (cgKind (cgNode (genGraph gs) s))" if "k = CAddrOf"
  proof -
    have "\<exists>C v. a = ObjOf C v" using fits that by (simp add: rule_fits_def)
    then show ?thesis using placeAt_node(2) [OF ok a] by blast
  qed
  from addEdge_ok [OF ok placeAt_node(1) [OF ok a] conjunct1 [OF d] obj] conjunct2 [OF d] obtain gs' where
    gs': "addEdge s d k gs = Inr gs'" "gen_step V A B R gs gs'" "linked (genGraph gs') k s d" by blast
  then have "holds V gs' (k, a, b)" using placeAt_step [OF gs'(2) ok] a b unfolding holds_def by blast
  then show ?thesis using gs' by blast
qed

section \<open>Instructions\<close>

text \<open>The class whose function handles an instruction.\<close>

definition classAt :: "'x builder_view_scheme \<Rightarrow> llvm_value \<Rightarrow> inst_class option" where
  "classAt V I = (case visitedAs V (opcodeClass V) builderHandles I of Inr c \<Rightarrow> c | Inl e \<Rightarrow> None)"

lemma visitInst_class:
  "visitInst V C I gs = (case classAt V I of None \<Rightarrow> Inr gs | Some c \<Rightarrow> visitAs V c C I gs)"
proof -
  have "visitedAs V (opcodeClass V) builderHandles I = Inr (classAt V I)"
    using visitUp_returns by (auto simp: classAt_def visitedAs_def Let_def split: sum.split)
  then show ?thesis by (simp add: visitInst_def)
qed

definition specialValue :: "'x value_view_scheme \<Rightarrow> llvm_value \<Rightarrow> bool" where
  "specialValue V w \<longleftrightarrow> w = undefValue (memEnv V) \<or> w = nullValue (memEnv V)"

text \<open>The canonical values that get nodes when an instruction is visited.\<close>

definition touches :: "'x builder_view_scheme \<Rightarrow> llvm_value \<Rightarrow> llvm_value set" where
  "touches V I =
     (let M = ptaModule V; c = canonOf V; op = getPointerOperand M I in
      case classAt V I of
        Some VAllocaInst \<Rightarrow> {c I}
      | Some VGetElementPtrInst \<Rightarrow> if c op = c I then {} else {c I, c op}
      | Some VLoadInst \<Rightarrow> if isPointerTy M I then {c op, c I} else {}
      | Some VStoreInst \<Rightarrow> if isPointerTy M (getOperand M I 0) \<and> \<not> specialValue V (c op) then {c (getOperand M I 0), c op} else {}
      | Some VCallBase \<Rightarrow> if isPointerTy M I \<and> c I = I then {I} else {}
      | Some VPHINode \<Rightarrow> if isPointerTy M I then insert (c I) (c ` set (incomingValues V I)) else {}
      | Some VSelectInst \<Rightarrow> if isPointerTy M I then {c I, c (getOperand M I 1), c (getOperand M I 2)} else {}
      | Some VMemCpyInst \<Rightarrow> {c (getSource V I), c (getDest V I)}
      | _ \<Rightarrow> {})"

definition instRules :: "'x builder_view_scheme \<Rightarrow> ctx_ptr \<Rightarrow> llvm_value \<Rightarrow> gen_rule set" where
  "instRules V C I =
     (let M = ptaModule V; op = getPointerOperand M I in
      case classAt V I of
        Some VAllocaInst \<Rightarrow> {(CAddrOf, ObjOf C I, PtrOf C I)}
      | Some VReturnInst \<Rightarrow>
          (case getReturnValue V I of
             Some r \<Rightarrow> if isPointerTy M r then {(CCopy, PtrOf C r, RetOf C (getFunction M I))} else {}
           | None \<Rightarrow> {})
      | Some VGetElementPtrInst \<Rightarrow> if canonOf V op = canonOf V I then {} else {(COffset, PtrOf C op, PtrOf C I)}
      | Some VLoadInst \<Rightarrow> if isPointerTy M I then {(CLoad, PtrOf C op, PtrOf C I)} else {}
      | Some VStoreInst \<Rightarrow>
          if isPointerTy M (getOperand M I 0) \<and> \<not> specialValue V (canonOf V op)
          then {(CStore, PtrOf C (getOperand M I 0), PtrOf C op)} else {}
      | Some VPHINode \<Rightarrow> if isPointerTy M I then (\<lambda>v. (CCopy, PtrOf C v, PtrOf C I)) ` set (incomingValues V I) else {}
      | Some VSelectInst \<Rightarrow>
          if isPointerTy M I then {(CCopy, PtrOf C (getOperand M I 1), PtrOf C I), (CCopy, PtrOf C (getOperand M I 2), PtrOf C I)} else {}
      | _ \<Rightarrow> {})"

text \<open>
  An instruction of a function in a program the builder can take: an \<open>alloca\<close> has a type with a layout and was not
  mentioned before, a returned pointer was; what a \<open>getelementptr\<close> defines is one, and no other
  instruction defines a value that is.
\<close>

definition stackType :: "'x value_view_scheme \<Rightarrow> llvm_value \<Rightarrow> ll_type" where
  "stackType V I = (let T = pointeeType (memEnv V) I in
     case constantArraySize (memEnv V) I of
       None \<Rightarrow> ArrayTy SIZE_MAX T
     | Some num \<Rightarrow> if nat num mod 2 ^ 32 = 1 then T else ArrayTy (nat num mod 2 ^ 32) T)"

definition local_value :: "'x value_view_scheme \<Rightarrow> (llvm_value \<Rightarrow> llvm_value option) \<Rightarrow> llvm_value \<Rightarrow> llvm_value \<Rightarrow> bool" where
  "local_value V own F v \<longleftrightarrow> canonOf V v = v \<and> own v = Some F \<and> \<not> isGlobalValue V v \<and> \<not> isGlobalVar (memEnv V) v \<and> \<not> specialValue V v"

definition inst_ok :: "'x builder_view_scheme \<Rightarrow> (llvm_value \<Rightarrow> llvm_value option) \<Rightarrow> llvm_value \<Rightarrow> llvm_value set \<Rightarrow> llvm_value \<Rightarrow> bool" where
  "inst_ok V own F seen I \<longleftrightarrow> (\<forall>w \<in> touches V I. own w = None \<or> own w = Some F) \<and>
     (let M = ptaModule V in
      case classAt V I of
        Some VAllocaInst \<Rightarrow> local_value V own F I \<and> I \<notin> seen \<and> alloc_type_ok (memEnv V) (stackType V I) \<and>
          (case constantArraySize (memEnv V) I of None \<Rightarrow> True | Some num \<Rightarrow> 0 \<le> num)
      | Some VReturnInst \<Rightarrow>
          (case getReturnValue V I of
             Some r \<Rightarrow> isPointerTy M r \<longrightarrow> getFunction M I = F \<and> returnsPointer V F \<and> (specialValue V (canonOf V r) \<or> canonOf V r \<in> seen)
           | None \<Rightarrow> True)
      | Some VGetElementPtrInst \<Rightarrow> canonOf V (getPointerOperand M I) \<noteq> canonOf V I \<longrightarrow> gepValue V (canonOf V I)
      | Some VLoadInst \<Rightarrow> isPointerTy M I \<longrightarrow> \<not> gepValue V (canonOf V I)
      | Some VPHINode \<Rightarrow> isPointerTy M I \<longrightarrow> \<not> gepValue V (canonOf V I)
      | Some VSelectInst \<Rightarrow> isPointerTy M I \<longrightarrow> \<not> gepValue V (canonOf V I)
      | _ \<Rightarrow> True)"

text \<open>A canonical value has a node.\<close>

definition hasNode :: "'x value_view_scheme \<Rightarrow> gen_state \<Rightarrow> ctx_ptr \<Rightarrow> llvm_value \<Rightarrow> bool" where
  "hasNode V gs C w \<longleftrightarrow> specialValue V w \<or> ptrMap gs (ptrKey V C w) \<noteq> None"

lemma hasNode_iff: "hasNode V gs C (canonOf V v) \<longleftrightarrow> (\<exists>n. ptrNode V gs C v = Some n)"
  by (auto simp: hasNode_def specialValue_def ptrNode_def specialPtr_def split: option.splits if_splits)

lemma hasNode_step: "gen_step V A B R gs gs' \<Longrightarrow> hasNode V gs C w \<Longrightarrow> hasNode V gs' C w"
  using gen_stepD(3) by (fastforce simp: hasNode_def)

definition keysOf :: "'x value_view_scheme \<Rightarrow> ctx_ptr \<Rightarrow> llvm_value set \<Rightarrow> (ctx_ptr \<times> llvm_value) set" where
  "keysOf V C W = ptrKey V C ` W"

text \<open>What a visit does.\<close>

definition visited ::
  "'x builder_view_scheme \<Rightarrow> ctx_ptr \<Rightarrow> llvm_value \<Rightarrow> gen_state \<Rightarrow> gen_state \<Rightarrow> bool" where
  "visited V C I gs gs' \<longleftrightarrow>
     gen_step V (keysOf V C (touches V I)) (if classAt V I = Some VAllocaInst then {(C, I)} else {}) {} gs gs' \<and>
     (\<forall>w \<in> touches V I. hasNode V gs' C w) \<and> (\<forall>r \<in> instRules V C I. holds V gs' r)"

lemma get_pointer:
  assumes rk: "ranked V" and ok: "gen_ok V gs" and key: "canonOf V v \<in> W"
  shows "\<exists>n gs'. getOrCreatePtrNode V C v gs = Inr (n, gs') \<and> gen_step V (keysOf V C W) B R gs gs' \<and> placeAt V gs' (PtrOf C v) n \<and>
    hasNode V gs' C (canonOf V v)"
proof -
  from getOrCreatePtrNode_ok [OF rk ok, of C v B R] obtain n gs' where
    n: "getOrCreatePtrNode V C v gs = Inr (n, gs')" "gen_step V {ptrKey V C (canonOf V v)} B R gs gs'" "ptrNode V gs' C v = Some n" by blast
  have "gen_step V (keysOf V C W) B R gs gs'" by (rule gen_step_mono [OF n(2)]) (use key in \<open>auto simp: keysOf_def\<close>)
  then show ?thesis using n(1,3) by (auto simp: placeAt_def hasNode_iff)
qed

end
