(* ===== verification/GenInst.thy ===== *)
theory GenInst
  imports GenRules
begin

text \<open>
  Visiting the instructions of a function puts what they say into the graph.
\<close>

section \<open>Pointers and copies\<close>

lemma canonOf_idem: "ranked V \<Longrightarrow> canonOf V (canonOf V v) = canonOf V v"
proof -
  assume "ranked V"
  then obtain r where r: "value_rank V r" and plain: "plain_aliases V" by (auto simp: ranked_def)
  show ?thesis
  proof (cases "isPointerTy (ptaModule V) v")
    case True
    obtain w where w: "canonicalLoop (valueFuel V) V v = Inr w" "canonical_form V w" using loop_ok [OF r plain value_rankD(2) [OF r]] by blast
    then have "canonOf V v = w" using True by (simp add: canonOf_def canonicalize_loop [OF r])
    then show ?thesis using canonical_self [OF r w(2)] by (simp add: canonOf_def)
  next
    case False
    then show ?thesis by (simp add: canonOf_def canonicalize_loop [OF r])
  qed
qed

lemma get_canonical: "ranked V \<Longrightarrow> getOrCreatePtrNode V C (canonOf V v) gs = getOrCreatePtrNode V C v gs"
  unfolding getOrCreatePtrNode_eq ptrNode_def by (simp only: canonOf_idem)

lemma place_hasNode: "placeAt V gs (PtrOf C v) n \<Longrightarrow> hasNode V gs C (canonOf V v)"
  by (auto simp: hasNode_iff placeAt_def)

lemma two_pointers:
  assumes rk: "ranked V" and ok: "gen_ok V gs" and A: "ptrKey V C (canonOf V a) \<in> A" "ptrKey V D (canonOf V b) \<in> A"
  shows "\<exists>s gs1 d gs2. getOrCreatePtrNode V C a gs = Inr (s, gs1) \<and> getOrCreatePtrNode V D b gs1 = Inr (d, gs2) \<and>
    gen_step V A B R gs gs2 \<and> placeAt V gs2 (PtrOf C a) s \<and> placeAt V gs2 (PtrOf D b) d"
proof -
  from getOrCreatePtrNode_ok [OF rk ok, of C a B R] obtain s gs1 where
    s: "getOrCreatePtrNode V C a gs = Inr (s, gs1)" "gen_step V {ptrKey V C (canonOf V a)} B R gs gs1" "ptrNode V gs1 C a = Some s" by blast
  from getOrCreatePtrNode_ok [OF rk gen_stepD(1) [OF s(2)], of D b B R] obtain d gs2 where
    d: "getOrCreatePtrNode V D b gs1 = Inr (d, gs2)" "gen_step V {ptrKey V D (canonOf V b)} B R gs1 gs2" "ptrNode V gs2 D b = Some d" by blast
  have "gen_step V A B R gs gs1" "gen_step V A B R gs1 gs2" using A by (auto intro: gen_step_mono [OF s(2)] gen_step_mono [OF d(2)])
  then have "gen_step V A B R gs gs2" by (rule gen_step_trans)
  then show ?thesis using s d ptrNode_step [OF d(2)] by (auto simp: placeAt_def)
qed

lemma link_two:
  assumes rk: "ranked V" and ok: "gen_ok V gs" and A: "ptrKey V C (canonOf V a) \<in> A" "ptrKey V D (canonOf V b) \<in> A"
    and fits: "rule_fits V (k, PtrOf C a, PtrOf D b)"
  shows "\<exists>gs'. rbind (getOrCreatePtrNode V C a gs) (\<lambda>(s, gs). rbind (getOrCreatePtrNode V D b gs) (\<lambda>(d, gs). addEdge s d k gs)) = Inr gs' \<and>
    gen_step V A B R gs gs' \<and> hasNode V gs' C (canonOf V a) \<and> hasNode V gs' D (canonOf V b) \<and> holds V gs' (k, PtrOf C a, PtrOf D b)"
proof -
  from two_pointers [OF rk ok A] obtain s gs1 d gs2 where
    p: "getOrCreatePtrNode V C a gs = Inr (s, gs1)" "getOrCreatePtrNode V D b gs1 = Inr (d, gs2)" "gen_step V A B R gs gs2"
      "placeAt V gs2 (PtrOf C a) s" "placeAt V gs2 (PtrOf D b) d" by blast
  from add_rule [OF gen_stepD(1) [OF p(3)] p(4,5) fits] obtain gs' where
    e: "addEdge s d k gs2 = Inr gs'" "gen_step V A B R gs2 gs'" "holds V gs' (k, PtrOf C a, PtrOf D b)" by blast
  show ?thesis using p e gen_step_trans [OF p(3) e(2)] hasNode_step [OF e(2)] place_hasNode by fastforce
qed

text \<open>The same with the target first.\<close>

lemma link_back:
  assumes rk: "ranked V" and ok: "gen_ok V gs" and A: "ptrKey V C (canonOf V a) \<in> A" "ptrKey V D (canonOf V b) \<in> A"
    and fits: "rule_fits V (k, PtrOf C a, PtrOf D b)"
  shows "\<exists>gs'. rbind (getOrCreatePtrNode V D b gs) (\<lambda>(d, gs). rbind (getOrCreatePtrNode V C a gs) (\<lambda>(s, gs). addEdge s d k gs)) = Inr gs' \<and>
    gen_step V A B R gs gs' \<and> hasNode V gs' C (canonOf V a) \<and> hasNode V gs' D (canonOf V b) \<and> holds V gs' (k, PtrOf C a, PtrOf D b)"
proof -
  from two_pointers [OF rk ok A(2,1)] obtain d gs1 s gs2 where
    p: "getOrCreatePtrNode V D b gs = Inr (d, gs1)" "getOrCreatePtrNode V C a gs1 = Inr (s, gs2)" "gen_step V A B R gs gs2"
      "placeAt V gs2 (PtrOf D b) d" "placeAt V gs2 (PtrOf C a) s" by blast
  from add_rule [OF gen_stepD(1) [OF p(3)] p(5,4) fits] obtain gs' where
    e: "addEdge s d k gs2 = Inr gs'" "gen_step V A B R gs2 gs'" "holds V gs' (k, PtrOf C a, PtrOf D b)" by blast
  show ?thesis using p e gen_step_trans [OF p(3) e(2)] hasNode_step [OF e(2)] place_hasNode by fastforce
qed

lemma copy_ok:
  assumes rk: "ranked V" and ok: "gen_ok V gs" and at: "placeAt V gs pl d" and key: "ptrKey V C (canonOf V v) \<in> A"
    and fits: "rule_fits V (CCopy, PtrOf C v, pl)"
  shows "\<exists>gs'. copyInto V C d v gs = Inr gs' \<and> gen_step V A B R gs gs' \<and> hasNode V gs' C (canonOf V v) \<and> holds V gs' (CCopy, PtrOf C v, pl)"
proof -
  from getOrCreatePtrNode_ok [OF rk ok, of C v B R] obtain s gs1 where
    s: "getOrCreatePtrNode V C v gs = Inr (s, gs1)" "gen_step V {ptrKey V C (canonOf V v)} B R gs gs1" "ptrNode V gs1 C v = Some s" by blast
  have s1: "gen_step V A B R gs gs1" using key by (auto intro: gen_step_mono [OF s(2)])
  have p: "placeAt V gs1 (PtrOf C v) s" using s(3) by (simp add: placeAt_def)
  from add_rule [OF gen_stepD(1) [OF s1] p placeAt_step [OF s1 ok at] fits] obtain gs' where
    e: "addEdge s d CCopy gs1 = Inr gs'" "gen_step V A B R gs1 gs'" "holds V gs' (CCopy, PtrOf C v, pl)" by blast
  show ?thesis using s(1) e gen_step_trans [OF s1 e(2)] hasNode_step [OF e(2) place_hasNode [OF p]] by (auto simp: copyInto_def)
qed

lemma copies_ok:
  assumes rk: "ranked V" and "gen_ok V gs" and "placeAt V gs pl d" and "\<forall>v \<in> set vs. ptrKey V C (canonOf V v) \<in> A"
    and fits: "\<And>v. rule_fits V (CCopy, PtrOf C v, pl)"
  shows "\<exists>gs'. rfold (copyInto V C d) vs gs = Inr gs' \<and> gen_step V A B R gs gs' \<and>
    (\<forall>v \<in> set vs. hasNode V gs' C (canonOf V v) \<and> holds V gs' (CCopy, PtrOf C v, pl))"
  using assms(2-4)
proof (induction vs arbitrary: gs)
  case Nil
  then show ?case by (auto intro: gen_step_refl)
next
  case (Cons v vs)
  have "ptrKey V C (canonOf V v) \<in> A" using Cons.prems(3) by simp
  from copy_ok [OF rk Cons.prems(1,2) this fits, of B R] obtain gs1 where
    v: "copyInto V C d v gs = Inr gs1" "gen_step V A B R gs gs1" "hasNode V gs1 C (canonOf V v)" "holds V gs1 (CCopy, PtrOf C v, pl)" by blast
  note ok1 = gen_stepD(1) [OF v(2)]
  from Cons.IH [OF ok1 placeAt_step [OF v(2) Cons.prems(1,2)]] Cons.prems(3) obtain gs' where
    vs: "rfold (copyInto V C d) vs gs1 = Inr gs'" "gen_step V A B R gs1 gs'"
      "\<forall>v \<in> set vs. hasNode V gs' C (canonOf V v) \<and> holds V gs' (CCopy, PtrOf C v, pl)" by auto
  have "hasNode V gs' C (canonOf V v)" "holds V gs' (CCopy, PtrOf C v, pl)" by (rule hasNode_step [OF vs(2) v(3)], rule holds_step [OF vs(2) ok1 v(4)])
  then show ?case using v(1) vs gen_step_trans [OF v(2) vs(2)] by simp
qed

section \<open>The classes\<close>

lemma visitedI:
  assumes "gen_step V (keysOf V C (touches V I)) B {} gs gs'" and "B = (if classAt V I = Some VAllocaInst then {(C, I)} else {})"
    and "\<forall>w \<in> touches V I. hasNode V gs' C w" and "\<forall>r \<in> instRules V C I. holds V gs' r"
  shows "visited V C I gs gs'"
  using assms by (simp add: visited_def)

lemma alloca_ok:
  assumes rk: "ranked V" and ok: "gen_ok V gs" and cls: "classAt V I = Some VAllocaInst" and inst: "inst_ok V own F seen I"
    and new: "ptrMap gs (C, I) = None" "memBlockMap (genMem gs) (C, I) = None"
  shows "\<exists>gs'. visitAllocaInst V C I gs = Inr gs' \<and> visited V C I gs gs'"
proof -
  have loc: "canonOf V I = I" "\<not> isGlobalValue V I" "\<not> isGlobalVar (memEnv V) I" "\<not> specialValue V I"
    and T: "alloc_type_ok (memEnv V) (stackType V I)" "case constantArraySize (memEnv V) I of None \<Rightarrow> True | Some num \<Rightarrow> 0 \<le> num"
    using inst cls by (simp_all add: inst_ok_def local_value_def Let_def)
  have key: "ptrKey V C I = (C, I)" using loc(2) by (simp add: ptrKey_def)
  obtain mem g p where st: "allocState gs = (mem, g, p)" by (cases "allocState gs") auto
  have "fresh_key mem C (Some I) AStack" using new(2) st by (simp add: fresh_key_def)
  moreover have "\<not> keepsArrays (memEnv V) (Some I) AStack" using loc(3) by (simp add: keepsArrays_def)
  moreover have "alloc_ok (memEnv V) (mem, g, p)" using gen_okD(1) [OF ok] st by simp
  ultimately obtain n st' where a: "allocValueWithType (memEnv V) C (Some I) AStack (stackType V I) (mem, g, p) = Inr (n, st')"
    "allocates (memEnv V) C (Some I) AStack (mem, g, p) n st'" using value_object_ok T(1) by blast
  have alloc: "allocStackObj (memEnv V) C I (allocState gs) = Inr (n, st')"
    using a(1) T(2) by (auto simp: allocStackObj_def stackType_def st Let_def split: option.splits)
  let ?gs = "gs\<lparr> allocState := st' \<rparr>" and ?A = "keysOf V C (touches V I)"
  have tch: "touches V I = {I}" using cls loc(1) by (simp add: touches_def Let_def)
  then have A: "?A = {(C, I)}" using key by (simp add: keysOf_def)
  have s1: "gen_step V ?A {(C, I)} {} gs ?gs" using gen_allocates(1) [OF ok st a(2)] by simp
  have obj: "placeAt V ?gs (ObjOf C I) n"
    using a(2) by (cases st') (auto simp: allocates_def newKey_def placeAt_def genGraph_def)
  have new1: "ptrMap ?gs (ptrKey V C (canonOf V I)) = None" using new(1) loc(1) key by simp
  have plain: "canonOf V I \<noteq> nullValue (memEnv V)" "canonOf V I \<noteq> undefValue (memEnv V)" using loc(1,4) by (simp_all add: specialValue_def)
  from createPtrNode_ok [OF rk gen_stepD(1) [OF s1] plain new1, of "{(C, I)}" "{}"] obtain m gs2 where
    m: "createPtrNode V C I ?gs = Inr (m, gs2)" "gen_step V {ptrKey V C (canonOf V I)} {(C, I)} {} ?gs gs2" "ptrNode V gs2 C I = Some m" by blast
  have s2: "gen_step V ?A {(C, I)} {} ?gs gs2" using m(2) loc(1) key by (simp add: A)
  have ptr: "placeAt V gs2 (PtrOf C I) m" using m(3) by (simp add: placeAt_def)
  have fits: "rule_fits V (CAddrOf, ObjOf C I, PtrOf C I)" by (simp add: rule_fits_def)
  from add_rule [OF gen_stepD(1) [OF s2] placeAt_step [OF s2 gen_stepD(1) [OF s1] obj] ptr fits] obtain gs' where
    e: "addEdge n m CAddrOf gs2 = Inr gs'" "gen_step V ?A {(C, I)} {} gs2 gs'" "holds V gs' (CAddrOf, ObjOf C I, PtrOf C I)" by blast
  have "visited V C I gs gs'"
  proof (rule visitedI)
    show "gen_step V ?A {(C, I)} {} gs gs'" by (rule gen_step_trans [OF gen_step_trans [OF s1 s2] e(2)])
    show "\<forall>w \<in> touches V I. hasNode V gs' C w" using hasNode_step [OF e(2) place_hasNode [OF ptr]] by (simp add: tch loc(1))
    show "\<forall>r \<in> instRules V C I. holds V gs' r" using e(3) cls by (simp add: instRules_def Let_def)
  qed (simp add: cls)
  then show ?thesis using alloc m(1) e(1) by (simp add: visitAllocaInst_def)
qed

lemma return_ok:
  assumes rk: "ranked V" and ok: "gen_ok V gs" and cls: "classAt V I = Some VReturnInst" and inst: "inst_ok V own F seen I"
    and seen: "\<forall>w \<in> seen. hasNode V gs C w" and ret: "returnsPointer V F \<Longrightarrow> retPtrMap gs (C, F) \<noteq> None"
  shows "\<exists>gs'. visitReturnInst V C I gs = Inr gs' \<and> visited V C I gs gs'"
proof -
  have t: "touches V I = {}" using cls by (simp add: touches_def Let_def)
  show ?thesis
  proof (cases "\<exists>r. getReturnValue V I = Some r \<and> isPointerTy (ptaModule V) r")
    case False
    then have "instRules V C I = {}" using cls by (auto simp: instRules_def Let_def split: option.splits)
    then have "visited V C I gs gs" using cls t gen_step_refl [OF ok] by (intro visitedI) simp_all
    then show ?thesis using False by (auto simp: visitReturnInst_def split: option.splits)
  next
    case True
    then obtain r where r: "getReturnValue V I = Some r" "isPointerTy (ptaModule V) r" by blast
    then have i: "getFunction (ptaModule V) I = F" "returnsPointer V F" "specialValue V (canonOf V r) \<or> canonOf V r \<in> seen"
      using inst cls by (simp_all add: inst_ok_def Let_def)
    have "hasNode V gs C (canonOf V r)" using i(3) seen by (auto simp: hasNode_def)
    then obtain n where n: "ptrNode V gs C r = Some n" by (auto simp: hasNode_iff)
    obtain m where m: "retPtrMap gs (C, F) = Some m" using ret i(2) by blast
    have p: "placeAt V gs (PtrOf C r) n" "placeAt V gs (RetOf C F) m" using n m by (simp_all add: placeAt_def)
    have fits: "rule_fits V (CCopy, PtrOf C r, RetOf C F)" by (simp add: rule_fits_def)
    from add_rule [OF ok p fits, of "{}" "{}" "{}"] obtain gs' where
      e: "addEdge n m CCopy gs = Inr gs'" "gen_step V {} {} {} gs gs'" "holds V gs' (CCopy, PtrOf C r, RetOf C F)" by blast
    have "visited V C I gs gs'" using e(2,3) r i(1) cls by (intro visitedI) (simp_all add: t keysOf_def instRules_def Let_def)
    then show ?thesis using e(1) r n m i(1) by (auto simp: visitReturnInst_def getPtrNode_eq [OF rk] getRetNode_def)
  qed
qed

lemma gep_ok:
  assumes rk: "ranked V" and ok: "gen_ok V gs" and cls: "classAt V I = Some VGetElementPtrInst" and inst: "inst_ok V own F seen I"
  shows "\<exists>gs'. visitGetElementPtrInst V C I gs = Inr gs' \<and> visited V C I gs gs'"
proof -
  let ?op = "getPointerOperand (ptaModule V) I"
  show ?thesis
  proof (cases "canonOf V ?op = canonOf V I")
    case True
    then have "visited V C I gs gs" using cls gen_step_refl [OF ok] by (intro visitedI) (simp_all add: touches_def instRules_def Let_def)
    then show ?thesis using True by (auto simp: visitGetElementPtrInst_def canonicalize_canonOf [OF rk])
  next
    case False
    then have t: "touches V I = {canonOf V I, canonOf V ?op}" and rules: "instRules V C I = {(COffset, PtrOf C ?op, PtrOf C I)}"
      using cls by (simp_all add: touches_def instRules_def Let_def)
    have "rule_fits V (COffset, PtrOf C ?op, PtrOf C I)" using False inst cls by (simp add: inst_ok_def rule_fits_def Let_def)
    from link_back [OF rk ok _ _ this, of "keysOf V C (touches V I)" "{}" "{}"] obtain gs' where
      g: "rbind (getOrCreatePtrNode V C I gs) (\<lambda>(d, gs). rbind (getOrCreatePtrNode V C ?op gs) (\<lambda>(s, gs). addEdge s d COffset gs)) = Inr gs'"
        "gen_step V (keysOf V C (touches V I)) {} {} gs gs'" "hasNode V gs' C (canonOf V ?op)" "hasNode V gs' C (canonOf V I)"
        "holds V gs' (COffset, PtrOf C ?op, PtrOf C I)" by (auto simp: keysOf_def t)
    have "visited V C I gs gs'" using g(2-5) cls by (intro visitedI) (simp_all add: t rules)
    then show ?thesis using g(1) False by (auto simp: visitGetElementPtrInst_def canonicalize_canonOf [OF rk] get_canonical [OF rk])
  qed
qed

lemma load_ok:
  assumes rk: "ranked V" and ok: "gen_ok V gs" and cls: "classAt V I = Some VLoadInst" and inst: "inst_ok V own F seen I"
  shows "\<exists>gs'. visitLoadInst V C I gs = Inr gs' \<and> visited V C I gs gs'"
proof (cases "isPointerTy (ptaModule V) I")
  case False
  then have "visited V C I gs gs" using cls gen_step_refl [OF ok] by (intro visitedI) (simp_all add: touches_def instRules_def Let_def)
  then show ?thesis using False by (simp add: visitLoadInst_def)
next
  case True
  let ?op = "getPointerOperand (ptaModule V) I"
  have t: "touches V I = {canonOf V ?op, canonOf V I}" and rules: "instRules V C I = {(CLoad, PtrOf C ?op, PtrOf C I)}"
    using cls True by (simp_all add: touches_def instRules_def Let_def)
  have "rule_fits V (CLoad, PtrOf C ?op, PtrOf C I)" using True inst cls by (simp add: inst_ok_def rule_fits_def Let_def)
  from link_two [OF rk ok _ _ this, of "keysOf V C (touches V I)" "{}" "{}"] obtain gs' where
    g: "rbind (getOrCreatePtrNode V C ?op gs) (\<lambda>(s, gs). rbind (getOrCreatePtrNode V C I gs) (\<lambda>(d, gs). addEdge s d CLoad gs)) = Inr gs'"
      "gen_step V (keysOf V C (touches V I)) {} {} gs gs'" "hasNode V gs' C (canonOf V ?op)" "hasNode V gs' C (canonOf V I)"
      "holds V gs' (CLoad, PtrOf C ?op, PtrOf C I)" by (auto simp: keysOf_def t)
  have "visited V C I gs gs'" using g(2-5) cls by (intro visitedI) (simp_all add: t rules)
  moreover have "visitLoadInst V C I gs = Inr gs'" using g(1) True by (simp only: visitLoadInst_def if_True)
  ultimately show ?thesis by blast
qed

lemma store_ok:
  assumes rk: "ranked V" and ok: "gen_ok V gs" and cls: "classAt V I = Some VStoreInst"
  shows "\<exists>gs'. visitStoreInst V C I gs = Inr gs' \<and> visited V C I gs gs'"
proof -
  let ?v = "getOperand (ptaModule V) I 0" and ?op = "getPointerOperand (ptaModule V) I"
  show ?thesis
  proof (cases "isPointerTy (ptaModule V) ?v \<and> \<not> specialValue V (canonOf V ?op)")
    case False
    then have "visited V C I gs gs" using cls gen_step_refl [OF ok] by (intro visitedI) (auto simp: touches_def instRules_def Let_def)
    then show ?thesis using False by (auto simp: visitStoreInst_def canonicalize_canonOf [OF rk] specialValue_def Let_def)
  next
    case True
    then have t: "touches V I = {canonOf V ?v, canonOf V ?op}" and rules: "instRules V C I = {(CStore, PtrOf C ?v, PtrOf C ?op)}"
      using cls by (simp_all add: touches_def instRules_def Let_def)
    have "rule_fits V (CStore, PtrOf C ?v, PtrOf C ?op)" by (simp add: rule_fits_def)
    from link_two [OF rk ok _ _ this, of "keysOf V C (touches V I)" "{}" "{}"] obtain gs' where
      g: "rbind (getOrCreatePtrNode V C ?v gs) (\<lambda>(s, gs). rbind (getOrCreatePtrNode V C ?op gs) (\<lambda>(d, gs). addEdge s d CStore gs)) = Inr gs'"
        "gen_step V (keysOf V C (touches V I)) {} {} gs gs'" "hasNode V gs' C (canonOf V ?v)" "hasNode V gs' C (canonOf V ?op)"
        "holds V gs' (CStore, PtrOf C ?v, PtrOf C ?op)" by (auto simp: keysOf_def t)
    have "visited V C I gs gs'" using g(2-5) cls by (intro visitedI) (simp_all add: t rules)
    moreover have "visitStoreInst V C I gs = Inr gs'"
      using True g(1) unfolding visitStoreInst_def Let_def canonicalize_canonOf [OF rk] by (simp add: specialValue_def)
    ultimately show ?thesis by blast
  qed
qed

lemma call_ok:
  assumes rk: "ranked V" and ok: "gen_ok V gs" and cls: "classAt V I = Some VCallBase"
  shows "\<exists>gs'. visitCallBase V C I gs = Inr gs' \<and> visited V C I gs gs'"
proof (cases "isPointerTy (ptaModule V) I \<and> canonOf V I = I")
  case False
  then have "visited V C I gs gs" using cls gen_step_refl [OF ok] by (intro visitedI) (auto simp: touches_def instRules_def Let_def)
  then show ?thesis using False by (auto simp: visitCallBase_def canonicalize_canonOf [OF rk])
next
  case True
  then have t: "touches V I = {I}" "instRules V C I = {}" using cls by (simp_all add: touches_def instRules_def Let_def)
  have "canonOf V I \<in> {I}" using True by simp
  from get_pointer [OF rk ok this, of C "{}" "{}"] True obtain n gs' where
    n: "getOrCreatePtrNode V C I gs = Inr (n, gs')" "gen_step V (keysOf V C {I}) {} {} gs gs'" "hasNode V gs' C I" by auto
  have "visited V C I gs gs'" using n(2,3) cls by (intro visitedI) (simp_all add: t)
  then show ?thesis using n(1) True by (auto simp: visitCallBase_def canonicalize_canonOf [OF rk])
qed

lemma phi_ok:
  assumes rk: "ranked V" and ok: "gen_ok V gs" and cls: "classAt V I = Some VPHINode" and inst: "inst_ok V own F seen I"
  shows "\<exists>gs'. visitPHINode V C I gs = Inr gs' \<and> visited V C I gs gs'"
proof (cases "isPointerTy (ptaModule V) I")
  case False
  then have "visited V C I gs gs" using cls gen_step_refl [OF ok] by (intro visitedI) (simp_all add: touches_def instRules_def Let_def)
  then show ?thesis using False by (simp add: visitPHINode_def)
next
  case True
  let ?vs = "incomingValues V I" and ?A = "keysOf V C (touches V I)"
  have t: "touches V I = insert (canonOf V I) (canonOf V ` set ?vs)" and rules: "instRules V C I = (\<lambda>v. (CCopy, PtrOf C v, PtrOf C I)) ` set ?vs"
    using cls True by (simp_all add: touches_def instRules_def Let_def)
  have fits: "rule_fits V (CCopy, PtrOf C v, PtrOf C I)" for v using True inst cls by (simp add: inst_ok_def rule_fits_def Let_def)
  have "canonOf V I \<in> touches V I" by (simp add: t)
  from get_pointer [OF rk ok this, of C "{}" "{}"] obtain n gs1 where
    n: "getOrCreatePtrNode V C I gs = Inr (n, gs1)" "gen_step V ?A {} {} gs gs1" "placeAt V gs1 (PtrOf C I) n" by blast
  have keys: "\<forall>v \<in> set ?vs. ptrKey V C (canonOf V v) \<in> ?A" by (simp add: keysOf_def t)
  from copies_ok [OF rk gen_stepD(1) [OF n(2)] n(3) keys fits, of "{}" "{}"] obtain gs' where
    c: "rfold (copyInto V C n) ?vs gs1 = Inr gs'" "gen_step V ?A {} {} gs1 gs'"
      "\<forall>v \<in> set ?vs. hasNode V gs' C (canonOf V v) \<and> holds V gs' (CCopy, PtrOf C v, PtrOf C I)" by blast
  have "visited V C I gs gs'"
    using gen_step_trans [OF n(2) c(2)] c(3) cls hasNode_step [OF c(2) place_hasNode [OF n(3)]] by (intro visitedI) (simp_all add: t rules)
  then show ?thesis using n(1) c(1) True by (simp add: visitPHINode_def)
qed

lemma select_ok:
  assumes rk: "ranked V" and ok: "gen_ok V gs" and cls: "classAt V I = Some VSelectInst" and inst: "inst_ok V own F seen I"
  shows "\<exists>gs'. visitSelectInst V C I gs = Inr gs' \<and> visited V C I gs gs'"
proof (cases "isPointerTy (ptaModule V) I")
  case False
  then have "visited V C I gs gs" using cls gen_step_refl [OF ok] by (intro visitedI) (simp_all add: touches_def instRules_def Let_def)
  then show ?thesis using False by (simp add: visitSelectInst_def)
next
  case True
  let ?a = "getOperand (ptaModule V) I 1" and ?b = "getOperand (ptaModule V) I 2" and ?A = "keysOf V C (touches V I)"
  have t: "touches V I = {canonOf V I, canonOf V ?a, canonOf V ?b}"
    and rules: "instRules V C I = {(CCopy, PtrOf C ?a, PtrOf C I), (CCopy, PtrOf C ?b, PtrOf C I)}"
    using cls True by (simp_all add: touches_def instRules_def Let_def)
  have fits: "rule_fits V (CCopy, PtrOf C v, PtrOf C I)" for v using True inst cls by (simp add: inst_ok_def rule_fits_def Let_def)
  have "canonOf V I \<in> touches V I" by (simp add: t)
  from get_pointer [OF rk ok this, of C "{}" "{}"] obtain n gs1 where
    n: "getOrCreatePtrNode V C I gs = Inr (n, gs1)" "gen_step V ?A {} {} gs gs1" "placeAt V gs1 (PtrOf C I) n" by blast
  have keys: "\<forall>v \<in> set [?a, ?b]. ptrKey V C (canonOf V v) \<in> ?A" by (simp add: keysOf_def t)
  from copies_ok [OF rk gen_stepD(1) [OF n(2)] n(3) keys fits, of "{}" "{}"] obtain gs' where
    c: "rfold (copyInto V C n) [?a, ?b] gs1 = Inr gs'" "gen_step V ?A {} {} gs1 gs'"
      "\<forall>v \<in> set [?a, ?b]. hasNode V gs' C (canonOf V v) \<and> holds V gs' (CCopy, PtrOf C v, PtrOf C I)" by blast
  have "visited V C I gs gs'"
    using gen_step_trans [OF n(2) c(2)] c(3) cls hasNode_step [OF c(2) place_hasNode [OF n(3)]] by (intro visitedI) (simp_all add: t rules)
  moreover have "visitSelectInst V C I gs = Inr gs'" using n(1) c(1) True by (auto simp: visitSelectInst_def)
  ultimately show ?thesis by blast
qed

text \<open>Outside the field-insensitive mode a \<open>memcpy\<close> only makes the nodes.\<close>

lemma memcpy_ok:
  assumes rk: "ranked V" and ok: "gen_ok V gs" and cls: "classAt V I = Some VMemCpyInst"
  shows "\<exists>gs'. visitMemCpyInst V C I gs = Inr gs' \<and> visited V C I gs gs'"
proof -
  have t: "touches V I = {canonOf V (getSource V I), canonOf V (getDest V I)}" "instRules V C I = {}"
    using cls by (simp_all add: touches_def instRules_def Let_def)
  have fs: "\<not> useFIMode (envOpts (memEnv V))" using rk by (auto simp: ranked_def dest: value_rankD(1))
  from two_pointers [OF rk ok, of C "getSource V I" "keysOf V C (touches V I)" C "getDest V I" "{}" "{}"] obtain s gs1 d gs2 where
    p: "getOrCreatePtrNode V C (getSource V I) gs = Inr (s, gs1)" "getOrCreatePtrNode V C (getDest V I) gs1 = Inr (d, gs2)"
      "gen_step V (keysOf V C (touches V I)) {} {} gs gs2" "placeAt V gs2 (PtrOf C (getSource V I)) s" "placeAt V gs2 (PtrOf C (getDest V I)) d"
    by (auto simp: keysOf_def t)
  have "visited V C I gs gs2" using p(3) place_hasNode [OF p(4)] place_hasNode [OF p(5)] cls by (intro visitedI) (simp_all add: t)
  then show ?thesis using p(1,2) fs by (simp add: visitMemCpyInst_def handleMemCpy_def)
qed

lemma visitInst_ok:
  assumes rk: "ranked V" and ok: "gen_ok V gs" and inst: "inst_ok V own F seen I" and seen: "\<forall>w \<in> seen. hasNode V gs C w"
    and new: "classAt V I = Some VAllocaInst \<Longrightarrow> ptrMap gs (C, I) = None \<and> memBlockMap (genMem gs) (C, I) = None"
    and ret: "returnsPointer V F \<Longrightarrow> retPtrMap gs (C, F) \<noteq> None"
  shows "\<exists>gs'. visitInst V C I gs = Inr gs' \<and> visited V C I gs gs'"
proof -
  have none: "visited V C I gs gs" if "touches V I = {}" "instRules V C I = {}" "classAt V I \<noteq> Some VAllocaInst"
    using that gen_step_refl [OF ok] by (intro visitedI) simp_all
  show ?thesis
  proof (cases "classAt V I")
    case None
    then show ?thesis using none by (simp add: visitInst_class touches_def instRules_def Let_def)
  next
    case (Some c)
    consider "c = VAllocaInst" | "c = VReturnInst" | "c = VGetElementPtrInst" | "c = VLoadInst" | "c = VStoreInst" | "c = VCallBase"
      | "c = VPHINode" | "c = VSelectInst" | "c = VMemCpyInst"
      | "c \<notin> {VAllocaInst, VReturnInst, VGetElementPtrInst, VLoadInst, VStoreInst, VCallBase, VPHINode, VSelectInst, VMemCpyInst}" by blast
    then show ?thesis
    proof cases
      case 1
      then show ?thesis using alloca_ok [OF rk ok _ inst] new Some by (simp add: visitInst_class visitAs_def)
    next
      case 2
      then show ?thesis using return_ok [OF rk ok _ inst seen ret] Some by (simp add: visitInst_class visitAs_def)
    next
      case 3
      then show ?thesis using gep_ok [OF rk ok _ inst] Some by (simp add: visitInst_class visitAs_def)
    next
      case 4
      then show ?thesis using load_ok [OF rk ok _ inst] Some by (simp add: visitInst_class visitAs_def)
    next
      case 5
      then show ?thesis using store_ok [OF rk ok] Some by (simp add: visitInst_class visitAs_def)
    next
      case 6
      then show ?thesis using call_ok [OF rk ok] Some by (simp add: visitInst_class visitAs_def)
    next
      case 7
      then show ?thesis using phi_ok [OF rk ok _ inst] Some by (simp add: visitInst_class visitAs_def)
    next
      case 8
      then show ?thesis using select_ok [OF rk ok _ inst] Some by (simp add: visitInst_class visitAs_def)
    next
      case 9
      then show ?thesis using memcpy_ok [OF rk ok] Some by (simp add: visitInst_class visitAs_def)
    next
      case 10
      then have "touches V I = {}" "instRules V C I = {}" "visitAs V c C I gs = Inr gs"
        using Some by (cases c; simp add: touches_def instRules_def visitAs_def Let_def)+
      then show ?thesis using none Some 10 by (auto simp: visitInst_class)
    qed
  qed
qed

end
