(* ===== verification/GenFun.thy ===== *)
theory GenFun
  imports GenInst
begin

text \<open>
  Functions: the body of a function that has not been visited in a context makes the nodes of its pointers and all constraints
  its instructions give.
\<close>

section \<open>Bodies\<close>

fun body_ok :: "'x builder_view_scheme \<Rightarrow> (llvm_value \<Rightarrow> llvm_value option) \<Rightarrow> llvm_value \<Rightarrow> llvm_value set \<Rightarrow> llvm_value list \<Rightarrow> bool" where
  "body_ok V own F seen [] \<longleftrightarrow> True"
| "body_ok V own F seen (I # Is) \<longleftrightarrow> inst_ok V own F seen I \<and> body_ok V own F (seen \<union> touches V I) Is"

definition allocasIn :: "'x builder_view_scheme \<Rightarrow> llvm_value list \<Rightarrow> llvm_value set" where
  "allocasIn V Is = {I \<in> set Is. classAt V I = Some VAllocaInst}"

definition touchedIn :: "'x builder_view_scheme \<Rightarrow> llvm_value list \<Rightarrow> llvm_value set" where
  "touchedIn V Is = (\<Union>I \<in> set Is. touches V I)"

text \<open>The values of a function that were not seen have neither a node nor a block.\<close>

definition unseen :: "(llvm_value \<Rightarrow> llvm_value option) \<Rightarrow> llvm_value \<Rightarrow> llvm_value set \<Rightarrow> ctx_ptr \<Rightarrow> gen_state \<Rightarrow> bool" where
  "unseen own F seen C gs \<longleftrightarrow> (\<forall>v. own v = Some F \<longrightarrow> v \<notin> seen \<longrightarrow> ptrMap gs (C, v) = None \<and> memBlockMap (genMem gs) (C, v) = None)"

lemma unseen_step:
  assumes "unseen own F seen C gs" and "gen_step V (keysOf V C W) ({C'} \<times> X) R gs gs'" and "X \<subseteq> W"
  shows "unseen own F (seen \<union> W) C gs'"
  unfolding unseen_def
proof (intro allI impI conjI)
  fix v assume v: "own v = Some F" "v \<notin> seen \<union> W"
  then have old: "ptrMap gs (C, v) = None" "memBlockMap (genMem gs) (C, v) = None" using assms(1) by (simp_all add: unseen_def)
  have "(C, v) \<notin> keysOf V C W" using v(2) by (auto simp: keysOf_def ptrKey_def)
  then show "ptrMap gs' (C, v) = None" using old(1) gen_stepD(6) [OF assms(2), of "(C, v)"] by fastforce
  have "(C, v) \<notin> {C'} \<times> X" using v(2) assms(3) by blast
  then show "memBlockMap (genMem gs') (C, v) = None" using old(2) gen_stepD(8) [OF assms(2), of "(C, v)"] by fastforce
qed

lemma body_visited:
  assumes rk: "ranked V" and "gen_ok V gs" and "body_ok V own F seen Is" and "\<forall>w \<in> seen. hasNode V gs C w" and "unseen own F seen C gs"
    and "returnsPointer V F \<Longrightarrow> retPtrMap gs (C, F) \<noteq> None"
  shows "\<exists>gs'. rfold (visitInst V C) Is gs = Inr gs' \<and> gen_step V (keysOf V C (touchedIn V Is)) ({C} \<times> allocasIn V Is) {} gs gs' \<and>
    (\<forall>w \<in> touchedIn V Is. hasNode V gs' C w) \<and> (\<forall>I \<in> set Is. \<forall>r \<in> instRules V C I. holds V gs' r)"
  using assms(2-6)
proof (induction Is arbitrary: gs seen)
  case Nil
  then show ?case by (auto simp: touchedIn_def intro: gen_step_refl)
next
  case (Cons I Is)
  let ?A = "keysOf V C (touchedIn V (I # Is))" and ?B = "{C} \<times> allocasIn V (I # Is)"
  have inst: "inst_ok V own F seen I" and rest: "body_ok V own F (seen \<union> touches V I) Is" using Cons.prems(2) by simp_all
  have new: "ptrMap gs (C, I) = None \<and> memBlockMap (genMem gs) (C, I) = None" if "classAt V I = Some VAllocaInst"
    using inst that Cons.prems(4) by (simp add: inst_ok_def local_value_def unseen_def Let_def)
  from visitInst_ok [OF rk Cons.prems(1) inst Cons.prems(3) new Cons.prems(5)] obtain gs1 where
    v: "visitInst V C I gs = Inr gs1" "visited V C I gs gs1" by blast
  let ?X = "if classAt V I = Some VAllocaInst then {I} else {}"
  have s1: "gen_step V (keysOf V C (touches V I)) ({C} \<times> ?X) {} gs gs1" and nodes: "\<forall>w \<in> touches V I. hasNode V gs1 C w"
    and rules: "\<forall>r \<in> instRules V C I. holds V gs1 r" using v(2) by (auto simp: visited_def split: if_splits)
  have "?X \<subseteq> touches V I" using inst by (auto simp: touches_def inst_ok_def local_value_def Let_def)
  then have un: "unseen own F (seen \<union> touches V I) C gs1" using unseen_step [OF Cons.prems(4) s1] by blast
  have seen: "\<forall>w \<in> seen \<union> touches V I. hasNode V gs1 C w" using hasNode_step [OF s1] Cons.prems(3) nodes by blast
  have ret: "returnsPointer V F \<Longrightarrow> retPtrMap gs1 (C, F) \<noteq> None" using Cons.prems(5) gen_stepD(4) [OF s1] by fastforce
  from Cons.IH [OF gen_stepD(1) [OF s1] rest seen un ret] obtain gs' where
    g: "rfold (visitInst V C) Is gs1 = Inr gs'" "gen_step V (keysOf V C (touchedIn V Is)) ({C} \<times> allocasIn V Is) {} gs1 gs'"
      "\<forall>w \<in> touchedIn V Is. hasNode V gs' C w" "\<forall>I \<in> set Is. \<forall>r \<in> instRules V C I. holds V gs' r" by blast
  have "gen_step V ?A ?B {} gs gs1" by (rule gen_step_mono [OF s1]) (auto simp: keysOf_def touchedIn_def allocasIn_def split: if_splits)
  moreover have "gen_step V ?A ?B {} gs1 gs'" by (rule gen_step_mono [OF g(2)]) (auto simp: keysOf_def touchedIn_def allocasIn_def)
  ultimately have "gen_step V ?A ?B {} gs gs'" by (rule gen_step_trans)
  moreover have "\<forall>w \<in> touchedIn V (I # Is). hasNode V gs' C w" using hasNode_step [OF g(2)] nodes g(3) by (auto simp: touchedIn_def)
  moreover have "\<forall>J \<in> set (I # Is). \<forall>r \<in> instRules V C J. holds V gs' r"
    using holds_step [OF g(2) gen_stepD(1) [OF s1]] rules g(4) by auto
  ultimately show ?case using v(1) g(1) by auto
qed

section \<open>Functions\<close>

definition pointerArgs :: "'x builder_view_scheme \<Rightarrow> llvm_value \<Rightarrow> llvm_value list" where
  "pointerArgs V F = filter (isPointerTy (ptaModule V)) (argsOf (ptaModule V) F)"

text \<open>The globals in \<open>globs\<close> have nodes before any function is visited.\<close>

definition fun_ok ::
  "'x builder_view_scheme \<Rightarrow> (llvm_value \<Rightarrow> llvm_value option) \<Rightarrow> llvm_value set \<Rightarrow> llvm_value \<Rightarrow> bool" where
  "fun_ok V own globs F \<longleftrightarrow> distinct (pointerArgs V F) \<and> (\<forall>a \<in> set (pointerArgs V F). local_value V own F a \<and> \<not> gepValue V a) \<and>
     body_ok V own F (set (pointerArgs V F) \<union> globs) (bodyOf V F)"

text \<open>The canonical values of a function that get nodes when it is visited.\<close>

definition nodesOf :: "'x builder_view_scheme \<Rightarrow> llvm_value \<Rightarrow> llvm_value set" where
  "nodesOf V F = set (pointerArgs V F) \<union> touchedIn V (bodyOf V F)"

definition expanded :: "'x builder_view_scheme \<Rightarrow> llvm_value \<Rightarrow> bool" where
  "expanded V F \<longleftrightarrow> \<not> isDeclaration (ptaModule V) F \<and> \<not> isIntrinsic (ptaModule V) F"

definition fun_done :: "'x builder_view_scheme \<Rightarrow> ctx_ptr \<Rightarrow> llvm_value \<Rightarrow> gen_state \<Rightarrow> bool" where
  "fun_done V C F gs \<longleftrightarrow> (\<forall>w \<in> nodesOf V F. hasNode V gs C w) \<and> (\<forall>I \<in> set (bodyOf V F). \<forall>r \<in> instRules V C I. holds V gs r) \<and>
     (returnsPointer V F \<longrightarrow> retPtrMap gs (C, F) \<noteq> None)"

lemma fun_done_step:
  assumes "fun_done V C F gs" and "gen_step V A B R gs gs'" and "gen_ok V gs"
  shows "fun_done V C F gs'"
  using assms(1) hasNode_step [OF assms(2)] holds_step [OF assms(2,3)] gen_stepD(4) [OF assms(2)] unfolding fun_done_def by fastforce

lemma local_key: "local_value V own F a \<Longrightarrow> ptrKey V C (canonOf V a) = (C, a)"
  by (simp add: local_value_def ptrKey_def)

lemma args_ok:
  assumes rk: "ranked V" and "gen_ok V gs" and "distinct as" and "\<forall>a \<in> set as. local_value V own F a" and "unseen own F seen C gs" and "seen \<inter> set as = {}"
  shows "\<exists>gs'. rfold (\<lambda>a gs. rbind (createPtrNode V C a gs) (\<lambda>(_, gs). Inr gs)) as gs = Inr gs' \<and>
    gen_step V (keysOf V C (set as)) {} {} gs gs' \<and> (\<forall>a \<in> set as. hasNode V gs' C a)"
  using assms(2-6)
proof (induction "as" arbitrary: gs seen)
  case Nil
  then show ?case by (auto intro: gen_step_refl)
next
  case (Cons a as)
  have loc: "local_value V own F a" using Cons.prems(3) by simp
  then have a: "canonOf V a = a" "own a = Some F" "\<not> specialValue V a" by (simp_all add: local_value_def)
  have key: "ptrKey V C (canonOf V a) = (C, a)" by (rule local_key [OF loc])
  have plain: "canonOf V a \<noteq> nullValue (memEnv V)" "canonOf V a \<noteq> undefValue (memEnv V)" using a by (simp_all add: specialValue_def)
  have new: "ptrMap gs (ptrKey V C (canonOf V a)) = None" using Cons.prems(4,5) a(2) by (simp add: key unseen_def)
  from createPtrNode_ok [OF rk Cons.prems(1) plain new, of "{}" "{}"] obtain n gs1 where
    n: "createPtrNode V C a gs = Inr (n, gs1)" "gen_step V {ptrKey V C (canonOf V a)} {} {} gs gs1" "ptrNode V gs1 C a = Some n" by blast
  have s1: "gen_step V (keysOf V C {a}) ({C} \<times> {}) {} gs gs1" using n(2) a(1) by (simp add: keysOf_def)
  have un: "unseen own F (seen \<union> {a}) C gs1" by (rule unseen_step [OF Cons.prems(4) s1]) simp
  from Cons.IH [OF gen_stepD(1) [OF s1] _ _ un] Cons.prems(2,3,5) obtain gs' where
    g: "rfold (\<lambda>a gs. rbind (createPtrNode V C a gs) (\<lambda>(_, gs). Inr gs)) as gs1 = Inr gs'" "gen_step V (keysOf V C (set as)) {} {} gs1 gs'"
      "\<forall>a \<in> set as. hasNode V gs' C a" by auto
  have "gen_step V (keysOf V C (set (a # as))) {} {} gs gs1" "gen_step V (keysOf V C (set (a # as))) {} {} gs1 gs'"
    by (rule gen_step_mono [OF s1], auto simp: keysOf_def, rule gen_step_mono [OF g(2)], auto simp: keysOf_def)
  then have "gen_step V (keysOf V C (set (a # as))) {} {} gs gs'" by (rule gen_step_trans)
  moreover have "hasNode V gs1 C (canonOf V a)" using n(3) by (auto simp: hasNode_iff)
  then have "hasNode V gs' C a" using hasNode_step [OF g(2)] a(1) by simp
  ultimately show ?case using n(1) g(1,3) by auto
qed

lemma createArgs_eq:
  "rfold (createArgNode V C) as gs =
    rfold (\<lambda>a gs. rbind (createPtrNode V C a gs) (\<lambda>(_, gs). Inr gs)) (filter (isPointerTy (ptaModule V)) as) gs"
proof (induction "as" arbitrary: gs)
  case (Cons a as)
  then have "rfold (createArgNode V C) as = rfold (\<lambda>a gs. rbind (createPtrNode V C a gs) (\<lambda>(_, gs). Inr gs)) (filter (isPointerTy (ptaModule V)) as)" by blast
  moreover have "createArgNode V C a gs = (if isPointerTy (ptaModule V) a then rbind (createPtrNode V C a gs) (\<lambda>(_, gs). Inr gs) else Inr gs)"
    by (simp add: createArgNode_def)
  ultimately show ?case by simp
qed simp

lemma initFunction_ok:
  assumes rk: "ranked V" and ok: "gen_ok V gs" and F: "fun_ok V own globs F" and new: "unseen own F {} C gs" "retPtrMap gs (C, F) = None"
    and globs: "\<forall>w \<in> globs. hasNode V gs C w"
    and exp: "expanded V F"
  shows "\<exists>gs'. initFunction V C F gs = Inr (True, gs') \<and>
    gen_step V (keysOf V C (nodesOf V F)) ({C} \<times> allocasIn V (bodyOf V F)) {(C, F)} gs gs' \<and> fun_done V C F gs'"
proof -
  let ?A = "keysOf V C (nodesOf V F)" and ?B = "{C} \<times> allocasIn V (bodyOf V F)" and ?as = "pointerArgs V F"
  define first where "first = (if returnsPointer V F then rbind (createRetNode C F gs) (\<lambda>(_, gs). Inr gs) else Inr gs)"
  have "\<exists>gs1. first = Inr gs1 \<and> gen_step V {} {} {(C, F)} gs gs1 \<and> (returnsPointer V F \<longrightarrow> retPtrMap gs1 (C, F) \<noteq> None)"
    using createRetNode_ok [OF ok new(2), of "{}" "{}"] gen_step_refl [OF ok] by (auto simp: first_def)
  then obtain gs1 where r: "first = Inr gs1" "gen_step V {} {} {(C, F)} gs gs1" "returnsPointer V F \<Longrightarrow> retPtrMap gs1 (C, F) \<noteq> None" by blast
  have un1: "unseen own F {} C gs1"
    using unseen_step [OF new(1), of V "{}" C "{}" "{(C, F)}" gs1] r(2) by (simp add: keysOf_def)
  have fo: "distinct ?as" "\<forall>a \<in> set ?as. local_value V own F a" "body_ok V own F (set ?as \<union> globs) (bodyOf V F)" using F by (simp_all add: fun_ok_def)
  from args_ok [OF rk gen_stepD(1) [OF r(2)] fo(1,2) un1] obtain gs2 where
    a: "rfold (createArgNode V C) (argsOf (ptaModule V) F) gs1 = Inr gs2" "gen_step V (keysOf V C (set ?as)) {} {} gs1 gs2"
      "\<forall>a \<in> set ?as. hasNode V gs2 C a" by (auto simp: createArgs_eq pointerArgs_def)
  have "unseen own F (set ?as) C gs2" using unseen_step [OF un1, of V "set ?as" C "{}" "{}" gs2] a(2) by simp
  then have un2: "unseen own F (set ?as \<union> globs) C gs2" by (simp add: unseen_def)
  have seen: "\<forall>w \<in> set ?as \<union> globs. hasNode V gs2 C w" using a(3) globs hasNode_step [OF r(2)] hasNode_step [OF a(2)] by blast
  have ret2: "returnsPointer V F \<Longrightarrow> retPtrMap gs2 (C, F) \<noteq> None" using r(3) gen_stepD(4) [OF a(2)] by fastforce
  from body_visited [OF rk gen_stepD(1) [OF a(2)] fo(3) seen un2 ret2] obtain gs' where
    b: "rfold (visitInst V C) (bodyOf V F) gs2 = Inr gs'" "gen_step V (keysOf V C (touchedIn V (bodyOf V F))) ?B {} gs2 gs'"
      "\<forall>w \<in> touchedIn V (bodyOf V F). hasNode V gs' C w" "\<forall>I \<in> set (bodyOf V F). \<forall>r \<in> instRules V C I. holds V gs' r" by blast
  have "gen_step V ?A ?B {(C, F)} gs gs1" by (rule gen_step_mono [OF r(2)]) simp_all
  moreover have "gen_step V ?A ?B {(C, F)} gs1 gs2" by (rule gen_step_mono [OF a(2)]) (auto simp: keysOf_def nodesOf_def)
  moreover have "gen_step V ?A ?B {(C, F)} gs2 gs'" by (rule gen_step_mono [OF b(2)]) (auto simp: keysOf_def nodesOf_def)
  ultimately have "gen_step V ?A ?B {(C, F)} gs gs'" by (blast intro: gen_step_trans)
  moreover have "fun_done V C F gs'"
    using hasNode_step [OF b(2)] a(3) b(3,4) ret2 gen_stepD(4) [OF b(2)] unfolding fun_done_def nodesOf_def by fastforce
  moreover have "initFunction V C F gs = Inr (True, gs')"
    using exp r(1) a(1) b(1) by (simp add: initFunction_def expanded_def first_def visitFunctionBody_bodyOf)
  ultimately show ?thesis by blast
qed

lemma initFunction_ignored: "\<not> expanded V F \<Longrightarrow> initFunction V C F gs = Inr (False, gs)"
  by (simp add: initFunction_def expanded_def)

end
