(* ===== verification/LangHooks.thy ===== *)
theory LangHooks
  imports CallCons
begin

text \<open>
  The language models (Models/LanguageModel/DefaultLangModel, Models/MemoryModel/DefaultHeapModel.h and .cpp of
  src/PointerAnalysis, and src/LanguageModel/RaceModel.cpp): heap allocations and the types of their objects, and
  the calls that start threads.
\<close>

section \<open>Types of heap objects\<close>

record heap_view = builder_view +
  firstNonPHIOfNormalDest :: "llvm_value \<Rightarrow> llvm_value option"
  isBitCastInst :: "llvm_value \<Rightarrow> bool"
  destType :: "llvm_value \<Rightarrow> ll_type"
  isInlined :: "llvm_value \<Rightarrow> bool"
  getSExtValue :: "llvm_value \<Rightarrow> int"

definition isHeapAllocFun :: "llvm_module \<Rightarrow> llvm_value \<Rightarrow> bool" where
  "isHeapAllocFun M F \<longleftrightarrow> hasName M F \<and> getName M F \<in> {''malloc'', ''calloc'', ''_Znam'', ''_Znwm'', ''??2@YAPEAX_K@Z''}"

definition isCalloc :: "llvm_module \<Rightarrow> llvm_value \<Rightarrow> bool" where
  "isCalloc M F \<longleftrightarrow> hasName M F \<and> getName M F = ''calloc''"

definition getBoundedArrayTy :: "ll_type \<Rightarrow> nat \<Rightarrow> ll_type" where
  "getBoundedArrayTy elemType num = ArrayTy num elemType"

text \<open>What a pointer type points to, if that has a size.\<close>

definition sizedPointee :: "'x heap_view_scheme \<Rightarrow> llvm_value \<Rightarrow> ll_type option" where
  "sizedPointee V bitcast = (let T = pointeeType (memEnv V) bitcast in if isSized T then Some T else None)"

text \<open>
  The type of an allocation is that of the bitcast that follows, or for an inlined one of its only bitcast.
\<close>

definition getNextBitCastDestType :: "'x heap_view_scheme \<Rightarrow> llvm_value \<Rightarrow> ll_type option" where
  "getNextBitCastDestType V allocSite =
     (let M = ptaModule V;
          nextInst = (if classOf M allocSite = CallInst then getNextNode M allocSite
                      else if classOf M allocSite = InvokeInst then firstNonPHIOfNormalDest V allocSite else None);
          next = (case nextInst of Some b \<Rightarrow> if isBitCastInst V b then sizedPointee V b else None | None \<Rightarrow> None) in
      case next of
        Some T \<Rightarrow> Some T
      | None \<Rightarrow>
          if isInlined V allocSite then
            (case filter (isBitCastInst V) (users M allocSite) of [b] \<Rightarrow> sizedPointee V b | _ \<Rightarrow> None)
          else None)"

text \<open>
  A size is read as a signed number and kept as a \<open>size_t\<close>. The remainder by an element
  size of zero stops the program.
\<close>

definition sizeOf :: "'x heap_view_scheme \<Rightarrow> llvm_value \<Rightarrow> nat" where
  "sizeOf V c = nat (getSExtValue V c mod 2 ^ 64)"

definition inferMallocType :: "'x heap_view_scheme \<Rightarrow> llvm_value \<Rightarrow> int \<Rightarrow> ll_type option result" where
  "inferMallocType V allocSite sizeArgNo =
     (let M = ptaModule V; totalSize = (if 0 \<le> sizeArgNo then Some (getArgOperand M allocSite (nat sizeArgNo)) else None);
          constSize = (case totalSize of Some v \<Rightarrow> if classOf M v = ConstantInt then Some v else None | None \<Rightarrow> None) in
      case getNextBitCastDestType V allocSite of
        Some elemType \<Rightarrow>
          (case isStructWithFlexibleArray elemType of
             Some lastElemTy \<Rightarrow> rbind (getConvertedFlexibleArrayType elemType lastElemTy) (\<lambda>T. Inr (Some T))
           | None \<Rightarrow>
               let elemSize = getTypeAllocSize (envDL (memEnv V)) elemType in
               (case constSize of
                  Some c \<Rightarrow>
                    if sizeOf V c = elemSize then Inr (Some elemType)
                    else if elemSize = 0 then Inl Unreachable
                    else if sizeOf V c mod elemSize = 0 then Inr (Some (getBoundedArrayTy elemType (sizeOf V c div elemSize)))
                    else Inr None
                | None \<Rightarrow> Inr (if elemSize = 1 then None else Some (getUnboundedArrayTy elemType))))
      | None \<Rightarrow>
          (case constSize of
             Some c \<Rightarrow> Inr (if getSExtValue V c = 1 then Some (pointeeType (memEnv V) allocSite) else None)
           | None \<Rightarrow> Inr None))"

definition inferCallocType :: "'x heap_view_scheme \<Rightarrow> llvm_value \<Rightarrow> nat \<Rightarrow> nat \<Rightarrow> ll_type option result" where
  "inferCallocType V allocSite numArgNo sizeArgNo =
     (case getNextBitCastDestType V allocSite of
        None \<Rightarrow> Inr None
      | Some elemType \<Rightarrow>
          let M = ptaModule V; elementNum = getArgOperand M allocSite numArgNo; elementSize = getArgOperand M allocSite sizeArgNo in
          if classOf M elementSize = ConstantInt then
            if getTypeAllocSize (envDL (memEnv V)) elemType = sizeOf V elementSize then
              if classOf M elementNum = ConstantInt then
                if getSExtValue V elementNum = 1 then inferMallocType V allocSite (int sizeArgNo)
                else Inr (Some (getBoundedArrayTy elemType (sizeOf V elementNum)))
              else Inr (Some (getUnboundedArrayTy elemType))
            else Inr (Some (getUnboundedArrayTy elemType))
          else Inr None)"

definition inferHeapAllocType :: "'x heap_view_scheme \<Rightarrow> llvm_value \<Rightarrow> llvm_value \<Rightarrow> ll_type option result" where
  "inferHeapAllocType V F allocSite =
     (if isCalloc (ptaModule V) F then inferCallocType V allocSite 0 1 else inferMallocType V allocSite 0)"

text \<open>The object of an OpenMP task: the type its entry casts the shared data to; none without shared data.\<close>

definition inferHeapAllocTypeForOpenMP :: "'x heap_view_scheme \<Rightarrow> llvm_value \<Rightarrow> ll_type option result" where
  "inferHeapAllocTypeForOpenMP V allocSite =
     (let M = ptaModule V; sharedSize = getArgOperand M allocSite 4 in
      rassert (classOf M sharedSize = ConstantInt) AssertFailed
      (if getSExtValue V sharedSize = 0 then Inr None
       else
         let taskEntry = stripPointerCasts M (getArgOperand M allocSite 5) in
         rassert (classOf M taskEntry = FunctionV) AssertFailed
         (Inr (map_option (destType V)
           (find (\<lambda>u. isBitCastInst V u \<and> \<not> hasName M (getOperand M u 0)) (users M (getArg M taskEntry 1)))))))"

section \<open>The default model\<close>

definition isThreadCreation :: "llvm_module \<Rightarrow> llvm_value \<Rightarrow> bool" where
  "isThreadCreation M F \<longleftrightarrow> getName M F = ''pthread_create''"

definition defaultCompatible :: "llvm_module \<Rightarrow> llvm_value \<Rightarrow> llvm_value \<Rightarrow> bool result" where
  "defaultCompatible M callsite target =
     rassert (isCallBase M callsite) AssertFailed
     (case getCalledFunction M callsite of
        None \<Rightarrow> Inl AssertFailed
      | Some pthread \<Rightarrow>
          rassert (getName M pthread = ''pthread_create'') AssertFailed
          (if argSize M target \<noteq> 1 then Inr False else Inr (isInt8PtrTy M (getArg M target 0))))"

definition defaultHeapAllocSite :: "'x heap_view_scheme \<Rightarrow> ctx_ptr \<Rightarrow> llvm_value \<Rightarrow> llvm_value \<Rightarrow> gen_state \<Rightarrow> gen_state result" where
  "defaultHeapAllocSite V callerCtx callee allocSite gs =
     rbind (inferHeapAllocType V callee allocSite) (\<lambda>heapObjType.
     rbind (allocHeapObj (memEnv V) callerCtx allocSite heapObjType (allocState gs)) (\<lambda>(obj, st).
     let gs = gs\<lparr> allocState := st \<rparr> in
     rbind (getPtrNode V callerCtx allocSite gs) (\<lambda>ptr. addEdge obj ptr CAddrOf gs)))"

definition defaultFunction :: "llvm_module \<Rightarrow> llvm_value \<Rightarrow> llvm_value \<Rightarrow> (llvm_value option \<times> intercept_option) result" where
  "defaultFunction M F callsite =
     (if isIntrinsic M F then Inr (None, IGNORE_FUN)
      else if isThreadCreation M F then
        rassert (isCallBase M callsite) AssertFailed
        (let v = getArgOperand M callsite 2; f = stripPointerCasts M v in
         Inr (Some (if classOf M f = FunctionV then f else v), EXPAND_BODY))
      else Inr (Some F, EXPAND_BODY))"

text \<open>One argument of a call goes to one parameter of the called function.\<close>

definition linkArg :: "'x value_view_scheme \<Rightarrow> ctx_ptr \<Rightarrow> ctx_ptr \<Rightarrow> llvm_value \<times> llvm_value \<Rightarrow> gen_state \<Rightarrow> gen_state result" where
  "linkArg V callerCtx calleeCtx = (\<lambda>(actual, formal) gs.
     rbind (getPtrNode V calleeCtx formal gs) (\<lambda>f. rbind (getPtrNode V callerCtx actual gs) (\<lambda>a. addEdge a f CCopy gs)))"

definition defaultCallSite ::
  "'x heap_view_scheme \<Rightarrow> ctx_ptr \<Rightarrow> ctx_ptr \<Rightarrow> llvm_value \<Rightarrow> llvm_value option \<Rightarrow> llvm_value \<Rightarrow> gen_state \<Rightarrow> (bool \<times> gen_state) result" where
  "defaultCallSite V callerCtx calleeCtx callee originalTarget I gs =
     (let M = ptaModule V in
      rassert (isCallBase M I) AssertFailed
      (rbind (csCalledFunction V I) (\<lambda>fun.
       if (case fun of Some F \<Rightarrow> isThreadCreation M F | None \<Rightarrow> False) then
         rassert (argSize M callee = 1) AssertFailed
         (rbind (linkArg V callerCtx calleeCtx (getArgOperand M I 3, getArg M callee 0) gs) (\<lambda>gs. Inr (True, gs)))
       else Inr (False, gs))))"

definition defaultLangModel :: "'x heap_view_scheme \<Rightarrow> indirect_option \<Rightarrow> lang_hooks" where
  "defaultLangModel V option =
     (let M = ptaModule V in
      \<lparr> hookHeapAllocAPI = isHeapAllocFun M, hookHeapAllocSite = defaultHeapAllocSite V, hookFunction = defaultFunction M,
        hookCallSite = defaultCallSite V, hookCompatible = defaultCompatible M, hookIndirect = (\<lambda>F I. option) \<rparr>)"

section \<open>The model of the race detector\<close>

text \<open>
  An OpenMP task is an object that holds a pointer to its shared data. Of a function that is neither a heap
  allocation nor a task allocation only a message is printed.
\<close>

definition raceHeapAllocSite :: "'x heap_view_scheme \<Rightarrow> ctx_ptr \<Rightarrow> llvm_value \<Rightarrow> llvm_value \<Rightarrow> gen_state \<Rightarrow> gen_state result" where
  "raceHeapAllocSite V callerCtx callee callsite gs =
     (let M = ptaModule V; E = memEnv V in
      if isHeapAllocFun M callee then
        rbind (inferHeapAllocType V callee callsite) (\<lambda>type.
        rbind (getPtrNode V callerCtx callsite gs) (\<lambda>ptr.
        rbind (allocHeapObj E callerCtx callsite type (allocState gs)) (\<lambda>(obj, st).
        addEdge obj ptr CAddrOf (gs\<lparr> allocState := st \<rparr>))))
      else if isTaskAlloc (getName M callee) then
        rbind (inferHeapAllocTypeForOpenMP V callsite) (\<lambda>type.
        case type of
          None \<Rightarrow> Inr gs
        | Some (PointerTy s) \<Rightarrow>
            (case getPointerElementType (envDL E) s of
               None \<Rightarrow> Inl AssertFailed
             | Some T \<Rightarrow>
                 rbind (allocAnonObj E callerCtx (Some T) None False (allocState gs)) (\<lambda>(sharedObj, st).
                 rbind (allocHeapObj E callerCtx callsite type st) (\<lambda>(taskObj, st).
                 let gs = gs\<lparr> allocState := st \<rparr> in
                 rbind (getPtrNode V callerCtx callsite gs) (\<lambda>ptr.
                 case sharedObj of
                   None \<Rightarrow> Inl NullDeref
                 | Some shared \<Rightarrow> rbind (addEdge shared taskObj CAddrOf gs) (addEdge taskObj ptr CAddrOf)))))
        | Some T \<Rightarrow> Inl AssertFailed)
      else Inr gs)"

definition raceCallSite ::
  "'x heap_view_scheme \<Rightarrow> ctx_ptr \<Rightarrow> ctx_ptr \<Rightarrow> llvm_value \<Rightarrow> llvm_value option \<Rightarrow> llvm_value \<Rightarrow> gen_state \<Rightarrow> (bool \<times> gen_state) result" where
  "raceCallSite V callerCtx calleeCtx callee originalTarget I gs =
     rassert (originalTarget \<noteq> None) AssertFailed
     (rassert (ctxEvolve V callerCtx I = calleeCtx) AssertFailed
     (rbind (interceptCallSite (ptaModule V) callee I) (\<lambda>(handled, links).
      rbind (rfold (linkArg V callerCtx calleeCtx) links gs) (\<lambda>gs. Inr (handled, gs)))))"

definition raceLangModel :: "'x heap_view_scheme \<Rightarrow> indirect_option \<Rightarrow> lang_hooks" where
  "raceLangModel V option =
     (let M = ptaModule V in
      \<lparr> hookHeapAllocAPI = isHeapAllocAPI M, hookHeapAllocSite = raceHeapAllocSite V, hookFunction = interceptFunction M,
        hookCallSite = raceCallSite V, hookCompatible = isCompatible M, hookIndirect = (\<lambda>F I. option) \<rparr>)"

end
