(* ===== verification/CallGraphOk.thy ===== *)
theory CallGraphOk
  imports CallGraphs
begin

text \<open>
  The call graph is right: for a client within its contract the module makes exactly one node for every
  function and context that calls reach from the entry, joins every call of a walked function to its target,
  and the walk ends.
\<close>

section \<open>Well-formed modules\<close>

definition keys :: "ctx_module \<Rightarrow> (ctx_ptr \<times> llvm_value) set" where
  "keys cm = dom (map_of (ctxFunMap cm))"

definition callOut :: "ctx_module \<Rightarrow> nat \<Rightarrow> llvm_value \<Rightarrow> nat \<Rightarrow> bool" where
  "callOut cm s I d \<longleftrightarrow> s < length (callNodes cm) \<and> (I, d) \<in> set (cnSucc (callNodes cm ! s))"

definition callIn :: "ctx_module \<Rightarrow> nat \<Rightarrow> llvm_value \<Rightarrow> nat \<Rightarrow> bool" where
  "callIn cm d I s \<longleftrightarrow> d < length (callNodes cm) \<and> (I, s) \<in> set (cnPred (callNodes cm ! d))"

definition cm_ok :: "ctx_module \<Rightarrow> bool" where
  "cm_ok cm \<longleftrightarrow>
     (\<forall>C F i. map_of (ctxFunMap cm) (C, F) = Some i \<longrightarrow>
        i < length (callNodes cm) \<and> cnCtx (callNodes cm ! i) = C \<and> (\<exists>ext. cnTarget (callNodes cm ! i) = DirectFun F ext)) \<and>
     (\<forall>C I i. map_of (ctxFunPtrMap cm) (C, I) = Some i \<longrightarrow>
        i < length (callNodes cm) \<and> cnCtx (callNodes cm ! i) = C \<and> isIndirectNode (callNodes cm ! i)) \<and>
     (\<forall>i < length (callNodes cm). \<forall>F ext. cnTarget (callNodes cm ! i) = DirectFun F ext \<longrightarrow>
        map_of (ctxFunMap cm) (cnCtx (callNodes cm ! i), F) = Some i) \<and>
     (\<forall>s I d. callOut cm s I d \<longleftrightarrow> callIn cm d I s)"

lemma cm_okD:
  assumes "cm_ok cm"
  shows "map_of (ctxFunMap cm) (C, F) = Some i \<Longrightarrow>
      i < length (callNodes cm) \<and> cnCtx (callNodes cm ! i) = C \<and> (\<exists>ext. cnTarget (callNodes cm ! i) = DirectFun F ext)"
    and "map_of (ctxFunPtrMap cm) (C, I) = Some i \<Longrightarrow>
      i < length (callNodes cm) \<and> cnCtx (callNodes cm ! i) = C \<and> isIndirectNode (callNodes cm ! i)"
    and "i < length (callNodes cm) \<Longrightarrow> cnTarget (callNodes cm ! i) = DirectFun F ext \<Longrightarrow>
      map_of (ctxFunMap cm) (cnCtx (callNodes cm ! i), F) = Some i"
    and "callOut cm s I d \<longleftrightarrow> callIn cm d I s"
  using assms unfolding cm_ok_def by blast+

definition cm_grows :: "ctx_module \<Rightarrow> ctx_module \<Rightarrow> bool" where
  "cm_grows cm cm' \<longleftrightarrow> length (callNodes cm) \<le> length (callNodes cm') \<and>
     (\<forall>i < length (callNodes cm). cnCtx (callNodes cm' ! i) = cnCtx (callNodes cm ! i) \<and>
        cnTarget (callNodes cm' ! i) = cnTarget (callNodes cm ! i)) \<and>
     (\<forall>s I d. callOut cm s I d \<longrightarrow> callOut cm' s I d) \<and>
     map_of (ctxFunMap cm) \<subseteq>\<^sub>m map_of (ctxFunMap cm') \<and> map_of (ctxFunPtrMap cm) \<subseteq>\<^sub>m map_of (ctxFunPtrMap cm')"

lemma cm_grows_refl: "cm_grows cm cm"
  by (simp add: cm_grows_def)

lemma cm_grows_trans:
  assumes "cm_grows a b" and "cm_grows b c"
  shows "cm_grows a c"
  using assms unfolding cm_grows_def by (auto intro: map_le_trans)

text \<open>The nodes whose bodies are walked.\<close>

definition walkedNodes :: "ctx_module \<Rightarrow> nat set" where
  "walkedNodes cm = {i. i < length (callNodes cm) \<and> (\<exists>F. cnTarget (callNodes cm ! i) = DirectFun F False)}"

lemma empty_module_ok: "cm_ok newCtxModule" "keys newCtxModule = {}" "walkedNodes newCtxModule = {}"
  by (simp_all add: newCtxModule_def cm_ok_def keys_def walkedNodes_def callOut_def callIn_def)

section \<open>Updates\<close>

text \<open>A new node without edges, entered in one of the maps.\<close>

lemma addNode_ok:
  assumes ok: "cm_ok cm" and cm': "callNodes cm' = callNodes cm @ [\<lparr> cnCtx = C, cnSite = I, cnTarget = t, cnSucc = [], cnPred = [] \<rparr>]"
    and maps: "(\<exists>F ext. t = DirectFun F ext \<and> map_of (ctxFunMap cm) (C, F) = None \<and>
        ctxFunMap cm' = ((C, F), length (callNodes cm)) # ctxFunMap cm \<and> ctxFunPtrMap cm' = ctxFunPtrMap cm) \<or>
      (\<exists>v ts rs J. t = IndirectSite v ts rs \<and> map_of (ctxFunPtrMap cm) (C, J) = None \<and>
        ctxFunMap cm' = ctxFunMap cm \<and> ctxFunPtrMap cm' = ((C, J), length (callNodes cm)) # ctxFunPtrMap cm)"
  shows "cm_ok cm'" and "cm_grows cm cm'"
proof -
  let ?n = "length (callNodes cm)"
  have at: "callNodes cm' ! i = (if i < ?n then callNodes cm ! i else \<lparr> cnCtx = C, cnSite = I, cnTarget = t, cnSucc = [], cnPred = [] \<rparr>)"
    if "i < Suc ?n" for i using that by (auto simp: cm' nth_append less_Suc_eq)
  have len: "length (callNodes cm') = Suc ?n" by (simp add: cm')
  note D = cm_okD [OF ok]
  have "callOut cm' s J d \<longleftrightarrow> callOut cm s J d" "callIn cm' d J s \<longleftrightarrow> callIn cm d J s" for s J d
    by (auto simp: callOut_def callIn_def len at less_Suc_eq)
  then have e: "\<forall>s J d. callOut cm' s J d \<longleftrightarrow> callIn cm' d J s" using D(4) by simp
  from maps show "cm_ok cm'"
  proof
    assume "\<exists>F ext. t = DirectFun F ext \<and> map_of (ctxFunMap cm) (C, F) = None \<and>
        ctxFunMap cm' = ((C, F), ?n) # ctxFunMap cm \<and> ctxFunPtrMap cm' = ctxFunPtrMap cm"
    then obtain F ext where m: "t = DirectFun F ext" "map_of (ctxFunMap cm) (C, F) = None"
      "ctxFunMap cm' = ((C, F), ?n) # ctxFunMap cm" "ctxFunPtrMap cm' = ctxFunPtrMap cm" by blast
    show ?thesis
      unfolding cm_ok_def len m(3,4)
    proof (intro conjI e)
      show "\<forall>C' F' i. map_of (((C, F), ?n) # ctxFunMap cm) (C', F') = Some i \<longrightarrow>
          i < Suc ?n \<and> cnCtx (callNodes cm' ! i) = C' \<and> (\<exists>ext. cnTarget (callNodes cm' ! i) = DirectFun F' ext)"
        using D(1) m(1) by (auto simp: at less_SucI)
      show "\<forall>C' J i. map_of (ctxFunPtrMap cm) (C', J) = Some i \<longrightarrow>
          i < Suc ?n \<and> cnCtx (callNodes cm' ! i) = C' \<and> isIndirectNode (callNodes cm' ! i)"
        using D(2) by (auto simp: at less_SucI)
      show "\<forall>i < Suc ?n. \<forall>F' ext. cnTarget (callNodes cm' ! i) = DirectFun F' ext \<longrightarrow>
          map_of (((C, F), ?n) # ctxFunMap cm) (cnCtx (callNodes cm' ! i), F') = Some i"
        using D(3) m(1,2) by (auto simp: at less_Suc_eq)
    qed
  next
    assume "\<exists>v ts rs J. t = IndirectSite v ts rs \<and> map_of (ctxFunPtrMap cm) (C, J) = None \<and>
        ctxFunMap cm' = ctxFunMap cm \<and> ctxFunPtrMap cm' = ((C, J), ?n) # ctxFunPtrMap cm"
    then obtain v ts rs J where m: "t = IndirectSite v ts rs" "map_of (ctxFunPtrMap cm) (C, J) = None"
      "ctxFunMap cm' = ctxFunMap cm" "ctxFunPtrMap cm' = ((C, J), ?n) # ctxFunPtrMap cm" by blast
    show ?thesis
      unfolding cm_ok_def len m(3,4)
    proof (intro conjI e)
      show "\<forall>C' F' i. map_of (ctxFunMap cm) (C', F') = Some i \<longrightarrow>
          i < Suc ?n \<and> cnCtx (callNodes cm' ! i) = C' \<and> (\<exists>ext. cnTarget (callNodes cm' ! i) = DirectFun F' ext)"
        using D(1) by (auto simp: at less_SucI)
      show "\<forall>C' K i. map_of (((C, J), ?n) # ctxFunPtrMap cm) (C', K) = Some i \<longrightarrow>
          i < Suc ?n \<and> cnCtx (callNodes cm' ! i) = C' \<and> isIndirectNode (callNodes cm' ! i)"
        using D(2) m(1) by (auto simp: at less_SucI isIndirectNode_def)
      show "\<forall>i < Suc ?n. \<forall>F' ext. cnTarget (callNodes cm' ! i) = DirectFun F' ext \<longrightarrow>
          map_of (ctxFunMap cm) (cnCtx (callNodes cm' ! i), F') = Some i"
        using D(3) m(1) by (auto simp: at less_Suc_eq)
    qed
  qed
  from maps show "cm_grows cm cm'" unfolding cm_grows_def len by (auto simp: at map_le_def callOut_def len)
qed

lemma updCall_nth:
  "length (callNodes (updCall i f cm)) = length (callNodes cm)"
  "j < length (callNodes cm) \<Longrightarrow> callNodes (updCall i f cm) ! j = (if j = i then f (callNodes cm ! i) else callNodes cm ! j)"
  "ctxFunMap (updCall i f cm) = ctxFunMap cm" "ctxFunPtrMap (updCall i f cm) = ctxFunPtrMap cm"
  by (auto simp: updCall_def nth_list_update)

lemma insertCallEdge_ok:
  assumes ok: "cm_ok cm" and s: "s < length (callNodes cm)" and d: "d < length (callNodes cm)"
  shows "\<exists>b cm'. insertCallEdge s d I cm = Inr (b, cm') \<and> cm_ok cm' \<and> cm_grows cm cm' \<and> callOut cm' s I d \<and>
    walkedNodes cm' = walkedNodes cm \<and> ctxFunMap cm' = ctxFunMap cm \<and> ctxFunPtrMap cm' = ctxFunPtrMap cm \<and> length (callNodes cm') = length (callNodes cm) \<and>
    (\<forall>a J b. callOut cm' a J b \<longleftrightarrow> callOut cm a J b \<or> a = s \<and> J = I \<and> b = d)"
proof -
  note D = cm_okD [OF ok]
  let ?f = "\<lambda>n :: call_node. n\<lparr> cnSucc := List.insert (I, d) (cnSucc n) \<rparr>" and ?g = "\<lambda>n :: call_node. n\<lparr> cnPred := List.insert (I, s) (cnPred n) \<rparr>"
  let ?cm1 = "updCall s ?f cm" and ?cm2 = "updCall d ?g (updCall s ?f cm)"
  have "cnPred (callNodes ?cm1 ! d) = cnPred (callNodes cm ! d)" using d by (simp add: updCall_nth)
  moreover have "(I, d) \<in> set (cnSucc (callNodes cm ! s)) \<longleftrightarrow> (I, s) \<in> set (cnPred (callNodes cm ! d))"
    using D(4) [of s I d] s d by (simp add: callOut_def callIn_def)
  ultimately have step: "insertCallEdge s d I cm = Inr ((I, d) \<notin> set (cnSucc (callNodes cm ! s)), ?cm2)"
    by (simp add: insertCallEdge_def Let_def)
  have at: "cnCtx (callNodes ?cm2 ! i) = cnCtx (callNodes cm ! i)" "cnTarget (callNodes ?cm2 ! i) = cnTarget (callNodes cm ! i)"
    "set (cnSucc (callNodes ?cm2 ! i)) = set (cnSucc (callNodes cm ! i)) \<union> (if i = s then {(I, d)} else {})"
    "set (cnPred (callNodes ?cm2 ! i)) = set (cnPred (callNodes cm ! i)) \<union> (if i = d then {(I, s)} else {})"
    if "i < length (callNodes cm)" for i using that by (auto simp: updCall_nth)
  have len: "length (callNodes ?cm2) = length (callNodes cm)" "ctxFunMap ?cm2 = ctxFunMap cm" "ctxFunPtrMap ?cm2 = ctxFunPtrMap cm"
    by (simp_all add: updCall_nth)
  have out: "callOut ?cm2 s' J d' \<longleftrightarrow> callOut cm s' J d' \<or> s' = s \<and> J = I \<and> d' = d" for s' J d'
    using s by (auto simp: callOut_def len at split: if_splits)
  have "cm_ok ?cm2"
    unfolding cm_ok_def len
  proof (intro conjI)
    show "\<forall>C F i. map_of (ctxFunMap cm) (C, F) = Some i \<longrightarrow> i < length (callNodes cm) \<and>
        cnCtx (callNodes ?cm2 ! i) = C \<and> (\<exists>ext. cnTarget (callNodes ?cm2 ! i) = DirectFun F ext)"
      using D(1) by (auto simp: at)
    show "\<forall>C J i. map_of (ctxFunPtrMap cm) (C, J) = Some i \<longrightarrow> i < length (callNodes cm) \<and>
        cnCtx (callNodes ?cm2 ! i) = C \<and> isIndirectNode (callNodes ?cm2 ! i)"
      using D(2) by (auto simp: at isIndirectNode_def)
    show "\<forall>i < length (callNodes cm). \<forall>F ext. cnTarget (callNodes ?cm2 ! i) = DirectFun F ext \<longrightarrow>
        map_of (ctxFunMap cm) (cnCtx (callNodes ?cm2 ! i), F) = Some i"
      using D(3) by (auto simp: at)
    have "callOut ?cm2 s' J d' \<longleftrightarrow> callOut cm s' J d' \<or> (s' = s \<and> J = I \<and> d' = d)"
      "callIn ?cm2 d' J s' \<longleftrightarrow> callIn cm d' J s' \<or> (s' = s \<and> J = I \<and> d' = d)" for s' J d'
      using s d by (auto simp: callOut_def callIn_def len at split: if_splits)
    then show "\<forall>s' J d'. callOut ?cm2 s' J d' \<longleftrightarrow> callIn ?cm2 d' J s'" using D(4) by simp
  qed
  moreover have "cm_grows cm ?cm2" by (auto simp: cm_grows_def len at callOut_def)
  moreover have "walkedNodes ?cm2 = walkedNodes cm" by (auto simp: walkedNodes_def len at)
  moreover have "callOut ?cm2 s I d" by (simp add: out)
  ultimately show ?thesis using step len out by blast
qed


text \<open>
  The direct calls of a graph: the context and function of the caller, the call, and the context and function called; and the
  calls of a node that have edges.
\<close>

type_synonym call_record = "ctx_ptr \<times> llvm_value \<times> llvm_value \<times> ctx_ptr \<times> llvm_value"

definition calls :: "ctx_module \<Rightarrow> call_record set" where
  "calls cm = {(C, F, I, C', R). \<exists>n m ext ext'. callOut cm n I m \<and> m < length (callNodes cm) \<and>
     cnCtx (callNodes cm ! n) = C \<and> cnTarget (callNodes cm ! n) = DirectFun F ext \<and>
     cnCtx (callNodes cm ! m) = C' \<and> cnTarget (callNodes cm ! m) = DirectFun R ext'}"

definition outs :: "ctx_module \<Rightarrow> nat \<Rightarrow> llvm_value set" where
  "outs cm n = {I. \<exists>d. callOut cm n I d}"

lemma addNode_calls:
  assumes ok: "cm_ok cm" and cm': "callNodes cm' = callNodes cm @ [\<lparr> cnCtx = C, cnSite = I, cnTarget = t, cnSucc = [], cnPred = [] \<rparr>]"
  shows "calls cm' = calls cm" "outs cm' = outs cm" "callOut cm' n J d \<longleftrightarrow> callOut cm n J d"
proof -
  have at: "callNodes cm' ! i = callNodes cm ! i" if "i < length (callNodes cm)" for i using that by (simp add: cm' nth_append)
  have o: "callOut cm' n J d \<longleftrightarrow> callOut cm n J d" for n J d
    by (auto simp: callOut_def cm' nth_append less_Suc_eq)
  have b: "n < length (callNodes cm) \<and> d < length (callNodes cm)" if "callOut cm n J d" for n J d
    using that cm_okD(4) [OF ok, of n J d] by (auto simp: callOut_def callIn_def)
  show "outs cm' = outs cm" "callOut cm' n J d \<longleftrightarrow> callOut cm n J d" by (simp_all add: outs_def o fun_eq_iff)
  show "calls cm' = calls cm"
  proof (intro set_eqI)
    fix x :: call_record
    obtain C F J C' R where x: "x = (C, F, J, C', R)" by (cases x)
    show "x \<in> calls cm' \<longleftrightarrow> x \<in> calls cm"
    proof
      assume "x \<in> calls cm'"
      then show "x \<in> calls cm" unfolding x calls_def o mem_Collect_eq prod.case using b at by metis
    next
      assume "x \<in> calls cm"
      then obtain n m ext ext' where e: "callOut cm n J m" "cnCtx (callNodes cm ! n) = C" "cnTarget (callNodes cm ! n) = DirectFun F ext"
        "cnCtx (callNodes cm ! m) = C'" "cnTarget (callNodes cm ! m) = DirectFun R ext'" unfolding x calls_def by blast
      have "callOut cm' n J m" "m < length (callNodes cm')" using e(1) b [OF e(1)] o by (auto simp: cm')
      then show "x \<in> calls cm'" unfolding x calls_def mem_Collect_eq prod.case using e b [OF e(1)] at by metis
    qed
  qed
qed

lemma edge_calls:
  assumes ok: "cm_ok cm" and out: "\<And>a J b. callOut cm' a J b \<longleftrightarrow> callOut cm a J b \<or> a = s \<and> J = I \<and> b = d"
    and grows: "cm_grows cm cm'" and len: "length (callNodes cm') = length (callNodes cm)"
    and s: "s < length (callNodes cm)" and d: "d < length (callNodes cm)"
  shows "outs cm' m = outs cm m \<union> (if m = s then {I} else {})"
    and "isIndirectNode (callNodes cm ! d) \<Longrightarrow> calls cm' = calls cm"
    and "cnTarget (callNodes cm ! s) = DirectFun F e \<Longrightarrow> cnTarget (callNodes cm ! d) = DirectFun R e' \<Longrightarrow>
      calls cm' = insert (cnCtx (callNodes cm ! s), F, I, cnCtx (callNodes cm ! d), R) (calls cm)"
proof -
  have at: "cnCtx (callNodes cm' ! i) = cnCtx (callNodes cm ! i)" "cnTarget (callNodes cm' ! i) = cnTarget (callNodes cm ! i)"
    if "i < length (callNodes cm)" for i using grows that by (auto simp: cm_grows_def)
  have b: "x < length (callNodes cm) \<and> y < length (callNodes cm)" if "callOut cm x J y" for x J y
    using that cm_okD(4) [OF ok, of x J y] by (auto simp: callOut_def callIn_def)
  show "outs cm' m = outs cm m \<union> (if m = s then {I} else {})" by (auto simp: outs_def out)
  have sub: "calls cm \<subseteq> calls cm'"
  proof
    fix x assume "x \<in> calls cm"
    then obtain C F J C' R n m ext ext' where x: "x = (C, F, J, C', R)" "callOut cm n J m" "cnCtx (callNodes cm ! n) = C"
      "cnTarget (callNodes cm ! n) = DirectFun F ext" "cnCtx (callNodes cm ! m) = C'" "cnTarget (callNodes cm ! m) = DirectFun R ext'"
      unfolding calls_def by blast
    have "callOut cm' n J m" using x(2) out by blast
    then show "x \<in> calls cm'" using x at b [OF x(2)] len unfolding x(1) calls_def mem_Collect_eq prod.case by metis
  qed
  have sup: "x \<in> calls cm \<or> (\<exists>F R e e'. x = (cnCtx (callNodes cm ! s), F, I, cnCtx (callNodes cm ! d), R) \<and>
      cnTarget (callNodes cm ! s) = DirectFun F e \<and> cnTarget (callNodes cm ! d) = DirectFun R e')" if x: "x \<in> calls cm'" for x
  proof -
    obtain C F J C' R n m ext ext' where x: "x = (C, F, J, C', R)" "callOut cm' n J m" "cnCtx (callNodes cm' ! n) = C"
      "cnTarget (callNodes cm' ! n) = DirectFun F ext" "cnCtx (callNodes cm' ! m) = C'" "cnTarget (callNodes cm' ! m) = DirectFun R ext'"
      using \<open>x \<in> calls cm'\<close> unfolding calls_def by blast
    consider "callOut cm n J m" | "n = s" "J = I" "m = d" using x(2) out by blast
    then show ?thesis
    proof cases
      case 1
      have "x \<in> calls cm" using 1 x b [OF 1] at unfolding x(1) calls_def mem_Collect_eq prod.case by metis
      then show ?thesis ..
    next
      case 2
      then show ?thesis using x at [OF s] at [OF d] by auto
    qed
  qed
  show "calls cm' = calls cm" if "isIndirectNode (callNodes cm ! d)"
  proof -
    have "cnTarget (callNodes cm ! d) \<noteq> DirectFun R e'" for R e' using that by (auto simp: isIndirectNode_def)
    then show ?thesis using sub sup by blast
  qed
  show "calls cm' = insert (cnCtx (callNodes cm ! s), F, I, cnCtx (callNodes cm ! d), R) (calls cm)"
    if "cnTarget (callNodes cm ! s) = DirectFun F e" "cnTarget (callNodes cm ! d) = DirectFun R e'"
  proof -
    have "(cnCtx (callNodes cm ! s), F, I, cnCtx (callNodes cm ! d), R) \<in> calls cm'"
      using that at [OF s] at [OF d] out [of s I d] d len unfolding calls_def mem_Collect_eq prod.case by metis
    moreover have "x \<in> calls cm \<or> x = (cnCtx (callNodes cm ! s), F, I, cnCtx (callNodes cm ! d), R)" if "x \<in> calls cm'" for x
      using sup [OF that] \<open>cnTarget (callNodes cm ! s) = DirectFun F e\<close> \<open>cnTarget (callNodes cm ! d) = DirectFun R e'\<close> by auto
    ultimately show ?thesis using sub by blast
  qed
qed

section \<open>The contract of the client\<close>

text \<open>
  The client keeps a property of its state, of the functions and contexts with a node and of the direct calls with an edge; it
  redirects calls by a function of the call, and walks a function or not by the function alone. It is only asked about calls
  of functions that are walked, and told once of each.
\<close>

type_synonym icpt_fun = "ctx_ptr \<Rightarrow> ctx_ptr \<Rightarrow> llvm_value \<Rightarrow> llvm_value \<Rightarrow> llvm_value option \<times> intercept_option"
type_synonym 's client_inv = "(ctx_ptr \<times> llvm_value) set \<Rightarrow> call_record set \<Rightarrow> 's \<Rightarrow> bool"

definition directCall :: "'x pta_view_scheme \<Rightarrow> llvm_value \<Rightarrow> llvm_value \<Rightarrow> bool" where
  "directCall V I F \<longleftrightarrow> isCallBase (ptaModule V) I \<and> \<not> csIsIndirectCall V I \<and> \<not> isInlineAsm V I \<and> csCalledFunction V I = Inr (Some F)"

text \<open>The call is of a walked function.\<close>

definition walkedSite :: "'x pta_view_scheme \<Rightarrow> (llvm_value \<Rightarrow> bool) \<Rightarrow> (ctx_ptr \<times> llvm_value) set \<Rightarrow> ctx_ptr \<Rightarrow> llvm_value \<Rightarrow> llvm_value \<Rightarrow> bool" where
  "walkedSite V walks K C F I \<longleftrightarrow> (C, F) \<in> K \<and> walks F \<and> I \<in> set (bodyOf V F)"

text \<open>The function pointer of an indirect call, none if it is the called operand.\<close>

definition siteValue :: "'x pta_view_scheme \<Rightarrow> icpt_fun \<Rightarrow> ctx_ptr \<Rightarrow> llvm_value \<Rightarrow> llvm_value option \<Rightarrow> bool" where
  "siteValue V icpt C I v \<longleftrightarrow> (v = None \<and> isCallBase (ptaModule V) I \<and> csIsIndirectCall V I) \<or>
     (\<exists>G R opt. directCall V I G \<and> icpt (ctxEvolve V C I) C G I = (Some R, opt) \<and> opt \<noteq> IGNORE_FUN \<and>
        classOf (ptaModule V) R \<noteq> FunctionV \<and> v = Some R)"

definition siteNode :: "ctx_ptr \<Rightarrow> llvm_value \<Rightarrow> llvm_value option \<Rightarrow> call_node" where
  "siteNode C I v = \<lparr> cnCtx = C, cnSite = Some I, cnTarget = IndirectSite v [] [], cnSucc = [], cnPred = [] \<rparr>"

definition client_ok ::
  "'x pta_view_scheme \<Rightarrow> 's callbacks \<Rightarrow> icpt_fun \<Rightarrow> (llvm_value \<Rightarrow> bool) \<Rightarrow> (llvm_value \<Rightarrow> bool) \<Rightarrow> 's client_inv \<Rightarrow> bool" where
  "client_ok V cb icpt expands walks P \<longleftrightarrow>
     (\<forall>K E s C F I G. P K E s \<longrightarrow> walkedSite V walks K C F I \<longrightarrow> directCall V I G \<longrightarrow>
        (\<exists>s'. beforeNewNode cb (ctxEvolve V C I) C G (Some I) s = Inr (icpt (ctxEvolve V C I) C G I, s') \<and> P K E s')) \<and>
     (\<forall>K E s n i F. P K E s \<longrightarrow> cnTarget n = DirectFun F False \<longrightarrow> (cnCtx n, F) \<notin> K \<longrightarrow>
        (\<exists>s'. onNewDirect cb n i s = Inr (expands F, s') \<and> P (insert (cnCtx n, F) K) E s')) \<and>
     (\<forall>K E s C F I v i. P K E s \<longrightarrow> walkedSite V walks K C F I \<longrightarrow> siteValue V icpt C I v \<longrightarrow>
        (\<exists>s'. onNewInDirect cb (siteNode C I v) i s = Inr s' \<and> P K E s')) \<and>
     (\<forall>K E s n m f I F. P K E s \<longrightarrow> cnTarget n = DirectFun F False \<longrightarrow> walkedSite V walks K (cnCtx n) F I \<longrightarrow> isIndirectNode m \<longrightarrow>
        (\<exists>s'. onNewEdge cb n m f I s = Inr s' \<and> P K E s')) \<and>
     (\<forall>K E s n m I F G R opt. P K E s \<longrightarrow> cnTarget n = DirectFun F False \<longrightarrow> walkedSite V walks K (cnCtx n) F I \<longrightarrow>
        directCall V I G \<longrightarrow> icpt (ctxEvolve V (cnCtx n) I) (cnCtx n) G I = (Some R, opt) \<longrightarrow> opt \<noteq> IGNORE_FUN \<longrightarrow>
        classOf (ptaModule V) R = FunctionV \<longrightarrow> cnTarget m = DirectFun R (\<not> walks R) \<longrightarrow> cnCtx m = ctxEvolve V (cnCtx n) I \<longrightarrow> (cnCtx m, R) \<in> K \<longrightarrow>
        (\<forall>C' R'. (cnCtx n, F, I, C', R') \<notin> E) \<longrightarrow>
        (\<exists>s'. onNewEdge cb n m (Some G) I s = Inr s' \<and> P K (insert (cnCtx n, F, I, cnCtx m, R) E) s')) \<and>
     (\<forall>K E s k. P K E s \<longrightarrow> \<not> walks (snd k) \<longrightarrow> P (insert k K) E s)"

lemma client_okD:
  assumes "client_ok V cb icpt expands walks P" and "P K E s"
  shows "walkedSite V walks K C F I \<Longrightarrow> directCall V I G \<Longrightarrow>
      \<exists>s'. beforeNewNode cb (ctxEvolve V C I) C G (Some I) s = Inr (icpt (ctxEvolve V C I) C G I, s') \<and> P K E s'"
    and "cnTarget n = DirectFun F False \<Longrightarrow> (cnCtx n, F) \<notin> K \<Longrightarrow>
      \<exists>s'. onNewDirect cb n i s = Inr (expands F, s') \<and> P (insert (cnCtx n, F) K) E s'"
    and "walkedSite V walks K C F I \<Longrightarrow> siteValue V icpt C I v \<Longrightarrow> \<exists>s'. onNewInDirect cb (siteNode C I v) i s = Inr s' \<and> P K E s'"
    and "cnTarget n = DirectFun F False \<Longrightarrow> walkedSite V walks K (cnCtx n) F I \<Longrightarrow> isIndirectNode m \<Longrightarrow>
      \<exists>s'. onNewEdge cb n m f I s = Inr s' \<and> P K E s'"
    and "cnTarget n = DirectFun F False \<Longrightarrow> walkedSite V walks K (cnCtx n) F I \<Longrightarrow>
        directCall V I G \<Longrightarrow> icpt (ctxEvolve V (cnCtx n) I) (cnCtx n) G I = (Some R, opt) \<Longrightarrow> opt \<noteq> IGNORE_FUN \<Longrightarrow>
        classOf (ptaModule V) R = FunctionV \<Longrightarrow> cnTarget m = DirectFun R (\<not> walks R) \<Longrightarrow> cnCtx m = ctxEvolve V (cnCtx n) I \<Longrightarrow> (cnCtx m, R) \<in> K \<Longrightarrow>
        (\<And>C' R'. (cnCtx n, F, I, C', R') \<notin> E) \<Longrightarrow>
        \<exists>s'. onNewEdge cb n m (Some G) I s = Inr s' \<and> P K (insert (cnCtx n, F, I, cnCtx m, R) E) s'"
    and "\<not> walks (snd k) \<Longrightarrow> P (insert k K) E s"
proof -
  note a = assms(1) [unfolded client_ok_def]
  note c = conjunct2 [OF a]
  note d = conjunct2 [OF c] note e = conjunct2 [OF d] note f = conjunct2 [OF e] note g = conjunct2 [OF f]
  show "\<exists>s'. beforeNewNode cb (ctxEvolve V C I) C G (Some I) s = Inr (icpt (ctxEvolve V C I) C G I, s') \<and> P K E s'"
    if "walkedSite V walks K C F I" "directCall V I G"
    by (rule conjunct1 [OF a, rule_format, OF assms(2) that])
  show "\<exists>s'. onNewDirect cb n i s = Inr (expands F, s') \<and> P (insert (cnCtx n, F) K) E s'"
    if "cnTarget n = DirectFun F False" "(cnCtx n, F) \<notin> K"
    by (rule conjunct1 [OF c, rule_format, OF assms(2) that])
  show "\<exists>s'. onNewInDirect cb (siteNode C I v) i s = Inr s' \<and> P K E s'" if "walkedSite V walks K C F I" "siteValue V icpt C I v"
    by (rule conjunct1 [OF d, rule_format, OF assms(2) that])
  show "\<exists>s'. onNewEdge cb n m f I s = Inr s' \<and> P K E s'"
    if "cnTarget n = DirectFun F False" "walkedSite V walks K (cnCtx n) F I" "isIndirectNode m"
    by (rule conjunct1 [OF e, rule_format, OF assms(2) that])
  show "\<exists>s'. onNewEdge cb n m (Some G) I s = Inr s' \<and> P K (insert (cnCtx n, F, I, cnCtx m, R) E) s'"
    if "cnTarget n = DirectFun F False" "walkedSite V walks K (cnCtx n) F I"
      "directCall V I G" "icpt (ctxEvolve V (cnCtx n) I) (cnCtx n) G I = (Some R, opt)" "opt \<noteq> IGNORE_FUN"
      "classOf (ptaModule V) R = FunctionV" "cnTarget m = DirectFun R (\<not> walks R)" "cnCtx m = ctxEvolve V (cnCtx n) I" "(cnCtx m, R) \<in> K"
      "\<And>C' R'. (cnCtx n, F, I, C', R') \<notin> E"
    by (rule conjunct1 [OF f, rule_format, OF assms(2) that])
  show "P (insert k K) E s" if "\<not> walks (snd k)"
    by (rule conjunct2 [OF f, rule_format, OF assms(2) that])
qed

text \<open>
  Every direct call names a function; what a call is redirected to is a function or a function pointer, and the option tells
  whether its body is of interest by the function alone.
\<close>

definition program_ok :: "'x pta_view_scheme \<Rightarrow> icpt_fun \<Rightarrow> (llvm_value \<Rightarrow> bool) \<Rightarrow> bool" where
  "program_ok V icpt onlySite \<longleftrightarrow>
     (\<forall>F. distinct (bodyOf V F)) \<and>
     (\<forall>I. isCallBase (ptaModule V) I \<longrightarrow> \<not> csIsIndirectCall V I \<longrightarrow> \<not> isInlineAsm V I \<longrightarrow> (\<exists>F. csCalledFunction V I = Inr (Some F))) \<and>
     (\<forall>cur pre F I r opt. directCall V I F \<longrightarrow> icpt cur pre F I = (r, opt) \<longrightarrow> opt \<noteq> IGNORE_FUN \<longrightarrow>
        (\<exists>R. r = Some R \<and> (if classOf (ptaModule V) R = FunctionV then opt = (if onlySite R then ONLY_CALLSITE else EXPAND_BODY)
           else isPointerTy (ptaModule V) R)))"

text \<open>The functions and contexts that calls reach.\<close>

inductive_set reachKeys :: "'x pta_view_scheme \<Rightarrow> icpt_fun \<Rightarrow> (llvm_value \<Rightarrow> bool) \<Rightarrow> llvm_value \<Rightarrow> (ctx_ptr \<times> llvm_value) set"
  for V icpt walks entry where
  start: "(InitCtx, entry) \<in> reachKeys V icpt walks entry"
| call: "(C, F) \<in> reachKeys V icpt walks entry \<Longrightarrow> walks F \<Longrightarrow> I \<in> set (bodyOf V F) \<Longrightarrow> directCall V I G \<Longrightarrow>
    icpt (ctxEvolve V C I) C G I = (Some R, opt) \<Longrightarrow> opt \<noteq> IGNORE_FUN \<Longrightarrow> classOf (ptaModule V) R = FunctionV \<Longrightarrow>
    (ctxEvolve V C I, R) \<in> reachKeys V icpt walks entry"

text \<open>A call of a walked node has its node, and an edge to it.\<close>

definition targetOf :: "'x pta_view_scheme \<Rightarrow> ctx_module \<Rightarrow> ctx_ptr \<Rightarrow> ctx_ptr \<Rightarrow> llvm_value \<Rightarrow> llvm_value \<Rightarrow> nat option" where
  "targetOf V cm cur pre R I =
     (if classOf (ptaModule V) R = FunctionV then map_of (ctxFunMap cm) (cur, R) else map_of (ctxFunPtrMap cm) (pre, I))"

definition callDone :: "'x pta_view_scheme \<Rightarrow> icpt_fun \<Rightarrow> ctx_module \<Rightarrow> nat \<Rightarrow> ctx_ptr \<Rightarrow> llvm_value \<Rightarrow> bool" where
  "callDone V icpt cm n C I \<longleftrightarrow>
     (isCallBase (ptaModule V) I \<and> csIsIndirectCall V I \<longrightarrow>
        (\<exists>d. map_of (ctxFunPtrMap cm) (C, I) = Some d \<and> callOut cm n I d)) \<and>
     (\<forall>F r opt. directCall V I F \<longrightarrow> icpt (ctxEvolve V C I) C F I = (r, opt) \<longrightarrow> opt \<noteq> IGNORE_FUN \<longrightarrow>
        (\<exists>R d. r = Some R \<and> targetOf V cm (ctxEvolve V C I) C R I = Some d \<and> callOut cm n I d))"

lemma callDone_grows:
  assumes "callDone V icpt cm n C I" and "cm_grows cm cm'"
  shows "callDone V icpt cm' n C I"
proof -
  have "targetOf V cm cur pre R I = Some d \<Longrightarrow> targetOf V cm' cur pre R I = Some d" for cur pre R d
    using assms(2) by (auto simp: targetOf_def cm_grows_def map_le_def dom_def split: if_splits)
  moreover have "map_of (ctxFunPtrMap cm) k = Some d \<Longrightarrow> map_of (ctxFunPtrMap cm') k = Some d" for k d
    using assms(2) by (metis cm_grows_def domI map_le_def)
  ultimately show ?thesis using assms unfolding callDone_def cm_grows_def by meson
qed

text \<open>
  The edges of a call: to its own node if it is indirect, or to that of the function or function pointer the client puts in
  its place; none if the client ignores it. No node has an edge besides.
\<close>

definition callTarget :: "'x pta_view_scheme \<Rightarrow> icpt_fun \<Rightarrow> ctx_module \<Rightarrow> ctx_ptr \<Rightarrow> llvm_value \<Rightarrow> nat \<Rightarrow> bool" where
  "callTarget V icpt cm C I d \<longleftrightarrow>
     isCallBase (ptaModule V) I \<and> csIsIndirectCall V I \<and> map_of (ctxFunPtrMap cm) (C, I) = Some d \<or>
     (\<exists>G R opt. directCall V I G \<and> icpt (ctxEvolve V C I) C G I = (Some R, opt) \<and> opt \<noteq> IGNORE_FUN \<and>
        targetOf V cm (ctxEvolve V C I) C R I = Some d)"

definition edges_sound :: "'x pta_view_scheme \<Rightarrow> icpt_fun \<Rightarrow> ctx_module \<Rightarrow> bool" where
  "edges_sound V icpt cm \<longleftrightarrow> (\<forall>n I d. callOut cm n I d \<longrightarrow> (\<exists>F. cnTarget (callNodes cm ! n) = DirectFun F False \<and> I \<in> set (bodyOf V F) \<and>
     callTarget V icpt cm (cnCtx (callNodes cm ! n)) I d))"

lemma targetOf_grows: "targetOf V cm cur pre R I = Some d \<Longrightarrow> cm_grows cm cm' \<Longrightarrow> targetOf V cm' cur pre R I = Some d"
  by (auto simp: targetOf_def cm_grows_def map_le_def dom_def split: if_splits)

lemma edges_sound_grows:
  assumes sound: "edges_sound V icpt cm" and grows: "cm_grows cm cm'"
    and new: "\<And>n I d. callOut cm' n I d \<Longrightarrow> callOut cm n I d \<or> (\<exists>F. cnTarget (callNodes cm' ! n) = DirectFun F False \<and> I \<in> set (bodyOf V F) \<and>
      callTarget V icpt cm' (cnCtx (callNodes cm' ! n)) I d)"
  shows "edges_sound V icpt cm'"
proof -
  have target: "callTarget V icpt cm' C I d" if "callTarget V icpt cm C I d" for C I d
  proof -
    have "map_of (ctxFunPtrMap cm') k = Some d" if "map_of (ctxFunPtrMap cm) k = Some d" for k
      using grows that by (metis cm_grows_def domI map_le_def)
    then show ?thesis using that targetOf_grows [OF _ grows] unfolding callTarget_def by meson
  qed
  show ?thesis
    unfolding edges_sound_def
  proof (intro allI impI)
    fix n I d assume "callOut cm' n I d"
    from new [OF this] show "\<exists>F. cnTarget (callNodes cm' ! n) = DirectFun F False \<and> I \<in> set (bodyOf V F) \<and>
        callTarget V icpt cm' (cnCtx (callNodes cm' ! n)) I d"
    proof
      assume out: "callOut cm n I d"
      then have "n < length (callNodes cm)" by (simp add: callOut_def)
      then have "cnCtx (callNodes cm' ! n) = cnCtx (callNodes cm ! n)" "cnTarget (callNodes cm' ! n) = cnTarget (callNodes cm ! n)"
        using grows by (simp_all add: cm_grows_def)
      then show ?thesis using sound out target unfolding edges_sound_def by metis
    qed
  qed
qed

lemma edges_sound_same:
  assumes "edges_sound V icpt cm" and "cm_grows cm cm'" and "\<And>n I d. callOut cm' n I d \<longleftrightarrow> callOut cm n I d"
  shows "edges_sound V icpt cm'"
  using edges_sound_grows [OF assms(1,2)] assms(3) by blast

lemma empty_sound: "edges_sound V icpt newCtxModule"
  by (simp add: edges_sound_def callOut_def newCtxModule_def)

text \<open>A call that is done has exactly these edges.\<close>

lemma callDone_target:
  assumes "callDone V icpt cm n C I" and "callTarget V icpt cm C I d"
  shows "callOut cm n I d"
  using assms(2) unfolding callTarget_def
proof
  assume "isCallBase (ptaModule V) I \<and> csIsIndirectCall V I \<and> map_of (ctxFunPtrMap cm) (C, I) = Some d"
  then show ?thesis using assms(1) by (auto simp: callDone_def)
next
  assume "\<exists>G R opt. directCall V I G \<and> icpt (ctxEvolve V C I) C G I = (Some R, opt) \<and> opt \<noteq> IGNORE_FUN \<and>
    targetOf V cm (ctxEvolve V C I) C R I = Some d"
  then obtain G R opt where g: "directCall V I G" "icpt (ctxEvolve V C I) C G I = (Some R, opt)" "opt \<noteq> IGNORE_FUN"
    "targetOf V cm (ctxEvolve V C I) C R I = Some d" by blast
  from assms(1) g(1-3) obtain R' d' where "Some R = Some R'" "targetOf V cm (ctxEvolve V C I) C R' I = Some d'" "callOut cm n I d'"
    unfolding callDone_def by blast
  then show ?thesis using g(4) by simp
qed

section \<open>One call\<close>

definition cg_inv ::
  "'x pta_view_scheme \<Rightarrow> icpt_fun \<Rightarrow> (llvm_value \<Rightarrow> bool) \<Rightarrow> llvm_value \<Rightarrow> 's client_inv \<Rightarrow>
     ctx_module \<Rightarrow> 's \<Rightarrow> bool" where
  "cg_inv V icpt walks entry P cm s \<longleftrightarrow> cm_ok cm \<and> P (keys cm) (calls cm) s \<and> keys cm \<subseteq> reachKeys V icpt walks entry \<and>
     (\<forall>i < length (callNodes cm). \<forall>G ext. cnTarget (callNodes cm ! i) = DirectFun G ext \<longrightarrow> ext = (\<not> walks G)) \<and> edges_sound V icpt cm"

lemma addIndirect_ok:
  assumes inv: "cg_inv V icpt walks entry P cm s" and new: "map_of (ctxFunPtrMap cm) (C, I) = None"
    and cm': "cm' = cm\<lparr> callNodes := callNodes cm @ [siteNode C I v], ctxFunPtrMap := ((C, I), length (callNodes cm)) # ctxFunPtrMap cm \<rparr>"
  shows "cg_inv V icpt walks entry P cm' s" "cm_grows cm cm'" "walkedNodes cm' = walkedNodes cm" "keys cm' = keys cm"
    "calls cm' = calls cm" "outs cm' = outs cm"
proof -
  have "cm_ok cm' \<and> cm_grows cm cm'"
    using addNode_ok [of cm cm' C "Some I" "IndirectSite v [] []"] inv new by (simp add: cm' cg_inv_def siteNode_def)
  moreover from this have "edges_sound V icpt cm'"
    using inv addNode_calls(3) [of cm cm' C "Some I" "IndirectSite v [] []"]
    by (intro edges_sound_same [of V icpt cm cm']) (simp_all only: cg_inv_def, simp_all add: cm' siteNode_def)
  moreover show same: "calls cm' = calls cm" "outs cm' = outs cm"
    using addNode_calls [of cm cm' C "Some I" "IndirectSite v [] []"] inv by (simp_all add: cm' cg_inv_def siteNode_def)
  moreover show "keys cm' = keys cm" by (simp add: cm' keys_def)
  ultimately show "cg_inv V icpt walks entry P cm' s" "cm_grows cm cm'"
    using inv unfolding cg_inv_def by (auto simp: cm' siteNode_def nth_append less_Suc_eq)
  show "walkedNodes cm' = walkedNodes cm" by (auto simp: walkedNodes_def cm' siteNode_def nth_append less_Suc_eq)
qed

lemma getOrCreateInDirectCallNode_ok:
  assumes client: "client_ok V cb icpt expands walks P" and inv: "cg_inv V icpt walks entry P cm s"
    and site: "walkedSite V walks (keys cm) C F I" "siteValue V icpt C I v"
  shows "\<exists>i b cm' s'. getOrCreateInDirectCallNode cb C I v (cm, s) = Inr ((i, b), cm', s') \<and> cg_inv V icpt walks entry P cm' s' \<and>
    cm_grows cm cm' \<and> walkedNodes cm' = walkedNodes cm \<and> map_of (ctxFunPtrMap cm') (C, I) = Some i \<and> calls cm' = calls cm \<and> outs cm' = outs cm"
proof (cases "map_of (ctxFunPtrMap cm) (C, I)")
  case None
  define cm' where "cm' = cm\<lparr> callNodes := callNodes cm @ [siteNode C I v], ctxFunPtrMap := ((C, I), length (callNodes cm)) # ctxFunPtrMap cm \<rparr>"
  note A = addIndirect_ok [OF inv None cm'_def]
  have "P (keys cm) (calls cm) s" using inv by (simp add: cg_inv_def)
  from client_okD(3) [OF client this site] obtain s' where
    s': "onNewInDirect cb (siteNode C I v) (length (callNodes cm)) s = Inr s'" "P (keys cm) (calls cm) s'" by blast
  have "getOrCreateInDirectCallNode cb C I v (cm, s) = Inr ((length (callNodes cm), True), cm', s')"
    using s'(1) None by (simp add: getOrCreateInDirectCallNode_def createIndCallNode_def addCallNode_def cm'_def siteNode_def)
  moreover have "cg_inv V icpt walks entry P cm' s'" using A(1,4,5) s'(2) by (simp add: cg_inv_def)
  moreover have "map_of (ctxFunPtrMap cm') (C, I) = Some (length (callNodes cm))" by (simp add: cm'_def)
  ultimately show ?thesis using A(2,3,5,6) by blast
next
  case (Some i)
  then show ?thesis using inv cm_grows_refl by (auto simp: getOrCreateInDirectCallNode_def)
qed

text \<open>A function gets its node, marked external if its body is not walked.\<close>

lemma addDirect_ok:
  assumes inv: "cg_inv V icpt walks entry P cm s" and new: "map_of (ctxFunMap cm) (C, F) = None"
    and reach: "(C, F) \<in> reachKeys V icpt walks entry" and P: "P (insert (C, F) (keys cm)) (calls cm) s'"
    and cm': "cm' = cm\<lparr> callNodes := callNodes cm @ [\<lparr> cnCtx = C, cnSite = I, cnTarget = DirectFun F (\<not> walks F), cnSucc = [], cnPred = [] \<rparr>],
      ctxFunMap := ((C, F), length (callNodes cm)) # ctxFunMap cm \<rparr>"
  shows "cg_inv V icpt walks entry P cm' s'" "cm_grows cm cm'"
    "walkedNodes cm' = walkedNodes cm \<union> (if walks F then {length (callNodes cm)} else {})" "calls cm' = calls cm" "outs cm' = outs cm"
proof -
  have "cm_ok cm' \<and> cm_grows cm cm'"
    using addNode_ok [of cm cm' C I "DirectFun F (\<not> walks F)"] inv new by (simp add: cm' cg_inv_def)
  moreover from this have "edges_sound V icpt cm'"
    using inv addNode_calls(3) [of cm cm' C I "DirectFun F (\<not> walks F)"]
    by (intro edges_sound_same [of V icpt cm cm']) (simp_all only: cg_inv_def, simp_all add: cm')
  moreover show "calls cm' = calls cm" "outs cm' = outs cm"
    using addNode_calls [of cm cm' C I "DirectFun F (\<not> walks F)"] inv by (simp_all add: cm' cg_inv_def)
  moreover have "keys cm' = insert (C, F) (keys cm)" by (auto simp: cm' keys_def)
  ultimately show "cg_inv V icpt walks entry P cm' s'" "cm_grows cm cm'"
    using inv reach P unfolding cg_inv_def by (auto simp: cm' nth_append less_Suc_eq)
  show "walkedNodes cm' = walkedNodes cm \<union> (if walks F then {length (callNodes cm)} else {})"
    by (auto simp: walkedNodes_def cm' nth_append less_Suc_eq)
qed

lemma newFunction_ok:
  assumes client: "client_ok V cb icpt expands walks P" and inv: "cg_inv V icpt walks entry P cm s" and new: "map_of (ctxFunMap cm) (C, F) = None"
    and reach: "(C, F) \<in> reachKeys V icpt walks entry" and walks: "walks F \<longleftrightarrow> option = EXPAND_BODY \<and> expands F"
  shows "\<exists>cm1 s' cm'. newDirectNode C F I cm = (length (callNodes cm), cm1) \<and>
    (if option = EXPAND_BODY then onNewDirect cb (callNodes cm1 ! length (callNodes cm)) (length (callNodes cm)) s else Inr (False, s)) = Inr (walks F, s') \<and>
    (if walks F then cm1 else markAsExtFunction (length (callNodes cm)) cm1) = cm' \<and>
    cg_inv V icpt walks entry P cm' s' \<and> cm_grows cm cm' \<and> map_of (ctxFunMap cm') (C, F) = Some (length (callNodes cm)) \<and>
    walkedNodes cm' = walkedNodes cm \<union> (if walks F then {length (callNodes cm)} else {}) \<and> calls cm' = calls cm \<and> outs cm' = outs cm"
proof -
  let ?n = "length (callNodes cm)" and ?node = "\<lambda>ext. \<lparr> cnCtx = C, cnSite = I, cnTarget = DirectFun F ext, cnSucc = [], cnPred = [] \<rparr>"
  define cmx where "cmx ext = cm\<lparr> callNodes := callNodes cm @ [?node ext], ctxFunMap := ((C, F), ?n) # ctxFunMap cm \<rparr>" for ext
  have made: "newDirectNode C F I cm = (?n, cmx False)"
    by (simp add: newDirectNode_def createCallNode_def addCallNode_def cmx_def)
  have mark: "markAsExtFunction ?n (cmx False) = cmx True"
    by (simp add: markAsExtFunction_def updCall_def cmx_def list_update_append)
  have P: "P (keys cm) (calls cm) s" using inv by (simp add: cg_inv_def)
  have "(C, F) \<notin> keys cm" using new by (simp add: keys_def domIff)
  moreover have "callNodes (cmx False) ! ?n = ?node False" by (simp add: cmx_def)
  ultimately have "option = EXPAND_BODY \<Longrightarrow>
      \<exists>s'. onNewDirect cb (callNodes (cmx False) ! ?n) ?n s = Inr (expands F, s') \<and> P (insert (C, F) (keys cm)) (calls cm) s'"
    using client_okD(2) [OF client P, of "?node False" F ?n] by simp
  moreover have "P (insert (C, F) (keys cm)) (calls cm) s" if "\<not> walks F" using client_okD(6) [OF client P, of "(C, F)"] that by simp
  ultimately obtain s' where s': "(if option = EXPAND_BODY then onNewDirect cb (callNodes (cmx False) ! ?n) ?n s else Inr (False, s)) = Inr (walks F, s')"
    "P (insert (C, F) (keys cm)) (calls cm) s'" using walks by (cases "option = EXPAND_BODY") auto
  note A = addDirect_ok [OF inv new reach s'(2) cmx_def [of "\<not> walks F"]]
  have "(if walks F then cmx False else markAsExtFunction ?n (cmx False)) = cmx (\<not> walks F)" by (simp add: mark)
  moreover have "map_of (ctxFunMap (cmx (\<not> walks F))) (C, F) = Some ?n" by (simp add: cmx_def)
  ultimately show ?thesis using made s'(1) A by blast
qed


lemma getOrCreateCallNode_ok:
  assumes client: "client_ok V cb icpt expands walks P" and inv: "cg_inv V icpt walks entry P cm s"
    and walks: "\<And>R. walks R \<longleftrightarrow> \<not> onlySite R \<and> expands R" and direct: "directCall V I F" and ic: "icpt cur pre F I = (r, opt)"
    and cur: "cur = ctxEvolve V pre I" and site: "walkedSite V walks (keys cm) pre F0 I"
    and target: "opt \<noteq> IGNORE_FUN \<Longrightarrow> \<exists>R. r = Some R \<and>
      (if classOf (ptaModule V) R = FunctionV then opt = (if onlySite R then ONLY_CALLSITE else EXPAND_BODY) else isPointerTy (ptaModule V) R)"
    and reach: "\<And>R. r = Some R \<Longrightarrow> opt \<noteq> IGNORE_FUN \<Longrightarrow> classOf (ptaModule V) R = FunctionV \<Longrightarrow> (cur, R) \<in> reachKeys V icpt walks entry"
  shows "\<exists>t need cm' s'. getOrCreateCallNode V cb cur pre F I (cm, s) = Inr ((t, need), cm', s') \<and> cg_inv V icpt walks entry P cm' s' \<and>
    cm_grows cm cm' \<and> (opt = IGNORE_FUN \<longleftrightarrow> t = None) \<and> (\<forall>d. t = Some d \<longrightarrow> (\<exists>R. r = Some R \<and> targetOf V cm' cur pre R I = Some d)) \<and>
    (if need then \<exists>d. t = Some d \<and> d \<notin> walkedNodes cm \<and> walkedNodes cm' = insert d (walkedNodes cm) else walkedNodes cm' = walkedNodes cm) \<and>
    calls cm' = calls cm \<and> outs cm' = outs cm"
proof -
  have "P (keys cm) (calls cm) s" using inv by (simp add: cg_inv_def)
  from client_okD(1) [OF client this site direct] ic obtain s1 where s1: "beforeNewNode cb cur pre F (Some I) s = Inr ((r, opt), s1)"
    "P (keys cm) (calls cm) s1" unfolding cur by auto
  have inv1: "cg_inv V icpt walks entry P cm s1" using inv s1(2) by (simp add: cg_inv_def)
  show ?thesis
  proof (cases "opt = IGNORE_FUN")
    case True
    then show ?thesis using s1(1) inv1 cm_grows_refl by (auto simp: getOrCreateCallNode_def)
  next
    case False
    then obtain R where R: "r = Some R" "if classOf (ptaModule V) R = FunctionV then opt = (if onlySite R then ONLY_CALLSITE else EXPAND_BODY) else isPointerTy (ptaModule V) R"
      using target by blast
    show ?thesis
    proof (cases "classOf (ptaModule V) R = FunctionV")
      case fn: True
      then have reachR: "(cur, R) \<in> reachKeys V icpt walks entry" using reach R(1) False by simp
      show ?thesis
      proof (cases "map_of (ctxFunMap cm) (cur, R)")
        case (Some i)
        then have "getOrCreateCallNode V cb cur pre F I (cm, s) = Inr ((Some i, False), cm, s1)"
          using s1(1) False R(1) fn by (simp add: getOrCreateCallNode_def)
        moreover have "targetOf V cm cur pre R I = Some i" using Some fn by (simp add: targetOf_def)
        ultimately show ?thesis using inv1 cm_grows_refl False R(1) by auto
      next
        case None
        have w: "walks R \<longleftrightarrow> opt = EXPAND_BODY \<and> expands R" using walks R(2) fn by auto
        obtain cm1 s' cm' where new: "newDirectNode cur R (Some I) cm = (length (callNodes cm), cm1)"
          "(if opt = EXPAND_BODY then onNewDirect cb (callNodes cm1 ! length (callNodes cm)) (length (callNodes cm)) s1 else Inr (False, s1)) = Inr (walks R, s')"
          "(if walks R then cm1 else markAsExtFunction (length (callNodes cm)) cm1) = cm'"
          "cg_inv V icpt walks entry P cm' s'" "cm_grows cm cm'" "map_of (ctxFunMap cm') (cur, R) = Some (length (callNodes cm))"
          "walkedNodes cm' = walkedNodes cm \<union> (if walks R then {length (callNodes cm)} else {})" "calls cm' = calls cm" "outs cm' = outs cm"
          using newFunction_ok [OF client inv1 None reachR w, of "Some I"] by blast
        have "getOrCreateCallNode V cb cur pre F I (cm, s) = Inr ((Some (length (callNodes cm)), walks R), cm', s')"
          using s1(1) False R(1) fn None new(1,2,3) by (simp add: getOrCreateCallNode_def)
        moreover have "targetOf V cm' cur pre R I = Some (length (callNodes cm))" using new(6) fn by (simp add: targetOf_def)
        moreover have "length (callNodes cm) \<notin> walkedNodes cm" by (simp add: walkedNodes_def)
        ultimately show ?thesis using new(4,5,7,8,9) False R(1) by auto
      qed
    next
      case fn: False
      have "siteValue V icpt pre I (Some R)" using direct ic False R(1) fn by (auto simp: siteValue_def cur)
      from getOrCreateInDirectCallNode_ok [OF client inv1 site this]
      obtain i b cm' s' where ind: "getOrCreateInDirectCallNode cb pre I (Some R) (cm, s1) = Inr ((i, b), cm', s')"
        "cg_inv V icpt walks entry P cm' s'" "cm_grows cm cm'" "walkedNodes cm' = walkedNodes cm" "map_of (ctxFunPtrMap cm') (pre, I) = Some i"
        "calls cm' = calls cm" "outs cm' = outs cm" by blast
      have "getOrCreateCallNode V cb cur pre F I (cm, s) = Inr ((Some i, False), cm', s')"
        using s1(1) False R fn ind(1) by (simp add: getOrCreateCallNode_def)
      moreover have "targetOf V cm' cur pre R I = Some i" using ind(5) fn by (simp add: targetOf_def)
      ultimately show ?thesis using ind(2,3,4,6,7) False R(1) by auto
    qed
  qed
qed

text \<open>A new edge: to an indirect node, or a call of a function that was not recorded before.\<close>

lemma createEdge_ok:
  assumes client: "client_ok V cb icpt expands walks P" and inv: "cg_inv V icpt walks entry P cm s"
    and n: "n < length (callNodes cm)" "cnCtx (callNodes cm ! n) = C" "cnTarget (callNodes cm ! n) = DirectFun F False"
    and site: "walkedSite V walks (keys cm) C F I" and d: "d < length (callNodes cm)"
    and kind: "isIndirectNode (callNodes cm ! d) \<or> I \<notin> outs cm n \<and> (\<exists>G R opt. f = Some G \<and> directCall V I G \<and>
        icpt (ctxEvolve V C I) C G I = (Some R, opt) \<and> opt \<noteq> IGNORE_FUN \<and> classOf (ptaModule V) R = FunctionV \<and> map_of (ctxFunMap cm) (ctxEvolve V C I, R) = Some d)"
    and target: "callTarget V icpt cm C I d"
  shows "\<exists>cm' s'. createEdge cb n (Some d) f I (cm, s) = Inr (cm', s') \<and> cg_inv V icpt walks entry P cm' s' \<and> cm_grows cm cm' \<and>
    callOut cm' n I d \<and> walkedNodes cm' = walkedNodes cm \<and> ctxFunMap cm' = ctxFunMap cm \<and> ctxFunPtrMap cm' = ctxFunPtrMap cm \<and>
    (\<forall>m. outs cm' m = outs cm m \<union> (if m = n then {I} else {}))"
proof -
  have ok: "cm_ok cm" and P: "P (keys cm) (calls cm) s" using inv by (simp_all add: cg_inv_def)
  obtain b cm' where e: "insertCallEdge n d I cm = Inr (b, cm')" "cm_ok cm'" "cm_grows cm cm'" "callOut cm' n I d"
    "walkedNodes cm' = walkedNodes cm" "ctxFunMap cm' = ctxFunMap cm" "ctxFunPtrMap cm' = ctxFunPtrMap cm" "length (callNodes cm') = length (callNodes cm)"
    "\<And>a J b. callOut cm' a J b \<longleftrightarrow> callOut cm a J b \<or> a = n \<and> J = I \<and> b = d"
    using insertCallEdge_ok [OF ok n(1) d] by blast
  have k: "keys cm' = keys cm" by (simp add: keys_def e(6))
  have at: "cnCtx (callNodes cm' ! i) = cnCtx (callNodes cm ! i)" "cnTarget (callNodes cm' ! i) = cnTarget (callNodes cm ! i)"
    if "i < length (callNodes cm)" for i using e(3) that by (auto simp: cm_grows_def)
  note new = edge_calls [OF ok e(9) e(3,8) n(1) d]
  have "\<exists>s'. onNewEdge cb (callNodes cm' ! n) (callNodes cm' ! d) f I s = Inr s' \<and> P (keys cm) (calls cm') s'"
    using kind
  proof
    assume ind: "isIndirectNode (callNodes cm ! d)"
    then have "isIndirectNode (callNodes cm' ! d)" using at [OF d] by (simp add: isIndirectNode_def)
    then show ?thesis using client_okD(4) [OF client P, of "callNodes cm' ! n" F I] at [OF n(1)] n(2,3) site new(2) [OF ind] by simp
  next
    assume "I \<notin> outs cm n \<and> (\<exists>G R opt. f = Some G \<and> directCall V I G \<and>
        icpt (ctxEvolve V C I) C G I = (Some R, opt) \<and> opt \<noteq> IGNORE_FUN \<and> classOf (ptaModule V) R = FunctionV \<and>
        map_of (ctxFunMap cm) (ctxEvolve V C I, R) = Some d)"
    then obtain G R opt where c: "I \<notin> outs cm n" "f = Some G" "directCall V I G" "icpt (ctxEvolve V C I) C G I = (Some R, opt)"
      "opt \<noteq> IGNORE_FUN" "classOf (ptaModule V) R = FunctionV" "map_of (ctxFunMap cm) (ctxEvolve V C I, R) = Some d" by blast
    have t: "cnCtx (callNodes cm ! d) = ctxEvolve V C I" "cnTarget (callNodes cm ! d) = DirectFun R (\<not> walks R)"
      using cm_okD(1) [OF ok c(7)] inv d by (auto simp: cg_inv_def)
    have K: "(ctxEvolve V C I, R) \<in> keys cm" using c(7) by (auto simp: keys_def)
    have fresh: "(C, F, I, C', R') \<notin> calls cm" for C' R'
    proof
      assume "(C, F, I, C', R') \<in> calls cm"
      then obtain n' m ext where o: "callOut cm n' I m" "cnCtx (callNodes cm ! n') = C" "cnTarget (callNodes cm ! n') = DirectFun F ext"
        by (auto simp: calls_def)
      then have "n' = n" using cm_okD(3) [OF ok, of n' F ext] cm_okD(3) [OF ok n(1,3)] n(2) by (simp add: callOut_def)
      then show False using o(1) c(1) by (auto simp: outs_def)
    qed
    have "\<exists>s'. onNewEdge cb (callNodes cm' ! n) (callNodes cm' ! d) (Some G) I s = Inr s' \<and>
        P (keys cm) (insert (cnCtx (callNodes cm' ! n), F, I, cnCtx (callNodes cm' ! d), R) (calls cm)) s'"
      by (rule client_okD(5) [OF client P, of "callNodes cm' ! n" F I G R opt "callNodes cm' ! d"])
        (use at [OF n(1)] at [OF d] n(2,3) site c t K fresh in simp_all)
    then show ?thesis using new(3) [OF n(3) t(2)] at [OF n(1)] at [OF d] n(2) t c(2) by simp
  qed
  then obtain s' where s': "onNewEdge cb (callNodes cm' ! n) (callNodes cm' ! d) f I s = Inr s'" "P (keys cm) (calls cm') s'" by blast
  have "callTarget V icpt cm' C I d" using target unfolding callTarget_def targetOf_def e(6,7) .
  then have "edges_sound V icpt cm'"
    using inv e(3,9) site n at [OF n(1)] by (intro edges_sound_grows [of V icpt cm cm']) (auto simp: cg_inv_def walkedSite_def)
  then have "cg_inv V icpt walks entry P cm' s'"
    using inv e(2,3,8) s'(2) k by (simp add: cg_inv_def cm_grows_def)
  then show ?thesis using e s'(1) new(1) by (auto simp: createEdge_def)
qed

lemma targetOf_bound:
  assumes "cm_ok cm" and "targetOf V cm cur pre R I = Some d"
  shows "d < length (callNodes cm)"
  using assms cm_okD(1,2) [OF assms(1)] by (auto simp: targetOf_def split: if_splits)

section \<open>The walk\<close>

text \<open>
  The hypotheses of a walk, bundled: the client, the program, the functions that are walked, and that the client lets
  the entry pass.
\<close>

definition walk_ok ::
  "'x pta_view_scheme \<Rightarrow> 's callbacks \<Rightarrow> icpt_fun \<Rightarrow> (llvm_value \<Rightarrow> bool) \<Rightarrow> llvm_value \<Rightarrow> 's client_inv \<Rightarrow> bool" where
  "walk_ok V cb icpt walks entry P \<longleftrightarrow> (\<exists>expands onlySite. client_ok V cb icpt expands walks P \<and> program_ok V icpt onlySite \<and>
     (\<forall>R. walks R \<longleftrightarrow> \<not> onlySite R \<and> expands R)) \<and>
     (\<forall>s. P {(InitCtx, entry)} {} s \<longrightarrow> (\<exists>r s'. beforeNewNode cb InitCtx InitCtx entry None s = Inr (r, s') \<and> P {(InitCtx, entry)} {} s'))"

lemma visitCallInst_ok:
  assumes walk: "walk_ok V cb icpt walks entry P" and inv: "cg_inv V icpt walks entry P cm s"
    and n: "n < length (callNodes cm)" and at: "cnCtx (callNodes cm ! n) = C" "cnTarget (callNodes cm ! n) = DirectFun F False"
    and I: "I \<in> set (bodyOf V F)" "I \<notin> outs cm n"
  shows "\<exists>new cm' s'. visitCallInst V cb n C I (queue, cm, s) = Inr (queue @ new, cm', s') \<and> cg_inv V icpt walks entry P cm' s' \<and>
    cm_grows cm cm' \<and> callDone V icpt cm' n C I \<and> distinct new \<and> set new = walkedNodes cm' - walkedNodes cm \<and>
    (\<forall>m. outs cm' m \<subseteq> outs cm m \<union> (if m = n then {I} else {}))"
proof -
  obtain expands onlySite where client: "client_ok V cb icpt expands walks P" and prog: "program_ok V icpt onlySite"
    and walks: "\<And>R. walks R \<longleftrightarrow> \<not> onlySite R \<and> expands R" using walk by (auto simp: walk_ok_def)
  have okm: "cm_ok cm" using inv by (simp add: cg_inv_def)
  have key: "(C, F) \<in> keys cm" using cm_okD(3) [OF okm n at(2)] at(1) by (auto simp: keys_def)
  moreover have wF: "walks F" using inv n at(2) by (auto simp: cg_inv_def)
  ultimately have site: "walkedSite V walks (keys cm) C F I" using I(1) by (simp add: walkedSite_def)
  have site_grows: "walkedSite V walks (keys cm1) C F I" if "cm_grows cm cm1" for cm1
  proof -
    have "keys cm \<subseteq> keys cm1" using that unfolding cm_grows_def keys_def by (meson map_le_implies_dom_le)
    then show ?thesis using site by (auto simp: walkedSite_def)
  qed
  consider "\<not> isCallBase (ptaModule V) I" | "isCallBase (ptaModule V) I" "csIsIndirectCall V I"
    | "isCallBase (ptaModule V) I" "\<not> csIsIndirectCall V I" "isInlineAsm V I"
    | "isCallBase (ptaModule V) I" "\<not> csIsIndirectCall V I" "\<not> isInlineAsm V I" by blast
  then show ?thesis
  proof cases
    case 1
    then show ?thesis using inv cm_grows_refl by (auto simp: visitCallInst_def callDone_def directCall_def)
  next
    case 2
    have "siteValue V icpt C I None" using 2 by (simp add: siteValue_def)
    from getOrCreateInDirectCallNode_ok [OF client inv site this] obtain i b cm1 s1 where
      g: "getOrCreateInDirectCallNode cb C I None (cm, s) = Inr ((i, b), cm1, s1)" "cg_inv V icpt walks entry P cm1 s1"
      "cm_grows cm cm1" "walkedNodes cm1 = walkedNodes cm" "map_of (ctxFunPtrMap cm1) (C, I) = Some i" "calls cm1 = calls cm" "outs cm1 = outs cm" by blast
    have i: "i < length (callNodes cm1)" "isIndirectNode (callNodes cm1 ! i)" using cm_okD(2) g(2,5) by (auto simp: cg_inv_def)
    have n1: "n < length (callNodes cm1)" "cnCtx (callNodes cm1 ! n) = C" "cnTarget (callNodes cm1 ! n) = DirectFun F False"
      using n at g(3) by (simp_all add: cm_grows_def)
    have "callTarget V icpt cm1 C I i" using 2 g(5) by (simp add: callTarget_def)
    from createEdge_ok [OF client g(2) n1 site_grows [OF g(3)] i(1) disjI1 [OF i(2)] this, of None] obtain cm2 s2 where e: "createEdge cb n (Some i) None I (cm1, s1) = Inr (cm2, s2)" "cg_inv V icpt walks entry P cm2 s2"
      "cm_grows cm1 cm2" "callOut cm2 n I i" "walkedNodes cm2 = walkedNodes cm1" "ctxFunPtrMap cm2 = ctxFunPtrMap cm1"
      "\<forall>m. outs cm2 m = outs cm1 m \<union> (if m = n then {I} else {})" by blast
    have "visitCallInst V cb n C I (queue, cm, s) = Inr (queue @ [], cm2, s2)" using 2 g(1) e(1) by (simp add: visitCallInst_def)
    moreover have "callDone V icpt cm2 n C I" using 2 e(4,6) g(5) by (simp add: callDone_def directCall_def)
    moreover have "set [] = walkedNodes cm2 - walkedNodes cm" using e(5) g(4) by simp
    ultimately show ?thesis using e(2,7) g(7) cm_grows_trans [OF g(3) e(3)] by fastforce
  next
    case 3
    then show ?thesis using inv cm_grows_refl by (auto simp: visitCallInst_def callDone_def directCall_def)
  next
    case 4
    then obtain G where G: "csCalledFunction V I = Inr (Some G)" using prog by (auto simp: program_ok_def)
    then have direct: "directCall V I G" and only: "\<And>H. directCall V I H \<Longrightarrow> H = G" using 4 by (auto simp: directCall_def)
    let ?cur = "ctxEvolve V C I"
    obtain r opt where ic: "icpt ?cur C G I = (r, opt)" by fastforce
    have target: "\<exists>R. r = Some R \<and> (if classOf (ptaModule V) R = FunctionV then opt = (if onlySite R then ONLY_CALLSITE else EXPAND_BODY)
        else isPointerTy (ptaModule V) R)" if "opt \<noteq> IGNORE_FUN" using prog direct ic that unfolding program_ok_def by blast
    have "(C, F) \<in> reachKeys V icpt walks entry" using key inv by (auto simp: cg_inv_def)
    then have reach: "(?cur, R) \<in> reachKeys V icpt walks entry"
      if "r = Some R" "opt \<noteq> IGNORE_FUN" "classOf (ptaModule V) R = FunctionV" for R
      using reachKeys.call [of C F V icpt walks entry I G R opt] I(1) wF direct ic that by blast
    obtain t need cm1 s1 where g: "getOrCreateCallNode V cb ?cur C G I (cm, s) = Inr ((t, need), cm1, s1)" "cg_inv V icpt walks entry P cm1 s1"
      "cm_grows cm cm1" "opt = IGNORE_FUN \<longleftrightarrow> t = None" "\<And>d. t = Some d \<Longrightarrow> \<exists>R. r = Some R \<and> targetOf V cm1 ?cur C R I = Some d"
      "if need then \<exists>d. t = Some d \<and> d \<notin> walkedNodes cm \<and> walkedNodes cm1 = insert d (walkedNodes cm) else walkedNodes cm1 = walkedNodes cm"
      "calls cm1 = calls cm" "outs cm1 = outs cm"
      using getOrCreateCallNode_ok [OF client inv walks direct ic refl site target reach] by blast
    show ?thesis
    proof (cases t)
      case None
      have "visitCallInst V cb n C I (queue, cm, s) = Inr (queue @ [], cm1, s1)"
        using 4 G g(1,6) None by (simp add: visitCallInst_def createEdge_def split: if_splits)
      moreover have "callDone V icpt cm1 n C I" using 4 only ic g(4) None by (auto simp: callDone_def)
      moreover have "set [] = walkedNodes cm1 - walkedNodes cm" using g(6) None by (simp split: if_splits)
      ultimately show ?thesis using g(2,3,8) by fastforce
    next
      case (Some d)
      obtain R where R: "r = Some R" "targetOf V cm1 ?cur C R I = Some d" using g(5) Some by blast
      have d: "d < length (callNodes cm1)" using targetOf_bound R(2) g(2) by (auto simp: cg_inv_def)
      have n1: "n < length (callNodes cm1)" "cnCtx (callNodes cm1 ! n) = C" "cnTarget (callNodes cm1 ! n) = DirectFun F False"
        using n at g(3) by (simp_all add: cm_grows_def)
      have "isIndirectNode (callNodes cm1 ! d) \<or> classOf (ptaModule V) R = FunctionV \<and> map_of (ctxFunMap cm1) (?cur, R) = Some d"
        using R(2) cm_okD(2) g(2) by (auto simp: targetOf_def cg_inv_def split: if_splits)
      then have kind: "isIndirectNode (callNodes cm1 ! d) \<or> I \<notin> outs cm1 n \<and> (\<exists>G' R opt. Some G = Some G' \<and> directCall V I G' \<and>
          icpt ?cur C G' I = (Some R, opt) \<and> opt \<noteq> IGNORE_FUN \<and> classOf (ptaModule V) R = FunctionV \<and> map_of (ctxFunMap cm1) (?cur, R) = Some d)"
        using I(2) g(4,8) Some direct ic R(1) by auto
      have "callTarget V icpt cm1 C I d" using direct ic R g(4) Some by (auto simp: callTarget_def)
      from createEdge_ok [OF client g(2) n1 site_grows [OF g(3)] d kind this] obtain cm2 s2 where e: "createEdge cb n (Some d) (Some G) I (cm1, s1) = Inr (cm2, s2)" "cg_inv V icpt walks entry P cm2 s2"
        "cm_grows cm1 cm2" "callOut cm2 n I d" "walkedNodes cm2 = walkedNodes cm1" "ctxFunMap cm2 = ctxFunMap cm1" "ctxFunPtrMap cm2 = ctxFunPtrMap cm1"
        "\<forall>m. outs cm2 m = outs cm1 m \<union> (if m = n then {I} else {})" by blast
      have "visitCallInst V cb n C I (queue, cm, s) = Inr (queue @ (if need then [d] else []), cm2, s2)"
        using 4 G g(1) Some e(1) by (simp add: visitCallInst_def)
      moreover have "callDone V icpt cm2 n C I"
        using 4 only ic R e(4,6,7) by (auto simp: callDone_def targetOf_def)
      moreover have "set (if need then [d] else []) = walkedNodes cm2 - walkedNodes cm"
        using g(6) Some e(5) by (auto split: if_splits)
      moreover have "distinct (if need then [d] else [])" by simp
      moreover have "\<forall>m. outs cm2 m \<subseteq> outs cm m \<union> (if m = n then {I} else {})" using e(8) g(8) by simp
      ultimately show ?thesis using e(2) cm_grows_trans [OF g(3) e(3)] by blast
    qed
  qed
qed

lemma cm_grows_at:
  assumes "cm_grows cm cm'" and "n < length (callNodes cm)"
  shows "n < length (callNodes cm')" "cnCtx (callNodes cm' ! n) = cnCtx (callNodes cm ! n)" "cnTarget (callNodes cm' ! n) = cnTarget (callNodes cm ! n)"
  using assms by (auto simp: cm_grows_def)

lemma walkedNodes_grows: "cm_grows cm cm' \<Longrightarrow> walkedNodes cm \<subseteq> walkedNodes cm'"
  by (auto simp: walkedNodes_def cm_grows_at)

lemma visitBody_ok:
  assumes walk: "walk_ok V cb icpt walks entry P"
  shows "cg_inv V icpt walks entry P cm s \<Longrightarrow> n < length (callNodes cm) \<Longrightarrow> cnCtx (callNodes cm ! n) = C \<Longrightarrow>
    cnTarget (callNodes cm ! n) = DirectFun F False \<Longrightarrow> set Is \<subseteq> set (bodyOf V F) \<Longrightarrow> distinct Is \<Longrightarrow> outs cm n \<inter> set Is = {} \<Longrightarrow>
    \<exists>new cm' s'. rfold (visitCallInst V cb n C) Is (queue, cm, s) = Inr (queue @ new, cm', s') \<and> cg_inv V icpt walks entry P cm' s' \<and>
      cm_grows cm cm' \<and> (\<forall>I \<in> set Is. callDone V icpt cm' n C I) \<and> distinct new \<and> set new = walkedNodes cm' - walkedNodes cm \<and>
      (\<forall>m. m \<noteq> n \<longrightarrow> outs cm' m \<subseteq> outs cm m)"
proof (induction Is arbitrary: queue cm s)
  case Nil
  then show ?case using cm_grows_refl by fastforce
next
  case (Cons I Is)
  have I: "I \<in> set (bodyOf V F)" "I \<notin> outs cm n" using Cons.prems(5,7) by auto
  obtain new cm1 s1 where v: "visitCallInst V cb n C I (queue, cm, s) = Inr (queue @ new, cm1, s1)" "cg_inv V icpt walks entry P cm1 s1"
    "cm_grows cm cm1" "callDone V icpt cm1 n C I" "distinct new" "set new = walkedNodes cm1 - walkedNodes cm"
    "\<forall>m. outs cm1 m \<subseteq> outs cm m \<union> (if m = n then {I} else {})"
    using visitCallInst_ok [OF walk Cons.prems(1-4) I] by blast
  have at1: "n < length (callNodes cm1)" "cnCtx (callNodes cm1 ! n) = C" "cnTarget (callNodes cm1 ! n) = DirectFun F False"
    using cm_grows_at [OF v(3) Cons.prems(2)] Cons.prems(3,4) by simp_all
  have "outs cm1 n \<subseteq> outs cm n \<union> {I}" using v(7) by (metis (full_types))
  then have outs1: "outs cm1 n \<inter> set Is = {}" using Cons.prems(6,7) by auto
  obtain new2 cm2 s2 where r: "rfold (visitCallInst V cb n C) Is (queue @ new, cm1, s1) = Inr ((queue @ new) @ new2, cm2, s2)"
    "cg_inv V icpt walks entry P cm2 s2" "cm_grows cm1 cm2" "\<forall>I \<in> set Is. callDone V icpt cm2 n C I" "distinct new2"
    "set new2 = walkedNodes cm2 - walkedNodes cm1" "\<forall>m. m \<noteq> n \<longrightarrow> outs cm2 m \<subseteq> outs cm1 m"
    using Cons.IH [OF v(2) at1 _ _ outs1, of "queue @ new"] Cons.prems(5,6) by auto
  have "rfold (visitCallInst V cb n C) (I # Is) (queue, cm, s) = Inr (queue @ (new @ new2), cm2, s2)" using v(1) r(1) by simp
  moreover have "set (new @ new2) = walkedNodes cm2 - walkedNodes cm"
    using v(6) r(6) walkedNodes_grows [OF v(3)] walkedNodes_grows [OF r(3)] by auto
  moreover have "distinct (new @ new2)" using v(5,6) r(5,6) by auto
  moreover have "\<forall>J \<in> set (I # Is). callDone V icpt cm2 n C J" using callDone_grows [OF v(4) r(3)] r(4) by simp
  moreover have "\<forall>m. m \<noteq> n \<longrightarrow> outs cm2 m \<subseteq> outs cm m" using v(7) r(7) by fastforce
  ultimately show ?case using r(2) cm_grows_trans [OF v(3) r(3)] by blast
qed


definition nodeDone :: "'x pta_view_scheme \<Rightarrow> icpt_fun \<Rightarrow> ctx_module \<Rightarrow> nat \<Rightarrow> bool" where
  "nodeDone V icpt cm n \<longleftrightarrow> (\<forall>F ext. cnTarget (callNodes cm ! n) = DirectFun F ext \<longrightarrow>
     (\<forall>I \<in> set (bodyOf V F). callDone V icpt cm n (cnCtx (callNodes cm ! n)) I))"

lemma nodeDone_grows: "nodeDone V icpt cm n \<Longrightarrow> cm_grows cm cm' \<Longrightarrow> n < length (callNodes cm) \<Longrightarrow> nodeDone V icpt cm' n"
  unfolding nodeDone_def by (metis callDone_grows cm_grows_at(2,3))

lemma walked_le_card:
  assumes inv: "cg_inv V icpt walks entry P cm s" and fin: "finite (reachKeys V icpt walks entry)"
    and xs: "distinct xs" "set xs = walkedNodes cm"
  shows "length xs \<le> card (reachKeys V icpt walks entry)"
proof -
  have ok: "cm_ok cm" using inv by (simp add: cg_inv_def)
  define f where "f = (\<lambda>i. (cnCtx (callNodes cm ! i), (case cnTarget (callNodes cm ! i) of DirectFun F ext \<Rightarrow> F)))"
  have m: "map_of (ctxFunMap cm) (f i) = Some i" if "i \<in> walkedNodes cm" for i
  proof -
    obtain F where F: "i < length (callNodes cm)" "cnTarget (callNodes cm ! i) = DirectFun F False" using \<open>i \<in> walkedNodes cm\<close> by (auto simp: walkedNodes_def)
    then show ?thesis using cm_okD(3) [OF ok F] F(2) by (simp add: f_def)
  qed
  have inj: "inj_on f (walkedNodes cm)"
  proof (rule inj_onI)
    fix i j assume ij: "i \<in> walkedNodes cm" "j \<in> walkedNodes cm" "f i = f j"
    have "Some i = Some j" using m [OF ij(1)] m [OF ij(2)] ij(3) by metis
    then show "i = j" by simp
  qed
  have "f ` walkedNodes cm \<subseteq> keys cm"
  proof
    fix k assume "k \<in> f ` walkedNodes cm"
    then obtain i where "i \<in> walkedNodes cm" "k = f i" by blast
    then show "k \<in> keys cm" using m [of i] by (simp add: keys_def domIff)
  qed
  then have "f ` walkedNodes cm \<subseteq> reachKeys V icpt walks entry" using inv unfolding cg_inv_def by blast
  then have "card (f ` walkedNodes cm) \<le> card (reachKeys V icpt walks entry)" by (rule card_mono [OF fin])
  then show ?thesis using card_image [OF inj] distinct_card [OF xs(1)] xs(2) by simp
qed

lemma expandLoop_ok:
  assumes walk: "walk_ok V cb icpt walks entry P" and fin: "finite (reachKeys V icpt walks entry)"
  shows "cg_inv V icpt walks entry P cm s \<Longrightarrow> distinct (done @ queue) \<Longrightarrow> set (done @ queue) = walkedNodes cm \<Longrightarrow>
    (\<forall>n \<in> set done. nodeDone V icpt cm n) \<Longrightarrow> (\<forall>n. n \<notin> set done \<longrightarrow> outs cm n = {}) \<Longrightarrow> card (reachKeys V icpt walks entry) \<le> fuel + length done \<Longrightarrow>
    \<exists>cm' s'. expandLoop fuel V cb (queue, cm, s) = Inr (cm', s') \<and> cg_inv V icpt walks entry P cm' s' \<and> cm_grows cm cm' \<and>
      (\<forall>n \<in> walkedNodes cm'. nodeDone V icpt cm' n)"
proof (induction fuel arbitrary: "done" queue cm s)
  case 0
  have "length (done @ queue) \<le> card (reachKeys V icpt walks entry)"
    by (rule walked_le_card [OF 0(1) fin 0(2,3)])
  then have "length queue = 0" using 0(6) unfolding length_append by arith
  then have "queue = []" by simp
  then show ?case using 0 cm_grows_refl by auto
next
  case (Suc fuel)
  show ?case
  proof (cases queue)
    case Nil
    then show ?thesis using Suc.prems cm_grows_refl by auto
  next
    case (Cons n rest)
    then have "n \<in> walkedNodes cm" using Suc.prems(3) by auto
    then obtain F where n: "n < length (callNodes cm)" "cnTarget (callNodes cm ! n) = DirectFun F False" by (auto simp: walkedNodes_def)
    have "distinct (bodyOf V F)" using walk by (auto simp: walk_ok_def program_ok_def)
    moreover have "outs cm n = {}" using Suc.prems(2,5) Cons by auto
    ultimately obtain new cm1 s1 where v: "rfold (visitCallInst V cb n (cnCtx (callNodes cm ! n))) (bodyOf V F) (rest, cm, s) = Inr (rest @ new, cm1, s1)"
      "cg_inv V icpt walks entry P cm1 s1" "cm_grows cm cm1" "\<forall>I \<in> set (bodyOf V F). callDone V icpt cm1 n (cnCtx (callNodes cm ! n)) I"
      "distinct new" "set new = walkedNodes cm1 - walkedNodes cm"
      "\<forall>m. m \<noteq> n \<longrightarrow> outs cm1 m \<subseteq> outs cm m"
      using visitBody_ok [OF walk Suc.prems(1) n(1) refl n(2) order_refl, of rest] by auto
    have step: "visitCallNode V cb n (rest, cm, s) = Inr (rest @ new, cm1, s1)" using v(1) n(2) by (simp add: visitCallNode_def)
    have "nodeDone V icpt cm1 n" using v(4) cm_grows_at [OF v(3) n(1)] n(2) by (simp add: nodeDone_def)
    moreover have "nodeDone V icpt cm1 m" if "m \<in> set done" for m
    proof -
      have "m < length (callNodes cm)" using that Suc.prems(3) by (auto simp: walkedNodes_def)
      then show ?thesis by (rule nodeDone_grows [OF bspec [OF Suc.prems(4) that] v(3)])
    qed
    ultimately have d: "\<forall>m \<in> set (done @ [n]). nodeDone V icpt cm1 m" by auto
    have dist: "distinct ((done @ [n]) @ rest @ new)" using Suc.prems(2,3) v(5,6) Cons by auto
    have all: "set ((done @ [n]) @ rest @ new) = walkedNodes cm1"
      using Suc.prems(3) v(6) Cons walkedNodes_grows [OF v(3)] by auto
    have "card (reachKeys V icpt walks entry) \<le> fuel + length (done @ [n])" using Suc.prems(6) by simp
    moreover have "\<forall>m. m \<notin> set (done @ [n]) \<longrightarrow> outs cm1 m = {}" using Suc.prems(5) v(7) by fastforce
    ultimately obtain cm2 s2 where r: "expandLoop fuel V cb (rest @ new, cm1, s1) = Inr (cm2, s2)" "cg_inv V icpt walks entry P cm2 s2"
      "cm_grows cm1 cm2" "\<forall>n \<in> walkedNodes cm2. nodeDone V icpt cm2 n"
      using Suc.IH [OF v(2) dist all d] by fast
    have "expandLoop (Suc fuel) V cb (queue, cm, s) = Inr (cm2, s2)" using step r(1) Cons by simp
    then show ?thesis using r(2,4) cm_grows_trans [OF v(3) r(3)] by blast
  qed
qed

text \<open>When every walked node is done, every function calls reach has its node.\<close>

lemma walked_key:
  assumes inv: "cg_inv V icpt walks entry P cm s" and k: "(C, F) \<in> keys cm" and "walks F"
  shows "\<exists>n. map_of (ctxFunMap cm) (C, F) = Some n \<and> n \<in> walkedNodes cm \<and> cnCtx (callNodes cm ! n) = C \<and> cnTarget (callNodes cm ! n) = DirectFun F False"
proof -
  obtain n where n: "map_of (ctxFunMap cm) (C, F) = Some n" using k by (auto simp: keys_def)
  have "n < length (callNodes cm)" "cnCtx (callNodes cm ! n) = C" "\<exists>ext. cnTarget (callNodes cm ! n) = DirectFun F ext"
    using cm_okD(1) [OF _ n] inv by (auto simp: cg_inv_def)
  then show ?thesis using n inv assms(3) by (auto simp: cg_inv_def walkedNodes_def)
qed

lemma keys_complete:
  assumes inv: "cg_inv V icpt walks entry P cm s" and start: "(InitCtx, entry) \<in> keys cm"
    and alldone: "\<forall>n \<in> walkedNodes cm. nodeDone V icpt cm n"
  shows "keys cm = reachKeys V icpt walks entry"
proof
  show "keys cm \<subseteq> reachKeys V icpt walks entry" using inv by (simp add: cg_inv_def)
  have "(C, F) \<in> keys cm" if "(C, F) \<in> reachKeys V icpt walks entry" for C F
    using that
  proof (induction rule: reachKeys.induct)
    case (call C F I G R opt)
    obtain n where n: "n \<in> walkedNodes cm" "cnCtx (callNodes cm ! n) = C" "cnTarget (callNodes cm ! n) = DirectFun F False"
      using walked_key [OF inv call.IH call.hyps(2)] by blast
    then have "callDone V icpt cm n C I" using alldone call.hyps(3) by (auto simp: nodeDone_def)
    then obtain d where "targetOf V cm (ctxEvolve V C I) C R I = Some d"
      using call.hyps(4,5,6) by (fastforce simp: callDone_def)
    then show ?case using call.hyps(7) by (auto simp: targetOf_def keys_def)
  qed (rule start)
  then show "reachKeys V icpt walks entry \<subseteq> keys cm" by auto
qed

text \<open>
  The call graph of a program is complete and its walk ends. For a client within its contract and a program whose direct
  calls name functions, if calls reach finitely many functions in contexts, the walk from the entry ends with a graph that has a
  node for exactly these; the graph's maps and nodes agree and every edge is stored at both ends (\<open>cm_ok\<close>); and
  the node of a walked function has exactly the edges of its calls: of an indirect call to its own node, of a direct call
  to the node of the function or call that the client puts in its place. The code makes no edge
  for a direct call that the client ignores (\<open>IGNORE_FUN\<close>) and for a call of inline assembly.
\<close>

lemma call_graph_complete:
  assumes walk: "walk_ok V cb icpt walks entry P" and start: "P {} {} s" "walks entry"
    and entry: "find (\<lambda>f. getName (ptaModule V) f = entryName) (getFunctionList (ptaModule V)) = Some entry"
      "\<not> isDeclaration (ptaModule V) entry"
    and fuel: "finite (reachKeys V icpt walks entry)" "card (reachKeys V icpt walks entry) \<le> fuel"
  shows "\<exists>cm s'. buildInitCallGraph fuel V entryName cb (newCtxModule, s) = Inr (Some (cm, s')) \<and> cm_ok cm \<and> P (keys cm) (calls cm) s' \<and>
    keys cm = reachKeys V icpt walks entry \<and>
    (\<forall>C F. (C, F) \<in> reachKeys V icpt walks entry \<longrightarrow> walks F \<longrightarrow>
      (\<exists>n. map_of (ctxFunMap cm) (C, F) = Some n \<and> (\<forall>I \<in> set (bodyOf V F). callDone V icpt cm n C I) \<and>
        (\<forall>I d. callOut cm n I d \<longleftrightarrow> I \<in> set (bodyOf V F) \<and> callTarget V icpt cm C I d))) \<and>
    (\<forall>n I d. callOut cm n I d \<longrightarrow> n \<in> walkedNodes cm)"
proof -
  obtain expands onlySite where client: "client_ok V cb icpt expands walks P" and walks: "\<And>R. walks R \<longleftrightarrow> \<not> onlySite R \<and> expands R"
    and init: "\<And>s. P {(InitCtx, entry)} {} s \<Longrightarrow> \<exists>r s'. beforeNewNode cb InitCtx InitCtx entry None s = Inr (r, s') \<and> P {(InitCtx, entry)} {} s'"
    using walk unfolding walk_ok_def by blast
  let ?node = "\<lparr> cnCtx = InitCtx, cnSite = None, cnTarget = DirectFun entry (\<not> walks entry), cnSucc = [], cnPred = [] \<rparr>"
  define cm0 where "cm0 = newCtxModule\<lparr> callNodes := callNodes newCtxModule @ [?node], ctxFunMap := ((InitCtx, entry), length (callNodes newCtxModule)) # ctxFunMap newCtxModule \<rparr>"
  have cm0: "cm0 = \<lparr> callNodes = [?node], ctxFunMap = [((InitCtx, entry), 0)], ctxFunPtrMap = [] \<rparr>" by (simp add: cm0_def newCtxModule_def)
  have none: "calls newCtxModule = {}" by (simp add: calls_def callOut_def newCtxModule_def)
  have inv0: "cg_inv V icpt walks entry P newCtxModule s"
    using start none empty_sound unfolding cg_inv_def by (simp add: empty_module_ok) (simp add: newCtxModule_def)
  obtain s1 where s1: "onNewDirect cb ?node 0 s = Inr (expands entry, s1)" "P {(InitCtx, entry)} {} s1"
    using client_okD(2) [OF client start(1), of ?node entry 0] start(2) by auto
  obtain r s2 where s2: "beforeNewNode cb InitCtx InitCtx entry None s1 = Inr (r, s2)" "P {(InitCtx, entry)} {} s2"
    using init s1(2) by blast
  have P: "P (insert (InitCtx, entry) (keys newCtxModule)) (calls newCtxModule) s2" using s2(2) none by (simp add: empty_module_ok)
  have new: "map_of (ctxFunMap newCtxModule) (InitCtx, entry) = None" by (simp add: newCtxModule_def)
  note A = addDirect_ok [OF inv0 new reachKeys.start P cm0_def]
  have name: "getName (ptaModule V) entry = entryName" using entry(1) by (auto simp: find_Some_iff)
  have made: "createEntryNode V entryName cb InitCtx entry (newCtxModule, s) = Inr (0, cm0, s2)"
    using name s1(1) s2(1) start(2) walks
    by (simp add: createEntryNode_def newDirectNode_def createCallNode_def addCallNode_def cm0 newCtxModule_def)
  have "distinct ([] @ [0])" "set ([] @ [0]) = walkedNodes cm0" using A(3) start(2) by (simp_all add: empty_module_ok(3)) (simp_all add: newCtxModule_def)
  moreover have "outs cm0 m = {}" for m by (auto simp: outs_def callOut_def cm0)
  ultimately obtain cm s' where e: "expandLoop fuel V cb ([0], cm0, s2) = Inr (cm, s')" "cg_inv V icpt walks entry P cm s'" "cm_grows cm0 cm"
    "\<forall>n \<in> walkedNodes cm. nodeDone V icpt cm n"
    using expandLoop_ok [OF walk fuel(1) A(1), of "[]" "[0]" fuel] fuel(2) by auto
  have "map_of (ctxFunMap cm0) \<subseteq>\<^sub>m map_of (ctxFunMap cm)" using e(3) by (simp add: cm_grows_def)
  then have "dom (map_of (ctxFunMap cm0)) \<subseteq> keys cm" unfolding keys_def by (rule map_le_implies_dom_le)
  then have "(InitCtx, entry) \<in> keys cm" by (simp add: cm0)
  then have k: "keys cm = reachKeys V icpt walks entry" using keys_complete [OF e(2) _ e(4)] by simp
  have sound: "edges_sound V icpt cm" using e(2) by (simp add: cg_inv_def)
  have "\<exists>n. map_of (ctxFunMap cm) (C, F) = Some n \<and> (\<forall>I \<in> set (bodyOf V F). callDone V icpt cm n C I) \<and>
      (\<forall>I d. callOut cm n I d \<longleftrightarrow> I \<in> set (bodyOf V F) \<and> callTarget V icpt cm C I d)"
    if k2: "(C, F) \<in> reachKeys V icpt walks entry" "walks F" for C F
  proof -
    obtain n where n: "map_of (ctxFunMap cm) (C, F) = Some n" "n \<in> walkedNodes cm" "cnCtx (callNodes cm ! n) = C"
      "cnTarget (callNodes cm ! n) = DirectFun F False" using walked_key [OF e(2) _ k2(2), of C] k2(1) k by blast
    then have fin: "\<forall>I \<in> set (bodyOf V F). callDone V icpt cm n C I" using e(4) unfolding nodeDone_def by blast
    have "callOut cm n I d \<longleftrightarrow> I \<in> set (bodyOf V F) \<and> callTarget V icpt cm C I d" for I d
    proof
      assume "callOut cm n I d"
      then show "I \<in> set (bodyOf V F) \<and> callTarget V icpt cm C I d" using sound n(3,4) unfolding edges_sound_def by fastforce
    qed (use fin callDone_target in blast)
    show ?thesis using n(1) fin \<open>\<And>I d. callOut cm n I d \<longleftrightarrow> I \<in> set (bodyOf V F) \<and> callTarget V icpt cm C I d\<close> by blast
  qed
  moreover have "n \<in> walkedNodes cm" if "callOut cm n I d" for n I d
    using that sound unfolding edges_sound_def walkedNodes_def callOut_def by blast
  moreover have "buildInitCallGraph fuel V entryName cb (newCtxModule, s) = Inr (Some (cm, s'))"
    using entry made e(1) by (simp add: buildInitCallGraph_def expandFromNode_def newCtxModule_def)
  ultimately show ?thesis using k e(2) by (auto simp: cg_inv_def)
qed

end
