(* ===== verification/GenCalls.thy ===== *)
theory GenCalls
  imports GenFun LangHooks CallGraphOk
begin

text \<open>
  Calls: the arguments of a call reach the parameters of the function called, what it returns reaches the call, and a heap
  allocation gives its call an object. What the builder asks of a language model is \<open>hooks_ok\<close>.
\<close>

section \<open>Arguments and results\<close>

definition argRules :: "'x builder_view_scheme \<Rightarrow> ctx_ptr \<Rightarrow> ctx_ptr \<Rightarrow> llvm_value list \<Rightarrow> llvm_value list \<Rightarrow> gen_rule set" where
  "argRules V C D fs as = {(CCopy, PtrOf C a, PtrOf D f) |f a. (f, a) \<in> set (zip fs as) \<and> isPointerTy (ptaModule V) a}"

definition returnRules :: "'x builder_view_scheme \<Rightarrow> ctx_ptr \<Rightarrow> ctx_ptr \<Rightarrow> llvm_value \<Rightarrow> llvm_value \<Rightarrow> gen_rule set" where
  "returnRules V C D F I =
     (if getReturnedArgOperand V I = None \<and> returnsPointer V F \<and> isPointerTy (ptaModule V) I then {(CCopy, RetOf D F, PtrOf C I)} else {})"

lemma linkArgs_ok:
  assumes rk: "ranked V" and "gen_ok V gs"
    and "\<And>f a. (f, a) \<in> set (zip fs as) \<Longrightarrow> isPointerTy (ptaModule V) f = isPointerTy (ptaModule V) a"
    and "\<And>f a. (f, a) \<in> set (zip fs as) \<Longrightarrow> isPointerTy (ptaModule V) a \<Longrightarrow>
      \<not> gepValue V (canonOf V f) \<and> ptrKey V C (canonOf V a) \<in> A \<and> ptrKey V D (canonOf V f) \<in> A"
  shows "\<exists>gs'. linkArgs V C D fs as gs = Inr gs' \<and> gen_step V A B R gs gs' \<and> (\<forall>r \<in> argRules V C D fs as. holds V gs' r)"
  using assms(2-4)
proof (induction fs "as" arbitrary: gs rule: list_induct2')
  case (4 f fs a "as")
  have ptr: "isPointerTy (ptaModule V) f = isPointerTy (ptaModule V) a" using 4(3) by simp
  define one where "one = (if isPointerTy (ptaModule V) a then rbind (getOrCreatePtrNode V C a gs) (\<lambda>(aNode, gs).
    rbind (getOrCreatePtrNode V D f gs) (\<lambda>(fNode, gs). addEdge aNode fNode CCopy gs)) else Inr gs)"
  have "\<exists>gs1. one = Inr gs1 \<and> gen_step V A B R gs gs1 \<and> (isPointerTy (ptaModule V) a \<longrightarrow> holds V gs1 (CCopy, PtrOf C a, PtrOf D f))"
  proof (cases "isPointerTy (ptaModule V) a")
    case True
    then have k: "\<not> gepValue V (canonOf V f)" "ptrKey V C (canonOf V a) \<in> A" "ptrKey V D (canonOf V f) \<in> A" using 4(4) [of f a] by simp_all
    have "rule_fits V (CCopy, PtrOf C a, PtrOf D f)" using k(1) by (simp add: rule_fits_def)
    from link_two [OF rk 4(2) k(2,3) this, of B R] show ?thesis using True unfolding one_def by (simp only: if_True) blast
  next
    case False
    then show ?thesis using gen_step_refl [OF 4(2)] by (simp add: one_def)
  qed
  then obtain gs1 where s1: "one = Inr gs1" "gen_step V A B R gs gs1" "isPointerTy (ptaModule V) a \<Longrightarrow> holds V gs1 (CCopy, PtrOf C a, PtrOf D f)" by blast
  note ok1 = gen_stepD(1) [OF s1(2)]
  have "\<exists>gs'. linkArgs V C D fs as gs1 = Inr gs' \<and> gen_step V A B R gs1 gs' \<and> (\<forall>r \<in> argRules V C D fs as. holds V gs' r)"
  proof (rule 4(1) [OF ok1])
    show "isPointerTy (ptaModule V) f' = isPointerTy (ptaModule V) a'" if "(f', a') \<in> set (zip fs as)" for f' a'
      by (rule 4(3)) (use that in simp)
    show "\<not> gepValue V (canonOf V f') \<and> ptrKey V C (canonOf V a') \<in> A \<and> ptrKey V D (canonOf V f') \<in> A"
      if "(f', a') \<in> set (zip fs as)" "isPointerTy (ptaModule V) a'" for f' a'
      by (rule 4(4)) (use that in simp_all)
  qed
  then obtain gs' where s2: "linkArgs V C D fs as gs1 = Inr gs'" "gen_step V A B R gs1 gs'" "\<forall>r \<in> argRules V C D fs as. holds V gs' r" by blast
  have "linkArgs V C D (f # fs) (a # as) gs = Inr gs'" unfolding linkArgs.simps(1) one_def [symmetric] using s1(1) s2(1) ptr by (simp add: rassert_def)
  moreover have "\<forall>r \<in> argRules V C D (f # fs) (a # as). holds V gs' r"
    using s2(3) s1(3) holds_step [OF s2(2) ok1] by (auto simp: argRules_def)
  ultimately show ?case using gen_step_trans [OF s1(2) s2(2)] by blast
qed (auto simp: argRules_def intro: gen_step_refl)

lemma linkReturn_ok:
  assumes rk: "ranked V" and ok: "gen_ok V gs"
    and same: "\<And>rv. getReturnedArgOperand V I = Some rv \<Longrightarrow> isPointerTy (ptaModule V) rv \<Longrightarrow> canonOf V rv = canonOf V I"
    and ret: "returnsPointer V F \<Longrightarrow> retPtrMap gs (D, F) \<noteq> None"
    and key: "getReturnedArgOperand V I = None \<Longrightarrow> returnsPointer V F \<Longrightarrow> isPointerTy (ptaModule V) I \<Longrightarrow>
      ptrKey V C (canonOf V I) \<in> A \<and> \<not> gepValue V (canonOf V I)"
  shows "\<exists>gs'. linkReturn V C D F I gs = Inr gs' \<and> gen_step V A B R gs gs' \<and> (\<forall>r \<in> returnRules V C D F I. holds V gs' r)"
proof (cases "getReturnedArgOperand V I = None \<and> returnsPointer V F \<and> isPointerTy (ptaModule V) I")
  case True
  then have k: "ptrKey V C (canonOf V I) \<in> A" "\<not> gepValue V (canonOf V I)" using key by blast+
  obtain s where s: "retPtrMap gs (D, F) = Some s" using ret True by blast
  from getOrCreatePtrNode_ok [OF rk ok, of C I B R] obtain d gs1 where
    d: "getOrCreatePtrNode V C I gs = Inr (d, gs1)" "gen_step V {ptrKey V C (canonOf V I)} B R gs gs1" "ptrNode V gs1 C I = Some d" by blast
  have s1: "gen_step V A B R gs gs1" using k(1) by (auto intro: gen_step_mono [OF d(2)])
  have p: "placeAt V gs1 (RetOf D F) s" "placeAt V gs1 (PtrOf C I) d" using gen_stepD(4) [OF s1 s] d(3) by (simp_all add: placeAt_def)
  have "rule_fits V (CCopy, RetOf D F, PtrOf C I)" using k(2) by (simp add: rule_fits_def)
  from add_rule [OF gen_stepD(1) [OF s1] p this, of A B R] obtain gs' where
    e: "addEdge s d CCopy gs1 = Inr gs'" "gen_step V A B R gs1 gs'" "holds V gs' (CCopy, RetOf D F, PtrOf C I)" by blast
  show ?thesis using True s d(1) e gen_step_trans [OF s1 e(2)] by (simp add: linkReturn_def getRetNode_def returnRules_def)
next
  case False
  then have "linkReturn V C D F I gs = Inr gs" using same by (auto simp: linkReturn_def canonicalize_canonOf [OF rk] split: option.splits)
  moreover have "returnRules V C D F I = {}" using False by (auto simp: returnRules_def)
  ultimately show ?thesis using gen_step_refl [OF ok] by simp
qed

section \<open>Who owns a value\<close>

text \<open>
  \<open>own\<close> gives the function a value belongs to; the pointers of a function in a context only turn up after it was
  visited there, and its blocks are those of its allocas and of its calls that were processed.
\<close>

definition ownedKeys :: "(llvm_value \<Rightarrow> llvm_value option) \<Rightarrow> (ctx_ptr \<times> llvm_value) set \<Rightarrow> (ctx_ptr \<times> llvm_value) set" where
  "ownedKeys own K = {(C, v). \<forall>F. own v = Some F \<longrightarrow> (C, F) \<in> K}"

definition ownedBlocks ::
  "'x builder_view_scheme \<Rightarrow> (llvm_value \<Rightarrow> llvm_value option) \<Rightarrow> (ctx_ptr \<times> llvm_value) set \<Rightarrow> call_record set \<Rightarrow> (ctx_ptr \<times> llvm_value) set" where
  "ownedBlocks V own K E = {(C, v). \<forall>F. own v = Some F \<longrightarrow> (C, F) \<in> K \<and> (classAt V v = Some VAllocaInst \<or> (\<exists>D R. (C, F, v, D, R) \<in> E))}"

definition owners_ok :: "'x builder_view_scheme \<Rightarrow> (llvm_value \<Rightarrow> llvm_value option) \<Rightarrow> bool" where
  "owners_ok V own \<longleftrightarrow> (\<forall>v. isGlobalValue V v \<longrightarrow> own v = None)"

lemma owned_key:
  assumes "owners_ok V own" and "own w = None \<or> own w = Some F" and "(C, F) \<in> K"
  shows "ptrKey V C w \<in> ownedKeys own K"
  using assms by (auto simp: ptrKey_def ownedKeys_def owners_ok_def)

lemma owned_mono: "K \<subseteq> K' \<Longrightarrow> ownedKeys own K \<subseteq> ownedKeys own K'"
  by (auto simp: ownedKeys_def)

lemma blocks_mono: "K \<subseteq> K' \<Longrightarrow> E \<subseteq> E' \<Longrightarrow> ownedBlocks V own K E \<subseteq> ownedBlocks V own K' E'"
  unfolding ownedBlocks_def by blast

lemma body_owned: "body_ok V own F seen Is \<Longrightarrow> w \<in> touchedIn V Is \<Longrightarrow> own w = None \<or> own w = Some F"
  by (induction Is arbitrary: seen) (auto simp: touchedIn_def inst_ok_def)

lemma nodes_owned: "fun_ok V own globs F \<Longrightarrow> w \<in> nodesOf V F \<Longrightarrow> own w = None \<or> own w = Some F"
  using body_owned by (fastforce simp: fun_ok_def nodesOf_def local_value_def)

lemma body_allocas: "body_ok V own F seen Is \<Longrightarrow> I \<in> allocasIn V Is \<Longrightarrow> own I = Some F"
  by (induction Is arbitrary: seen) (auto simp: allocasIn_def inst_ok_def local_value_def Let_def)

section \<open>Language models\<close>

text \<open>
  What a language model promises: a redirection is a question about the call alone; a heap allocation gets an object of its own;
  any other call links pairs of an argument and a parameter and tells whether that was all.
\<close>

type_synonym link_fun = "llvm_value \<Rightarrow> llvm_value \<Rightarrow> bool \<times> (llvm_value \<times> llvm_value) list"

definition hooks_ok ::
  "'x builder_view_scheme \<Rightarrow> lang_hooks \<Rightarrow> icpt_fun \<Rightarrow> (llvm_value \<Rightarrow> llvm_value \<Rightarrow> bool) \<Rightarrow> link_fun \<Rightarrow> bool" where
  "hooks_ok V H icpt fits links \<longleftrightarrow>
     (\<forall>cur pre F I. directCall V I F \<longrightarrow>
        (if hookHeapAllocAPI H F then icpt cur pre F I = (Some F, ONLY_CALLSITE) else hookFunction H F I = Inr (icpt cur pre F I))) \<and>
     (\<forall>C R I gs. gen_ok V gs \<longrightarrow> hookHeapAllocAPI H R \<longrightarrow> fits R I \<longrightarrow> memBlockMap (genMem gs) (C, I) = None \<longrightarrow> ptrNode V gs C I \<noteq> None \<longrightarrow>
        (\<exists>gs'. hookHeapAllocSite H C R I gs = Inr gs' \<and> gen_step V {} {(C, I)} {} gs gs' \<and> holds V gs' (CAddrOf, ObjOf C I, PtrOf C I))) \<and>
     (\<forall>C R G I gs. directCall V I G \<longrightarrow> \<not> hookHeapAllocAPI H R \<longrightarrow> fits R I \<longrightarrow>
        hookCallSite H C (ctxEvolve V C I) R (Some G) I gs =
          (case links R I of (handled, ls) \<Rightarrow> rbind (rfold (linkArg V C (ctxEvolve V C I)) ls gs) (\<lambda>gs. Inr (handled, gs))))"

lemma hooks_okD:
  assumes "hooks_ok V H icpt fits links"
  shows "directCall V I F \<Longrightarrow> hookHeapAllocAPI H F \<Longrightarrow> icpt cur pre F I = (Some F, ONLY_CALLSITE)"
    "directCall V I F \<Longrightarrow> \<not> hookHeapAllocAPI H F \<Longrightarrow> hookFunction H F I = Inr (icpt cur pre F I)"
    "gen_ok V gs \<Longrightarrow> hookHeapAllocAPI H R \<Longrightarrow> fits R I \<Longrightarrow> memBlockMap (genMem gs) (C, I) = None \<Longrightarrow> ptrNode V gs C I \<noteq> None \<Longrightarrow>
      \<exists>gs'. hookHeapAllocSite H C R I gs = Inr gs' \<and> gen_step V {} {(C, I)} {} gs gs' \<and> holds V gs' (CAddrOf, ObjOf C I, PtrOf C I)"
    "directCall V I G \<Longrightarrow> \<not> hookHeapAllocAPI H R \<Longrightarrow> fits R I \<Longrightarrow> links R I = (handled, ls) \<Longrightarrow>
      hookCallSite H C (ctxEvolve V C I) R (Some G) I gs = rbind (rfold (linkArg V C (ctxEvolve V C I)) ls gs) (\<lambda>gs. Inr (handled, gs))"
proof -
  note a = assms [unfolded hooks_ok_def]
  show "icpt cur pre F I = (Some F, ONLY_CALLSITE)" if "directCall V I F" "hookHeapAllocAPI H F" using conjunct1 [OF a] that by auto
  show "hookFunction H F I = Inr (icpt cur pre F I)" if "directCall V I F" "\<not> hookHeapAllocAPI H F"
    using conjunct1 [OF a, rule_format, OF that(1), of cur pre] that(2) by simp
  show "\<exists>gs'. hookHeapAllocSite H C R I gs = Inr gs' \<and> gen_step V {} {(C, I)} {} gs gs' \<and> holds V gs' (CAddrOf, ObjOf C I, PtrOf C I)"
    if "gen_ok V gs" "hookHeapAllocAPI H R" "fits R I" "memBlockMap (genMem gs) (C, I) = None" "ptrNode V gs C I \<noteq> None"
    by (rule conjunct1 [OF conjunct2 [OF a], rule_format, OF that])
  show "hookCallSite H C (ctxEvolve V C I) R (Some G) I gs = rbind (rfold (linkArg V C (ctxEvolve V C I)) ls gs) (\<lambda>gs. Inr (handled, gs))"
    if "directCall V I G" "\<not> hookHeapAllocAPI H R" "fits R I" "links R I = (handled, ls)"
    using conjunct2 [OF conjunct2 [OF a], rule_format, OF that(1-3), of C gs] that(4) by simp
qed

definition linkRules :: "ctx_ptr \<Rightarrow> ctx_ptr \<Rightarrow> (llvm_value \<times> llvm_value) list \<Rightarrow> gen_rule set" where
  "linkRules C D ls = (\<lambda>(a, f). (CCopy, PtrOf C a, PtrOf D f)) ` set ls"

lemma links_ok:
  assumes rk: "ranked V" and "gen_ok V gs"
    and "\<And>a f. (a, f) \<in> set ls \<Longrightarrow> hasNode V gs C (canonOf V a) \<and> hasNode V gs D (canonOf V f) \<and> \<not> gepValue V (canonOf V f)"
  shows "\<exists>gs'. rfold (linkArg V C D) ls gs = Inr gs' \<and> gen_step V A B R gs gs' \<and> (\<forall>r \<in> linkRules C D ls. holds V gs' r)"
  using assms(2,3)
proof (induction ls arbitrary: gs)
  case Nil
  then show ?case by (auto simp: linkRules_def intro: gen_step_refl)
next
  case (Cons l ls)
  obtain a f where l: "l = (a, f)" by (cases l)
  then have h: "hasNode V gs C (canonOf V a)" "hasNode V gs D (canonOf V f)" "\<not> gepValue V (canonOf V f)" using Cons.prems(2) [of a f] by simp_all
  then obtain s d where sd: "ptrNode V gs C a = Some s" "ptrNode V gs D f = Some d" by (auto simp: hasNode_iff)
  then have p: "placeAt V gs (PtrOf C a) s" "placeAt V gs (PtrOf D f) d" by (simp_all add: placeAt_def)
  have "rule_fits V (CCopy, PtrOf C a, PtrOf D f)" using h(3) by (simp add: rule_fits_def)
  from add_rule [OF Cons.prems(1) p this, of A B R] obtain gs1 where
    e: "addEdge s d CCopy gs = Inr gs1" "gen_step V A B R gs gs1" "holds V gs1 (CCopy, PtrOf C a, PtrOf D f)" by blast
  note ok1 = gen_stepD(1) [OF e(2)]
  have "\<exists>gs'. rfold (linkArg V C D) ls gs1 = Inr gs' \<and> gen_step V A B R gs1 gs' \<and> (\<forall>r \<in> linkRules C D ls. holds V gs' r)"
  proof (rule Cons.IH [OF ok1])
    fix a' f' assume "(a', f') \<in> set ls"
    then have "hasNode V gs C (canonOf V a') \<and> hasNode V gs D (canonOf V f') \<and> \<not> gepValue V (canonOf V f')" by (intro Cons.prems(2)) simp
    then show "hasNode V gs1 C (canonOf V a') \<and> hasNode V gs1 D (canonOf V f') \<and> \<not> gepValue V (canonOf V f')" using hasNode_step [OF e(2)] by blast
  qed
  then obtain gs' where g: "rfold (linkArg V C D) ls gs1 = Inr gs'" "gen_step V A B R gs1 gs'" "\<forall>r \<in> linkRules C D ls. holds V gs' r" by blast
  have "\<forall>r \<in> linkRules C D (l # ls). holds V gs' r" using g(3) holds_step [OF g(2) ok1 e(3)] by (simp add: linkRules_def l)
  moreover have "rfold (linkArg V C D) (l # ls) gs = Inr gs'" using e(1) g(1) sd by (simp add: l linkArg_def getPtrNode_eq [OF rk])
  ultimately show ?case using gen_step_trans [OF e(2) g(2)] by blast
qed

end
