(* ===== verification/GenClient.thy ===== *)
theory GenClient
  imports GenCalls
begin

text \<open>
  The builder is a client of the call graph within its contract: for programs it can take, every callback succeeds and keeps what the
  constraints of the functions and calls seen so far say.
\<close>

section \<open>Calls the builder can take\<close>

text \<open>The memory model lets the call through: it is none of a vector function and stores no vtable.\<close>

definition plain_call :: "'x builder_view_scheme \<Rightarrow> llvm_value \<Rightarrow> bool" where
  "plain_call V I \<longleftrightarrow> envKind (memEnv V) = FSKind \<or>
     \<not> (vtableMode (envOpts (memEnv V)) \<and> isCallBase (ptaModule V) I \<and>
        (case getCalledFunction (ptaModule V) I of Some F \<Rightarrow> getName (ptaModule V) F = ''.coderrect.vtable.init'' | None \<Rightarrow> False)) \<and>
     (\<exists>T. calledAPI V I = Inr (UNKNOWN, T))"

lemma plain_callD: "plain_call V I \<Longrightarrow> memInterceptCallSite V C I gs = Inr (False, gs)"
  by (auto simp: plain_call_def memInterceptCallSite_def Let_def split: mem_model_kind.split)

text \<open>The canonical values that have nodes in every context where the function was visited.\<close>

definition available :: "'x builder_view_scheme \<Rightarrow> llvm_value set \<Rightarrow> llvm_value \<Rightarrow> llvm_value \<Rightarrow> bool" where
  "available V globs F w \<longleftrightarrow> specialValue V w \<or> w \<in> globs \<or> w \<in> nodesOf V F"

definition of_function :: "(llvm_value \<Rightarrow> llvm_value option) \<Rightarrow> llvm_value \<Rightarrow> llvm_value \<Rightarrow> bool" where
  "of_function own F w \<longleftrightarrow> own w = None \<or> own w = Some F"

text \<open>A heap allocation: the call itself is a pointer of the caller. A call the language model handles: both ends of its links have nodes.\<close>

definition heap_site :: "'x builder_view_scheme \<Rightarrow> (llvm_value \<Rightarrow> llvm_value option) \<Rightarrow> llvm_value set \<Rightarrow> llvm_value \<Rightarrow> llvm_value \<Rightarrow> bool" where
  "heap_site V own globs F I \<longleftrightarrow> own I = Some F \<and> classAt V I \<noteq> Some VAllocaInst \<and> available V globs F (canonOf V I)"

definition link_site ::
  "'x builder_view_scheme \<Rightarrow> llvm_value set \<Rightarrow> (llvm_value \<Rightarrow> bool) \<Rightarrow> llvm_value \<Rightarrow> llvm_value \<Rightarrow> llvm_value \<times> llvm_value \<Rightarrow> bool" where
  "link_site V globs walks F R = (\<lambda>(a, f). walks R \<and> available V globs F (canonOf V a) \<and> available V globs R (canonOf V f) \<and>
     \<not> gepValue V (canonOf V f))"

text \<open>An ordinary call of a walked function: the callee is the one it names, and arguments fit parameters.\<close>

definition plain_site :: "'x builder_view_scheme \<Rightarrow> (llvm_value \<Rightarrow> llvm_value option) \<Rightarrow> llvm_value \<Rightarrow> llvm_value \<Rightarrow> llvm_value \<Rightarrow> bool" where
  "plain_site V own F I R \<longleftrightarrow> csCalledFunction V I = Inr (Some R) \<and> getFunction (ptaModule V) I = F \<and>
     (\<forall>(f, a) \<in> set (zip (argsOf (ptaModule V) R) (callArgs (ptaModule V) I)).
        isPointerTy (ptaModule V) f = isPointerTy (ptaModule V) a \<and>
        (isPointerTy (ptaModule V) a \<longrightarrow> \<not> gepValue V (canonOf V f) \<and> of_function own F (canonOf V a) \<and> of_function own R (canonOf V f))) \<and>
     (\<forall>rv. getReturnedArgOperand V I = Some rv \<longrightarrow> isPointerTy (ptaModule V) rv \<longrightarrow> canonOf V rv = canonOf V I) \<and>
     (getReturnedArgOperand V I = None \<longrightarrow> returnsPointer V R \<longrightarrow> isPointerTy (ptaModule V) I \<longrightarrow>
        of_function own F (canonOf V I) \<and> \<not> gepValue V (canonOf V I))"

definition site_ok ::
  "'x builder_view_scheme \<Rightarrow> (llvm_value \<Rightarrow> llvm_value option) \<Rightarrow> llvm_value set \<Rightarrow> lang_hooks \<Rightarrow> (llvm_value \<Rightarrow> llvm_value \<Rightarrow> bool) \<Rightarrow>
     link_fun \<Rightarrow> (llvm_value \<Rightarrow> bool) \<Rightarrow> llvm_value \<Rightarrow> llvm_value \<Rightarrow> llvm_value \<Rightarrow> bool" where
  "site_ok V own globs H fits links walks F I R \<longleftrightarrow> plain_call V I \<and> fits R I \<and>
     (if hookHeapAllocAPI H R then heap_site V own globs F I
      else (\<forall>l \<in> set (snd (links R I)). link_site V globs walks F R l) \<and>
        (\<not> fst (links R I) \<longrightarrow> walks R \<longrightarrow> plain_site V own F I R))"

text \<open>What a call says.\<close>

definition siteRules ::
  "'x builder_view_scheme \<Rightarrow> lang_hooks \<Rightarrow> link_fun \<Rightarrow> (llvm_value \<Rightarrow> bool) \<Rightarrow> ctx_ptr \<Rightarrow> llvm_value \<Rightarrow> ctx_ptr \<Rightarrow> llvm_value \<Rightarrow> gen_rule set" where
  "siteRules V H links walks C I D R =
     (if hookHeapAllocAPI H R then {(CAddrOf, ObjOf C I, PtrOf C I)}
      else linkRules C D (snd (links R I)) \<union>
        (if \<not> fst (links R I) \<and> walks R
         then argRules V C D (argsOf (ptaModule V) R) (callArgs (ptaModule V) I) \<union> returnRules V C D R I else {}))"

lemma available_node:
  assumes "available V globs F w" and "fun_done V C F gs" and "\<forall>w \<in> globs. hasNode V gs C w"
  shows "hasNode V gs C w"
  using assms by (auto simp: available_def fun_done_def hasNode_def)

lemma gen_step_weaken: "gen_step V {} {} {} gs gs' \<Longrightarrow> gen_step V A B R gs gs'"
  by (erule gen_step_mono) simp_all

lemma processCallSite_ok:
  assumes rk: "ranked V" and own: "owners_ok V own" and hooks: "hooks_ok V H icpt fits links" and ok: "gen_ok V gs"
    and site: "site_ok V own globs H fits links walks F I R" and direct: "directCall V I G" and D: "D = ctxEvolve V C I"
    and here: "fun_done V C F gs" "(C, F) \<in> K" and there: "walks R \<Longrightarrow> fun_done V D R gs" "(D, R) \<in> K"
    and globs: "\<forall>C. \<forall>w \<in> globs. hasNode V gs C w"
    and walks: "\<And>R. walks R \<Longrightarrow> expanded V R" and new: "heap_site V own globs F I \<Longrightarrow> memBlockMap (genMem gs) (C, I) = None"
  shows "\<exists>gs'. processCallSite V H C F D (R, \<not> walks R) (Some G) I gs = Inr gs' \<and>
    gen_step V (ownedKeys own K) (if hookHeapAllocAPI H R then {(C, I)} else {}) {} gs gs' \<and> (\<forall>r \<in> siteRules V H links walks C I D R. holds V gs' r)"
proof -
  let ?M = "ptaModule V"
  have plain: "plain_call V I" and fit: "fits R I" using site by (simp_all add: site_ok_def)
  note mem = plain_callD [OF plain]
  show ?thesis
  proof (cases "hookHeapAllocAPI H R")
    case True
    then have hs: "heap_site V own globs F I" using site by (simp add: site_ok_def)
    then have "hasNode V gs C (canonOf V I)" using available_node [OF _ here(1)] globs by (auto simp: heap_site_def)
    then have "ptrNode V gs C I \<noteq> None" by (auto simp: hasNode_iff)
    from hooks_okD(3) [OF hooks ok True fit new [OF hs] this] obtain gs' where
      g: "hookHeapAllocSite H C R I gs = Inr gs'" "gen_step V {} {(C, I)} {} gs gs'" "holds V gs' (CAddrOf, ObjOf C I, PtrOf C I)" by blast
    have "gen_step V (ownedKeys own K) {(C, I)} {} gs gs'" by (rule gen_step_mono [OF g(2)]) simp_all
    then show ?thesis using g(1,3) True D by (simp add: processCallSite_def mem overrideCallSite_def siteRules_def)
  next
    case False
    obtain handled ls where l: "links R I = (handled, ls)" by (cases "links R I")
    have ls: "\<forall>l \<in> set ls. link_site V globs walks F R l" and ps: "\<not> handled \<Longrightarrow> walks R \<Longrightarrow> plain_site V own F I R"
      using site False l by (simp_all add: site_ok_def)
    have nodes: "hasNode V gs C (canonOf V a) \<and> hasNode V gs D (canonOf V f) \<and> \<not> gepValue V (canonOf V f)" if "(a, f) \<in> set ls" for a f
    proof -
      have "link_site V globs walks F R (a, f)" using ls that by blast
      then have a: "walks R" "available V globs F (canonOf V a)" "available V globs R (canonOf V f)" "\<not> gepValue V (canonOf V f)"
        by (simp_all add: link_site_def)
      show ?thesis using available_node [OF a(2) here(1)] available_node [OF a(3) there(1) [OF a(1)]] globs a(4) by blast
    qed
    from links_ok [OF rk ok nodes, where A = "ownedKeys own K" and B = "{}" and R = "{}"] obtain gs1 where
      g1: "rfold (linkArg V C D) ls gs = Inr gs1" "gen_step V (ownedKeys own K) {} {} gs gs1" "\<forall>r \<in> linkRules C D ls. holds V gs1 r" by blast
    have hook: "overrideCallSite V H C D R (Some G) I gs = Inr (handled, gs1)"
      using hooks_okD(4) [OF hooks direct False fit l, of C gs] g1(1) False by (simp add: overrideCallSite_def D)
    show ?thesis
    proof (cases "handled \<or> \<not> walks R")
      case True
      then have "processCallSite V H C F D (R, \<not> walks R) (Some G) I gs = Inr gs1" by (auto simp: processCallSite_def mem hook)
      moreover have "siteRules V H links walks C I D R = linkRules C D ls" using True False l by (auto simp: siteRules_def)
      ultimately show ?thesis using g1(2,3) False by auto
    next
      case there': False
      then have w: "walks R" "\<not> handled" by blast+
      note p = ps [OF w(2,1), unfolded plain_site_def]
      have dir: "isCallBase ?M I" "\<not> csIsIndirectCall V I" using direct by (simp_all add: directCall_def)
      have body: "\<not> isDeclaration ?M R" "\<not> isIntrinsic ?M R" using walks [OF w(1)] by (simp_all add: expanded_def)
      note ok1 = gen_stepD(1) [OF g1(2)]
      have keyC: "of_function own F v \<Longrightarrow> ptrKey V C v \<in> ownedKeys own K" for v
        using owned_key [OF own _ here(2)] by (simp add: of_function_def)
      have keyD: "of_function own R v \<Longrightarrow> ptrKey V D v \<in> ownedKeys own K" for v
        using owned_key [OF own _ there(2)] by (simp add: of_function_def)
      have "\<exists>gs2. linkArgs V C D (argsOf ?M R) (callArgs ?M I) gs1 = Inr gs2 \<and> gen_step V (ownedKeys own K) {} {} gs1 gs2 \<and>
          (\<forall>r \<in> argRules V C D (argsOf ?M R) (callArgs ?M I). holds V gs2 r)"
      proof (rule linkArgs_ok [OF rk ok1])
        fix f a assume fa: "(f, a) \<in> set (zip (argsOf ?M R) (callArgs ?M I))"
        then show "isPointerTy ?M f = isPointerTy ?M a" using p by blast
        assume "isPointerTy ?M a"
        then have "\<not> gepValue V (canonOf V f) \<and> of_function own F (canonOf V a) \<and> of_function own R (canonOf V f)" using p fa by blast
        then show "\<not> gepValue V (canonOf V f) \<and> ptrKey V C (canonOf V a) \<in> ownedKeys own K \<and> ptrKey V D (canonOf V f) \<in> ownedKeys own K"
          using keyC keyD by blast
      qed
      then obtain gs2 where g2: "linkArgs V C D (argsOf ?M R) (callArgs ?M I) gs1 = Inr gs2" "gen_step V (ownedKeys own K) {} {} gs1 gs2"
        "\<forall>r \<in> argRules V C D (argsOf ?M R) (callArgs ?M I). holds V gs2 r" by blast
      note ok2 = gen_stepD(1) [OF g2(2)]
      have "\<exists>gs3. linkReturn V C D R I gs2 = Inr gs3 \<and> gen_step V (ownedKeys own K) {} {} gs2 gs3 \<and> (\<forall>r \<in> returnRules V C D R I. holds V gs3 r)"
      proof (rule linkReturn_ok [OF rk ok2])
        show "canonOf V rv = canonOf V I" if "getReturnedArgOperand V I = Some rv" "isPointerTy ?M rv" for rv using p that by blast
        show "retPtrMap gs2 (D, R) \<noteq> None" if "returnsPointer V R"
          using there(1) [OF w(1)] that gen_stepD(4) [OF g1(2)] gen_stepD(4) [OF g2(2)] unfolding fun_done_def by fastforce
        show "ptrKey V C (canonOf V I) \<in> ownedKeys own K \<and> \<not> gepValue V (canonOf V I)"
          if "getReturnedArgOperand V I = None" "returnsPointer V R" "isPointerTy ?M I" using p that keyC by blast
      qed
      then obtain gs3 where g3: "linkReturn V C D R I gs2 = Inr gs3" "gen_step V (ownedKeys own K) {} {} gs2 gs3"
        "\<forall>r \<in> returnRules V C D R I. holds V gs3 r" by blast
      have "processCallSite V H C F D (R, \<not> walks R) (Some G) I gs = Inr gs3"
        using p dir body w g2(1) g3(1) by (simp add: processCallSite_def mem hook Let_def D [symmetric])
      moreover have "gen_step V (ownedKeys own K) {} {} gs gs3" by (rule gen_step_trans [OF gen_step_trans [OF g1(2) g2(2)] g3(2)])
      moreover have "\<forall>r \<in> siteRules V H links walks C I D R. holds V gs3 r"
        using g1(3) g2(3) g3(3) holds_step [OF g2(2) ok1] holds_step [OF g3(2) ok2] False w l by (auto simp: siteRules_def)
      ultimately show ?thesis using False by auto
    qed
  qed
qed

section \<open>Indirect calls\<close>

lemma watch_call_ok:
  assumes ok: "gen_ok V gs" and st: "allocState gs = (mem, g, p)" and n: "n < getNodeNum g"
  shows "gen_step V A B R gs (gs\<lparr> allocState := (mem, setIndirectCallNode n i g, p) \<rparr>)"
proof -
  let ?g = "setIndirectCallNode n i g"
  have g: "genGraph gs = g" "genPts gs = p" "genMem gs = mem" using st by (simp_all add: genGraph_def genPts_def)
  have wf: "graph_wf (?g, p)" using cgStep_ok [of "(g, p)" "CallThrough n i"] gen_okD(5) [OF ok] n by (simp add: g)
  have at: "cgNode ?g m = (if m = n then (cgNode g n)\<lparr> indirectNodes := sorted_insert i (indirectNodes (cgNode g n)) \<rparr> else cgNode g m)"
    "getNodeNum ?g = getNodeNum g" "objVec ?g = objVec g" for m
    using n by (simp_all add: setIndirectCallNode_def cgNode_upd)
  have e: "edge ?g k s d \<longleftrightarrow> edge g k s d" for k s d by (simp add: edge_def at)
  have set: "set (sorted_insert i xs) = insert i (set xs)" for xs :: "nat list" by (induction xs) auto
  have grow: "nodes_grow g ?g" by (auto simp: nodes_grow_def at e set)
  have "alloc_ok (memEnv V) (mem, ?g, p)" using gen_okD(1) [OF ok] wf by (simp add: st alloc_ok_def at)
  moreover have "addr_only g ?g" by (simp add: addr_only_def e)
  ultimately show ?thesis using gen_memory [OF ok st _ grow, of mem p B A R] by (simp add: mem_keeps_def)
qed

definition calledValue :: "'x pta_view_scheme \<Rightarrow> llvm_value \<Rightarrow> llvm_value option \<Rightarrow> llvm_value" where
  "calledValue V I v = (case v of None \<Rightarrow> getCalledOperand (ptaModule V) I | Some R \<Rightarrow> R)"

lemma initIndirectCall_ok:
  assumes rk: "ranked V" and ok: "gen_ok V gs" and node: "hasNode V gs C (canonOf V (calledValue V I v))"
  shows "\<exists>gs'. initIndirectCall V (siteNode C I v) i gs = Inr gs' \<and> gen_step V {} {} {} gs gs'"
proof -
  obtain n where n: "ptrNode V gs C (calledValue V I v) = Some n" using node by (auto simp: hasNode_iff)
  obtain mem g p where st: "allocState gs = (mem, g, p)" by (cases "allocState gs") auto
  have "n < getNodeNum g" using placeAt_node(1) [OF ok, of "PtrOf C (calledValue V I v)" n] n st by (simp add: placeAt_def genGraph_def)
  note step = watch_call_ok [OF ok st this]
  have "getIndirectValue (ptaModule V) (siteNode C I v) = Inr (calledValue V I v)"
    by (auto simp: getIndirectValue_def siteNode_def calledValue_def split: option.split)
  moreover have "cnCtx (siteNode C I v) = C" by (simp add: siteNode_def)
  ultimately show ?thesis using n st step by (simp add: initIndirectCall_def getPtrNode_eq [OF rk])
qed

section \<open>The invariant of the builder\<close>

text \<open>
  \<open>K\<close> are the functions in contexts and \<open>E\<close> the calls between them that the call graph has met: what they say is in the graph, and
  nothing else has pointers, returned values or blocks but globals.
\<close>

definition build_inv ::
  "'x builder_view_scheme \<Rightarrow> (llvm_value \<Rightarrow> llvm_value option) \<Rightarrow> llvm_value set \<Rightarrow> gen_rule set \<Rightarrow> lang_hooks \<Rightarrow> link_fun \<Rightarrow>
     (llvm_value \<Rightarrow> bool) \<Rightarrow> gen_state client_inv" where
  "build_inv V own globs G H links walks K E gs \<longleftrightarrow> gen_ok V gs \<and> (\<forall>r \<in> G. holds V gs r) \<and> (\<forall>C. \<forall>w \<in> globs. hasNode V gs C w) \<and>
     (\<forall>C F. (C, F) \<in> K \<longrightarrow> walks F \<longrightarrow> fun_done V C F gs) \<and>
     (\<forall>C F I D R. (C, F, I, D, R) \<in> E \<longrightarrow> (\<forall>r \<in> siteRules V H links walks C I D R. holds V gs r)) \<and>
     dom (ptrMap gs) \<subseteq> ownedKeys own K \<and> dom (retPtrMap gs) \<subseteq> K \<and> dom (memBlockMap (genMem gs)) \<subseteq> ownedBlocks V own K E"

lemma build_invD:
  assumes "build_inv V own globs G H links walks K E gs"
  shows "gen_ok V gs" "\<forall>r \<in> G. holds V gs r" "\<forall>C. \<forall>w \<in> globs. hasNode V gs C w" "(C, F) \<in> K \<Longrightarrow> walks F \<Longrightarrow> fun_done V C F gs"
    "(C, F, I, D, R) \<in> E \<Longrightarrow> \<forall>r \<in> siteRules V H links walks C I D R. holds V gs r"
    "dom (ptrMap gs) \<subseteq> ownedKeys own K" "dom (retPtrMap gs) \<subseteq> K" "dom (memBlockMap (genMem gs)) \<subseteq> ownedBlocks V own K E"
  using assms unfolding build_inv_def by blast+

text \<open>A step keeps it, with more functions and calls if what they say holds.\<close>

lemma build_inv_step:
  assumes inv: "build_inv V own globs G H links walks K E gs" and step: "gen_step V A B R gs gs'"
    and more: "K \<subseteq> K'" "E \<subseteq> E'"
    and K: "\<And>C F. (C, F) \<in> K' - K \<Longrightarrow> walks F \<Longrightarrow> fun_done V C F gs'"
    and E: "\<And>C F I D R. (C, F, I, D, R) \<in> E' - E \<Longrightarrow> \<forall>r \<in> siteRules V H links walks C I D R. holds V gs' r"
    and new: "A \<subseteq> ownedKeys own K'" "B \<subseteq> ownedBlocks V own K' E'" "R \<subseteq> K'"
  shows "build_inv V own globs G H links walks K' E' gs'"
proof -
  note I = build_invD [OF inv]
  have ok': "gen_ok V gs'" by (rule gen_stepD(1) [OF step])
  have dom: "dom (ptrMap gs') \<subseteq> dom (ptrMap gs) \<union> A" "dom (retPtrMap gs') \<subseteq> dom (retPtrMap gs) \<union> R"
    "dom (memBlockMap (genMem gs')) \<subseteq> dom (memBlockMap (genMem gs)) \<union> B" using step by (simp_all add: gen_step_def)
  have funs: "fun_done V C F gs'" if "(C, F) \<in> K'" "walks F" for C F
    using that K fun_done_step [OF I(4) step I(1)] by blast
  have sites: "holds V gs' r" if "(C, F, J, D, S) \<in> E'" "r \<in> siteRules V H links walks C J D S" for C F J D S r
    using that E I(5) holds_step [OF step I(1)] by blast
  show ?thesis
    unfolding build_inv_def
  proof (intro conjI allI impI ballI)
    show "holds V gs' r" if "r \<in> G" for r using I(2) that holds_step [OF step I(1)] by blast
    show "hasNode V gs' C w" if "w \<in> globs" for C w using I(3) that hasNode_step [OF step] by blast
    show "dom (ptrMap gs') \<subseteq> ownedKeys own K'" using dom(1) I(6) owned_mono [OF more(1)] new(1) by blast
    show "dom (retPtrMap gs') \<subseteq> K'" using dom(2) I(7) more(1) new(3) by blast
    show "dom (memBlockMap (genMem gs')) \<subseteq> ownedBlocks V own K' E'" using dom(3) I(8) blocks_mono [OF more] new(2) by blast
  qed (use ok' funs sites in blast)+
qed

section \<open>Programs the builder can take\<close>

text \<open>The functions that are walked: those with a body that are no heap allocation.\<close>

definition walked :: "'x builder_view_scheme \<Rightarrow> lang_hooks \<Rightarrow> llvm_value \<Rightarrow> bool" where
  "walked V H R \<longleftrightarrow> expanded V R \<and> \<not> hookHeapAllocAPI H R"

definition builder_program ::
  "'x builder_view_scheme \<Rightarrow> (llvm_value \<Rightarrow> llvm_value option) \<Rightarrow> llvm_value set \<Rightarrow> lang_hooks \<Rightarrow> icpt_fun \<Rightarrow>
     (llvm_value \<Rightarrow> llvm_value \<Rightarrow> bool) \<Rightarrow> link_fun \<Rightarrow> bool" where
  "builder_program V own globs H icpt fits links \<longleftrightarrow> ranked V \<and> owners_ok V own \<and> hooks_ok V H icpt fits links \<and>
     (\<forall>F. expanded V F \<longrightarrow> fun_ok V own globs F) \<and>
     (\<forall>C F I G R opt. walked V H F \<longrightarrow> I \<in> set (bodyOf V F) \<longrightarrow> directCall V I G \<longrightarrow> icpt (ctxEvolve V C I) C G I = (Some R, opt) \<longrightarrow>
        opt \<noteq> IGNORE_FUN \<longrightarrow> classOf (ptaModule V) R = FunctionV \<longrightarrow> site_ok V own globs H fits links (walked V H) F I R) \<and>
     (\<forall>C F I v. walked V H F \<longrightarrow> I \<in> set (bodyOf V F) \<longrightarrow> siteValue V icpt C I v \<longrightarrow> available V globs F (canonOf V (calledValue V I v)))"

lemma builder_programD:
  assumes "builder_program V own globs H icpt fits links"
  shows "ranked V" "owners_ok V own" "hooks_ok V H icpt fits links" "expanded V F \<Longrightarrow> fun_ok V own globs F"
    "walked V H F \<Longrightarrow> I \<in> set (bodyOf V F) \<Longrightarrow> directCall V I G \<Longrightarrow> icpt (ctxEvolve V C I) C G I = (Some R, opt) \<Longrightarrow>
      opt \<noteq> IGNORE_FUN \<Longrightarrow> classOf (ptaModule V) R = FunctionV \<Longrightarrow> site_ok V own globs H fits links (walked V H) F I R"
    "walked V H F \<Longrightarrow> I \<in> set (bodyOf V F) \<Longrightarrow> siteValue V icpt C I v \<Longrightarrow> available V globs F (canonOf V (calledValue V I v))"
  using assms unfolding builder_program_def by blast+

section \<open>The callbacks\<close>

lemma builder_before:
  assumes "hooks_ok V H icpt fits links" and "directCall V I G"
  shows "beforeNewNode (builderCallbacks V H) cur pre G (Some I) gs = Inr (icpt cur pre G I, gs)"
proof -
  obtain r opt where "icpt cur pre G I = (r, opt)" by fastforce
  then show ?thesis
    using hooks_okD(1,2) [OF assms(1,2), of cur pre]
    by (cases "hookHeapAllocAPI H G") (simp_all add: builderCallbacks_def memInterceptFunction_def overrideFunction_def)
qed

lemma builder_new_function:
  assumes prog: "builder_program V own globs H icpt fits links" and inv: "build_inv V own globs G H links (walked V H) K E gs"
    and n: "cnTarget n = DirectFun F False" "(cnCtx n, F) \<notin> K"
  shows "\<exists>gs'. onNewDirect (builderCallbacks V H) n i gs = Inr (expanded V F, gs') \<and>
    build_inv V own globs G H links (walked V H) (insert (cnCtx n, F) K) E gs'"
proof -
  let ?C = "cnCtx n" and ?K = "insert (cnCtx n, F) K"
  note P = builder_programD [OF prog] and J = build_invD [OF inv]
  have call: "onNewDirect (builderCallbacks V H) n i gs = initFunction V ?C F gs" by (simp add: builderCallbacks_def getTargetFun_def n(1))
  show ?thesis
  proof (cases "expanded V F")
    case True
    have "ptrMap gs (?C, v) = None \<and> memBlockMap (genMem gs) (?C, v) = None" if "own v = Some F" for v
    proof -
      have "(?C, v) \<notin> ownedKeys own K" "(?C, v) \<notin> ownedBlocks V own K E" using that n(2) by (auto simp: ownedKeys_def ownedBlocks_def)
      then show ?thesis using J(6,8) by blast
    qed
    then have "unseen own F {} ?C gs" by (simp add: unseen_def)
    moreover have "retPtrMap gs (?C, F) = None" using J(7) n(2) by blast
    ultimately obtain gs' where g: "initFunction V ?C F gs = Inr (True, gs')"
      "gen_step V (keysOf V ?C (nodesOf V F)) ({?C} \<times> allocasIn V (bodyOf V F)) {(?C, F)} gs gs'" "fun_done V ?C F gs'"
      using initFunction_ok [OF P(1) J(1) P(4) [OF True] _ _ _ True] J(3) by blast
    have "build_inv V own globs G H links (walked V H) ?K E gs'"
    proof (rule build_inv_step [OF inv g(2)])
      show "keysOf V ?C (nodesOf V F) \<subseteq> ownedKeys own ?K"
        using owned_key [OF P(2) nodes_owned [OF P(4) [OF True]]] by (auto simp: keysOf_def)
      have body: "body_ok V own F (set (pointerArgs V F) \<union> globs) (bodyOf V F)" using P(4) [OF True] by (simp add: fun_ok_def)
      show "{?C} \<times> allocasIn V (bodyOf V F) \<subseteq> ownedBlocks V own ?K E"
        using body_allocas [OF body] by (auto simp: ownedBlocks_def allocasIn_def)
    qed (use g(3) in auto)
    then show ?thesis using call g(1) True by simp
  next
    case False
    have "build_inv V own globs G H links (walked V H) ?K E gs"
      by (rule build_inv_step [OF inv gen_step_refl [OF J(1)], where A = "{}" and B = "{}" and R = "{}"]) (use False in \<open>auto simp: walked_def\<close>)
    then show ?thesis using call False by (simp add: initFunction_ignored)
  qed
qed

lemma builder_new_call:
  assumes prog: "builder_program V own globs H icpt fits links" and inv: "build_inv V own globs G H links (walked V H) K E gs"
    and n: "cnTarget n = DirectFun F False" "walkedSite V (walked V H) K (cnCtx n) F I" and direct: "directCall V I T"
    and icpt: "icpt (ctxEvolve V (cnCtx n) I) (cnCtx n) T I = (Some R, opt)" "opt \<noteq> IGNORE_FUN" "classOf (ptaModule V) R = FunctionV"
    and m: "cnTarget m = DirectFun R (\<not> walked V H R)" "cnCtx m = ctxEvolve V (cnCtx n) I" "(cnCtx m, R) \<in> K"
    and new: "\<And>C' R'. (cnCtx n, F, I, C', R') \<notin> E"
  shows "\<exists>gs'. onNewEdge (builderCallbacks V H) n m (Some T) I gs = Inr gs' \<and>
    build_inv V own globs G H links (walked V H) K (insert (cnCtx n, F, I, cnCtx m, R) E) gs'"
proof -
  let ?C = "cnCtx n" and ?E = "insert (cnCtx n, F, I, cnCtx m, R) E"
  note P = builder_programD [OF prog] and J = build_invD [OF inv]
  from n(2) have here: "(?C, F) \<in> K" "walked V H F" "I \<in> set (bodyOf V F)" by (simp_all add: walkedSite_def)
  have site: "site_ok V own globs H fits links (walked V H) F I R" by (rule P(5) [OF here(2,3) direct icpt])
  have none: "memBlockMap (genMem gs) (?C, I) = None" if "heap_site V own globs F I"
  proof -
    have "(?C, I) \<notin> ownedBlocks V own K E" using that new by (auto simp: ownedBlocks_def heap_site_def)
    then show ?thesis using J(8) by blast
  qed
  from processCallSite_ok [OF P(1-3) J(1) site direct m(2) J(4) [OF here(1,2)] here(1) J(4) [OF m(3)] m(3) J(3) _ none] obtain gs' where
    g: "processCallSite V H ?C F (cnCtx m) (R, \<not> walked V H R) (Some T) I gs = Inr gs'"
      "gen_step V (ownedKeys own K) (if hookHeapAllocAPI H R then {(?C, I)} else {}) {} gs gs'"
      "\<forall>r \<in> siteRules V H links (walked V H) ?C I (cnCtx m) R. holds V gs' r" by (auto simp: walked_def)
  have "build_inv V own globs G H links (walked V H) K ?E gs'"
  proof (rule build_inv_step [OF inv g(2)])
    show "(if hookHeapAllocAPI H R then {(?C, I)} else {}) \<subseteq> ownedBlocks V own K ?E"
    proof (cases "hookHeapAllocAPI H R")
      case True
      then have "own I = Some F" using site by (simp add: site_ok_def heap_site_def)
      moreover have "(?C, F, I, cnCtx m, R) \<in> ?E" by blast
      ultimately show ?thesis using here(1) True unfolding ownedBlocks_def by auto
    qed simp
  qed (use g(3) in auto)
  moreover have "onNewEdge (builderCallbacks V H) n m (Some T) I gs = Inr gs'"
    using g(1) by (simp add: builderCallbacks_def onCallEdge_def isIndirectNode_def getTargetFun_def n(1) m(1))
  ultimately show ?thesis by blast
qed

lemma builder_client_ok:
  assumes prog: "builder_program V own globs H icpt fits links"
  shows "client_ok V (builderCallbacks V H) icpt (expanded V) (walked V H) (build_inv V own globs G H links (walked V H))"
proof -
  note P = builder_programD [OF prog]
  let ?P = "build_inv V own globs G H links (walked V H)"
  have indirect: "\<exists>s'. onNewInDirect (builderCallbacks V H) (siteNode C I v) i s = Inr s' \<and> ?P K E s'"
    if inv: "?P K E s" and site: "walkedSite V (walked V H) K C F I" "siteValue V icpt C I v" for K E s C F I v i
  proof -
    note J = build_invD [OF inv]
    from site(1) have here: "(C, F) \<in> K" "walked V H F" "I \<in> set (bodyOf V F)" by (simp_all add: walkedSite_def)
    have "hasNode V s C (canonOf V (calledValue V I v))"
      using available_node [OF P(6) [OF here(2,3) site(2)] J(4) [OF here(1,2)]] J(3) by blast
    from initIndirectCall_ok [OF P(1) J(1) this] obtain s' where
      s': "initIndirectCall V (siteNode C I v) i s = Inr s'" "gen_step V {} {} {} s s'" by blast
    have "?P K E s'" by (rule build_inv_step [OF inv s'(2)]) simp_all
    then show ?thesis using s'(1) by (simp add: builderCallbacks_def)
  qed
  have more: "?P (insert k K) E s" if inv: "?P K E s" and k: "\<not> walked V H (snd k)" for K E s k
    by (rule build_inv_step [OF inv gen_step_refl [OF build_invD(1) [OF inv]], where A = "{}" and B = "{}" and R = "{}"]) (use k in auto)
  have edge: "onNewEdge (builderCallbacks V H) n m f I s = Inr s" if "isIndirectNode m" for n m f I s
    using that by (simp add: builderCallbacks_def onCallEdge_def)
  show ?thesis
    unfolding client_ok_def
  proof (intro conjI allI impI)
    show "\<exists>s'. beforeNewNode (builderCallbacks V H) (ctxEvolve V C I) C G' (Some I) s = Inr (icpt (ctxEvolve V C I) C G' I, s') \<and> ?P K E s'"
      if "?P K E s" "directCall V I G'" for K E s C I G' using builder_before [OF P(3) that(2)] that(1) by blast
    show "\<exists>s'. onNewInDirect (builderCallbacks V H) (siteNode C I v) i s = Inr s' \<and> ?P K E s'"
      if "?P K E s" "walkedSite V (walked V H) K C F I" "siteValue V icpt C I v" for K E s C F I v i by (rule indirect [OF that])
    show "\<exists>s'. onNewEdge (builderCallbacks V H) n m (Some T) I s = Inr s' \<and> ?P K (insert (cnCtx n, F, I, cnCtx m, R) E) s'"
      if "?P K E s" "cnTarget n = DirectFun F False" "walkedSite V (walked V H) K (cnCtx n) F I" "directCall V I T"
        "icpt (ctxEvolve V (cnCtx n) I) (cnCtx n) T I = (Some R, opt)" "opt \<noteq> IGNORE_FUN" "classOf (ptaModule V) R = FunctionV"
        "cnTarget m = DirectFun R (\<not> walked V H R)" "cnCtx m = ctxEvolve V (cnCtx n) I" "(cnCtx m, R) \<in> K"
        "\<forall>C' R'. (cnCtx n, F, I, C', R') \<notin> E" for K E s n m I F T R opt
      by (rule builder_new_call [OF prog that(1-10)]) (use that(11) in blast)
    show "?P (insert k K) E s" if "?P K E s" "\<not> walked V H (snd k)" for K E s k by (rule more [OF that])
  qed (use builder_new_function [OF prog] edge in blast)+
qed

end
