(* ===== verification/GenStart.thy ===== *)
theory GenStart
  imports GenClient
begin

text \<open>
  The start of the builder: the null and the universal pointer, the objects and pointers of globals and functions,
  and the objects the arguments of the entry point to.
\<close>

section \<open>The new builder\<close>

lemma flat_empty: "flat emptyGraph"
  by (simp add: flat_def emptyGraph_def getNodeNum_def)

lemma builder_starts:
  assumes rk: "ranked V"
  shows "\<exists>gs. newBuilder V = Inr gs \<and> gen_ok V gs \<and> dom (ptrMap gs) = {GlobCtx} \<times> {nullValue (memEnv V), undefValue (memEnv V)} \<and>
    retPtrMap gs = Map.empty \<and> dom (memBlockMap (genMem gs)) \<subseteq> {GlobCtx} \<times> {nullValue (memEnv V), undefValue (memEnv V)}"
proof -
  let ?E = "memEnv V" and ?n = "nullValue (memEnv V)" and ?u = "undefValue (memEnv V)"
  have diff: "?n \<noteq> ?u" using rk by (simp add: ranked_def)
  define mem where "mem = fst (allocState newGenState)"
  have start: "allocState newGenState = (mem, emptyGraph, [])" by (simp add: mem_def newGenState_def emptyGraph_def)
  have mem0: "alloc_ok ?E (mem, emptyGraph, [])" "memBlockMap mem = Map.empty"
    using empty_wf mgr_reach_ok [OF mgr_reach.start] by (simp_all add: mem_def newGenState_def alloc_ok_def mem_ok_def emptyGraph_def)
  have num0: "getNodeNum emptyGraph = 0" by (simp add: emptyGraph_def getNodeNum_def)
  from new_pointer_grows [OF empty_wf, of "Some ?n"] obtain g1 where
    g1: "addPtrNode (Some ?n) (emptyGraph, []) = Inr (0, g1, [[]])" "graph_wf (g1, [[]])" "nodes_grow emptyGraph g1" "getNodeNum g1 = 1"
      "cgKind (cgNode g1 0) = PtrNode (Some ?n)" "objVec g1 = objVec emptyGraph" "\<And>k s d. edge g1 k s d \<longleftrightarrow> edge emptyGraph k s d"
    unfolding num0 by auto
  from new_pointer_grows [OF g1(2), of "Some ?u"] obtain g2 where
    g2: "addPtrNode (Some ?u) (g1, [[]]) = Inr (1, g2, [[], []])" "graph_wf (g2, [[], []])" "nodes_grow g1 g2" "getNodeNum g2 = 2"
      "cgKind (cgNode g2 1) = PtrNode (Some ?u)" "objVec g2 = objVec g1" "\<And>k s d. edge g2 k s d \<longleftrightarrow> edge g1 k s d"
    unfolding g1(4) by auto
  define gs where "gs = newGenState\<lparr> allocState := (mem, g2, [[], []]), ptrMap := [(GlobCtx, ?n) \<mapsto> 0, (GlobCtx, ?u) \<mapsto> 1], nullPtrNode := 0, uniPtrNode := 1 \<rparr>"
  have init: "initPtrNodes V newGenState = Inr gs"
    using g1(1) g2(1) diff by (simp add: initPtrNodes_def newPtrNode_def addNode_def start gs_def) (simp add: newGenState_def)
  have gs: "genGraph gs = g2" "allocState gs = (mem, g2, [[], []])" "ptrMap gs = [(GlobCtx, ?n) \<mapsto> 0, (GlobCtx, ?u) \<mapsto> 1]" "retPtrMap gs = Map.empty"
    "nullPtrNode gs = 0" "uniPtrNode gs = 1" by (simp_all add: gs_def genGraph_def newGenState_def)
  have kind: "cgKind (cgNode g2 0) = PtrNode (Some ?n)" using nodes_growD(3) [OF g2(3), of 0] g1(4,5) by simp
  have "alloc_ok ?E (mem, g2, [[], []])" using mem0(1) g2(2) g1(6) g2(6) by (simp add: alloc_ok_def)
  moreover have "flat g2" by (rule flat_grows [OF flat_grows [OF flat_empty g1(3)] g2(3)])
  moreover have "tables_ok V gs"
    unfolding tables_ok_def gs using diff kind g2(4,5) by (auto split: if_splits)
  moreover have "flow_ok V gs" by (simp add: flow_ok_def gs g1(7) g2(7)) (simp add: edge_def num0)
  ultimately have ok: "gen_ok V gs" by (simp add: gen_ok_def gs)
  have "fresh_key mem GlobCtx (Some ?n) ANull" by (simp add: fresh_key_def mem0(2))
  from single_object_ok(1) [OF gen_okD(1) [OF ok, unfolded gs(2)] this] obtain n1 st1 where
    a1: "allocNullObj ?E (allocState gs) = Inr (n1, st1)" "allocates ?E GlobCtx (Some ?n) ANull (mem, g2, [[], []]) n1 st1"
    by (auto simp: allocNullObj_def gs(2))
  let ?gs1 = "gs\<lparr> allocState := st1 \<rparr>"
  have s1: "gen_step V {} {(GlobCtx, ?n)} {} gs ?gs1" using gen_allocates(1) [OF ok gs(2) a1(2)] by simp
  obtain mem1 r1 where st1: "st1 = (mem1, r1)" by (cases st1)
  have "dom (memBlockMap mem1) \<subseteq> {(GlobCtx, ?n)}" using s1 mem0(2) by (auto simp: gen_step_def gs(2) st1)
  then have "memBlockMap mem1 (GlobCtx, ?u) = None" using diff by auto
  then have "fresh_key mem1 GlobCtx (Some ?u) AUniversal" by (simp add: fresh_key_def)
  moreover obtain g3 p3 where r1: "r1 = (g3, p3)" by (cases r1)
  ultimately obtain n2 st2 where
    a2: "allocUniObj ?E st1 = Inr (n2, st2)" "allocates ?E GlobCtx (Some ?u) AUniversal st1 n2 st2"
    using single_object_ok(1) [of ?E mem1 g3 p3 GlobCtx "Some ?u" AUniversal] gen_okD(1) [OF gen_stepD(1) [OF s1]]
    by (auto simp: allocUniObj_def st1)
  have "gen_step V {} {(GlobCtx, ?u)} {} ?gs1 (?gs1\<lparr> allocState := st2 \<rparr>)"
    using gen_allocates(1) [OF gen_stepD(1) [OF s1] _ a2(2)] by simp
  then have s2: "gen_step V {} {(GlobCtx, ?u)} {} ?gs1 (gs\<lparr> allocState := st2 \<rparr>)" by simp
  have "dom (memBlockMap (fst st2)) \<subseteq> dom (memBlockMap mem1) \<union> {(GlobCtx, ?u)}" using s2 by (simp add: gen_step_def st1)
  then have "dom (memBlockMap (genMem (gs\<lparr> allocState := st2 \<rparr>))) \<subseteq> {GlobCtx} \<times> {?n, ?u}"
    using \<open>dom (memBlockMap mem1) \<subseteq> {(GlobCtx, ?n)}\<close> by (simp add: subset_eq) blast
  moreover have "newBuilder V = Inr (gs\<lparr> allocState := st2 \<rparr>)" using init a1(1) a2(1) by (simp add: newBuilder_def)
  ultimately show ?thesis using gen_stepD(1) [OF s2] diff by (auto simp: gs(3,4))
qed

section \<open>Globals and functions\<close>

text \<open>What a program says of its globals and functions: each points to an object of its own.\<close>

definition globalRules :: "llvm_value list \<Rightarrow> gen_rule set" where
  "globalRules gvs = (\<lambda>g. (CAddrOf, ObjOf GlobCtx g, PtrOf GlobCtx g)) ` set gvs"

definition global_value :: "'x value_view_scheme \<Rightarrow> llvm_value \<Rightarrow> bool" where
  "global_value V g \<longleftrightarrow> canonOf V g = g \<and> isGlobalValue V g \<and> \<not> specialValue V g"

lemma global_key: "global_value V g \<Longrightarrow> ptrKey V C (canonOf V g) = (GlobCtx, g)"
  by (simp add: global_value_def ptrKey_def)

definition unknown_globals :: "llvm_value set \<Rightarrow> gen_state \<Rightarrow> bool" where
  "unknown_globals X gs \<longleftrightarrow> (\<forall>g \<in> X. ptrMap gs (GlobCtx, g) = None \<and> memBlockMap (genMem gs) (GlobCtx, g) = None)"

text \<open>An object, a pointer and the edge between them, as for a stack slot.\<close>

lemma address_ok:
  assumes rk: "ranked V" and ok: "gen_ok V gs" and g: "global_value V g" and new: "unknown_globals {g} gs"
    and a: "alloc (allocState gs) = Inr (n, st)" "allocates (memEnv V) GlobCtx (Some g) T (allocState gs) n st" and T: "T \<noteq> AAnonymous"
  shows "\<exists>gs'. rbind (alloc (allocState gs)) (\<lambda>(obj, st). rbind (createPtrNode V GlobCtx g (gs\<lparr> allocState := st \<rparr>)) (\<lambda>(ptr, gs). addEdge obj ptr CAddrOf gs)) = Inr gs' \<and>
    gen_step V {(GlobCtx, g)} {(GlobCtx, g)} {} gs gs' \<and> (\<forall>C. hasNode V gs' C g) \<and> holds V gs' (CAddrOf, ObjOf GlobCtx g, PtrOf GlobCtx g)"
proof -
  let ?gs = "gs\<lparr> allocState := st \<rparr>" and ?A = "{(GlobCtx, g)}"
  have g': "canonOf V g = g" "\<not> specialValue V g" using g by (simp_all add: global_value_def)
  note s1 = gen_allocates(1) [OF ok refl a(2), of ?A "{}", simplified]
  have "ptrMap ?gs (GlobCtx, g) = None" using new by (simp add: unknown_globals_def)
  then have new1: "ptrMap ?gs (ptrKey V GlobCtx (canonOf V g)) = None" by (simp only: global_key [OF g])
  have plain: "canonOf V g \<noteq> nullValue (memEnv V)" "canonOf V g \<noteq> undefValue (memEnv V)" using g' by (simp_all add: specialValue_def)
  from createPtrNode_ok [OF rk gen_stepD(1) [OF s1] plain new1, of ?A "{}"] obtain m gs2 where
    m: "createPtrNode V GlobCtx g ?gs = Inr (m, gs2)" "gen_step V {ptrKey V GlobCtx (canonOf V g)} ?A {} ?gs gs2" "ptrNode V gs2 GlobCtx g = Some m" by blast
  have s2: "gen_step V ?A ?A {} ?gs gs2" using m(2) by (simp only: global_key [OF g])
  have obj: "placeAt V ?gs (ObjOf GlobCtx g) n"
    using a(2) T by (auto simp: placeAt_def allocates_def newKey_def genGraph_def split: prod.splits)
  have ptr: "placeAt V gs2 (PtrOf GlobCtx g) m" using m(3) by (simp add: placeAt_def)
  have fits: "rule_fits V (CAddrOf, ObjOf GlobCtx g, PtrOf GlobCtx g)" by (simp add: rule_fits_def)
  from add_rule [OF gen_stepD(1) [OF s2] placeAt_step [OF s2 gen_stepD(1) [OF s1] obj] ptr fits] obtain gs' where
    e: "addEdge n m CAddrOf gs2 = Inr gs'" "gen_step V ?A ?A {} gs2 gs'" "holds V gs' (CAddrOf, ObjOf GlobCtx g, PtrOf GlobCtx g)" by blast
  have "gen_step V ?A ?A {} gs gs'" by (rule gen_step_trans [OF gen_step_trans [OF s1 s2] e(2)])
  moreover have "hasNode V gs' C g" for C
  proof -
    have "hasNode V gs2 GlobCtx g" using m(3) g'(1) hasNode_iff [of V gs2 GlobCtx g] by simp
    then have "hasNode V gs' GlobCtx g" by (rule hasNode_step [OF e(2)])
    then show ?thesis using g by (simp add: hasNode_def ptrKey_def global_value_def)
  qed
  ultimately show ?thesis using a(1) m(1) e(1,3) by simp
qed

definition global_var_ok :: "'x value_view_scheme \<Rightarrow> llvm_value \<Rightarrow> bool" where
  "global_var_ok V g \<longleftrightarrow> global_value V g \<and> alloc_type_ok (memEnv V) (pointeeType (memEnv V) g) \<and> \<not> keepsArrays (memEnv V) (Some g) AGlobals"

lemma addGlobal_ok:
  assumes rk: "ranked V" and ok: "gen_ok V gs" and new: "unknown_globals {g} gs"
  shows "global_var_ok V g \<Longrightarrow> \<exists>gs'. addGlobalVariable V g gs = Inr gs' \<and> gen_step V {(GlobCtx, g)} {(GlobCtx, g)} {} gs gs' \<and>
      (\<forall>C. hasNode V gs' C g) \<and> holds V gs' (CAddrOf, ObjOf GlobCtx g, PtrOf GlobCtx g)"
    and "global_value V g \<Longrightarrow> \<exists>gs'. addFunction V g gs = Inr gs' \<and> gen_step V {(GlobCtx, g)} {(GlobCtx, g)} {} gs gs' \<and>
      (\<forall>C. hasNode V gs' C g) \<and> holds V gs' (CAddrOf, ObjOf GlobCtx g, PtrOf GlobCtx g)"
proof -
  obtain mem cg p where st: "allocState gs = (mem, cg, p)" by (cases "allocState gs") auto
  have a: "alloc_ok (memEnv V) (mem, cg, p)" using gen_okD(1) [OF ok] by (simp add: st)
  have key: "fresh_key mem GlobCtx (Some g) T" for T using new by (simp add: unknown_globals_def fresh_key_def st)
  {
    assume g: "global_var_ok V g"
    then have t: "alloc_type_ok (memEnv V) (pointeeType (memEnv V) g)" "\<not> keepsArrays (memEnv V) (Some g) AGlobals" and gv: "global_value V g"
      by (simp_all add: global_var_ok_def)
    from value_object_ok [OF a key t] obtain n s' where
      n: "allocGlobalVariable (memEnv V) g (allocState gs) = Inr (n, s')" "allocates (memEnv V) GlobCtx (Some g) AGlobals (allocState gs) n s'"
      unfolding allocGlobalVariable_def st by blast
    show "\<exists>gs'. addGlobalVariable V g gs = Inr gs' \<and> gen_step V {(GlobCtx, g)} {(GlobCtx, g)} {} gs gs' \<and>
      (\<forall>C. hasNode V gs' C g) \<and> holds V gs' (CAddrOf, ObjOf GlobCtx g, PtrOf GlobCtx g)"
      unfolding addGlobalVariable_def by (rule address_ok [where alloc = "allocGlobalVariable (memEnv V) g", OF rk ok gv new n]) simp
  next
    assume gv: "global_value V g"
    from single_object_ok(2) [OF a key] obtain n s' where
      n: "allocFunction g (allocState gs) = Inr (n, s')" "allocates (memEnv V) GlobCtx (Some g) AFunctions (allocState gs) n s'"
      unfolding allocFunction_def st by blast
    show "\<exists>gs'. addFunction V g gs = Inr gs' \<and> gen_step V {(GlobCtx, g)} {(GlobCtx, g)} {} gs gs' \<and>
      (\<forall>C. hasNode V gs' C g) \<and> holds V gs' (CAddrOf, ObjOf GlobCtx g, PtrOf GlobCtx g)"
      unfolding addFunction_def by (rule address_ok [where alloc = "allocFunction g", OF rk ok gv new n]) simp
  }
qed

lemma globals_fold:
  assumes step: "\<And>g gs. g \<in> set gvs \<Longrightarrow> gen_ok V gs \<Longrightarrow> unknown_globals {g} gs \<Longrightarrow> \<exists>gs'. add g gs = Inr gs' \<and>
      gen_step V {(GlobCtx, g)} {(GlobCtx, g)} {} gs gs' \<and> (\<forall>C. hasNode V gs' C g) \<and> holds V gs' (CAddrOf, ObjOf GlobCtx g, PtrOf GlobCtx g)"
    and "gen_ok V gs" and "unknown_globals (set gvs) gs" and "distinct gvs"
  shows "\<exists>gs'. rfold add gvs gs = Inr gs' \<and> gen_step V ({GlobCtx} \<times> set gvs) ({GlobCtx} \<times> set gvs) {} gs gs' \<and>
    (\<forall>C. \<forall>g \<in> set gvs. hasNode V gs' C g) \<and> (\<forall>r \<in> globalRules gvs. holds V gs' r)"
  using assms
proof (induction gvs arbitrary: gs)
  case Nil
  then show ?case by (auto simp: globalRules_def intro: gen_step_refl)
next
  case (Cons g gvs)
  have "unknown_globals {g} gs" using Cons.prems(3) by (simp add: unknown_globals_def)
  from Cons.prems(1) [OF _ Cons.prems(2) this] obtain gs1 where
    g: "add g gs = Inr gs1" "gen_step V {(GlobCtx, g)} {(GlobCtx, g)} {} gs gs1" "\<forall>C. hasNode V gs1 C g"
      "holds V gs1 (CAddrOf, ObjOf GlobCtx g, PtrOf GlobCtx g)" by auto
  note ok1 = gen_stepD(1) [OF g(2)]
  have "ptrMap gs1 (GlobCtx, h) = None \<and> memBlockMap (genMem gs1) (GlobCtx, h) = None" if "h \<in> set gvs" for h
  proof -
    have "ptrMap gs (GlobCtx, h) = None" "memBlockMap (genMem gs) (GlobCtx, h) = None" "h \<noteq> g"
      using Cons.prems(3,4) that by (auto simp: unknown_globals_def)
    then show ?thesis using gen_stepD(6,8) [OF g(2), of "(GlobCtx, h)"] by fastforce
  qed
  then have new: "unknown_globals (set gvs) gs1" by (simp add: unknown_globals_def)
  have "distinct gvs" using Cons.prems(4) by simp
  from Cons.IH [OF Cons.prems(1) ok1 new this] obtain gs' where
    r: "rfold add gvs gs1 = Inr gs'" "gen_step V ({GlobCtx} \<times> set gvs) ({GlobCtx} \<times> set gvs) {} gs1 gs'"
      "\<forall>C. \<forall>g \<in> set gvs. hasNode V gs' C g" "\<forall>r \<in> globalRules gvs. holds V gs' r" by auto
  let ?A = "{GlobCtx} \<times> set (g # gvs)"
  have "gen_step V ?A ?A {} gs gs1" by (rule gen_step_mono [OF g(2)]) auto
  moreover have "gen_step V ?A ?A {} gs1 gs'" by (rule gen_step_mono [OF r(2)]) auto
  ultimately have "gen_step V ?A ?A {} gs gs'" by (rule gen_step_trans)
  then show ?case using g(1,3) r(1,3,4) hasNode_step [OF r(2)] holds_step [OF r(2) ok1 g(4)] by (auto simp: globalRules_def)
qed

lemma addGlobals_ok:
  assumes rk: "ranked V" and ok: "gen_ok V gs" and vars: "\<forall>g \<in> set globals. global_var_ok V g"
    and funs: "\<forall>f \<in> set (getFunctionList (ptaModule V)). global_value V f"
    and dist: "distinct (globals @ getFunctionList (ptaModule V))" and new: "unknown_globals (set (globals @ getFunctionList (ptaModule V))) gs"
  shows "\<exists>gs'. addGlobals V globals gs = Inr gs' \<and>
    gen_step V ({GlobCtx} \<times> set (globals @ getFunctionList (ptaModule V))) ({GlobCtx} \<times> set (globals @ getFunctionList (ptaModule V))) {} gs gs' \<and>
    (\<forall>C. \<forall>g \<in> set (globals @ getFunctionList (ptaModule V)). hasNode V gs' C g) \<and>
    (\<forall>r \<in> globalRules (globals @ getFunctionList (ptaModule V)). holds V gs' r)"
proof -
  let ?fs = "getFunctionList (ptaModule V)"
  have "unknown_globals (set globals) gs" "distinct globals" using new dist by (simp_all add: unknown_globals_def)
  from globals_fold [OF _ ok this, where add = "addGlobalVariable V"] addGlobal_ok(1) [OF rk] vars obtain gs1 where
    a: "rfold (addGlobalVariable V) globals gs = Inr gs1" "gen_step V ({GlobCtx} \<times> set globals) ({GlobCtx} \<times> set globals) {} gs gs1"
      "\<forall>C. \<forall>g \<in> set globals. hasNode V gs1 C g" "\<forall>r \<in> globalRules globals. holds V gs1 r" by auto
  note ok1 = gen_stepD(1) [OF a(2)]
  have "ptrMap gs1 (GlobCtx, h) = None \<and> memBlockMap (genMem gs1) (GlobCtx, h) = None" if "h \<in> set ?fs" for h
  proof -
    have "ptrMap gs (GlobCtx, h) = None" "memBlockMap (genMem gs) (GlobCtx, h) = None" "h \<notin> set globals"
      using new dist that by (auto simp: unknown_globals_def)
    then show ?thesis using gen_stepD(6,8) [OF a(2), of "(GlobCtx, h)"] by fastforce
  qed
  then have "unknown_globals (set ?fs) gs1" by (simp add: unknown_globals_def)
  moreover have "distinct ?fs" using dist by simp
  moreover note globals_fold [where add = "addFunction V" and V = V and gvs = ?fs, OF _ ok1]
  moreover have "\<exists>gs'. addFunction V g gs = Inr gs' \<and> gen_step V {(GlobCtx, g)} {(GlobCtx, g)} {} gs gs' \<and>
      (\<forall>C. hasNode V gs' C g) \<and> holds V gs' (CAddrOf, ObjOf GlobCtx g, PtrOf GlobCtx g)"
    if "g \<in> set ?fs" "gen_ok V gs" "unknown_globals {g} gs" for g gs
    by (rule addGlobal_ok(2) [OF rk that(2,3)]) (use funs that(1) in blast)
  ultimately obtain gs' where
    f: "rfold (addFunction V) ?fs gs1 = Inr gs'" "gen_step V ({GlobCtx} \<times> set ?fs) ({GlobCtx} \<times> set ?fs) {} gs1 gs'"
      "\<forall>C. \<forall>g \<in> set ?fs. hasNode V gs' C g" "\<forall>r \<in> globalRules ?fs. holds V gs' r"
    by blast
  let ?A = "{GlobCtx} \<times> set (globals @ ?fs)"
  have "gen_step V ?A ?A {} gs gs1" by (rule gen_step_mono [OF a(2)]) auto
  moreover have "gen_step V ?A ?A {} gs1 gs'" by (rule gen_step_mono [OF f(2)]) auto
  ultimately have "gen_step V ?A ?A {} gs gs'" by (rule gen_step_trans)
  moreover have "addGlobals V globals gs = Inr gs'" using a(1) f(1) by (simp add: addGlobals_def)
  ultimately show ?thesis using a(3,4) f(3,4) hasNode_step [OF f(2)] holds_step [OF f(2) ok1] by (auto simp: globalRules_def)
qed

end
