(* ===== verification/GenInit.thy ===== *)
theory GenInit
  imports GenStart AllocProps
begin

text \<open>
  The last steps before the call graph: initialisers without pointers, which make the objects of constants immutable,
  and the objects that the arguments of the entry point to.
\<close>

section \<open>Immutable objects\<close>

text \<open>Only its own address flows into an object, so it can be made immutable.\<close>

lemma object_edges:
  assumes ok: "gen_ok V gs" and e: "edge (genGraph gs) k s d" and d: "isObjKind (cgKind (cgNode (genGraph gs) d))"
  shows "k = CCopy \<and> addrNode (genGraph gs) s"
proof -
  have fits: "edge_fits V gs k s d" using gen_okD(4) [OF ok] e by (simp add: flow_ok_def)
  have "cgKind (cgNode (genGraph gs) d) \<noteq> PtrNode x" for x using d by (auto simp: isObjKind_def)
  then have "ptrMap gs key \<noteq> Some d" "retPtrMap gs key \<noteq> Some d" for key using tables_okD(3,4) [OF gen_okD(3) [OF ok]] by blast+
  moreover have "\<not> addrNode (genGraph gs) d" using cg_okD(3) [OF gen_okD(6) [OF ok]] d by (auto simp: addrNode_def objs_ok_def isObjKind_def)
  ultimately show ?thesis using fits by (auto simp: edge_fits_def split: constraints.splits)
qed

lemma setImmutable_ok:
  assumes ok: "gen_ok V gs" and st: "allocState gs = (mem, g, p)" and n: "n < getNodeNum g" "isObjKind (cgKind (cgNode g n))"
  shows "graph_wf (setImmutable n g, p)" and "nodes_grow g (setImmutable n g)" and "addr_only g (setImmutable n g)" and "objVec (setImmutable n g) = objVec g"
proof -
  have g: "genGraph gs = g" "genPts gs = p" using st by (simp_all add: genGraph_def genPts_def)
  note wf = gen_okD(5) [OF ok, unfolded g] and cg = gen_okD(6) [OF ok, unfolded g]
  have "\<not> hasSuperNode g n" "\<forall>m < getNodeNum g. superNode (cgNode g m) \<noteq> Some n" using gen_okD(2) [OF ok] n(1) by (simp_all add: g flat_def hasSuperNode_def)
  moreover have "\<not> addrNode g n" using cg_okD(3) [OF cg] n(2) by (auto simp: addrNode_def objs_ok_def isObjKind_def)
  moreover have "k = CCopy \<and> addrNode g m" if "m \<in> set (predCons (cgNode g n) k)" for k m
  proof -
    have "edge g k m n" using that cg_okD(1) [OF cg] n(1) unfolding edges_ok_def by blast
    then show ?thesis using object_edges [OF ok, unfolded g] n(2) by blast
  qed
  ultimately have allowed: "opAllowed (Freeze n) (g, p)" using n(1) by auto
  have step: "cgStep (Freeze n) (g, p) = Inr (setImmutable n g, p)" by simp
  show "graph_wf (setImmutable n g, p)" using cgStep_ok [OF wf allowed] step by auto
  show "nodes_grow g (setImmutable n g)" "addr_only g (setImmutable n g)" using freeze_grows(1,2) [OF wf allowed step n(2)] by blast+
  show "objVec (setImmutable n g) = objVec g" by (simp add: setImmutable_def updNode_def)
qed

lemma setObjImmutable_ok:
  assumes ok: "gen_ok V gs" and st: "allocState gs = (mem, g, p)" and obj: "obj < length (fsObjs mem)"
    and new: "setObjImmutable obj (mem, g) = (mem', g')"
  shows "gen_step V A B R gs (gs\<lparr> allocState := (mem', g', p) \<rparr>)" and "length (fsObjs mem') = length (fsObjs mem)"
proof -
  have a: "alloc_ok (memEnv V) (mem, g, p)" using gen_okD(1) [OF ok] by (simp add: st)
  then have nodes: "map objNode (fsObjs mem) = map Some (objVec g)" and mem: "mem_ok (envDL (memEnv V)) (envSp (memEnv V)) mem"
    and mgr: "mgr_ok (envDL (memEnv V)) (envSp (memEnv V)) (layoutManager mem)" by (simp_all add: alloc_ok_def)
  have len: "length (fsObjs mem) = length (objVec g)" using nodes map_eq_imp_length_eq by blast
  then have node: "objNode (fsObjs mem ! obj) = Some (objVec g ! obj)" using nodes obj by (metis nth_map)
  have cg: "cg_ok g" using gen_okD(6) [OF ok] by (simp add: st genGraph_def)
  then have n: "objVec g ! obj < getNodeNum g" "isObjKind (cgKind (cgNode g (objVec g ! obj)))"
    using cg_okD(3) obj len by (auto simp: objs_ok_def isObjKind_def dest: Suc_lessD)
  have mem': "mem' = updObj obj (\<lambda>x. x\<lparr> objImmutable := True \<rparr>) mem" and g': "g' = setImmutable (objVec g ! obj) g"
    using new node by (simp_all add: setObjImmutable_def)
  have same: "fsBlocks mem' = fsBlocks mem" "memBlockMap mem' = memBlockMap mem" "layoutManager mem' = layoutManager mem"
    "length (fsObjs mem') = length (fsObjs mem)" by (simp_all add: mem' updObj_def)
  have at: "objBlock (fsObjs mem' ! i) = objBlock (fsObjs mem ! i)" "objOffset (fsObjs mem' ! i) = objOffset (fsObjs mem ! i)"
    "objNode (fsObjs mem' ! i) = objNode (fsObjs mem ! i)" if "i < length (fsObjs mem)" for i
    using that obj by (auto simp: mem' updObj_def nth_list_update)
  note S = setImmutable_ok [OF ok st n]
  have "block_ok DL sp (fsObjs mem') b X" if "block_ok DL sp (fsObjs mem) b X" for DL sp b X
    using that at same(4) unfolding block_ok_def by auto
  then have "mem_ok (envDL (memEnv V)) (envSp (memEnv V)) mem'" using mem at(1) unfolding mem_ok_def same by simp
  moreover have "map objNode (fsObjs mem') = map objNode (fsObjs mem)" using at(3) same(4) by (intro nth_equalityI) simp_all
  ultimately have "alloc_ok (memEnv V) (mem', g', p)" using S(1,4) nodes mgr by (simp add: alloc_ok_def same g')
  moreover have "mem_keeps mem mem'" using same at(1) by (simp add: mem_keeps_def)
  ultimately show "gen_step V A B R gs (gs\<lparr> allocState := (mem', g', p) \<rparr>)" using S(2,3) same(2) by (intro gen_memory [OF ok st]) (auto simp: g')
  show "length (fsObjs mem') = length (fsObjs mem)" by (rule same)
qed

lemma freeze_slots_ok:
  assumes "gen_ok V gs" and "allocState gs = (mem, g, p)" and "\<And>obj. Some obj \<in> set xs \<Longrightarrow> obj < length (fsObjs mem)"
    and "fold (\<lambda>slot. case slot of None \<Rightarrow> id | Some obj \<Rightarrow> setObjImmutable obj) xs (mem, g) = (mem', g')"
  shows "gen_step V A B R gs (gs\<lparr> allocState := (mem', g', p) \<rparr>)"
  using assms
proof (induction xs arbitrary: gs mem g)
  case Nil
  then have "allocState gs = (mem', g', p)" by simp
  then show ?case using gen_step_refl [OF Nil(1)] by (simp flip: \<open>allocState gs = (mem', g', p)\<close>)
next
  case (Cons slot xs)
  show ?case
  proof (cases slot)
    case None
    then show ?thesis using Cons.IH [OF Cons.prems(1,2)] Cons.prems(3,4) by simp
  next
    case (Some obj)
    obtain mem1 g1 where m1: "setObjImmutable obj (mem, g) = (mem1, g1)" by fastforce
    have "obj < length (fsObjs mem)" using Cons.prems(3) Some by simp
    note s1 = setObjImmutable_ok [OF Cons.prems(1,2) this m1]
    let ?gs1 = "gs\<lparr> allocState := (mem1, g1, p) \<rparr>"
    have "gen_step V A B R ?gs1 (?gs1\<lparr> allocState := (mem', g', p) \<rparr>)"
    proof (rule Cons.IH)
      show "gen_ok V ?gs1" by (rule gen_stepD(1) [OF s1(1)])
    qed (use Cons.prems(3,4) Some m1 s1(2) in simp_all)
    then show ?thesis using gen_step_trans [OF s1(1)] by simp
  qed
qed

lemma setBlockImmutable_ok:
  assumes ok: "gen_ok V gs" and st: "allocState gs = (mem, g, p)" and b: "b < length (fsBlocks mem)"
    and new: "setBlockImmutable b (mem, g) = (mem', g')"
  shows "gen_step V A B R gs (gs\<lparr> allocState := (mem', g', p) \<rparr>)"
proof -
  let ?E = "memEnv V" and ?B = "fsBlocks mem ! b"
  have a: "alloc_ok ?E (mem, g, p)" using gen_okD(1) [OF ok] by (simp add: st)
  then have mem: "mem_ok (envDL ?E) (envSp ?E) mem" by (simp add: alloc_ok_def)
  note B = mem_okD(1) [OF mem b]
  define mem1 where "mem1 = (case blkKind ?B of Aggregate L \<Rightarrow> updBlock b (\<lambda>x. x\<lparr> blkImmutable := True \<rparr>) mem | _ \<Rightarrow> mem)"
  have "block_ok (envDL ?E) (envSp ?E) (fsObjs mem) b (?B\<lparr> blkImmutable := True \<rparr>)" using B unfolding block_ok_def by (cases "blkKind ?B") simp_all
  then have "mem_ok (envDL ?E) (envSp ?E) (updBlock b (\<lambda>x. x\<lparr> blkImmutable := True \<rparr>) mem)" by (rule mem_ok_updBlock [OF mem b])
  then have mem1: "mem_ok (envDL ?E) (envSp ?E) mem1" using mem by (simp add: mem1_def split: block_kind.split)
  have same: "fsObjs mem1 = fsObjs mem" "memBlockMap mem1 = memBlockMap mem" "layoutManager mem1 = layoutManager mem"
    by (simp_all add: mem1_def updBlock_def split: block_kind.split)
  let ?gs1 = "gs\<lparr> allocState := (mem1, g, p) \<rparr>"
  have "alloc_ok ?E (mem1, g, p)" using a mem1 by (simp add: alloc_ok_def same)
  then have s1: "gen_step V A B R gs ?gs1"
    by (rule gen_memory [OF ok st _ nodes_grow_refl addr_only_refl]) (simp_all add: mem_keeps_def same)
  have "gen_step V A B R ?gs1 (?gs1\<lparr> allocState := (mem', g', p) \<rparr>)"
  proof (rule freeze_slots_ok [OF gen_stepD(1) [OF s1]])
    show "obj < length (fsObjs mem1)" if "Some obj \<in> set (fieldObjs ?B)" for obj
      using B that by (auto simp: block_ok_def in_set_conv_nth same)
    have "(case blkKind ?B of Aggregate L \<Rightarrow> (updBlock b (\<lambda>x. x\<lparr> blkImmutable := True \<rparr>) mem, g) | _ \<Rightarrow> (mem, g)) = (mem1, g)"
      by (simp add: mem1_def split: block_kind.split)
    then show "fold (\<lambda>slot. case slot of None \<Rightarrow> id | Some obj \<Rightarrow> setObjImmutable obj) (fieldObjs ?B) (mem1, g) = (mem', g')"
      using new by (simp add: setBlockImmutable_def)
  qed simp
  then show ?thesis using gen_step_trans [OF s1] by simp
qed

section \<open>Initialisers\<close>

text \<open>No pointer is stored by the initialiser.\<close>

definition global_init_ok :: "'x value_view_scheme \<Rightarrow> llvm_value \<Rightarrow> bool" where
  "global_init_ok V g \<longleftrightarrow> isGlobalVar (memEnv V) g \<and>
     (case initializerOf (memEnv V) g of
        None \<Rightarrow> True
      | Some c \<Rightarrow> const_ok (memEnv V) c \<and> initPointers (envDL (memEnv V)) 0 c = []) \<and>
     (\<exists>r. resolveVecElemType (envDL (memEnv V)) (pointeeType (memEnv V) g) = Inr r)"

lemma place_block:
  assumes ok: "gen_ok V gs" and at: "placeAt V gs (ObjOf C v) n"
  shows "\<exists>b < length (fsBlocks (genMem gs)). memBlockMap (genMem gs) (C, v) = Some b"
proof -
  obtain b obj where b: "memBlockMap (genMem gs) (C, v) = Some b" "obj < length (objVec (genGraph gs))" "objBlock (fsObjs (genMem gs) ! obj) = Some b"
    using at by (auto simp: placeAt_def)
  have "mem_ok (envDL (memEnv V)) (envSp (memEnv V)) (genMem gs)" using gen_okD(1) [OF ok] by (auto simp: alloc_ok_def split: prod.splits)
  from mem_okD(2) [OF this, of obj] b(2,3) have "b < length (fsBlocks (genMem gs))" unfolding objects_nodes [OF ok] by auto
  then show ?thesis using b(1) by blast
qed

lemma initGlobal_ok:
  assumes ok: "gen_ok V gs" and g: "global_init_ok V g" and at: "holds V gs (CAddrOf, ObjOf GlobCtx g, PtrOf GlobCtx g)"
  shows "\<exists>gs'. initGlobal V g gs = Inr gs' \<and> gen_step V {} {} {} gs gs'"
proof -
  let ?E = "memEnv V"
  obtain mem cg p where st: "allocState gs = (mem, cg, p)" by (cases "allocState gs") auto
  have glob: "isGlobalVar ?E g" and init: "\<And>c. initializerOf ?E g = Some c \<Longrightarrow> const_ok ?E c \<and> initPointers (envDL ?E) 0 c = []"
    and vec: "\<exists>r. resolveVecElemType (envDL ?E) (pointeeType ?E g) = Inr r" using g by (auto simp: global_init_ok_def)
  obtain n where "placeAt V gs (ObjOf GlobCtx g) n" using at by (auto simp: holds_def)
  from place_block [OF ok this] obtain b where b: "b < length (fsBlocks mem)" "memBlockMap mem (GlobCtx, g) = Some b" by (auto simp: st)
  have "\<exists>st'. initializeGlobalFS ?E g (allocState gs) = Inr st' \<and> gen_step V {} {} {} gs (gs\<lparr> allocState := st' \<rparr>)"
  proof (cases "initializerOf ?E g")
    case None
    then show ?thesis using gen_step_refl [OF ok] by (simp add: initializeGlobalFS_def st) (simp add: st [symmetric])
  next
    case (Some c)
    have "processInitializer ?E b c (0, mem, cg, p) = Inr (getTypeAllocSize (envDL ?E) (constType c), mem, cg, p)"
      using visitsD [OF const_visits] init [OF Some] by fastforce
    moreover obtain mem' g' where f: "setBlockImmutable b (mem, cg) = (mem', g')" by fastforce
    moreover have "gen_step V {} {} {} gs (gs\<lparr> allocState := (mem, cg, p) \<rparr>)" unfolding st [symmetric] using gen_step_refl [OF ok] by simp
    ultimately show ?thesis using Some b(2) setBlockImmutable_ok [OF ok st b(1) f] glob
      by (auto simp: initializeGlobalFS_def st getMemBlock_def Let_def)
  qed
  then obtain st' where f: "initializeGlobalFS ?E g (allocState gs) = Inr st'" "gen_step V {} {} {} gs (gs\<lparr> allocState := st' \<rparr>)" by blast
  have "initializeGlobal ?E g (allocState gs) \<in> {Inr st', Inr (allocState gs)}"
    using vec f(1) by (auto simp: initializeGlobal_def split: mem_model_kind.split)
  then have "initGlobal V g gs \<in> {Inr (gs\<lparr> allocState := st' \<rparr>), Inr gs}" by (elim insertE emptyE) (simp_all add: initGlobal_def)
  then show ?thesis using f(2) gen_step_refl [OF ok] by blast
qed

lemma initGlobals_ok:
  assumes "gen_ok V gs" and "\<forall>g \<in> set gvs. global_init_ok V g \<and> holds V gs (CAddrOf, ObjOf GlobCtx g, PtrOf GlobCtx g)"
  shows "\<exists>gs'. rfold (initGlobal V) gvs gs = Inr gs' \<and> gen_step V {} {} {} gs gs'"
  using assms
proof (induction gvs arbitrary: gs)
  case Nil
  then show ?case by (auto intro: gen_step_refl)
next
  case (Cons g gvs)
  then obtain gs1 where g: "initGlobal V g gs = Inr gs1" "gen_step V {} {} {} gs gs1" using initGlobal_ok [OF Cons.prems(1), of g] by auto
  have "\<forall>g \<in> set gvs. global_init_ok V g \<and> holds V gs1 (CAddrOf, ObjOf GlobCtx g, PtrOf GlobCtx g)"
    using Cons.prems(2) holds_step [OF g(2) Cons.prems(1)] by simp
  from Cons.IH [OF gen_stepD(1) [OF g(2)] this] show ?case using g gen_step_trans [OF g(2)] by auto
qed

section \<open>Arguments of the entry\<close>

text \<open>The address of one object goes into another.\<close>

lemma address_into_object:
  assumes ok: "gen_ok V gs" and st: "allocState gs = (mem, g, p)" and a: "a < getNodeNum g" "isObjKind (cgKind (cgNode g a))"
    and b: "b < getNodeNum g" "isObjKind (cgKind (cgNode g b))"
  shows "\<exists>g'. addAddrOf a b (mem, g, p) = Inr (mem, g', p) \<and> gen_step V A B R gs (gs\<lparr> allocState := (mem, g', p) \<rparr>) \<and> nodes_grow g g'"
proof -
  have g: "genGraph gs = g" "genPts gs = p" using st by (simp_all add: genGraph_def genPts_def)
  note cg = gen_okD(6) [OF ok, unfolded g] and wf = gen_okD(5) [OF ok, unfolded g] and fl = gen_okD(2) [OF ok, unfolded g]
  have addr: "\<not> addrNode g b" using cg_okD(3) [OF cg] b(2) by (auto simp: addrNode_def objs_ok_def isObjKind_def)
  from addConstraints_ok [OF cg a(1) b(1) addr, of CAddrOf] a(2) obtain ev g' where
    g': "addConstraints a b CAddrOf g = Inr (ev, g')" "cg_ok g'" "same_nodes g g'"
      "\<And>j x y. edge g' j x y \<longleftrightarrow> edge g j x y \<or> (\<not> blocked g (consSrc g CAddrOf a) b (consKind CAddrOf) \<and> j = consKind CAddrOf \<and>
         x = rep g (consSrc g CAddrOf a) \<and> y = rep g b)"
      "\<And>n. indirectNodes (cgNode g' n) = indirectNodes (cgNode g n)" by blast
  have same: "objVec g' = objVec g" "addrNode g' n = addrNode g n" for n using g'(3) by (simp_all add: same_nodes_def addrNode_def)
  have src: "consSrc g CAddrOf a < getNodeNum g" "addrNode g (consSrc g CAddrOf a)"
    using object_addr(1,3) [OF cg a(1,2)] by (simp_all add: consSrc_def)
  have "addr_only g g'" using g'(4) flat_rep [OF cg fl src(1)] src(2) by (auto simp: addr_only_def same consKind_def)
  moreover have grow: "nodes_grow g g'" using g'(3-5) unfolding nodes_grow_def same_nodes_def by auto
  moreover have "graph_wf (g', p)" using g'(2,3) wf by (auto simp: graph_wf_def same_nodes_def intro: pts_wf_same)
  then have "alloc_ok (memEnv V) (mem, g', p)" using gen_okD(1) [OF ok] by (simp add: st alloc_ok_def same)
  ultimately have "gen_step V A B R gs (gs\<lparr> allocState := (mem, g', p) \<rparr>)" by (intro gen_memory [OF ok st]) (simp_all add: mem_keeps_def)
  moreover have "addAddrOf a b (mem, g, p) = Inr (mem, g', p)" using g'(1) by (simp add: addAddrOf_def)
  ultimately show ?thesis using grow by blast
qed

text \<open>
  The types an argument of the entry may lead to: no structures, and none the allocator does not cover, like the pointers to strings that
  \<open>main\<close> gets.
\<close>

definition anon_types :: "mem_env \<Rightarrow> ll_type set \<Rightarrow> bool" where
  "anon_types E S \<longleftrightarrow> (\<forall>T \<in> S. alloc_type_ok E T \<and>
     (case stripArray T of
        StructTy n ts \<Rightarrow> False
      | PointerTy m \<Rightarrow> (case childType E m of None \<Rightarrow> True | Some U \<Rightarrow> U \<in> S)
      | _ \<Rightarrow> True))"

definition objectNode :: "cons_graph \<Rightarrow> nat \<Rightarrow> bool" where
  "objectNode g n \<longleftrightarrow> n < getNodeNum g \<and> isObjKind (cgKind (cgNode g n))"

lemma objectNode_grows: "objectNode g n \<Longrightarrow> nodes_grow g g' \<Longrightarrow> objectNode g' n"
  using nodes_growD(1,3) by (fastforce simp: objectNode_def)

lemma allocated_object:
  assumes ok: "gen_ok V gs" and st: "allocState gs = (mem, g, p)" and a: "allocates (memEnv V) c v T (mem, g, p) n (mem', g', p')"
  shows "\<exists>obj b. cgKind (cgNode g' n) = ObjNode obj \<and> objBlock (fsObjs mem' ! obj) = Some b" and "objectNode g' n"
proof -
  obtain obj b where o: "obj < length (objVec g')" "objVec g' ! obj = n" "objBlock (fsObjs mem' ! obj) = Some b"
    and "alloc_ok (memEnv V) (mem', g', p')" using a by (auto simp: allocates_def)
  then have "cg_ok g'" by (simp add: alloc_ok_def graph_wf_def)
  then have "cgKind (cgNode g' n) = ObjNode obj" "n < getNodeNum g'"
    using cg_okD(3) o(1,2) by (auto simp: objs_ok_def dest: Suc_lessD)
  then show "\<exists>obj b. cgKind (cgNode g' n) = ObjNode obj \<and> objBlock (fsObjs mem' ! obj) = Some b" "objectNode g' n"
    using o(3) by (auto simp: objectNode_def isObjKind_def)
qed

lemma anonymous_ok:
  assumes S: "anon_types (memEnv V) S"
  shows "T \<in> S \<Longrightarrow> gen_ok V gs \<Longrightarrow> allocState gs = s \<Longrightarrow>
    \<exists>n cnt' s'. allocAnonObjRec (memEnv V) c (Some T) tag tree (cnt, s) = Inr (n, cnt', s') \<and>
      gen_step V A {} R gs (gs\<lparr> allocState := s' \<rparr>) \<and> (\<forall>m. n = Some m \<longrightarrow> objectNode (fst (snd s')) m) \<and> (tree = [] \<and> cnt = 0 \<longrightarrow> n \<noteq> None)"
proof (induction "anonRecDepthLimit (envOpts (memEnv V)) + 1 - length tree" arbitrary: T gs s tree cnt rule: less_induct)
  case less
  let ?E = "memEnv V"
  obtain mem g p where s: "s = (mem, g, p)" by (cases s)
  note st = less.prems(3) [unfolded s]
  have keep: "\<not> keepsArrays ?E tag AAnonymous" by (simp add: keepsArrays_def)
  have type: "alloc_type_ok ?E T" using S less.prems(1) by (simp add: anon_types_def)
  have same: "gs\<lparr> allocState := s \<rparr> = gs" using less.prems(3) by simp
  have key: "fresh_key mem c tag AAnonymous" by (simp add: fresh_key_def)
  have a: "alloc_ok ?E (mem, g, p)" using gen_okD(1) [OF less.prems(2)] by (simp add: st)
  consider (stop) "anonRecDepthLimit (envOpts ?E) < length tree \<or> T \<in> set tree \<or> anonRecLimit (envOpts ?E) \<noteq> 0 \<and> anonRecLimit (envOpts ?E) < cnt"
    | (opaque) "\<not> anonRecDepthLimit (envOpts ?E) < length tree" "\<not> (T \<in> set tree \<or> anonRecLimit (envOpts ?E) \<noteq> 0 \<and> anonRecLimit (envOpts ?E) < cnt)" "\<not> isSized T"
    | (sized) "\<not> anonRecDepthLimit (envOpts ?E) < length tree" "\<not> (T \<in> set tree \<or> anonRecLimit (envOpts ?E) \<noteq> 0 \<and> anonRecLimit (envOpts ?E) < cnt)" "isSized T"
    by blast
  then show ?case
  proof cases
    case stop
    then have "allocAnonObjRec ?E c (Some T) tag tree (cnt, s) = Inr (None, cnt, s)" by auto
    moreover have "\<not> (tree = [] \<and> cnt = 0)" using stop by auto
    ultimately show ?thesis using gen_step_refl [OF less.prems(2)] same by auto
  next
    case opaque
    from single_object_ok(1) [OF a key] obtain n s' where n: "allocFIObject c tag AAnonymous (mem, g, p) = Inr (n, s')"
      "allocates ?E c tag AAnonymous (mem, g, p) n s'" by blast
    obtain mem' g' p' where s': "s' = (mem', g', p')" by (cases s')
    show ?thesis using n opaque gen_allocates(2) [OF less.prems(2) st n(2) refl] allocated_object(2) [OF less.prems(2) st n(2) [unfolded s']]
      by (auto simp: s s')
  next
    case sized
    from value_object_ok [OF a key type keep] obtain n s' where n: "allocValueWithType ?E c tag AAnonymous T (mem, g, p) = Inr (n, s')"
      "allocates ?E c tag AAnonymous (mem, g, p) n s'" by blast
    obtain mem' g' p' where s': "s' = (mem', g', p')" by (cases s')
    let ?gs1 = "gs\<lparr> allocState := (mem', g', p') \<rparr>"
    have s1: "gen_step V A {} R gs ?gs1" using gen_allocates(2) [OF less.prems(2) st n(2) refl] by (simp add: s')
    from allocated_object [OF less.prems(2) st n(2) [unfolded s']] obtain obj b where
      o: "cgKind (cgNode g' n) = ObjNode obj" "objBlock (fsObjs mem' ! obj) = Some b" "objectNode g' n" by blast
    have step: "allocAnonObjRec ?E c (Some T) tag tree (cnt, s) =
        (if isSpecialObject (fsObjs mem' ! obj) then Inr (Some n, cnt + 1, mem', g', p')
         else case stripArray T of
             PointerTy m \<Rightarrow> rbind (allocAnonObjRec ?E c (childType ?E m) tag (tree @ [T]) (cnt + 1, mem', g', p')) (\<lambda>(child, cnt, s).
               case child of None \<Rightarrow> Inr (Some n, cnt, s) | Some ch \<Rightarrow> rbind (addAddrOf ch n s) (\<lambda>s. Inr (Some n, cnt, s)))
           | _ \<Rightarrow> Inr (Some n, cnt + 1, mem', g', p'))"
      using sized n(1) o(1,2) S less.prems(1) by (auto simp: s s' anon_types_def split: ll_type.splits)
    have plain: ?thesis if "allocAnonObjRec ?E c (Some T) tag tree (cnt, s) = Inr (Some n, k, mem', g', p')" for k using that s1 o(3) by auto
    show ?thesis
    proof (cases "\<not> isSpecialObject (fsObjs mem' ! obj) \<and> (\<exists>m U. stripArray T = PointerTy m \<and> childType ?E m = Some U)")
      case False
      then show ?thesis using step plain by (cases "stripArray T") (auto split: if_splits)
    next
      case True
      then obtain m U where U: "stripArray T = PointerTy m" "childType ?E m = Some U" by blast
      then have "U \<in> S" using S less.prems(1) by (auto simp: anon_types_def)
      have dec: "anonRecDepthLimit (envOpts ?E) + 1 - length (tree @ [T]) < anonRecDepthLimit (envOpts ?E) + 1 - length tree" using sized(1) by simp
      from less.hyps [OF dec \<open>U \<in> S\<close> gen_stepD(1) [OF s1], of "(mem', g', p')" "cnt + 1"] obtain ch k s2 where
        c: "allocAnonObjRec ?E c (Some U) tag (tree @ [T]) (cnt + 1, mem', g', p') = Inr (ch, k, s2)" "gen_step V A {} R ?gs1 (?gs1\<lparr> allocState := s2 \<rparr>)"
          "\<forall>m. ch = Some m \<longrightarrow> objectNode (fst (snd s2)) m" by auto
      let ?gs2 = "gs\<lparr> allocState := s2 \<rparr>"
      have s2: "gen_step V A {} R gs ?gs2" using gen_step_trans [OF s1 c(2)] by simp
      obtain mem2 g2 p2 where s2': "s2 = (mem2, g2, p2)" by (cases s2)
      have n2: "objectNode g2 n" using objectNode_grows [OF o(3)] gen_stepD(2) [OF c(2)] by (simp add: genGraph_def s2')
      show ?thesis
      proof (cases ch)
        case None
        then show ?thesis using step True U c(1) s2 n2 by (auto simp: s2')
      next
        case (Some x)
        then have "objectNode g2 x" using c(3) by (simp add: s2')
        then obtain g3 where g3: "addAddrOf x n (mem2, g2, p2) = Inr (mem2, g3, p2)" "gen_step V A {} R ?gs2 (?gs2\<lparr> allocState := (mem2, g3, p2) \<rparr>)" "nodes_grow g2 g3"
          using address_into_object [OF gen_stepD(1) [OF s2], of mem2 g2 p2 x n A "{}" R] n2 by (auto simp: s2' objectNode_def)
        have "gen_step V A {} R gs (gs\<lparr> allocState := (mem2, g3, p2) \<rparr>)" using gen_step_trans [OF s2 g3(2)] by simp
        then show ?thesis using step True U c(1) Some g3(1) objectNode_grows [OF n2 g3(3)] by (auto simp: s2')
      qed
    qed
  qed
qed

definition entry_ok :: "'x builder_view_scheme \<Rightarrow> llvm_value \<Rightarrow> bool" where
  "entry_ok V entry \<longleftrightarrow> (\<exists>S. anon_types (memEnv V) S \<and> (\<forall>a \<in> set (pointerArgs V entry). getUnboundedArrayTy (pointeeType (memEnv V) a) \<in> S))"

lemma entry_arg_ok:
  assumes rk: "ranked V" and ok: "gen_ok V gs" and S: "anon_types (memEnv V) S" "getUnboundedArrayTy (pointeeType (memEnv V) a) \<in> S"
    and a: "isPointerTy (ptaModule V) a" and node: "hasNode V gs InitCtx (canonOf V a)"
  shows "\<exists>gs'. interceptEntryArg V a gs = Inr gs' \<and> gen_step V {} {} {} gs gs'"
proof -
  let ?E = "memEnv V"
  from anonymous_ok [OF S(1) S(2) ok refl, where tree = "[]" and cnt = 0 and A = "{}" and R = "{}"] obtain obj k s' where
    n: "allocAnonObjRec ?E InitCtx (Some (getUnboundedArrayTy (pointeeType ?E a))) (Some a) [] (0, allocState gs) = Inr (Some obj, k, s')"
      "gen_step V {} {} {} gs (gs\<lparr> allocState := s' \<rparr>)" "objectNode (fst (snd s')) obj" by fastforce
  let ?gs1 = "gs\<lparr> allocState := s' \<rparr>"
  note ok1 = gen_stepD(1) [OF n(2)]
  obtain d where d: "ptrNode V ?gs1 InitCtx a = Some d" using hasNode_step [OF n(2) node] by (auto simp: hasNode_iff)
  have g: "genGraph ?gs1 = fst (snd s')" by (simp add: genGraph_def)
  have "\<exists>key. ptrMap ?gs1 key = Some d" using ptrNode_key [OF gen_okD(3) [OF ok1] d] by blast
  then obtain gs' where e: "addEdge obj d CAddrOf ?gs1 = Inr gs'" "gen_step V {} {} {} ?gs1 gs'"
    using addEdge_ok [OF ok1, of obj d CAddrOf "{}" "{}" "{}"] n(3) by (auto simp: g objectNode_def)
  have "interceptEntryArg V a gs = Inr gs'" using a n(1) d e(1) by (simp add: interceptEntryArg_def allocAnonObj_def getPtrNode_eq [OF rk])
  then show ?thesis using gen_step_trans [OF n(2) e(2)] by blast
qed

lemma entry_args_ok:
  assumes rk: "ranked V" and "gen_ok V gs" and S: "anon_types (memEnv V) S"
    and as: "\<And>a. a \<in> set as \<Longrightarrow> isPointerTy (ptaModule V) a \<Longrightarrow> getUnboundedArrayTy (pointeeType (memEnv V) a) \<in> S"
    and "\<And>a. a \<in> set as \<Longrightarrow> isPointerTy (ptaModule V) a \<Longrightarrow> hasNode V gs InitCtx (canonOf V a)"
  shows "\<exists>gs'. rfold (interceptEntryArg V) as gs = Inr gs' \<and> gen_step V {} {} {} gs gs'"
  using assms(2,4,5)
proof (induction "as" arbitrary: gs)
  case Nil
  then show ?case by (auto intro: gen_step_refl)
next
  case (Cons a as)
  have "\<exists>gs1. interceptEntryArg V a gs = Inr gs1 \<and> gen_step V {} {} {} gs gs1"
  proof (cases "isPointerTy (ptaModule V) a")
    case True
    then show ?thesis using Cons.prems(2,3) by (intro entry_arg_ok [OF rk Cons.prems(1) S]) auto
  next
    case False
    then show ?thesis using gen_step_refl [OF Cons.prems(1)] by (simp add: interceptEntryArg_def)
  qed
  then obtain gs1 where g: "interceptEntryArg V a gs = Inr gs1" "gen_step V {} {} {} gs gs1" by blast
  have "\<exists>gs'. rfold (interceptEntryArg V) as gs1 = Inr gs' \<and> gen_step V {} {} {} gs1 gs'"
    by (rule Cons.IH [OF gen_stepD(1) [OF g(2)]]) (use Cons.prems(2,3) hasNode_step [OF g(2)] in auto)
  then show ?case using g gen_step_trans [OF g(2)] by auto
qed

lemma builder_entry:
  assumes prog: "builder_program V own globs H icpt fits links" and entry: "entry_ok V entry" "expanded V entry"
    and inv: "build_inv V own globs G H links (walked V H) {(InitCtx, entry)} {} gs"
  shows "\<exists>r gs'. beforeNewNode (builderCallbacks V H) InitCtx InitCtx entry None gs = Inr (r, gs') \<and>
    build_inv V own globs G H links (walked V H) {(InitCtx, entry)} {} gs'"
proof (cases "hookHeapAllocAPI H entry")
  case True
  then show ?thesis using inv by (simp add: builderCallbacks_def memInterceptFunction_def overrideFunction_def)
next
  case False
  note P = builder_programD [OF prog] and J = build_invD [OF inv]
  have walk: "walked V H entry" using False entry(2) by (simp add: walked_def)
  obtain S where S: "anon_types (memEnv V) S" "\<And>a. a \<in> set (pointerArgs V entry) \<Longrightarrow> getUnboundedArrayTy (pointeeType (memEnv V) a) \<in> S"
    using entry(1) by (auto simp: entry_ok_def)
  have args: "a \<in> set (pointerArgs V entry)" if "a \<in> set (argsOf (ptaModule V) entry)" "isPointerTy (ptaModule V) a" for a
    using that by (simp add: pointerArgs_def)
  have loc: "local_value V own entry a" if "a \<in> set (pointerArgs V entry)" for a using P(4) [OF entry(2)] that by (simp add: fun_ok_def)
  have fdone: "fun_done V InitCtx entry gs" using J(4) walk by simp
  have "\<exists>gs'. rfold (interceptEntryArg V) (argsOf (ptaModule V) entry) gs = Inr gs' \<and> gen_step V {} {} {} gs gs'"
  proof (rule entry_args_ok [OF P(1) J(1) S(1)])
    fix a assume a: "a \<in> set (argsOf (ptaModule V) entry)" "isPointerTy (ptaModule V) a"
    note pa = args [OF a]
    show "getUnboundedArrayTy (pointeeType (memEnv V) a) \<in> S" by (rule S(2) [OF pa])
    have "a \<in> nodesOf V entry" using pa by (simp add: nodesOf_def)
    then show "hasNode V gs InitCtx (canonOf V a)" using fdone loc [OF pa] by (simp add: fun_done_def local_value_def)
  qed
  then obtain gs' where g: "interceptEntryFun V entry gs = Inr gs'" "gen_step V {} {} {} gs gs'" by (auto simp: interceptEntryFun_def)
  have "build_inv V own globs G H links (walked V H) {(InitCtx, entry)} {} gs'" by (rule build_inv_step [OF inv g(2)]) simp_all
  then show ?thesis using g(1) False by (simp add: builderCallbacks_def memInterceptFunction_def overrideFunction_def)
qed

end
