(* ===== verification/GenHooks.thy ===== *)
theory GenHooks
  imports GenInit
begin

text \<open>
  The two language models keep what the builder asks of one: the default model, and the model of the race detector.
\<close>

section \<open>Heap allocations\<close>

lemma heap_object:
  assumes ok: "gen_ok V gs" and new: "memBlockMap (genMem gs) (C, I) = None"
    and T: "case T of None \<Rightarrow> True | Some t \<Rightarrow> alloc_type_ok (memEnv V) t" and I: "\<not> isGlobalVar (memEnv V) I"
  shows "\<exists>n st. allocHeapObj (memEnv V) C I T (allocState gs) = Inr (n, st) \<and> gen_step V {} {(C, I)} {} gs (gs\<lparr> allocState := st \<rparr>) \<and>
    placeAt V (gs\<lparr> allocState := st \<rparr>) (ObjOf C I) n \<and> objectNode (fst (snd st)) n"
proof -
  let ?E = "memEnv V"
  obtain mem g p where st: "allocState gs = (mem, g, p)" by (cases "allocState gs") auto
  have a: "alloc_ok ?E (mem, g, p)" using gen_okD(1) [OF ok] by (simp add: st)
  have key: "fresh_key mem C (Some I) AHeap" using new by (simp add: fresh_key_def st)
  have keep: "\<not> keepsArrays ?E (Some I) AHeap" using I by (simp add: keepsArrays_def)
  have "\<exists>n s'. allocHeapObj ?E C I T (mem, g, p) = Inr (n, s') \<and> allocates ?E C (Some I) AHeap (mem, g, p) n s'"
    using single_object_ok(1) [OF a key] value_object_ok [OF a key _ keep] T by (auto simp: allocHeapObj_def split: option.split)
  then obtain n mem' g' p' where n: "allocHeapObj ?E C I T (mem, g, p) = Inr (n, mem', g', p')" "allocates ?E C (Some I) AHeap (mem, g, p) n (mem', g', p')"
    by auto
  have "placeAt V (gs\<lparr> allocState := (mem', g', p') \<rparr>) (ObjOf C I) n" using n(2) by (auto simp: placeAt_def allocates_def newKey_def genGraph_def)
  moreover have "gen_step V {} {(C, I)} {} gs (gs\<lparr> allocState := (mem', g', p') \<rparr>)" using gen_allocates(1) [OF ok st n(2)] by simp
  ultimately show ?thesis using n(1) allocated_object(2) [OF ok st n(2)] by (simp add: st)
qed

text \<open>The object goes into the pointer.\<close>

lemma heap_link:
  assumes s1: "gen_step V {} {(C, I)} {} gs gs1" and obj: "placeAt V gs1 (ObjOf C I) n" and d: "ptrNode V gs1 C I = Some d"
  shows "\<exists>gs'. addEdge n d CAddrOf gs1 = Inr gs' \<and> gen_step V {} {(C, I)} {} gs gs' \<and> holds V gs' (CAddrOf, ObjOf C I, PtrOf C I)"
proof -
  have fits: "rule_fits V (CAddrOf, ObjOf C I, PtrOf C I)" by (simp add: rule_fits_def)
  have "placeAt V gs1 (PtrOf C I) d" using d by (simp add: placeAt_def)
  from add_rule [OF gen_stepD(1) [OF s1] obj this fits, of "{}" "{(C, I)}" "{}"] obtain gs' where
    "addEdge n d CAddrOf gs1 = Inr gs'" "gen_step V {} {(C, I)} {} gs1 gs'" "holds V gs' (CAddrOf, ObjOf C I, PtrOf C I)" by blast
  then show ?thesis using gen_step_trans [OF s1] by blast
qed

definition heap_type_ok :: "'x value_view_scheme \<Rightarrow> ll_type option result \<Rightarrow> bool" where
  "heap_type_ok V r \<longleftrightarrow> (\<exists>T. r = Inr T \<and> (case T of None \<Rightarrow> True | Some t \<Rightarrow> alloc_type_ok (memEnv V) t))"

section \<open>The default model\<close>

definition defaultIcpt :: "'x heap_view_scheme \<Rightarrow> icpt_fun" where
  "defaultIcpt V cur pre F I =
     (if isHeapAllocFun (ptaModule V) F then (Some F, ONLY_CALLSITE)
      else case defaultFunction (ptaModule V) F I of Inr r \<Rightarrow> r | Inl e \<Rightarrow> (None, IGNORE_FUN))"

definition defaultFits :: "'x heap_view_scheme \<Rightarrow> llvm_value \<Rightarrow> llvm_value \<Rightarrow> bool" where
  "defaultFits V R I \<longleftrightarrow>
     (if isHeapAllocFun (ptaModule V) R then \<not> isGlobalVar (memEnv V) I \<and> heap_type_ok V (inferHeapAllocType V R I)
      else \<forall>G. csCalledFunction V I = Inr (Some G) \<longrightarrow> isThreadCreation (ptaModule V) G \<longrightarrow> argSize (ptaModule V) R = 1)"

definition defaultLinks :: "'x heap_view_scheme \<Rightarrow> link_fun" where
  "defaultLinks V R I =
     (case csCalledFunction V I of
        Inr (Some G) \<Rightarrow>
          if isThreadCreation (ptaModule V) G then (True, [(getArgOperand (ptaModule V) I 3, getArg (ptaModule V) R 0)]) else (False, [])
      | _ \<Rightarrow> (False, []))"

lemma default_hooks:
  "hookHeapAllocAPI (defaultLangModel V option) = isHeapAllocFun (ptaModule V)" "hookHeapAllocSite (defaultLangModel V option) = defaultHeapAllocSite V"
  "hookFunction (defaultLangModel V option) = defaultFunction (ptaModule V)" "hookCallSite (defaultLangModel V option) = defaultCallSite V"
  by (simp_all add: defaultLangModel_def Let_def)

lemma default_hooks_ok:
  assumes rk: "ranked V"
  shows "hooks_ok V (defaultLangModel V option) (defaultIcpt V) (defaultFits V) (defaultLinks V)"
  unfolding hooks_ok_def default_hooks
proof (intro conjI allI impI)
  fix cur pre F I
  assume "directCall V I F"
  then have "isCallBase (ptaModule V) I" by (simp add: directCall_def)
  then show "if isHeapAllocFun (ptaModule V) F then defaultIcpt V cur pre F I = (Some F, ONLY_CALLSITE)
      else defaultFunction (ptaModule V) F I = Inr (defaultIcpt V cur pre F I)"
    by (simp add: defaultIcpt_def defaultFunction_def Let_def)
next
  fix C R I gs
  assume ok: "gen_ok V gs" and R: "isHeapAllocFun (ptaModule V) R" and fit: "defaultFits V R I" and new: "memBlockMap (genMem gs) (C, I) = None"
    and node: "ptrNode V gs C I \<noteq> None"
  obtain T where T: "inferHeapAllocType V R I = Inr T" "case T of None \<Rightarrow> True | Some t \<Rightarrow> alloc_type_ok (memEnv V) t" and I: "\<not> isGlobalVar (memEnv V) I"
    using fit R by (auto simp: defaultFits_def heap_type_ok_def)
  from heap_object [OF ok new T(2) I] obtain n st where
    n: "allocHeapObj (memEnv V) C I T (allocState gs) = Inr (n, st)" "gen_step V {} {(C, I)} {} gs (gs\<lparr> allocState := st \<rparr>)"
      "placeAt V (gs\<lparr> allocState := st \<rparr>) (ObjOf C I) n" by blast
  obtain d where "ptrNode V gs C I = Some d" using node by auto
  then have d: "ptrNode V (gs\<lparr> allocState := st \<rparr>) C I = Some d" by (rule ptrNode_step [OF n(2)])
  from heap_link [OF n(2,3) d] T(1) n(1) d
  show "\<exists>gs'. defaultHeapAllocSite V C R I gs = Inr gs' \<and> gen_step V {} {(C, I)} {} gs gs' \<and> holds V gs' (CAddrOf, ObjOf C I, PtrOf C I)"
    by (simp add: defaultHeapAllocSite_def getPtrNode_eq [OF rk])
next
  fix C R G I gs
  assume d: "directCall V I G" and R: "\<not> isHeapAllocFun (ptaModule V) R" and fit: "defaultFits V R I"
  have call: "isCallBase (ptaModule V) I" "csCalledFunction V I = Inr (Some G)" using d by (simp_all add: directCall_def)
  have one: "isThreadCreation (ptaModule V) G \<Longrightarrow> argSize (ptaModule V) R = 1" using fit R call(2) by (simp add: defaultFits_def)
  show "defaultCallSite V C (ctxEvolve V C I) R (Some G) I gs =
      (case defaultLinks V R I of (handled, ls) \<Rightarrow> rbind (rfold (linkArg V C (ctxEvolve V C I)) ls gs) (\<lambda>gs. Inr (handled, gs)))"
    using call one by (cases "linkArg V C (ctxEvolve V C I) (getArgOperand (ptaModule V) I 3, getArg (ptaModule V) R 0) gs")
      (simp_all add: defaultCallSite_def defaultLinks_def Let_def rassert_def)
qed

section \<open>The model of the race detector\<close>

definition raceIcpt :: "'x heap_view_scheme \<Rightarrow> icpt_fun" where
  "raceIcpt V cur pre F I =
     (if isHeapAllocAPI (ptaModule V) F then (Some F, ONLY_CALLSITE)
      else case interceptFunction (ptaModule V) F I of Inr r \<Rightarrow> r | Inl e \<Rightarrow> (None, IGNORE_FUN))"

text \<open>The object of an OpenMP task is a pointer to its shared data, which has a type of its own.\<close>

definition raceFits :: "'x heap_view_scheme \<Rightarrow> llvm_value \<Rightarrow> llvm_value \<Rightarrow> bool" where
  "raceFits V R I \<longleftrightarrow>
     (let M = ptaModule V; E = memEnv V in
      if isHeapAllocAPI M R then
        \<not> isGlobalVar E I \<and>
        (if isHeapAllocFun M R then heap_type_ok V (inferHeapAllocType V R I)
         else isTaskAlloc (getName M R) \<and> (\<exists>s T. inferHeapAllocTypeForOpenMP V I = Inr (Some (PointerTy s)) \<and>
           getPointerElementType (envDL E) s = Some T \<and> alloc_type_ok E T))
      else \<exists>x. interceptCallSite M R I = Inr x)"

definition raceLinks :: "'x heap_view_scheme \<Rightarrow> link_fun" where
  "raceLinks V R I = (case interceptCallSite (ptaModule V) R I of Inr x \<Rightarrow> x | Inl e \<Rightarrow> (False, []))"

lemma race_hooks:
  "hookHeapAllocAPI (raceLangModel V option) = isHeapAllocAPI (ptaModule V)" "hookHeapAllocSite (raceLangModel V option) = raceHeapAllocSite V"
  "hookFunction (raceLangModel V option) = interceptFunction (ptaModule V)" "hookCallSite (raceLangModel V option) = raceCallSite V"
  by (simp_all add: raceLangModel_def Let_def)

lemma task_object:
  assumes rk: "ranked V" and ok: "gen_ok V gs" and new: "memBlockMap (genMem gs) (C, I) = None" and I: "\<not> isGlobalVar (memEnv V) I"
    and type: "inferHeapAllocTypeForOpenMP V I = Inr (Some (PointerTy s))" "getPointerElementType (envDL (memEnv V)) s = Some T"
      "alloc_type_ok (memEnv V) T" and R: "\<not> isHeapAllocFun (ptaModule V) R" "isTaskAlloc (getName (ptaModule V) R)" and d: "ptrNode V gs C I = Some d"
  shows "\<exists>gs'. raceHeapAllocSite V C R I gs = Inr gs' \<and> gen_step V {} {(C, I)} {} gs gs' \<and> holds V gs' (CAddrOf, ObjOf C I, PtrOf C I)"
proof -
  let ?E = "memEnv V"
  obtain mem g p where st: "allocState gs = (mem, g, p)" by (cases "allocState gs") auto
  have a: "alloc_ok ?E (mem, g, p)" using gen_okD(1) [OF ok] by (simp add: st)
  have "fresh_key mem C None AAnonymous" "\<not> keepsArrays ?E None AAnonymous" by (simp_all add: fresh_key_def keepsArrays_def)
  from value_object_ok [OF a this(1) type(3) this(2)] obtain m mem1 g1 p1 where
    m: "allocValueWithType ?E C None AAnonymous T (mem, g, p) = Inr (m, mem1, g1, p1)" "allocates ?E C None AAnonymous (mem, g, p) m (mem1, g1, p1)" by auto
  let ?gs1 = "gs\<lparr> allocState := (mem1, g1, p1) \<rparr>"
  have s1: "gen_step V {} {} {} gs ?gs1" by (rule gen_allocates(2) [OF ok st m(2) refl])
  have "memBlockMap (genMem ?gs1) (C, I) = None" using m(2) new by (simp add: allocates_def newKey_def st)
  moreover have "alloc_type_ok ?E (PointerTy s)" by (simp add: alloc_type_ok_def)
  ultimately obtain n st2 where
    n: "allocHeapObj ?E C I (Some (PointerTy s)) (mem1, g1, p1) = Inr (n, st2)" "gen_step V {} {(C, I)} {} ?gs1 (?gs1\<lparr> allocState := st2 \<rparr>)"
      "placeAt V (?gs1\<lparr> allocState := st2 \<rparr>) (ObjOf C I) n" "objectNode (fst (snd st2)) n"
    using heap_object [OF gen_stepD(1) [OF s1], of C I "Some (PointerTy s)"] I by auto
  let ?gs2 = "gs\<lparr> allocState := st2 \<rparr>"
  obtain mem2 g2 p2 where st2: "st2 = (mem2, g2, p2)" by (cases st2)
  have s2: "gen_step V {} {(C, I)} {} gs ?gs2" using gen_step_trans [OF gen_step_mono [OF s1, of "{}" "{(C, I)}" "{}"] n(2)] by simp
  have "objectNode g2 m" using objectNode_grows [OF allocated_object(2) [OF ok st m(2)]] gen_stepD(2) [OF n(2)] by (simp add: genGraph_def st2)
  then obtain g3 where g3: "addAddrOf m n (mem2, g2, p2) = Inr (mem2, g3, p2)" "gen_step V {} {(C, I)} {} ?gs2 (?gs2\<lparr> allocState := (mem2, g3, p2) \<rparr>)"
    using address_into_object [OF gen_stepD(1) [OF s2], of mem2 g2 p2 m n "{}" "{(C, I)}" "{}"] n(4) by (auto simp: st2 objectNode_def)
  let ?gs3 = "gs\<lparr> allocState := (mem2, g3, p2) \<rparr>"
  have s3: "gen_step V {} {(C, I)} {} gs ?gs3" using gen_step_trans [OF s2 g3(2)] by simp
  have e: "addEdge m n CAddrOf ?gs2 = Inr ?gs3" using g3(1) by (auto simp: addEdge_def addAddrOf_def st2 rbind_def split: sum.splits)
  have "placeAt V ?gs2 (ObjOf C I) n" using n(3) by simp
  then have "placeAt V ?gs3 (ObjOf C I) n" using placeAt_step [OF g3(2) gen_stepD(1) [OF s2]] by simp
  from heap_link [OF s3 this ptrNode_step [OF s3 d]] obtain gs' where
    g': "addEdge n d CAddrOf ?gs3 = Inr gs'" "gen_step V {} {(C, I)} {} gs gs'" "holds V gs' (CAddrOf, ObjOf C I, PtrOf C I)" by blast
  have "allocAnonObj ?E C (Some T) None False (mem, g, p) = Inr (Some m, mem1, g1, p1)" using m(1) by (simp add: allocAnonObj_def)
  moreover have "ptrNode V ?gs2 C I = Some d" by (rule ptrNode_step [OF s2 d])
  ultimately have "raceHeapAllocSite V C R I gs = Inr gs'"
    using R type(1,2) n(1) e g'(1) by (simp add: raceHeapAllocSite_def Let_def st getPtrNode_eq [OF rk])
  then show ?thesis using g'(2,3) by blast
qed

lemma race_hooks_ok:
  assumes rk: "ranked V" and tasks: "\<And>I F. directCall V I F \<Longrightarrow> \<exists>r. interceptFunction (ptaModule V) F I = Inr r"
  shows "hooks_ok V (raceLangModel V option) (raceIcpt V) (raceFits V) (raceLinks V)"
  unfolding hooks_ok_def race_hooks
proof (intro conjI allI impI)
  fix cur pre F I
  assume "directCall V I F"
  from tasks [OF this] show "if isHeapAllocAPI (ptaModule V) F then raceIcpt V cur pre F I = (Some F, ONLY_CALLSITE)
      else interceptFunction (ptaModule V) F I = Inr (raceIcpt V cur pre F I)"
    by (auto simp: raceIcpt_def)
next
  fix C R I gs
  assume ok: "gen_ok V gs" and R: "isHeapAllocAPI (ptaModule V) R" and fit: "raceFits V R I" and new: "memBlockMap (genMem gs) (C, I) = None"
    and node: "ptrNode V gs C I \<noteq> None"
  have I: "\<not> isGlobalVar (memEnv V) I" using fit R by (simp add: raceFits_def Let_def)
  obtain d where d: "ptrNode V gs C I = Some d" using node by auto
  show "\<exists>gs'. raceHeapAllocSite V C R I gs = Inr gs' \<and> gen_step V {} {(C, I)} {} gs gs' \<and> holds V gs' (CAddrOf, ObjOf C I, PtrOf C I)"
  proof (cases "isHeapAllocFun (ptaModule V) R")
    case True
    then obtain T where T: "inferHeapAllocType V R I = Inr T" "case T of None \<Rightarrow> True | Some t \<Rightarrow> alloc_type_ok (memEnv V) t"
      using fit R by (auto simp: raceFits_def heap_type_ok_def Let_def)
    from heap_object [OF ok new T(2) I] obtain n st where
      n: "allocHeapObj (memEnv V) C I T (allocState gs) = Inr (n, st)" "gen_step V {} {(C, I)} {} gs (gs\<lparr> allocState := st \<rparr>)"
        "placeAt V (gs\<lparr> allocState := st \<rparr>) (ObjOf C I) n" by blast
    from heap_link [OF n(2,3) ptrNode_step [OF n(2) d]] T(1) n(1) d True
    show ?thesis by (simp add: raceHeapAllocSite_def Let_def getPtrNode_eq [OF rk])
  next
    case False
    then show ?thesis using fit R task_object [OF rk ok new I _ _ _ False _ d] by (auto simp: raceFits_def Let_def)
  qed
next
  fix C R G I gs
  assume "directCall V I G" and R: "\<not> isHeapAllocAPI (ptaModule V) R" and fit: "raceFits V R I"
  obtain handled ls where "interceptCallSite (ptaModule V) R I = Inr (handled, ls)" using fit R by (auto simp: raceFits_def Let_def)
  then show "raceCallSite V C (ctxEvolve V C I) R (Some G) I gs =
      (case raceLinks V R I of (handled, ls) \<Rightarrow> rbind (rfold (linkArg V C (ctxEvolve V C I)) ls gs) (\<lambda>gs. Inr (handled, gs)))"
    by (simp add: raceCallSite_def raceLinks_def rassert_def)
qed

end
