(* ===== verification/GenProps.thy ===== *)
theory GenProps
  imports GenHooks
begin

text \<open>
  The builder does its work: from an empty graph it ends with the call graph of the program and with a constraint
  graph that has what the globals, the instructions and the calls of the program say.
\<close>

section \<open>Programs\<close>

text \<open>Globals and functions are different values, no function owns them, and no initialiser stores a pointer.\<close>

definition globalsOf :: "'x builder_view_scheme \<Rightarrow> llvm_value list \<Rightarrow> llvm_value list" where
  "globalsOf V gvs = gvs @ getFunctionList (ptaModule V)"

definition globals_ok :: "'x builder_view_scheme \<Rightarrow> (llvm_value \<Rightarrow> llvm_value option) \<Rightarrow> llvm_value list \<Rightarrow> bool" where
  "globals_ok V own gvs \<longleftrightarrow> own (nullValue (memEnv V)) = None \<and> own (undefValue (memEnv V)) = None \<and> distinct (globalsOf V gvs) \<and>
     (\<forall>g \<in> set gvs. global_var_ok V g \<and> global_init_ok V g) \<and> (\<forall>f \<in> set (getFunctionList (ptaModule V)). global_value V f)"

text \<open>Before the call graph.\<close>

lemma builder_ready:
  assumes prog: "builder_program V own (set (globalsOf V gvs)) H icpt fits links" and globals: "globals_ok V own gvs"
  shows "\<exists>gs0 gs1 gs2. newBuilder V = Inr gs0 \<and> addGlobals V gvs gs0 = Inr gs1 \<and> rfold (initGlobal V) gvs gs1 = Inr gs2 \<and>
    build_inv V own (set (globalsOf V gvs)) (globalRules (globalsOf V gvs)) H links (walked V H) {} {} gs2"
proof -
  note P = builder_programD [OF prog]
  let ?gs = "globalsOf V gvs" and ?sp = "{GlobCtx} \<times> {nullValue (memEnv V), undefValue (memEnv V)}"
  have vars: "\<forall>g \<in> set gvs. global_var_ok V g" "\<forall>g \<in> set gvs. global_init_ok V g" and funs: "\<forall>f \<in> set (getFunctionList (ptaModule V)). global_value V f"
    and dist: "distinct ?gs" and own: "own (nullValue (memEnv V)) = None" "own (undefValue (memEnv V)) = None"
    using globals by (simp_all add: globals_ok_def)
  have gval: "\<forall>g \<in> set ?gs. global_value V g" using vars(1) funs by (auto simp: globalsOf_def global_var_ok_def)
  from builder_starts [OF P(1)] obtain gs0 where
    g0: "newBuilder V = Inr gs0" "gen_ok V gs0" "dom (ptrMap gs0) = ?sp" "retPtrMap gs0 = Map.empty" "dom (memBlockMap (genMem gs0)) \<subseteq> ?sp" by blast
  have "(GlobCtx, g) \<notin> ?sp" if "g \<in> set ?gs" for g using gval that by (auto simp: global_value_def specialValue_def)
  then have new: "unknown_globals (set ?gs) gs0" using g0(3,5) unfolding unknown_globals_def by blast
  from addGlobals_ok [OF P(1) g0(2) vars(1) funs dist [unfolded globalsOf_def] new [unfolded globalsOf_def]] obtain gs1 where
    g1: "addGlobals V gvs gs0 = Inr gs1" "gen_step V ({GlobCtx} \<times> set ?gs) ({GlobCtx} \<times> set ?gs) {} gs0 gs1"
      "\<forall>C. \<forall>g \<in> set ?gs. hasNode V gs1 C g" "\<forall>r \<in> globalRules ?gs. holds V gs1 r" unfolding globalsOf_def by blast
  note ok1 = gen_stepD(1) [OF g1(2)]
  have "\<forall>g \<in> set gvs. global_init_ok V g \<and> holds V gs1 (CAddrOf, ObjOf GlobCtx g, PtrOf GlobCtx g)"
    using vars(2) g1(4) by (auto simp: globalRules_def globalsOf_def)
  from initGlobals_ok [OF ok1 this] obtain gs2 where g2: "rfold (initGlobal V) gvs gs1 = Inr gs2" "gen_step V {} {} {} gs1 gs2" by blast
  have step: "gen_step V ({GlobCtx} \<times> set ?gs) ({GlobCtx} \<times> set ?gs) {} gs0 gs2" by (rule gen_step_trans [OF g1(2) gen_step_weaken [OF g2(2)]])
  have none: "own v = None" if "(C, v) \<in> {GlobCtx} \<times> set ?gs \<union> ?sp" for C v
    using that own P(2) gval by (auto simp: owners_ok_def global_value_def)
  have dom: "dom (ptrMap gs2) \<subseteq> {GlobCtx} \<times> set ?gs \<union> ?sp" "dom (memBlockMap (genMem gs2)) \<subseteq> {GlobCtx} \<times> set ?gs \<union> ?sp" "dom (retPtrMap gs2) \<subseteq> {}"
  proof -
    have d: "dom (ptrMap gs2) \<subseteq> dom (ptrMap gs0) \<union> {GlobCtx} \<times> set ?gs" "dom (retPtrMap gs2) \<subseteq> dom (retPtrMap gs0)"
      "dom (memBlockMap (genMem gs2)) \<subseteq> dom (memBlockMap (genMem gs0)) \<union> {GlobCtx} \<times> set ?gs" using step by (simp_all add: gen_step_def)
    show "dom (ptrMap gs2) \<subseteq> {GlobCtx} \<times> set ?gs \<union> ?sp" using d(1) unfolding g0(3) by (simp only: Un_commute)
    show "dom (memBlockMap (genMem gs2)) \<subseteq> {GlobCtx} \<times> set ?gs \<union> ?sp"
      by (rule order_trans [OF d(3)], rule Un_least, rule le_supI2 [OF g0(5)], rule Un_upper1)
    show "dom (retPtrMap gs2) \<subseteq> {}" using d(2) g0(4) by simp
  qed
  have "build_inv V own (set ?gs) (globalRules ?gs) H links (walked V H) {} {} gs2"
    unfolding build_inv_def
  proof (intro conjI)
    show "gen_ok V gs2" by (rule gen_stepD(1) [OF step])
    show "\<forall>r \<in> globalRules ?gs. holds V gs2 r" using g1(4) holds_step [OF g2(2) ok1] by blast
    show "\<forall>C. \<forall>w \<in> set ?gs. hasNode V gs2 C w" using g1(3) hasNode_step [OF g2(2)] by blast
    show "dom (ptrMap gs2) \<subseteq> ownedKeys own {}" using dom(1) none by (fastforce simp: ownedKeys_def)
    show "dom (memBlockMap (genMem gs2)) \<subseteq> ownedBlocks V own {} {}" using dom(2) none by (fastforce simp: ownedBlocks_def)
  qed (use dom(3) in auto)
  then show ?thesis using g0(1) g1(1) g2(1) by blast
qed

text \<open>The functions with a body that are no heap allocations are walked; the entry is one.\<close>

lemma builder_walks:
  assumes prog: "builder_program V own globs H icpt fits links" and calls: "program_ok V icpt (hookHeapAllocAPI H)"
    and entry: "walked V H entry" "entry_ok V entry"
  shows "walk_ok V (builderCallbacks V H) icpt (walked V H) entry (build_inv V own globs G H links (walked V H))"
proof -
  have "expanded V entry" using entry(1) by (simp add: walked_def)
  note start = builder_entry [OF prog entry(2) this]
  have "walked V H R \<longleftrightarrow> \<not> hookHeapAllocAPI H R \<and> expanded V R" for R by (auto simp: walked_def)
  then show ?thesis using builder_client_ok [OF prog] calls start unfolding walk_ok_def by blast
qed

section \<open>The builder is complete\<close>


subsection \<open>Witness\<close>

text \<open>The program of \<open>demoProgram\<close> with the model of the race detector; the global is a constant of zeros.\<close>

definition demoHeap :: heap_view where
  "demoHeap = \<lparr> ptaModule = demoProgram, isInlineAsm = (\<lambda>v. False), isNullConstant = (\<lambda>v. v = 0), ctxEvolve = (\<lambda>C I. C),
     memEnv = demoMemEnv\<lparr> initializerOf := (\<lambda>v. Some (NullOrUndef demoStruct)), isConstantGlobal := (\<lambda>v. True) \<rparr>,
     operatorOf = (\<lambda>v. if v = 11 then OpGEP else if v = 12 then OpBitCast else OtherOp),
     isInstruction = (\<lambda>v. v \<in> {10..16} \<union> {21}), isGlobalValue = (\<lambda>v. v \<in> {2, 3, 5}),
     stripCastsAndGroups = (\<lambda>v. if v = 12 then 10 else v), getAliasee = (\<lambda>v. v), getNumIndices = (\<lambda>v. 2),
     hasAllConstantIndices = (\<lambda>v. True), isNegative = (\<lambda>v. False), getReturnedArgOperand = (\<lambda>v. None),
     intrinsicID = (\<lambda>v. NotIntrinsic), valueFuel = 2,
     opcodeClass = (\<lambda>v. if v = 10 then VAllocaInst else if v = 11 then VGetElementPtrInst else if v = 12 then VBitCastInst
       else if v = 13 then VCallInst else if v = 14 then VStoreInst else if v = 15 then VLoadInst else VReturnInst),
     getReturnValue = (\<lambda>v. if v = 21 then Some 20 else None), incomingValues = (\<lambda>v. []), getSource = id, getDest = id,
     returnsPointer = (\<lambda>F. F = 3), typeId = (\<lambda>v. 0), returnTypeId = (\<lambda>v. 0), isVarArg = (\<lambda>v. False), declContextName = (\<lambda>v. None),
     functionBaseName = (\<lambda>v. ''''), stripInBounds = id,
     firstNonPHIOfNormalDest = (\<lambda>v. None), isBitCastInst = (\<lambda>v. v = 12), destType = (\<lambda>v. demoStruct), isInlined = (\<lambda>v. False),
     getSExtValue = (\<lambda>v. 0) \<rparr>"

abbreviation demoHooks :: lang_hooks where
  "demoHooks \<equiv> raceLangModel demoHeap WITH_LIMIT"

definition demoOwner :: "llvm_value \<Rightarrow> llvm_value option" where
  "demoOwner v = (if v \<in> {10..16} then Some 2 else if v \<in> {20, 21} then Some 3 else None)"

lemma demo_heap_module [simp]: "ptaModule demoHeap = demoProgram"
  by (simp add: demoHeap_def)

lemma demo_heap_env:
  "nullValue (memEnv demoHeap) = 0" "undefValue (memEnv demoHeap) = 1" "useFIMode (envOpts (memEnv demoHeap)) = False" "envKind (memEnv demoHeap) = FSKind"
  "pointeeType (memEnv demoHeap) v = demoStruct" "constantArraySize (memEnv demoHeap) v = Some 1"
  "isGlobalVar (memEnv demoHeap) v \<longleftrightarrow> v = 5" "initializerOf (memEnv demoHeap) v = Some (NullOrUndef demoStruct)"
  by (simp_all add: demoHeap_def demoMemEnv_def demoOpts_def isGlobalVar_def demoProgram_def)

lemma demo_canonical:
  "canonOf demoHeap v = (if v = 12 then 10 else v)" "ranked demoHeap" "specialValue demoHeap v \<longleftrightarrow> v \<le> 1"
  "gepValue demoHeap v \<longleftrightarrow> v = 11" "isGlobalValue demoHeap v \<longleftrightarrow> v \<in> {2, 3, 5}"
proof -
  note d = demoHeap_def demoMemEnv_def demoOpts_def demoProgram_def negativeGep_def stripNullOrUnDef_def Let_def
  show "canonOf demoHeap v = (if v = 12 then 10 else v)"
    by (simp add: canonOf_def canonicalize_def d numeral_2_eq_2)
  have "value_rank demoHeap (\<lambda>v. if v = 12 then 1 else 0)" by (auto simp: value_rank_def d)
  moreover have "plain_aliases demoHeap" by (simp add: plain_aliases_def demoProgram_def)
  ultimately show "ranked demoHeap" by (auto simp: ranked_def demo_heap_env)
  show "specialValue demoHeap v \<longleftrightarrow> v \<le> 1" by (auto simp: specialValue_def demo_heap_env)
  show "gepValue demoHeap v \<longleftrightarrow> v = 11" by (simp add: gepValue_def demoHeap_def)
  show "isGlobalValue demoHeap v \<longleftrightarrow> v \<in> {2, 3, 5}" by (simp add: demoHeap_def)
qed

lemma demo_module:
  "isDeclaration demoProgram F = False" "isIntrinsic demoProgram F = False" "isCallBase demoProgram I \<longleftrightarrow> I = 13" "hasName demoProgram v = False"
  "getFunctionList demoProgram = [3, 2]" "classOf demoProgram v = FunctionV \<longleftrightarrow> v \<in> {2, 3}" "getName demoProgram 2 = ''main''" "getName demoProgram 3 = ''f''"
  "isPointerTy demoProgram v \<longleftrightarrow> v \<in> {0, 1, 2, 3, 5, 10, 11, 12, 13, 15, 20}"
  "argsOf demoProgram F = (if F = 3 then [20] else [])" "callArgs demoProgram 13 = [12]"
  by (auto simp: demoProgram_def empty_module_def isCallBase_def argsOf_def callArgs_def)

lemma demo_bodies:
  "bodyOf demoHeap F = (if F = 2 then [10, 11, 12, 13, 14, 15, 16] else if F = 3 then [21] else [])"
  "pointerArgs demoHeap F = (if F = 3 then [20] else [])"
proof -
  show "bodyOf demoHeap F = (if F = 2 then [10, 11, 12, 13, 14, 15, 16] else if F = 3 then [21] else [])"
    by (simp add: bodyOf_def demoProgram_def empty_module_def)
  show "pointerArgs demoHeap F = (if F = 3 then [20] else [])" by (simp add: pointerArgs_def demo_module)
qed

lemma demo_classes:
  "classAt demoHeap 10 = Some VAllocaInst" "classAt demoHeap 11 = Some VGetElementPtrInst" "classAt demoHeap 12 = Some VBitCastInst"
  "classAt demoHeap 13 = Some VCallBase" "classAt demoHeap 14 = Some VStoreInst" "classAt demoHeap 15 = Some VLoadInst"
  "classAt demoHeap 16 = Some VReturnInst" "classAt demoHeap 21 = Some VReturnInst"
  by (simp_all add: classAt_def visitedAs_def Let_def demoHeap_def builderHandles_def numeral_eq_Suc delegateCallInst_def demoProgram_def)

lemma demo_direct:
  "csIsIndirectCall demoHeap 13 = False" "csCalledFunction demoHeap 13 = Inr (Some 3)" "directCall demoHeap I G \<longleftrightarrow> I = 13 \<and> G = 3"
proof -
  show a: "csIsIndirectCall demoHeap 13 = False"
    by (simp add: csIsIndirectCall_def demo_module(6) Let_def) (simp add: demoProgram_def empty_module_def)
  then show b: "csCalledFunction demoHeap 13 = Inr (Some 3)" by (simp add: csCalledFunction_def) (simp add: demoProgram_def)
  have "isInlineAsm demoHeap I = False" by (simp add: demoHeap_def)
  then show "directCall demoHeap I G \<longleftrightarrow> I = 13 \<and> G = 3" using a b by (auto simp: directCall_def demo_module)
qed

lemma demo_intercepts:
  "interceptFunction demoProgram 3 I = Inr (Some 3, EXPAND_BODY)" "isHeapAllocAPI demoProgram F = False" "interceptCallSite demoProgram F I = Inr (False, [])"
  "raceIcpt demoHeap cur pre 3 I = (Some 3, EXPAND_BODY)" "raceLinks demoHeap F I = (False, [])" "walked demoHeap demoHooks F"
proof -
  show a: "interceptFunction demoProgram 3 I = Inr (Some 3, EXPAND_BODY)"
    by (simp add: interceptFunction_def demo_module Let_def isPthreadCreate_def isFork_def isForkTeams_def isTask_def)
  show b: "isHeapAllocAPI demoProgram F = False" for F by (simp add: isHeapAllocAPI_def demo_module)
  show c: "interceptCallSite demoProgram F I = Inr (False, [])" by (simp add: interceptCallSite_def demo_module split: option.split)
  show "raceIcpt demoHeap cur pre 3 I = (Some 3, EXPAND_BODY)" by (simp add: raceIcpt_def a b)
  show "raceLinks demoHeap F I = (False, [])" by (simp add: raceLinks_def c)
  show "walked demoHeap demoHooks F" by (simp add: walked_def race_hooks expanded_def demo_module b)
qed

lemma demo_struct_type: "alloc_type_ok (memEnv demoHeap) demoStruct" "\<exists>r. resolveVecElemType (envDL (memEnv demoHeap)) demoStruct = Inr r"
proof -
  let ?E = "memEnv demoHeap"
  have sp: "envSp ?E = demoSp" by (simp add: envSp_def demoSp_def demo_heap_env fun_eq_iff)
  have f: "demoSp True = (\<lambda>_. False)" by (simp add: demoSp_def fun_eq_iff)
  have "aggType (envDL ?E) (envSp ?E) demoStruct"
    unfolding sp by (simp add: aggType_def request_ok_def f demoHeap_def demoMemEnv_def demoDL_def demoStruct_def demoPair_def roundUp_def size_t_def SIZE_MAX_def)
  moreover have "specials (envDL ?E) (envSp ?E True) True demoStruct = {}" unfolding sp f by (simp add: demoStruct_def demoPair_def)
  moreover have "envKind ?E \<noteq> CPPKind" by (simp add: demo_heap_env)
  ultimately show "alloc_type_ok ?E demoStruct" unfolding alloc_type_ok_def plain_type_def layout_type_def by blast
  show "\<exists>r. resolveVecElemType (envDL ?E) demoStruct = Inr r"
    by (simp add: resolveVecElemType_def demoStruct_def demoPair_def Let_def)
qed

lemma demo_touches:
  "touches demoHeap 10 = {10}" "touches demoHeap 11 = {11, 10}" "touches demoHeap 12 = {}" "touches demoHeap 13 = {13}"
  "touches demoHeap 14 = {13, 11}" "touches demoHeap 15 = {11, 15}" "touches demoHeap 16 = {}" "touches demoHeap 21 = {}"
proof -
  have op: "getPointerOperand demoProgram 11 = 10" "getPointerOperand demoProgram 14 = 11" "getPointerOperand demoProgram 15 = 11"
    "getOperand demoProgram 14 0 = 13" by (simp_all add: demoProgram_def)
  show "touches demoHeap 10 = {10}" "touches demoHeap 11 = {11, 10}" "touches demoHeap 12 = {}" "touches demoHeap 13 = {13}"
    "touches demoHeap 14 = {13, 11}" "touches demoHeap 15 = {11, 15}" "touches demoHeap 16 = {}" "touches demoHeap 21 = {}"
    by (simp_all add: touches_def demo_classes demo_canonical demo_module op)
qed

lemma demo_functions: "fun_ok demoHeap demoOwner {5, 3, 2} F"
proof -
  have loc: "local_value demoHeap demoOwner 2 10" "local_value demoHeap demoOwner 3 20"
    by (simp_all add: local_value_def demo_canonical demo_heap_env demoOwner_def)
  have stack: "stackType demoHeap 10 = demoStruct" by (simp add: stackType_def demo_heap_env)
  have op: "getPointerOperand demoProgram 11 = 10" "getFunction demoProgram 21 = 3" by (simp_all add: demoProgram_def)
  have ret: "getReturnValue demoHeap 16 = None" "getReturnValue demoHeap 21 = Some 20" "returnsPointer demoHeap 3" by (simp_all add: demoHeap_def)
  note inst = inst_ok_def demo_classes demo_touches demo_canonical demo_module demoOwner_def
  have "inst_ok demoHeap demoOwner 2 {5, 3, 2} 10" by (simp add: inst loc stack demo_struct_type demo_heap_env)
  moreover have "inst_ok demoHeap demoOwner 2 S 11" "inst_ok demoHeap demoOwner 2 S 12" "inst_ok demoHeap demoOwner 2 S 13"
    "inst_ok demoHeap demoOwner 2 S 14" "inst_ok demoHeap demoOwner 2 S 15" "inst_ok demoHeap demoOwner 2 S 16" for S
    by (simp_all add: inst op ret)
  moreover have "inst_ok demoHeap demoOwner 3 {5, 3, 2, 20} 21" by (simp add: inst op ret)
  ultimately show ?thesis using loc by (simp add: fun_ok_def demo_bodies demo_canonical)
qed

lemma demo_site: "site_ok demoHeap demoOwner G demoHooks (raceFits demoHeap) (raceLinks demoHeap) W 2 13 3"
proof -
  have "plain_call demoHeap 13" by (simp add: plain_call_def demo_heap_env)
  moreover have "raceFits demoHeap 3 13" by (auto simp: raceFits_def demo_intercepts Let_def)
  moreover have "plain_site demoHeap demoOwner 2 13 3"
    using demo_direct(2) by (auto simp: plain_site_def demo_module demo_canonical of_function_def demoOwner_def) (simp_all add: demoProgram_def demoHeap_def)
  ultimately show ?thesis by (simp add: site_ok_def race_hooks demo_intercepts)
qed

lemma demo_builder: "builder_program demoHeap demoOwner {5, 3, 2} demoHooks (raceIcpt demoHeap) (raceFits demoHeap) (raceLinks demoHeap)"
proof -
  have "owners_ok demoHeap demoOwner" by (simp add: owners_ok_def demo_canonical demoOwner_def)
  moreover have "hooks_ok demoHeap demoHooks (raceIcpt demoHeap) (raceFits demoHeap) (raceLinks demoHeap)"
    by (rule race_hooks_ok [OF demo_canonical(2)]) (auto simp: demo_direct demo_intercepts)
  moreover have "\<not> siteValue demoHeap (raceIcpt demoHeap) C I v" for C I v
    by (auto simp: siteValue_def demo_direct demo_module demo_intercepts)
  moreover have "F = 2" if "13 \<in> set (bodyOf demoHeap F)" for F using that by (auto simp: demo_bodies split: if_splits)
  ultimately show ?thesis
    unfolding builder_program_def using demo_canonical(2) demo_functions demo_site by (auto simp: demo_direct demo_intercepts)
qed

lemma demo_globals: "globals_ok demoHeap demoOwner [5]" "globalsOf demoHeap [5] = [5, 3, 2]"
proof -
  show g: "globalsOf demoHeap [5] = [5, 3, 2]" by (simp add: globalsOf_def demo_module)
  have "global_var_ok demoHeap 5"
    by (simp add: global_var_ok_def global_value_def demo_canonical demo_heap_env demo_struct_type keepsArrays_def)
  moreover have "global_init_ok demoHeap 5" using demo_struct_type(2) by (simp add: global_init_ok_def demo_heap_env)
  ultimately show "globals_ok demoHeap demoOwner [5]"
    unfolding globals_ok_def g by (simp add: demo_heap_env demoOwner_def global_value_def demo_canonical demo_module)
qed

lemma demo_keys: "reachKeys demoHeap (raceIcpt demoHeap) (walked demoHeap demoHooks) 2 = {(InitCtx, 2), (InitCtx, 3)}" (is "?R = _")
proof -
  have ctx: "ctxEvolve demoHeap C I = C" for C I by (simp add: demoHeap_def)
  have "(C, F) = (InitCtx, 2) \<or> (C, F) = (InitCtx, 3)" if "(C, F) \<in> ?R" for C F
    using that by induction (auto simp: demo_direct demo_intercepts ctx)
  moreover have start: "(InitCtx, 2) \<in> ?R" by (rule reachKeys.start)
  moreover have "(InitCtx, 3) \<in> ?R"
    using reachKeys.call [OF start, of 13 3 3 EXPAND_BODY] by (simp add: demo_intercepts demo_bodies demo_direct demo_module ctx)
  ultimately show ?thesis by auto
qed


end
