(* ===== verification/Spec2Isabelle.thy ===== *)
theory Spec2Isabelle
  imports RaceDetect TraceBuild AllocProps CanonicalOk GenProps
begin

text \<open>
  OpenRace: a static data race detector over LLVM IR.

  \<^bold>\<open>The program.\<close> \<open>race::detectRaces\<close> (src/RaceDetect.cpp) preprocesses a module, solves a
  pointer analysis on it, walks the program from its entry to build a trace of events for every
  thread (src/Trace), runs analyses on the trace (src/Analysis: shared memory, happens-before,
  lock sets, OpenMP regions, thread-local storage, alias information) and reports the pairs of
  accesses that no analysis discards (src/Reporter). The IR of the trace is made by per-function
  summaries (src/IR), which use recognisers of runtime functions (src/LanguageModel). All paths
  in these theories are relative to the directory \<open>src\<close> of the repository.

  \<^bold>\<open>Conventions.\<close> A C++ run is a function into \<open>'a result\<close> (Prelude): \<open>Inl\<close> of a failure (an
  assertion, a null dereference, an out-of-range access, a thrown exception, or \<open>Diverges\<close>) or \<open>Inr\<close>
  of the value and the new state. Code that changes members takes and returns a record of them.
  LLVM is not part of the repository: a module is a record of the queries the sources make
  (LLVMView), a value is a number, and so are the answers of the pointer analysis inside the detector
  (\<open>pta\<close>), of scalar evolution (\<open>array_analysis\<close>), of scoped alias information and of debug
  information. \<open>std::map\<close> and \<open>std::set\<close> are ascending lists with the operations of Prelude; a
  sparse bit vector is the ascending list of its members.

  \<^bold>\<open>Theories and the code they model.\<close>
  \<^item> Prelude: failures, the error monad (\<open>rbind\<close>, \<open>rfold\<close>, \<open>rassert\<close>), ordered maps and sets.
  \<^item> LLVMView: the queries of LLVM. LangModel: src/LanguageModel and the decisions of \<open>RaceModel\<close>.
  \<^item> IRModel, IRBuilder: src/IR, the types of the race IR and their ranges, every element's
    operands, and \<open>generateFunctionSummary\<close> with its cache (a summary lists exactly the accesses
    of the function; the cache is transparent).
  \<^item> TraceModel, OpenMPRuntime, TraceBuild: src/Trace, events and threads, the OpenMP state machine
    of a thread under construction, and the recursive walk. Every built trace is well formed
    (\<open>wf_trace\<close>), and the walk's result does not depend on its fuel.
  \<^item> SyncGraph, HappensBefore: src/Analysis/HappensBeforeGraph, the sync events and edges, the search
    that precomputes reachability, and the constructor; \<open>canReach\<close> is the reflexive transitive
    closure of program order and of the fork, join and barrier edges.
  \<^item> LockSet, SharedMemory, AliasAnalyses, OpenMPRegions, OpenMPBlocks: the other analyses, each with
    its exact meaning over the events of a trace.
  \<^item> RaceDetect: the loop over shared objects and the order of the tests; Reporter: races, their order
    and de-duplication, call stacks; Coverage: src/Statistics. The section below composes them.
  \<^item> CallContexts, PointsTo, ConstraintGraph, GraphOps, SCCIterator (src/PointerAnalysis/Context,
    Solver/PointsTo, Graph): contexts (ring buffer, call-site, origin and hybrid contexts and their
    tables); the two implementations of points-to sets and the contract they share; the graph
    of constraints with super nodes, its operations as a step relation over what clients call
    (\<open>cgReach\<close>) and the invariant \<open>graph_wf\<close>; the iterator over strongly connected components,
    proved to deliver exactly the components of the nodes its work list reaches, successors first.
  \<^item> Solver, SolverInv, SolverCopy, SolverSCC, SolverWork, SolverFix (src/PointerAnalysis/Solver): the
    partial-update solver, phase by phase; the collapse of components keeps what the graph means;
    the inner solver ends and its result is a fixed point, within the contracts \<open>index_ok\<close>,
    \<open>special_ok\<close> and \<open>ssa_ok\<close> on its parameters and the graph.
  \<^item> MemLayout, LayoutBuild, LayoutOk, LayoutFacts (Models/MemoryModel/FieldSensitive/Layout): the
    layouts of types, their builder and its cache, and what a built layout says of every offset.
    TypeUtil (Util/Util.h and TypeMetaData.cpp): questions about types.
  \<^item> MemBlocks, MemIndex, MemAlloc, MemProps, AllocOk, AllocProps (Models/MemoryModel/FieldSensitive and
    CppMemModel): blocks and the objects in them, indexing by a \<open>getelementptr\<close>, allocation of every kind
    of object with the nodes and constraints it makes, and the initializers of globals; allocation
    keeps memory and graph in step, and memory meets the solver's contract.
  \<^item> CallGraphs, CallGraphOk (Graph/CallGraph, Program/CtxModule.h): nodes for functions and indirect
    calls in contexts, the walk from the entry; for a client within its contract (\<open>client_ok\<close>) the graph has
    exactly the nodes and edges of the calls that are reached, and the walk ends.
  \<^item> Canonical, CanonicalOk (Models/MemoryModel/Canonicalizer.cpp): the value that stands for all
    casts of a pointer. InstVisitor (Util/CtxInstVisitor.h): the class that handles an instruction.
  \<^item> ConsGen, CallCons, LangHooks (Models/LanguageModel): the builder of constraints from
    instructions, functions, calls, globals and vector operations, which is the client of the
    call graph; the resolution of function pointers; the default language model and that of the
    race detector, with the types of heap objects.
  \<^item> GenGraph, GenOk, GenRules, GenInst, GenFun, GenCalls, GenClient, GenStart, GenInit, GenHooks, GenProps: the
    builder is right. The graph only grows (GenGraph), and its tables, memory and edges stay well formed (\<open>gen_ok\<close>,
    GenOk); what an instruction (\<open>instRules\<close>, GenRules, GenInst), a function (GenFun), a call (\<open>siteRules\<close>, GenCalls, GenClient)
    or a global (GenStart, GenInit) says is put into it; the builder's callbacks keep the contract of the call graph
    (\<open>builder_client_ok\<close>); both language models keep that of the builder (\<open>hooks_ok\<close>, GenHooks). GenProps puts it together
    from the empty graph on.

  \<^bold>\<open>Interfaces.\<close> \<open>pts_trait\<close> (PointsTo) is the contract of \<open>PTSTrait\<close>, interpreted on both
  implementations; \<open>interned\<close> (CallContexts) the tables of contexts, interpreted on call-site and hybrid
  contexts; \<open>edge_store\<close> (SyncGraph) what the happens-before constructor needs of the graph.

  \<^bold>\<open>Bounds and fuel.\<close> \<open>buildTrace\<close> has fuel for the depth of nested calls and forks; any fuel that
  gives a trace gives the same trace, and where the code recurses for ever there is none. The
  component iterator uses twice the number of nodes and edges per call, which is proved enough
  (\<open>sccFuel\<close>). \<open>getSuperNode\<close> uses the number of nodes, enough because super nodes are acyclic.
  Loops over work lists have termination proofs. Counters of 32 bits (visit numbers, ring
  indices) carry the bound they need as a hypothesis.

  For the solver's loop some fuel is proved to be enough, with the same result for any more; the walk of
  the call graph needs one step for each function and context that is reached. The canonicalizer
  has fuel in its view (\<open>valueFuel\<close>), enough where casts, aliases and negative steps go down a rank.

  \<^bold>\<open>Not modelled.\<close> Array index analysis decides with scalar evolution, and the preprocessing passes
  rewrite IR with LLVM's builders: both are mostly calls into LLVM. Printing, JSON, logging and
  the command line are input and output only. Of the pointer analysis, the field-insensitive
  memory model and the alias queries after solving are left out; the alternation of solving and resolving
  function pointers is modelled step by step (CallCons), not as one loop. What is proved of the builder is for
  programs without calls of vector functions, without pointers in initialisers and with types the allocator covers, outside the
  field-insensitive mode (\<open>builder_program\<close>, \<open>globals_ok\<close>); the definitions cover these, too, but for the
  field-insensitive memory model.
\<close>

section \<open>The whole run\<close>

text \<open>
  \<open>race::detectRaces\<close>: build the trace of the module, then run the analyses on it and
  report. \<open>A\<close> stands for the pointer analysis and \<open>entry\<close> for its entry node.
\<close>

definition raceCheck ::
  "llvm_module \<Rightarrow> pta \<Rightarrow> nat \<Rightarrow> cg_node \<Rightarrow> oracles \<Rightarrow> bool \<Rightarrow> race list result" where
  "raceCheck M A fuel entry orc cov = rbind (programTrace M A fuel entry) (\<lambda>P. detectRaces P orc cov)"



end
